(* ===== verification/Prelude.thy ===== *)
theory Prelude
  imports "HOL-Library.Word" "HOL-Library.Multiset"
begin

unbundle bit_operations_syntax

text \<open>
  The shared part of the development: the names of the machine integers of the C and
  C++ sources (the bundle targets 64-bit Windows, so \<open>ulonglong\<close> and \<open>size_t\<close> are
  64 bits wide, \<open>uint\<close>, \<open>DWORD\<close> and \<open>ulong\<close> are 32 bits wide), the
  collections the component theories feed, and the generic lemmas on numbers, words and
  lists that more than one component needs.
\<close>

section \<open>Names of the machine types\<close>

type_synonym uchar = "8 word"
type_synonym uint16 = "16 word"
type_synonym uint = "32 word"
type_synonym ulonglong = "64 word"

text \<open>The size of a pointer in bytes.\<close>

definition SIZEOF_PTR :: nat where "SIZEOF_PTR = 8"

section \<open>Collections\<close>

named_theorems heap_simps \<open>reads and writes of the pointer heaps\<close>
named_theorems bit_facts \<open>bit patterns of the results of the bit routines\<close>
named_theorems wf_intros \<open>preservation of the well-formedness invariants\<close>

section \<open>Numbers and their bits\<close>

lemma unat_drop_bit: "unat (drop_bit n w) = unat w div 2 ^ n" for w :: "'a::len word"
  unfolding unat_drop_bit_eq by (rule drop_bit_eq_div)

lemma unat_take_bit: "unat (take_bit n w) = unat w mod 2 ^ n" for w :: "'a::len word"
  unfolding unsigned_take_bit_eq by (rule take_bit_eq_mod)

lemma unat_bound: "unat w < 2 ^ LENGTH('a)" for w :: "'a::len word"
  by (rule unsigned_less)

lemma bit_unat: "bit (unat w) i = bit w i" for w :: "'a::len word"
  by (simp add: bit_unsigned_iff)

lemma unat_minus_1: "0 < unat w \<Longrightarrow> unat (w - 1) = unat w - 1" for w :: "'a::len word"
  by (metis unat_0 unat_minus_one less_irrefl)

lemma unat_incr: "unat w < unat v \<Longrightarrow> unat (w + 1) = unat w + 1" for w v :: "'a::len word"
proof -
  assume "unat w < unat v"
  then have "Suc (unat w) < 2 ^ LENGTH('a)" using unat_bound [of v] by linarith
  then show ?thesis by (simp add: unat_word_ariths)
qed

text \<open>The two readings of 64 bits.\<close>

lemma sint_uint_64: "sint w = (if uint w < 2 ^ 63 then uint w else uint w - 2 ^ 64)" for w :: "64 word"
proof -
  have b: "0 \<le> uint w" "uint w < 2 ^ 64" using uint_lt2p[of w] by simp_all
  have "(uint w + 2 ^ 63) mod 2 ^ 64 = uint w - 2 ^ 63" if "\<not> uint w < 2 ^ 63"
    using that b minus_mod_self2[of "uint w + 2 ^ 63" "2 ^ 64 :: int"] by simp
  with b show ?thesis
    by (auto simp: sint_uint signed_take_bit_eq_take_bit_shift take_bit_eq_mod)
qed

lemma sint_unat: "sint w = int (unat w)" if "unat w < 2 ^ 63" for w :: "64 word"
proof -
  have "uint w < 2 ^ 63" using of_nat_less_iff [where 'a = int, of "unat w" "2 ^ 63"] that by simp
  then show ?thesis by (simp add: sint_uint_64)
qed

lemma sint_of_nat_small: "n < 2 ^ 31 \<Longrightarrow> sint (of_nat n :: 32 word) = int n"
  by (simp add: sint_uint uint_nat unat_of_nat signed_take_bit_int_eq_self)

lemma sint_unat_32: "unat w < 2 ^ 31 \<Longrightarrow> sint w = int (unat w)" for w :: "32 word"
  using sint_of_nat_small [of "unat w"] by simp

lemma bit_add_shifted:
  "bit (x + 2 ^ n * y) i = (if i < n then bit x i else bit y (i - n))"
  if "x < 2 ^ n" for x y i :: nat
proof -
  have "int (x + 2 ^ n * y) = concat_bit n (int x) (int y)"
    using that by (simp add: concat_bit_eq push_bit_eq_mult take_bit_int_eq_self mult.commute)
  then have "bit (int (x + 2 ^ n * y)) i = (if i < n then bit (int x) i else bit (int y) (i - n))"
    by (auto simp add: bit_concat_bit_iff)
  then show ?thesis
    by (simp only: bit_of_nat_iff_bit)
qed

lemma and_split_nat:
  fixes d k r m :: nat
  assumes "d < 2 ^ n" "k < 2 ^ n"
  shows "(d + 2 ^ n * r) AND (k + 2 ^ n * m) = (d AND k) + 2 ^ n * (r AND m)"
proof -
  have "d AND k = take_bit n (d AND k)" using assms by (simp add: take_bit_nat_eq_self)
  then have "d AND k < 2 ^ n" by (metis take_bit_nat_less_exp)
  then show ?thesis using assms
    by (intro bit_eqI) (simp add: bit_add_shifted bit_and_iff)
qed

lemma and_not_mask_neq_0: "w AND NOT (mask n) \<noteq> 0 \<longleftrightarrow> 2 ^ n \<le> unat w" for w :: "'a::len word"
proof -
  have "w AND NOT (mask n) = push_bit n (drop_bit n w)"
    by (rule bit_word_eqI) (auto simp: bit_simps)
  also have "\<dots> = 0 \<longleftrightarrow> drop_bit n w = 0"
  proof
    assume "push_bit n (drop_bit n w) = 0"
    then have "drop_bit n (push_bit n (drop_bit n w)) = 0" by simp
    moreover have "drop_bit n (push_bit n (drop_bit n w)) = drop_bit n w"
      by (rule bit_word_eqI) (auto simp: bit_simps dest: bit_imp_le_length)
    ultimately show "drop_bit n w = 0" by simp
  qed simp
  also have "\<dots> \<longleftrightarrow> unat (drop_bit n w) = 0"
    by (simp only: unat_eq_0)
  also have "\<dots> \<longleftrightarrow> unat w < 2 ^ n"
    by (simp only: unat_drop_bit div_eq_0_iff) simp
  finally show ?thesis by auto
qed

text \<open>The number of set bits among the \<open>n\<close> lowest ones.\<close>

definition bitsum :: "nat \<Rightarrow> 'a::semiring_bits \<Rightarrow> nat" where
  "bitsum n x = (\<Sum>i<n. of_bool (bit x i))"

lemma bitsum_add: "bitsum (m + n) x = bitsum m x + bitsum n (x div 2 ^ m)" for x :: nat
proof -
  have "(\<Sum>i<m + n. of_bool (bit x i)) = (\<Sum>i<m. of_bool (bit x i)) + (\<Sum>i<n. (of_bool (bit x (m + i)) :: nat))"
    by (induction n) simp_all
  then show ?thesis
    by (simp add: bitsum_def bit_drop_bit_eq flip: drop_bit_eq_div)
qed

lemma bitsum_cong: "(\<And>i. i < n \<Longrightarrow> bit x i = bit y i) \<Longrightarrow> bitsum n x = bitsum n y"
  by (simp add: bitsum_def)

lemma bitsum_unat: "bitsum n (unat w) = bitsum n w" for w :: "'a::len word"
  by (simp add: bitsum_def bit_unat)

lemma bitsum_card: "bitsum n x = card {i. i < n \<and> bit x i}"
proof -
  have "{i. i < n \<and> bit x i} = {..<n} \<inter> Collect (bit x)" by auto
  then show ?thesis by (simp add: bitsum_def)
qed

end
