(* ===== verification/My_Bit.thy ===== *)
theory My_Bit
  imports Prelude
begin

text \<open>
  \<open>my_bit.h\<close>: the bit routines the server's bitmaps and integer types are built on.
  Each function is translated at the width of the C code; the lemmas relate the
  branch-free computations to the obvious definitions (highest bit, number of bits,
  next power of two, reversal).
\<close>

section \<open>Definitions\<close>

definition my_bit_log2_hex_digit :: "uchar \<Rightarrow> uint" where
  "my_bit_log2_hex_digit value =
     (if value AND 0x0C \<noteq> 0 then (if value AND 0x08 \<noteq> 0 then 3 else 2)
      else (if value AND 0x02 \<noteq> 0 then 1 else 0))"

definition my_bit_log2_uint8 :: "uchar \<Rightarrow> uint" where
  "my_bit_log2_uint8 value =
     (if value AND 0xF0 \<noteq> 0 then my_bit_log2_hex_digit (drop_bit 4 value) + 4
      else my_bit_log2_hex_digit value)"

definition my_bit_log2_uint16 :: "uint16 \<Rightarrow> uint" where
  "my_bit_log2_uint16 value =
     (if value AND 0xFF00 \<noteq> 0 then my_bit_log2_uint8 (ucast (drop_bit 8 value)) + 8
      else my_bit_log2_uint8 (ucast value))"

definition my_bit_log2_uint32 :: "uint \<Rightarrow> uint" where
  "my_bit_log2_uint32 value =
     (if value AND 0xFFFF0000 \<noteq> 0 then my_bit_log2_uint16 (ucast (drop_bit 16 value)) + 16
      else my_bit_log2_uint16 (ucast value))"

definition my_bit_log2_uint64 :: "ulonglong \<Rightarrow> uint" where
  "my_bit_log2_uint64 value =
     (if value AND 0xFFFFFFFF00000000 \<noteq> 0 then my_bit_log2_uint32 (ucast (drop_bit 32 value)) + 32
      else my_bit_log2_uint32 (ucast value))"

definition my_bit_log2_size_t :: "ulonglong \<Rightarrow> uint" where
  "my_bit_log2_size_t value = my_bit_log2_uint64 value"

definition my_count_bits_uint32 :: "uint \<Rightarrow> uint" where
  "my_count_bits_uint32 v0 =
     (let v1 = v0 - (drop_bit 1 v0 AND 0x55555555);
          v2 = (v1 AND 0x33333333) + (drop_bit 2 v1 AND 0x33333333)
      in drop_bit 24 (((v2 + drop_bit 4 v2) AND 0xF0F0F0F) * 0x1010101))"

definition my_count_bits :: "ulonglong \<Rightarrow> uint" where
  "my_count_bits x = my_count_bits_uint32 (ucast x) + my_count_bits_uint32 (ucast (drop_bit 32 x))"

definition my_round_up_to_next_power :: "uint \<Rightarrow> uint" where
  "my_round_up_to_next_power v =
     (let v = v - 1;
          v = v OR drop_bit 1 v;
          v = v OR drop_bit 2 v;
          v = v OR drop_bit 4 v;
          v = v OR drop_bit 8 v;
          v = v OR drop_bit 16 v
      in v + 1)"

definition my_clear_highest_bit :: "uint \<Rightarrow> uint" where
  "my_clear_highest_bit v =
     (let w = drop_bit 1 v;
          w = w OR drop_bit 1 w;
          w = w OR drop_bit 2 w;
          w = w OR drop_bit 4 w;
          w = w OR drop_bit 8 w;
          w = w OR drop_bit 16 w
      in v AND w)"

text \<open>
  \<open>my_reverse_bits\<close> reads a table that another object file defines
  (\<open>_my_bits_reverse_table\<close> is only declared here), so the table is an argument.
\<close>

definition my_reverse_bits :: "(nat \<Rightarrow> uchar) \<Rightarrow> uint \<Rightarrow> uint" where
  "my_reverse_bits table key =
     push_bit 24 (ucast (table (unat (key AND 255)))) OR
     push_bit 16 (ucast (table (unat (drop_bit 8 key AND 255)))) OR
     push_bit 8 (ucast (table (unat (drop_bit 16 key AND 255)))) OR
     ucast (table (unat (drop_bit 24 key)))"

text \<open>A shift by a negative amount or by 64 and more is undefined in C: \<open>None\<close>.\<close>

definition my_set_bits :: "int \<Rightarrow> ulonglong option" where
  "my_set_bits n =
     (if 0 \<le> n - 1 \<and> n - 1 < 64 then Some (push_bit 1 (push_bit (nat (n - 1)) 1 - 1) OR 1)
      else None)"

definition last_byte_mask :: "uint \<Rightarrow> uchar" where
  "last_byte_mask bits =
     (let used = (bits - 1) AND 7 in ucast (push_bit (unat used) (2 :: uint) - 1))"

definition last_bit :: "nat list" where
  "last_bit = [32, 0, 1, 0, 2, 0, 1, 0, 3, 0, 1, 0, 2, 0, 1, 0]"

text \<open>
  The generic branch of \<open>my_find_first_bit\<close>; its loop shifts until a non-zero nibble
  shows up. A shift by 64 or more, undefined in C, ends the model's loop with \<open>None\<close>.
\<close>

function find_first_bit_loop :: "ulonglong \<Rightarrow> nat \<Rightarrow> nat option" where
  "find_first_bit_loop n shift =
     (if 64 \<le> shift then None
      else let b = last_bit ! unat (drop_bit shift n AND 0xF)
           in if b = 32 then find_first_bit_loop n (shift + 4) else Some (shift + b))"
  by pat_completeness auto
termination by (relation "measure (\<lambda>(n, shift). 64 - shift)") auto

declare find_first_bit_loop.simps [simp del]

definition my_find_first_bit :: "ulonglong \<Rightarrow> nat option" where
  "my_find_first_bit n = (if n = 0 then Some 64 else find_first_bit_loop n 0)"

section \<open>The highest bit\<close>

definition highest_bit :: "nat \<Rightarrow> nat \<Rightarrow> bool" where
  "highest_bit k n \<longleftrightarrow> 2 ^ k \<le> n \<and> n < 2 ^ Suc k"

lemma highest_bit_shift: "highest_bit k (n div 2 ^ m) \<Longrightarrow> highest_bit (k + m) n"
  by (auto simp: highest_bit_def power_add less_eq_div_iff_mult_less_eq div_less_iff_less_mult mult.assoc)

lemma highest_bit_bound: "highest_bit k n \<Longrightarrow> n < 2 ^ m \<Longrightarrow> k < m"
  by (metis highest_bit_def le_less_trans one_less_numeral_iff power_less_imp_less_exp semiring_norm(76))

lemma highest_bit_unique: "highest_bit k n \<Longrightarrow> highest_bit l n \<Longrightarrow> k = l"
  using highest_bit_bound[of k n "Suc l"] highest_bit_bound[of l n "Suc k"]
  by (auto simp: highest_bit_def)

lemma log2_hex_digit: "0 < unat v \<Longrightarrow> unat v < 16 \<Longrightarrow> highest_bit (unat (my_bit_log2_hex_digit v)) (unat v)"
proof -
  assume v: "0 < unat v" "unat v < 16"
  have "\<forall>n \<in> set [1..<16]. highest_bit (unat (my_bit_log2_hex_digit (of_nat n))) n"
    by code_simp
  then have "highest_bit (unat (my_bit_log2_hex_digit (of_nat (unat v)))) (unat v)"
    using v by (metis One_nat_def Suc_leI atLeastLessThan_iff set_upt)
  then show ?thesis by simp
qed

text \<open>One halving step: the upper half when it is not zero, the lower one otherwise.\<close>

lemma log2_step:
  fixes v :: "'a::len word" and f :: "'b::len word \<Rightarrow> uint"
  assumes hi: "2 ^ m \<le> unat v \<Longrightarrow> r = f (ucast (drop_bit m v)) + of_nat m"
    and lo: "unat v < 2 ^ m \<Longrightarrow> r = f (ucast v)"
    and f: "\<And>w. 0 < unat w \<Longrightarrow> unat w < 2 ^ m \<Longrightarrow> highest_bit (unat (f w)) (unat w)"
    and len: "m \<le> LENGTH('b)" "m \<le> 32" and v: "0 < unat v" "unat v < 2 ^ (2 * m)"
  shows "highest_bit (unat r) (unat v)"
proof (cases "2 ^ m \<le> unat v")
  case True
  let ?w = "ucast (drop_bit m v) :: 'b word"
  have lt: "unat v div 2 ^ m < 2 ^ m"
    using v(2) by (simp add: div_less_iff_less_mult mult_2 power_add)
  also have "(2::nat) ^ m \<le> 2 ^ LENGTH('b)" using len by simp
  finally have w: "unat ?w = unat v div 2 ^ m"
    by (simp add: unsigned_ucast_eq take_bit_nat_eq_self unat_drop_bit)
  with True lt have hb: "highest_bit (unat (f ?w)) (unat v div 2 ^ m)"
    using f[of ?w] by (simp add: div_greater_zero_iff)
  then have "unat (f ?w) < m" using lt by (rule highest_bit_bound)
  with len have "unat (f ?w) + m < 2 ^ 32" by simp
  then have "unat (f ?w + of_nat m) = unat (f ?w) + m"
    using len by (simp add: unat_word_ariths unat_of_nat)
  with hb hi[OF True] show ?thesis by (simp add: highest_bit_shift)
next
  case False
  have "unat v < 2 ^ LENGTH('b)" using False len(1)
    by (meson le_less_trans less_le_trans not_le power_increasing_iff one_less_numeral_iff semiring_norm(76) order.strict_trans2 one_le_numeral power_increasing)
  then have "unat (ucast v :: 'b word) = unat v"
    by (simp add: unsigned_ucast_eq take_bit_nat_eq_self)
  with f[of "ucast v"] lo False v show ?thesis by simp
qed

lemma log2_uint8: "0 < unat v \<Longrightarrow> highest_bit (unat (my_bit_log2_uint8 v)) (unat v)"
proof -
  assume v: "0 < unat v"
  have "(0xF0 :: uchar) = NOT (mask 4)" by (simp add: mask_eq_exp_minus_1)
  then have if4: "v AND 0xF0 \<noteq> 0 \<longleftrightarrow> 2 ^ 4 \<le> unat v" by (simp only: and_not_mask_neq_0)
  show ?thesis
  proof (rule log2_step[where m = 4 and f = my_bit_log2_hex_digit])
    show "unat v < 2 ^ (2 * 4)" using unat_bound[of v] by simp
  qed (use v if4 in \<open>auto simp: my_bit_log2_uint8_def log2_hex_digit\<close>)
qed

lemma log2_uint16: "0 < unat v \<Longrightarrow> highest_bit (unat (my_bit_log2_uint16 v)) (unat v)"
proof -
  assume v: "0 < unat v"
  have "(0xFF00 :: uint16) = NOT (mask 8)" by (simp add: mask_eq_exp_minus_1)
  then have if8: "v AND 0xFF00 \<noteq> 0 \<longleftrightarrow> 2 ^ 8 \<le> unat v" by (simp only: and_not_mask_neq_0)
  show ?thesis
  proof (rule log2_step[where m = 8 and f = my_bit_log2_uint8])
    show "unat v < 2 ^ (2 * 8)" using unat_bound[of v] by simp
  qed (use v if8 in \<open>auto simp: my_bit_log2_uint16_def log2_uint8\<close>)
qed

lemma log2_uint32: "0 < unat v \<Longrightarrow> highest_bit (unat (my_bit_log2_uint32 v)) (unat v)"
proof -
  assume v: "0 < unat v"
  have "(0xFFFF0000 :: uint) = NOT (mask 16)" by (simp add: mask_eq_exp_minus_1)
  then have if16: "v AND 0xFFFF0000 \<noteq> 0 \<longleftrightarrow> 2 ^ 16 \<le> unat v" by (simp only: and_not_mask_neq_0)
  show ?thesis
  proof (rule log2_step[where m = 16 and f = my_bit_log2_uint16])
    show "unat v < 2 ^ (2 * 16)" using unat_bound[of v] by simp
  qed (use v if16 in \<open>auto simp: my_bit_log2_uint32_def log2_uint16\<close>)
qed

lemma log2_uint64: "0 < unat v \<Longrightarrow> highest_bit (unat (my_bit_log2_uint64 v)) (unat v)"
proof -
  assume v: "0 < unat v"
  have "(0xFFFFFFFF00000000 :: ulonglong) = NOT (mask 32)" by (simp add: mask_eq_exp_minus_1)
  then have if32: "v AND 0xFFFFFFFF00000000 \<noteq> 0 \<longleftrightarrow> 2 ^ 32 \<le> unat v" by (simp only: and_not_mask_neq_0)
  show ?thesis
  proof (rule log2_step[where m = 32 and f = my_bit_log2_uint32])
    show "unat v < 2 ^ (2 * 32)" using unat_bound[of v] by simp
  qed (use v if32 in \<open>auto simp: my_bit_log2_uint64_def log2_uint32\<close>)
qed

section \<open>Counting bits\<close>

text \<open>
  The parallel count works nibble by nibble: \<open>nib_pairs\<close> is what the first line leaves
  in a nibble, \<open>nib_count\<close> what the second line makes of it.
\<close>

definition nib_pairs :: "nat \<Rightarrow> nat" where
  "nib_pairs x = x - ((x div 2) AND 5)"

lemma nib_facts:
  fixes x c :: nat assumes "x < 16"
  shows "(x div 2 + 8 * (c mod 2)) AND 5 = (x div 2) AND 5"
    and "(x div 2) AND 5 \<le> x" and "nib_pairs x < 16"
    and "(nib_pairs x AND 3) + ((nib_pairs x div 4) AND 3) = bitsum 4 x"
    and "(nib_pairs x div 4 + 4 * (c mod 4)) AND 3 = (nib_pairs x div 4) AND 3"
    and "bitsum 4 x \<le> 4"
proof -
  have "\<forall>x \<in> set [0..<16]. (\<forall>d \<in> set [0..<4]. (x div 2 + 8 * (d mod 2)) AND 5 = (x div 2) AND 5 \<and>
      (nib_pairs x div 4 + 4 * d) AND 3 = (nib_pairs x div 4) AND 3) \<and>
      (x div 2) AND 5 \<le> x \<and> nib_pairs x < 16 \<and>
      (nib_pairs x AND 3) + ((nib_pairs x div 4) AND 3) = bitsum 4 x \<and> bitsum 4 x \<le> 4"
    unfolding bitsum_def nib_pairs_def by code_simp
  moreover have "x \<in> set [0..<16]" "c mod 4 \<in> set [0..<4]" using assms by auto
  moreover have "c mod 4 mod 2 = c mod 2" by (simp add: mod_mod_cancel)
  ultimately show "(x div 2 + 8 * (c mod 2)) AND 5 = (x div 2) AND 5"
    and "(x div 2) AND 5 \<le> x" and "nib_pairs x < 16"
    and "(nib_pairs x AND 3) + ((nib_pairs x div 4) AND 3) = bitsum 4 x"
    and "(nib_pairs x div 4 + 4 * (c mod 4)) AND 3 = (nib_pairs x div 4) AND 3"
    and "bitsum 4 x \<le> 4"
    by metis+
qed

fun nibs :: "nat \<Rightarrow> nat \<Rightarrow> nat list" where
  "nibs 0 n = []"
| "nibs (Suc k) n = n mod 16 # nibs k (n div 16)"

fun of_nibs :: "nat list \<Rightarrow> nat" where
  "of_nibs [] = 0"
| "of_nibs (x # xs) = x + 16 * of_nibs xs"

lemma of_nibs_nibs: "of_nibs (nibs k n) = n mod 16 ^ k"
proof (induction k arbitrary: n)
  case (Suc k)
  then show ?case by (simp add: mod_mult2_eq[of n 16 "16 ^ k"])
qed simp

lemma set_nibs: "x \<in> set (nibs k n) \<Longrightarrow> x < 16"
  by (induction k arbitrary: n) auto

lemma length_nibs: "length (nibs k n) = k"
  by (induction k arbitrary: n) auto

lemma bitsum_nibs: "bitsum (4 * k) n = sum_list (map (bitsum 4) (nibs k n))"
proof (induction k arbitrary: n)
  case 0
  show ?case by (simp add: bitsum_def)
next
  case (Suc k)
  have "bitsum 4 n = bitsum 4 (n mod 16)"
  proof (rule bitsum_cong)
    fix i :: nat assume "i < 4"
    then have "bit (take_bit 4 n) i = bit n i" by (simp add: bit_take_bit_iff)
    then show "bit n i = bit (n mod 16) i" by (simp add: take_bit_eq_mod)
  qed
  with Suc bitsum_add[of 4 "4 * k" n] show ?case by simp
qed

lemma of_nibs_and:
  "length xs = length ys \<Longrightarrow> \<forall>x \<in> set xs. x < 16 \<Longrightarrow> \<forall>y \<in> set ys. y < 16 \<Longrightarrow>
   of_nibs xs AND of_nibs ys = of_nibs (map2 (AND) xs ys)"
proof (induction xs ys rule: list_induct2)
  case (Cons x xs y ys)
  then show ?case using and_split_nat[of x 4 y "of_nibs xs" "of_nibs ys"] by simp
qed simp

lemma div_shifted:
  "(a + 16 * r) div 2 = a div 2 + 8 * (r mod 2) + 2 ^ 4 * (r div 2)"
  "(a + 16 * r) div 4 = a div 4 + 4 * (r mod 4) + 2 ^ 4 * (r div 4)" for a r :: nat
proof -
  have "(a + 16 * r) div 2 = a div 2 + 8 * r" "(a + 16 * r) div 4 = a div 4 + 4 * r"
    using div_mult_self2[of 2 a "8 * r"] div_mult_self2[of 4 a "4 * r"] by simp_all
  moreover have "8 * r = 8 * (r mod 2) + 16 * (r div 2)"
    using mod_mult_div_eq[of r 2] by linarith
  moreover have "4 * r = 4 * (r mod 4) + 16 * (r div 4)"
    using mod_mult_div_eq[of r 4] by linarith
  ultimately show "(a + 16 * r) div 2 = a div 2 + 8 * (r mod 2) + 2 ^ 4 * (r div 2)"
    "(a + 16 * r) div 4 = a div 4 + 4 * (r mod 4) + 2 ^ 4 * (r div 4)" by simp_all
qed

lemma of_nibs_half:
  "\<forall>x \<in> set xs. x < 16 \<Longrightarrow>
   of_nibs xs div 2 AND of_nibs (map (\<lambda>_. 5) xs) = of_nibs (map (\<lambda>x. x div 2 AND 5) xs)"
proof (induction xs)
  case (Cons x xs)
  let ?r = "of_nibs xs"
  have x: "x < 16" using Cons.prems by simp
  have "(x + 16 * ?r) div 2 = (x div 2 + 8 * (?r mod 2)) + 2 ^ 4 * (?r div 2)"
    by (rule div_shifted)
  moreover have "x div 2 + 8 * (?r mod 2) < 2 ^ 4" using x by simp
  ultimately show ?case
    using Cons and_split_nat[of "x div 2 + 8 * (?r mod 2)" 4 5 "?r div 2" "of_nibs (map (\<lambda>_. 5) xs)"]
    by (simp add: nib_facts(1)[OF x])
qed simp

lemma of_nibs_diff:
  "length xs = length ys \<Longrightarrow> list_all2 (\<le>) ys xs \<Longrightarrow>
   of_nibs xs - of_nibs ys = of_nibs (map2 (-) xs ys) \<and> of_nibs ys \<le> of_nibs xs"
proof (induction xs ys rule: list_induct2)
  case (Cons x xs y ys)
  then have "y \<le> x" "of_nibs ys \<le> of_nibs xs"
    "of_nibs xs - of_nibs ys = of_nibs (map2 (-) xs ys)" by auto
  then show ?case by (auto simp: diff_mult_distrib2[symmetric] simp del: diff_mult_distrib2)
qed simp

lemma of_nibs_quarter:
  "\<forall>x \<in> set xs. x < 16 \<Longrightarrow>
   of_nibs (map nib_pairs xs) div 4 AND of_nibs (map (\<lambda>_. 3) xs) = of_nibs (map (\<lambda>x. nib_pairs x div 4 AND 3) xs)"
proof (induction xs)
  case (Cons x xs)
  let ?r = "of_nibs (map nib_pairs xs)"
  have x: "x < 16" using Cons.prems by simp
  have "(nib_pairs x + 16 * ?r) div 4 = (nib_pairs x div 4 + 4 * (?r mod 4)) + 2 ^ 4 * (?r div 4)"
    by (rule div_shifted)
  moreover have "nib_pairs x div 4 + 4 * (?r mod 4) < 2 ^ 4"
    using nib_facts(3)[OF x] by (simp add: less_mult_imp_div_less)
  ultimately show ?case
    using Cons and_split_nat[of "nib_pairs x div 4 + 4 * (?r mod 4)" 4 3 "?r div 4" "of_nibs (map (\<lambda>_. 3) xs)"]
    by (simp add: nib_facts(5)[OF x])
qed simp

lemma of_nibs_plus: "of_nibs (map f xs) + of_nibs (map g xs) = of_nibs (map (\<lambda>x. f x + g x) xs)"
  by (induction xs) auto

lemma of_nibs_bound: "\<forall>x \<in> set xs. x < 16 \<Longrightarrow> of_nibs xs < 16 ^ length xs"
  by (induction xs) auto

lemma unat_and: "unat (v AND w) = unat v AND unat w" for v w :: "'a::len word"
  by (rule unsigned_and_eq)

text \<open>The first two lines leave in every nibble the number of bits it had.\<close>

lemma count_bits_nibbles:
  fixes v :: uint
  defines "xs \<equiv> nibs 8 (unat v)"
  defines "v1 \<equiv> v - (drop_bit 1 v AND 0x55555555)"
  defines "v2 \<equiv> (v1 AND 0x33333333) + (drop_bit 2 v1 AND 0x33333333)"
  shows "unat v2 = of_nibs (map (bitsum 4) xs)"
proof -
  have len: "length xs = 8" by (simp add: xs_def length_nibs)
  have small: "\<forall>x \<in> set xs. x < 16" by (auto simp: xs_def set_nibs)
  have v: "unat v = of_nibs xs" using unat_bound[of v] by (simp add: xs_def of_nibs_nibs)
  have rep8: "replicate 8 x = [x, x, x, x, x, x, x, x]" for x :: nat by code_simp
  have m5: "of_nibs (map (\<lambda>_. 5) xs) = 0x55555555" and m3: "of_nibs (map (\<lambda>_. 3) xs) = 0x33333333"
    by (simp_all add: map_replicate_const len rep8)
  have half: "unat (drop_bit 1 v AND 0x55555555) = of_nibs (map (\<lambda>x. x div 2 AND 5) xs)"
    using of_nibs_half[OF small] by (simp add: unat_and unat_drop_bit v m5)
  have le: "list_all2 (\<le>) (map (\<lambda>x. x div 2 AND 5) xs) xs"
    using small by (auto simp: list_all2_conv_all_nth nib_facts(2))
  have "map2 (-) xs (map (\<lambda>x. x div 2 AND 5) xs) = map nib_pairs xs"
    by (simp add: nib_pairs_def map2_map_map zip_map2 zip_same_conv_map)
  with of_nibs_diff[OF _ le] half v have v1: "unat v1 = of_nibs (map nib_pairs xs)"
    by (simp add: v1_def unat_sub_if_size word_le_nat_alt)
  have np: "\<forall>x \<in> set (map nib_pairs xs). x < 16" using small by (auto simp: nib_facts(3))
  have lo: "unat (v1 AND 0x33333333) = of_nibs (map (\<lambda>x. nib_pairs x AND 3) xs)"
    using of_nibs_and[of "map nib_pairs xs" "map (\<lambda>_. 3) xs"] np
    by (simp add: unat_and v1 m3 map2_map_map zip_same_conv_map o_def)
  have hi: "unat (drop_bit 2 v1 AND 0x33333333) = of_nibs (map (\<lambda>x. nib_pairs x div 4 AND 3) xs)"
    using of_nibs_quarter[OF small] by (simp add: unat_and unat_drop_bit v1 m3)
  have eq: "map (\<lambda>x. (nib_pairs x AND 3) + (nib_pairs x div 4 AND 3)) xs = map (bitsum 4) xs"
    using small by (simp add: nib_facts(4))
  have "\<forall>x \<in> set (map (bitsum 4) xs). x < 16" using small nib_facts(6) by fastforce
  from of_nibs_bound[OF this] len have "of_nibs (map (bitsum 4) xs) < 2 ^ 32" by simp
  moreover have "of_nibs (map (\<lambda>x. nib_pairs x AND 3) xs) + of_nibs (map (\<lambda>x. nib_pairs x div 4 AND 3) xs) =
      of_nibs (map (bitsum 4) xs)"
    by (simp only: of_nibs_plus eq)
  ultimately show ?thesis
    by (simp add: v2_def unat_word_ariths lo hi)
qed

text \<open>The multiplication adds the four byte counts in the top byte.\<close>

lemma count_bits_sum:
  fixes w :: uint
  assumes "unat w = of_nibs [a, b, c, d, e, f, g, h]"
    and "a \<le> 4" "b \<le> 4" "c \<le> 4" "d \<le> 4" "e \<le> 4" "f \<le> 4" "g \<le> 4" "h \<le> 4"
  shows "unat (drop_bit 24 (((w + drop_bit 4 w) AND 0xF0F0F0F) * 0x1010101)) = a + b + c + d + e + f + g + h"
proof -
  have "unat (drop_bit 4 w) = of_nibs [b, c, d, e, f, g, h, 0]"
    using assms by (simp add: unat_drop_bit)
  moreover have "of_nibs [a + b, b + c, c + d, d + e, e + f, f + g, g + h, h] < 2 ^ 32"
    using assms(2-) by simp
  ultimately have sum: "unat (w + drop_bit 4 w) = of_nibs [a + b, b + c, c + d, d + e, e + f, f + g, g + h, h]"
    using assms(1) by (simp add: unat_word_ariths)
  have m: "x AND 15 = x" if "x \<le> 8" for x :: nat
    using that take_bit_nat_eq_self[of x 4] by (simp add: take_bit_eq_mask mask_eq_exp_minus_1)
  have msk: "(0xF0F0F0F :: nat) = of_nibs [15, 0, 15, 0, 15, 0, 15, 0]" by simp
  have "unat ((w + drop_bit 4 w) AND 0xF0F0F0F) = of_nibs [a + b, 0, c + d, 0, e + f, 0, g + h, 0]"
    using assms(2-) of_nibs_and[of "[a + b, b + c, c + d, d + e, e + f, f + g, g + h, h]" "[15, 0, 15, 0, 15, 0, 15, 0]"]
    by (simp add: unat_and sum m flip: msk)
  then have "unat (((w + drop_bit 4 w) AND 0xF0F0F0F) * 0x1010101) =
      of_nibs [a + b, 0, c + d, 0, e + f, 0, g + h, 0] * 0x1010101 mod 2 ^ 32"
    by (simp add: unat_word_ariths)
  also have "of_nibs [a + b, 0, c + d, 0, e + f, 0, g + h, 0] * 0x1010101 =
      (2 ^ 24 * (a + b + c + d + e + f + g + h) + ((a + b) * 65793 + (c + d) * 65792 + (e + f) * 65536)) +
      2 ^ 32 * ((c + d) + (e + f) * 257 + (g + h) * 65793)"
    by simp
  also have "\<dots> mod 2 ^ 32 =
      2 ^ 24 * (a + b + c + d + e + f + g + h) + ((a + b) * 65793 + (c + d) * 65792 + (e + f) * 65536)"
    using assms(2-) by (simp only: mod_mult_self2) (rule mod_less, simp)
  finally show ?thesis using assms(2-) by (simp add: unat_drop_bit)
qed

lemma count_bits_uint32: "unat (my_count_bits_uint32 v) = bitsum 32 v"
proof -
  obtain a b c d e f g h where xs: "nibs 8 (unat v) = [a, b, c, d, e, f, g, h]"
  proof -
    have eight: "8 = Suc (Suc (Suc (Suc (Suc (Suc (Suc (Suc 0)))))))" by simp
    show thesis by (rule that) (simp only: eight nibs.simps)
  qed
  have lt: "\<forall>x \<in> {a, b, c, d, e, f, g, h}. x < 16"
    using set_nibs[of _ 8 "unat v"] unfolding xs by simp
  have le: "x \<in> {a, b, c, d, e, f, g, h} \<Longrightarrow> bitsum 4 x \<le> 4" for x
    using lt nib_facts(6) by blast
  have "unat (my_count_bits_uint32 v) = sum_list (map (bitsum 4) (nibs 8 (unat v)))"
    unfolding my_count_bits_uint32_def Let_def xs
    by (subst count_bits_sum[OF count_bits_nibbles[of v, unfolded xs, simplified list.map]])
      (simp_all add: le)
  then show ?thesis using bitsum_nibs[of 8 "unat v"] by (simp add: bitsum_unat)
qed

lemma bitsum_le: "bitsum n x \<le> n"
  using sum_mono[of "{..<n}" "\<lambda>i. of_bool (bit x i) :: nat" "\<lambda>_. 1"] by (simp add: bitsum_def)

lemma count_bits: "unat (my_count_bits x) = bitsum 64 x"
proof -
  let ?lo = "ucast x :: uint" and ?hi = "ucast (drop_bit 32 x) :: uint"
  have lo: "bitsum 32 ?lo = bitsum 32 (unat x)"
    by (rule trans[OF bitsum_cong bitsum_unat[symmetric]]) (simp add: bit_ucast_iff)
  have "bitsum 32 ?hi = bitsum 32 (drop_bit 32 x)"
    by (rule bitsum_cong) (simp add: bit_ucast_iff)
  then have hi: "bitsum 32 ?hi = bitsum 32 (unat x div 2 ^ 32)"
    by (simp only: unat_drop_bit flip: bitsum_unat[of 32 "drop_bit 32 x"])
  have "unat (my_count_bits x) = bitsum 32 ?lo + bitsum 32 ?hi"
    using bitsum_le[of 32 ?lo] bitsum_le[of 32 ?hi]
    by (simp add: my_count_bits_def unat_word_ariths count_bits_uint32)
  also have "\<dots> = bitsum 64 (unat x)"
    using bitsum_add[of 32 32 "unat x"] by (simp add: lo hi)
  finally show ?thesis by (simp add: bitsum_unat)
qed

section \<open>Powers of two\<close>

text \<open>
  Or-ing a word with its own right shifts by 1, 2, 4, 8 and 16 smears every bit over all
  lower positions. \<open>smeared k v x\<close>: \<open>x\<close> holds every bit of \<open>v\<close> moved down by
  less than \<open>k\<close>.
\<close>

definition smeared :: "nat \<Rightarrow> 'a::len word \<Rightarrow> 'a word \<Rightarrow> bool" where
  "smeared k v x \<longleftrightarrow> (\<forall>i. bit x i \<longleftrightarrow> (\<exists>j<k. bit v (i + j)))"

lemma smeared_self: "smeared 1 v v"
  by (simp add: smeared_def)

lemma smeared_double:
  assumes "smeared k v x" shows "smeared (2 * k) v (x OR drop_bit k x)"
  unfolding smeared_def
proof
  fix i
  have "(\<exists>j<2 * k. bit v (i + j)) \<longleftrightarrow> (\<exists>j<k. bit v (i + j)) \<or> (\<exists>j<k. bit v (i + (k + j)))"
    (is "?l = ?r")
  proof
    assume ?l
    then obtain j where j: "j < 2 * k" "bit v (i + j)" by blast
    show ?r
    proof (cases "j < k")
      case False
      with j have "j - k < k" "bit v (i + (k + (j - k)))" by simp_all
      then show ?thesis by blast
    qed (use j in blast)
  next
    assume ?r
    then show ?l by (metis add_less_cancel_left mult_2 trans_less_add1)
  qed
  then show "bit (x OR drop_bit k x) i \<longleftrightarrow> (\<exists>j<2 * k. bit v (i + j))"
    using assms by (simp add: smeared_def bit_or_iff bit_drop_bit_eq ac_simps)
qed

lemma smeared_32:
  fixes v :: uint assumes "smeared 32 v x" shows "bit x i \<longleftrightarrow> (\<exists>j\<ge>i. bit v j)"
proof -
  have "(\<exists>j<32. bit v (i + j)) \<longleftrightarrow> (\<exists>j\<ge>i. bit v j)"
  proof
    assume "\<exists>j\<ge>i. bit v j"
    then obtain j where "i \<le> j" "bit v j" by blast
    then have "j - i < 32" "bit v (i + (j - i))" using bit_imp_le_length[of v j] by auto
    then show "\<exists>j<32. bit v (i + j)" by blast
  qed (use le_add1 in blast)
  then show ?thesis using assms by (simp add: smeared_def)
qed

lemma smear_chain:
  fixes v :: "'a::len word"
  shows "smeared 32 v (let v = v OR drop_bit 1 v; v = v OR drop_bit 2 v; v = v OR drop_bit 4 v;
                           v = v OR drop_bit 8 v in v OR drop_bit 16 v)"
  unfolding Let_def
  using smeared_double[OF smeared_double[OF smeared_double[OF smeared_double[OF smeared_double[OF smeared_self[of v]]]]]]
  by simp

lemma highest_bit_bits:
  assumes "highest_bit k (unat v)"
  shows "bit v k" and "bit v j \<Longrightarrow> j \<le> k"
proof -
  have "unat v div 2 ^ k = 1"
    using assms by (simp add: highest_bit_def div_nat_eqI)
  then have "bit (unat v) k" by (simp add: bit_iff_odd)
  then show "bit v k" by (simp only: bit_unat)
  show "j \<le> k" if "bit v j"
  proof (rule ccontr)
    assume "\<not> j \<le> k"
    then have "(2::nat) ^ Suc k \<le> 2 ^ j" by (intro power_increasing) simp_all
    with assms have "unat v div 2 ^ j = 0" by (simp add: highest_bit_def)
    then have "\<not> bit (unat v) j" by (simp add: bit_iff_odd)
    with that show False by (simp add: bit_unat)
  qed
qed

lemma smeared_mask:
  fixes v :: uint
  assumes x: "smeared 32 v x" and k: "highest_bit k (unat v)" and "k < 32"
  shows "x = mask (Suc k)"
proof (rule bit_word_eqI)
  fix i assume "i < LENGTH(32)"
  have "(\<exists>j\<ge>i. bit v j) \<longleftrightarrow> i \<le> k"
    using highest_bit_bits[OF k] by (meson le_trans)
  then show "bit x i = bit (mask (Suc k) :: uint) i"
    using \<open>i < LENGTH(32)\<close> by (auto simp: smeared_32[OF x] bit_mask_iff)
qed

lemma ex_highest_bit: "0 < unat v \<Longrightarrow> \<exists>k<32. highest_bit k (unat v)" for v :: uint
  using log2_uint32[of v] highest_bit_bound[of _ "unat v" 32] unat_bound[of v] by auto

lemma round_up_small:
  assumes "unat v < 2"
  shows "my_round_up_to_next_power v = v"
proof -
  have "v = 0 \<or> v = 1" using assms by (auto simp: less_2_cases_iff word_unat_eq_iff)
  then show ?thesis
  proof
    assume "v = 1" then show ?thesis by (simp add: my_round_up_to_next_power_def)
  next
    assume v: "v = 0"
    have "smeared 32 (- 1) (my_round_up_to_next_power v - 1)"
      using smear_chain[of "v - 1"] by (simp add: v my_round_up_to_next_power_def Let_def)
    then have "my_round_up_to_next_power v - 1 = - 1"
      by (intro bit_word_eqI) (auto simp: smeared_32 intro: exI[of _ 31])
    then show ?thesis using v by (simp add: eq_neg_iff_add_eq_0)
  qed
qed

lemma round_up_eq:
  assumes "2 \<le> unat v" and k: "highest_bit k (unat v - 1)"
  shows "my_round_up_to_next_power v = 2 ^ Suc k"
proof -
  have u: "unat (v - 1) = unat v - 1"
    using assms(1) by (intro unat_minus_1) simp
  have "k < 32"
    using k unat_bound[of "v - 1"] by (intro highest_bit_bound[OF k]) (simp add: u)
  then have "my_round_up_to_next_power v - 1 = mask (Suc k)"
    using smeared_mask[OF smear_chain[of "v - 1"]] k
    by (simp add: my_round_up_to_next_power_def Let_def u)
  then show ?thesis
    by (simp add: mask_eq_exp_minus_1 diff_eq_eq)
qed

lemma round_up_large:
  assumes "2 ^ 31 < unat v" shows "my_round_up_to_next_power v = 0"
proof -
  have "highest_bit 31 (unat v - 1)" using assms unat_bound[of v] by (auto simp: highest_bit_def)
  then have "my_round_up_to_next_power v = 2 ^ 32" using assms by (subst round_up_eq[of v 31]) auto
  then show ?thesis by simp
qed

lemma round_up_ok:
  assumes "1 \<le> unat v" "unat v \<le> 2 ^ 31"
  shows "\<exists>k\<le>31. unat (my_round_up_to_next_power v) = 2 ^ k \<and> unat v \<le> 2 ^ k \<and> 2 ^ k < 2 * unat v"
proof (cases "unat v < 2")
  case True
  then have "unat v = 2 ^ 0" using assms by simp
  then show ?thesis using round_up_small[OF True] by (intro exI[of _ 0]) simp
next
  case False
  have "unat (v - 1) = unat v - 1" using False by (intro unat_minus_1) simp
  then obtain k where "highest_bit k (unat v - 1)" using ex_highest_bit[of "v - 1"] False by auto
  then have k: "2 ^ k \<le> unat v - 1" "unat v - 1 < 2 ^ Suc k" and hb: "highest_bit k (unat v - 1)"
    by (auto simp: highest_bit_def)
  have "(2::nat) ^ k < 2 ^ 31" using k(1) assms(2) False by simp
  then have k30: "k < 31" by (rule power_less_imp_less_exp[rotated]) simp
  have "unat (of_nat (2 ^ Suc k) :: uint) = 2 ^ Suc k"
    using power_strict_increasing[of "Suc k" 32 "2::nat"] k30 by (subst unat_of_nat) simp
  then have "unat (2 ^ Suc k :: uint) = 2 ^ Suc k" by simp
  moreover have "my_round_up_to_next_power v = 2 ^ Suc k"
    using False by (intro round_up_eq[OF _ hb]) simp
  ultimately show ?thesis using k k30 False by (intro exI[of _ "Suc k"]) auto
qed

lemma clear_highest_bit:
  assumes k: "highest_bit k (unat v)"
  shows "my_clear_highest_bit v = take_bit k v" and "unat (my_clear_highest_bit v) = unat v - 2 ^ k"
proof -
  define w where "w = (let w = drop_bit 1 v; w = w OR drop_bit 1 w; w = w OR drop_bit 2 w;
    w = w OR drop_bit 4 w; w = w OR drop_bit 8 w in w OR drop_bit 16 w)"
  have bits: "bit w i \<longleftrightarrow> i < k" for i
  proof -
    have "bit w i \<longleftrightarrow> (\<exists>j\<ge>i. bit v (Suc j))"
      using smeared_32[OF smear_chain[of "drop_bit 1 v"], of i] by (simp add: w_def Let_def bit_drop_bit_eq)
    also have "\<dots> \<longleftrightarrow> i < k"
      using highest_bit_bits[OF k] by (metis Suc_le_eq Suc_le_mono le_trans less_imp_Suc_add le_add1)
    finally show ?thesis .
  qed
  have "my_clear_highest_bit v = v AND w" by (simp add: my_clear_highest_bit_def Let_def w_def)
  then show eq: "my_clear_highest_bit v = take_bit k v"
    by (intro bit_word_eqI) (auto simp: bit_and_iff bits bit_take_bit_iff)
  have "unat v div 2 ^ k = 1" using k by (simp add: highest_bit_def div_nat_eqI)
  then have "unat v = 2 ^ k + unat v mod 2 ^ k" using mod_mult_div_eq[of "unat v" "2 ^ k"] by simp
  then show "unat (my_clear_highest_bit v) = unat v - 2 ^ k"
    by (simp only: eq unat_take_bit)
qed

section \<open>Reversal and masks\<close>

text \<open>What the code relies on of the table: entry \<open>b\<close> is the byte \<open>b\<close> reversed.\<close>

definition reverses_bytes :: "(nat \<Rightarrow> uchar) \<Rightarrow> bool" where
  "reverses_bytes table \<longleftrightarrow> (\<forall>b<256. \<forall>i<8. bit (table b) i = bit b (7 - i))"

lemma reverse_byte:
  fixes key :: uint
  assumes table: "reverses_bytes table" and "i < 8"
  shows "bit (table (unat (drop_bit m key AND 255))) i = bit key (m + (7 - i))"
proof -
  have "drop_bit m key AND 255 = take_bit 8 (drop_bit m key)"
    by (simp add: take_bit_eq_mask mask_eq_exp_minus_1)
  then have eq: "unat (drop_bit m key AND 255) = unat (take_bit 8 (drop_bit m key))" by simp
  have "unat (take_bit 8 (drop_bit m key)) < 256" by (simp only: unat_take_bit) simp
  moreover have "7 - i < 8" by simp
  ultimately show ?thesis using table assms(2)
    by (simp add: reverses_bytes_def eq bit_unat bit_take_bit_iff bit_drop_bit_eq)
qed

lemma reverse_bits:
  assumes table: "reverses_bytes table" and "i < 32"
  shows "bit (my_reverse_bits table key) i = bit key (31 - i)"
proof -
  note byte = reverse_byte[OF table]
  have top: "drop_bit 24 key = drop_bit 24 key AND 255"
  proof (rule bit_word_eqI)
    fix j assume "j < LENGTH(32)"
    have m: "(255 :: uint) = mask 8" by (simp add: mask_eq_exp_minus_1)
    show "bit (drop_bit 24 key) j = bit (drop_bit 24 key AND 255) j"
      unfolding m by (auto simp: bit_and_iff bit_mask_iff bit_drop_bit_eq dest: bit_imp_le_length)
  qed
  have nobit: "\<not> bit (table b) j" if "8 \<le> j" for b j
    using that bit_imp_le_length[of "table b" j] by auto
  have eqs: "bit (table (unat (key AND 255))) j = bit key (7 - j)"
    "bit (table (unat (drop_bit 8 key AND 255))) j = bit key (8 + (7 - j))"
    "bit (table (unat (drop_bit 16 key AND 255))) j = bit key (16 + (7 - j))"
    "bit (table (unat (drop_bit 24 key))) j = bit key (24 + (7 - j))" if "j < 8" for j
    using byte[OF that, of 0 key] byte[OF that, of 8 key] byte[OF that, of 16 key]
      byte[OF that, of 24 key] top by simp_all
  consider "i < 8" | "8 \<le> i" "i < 16" | "16 \<le> i" "i < 24" | "24 \<le> i" by linarith
  then show ?thesis
    using assms(2) by cases
      (auto simp: my_reverse_bits_def bit_or_iff bit_push_bit_iff bit_ucast_iff eqs nobit)
qed

lemma set_bits_mask:
  assumes "1 \<le> n" "n \<le> 64" shows "my_set_bits n = Some (mask (nat n))"
proof -
  have "push_bit 1 (mask m) OR 1 = (mask (Suc m) :: ulonglong)" if "m < 64" for m
    by (rule bit_word_eqI, simp only: bit_or_iff bit_push_bit_iff bit_mask_iff bit_1_iff)
      (use that in auto)
  moreover have "push_bit m 1 - 1 = (mask m :: ulonglong)" for m
    by (simp add: mask_eq_exp_minus_1 push_bit_of_1)
  ultimately show ?thesis using assms by (simp add: my_set_bits_def Suc_nat_eq_nat_zadd1)
qed

lemma last_byte_mask_eq: "last_byte_mask bits = mask (Suc (unat (bits - 1) mod 8))"
proof -
  have "(bits - 1) AND 7 = take_bit 3 (bits - 1)"
    by (simp add: take_bit_eq_mask mask_eq_exp_minus_1)
  then have used: "unat ((bits - 1) AND 7) = unat (bits - 1) mod 8"
    by (simp only: unat_take_bit) simp
  define m where "m = unat (bits - 1) mod 8"
  have "m < 8" by (simp add: m_def)
  have "push_bit m (2 :: uint) - 1 = mask (Suc m)"
    by (simp add: mask_eq_exp_minus_1 push_bit_eq_mult)
  then have "ucast (push_bit m (2 :: uint) - 1) = (mask (Suc m) :: uchar)"
    using \<open>m < 8\<close> by (intro bit_word_eqI) (auto simp: bit_ucast_iff bit_mask_iff)
  then show ?thesis by (simp add: last_byte_mask_def used m_def)
qed

section \<open>The first set bit\<close>

lemma last_bit_facts:
  assumes "x < 16"
  shows "last_bit ! x = 32 \<longleftrightarrow> x = 0"
    and "x \<noteq> 0 \<Longrightarrow> last_bit ! x < 4 \<and> bit x (last_bit ! x) \<and> (\<forall>j<last_bit ! x. \<not> bit x j)"
proof -
  have "\<forall>x \<in> set [0..<16]. (last_bit ! x = 32 \<longleftrightarrow> x = 0) \<and>
      (x \<noteq> 0 \<longrightarrow> last_bit ! x < 4 \<and> bit x (last_bit ! x) \<and> (\<forall>j \<in> set [0..<last_bit ! x]. \<not> bit x j))"
    by code_simp
  then show "last_bit ! x = 32 \<longleftrightarrow> x = 0"
    and "x \<noteq> 0 \<Longrightarrow> last_bit ! x < 4 \<and> bit x (last_bit ! x) \<and> (\<forall>j<last_bit ! x. \<not> bit x j)"
    using assms by auto
qed

lemma find_first_bit_loop_ok:
  assumes "\<forall>j < shift. \<not> bit n j" "n \<noteq> 0"
  shows "\<exists>k<64. find_first_bit_loop n shift = Some k \<and> bit n k \<and> (\<forall>j<k. \<not> bit n j)"
  using assms
proof (induction n shift rule: find_first_bit_loop.induct)
  case (1 n shift)
  define x where "x = unat (drop_bit shift n AND 0xF)"
  have x: "x < 16" and xb: "bit x j \<longleftrightarrow> j < 4 \<and> bit n (shift + j)" for j
  proof -
    have "drop_bit shift n AND 0xF = take_bit 4 (drop_bit shift n)"
      by (simp add: take_bit_eq_mask mask_eq_exp_minus_1)
    then have eq: "x = unat (take_bit 4 (drop_bit shift n))" by (simp add: x_def)
    show "x < 16" by (simp only: eq unat_take_bit) simp
    show "bit x j \<longleftrightarrow> j < 4 \<and> bit n (shift + j)"
      by (simp add: eq bit_unat bit_take_bit_iff bit_drop_bit_eq)
  qed
  obtain b where b: "bit n b" using "1.prems"(2) bit_eq_iff[of n 0] by auto
  then have "b < 64" using bit_imp_le_length[of n b] by simp
  moreover have "shift \<le> b" using b "1.prems"(1) by (meson not_le)
  ultimately have lt: "shift < 64" by simp
  show ?case
  proof (cases "x = 0")
    case True
    then have "\<not> bit n (shift + j)" if "j < 4" for j using xb[of j] that by simp
    then have "\<forall>j < shift + 4. \<not> bit n j"
      using "1.prems"(1) by (metis add_diff_inverse_nat nat_add_left_cancel_less)
    moreover have "find_first_bit_loop n shift = find_first_bit_loop n (shift + 4)"
      using lt last_bit_facts(1)[OF x] True by (subst find_first_bit_loop.simps) (simp add: x_def Let_def)
    ultimately show ?thesis
      using "1.IH"[of "last_bit ! x"] lt last_bit_facts(1)[OF x] True "1.prems"(2) by (simp add: x_def)
  next
    case False
    note f = last_bit_facts[OF x]
    have "find_first_bit_loop n shift = Some (shift + last_bit ! x)"
      using lt f(1) False by (subst find_first_bit_loop.simps) (simp add: x_def Let_def)
    moreover have bk: "bit n (shift + last_bit ! x)" using f(2)[OF False] xb by blast
    moreover have "\<not> bit n j" if "j < shift + last_bit ! x" for j
    proof (cases "j < shift")
      case False
      with that have "j - shift < last_bit ! x" by simp
      with f(2)[OF \<open>x \<noteq> 0\<close>] xb[of "j - shift"] False show ?thesis by auto
    qed (use "1.prems"(1) in simp)
    moreover have "shift + last_bit ! x < 64" using bk bit_imp_le_length[OF bk] by simp
    ultimately show ?thesis by blast
  qed
qed

lemma find_first_bit:
  assumes "n \<noteq> 0"
  obtains k where "my_find_first_bit n = Some k" "k < 64" "bit n k" "\<forall>j<k. \<not> bit n j"
  using find_first_bit_loop_ok[of 0 n] assms by (auto simp: my_find_first_bit_def)

section \<open>Properties\<close>

text \<open>\<open>my_bit_log2_size_t\<close> returns the position of the highest set bit of every non-zero
  64-bit value, and 0 for 0; in particular it returns 1 for 3.\<close>

theorem my_bit_log2_highest:
  "(v = 0 \<longrightarrow> my_bit_log2_size_t v = 0) \<and>
   (v \<noteq> 0 \<longrightarrow> 2 ^ unat (my_bit_log2_size_t v) \<le> unat v \<and> unat v < 2 ^ Suc (unat (my_bit_log2_size_t v)))"
proof (cases "v = 0")
  case True
  then show ?thesis
    by (simp add: my_bit_log2_size_t_def my_bit_log2_uint64_def my_bit_log2_uint32_def my_bit_log2_uint16_def
        my_bit_log2_uint8_def my_bit_log2_hex_digit_def)
next
  case False
  then show ?thesis using log2_uint64[of v] by (simp add: my_bit_log2_size_t_def highest_bit_def unat_gt_0)
qed

theorem my_bit_log2_highest_witness: "my_bit_log2_size_t 3 = 1"
proof -
  let ?k = "unat (my_bit_log2_size_t 3)"
  have k: "2 ^ ?k \<le> (3 :: nat)" "(3 :: nat) < 2 ^ Suc ?k" using my_bit_log2_highest[of 3] by simp_all
  then have "?k = 1" using highest_bit_unique[of ?k 3 1] by (simp add: highest_bit_def)
  then show ?thesis by (simp add: word_unat_eq_iff)
qed

text \<open>The parallel bit count agrees with counting: \<open>my_count_bits\<close> is the number of set bits of
  its 64-bit argument.\<close>

theorem my_count_bits_correct: "unat (my_count_bits x) = card {i. i < 64 \<and> bit x i}"
  by (simp add: count_bits bitsum_card)

text \<open>\<open>my_round_up_to_next_power\<close> returns the least power of two that is not below its argument
  up to \<open>2^31\<close>, and 0 for 0 and for the larger arguments, where the power does not fit.\<close>

theorem my_round_up_correct:
  "(unat v = 0 \<or> 2 ^ 31 < unat v \<longrightarrow> my_round_up_to_next_power v = 0) \<and>
   (1 \<le> unat v \<and> unat v \<le> 2 ^ 31 \<longrightarrow>
     (\<exists>k\<le>31. unat (my_round_up_to_next_power v) = 2 ^ k \<and> unat v \<le> 2 ^ k \<and> 2 ^ k < 2 * unat v))"
  using round_up_small[of v] round_up_large[of v] round_up_ok[of v] by (auto simp: unat_eq_0)

theorem my_round_up_correct_witness:
  "\<exists>k\<le>31. unat (my_round_up_to_next_power 5) = 2 ^ k \<and> 5 \<le> (2 :: nat) ^ k \<and> (2 :: nat) ^ k < 10"
  using my_round_up_correct[of 5] by simp

text \<open>\<open>my_clear_highest_bit\<close> subtracts the highest power of two contained in a non-zero
  argument.\<close>

theorem my_clear_highest_bit_correct:
  "2 ^ k \<le> unat v \<Longrightarrow> unat v < 2 ^ Suc k \<Longrightarrow> unat (my_clear_highest_bit v) = unat v - 2 ^ k"
  using clear_highest_bit(2)[of k v] by (simp add: highest_bit_def)

theorem my_clear_highest_bit_correct_witness: "unat (my_clear_highest_bit 13) = 5"
  using my_clear_highest_bit_correct[of 3 13] by simp

text \<open>With a byte-reversal table, \<open>my_reverse_bits\<close> reverses all 32 bits, so that applying it
  twice gives the argument back.\<close>

theorem my_reverse_bits_correct:
  assumes "reverses_bytes table"
  shows "(\<forall>i<32. bit (my_reverse_bits table key) i = bit key (31 - i)) \<and>
         my_reverse_bits table (my_reverse_bits table key) = key"
proof
  show "\<forall>i<32. bit (my_reverse_bits table key) i = bit key (31 - i)"
    using reverse_bits[OF assms] by blast
  show "my_reverse_bits table (my_reverse_bits table key) = key"
  proof (rule bit_word_eqI)
    fix i assume "i < LENGTH(32)"
    then show "bit (my_reverse_bits table (my_reverse_bits table key)) i = bit key i"
      using reverse_bits[OF assms, of i] reverse_bits[OF assms, of "31 - i"] by simp
  qed
qed

theorem my_reverse_bits_correct_witness:
  "my_reverse_bits (\<lambda>b. horner_sum of_bool 2 (map (\<lambda>i. bit b (7 - i)) [0..<8]))
     (my_reverse_bits (\<lambda>b. horner_sum of_bool 2 (map (\<lambda>i. bit b (7 - i)) [0..<8])) 6) = 6"
proof -
  have "reverses_bytes (\<lambda>b. horner_sum of_bool 2 (map (\<lambda>i. bit b (7 - i)) [0..<8]))"
    unfolding reverses_bytes_def
  proof (intro allI impI)
    fix b i :: nat assume "i < 8"
    then show "bit (horner_sum of_bool 2 (map (\<lambda>i. bit b (7 - i)) [0..<8]) :: uchar) i = bit b (7 - i)"
      by (simp only: bit_horner_sum_bit_word_iff) (simp del: upt_rec_numeral)
  qed
  then show ?thesis using my_reverse_bits_correct by blast
qed

text \<open>The masks are the low-bit masks: \<open>my_set_bits n\<close> for \<open>1 \<le> n \<le> 64\<close> (and undefined outside
  that range, 0 included) and \<open>last_byte_mask bits\<close> for any number of bits.\<close>

theorem low_masks_correct:
  "(if 1 \<le> n \<and> n \<le> 64 then my_set_bits n = Some (mask (nat n)) else my_set_bits n = None) \<and>
   last_byte_mask bits = mask (Suc (unat (bits - 1) mod 8))"
  using set_bits_mask[of n] last_byte_mask_eq[of bits] by (auto simp: my_set_bits_def)

text \<open>The nibble loop of \<open>my_find_first_bit\<close> ends for every argument without an undefined shift,
  with the least set bit, or 64 for 0.\<close>

theorem my_find_first_bit_correct:
  "my_find_first_bit n = Some (if n = 0 then 64 else LEAST k. bit n k)"
proof (cases "n = 0")
  case False
  then obtain k where k: "my_find_first_bit n = Some k" "bit n k" "\<forall>j<k. \<not> bit n j"
    by (rule find_first_bit)
  then have "(LEAST k. bit n k) = k" by (intro Least_equality) (auto simp: not_less[symmetric])
  with k False show ?thesis by simp
qed (simp add: my_find_first_bit_def)

end
