(* ===== verification/Sql_Bitmap.thy ===== *)
theory Sql_Bitmap
  imports My_Bit "HOL-Library.Monad_Syntax"
begin

text \<open>
  \<open>sql_bitmap.h\<close>: the class template \<open>Bitmap<width>\<close> (the server's \<open>key_map\<close>), its
  iterator and the \<open>Table_map_iterator\<close> over one 64-bit word. The template argument is
  the first argument \<open>width\<close> of every operation, the only data member (\<open>buffer\<close>) is
  the list of its 64-bit elements. A shift or an index that C leaves undefined is
  \<open>None\<close>. The abstraction is the set of bit numbers \<open>bmset\<close>; the invariant \<open>bm_wf\<close>
  says that no bit at or above \<open>width\<close> is set.
\<close>

section \<open>Table_map_iterator\<close>

definition BITMAP_END :: nat where
  "BITMAP_END = 64"

definition tmi_next_bit :: "ulonglong \<Rightarrow> (nat \<times> ulonglong) option" where
  "tmi_next_bit bmp =
     (if bmp = 0 then Some (BITMAP_END, bmp)
      else do { b \<leftarrow> my_find_first_bit bmp; Some (b, bmp AND NOT (push_bit b 1)) })"

section \<open>Bitmap\<close>

type_synonym bitmap = "ulonglong list"

definition BITS_PER_ELEMENT :: nat where
  "BITS_PER_ELEMENT = 64"

definition ARRAY_ELEMENTS :: "nat \<Rightarrow> nat" where
  "ARRAY_ELEMENTS width = (width + BITS_PER_ELEMENT - 1) div BITS_PER_ELEMENT"

definition ALL_BITS_SET :: ulonglong where
  "ALL_BITS_SET = 0xFFFFFFFFFFFFFFFF"

definition bit_index :: "nat \<Rightarrow> nat \<Rightarrow> nat" where
  "bit_index width n = (if ARRAY_ELEMENTS width = 1 then 0 else n div BITS_PER_ELEMENT)"

definition bit_mask :: "nat \<Rightarrow> nat \<Rightarrow> ulonglong option" where
  "bit_mask width n =
     (if ARRAY_ELEMENTS width = 1 then (if n < 64 then Some (push_bit n 1) else None)
      else Some (push_bit (n mod BITS_PER_ELEMENT) 1))"

definition last_element_mask :: "nat \<Rightarrow> nat \<Rightarrow> ulonglong option" where
  "last_element_mask width n = do { m \<leftarrow> bit_mask width n; Some (m - 1) }"

definition bm_upd :: "nat \<Rightarrow> (ulonglong \<Rightarrow> ulonglong) \<Rightarrow> bitmap \<Rightarrow> bitmap option" where
  "bm_upd i f b = (if i < length b then Some (b[i := f (b ! i)]) else None)"

definition bm_set_bit :: "nat \<Rightarrow> nat \<Rightarrow> bitmap \<Rightarrow> bitmap option" where
  "bm_set_bit width n b =
     do { m \<leftarrow> bit_mask width n; bm_upd (bit_index width n) (\<lambda>e. e OR m) b }"

definition bm_clear_bit :: "nat \<Rightarrow> nat \<Rightarrow> bitmap \<Rightarrow> bitmap option" where
  "bm_clear_bit width n b =
     do { m \<leftarrow> bit_mask width n; bm_upd (bit_index width n) (\<lambda>e. e AND NOT m) b }"

definition bm_is_set :: "nat \<Rightarrow> nat \<Rightarrow> bitmap \<Rightarrow> bool option" where
  "bm_is_set width n b =
     do { m \<leftarrow> bit_mask width n;
          if bit_index width n < length b then Some ((b ! bit_index width n) AND m \<noteq> 0) else None }"

text \<open>The loop \<open>for (i= lo; i < hi; i++) buffer[i]= v\<close>.\<close>

function bm_fill :: "bitmap \<Rightarrow> nat \<Rightarrow> nat \<Rightarrow> ulonglong \<Rightarrow> bitmap" where
  "bm_fill b i hi v = (if i < hi then bm_fill (b[i := v]) (i + 1) hi v else b)"
  by pat_completeness auto
termination by (relation "measure (\<lambda>(b, i, hi, v). hi - i)") auto

declare bm_fill.simps [simp del]

definition bm_set_prefix :: "nat \<Rightarrow> nat \<Rightarrow> bitmap \<Rightarrow> bitmap option" where
  "bm_set_prefix width prefix_size0 b =
     (let prefix_size = min prefix_size0 width;
          idx = prefix_size div BITS_PER_ELEMENT;
          b = bm_fill b 0 idx ALL_BITS_SET
      in if prefix_size mod BITS_PER_ELEMENT \<noteq> 0
         then do { m \<leftarrow> last_element_mask width prefix_size;
                   b \<leftarrow> bm_upd idx (\<lambda>_. m) b;
                   Some (bm_fill b (idx + 1) (ARRAY_ELEMENTS width) 0) }
         else Some (bm_fill b idx (ARRAY_ELEMENTS width) 0))"

definition bm_init :: "nat \<Rightarrow> nat \<Rightarrow> bitmap \<Rightarrow> bitmap option" where
  "bm_init width prefix b = bm_set_prefix width prefix b"

text \<open>The loop \<open>for (i= lo; i < hi; i++) if (buffer[i] != v) return false\<close>.\<close>

definition bm_range_is :: "bitmap \<Rightarrow> nat \<Rightarrow> nat \<Rightarrow> ulonglong \<Rightarrow> bool" where
  "bm_range_is b lo hi v = list_all (\<lambda>i. b ! i = v) [lo..<hi]"

definition bm_is_prefix :: "nat \<Rightarrow> nat \<Rightarrow> bitmap \<Rightarrow> bool option" where
  "bm_is_prefix width prefix_size b =
     (let idx = prefix_size div BITS_PER_ELEMENT
      in if \<not> bm_range_is b 0 idx ALL_BITS_SET then Some False
         else if prefix_size mod BITS_PER_ELEMENT \<noteq> 0
         then do { m \<leftarrow> last_element_mask width prefix_size;
                   if b ! idx \<noteq> m then Some False
                   else Some (bm_range_is b (idx + 1) (ARRAY_ELEMENTS width) 0) }
         else Some (bm_range_is b idx (ARRAY_ELEMENTS width) 0))"

definition bm_set_all :: "nat \<Rightarrow> bitmap \<Rightarrow> bitmap option" where
  "bm_set_all width b =
     (if width mod BITS_PER_ELEMENT \<noteq> 0 then bm_set_prefix width width b
      else if ARRAY_ELEMENTS width > 1 then Some (replicate (length b) 0xFFFFFFFFFFFFFFFF)
      else bm_upd 0 (\<lambda>_. ALL_BITS_SET) b)"

definition bm_clear_all :: "nat \<Rightarrow> bitmap \<Rightarrow> bitmap option" where
  "bm_clear_all width b =
     (if ARRAY_ELEMENTS width > 1 then Some (replicate (length b) 0) else bm_upd 0 (\<lambda>_. 0) b)"

definition bm_intersect :: "bitmap \<Rightarrow> bitmap \<Rightarrow> bitmap" where
  "bm_intersect b b2 = map2 (\<lambda>x y. x AND y) b b2"

definition bm_intersect_and_pad :: "nat \<Rightarrow> ulonglong \<Rightarrow> bool \<Rightarrow> bitmap \<Rightarrow> bitmap option" where
  "bm_intersect_and_pad width map2buff pad_with_ones b =
     do { b \<leftarrow> bm_upd 0 (\<lambda>e. e AND map2buff) b;
          let b = bm_fill b 1 (ARRAY_ELEMENTS width) (if pad_with_ones then ALL_BITS_SET else 0);
          if ARRAY_ELEMENTS width > 1 \<and> width mod BITS_PER_ELEMENT \<noteq> 0 \<and> pad_with_ones
          then do { m \<leftarrow> last_element_mask width width;
                    bm_upd (ARRAY_ELEMENTS width - 1) (\<lambda>_. m) b }
          else Some b }"

definition bm_intersect_ull :: "nat \<Rightarrow> ulonglong \<Rightarrow> bitmap \<Rightarrow> bitmap option" where
  "bm_intersect_ull width map2buff b = bm_intersect_and_pad width map2buff False b"

definition bm_intersect_extended :: "nat \<Rightarrow> ulonglong \<Rightarrow> bitmap \<Rightarrow> bitmap option" where
  "bm_intersect_extended width map2buff b =
     bm_intersect_and_pad width map2buff (map2buff AND push_bit 63 1 \<noteq> 0) b"

definition bm_subtract :: "bitmap \<Rightarrow> bitmap \<Rightarrow> bitmap" where
  "bm_subtract b b2 = map2 (\<lambda>x y. x AND NOT y) b b2"

definition bm_merge :: "bitmap \<Rightarrow> bitmap \<Rightarrow> bitmap" where
  "bm_merge b b2 = map2 (\<lambda>x y. x OR y) b b2"

definition bm_is_clear_all :: "bitmap \<Rightarrow> bool" where
  "bm_is_clear_all b = list_all (\<lambda>e. e = 0) b"

definition bm_is_subset :: "bitmap \<Rightarrow> bitmap \<Rightarrow> bool" where
  "bm_is_subset b b2 = list_all (\<lambda>(x, y). x AND NOT y = 0) (zip b b2)"

definition bm_is_overlapping :: "bitmap \<Rightarrow> bitmap \<Rightarrow> bool" where
  "bm_is_overlapping b b2 = list_ex (\<lambda>(x, y). x AND y \<noteq> 0) (zip b b2)"

definition bm_eq :: "nat \<Rightarrow> bitmap \<Rightarrow> bitmap \<Rightarrow> bool" where
  "bm_eq width b b2 = (if ARRAY_ELEMENTS width > 1 then b = b2 else b ! 0 = b2 ! 0)"

definition bm_neq :: "nat \<Rightarrow> bitmap \<Rightarrow> bitmap \<Rightarrow> bool" where
  "bm_neq width b b2 = (\<not> bm_eq width b b2)"

definition bm_to_ulonglong :: "bitmap \<Rightarrow> ulonglong" where
  "bm_to_ulonglong b = b ! 0"

fun bm_bits_set_loop :: "bitmap \<Rightarrow> uint \<Rightarrow> uint" where
  "bm_bits_set_loop [] res = res"
| "bm_bits_set_loop (e # es) res =
     bm_bits_set_loop es (if e \<noteq> 0 then res + my_count_bits e else res)"

definition bm_bits_set :: "bitmap \<Rightarrow> uint" where
  "bm_bits_set b = bm_bits_set_loop b 0"

fun bm_find_first_bit_loop :: "nat \<Rightarrow> nat \<Rightarrow> bitmap \<Rightarrow> nat option" where
  "bm_find_first_bit_loop width i [] = Some width"
| "bm_find_first_bit_loop width i (e # es) =
     (if e \<noteq> 0 then do { k \<leftarrow> my_find_first_bit e; Some (i * BITS_PER_ELEMENT + k) }
      else bm_find_first_bit_loop width (i + 1) es)"

definition bm_find_first_bit :: "nat \<Rightarrow> bitmap \<Rightarrow> nat option" where
  "bm_find_first_bit width b = bm_find_first_bit_loop width 0 b"

subsection \<open>Printing\<close>

text \<open>
  \<open>print\<close>: \<open>last\<close> is found by walking down from the last element; the inner loop
  starts at \<open>shift = 60\<close> and adds 4 each time, as the code does.
  \<open>longlong2str\<close> is a function of another library: \<open>l2s\<close>, giving the characters it
  writes at the start of \<open>buf\<close>. The result is \<open>buf\<close> without what lies beyond the
  terminating zero.
\<close>

fun bm_print_last :: "bitmap \<Rightarrow> nat \<Rightarrow> nat" where
  "bm_print_last b 0 = 0"
| "bm_print_last b (Suc l) = (if b ! Suc l = 0 then bm_print_last b l else Suc l)"

definition dig_vec_upper :: "char list" where
  "dig_vec_upper = ''0123456789ABCDEF''"

fun bm_print_digits :: "ulonglong \<Rightarrow> nat \<Rightarrow> nat \<Rightarrow> string option" where
  "bm_print_digits num shift 0 = Some []"
| "bm_print_digits num shift (Suc j) =
     (if 64 \<le> shift then None
      else do { ds \<leftarrow> bm_print_digits num (shift + 4) j;
                Some (dig_vec_upper ! unat (drop_bit shift num AND 0xF) # ds) })"

fun bm_print_elems :: "ulonglong list \<Rightarrow> string option" where
  "bm_print_elems [] = Some []"
| "bm_print_elems (e # es) =
     do { ds \<leftarrow> bm_print_digits e (BITS_PER_ELEMENT - 4) (BITS_PER_ELEMENT div 4);
          rest \<leftarrow> bm_print_elems es; Some (ds @ rest) }"

definition bm_print :: "(ulonglong \<Rightarrow> string) \<Rightarrow> nat \<Rightarrow> bitmap \<Rightarrow> string option" where
  "bm_print l2s width b =
     (let last = bm_print_last b (ARRAY_ELEMENTS width - 1)
      in do { _ \<leftarrow> bm_print_elems (take last b); Some (l2s (b ! last)) })"

subsection \<open>Iterator\<close>

record bm_iter =
  it_map :: bitmap
  it_offset :: nat
  it_tmi :: ulonglong

definition bm_iter_init :: "bitmap \<Rightarrow> bm_iter" where
  "bm_iter_init b = \<lparr>it_map = b, it_offset = 0, it_tmi = b ! 0\<rparr>"

function bm_iter_next :: "nat \<Rightarrow> bm_iter \<Rightarrow> (nat \<times> bm_iter) option" where
  "bm_iter_next width it =
     (case tmi_next_bit (it_tmi it) of
        None \<Rightarrow> None
      | Some (nextbit, tmi) \<Rightarrow>
          let it = it\<lparr>it_tmi := tmi\<rparr>
          in if nextbit \<noteq> BITMAP_END then Some (it_offset it + nextbit, it)
             else if width \<le> it_offset it + BITS_PER_ELEMENT then Some (width, it)
             else let offset = it_offset it + BITS_PER_ELEMENT
                  in bm_iter_next width
                       (it\<lparr>it_offset := offset, it_tmi := it_map it ! (offset div BITS_PER_ELEMENT)\<rparr>))"
  by pat_completeness auto
termination by (relation "measure (\<lambda>(width, it). width - it_offset it)") (auto simp: BITS_PER_ELEMENT_def)

declare bm_iter_next.simps [simp del]

section \<open>The set a bitmap stands for\<close>

definition bmset :: "bitmap \<Rightarrow> nat set" where
  "bmset b = {n. n div 64 < length b \<and> bit (b ! (n div 64)) (n mod 64)}"

definition bm_wf :: "nat \<Rightarrow> bitmap \<Rightarrow> bool" where
  "bm_wf width b \<longleftrightarrow> 0 < width \<and> length b = ARRAY_ELEMENTS width \<and> bmset b \<subseteq> {..<width}"

lemmas bm_consts = ARRAY_ELEMENTS_def BITS_PER_ELEMENT_def ALL_BITS_SET_def BITMAP_END_def

lemma array_elements_ge: "n < width \<Longrightarrow> n div 64 < ARRAY_ELEMENTS width"
  by (simp add: bm_consts)

lemma array_elements_1: "0 < width \<Longrightarrow> ARRAY_ELEMENTS width = 1 \<longleftrightarrow> width \<le> 64"
  by (simp add: bm_consts) linarith

lemma array_elements_pos: "0 < width \<Longrightarrow> 0 < ARRAY_ELEMENTS width"
  by (simp add: bm_consts)

lemma bit_index_eq: "n < width \<Longrightarrow> bit_index width n = n div 64"
  using array_elements_1[of width] by (auto simp: bit_index_def BITS_PER_ELEMENT_def)

lemma bit_mask_eq: "n < width \<Longrightarrow> bit_mask width n = Some (push_bit (n mod 64) 1)"
  using array_elements_1[of width] by (auto simp: bit_mask_def BITS_PER_ELEMENT_def)

lemma last_element_mask_eq:
  assumes "n \<le> width" "n mod 64 \<noteq> 0"
  shows "last_element_mask width n = Some (mask (n mod 64))"
proof -
  have "n < 64" if "ARRAY_ELEMENTS width = 1"
  proof -
    have "width \<le> 64" using that assms array_elements_1[of width] by (cases "width = 0") auto
    with assms have "n \<le> 64" "n \<noteq> 64" by auto
    then show ?thesis by simp
  qed
  then show ?thesis
    by (auto simp: last_element_mask_def bit_mask_def BITS_PER_ELEMENT_def mask_eq_exp_minus_1 push_bit_of_1)
qed

text \<open>Writing one element changes the bits of that element only.\<close>

lemma bmset_update:
  "i < length b \<Longrightarrow> n \<in> bmset (b[i := e]) \<longleftrightarrow> (if n div 64 = i then bit e (n mod 64) else n \<in> bmset b)"
  by (auto simp: bmset_def nth_list_update)

lemma div_mod_64_eq: "n div 64 = m div 64 \<and> n mod 64 = m mod 64 \<longleftrightarrow> n = (m::nat)"
  by (metis div_mult_mod_eq)

lemma bm_fill_length [simp]: "length (bm_fill b i hi v) = length b"
  by (induction b i hi v rule: bm_fill.induct) (subst bm_fill.simps, simp)

lemma bm_fill_nth:
  "hi \<le> length b \<Longrightarrow> j < length b \<Longrightarrow> bm_fill b i hi v ! j = (if i \<le> j \<and> j < hi then v else b ! j)"
proof (induction b i hi v rule: bm_fill.induct)
  case (1 b i hi v)
  then show ?case by (subst bm_fill.simps) (auto simp: nth_list_update)
qed

lemma set_bit_ok:
  assumes "bm_wf width b" "n < width"
  obtains b' where "bm_set_bit width n b = Some b'" "bm_wf width b'" "bmset b' = insert n (bmset b)"
proof -
  have i: "n div 64 < length b" using assms array_elements_ge by (simp add: bm_wf_def)
  let ?b' = "b[n div 64 := (b ! (n div 64)) OR push_bit (n mod 64) 1]"
  have "bmset ?b' = insert n (bmset b)"
    by (rule set_eqI, subst bmset_update[OF i])
      (auto simp: bmset_def bit_or_iff bit_exp_iff i div_mod_64_eq[of _ n, symmetric])
  with assms i that[of ?b'] show ?thesis
    by (simp add: bm_set_bit_def bm_upd_def bit_index_eq bit_mask_eq bm_wf_def)
qed

lemma clear_bit_ok:
  assumes "bm_wf width b" "n < width"
  obtains b' where "bm_clear_bit width n b = Some b'" "bm_wf width b'" "bmset b' = bmset b - {n}"
proof -
  have i: "n div 64 < length b" using assms array_elements_ge by (simp add: bm_wf_def)
  let ?b' = "b[n div 64 := (b ! (n div 64)) AND NOT (push_bit (n mod 64) 1)]"
  have "bmset ?b' = bmset b - {n}"
    by (rule set_eqI, subst bmset_update[OF i])
      (auto simp: bmset_def bit_and_iff bit_not_iff bit_exp_iff i div_mod_64_eq[of _ n, symmetric])
  moreover from this assms have "bm_wf width ?b'" by (auto simp: bm_wf_def)
  ultimately show ?thesis using assms i that[of ?b']
    by (simp add: bm_clear_bit_def bm_upd_def bit_index_eq bit_mask_eq)
qed

lemma and_exp_neq_0: "(e :: ulonglong) AND 2 ^ i \<noteq> 0 \<longleftrightarrow> bit e i"
proof -
  have bits: "bit (e AND 2 ^ i) j \<longleftrightarrow> j = i \<and> bit e i" for j
    by (auto simp: bit_and_iff bit_exp_iff dest: bit_imp_le_length)
  show ?thesis
  proof
    assume "e AND 2 ^ i \<noteq> 0"
    then obtain j where "bit (e AND 2 ^ i) j" using bit_eq_iff[of "e AND 2 ^ i" 0] by auto
    then show "bit e i" by (simp only: bits)
  next
    assume "bit e i"
    then have "bit (e AND 2 ^ i) i" by (simp only: bits)
    then show "e AND 2 ^ i \<noteq> 0" by auto
  qed
qed

lemma is_set_ok: "bm_wf width b \<Longrightarrow> n < width \<Longrightarrow> bm_is_set width n b = Some (n \<in> bmset b)"
  using array_elements_ge[of n width]
  by (simp add: bm_is_set_def bit_index_eq bit_mask_eq bmset_def bm_wf_def and_exp_neq_0)

lemma bit_all_set: "bit ALL_BITS_SET i \<longleftrightarrow> i < 64"
proof -
  have m: "ALL_BITS_SET = mask 64" by (simp add: ALL_BITS_SET_def mask_eq_exp_minus_1)
  show ?thesis unfolding m by (simp only: bit_mask_iff) simp
qed

text \<open>
  The elements of a prefix: full below \<open>p div 64\<close>, a mask at \<open>p div 64\<close>, zero above.
\<close>

definition prefix_elem :: "nat \<Rightarrow> nat \<Rightarrow> ulonglong" where
  "prefix_elem p i = (if i < p div 64 then ALL_BITS_SET else if i = p div 64 then mask (p mod 64) else 0)"

lemma bit_prefix_elem: "j < 64 \<Longrightarrow> bit (prefix_elem p i) j \<longleftrightarrow> i * 64 + j < p"
proof -
  assume j: "j < 64"
  have p: "p = p div 64 * 64 + p mod 64" "p mod 64 < 64" by simp_all
  consider "i < p div 64" | "i = p div 64" | "p div 64 < i" by linarith
  then show ?thesis
  proof cases
    case 1
    then have "(i + 1) * 64 \<le> p div 64 * 64" by (intro mult_right_mono) simp_all
    with p j have "i * 64 + j < p" by simp
    with 1 j show ?thesis by (simp add: prefix_elem_def bit_all_set)
  next
    case 2
    have "p div 64 * 64 + j < p \<longleftrightarrow> j < p mod 64" using p(1) by linarith
    with 2 p j show ?thesis by (auto simp: prefix_elem_def bit_mask_iff)
  next
    case 3
    then obtain d where "i = Suc (p div 64 + d)" by (auto simp: less_iff_Suc_add)
    with p have "\<not> i * 64 + j < p" by simp
    with 3 show ?thesis by (simp add: prefix_elem_def)
  qed
qed

lemma bmset_eq_nth: "length b = N \<Longrightarrow> (\<And>i. i < N \<Longrightarrow> b ! i = f i) \<Longrightarrow>
    bmset b = {n. n div 64 < N \<and> bit (f (n div 64)) (n mod 64)}"
  by (auto simp: bmset_def)

lemma bmset_prefix:
  assumes "length b = ARRAY_ELEMENTS width" "p \<le> width" "\<And>i. i < length b \<Longrightarrow> b ! i = prefix_elem p i"
  shows "bmset b = {..<p}"
proof -
  have "n div 64 < ARRAY_ELEMENTS width" if "n < p" for n
    using that assms(2) array_elements_ge by simp
  moreover have "bit (prefix_elem p (n div 64)) (n mod 64) \<longleftrightarrow> n < p" for n
    using bit_prefix_elem[of "n mod 64" p "n div 64"] by simp
  ultimately show ?thesis using bmset_eq_nth[OF assms(1), of "prefix_elem p"] assms(1,3) by auto
qed

lemma prefix_index:
  assumes "p \<le> width"
  shows "p div 64 \<le> ARRAY_ELEMENTS width" and "p mod 64 \<noteq> 0 \<Longrightarrow> p div 64 < ARRAY_ELEMENTS width"
proof -
  show "p div 64 \<le> ARRAY_ELEMENTS width" using assms by (simp add: bm_consts div_le_mono)
  have aux: "p = r + 64 * q \<Longrightarrow> r \<noteq> 0 \<Longrightarrow> 64 * (q + 1) \<le> width + 63" for q r using assms by simp
  assume "p mod 64 \<noteq> 0"
  then have "64 * (p div 64 + 1) \<le> width + 63" by (intro aux[of "p mod 64"]) simp_all
  from div_le_mono[OF this, of 64] show "p div 64 < ARRAY_ELEMENTS width" by (simp add: bm_consts)
qed

lemma set_prefix_ok:
  assumes "0 < width" "length b = ARRAY_ELEMENTS width"
  obtains b' where "bm_set_prefix width p b = Some b'" "bm_wf width b'" "bmset b' = {..<min p width}"
proof -
  define q where "q = min p width"
  let ?N = "ARRAY_ELEMENTS width"
  have q: "q \<le> width" by (simp add: q_def)
  note idx = prefix_index[OF q]
  let ?b1 = "bm_fill b 0 (q div 64) ALL_BITS_SET"
  let ?b' = "if q mod 64 \<noteq> 0 then bm_fill (?b1[q div 64 := mask (q mod 64)]) (q div 64 + 1) ?N 0
             else bm_fill ?b1 (q div 64) ?N 0"
  have res: "bm_set_prefix width p b = Some ?b'"
    using idx assms(2) last_element_mask_eq[OF q]
    by (auto simp: bm_set_prefix_def Let_def BITS_PER_ELEMENT_def bm_upd_def simp flip: q_def)
  have "?b' ! i = prefix_elem q i" if "i < ?N" for i
    using that idx assms(2) by (auto simp: bm_fill_nth nth_list_update prefix_elem_def)
  then have "bmset ?b' = {..<q}"
    using assms(2) q by (intro bmset_prefix[of _ width]) auto
  with that[OF res] res assms q show ?thesis by (auto simp: bm_wf_def q_def)
qed

lemma set_all_ok:
  assumes "0 < width" "length b = ARRAY_ELEMENTS width"
  obtains b' where "bm_set_all width b = Some b'" "bm_wf width b'" "bmset b' = {..<width}"
proof (cases "width mod 64 = 0")
  case False
  then show ?thesis using set_prefix_ok[OF assms, of width] that
    by (auto simp: bm_set_all_def BITS_PER_ELEMENT_def)
next
  case True
  let ?b' = "replicate (length b) ALL_BITS_SET"
  have n: "ARRAY_ELEMENTS width = width div 64" using True by (auto simp: bm_consts)
  have "bmset ?b' = {..<width}"
  proof (rule bmset_prefix[of _ width])
    fix i assume "i < length ?b'"
    then show "?b' ! i = prefix_elem width i" using assms n by (simp add: prefix_elem_def)
  qed (use assms in auto)
  moreover have "bm_set_all width b = Some ?b'"
  proof (cases "ARRAY_ELEMENTS width > 1")
    case False
    with array_elements_pos[OF assms(1)] assms have "length b = 1" by simp
    with True False show ?thesis
      by (cases b) (auto simp: bm_set_all_def bm_upd_def BITS_PER_ELEMENT_def)
  qed (use True in \<open>simp add: bm_set_all_def BITS_PER_ELEMENT_def ALL_BITS_SET_def\<close>)
  ultimately show ?thesis using that assms by (simp add: bm_wf_def)
qed

lemma clear_all_ok:
  assumes "0 < width" "length b = ARRAY_ELEMENTS width"
  obtains b' where "bm_clear_all width b = Some b'" "bm_wf width b'" "bmset b' = {}"
proof -
  let ?b' = "replicate (length b) 0 :: bitmap"
  have "bm_clear_all width b = Some ?b'"
  proof (cases "ARRAY_ELEMENTS width > 1")
    case False
    with array_elements_pos[OF assms(1)] assms have "length b = 1" by simp
    with False show ?thesis by (cases b) (auto simp: bm_clear_all_def bm_upd_def)
  qed (simp add: bm_clear_all_def)
  moreover have "bmset ?b' = {}" by (auto simp: bmset_def)
  ultimately show ?thesis using that assms by (simp add: bm_wf_def)
qed

text \<open>The element-wise operations are the set operations.\<close>

lemma bmset_map2:
  assumes "length b = length b2" and "\<And>x y j. j < 64 \<Longrightarrow> bit (f x y) j \<longleftrightarrow> P (bit x j) (bit y j)"
  shows "n \<in> bmset (map2 f b b2) \<longleftrightarrow> n div 64 < length b \<and> P (n \<in> bmset b) (n \<in> bmset b2)"
  using assms by (auto simp: bmset_def)

lemma bmset_ops:
  assumes "length b = length b2"
  shows "bmset (bm_intersect b b2) = bmset b \<inter> bmset b2"
    and "bmset (bm_subtract b b2) = bmset b - bmset b2"
    and "bmset (bm_merge b b2) = bmset b \<union> bmset b2"
proof -
  have "n div 64 < length b" if "n \<in> bmset b \<or> n \<in> bmset b2" for n
    using that assms by (auto simp: bmset_def)
  then show "bmset (bm_intersect b b2) = bmset b \<inter> bmset b2"
    and "bmset (bm_subtract b b2) = bmset b - bmset b2"
    and "bmset (bm_merge b b2) = bmset b \<union> bmset b2"
    unfolding bm_intersect_def bm_subtract_def bm_merge_def
    using bmset_map2[OF assms, of "\<lambda>x y. x AND y" "\<lambda>p q. p \<and> q"]
      bmset_map2[OF assms, of "\<lambda>x y. x AND NOT y" "\<lambda>p q. p \<and> \<not> q"]
      bmset_map2[OF assms, of "\<lambda>x y. x OR y" "\<lambda>p q. p \<or> q"]
    by (auto simp: bit_and_iff bit_or_iff bit_not_iff)
qed

lemma bm_wf_ops:
  assumes "bm_wf width b" "bm_wf width b2"
  shows "bm_wf width (bm_intersect b b2)" and "bm_wf width (bm_subtract b b2)"
    and "bm_wf width (bm_merge b b2)"
proof -
  have "length b = length b2" using assms by (simp add: bm_wf_def)
  from bmset_ops[OF this] assms this
  show "bm_wf width (bm_intersect b b2)" and "bm_wf width (bm_subtract b b2)"
    and "bm_wf width (bm_merge b b2)"
    by (auto simp: bm_wf_def bm_intersect_def bm_subtract_def bm_merge_def)
qed

lemma bit_of_elem: "i < length b \<Longrightarrow> j < 64 \<Longrightarrow> bit (b ! i) j \<longleftrightarrow> i * 64 + j \<in> bmset b"
  by (simp add: bmset_def)

lemma word64_eq_0_iff: "e = 0 \<longleftrightarrow> (\<forall>j<64. \<not> bit e j)" for e :: ulonglong
  using bit_eq_iff[of e 0] bit_imp_le_length[of e] by auto

lemma bmset_bound: "n \<in> bmset b \<Longrightarrow> n = n div 64 * 64 + n mod 64 \<and> n div 64 < length b \<and> n mod 64 < 64"
  by (simp add: bmset_def)

lemma is_clear_all_iff: "bm_is_clear_all b \<longleftrightarrow> bmset b = {}"
proof -
  have "bm_is_clear_all b \<longleftrightarrow> (\<forall>i<length b. \<forall>j<64. \<not> bit (b ! i) j)"
    by (simp add: bm_is_clear_all_def list_all_length word64_eq_0_iff)
  also have "\<dots> \<longleftrightarrow> bmset b = {}"
    using bit_of_elem[of _ b] bmset_bound[of _ b] by (metis empty_iff equals0I)
  finally show ?thesis .
qed

lemma is_subset_iff:
  assumes "length b = length b2" shows "bm_is_subset b b2 \<longleftrightarrow> bmset b \<subseteq> bmset b2"
proof -
  have "bm_is_subset b b2 \<longleftrightarrow> bm_is_clear_all (bm_subtract b b2)"
    by (simp add: bm_is_subset_def bm_is_clear_all_def bm_subtract_def list_all_iff case_prod_unfold)
  then show ?thesis by (auto simp: is_clear_all_iff bmset_ops[OF assms])
qed

lemma is_overlapping_iff:
  assumes "length b = length b2" shows "bm_is_overlapping b b2 \<longleftrightarrow> bmset b \<inter> bmset b2 \<noteq> {}"
proof -
  have "bm_is_overlapping b b2 \<longleftrightarrow> \<not> bm_is_clear_all (bm_intersect b b2)"
    by (simp add: bm_is_overlapping_def bm_is_clear_all_def bm_intersect_def list_all_iff list_ex_iff case_prod_unfold)
  then show ?thesis by (auto simp: is_clear_all_iff bmset_ops[OF assms])
qed

lemma bmset_inject: "length b = length b2 \<Longrightarrow> bmset b = bmset b2 \<longleftrightarrow> b = b2"
proof
  assume len: "length b = length b2" and eq: "bmset b = bmset b2"
  show "b = b2"
  proof (rule nth_equalityI[OF len], rule bit_word_eqI)
    fix i j assume "i < length b" "j < LENGTH(64)"
    with len eq show "bit (b ! i) j = bit (b2 ! i) j" by (simp add: bit_of_elem)
  qed
qed simp

lemma bm_eq_iff:
  assumes "bm_wf width b" "bm_wf width b2" shows "bm_eq width b b2 \<longleftrightarrow> bmset b = bmset b2"
proof -
  have len: "length b = length b2" and n: "length b = ARRAY_ELEMENTS width" "0 < ARRAY_ELEMENTS width"
    using assms by (simp_all add: bm_wf_def array_elements_pos)
  have "bm_eq width b b2 \<longleftrightarrow> b = b2"
  proof (cases "ARRAY_ELEMENTS width > 1")
    case False
    with n len have "length b = 1" "length b2 = 1" by simp_all
    then show ?thesis using False by (cases b; cases b2) (auto simp: bm_eq_def)
  qed (simp add: bm_eq_def)
  then show ?thesis by (simp add: bmset_inject[OF len])
qed

lemma intersect_and_pad_ok:
  assumes wf: "bm_wf width b"
  obtains b' where "bm_intersect_and_pad width m pad b = Some b'" "bm_wf width b'"
    "bmset b' = {n \<in> bmset b. n < 64 \<and> bit m n} \<union> (if pad then {64..<width} else {})"
proof -
  let ?N = "ARRAY_ELEMENTS width"
  have N: "length b = ?N" "0 < ?N" "0 < width" using wf by (simp_all add: bm_wf_def array_elements_pos)
  let ?b1 = "bm_fill (b[0 := b ! 0 AND m]) 1 ?N (if pad then ALL_BITS_SET else 0)"
  let ?msk = "?N > 1 \<and> width mod 64 \<noteq> 0 \<and> pad"
  let ?b' = "if ?msk then ?b1[?N - 1 := mask (width mod 64)] else ?b1"
  have res: "bm_intersect_and_pad width m pad b = Some ?b'"
    using N last_element_mask_eq[of width width]
    by (auto simp: bm_intersect_and_pad_def bm_upd_def BITS_PER_ELEMENT_def Let_def)
  have len: "length ?b' = ?N" using N by simp
  have last: "?N - 1 = width div 64" if "width mod 64 \<noteq> 0"
    using that prefix_index[of width width] by (simp add: bm_consts)
  have full: "?N = width div 64" if "width mod 64 = 0" using that by (auto simp: bm_consts)
  have elem: "?b' ! i = (if i = 0 then b ! 0 AND m else if pad then prefix_elem width i else 0)"
    if i: "i < ?N" for i
  proof (cases "i = 0")
    case True
    then show ?thesis using N by (auto simp: bm_fill_nth nth_list_update)
  next
    case False
    then show ?thesis using i N last full
      by (auto simp: bm_fill_nth nth_list_update prefix_elem_def)
  qed
  obtain b' where b': "bm_intersect_and_pad width m pad b = Some b'" "length b' = ?N"
    and elem': "\<And>i. i < ?N \<Longrightarrow> b' ! i = (if i = 0 then b ! 0 AND m else if pad then prefix_elem width i else 0)"
    using res len elem by blast
  have mem: "n \<in> bmset b' \<longleftrightarrow> (n \<in> bmset b \<and> n < 64 \<and> bit m n) \<or> (pad \<and> 64 \<le> n \<and> n < width)" for n
  proof (cases "n div 64 < ?N")
    case True
    have "n \<in> bmset b' \<longleftrightarrow> bit (b' ! (n div 64)) (n mod 64)" using True b'(2) by (simp add: bmset_def)
    also have "\<dots> \<longleftrightarrow> (n \<in> bmset b \<and> n < 64 \<and> bit m n) \<or> (pad \<and> 64 \<le> n \<and> n < width)"
    proof (cases "n < 64")
      case True
      with N have "n \<in> bmset b \<longleftrightarrow> bit (b ! 0) n" by (simp add: bmset_def)
      with True N show ?thesis by (simp add: elem' bit_and_iff)
    next
      case False
      then have "n div 64 \<noteq> 0" by (simp add: div_eq_0_iff)
      moreover have "bit (prefix_elem width (n div 64)) (n mod 64) \<longleftrightarrow> n < width"
        using bit_prefix_elem[of "n mod 64" width "n div 64"] by simp
      ultimately show ?thesis using False by (simp add: elem'[OF True])
    qed
    finally show ?thesis .
  next
    case False
    then show ?thesis using b'(2) N array_elements_ge[of n width] by (auto simp: bmset_def)
  qed
  have "bmset b' = {n \<in> bmset b. n < 64 \<and> bit m n} \<union> (if pad then {64..<width} else {})"
    by (rule set_eqI) (simp add: mem)
  moreover from this wf b'(2) have "bm_wf width b'" by (auto simp: bm_wf_def)
  ultimately show ?thesis using that b'(1) by blast
qed

lemma is_prefix_ok:
  assumes wf: "bm_wf width b" and p: "p \<le> width"
  shows "bm_is_prefix width p b = Some (bmset b = {..<p})"
proof -
  let ?N = "ARRAY_ELEMENTS width"
  have N: "length b = ?N" using wf by (simp add: bm_wf_def)
  note idx = prefix_index[OF p]
  have range: "bm_range_is b lo hi v \<longleftrightarrow> (\<forall>i. lo \<le> i \<and> i < hi \<longrightarrow> b ! i = v)" for lo hi v
    by (auto simp: bm_range_is_def list_all_iff)
  have "bm_is_prefix width p b = Some (\<forall>i<?N. b ! i = prefix_elem p i)"
  proof (cases "p mod 64 = 0")
    case True
    have "(\<forall>i<?N. b ! i = prefix_elem p i) \<longleftrightarrow> (\<forall>i<p div 64. b ! i = ALL_BITS_SET) \<and>
        (\<forall>i. p div 64 \<le> i \<and> i < ?N \<longrightarrow> b ! i = 0)"
    proof (intro iffI conjI allI impI)
      fix i assume "(\<forall>i<p div 64. b ! i = ALL_BITS_SET) \<and> (\<forall>i. p div 64 \<le> i \<and> i < ?N \<longrightarrow> b ! i = 0)" "i < ?N"
      then show "b ! i = prefix_elem p i" using True by (cases "i < p div 64") (auto simp: prefix_elem_def)
    qed (use idx(1) True in \<open>auto simp: prefix_elem_def\<close>)
    then show ?thesis using True
      by (auto simp: bm_is_prefix_def Let_def BITS_PER_ELEMENT_def range)
  next
    case False
    have "(\<forall>i<?N. b ! i = prefix_elem p i) \<longleftrightarrow> (\<forall>i<p div 64. b ! i = ALL_BITS_SET) \<and>
        b ! (p div 64) = mask (p mod 64) \<and> (\<forall>i. p div 64 + 1 \<le> i \<and> i < ?N \<longrightarrow> b ! i = 0)"
    proof (intro iffI conjI allI impI)
      fix i assume "(\<forall>i<p div 64. b ! i = ALL_BITS_SET) \<and> b ! (p div 64) = mask (p mod 64) \<and>
          (\<forall>i. p div 64 + 1 \<le> i \<and> i < ?N \<longrightarrow> b ! i = 0)" "i < ?N"
      then show "b ! i = prefix_elem p i" by (cases i "p div 64" rule: linorder_cases) (auto simp: prefix_elem_def)
    qed (use idx(2)[OF False] in \<open>auto simp: prefix_elem_def\<close>)
    then show ?thesis using False last_element_mask_eq[OF p False]
      by (auto simp: bm_is_prefix_def Let_def BITS_PER_ELEMENT_def range)
  qed
  moreover have "(\<forall>i<?N. b ! i = prefix_elem p i) \<longleftrightarrow> bmset b = {..<p}"
  proof
    assume "\<forall>i<?N. b ! i = prefix_elem p i"
    then show "bmset b = {..<p}" using bmset_prefix[OF N p] N by simp
  next
    assume eq: "bmset b = {..<p}"
    have "bmset (map (prefix_elem p) [0..<?N]) = {..<p}"
      by (rule bmset_prefix[OF _ p]) auto
    then have "b = map (prefix_elem p) [0..<?N]"
      using bmset_inject[of b "map (prefix_elem p) [0..<?N]"] eq N by simp
    then show "\<forall>i<?N. b ! i = prefix_elem p i" by (metis nth_map_upt add.left_neutral diff_zero)
  qed
  ultimately show ?thesis by simp
qed

section \<open>Counting and searching\<close>

lemma bmset_Cons: "bmset (e # es) = {j. j < 64 \<and> bit e j} \<union> (\<lambda>n. n + 64) ` bmset es"
proof (rule set_eqI)
  fix n
  show "n \<in> bmset (e # es) \<longleftrightarrow> n \<in> {j. j < 64 \<and> bit e j} \<union> (\<lambda>n. n + 64) ` bmset es"
  proof (cases "n < 64")
    case True
    then show ?thesis by (auto simp: bmset_def)
  next
    case False
    then obtain m where n: "n = m + 64" by (metis le_add_diff_inverse2 not_less)
    have "n div 64 = Suc (m div 64)" "n mod 64 = m mod 64" by (simp_all add: n)
    then show ?thesis by (auto simp: bmset_def n)
  qed
qed

lemma bmset_Nil: "bmset [] = {}"
  by (simp add: bmset_def)

lemma finite_bmset: "finite (bmset b)"
  by (induction b) (simp_all add: bmset_Nil bmset_Cons)

lemma card_bmset_Cons: "card (bmset (e # es)) = bitsum 64 e + card (bmset es)"
proof -
  have "card (bmset (e # es)) = card {j. j < 64 \<and> bit e j} + card ((\<lambda>n. n + 64) ` bmset es)"
    unfolding bmset_Cons by (rule card_Un_disjoint) (auto simp: finite_bmset)
  then show ?thesis by (simp add: bitsum_card card_image)
qed

lemma bits_set_loop: "bm_bits_set_loop b res = res + of_nat (card (bmset b))"
proof (induction b arbitrary: res)
  case Nil
  show ?case by (simp add: bmset_Nil)
next
  case (Cons e es)
  have cnt: "my_count_bits e = of_nat (bitsum 64 e)"
    by (simp flip: count_bits)
  have "bitsum 64 e = 0" if "e = 0" using that by (simp add: bitsum_def)
  with Cons show ?case by (auto simp: cnt card_bmset_Cons)
qed

lemma bits_set_eq: "bm_bits_set b = of_nat (card (bmset b))"
  by (simp add: bm_bits_set_def bits_set_loop)

lemma find_first_bit_loop_bm:
  "bm_find_first_bit_loop width i b =
     Some (if bmset b = {} then width else i * 64 + Min (bmset b))"
proof (induction b arbitrary: i)
  case Nil
  show ?case by (simp add: bmset_Nil)
next
  case (Cons e es)
  show ?case
  proof (cases "e = 0")
    case True
    then have "bmset (e # es) = (\<lambda>n. n + 64) ` bmset es" by (simp add: bmset_Cons)
    moreover have "Min ((\<lambda>n. n + 64) ` bmset es) = Min (bmset es) + 64" if "bmset es \<noteq> {}"
      using mono_Min_commute[of "\<lambda>n. n + 64" "bmset es"] that finite_bmset by (simp add: mono_def)
    ultimately show ?thesis using Cons True by simp
  next
    case False
    then obtain k where k: "my_find_first_bit e = Some k" "k < 64" "bit e k" "\<forall>j<k. \<not> bit e j"
      by (rule find_first_bit)
    then have mem: "k \<in> bmset (e # es)" by (simp add: bmset_Cons)
    have "Min (bmset (e # es)) = k"
    proof (rule Min_eqI[OF finite_bmset _ mem])
      fix n assume "n \<in> bmset (e # es)"
      then show "k \<le> n" using k unfolding bmset_Cons by (auto simp: not_less[symmetric])
    qed
    with mem False k(1) show ?thesis by (auto simp: BITS_PER_ELEMENT_def)
  qed
qed

lemma find_first_bit_ok: "bm_find_first_bit width b = Some (if bmset b = {} then width else Min (bmset b))"
  by (simp add: bm_find_first_bit_def find_first_bit_loop_bm)

section \<open>Walking over the bits\<close>

text \<open>
  The callers of both iterators are loops \<open>while ((bit= it++) != BITMAP_END)\<close>:
  \<open>drain\<close> collects what such a loop sees, with a bound on its rounds.
\<close>

fun drain :: "nat \<Rightarrow> ('s \<Rightarrow> (nat \<times> 's) option) \<Rightarrow> nat \<Rightarrow> 's \<Rightarrow> nat list option" where
  "drain 0 nxt stop s = None"
| "drain (Suc fuel) nxt stop s =
     do { (n, s') \<leftarrow> nxt s;
          if n = stop then Some [] else do { ns \<leftarrow> drain fuel nxt stop s'; Some (n # ns) } }"

locale bit_cursor =
  fixes nxt :: "'s \<Rightarrow> (nat \<times> 's) option"
    and rest :: "'s \<Rightarrow> nat set"
    and stop :: nat
    and ok :: "'s \<Rightarrow> bool"
  assumes nxt_law: "ok s \<Longrightarrow> \<exists>s'. nxt s = Some (if rest s = {} then stop else Min (rest s), s') \<and>
                            ok s' \<and> rest s' = rest s - {Min (rest s)}"
    and rest_below: "ok s \<Longrightarrow> rest s \<subseteq> {..<stop}"
begin

lemma rest_finite: "ok s \<Longrightarrow> finite (rest s)"
  using rest_below finite_subset by blast

lemma drain_sorted: "ok s \<Longrightarrow> card (rest s) < fuel \<Longrightarrow> drain fuel nxt stop s = Some (sorted_list_of_set (rest s))"
proof (induction fuel arbitrary: s)
  case (Suc fuel)
  obtain s' where s': "nxt s = Some (if rest s = {} then stop else Min (rest s), s')" "ok s'"
    "rest s' = rest s - {Min (rest s)}" using nxt_law[OF Suc.prems(1)] by blast
  show ?case
  proof (cases "rest s = {}")
    case False
    note fin = rest_finite[OF Suc.prems(1)]
    have "Min (rest s) \<in> rest s" using False fin by simp
    then have "Min (rest s) \<noteq> stop" using rest_below[OF Suc.prems(1)] by auto
    moreover have "card (rest s') < fuel"
      using card_Diff1_less[OF fin \<open>Min (rest s) \<in> rest s\<close>] Suc.prems(2) by (simp add: s'(3))
    ultimately show ?thesis using Suc.IH[OF s'(2)]
      using False s' sorted_list_of_set_nonempty[OF fin False] by simp
  qed (use s' in simp)
qed simp

end

lemma bits_below_64: "bit (w :: ulonglong) j \<Longrightarrow> j < 64"
  using bit_imp_le_length[of w j] by simp

interpretation tmi: bit_cursor tmi_next_bit "\<lambda>w. {j. bit w j}" BITMAP_END "\<lambda>_. True"
proof unfold_locales
  fix w :: ulonglong
  show "{j. bit w j} \<subseteq> {..<BITMAP_END}" by (auto simp: BITMAP_END_def dest: bits_below_64)
  show "\<exists>s'. tmi_next_bit w = Some (if {j. bit w j} = {} then BITMAP_END else Min {j. bit w j}, s') \<and>
          True \<and> {j. bit s' j} = {j. bit w j} - {Min {j. bit w j}}"
  proof (cases "w = 0")
    case False
    then obtain k where k: "my_find_first_bit w = Some k" "k < 64" "bit w k" "\<forall>j<k. \<not> bit w j"
      by (rule find_first_bit)
    have "finite {j. bit w j}" by (rule finite_subset[of _ "{..<64}"]) (auto dest: bits_below_64)
    with k have "Min {j. bit w j} = k" by (intro Min_eqI) (auto simp: not_less[symmetric])
    moreover have "{j. bit (w AND NOT (push_bit k 1)) j} = {j. bit w j} - {k}"
      using k(2) by (auto simp: bit_and_iff bit_not_iff bit_exp_iff dest: bits_below_64)
    ultimately show ?thesis using k False by (auto simp: tmi_next_bit_def)
  qed (simp add: tmi_next_bit_def)
qed

definition bm_iter_rest :: "bm_iter \<Rightarrow> nat set" where
  "bm_iter_rest it = (\<lambda>j. it_offset it + j) ` {j. bit (it_tmi it) j} \<union> {n \<in> bmset (it_map it). it_offset it + 64 \<le> n}"

definition bm_iter_ok :: "nat \<Rightarrow> bm_iter \<Rightarrow> bool" where
  "bm_iter_ok width it \<longleftrightarrow> bm_wf width (it_map it) \<and> it_offset it mod 64 = 0 \<and> it_offset it < width \<and>
     (\<forall>j. bit (it_tmi it) j \<longrightarrow> it_offset it + j \<in> bmset (it_map it))"

lemma elem_window:
  assumes "off mod 64 = 0" "off div 64 < length b"
  shows "(\<lambda>j. off + j) ` {j. bit (b ! (off div 64)) j} = {n \<in> bmset b. off \<le> n \<and> n < off + 64}"
proof (rule set_eqI)
  fix n
  have dm: "(off + j) div 64 = off div 64" "(off + j) mod 64 = j" if "j < 64" for j
    using assms(1) that by (auto simp: div_add1_eq mod_add_eq[symmetric])
  show "n \<in> (\<lambda>j. off + j) ` {j. bit (b ! (off div 64)) j} \<longleftrightarrow> n \<in> {n \<in> bmset b. off \<le> n \<and> n < off + 64}"
  proof
    assume "n \<in> (\<lambda>j. off + j) ` {j. bit (b ! (off div 64)) j}"
    then obtain j where "n = off + j" "bit (b ! (off div 64)) j" "j < 64" by (auto dest: bits_below_64)
    then show "n \<in> {n \<in> bmset b. off \<le> n \<and> n < off + 64}" using assms(2) by (simp add: bmset_def dm)
  next
    assume n: "n \<in> {n \<in> bmset b. off \<le> n \<and> n < off + 64}"
    then have "n = off + (n - off)" "n - off < 64" by auto
    then show "n \<in> (\<lambda>j. off + j) ` {j. bit (b ! (off div 64)) j}"
      using n dm[of "n - off"] by (auto simp: bmset_def intro!: image_eqI[of _ _ "n - off"])
  qed
qed

definition bm_iter_step :: "nat \<Rightarrow> bm_iter \<Rightarrow> bool" where
  "bm_iter_step width it \<longleftrightarrow> (\<exists>it'. bm_iter_next width it =
     Some (if bm_iter_rest it = {} then width else Min (bm_iter_rest it), it') \<and>
     bm_iter_ok width it' \<and> bm_iter_rest it' = bm_iter_rest it - {Min (bm_iter_rest it)})"

lemma bm_iter_next_law: "bm_iter_ok width it \<Longrightarrow> bm_iter_step width it"
proof (induction width it rule: bm_iter_next.induct)
  case (1 width it)
  note ok = "1.prems"[unfolded bm_iter_ok_def]
  let ?b = "it_map it" and ?off = "it_offset it"
  obtain tmi where tmi: "tmi_next_bit (it_tmi it) =
      Some (if {j. bit (it_tmi it) j} = {} then BITMAP_END else Min {j. bit (it_tmi it) j}, tmi)"
    "{j. bit tmi j} = {j. bit (it_tmi it) j} - {Min {j. bit (it_tmi it) j}}"
    using tmi.nxt_law[of "it_tmi it"] by auto
  let ?A = "{j. bit (it_tmi it) j}"
  have fin: "finite ?A" using tmi.rest_finite[of "it_tmi it"] by simp
  have finR: "finite (bm_iter_rest it)" using fin by (simp add: bm_iter_rest_def finite_bmset)
  show ?case
  proof (cases "?A = {}")
    case False
    then have k: "Min ?A \<in> ?A" by (rule Min_in[OF fin])
    then have k64: "Min ?A < 64" by (auto dest: bits_below_64)
    define m where "m = Min ?A"
    have "tmi_next_bit (it_tmi it) = Some (m, tmi)" "m \<noteq> BITMAP_END"
      using tmi(1) False k64 by (simp_all only: m_def BITMAP_END_def if_False)
    then have nxt: "bm_iter_next width it = Some (?off + Min ?A, it\<lparr>it_tmi := tmi\<rparr>)"
      unfolding m_def[symmetric] by (subst bm_iter_next.simps) (simp add: Let_def)
    have min: "Min (bm_iter_rest it) = ?off + Min ?A"
    proof (rule Min_eqI[OF finR])
      fix n assume "n \<in> bm_iter_rest it"
      then show "?off + Min ?A \<le> n" using k64 Min_le[OF fin] by (auto simp: bm_iter_rest_def)
    qed (use k in \<open>simp add: bm_iter_rest_def\<close>)
    have rest: "bm_iter_rest (it\<lparr>it_tmi := tmi\<rparr>) = bm_iter_rest it - {?off + Min ?A}"
      using k64 by (auto simp: bm_iter_rest_def tmi(2))
    have "bm_iter_ok width (it\<lparr>it_tmi := tmi\<rparr>)"
      using ok tmi(2) by (auto simp: bm_iter_ok_def)
    then show ?thesis using nxt min rest k by (auto simp: bm_iter_step_def bm_iter_rest_def)
  next
    case True
    then have tmi0: "{j. bit tmi j} = {}" using tmi(2) by simp
    have restt: "bm_iter_rest it = {n \<in> bmset ?b. ?off + 64 \<le> n}" using True by (simp add: bm_iter_rest_def)
    show ?thesis
    proof (cases "width \<le> ?off + 64")
      case w: True
      then have "bm_iter_rest it = {}" using ok restt by (auto simp: bm_wf_def)
      moreover have "bm_iter_next width it = Some (width, it\<lparr>it_tmi := tmi\<rparr>)"
        using True w by (subst bm_iter_next.simps) (simp add: tmi(1) BITMAP_END_def BITS_PER_ELEMENT_def Let_def)
      moreover have "bm_iter_ok width (it\<lparr>it_tmi := tmi\<rparr>)" using ok tmi0 by (auto simp: bm_iter_ok_def)
      moreover have "bm_iter_rest (it\<lparr>it_tmi := tmi\<rparr>) = {}"
        using tmi0 \<open>bm_iter_rest it = {}\<close> restt by (simp add: bm_iter_rest_def)
      ultimately show ?thesis by (auto simp: bm_iter_step_def)
    next
      case w: False
      let ?off2 = "?off + 64"
      let ?it2 = "it\<lparr>it_offset := ?off2, it_tmi := it_map it ! (?off2 div 64)\<rparr>"
      have lt: "?off2 div 64 < length ?b" using w ok array_elements_ge[of ?off2 width] by (simp add: bm_wf_def)
      have m: "?off2 mod 64 = 0" using ok by simp
      note win = elem_window[OF m lt]
      have rest2: "bm_iter_rest ?it2 = bm_iter_rest it"
        unfolding restt using win by (auto simp: bm_iter_rest_def)
      have ok2: "bm_iter_ok width ?it2"
        using ok w m win by (auto simp: bm_iter_ok_def)
      have nxt: "bm_iter_next width it = bm_iter_next width ?it2"
        using True w by (subst bm_iter_next.simps)
          (simp add: tmi(1) BITMAP_END_def BITS_PER_ELEMENT_def Let_def)
      have "tmi_next_bit (it_tmi it) = Some (BITMAP_END, tmi)" using tmi(1) unfolding True by simp
      from "1.IH"[OF this refl refl _ _ refl] w ok2
      have "bm_iter_step width ?it2" by (simp add: BITS_PER_ELEMENT_def)
      then show ?thesis by (simp only: bm_iter_step_def nxt rest2)
    qed
  qed
qed

interpretation bmi: bit_cursor "bm_iter_next width" bm_iter_rest width "bm_iter_ok width" for width
proof unfold_locales
  fix it assume ok: "bm_iter_ok width it"
  then show "bm_iter_rest it \<subseteq> {..<width}"
    by (auto simp: bm_iter_rest_def bm_iter_ok_def bm_wf_def)
qed (rule bm_iter_next_law[unfolded bm_iter_step_def])

lemma bm_iter_init_ok:
  assumes "bm_wf width b"
  shows "bm_iter_ok width (bm_iter_init b)" and "bm_iter_rest (bm_iter_init b) = bmset b"
proof -
  have len: "0 < length b" "0 < width" using assms by (simp_all add: bm_wf_def array_elements_pos)
  have win: "(\<lambda>j. 0 + j) ` {j. bit (b ! 0) j} = {n \<in> bmset b. n < 64}"
    using elem_window[of 0 b] len by simp
  then have eq: "{j. bit (b ! 0) j} = {n \<in> bmset b. n < 64}" by simp
  show "bm_iter_rest (bm_iter_init b) = bmset b"
    by (auto simp: bm_iter_rest_def bm_iter_init_def eq)
  have "\<forall>j. bit (b ! 0) j \<longrightarrow> j \<in> bmset b" using eq by blast
  with assms len show "bm_iter_ok width (bm_iter_init b)"
    by (simp add: bm_iter_ok_def bm_iter_init_def)
qed

section \<open>Printing\<close>

lemma print_last_facts:
  "l < length b \<Longrightarrow> bm_print_last b l \<le> l \<and>
     (bm_print_last b l = 0 \<longleftrightarrow> (\<forall>i. 1 \<le> i \<and> i \<le> l \<longrightarrow> b ! i = 0))"
proof (induction l)
  case (Suc l)
  then show ?case by (cases "b ! Suc l = 0") (auto simp: le_Suc_eq)
qed simp

lemma print_digits_undefined: "bm_print_digits e 60 16 = None"
proof -
  have "bm_print_digits e 60 (Suc (Suc 14)) = None" unfolding bm_print_digits.simps by simp
  then show ?thesis by simp
qed

lemma upper_elements:
  assumes "bm_wf width b"
  shows "(\<exists>n \<in> bmset b. 64 \<le> n) \<longleftrightarrow> bm_print_last b (ARRAY_ELEMENTS width - 1) \<noteq> 0"
proof -
  have len: "length b = ARRAY_ELEMENTS width" "0 < ARRAY_ELEMENTS width"
    using assms by (simp_all add: bm_wf_def array_elements_pos)
  have "(\<exists>n \<in> bmset b. 64 \<le> n) \<longleftrightarrow> (\<exists>i. 1 \<le> i \<and> i < length b \<and> b ! i \<noteq> 0)"
  proof
    assume "\<exists>n \<in> bmset b. 64 \<le> n"
    then obtain n where n: "n \<in> bmset b" "64 \<le> n" by blast
    then have "b ! (n div 64) \<noteq> 0" "n div 64 < length b" by (auto simp: bmset_def)
    moreover have "1 \<le> n div 64" using div_le_mono[OF n(2), of 64] by simp
    ultimately show "\<exists>i. 1 \<le> i \<and> i < length b \<and> b ! i \<noteq> 0" by blast
  next
    assume "\<exists>i. 1 \<le> i \<and> i < length b \<and> b ! i \<noteq> 0"
    then obtain i j where "1 \<le> i" "i < length b" "j < 64" "bit (b ! i) j"
      by (auto simp: word64_eq_0_iff)
    then show "\<exists>n \<in> bmset b. 64 \<le> n" by (intro bexI[of _ "i * 64 + j"]) (auto simp: bit_of_elem)
  qed
  moreover have "ARRAY_ELEMENTS width - 1 < length b" using len by simp
  ultimately show ?thesis
    using print_last_facts[of "ARRAY_ELEMENTS width - 1" b] len by (auto simp: less_eq_Suc_le)
qed

lemma print_ok:
  assumes "bm_wf width b"
  shows "bm_print l2s width b = (if \<exists>n \<in> bmset b. 64 \<le> n then None else Some (l2s (b ! 0)))"
proof (cases "\<exists>n \<in> bmset b. 64 \<le> n")
  case True
  have len: "0 < length b" using assms by (simp add: bm_wf_def array_elements_pos)
  obtain l where l: "bm_print_last b (ARRAY_ELEMENTS width - 1) = Suc l"
    using True upper_elements[OF assms] by (metis not0_implies_Suc)
  have "bm_print_elems (take (Suc l) b) = None"
    using len by (cases b) (simp_all add: BITS_PER_ELEMENT_def print_digits_undefined)
  then show ?thesis using True l by (simp add: bm_print_def)
next
  case False
  then show ?thesis using upper_elements[OF assms] by (simp add: bm_print_def)
qed

section \<open>Properties\<close>

text \<open>Two concrete bitmaps of width 70, for the examples below.\<close>

lemma bmset_examples: "bmset [1, 0] = {0}" "bmset [0, 2] = {65}" "bmset [1, 1] = {0, 64}"
proof -
  have one: "{j. j < 64 \<and> bit (1 :: ulonglong) j} = {0}" by (auto simp: bit_1_iff)
  have "{j. j < 64 \<and> bit (2 ^ 1 :: ulonglong) j} = {1}" by (auto simp only: bit_exp_iff) auto
  then have two: "{j. j < 64 \<and> bit (2 :: ulonglong) j} = {1}" by simp
  show "bmset [1, 0] = {0}" "bmset [0, 2] = {65}" "bmset [1, 1] = {0, 64}"
    unfolding bmset_Cons bmset_Nil one two by auto
qed

lemma bm_wf_examples: "bm_wf 70 [1, 0]" "bm_wf 70 [0, 2]" "bm_wf 70 [1, 1]"
  by (simp_all add: bm_wf_def bm_consts bmset_examples)

text \<open>\<open>set_bit\<close> and \<open>clear_bit\<close> keep the bitmap well formed, insert and remove exactly the
  bit they are given, and \<open>is_set\<close> reads membership, for every bit below \<open>width\<close>.\<close>

theorem bitmap_bit_ops:
  assumes "bm_wf width b" "n < width"
  shows "\<exists>b1 b2. bm_set_bit width n b = Some b1 \<and> bm_wf width b1 \<and> bmset b1 = insert n (bmset b) \<and>
                 bm_clear_bit width n b = Some b2 \<and> bm_wf width b2 \<and> bmset b2 = bmset b - {n} \<and>
                 bm_is_set width n b = Some (n \<in> bmset b)"
  using set_bit_ok[OF assms] clear_bit_ok[OF assms] is_set_ok[OF assms] by metis

theorem bitmap_bit_ops_witness:
  "\<exists>b1 b2. bm_set_bit 70 65 [1, 0] = Some b1 \<and> bm_wf 70 b1 \<and> bmset b1 = insert 65 (bmset [1, 0]) \<and>
           bm_clear_bit 70 65 [1, 0] = Some b2 \<and> bm_wf 70 b2 \<and> bmset b2 = bmset [1, 0] - {65} \<and>
           bm_is_set 70 65 [1, 0] = Some (65 \<in> bmset [1, 0])"
  by (rule bitmap_bit_ops[OF bm_wf_examples(1)]) simp

text \<open>\<open>set_prefix\<close> makes the bitmap the set of the first \<open>min prefix width\<close> numbers whatever the
  uninitialised buffer held, \<open>set_all\<close> and \<open>clear_all\<close> make it full and empty, and
  \<open>is_prefix\<close> decides whether a bitmap is such a prefix.\<close>

theorem bitmap_prefix_ops:
  assumes "0 < width" "length b = ARRAY_ELEMENTS width"
  shows "(\<exists>b'. bm_init width p b = Some b' \<and> bm_wf width b' \<and> bmset b' = {..<min p width} \<and>
               (\<forall>q. q \<le> width \<longrightarrow> bm_is_prefix width q b' = Some (min p width = q))) \<and>
         (\<exists>b'. bm_set_all width b = Some b' \<and> bm_wf width b' \<and> bmset b' = {..<width}) \<and>
         (\<exists>b'. bm_clear_all width b = Some b' \<and> bm_wf width b' \<and> bmset b' = {})"
proof (intro conjI)
  obtain b' where b': "bm_set_prefix width p b = Some b'" "bm_wf width b'" "bmset b' = {..<min p width}"
    by (rule set_prefix_ok[OF assms])
  have "({..<min p width} = {..<q}) = (min p width = q)" for q by (metis card_lessThan)
  with b' show "\<exists>b'. bm_init width p b = Some b' \<and> bm_wf width b' \<and> bmset b' = {..<min p width} \<and>
      (\<forall>q. q \<le> width \<longrightarrow> bm_is_prefix width q b' = Some (min p width = q))"
    by (intro exI[of _ b']) (simp add: bm_init_def is_prefix_ok)
qed (use set_all_ok[OF assms] clear_all_ok[OF assms] in metis)+

theorem bitmap_prefix_ops_witness:
  "\<exists>b'. bm_init 70 67 [9, 9] = Some b' \<and> bm_wf 70 b' \<and> bmset b' = {..<min 67 70}"
  using bitmap_prefix_ops[of 70 "[9, 9]" 67] by (auto simp: bm_consts)

text \<open>The element loops are set algebra on well-formed bitmaps of one width: intersect,
  subtract and merge compute intersection, difference and union and keep the invariant;
  the tests decide emptiness, inclusion, overlap and equality.\<close>

theorem bitmap_algebra:
  assumes "bm_wf width b" "bm_wf width c"
  shows "bm_wf width (bm_intersect b c) \<and> bmset (bm_intersect b c) = bmset b \<inter> bmset c \<and>
         bm_wf width (bm_subtract b c) \<and> bmset (bm_subtract b c) = bmset b - bmset c \<and>
         bm_wf width (bm_merge b c) \<and> bmset (bm_merge b c) = bmset b \<union> bmset c \<and>
         (bm_is_clear_all b \<longleftrightarrow> bmset b = {}) \<and> (bm_is_subset b c \<longleftrightarrow> bmset b \<subseteq> bmset c) \<and>
         (bm_is_overlapping b c \<longleftrightarrow> bmset b \<inter> bmset c \<noteq> {}) \<and>
         (bm_eq width b c \<longleftrightarrow> bmset b = bmset c) \<and> (bm_neq width b c \<longleftrightarrow> bmset b \<noteq> bmset c)"
proof -
  have "length b = length c" using assms by (simp add: bm_wf_def)
  then show ?thesis
    using bm_wf_ops[OF assms] bm_eq_iff[OF assms]
    by (simp add: bmset_ops is_clear_all_iff is_subset_iff is_overlapping_iff bm_neq_def)
qed

theorem bitmap_algebra_witness:
  "bmset (bm_merge [1, 0] [0, 2]) = bmset [1, 0] \<union> bmset [0, 2] \<and> bm_merge [1, 0] [0, 2] = [1, 2]"
  using bitmap_algebra[OF bm_wf_examples(1,2)] by (simp add: bm_merge_def)

text \<open>\<open>intersect_extended\<close> intersects the first 64 bits with its argument and, when the
  argument's highest bit is set, replaces all the others by ones up to \<open>width\<close> (by zeros
  otherwise): the bits above the first element do not depend on what was there.\<close>

theorem bitmap_intersect_extended:
  assumes "bm_wf width b"
  shows "\<exists>b'. bm_intersect_extended width m b = Some b' \<and> bm_wf width b' \<and>
    bmset b' = {n \<in> bmset b. n < 64 \<and> bit m n} \<union> (if bit m 63 then {64..<width} else {})"
proof -
  have "(m AND push_bit 63 1 \<noteq> 0) = bit m 63" using and_exp_neq_0[of m 63] by (simp only: push_bit_of_1)
  moreover obtain b' where "bm_intersect_and_pad width m (bit m 63) b = Some b'" "bm_wf width b'"
    "bmset b' = {n \<in> bmset b. n < 64 \<and> bit m n} \<union> (if bit m 63 then {64..<width} else {})"
    by (rule intersect_and_pad_ok[OF assms])
  ultimately show ?thesis unfolding bm_intersect_extended_def by simp
qed

theorem bitmap_intersect_extended_witness:
  "\<exists>b'. bm_intersect_extended 70 (- 1) [1, 0] = Some b' \<and> bm_wf 70 b' \<and>
    bmset b' = {n \<in> bmset [1, 0]. n < 64 \<and> bit (- 1 :: ulonglong) n} \<union>
      (if bit (- 1 :: ulonglong) 63 then {64..<70} else {})"
  by (rule bitmap_intersect_extended[OF bm_wf_examples(1)])

text \<open>A loop over \<open>Bitmap::Iterator\<close> ends after at most one round per set bit plus one and sees
  the set bits in increasing order, each exactly once.\<close>

theorem bitmap_iterator_enumerates:
  assumes "bm_wf width b" "card (bmset b) < fuel"
  shows "drain fuel (bm_iter_next width) width (bm_iter_init b) = Some (sorted_list_of_set (bmset b))"
  using bmi.drain_sorted[OF bm_iter_init_ok(1)[OF assms(1)], of fuel] assms(2)
  by (simp add: bm_iter_init_ok(2)[OF assms(1)])

theorem bitmap_iterator_enumerates_witness:
  "drain 3 (bm_iter_next 70) 70 (bm_iter_init [1, 1]) = Some [0, 64]"
  using bitmap_iterator_enumerates[OF bm_wf_examples(3), of 3] by (simp add: bmset_examples)

text \<open>\<open>bits_set\<close> is the number of set bits (as a 32-bit count) and \<open>find_first_bit\<close> the least
  set bit, or \<open>width\<close> when there is none; neither ever fails.\<close>

theorem bitmap_count_and_first:
  "bm_bits_set b = of_nat (card (bmset b)) \<and>
   bm_find_first_bit width b = Some (if bmset b = {} then width else Min (bmset b))"
  by (simp add: bits_set_eq find_first_bit_ok)

text \<open>\<open>print\<close> is defined only for bitmaps whose set bits all lie in the first 64-bit element:
  with any higher bit set its digit loop shifts a 64-bit value by 64, because the shift
  grows by 4 where the digits need it to shrink. When it is defined, it prints the first
  element.\<close>

theorem bitmap_print_undefined:
  assumes "bm_wf width b"
  shows "bm_print l2s width b = (if \<exists>n \<in> bmset b. 64 \<le> n then None else Some (l2s (b ! 0)))"
  by (rule print_ok[OF assms])

theorem bitmap_print_undefined_witness:
  "bm_print (\<lambda>_. ''1'') 70 [1, 1] = None"
  using bitmap_print_undefined[OF bm_wf_examples(3)] by (simp add: bmset_examples)

end
