(* ===== verification/Sql_Type_Int.thy ===== *)
theory Sql_Type_Int
  imports My_Bit
begin

text \<open>
  \<open>sql_type_int.h\<close>: the integer value classes of the SQL layer. A \<open>longlong\<close> and an
  \<open>ulonglong\<close> are the same 64 bits, read by \<open>sint\<close> and \<open>uint\<close>; the hybrids carry a
  flag that says which reading is meant. The lemmas relate every operation to the integer
  the object stands for (\<open>hybrid_val\<close>, \<open>uhybrid_val\<close>) and to SQL's NULL.
\<close>

type_synonym longlong = "64 word"

definition LONGLONG_MIN :: longlong where
  "LONGLONG_MIN = 0x8000000000000000"

definition LONGLONG_MAX :: longlong where
  "LONGLONG_MAX = 0x7FFFFFFFFFFFFFFF"

definition ULONGLONG_MAX :: ulonglong where
  "ULONGLONG_MAX = 0xFFFFFFFFFFFFFFFF"

section \<open>Longlong, Longlong_null\<close>

definition longlong_abs :: "longlong \<Rightarrow> ulonglong" where
  "longlong_abs m_value =
     (if m_value = LONGLONG_MIN then LONGLONG_MAX + 1
      else if sint m_value < 0 then - m_value else m_value)"

record Longlong_null =
  m_value :: longlong
  m_is_null :: bool

definition lln_null :: Longlong_null where
  "lln_null = \<lparr>m_value = 0, m_is_null = True\<rparr>"

definition lln_make :: "longlong \<Rightarrow> Longlong_null" where
  "lln_make nr = \<lparr>m_value = nr, m_is_null = False\<rparr>"

definition lln_or :: "Longlong_null \<Rightarrow> Longlong_null \<Rightarrow> Longlong_null" where
  "lln_or a other =
     (if m_is_null a \<or> m_is_null other then lln_null else lln_make (m_value a OR m_value other))"

definition lln_and :: "Longlong_null \<Rightarrow> Longlong_null \<Rightarrow> Longlong_null" where
  "lln_and a other =
     (if m_is_null a \<or> m_is_null other then lln_null else lln_make (m_value a AND m_value other))"

definition lln_xor :: "Longlong_null \<Rightarrow> Longlong_null \<Rightarrow> Longlong_null" where
  "lln_xor a other =
     (if m_is_null a \<or> m_is_null other then lln_null else lln_make (m_value a XOR m_value other))"

definition lln_not :: "Longlong_null \<Rightarrow> Longlong_null" where
  "lln_not a = (if m_is_null a then a else lln_make (NOT (m_value a)))"

definition lln_shl :: "Longlong_null \<Rightarrow> Longlong_null \<Rightarrow> Longlong_null" where
  "lln_shl a llshift =
     (if m_is_null a \<or> m_is_null llshift then lln_null
      else let shift = (ucast (m_value llshift) :: uint);
               res = (if unat shift < 64 then push_bit (unat shift) (m_value a) else 0)
           in lln_make res)"

definition lln_shr :: "Longlong_null \<Rightarrow> Longlong_null \<Rightarrow> Longlong_null" where
  "lln_shr a llshift =
     (if m_is_null a \<or> m_is_null llshift then lln_null
      else let shift = (ucast (m_value llshift) :: uint);
               res = (if unat shift < 64 then drop_bit (unat shift) (m_value a) else 0)
           in lln_make res)"

definition lln_bit_count :: "Longlong_null \<Rightarrow> Longlong_null" where
  "lln_bit_count a = (if m_is_null a then a else lln_make (ucast (my_count_bits (m_value a))))"

section \<open>ULonglong, ULonglong_null\<close>

definition test_if_sum_overflows_ull :: "ulonglong \<Rightarrow> ulonglong \<Rightarrow> bool" where
  "test_if_sum_overflows_ull arg1 arg2 = (ULONGLONG_MAX - arg1 < arg2)"

definition ull_neg :: "ulonglong \<Rightarrow> Longlong_null" where
  "ull_neg v =
     (if v > LONGLONG_MAX
      then (if v = LONGLONG_MAX + 1 then \<lparr>m_value = LONGLONG_MIN, m_is_null = False\<rparr>
            else \<lparr>m_value = 0, m_is_null = True\<rparr>)
      else \<lparr>m_value = - v, m_is_null = False\<rparr>)"

definition ull_to_longlong_null :: "ulonglong \<Rightarrow> Longlong_null" where
  "ull_to_longlong_null v =
     (if v > LONGLONG_MAX then \<lparr>m_value = 0, m_is_null = True\<rparr>
      else \<lparr>m_value = v, m_is_null = False\<rparr>)"

record ULonglong_null =
  u_value :: ulonglong
  u_is_null :: bool

definition ullmul :: "ulonglong \<Rightarrow> ulonglong \<Rightarrow> ULonglong_null" where
  "ullmul a b =
     (let a1 = (ucast (drop_bit 32 a) :: uint);
          b1 = (ucast (drop_bit 32 b) :: uint)
      in if a1 \<noteq> 0 \<and> b1 \<noteq> 0 then \<lparr>u_value = 0, u_is_null = True\<rparr>
         else let a0 = (ucast (0xFFFFFFFF AND a) :: uint);
                  b0 = (ucast (0xFFFFFFFF AND b) :: uint);
                  res1 = (ucast a1 :: ulonglong) * ucast b0 + (ucast a0 :: ulonglong) * ucast b1
              in if res1 > 0xFFFFFFFF then \<lparr>u_value = 0, u_is_null = True\<rparr>
                 else let res1 = push_bit 32 res1;
                          res0 = (ucast a0 :: ulonglong) * ucast b0
                      in if test_if_sum_overflows_ull res1 res0 then \<lparr>u_value = 0, u_is_null = True\<rparr>
                         else \<lparr>u_value = res1 + res0, u_is_null = False\<rparr>)"

section \<open>Longlong_hybrid, ULonglong_hybrid\<close>

record Longlong_hybrid =
  h_value :: longlong
  h_unsigned :: bool

definition cmp_signed :: "Longlong_hybrid \<Rightarrow> Longlong_hybrid \<Rightarrow> int" where
  "cmp_signed a other =
     (if sint (h_value a) < sint (h_value other) then -1 else if h_value a = h_value other then 0 else 1)"

definition cmp_unsigned :: "Longlong_hybrid \<Rightarrow> Longlong_hybrid \<Rightarrow> int" where
  "cmp_unsigned a other =
     (if h_value a < h_value other then -1 else if h_value a = h_value other then 0 else 1)"

definition is_unsigned_outside_of_signed_range :: "Longlong_hybrid \<Rightarrow> bool" where
  "is_unsigned_outside_of_signed_range a \<longleftrightarrow> h_unsigned a \<and> h_value a > LONGLONG_MAX"

definition hybrid_neg :: "Longlong_hybrid \<Rightarrow> bool" where
  "hybrid_neg a \<longleftrightarrow> sint (h_value a) < 0 \<and> \<not> h_unsigned a"

definition hybrid_abs :: "Longlong_hybrid \<Rightarrow> ulonglong" where
  "hybrid_abs a = (if h_unsigned a then h_value a else longlong_abs (h_value a))"

definition hybrid_to_ulonglong :: "ulonglong \<Rightarrow> Longlong_hybrid \<Rightarrow> ulonglong" where
  "hybrid_to_ulonglong upper_bound a =
     (if hybrid_neg a then 0 else if h_value a > upper_bound then upper_bound else h_value a)"

definition hybrid_to_uint :: "uint \<Rightarrow> Longlong_hybrid \<Rightarrow> uint" where
  "hybrid_to_uint upper_bound a = ucast (hybrid_to_ulonglong (ucast upper_bound) a)"

definition hybrid_val_int_signed :: "Longlong_hybrid \<Rightarrow> Longlong_null" where
  "hybrid_val_int_signed a =
     (if h_unsigned a then ull_to_longlong_null (h_value a)
      else \<lparr>m_value = h_value a, m_is_null = False\<rparr>)"

definition hybrid_val_int_unsigned :: "Longlong_hybrid \<Rightarrow> Longlong_null" where
  "hybrid_val_int_unsigned a =
     (if \<not> h_unsigned a \<and> sint (h_value a) < 0 then \<lparr>m_value = 0, m_is_null = True\<rparr>
      else \<lparr>m_value = h_value a, m_is_null = False\<rparr>)"

definition hybrid_val_int :: "bool \<Rightarrow> Longlong_hybrid \<Rightarrow> Longlong_null" where
  "hybrid_val_int want_unsigned_value a =
     (if want_unsigned_value then hybrid_val_int_unsigned a else hybrid_val_int_signed a)"

definition hybrid_cmp :: "Longlong_hybrid \<Rightarrow> Longlong_hybrid \<Rightarrow> int" where
  "hybrid_cmp a other =
     (if h_unsigned a = h_unsigned other
      then (if h_unsigned a then cmp_unsigned a other else cmp_signed a other)
      else if is_unsigned_outside_of_signed_range a then 1
      else if is_unsigned_outside_of_signed_range other then -1
      else cmp_signed a other)"

definition hybrid_eq :: "Longlong_hybrid \<Rightarrow> Longlong_hybrid \<Rightarrow> bool" where
  "hybrid_eq a nr = (hybrid_cmp a nr = 0)"

definition hybrid_eq_ulonglong :: "Longlong_hybrid \<Rightarrow> ulonglong \<Rightarrow> bool" where
  "hybrid_eq_ulonglong a nr = (hybrid_cmp a \<lparr>h_value = nr, h_unsigned = True\<rparr> = 0)"

definition hybrid_eq_uint :: "Longlong_hybrid \<Rightarrow> uint \<Rightarrow> bool" where
  "hybrid_eq_uint a nr = (hybrid_cmp a \<lparr>h_value = ucast nr, h_unsigned = True\<rparr> = 0)"

definition hybrid_eq_longlong :: "Longlong_hybrid \<Rightarrow> longlong \<Rightarrow> bool" where
  "hybrid_eq_longlong a nr = (hybrid_cmp a \<lparr>h_value = nr, h_unsigned = False\<rparr> = 0)"

definition hybrid_eq_int :: "Longlong_hybrid \<Rightarrow> 32 word \<Rightarrow> bool" where
  "hybrid_eq_int a nr = (hybrid_cmp a \<lparr>h_value = scast nr, h_unsigned = False\<rparr> = 0)"

record Longlong_hybrid_null = Longlong_hybrid +
  hn_is_null :: bool

definition hybrid_null_make :: "Longlong_null \<Rightarrow> bool \<Rightarrow> Longlong_hybrid_null" where
  "hybrid_null_make nr unsigned_flag =
     \<lparr>h_value = m_value nr, h_unsigned = unsigned_flag, hn_is_null = m_is_null nr\<rparr>"

record ULonglong_hybrid =
  uh_value :: ulonglong
  uh_neg :: bool

definition uhybrid_make :: "ulonglong \<Rightarrow> bool \<Rightarrow> ULonglong_hybrid" where
  "uhybrid_make v neg = \<lparr>uh_value = v, uh_neg = (if neg \<and> v = 0 then False else neg)\<rparr>"

definition uhybrid_val_int_unsigned :: "ULonglong_hybrid \<Rightarrow> Longlong_null" where
  "uhybrid_val_int_unsigned a =
     (if uh_neg a then \<lparr>m_value = 0, m_is_null = True\<rparr> else \<lparr>m_value = uh_value a, m_is_null = False\<rparr>)"

definition uhybrid_val_int_signed :: "ULonglong_hybrid \<Rightarrow> Longlong_null" where
  "uhybrid_val_int_signed a =
     (if uh_neg a then ull_neg (uh_value a) else ull_to_longlong_null (uh_value a))"

definition uhybrid_val_int :: "bool \<Rightarrow> ULonglong_hybrid \<Rightarrow> Longlong_null" where
  "uhybrid_val_int want_unsigned_value a =
     (if want_unsigned_value then uhybrid_val_int_unsigned a else uhybrid_val_int_signed a)"

section \<open>The integers behind the objects\<close>

definition hybrid_val :: "Longlong_hybrid \<Rightarrow> int" where
  "hybrid_val a = (if h_unsigned a then uint (h_value a) else sint (h_value a))"

definition uhybrid_val :: "ULonglong_hybrid \<Rightarrow> int" where
  "uhybrid_val a = (if uh_neg a then - uint (uh_value a) else uint (uh_value a))"

lemma uint_64_bounds: "0 \<le> uint w" "uint w < 2 ^ 64" for w :: "64 word"
  using uint_lt2p[of w] by simp_all

lemma sint_64_bounds: "- (2 ^ 63) \<le> sint w" "sint w < 2 ^ 63" for w :: "64 word"
  using uint_64_bounds[of w] by (auto simp: sint_uint_64 intro: order_trans[of _ 0])

lemma sint_inject_64: "sint v = sint w \<longleftrightarrow> v = w" for v w :: "64 word"
  by (auto intro: signed_word_eqI)

lemma longlong_consts:
  "uint LONGLONG_MAX = 2 ^ 63 - 1" "uint LONGLONG_MIN = 2 ^ 63" "sint LONGLONG_MIN = - (2 ^ 63)"
  "LONGLONG_MAX + 1 = LONGLONG_MIN" "uint ULONGLONG_MAX = 2 ^ 64 - 1"
  by (simp_all add: LONGLONG_MAX_def LONGLONG_MIN_def ULONGLONG_MAX_def)

lemma uint_minus_64: "uint (- w) = (if w = 0 then 0 else 2 ^ 64 - uint w)" for w :: "64 word"
proof (cases "w = 0")
  case False
  then have "uint w \<noteq> 0" by (simp add: unsigned_eq_0_iff)
  then have "0 < uint w" using uint_64_bounds(1)[of w] by linarith
  then have "(- uint w) mod 2 ^ 64 = 2 ^ 64 - uint w"
    using uint_64_bounds(2)[of w] by (simp add: zmod_zminus1_eq_if)
  then show ?thesis using False by (simp add: uint_word_ariths)
qed simp

lemma longlong_abs_val: "uint (longlong_abs v) = \<bar>sint v\<bar>"
proof (cases "v = LONGLONG_MIN")
  case True
  then show ?thesis by (simp add: longlong_abs_def longlong_consts)
next
  case False
  show ?thesis
  proof (cases "sint v < 0")
    case True
    then have "v \<noteq> 0" by auto
    then show ?thesis using True False uint_64_bounds[of v]
      by (simp add: longlong_abs_def uint_minus_64 sint_uint_64 split: if_splits)
  next
    case nn: False
    then show ?thesis using False uint_64_bounds[of v]
      by (simp add: longlong_abs_def sint_uint_64 split: if_splits)
  qed
qed

lemma gt_longlong_max: "v > LONGLONG_MAX \<longleftrightarrow> 2 ^ 63 \<le> uint v"
  by (simp add: word_less_def longlong_consts) arith

lemma ull_to_longlong_null_val:
  "m_is_null (ull_to_longlong_null v) \<longleftrightarrow> 2 ^ 63 \<le> uint v"
  "uint v < 2 ^ 63 \<Longrightarrow> sint (m_value (ull_to_longlong_null v)) = uint v"
  by (auto simp: ull_to_longlong_null_def gt_longlong_max sint_uint_64)

lemma ull_neg_val:
  "m_is_null (ull_neg v) \<longleftrightarrow> 2 ^ 63 < uint v"
  "uint v \<le> 2 ^ 63 \<Longrightarrow> sint (m_value (ull_neg v)) = - uint v"
proof -
  have eq: "v = LONGLONG_MIN \<longleftrightarrow> uint v = 2 ^ 63"
    by (simp add: word_uint_eq_iff longlong_consts)
  show "m_is_null (ull_neg v) \<longleftrightarrow> 2 ^ 63 < uint v"
    by (auto simp: ull_neg_def gt_longlong_max eq longlong_consts)
  show "sint (m_value (ull_neg v)) = - uint v" if "uint v \<le> 2 ^ 63"
    using that uint_64_bounds[of v]
    by (auto simp: ull_neg_def gt_longlong_max eq longlong_consts sint_uint_64[of "- v"] uint_minus_64)
qed

section \<open>Comparison\<close>

lemma hybrid_cmp_val:
  "hybrid_cmp a b = (if hybrid_val a < hybrid_val b then -1 else if hybrid_val a = hybrid_val b then 0 else 1)"
proof -
  have s: "cmp_signed a b = (if sint (h_value a) < sint (h_value b) then -1
      else if sint (h_value a) = sint (h_value b) then 0 else 1)"
    by (simp add: cmp_signed_def sint_inject_64[symmetric])
  have u: "cmp_unsigned a b = (if uint (h_value a) < uint (h_value b) then -1
      else if uint (h_value a) = uint (h_value b) then 0 else 1)"
    by (simp add: cmp_unsigned_def word_uint_eq_iff word_less_def)
  have out: "is_unsigned_outside_of_signed_range c \<longleftrightarrow> h_unsigned c \<and> 2 ^ 63 \<le> uint (h_value c)" for c
    by (simp add: is_unsigned_outside_of_signed_range_def gt_longlong_max)
  have small: "uint (h_value c) = sint (h_value c)" if "\<not> 2 ^ 63 \<le> uint (h_value c)" for c
    using that by (simp add: sint_uint_64)
  show ?thesis
  proof (cases "h_unsigned a = h_unsigned b")
    case True
    then show ?thesis by (auto simp: hybrid_cmp_def hybrid_val_def s u)
  next
    case False
    then show ?thesis
      using sint_64_bounds[of "h_value a"] sint_64_bounds[of "h_value b"] small[of a] small[of b]
      by (auto simp: hybrid_cmp_def hybrid_val_def s out)
  qed
qed

section \<open>Multiplication\<close>

lemma sum_overflows: "test_if_sum_overflows_ull a b \<longleftrightarrow> 2 ^ 64 \<le> uint a + uint b"
proof -
  have "uint (ULONGLONG_MAX - a) = 2 ^ 64 - 1 - uint a"
    using uint_64_bounds[of a] by (simp add: uint_sub_if' longlong_consts word_le_def)
  then show ?thesis by (simp add: test_if_sum_overflows_ull_def word_less_def) arith
qed

lemma upper_half_bound: "uint a div 2 ^ 32 < 2 ^ 32" for a :: ulonglong
  using zdiv_mono1[of "uint a" "2 ^ 64 - 1" "2 ^ 32"] uint_64_bounds(2)[of a] by simp

text \<open>The two halves of a 64-bit value, as 32-bit values widened back.\<close>

lemma halves:
  fixes a :: ulonglong
  defines "a1 \<equiv> uint (ucast (ucast (drop_bit 32 a) :: uint) :: ulonglong)"
    and "a0 \<equiv> uint (ucast (ucast (0xFFFFFFFF AND a) :: uint) :: ulonglong)"
  shows "a1 = uint a div 2 ^ 32" "a0 = uint a mod 2 ^ 32"
proof -
  have widen: "uint (ucast (ucast w :: uint) :: ulonglong) = uint w mod 2 ^ 32" for w :: ulonglong
    unfolding unsigned_ucast_eq take_bit_take_bit take_bit_eq_mod by (simp add: uint_mod)
  have "uint (drop_bit 32 a) = uint a div 2 ^ 32"
    by (simp add: drop_bit_eq_div uint_div)
  moreover have "uint a div 2 ^ 32 < 2 ^ 32" by (rule upper_half_bound)
  ultimately show "a1 = uint a div 2 ^ 32"
    unfolding a1_def widen using uint_64_bounds(1)[of a] by (simp add: pos_imp_zdiv_nonneg_iff)
  have "0xFFFFFFFF AND a = take_bit 32 a" by (simp add: take_bit_eq_mask mask_eq_exp_minus_1 and.commute)
  then have "uint (0xFFFFFFFF AND a) = uint a mod 2 ^ 32"
    unfolding \<open>0xFFFFFFFF AND a = take_bit 32 a\<close> unsigned_take_bit_eq by (simp add: take_bit_eq_mod)
  then show "a0 = uint a mod 2 ^ 32" unfolding a0_def widen by simp
qed

lemma uint_widen: "uint (ucast x :: ulonglong) = uint x" for x :: uint
proof -
  have "uint x < 2 ^ 64" by (rule order_less_trans[OF uint_lt2p]) simp
  then show ?thesis unfolding unsigned_ucast_eq by (simp add: take_bit_int_eq_self)
qed

lemma small_product: "0 \<le> x \<Longrightarrow> x < 2 ^ 32 \<Longrightarrow> 0 \<le> y \<Longrightarrow> y < 2 ^ 32 \<Longrightarrow> x * y < (2 ^ 64 :: int)"
  using mult_strict_mono[of x "2 ^ 32" y "2 ^ 32"] by simp

lemma big_sum:
  "1 \<le> p \<Longrightarrow> 0 \<le> q \<Longrightarrow> 2 ^ 64 \<le> p * 2 ^ 64 + q"
  "2 ^ 32 \<le> p \<Longrightarrow> 0 \<le> q \<Longrightarrow> 2 ^ 64 \<le> p * 2 ^ 32 + q" for p q :: int
  by simp_all

lemma uint_mult_small:
  "uint v * uint w < 2 ^ 64 \<Longrightarrow> uint (v * w) = uint v * uint w" for v w :: ulonglong
  by (simp add: uint_word_ariths)

lemma ullmul_val:
  "u_is_null (ullmul a b) \<longleftrightarrow> 2 ^ 64 \<le> uint a * uint b"
  "uint a * uint b < 2 ^ 64 \<Longrightarrow> uint (u_value (ullmul a b)) = uint a * uint b"
proof -
  let ?a1 = "ucast (drop_bit 32 a) :: uint" and ?b1 = "ucast (drop_bit 32 b) :: uint"
  let ?a0 = "ucast (0xFFFFFFFF AND a) :: uint" and ?b0 = "ucast (0xFFFFFFFF AND b) :: uint"
  let ?A1 = "ucast ?a1 :: ulonglong" and ?B1 = "ucast ?b1 :: ulonglong"
    and ?A0 = "ucast ?a0 :: ulonglong" and ?B0 = "ucast ?b0 :: ulonglong"
  define x1 x0 y1 y0 where d: "x1 = uint ?A1" "x0 = uint ?A0" "y1 = uint ?B1" "y0 = uint ?B0"
  have h: "x1 = uint a div 2 ^ 32" "x0 = uint a mod 2 ^ 32" "y1 = uint b div 2 ^ 32" "y0 = uint b mod 2 ^ 32"
    by (simp_all only: d halves)
  have lt: "x1 < 2 ^ 32" "x0 < 2 ^ 32" "y1 < 2 ^ 32" "y0 < 2 ^ 32" "0 \<le> x1" "0 \<le> x0" "0 \<le> y1" "0 \<le> y0"
    using uint_64_bounds[of a] uint_64_bounds[of b]
    by (simp_all add: h pos_imp_zdiv_nonneg_iff upper_half_bound[simplified])
  have ab: "uint a = x1 * 2 ^ 32 + x0" "uint b = y1 * 2 ^ 32 + y0" by (simp_all add: h)
  have prod: "uint a * uint b = x1 * y1 * 2 ^ 64 + ((x1 * y0 + x0 * y1) * 2 ^ 32 + x0 * y0)"
    by (simp add: ab algebra_simps)
  have z: "?a1 = 0 \<longleftrightarrow> x1 = 0" "?b1 = 0 \<longleftrightarrow> y1 = 0"
    unfolding d uint_widen by (simp_all add: unsigned_eq_0_iff)
  show "u_is_null (ullmul a b) \<longleftrightarrow> 2 ^ 64 \<le> uint a * uint b"
    and "uint a * uint b < 2 ^ 64 \<Longrightarrow> uint (u_value (ullmul a b)) = uint a * uint b"
  proof (atomize (full), cases "x1 \<noteq> 0 \<and> y1 \<noteq> 0")
    case True
    then have "1 \<le> x1 * y1" using lt by (simp add: int_one_le_iff_zero_less less_le)
    moreover have "0 \<le> (x1 * y0 + x0 * y1) * 2 ^ 32 + x0 * y0" using lt by simp
    ultimately have "2 ^ 64 \<le> uint a * uint b" unfolding prod by (rule big_sum)
    then show "(u_is_null (ullmul a b) \<longleftrightarrow> 2 ^ 64 \<le> uint a * uint b) \<and>
        (uint a * uint b < 2 ^ 64 \<longrightarrow> uint (u_value (ullmul a b)) = uint a * uint b)"
      using True by (simp add: ullmul_def Let_def z)
  next
    case False
    define res1 where "res1 = ?A1 * ?B0 + ?A0 * ?B1"
    have m: "uint (?A1 * ?B0) = x1 * y0" "uint (?A0 * ?B1) = x0 * y1" and r0: "uint (?A0 * ?B0) = x0 * y0"
      using lt by (simp_all only: uint_mult_small small_product flip: d)
    have sum: "x1 * y0 + x0 * y1 < 2 ^ 64" using False lt small_product[of x1 y0] small_product[of x0 y1] by auto
    then have r1: "uint res1 = x1 * y0 + x0 * y1"
      unfolding res1_def using lt m by (simp add: uint_word_ariths)
    have prod': "uint a * uint b = (x1 * y0 + x0 * y1) * 2 ^ 32 + x0 * y0" using False prod by auto
    show "(u_is_null (ullmul a b) \<longleftrightarrow> 2 ^ 64 \<le> uint a * uint b) \<and>
        (uint a * uint b < 2 ^ 64 \<longrightarrow> uint (u_value (ullmul a b)) = uint a * uint b)"
    proof (cases "res1 > 0xFFFFFFFF")
      case True
      then have "2 ^ 32 \<le> x1 * y0 + x0 * y1" by (simp add: word_less_def r1)
      moreover have "0 \<le> x0 * y0" using lt by simp
      ultimately have "2 ^ 64 \<le> uint a * uint b" unfolding prod' by (rule big_sum)
      then show ?thesis using True False by (simp add: ullmul_def Let_def z flip: res1_def)
    next
      case small: False
      then have le: "x1 * y0 + x0 * y1 < 2 ^ 32" by (simp add: word_less_def r1)
      have "uint (push_bit 32 res1) = uint res1 * 2 ^ 32 mod 2 ^ 64"
        by (simp add: push_bit_eq_mult uint_word_ariths)
      then have sh: "uint (push_bit 32 res1) = (x1 * y0 + x0 * y1) * 2 ^ 32"
        using le lt by (simp add: r1)
      have res: "ullmul a b = (if test_if_sum_overflows_ull (push_bit 32 res1) (?A0 * ?B0)
          then \<lparr>u_value = 0, u_is_null = True\<rparr> else \<lparr>u_value = push_bit 32 res1 + ?A0 * ?B0, u_is_null = False\<rparr>)"
        using small False by (auto simp: ullmul_def Let_def z simp flip: res1_def)
      have tot: "uint (push_bit 32 res1) + uint (?A0 * ?B0) = uint a * uint b" by (simp only: sh r0 prod')
      have "uint (push_bit 32 res1 + ?A0 * ?B0) = (uint a * uint b) mod 2 ^ 64"
        by (simp only: uint_word_ariths(1) tot) simp
      moreover have "0 \<le> uint a * uint b" by simp
      ultimately show ?thesis unfolding res sum_overflows tot by auto
    qed
  qed
qed

section \<open>Shifts\<close>

lemma uint_push_bit: "uint (push_bit n w) = uint w * 2 ^ n mod 2 ^ 64" for w :: ulonglong
proof -
  have "uint (push_bit n w) = take_bit 64 (push_bit n (uint w))" by (simp only: unsigned_push_bit_eq) simp
  then show ?thesis by (simp only: push_bit_eq_mult take_bit_eq_mod)
qed

lemma shift_count: "unat (ucast s :: uint) = unat s mod 2 ^ 32" for s :: ulonglong
  by (simp add: unsigned_ucast_eq take_bit_eq_mod)

lemma big_shift_0: "64 \<le> n \<Longrightarrow> uint w * 2 ^ n mod 2 ^ 64 = 0" "64 \<le> n \<Longrightarrow> uint w div 2 ^ n = 0" for w :: ulonglong
proof -
  assume n: "64 \<le> n"
  then obtain m where m: "n = 64 + m" using le_Suc_ex by blast
  then show "uint w * 2 ^ n mod 2 ^ 64 = 0" by (simp add: power_add)
  have "(2::int) ^ 64 \<le> 2 ^ n" using n by (intro power_increasing) simp_all
  then show "uint w div 2 ^ n = 0" using uint_64_bounds[of w] by (intro div_pos_pos_trivial) linarith+
qed

lemma shift_vals:
  "uint (m_value (lln_shl (lln_make x) (lln_make s))) = uint x * 2 ^ (unat s mod 2 ^ 32) mod 2 ^ 64"
  "uint (m_value (lln_shr (lln_make x) (lln_make s))) = uint x div 2 ^ (unat s mod 2 ^ 32)"
proof -
  let ?n = "unat s mod 2 ^ 32"
  show "uint (m_value (lln_shl (lln_make x) (lln_make s))) = uint x * 2 ^ ?n mod 2 ^ 64"
  proof (cases "?n < 64")
    case False
    then have "uint x * 2 ^ ?n mod 2 ^ 64 = 0" by (intro big_shift_0) simp
    then show ?thesis using False by (simp only: lln_shl_def lln_make_def Let_def shift_count) simp
  qed (simp only: lln_shl_def lln_make_def Let_def shift_count uint_push_bit[symmetric], simp)
  show "uint (m_value (lln_shr (lln_make x) (lln_make s))) = uint x div 2 ^ ?n"
  proof (cases "?n < 64")
    case True
    have "uint (drop_bit ?n x) = uint x div 2 ^ ?n" unfolding unsigned_drop_bit_eq
      using uint_64_bounds[of x] by (simp add: drop_bit_eq_div take_bit_int_eq_self)
    then show ?thesis using True by (simp only: lln_shr_def lln_make_def Let_def shift_count) simp
  next
    case False
    then have "uint x div 2 ^ ?n = 0" by (intro big_shift_0) simp
    then show ?thesis using False by (simp only: lln_shr_def lln_make_def Let_def shift_count) simp
  qed
qed

section \<open>Properties\<close>

lemma sint_scast: "sint (scast nr :: longlong) = sint nr" for nr :: "32 word"
  unfolding signed_scast_eq by (simp add: signed_take_bit_signed_take_bit sint_uint)

text \<open>C9. Comparing two hybrids compares the integers they stand for, whatever the mixture of signed
  and unsigned operands, and so do the equality operators with unsigned and signed 64-bit
  and 32-bit operands.\<close>

theorem longlong_hybrid_cmp:
  "hybrid_cmp a b = sgn (hybrid_val a - hybrid_val b) \<and>
   (hybrid_eq a b \<longleftrightarrow> hybrid_val a = hybrid_val b) \<and>
   (hybrid_eq_ulonglong a u \<longleftrightarrow> hybrid_val a = uint u) \<and>
   (hybrid_eq_uint a v \<longleftrightarrow> hybrid_val a = uint v) \<and>
   (hybrid_eq_longlong a l \<longleftrightarrow> hybrid_val a = sint l) \<and>
   (hybrid_eq_int a i \<longleftrightarrow> hybrid_val a = sint i)"
proof -
  have sgn: "hybrid_cmp a b = sgn (hybrid_val a - hybrid_val b)" for a b
    by (simp add: hybrid_cmp_val sgn_if)
  have "hybrid_val \<lparr>h_value = u, h_unsigned = True\<rparr> = uint u"
    "hybrid_val \<lparr>h_value = ucast v, h_unsigned = True\<rparr> = uint v"
    "hybrid_val \<lparr>h_value = l, h_unsigned = False\<rparr> = sint l"
    "hybrid_val \<lparr>h_value = scast i, h_unsigned = False\<rparr> = sint i"
    by (simp_all add: hybrid_val_def uint_widen sint_scast del: unsigned_ucast_eq signed_scast_eq)
  then show ?thesis
    by (simp add: sgn sgn_0_0 hybrid_eq_def hybrid_eq_ulonglong_def hybrid_eq_uint_def
        hybrid_eq_longlong_def hybrid_eq_int_def del: scast_id)
qed

text \<open>C32. \<open>ullmul\<close> returns the exact product of two 64-bit values when it fits 64 bits and NULL
  exactly when it does not; no intermediate result wraps around.\<close>

theorem ullmul_correct:
  "if uint a * uint b < 2 ^ 64
   then \<not> u_is_null (ullmul a b) \<and> uint (u_value (ullmul a b)) = uint a * uint b
   else u_is_null (ullmul a b)"
  using ullmul_val[of a b] by (simp add: not_less[symmetric])

text \<open>\<open>abs\<close> returns the absolute value of every signed or unsigned value, the most negative one
  included.\<close>

theorem longlong_abs_correct:
  "uint (longlong_abs v) = \<bar>sint v\<bar> \<and> uint (hybrid_abs a) = \<bar>hybrid_val a\<bar>"
  using longlong_abs_val by (simp add: hybrid_abs_def hybrid_val_def)

text \<open>\<open>val_int\<close> of both hybrids gives NULL exactly when the integer does not fit the wanted type
  (signed or unsigned 64 bits), and otherwise that integer in the wanted reading;
  \<open>to_ulonglong\<close> clamps it to \<open>0..upper_bound\<close>.\<close>

theorem hybrid_val_int_correct:
  "(if 0 \<le> hybrid_val a then \<not> m_is_null (hybrid_val_int True a) \<and> uint (m_value (hybrid_val_int True a)) = hybrid_val a
          else m_is_null (hybrid_val_int True a)) \<and>
         (if hybrid_val a < 2 ^ 63 then \<not> m_is_null (hybrid_val_int False a) \<and> sint (m_value (hybrid_val_int False a)) = hybrid_val a
          else m_is_null (hybrid_val_int False a)) \<and>
         uhybrid_val (uhybrid_make v neg) = (if neg then - uint v else uint v) \<and>
         (if 0 \<le> uhybrid_val (uhybrid_make v neg) then \<not> m_is_null (uhybrid_val_int True (uhybrid_make v neg)) \<and> uint (m_value (uhybrid_val_int True (uhybrid_make v neg))) = uhybrid_val (uhybrid_make v neg)
          else m_is_null (uhybrid_val_int True (uhybrid_make v neg))) \<and>
         (if - (2 ^ 63) \<le> uhybrid_val (uhybrid_make v neg) \<and> uhybrid_val (uhybrid_make v neg) < 2 ^ 63
          then \<not> m_is_null (uhybrid_val_int False (uhybrid_make v neg)) \<and> sint (m_value (uhybrid_val_int False (uhybrid_make v neg))) = uhybrid_val (uhybrid_make v neg)
          else m_is_null (uhybrid_val_int False (uhybrid_make v neg))) \<and>
         uint (hybrid_to_ulonglong ub a) = max 0 (min (hybrid_val a) (uint ub))"
proof (intro conjI)
  have nonneg: "0 \<le> sint w \<Longrightarrow> uint w = sint w" for w :: longlong
    using uint_64_bounds[of w] by (simp add: sint_uint_64 split: if_splits)
  show "if 0 \<le> hybrid_val a then \<not> m_is_null (hybrid_val_int True a) \<and> uint (m_value (hybrid_val_int True a)) = hybrid_val a
        else m_is_null (hybrid_val_int True a)"
    using nonneg[of "h_value a"] by (auto simp: hybrid_val_int_def hybrid_val_int_unsigned_def hybrid_val_def)
  show "if hybrid_val a < 2 ^ 63 then \<not> m_is_null (hybrid_val_int False a) \<and> sint (m_value (hybrid_val_int False a)) = hybrid_val a
        else m_is_null (hybrid_val_int False a)"
    using ull_to_longlong_null_val[of "h_value a"] sint_64_bounds[of "h_value a"]
    by (auto simp: hybrid_val_int_def hybrid_val_int_signed_def hybrid_val_def)
  show val: "uhybrid_val (uhybrid_make v neg) = (if neg then - uint v else uint v)"
    by (simp add: uhybrid_val_def uhybrid_make_def)
  have pos: "v \<noteq> 0 \<Longrightarrow> 0 < uint v" using uint_64_bounds[of v] by (simp add: less_le unsigned_eq_0_iff)
  show "if 0 \<le> uhybrid_val (uhybrid_make v neg) then \<not> m_is_null (uhybrid_val_int True (uhybrid_make v neg)) \<and> uint (m_value (uhybrid_val_int True (uhybrid_make v neg))) = uhybrid_val (uhybrid_make v neg)
        else m_is_null (uhybrid_val_int True (uhybrid_make v neg))"
    using pos by (auto simp: uhybrid_val_def uhybrid_make_def uhybrid_val_int_def uhybrid_val_int_unsigned_def)
  show "if - (2 ^ 63) \<le> uhybrid_val (uhybrid_make v neg) \<and> uhybrid_val (uhybrid_make v neg) < 2 ^ 63
        then \<not> m_is_null (uhybrid_val_int False (uhybrid_make v neg)) \<and> sint (m_value (uhybrid_val_int False (uhybrid_make v neg))) = uhybrid_val (uhybrid_make v neg)
        else m_is_null (uhybrid_val_int False (uhybrid_make v neg))"
    using ull_neg_val[of v] ull_to_longlong_null_val[of v]
      order_trans[OF _ uint_64_bounds(1)[of v], of "- (2 ^ 63)"] order_le_less_trans[of "- uint v" 0 "2 ^ 63"]
    by (auto simp: uhybrid_val_def uhybrid_make_def uhybrid_val_int_def uhybrid_val_int_signed_def)
  show "uint (hybrid_to_ulonglong ub a) = max 0 (min (hybrid_val a) (uint ub))"
    using nonneg[of "h_value a"] uint_64_bounds[of ub] order_trans[of "sint (h_value a)" 0 "uint ub"]
    by (auto simp: hybrid_to_ulonglong_def hybrid_neg_def hybrid_val_def word_less_def max_def min_def not_less)
qed

text \<open>The bit operators give NULL for a NULL operand; the shifts of non-NULL values multiply and
  divide the unsigned 64-bit value by a power of two, but the shift count is reduced modulo
  \<open>2^32\<close> first: a count of \<open>2^32\<close> shifts by nothing, where every other count of 64 or more
  gives 0.\<close>

theorem longlong_null_shifts:
  "(m_is_null a \<or> m_is_null b \<longrightarrow> lln_or a b = lln_null \<and> lln_and a b = lln_null \<and> lln_xor a b = lln_null \<and>
      lln_shl a b = lln_null \<and> lln_shr a b = lln_null) \<and>
   uint (m_value (lln_shl (lln_make x) (lln_make s))) = uint x * 2 ^ (unat s mod 2 ^ 32) mod 2 ^ 64 \<and>
   uint (m_value (lln_shr (lln_make x) (lln_make s))) = uint x div 2 ^ (unat s mod 2 ^ 32) \<and>
   lln_shl (lln_make x) (lln_make 0x100000000) = lln_make x"
proof (intro conjI)
  have "unat (ucast (0x100000000 :: ulonglong) :: uint) = 0" by (simp only: shift_count) simp
  then show "lln_shl (lln_make x) (lln_make 0x100000000) = lln_make x"
    by (simp add: lln_shl_def lln_make_def Let_def)
  show "uint (m_value (lln_shl (lln_make x) (lln_make s))) = uint x * 2 ^ (unat s mod 2 ^ 32) mod 2 ^ 64"
    by (rule shift_vals)
  show "uint (m_value (lln_shr (lln_make x) (lln_make s))) = uint x div 2 ^ (unat s mod 2 ^ 32)"
    by (rule shift_vals)
qed (auto simp: lln_or_def lln_and_def lln_xor_def lln_shl_def lln_shr_def)

theorem longlong_null_shifts_witness:
  "lln_or \<lparr>m_value = 5, m_is_null = True\<rparr> (lln_make 1) = lln_null"
  using longlong_null_shifts[of "\<lparr>m_value = 5, m_is_null = True\<rparr>" "lln_make 1"] by simp

end
