(* ===== verification/Lifo_Buffer.thy ===== *)
theory Lifo_Buffer
  imports Prelude "HOL-Library.Monad_Syntax"
begin

text \<open>
  \<open>sql_lifo_buffer.h\<close>: the two last-in-first-out buffers of the multi-range read. Memory is a
  function from addresses to bytes and pointers are addresses (0 is the null pointer), so
  the buffers can lie beside each other and exchange space. A failed \<open>DBUG_ASSERT\<close> is
  \<open>None\<close>; \<open>TRASH_ALLOC\<close> overwrites the memory as in the builds that trash it. The
  contract the two directions share is the locale \<open>lifo\<close>, interpreted on each of them.
\<close>

type_synonym mem = "int \<Rightarrow> uchar"

section \<open>Memory\<close>

definition bytes :: "mem \<Rightarrow> int \<Rightarrow> nat \<Rightarrow> uchar list" where
  "bytes mem p n = map (\<lambda>i. mem (p + int i)) [0..<n]"

definition memcpy :: "mem \<Rightarrow> int \<Rightarrow> int \<Rightarrow> nat \<Rightarrow> mem" where
  "memcpy mem dst src n = (\<lambda>a. if dst \<le> a \<and> a < dst + int n then mem (src + (a - dst)) else mem a)"

definition trash_alloc :: "mem \<Rightarrow> int \<Rightarrow> nat \<Rightarrow> mem" where
  "trash_alloc mem p n = (\<lambda>a. if p \<le> a \<and> a < p + int n then 0xA5 else mem a)"

definition disjoint_range :: "int \<Rightarrow> nat \<Rightarrow> int \<Rightarrow> int \<Rightarrow> bool" where
  "disjoint_range p n lo hi \<longleftrightarrow> p + int n \<le> lo \<or> hi \<le> p"

lemma length_bytes [simp]: "length (bytes mem p n) = n"
  by (simp add: bytes_def)

lemma bytes_0 [simp]: "bytes mem p 0 = []"
  by (simp add: bytes_def)

lemma bytes_cong: "(\<And>a. p \<le> a \<Longrightarrow> a < p + int n \<Longrightarrow> mem a = mem' a) \<Longrightarrow> bytes mem p n = bytes mem' p n"
  by (simp add: bytes_def)

lemma bytes_memcpy_same: "bytes (memcpy mem dst src n) dst n = bytes mem src n"
  by (simp add: bytes_def memcpy_def)

lemma memcpy_other: "a < dst \<or> dst + int n \<le> a \<Longrightarrow> memcpy mem dst src n a = mem a"
  by (auto simp: memcpy_def)

lemma bytes_memcpy_other:
  "disjoint_range p m dst (dst + int n) \<Longrightarrow> bytes (memcpy mem dst src n) p m = bytes mem p m"
  by (rule bytes_cong) (auto simp: disjoint_range_def memcpy_def)

section \<open>Lifo_buffer\<close>

datatype enum_direction = BACKWARD | FORWARD

record lifo_buffer =
  size1 :: nat
  size2 :: nat
  write_ptr1 :: int
  write_ptr2 :: int
  read_ptr1 :: int
  read_ptr2 :: int
  start :: int
  fin :: int
  pos :: int

definition setup_writing :: "nat \<Rightarrow> nat \<Rightarrow> lifo_buffer \<Rightarrow> lifo_buffer" where
  "setup_writing len1 len2 b = b\<lparr>size1 := len1, size2 := len2\<rparr>"

definition setup_reading :: "nat \<Rightarrow> nat \<Rightarrow> lifo_buffer \<Rightarrow> lifo_buffer option" where
  "setup_reading len1 len2 b = (if len1 = size1 b \<and> len2 = size2 b then Some b else None)"

subsection \<open>Forward_lifo_buffer\<close>

definition fwd_used_size :: "lifo_buffer \<Rightarrow> nat" where
  "fwd_used_size b = nat (pos b - start b)"

definition fwd_reset :: "lifo_buffer \<Rightarrow> lifo_buffer" where
  "fwd_reset b = b\<lparr>pos := start b\<rparr>"

definition fwd_end_of_space :: "lifo_buffer \<Rightarrow> int" where
  "fwd_end_of_space b = pos b"

definition fwd_have_space_for :: "lifo_buffer \<Rightarrow> nat \<Rightarrow> bool" where
  "fwd_have_space_for b n \<longleftrightarrow> pos b + int n < fin b"

definition fwd_write_bytes :: "mem \<Rightarrow> lifo_buffer \<Rightarrow> int \<Rightarrow> nat \<Rightarrow> (mem \<times> lifo_buffer) option" where
  "fwd_write_bytes mem b data n =
     (if fwd_have_space_for b n
      then Some (memcpy mem (pos b) data n, b\<lparr>pos := pos b + int n\<rparr>)
      else None)"

definition fwd_write :: "mem \<Rightarrow> lifo_buffer \<Rightarrow> (mem \<times> lifo_buffer) option" where
  "fwd_write mem b =
     do { (mem, b) \<leftarrow> fwd_write_bytes mem b (write_ptr1 b) (size1 b);
          if size2 b \<noteq> 0 then fwd_write_bytes mem b (write_ptr2 b) (size2 b) else Some (mem, b) }"

definition fwd_have_data :: "lifo_buffer \<Rightarrow> int \<Rightarrow> nat \<Rightarrow> bool" where
  "fwd_have_data b position n \<longleftrightarrow> position - start b \<ge> int n"

definition fwd_read_bytes :: "lifo_buffer \<Rightarrow> int \<Rightarrow> nat \<Rightarrow> (int \<times> int) option" where
  "fwd_read_bytes b position n =
     (if fwd_have_data b position n then Some (position - int n, position - int n) else None)"

text \<open>\<open>read(position, ptr1, ptr2)\<close>: the result is (return value, *position, *ptr1, *ptr2).\<close>

definition fwd_read_at :: "lifo_buffer \<Rightarrow> int \<Rightarrow> int \<Rightarrow> int \<Rightarrow> (bool \<times> int \<times> int \<times> int) option" where
  "fwd_read_at b position ptr1 ptr2 =
     (if \<not> fwd_have_data b position (size1 b + size2 b) then Some (True, position, ptr1, ptr2)
      else do { (ptr2, position) \<leftarrow> if size2 b \<noteq> 0 then fwd_read_bytes b position (size2 b) else Some (ptr2, position);
                (ptr1, position) \<leftarrow> fwd_read_bytes b position (size1 b);
                Some (False, position, ptr1, ptr2) })"

definition fwd_read :: "lifo_buffer \<Rightarrow> (bool \<times> lifo_buffer) option" where
  "fwd_read b =
     do { (eof, p, r1, r2) \<leftarrow> fwd_read_at b (pos b) (read_ptr1 b) (read_ptr2 b);
          Some (eof, b\<lparr>pos := p, read_ptr1 := r1, read_ptr2 := r2\<rparr>) }"

definition fwd_remove_unused_space :: "lifo_buffer \<Rightarrow> (int \<times> int \<times> lifo_buffer) option" where
  "fwd_remove_unused_space b = None"

definition fwd_grow :: "mem \<Rightarrow> lifo_buffer \<Rightarrow> int \<Rightarrow> int \<Rightarrow> (mem \<times> lifo_buffer) option" where
  "fwd_grow mem b unused_start unused_end =
     (if unused_end \<ge> unused_start \<and> fin b = unused_start
      then Some (trash_alloc mem unused_start (nat (unused_end - unused_start)), b\<lparr>fin := unused_end\<rparr>)
      else None)"

definition fwd_used_area :: "lifo_buffer \<Rightarrow> int" where
  "fwd_used_area b = start b"

definition fwd_get_pos :: "lifo_buffer \<Rightarrow> int" where
  "fwd_get_pos b = pos b"

subsection \<open>Backward_lifo_buffer\<close>

definition bwd_used_size :: "lifo_buffer \<Rightarrow> nat" where
  "bwd_used_size b = nat (fin b - pos b)"

definition bwd_reset :: "lifo_buffer \<Rightarrow> lifo_buffer" where
  "bwd_reset b = b\<lparr>pos := fin b\<rparr>"

definition bwd_end_of_space :: "lifo_buffer \<Rightarrow> int" where
  "bwd_end_of_space b = fin b"

definition bwd_have_space_for :: "lifo_buffer \<Rightarrow> nat \<Rightarrow> bool" where
  "bwd_have_space_for b n \<longleftrightarrow> pos b - int n \<ge> start b"

definition bwd_write_bytes :: "mem \<Rightarrow> lifo_buffer \<Rightarrow> int \<Rightarrow> nat \<Rightarrow> (mem \<times> lifo_buffer) option" where
  "bwd_write_bytes mem b data n =
     (if bwd_have_space_for b n
      then let b = b\<lparr>pos := pos b - int n\<rparr> in Some (memcpy mem (pos b) data n, b)
      else None)"

definition bwd_write :: "mem \<Rightarrow> lifo_buffer \<Rightarrow> (mem \<times> lifo_buffer) option" where
  "bwd_write mem b =
     do { (mem, b) \<leftarrow> if write_ptr2 b \<noteq> 0 then bwd_write_bytes mem b (write_ptr2 b) (size2 b) else Some (mem, b);
          bwd_write_bytes mem b (write_ptr1 b) (size1 b) }"

definition bwd_have_data :: "lifo_buffer \<Rightarrow> int \<Rightarrow> nat \<Rightarrow> bool" where
  "bwd_have_data b position n \<longleftrightarrow> fin b - position \<ge> int n"

definition bwd_read_bytes :: "lifo_buffer \<Rightarrow> int \<Rightarrow> nat \<Rightarrow> (int \<times> int) option" where
  "bwd_read_bytes b position n =
     (if bwd_have_data b position n then Some (position, position + int n) else None)"

definition bwd_read_at :: "lifo_buffer \<Rightarrow> int \<Rightarrow> int \<Rightarrow> int \<Rightarrow> (bool \<times> int \<times> int \<times> int) option" where
  "bwd_read_at b position ptr1 ptr2 =
     (if \<not> bwd_have_data b position (size1 b + size2 b) then Some (True, position, ptr1, ptr2)
      else do { (ptr1, position) \<leftarrow> bwd_read_bytes b position (size1 b);
                (ptr2, position) \<leftarrow> if size2 b \<noteq> 0 then bwd_read_bytes b position (size2 b) else Some (ptr2, position);
                Some (False, position, ptr1, ptr2) })"

definition bwd_read :: "lifo_buffer \<Rightarrow> (bool \<times> lifo_buffer) option" where
  "bwd_read b =
     do { (eof, p, r1, r2) \<leftarrow> bwd_read_at b (pos b) (read_ptr1 b) (read_ptr2 b);
          Some (eof, b\<lparr>pos := p, read_ptr1 := r1, read_ptr2 := r2\<rparr>) }"

definition bwd_remove_unused_space :: "lifo_buffer \<Rightarrow> (int \<times> int \<times> lifo_buffer) option" where
  "bwd_remove_unused_space b = Some (start b, pos b, b\<lparr>start := pos b\<rparr>)"

definition bwd_grow :: "mem \<Rightarrow> lifo_buffer \<Rightarrow> int \<Rightarrow> int \<Rightarrow> (mem \<times> lifo_buffer) option" where
  "bwd_grow mem b unused_start unused_end = None"

definition bwd_used_area :: "lifo_buffer \<Rightarrow> int" where
  "bwd_used_area b = pos b"

definition bwd_get_pos :: "lifo_buffer \<Rightarrow> int" where
  "bwd_get_pos b = pos b"

subsection \<open>Operations of the base class, dispatched on the direction\<close>

definition lifo_used_size :: "enum_direction \<Rightarrow> lifo_buffer \<Rightarrow> nat" where
  "lifo_used_size d = (case d of FORWARD \<Rightarrow> fwd_used_size | BACKWARD \<Rightarrow> bwd_used_size)"

definition lifo_used_area :: "enum_direction \<Rightarrow> lifo_buffer \<Rightarrow> int" where
  "lifo_used_area d = (case d of FORWARD \<Rightarrow> fwd_used_area | BACKWARD \<Rightarrow> bwd_used_area)"

definition lifo_have_space_for :: "enum_direction \<Rightarrow> lifo_buffer \<Rightarrow> nat \<Rightarrow> bool" where
  "lifo_have_space_for d = (case d of FORWARD \<Rightarrow> fwd_have_space_for | BACKWARD \<Rightarrow> bwd_have_space_for)"

definition lifo_reset :: "enum_direction \<Rightarrow> lifo_buffer \<Rightarrow> lifo_buffer" where
  "lifo_reset d = (case d of FORWARD \<Rightarrow> fwd_reset | BACKWARD \<Rightarrow> bwd_reset)"

definition lifo_get_pos :: "enum_direction \<Rightarrow> lifo_buffer \<Rightarrow> int" where
  "lifo_get_pos d = (case d of FORWARD \<Rightarrow> fwd_get_pos | BACKWARD \<Rightarrow> bwd_get_pos)"

definition lifo_read_at :: "enum_direction \<Rightarrow> lifo_buffer \<Rightarrow> int \<Rightarrow> int \<Rightarrow> int \<Rightarrow> (bool \<times> int \<times> int \<times> int) option" where
  "lifo_read_at d = (case d of FORWARD \<Rightarrow> fwd_read_at | BACKWARD \<Rightarrow> bwd_read_at)"

definition set_buffer_space :: "enum_direction \<Rightarrow> mem \<Rightarrow> lifo_buffer \<Rightarrow> int \<Rightarrow> int \<Rightarrow> mem \<times> lifo_buffer" where
  "set_buffer_space d mem b start_arg end_arg =
     (let b = b\<lparr>start := start_arg, fin := end_arg\<rparr>;
          mem = (if fin b \<noteq> start b then trash_alloc mem (start b) (nat (fin b - start b)) else mem)
      in (mem, lifo_reset d b))"

definition can_write :: "enum_direction \<Rightarrow> lifo_buffer \<Rightarrow> bool" where
  "can_write d b = lifo_have_space_for d b (size1 b + size2 b)"

definition is_empty :: "enum_direction \<Rightarrow> lifo_buffer \<Rightarrow> bool" where
  "is_empty d b \<longleftrightarrow> lifo_used_size d b = 0"

text \<open>\<open>my_qsort2\<close> is the caller's argument: it gets the memory, the array, the number of its
  elements, their size, the comparison function and its argument.\<close>

definition lifo_sort ::
    "(mem \<Rightarrow> int \<Rightarrow> nat \<Rightarrow> nat \<Rightarrow> 'cmp \<Rightarrow> 'arg \<Rightarrow> mem) \<Rightarrow> enum_direction \<Rightarrow> mem \<Rightarrow> lifo_buffer \<Rightarrow> 'cmp \<Rightarrow> 'arg \<Rightarrow> mem" where
  "lifo_sort my_qsort2 d mem b cmp_func cmp_func_arg =
     (let elem_size = size1 b + size2 b;
          n_elements = lifo_used_size d b div elem_size
      in my_qsort2 mem (lifo_used_area d b) n_elements elem_size cmp_func cmp_func_arg)"

subsection \<open>Lifo_buffer_iterator\<close>

record lifo_iterator =
  it_pos :: int
  it_read_ptr1 :: int
  it_read_ptr2 :: int

definition it_init :: "enum_direction \<Rightarrow> lifo_buffer \<Rightarrow> lifo_iterator \<Rightarrow> lifo_iterator" where
  "it_init d b it = it\<lparr>it_pos := lifo_get_pos d b\<rparr>"

definition it_read :: "enum_direction \<Rightarrow> lifo_buffer \<Rightarrow> lifo_iterator \<Rightarrow> (bool \<times> lifo_iterator) option" where
  "it_read d b it =
     do { (eof, p, r1, r2) \<leftarrow> lifo_read_at d b (it_pos it) (it_read_ptr1 it) (it_read_ptr2 it);
          Some (eof, \<lparr>it_pos = p, it_read_ptr1 = r1, it_read_ptr2 = r2\<rparr>) }"

section \<open>Clients: writing a sequence of elements, reading until the end\<close>

type_synonym element = "uchar list \<times> uchar list"

definition put :: "(lifo_buffer \<Rightarrow> bool) \<Rightarrow> (mem \<Rightarrow> lifo_buffer \<Rightarrow> (mem \<times> lifo_buffer) option)
    \<Rightarrow> mem \<times> lifo_buffer \<Rightarrow> int \<times> int \<Rightarrow> (mem \<times> lifo_buffer) option" where
  "put can_wr wr s ps =
     (let b = (snd s)\<lparr>write_ptr1 := fst ps, write_ptr2 := snd ps\<rparr>
      in if can_wr b then wr (fst s) b else None)"

fun put_all :: "(lifo_buffer \<Rightarrow> bool) \<Rightarrow> (mem \<Rightarrow> lifo_buffer \<Rightarrow> (mem \<times> lifo_buffer) option)
    \<Rightarrow> mem \<times> lifo_buffer \<Rightarrow> (int \<times> int) list \<Rightarrow> (mem \<times> lifo_buffer) option" where
  "put_all can_wr wr s [] = Some s"
| "put_all can_wr wr s (p # ps) = do { s \<leftarrow> put can_wr wr s p; put_all can_wr wr s ps }"

text \<open>Read until end of file; \<open>fuel\<close> bounds the number of reads, and running out of it is \<open>None\<close>.\<close>

fun drain :: "(lifo_buffer \<Rightarrow> (bool \<times> lifo_buffer) option) \<Rightarrow> nat \<Rightarrow> mem \<Rightarrow> lifo_buffer \<Rightarrow> (element list \<times> lifo_buffer) option" where
  "drain rd 0 mem b = None"
| "drain rd (Suc fuel) mem b =
     do { (eof, b) \<leftarrow> rd b;
          if eof then Some ([], b)
          else do { (es, b') \<leftarrow> drain rd fuel mem b;
                    Some ((bytes mem (read_ptr1 b) (size1 b), bytes mem (read_ptr2 b) (size2 b)) # es, b') } }"

fun walk :: "enum_direction \<Rightarrow> nat \<Rightarrow> mem \<Rightarrow> lifo_buffer \<Rightarrow> lifo_iterator \<Rightarrow> element list option" where
  "walk d 0 mem b it = None"
| "walk d (Suc fuel) mem b it =
     do { (eof, it) \<leftarrow> it_read d b it;
          if eof then Some []
          else do { es \<leftarrow> walk d fuel mem b it;
                    Some ((bytes mem (it_read_ptr1 it) (size1 b), bytes mem (it_read_ptr2 it) (size2 b)) # es) } }"

section \<open>The contract of a LIFO buffer\<close>

definition src_ok :: "lifo_buffer \<Rightarrow> int \<times> int \<Rightarrow> bool" where
  "src_ok b ps \<longleftrightarrow> disjoint_range (fst ps) (size1 b) (start b) (fin b) \<and>
     (size2 b \<noteq> 0 \<longrightarrow> snd ps \<noteq> 0 \<and> disjoint_range (snd ps) (size2 b) (start b) (fin b))"

definition element_at :: "mem \<Rightarrow> lifo_buffer \<Rightarrow> int \<times> int \<Rightarrow> element" where
  "element_at mem b ps = (bytes mem (fst ps) (size1 b), bytes mem (snd ps) (size2 b))"

definition same_space :: "lifo_buffer \<Rightarrow> lifo_buffer \<Rightarrow> bool" where
  "same_space b b' \<longleftrightarrow> size1 b' = size1 b \<and> size2 b' = size2 b \<and> start b' = start b \<and> fin b' = fin b"

locale lifo =
  fixes inv :: "lifo_buffer \<Rightarrow> bool"
    and contents :: "mem \<Rightarrow> lifo_buffer \<Rightarrow> element list"
    and fits :: "lifo_buffer \<Rightarrow> nat \<Rightarrow> bool"
    and can_wr :: "lifo_buffer \<Rightarrow> bool"
    and wr :: "mem \<Rightarrow> lifo_buffer \<Rightarrow> (mem \<times> lifo_buffer) option"
    and rd :: "lifo_buffer \<Rightarrow> (bool \<times> lifo_buffer) option"
  assumes ptrs: "inv (b\<lparr>write_ptr1 := p, write_ptr2 := q\<rparr>) = inv b"
      "contents mem (b\<lparr>write_ptr1 := p, write_ptr2 := q\<rparr>) = contents mem b"
      "fits (b\<lparr>write_ptr1 := p, write_ptr2 := q\<rparr>) n = fits b n"
    and fits_can_wr: "inv b \<Longrightarrow> fits b (Suc n) \<Longrightarrow> can_wr b"
    and wr_push: "inv b \<Longrightarrow> fits b (Suc n) \<Longrightarrow> src_ok b (write_ptr1 b, write_ptr2 b) \<Longrightarrow>
      \<exists>mem' b'. wr mem b = Some (mem', b') \<and> inv b' \<and> same_space b b' \<and> fits b' n \<and>
        contents mem' b' = element_at mem b (write_ptr1 b, write_ptr2 b) # contents mem b \<and>
        (\<forall>a. a < start b \<or> fin b \<le> a \<longrightarrow> mem' a = mem a)"
    and rd_empty: "inv b \<Longrightarrow> contents mem b = [] \<Longrightarrow> rd b = Some (True, b)"
    and rd_pop: "inv b \<Longrightarrow> contents mem b = e # es \<Longrightarrow>
      \<exists>b'. rd b = Some (False, b') \<and> inv b' \<and> same_space b b' \<and> contents mem b' = es \<and>
        e = element_at mem b' (read_ptr1 b', read_ptr2 b')"
begin

lemma put_all_contents:
  assumes "inv b" "fits b (length ps)" "\<forall>p \<in> set ps. src_ok b p"
  shows "\<exists>mem' b'. put_all can_wr wr (mem, b) ps = Some (mem', b') \<and> inv b' \<and> same_space b b' \<and>
    contents mem' b' = rev (map (element_at mem b) ps) @ contents mem b"
  using assms
proof (induction ps arbitrary: mem b)
  case Nil
  then show ?case by (simp add: same_space_def)
next
  case (Cons p ps)
  let ?b = "b\<lparr>write_ptr1 := fst p, write_ptr2 := snd p\<rparr>"
  have "inv ?b" "fits ?b (Suc (length ps))" "src_ok ?b (write_ptr1 ?b, write_ptr2 ?b)"
    using Cons.prems by (simp_all add: ptrs src_ok_def)
  from wr_push[OF this, of mem] obtain mem1 b1 where w: "wr mem ?b = Some (mem1, b1)"
    and b1: "inv b1" "same_space ?b b1" "fits b1 (length ps)"
      "contents mem1 b1 = element_at mem b p # contents mem b"
      "\<And>a. a < start b \<or> fin b \<le> a \<Longrightarrow> mem1 a = mem a"
    by (auto simp: ptrs element_at_def)
  have put: "put can_wr wr (mem, b) p = Some (mem1, b1)"
    using w fits_can_wr[OF \<open>inv ?b\<close> \<open>fits ?b _\<close>] by (simp add: put_def Let_def)
  have sp: "same_space b b1" using b1(2) by (simp add: same_space_def)
  have "\<forall>q \<in> set ps. src_ok b1 q"
    using Cons.prems(3) sp by (auto simp: src_ok_def same_space_def)
  from Cons.IH[OF b1(1,3) this, of mem1] obtain mem' b' where
    *: "put_all can_wr wr (mem1, b1) ps = Some (mem', b')" "inv b'" "same_space b1 b'"
      "contents mem' b' = rev (map (element_at mem1 b1) ps) @ contents mem1 b1" by auto
  have "element_at mem1 b1 q = element_at mem b q" if "q \<in> set ps" for q
  proof -
    have "bytes mem1 (fst q) (size1 b) = bytes mem (fst q) (size1 b)"
      "bytes mem1 (snd q) (size2 b) = bytes mem (snd q) (size2 b)"
      using that Cons.prems(3) b1(5)
      by (auto intro!: bytes_cong simp: src_ok_def disjoint_range_def)
    then show ?thesis using sp by (simp add: element_at_def same_space_def)
  qed
  then have "map (element_at mem1 b1) ps = map (element_at mem b) ps" by simp
  then show ?case using put * b1(4) sp by (auto simp: same_space_def)
qed

lemma drain_contents:
  assumes "inv b" "length (contents mem b) < fuel"
  shows "\<exists>b'. drain rd fuel mem b = Some (contents mem b, b') \<and> contents mem b' = [] \<and> inv b'"
  using assms
proof (induction "contents mem b" arbitrary: b fuel)
  case Nil
  then show ?case using rd_empty[OF Nil.prems(1) Nil.hyps[symmetric]] by (cases fuel) auto
next
  case (Cons e es)
  from rd_pop[OF Cons.prems(1) Cons.hyps(2)[symmetric]] obtain b1 where
    b1: "rd b = Some (False, b1)" "inv b1" "same_space b b1" "contents mem b1 = es"
      "e = element_at mem b1 (read_ptr1 b1, read_ptr2 b1)" by auto
  obtain f where f: "fuel = Suc f" using Cons.prems(2) by (cases fuel) auto
  have "length (contents mem b1) < f" using Cons.prems(2) Cons.hyps(2) f b1(4) by (metis Suc_less_eq length_Cons)
  from Cons.hyps(1)[OF b1(4)[symmetric] b1(2) this] show ?case
    using b1 f Cons.hyps(2) by (auto simp: element_at_def)
qed

lemma put_all_drain:
  assumes "inv b" "fits b (length ps)" "\<forall>p \<in> set ps. src_ok b p"
  shows "\<exists>mem' b1 b2. put_all can_wr wr (mem, b) ps = Some (mem', b1) \<and>
    drain rd (Suc (length ps + length (contents mem b))) mem' b1
      = Some (rev (map (element_at mem b) ps) @ contents mem b, b2) \<and> contents mem' b2 = []"
proof -
  obtain mem' b1 where *: "put_all can_wr wr (mem, b) ps = Some (mem', b1)" "inv b1"
      "contents mem' b1 = rev (map (element_at mem b) ps) @ contents mem b"
    using put_all_contents[OF assms, of mem] by auto
  then show ?thesis using drain_contents[OF *(2), of mem' "Suc (length ps + length (contents mem b))"] by auto
qed

end


section \<open>The two directions keep the contract\<close>

definition elem_size :: "lifo_buffer \<Rightarrow> nat" where
  "elem_size b = size1 b + size2 b"

definition slot :: "mem \<Rightarrow> lifo_buffer \<Rightarrow> int \<Rightarrow> element" where
  "slot mem b a = element_at mem b (a, a + int (size1 b))"

definition space_ok :: "lifo_buffer \<Rightarrow> bool" where
  "space_ok b \<longleftrightarrow> 0 < elem_size b \<and> start b \<le> pos b \<and> pos b \<le> fin b"

definition fwd_inv :: "lifo_buffer \<Rightarrow> bool" where
  "fwd_inv b \<longleftrightarrow> space_ok b \<and> elem_size b dvd fwd_used_size b"

definition bwd_inv :: "lifo_buffer \<Rightarrow> bool" where
  "bwd_inv b \<longleftrightarrow> space_ok b \<and> elem_size b dvd bwd_used_size b"

definition fwd_contents :: "mem \<Rightarrow> lifo_buffer \<Rightarrow> element list" where
  "fwd_contents mem b =
     rev (map (\<lambda>i. slot mem b (start b + int (i * elem_size b))) [0..<fwd_used_size b div elem_size b])"

definition bwd_contents :: "mem \<Rightarrow> lifo_buffer \<Rightarrow> element list" where
  "bwd_contents mem b =
     map (\<lambda>i. slot mem b (pos b + int (i * elem_size b))) [0..<bwd_used_size b div elem_size b]"

definition fwd_fits :: "lifo_buffer \<Rightarrow> nat \<Rightarrow> bool" where
  "fwd_fits b n \<longleftrightarrow> n = 0 \<or> pos b + int (n * elem_size b) < fin b"

definition bwd_fits :: "lifo_buffer \<Rightarrow> nat \<Rightarrow> bool" where
  "bwd_fits b n \<longleftrightarrow> start b \<le> pos b - int (n * elem_size b)"

lemma distance_multiple: "lo \<le> hi \<and> e dvd nat (hi - lo) \<longleftrightarrow> (\<exists>k. hi = lo + int (k * e))"
proof
  assume *: "lo \<le> hi \<and> e dvd nat (hi - lo)"
  then obtain k where "nat (hi - lo) = e * k" by blast
  then have "int (k * e) = hi - lo" using * by (metis diff_ge_0_iff_ge int_nat_eq mult.commute)
  then show "\<exists>k. hi = lo + int (k * e)" by (intro exI[of _ k]) simp
qed (auto simp: nat_mult_distrib)

lemma fwd_inv_iff: "fwd_inv b \<longleftrightarrow> 0 < elem_size b \<and> pos b \<le> fin b \<and> (\<exists>k. pos b = start b + int (k * elem_size b))"
  unfolding fwd_inv_def space_ok_def fwd_used_size_def distance_multiple[symmetric] by blast

lemma bwd_inv_iff: "bwd_inv b \<longleftrightarrow> 0 < elem_size b \<and> start b \<le> pos b \<and> (\<exists>k. fin b = pos b + int (k * elem_size b))"
  unfolding bwd_inv_def space_ok_def bwd_used_size_def distance_multiple[symmetric] by blast

lemma fwd_contents_at:
  assumes "0 < elem_size b" "pos b = start b + int (k * elem_size b)"
  shows "fwd_contents mem b = rev (map (\<lambda>i. slot mem b (start b + int (i * elem_size b))) [0..<k])"
proof -
  have "fwd_used_size b = k * elem_size b" using assms by (simp add: fwd_used_size_def nat_mult_distrib)
  then show ?thesis using assms by (simp add: fwd_contents_def)
qed

lemma bwd_contents_at:
  assumes "0 < elem_size b" "fin b = pos b + int (k * elem_size b)"
  shows "bwd_contents mem b = map (\<lambda>i. slot mem b (pos b + int (i * elem_size b))) [0..<k]"
proof -
  have "bwd_used_size b = k * elem_size b" using assms by (simp add: bwd_used_size_def nat_mult_distrib)
  then show ?thesis using assms by (simp add: bwd_contents_def)
qed

lemma slot_cong:
  "(\<And>a. p \<le> a \<Longrightarrow> a < p + int (elem_size b) \<Longrightarrow> mem a = mem' a) \<Longrightarrow> slot mem b p = slot mem' b p"
  by (auto simp: slot_def element_at_def elem_size_def intro!: bytes_cong)

lemma slot_geometry: "size1 b' = size1 b \<Longrightarrow> size2 b' = size2 b \<Longrightarrow> slot mem b' p = slot mem b p"
  by (simp add: slot_def element_at_def)

lemma element_Suc: "int (Suc n * e) = int (n * e) + int e" by simp

lemma fits_one:
  "fwd_fits b (Suc n) \<Longrightarrow> pos b + int (elem_size b) < fin b"
  "bwd_fits b (Suc n) \<Longrightarrow> start b \<le> pos b - int (elem_size b)"
  using zero_le_mult_iff[of "int n" "int (elem_size b)"]
  by (simp_all add: fwd_fits_def bwd_fits_def element_Suc algebra_simps del: of_nat_mult mult_Suc)

lemma memcpy_0 [simp]: "memcpy mem p q 0 = mem"
  by (auto simp: memcpy_def fun_eq_iff)

lemma fwd_write_eq:
  assumes "fwd_fits b (Suc n)"
  shows "fwd_write mem b = Some (memcpy (memcpy mem (pos b) (write_ptr1 b) (size1 b)) (pos b + int (size1 b)) (write_ptr2 b) (size2 b),
    b\<lparr>pos := pos b + int (elem_size b)\<rparr>)"
  using fits_one(1)[OF assms]
  by (auto simp: fwd_write_def fwd_write_bytes_def fwd_have_space_for_def elem_size_def add.assoc)

lemma bwd_write_eq:
  assumes "bwd_fits b (Suc n)" "size2 b \<noteq> 0 \<longrightarrow> write_ptr2 b \<noteq> 0"
  shows "bwd_write mem b = Some (memcpy (memcpy mem (pos b - int (size2 b)) (write_ptr2 b) (size2 b))
      (pos b - int (elem_size b)) (write_ptr1 b) (size1 b), b\<lparr>pos := pos b - int (elem_size b)\<rparr>)"
  using fits_one(2)[OF assms(1)] assms(2)
  by (auto simp: bwd_write_def bwd_write_bytes_def bwd_have_space_for_def elem_size_def Let_def algebra_simps)

text \<open>The slot just written holds the source bytes; the other slots and the memory outside are kept.\<close>

lemma slot_fwd_written:
  fixes mem :: mem
  assumes "src_ok b (write_ptr1 b, write_ptr2 b)" "start b \<le> pos b" "pos b + int (elem_size b) \<le> fin b"
  defines "m \<equiv> memcpy (memcpy mem (pos b) (write_ptr1 b) (size1 b)) (pos b + int (size1 b)) (write_ptr2 b) (size2 b)"
  shows "slot m b (pos b) = element_at mem b (write_ptr1 b, write_ptr2 b)"
    and "a < pos b \<or> pos b + int (elem_size b) \<le> a \<Longrightarrow> m a = mem a"
proof -
  have "bytes m (pos b) (size1 b) = bytes mem (write_ptr1 b) (size1 b)"
    by (simp add: m_def bytes_memcpy_other bytes_memcpy_same disjoint_range_def)
  moreover have "bytes m (pos b + int (size1 b)) (size2 b) = bytes mem (write_ptr2 b) (size2 b)"
  proof (cases "size2 b = 0")
    case False
    then have "disjoint_range (write_ptr2 b) (size2 b) (pos b) (pos b + int (size1 b))"
      using assms by (auto simp: src_ok_def disjoint_range_def elem_size_def)
    then show ?thesis by (simp add: m_def bytes_memcpy_other bytes_memcpy_same)
  qed simp
  ultimately show "slot m b (pos b) = element_at mem b (write_ptr1 b, write_ptr2 b)"
    by (simp add: slot_def element_at_def)
  show "m a = mem a" if "a < pos b \<or> pos b + int (elem_size b) \<le> a"
    using that by (auto simp: m_def memcpy_def elem_size_def)
qed

lemma slot_bwd_written:
  fixes mem :: mem
  assumes "src_ok b (write_ptr1 b, write_ptr2 b)" "start b \<le> pos b - int (elem_size b)" "pos b \<le> fin b"
  defines "m \<equiv> memcpy (memcpy mem (pos b - int (size2 b)) (write_ptr2 b) (size2 b)) (pos b - int (elem_size b)) (write_ptr1 b) (size1 b)"
  shows "slot m b (pos b - int (elem_size b)) = element_at mem b (write_ptr1 b, write_ptr2 b)"
    and "a < pos b - int (elem_size b) \<or> pos b \<le> a \<Longrightarrow> m a = mem a"
proof -
  have "disjoint_range (write_ptr1 b) (size1 b) (pos b - int (size2 b)) (pos b - int (size2 b) + int (size2 b))"
    using assms by (auto simp: src_ok_def disjoint_range_def elem_size_def)
  then have "bytes m (pos b - int (elem_size b)) (size1 b) = bytes mem (write_ptr1 b) (size1 b)"
    by (simp add: m_def bytes_memcpy_other bytes_memcpy_same)
  moreover have "bytes m (pos b - int (size2 b)) (size2 b) = bytes mem (write_ptr2 b) (size2 b)"
    by (simp add: m_def bytes_memcpy_other bytes_memcpy_same disjoint_range_def elem_size_def)
  moreover have "pos b - int (elem_size b) + int (size1 b) = pos b - int (size2 b)" by (simp add: elem_size_def)
  ultimately show "slot m b (pos b - int (elem_size b)) = element_at mem b (write_ptr1 b, write_ptr2 b)"
    by (simp only: slot_def element_at_def fst_conv snd_conv)
  show "m a = mem a" if "a < pos b - int (elem_size b) \<or> pos b \<le> a"
    using that by (auto simp: m_def memcpy_def elem_size_def)
qed

lemma fwd_write_push:
  assumes inv: "fwd_inv b" and fits: "fwd_fits b (Suc n)" and src: "src_ok b (write_ptr1 b, write_ptr2 b)"
  shows "\<exists>mem' b'. fwd_write mem b = Some (mem', b') \<and> fwd_inv b' \<and> same_space b b' \<and> fwd_fits b' n \<and>
    fwd_contents mem' b' = element_at mem b (write_ptr1 b, write_ptr2 b) # fwd_contents mem b \<and>
    (\<forall>a. a < start b \<or> fin b \<le> a \<longrightarrow> mem' a = mem a)"
proof -
  define m where "m = memcpy (memcpy mem (pos b) (write_ptr1 b) (size1 b)) (pos b + int (size1 b)) (write_ptr2 b) (size2 b)"
  define b' where "b' = b\<lparr>pos := pos b + int (elem_size b)\<rparr>"
  obtain k where k: "pos b = start b + int (k * elem_size b)" and e: "0 < elem_size b"
    using inv by (auto simp: fwd_inv_iff)
  have lt: "pos b + int (elem_size b) < fin b" by (rule fits_one(1)[OF fits])
  have le: "start b \<le> pos b" using k by simp
  have e': "elem_size b' = elem_size b" by (simp add: b'_def elem_size_def)
  have s': "slot m b' p = slot m b p" "start b' = start b" "fin b' = fin b" for p
    by (simp_all add: b'_def slot_def element_at_def)
  have k': "pos b' = start b' + int (Suc k * elem_size b')" using k by (simp add: b'_def elem_size_def)
  note written = slot_fwd_written[OF src le less_imp_le[OF lt], where mem = mem, folded m_def]
  have old: "slot m b (start b + int (i * elem_size b)) = slot mem b (start b + int (i * elem_size b))" if "i < k" for i
  proof (rule slot_cong)
    fix a assume "a < start b + int (i * elem_size b) + int (elem_size b)"
    moreover have "Suc i * elem_size b \<le> k * elem_size b" using that by (intro mult_le_mono1) simp
    then have "int (i * elem_size b) + int (elem_size b) \<le> int (k * elem_size b)"
      by (simp only: mult_Suc add.commute flip: of_nat_add of_nat_le_iff[where 'a = int])
    ultimately show "m a = mem a" using written(2)[of a] k by simp
  qed
  have "fwd_contents m b' = rev (map (\<lambda>i. slot m b' (start b' + int (i * elem_size b'))) [0..<Suc k])"
    using fwd_contents_at[OF _ k'] e e' by simp
  also have "\<dots> = slot m b (pos b) # rev (map (\<lambda>i. slot mem b (start b + int (i * elem_size b))) [0..<k])"
    using old k by (simp add: e' s' del: of_nat_mult)
  also have "\<dots> = element_at mem b (write_ptr1 b, write_ptr2 b) # fwd_contents mem b"
    by (simp only: written(1) fwd_contents_at[OF e k])
  finally have "fwd_contents m b' = element_at mem b (write_ptr1 b, write_ptr2 b) # fwd_contents mem b" .
  moreover have "pos b' \<le> fin b'" using lt by (simp add: b'_def)
  then have "fwd_inv b'" unfolding fwd_inv_iff e' using e k'[unfolded e'] by blast
  moreover have "fwd_fits b' n" using fits by (auto simp: fwd_fits_def b'_def elem_size_def algebra_simps)
  moreover have "\<forall>a. a < start b \<or> fin b \<le> a \<longrightarrow> m a = mem a" using written(2) le lt by auto
  moreover have "fwd_write mem b = Some (m, b')" using fwd_write_eq[OF fits] by (simp add: m_def b'_def)
  ultimately show ?thesis by (auto simp: same_space_def b'_def)
qed


lemma upt_Suc_map: "map f [0..<Suc k] = f 0 # map (\<lambda>i. f (Suc i)) [0..<k]"
proof -
  have "[0..<Suc k] = 0 # map Suc [0..<k]" by (simp only: map_Suc_upt upt_conv_Cons)
  then show ?thesis by simp
qed

lemma bwd_write_push:
  assumes inv: "bwd_inv b" and fits: "bwd_fits b (Suc n)" and src: "src_ok b (write_ptr1 b, write_ptr2 b)"
  shows "\<exists>mem' b'. bwd_write mem b = Some (mem', b') \<and> bwd_inv b' \<and> same_space b b' \<and> bwd_fits b' n \<and>
    bwd_contents mem' b' = element_at mem b (write_ptr1 b, write_ptr2 b) # bwd_contents mem b \<and>
    (\<forall>a. a < start b \<or> fin b \<le> a \<longrightarrow> mem' a = mem a)"
proof -
  define m where "m = memcpy (memcpy mem (pos b - int (size2 b)) (write_ptr2 b) (size2 b)) (pos b - int (elem_size b)) (write_ptr1 b) (size1 b)"
  define b' where "b' = b\<lparr>pos := pos b - int (elem_size b)\<rparr>"
  obtain k where k: "fin b = pos b + int (k * elem_size b)" and e: "0 < elem_size b"
    using inv by (auto simp: bwd_inv_iff)
  have le: "start b \<le> pos b - int (elem_size b)" by (rule fits_one(2)[OF fits])
  have fin: "pos b \<le> fin b" using k by simp
  have e': "elem_size b' = elem_size b" by (simp add: b'_def elem_size_def)
  have s': "slot m b' p = slot m b p" "start b' = start b" "fin b' = fin b" for p
    by (simp_all add: b'_def slot_def element_at_def)
  have k': "fin b' = pos b' + int (Suc k * elem_size b')" using k by (simp add: b'_def elem_size_def)
  note written = slot_bwd_written[OF src le fin, where mem = mem, folded m_def]
  have old: "slot m b (pos b + int (i * elem_size b)) = slot mem b (pos b + int (i * elem_size b))" for i
  proof (rule slot_cong)
    fix a assume "pos b + int (i * elem_size b) \<le> a"
    then have "pos b \<le> a" by (rule order_trans[rotated]) simp
    then show "m a = mem a" using written(2) by simp
  qed
  have step: "pos b' + int (Suc i * elem_size b') = pos b + int (i * elem_size b)" for i
    unfolding e' by (simp add: b'_def)
  have "bwd_contents m b' = map (\<lambda>i. slot m b' (pos b' + int (i * elem_size b'))) [0..<Suc k]"
    using bwd_contents_at[OF _ k'] e e' by simp
  also have "\<dots> = slot m b (pos b - int (elem_size b)) # map (\<lambda>i. slot mem b (pos b + int (i * elem_size b))) [0..<k]"
    unfolding upt_Suc_map step s' by (simp add: old b'_def del: of_nat_mult)
  also have "\<dots> = element_at mem b (write_ptr1 b, write_ptr2 b) # bwd_contents mem b"
    by (simp only: written(1) bwd_contents_at[OF e k])
  finally have "bwd_contents m b' = element_at mem b (write_ptr1 b, write_ptr2 b) # bwd_contents mem b" .
  moreover have "start b' \<le> pos b'" using le by (simp add: b'_def)
  then have "bwd_inv b'" unfolding bwd_inv_iff e' using e k'[unfolded e'] by blast
  moreover have "bwd_fits b' n" using fits by (auto simp: bwd_fits_def b'_def elem_size_def algebra_simps)
  moreover have "\<forall>a. a < start b \<or> fin b \<le> a \<longrightarrow> m a = mem a" using written(2) le fin by auto
  moreover have "bwd_write mem b = Some (m, b')"
    using bwd_write_eq[OF fits] src by (simp add: m_def b'_def src_ok_def)
  ultimately show ?thesis by (auto simp: same_space_def b'_def)
qed

text \<open>Reading at a position of the buffer.\<close>

lemma fwd_read_at_empty: "0 < elem_size b \<Longrightarrow> fwd_read_at b (start b) p q = Some (True, start b, p, q)"
  by (auto simp: fwd_read_at_def fwd_have_data_def elem_size_def)

lemma bwd_read_at_empty: "0 < elem_size b \<Longrightarrow> bwd_read_at b (fin b) p q = Some (True, fin b, p, q)"
  by (auto simp: bwd_read_at_def bwd_have_data_def elem_size_def)

lemma fwd_read_at_elem:
  "fwd_read_at b (start b + int (Suc k * elem_size b)) p q =
   Some (False, start b + int (k * elem_size b), start b + int (k * elem_size b),
     if size2 b = 0 then q else start b + int (k * elem_size b) + int (size1 b))"
  by (simp add: fwd_read_at_def fwd_have_data_def fwd_read_bytes_def elem_size_def algebra_simps)

lemma bwd_read_at_elem:
  assumes "fin b = p0 + int (Suc k * elem_size b)"
  shows "bwd_read_at b p0 p q = Some (False, p0 + int (elem_size b), p0, if size2 b = 0 then q else p0 + int (size1 b))"
  using assms by (simp add: bwd_read_at_def bwd_have_data_def bwd_read_bytes_def elem_size_def algebra_simps)

lemma element_at_slot:
  "element_at mem b (a, if size2 b = 0 then q else a + int (size1 b)) = slot mem b a"
  by (simp add: slot_def element_at_def)

lemma fwd_read_pop:
  assumes "fwd_inv b" "fwd_contents mem b = e # es"
  shows "\<exists>b'. fwd_read b = Some (False, b') \<and> fwd_inv b' \<and> same_space b b' \<and> fwd_contents mem b' = es \<and>
    e = element_at mem b' (read_ptr1 b', read_ptr2 b')"
proof -
  obtain k where k: "pos b = start b + int (k * elem_size b)" and e: "0 < elem_size b" and fin: "pos b \<le> fin b"
    using assms(1) by (auto simp: fwd_inv_iff)
  obtain j where j: "k = Suc j" using assms(2) fwd_contents_at[OF e k] by (cases k) auto
  let ?p = "start b + int (j * elem_size b)"
  let ?b = "b\<lparr>pos := ?p, read_ptr1 := ?p, read_ptr2 := if size2 b = 0 then read_ptr2 b else ?p + int (size1 b)\<rparr>"
  have e': "elem_size ?b = elem_size b" by (simp add: elem_size_def)
  have "fwd_read b = Some (False, ?b)"
    unfolding fwd_read_def k j fwd_read_at_elem by simp
  moreover have "fwd_contents mem ?b = rev (map (\<lambda>i. slot mem b (start b + int (i * elem_size b))) [0..<j])"
    using fwd_contents_at[of ?b j mem] e by (simp add: e' slot_geometry[of ?b b] del: of_nat_mult)
  moreover have "fwd_contents mem b = slot mem b ?p # rev (map (\<lambda>i. slot mem b (start b + int (i * elem_size b))) [0..<j])"
    using fwd_contents_at[OF e k] by (simp add: j)
  moreover have "element_at mem ?b (read_ptr1 ?b, read_ptr2 ?b) = slot mem b ?p"
    by (simp add: slot_def element_at_def)
  moreover have "?p \<le> fin b" using fin k j by simp
  then have "fwd_inv ?b" unfolding fwd_inv_iff e' using e by auto
  ultimately show ?thesis using assms(2) by (simp add: same_space_def)
qed

lemma bwd_read_pop:
  assumes "bwd_inv b" "bwd_contents mem b = e # es"
  shows "\<exists>b'. bwd_read b = Some (False, b') \<and> bwd_inv b' \<and> same_space b b' \<and> bwd_contents mem b' = es \<and>
    e = element_at mem b' (read_ptr1 b', read_ptr2 b')"
proof -
  obtain k where k: "fin b = pos b + int (k * elem_size b)" and e: "0 < elem_size b" and st: "start b \<le> pos b"
    using assms(1) by (auto simp: bwd_inv_iff)
  obtain j where j: "k = Suc j" using assms(2) bwd_contents_at[OF e k] by (cases k) auto
  let ?p = "pos b + int (elem_size b)"
  let ?b = "b\<lparr>pos := ?p, read_ptr1 := pos b, read_ptr2 := if size2 b = 0 then read_ptr2 b else pos b + int (size1 b)\<rparr>"
  have e': "elem_size ?b = elem_size b" by (simp add: elem_size_def)
  have k': "fin ?b = pos ?b + int (j * elem_size ?b)" unfolding e' using k j by simp
  have "bwd_read b = Some (False, ?b)"
    unfolding bwd_read_def using bwd_read_at_elem[OF k[unfolded j]] by simp
  moreover have "bwd_contents mem ?b = map (\<lambda>i. slot mem b (pos b + int (Suc i * elem_size b))) [0..<j]"
    using bwd_contents_at[OF _ k'] e by (simp add: e' slot_geometry[of ?b b] add.assoc)
  moreover have "bwd_contents mem b = slot mem b (pos b) # map (\<lambda>i. slot mem b (pos b + int (Suc i * elem_size b))) [0..<j]"
    unfolding bwd_contents_at[OF e k] j upt_Suc_map by simp
  moreover have "element_at mem ?b (read_ptr1 ?b, read_ptr2 ?b) = slot mem b (pos b)"
    by (simp add: slot_def element_at_def)
  moreover have "bwd_inv ?b" unfolding bwd_inv_iff using k' e st by (auto simp: e')
  ultimately show ?thesis using assms(2) by (simp add: same_space_def)
qed

lemma write_ptr_update [simp]:
  "elem_size (b\<lparr>write_ptr1 := p, write_ptr2 := q\<rparr>) = elem_size b"
  "slot mem (b\<lparr>write_ptr1 := p, write_ptr2 := q\<rparr>) a = slot mem b a"
  by (simp_all add: elem_size_def slot_def element_at_def)

interpretation fwd: lifo fwd_inv fwd_contents fwd_fits "can_write FORWARD" fwd_write fwd_read
proof
  fix b mem n assume inv: "fwd_inv b"
  show "can_write FORWARD b" if "fwd_fits b (Suc n)"
    using fits_one(1)[OF that] by (simp add: can_write_def lifo_have_space_for_def fwd_have_space_for_def elem_size_def)
  show "fwd_read b = Some (True, b)" if "fwd_contents mem b = []"
  proof -
    obtain k where k: "pos b = start b + int (k * elem_size b)" and e: "0 < elem_size b"
      using inv by (auto simp: fwd_inv_iff)
    then have "pos b = start b" using that fwd_contents_at[OF e k] by (cases k) auto
    then show ?thesis using fwd_read_at_empty[OF e] by (simp add: fwd_read_def)
  qed
qed (erule (2) fwd_write_push | erule (1) fwd_read_pop |
    simp add: fwd_inv_iff fwd_contents_def fwd_used_size_def fwd_fits_def)+

interpretation bwd: lifo bwd_inv bwd_contents bwd_fits "can_write BACKWARD" bwd_write bwd_read
proof
  fix b mem n assume inv: "bwd_inv b"
  show "can_write BACKWARD b" if "bwd_fits b (Suc n)"
    using fits_one(2)[OF that] by (simp add: can_write_def lifo_have_space_for_def bwd_have_space_for_def elem_size_def)
  show "bwd_read b = Some (True, b)" if "bwd_contents mem b = []"
  proof -
    obtain k where k: "fin b = pos b + int (k * elem_size b)" and e: "0 < elem_size b"
      using inv by (auto simp: bwd_inv_iff)
    then have "pos b = fin b" using that bwd_contents_at[OF e k] by (cases k) auto
    then show ?thesis using bwd_read_at_empty[OF e] by (simp add: bwd_read_def)
  qed
qed (erule (2) bwd_write_push | erule (1) bwd_read_pop |
    simp add: bwd_inv_iff bwd_contents_def bwd_used_size_def bwd_fits_def)+


section \<open>The iterator\<close>

lemma walk_fwd:
  assumes "0 < elem_size b" "it_pos it = start b + int (k * elem_size b)" "k < fuel"
  shows "walk FORWARD fuel mem b it = Some (rev (map (\<lambda>i. slot mem b (start b + int (i * elem_size b))) [0..<k]))"
  using assms(2,3)
proof (induction k arbitrary: it fuel)
  case 0
  then show ?case
    using fwd_read_at_empty[OF assms(1)] by (cases fuel) (simp_all add: it_read_def lifo_read_at_def)
next
  case (Suc k)
  then obtain f where f: "fuel = Suc f" "k < f" by (cases fuel) auto
  let ?p = "start b + int (k * elem_size b)"
  let ?it = "\<lparr>it_pos = ?p, it_read_ptr1 = ?p, it_read_ptr2 = if size2 b = 0 then it_read_ptr2 it else ?p + int (size1 b)\<rparr>"
  have "it_read FORWARD b it = Some (False, ?it)"
    unfolding it_read_def lifo_read_at_def Suc.prems(1) enum_direction.case fwd_read_at_elem by simp
  moreover have "(bytes mem (it_read_ptr1 ?it) (size1 b), bytes mem (it_read_ptr2 ?it) (size2 b)) = slot mem b ?p"
    by (simp add: slot_def element_at_def)
  moreover have "walk FORWARD f mem b ?it = Some (rev (map (\<lambda>i. slot mem b (start b + int (i * elem_size b))) [0..<k]))"
    by (rule Suc.IH) (simp_all add: f)
  ultimately show ?case by (simp add: f(1))
qed

lemma walk_bwd:
  assumes "0 < elem_size b" "fin b = it_pos it + int (k * elem_size b)" "k < fuel"
  shows "walk BACKWARD fuel mem b it = Some (map (\<lambda>i. slot mem b (it_pos it + int (i * elem_size b))) [0..<k])"
  using assms(2,3)
proof (induction k arbitrary: it fuel)
  case 0
  then have "it_pos it = fin b" by simp
  then show ?case
    using bwd_read_at_empty[OF assms(1)] 0 by (cases fuel) (simp_all add: it_read_def lifo_read_at_def)
next
  case (Suc k)
  then obtain f where f: "fuel = Suc f" "k < f" by (cases fuel) auto
  let ?p = "it_pos it"
  let ?it = "\<lparr>it_pos = ?p + int (elem_size b), it_read_ptr1 = ?p, it_read_ptr2 = if size2 b = 0 then it_read_ptr2 it else ?p + int (size1 b)\<rparr>"
  have "it_read BACKWARD b it = Some (False, ?it)"
    unfolding it_read_def lifo_read_at_def enum_direction.case bwd_read_at_elem[OF Suc.prems(1)] by simp
  moreover have "(bytes mem (it_read_ptr1 ?it) (size1 b), bytes mem (it_read_ptr2 ?it) (size2 b)) = slot mem b ?p"
    by (simp add: slot_def element_at_def)
  moreover have "walk BACKWARD f mem b ?it = Some (map (\<lambda>i. slot mem b (?p + int (Suc i * elem_size b))) [0..<k])"
    using Suc.IH[of ?it f] Suc.prems(1) f(2) by (simp add: algebra_simps)
  ultimately show ?case unfolding upt_Suc_map by (simp add: f(1))
qed

section \<open>Properties\<close>

text \<open>C33. Elements written to a buffer of either direction that has room for them are read back in
  the reverse order, before what the buffer held; every write passes its assertions and
  reading ends.\<close>

theorem lifo_write_read:
  "(fwd_inv b \<and> fwd_fits b (length ps) \<and> (\<forall>p \<in> set ps. src_ok b p) \<longrightarrow>
     (\<exists>mem' b1 b2. put_all (can_write FORWARD) fwd_write (mem, b) ps = Some (mem', b1) \<and>
       drain fwd_read (Suc (length ps + length (fwd_contents mem b))) mem' b1
         = Some (rev (map (element_at mem b) ps) @ fwd_contents mem b, b2) \<and> fwd_contents mem' b2 = [])) \<and>
   (bwd_inv b \<and> bwd_fits b (length ps) \<and> (\<forall>p \<in> set ps. src_ok b p) \<longrightarrow>
     (\<exists>mem' b1 b2. put_all (can_write BACKWARD) bwd_write (mem, b) ps = Some (mem', b1) \<and>
       drain bwd_read (Suc (length ps + length (bwd_contents mem b))) mem' b1
         = Some (rev (map (element_at mem b) ps) @ bwd_contents mem b, b2) \<and> bwd_contents mem' b2 = []))"
  using fwd.put_all_drain bwd.put_all_drain by blast

theorem lifo_write_read_witness:
  "\<exists>mem' b1 b2. put_all (can_write BACKWARD) bwd_write (of_int,
       \<lparr>size1 = 1, size2 = 2, write_ptr1 = 0, write_ptr2 = 0, read_ptr1 = 0, read_ptr2 = 0, start = 100, fin = 106, pos = 106\<rparr>)
       [(10, 20), (12, 30)] = Some (mem', b1) \<and>
     drain bwd_read 3 mem' b1 = Some ([([12], [30, 31]), ([10], [20, 21])], b2)"
proof -
  let ?b = "\<lparr>size1 = 1, size2 = 2, write_ptr1 = 0, write_ptr2 = 0, read_ptr1 = 0, read_ptr2 = 0, start = 100, fin = 106, pos = 106\<rparr>"
  have "bwd_inv ?b" "bwd_fits ?b 2" "src_ok ?b (10, 20)" "src_ok ?b (12, 30)" by code_simp+
  moreover have "bwd_contents of_int ?b = []" "element_at of_int ?b (10, 20) = ([10], [20, 21])"
    "element_at of_int ?b (12, 30) = ([12], [30, 31])" by code_simp+
  ultimately show ?thesis using lifo_write_read[of ?b "[(10, 20), (12, 30)]" of_int]
    by (simp add: eval_nat_numeral del: drain.simps put_all.simps) blast
qed

text \<open>Walking a buffer with an iterator yields exactly the elements that reading it would yield,
  in the same order, and ends.\<close>

theorem lifo_iterator_walk:
  "(fwd_inv b \<longrightarrow> walk FORWARD (Suc (length (fwd_contents mem b))) mem b (it_init FORWARD b it) = Some (fwd_contents mem b)) \<and>
   (bwd_inv b \<longrightarrow> walk BACKWARD (Suc (length (bwd_contents mem b))) mem b (it_init BACKWARD b it) = Some (bwd_contents mem b))"
proof (intro conjI impI)
  assume "fwd_inv b"
  then obtain k where k: "pos b = start b + int (k * elem_size b)" and e: "0 < elem_size b"
    by (auto simp: fwd_inv_iff)
  then show "walk FORWARD (Suc (length (fwd_contents mem b))) mem b (it_init FORWARD b it) = Some (fwd_contents mem b)"
    unfolding fwd_contents_at[OF e k] by (intro walk_fwd) (simp_all add: it_init_def lifo_get_pos_def fwd_get_pos_def)
next
  assume "bwd_inv b"
  then obtain k where k: "fin b = pos b + int (k * elem_size b)" and e: "0 < elem_size b"
    by (auto simp: bwd_inv_iff)
  have p: "it_pos (it_init BACKWARD b it) = pos b" by (simp add: it_init_def lifo_get_pos_def bwd_get_pos_def)
  show "walk BACKWARD (Suc (length (bwd_contents mem b))) mem b (it_init BACKWARD b it) = Some (bwd_contents mem b)"
    unfolding bwd_contents_at[OF e k] using walk_bwd[OF e k[folded p], of "Suc k" mem]
    by (simp add: p del: walk.simps of_nat_mult)
qed

theorem lifo_iterator_walk_witness:
  "walk FORWARD 3 of_int
     \<lparr>size1 = 1, size2 = 1, write_ptr1 = 0, write_ptr2 = 0, read_ptr1 = 0, read_ptr2 = 0, start = 100, fin = 110, pos = 104\<rparr>
     \<lparr>it_pos = 104, it_read_ptr1 = 0, it_read_ptr2 = 0\<rparr> = Some [([102], [103]), ([100], [101])]"
proof -
  let ?b = "\<lparr>size1 = 1, size2 = 1, write_ptr1 = 0, write_ptr2 = 0, read_ptr1 = 0, read_ptr2 = 0, start = 100, fin = 110, pos = 104\<rparr>"
  have "fwd_inv ?b" by code_simp
  moreover have "fwd_contents of_int ?b = [([102], [103]), ([100], [101])]" by code_simp
  moreover have "it_init FORWARD ?b \<lparr>it_pos = 0, it_read_ptr1 = 0, it_read_ptr2 = 0\<rparr> = \<lparr>it_pos = 104, it_read_ptr1 = 0, it_read_ptr2 = 0\<rparr>"
    by code_simp
  ultimately show ?thesis
    using lifo_iterator_walk[of ?b of_int "\<lparr>it_pos = 0, it_read_ptr1 = 0, it_read_ptr2 = 0\<rparr>"]
    by (simp add: eval_nat_numeral del: walk.simps)
qed

text \<open>The unused space of a backward buffer can be given to a forward buffer that ends where it
  starts: the assertions of \<open>grow\<close> hold, neither buffer loses an element although the
  space is trashed, the forward buffer gains exactly the unused space and the two still do
  not overlap.\<close>

theorem lifo_space_handover:
  assumes "fwd_inv f" "bwd_inv b" "fin f = start b"
  shows "\<exists>us ue b' mem' f'. bwd_remove_unused_space b = Some (us, ue, b') \<and> fwd_grow mem f us ue = Some (mem', f') \<and>
     fwd_inv f' \<and> bwd_inv b' \<and> fwd_contents mem' f' = fwd_contents mem f \<and> bwd_contents mem' b' = bwd_contents mem b \<and>
     fin f' = start b' \<and> fin f' - pos f' = (fin f - pos f) + (pos b - start b)"
proof -
  let ?m = "trash_alloc mem (start b) (nat (pos b - start b))"
  let ?b = "b\<lparr>start := pos b\<rparr>" and ?f = "f\<lparr>fin := pos b\<rparr>"
  have le: "start b \<le> pos b" using assms(2) by (simp add: bwd_inv_iff)
  obtain k where k: "pos f = start f + int (k * elem_size f)" and e: "0 < elem_size f" and pf: "pos f \<le> fin f"
    using assms(1) by (auto simp: fwd_inv_iff)
  obtain j where j: "fin b = pos b + int (j * elem_size b)" and eb: "0 < elem_size b"
    using assms(2) by (auto simp: bwd_inv_iff)
  have same: "?m a = mem a" if "a < fin f \<or> pos b \<le> a" for a
    using that le assms(3) by (auto simp: trash_alloc_def)
  have es: "elem_size ?b = elem_size b" "elem_size ?f = elem_size f" by (simp_all add: elem_size_def)
  have sf: "slot ?m ?f (start f + int (i * elem_size f)) = slot mem f (start f + int (i * elem_size f))" if "i < k" for i
  proof -
    have "Suc i * elem_size f \<le> k * elem_size f" using that by (intro mult_le_mono1) simp
    then have "start f + int (i * elem_size f) + int (elem_size f) \<le> fin f" using k pf
      by (simp only: mult_Suc add.commute flip: of_nat_add of_nat_le_iff[where 'a = int])
    then show ?thesis unfolding slot_geometry[of ?f f, simplified] by (intro slot_cong same) simp
  qed
  have sb: "slot ?m ?b (pos b + int (i * elem_size b)) = slot mem b (pos b + int (i * elem_size b))" for i
    unfolding slot_geometry[of ?b b, simplified]
    by (intro slot_cong same disjI2) (rule order_trans[of _ "pos b + int (i * elem_size b)"], simp_all)
  have "fwd_contents ?m ?f = fwd_contents mem f"
    unfolding fwd_contents_at[OF e k] using fwd_contents_at[of ?f k ?m] k e sf by (simp add: es del: of_nat_mult)
  moreover have "bwd_contents ?m ?b = bwd_contents mem b"
    unfolding bwd_contents_at[OF eb j] using bwd_contents_at[of ?b j ?m] j eb sb by (simp add: es del: of_nat_mult)
  moreover have "fwd_inv ?f" using k e pf le assms(3) unfolding fwd_inv_iff es by auto
  moreover have "bwd_inv ?b" using j eb unfolding bwd_inv_iff es by auto
  ultimately show ?thesis using le assms(3) by (auto simp: bwd_remove_unused_space_def fwd_grow_def)
qed

theorem lifo_space_handover_witness:
  "\<exists>us ue b' mem' f'.
     bwd_remove_unused_space \<lparr>size1 = 2, size2 = 0, write_ptr1 = 0, write_ptr2 = 0, read_ptr1 = 0, read_ptr2 = 0,
       start = 108, fin = 120, pos = 116\<rparr> = Some (us, ue, b') \<and>
     fwd_grow of_int \<lparr>size1 = 1, size2 = 1, write_ptr1 = 0, write_ptr2 = 0, read_ptr1 = 0, read_ptr2 = 0,
       start = 100, fin = 108, pos = 102\<rparr> us ue = Some (mem', f') \<and>
     fwd_contents mem' f' = [([100], [101])] \<and> bwd_contents mem' b' = [([116, 117], []), ([118, 119], [])]"
proof -
  let ?f = "\<lparr>size1 = 1, size2 = 1, write_ptr1 = 0, write_ptr2 = 0, read_ptr1 = 0, read_ptr2 = 0, start = 100, fin = 108, pos = 102\<rparr>"
  let ?b = "\<lparr>size1 = 2, size2 = 0, write_ptr1 = 0, write_ptr2 = 0, read_ptr1 = 0, read_ptr2 = 0, start = 108, fin = 120, pos = 116\<rparr>"
  have "fwd_inv ?f" "bwd_inv ?b" "fwd_contents of_int ?f = [([100], [101])]"
    "bwd_contents of_int ?b = [([116, 117], []), ([118, 119], [])]" by code_simp+
  then show ?thesis using lifo_space_handover[of ?f ?b of_int] by simp blast
qed

end
