(* ===== verification/Sql_List.thy ===== *)
theory Sql_List
  imports Prelude
begin

text \<open>
  \<open>base_list\<close>, its iterators and \<open>List<T>\<close> of \<open>sql_list.h\<close>, on an explicit heap. Nodes and
  objects are addresses (0 is the null pointer, \<open>END\<close> is the shared sentinel
  \<open>end_of_list\<close>); a list head is an identifier; a \<open>list_node **\<close> is a \<open>loc\<close>, the \<open>first\<close>
  member of a head or the \<open>next\<close> member of a node, so the aliasing of the \<open>last\<close> pointer
  is the one of the code. An allocation fails when the heap has no \<open>room\<close> left.
  \<open>lst h l ns\<close> says that head \<open>l\<close> of heap \<open>h\<close> is a well-formed list of the nodes \<open>ns\<close>.
\<close>

section \<open>The heap\<close>

datatype loc = First nat | Next nat

record heap =
  nd_next :: "nat \<Rightarrow> nat"
  nd_info :: "nat \<Rightarrow> nat"
  hd_first :: "nat \<Rightarrow> nat"
  hd_last :: "nat \<Rightarrow> loc"
  hd_elems :: "nat \<Rightarrow> uint"
  fresh :: nat
  room :: nat

definition NULL :: nat where "NULL = 0"

definition END :: nat where "END = 1"

definition TRASH :: nat where "TRASH = 0x8F8F8F8F8F8F8F8F"

definition rd :: "heap \<Rightarrow> loc \<Rightarrow> nat" where
  "rd h p = (case p of First l \<Rightarrow> hd_first h l | Next n \<Rightarrow> nd_next h n)"

definition wr :: "loc \<Rightarrow> nat \<Rightarrow> heap \<Rightarrow> heap" where
  "wr p v h = (case p of First l \<Rightarrow> h\<lparr>hd_first := (hd_first h)(l := v)\<rparr> | Next n \<Rightarrow> h\<lparr>nd_next := (nd_next h)(n := v)\<rparr>)"

definition set_last :: "nat \<Rightarrow> loc \<Rightarrow> heap \<Rightarrow> heap" where
  "set_last l p h = h\<lparr>hd_last := (hd_last h)(l := p)\<rparr>"

definition set_elements :: "nat \<Rightarrow> uint \<Rightarrow> heap \<Rightarrow> heap" where
  "set_elements l n h = h\<lparr>hd_elems := (hd_elems h)(l := n)\<rparr>"

definition set_info :: "nat \<Rightarrow> nat \<Rightarrow> heap \<Rightarrow> heap" where
  "set_info n v h = h\<lparr>nd_info := (nd_info h)(n := v)\<rparr>"

definition delete_node :: "nat \<Rightarrow> heap \<Rightarrow> heap" where
  "delete_node n h = set_info n TRASH (wr (Next n) TRASH h)"

definition new_list_node :: "nat \<Rightarrow> nat \<Rightarrow> heap \<Rightarrow> nat \<times> heap" where
  "new_list_node info_par next_par h =
     (if room h = 0 then (NULL, h)
      else (fresh h, (set_info (fresh h) info_par (wr (Next (fresh h)) next_par h))\<lparr>fresh := fresh h + 1, room := room h - 1\<rparr>))"

section \<open>base_list\<close>

definition bl_eq :: "heap \<Rightarrow> nat \<Rightarrow> nat \<Rightarrow> bool" where
  "bl_eq h l rhs \<longleftrightarrow> hd_elems h l = hd_elems h rhs \<and> hd_first h l = hd_first h rhs \<and> hd_last h l = hd_last h rhs"

definition bl_assign :: "nat \<Rightarrow> nat \<Rightarrow> heap \<Rightarrow> heap" where
  "bl_assign l rhs h =
     (let h = set_elements l (hd_elems h rhs) h;
          h = wr (First l) (hd_first h rhs) h
      in set_last l (if hd_elems h l \<noteq> 0 then hd_last h rhs else First l) h)"

definition bl_empty :: "nat \<Rightarrow> heap \<Rightarrow> heap" where
  "bl_empty l h = set_last l (First l) (wr (First l) END (set_elements l 0 h))"

definition bl_push_back :: "nat \<Rightarrow> nat \<Rightarrow> heap \<Rightarrow> bool \<times> heap" where
  "bl_push_back l info h =
     (let (node, h) = new_list_node info END h;
          h = wr (hd_last h l) node h
      in if node \<noteq> NULL
         then let h = set_last l (Next (rd h (hd_last h l))) h
              in (False, set_elements l (hd_elems h l + 1) h)
         else (True, h))"

definition bl_push_front_impl :: "nat \<Rightarrow> nat \<Rightarrow> heap \<Rightarrow> bool \<times> heap" where
  "bl_push_front_impl l node h =
     (if node \<noteq> NULL
      then let h = (if hd_last h l = First l then set_last l (Next node) h else h);
               h = wr (First l) node h
           in (False, set_elements l (hd_elems h l + 1) h)
      else (True, h))"

definition bl_push_front :: "nat \<Rightarrow> nat \<Rightarrow> heap \<Rightarrow> bool \<times> heap" where
  "bl_push_front l info h =
     (let (node, h) = new_list_node info (hd_first h l) h in bl_push_front_impl l node h)"

definition bl_remove :: "nat \<Rightarrow> loc \<Rightarrow> heap \<Rightarrow> heap" where
  "bl_remove l prev h =
     (let node = nd_next h (rd h prev);
          h = set_elements l (hd_elems h l - 1) h;
          h = (if hd_elems h l = 0 then set_last l (First l) h
               else if hd_last h l = Next (rd h prev) then set_last l prev h
               else h);
          h = delete_node (rd h prev) h
      in wr prev node h)"

definition bl_is_empty :: "heap \<Rightarrow> nat \<Rightarrow> bool" where
  "bl_is_empty h l \<longleftrightarrow> hd_first h l = END"

definition bl_append :: "nat \<Rightarrow> nat \<Rightarrow> heap \<Rightarrow> heap" where
  "bl_append l list h =
     (if \<not> bl_is_empty h list
      then if bl_is_empty h l then bl_assign l list h
           else let h = wr (hd_last h l) (hd_first h list) h;
                    h = set_last l (hd_last h list) h
                in set_elements l (hd_elems h l + hd_elems h list) h
      else h)"

definition bl_pop :: "nat \<Rightarrow> heap \<Rightarrow> nat \<times> heap" where
  "bl_pop l h =
     (if hd_first h l = END then (NULL, h)
      else let tmp = hd_first h l;
               h = wr (First l) (nd_next h (hd_first h l)) h;
               h = set_elements l (hd_elems h l - 1) h;
               h = (if hd_elems h l = 0 then set_last l (First l) h else h)
           in (nd_info h tmp, h))"

text \<open>The loop of \<open>disjoin\<close>; \<open>None\<close> is running out of fuel, the flag says that the loop returned
  from the whole function.\<close>

fun disjoin_loop :: "nat \<Rightarrow> nat \<Rightarrow> nat \<Rightarrow> loc \<Rightarrow> nat \<Rightarrow> heap \<Rightarrow> (bool \<times> loc \<times> heap) option" where
  "disjoin_loop 0 l list_first prev node h = None"
| "disjoin_loop (Suc fuel) l list_first prev node h =
     (if node \<noteq> END \<and> node \<noteq> list_first
      then let prev = Next node;
               node = nd_next h node;
               h = set_elements l (hd_elems h l + 1) h
           in if node = END then Some (True, prev, h) else disjoin_loop fuel l list_first prev node h
      else Some (False, prev, h))"

definition bl_disjoin :: "nat \<Rightarrow> nat \<Rightarrow> nat \<Rightarrow> heap \<Rightarrow> heap option" where
  "bl_disjoin fuel l list h =
     (case disjoin_loop fuel l (hd_first h list) (First l) (hd_first h l) (set_elements l 0 h) of
        None \<Rightarrow> None
      | Some (returned, prev, h) \<Rightarrow> Some (if returned then h else set_last l prev (wr prev END h)))"

definition bl_prepend :: "nat \<Rightarrow> nat \<Rightarrow> heap \<Rightarrow> heap" where
  "bl_prepend l list h =
     (if \<not> bl_is_empty h list
      then let h = (if bl_is_empty h l then set_last l (hd_last h list) h else h);
               h = wr (hd_last h list) (hd_first h l) h;
               h = wr (First l) (hd_first h list) h
           in set_elements l (hd_elems h l + hd_elems h list) h
      else h)"

definition bl_swap :: "nat \<Rightarrow> nat \<Rightarrow> heap \<Rightarrow> heap" where
  "bl_swap l rhs h =
     (let rhs_last = hd_last h rhs;
          tmp = hd_first h l;
          h = wr (First l) (hd_first h rhs) h;
          h = wr (First rhs) tmp h;
          dummy = hd_elems h l;
          h = set_elements l (hd_elems h rhs) h;
          h = set_elements rhs dummy h;
          h = set_last rhs (if hd_last h l = First l then First rhs else hd_last h l) h
      in set_last l (if rhs_last = First rhs then First l else rhs_last) h)"

definition bl_last_node :: "heap \<Rightarrow> nat \<Rightarrow> nat" where
  "bl_last_node h l = rd h (hd_last h l)"

definition bl_head :: "heap \<Rightarrow> nat \<Rightarrow> nat" where
  "bl_head h l = nd_info h (hd_first h l)"

text \<open>A \<open>void **\<close> into a node is the node, or \<open>None\<close> for the null pointer.\<close>

definition bl_head_ref :: "heap \<Rightarrow> nat \<Rightarrow> nat option" where
  "bl_head_ref h l = (if hd_first h l \<noteq> END then Some (hd_first h l) else None)"

fun add_unique_search :: "nat \<Rightarrow> (nat \<Rightarrow> nat \<Rightarrow> bool) \<Rightarrow> nat \<Rightarrow> nat \<Rightarrow> heap \<Rightarrow> nat option" where
  "add_unique_search 0 eq info node h = None"
| "add_unique_search (Suc fuel) eq info node h =
     (if node \<noteq> END \<and> \<not> eq (nd_info h node) info then add_unique_search fuel eq info (nd_next h node) h
      else Some node)"

definition bl_add_unique :: "nat \<Rightarrow> nat \<Rightarrow> nat \<Rightarrow> (nat \<Rightarrow> nat \<Rightarrow> bool) \<Rightarrow> heap \<Rightarrow> (bool \<times> heap) option" where
  "bl_add_unique fuel l info eq h =
     (case add_unique_search fuel eq info (hd_first h l) h of
        None \<Rightarrow> None
      | Some node \<Rightarrow> Some (if node = END then bl_push_back l info h else (True, h)))"

text \<open>The loop of \<open>elem\<close>, \<open>k\<close> iterations before the end.\<close>

fun elem_loop :: "nat \<Rightarrow> nat \<Rightarrow> nat \<Rightarrow> heap \<Rightarrow> nat" where
  "elem_loop 0 node data h = data"
| "elem_loop (Suc k) node data h =
     (if node = END then NULL else elem_loop k (nd_next h node) (nd_info h node) h)"

definition bl_elem :: "heap \<Rightarrow> nat \<Rightarrow> nat \<Rightarrow> nat" where
  "bl_elem h l n = elem_loop (Suc n) (hd_first h l) NULL h"

text \<open>\<open>check_list\<close>: \<open>Inl\<close> the result when a null element stops the loop, \<open>Inr\<close> the node and the count.\<close>

fun check_list_loop :: "nat \<Rightarrow> nat \<Rightarrow> uint \<Rightarrow> heap \<Rightarrow> (bool + nat \<times> uint) option" where
  "check_list_loop 0 node cnt h = None"
| "check_list_loop (Suc fuel) node cnt h =
     (if nd_next h node \<noteq> END
      then if nd_info h node = NULL then Some (Inl False)
           else check_list_loop fuel (nd_next h node) (cnt + 1) h
      else Some (Inr (node, cnt)))"

definition bl_check_list :: "nat \<Rightarrow> nat \<Rightarrow> heap \<Rightarrow> bool option" where
  "bl_check_list fuel l h =
     (case check_list_loop fuel (hd_first h l) 0 h of
        None \<Rightarrow> None
      | Some (Inl r) \<Rightarrow> Some r
      | Some (Inr (node, cnt)) \<Rightarrow>
          Some (if hd_last h l \<noteq> Next node then False else if cnt + 1 \<noteq> hd_elems h l then False else True))"

definition bl_after :: "nat \<Rightarrow> nat \<Rightarrow> nat \<Rightarrow> heap \<Rightarrow> heap" where
  "bl_after l info node h =
     (let (new_node, h) = new_list_node info (nd_next h node) h;
          h = wr (Next node) new_node h;
          h = set_elements l (hd_elems h l + 1) h
      in if hd_last h l = Next node then set_last l (Next new_node) h else h)"

section \<open>base_list_iterator\<close>

record list_iterator =
  it_list :: nat
  el :: loc
  prev :: loc
  current :: nat

text \<open>\<open>init\<close> sets \<open>prev\<close> and \<open>current\<close> to null; \<open>prev\<close> is read only after \<open>next\<close> has set it, so any
  location can stand for the null one.\<close>

definition list_it_init :: "nat \<Rightarrow> list_iterator" where
  "list_it_init l = \<lparr>it_list = l, el = First l, prev = Next NULL, current = NULL\<rparr>"

definition it_sublist :: "list_iterator \<Rightarrow> nat \<Rightarrow> uint \<Rightarrow> heap \<Rightarrow> heap" where
  "it_sublist it ls elm h =
     set_elements ls elm (set_last ls (hd_last h (it_list it)) (wr (First ls) (rd h (el it)) h))"

definition it_next :: "list_iterator \<Rightarrow> heap \<Rightarrow> nat \<times> list_iterator" where
  "it_next it h =
     (let it = it\<lparr>prev := el it\<rparr>;
          it = it\<lparr>current := rd h (el it)\<rparr>;
          it = it\<lparr>el := Next (current it)\<rparr>
      in (nd_info h (current it), it))"

definition it_peek :: "list_iterator \<Rightarrow> heap \<Rightarrow> nat" where
  "it_peek it h = nd_info h (rd h (el it))"

definition it_next_fast :: "list_iterator \<Rightarrow> heap \<Rightarrow> nat \<times> list_iterator" where
  "it_next_fast it h = (let tmp = rd h (el it) in (nd_info h tmp, it\<lparr>el := Next tmp\<rparr>))"

definition it_rewind :: "list_iterator \<Rightarrow> list_iterator" where
  "it_rewind it = it\<lparr>el := First (it_list it)\<rparr>"

definition it_replace :: "list_iterator \<Rightarrow> nat \<Rightarrow> heap \<Rightarrow> (nat \<times> heap) option" where
  "it_replace it element h =
     (let tmp = nd_info h (current it)
      in if nd_info h (current it) \<noteq> NULL then Some (tmp, set_info (current it) element h) else None)"

definition it_replace_list :: "list_iterator \<Rightarrow> nat \<Rightarrow> heap \<Rightarrow> nat \<times> heap" where
  "it_replace_list it new_list h =
     (let ret_value = nd_info h (current it); c = current it; l = it_list it
      in if \<not> bl_is_empty h new_list
         then let h = wr (hd_last h new_list) (nd_next h c) h;
                  h = set_info c (nd_info h (hd_first h new_list)) h;
                  h = wr (Next c) (nd_next h (hd_first h new_list)) h;
                  h = (if hd_last h l = Next c \<and> hd_elems h new_list > 1 then set_last l (hd_last h new_list) h else h)
              in (ret_value, set_elements l (hd_elems h l + (hd_elems h new_list - 1)) h)
         else (ret_value, h))"

definition it_remove :: "list_iterator \<Rightarrow> heap \<Rightarrow> list_iterator \<times> heap" where
  "it_remove it h =
     (let h = bl_remove (it_list it) (prev it) h in (it\<lparr>el := prev it, current := NULL\<rparr>, h))"

definition it_after :: "list_iterator \<Rightarrow> nat \<Rightarrow> heap \<Rightarrow> list_iterator \<times> heap" where
  "it_after it element h =
     (let h = bl_after (it_list it) element (current it) h;
          it = it\<lparr>current := nd_next h (current it)\<rparr>
      in (it\<lparr>el := Next (current it)\<rparr>, h))"

definition it_ref :: "list_iterator \<Rightarrow> nat" where
  "it_ref it = current it"

definition it_is_last :: "list_iterator \<Rightarrow> bool" where
  "it_is_last it \<longleftrightarrow> el it = Next END"

definition it_at_end :: "list_iterator \<Rightarrow> bool" where
  "it_at_end it \<longleftrightarrow> current it = END"

section \<open>List\<close>

text \<open>\<open>delete (T*)\<close> is the deletion of the object: the result lists the deleted objects.\<close>

fun delete_elements_loop :: "nat \<Rightarrow> nat \<Rightarrow> heap \<Rightarrow> nat list option" where
  "delete_elements_loop 0 element h = None"
| "delete_elements_loop (Suc fuel) element h =
     (if element \<noteq> END
      then map_option (\<lambda>ds. nd_info h element # ds) (delete_elements_loop fuel (nd_next h element) h)
      else Some [])"

definition List_delete_elements :: "nat \<Rightarrow> nat \<Rightarrow> heap \<Rightarrow> (nat list \<times> heap) option" where
  "List_delete_elements fuel l h =
     map_option (\<lambda>ds. (ds, bl_empty l h)) (delete_elements_loop fuel (hd_first h l) h)"

text \<open>\<open>make\<close> allocates the head (its identifier is the address) and one node.\<close>

definition List_make :: "nat \<Rightarrow> heap \<Rightarrow> nat option \<times> heap" where
  "List_make elem h =
     (if room h = 0 then (None, h)
      else let res = fresh h;
               h = bl_empty res (h\<lparr>fresh := fresh h + 1, room := room h - 1\<rparr>);
               (err, h) = bl_push_back res elem h
           in (if err then None else Some res, h))"

text \<open>\<open>List<T>::Iterator\<close> is the node it points to.\<close>

definition List_begin :: "heap \<Rightarrow> nat \<Rightarrow> nat" where
  "List_begin h l = hd_first h l"

definition List_end :: nat where
  "List_end = END"

definition Iterator_incr :: "heap \<Rightarrow> nat \<Rightarrow> nat option" where
  "Iterator_incr h node = (if node \<noteq> END then Some (nd_next h node) else None)"

definition Iterator_deref :: "heap \<Rightarrow> nat \<Rightarrow> nat" where
  "Iterator_deref h node = nd_info h node"

text \<open>\<open>for (auto &x : list)\<close>\<close>

fun range_for :: "nat \<Rightarrow> nat \<Rightarrow> heap \<Rightarrow> nat list option" where
  "range_for 0 node h = None"
| "range_for (Suc fuel) node h =
     (if node = List_end then Some []
      else case Iterator_incr h node of
             None \<Rightarrow> None
           | Some node' \<Rightarrow> map_option (\<lambda>r. Iterator_deref h node # r) (range_for fuel node' h))"

section \<open>list_copy_and_replace_each_value\<close>

text \<open>\<open>clone\<close> gives the copy of an object (0 when it runs out of memory).\<close>

fun copy_each_loop :: "nat \<Rightarrow> (nat \<Rightarrow> nat) \<Rightarrow> list_iterator \<Rightarrow> heap \<Rightarrow> heap option" where
  "copy_each_loop 0 clone it h = None"
| "copy_each_loop (Suc fuel) clone it h =
     (let (e, it) = it_next it h
      in if e \<noteq> NULL
         then case it_replace it (clone e) h of
                None \<Rightarrow> None
              | Some (_, h) \<Rightarrow> copy_each_loop fuel clone it h
         else Some h)"

definition list_copy_and_replace_each_value :: "nat \<Rightarrow> (nat \<Rightarrow> nat) \<Rightarrow> nat \<Rightarrow> heap \<Rightarrow> heap option" where
  "list_copy_and_replace_each_value fuel clone l h = copy_each_loop fuel clone (list_it_init l) h"

section \<open>Well-formed lists\<close>

lemmas heap_defs = rd_def wr_def set_last_def set_elements_def set_info_def

lemma heap_upds [heap_simps]:
  "nd_next (wr (First l) v h) = nd_next h" "hd_first (wr (First l) v h) = (hd_first h)(l := v)"
  "nd_next (wr (Next n) v h) = (nd_next h)(n := v)" "hd_first (wr (Next n) v h) = hd_first h"
  "nd_info (wr p v h) = nd_info h" "hd_last (wr p v h) = hd_last h" "hd_elems (wr p v h) = hd_elems h"
  "fresh (wr p v h) = fresh h" "room (wr p v h) = room h"
  "nd_next (set_last l q h) = nd_next h" "nd_info (set_last l q h) = nd_info h" "hd_first (set_last l q h) = hd_first h"
  "hd_last (set_last l q h) = (hd_last h)(l := q)" "hd_elems (set_last l q h) = hd_elems h"
  "fresh (set_last l q h) = fresh h" "room (set_last l q h) = room h"
  "nd_next (set_elements l e h) = nd_next h" "nd_info (set_elements l e h) = nd_info h"
  "hd_first (set_elements l e h) = hd_first h" "hd_last (set_elements l e h) = hd_last h"
  "hd_elems (set_elements l e h) = (hd_elems h)(l := e)" "fresh (set_elements l e h) = fresh h"
  "room (set_elements l e h) = room h"
  "nd_next (set_info n v h) = nd_next h" "nd_info (set_info n v h) = (nd_info h)(n := v)"
  "hd_first (set_info n v h) = hd_first h" "hd_last (set_info n v h) = hd_last h"
  "hd_elems (set_info n v h) = hd_elems h" "fresh (set_info n v h) = fresh h" "room (set_info n v h) = room h"
  by (auto simp: heap_defs split: loc.split)

lemma rd_simps [heap_simps]:
  "rd h (First l) = hd_first h l" "rd h (Next n) = nd_next h n"
  "rd (set_last l q h) p = rd h p" "rd (set_elements l e h) p = rd h p" "rd (set_info n v h) p = rd h p"
  "rd (wr p v h) q = (if p = q then v else rd h q)"
  by (auto simp: heap_defs split: loc.split)

text \<open>The nodes from \<open>p\<close> on are \<open>xs\<close> and then comes \<open>q\<close>.\<close>

fun seg :: "heap \<Rightarrow> nat \<Rightarrow> nat list \<Rightarrow> nat \<Rightarrow> bool" where
  "seg h p [] q \<longleftrightarrow> p = q"
| "seg h p (x # xs) q \<longleftrightarrow> p = x \<and> seg h (nd_next h x) xs q"

definition loc_of :: "nat \<Rightarrow> nat list \<Rightarrow> loc" where
  "loc_of l xs = (if xs = [] then First l else Next (last xs))"

definition nodes_ok :: "heap \<Rightarrow> nat list \<Rightarrow> bool" where
  "nodes_ok h ns \<longleftrightarrow> distinct ns \<and> (\<forall>n \<in> set ns. END < n \<and> n < fresh h)"

definition sentinel_ok :: "heap \<Rightarrow> bool" where
  "sentinel_ok h \<longleftrightarrow> nd_next h END = END \<and> nd_info h END = NULL \<and> END < fresh h"

definition lst :: "heap \<Rightarrow> nat \<Rightarrow> nat list \<Rightarrow> bool" where
  "lst h l ns \<longleftrightarrow> seg h (hd_first h l) ns END \<and> nodes_ok h ns \<and> sentinel_ok h \<and>
     hd_last h l = loc_of l ns \<and> hd_elems h l = of_nat (length ns)"

definition infos :: "heap \<Rightarrow> nat list \<Rightarrow> nat list" where
  "infos h ns = map (nd_info h) ns"

lemma seg_append: "seg h p (xs @ ys) q \<longleftrightarrow> (\<exists>r. seg h p xs r \<and> seg h r ys q)"
  by (induction xs arbitrary: p) auto

lemma seg_cong: "(\<And>n. n \<in> set xs \<Longrightarrow> nd_next h n = nd_next h' n) \<Longrightarrow> seg h p xs q = seg h' p xs q"
  by (induction xs arbitrary: p) auto

lemma seg_det: "seg h p xs q \<Longrightarrow> seg h p xs q' \<Longrightarrow> q = q'"
  by (induction xs arbitrary: p) auto

lemma infos_cong: "(\<And>n. n \<in> set xs \<Longrightarrow> nd_info h n = nd_info h' n) \<Longrightarrow> infos h xs = infos h' xs"
  by (simp add: infos_def)

lemma infos_simps [simp]: "infos h [] = []" "infos h (x # xs) = nd_info h x # infos h xs"
  "infos h (xs @ ys) = infos h xs @ infos h ys" "length (infos h xs) = length xs"
  by (simp_all add: infos_def)

lemma loc_of_simps [simp]: "loc_of l [] = First l" "loc_of l (xs @ [x]) = Next x"
  by (simp_all add: loc_of_def)

lemma loc_of_append: "ys \<noteq> [] \<Longrightarrow> loc_of l (xs @ ys) = loc_of k ys"
  by (simp add: loc_of_def)

lemma loc_of_eq_First: "loc_of l xs = First k \<longleftrightarrow> xs = [] \<and> k = l"
  by (auto simp: loc_of_def)

lemma loc_of_eq_Next: "loc_of l xs = Next n \<longleftrightarrow> xs \<noteq> [] \<and> last xs = n"
  by (auto simp: loc_of_def)

text \<open>The location after \<open>xs\<close> holds what follows \<open>xs\<close>, and writing it redirects the list there.\<close>

lemma rd_loc_of: "seg h (hd_first h l) xs q \<Longrightarrow> rd h (loc_of l xs) = q"
proof (cases xs rule: rev_cases)
  case (snoc ys y)
  assume "seg h (hd_first h l) xs q"
  then show ?thesis using snoc by (auto simp: seg_append heap_simps)
qed (simp add: heap_simps)

lemma nd_next_wr_loc_of: "n \<notin> set xs \<Longrightarrow> nd_next (wr (loc_of l xs) v h) n = nd_next h n"
  by (auto simp: loc_of_def heap_simps)

lemma nd_next_wr_disjoint:
  "set xs \<inter> set ys = {} \<Longrightarrow> n \<in> set ys \<Longrightarrow> nd_next (wr (loc_of l xs) v h) n = nd_next h n"
  by (rule nd_next_wr_loc_of) auto

lemma hd_first_wr_loc_of: "k \<noteq> l \<or> xs \<noteq> [] \<Longrightarrow> hd_first (wr (loc_of l xs) v h) k = hd_first h k"
  by (auto simp: loc_of_def heap_simps)

lemma seg_wr_other: "set ys \<inter> set xs = {} \<Longrightarrow> seg (wr (loc_of l xs) v h) p ys q = seg h p ys q"
  by (rule seg_cong) (auto simp: nd_next_wr_loc_of disjoint_iff)

lemma seg_wr_loc_of:
  assumes "seg h (hd_first h l) xs q" "distinct xs"
  shows "seg (wr (loc_of l xs) v h) (hd_first (wr (loc_of l xs) v h) l) xs v"
proof (cases xs rule: rev_cases)
  case (snoc ys y)
  then have "seg h (hd_first h l) ys y" using assms(1) by (auto simp: seg_append)
  moreover have "seg (wr (Next y) v h) (hd_first h l) ys y = seg h (hd_first h l) ys y"
    using assms(2) snoc by (intro seg_cong) (auto simp: heap_simps)
  ultimately show ?thesis using snoc by (auto simp: seg_append heap_simps)
qed (simp add: heap_simps)

lemma seg_not_end: "seg h p ns END \<Longrightarrow> nodes_ok h ns \<Longrightarrow> p = END \<longleftrightarrow> ns = []"
  by (cases ns) (auto simp: nodes_ok_def)

lemma lst_is_empty: "lst h l ns \<Longrightarrow> bl_is_empty h l \<longleftrightarrow> ns = []"
  unfolding lst_def bl_is_empty_def using seg_not_end by blast

lemma of_nat_uint_eq_0: "n < 2 ^ 32 \<Longrightarrow> (of_nat n :: uint) = 0 \<longleftrightarrow> n = 0"
  using of_nat_eq_0_iff by (auto simp: word_of_nat_eq_0_iff dvd_imp_le)

lemma uint_dec: "0 < n \<Longrightarrow> (of_nat n :: uint) - 1 = of_nat (n - 1)"
  by (simp add: of_nat_diff)

section \<open>base_list keeps its lists well-formed\<close>

lemma bl_empty_lst: "sentinel_ok h \<Longrightarrow> lst (bl_empty l h) l []"
  by (simp add: lst_def bl_empty_def heap_simps nodes_ok_def sentinel_ok_def)

lemma new_list_node_ok:
  assumes "room h \<noteq> 0"
  obtains h' where "new_list_node i p h = (fresh h, h')" "nd_next h' = (nd_next h)(fresh h := p)"
    "nd_info h' = (nd_info h)(fresh h := i)" "hd_first h' = hd_first h" "hd_last h' = hd_last h"
    "hd_elems h' = hd_elems h" "fresh h' = Suc (fresh h)" "room h' = room h - 1"
proof -
  have "\<exists>h'. new_list_node i p h = (fresh h, h') \<and> nd_next h' = (nd_next h)(fresh h := p) \<and>
    nd_info h' = (nd_info h)(fresh h := i) \<and> hd_first h' = hd_first h \<and> hd_last h' = hd_last h \<and>
    hd_elems h' = hd_elems h \<and> fresh h' = Suc (fresh h) \<and> room h' = room h - 1"
    using assms by (auto simp: new_list_node_def heap_simps)
  then show ?thesis using that by blast
qed

lemma push_back_lst:
  assumes "lst h l ns" "room h \<noteq> 0"
  shows "\<exists>h'. bl_push_back l i h = (False, h') \<and> lst h' l (ns @ [fresh h]) \<and>
    infos h' (ns @ [fresh h]) = infos h ns @ [i] \<and>
    (\<forall>k ms. k \<noteq> l \<and> set ms \<inter> set ns = {} \<and> lst h k ms \<longrightarrow> lst h' k ms \<and> infos h' ms = infos h ms)"
proof -
  obtain h1 where h1: "new_list_node i END h = (fresh h, h1)" "nd_next h1 = (nd_next h)(fresh h := END)"
    "nd_info h1 = (nd_info h)(fresh h := i)" "hd_first h1 = hd_first h" "hd_last h1 = hd_last h"
    "hd_elems h1 = hd_elems h" "fresh h1 = Suc (fresh h)" "room h1 = room h - 1"
    using new_list_node_ok[OF assms(2)] .
  let ?n = "fresh h"
  have wf: "seg h (hd_first h l) ns END" "distinct ns" "\<And>n. n \<in> set ns \<Longrightarrow> END < n \<and> n < ?n" "sentinel_ok h"
    "hd_last h l = loc_of l ns" "hd_elems h l = of_nat (length ns)"
    using assms(1) by (auto simp: lst_def nodes_ok_def)
  have n: "?n \<noteq> NULL" "END < ?n" using wf(4) by (auto simp: sentinel_ok_def NULL_def)
  have nn: "?n \<notin> set ns" "END \<notin> set ns" using wf(3) by auto
  define h' where "h' = set_elements l (hd_elems h l + 1) (set_last l (Next ?n) (wr (loc_of l ns) ?n h1))"
  have res: "bl_push_back l i h = (False, h')"
    using h1 n wf(5) by (simp add: bl_push_back_def h'_def heap_simps)
  have "seg h1 (hd_first h1 l) ns END = seg h (hd_first h l) ns END"
    unfolding h1(4) by (rule seg_cong) (auto simp: h1 dest: wf(3))
  then have "seg (wr (loc_of l ns) ?n h1) (hd_first (wr (loc_of l ns) ?n h1) l) ns ?n"
    using wf(1,2) by (intro seg_wr_loc_of) auto
  moreover have "seg h' p xs q = seg (wr (loc_of l ns) ?n h1) p xs q" for p xs q
    by (rule seg_cong) (simp add: h'_def heap_simps)
  moreover have "hd_first h' = hd_first (wr (loc_of l ns) ?n h1)" by (simp add: h'_def heap_simps)
  moreover have "nd_next h' ?n = END" using nn h1(2)
    by (auto simp: h'_def heap_simps nd_next_wr_loc_of)
  ultimately have "seg h' (hd_first h' l) (ns @ [?n]) END" by (auto simp: seg_append)
  moreover have "nodes_ok h' (ns @ [?n])"
    using wf(2,3) n h1(7) by (auto simp: nodes_ok_def h'_def heap_simps less_Suc_eq)
  moreover have sent: "sentinel_ok h'"
    using nn wf(4) n h1 by (auto simp: sentinel_ok_def h'_def heap_simps nd_next_wr_loc_of)
  ultimately have "lst h' l (ns @ [?n])"
    using wf(6) by (auto simp: lst_def h'_def heap_simps)
  moreover have inf: "infos h' xs = infos h xs" if "?n \<notin> set xs" for xs
    by (rule infos_cong) (use that in \<open>auto simp: h'_def heap_simps h1\<close>)
  have "infos h' (ns @ [?n]) = infos h ns @ [i]" using inf[of ns] wf(3) by (auto simp: h'_def heap_simps h1)
  moreover have "lst h' k ms \<and> infos h' ms = infos h ms"
    if k: "k \<noteq> l" and dis: "set ms \<inter> set ns = {}" and ms: "lst h k ms" for k ms
  proof -
    have "?n \<notin> set ms" using ms by (auto simp: lst_def nodes_ok_def)
    then have "seg h' p ms q = seg h p ms q" for p q using dis h1(2)
      by (intro seg_cong) (auto simp: h'_def heap_simps nd_next_wr_loc_of disjoint_iff)
    then show ?thesis using ms k h1 sent inf[OF \<open>?n \<notin> set ms\<close>]
      by (auto simp: lst_def nodes_ok_def h'_def heap_simps hd_first_wr_loc_of less_Suc_eq)
  qed
  ultimately show ?thesis using res by blast
qed

lemma lst_frame:
  assumes "lst h k ms" "hd_first h' k = hd_first h k" "hd_last h' k = hd_last h k" "hd_elems h' k = hd_elems h k"
    "\<And>n. n \<in> set ms \<Longrightarrow> nd_next h' n = nd_next h n" "sentinel_ok h'" "fresh h \<le> fresh h'"
  shows "lst h' k ms"
proof -
  have "seg h' (hd_first h' k) ms END = seg h (hd_first h k) ms END"
    unfolding assms(2) by (rule seg_cong) (rule assms(5))
  then show ?thesis using assms by (auto simp: lst_def nodes_ok_def)
qed

lemma lst_D:
  assumes "lst h l ns"
  shows "seg h (hd_first h l) ns END" "distinct ns" "n \<in> set ns \<Longrightarrow> END < n \<and> n < fresh h" "sentinel_ok h"
    "hd_last h l = loc_of l ns" "hd_elems h l = of_nat (length ns)" "fresh h \<notin> set ns" "END \<notin> set ns" "NULL \<notin> set ns"
  using assms by (auto simp: lst_def nodes_ok_def NULL_def)

lemma push_front_lst:
  assumes "lst h l ns" "room h \<noteq> 0"
  shows "\<exists>h'. bl_push_front l i h = (False, h') \<and> lst h' l (fresh h # ns) \<and> infos h' (fresh h # ns) = i # infos h ns"
proof -
  obtain h1 where h1: "new_list_node i (hd_first h l) h = (fresh h, h1)" "nd_next h1 = (nd_next h)(fresh h := hd_first h l)"
    "nd_info h1 = (nd_info h)(fresh h := i)" "hd_first h1 = hd_first h" "hd_last h1 = hd_last h"
    "hd_elems h1 = hd_elems h" "fresh h1 = Suc (fresh h)"
    using new_list_node_ok[OF assms(2)] by metis
  note wf = lst_D[OF assms(1)]
  let ?n = "fresh h"
  have n: "?n \<noteq> NULL" "END < ?n" using wf(4) by (auto simp: sentinel_ok_def NULL_def)
  define h' where "h' = snd (bl_push_front l i h)"
  have f: "nd_next h' = nd_next h1" "nd_info h' = nd_info h1" "hd_first h' = (hd_first h)(l := ?n)" "fresh h' = Suc ?n"
    "hd_last h' l = loc_of l (?n # ns)" "hd_elems h' l = of_nat (length (?n # ns))"
    using h1 n wf(5,6) by (simp_all add: h'_def bl_push_front_def bl_push_front_impl_def heap_simps Let_def loc_of_def)
  have "seg h' (hd_first h l) ns END = seg h (hd_first h l) ns END"
    by (rule seg_cong) (use wf(7) in \<open>auto simp: f h1\<close>)
  then have "lst h' l (?n # ns)"
    using wf n by (auto simp: lst_def nodes_ok_def sentinel_ok_def f h1 less_Suc_eq)
  moreover have "infos h' ns = infos h ns" by (rule infos_cong) (use wf(7) in \<open>auto simp: f h1\<close>)
  moreover have "bl_push_front l i h = (False, h')"
    using h1 n by (simp add: h'_def bl_push_front_def bl_push_front_impl_def Let_def)
  ultimately show ?thesis by (auto simp: f h1)
qed

lemma pop_lst:
  assumes "lst h l (n # ns)" "length (n # ns) < 2 ^ 32"
  shows "\<exists>h'. bl_pop l h = (nd_info h n, h') \<and> lst h' l ns \<and> infos h' ns = infos h ns"
proof -
  note wf = lst_D[OF assms(1)]
  define h' where "h' = snd (bl_pop l h)"
  have first: "hd_first h l = n" "n \<noteq> END" using wf(1,8) by auto
  have cnt: "hd_elems h l - 1 = of_nat (length ns)" using wf(6) uint_dec[of "length (n # ns)"] by simp
  have z: "(of_nat (length ns) :: uint) = 0 \<longleftrightarrow> ns = []" using assms(2) of_nat_uint_eq_0[of "length ns"] by simp
  have f: "nd_next h' = nd_next h" "nd_info h' = nd_info h" "hd_first h' = (hd_first h)(l := nd_next h n)" "fresh h' = fresh h"
    "hd_last h' l = loc_of l ns" "hd_elems h' l = of_nat (length ns)"
    using first wf(5) cnt z by (auto simp: h'_def bl_pop_def heap_simps Let_def loc_of_def)
  have "seg h' (nd_next h n) ns END = seg h (nd_next h n) ns END" by (rule seg_cong) (simp add: f)
  then have "lst h' l ns" using wf by (auto simp: lst_def nodes_ok_def sentinel_ok_def f)
  moreover have "infos h' ns = infos h ns" by (rule infos_cong) (simp add: f)
  moreover have "bl_pop l h = (nd_info h n, h')" using first by (simp add: h'_def bl_pop_def heap_simps Let_def)
  ultimately show ?thesis by blast
qed

lemma pop_empty: "lst h l [] \<Longrightarrow> bl_pop l h = (NULL, h)"
  using lst_D(1) by (fastforce simp: bl_pop_def)

lemma set_last_same: "set_last l (hd_last h l) (set_elements l c h) = set_elements l c h"
  by (simp add: set_last_def set_elements_def)

lemma remove_lst:
  assumes "lst h l (xs @ n # ys)" "length (xs @ n # ys) < 2 ^ 32"
  defines "h' \<equiv> bl_remove l (loc_of l xs) h"
  shows "lst h' l (xs @ ys)" "infos h' (xs @ ys) = infos h (xs @ ys)"
proof -
  note wf = lst_D[OF assms(1)]
  obtain seg: "seg h (hd_first h l) xs n" "seg h (nd_next h n) ys END" using wf(1) by (auto simp: seg_append)
  have rd: "rd h (loc_of l xs) = n" by (rule rd_loc_of[OF seg(1)])
  have cnt: "hd_elems h l - 1 = of_nat (length (xs @ ys))" using wf(6) uint_dec[of "length (xs @ n # ys)"] by simp
  have z: "(of_nat (length (xs @ ys)) :: uint) = 0 \<longleftrightarrow> xs @ ys = []"
    using assms(2) of_nat_uint_eq_0[of "length (xs @ ys)"] by simp
  have lastn: "hd_last h l = Next n \<longleftrightarrow> ys = []" using wf(2,5) by (auto simp: loc_of_def split: if_splits)
  define q where "q = (if xs @ ys = [] then First l else if ys = [] then loc_of l xs else hd_last h l)"
  have q: "q = loc_of l (xs @ ys)" using wf(5) by (auto simp: q_def loc_of_def)
  have h': "h' = wr (loc_of l xs) (nd_next h n) (delete_node n (set_last l q (set_elements l (of_nat (length (xs @ ys))) h)))"
    using rd cnt z lastn by (auto simp: h'_def bl_remove_def heap_simps Let_def q_def set_last_same)
  define d where "d = delete_node n (set_last l q (set_elements l (of_nat (length (xs @ ys))) h))"
  have h'd: "h' = wr (loc_of l xs) (nd_next h n) d" by (simp only: h' d_def)
  have nn: "n \<notin> set xs" "n \<notin> set ys" "n \<noteq> END" using wf(2,8) by auto
  have d: "m \<noteq> n \<Longrightarrow> nd_next d m = nd_next h m" "m \<noteq> n \<Longrightarrow> nd_info d m = nd_info h m" for m
    by (simp_all add: d_def delete_node_def heap_simps)
  have d': "hd_first d = hd_first h" "fresh d = fresh h" by (simp_all add: d_def delete_node_def heap_simps)
  have dseg: "n \<notin> set zs \<Longrightarrow> seg d p zs r = seg h p zs r" for p zs r
    by (rule seg_cong, rule d) auto
  have "seg d (hd_first d l) xs n" unfolding d' dseg[OF nn(1)] by (rule seg(1))
  then have "seg h' (hd_first h' l) xs (nd_next h n)"
    unfolding h'd using wf(2) by (intro seg_wr_loc_of) auto
  moreover have "set ys \<inter> set xs = {}" using wf(2) by auto
  then have "seg h' (nd_next h n) ys END"
    unfolding h'd by (simp only: seg_wr_other dseg[OF nn(2)] seg(2))
  ultimately have "seg h' (hd_first h' l) (xs @ ys) END" by (auto simp: seg_append)
  moreover have "sentinel_ok h'" using wf(4,8) nn(3) d[of END] d'
    by (auto simp: h'd sentinel_ok_def heap_simps nd_next_wr_loc_of)
  moreover have "hd_last h' l = loc_of l (xs @ ys)" "hd_elems h' l = of_nat (length (xs @ ys))"
    by (simp_all add: h' heap_simps delete_node_def q)
  ultimately show "lst h' l (xs @ ys)" using wf(2,3) by (auto simp: lst_def nodes_ok_def h'd heap_simps d')
  show "infos h' (xs @ ys) = infos h (xs @ ys)"
    by (rule infos_cong) (use nn in \<open>auto simp: h' heap_simps delete_node_def\<close>)
qed

lemma after_lst:
  fixes i :: nat
  assumes "lst h l (xs @ n # ys)" "room h \<noteq> 0"
  defines "h' \<equiv> bl_after l i n h"
  shows "lst h' l (xs @ n # fresh h # ys)" "infos h' (xs @ n # fresh h # ys) = infos h (xs @ [n]) @ i # infos h ys"
    "nd_next h' n = fresh h" "nd_info h' (fresh h) = i"
proof -
  obtain h1 where h1: "new_list_node i (nd_next h n) h = (fresh h, h1)" "nd_next h1 = (nd_next h)(fresh h := nd_next h n)"
    "nd_info h1 = (nd_info h)(fresh h := i)" "hd_first h1 = hd_first h" "hd_last h1 = hd_last h"
    "hd_elems h1 = hd_elems h" "fresh h1 = Suc (fresh h)"
    using new_list_node_ok[OF assms(2)] by metis
  note wf = lst_D[OF assms(1)]
  let ?n = "fresh h"
  have n: "END < ?n" "n \<noteq> ?n" "n \<notin> set xs" "n \<notin> set ys" "n \<noteq> END" "?n \<notin> set xs" "?n \<notin> set ys"
    using wf(2,3,4,7,8) by (auto simp: sentinel_ok_def)
  have lastn: "hd_last h l = Next n \<longleftrightarrow> ys = []" using wf(2,5) by (auto simp: loc_of_def split: if_splits)
  have f: "nd_next h' = (nd_next h)(?n := nd_next h n, n := ?n)" "nd_info h' = (nd_info h)(?n := i)" "hd_first h' = hd_first h"
    "fresh h' = Suc ?n" "hd_elems h' l = of_nat (length (xs @ n # ?n # ys))" "hd_last h' l = loc_of l (xs @ n # ?n # ys)"
    using h1 lastn wf(5,6) by (auto simp: h'_def bl_after_def heap_simps Let_def loc_of_def split: if_splits)
  obtain seg: "seg h (hd_first h l) xs n" "seg h (nd_next h n) ys END" using wf(1) by (auto simp: seg_append)
  have "seg h' (hd_first h' l) xs n" "seg h' (nd_next h n) ys END"
    using seg n by (simp_all add: f cong: ) (subst seg_cong[of _ h' h]; auto simp: f)+
  then have "seg h' (hd_first h' l) (xs @ n # ?n # ys) END" using n by (auto simp: seg_append f)
  then show "lst h' l (xs @ n # ?n # ys)"
    using wf n by (auto simp: lst_def nodes_ok_def sentinel_ok_def f less_Suc_eq)
  have "infos h' xs = infos h xs" "infos h' ys = infos h ys" using n by (auto intro!: infos_cong simp: f)
  then show "infos h' (xs @ n # ?n # ys) = infos h (xs @ [n]) @ i # infos h ys" using n by (simp add: f)
  show "nd_next h' n = fresh h" "nd_info h' (fresh h) = i" using n by (simp_all add: f)
qed

section \<open>Two lists\<close>

lemma append_lst:
  assumes "lst h l ns" "lst h k ms" "l \<noteq> k" "set ns \<inter> set ms = {}" "length ms < 2 ^ 32"
  defines "h' \<equiv> bl_append l k h"
  shows "lst h' l (ns @ ms)" "lst h' k ms" "nd_info h' = nd_info h"
proof -
  note wf = lst_D[OF assms(1)] and wk = lst_D[OF assms(2)]
  have "lst h' l (ns @ ms) \<and> lst h' k ms \<and> nd_info h' = nd_info h"
  proof (cases "ms = []")
    case True
    then show ?thesis using assms(1,2) lst_is_empty[OF assms(2)] by (simp add: h'_def bl_append_def)
  next
    case ms: False
    have e: "hd_elems h k \<noteq> 0" using of_nat_uint_eq_0[OF assms(5)] wk(6) ms by simp
    show ?thesis
    proof (cases "ns = []")
      case True
      then have h': "h' = bl_assign l k h"
        using ms lst_is_empty[OF assms(1)] lst_is_empty[OF assms(2)] by (simp add: h'_def bl_append_def)
      have f: "nd_next h' = nd_next h" "nd_info h' = nd_info h" "hd_first h' = (hd_first h)(l := hd_first h k)"
        "hd_last h' = (hd_last h)(l := hd_last h k)" "hd_elems h' = (hd_elems h)(l := hd_elems h k)" "fresh h' = fresh h"
        using assms(3) e by (simp_all add: h' bl_assign_def heap_simps Let_def)
      have s: "seg h' p xs q = seg h p xs q" for p xs q by (rule seg_cong) (simp add: f)
      then have "lst h' l ms" using wk ms by (auto simp: lst_def nodes_ok_def sentinel_ok_def f loc_of_def)
      moreover have "lst h' k ms" using assms(3) wk(4) by (intro lst_frame[OF assms(2)]) (simp_all add: f sentinel_ok_def)
      ultimately show ?thesis using True f(2) by simp
    next
      case False
      then have h': "h' = set_elements l (hd_elems h l + hd_elems h k) (set_last l (hd_last h k) (wr (loc_of l ns) (hd_first h k) h))"
        using ms lst_is_empty[OF assms(1)] lst_is_empty[OF assms(2)] wf(5) by (simp add: h'_def bl_append_def heap_simps Let_def)
      let ?w = "wr (loc_of l ns) (hd_first h k) h"
      have "seg ?w (hd_first ?w l) ns (hd_first h k)" by (rule seg_wr_loc_of[OF wf(1,2)])
      moreover have "seg ?w (hd_first h k) ms END" unfolding seg_wr_other[OF trans[OF Int_commute assms(4)]] by (rule wk(1))
      ultimately have "seg ?w (hd_first ?w l) (ns @ ms) END" by (auto simp: seg_append)
      then have "seg h' (hd_first h' l) (ns @ ms) END" by (subst seg_cong[of _ h' ?w]) (simp_all add: h' heap_simps)
      moreover have sent: "sentinel_ok h'" using wf(4,8) by (auto simp: h' sentinel_ok_def heap_simps nd_next_wr_loc_of)
      ultimately have "lst h' l (ns @ ms)"
        using wf wk assms(4) ms loc_of_append[OF ms, of l ns k] by (auto simp: lst_def nodes_ok_def h' heap_simps)
      moreover have "lst h' k ms" using assms(3,4) False sent
        by (intro lst_frame[OF assms(2)]) (auto simp: h' heap_simps hd_first_wr_loc_of intro!: nd_next_wr_loc_of)
      ultimately show ?thesis by (simp add: h' heap_simps)
    qed
  qed
  then show "lst h' l (ns @ ms)" "lst h' k ms" "nd_info h' = nd_info h" by auto
qed

lemma prepend_lst:
  assumes "lst h l ns" "lst h k ms" "l \<noteq> k" "set ns \<inter> set ms = {}"
  defines "h' \<equiv> bl_prepend l k h"
  shows "lst h' l (ms @ ns)" "nd_info h' = nd_info h"
proof -
  note wf = lst_D[OF assms(1)] and wk = lst_D[OF assms(2)]
  have "lst h' l (ms @ ns) \<and> nd_info h' = nd_info h"
  proof (cases "ms = []")
    case True
    then show ?thesis using assms(1) lst_is_empty[OF assms(2)] by (simp add: h'_def bl_prepend_def)
  next
    case ms: False
    let ?w = "wr (loc_of k ms) (hd_first h l) h"
    have f: "nd_next h' = nd_next ?w" "nd_info h' = nd_info h" "hd_first h' l = hd_first h k" "fresh h' = fresh h"
      "hd_elems h' l = of_nat (length (ms @ ns))" "hd_last h' l = loc_of l (ms @ ns)"
      using ms assms(3) wf(5,6) wk(5,6) lst_is_empty[OF assms(1)] lst_is_empty[OF assms(2)]
      by (auto simp: h'_def bl_prepend_def heap_simps Let_def loc_of_def)
    have "seg ?w (hd_first ?w k) ms (hd_first h l)" by (rule seg_wr_loc_of[OF wk(1,2)])
    moreover have "seg ?w (hd_first h l) ns END" unfolding seg_wr_other[OF assms(4)] by (rule wf(1))
    moreover have "hd_first ?w k = hd_first h k" using ms by (simp add: hd_first_wr_loc_of)
    ultimately have "seg ?w (hd_first h k) (ms @ ns) END" by (auto simp: seg_append)
    then have "seg h' (hd_first h' l) (ms @ ns) END"
      unfolding f(3) by (subst seg_cong[of _ h' ?w]) (simp_all add: f)
    moreover have "sentinel_ok h'" using wf(4) wk(8) by (auto simp: f sentinel_ok_def nd_next_wr_loc_of)
    ultimately show ?thesis using wf wk assms(4) by (auto simp: lst_def nodes_ok_def f)
  qed
  then show "lst h' l (ms @ ns)" "nd_info h' = nd_info h" by auto
qed

lemma swap_lst:
  assumes "lst h l ns" "lst h k ms" "l \<noteq> k"
  defines "h' \<equiv> bl_swap l k h"
  shows "lst h' l ms" "lst h' k ns" "nd_info h' = nd_info h"
proof -
  note wf = lst_D[OF assms(1)] and wk = lst_D[OF assms(2)]
  have f: "nd_next h' = nd_next h" "nd_info h' = nd_info h" "hd_first h' l = hd_first h k" "hd_first h' k = hd_first h l"
    "fresh h' = fresh h" "hd_elems h' l = hd_elems h k" "hd_elems h' k = hd_elems h l"
    "hd_last h' l = loc_of l ms" "hd_last h' k = loc_of k ns"
    using assms(3) wf(5) wk(5) by (auto simp: h'_def bl_swap_def heap_simps Let_def loc_of_def split: if_splits)
  have s: "seg h' p xs q = seg h p xs q" for p xs q by (rule seg_cong) (simp add: f)
  show "lst h' l ms" "lst h' k ns" "nd_info h' = nd_info h"
    using wf wk by (auto simp: lst_def nodes_ok_def sentinel_ok_def f s)
qed

lemma disjoin_loop_spec:
  assumes "seg h node us r" "nodes_ok h us" "r \<notin> set us" "us \<noteq> [] \<longrightarrow> r = stop \<or> r = END" "us = [] \<longrightarrow> node = stop \<or> node = END"
    "length us < fuel" "stop \<notin> set us"
  shows "disjoin_loop fuel l stop p node h =
    Some (us \<noteq> [] \<and> r = END, if us = [] then p else Next (last us), set_elements l (hd_elems h l + of_nat (length us)) h)"
  using assms
proof (induction us arbitrary: p node h fuel)
  case Nil
  then show ?case by (cases fuel) (auto simp: set_elements_def)
next
  case (Cons u us)
  obtain f where f: "fuel = Suc f" using Cons.prems(6) by (cases fuel) auto
  let ?h = "set_elements l (hd_elems h l + 1) h"
  have u: "node = u" "u \<noteq> END" "u \<noteq> stop" "seg h (nd_next h u) us r"
    using Cons.prems by (auto simp: nodes_ok_def)
  have seg: "seg ?h (nd_next h u) us r" using u(4) by (subst seg_cong[of us ?h h]) (simp_all add: heap_simps)
  have se: "set_elements l c (set_elements l d h) = set_elements l c h" for c d by (simp add: set_elements_def)
  show ?case
  proof (cases "nd_next h u = END")
    case True
    then have "us = []" using u(4) Cons.prems(2) by (cases us) (auto simp: nodes_ok_def)
    then show ?thesis using True u f by (auto simp: Let_def heap_simps)
  next
    case False
    have "disjoin_loop f l stop (Next u) (nd_next h u) ?h =
      Some (us \<noteq> [] \<and> r = END, if us = [] then Next u else Next (last us), set_elements l (hd_elems ?h l + of_nat (length us)) ?h)"
      using Cons.prems False u(4) seg f by (intro Cons.IH) (auto simp: nodes_ok_def heap_simps)
    then show ?thesis using False u f Cons.prems(4)
      by (auto simp: Let_def heap_simps se add.assoc)
  qed
qed

lemma disjoin_lst:
  assumes "lst h l (xs @ ys)" "lst h k ys" "l \<noteq> k" "length xs < fuel"
  shows "\<exists>h'. bl_disjoin fuel l k h = Some h' \<and> lst h' l xs \<and> lst h' k ys \<and> nd_info h' = nd_info h"
proof -
  note wf = lst_D[OF assms(1)] and wk = lst_D[OF assms(2)]
  let ?r = "hd_first h k" and ?h = "set_elements l 0 h" and ?c = "set_elements l (of_nat (length xs)) h"
  obtain r where r: "seg h (hd_first h l) xs r" "seg h r ys END" using wf(1) by (auto simp: seg_append)
  have rk: "r = ?r" using r(2) wk(1) by (cases ys) auto
  have nx: "?r \<notin> set xs" using r(2) wf(2,8) rk by (cases ys) auto
  have "seg ?h (hd_first h l) xs ?r" using r(1) rk by (subst seg_cong[of xs ?h h]) (simp_all add: heap_simps)
  moreover have "nodes_ok ?h xs" using wf(2,3) by (auto simp: nodes_ok_def heap_simps)
  ultimately have "disjoin_loop fuel l ?r (First l) (hd_first h l) ?h =
    Some (xs \<noteq> [] \<and> ?r = END, if xs = [] then First l else Next (last xs), set_elements l (hd_elems ?h l + of_nat (length xs)) ?h)"
    using nx assms(4) r(1) rk by (intro disjoin_loop_spec) auto
  moreover have "set_elements l (hd_elems ?h l + of_nat (length xs)) ?h = ?c" by (simp add: set_elements_def)
  ultimately have res: "bl_disjoin fuel l k h =
    Some (if xs \<noteq> [] \<and> ?r = END then ?c else set_last l (loc_of l xs) (wr (loc_of l xs) END ?c))"
    by (simp add: bl_disjoin_def loc_of_def)
  show ?thesis
  proof (cases "xs \<noteq> [] \<and> ?r = END")
    case True
    have sent: "sentinel_ok ?c" using wf(4) by (simp add: sentinel_ok_def heap_simps)
    from True have "ys = []" using wk(1,8) by (cases ys) auto
    then have "xs @ ys = xs" by simp
    then have "lst h l xs" "hd_elems h l = of_nat (length xs)" using assms(1) wf(6) by (simp_all only:)
    then have "lst ?c l xs" using sent lst_frame[of h l xs ?c] by (simp add: heap_simps)
    moreover have "lst ?c k ys" using assms(3) sent by (intro lst_frame[OF assms(2)]) (simp_all add: heap_simps)
    ultimately show ?thesis using res True by (simp add: heap_simps)
  next
    case False
    let ?w = "wr (loc_of l xs) END ?c" and ?h' = "set_last l (loc_of l xs) (wr (loc_of l xs) END ?c)"
    have "seg ?c (hd_first ?c l) xs r" using r(1) by (subst seg_cong[of xs ?c h]) (simp_all add: heap_simps)
    then have "seg ?w (hd_first ?w l) xs END" using wf(2) by (intro seg_wr_loc_of) auto
    then have "seg ?h' (hd_first ?h' l) xs END" by (subst seg_cong[of xs ?h' ?w]) (simp_all add: heap_simps)
    moreover have sent: "sentinel_ok ?h'" using wf(4,8) by (auto simp: sentinel_ok_def heap_simps nd_next_wr_loc_of)
    ultimately have "lst ?h' l xs" using wf(2,3) by (auto simp: lst_def nodes_ok_def heap_simps)
    moreover have "lst ?h' k ys" using assms(3) sent wf(2)
      by (intro lst_frame[OF assms(2)]) (auto simp: heap_simps hd_first_wr_loc_of nd_next_wr_disjoint)
    ultimately show ?thesis using res False by (auto simp: heap_simps)
  qed
qed

section \<open>Searching\<close>

lemma elem_loop_spec:
  "seg h node ns END \<Longrightarrow> nodes_ok h ns \<Longrightarrow>
   elem_loop (Suc k) node d h = (if k < length ns then nd_info h (ns ! k) else NULL)"
proof (induction ns arbitrary: node k d)
  case (Cons n ns)
  then show ?case by (cases k) (auto simp: nodes_ok_def)
qed (simp)

lemma add_unique_search_spec:
  "seg h node ns END \<Longrightarrow> nodes_ok h ns \<Longrightarrow> length ns < fuel \<Longrightarrow>
   \<exists>r. add_unique_search fuel eq i node h = Some r \<and> (r = END \<longleftrightarrow> (\<forall>v \<in> set (infos h ns). \<not> eq v i))"
proof (induction ns arbitrary: node fuel)
  case Nil
  then show ?case by (cases fuel) auto
next
  case (Cons n ns)
  then show ?case by (cases fuel) (auto simp: nodes_ok_def)
qed

lemma check_list_loop_spec:
  "seg h node (ns @ [n]) END \<Longrightarrow> nodes_ok h (ns @ [n]) \<Longrightarrow> \<forall>v \<in> set (infos h ns). v \<noteq> NULL \<Longrightarrow> length ns < fuel \<Longrightarrow>
   check_list_loop fuel node c h = Some (Inr (n, c + of_nat (length ns)))"
proof (induction ns arbitrary: node c fuel)
  case Nil
  then show ?case by (cases fuel) auto
next
  case (Cons m ns)
  obtain f where f: "fuel = Suc f" using Cons.prems(4) by (cases fuel) auto
  have "nd_next h m \<noteq> END" using Cons.prems(1,2) by (cases ns) (auto simp: nodes_ok_def)
  moreover have "check_list_loop f (nd_next h m) (c + 1) h = Some (Inr (n, c + 1 + of_nat (length ns)))"
    using Cons.prems f by (intro Cons.IH) (auto simp: nodes_ok_def)
  ultimately show ?case using Cons.prems(1,3) f by (simp add: add.assoc)
qed

section \<open>Iterators\<close>

lemma it_next_at:
  assumes "lst h l (xs @ n # ys)" "el it = loc_of l xs"
  shows "it_next it h = (nd_info h n, it\<lparr>el := Next n, prev := loc_of l xs, current := n\<rparr>)"
proof -
  have "rd h (loc_of l xs) = n" using lst_D(1)[OF assms(1)] by (intro rd_loc_of) (auto simp: seg_append)
  then show ?thesis using assms(2) by (simp add: it_next_def Let_def)
qed

lemma it_next_end:
  assumes "lst h l ns" "el it = loc_of l ns"
  shows "it_next it h = (NULL, it\<lparr>el := Next END, prev := loc_of l ns, current := END\<rparr>)"
proof -
  have "rd h (loc_of l ns) = END" by (rule rd_loc_of[OF lst_D(1)[OF assms(1)]])
  then show ?thesis using assms(2) lst_D(4)[OF assms(1)] by (simp add: it_next_def Let_def sentinel_ok_def)
qed

text \<open>A client that walks a list and edits it on the way.\<close>

datatype edit = Keep | Remove | Replace nat | After nat

fun edit_all :: "nat \<Rightarrow> (nat \<Rightarrow> edit) \<Rightarrow> list_iterator \<Rightarrow> heap \<Rightarrow> heap option" where
  "edit_all 0 f it h = None"
| "edit_all (Suc fuel) f it h =
     (let (e, it) = it_next it h
      in if e = NULL then Some h
         else case f e of
                Keep \<Rightarrow> edit_all fuel f it h
              | Remove \<Rightarrow> (let (it, h) = it_remove it h in edit_all fuel f it h)
              | Replace v \<Rightarrow> (case it_replace it v h of None \<Rightarrow> None | Some (_, h) \<Rightarrow> edit_all fuel f it h)
              | After v \<Rightarrow> (let (it, h) = it_after it v h in edit_all fuel f it h))"

definition edit_result :: "(nat \<Rightarrow> edit) \<Rightarrow> nat \<Rightarrow> nat list" where
  "edit_result f v = (case f v of Keep \<Rightarrow> [v] | Remove \<Rightarrow> [] | Replace w \<Rightarrow> [w] | After w \<Rightarrow> [v, w])"

definition inserts :: "(nat \<Rightarrow> edit) \<Rightarrow> nat list \<Rightarrow> nat" where
  "inserts f vs = length (filter (\<lambda>v. \<exists>w. f v = After w) vs)"

lemma edit_result_cases [simp]:
  "f v = Keep \<Longrightarrow> edit_result f v = [v]" "f v = Remove \<Longrightarrow> edit_result f v = []"
  "f v = Replace w \<Longrightarrow> edit_result f v = [w]" "f v = After w \<Longrightarrow> edit_result f v = [v, w]"
  by (simp_all add: edit_result_def)

lemma replace_lst:
  assumes "lst h l ns"
  shows "lst (set_info n v h) l ns \<longleftrightarrow> n \<noteq> END \<or> v = NULL"
proof -
  have s: "seg (set_info n v h) p xs q = seg h p xs q" for p xs q by (rule seg_cong) (simp add: heap_simps)
  show ?thesis using lst_D[OF assms] by (auto simp: lst_def nodes_ok_def sentinel_ok_def heap_simps s)
qed

lemma edit_all_spec:
  assumes "lst h l (xs @ ys)" "length (xs @ ys) + inserts f (infos h ys) < 2 ^ 32" "inserts f (infos h ys) \<le> room h"
    "NULL \<notin> set (infos h ys)" "it_list it = l" "el it = loc_of l xs" "length ys < fuel"
  shows "\<exists>h' zs. edit_all fuel f it h = Some h' \<and> lst h' l (xs @ zs) \<and> infos h' xs = infos h xs \<and>
    infos h' zs = concat (map (edit_result f) (infos h ys))"
  using assms
proof (induction ys arbitrary: xs h it fuel)
  case Nil
  then show ?case using it_next_end[of h l xs it] by (cases fuel) (auto intro!: exI[of _ "[]"])
next
  case (Cons n ys)
  obtain k where k: "fuel = Suc k" "length ys < k" using Cons.prems(7) by (cases fuel) auto
  let ?it = "it\<lparr>el := Next n, prev := loc_of l xs, current := n\<rparr>"
  have step: "it_next it h = (nd_info h n, ?it)" using Cons.prems(1,6) by (rule it_next_at)
  have nn: "nd_info h n \<noteq> NULL" using Cons.prems(4) by simp
  note wf = lst_D[OF Cons.prems(1)]
  show ?case
  proof (cases "f (nd_info h n)")
    case Keep
    have "\<exists>h' zs. edit_all k f ?it h = Some h' \<and> lst h' l ((xs @ [n]) @ zs) \<and> infos h' (xs @ [n]) = infos h (xs @ [n]) \<and>
      infos h' zs = concat (map (edit_result f) (infos h ys))"
      using Cons.prems Keep k by (intro Cons.IH) (simp_all add: inserts_def)
    then obtain h' zs where "edit_all k f ?it h = Some h'" "lst h' l (xs @ n # zs)" "infos h' (xs @ [n]) = infos h (xs @ [n])"
      "infos h' zs = concat (map (edit_result f) (infos h ys))" by auto
    then show ?thesis using k step nn Keep by (intro exI[of _ h'] exI[of _ "n # zs"]) simp
  next
    case Remove
    let ?h = "bl_remove l (loc_of l xs) h" and ?it2 = "it\<lparr>el := loc_of l xs, prev := loc_of l xs, current := NULL\<rparr>"
    have "length (xs @ n # ys) < 2 ^ 32" using Cons.prems(2) by simp
    note rm = remove_lst[OF Cons.prems(1) this]
    have room: "room ?h = room h" by (simp add: bl_remove_def delete_node_def heap_simps Let_def)
    have "infos ?h xs = infos h xs" "infos ?h ys = infos h ys" using rm(2) by simp_all
    then have "\<exists>h' zs. edit_all k f ?it2 ?h = Some h' \<and> lst h' l (xs @ zs) \<and> infos h' xs = infos ?h xs \<and>
      infos h' zs = concat (map (edit_result f) (infos ?h ys))"
      using Cons.prems Remove k rm(1) room by (intro Cons.IH) (simp_all add: inserts_def)
    moreover have "it_remove ?it h = (?it2, ?h)" using Cons.prems(5) by (simp add: it_remove_def Let_def)
    ultimately show ?thesis using k step nn Remove rm(2) by auto
  next
    case (Replace v)
    let ?h = "set_info n v h"
    have inf: "infos ?h xs = infos h xs" "infos ?h ys = infos h ys"
      using wf(2) by (auto intro!: infos_cong simp: heap_simps)
    have "lst ?h l (xs @ n # ys)" using replace_lst[OF Cons.prems(1)] wf(8) by auto
    then have "\<exists>h' zs. edit_all k f ?it ?h = Some h' \<and> lst h' l ((xs @ [n]) @ zs) \<and> infos h' (xs @ [n]) = infos ?h (xs @ [n]) \<and>
      infos h' zs = concat (map (edit_result f) (infos ?h ys))"
      using Cons.prems Replace k inf by (intro Cons.IH) (simp_all add: inserts_def heap_simps)
    then obtain h' zs where "edit_all k f ?it ?h = Some h'" "lst h' l (xs @ n # zs)" "infos h' (xs @ [n]) = infos ?h (xs @ [n])"
      "infos h' zs = concat (map (edit_result f) (infos h ys))" using inf by auto
    moreover have "it_replace ?it v h = Some (nd_info h n, ?h)" using nn by (simp add: it_replace_def)
    ultimately show ?thesis using k step nn Replace inf
      by (intro exI[of _ h'] exI[of _ "n # zs"]) (simp add: heap_simps)
  next
    case (After v)
    let ?m = "fresh h" and ?h = "bl_after l v n h"
    let ?it2 = "it\<lparr>el := Next ?m, prev := loc_of l xs, current := ?m\<rparr>"
    have room: "room h \<noteq> 0" using Cons.prems(3) After by (simp add: inserts_def)
    note af = after_lst[OF Cons.prems(1) room, of v]
    have inf: "infos ?h xs = infos h xs" "infos ?h ys = infos h ys" "nd_info ?h n = nd_info h n"
      using af(2) by simp_all
    have "room ?h = room h - 1" using room by (simp add: bl_after_def new_list_node_def heap_simps Let_def)
    then have "\<exists>h' zs. edit_all k f ?it2 ?h = Some h' \<and> lst h' l ((xs @ [n, ?m]) @ zs) \<and>
      infos h' (xs @ [n, ?m]) = infos ?h (xs @ [n, ?m]) \<and> infos h' zs = concat (map (edit_result f) (infos ?h ys))"
      using Cons.prems After k af inf by (intro Cons.IH) (simp_all add: inserts_def loc_of_def)
    then obtain h' zs where "edit_all k f ?it2 ?h = Some h'" "lst h' l (xs @ n # ?m # zs)"
      "infos h' (xs @ [n, ?m]) = infos ?h (xs @ [n, ?m])" "infos h' zs = concat (map (edit_result f) (infos h ys))"
      using inf by auto
    moreover have "it_after ?it v h = (?it2, ?h)" using Cons.prems(5) af(3) by (simp add: it_after_def Let_def)
    ultimately show ?thesis using k step nn After inf af(4)
      by (intro exI[of _ h'] exI[of _ "n # ?m # zs"]) simp
  qed
qed

lemma replace_list_lst:
  assumes "lst h l (xs @ n # ys)" "lst h k (m # ms)" "l \<noteq> k" "set (xs @ n # ys) \<inter> set (m # ms) = {}"
    "length (m # ms) < 2 ^ 32" "it_list it = l" "current it = n"
  defines "h' \<equiv> snd (it_replace_list it k h)"
  shows "lst h' l (xs @ n # ms @ ys)" "infos h' (xs @ n # ms @ ys) = infos h xs @ infos h (m # ms) @ infos h ys"
    "fst (it_replace_list it k h) = nd_info h n"
proof -
  note wf = lst_D[OF assms(1)] and wk = lst_D[OF assms(2)]
  have fk: "hd_first h k = m" "m \<noteq> END" "n \<noteq> m" "n \<notin> set ms" "m \<notin> set ms" "m \<notin> set ys" using wk(1,2,8) assms(4) by auto
  let ?w = "wr (loc_of k (m # ms)) (nd_next h n) h"
  have wm: "hd_first ?w = hd_first h" "nd_next ?w n = nd_next h n" "nd_info ?w = nd_info h"
    using fk by (auto simp: heap_simps loc_of_def)
  have gt: "(1 :: uint) < of_nat (length (m # ms)) \<longleftrightarrow> ms \<noteq> []"
  proof -
    have "unat (of_nat (length (m # ms)) :: uint) = length (m # ms)" using assms(5) by (simp only: unat_of_nat) simp
    then show ?thesis by (simp only: word_less_nat_alt unat_1) auto
  qed
  have lastn: "hd_last h l = Next n \<longleftrightarrow> ys = []" using wf(2,5) by (auto simp: loc_of_def split: if_splits)
  have cnt: "hd_elems h l + (hd_elems h k - 1) = of_nat (length (xs @ n # ms @ ys))" using wf(6) wk(6) by simp
  have f: "nd_next h' = (nd_next ?w)(n := nd_next ?w m)" "nd_info h' = (nd_info h)(n := nd_info h m)"
    "hd_first h' = hd_first h" "fresh h' = fresh h" "hd_elems h' l = of_nat (length (xs @ n # ms @ ys))"
    "hd_last h' l = (if ys = [] \<and> ms \<noteq> [] then loc_of k (m # ms) else hd_last h l)"
    using assms(3,6,7) fk wm wk(5,6) gt lastn cnt
    by (auto simp: h'_def it_replace_list_def bl_is_empty_def heap_simps Let_def simp del: of_nat_Suc list.size)
  have last: "hd_last h' l = loc_of l (xs @ n # ms @ ys)" using wf(5) by (auto simp: f loc_of_def)
  obtain s: "seg h (hd_first h l) xs n" "seg h (nd_next h n) ys END" using wf(1) by (auto simp: seg_append)
  have "seg ?w (hd_first ?w k) (m # ms) (nd_next h n)" by (rule seg_wr_loc_of[OF wk(1,2)])
  then have sm: "seg ?w (nd_next ?w m) ms (nd_next h n)" by simp
  have other: "seg h' p zs q = seg h p zs q" if "n \<notin> set zs" "set zs \<inter> set (m # ms) = {}" for p zs q
    using that by (intro seg_cong) (auto simp: f heap_simps loc_of_def)
  have "seg h' (nd_next ?w m) ms (nd_next h n)"
    using sm fk by (subst seg_cong[of ms h' ?w]) (auto simp: f)
  moreover have "seg h' (hd_first h' l) xs n" "seg h' (nd_next h n) ys END"
    using s wf(2) assms(4) by (subst other; force simp: f)+
  ultimately have "seg h' (hd_first h' l) (xs @ n # ms @ ys) END" by (auto simp: seg_append f)
  moreover have "sentinel_ok h'" using wf(4,8) wk(8) by (auto simp: f sentinel_ok_def heap_simps loc_of_def dest: last_in_set)
  ultimately show "lst h' l (xs @ n # ms @ ys)"
    using last wf(2,3) wk(2,3) assms(4) by (auto simp: lst_def nodes_ok_def f(4,5))
  have "infos h' zs = infos h zs" if "n \<notin> set zs" for zs using that by (intro infos_cong) (auto simp: f)
  then show "infos h' (xs @ n # ms @ ys) = infos h xs @ infos h (m # ms) @ infos h ys"
    using wf(2) fk by (auto simp: f)
  show "fst (it_replace_list it k h) = nd_info h n" using assms(7) by (simp add: it_replace_list_def Let_def)
qed

section \<open>Properties\<close>

text \<open>When the allocation of the node fails, \<open>push_back\<close> returns an error but has already stored the
  null pointer in the link of the last node: \<open>elements\<close> is unchanged, yet the list no
  longer ends in \<open>end_of_list\<close> and is not well-formed for any sequence of nodes.\<close>

lemma push_back_out_of_memory:
  assumes "lst h l ns" "room h = 0"
  shows "\<exists>h'. bl_push_back l i h = (True, h') \<and> hd_elems h' l = hd_elems h l \<and> rd h' (hd_last h' l) = NULL \<and> (\<forall>ms. \<not> lst h' l ms)"
proof -
  note wf = lst_D[OF assms(1)]
  define h' where "h' = wr (loc_of l ns) NULL h"
  have res: "bl_push_back l i h = (True, h')"
    using assms(2) wf(5) by (simp add: bl_push_back_def new_list_node_def h'_def)
  have rd: "rd h' (hd_last h' l) = NULL" using wf(5) by (simp add: h'_def heap_simps)
  have "\<not> lst h' l ms" for ms
  proof
    assume ms: "lst h' l ms"
    have "rd h' (loc_of l ms) = END" by (rule rd_loc_of[OF lst_D(1)[OF ms]])
    then show False using rd lst_D(5)[OF ms] by (simp add: NULL_def END_def)
  qed
  then show ?thesis using res rd by (auto simp: h'_def heap_simps)
qed

text \<open>\<open>after\<close> does not look at the node it gets at all.\<close>

lemma seg_to_NULL: "seg h p xs NULL \<Longrightarrow> END \<notin> set xs \<Longrightarrow> NULL \<notin> set ms \<Longrightarrow> \<not> seg h p ms END"
proof (induction xs arbitrary: p ms)
  case Nil
  then show ?case by (cases ms) (auto simp: NULL_def END_def)
next
  case (Cons x xs)
  then show ?case by (cases ms) auto
qed

lemma after_out_of_memory:
  assumes "lst h l (xs @ n # ys)" "room h = 0"
  shows "nd_next (bl_after l i n h) n = NULL" "\<not> lst (bl_after l i n h) l ms"
proof -
  note wf = lst_D [OF assms(1)]
  have f: "nd_next (bl_after l i n h) = (nd_next h)(n := NULL)" "hd_first (bl_after l i n h) = hd_first h"
    using assms(2) by (simp_all add: bl_after_def new_list_node_def heap_simps Let_def)
  then show "nd_next (bl_after l i n h) n = NULL" by simp
  have "seg h (hd_first h l) xs n" using wf(1) by (auto simp: seg_append)
  then have "seg (bl_after l i n h) (hd_first h l) xs n"
    by (subst seg_cong [of _ _ h]) (use wf(2) in \<open>auto simp: f\<close>)
  then have "seg (bl_after l i n h) (hd_first h l) (xs @ [n]) NULL" by (auto simp: seg_append f)
  from seg_to_NULL [OF this, of ms] show "\<not> lst (bl_after l i n h) l ms" 
    using wf(8) lst_D(1) [of "bl_after l i n h" l ms] lst_D(9) [of "bl_after l i n h" l ms] by (auto simp: f)
qed

lemma push_front_out_of_memory: "room h = 0 \<Longrightarrow> bl_push_front l i h = (True, h)"
  by (simp add: bl_push_front_def bl_push_front_impl_def new_list_node_def)

text \<open>C7. The operations of \<open>base_list\<close> on every well-formed list, the empty one included. When a node can be allocated, pushing at either end and inserting after a node give a
  well-formed list (links, sentinel, \<open>last\<close> pointer and \<open>elements\<close> in step) whose elements are those of the operation on sequences; removing the node a location points to
  and popping the first element do so always, and \<open>pop\<close> of an empty list returns the null pointer and changes nothing. When no node can be allocated \<open>push_front\<close>
  returns an error and changes nothing; \<open>push_back\<close> returns an error, but it and \<open>after\<close>, which reports nothing, have stored the null pointer as a link, and the list is
  not well-formed for any sequence of nodes.
\<close>

theorem base_list_ops:
  assumes "lst h l ns" "length ns < 2 ^ 32"
  shows "(if room h = 0
      then (\<exists>h'. bl_push_back l i h = (True, h') \<and> hd_elems h' l = hd_elems h l \<and> rd h' (hd_last h' l) = NULL \<and> (\<forall>ms. \<not> lst h' l ms)) \<and>
        bl_push_front l i h = (True, h)
      else (\<exists>h'. bl_push_back l i h = (False, h') \<and> lst h' l (ns @ [fresh h]) \<and> infos h' (ns @ [fresh h]) = infos h ns @ [i]) \<and>
        (\<exists>h'. bl_push_front l i h = (False, h') \<and> lst h' l (fresh h # ns) \<and> infos h' (fresh h # ns) = i # infos h ns)) \<and>
     (case ns of [] \<Rightarrow> bl_pop l h = (NULL, h)
      | n # ms \<Rightarrow> \<exists>h'. bl_pop l h = (nd_info h n, h') \<and> lst h' l ms \<and> infos h' ms = infos h ms) \<and>
     (\<forall>xs n ys. ns = xs @ n # ys \<longrightarrow>
        lst (bl_remove l (loc_of l xs) h) l (xs @ ys) \<and> infos (bl_remove l (loc_of l xs) h) (xs @ ys) = infos h (xs @ ys) \<and>
        (if room h = 0 then nd_next (bl_after l i n h) n = NULL \<and> (\<forall>ms. \<not> lst (bl_after l i n h) l ms)
         else lst (bl_after l i n h) l (xs @ n # fresh h # ys) \<and> infos (bl_after l i n h) (xs @ n # fresh h # ys) = infos h (xs @ [n]) @ i # infos h ys))"
    (is "?push \<and> ?pop \<and> ?inner")
proof (intro conjI)
  show ?push
    using push_back_lst [OF assms(1), of i] push_front_lst [OF assms(1), of i] push_back_out_of_memory [OF assms(1), of i] push_front_out_of_memory [of h l i]
    by (cases "room h = 0") auto
  show ?pop using pop_empty [of h l] pop_lst [of h l] assms by (cases ns) auto
  show ?inner
  proof (intro allI impI)
    fix xs n ys
    assume ns: "ns = xs @ n # ys"
    note a = assms [unfolded ns]
    show "lst (bl_remove l (loc_of l xs) h) l (xs @ ys) \<and> infos (bl_remove l (loc_of l xs) h) (xs @ ys) = infos h (xs @ ys) \<and>
        (if room h = 0 then nd_next (bl_after l i n h) n = NULL \<and> (\<forall>ms. \<not> lst (bl_after l i n h) l ms)
         else lst (bl_after l i n h) l (xs @ n # fresh h # ys) \<and> infos (bl_after l i n h) (xs @ n # fresh h # ys) = infos h (xs @ [n]) @ i # infos h ys)"
      using remove_lst [OF a] after_lst(1,2) [OF a(1), of i] after_out_of_memory [OF a(1), of i] by (cases "room h = 0") simp_all
  qed
qed

text \<open>A concrete heap: two lists, 0 with the nodes 2, 3, 4 and 1 with the nodes 5, 6; the objects are
  ten times the node.\<close>

definition demo_heap :: heap where
  "demo_heap = \<lparr>nd_next = (\<lambda>_. 0)(END := END, 2 := 3, 3 := 4, 4 := END, 5 := 6, 6 := END),
     nd_info = (\<lambda>n. if n = END then NULL else 10 * n),
     hd_first = (\<lambda>_. END)(0 := 2, 1 := 5), hd_last = First(0 := Next 4, 1 := Next 6),
     hd_elems = (\<lambda>_. 0)(0 := 3, 1 := 2), fresh = 7, room = 5\<rparr>"

lemma demo_lists: "lst demo_heap 0 [2, 3, 4]" "lst demo_heap 1 [5, 6]" "lst demo_heap 2 []"
  by code_simp+

lemma demo_values [simp]: "room demo_heap = 5" "fresh demo_heap = 7" "infos demo_heap [2, 3, 4] = [20, 30, 40]"
  "infos demo_heap [5, 6] = [50, 60]"
  by code_simp+

lemma demo_small: "length [2, 3, 4 :: nat] < 2 ^ 32" by simp

theorem base_list_ops_witness:
  "infos (bl_remove 0 (Next 2) demo_heap) [2, 4] = [20, 40] \<and>
   (\<exists>h'. bl_push_front 2 99 demo_heap = (False, h') \<and> lst h' 2 [7]) \<and>
   (\<exists>h'. bl_push_back 0 99 (demo_heap\<lparr>room := 0\<rparr>) = (True, h') \<and> (\<forall>ms. \<not> lst h' 0 ms))"
proof -
  have "infos (bl_remove 0 (loc_of 0 [2]) demo_heap) ([2] @ [4]) = infos demo_heap ([2] @ [4])"
    using base_list_ops [OF demo_lists(1) demo_small, THEN conjunct2, THEN conjunct2, rule_format, of "[2]" 3 "[4]"] by simp
  then have r: "infos (bl_remove 0 (Next 2) demo_heap) [2, 4] = [20, 40]" by (simp add: loc_of_def demo_heap_def END_def)
  have "lst (demo_heap\<lparr>room := 0\<rparr>) 0 [2, 3, 4]" by code_simp
  then show ?thesis
    using r base_list_ops [OF demo_lists(3), of 99] base_list_ops [of "demo_heap\<lparr>room := 0\<rparr>" 0 "[2, 3, 4]" 99] by auto
qed

text \<open>Joining and splitting lists: \<open>append\<close> and \<open>prepend\<close> concatenate two disjoint lists, \<open>swap\<close>
  exchanges two lists, and \<open>disjoin\<close> undoes \<open>append\<close>: it removes from a list the tail it
  shares with another and ends after at most one step per node. No object is changed.\<close>

theorem base_list_join_split:
  assumes "lst h l ns" "lst h k ms" "l \<noteq> k" "set ns \<inter> set ms = {}" "length ms < 2 ^ 32" "length ns < fuel"
  shows "lst (bl_append l k h) l (ns @ ms) \<and> nd_info (bl_append l k h) = nd_info h \<and>
     lst (bl_prepend l k h) l (ms @ ns) \<and> nd_info (bl_prepend l k h) = nd_info h \<and>
     lst (bl_swap l k h) l ms \<and> lst (bl_swap l k h) k ns \<and> nd_info (bl_swap l k h) = nd_info h \<and>
     (\<exists>h'. bl_disjoin fuel l k (bl_append l k h) = Some h' \<and> lst h' l ns \<and> lst h' k ms \<and> nd_info h' = nd_info h)"
proof -
  note app = append_lst[OF assms(1-5)]
  from disjoin_lst[OF app(1,2) assms(3,6)] show ?thesis
    using app prepend_lst[OF assms(1-4)] swap_lst[OF assms(1-3)] by auto
qed

theorem base_list_join_split_witness:
  "lst (bl_append 0 1 demo_heap) 0 [2, 3, 4, 5, 6] \<and>
   (\<exists>h'. bl_disjoin 4 0 1 (bl_append 0 1 demo_heap) = Some h' \<and> lst h' 0 [2, 3, 4])"
  using base_list_join_split[OF demo_lists(1,2), of 4] by auto

text \<open>Walking a list with \<open>base_list_iterator\<close> while removing, replacing or inserting after the
  current element visits every element exactly once, in order and not the inserted ones,
  ends, and leaves a well-formed list with exactly the edited sequence.\<close>

theorem list_iterator_edit:
  assumes "lst h l ns" "length ns + inserts f (infos h ns) < 2 ^ 32" "inserts f (infos h ns) \<le> room h"
    "NULL \<notin> set (infos h ns)"
  shows "\<exists>h' zs. edit_all (Suc (length ns)) f (list_it_init l) h = Some h' \<and> lst h' l zs \<and>
    infos h' zs = concat (map (edit_result f) (infos h ns))"
  using edit_all_spec[of h l "[]" ns f "list_it_init l" "Suc (length ns)"] assms by (auto simp: list_it_init_def)

theorem list_iterator_edit_witness:
  "\<exists>h' zs. edit_all 4 (\<lambda>v. if v = 20 then Remove else if v = 30 then After 31 else Replace 41) (list_it_init 0) demo_heap = Some h' \<and>
     lst h' 0 zs \<and> infos h' zs = [30, 31, 41]"
proof -
  let ?f = "\<lambda>v :: nat. if v = 20 then Remove else if v = 30 then After 31 else Replace 41"
  have "inserts ?f [20, 30, 40] = 1" by (simp add: inserts_def)
  moreover have "Suc (length [2, 3, 4 :: nat]) = 4" by simp
  moreover have "concat (map (edit_result ?f) [20, 30, 40]) = [30, 31, 41]" by simp
  moreover have "length [2, 3, 4 :: nat] + 1 < 2 ^ 32" "NULL \<notin> set [20, 30, 40]" by (simp_all add: NULL_def)
  ultimately show ?thesis using list_iterator_edit[OF demo_lists(1), of ?f] unfolding demo_values by (simp only:) simp
qed

text \<open>\<open>replace(list)\<close> substitutes a whole non-empty list for the current element and returns the old
  object.\<close>

theorem list_iterator_replace_list:
  assumes "lst h l (xs @ n # ys)" "lst h k (m # ms)" "l \<noteq> k" "set (xs @ n # ys) \<inter> set (m # ms) = {}"
    "length (m # ms) < 2 ^ 32" "it_list it = l" "current it = n"
  shows "\<exists>h'. it_replace_list it k h = (nd_info h n, h') \<and> lst h' l (xs @ n # ms @ ys) \<and>
    infos h' (xs @ n # ms @ ys) = infos h xs @ infos h (m # ms) @ infos h ys"
  using replace_list_lst[OF assms] by (metis prod.collapse)

theorem list_iterator_replace_list_witness:
  "\<exists>h'. it_replace_list (snd (it_next (list_it_init 0) demo_heap)) 1 demo_heap = (20, h') \<and> infos h' [2, 6, 3, 4] = [50, 60, 30, 40]"
proof -
  let ?it = "snd (it_next (list_it_init 0) demo_heap)"
  have "lst demo_heap 0 ([] @ 2 # [3, 4])" "it_list ?it = 0" "current ?it = 2" "infos demo_heap [3, 4] = [30, 40]"
    "nd_info demo_heap 2 = 20" "nd_info demo_heap 5 = 50" "nd_info demo_heap 6 = 60"
    using demo_lists(1) by (simp_all add: it_next_def list_it_init_def demo_heap_def heap_simps END_def)
  then show ?thesis
    using list_iterator_replace_list[of demo_heap 0 "[]" 2 "[3, 4]" 1 5 "[6]" ?it] demo_lists(2) by auto
qed

text \<open>\<open>elem\<close> returns the n-th object or the null pointer past the end; \<open>add_unique\<close> ends, and appends
  exactly when no element is equal to the new one; \<open>check_list\<close> accepts every well-formed
  non-empty list whose elements but the last are non-null, and rejects every empty list,
  well-formed as it is.\<close>

theorem base_list_search:
  assumes "lst h l ns" "length ns < fuel"
  shows "bl_elem h l k = (if k < length ns then nd_info h (ns ! k) else NULL) \<and>
    bl_add_unique fuel l i eq h = Some (if \<exists>v \<in> set (infos h ns). eq v i then (True, h) else bl_push_back l i h) \<and>
    (ns \<noteq> [] \<and> (\<forall>v \<in> set (infos h (butlast ns)). v \<noteq> NULL) \<longrightarrow> bl_check_list fuel l h = Some True) \<and>
    (ns = [] \<longrightarrow> bl_check_list fuel l h = Some False)"
proof (intro conjI impI)
  note wf = lst_D[OF assms(1)]
  have ok: "nodes_ok h ns" using assms(1) by (simp add: lst_def)
  show "bl_elem h l k = (if k < length ns then nd_info h (ns ! k) else NULL)"
    unfolding bl_elem_def by (rule elem_loop_spec[OF wf(1) ok])
  show "bl_add_unique fuel l i eq h = Some (if \<exists>v \<in> set (infos h ns). eq v i then (True, h) else bl_push_back l i h)"
  proof -
    obtain r where "add_unique_search fuel eq i (hd_first h l) h = Some r" "r = END \<longleftrightarrow> \<not> (\<exists>v \<in> set (infos h ns). eq v i)"
      using add_unique_search_spec[OF wf(1) ok assms(2), of eq i] by blast
    then show ?thesis by (cases "r = END") (simp_all add: bl_add_unique_def)
  qed
  show "bl_check_list fuel l h = Some True" if "ns \<noteq> [] \<and> (\<forall>v \<in> set (infos h (butlast ns)). v \<noteq> NULL)"
  proof -
    have "ns \<noteq> []" using that by (rule conjunct1)
    then obtain ms m where ms: "ns = ms @ [m]" by (cases ns rule: rev_cases) auto
    then have "check_list_loop fuel (hd_first h l) 0 h = Some (Inr (m, 0 + of_nat (length ms)))"
      using wf(1) ok that assms(2) by (intro check_list_loop_spec) auto
    then show ?thesis using wf(5,6) ms by (simp add: bl_check_list_def add.commute)
  qed
  show "bl_check_list fuel l h = Some False" if "ns = []"
    using that wf(1,4,5) assms(2) by (cases fuel) (auto simp: bl_check_list_def sentinel_ok_def)
qed

theorem base_list_search_witness:
  "bl_elem demo_heap 0 1 = 30 \<and> bl_check_list 4 0 demo_heap = Some True \<and> bl_add_unique 4 0 30 (=) demo_heap = Some (True, demo_heap)"
proof -
  have "infos demo_heap (butlast [2, 3, 4]) = [20, 30]" "nd_info demo_heap 3 = 30" by code_simp+
  then show ?thesis using base_list_search[OF demo_lists(1), of 4 1 30 "(=)"] by (auto simp: NULL_def)
qed

end
