(* ===== verification/Sql_List_Sort.thy ===== *)
theory Sql_List_Sort
  imports Sql_List
begin

text \<open>
  \<open>bubble_sort\<close> of \<open>sql_list.h\<close>, on the heap of \<open>Sql_List\<close>: it moves the objects, not the nodes. A
  \<open>T **\<close> obtained by \<open>ref()\<close> is the node whose \<open>info\<close> member it points to (0 for the
  null pointer). The loops take fuel: a list of n elements needs at most n passes of at
  most n steps, whatever the comparison function does.
\<close>

section \<open>The loops\<close>

fun bs_inner :: "nat \<Rightarrow> (nat \<Rightarrow> nat \<Rightarrow> int) \<Rightarrow> list_iterator \<Rightarrow> nat \<Rightarrow> nat \<Rightarrow> nat \<Rightarrow> bool \<Rightarrow> heap
    \<Rightarrow> (list_iterator \<times> nat \<times> bool \<times> heap) option" where
  "bs_inner 0 sort_func it item1 ref1 last_ref swap h = None"
| "bs_inner (Suc fuel) sort_func it item1 ref1 last_ref swap h =
     (let (item2, it) = it_next it h
      in if item2 \<noteq> NULL \<and> it_ref it \<noteq> last_ref
         then let ref2 = it_ref it
              in if sort_func item1 item2 > 0
                 then bs_inner fuel sort_func it item1 ref2 last_ref True (set_info ref2 item1 (set_info ref1 item2 h))
                 else bs_inner fuel sort_func it item2 ref2 last_ref swap h
         else Some (it, ref1, swap, h))"

fun bs_outer :: "nat \<Rightarrow> nat \<Rightarrow> (nat \<Rightarrow> nat \<Rightarrow> int) \<Rightarrow> list_iterator \<Rightarrow> nat \<Rightarrow> heap \<Rightarrow> heap option" where
  "bs_outer 0 n sort_func it ref1 h = None"
| "bs_outer (Suc fuel) n sort_func it ref1 h =
     (let last_ref = ref1;
          (item1, it) = it_next it h;
          ref1 = it_ref it
      in case bs_inner n sort_func it item1 ref1 last_ref False h of
           None \<Rightarrow> None
         | Some (it, ref1, swap, h) \<Rightarrow>
             (let it = it_rewind it in if swap then bs_outer fuel n sort_func it ref1 h else Some h))"

definition bubble_sort :: "nat \<Rightarrow> (nat \<Rightarrow> nat \<Rightarrow> int) \<Rightarrow> nat \<Rightarrow> heap \<Rightarrow> heap option" where
  "bubble_sort fuel sort_func list_to_sort h = bs_outer fuel fuel sort_func (list_it_init list_to_sort) NULL h"

section \<open>One pass over a sequence\<close>

fun bpass :: "(nat \<Rightarrow> nat \<Rightarrow> int) \<Rightarrow> nat \<Rightarrow> nat list \<Rightarrow> nat list \<times> bool" where
  "bpass f x [] = ([x], False)"
| "bpass f x (y # ys) =
     (if f x y > 0 then (y # fst (bpass f x ys), True)
      else (x # fst (bpass f y ys), snd (bpass f y ys)))"

definition preorder_on_values :: "(nat \<Rightarrow> nat \<Rightarrow> int) \<Rightarrow> nat set \<Rightarrow> bool" where
  "preorder_on_values f V \<longleftrightarrow> (\<forall>a \<in> V. \<forall>b \<in> V. f a b > 0 \<longrightarrow> f b a \<le> 0) \<and>
     (\<forall>a \<in> V. \<forall>b \<in> V. \<forall>c \<in> V. f a b \<le> 0 \<and> f b c \<le> 0 \<longrightarrow> f a c \<le> 0)"

abbreviation le_by :: "(nat \<Rightarrow> nat \<Rightarrow> int) \<Rightarrow> nat \<Rightarrow> nat \<Rightarrow> bool" where
  "le_by f a b \<equiv> f a b \<le> 0"

lemma preorder_flip: "preorder_on_values f V \<Longrightarrow> a \<in> V \<Longrightarrow> b \<in> V \<Longrightarrow> 0 < f a b \<Longrightarrow> le_by f b a"
  unfolding preorder_on_values_def by blast

lemma preorder_trans:
  "preorder_on_values f V \<Longrightarrow> a \<in> V \<Longrightarrow> b \<in> V \<Longrightarrow> c \<in> V \<Longrightarrow> le_by f a b \<Longrightarrow> le_by f b c \<Longrightarrow> le_by f a c"
  unfolding preorder_on_values_def by blast

lemma preorder_refl: "preorder_on_values f V \<Longrightarrow> a \<in> V \<Longrightarrow> le_by f a a"
  using preorder_flip[of f V a a] by linarith

lemma bpass_mset: "mset (fst (bpass f x ys)) = mset (x # ys)"
  by (induction ys arbitrary: x) auto

lemma bpass_length: "length (fst (bpass f x ys)) = Suc (length ys)"
  using bpass_mset[of f x ys, THEN arg_cong[of _ _ size]] by simp

lemma bpass_set: "set (fst (bpass f x ys)) = insert x (set ys)"
  using bpass_mset[of f x ys, THEN arg_cong[of _ _ set_mset]] by simp

lemma bpass_not_Nil: "fst (bpass f x ys) \<noteq> []"
  using bpass_length[of f x ys] by auto

lemma bpass_max:
  assumes "preorder_on_values f V" "insert x (set ys) \<subseteq> V" "v \<in> insert x (set ys)"
  shows "le_by f v (last (fst (bpass f x ys)))"
  using assms(2,3)
proof (induction ys arbitrary: x v)
  case Nil
  then show ?case using preorder_refl[OF assms(1)] by simp
next
  case (Cons y ys)
  define z where "z = (if f x y > 0 then x else y)"
  have z: "z \<in> V" "le_by f x z" "le_by f y z"
    using Cons.prems(1) preorder_flip[OF assms(1)] preorder_refl[OF assms(1)] by (auto simp: z_def)
  let ?m = "last (fst (bpass f z ys))"
  have m: "last (fst (bpass f x (y # ys))) = ?m" by (auto simp: z_def bpass_not_Nil)
  have zV: "insert z (set ys) \<subseteq> V" using z Cons.prems(1) by auto
  have "?m \<in> insert z (set ys)" using last_in_set[OF bpass_not_Nil] bpass_set by metis
  then have "?m \<in> V" using zV by auto
  moreover have "le_by f z ?m" by (rule Cons.IH[OF zV]) simp
  ultimately have "le_by f w ?m" if "w \<in> V" "le_by f w z" for w
    using preorder_trans[OF assms(1) that(1) z(1)] that(2) by blast
  moreover have "le_by f v ?m" if "v \<in> set ys" using that by (intro Cons.IH[OF zV]) simp
  ultimately show ?case using Cons.prems z m by auto
qed

lemma bpass_no_swap:
  assumes "\<not> snd (bpass f x ys)"
  shows "fst (bpass f x ys) = x # ys \<and> successively (le_by f) (x # ys)"
  using assms by (induction ys arbitrary: x) (auto split: if_splits)

lemma bpass_swap_longer: "snd (bpass f x ys) \<Longrightarrow> ys \<noteq> []"
  by (cases ys) auto

lemma preorder_sorted:
  assumes "preorder_on_values f V" "set xs \<subseteq> V" "successively (le_by f) xs"
  shows "sorted_wrt (le_by f) xs"
  using assms(2,3)
proof (induction xs)
  case (Cons x xs)
  have tl: "sorted_wrt (le_by f) xs" using Cons by (cases xs) auto
  have "le_by f x y" if "y \<in> set xs" for y
  proof (cases xs)
    case (Cons z zs)
    then have "le_by f x z" "z = y \<or> le_by f z y" using Cons.prems(2) tl that by auto
    moreover have "x \<in> V" "z \<in> V" "y \<in> V" using Cons.prems(1) Cons that by auto
    ultimately show ?thesis using preorder_trans[OF assms(1)] by blast
  qed (use that in simp)
  then show ?case using tl by simp
qed simp

section \<open>The heap loops compute the passes\<close>

lemma bs_inner_spec:
  assumes "lst h l (zs @ n # us @ ts)" "NULL \<notin> set (infos h (n # us))" "el it = Next n" "it_list it = l"
    "last_ref = (if ts = [] then NULL else hd ts)" "length us < fuel"
  shows "\<exists>it' h'. bs_inner fuel f it (nd_info h n) n last_ref swap h
      = Some (it', last (n # us), swap \<or> snd (bpass f (nd_info h n) (infos h us)), h') \<and>
    it_list it' = l \<and> lst h' l (zs @ n # us @ ts) \<and>
    infos h' (n # us) = fst (bpass f (nd_info h n) (infos h us)) \<and>
    (\<forall>m. m \<notin> set (n # us) \<longrightarrow> nd_info h' m = nd_info h m)"
  using assms
proof (induction us arbitrary: zs n h it swap fuel)
  case Nil
  obtain k where k: "fuel = Suc k" using Nil.prems(6) by (cases fuel) auto
  have "fst (it_next it h) = NULL \<or> it_ref (snd (it_next it h)) = last_ref"
  proof (cases ts)
    case Nil
    then have "lst h l (zs @ [n])" using \<open>lst h l (zs @ n # [] @ ts)\<close> by simp
    from it_next_end[OF this] show ?thesis using \<open>el it = Next n\<close> by simp
  next
    case (Cons t ts')
    then have "lst h l ((zs @ [n]) @ t # ts')" using \<open>lst h l (zs @ n # [] @ ts)\<close> by simp
    from it_next_at[OF this] show ?thesis using Nil.prems(3,5) Cons by (simp add: it_ref_def)
  qed
  moreover have "it_list (snd (it_next it h)) = l" using Nil.prems(4) by (simp add: it_next_def Let_def)
  ultimately show ?case using k Nil.prems(1) by (auto simp: split_beta)
next
  case (Cons m us)
  obtain k where k: "fuel = Suc k" "length us < k" using Cons.prems(6) by (cases fuel) auto
  let ?it = "it\<lparr>el := Next m, prev := Next n, current := m\<rparr>"
  have l0: "lst h l ((zs @ [n]) @ m # us @ ts)" using Cons.prems(1) by simp
  have "it_next it h = (nd_info h m, ?it)" using it_next_at[OF l0] Cons.prems(3) by simp
  moreover note wf = lst_D[OF Cons.prems(1)]
  have "m \<noteq> last_ref" using wf(2,9) Cons.prems(5) by (cases ts) auto
  moreover have nn: "nd_info h m \<noteq> NULL" using Cons.prems(2) by auto
  ultimately have unf: "bs_inner fuel f it (nd_info h n) n last_ref swap h =
     (if f (nd_info h n) (nd_info h m) > 0
      then bs_inner k f ?it (nd_info h n) m last_ref True (set_info m (nd_info h n) (set_info n (nd_info h m) h))
      else bs_inner k f ?it (nd_info h m) m last_ref swap h)"
    by (simp add: k it_ref_def)
  show ?case
  proof (cases "f (nd_info h n) (nd_info h m) > 0")
    case True
    let ?h = "set_info m (nd_info h n) (set_info n (nd_info h m) h)"
    have d: "n \<noteq> m" "n \<notin> set us" "m \<notin> set us" "n \<noteq> END" "m \<noteq> END" using wf(2,8) by auto
    have "lst (set_info n (nd_info h m) h) l (zs @ n # (m # us) @ ts)"
      using replace_lst[OF Cons.prems(1), of n "nd_info h m"] d by blast
    from replace_lst[OF this, of m "nd_info h n"] have lh: "lst ?h l ((zs @ [n]) @ m # us @ ts)" using d by simp
    have hm: "nd_info ?h m = nd_info h n" "nd_info ?h n = nd_info h m" using d by (simp_all add: heap_simps)
    have hu: "infos ?h us = infos h us" using d by (intro infos_cong) (auto simp: heap_simps)
    have "NULL \<notin> set (infos ?h (m # us))" using Cons.prems(2) hm hu by simp
    from Cons.IH[OF lh this, of ?it k True, unfolded hm hu] Cons.prems(4,5) k obtain it' h' where
      *: "bs_inner k f ?it (nd_info h n) m last_ref True ?h
          = Some (it', last (m # us), True, h')" "it_list it' = l" "lst h' l ((zs @ [n]) @ m # us @ ts)"
        "infos h' (m # us) = fst (bpass f (nd_info h n) (infos h us))"
        "\<And>p. p \<notin> set (m # us) \<Longrightarrow> nd_info h' p = nd_info ?h p" by auto
    have "nd_info h' n = nd_info h m" using *(5)[of n] d hm by simp
    moreover have "nd_info h' p = nd_info h p" if "p \<notin> set (n # m # us)" for p
      using *(5)[of p] that by (auto simp: heap_simps)
    ultimately show ?thesis using unf True * by simp
  next
    case False
    have "NULL \<notin> set (infos h (m # us))" using Cons.prems(2) by simp
    from Cons.IH[OF l0 this, of ?it k swap] Cons.prems(4,5) k obtain it' h' where
      *: "bs_inner k f ?it (nd_info h m) m last_ref swap h
          = Some (it', last (m # us), swap \<or> snd (bpass f (nd_info h m) (infos h us)), h')" "it_list it' = l"
        "lst h' l ((zs @ [n]) @ m # us @ ts)"
        "infos h' (m # us) = fst (bpass f (nd_info h m) (infos h us))"
        "\<And>p. p \<notin> set (m # us) \<Longrightarrow> nd_info h' p = nd_info h p" by auto
    moreover have "n \<notin> set (m # us)" using wf(2) by auto
    ultimately show ?thesis using unf False by auto
  qed
qed

definition sorted_tail :: "(nat \<Rightarrow> nat \<Rightarrow> int) \<Rightarrow> nat list \<Rightarrow> nat list \<Rightarrow> bool" where
  "sorted_tail f us ts \<longleftrightarrow> sorted_wrt (le_by f) ts \<and> (\<forall>u \<in> set us. \<forall>t \<in> set ts. le_by f u t)"

lemma bs_outer_spec:
  assumes "lst h l (us @ ts)" "NULL \<notin> set (infos h (us @ ts))" "us \<noteq> []" "el it = First l" "it_list it = l"
    "ref1 = (if ts = [] then NULL else hd ts)" "length us \<le> fuel" "length us \<le> k"
  shows "\<exists>h'. bs_outer fuel k f it ref1 h = Some h' \<and> lst h' l (us @ ts) \<and>
    mset (infos h' (us @ ts)) = mset (infos h (us @ ts)) \<and>
    (preorder_on_values f (set (infos h (us @ ts))) \<and> sorted_tail f (infos h us) (infos h ts)
       \<longrightarrow> sorted_wrt (le_by f) (infos h' (us @ ts)))"
  using assms
proof (induction "length us" arbitrary: us ts h it ref1 fuel)
  case 0
  then show ?case by simp
next
  case (Suc len)
  obtain n vs where us: "us = n # vs" using Suc.prems(3) by (cases us) auto
  obtain g where g: "fuel = Suc g" using Suc.prems(7) us by (cases fuel) auto
  let ?it = "it\<lparr>el := Next n, prev := First l, current := n\<rparr>"
  let ?x = "nd_info h n" and ?V = "set (infos h (us @ ts))"
  have l1: "lst h l ([] @ n # vs @ ts)" using Suc.prems(1) us by simp
  have step: "it_next it h = (?x, ?it)" using it_next_at[OF l1] Suc.prems(4) by simp
  have "NULL \<notin> set (infos h (n # vs))" using Suc.prems(2) us by simp
  from bs_inner_spec[OF l1 this, of ?it ref1 k f False] Suc.prems(5,6,8) us obtain it' h' where
    inner: "bs_inner k f ?it ?x n ref1 False h = Some (it', last us, snd (bpass f ?x (infos h vs)), h')"
      "it_list it' = l" "lst h' l (us @ ts)" "infos h' us = fst (bpass f ?x (infos h vs))"
      "\<And>p. p \<notin> set us \<Longrightarrow> nd_info h' p = nd_info h p" by auto
  have ts: "infos h' ts = infos h ts" using lst_D(2)[OF Suc.prems(1)] inner(5) by (intro infos_cong) auto
  have ms: "mset (infos h' us) = mset (infos h us)" unfolding inner(4) bpass_mset by (simp add: us)
  have setus: "set (infos h' us) = set (infos h us)" using ms by (metis set_mset_mset)
  have outer: "bs_outer fuel k f it ref1 h =
      (if snd (bpass f ?x (infos h vs)) then bs_outer g k f (it_rewind it') (last us) h' else Some h')"
    using step inner(1) by (simp add: g it_ref_def Let_def)
  show ?case
  proof (cases "snd (bpass f ?x (infos h vs))")
    case False
    then have "infos h' us = infos h us" "successively (le_by f) (infos h us)"
      using bpass_no_swap[of f ?x "infos h vs"] inner(4) us by auto
    then have "sorted_wrt (le_by f) (infos h us)" if "preorder_on_values f ?V"
      using preorder_sorted[OF that, of "infos h us"] by simp
    then show ?thesis using outer False inner(3) ts \<open>infos h' us = infos h us\<close>
      by (auto simp: sorted_wrt_append sorted_tail_def)
  next
    case True
    then have vs: "vs \<noteq> []" using bpass_swap_longer by fastforce
    let ?us = "butlast us" and ?ts = "last us # ts"
    have split: "us @ ts = ?us @ ?ts" using us by simp
    have ne: "?us \<noteq> []" using vs us by simp
    have nul: "NULL \<notin> set (infos h' (?us @ ?ts))"
      using Suc.prems(2) setus ts unfolding split[symmetric] by simp
    have l2: "lst h' l (?us @ ?ts)" using inner(3) split by simp
    have len: "len = length ?us" "length ?us \<le> g" "length ?us \<le> k" using Suc.hyps(2) Suc.prems(7,8) g by simp_all
    have rw: "el (it_rewind it') = First l" "it_list (it_rewind it') = l" "last us = (if ?ts = [] then NULL else hd ?ts)"
      using inner(2) by (simp_all add: it_rewind_def)
    obtain h2 where
      h2: "bs_outer g k f (it_rewind it') (last us) h' = Some h2" "lst h2 l (us @ ts)"
        "mset (infos h2 (us @ ts)) = mset (infos h' (us @ ts))"
        "preorder_on_values f (set (infos h' (us @ ts))) \<and> sorted_tail f (infos h' ?us) (infos h' ?ts)
          \<longrightarrow> sorted_wrt (le_by f) (infos h2 (us @ ts))"
      using Suc.hyps(1)[OF len(1) l2 nul ne rw len(2,3), folded split] by blast
    have "sorted_tail f (infos h' ?us) (infos h' ?ts)" if pre: "preorder_on_values f ?V" and srt: "sorted_tail f (infos h us) (infos h ts)"
    proof -
      have "infos h' us = infos h' ?us @ [nd_info h' (last us)]" using us by (metis append_butlast_last_id infos_simps(1-3) list.distinct(1))
      moreover have "le_by f v (last (infos h' us))" if "v \<in> set (infos h' us)" for v
        using that bpass_max[OF pre, of ?x "infos h vs" v] unfolding inner(4) bpass_set by (auto simp: us)
      ultimately show ?thesis using srt setus ts by (auto simp: sorted_tail_def)
    qed
    moreover have "set (infos h' (us @ ts)) = ?V" using setus ts by simp
    ultimately have "preorder_on_values f ?V \<and> sorted_tail f (infos h us) (infos h ts) \<longrightarrow> sorted_wrt (le_by f) (infos h2 (us @ ts))"
      using h2(4) by simp
    moreover have "mset (infos h2 (us @ ts)) = mset (infos h (us @ ts))" using h2(3) ms ts by simp
    ultimately show ?thesis using outer True h2(1,2) by auto
  qed
qed

section \<open>Properties\<close>

text \<open>C10. \<open>bubble_sort\<close> ends on every list of non-null objects after at most one pass per element,
  whatever the comparison function returns; it keeps the nodes and their links and permutes
  the objects, and when the comparison function is a total preorder on the objects of
  the list they end up in its order.\<close>

theorem bubble_sort_correct:
  assumes "lst h l ns" "NULL \<notin> set (infos h ns)" "length ns < fuel"
  shows "\<exists>h'. bubble_sort fuel f l h = Some h' \<and> lst h' l ns \<and> mset (infos h' ns) = mset (infos h ns) \<and>
    (preorder_on_values f (set (infos h ns)) \<longrightarrow> sorted_wrt (le_by f) (infos h' ns))"
proof (cases "ns = []")
  case True
  then obtain g where "fuel = Suc g" using assms(3) by (cases fuel) auto
  moreover have "it_next (list_it_init l) h = (NULL, \<lparr>it_list = l, el = Next END, prev = First l, current = END\<rparr>)"
    using it_next_end[of h l "[]" "list_it_init l"] assms(1) True by (simp add: list_it_init_def)
  moreover have "nd_next h END = END" "nd_info h END = NULL" using lst_D(4)[OF assms(1)] by (auto simp: sentinel_ok_def)
  ultimately show ?thesis using assms(1) True
    by (simp add: bubble_sort_def it_ref_def it_next_def heap_simps Let_def)
next
  case False
  then show ?thesis
    using bs_outer_spec[of h l ns "[]" "list_it_init l" NULL fuel fuel f] assms
    by (auto simp: bubble_sort_def list_it_init_def sorted_tail_def)
qed

theorem bubble_sort_correct_witness:
  "\<exists>h'. bubble_sort 4 (\<lambda>a b. int b - int a) 0 demo_heap = Some h' \<and> lst h' 0 [2, 3, 4] \<and>
     mset (infos h' [2, 3, 4]) = {#20, 30, 40#} \<and> sorted_wrt (\<ge>) (infos h' [2, 3, 4])"
proof -
  let ?f = "\<lambda>a b. int b - int a"
  have "preorder_on_values ?f V" for V by (auto simp: preorder_on_values_def)
  moreover have "sorted_wrt (le_by ?f) xs = sorted_wrt (\<ge>) xs" for xs by (simp add: not_less)
  ultimately show ?thesis using bubble_sort_correct[OF demo_lists(1), of 4 ?f]
    by (auto simp only: demo_values) (simp_all add: NULL_def)
qed

end
