(* ===== verification/Intrusive_List.thy ===== *)
theory Intrusive_List
  imports Prelude
begin

text \<open>
  The heap of the intrusive lists of \<open>sql_list.h\<close> and \<open>sql_plist.h\<close> and the contract they and
  the list of \<open>ilist.h\<close> share. The elements themselves carry the links: an element is an
  address (0 is the null pointer), a list is the address of its head, a pointer to a
  pointer is a \<open>link\<close>, the \<open>first\<close> member of a head or the \<open>next\<close> member of an element.
\<close>

section \<open>The heap\<close>

datatype link = FirstOf nat | NextOf nat

record lheap =
  l_next :: "nat \<Rightarrow> nat"
  l_prev :: "nat \<Rightarrow> link option"
  l_first :: "nat \<Rightarrow> nat"
  l_last :: "nat \<Rightarrow> link"
  l_count :: "nat \<Rightarrow> uint"

definition get_link :: "lheap \<Rightarrow> link \<Rightarrow> nat" where
  "get_link h p = (case p of FirstOf l \<Rightarrow> l_first h l | NextOf n \<Rightarrow> l_next h n)"

definition set_link :: "link \<Rightarrow> nat \<Rightarrow> lheap \<Rightarrow> lheap" where
  "set_link p v h = (case p of FirstOf l \<Rightarrow> h\<lparr>l_first := (l_first h)(l := v)\<rparr> | NextOf n \<Rightarrow> h\<lparr>l_next := (l_next h)(n := v)\<rparr>)"

definition set_prev :: "nat \<Rightarrow> link option \<Rightarrow> lheap \<Rightarrow> lheap" where
  "set_prev n p h = h\<lparr>l_prev := (l_prev h)(n := p)\<rparr>"

definition set_tail :: "nat \<Rightarrow> link \<Rightarrow> lheap \<Rightarrow> lheap" where
  "set_tail l p h = h\<lparr>l_last := (l_last h)(l := p)\<rparr>"

definition set_count :: "nat \<Rightarrow> uint \<Rightarrow> lheap \<Rightarrow> lheap" where
  "set_count l c h = h\<lparr>l_count := (l_count h)(l := c)\<rparr>"

lemma lheap_upds [heap_simps]:
  "l_next (set_link (FirstOf l) v h) = l_next h" "l_first (set_link (FirstOf l) v h) = (l_first h)(l := v)"
  "l_next (set_link (NextOf n) v h) = (l_next h)(n := v)" "l_first (set_link (NextOf n) v h) = l_first h"
  "l_prev (set_link p v h) = l_prev h" "l_last (set_link p v h) = l_last h" "l_count (set_link p v h) = l_count h"
  "l_next (set_prev n q h) = l_next h" "l_first (set_prev n q h) = l_first h" "l_prev (set_prev n q h) = (l_prev h)(n := q)"
  "l_last (set_prev n q h) = l_last h" "l_count (set_prev n q h) = l_count h"
  "l_next (set_tail l p h) = l_next h" "l_first (set_tail l p h) = l_first h" "l_prev (set_tail l p h) = l_prev h"
  "l_last (set_tail l p h) = (l_last h)(l := p)" "l_count (set_tail l p h) = l_count h"
  "l_next (set_count l c h) = l_next h" "l_first (set_count l c h) = l_first h" "l_prev (set_count l c h) = l_prev h"
  "l_last (set_count l c h) = l_last h" "l_count (set_count l c h) = (l_count h)(l := c)"
  by (auto simp: set_link_def set_prev_def set_tail_def set_count_def split: link.split)

lemma get_link_simps [heap_simps]:
  "get_link h (FirstOf l) = l_first h l" "get_link h (NextOf n) = l_next h n"
  "get_link (set_link p v h) q = (if p = q then v else get_link h q)"
  "get_link (set_prev n pr h) q = get_link h q" "get_link (set_tail l r h) q = get_link h q"
  "get_link (set_count l c h) q = get_link h q"
  by (auto simp: get_link_def set_link_def set_prev_def set_tail_def set_count_def split: link.split)

section \<open>Chains of links\<close>

definition end_link :: "link \<Rightarrow> nat list \<Rightarrow> link" where
  "end_link p xs = (if xs = [] then p else NextOf (last xs))"

lemma end_link_simps [simp]: "end_link p [] = p" "end_link p (xs @ [x]) = NextOf x" "end_link p (x # xs) = end_link (NextOf x) xs"
  by (simp_all add: end_link_def)

lemma end_link_append: "end_link p (xs @ ys) = end_link (end_link p xs) ys"
  by (simp add: end_link_def)

lemma end_link_nonempty: "xs \<noteq> [] \<Longrightarrow> end_link p xs = end_link q xs"
  by (simp add: end_link_def)

text \<open>The links from \<open>p\<close> on lead through \<open>xs\<close> to \<open>q\<close>; in a doubly linked chain every element also
  points back at the link that leads to it.\<close>

fun chain :: "lheap \<Rightarrow> link \<Rightarrow> nat list \<Rightarrow> nat \<Rightarrow> bool" where
  "chain h p [] q \<longleftrightarrow> get_link h p = q"
| "chain h p (x # xs) q \<longleftrightarrow> get_link h p = x \<and> chain h (NextOf x) xs q"

fun backs :: "lheap \<Rightarrow> link \<Rightarrow> nat list \<Rightarrow> bool" where
  "backs h p [] \<longleftrightarrow> True"
| "backs h p (x # xs) \<longleftrightarrow> l_prev h x = Some p \<and> backs h (NextOf x) xs"

lemma chain_append: "chain h p (xs @ y # ys) q \<longleftrightarrow> chain h p xs y \<and> chain h (NextOf y) ys q"
  by (induction xs arbitrary: p) auto

lemma chain_append_end:
  "chain h p (xs @ ys) q \<longleftrightarrow> chain h p xs (hd (ys @ [q])) \<and> chain h (end_link p xs) ys q"
proof (induction xs arbitrary: p)
  case Nil
  then show ?case by (cases ys) auto
qed (auto simp: end_link_def)

lemma backs_append: "backs h p (xs @ ys) \<longleftrightarrow> backs h p xs \<and> backs h (end_link p xs) ys"
  by (induction xs arbitrary: p) (auto simp: end_link_def)

lemma chain_cong:
  "get_link h p = get_link h' p \<Longrightarrow> (\<And>x. x \<in> set xs \<Longrightarrow> l_next h x = l_next h' x) \<Longrightarrow> chain h p xs q = chain h' p xs q"
  by (induction xs arbitrary: p) (auto simp: heap_simps)

lemma backs_cong: "(\<And>x. x \<in> set xs \<Longrightarrow> l_prev h x = l_prev h' x) \<Longrightarrow> backs h p xs = backs h' p xs"
  by (induction xs arbitrary: p) auto

lemma chain_end: "chain h p xs q \<Longrightarrow> get_link h (end_link p xs) = q"
  by (induction xs arbitrary: p) (auto simp: end_link_def)

lemma chain_det: "chain h p xs q \<Longrightarrow> chain h p xs q' \<Longrightarrow> q = q'"
  by (induction xs arbitrary: p) auto

lemma chain_set_other:
  "r \<noteq> p \<Longrightarrow> r \<notin> NextOf ` set xs \<Longrightarrow> chain (set_link r v h) p xs q = chain h p xs q"
  by (induction xs arbitrary: p) (auto simp: heap_simps)

lemma chain_set_end:
  "chain h p xs q \<Longrightarrow> distinct xs \<Longrightarrow> p \<notin> NextOf ` set xs \<Longrightarrow> chain (set_link (end_link p xs) v h) p xs v"
proof (induction xs arbitrary: p)
  case (Cons x xs)
  have "end_link (NextOf x) xs \<noteq> p"
    using Cons.prems(3) by (auto simp: end_link_def)
  then show ?case using Cons by (auto simp: heap_simps)
qed (simp add: heap_simps)

lemma end_link_in: "end_link (FirstOf l) xs = NextOf x \<Longrightarrow> x \<in> set xs"
  by (auto simp: end_link_def split: if_splits)

lemma set_end_link_frame:
  assumes "l \<noteq> k"
  shows "l_first (set_link (end_link (FirstOf l) xs) v h) k = l_first h k"
    "x \<notin> set xs \<Longrightarrow> l_next (set_link (end_link (FirstOf l) xs) v h) x = l_next h x"
  using assms end_link_in[of l xs] by (cases "end_link (FirstOf l) xs"; force simp: heap_simps end_link_def split: if_splits)+

section \<open>The contract of an intrusive list\<close>

text \<open>The operations on sequences that a client may perform: no element twice, no removal of an
  element that is not there.\<close>

datatype list_op = PushFront nat | PushBack nat | RemoveElem nat

fun abs_op :: "list_op \<Rightarrow> nat list \<Rightarrow> nat list option" where
  "abs_op (PushFront a) xs = (if a \<in> set xs then None else Some (a # xs))"
| "abs_op (PushBack a) xs = (if a \<in> set xs then None else Some (xs @ [a]))"
| "abs_op (RemoveElem a) xs = (if a \<in> set xs then Some (remove1 a xs) else None)"

fun abs_ops :: "list_op list \<Rightarrow> nat list \<Rightarrow> nat list option" where
  "abs_ops [] xs = Some xs"
| "abs_ops (p # ps) xs = (case abs_op p xs of None \<Rightarrow> None | Some ys \<Rightarrow> abs_ops ps ys)"

fun op_elem :: "list_op \<Rightarrow> nat" where
  "op_elem (PushFront a) = a" | "op_elem (PushBack a) = a" | "op_elem (RemoveElem a) = a"

definition conc_op :: "(nat \<Rightarrow> nat \<Rightarrow> 'h \<Rightarrow> 'h) \<Rightarrow> (nat \<Rightarrow> nat \<Rightarrow> 'h \<Rightarrow> 'h) \<Rightarrow> (nat \<Rightarrow> nat \<Rightarrow> 'h \<Rightarrow> 'h) \<Rightarrow> nat \<Rightarrow> list_op \<Rightarrow> 'h \<Rightarrow> 'h" where
  "conc_op pf pb rm l p h = (case p of PushFront a \<Rightarrow> pf l a h | PushBack a \<Rightarrow> pb l a h | RemoveElem a \<Rightarrow> rm l a h)"

locale intrusive_list =
  fixes repr :: "'h \<Rightarrow> nat \<Rightarrow> nat list \<Rightarrow> bool"
    and linkable :: "nat \<Rightarrow> nat \<Rightarrow> bool"
    and pf :: "nat \<Rightarrow> nat \<Rightarrow> 'h \<Rightarrow> 'h"
    and pb :: "nat \<Rightarrow> nat \<Rightarrow> 'h \<Rightarrow> 'h"
    and rm :: "nat \<Rightarrow> nat \<Rightarrow> 'h \<Rightarrow> 'h"
  assumes repr_distinct: "repr h l xs \<Longrightarrow> distinct xs"
    and pf_repr: "repr h l xs \<Longrightarrow> a \<notin> set xs \<Longrightarrow> linkable l a \<Longrightarrow> repr (pf l a h) l (a # xs)"
    and pb_repr: "repr h l xs \<Longrightarrow> a \<notin> set xs \<Longrightarrow> linkable l a \<Longrightarrow> repr (pb l a h) l (xs @ [a])"
    and rm_repr: "repr h l (xs @ a # ys) \<Longrightarrow> repr (rm l a h) l (xs @ ys)"
    and frame: "repr h l xs \<Longrightarrow> repr h k ys \<Longrightarrow> l \<noteq> k \<Longrightarrow> set xs \<inter> set ys = {} \<Longrightarrow> k \<notin> set xs \<Longrightarrow> l \<notin> set ys \<Longrightarrow>
      a \<notin> set ys \<Longrightarrow> a \<noteq> k \<Longrightarrow>
      (a \<notin> set xs \<and> linkable l a \<longrightarrow> repr (pf l a h) k ys \<and> repr (pb l a h) k ys) \<and>
      (a \<in> set xs \<longrightarrow> repr (rm l a h) k ys)"
begin

lemma op_repr:
  assumes "repr h l xs" "abs_op p xs = Some ys" "linkable l (op_elem p)"
  shows "repr (conc_op pf pb rm l p h) l ys"
proof (cases p)
  case (RemoveElem a)
  then have "a \<in> set xs" "ys = remove1 a xs" using assms(2) by (auto split: if_splits)
  then obtain us vs where "xs = us @ a # vs" "ys = us @ vs"
    by (metis remove1_append remove1.simps(2) split_list_first)
  then show ?thesis using rm_repr assms(1) RemoveElem by (simp add: conc_op_def)
qed (use assms in \<open>auto simp: conc_op_def pf_repr pb_repr split: if_splits\<close>)

text \<open>Every admissible sequence of operations simulates the one on sequences.\<close>

lemma ops_simulate:
  assumes "repr h l xs" "abs_ops ps xs = Some ys" "\<forall>p \<in> set ps. linkable l (op_elem p)"
  shows "repr (fold (conc_op pf pb rm l) ps h) l ys"
  using assms
proof (induction ps arbitrary: h xs)
  case (Cons p ps)
  then obtain us where us: "abs_op p xs = Some us" "abs_ops ps us = Some ys" by (auto split: option.splits)
  have "repr (conc_op pf pb rm l p h) l us" using op_repr[OF Cons.prems(1) us(1)] Cons.prems(3) by simp
  from Cons.IH[OF this us(2)] show ?case using Cons.prems(3) by simp
qed simp

text \<open>An element can be moved from one list to another.\<close>

lemma move_elem:
  assumes "repr h l (xs @ a # ys)" "repr h k zs" "l \<noteq> k" "set (xs @ a # ys) \<inter> set zs = {}"
    "k \<notin> set (xs @ a # ys)" "l \<notin> set zs" "linkable k a" "a \<noteq> l"
  shows "repr (pb k a (rm l a h)) l (xs @ ys)" "repr (pb k a (rm l a h)) k (zs @ [a])"
proof -
  have rm: "repr (rm l a h) l (xs @ ys)" "repr (rm l a h) k zs"
    using rm_repr[OF assms(1)] frame[OF assms(1,2), of a] assms(3-6) by auto
  have "a \<notin> set (xs @ ys)" using repr_distinct[OF assms(1)] by auto
  then show "repr (pb k a (rm l a h)) l (xs @ ys)"
    using frame[OF rm(2,1), of a] assms by auto
  show "repr (pb k a (rm l a h)) k (zs @ [a])"
    using pb_repr[OF rm(2)] assms(4,7) by auto
qed

end

end
