(* ===== verification/Sql_Ilist.thy ===== *)
theory Sql_Ilist
  imports Intrusive_List
begin

text \<open>
  \<open>SQL_I_List\<close>, \<open>ilink\<close>, \<open>base_ilist\<close> (\<open>I_List\<close>) and its iterator of \<open>sql_list.h\<close>, on the heap of
  \<open>Intrusive_List\<close>. The sentinel \<open>last\<close> of a \<open>base_ilist\<close> is an element: a list is named by
  the address of its sentinel.
\<close>

section \<open>SQL_I_List\<close>

definition sil_empty :: "nat \<Rightarrow> lheap \<Rightarrow> lheap" where
  "sil_empty l h = set_tail l (FirstOf l) (set_link (FirstOf l) 0 (set_count l 0 h))"

definition sil_assign :: "nat \<Rightarrow> nat \<Rightarrow> lheap \<Rightarrow> lheap" where
  "sil_assign l tmp h =
     (let h = set_count l (l_count h tmp) h;
          h = set_link (FirstOf l) (l_first h tmp) h
      in set_tail l (if l_count h l \<noteq> 0 then l_last h tmp else FirstOf l) h)"

definition link_in_list :: "nat \<Rightarrow> nat \<Rightarrow> link \<Rightarrow> lheap \<Rightarrow> lheap" where
  "link_in_list l element next_ptr h =
     (let h = set_count l (l_count h l + 1) h;
          h = set_link (l_last h l) element h;
          h = set_tail l next_ptr h
      in set_link (l_last h l) 0 h)"

definition sil_save_and_clear :: "nat \<Rightarrow> nat \<Rightarrow> lheap \<Rightarrow> lheap" where
  "sil_save_and_clear l save h = sil_empty l (sil_assign save l h)"

definition sil_push_front :: "nat \<Rightarrow> nat \<Rightarrow> lheap \<Rightarrow> lheap" where
  "sil_push_front l save h =
     (let h = set_link (l_last h save) (l_first h l) h;
          h = set_link (FirstOf l) (l_first h save) h
      in set_count l (l_count h l + l_count h save) h)"

definition sil_push_back :: "nat \<Rightarrow> nat \<Rightarrow> lheap \<Rightarrow> lheap" where
  "sil_push_back l save h =
     (if l_first h save \<noteq> 0
      then let h = set_link (l_last h l) (l_first h save) h;
               h = set_tail l (l_last h save) h
           in set_count l (l_count h l + l_count h save) h
      else h)"

section \<open>ilink and base_ilist\<close>

definition ilink_init :: "nat \<Rightarrow> lheap \<Rightarrow> lheap" where
  "ilink_init a h = set_link (NextOf a) 0 (set_prev a None h)"

definition ilink_unlink :: "nat \<Rightarrow> lheap \<Rightarrow> lheap" where
  "ilink_unlink a h =
     (let h = (case l_prev h a of Some p \<Rightarrow> set_link p (l_next h a) h | None \<Rightarrow> h);
          h = (if l_next h a \<noteq> 0 then set_prev (l_next h a) (l_prev h a) h else h);
          h = set_prev a None h
      in set_link (NextOf a) 0 h)"

definition assert_linked :: "nat \<Rightarrow> lheap \<Rightarrow> bool" where
  "assert_linked a h \<longleftrightarrow> l_prev h a \<noteq> None \<and> l_next h a \<noteq> 0"

definition assert_not_linked :: "nat \<Rightarrow> lheap \<Rightarrow> bool" where
  "assert_not_linked a h \<longleftrightarrow> l_prev h a = None \<and> l_next h a = 0"

definition ilist_empty :: "nat \<Rightarrow> lheap \<Rightarrow> lheap" where
  "ilist_empty l h = set_prev l (Some (FirstOf l)) (set_link (FirstOf l) l h)"

definition ilist_is_empty :: "nat \<Rightarrow> lheap \<Rightarrow> bool" where
  "ilist_is_empty l h \<longleftrightarrow> l_first h l = l"

definition ilist_is_last :: "nat \<Rightarrow> nat \<Rightarrow> lheap \<Rightarrow> bool" where
  "ilist_is_last l p h \<longleftrightarrow> l_next h p = 0 \<or> l_next h p = l"

definition ilist_append :: "nat \<Rightarrow> nat \<Rightarrow> lheap \<Rightarrow> lheap" where
  "ilist_append l a h =
     (let h = set_prev (l_first h l) (Some (NextOf a)) h;
          h = set_link (NextOf a) (l_first h l) h;
          h = set_prev a (Some (FirstOf l)) h
      in set_link (FirstOf l) a h)"

definition ilist_push_back :: "nat \<Rightarrow> nat \<Rightarrow> lheap \<Rightarrow> lheap" where
  "ilist_push_back l a h =
     (let h = (case l_prev h l of Some p \<Rightarrow> set_link p a h | None \<Rightarrow> h);
          h = set_link (NextOf a) l h;
          h = set_prev a (l_prev h l) h
      in set_prev l (Some (NextOf a)) h)"

definition ilist_get :: "nat \<Rightarrow> lheap \<Rightarrow> nat \<times> lheap" where
  "ilist_get l h =
     (let first_link = l_first h l
      in if first_link = l then (0, h) else (first_link, ilink_unlink first_link h))"

definition ilist_head :: "nat \<Rightarrow> lheap \<Rightarrow> nat" where
  "ilist_head l h = (if l_first h l \<noteq> l then l_first h l else 0)"

text \<open>\<open>new_owner->last= last\<close> copies both members of the sentinel; \<open>None\<close> is the failed assertion.\<close>

definition ilist_move_elements_to :: "nat \<Rightarrow> nat \<Rightarrow> lheap \<Rightarrow> lheap option" where
  "ilist_move_elements_to l new_owner h =
     (if ilist_is_empty new_owner h
      then let h = set_link (FirstOf new_owner) (l_first h l) h;
               h = set_prev new_owner (l_prev h l) h;
               h = set_link (NextOf new_owner) (l_next h l) h
           in Some (ilist_empty l h)
      else None)"

section \<open>base_ilist_iterator\<close>

record ilist_iterator =
  ii_list :: nat
  ii_el :: link
  ii_current :: nat

definition ii_init :: "nat \<Rightarrow> ilist_iterator" where
  "ii_init l = \<lparr>ii_list = l, ii_el = FirstOf l, ii_current = 0\<rparr>"

definition ii_next :: "ilist_iterator \<Rightarrow> lheap \<Rightarrow> nat \<times> ilist_iterator" where
  "ii_next it h =
     (let it = it\<lparr>ii_current := get_link h (ii_el it)\<rparr>
      in if ii_current it = ii_list it then (0, it)
         else (ii_current it, it\<lparr>ii_el := NextOf (ii_current it)\<rparr>))"

definition ii_unlink :: "ilist_iterator \<Rightarrow> lheap \<Rightarrow> (ilist_iterator \<times> lheap) option" where
  "ii_unlink it h =
     (case l_prev h (ii_current it) of
        None \<Rightarrow> None
      | Some tmp \<Rightarrow> Some (it\<lparr>ii_el := tmp\<rparr>, ilink_unlink (ii_current it) h))"

text \<open>\<open>I_List_iterator::remove\<close> also deletes the object; the destructor unlinks it a second time,
  which changes nothing.\<close>

definition I_List_iterator_remove :: "ilist_iterator \<Rightarrow> lheap \<Rightarrow> (ilist_iterator \<times> lheap) option" where
  "I_List_iterator_remove it h =
     (case ii_unlink it h of
        None \<Rightarrow> None
      | Some (it, h) \<Rightarrow> Some (it\<lparr>ii_current := 0\<rparr>, ilink_unlink (ii_current it) h))"

text \<open>A client that walks a list and removes the elements that satisfy \<open>P\<close>.\<close>

fun remove_if :: "nat \<Rightarrow> (nat \<Rightarrow> bool) \<Rightarrow> ilist_iterator \<Rightarrow> lheap \<Rightarrow> lheap option" where
  "remove_if 0 P it h = None"
| "remove_if (Suc fuel) P it h =
     (let (x, it) = ii_next it h
      in if x = 0 then Some h
         else if P x then (case I_List_iterator_remove it h of None \<Rightarrow> None | Some (it, h) \<Rightarrow> remove_if fuel P it h)
         else remove_if fuel P it h)"

section \<open>base_ilist keeps the contract\<close>

definition ilist_repr :: "lheap \<Rightarrow> nat \<Rightarrow> nat list \<Rightarrow> bool" where
  "ilist_repr h l xs \<longleftrightarrow> chain h (FirstOf l) xs l \<and> backs h (FirstOf l) xs \<and>
     l_prev h l = Some (end_link (FirstOf l) xs) \<and> distinct xs \<and> l \<notin> set xs \<and> 0 \<notin> set xs \<and> l \<noteq> 0"

definition ilist_linkable :: "nat \<Rightarrow> nat \<Rightarrow> bool" where
  "ilist_linkable l a \<longleftrightarrow> a \<noteq> l \<and> a \<noteq> 0"

lemma ilist_empty_repr: "l \<noteq> 0 \<Longrightarrow> ilist_repr (ilist_empty l h) l []"
  by (simp add: ilist_repr_def ilist_empty_def heap_simps)

lemma ilist_append_repr:
  assumes "ilist_repr h l xs" "a \<notin> set xs" "ilist_linkable l a"
  shows "ilist_repr (ilist_append l a h) l (a # xs)"
proof -
  let ?h = "ilist_append l a h"
  have f: "l_next ?h = (l_next h)(a := l_first h l)" "l_first ?h = (l_first h)(l := a)"
    "l_prev ?h = (l_prev h)(l_first h l := Some (NextOf a), a := Some (FirstOf l))"
    by (simp_all add: ilist_append_def heap_simps Let_def)
  have r: "chain h (FirstOf l) xs l" "backs h (FirstOf l) xs" "l_prev h l = Some (end_link (FirstOf l) xs)"
    "distinct xs" "l \<notin> set xs" "a \<noteq> l" "a \<noteq> 0"
    using assms by (auto simp: ilist_repr_def ilist_linkable_def)
  have "chain ?h (NextOf a) xs l"
    using r(1) assms(2) by (cases xs) (auto simp: heap_simps f intro!: chain_cong[THEN iffD1, rotated 2, of h])
  moreover have "backs ?h (NextOf a) xs"
  proof (cases xs)
    case (Cons x ys)
    have "backs ?h (NextOf x) ys = backs h (NextOf x) ys"
      using r(1,4) assms(2) Cons by (intro backs_cong) (auto simp: f heap_simps)
    then show ?thesis using r(1,2) assms(2) Cons by (auto simp: f heap_simps)
  qed simp
  moreover have "l_prev ?h l = Some (end_link (NextOf a) xs)"
    using r(1,3,5,6) by (cases xs) (auto simp: f heap_simps)
  ultimately show ?thesis using assms r by (auto simp: ilist_repr_def f heap_simps)
qed

lemma ilist_D:
  assumes "ilist_repr h l xs"
  shows "chain h (FirstOf l) xs l" "backs h (FirstOf l) xs" "l_prev h l = Some (end_link (FirstOf l) xs)"
    "distinct xs" "l \<notin> set xs" "0 \<notin> set xs" "l \<noteq> 0"
  using assms by (simp_all add: ilist_repr_def)

lemma ilist_push_back_repr:
  assumes "ilist_repr h l xs" "a \<notin> set xs" "ilist_linkable l a"
  shows "ilist_repr (ilist_push_back l a h) l (xs @ [a])"
proof -
  note r = ilist_D[OF assms(1)]
  let ?p = "end_link (FirstOf l) xs" and ?h = "ilist_push_back l a h"
  define h1 where "h1 = set_link ?p a h"
  have a: "a \<noteq> l" "a \<noteq> 0" using assms(3) by (auto simp: ilist_linkable_def)
  have f: "l_next ?h = (l_next h1)(a := l)" "l_first ?h = l_first h1" "l_prev ?h = (l_prev h)(a := Some ?p, l := Some (NextOf a))"
    using r(3) by (simp_all add: ilist_push_back_def heap_simps Let_def h1_def)
  have "chain h1 (FirstOf l) xs a" unfolding h1_def using r(1,4) by (intro chain_set_end) auto
  then have "chain ?h (FirstOf l) xs a"
    using assms(2) by (subst chain_cong[of ?h _ h1]) (auto simp: f heap_simps)
  then have "chain ?h (FirstOf l) (xs @ [a]) l" by (simp add: chain_append f heap_simps)
  moreover have "backs ?h (FirstOf l) xs"
    using r(2,5) assms(2) by (subst backs_cong[of _ ?h h]) (auto simp: f)
  ultimately show ?thesis using r a assms(2) by (auto simp: ilist_repr_def backs_append f)
qed

lemma ilist_unlink_eqs:
  assumes "ilist_repr h l (xs @ a # ys)"
  defines "p \<equiv> end_link (FirstOf l) xs" and "z \<equiv> hd (ys @ [l])"
  shows "l_prev h a = Some p" "l_next h a = z" "a \<noteq> l" "z \<noteq> 0" "p \<noteq> NextOf a"
    "l_next (ilink_unlink a h) = (l_next (set_link p z h))(a := 0)" "l_first (ilink_unlink a h) = l_first (set_link p z h)"
    "l_prev (ilink_unlink a h) = (l_prev h)(z := Some p, a := None)"
proof -
  note r = ilist_D[OF assms(1)]
  show pa: "l_prev h a = Some p" using r(2) by (simp add: backs_append p_def)
  have "chain h (NextOf a) ys l" using r(1) by (simp add: chain_append)
  then show za: "l_next h a = z" by (cases ys) (auto simp: heap_simps z_def)
  show "a \<noteq> l" using r(5) by auto
  show z0: "z \<noteq> 0" using r(6,7) by (cases ys) (auto simp: z_def)
  show np: "p \<noteq> NextOf a" using r(4) end_link_in[of l xs a] by (auto simp: p_def)
  have "l_next (set_link p z h) a = z" using np za by (cases p) (auto simp: heap_simps)
  then show "l_next (ilink_unlink a h) = (l_next (set_link p z h))(a := 0)" "l_first (ilink_unlink a h) = l_first (set_link p z h)"
    "l_prev (ilink_unlink a h) = (l_prev h)(z := Some p, a := None)"
    using pa za z0 by (simp_all add: ilink_unlink_def heap_simps Let_def)
qed

lemma ilist_unlink_repr:
  assumes "ilist_repr h l (xs @ a # ys)"
  shows "ilist_repr (ilink_unlink a h) l (xs @ ys)"
proof -
  note r = ilist_D[OF assms(1)] and e = ilist_unlink_eqs[OF assms]
  let ?p = "end_link (FirstOf l) xs" and ?z = "hd (ys @ [l])" and ?h = "ilink_unlink a h"
  define h1 where "h1 = set_link ?p ?z h"
  have d: "distinct xs" "distinct ys" "a \<notin> set xs" "a \<notin> set ys" "set xs \<inter> set ys = {}" using r(4) by auto
  have px: "chain h (FirstOf l) xs a" "chain h (NextOf a) ys l" using r(1) by (auto simp: chain_append)
  have "chain h1 (FirstOf l) xs ?z" unfolding h1_def using px(1) d(1) by (intro chain_set_end) auto
  then have c1: "chain ?h (FirstOf l) xs ?z"
    using d(3) by (subst chain_cong[of ?h _ h1]) (auto simp: e h1_def[symmetric] heap_simps)
  have c2: "chain ?h ?p ys l"
  proof (cases ys)
    case Nil
    then show ?thesis using chain_end[OF c1] by simp
  next
    case (Cons y us)
    have pn: "?p \<noteq> NextOf x" if "x \<in> set ys" for x using end_link_in[of l xs x] that d(5) by auto
    have "l_next ?h x = l_next h x" if "x \<in> set ys" for x
      using that d(4) pn[OF that] by (cases ?p) (auto simp: e heap_simps)
    then have "chain ?h (NextOf y) us l = chain h (NextOf y) us l"
      using Cons by (intro chain_cong) (auto simp: heap_simps)
    then show ?thesis using px(2) chain_end[OF c1] Cons by simp
  qed
  have zin: "?z \<in> insert l (set ys)" by (cases ys) auto
  have b: "backs h (FirstOf l) xs" "backs h (NextOf a) ys" using r(2) by (auto simp: backs_append)
  have b1: "backs ?h (FirstOf l) xs"
    using b(1) d r(5) zin by (subst backs_cong[of _ ?h h]) (auto simp: e)
  have b2: "backs ?h ?p ys"
  proof (cases ys)
    case (Cons y us)
    have "backs ?h (NextOf y) us = backs h (NextOf y) us"
      using Cons d by (intro backs_cong) (auto simp: e)
    then show ?thesis using b(2) Cons d by (auto simp: e)
  qed simp
  have "l_prev ?h l = Some (end_link (FirstOf l) (xs @ ys))"
    using r(3) e(3) r(5) by (cases ys) (auto simp: e end_link_append)
  then show ?thesis using c1 c2 b1 b2 r d by (auto simp: ilist_repr_def chain_append_end backs_append)
qed

lemma ilist_frame:
  assumes "ilist_repr h k ys" "l_first h' k = l_first h k" "\<And>x. x \<in> set ys \<Longrightarrow> l_next h' x = l_next h x"
    "\<And>x. x \<in> insert k (set ys) \<Longrightarrow> l_prev h' x = l_prev h x"
  shows "ilist_repr h' k ys"
proof -
  note r = ilist_D[OF assms(1)]
  have "chain h' (FirstOf k) ys k = chain h (FirstOf k) ys k"
    using assms(2,3) by (intro chain_cong) (auto simp: heap_simps)
  moreover have "backs h' (FirstOf k) ys = backs h (FirstOf k) ys" using assms(4) by (intro backs_cong) auto
  ultimately show ?thesis using assms(4)[of k] r by (simp add: ilist_repr_def)
qed

lemma first_in: "ilist_repr h l xs \<Longrightarrow> l_first h l \<in> insert l (set xs)"
  using ilist_D(1)[of h l xs] by (cases xs) (auto simp: heap_simps)

interpretation ilist: intrusive_list ilist_repr ilist_linkable ilist_append ilist_push_back "\<lambda>l. ilink_unlink"
proof
  fix h l xs k ys a
  assume l: "ilist_repr h l xs" and k: "ilist_repr h k ys" and ne: "l \<noteq> k" "set xs \<inter> set ys = {}" "k \<notin> set xs" "l \<notin> set ys"
    and a: "a \<notin> set ys" "a \<noteq> k"
  have dis: "x \<in> set ys \<Longrightarrow> x \<notin> set xs" for x using ne(2) by auto
  have "ilist_repr (ilist_append l a h) k ys"
    using first_in[OF l] ne a by (intro ilist_frame[OF k]) (auto simp: ilist_append_def heap_simps Let_def)
  moreover have "ilist_repr (ilist_push_back l a h) k ys"
    using ne a ilist_D(3)[OF l] set_end_link_frame[OF ne(1), where xs = xs]
    by (intro ilist_frame[OF k]) (auto simp: ilist_push_back_def heap_simps Let_def dis)
  moreover have "ilist_repr (ilink_unlink a h) k ys" if ax: "a \<in> set xs"
  proof -
    obtain us vs where xs: "xs = us @ a # vs" using split_list[OF ax] by blast
    note e = ilist_unlink_eqs[OF l[unfolded xs]]
    have "hd (vs @ [l]) \<in> insert l (set vs)" by (cases vs) auto
    then show ?thesis using ne(1,3,4) a dis xs set_end_link_frame[OF ne(1), where xs = us]
      by (intro ilist_frame[OF k]) (auto simp: e)
  qed
  ultimately show "(a \<notin> set xs \<and> ilist_linkable l a \<longrightarrow> ilist_repr (ilist_append l a h) k ys \<and> ilist_repr (ilist_push_back l a h) k ys) \<and>
      (a \<in> set xs \<longrightarrow> ilist_repr (ilink_unlink a h) k ys)" by blast
qed (simp_all add: ilist_append_repr ilist_push_back_repr ilist_unlink_repr ilist_D(4))

section \<open>Walking and moving\<close>

lemma unlink_idem: "ilink_unlink a (ilink_unlink a h) = ilink_unlink a h"
proof -
  have "l_prev (ilink_unlink a h) a = None" "l_next (ilink_unlink a h) a = 0"
    by (simp_all add: ilink_unlink_def heap_simps Let_def)
  moreover have "set_link (NextOf a) 0 (set_prev a None k) = k" if "l_prev k a = None" "l_next k a = 0" for k
    using that by (simp add: set_link_def set_prev_def fun_upd_idem)
  ultimately show ?thesis by (simp add: ilink_unlink_def[of a "ilink_unlink a h"] Let_def)
qed

lemma ilist_get_repr:
  "ilist_repr h l [] \<Longrightarrow> ilist_get l h = (0, h)"
  "ilist_repr h l (a # xs) \<Longrightarrow> \<exists>h'. ilist_get l h = (a, h') \<and> ilist_repr h' l xs \<and> assert_not_linked a h'"
proof -
  show "ilist_get l h = (0, h)" if "ilist_repr h l []" using that by (simp add: ilist_get_def ilist_repr_def heap_simps)
  assume r: "ilist_repr h l (a # xs)"
  then have "l_first h l = a" "a \<noteq> l" by (auto simp: ilist_repr_def heap_simps)
  moreover have "assert_not_linked a (ilink_unlink a h)" by (simp add: assert_not_linked_def ilink_unlink_def heap_simps Let_def)
  ultimately show "\<exists>h'. ilist_get l h = (a, h') \<and> ilist_repr h' l xs \<and> assert_not_linked a h'"
    using ilist_unlink_repr[of h l "[]" a xs] r by (simp add: ilist_get_def)
qed

lemma remove_if_spec:
  assumes "ilist_repr h l (xs @ ys)" "ii_list it = l" "ii_el it = end_link (FirstOf l) xs" "length ys < fuel"
  shows "\<exists>h'. remove_if fuel P it h = Some h' \<and> ilist_repr h' l (xs @ filter (\<lambda>x. \<not> P x) ys)"
  using assms
proof (induction ys arbitrary: xs h it fuel)
  case Nil
  obtain k where k: "fuel = Suc k" using Nil.prems(4) by (cases fuel) auto
  have "get_link h (end_link (FirstOf l) xs) = l" using chain_end ilist_D(1)[OF Nil.prems(1)] by simp
  then show ?case using Nil.prems k by (simp add: ii_next_def)
next
  case (Cons y ys)
  obtain k where k: "fuel = Suc k" "length ys < k" using Cons.prems(4) by (cases fuel) auto
  note r = ilist_D[OF Cons.prems(1)] and e = ilist_unlink_eqs[OF Cons.prems(1)]
  let ?it = "it\<lparr>ii_current := y, ii_el := NextOf y\<rparr>"
  have "get_link h (end_link (FirstOf l) xs) = y" using r(1) chain_end by (auto simp: chain_append)
  then have step: "ii_next it h = (y, ?it)" using Cons.prems(2,3) e(3) by (simp add: ii_next_def)
  have y0: "y \<noteq> 0" using r(6) by auto
  show ?case
  proof (cases "P y")
    case True
    have "I_List_iterator_remove ?it h = Some (?it\<lparr>ii_el := end_link (FirstOf l) xs, ii_current := 0\<rparr>, ilink_unlink y h)"
      by (simp add: I_List_iterator_remove_def ii_unlink_def e(1) unlink_idem)
    moreover have "\<exists>h'. remove_if k P (?it\<lparr>ii_el := end_link (FirstOf l) xs, ii_current := 0\<rparr>) (ilink_unlink y h) = Some h' \<and>
        ilist_repr h' l (xs @ filter (\<lambda>x. \<not> P x) ys)"
      using Cons.prems k by (intro Cons.IH) (auto intro!: ilist_unlink_repr)
    ultimately show ?thesis using k step y0 True by simp
  next
    case False
    have "\<exists>h'. remove_if k P ?it h = Some h' \<and> ilist_repr h' l ((xs @ [y]) @ filter (\<lambda>x. \<not> P x) ys)"
      using Cons.prems k by (intro Cons.IH) auto
    then show ?thesis using k step y0 False by simp
  qed
qed

section \<open>SQL_I_List\<close>

definition sil_repr :: "lheap \<Rightarrow> nat \<Rightarrow> nat list \<Rightarrow> bool" where
  "sil_repr h l xs \<longleftrightarrow> chain h (FirstOf l) xs 0 \<and> l_last h l = end_link (FirstOf l) xs \<and> distinct xs \<and> 0 \<notin> set xs \<and>
     l_count h l = of_nat (length xs)"

lemma sil_empty_repr: "sil_repr (sil_empty l h) l []"
  by (simp add: sil_repr_def sil_empty_def heap_simps)

lemma link_in_list_repr:
  assumes "sil_repr h l xs" "a \<notin> set xs" "a \<noteq> 0"
  shows "sil_repr (link_in_list l a (NextOf a) h) l (xs @ [a])"
proof -
  let ?p = "end_link (FirstOf l) xs" and ?h = "link_in_list l a (NextOf a) h"
  define h1 where "h1 = set_link ?p a h"
  have f: "l_next ?h = (l_next h1)(a := 0)" "l_first ?h = l_first h1" "l_last ?h l = NextOf a" "l_count ?h l = l_count h l + 1"
    using assms(1) by (auto simp: link_in_list_def heap_simps Let_def h1_def sil_repr_def set_count_def set_tail_def set_link_def split: link.split)
  have "chain h1 (FirstOf l) xs a" unfolding h1_def using assms(1) by (intro chain_set_end) (auto simp: sil_repr_def)
  then have "chain ?h (FirstOf l) xs a" using assms(2) by (subst chain_cong[of ?h _ h1]) (auto simp: f heap_simps)
  then show ?thesis using assms by (auto simp: sil_repr_def chain_append f heap_simps)
qed

lemma sil_push_back_repr:
  assumes "sil_repr h l xs" "sil_repr h k ys" "l \<noteq> k" "set xs \<inter> set ys = {}"
  shows "sil_repr (sil_push_back l k h) l (xs @ ys)"
proof (cases "ys = []")
  case True
  then show ?thesis using assms(1,2) by (simp add: sil_push_back_def sil_repr_def heap_simps)
next
  case False
  let ?p = "end_link (FirstOf l) xs" and ?h = "sil_push_back l k h"
  define h1 where "h1 = set_link ?p (l_first h k) h"
  have y: "l_first h k = hd ys" "hd ys \<noteq> 0" using False assms(2) by (cases ys; auto simp: sil_repr_def heap_simps)+
  have f: "l_next ?h = l_next h1" "l_first ?h = l_first h1" "l_last ?h l = end_link (FirstOf k) ys"
    "l_count ?h l = of_nat (length (xs @ ys))"
    using assms(1,2) y by (simp_all add: sil_push_back_def heap_simps Let_def h1_def sil_repr_def)
  have "chain h1 (FirstOf l) xs (hd ys)" unfolding h1_def y(1) using assms(1) by (intro chain_set_end) (auto simp: sil_repr_def)
  then have c: "chain ?h (FirstOf l) xs (hd ys)" by (subst chain_cong[of ?h _ h1]) (auto simp: f heap_simps)
  obtain b bs where bs: "ys = b # bs" using False by (cases ys) auto
  have "chain h1 (NextOf b) bs 0"
    using assms(2,4) bs end_link_in[of l xs] unfolding h1_def
    by (subst chain_set_other) (auto simp: sil_repr_def heap_simps image_iff disjoint_iff)
  then have "chain ?h (NextOf b) bs 0" by (subst chain_cong[of ?h _ h1]) (auto simp: f heap_simps)
  then have "chain ?h (FirstOf l) (xs @ ys) 0" using c bs by (simp add: chain_append)
  moreover have "end_link (FirstOf k) ys = end_link (FirstOf l) (xs @ ys)"
    using False by (simp add: end_link_def)
  ultimately show ?thesis using assms f by (auto simp: sil_repr_def)
qed

lemma sil_push_front_chain:
  assumes "sil_repr h k ys" "l \<noteq> k"
  shows "chain (sil_push_front l k h) (FirstOf l) ys (l_first h l)"
proof -
  let ?h = "sil_push_front l k h"
  define h1 where "h1 = set_link (end_link (FirstOf k) ys) (l_first h l) h"
  have f: "l_next ?h = l_next h1" "l_first ?h l = l_first h1 k"
    using assms by (simp_all add: sil_push_front_def heap_simps Let_def h1_def sil_repr_def)
  have "chain h1 (FirstOf k) ys (l_first h l)" unfolding h1_def
    using assms(1) by (intro chain_set_end) (auto simp: sil_repr_def)
  then show ?thesis by (cases ys) (auto simp: f heap_simps chain_cong[of ?h _ h1])
qed

lemma sil_push_front_repr:
  assumes "sil_repr h l xs" "sil_repr h k ys" "l \<noteq> k" "set xs \<inter> set ys = {}" "xs \<noteq> []"
  shows "sil_repr (sil_push_front l k h) l (ys @ xs)"
proof -
  let ?p = "end_link (FirstOf k) ys" and ?h = "sil_push_front l k h"
  define h1 where "h1 = set_link ?p (l_first h l) h"
  obtain a as where as: "xs = a # as" using assms(5) by (cases xs) auto
  have x: "l_first h l = a" using assms(1) as by (auto simp: sil_repr_def heap_simps)
  have f: "l_next ?h = l_next h1" "l_first ?h l = l_first h1 k" "l_last ?h l = end_link (FirstOf l) xs"
    "l_count ?h l = of_nat (length (ys @ xs))"
    using assms(1,2,3) by (simp_all add: sil_push_front_def heap_simps Let_def h1_def sil_repr_def)
  have "chain ?h (FirstOf l) ys a" using sil_push_front_chain[OF assms(2,3)] x by simp
  moreover have "chain h1 (NextOf a) as 0"
    using assms(1,4) as end_link_in[of k ys] unfolding h1_def
    by (subst chain_set_other) (auto simp: sil_repr_def heap_simps image_iff disjoint_iff)
  then have "chain ?h (NextOf a) as 0" by (subst chain_cong[of ?h _ h1]) (auto simp: f heap_simps)
  ultimately have "chain ?h (FirstOf l) (ys @ xs) 0" using as by (simp add: chain_append)
  moreover have "end_link (FirstOf l) (ys @ xs) = end_link (FirstOf l) xs" using as by (simp add: end_link_def)
  ultimately show ?thesis using assms f by (auto simp: sil_repr_def)
qed

section \<open>Properties\<close>

text \<open>C31. Every admissible sequence of \<open>append\<close> (at the front), \<open>push_back\<close> and \<open>unlink\<close> on a well-formed
  \<open>base_ilist\<close> gives the well-formed list that the same operations on sequences give.\<close>

theorem base_ilist_refines:
  assumes "ilist_repr h l xs" "abs_ops ps xs = Some ys" "\<forall>p \<in> set ps. ilist_linkable l (op_elem p)"
  shows "ilist_repr (fold (conc_op ilist_append ilist_push_back (\<lambda>l. ilink_unlink) l) ps h) l ys"
  using assms by (rule ilist.ops_simulate)

definition blank_heap :: lheap where
  "blank_heap = \<lparr>l_next = (\<lambda>_. 0), l_prev = (\<lambda>_. None), l_first = (\<lambda>_. 0), l_last = (\<lambda>l. FirstOf l), l_count = (\<lambda>_. 0)\<rparr>"

theorem base_ilist_refines_witness:
  "ilist_repr (fold (conc_op ilist_append ilist_push_back (\<lambda>l. ilink_unlink) 1)
     [PushBack 5, PushFront 6, PushBack 7, RemoveElem 5] (ilist_empty 1 blank_heap)) 1 [6, 7]"
  using base_ilist_refines[of "ilist_empty 1 blank_heap" 1 "[]" "[PushBack 5, PushFront 6, PushBack 7, RemoveElem 5]" "[6, 7]"]
    ilist_empty_repr[of 1 blank_heap] by (simp add: ilist_linkable_def)

text \<open>Walking an \<open>I_List\<close> and removing some of the elements on the way visits every element, ends, and
  leaves exactly the others; \<open>get\<close> takes the first element off the list and leaves it
  unlinked.\<close>

theorem ilist_iterator_remove:
  assumes "ilist_repr h l xs"
  shows "(\<exists>h'. remove_if (Suc (length xs)) P (ii_init l) h = Some h' \<and> ilist_repr h' l (filter (\<lambda>x. \<not> P x) xs)) \<and>
    (case xs of [] \<Rightarrow> ilist_get l h = (0, h)
     | a # as \<Rightarrow> \<exists>h'. ilist_get l h = (a, h') \<and> ilist_repr h' l as \<and> assert_not_linked a h')"
  using remove_if_spec[of h l "[]" xs "ii_init l" "Suc (length xs)" P] ilist_get_repr[of h l] assms
  by (auto simp: ii_init_def split: list.split)

theorem ilist_iterator_remove_witness:
  "\<exists>h'. remove_if 3 (\<lambda>x. x = 5) (ii_init 1) (ilist_push_back 1 6 (ilist_push_back 1 5 (ilist_empty 1 blank_heap))) = Some h' \<and>
     ilist_repr h' 1 [6]"
proof -
  have "ilist_repr (ilist_push_back 1 6 (ilist_push_back 1 5 (ilist_empty 1 blank_heap))) 1 [5, 6]"
    by code_simp
  from ilist_iterator_remove[OF this, of "\<lambda>x. x = 5"] show ?thesis
    by (simp add: numeral_3_eq_3 numeral_2_eq_2 del: remove_if.simps)
qed

text \<open>\<open>move_elements_to\<close> copies the head of the list by value: the first element still points back at
  the old head and the last one still points at the old sentinel, so the new owner is not
  a well-formed list of any elements; even after moving an empty list the new owner is not
  empty.\<close>

theorem move_elements_to_broken:
  assumes "ilist_repr h l xs" "ilist_repr h k []" "l \<noteq> k" "k \<notin> set xs"
  shows "\<exists>h'. ilist_move_elements_to l k h = Some h' \<and> ilist_repr h' l [] \<and> (\<forall>ys. \<not> ilist_repr h' k ys) \<and>
    \<not> ilist_is_empty k h'"
proof -
  note r = ilist_D[OF assms(1)]
  define h' where "h' = the (ilist_move_elements_to l k h)"
  have e: "ilist_is_empty k h" using ilist_D(1)[OF assms(2)] by (simp add: ilist_is_empty_def heap_simps)
  have f: "l_first h' = (l_first h)(k := l_first h l, l := l)" "l_prev h' k = l_prev h l" "l_prev h' l = Some (FirstOf l)"
    using e assms(3) by (auto simp: h'_def ilist_move_elements_to_def ilist_empty_def heap_simps Let_def)
  have ne: "l_first h' k \<noteq> k" using r(1) assms(3,4) by (cases xs) (auto simp: f heap_simps)
  have "\<not> ilist_repr h' k ys" for ys
  proof
    assume ys: "ilist_repr h' k ys"
    note ry = ilist_D[OF ys]
    obtain z zs where z: "ys = z # zs" using ry(1) ne by (cases ys) (auto simp: heap_simps)
    have zl: "z = l_first h l" using ry(1) z assms(3) by (simp add: f heap_simps)
    have "l_prev h' z = Some (FirstOf k)" using ry(2) z by simp
    moreover have "l_prev h' z = (if z = k then l_prev h l else if z = l then Some (FirstOf l) else l_prev h z)"
      using e assms(3) by (auto simp: h'_def ilist_move_elements_to_def ilist_empty_def heap_simps Let_def)
    moreover have "z \<noteq> k" using zl ne assms(3) by (simp add: f)
    moreover have "l_prev h z = Some (FirstOf l)" if "z \<noteq> l" using that r(1,2) zl by (cases xs) (auto simp: heap_simps)
    ultimately show False using assms(3) by (auto split: if_splits)
  qed
  moreover have "ilist_move_elements_to l k h = Some h'" using e by (simp add: h'_def ilist_move_elements_to_def Let_def)
  moreover have "ilist_repr h' l []" using r(7) by (simp add: ilist_repr_def f heap_simps)
  ultimately show ?thesis using ne by (auto simp: ilist_is_empty_def)
qed

theorem move_elements_to_broken_witness:
  "\<exists>h'. ilist_move_elements_to 1 2 (ilist_empty 2 (ilist_empty 1 blank_heap)) = Some h' \<and> \<not> ilist_is_empty 2 h'"
proof -
  have "ilist_repr (ilist_empty 2 (ilist_empty 1 blank_heap)) 1 []" "ilist_repr (ilist_empty 2 (ilist_empty 1 blank_heap)) 2 []"
    by code_simp+
  from move_elements_to_broken[OF this] show ?thesis by auto
qed

text \<open>\<open>SQL_I_List\<close>: linking an element appends it, \<open>push_back\<close> of a list concatenates, and so does
  \<open>push_front\<close> on a non-empty list. On an empty list \<open>push_front\<close> leaves \<open>next\<close> pointing
  at the head: the element linked afterwards replaces the whole list that was pushed.\<close>

theorem sql_i_list_ops:
  assumes "sil_repr h l xs" "sil_repr h k ys" "l \<noteq> k" "set xs \<inter> set ys = {}" "a \<notin> set (xs @ ys)" "a \<noteq> 0"
  shows "sil_repr (link_in_list l a (NextOf a) h) l (xs @ [a]) \<and>
    sil_repr (sil_push_back l k h) l (xs @ ys) \<and>
    (xs \<noteq> [] \<longrightarrow> sil_repr (sil_push_front l k h) l (ys @ xs)) \<and>
    (xs = [] \<and> ys \<noteq> [] \<longrightarrow>
       chain (sil_push_front l k h) (FirstOf l) ys 0 \<and>
       chain (link_in_list l a (NextOf a) (sil_push_front l k h)) (FirstOf l) [a] 0)"
proof (intro conjI impI)
  show "sil_repr (sil_push_front l k h) l (ys @ xs)" if "xs \<noteq> []" by (rule sil_push_front_repr[OF assms(1-4) that])
  assume xy: "xs = [] \<and> ys \<noteq> []"
  have l: "l_first h l = 0" "l_last h l = FirstOf l" using assms(1) xy by (auto simp: sil_repr_def heap_simps)
  let ?h = "sil_push_front l k h"
  have last: "l_last ?h l = FirstOf l" using l by (simp add: sil_push_front_def heap_simps Let_def)
  show "chain ?h (FirstOf l) ys 0" using sil_push_front_chain[OF assms(2,3)] l by simp
  show "chain (link_in_list l a (NextOf a) ?h) (FirstOf l) [a] 0"
    by (simp add: link_in_list_def heap_simps Let_def last)
qed (use assms link_in_list_repr sil_push_back_repr in auto)

theorem sql_i_list_ops_witness:
  "chain (link_in_list 1 7 (NextOf 7) (sil_push_front 1 2 (link_in_list 2 5 (NextOf 5) (sil_empty 2 (sil_empty 1 blank_heap))))) (FirstOf 1) [7] 0"
proof -
  let ?h = "link_in_list 2 5 (NextOf 5) (sil_empty 2 (sil_empty 1 blank_heap))"
  have "sil_repr ?h 1 []" "sil_repr ?h 2 [5]" by code_simp+
  from sql_i_list_ops[OF this, of 7] show ?thesis by simp
qed

end
