(* ===== verification/Sql_Plist.thy ===== *)
theory Sql_Plist
  imports Intrusive_List
begin

text \<open>
  \<open>I_P_List\<close> of \<open>sql_plist.h\<close>, on the heap of \<open>Intrusive_List\<close>. The policy classes are arguments:
  \<open>counter\<close> says that the list counts its elements (\<open>I_P_List_counter\<close>, else
  \<open>I_P_List_null_counter\<close>), \<open>fast\<close> that it keeps a pointer to its last link
  (\<open>I_P_List_fast_push_back\<close>, else \<open>I_P_List_no_push_back\<close>). Writing through a null \<open>prev\<close>
  pointer, which no linked element has, leaves the heap as it is.
\<close>

section \<open>Policy classes\<close>

definition C_reset :: "bool \<Rightarrow> nat \<Rightarrow> lheap \<Rightarrow> lheap" where
  "C_reset counter l h = (if counter then set_count l 0 h else h)"

definition C_inc :: "bool \<Rightarrow> nat \<Rightarrow> lheap \<Rightarrow> lheap" where
  "C_inc counter l h = (if counter then set_count l (l_count h l + 1) h else h)"

definition C_dec :: "bool \<Rightarrow> nat \<Rightarrow> lheap \<Rightarrow> lheap" where
  "C_dec counter l h = (if counter then set_count l (l_count h l - 1) h else h)"

definition C_swap :: "bool \<Rightarrow> nat \<Rightarrow> nat \<Rightarrow> lheap \<Rightarrow> lheap" where
  "C_swap counter l rhs h =
     (if counter then let dummy = l_count h l; h = set_count l (l_count h rhs) h in set_count rhs dummy h else h)"

definition I_set_last :: "bool \<Rightarrow> nat \<Rightarrow> link \<Rightarrow> lheap \<Rightarrow> lheap" where
  "I_set_last fast l p h = (if fast then set_tail l p h else h)"

definition write_prev :: "link option \<Rightarrow> nat \<Rightarrow> lheap \<Rightarrow> lheap" where
  "write_prev p v h = (case p of Some q \<Rightarrow> set_link q v h | None \<Rightarrow> h)"

section \<open>I_P_List\<close>

definition plist_empty :: "bool \<Rightarrow> bool \<Rightarrow> nat \<Rightarrow> lheap \<Rightarrow> lheap" where
  "plist_empty counter fast l h = I_set_last fast l (FirstOf l) (C_reset counter l (set_link (FirstOf l) 0 h))"

definition plist_is_empty :: "nat \<Rightarrow> lheap \<Rightarrow> bool" where
  "plist_is_empty l h \<longleftrightarrow> l_first h l = 0"

definition plist_push_front :: "bool \<Rightarrow> bool \<Rightarrow> nat \<Rightarrow> nat \<Rightarrow> lheap \<Rightarrow> lheap" where
  "plist_push_front counter fast l a h =
     (let h = set_link (NextOf a) (l_first h l) h;
          h = (if l_first h l \<noteq> 0 then set_prev (l_first h l) (Some (NextOf a)) h
               else I_set_last fast l (NextOf a) h);
          h = set_link (FirstOf l) a h;
          h = set_prev a (Some (FirstOf l)) h
      in C_inc counter l h)"

definition plist_push_back :: "bool \<Rightarrow> nat \<Rightarrow> nat \<Rightarrow> lheap \<Rightarrow> lheap" where
  "plist_push_back counter l a h =
     (let lst = l_last h l;
          h = set_link (NextOf a) (get_link h lst) h;
          h = set_link lst a h;
          h = set_prev a (Some lst) h;
          h = I_set_last True l (NextOf a) h
      in C_inc counter l h)"

definition plist_insert_after :: "bool \<Rightarrow> bool \<Rightarrow> nat \<Rightarrow> nat \<Rightarrow> nat \<Rightarrow> lheap \<Rightarrow> lheap" where
  "plist_insert_after counter fast l pos a h =
     (if pos = 0 then plist_push_front counter fast l a h
      else let h = set_link (NextOf a) (l_next h pos) h;
               h = set_prev a (Some (NextOf pos)) h;
               h = set_link (NextOf pos) a h;
               h = (if l_next h a \<noteq> 0
                    then let old_next = l_next h a in set_prev old_next (Some (NextOf a)) h
                    else I_set_last fast l (NextOf a) h)
           in C_inc counter l h)"

definition plist_remove :: "bool \<Rightarrow> bool \<Rightarrow> nat \<Rightarrow> nat \<Rightarrow> lheap \<Rightarrow> lheap" where
  "plist_remove counter fast l a h =
     (let nxt = l_next h a;
          h = (if nxt \<noteq> 0 then set_prev nxt (l_prev h a) h
               else case l_prev h a of Some p \<Rightarrow> I_set_last fast l p h | None \<Rightarrow> h);
          h = write_prev (l_prev h a) nxt h
      in C_dec counter l h)"

definition plist_front :: "nat \<Rightarrow> lheap \<Rightarrow> nat" where
  "plist_front l h = l_first h l"

definition plist_pop_front :: "bool \<Rightarrow> bool \<Rightarrow> nat \<Rightarrow> lheap \<Rightarrow> nat \<times> lheap" where
  "plist_pop_front counter fast l h =
     (let result = plist_front l h
      in if result \<noteq> 0 then (result, plist_remove counter fast l result h) else (result, h))"

text \<open>The parameter of \<open>swap\<close> has the default insertion policy, so neither list keeps a last link.\<close>

definition plist_swap :: "bool \<Rightarrow> nat \<Rightarrow> nat \<Rightarrow> lheap \<Rightarrow> lheap" where
  "plist_swap counter l rhs h =
     (let dummy = l_first h l;
          h = set_link (FirstOf l) (l_first h rhs) h;
          h = set_link (FirstOf rhs) dummy h;
          h = (if l_first h l \<noteq> 0 then set_prev (l_first h l) (Some (FirstOf l)) h
               else I_set_last False l (FirstOf l) h);
          h = (if l_first h rhs \<noteq> 0 then set_prev (l_first h rhs) (Some (FirstOf rhs)) h
               else I_set_last False l (FirstOf rhs) h)
      in C_swap counter l rhs h)"

section \<open>I_P_List_iterator\<close>

record plist_iterator =
  pi_list :: nat
  pi_current :: nat

definition pi_init :: "nat \<Rightarrow> lheap \<Rightarrow> plist_iterator" where
  "pi_init l h = \<lparr>pi_list = l, pi_current = l_first h l\<rparr>"

definition pi_post_incr :: "plist_iterator \<Rightarrow> lheap \<Rightarrow> nat \<times> plist_iterator" where
  "pi_post_incr it h =
     (let result = pi_current it
      in (result, if result \<noteq> 0 then it\<lparr>pi_current := l_next h (pi_current it)\<rparr> else it))"

definition pi_pre_incr :: "plist_iterator \<Rightarrow> lheap \<Rightarrow> nat \<times> plist_iterator" where
  "pi_pre_incr it h = (let it = it\<lparr>pi_current := l_next h (pi_current it)\<rparr> in (pi_current it, it))"

definition pi_rewind :: "plist_iterator \<Rightarrow> lheap \<Rightarrow> plist_iterator" where
  "pi_rewind it h = it\<lparr>pi_current := l_first h (pi_list it)\<rparr>"

text \<open>A client that removes the elements that satisfy \<open>P\<close> while it walks.\<close>

fun plist_remove_if :: "bool \<Rightarrow> bool \<Rightarrow> nat \<Rightarrow> (nat \<Rightarrow> bool) \<Rightarrow> plist_iterator \<Rightarrow> lheap \<Rightarrow> lheap option" where
  "plist_remove_if counter fast 0 P it h = None"
| "plist_remove_if counter fast (Suc fuel) P it h =
     (let (x, it) = pi_post_incr it h
      in if x = 0 then Some h
         else plist_remove_if counter fast fuel P it (if P x then plist_remove counter fast (pi_list it) x h else h))"

section \<open>The list keeps the contract\<close>

definition plist_repr :: "bool \<Rightarrow> bool \<Rightarrow> lheap \<Rightarrow> nat \<Rightarrow> nat list \<Rightarrow> bool" where
  "plist_repr counter fast h l xs \<longleftrightarrow> chain h (FirstOf l) xs 0 \<and> backs h (FirstOf l) xs \<and> distinct xs \<and> 0 \<notin> set xs \<and>
     (fast \<longrightarrow> l_last h l = end_link (FirstOf l) xs) \<and> (counter \<longrightarrow> l_count h l = of_nat (length xs))"

definition plist_linkable :: "nat \<Rightarrow> nat \<Rightarrow> bool" where
  "plist_linkable l a \<longleftrightarrow> a \<noteq> 0"

lemmas plist_policies = C_reset_def C_inc_def C_dec_def C_swap_def I_set_last_def

lemma plist_D:
  assumes "plist_repr counter fast h l xs"
  shows "chain h (FirstOf l) xs 0" "backs h (FirstOf l) xs" "distinct xs" "0 \<notin> set xs"
    "fast \<Longrightarrow> l_last h l = end_link (FirstOf l) xs" "counter \<Longrightarrow> l_count h l = of_nat (length xs)"
  using assms by (simp_all add: plist_repr_def)

lemma plist_first: "plist_repr counter fast h l xs \<Longrightarrow> l_first h l = (if xs = [] then 0 else hd xs)"
  using plist_D(1) by (cases xs) (fastforce simp: heap_simps)+

lemma plist_empty_repr: "plist_repr counter fast (plist_empty counter fast l h) l []"
  by (simp add: plist_repr_def plist_empty_def plist_policies heap_simps)

lemma plist_push_front_repr:
  assumes "plist_repr counter fast h l xs" "a \<notin> set xs" "a \<noteq> 0"
  shows "plist_repr counter fast (plist_push_front counter fast l a h) l (a # xs)"
proof -
  let ?h = "plist_push_front counter fast l a h"
  note r = plist_D[OF assms(1)] and f0 = plist_first[OF assms(1)]
  have f: "l_next ?h = (l_next h)(a := l_first h l)" "l_first ?h = (l_first h)(l := a)"
    "l_prev ?h = (if xs = [] then l_prev h else (l_prev h)(hd xs := Some (NextOf a)))(a := Some (FirstOf l))"
    "counter \<Longrightarrow> l_count ?h l = of_nat (length (a # xs))" "fast \<Longrightarrow> l_last ?h l = end_link (FirstOf l) (a # xs)"
    using f0 r(4,5,6) by (cases xs; auto simp: plist_push_front_def plist_policies heap_simps Let_def)+
  have "chain ?h (NextOf a) xs 0"
    using r(1) assms(2) by (cases xs) (auto simp: heap_simps f intro!: chain_cong[THEN iffD1, rotated 2, of h])
  moreover have "backs ?h (NextOf a) xs"
  proof (cases xs)
    case (Cons x ys)
    have "backs ?h (NextOf x) ys = backs h (NextOf x) ys"
      using r(3) assms(2) Cons by (intro backs_cong) (auto simp: f)
    then show ?thesis using r(2) assms(2) Cons by (auto simp: f)
  qed simp
  ultimately show ?thesis using assms r f by (auto simp: plist_repr_def heap_simps)
qed

lemma plist_push_back_repr:
  assumes "plist_repr counter True h l xs" "a \<notin> set xs" "a \<noteq> 0"
  shows "plist_repr counter True (plist_push_back counter l a h) l (xs @ [a])"
proof -
  note r = plist_D[OF assms(1)]
  let ?p = "end_link (FirstOf l) xs" and ?h = "plist_push_back counter l a h"
  define h1 where "h1 = set_link ?p a h"
  have pa: "?p \<noteq> NextOf a" using assms(2) by (auto simp: end_link_def split: if_splits)
  have last: "l_last h l = ?p" "get_link h ?p = 0" using r(5) chain_end[OF r(1)] by simp_all
  have f: "l_next ?h = (l_next h1)(a := 0)" "l_first ?h = l_first h1" "l_prev ?h = (l_prev h)(a := Some ?p)"
    "l_last ?h l = NextOf a" "counter \<Longrightarrow> l_count ?h l = of_nat (length (xs @ [a]))"
    using last pa r(6) by (cases ?p; auto simp: plist_push_back_def plist_policies heap_simps Let_def h1_def fun_upd_twist)+
  have "chain h1 (FirstOf l) xs a" unfolding h1_def using r(1,3) by (intro chain_set_end) auto
  then have "chain ?h (FirstOf l) xs a"
    using assms(2) by (subst chain_cong[of ?h _ h1]) (auto simp: f heap_simps)
  then have "chain ?h (FirstOf l) (xs @ [a]) 0" by (simp add: chain_append f heap_simps)
  moreover have "backs ?h (FirstOf l) xs"
    using r(2) assms(2) by (subst backs_cong[of _ ?h h]) (auto simp: f)
  ultimately show ?thesis using r assms(2,3) f(4,5) by (auto simp: plist_repr_def backs_append f(3))
qed

lemma plist_remove_eqs:
  assumes "plist_repr counter fast h l (xs @ a # ys)"
  defines "p \<equiv> end_link (FirstOf l) xs" and "z \<equiv> hd (ys @ [0])" and "h' \<equiv> plist_remove counter fast l a h"
  shows "l_prev h a = Some p" "l_next h a = z" "p \<noteq> NextOf a" "z \<noteq> a"
    "l_next h' = l_next (set_link p z h)" "l_first h' = l_first (set_link p z h)"
    "l_prev h' = (if ys = [] then l_prev h else (l_prev h)(z := Some p))"
    "fast \<Longrightarrow> l_last h' l = end_link (FirstOf l) (xs @ ys)" "counter \<Longrightarrow> l_count h' l = of_nat (length (xs @ ys))"
    "k \<noteq> l \<Longrightarrow> l_last h' k = l_last h k \<and> l_count h' k = l_count h k"
proof -
  note r = plist_D[OF assms(1)]
  show pa: "l_prev h a = Some p" using r(2) by (simp add: backs_append p_def)
  have "chain h (NextOf a) ys 0" using r(1) by (simp add: chain_append)
  then show za: "l_next h a = z" by (cases ys) (auto simp: heap_simps z_def)
  show np: "p \<noteq> NextOf a" using r(3) end_link_in[of l xs a] by (auto simp: p_def)
  show zna: "z \<noteq> a" using r(3,4) by (cases ys) (auto simp: z_def)
  have z0: "z = 0 \<longleftrightarrow> ys = []" using r(4) by (cases ys) (auto simp: z_def)
  show "l_next h' = l_next (set_link p z h)" "l_first h' = l_first (set_link p z h)"
    "l_prev h' = (if ys = [] then l_prev h else (l_prev h)(z := Some p))"
    using pa za z0 zna by (cases p; auto simp: h'_def plist_remove_def write_prev_def plist_policies heap_simps Let_def)+
  show "l_last h' l = end_link (FirstOf l) (xs @ ys)" if fast
    using pa za z0 zna r(5)[OF that] that
    by (cases ys) (auto simp: h'_def plist_remove_def write_prev_def plist_policies heap_simps Let_def p_def end_link_append)
  show "l_count h' l = of_nat (length (xs @ ys))" if counter
    using pa za z0 zna r(6)[OF that] that
    by (auto simp: h'_def plist_remove_def write_prev_def plist_policies heap_simps Let_def)
  show "l_last h' k = l_last h k \<and> l_count h' k = l_count h k" if "k \<noteq> l"
    using that pa za zna by (auto simp: h'_def plist_remove_def write_prev_def plist_policies heap_simps Let_def)
qed

lemma plist_remove_repr:
  assumes "plist_repr counter fast h l (xs @ a # ys)"
  shows "plist_repr counter fast (plist_remove counter fast l a h) l (xs @ ys)"
proof -
  note r = plist_D[OF assms(1)] and e = plist_remove_eqs[OF assms]
  let ?p = "end_link (FirstOf l) xs" and ?z = "hd (ys @ [0])" and ?h = "plist_remove counter fast l a h"
  define h1 where "h1 = set_link ?p ?z h"
  have d: "distinct xs" "distinct ys" "a \<notin> set xs" "a \<notin> set ys" "set xs \<inter> set ys = {}" using r(3) by auto
  have px: "chain h (FirstOf l) xs a" "chain h (NextOf a) ys 0" using r(1) by (auto simp: chain_append)
  have "chain h1 (FirstOf l) xs ?z" unfolding h1_def using px(1) d(1) by (intro chain_set_end) auto
  then have c1: "chain ?h (FirstOf l) xs ?z"
    by (subst chain_cong[of ?h _ h1]) (auto simp: e h1_def[symmetric] heap_simps)
  have c2: "chain ?h ?p ys 0"
  proof (cases ys)
    case Nil
    then show ?thesis using chain_end[OF c1] by simp
  next
    case (Cons y us)
    have pn: "?p \<noteq> NextOf x" if "x \<in> set ys" for x using end_link_in[of l xs x] that d(5) by auto
    have "l_next ?h x = l_next h x" if "x \<in> set ys" for x
      using pn[OF that] by (cases ?p) (auto simp: e heap_simps)
    then have "chain ?h (NextOf y) us 0 = chain h (NextOf y) us 0"
      using Cons by (intro chain_cong) (auto simp: heap_simps)
    then show ?thesis using px(2) chain_end[OF c1] Cons by simp
  qed
  have b: "backs h (FirstOf l) xs" "backs h (NextOf a) ys" using r(2) by (auto simp: backs_append)
  have b1: "backs ?h (FirstOf l) xs"
    using b(1) d by (subst backs_cong[of _ ?h h]) (cases ys; auto simp: e)+
  have b2: "backs ?h ?p ys"
  proof (cases ys)
    case (Cons y us)
    have "backs ?h (NextOf y) us = backs h (NextOf y) us"
      using Cons d by (intro backs_cong) (auto simp: e)
    then show ?thesis using b(2) Cons d by (auto simp: e)
  qed simp
  show ?thesis using c1 c2 b1 b2 r d e(8,9) by (auto simp: plist_repr_def chain_append_end backs_append)
qed

lemma plist_insert_after_repr:
  assumes "plist_repr counter fast h l (xs @ pos # ys)" "a \<notin> set (xs @ pos # ys)" "a \<noteq> 0"
  shows "plist_repr counter fast (plist_insert_after counter fast l pos a h) l (xs @ pos # a # ys)"
proof -
  note r = plist_D[OF assms(1)]
  let ?h = "plist_insert_after counter fast l pos a h" and ?z = "hd (ys @ [0])"
  have d: "pos \<noteq> 0" "pos \<noteq> a" "pos \<notin> set xs" "pos \<notin> set ys" "a \<notin> set xs" "a \<notin> set ys" "set xs \<inter> set ys = {}" "distinct ys"
    using r(3,4) assms(2) by auto
  have px: "chain h (FirstOf l) xs pos" "chain h (NextOf pos) ys 0" using r(1) by (auto simp: chain_append)
  have z: "l_next h pos = ?z" "?z = 0 \<longleftrightarrow> ys = []" using px(2) r(4) by (cases ys; auto simp: heap_simps)+
  have f: "l_next ?h = (l_next h)(a := ?z, pos := a)" "l_first ?h = l_first h"
    "l_prev ?h = (if ys = [] then l_prev h else (l_prev h)(?z := Some (NextOf a)))(a := Some (NextOf pos))"
    "fast \<Longrightarrow> l_last ?h l = end_link (FirstOf l) (xs @ pos # a # ys)"
    "counter \<Longrightarrow> l_count ?h l = of_nat (length (xs @ pos # a # ys))"
    using z d r(5,6) by (cases ys; auto simp: plist_insert_after_def plist_policies heap_simps Let_def end_link_append fun_upd_twist)+
  have "chain ?h (FirstOf l) xs pos" using px(1) d by (subst chain_cong[of ?h _ h]) (auto simp: f heap_simps)
  moreover have "chain ?h (NextOf a) ys 0"
  proof (cases ys)
    case (Cons y us)
    have "chain ?h (NextOf y) us 0 = chain h (NextOf y) us 0"
      using Cons d by (intro chain_cong) (auto simp: f heap_simps)
    then show ?thesis using px(2) d Cons by (simp add: f heap_simps)
  qed (use d in \<open>simp add: f heap_simps\<close>)
  ultimately have c: "chain ?h (FirstOf l) (xs @ pos # a # ys) 0" using d by (simp add: chain_append f heap_simps)
  have b: "backs h (FirstOf l) xs" "l_prev h pos = Some (end_link (FirstOf l) xs)" "backs h (NextOf pos) ys"
    using r(2) by (auto simp: backs_append)
  have "backs ?h (FirstOf l) xs" using b(1) d by (subst backs_cong[of _ ?h h]) (cases ys; auto simp: f)+
  moreover have "backs ?h (NextOf a) ys"
  proof (cases ys)
    case (Cons y us)
    have "backs ?h (NextOf y) us = backs h (NextOf y) us"
      using Cons d by (intro backs_cong) (auto simp: f)
    then show ?thesis using b(3) d Cons by (auto simp: f)
  qed simp
  moreover have "l_prev ?h pos = l_prev h pos" using d by (cases ys) (auto simp: f)
  ultimately have "backs ?h (FirstOf l) (xs @ pos # a # ys)" using b(2) d by (simp add: backs_append f)
  then show ?thesis using c r d assms(3) f(4,5) by (auto simp: plist_repr_def)
qed

lemma plist_frame:
  assumes "plist_repr counter fast h k ys" "l_first h' k = l_first h k" "\<And>x. x \<in> set ys \<Longrightarrow> l_next h' x = l_next h x"
    "\<And>x. x \<in> set ys \<Longrightarrow> l_prev h' x = l_prev h x" "l_last h' k = l_last h k" "l_count h' k = l_count h k"
  shows "plist_repr counter fast h' k ys"
proof -
  note r = plist_D[OF assms(1)]
  have "chain h' (FirstOf k) ys 0 = chain h (FirstOf k) ys 0"
    using assms(2,3) by (intro chain_cong) (auto simp: heap_simps)
  moreover have "backs h' (FirstOf k) ys = backs h (FirstOf k) ys" using assms(4) by (intro backs_cong) auto
  ultimately show ?thesis using assms(5,6) r by (simp add: plist_repr_def)
qed

interpretation plist: intrusive_list "plist_repr counter True" plist_linkable "plist_push_front counter True"
    "plist_push_back counter" "plist_remove counter True" for counter
proof
  fix h l xs k ys a
  assume l: "plist_repr counter True h l xs" and k: "plist_repr counter True h k ys"
    and ne: "l \<noteq> k" "set xs \<inter> set ys = {}" "k \<notin> set xs" "l \<notin> set ys" and a: "a \<notin> set ys" "a \<noteq> k"
  have dis: "x \<in> set ys \<Longrightarrow> x \<notin> set xs" for x using ne(2) by auto
  have hd: "xs \<noteq> [] \<Longrightarrow> hd xs \<notin> set ys" using dis by (cases xs) auto
  have "plist_repr counter True (plist_push_front counter True l a h) k ys"
    using plist_first[OF l] hd ne(1) a
    by (intro plist_frame[OF k]) (auto simp: plist_push_front_def plist_policies heap_simps Let_def)
  moreover have "plist_repr counter True (plist_push_back counter l a h) k ys"
    using ne(1) a plist_D(5)[OF l] set_end_link_frame[OF ne(1), where xs = xs]
    by (intro plist_frame[OF k]) (auto simp: plist_push_back_def plist_policies heap_simps Let_def dis)
  moreover have "plist_repr counter True (plist_remove counter True l a h) k ys" if ax: "a \<in> set xs"
  proof -
    obtain us vs where xs: "xs = us @ a # vs" using split_list[OF ax] by blast
    note e = plist_remove_eqs[OF l[unfolded xs]]
    have "vs \<noteq> [] \<Longrightarrow> hd (vs @ [0]) \<notin> set ys" using dis xs by (cases vs) auto
    then show ?thesis using ne(1) a dis xs set_end_link_frame[OF ne(1), where xs = us] e(10)[of k]
      by (intro plist_frame[OF k]) (auto simp: e)
  qed
  ultimately show "(a \<notin> set xs \<and> plist_linkable l a \<longrightarrow>
        plist_repr counter True (plist_push_front counter True l a h) k ys \<and> plist_repr counter True (plist_push_back counter l a h) k ys) \<and>
      (a \<in> set xs \<longrightarrow> plist_repr counter True (plist_remove counter True l a h) k ys)" by blast
qed (simp_all add: plist_push_front_repr plist_push_back_repr plist_remove_repr plist_D(3) plist_linkable_def)

section \<open>Walking and swapping\<close>

lemma plist_remove_if_spec:
  assumes "plist_repr counter fast h l (xs @ ys)" "pi_list it = l" "pi_current it = hd (ys @ [0])" "length ys < fuel"
  shows "\<exists>h'. plist_remove_if counter fast fuel P it h = Some h' \<and> plist_repr counter fast h' l (xs @ filter (\<lambda>x. \<not> P x) ys)"
  using assms
proof (induction ys arbitrary: xs h it fuel)
  case Nil
  then show ?case by (cases fuel) (auto simp: pi_post_incr_def)
next
  case (Cons y ys)
  obtain k where k: "fuel = Suc k" "length ys < k" using Cons.prems(4) by (cases fuel) auto
  let ?it = "it\<lparr>pi_current := hd (ys @ [0])\<rparr>"
  have y: "y \<noteq> 0" using plist_D(4)[OF Cons.prems(1)] by auto
  have "pi_post_incr it h = (y, ?it)"
    using Cons.prems(3) y plist_remove_eqs(2)[OF Cons.prems(1)] by (simp add: pi_post_incr_def)
  then have step: "plist_remove_if counter fast fuel P it h =
      plist_remove_if counter fast k P ?it (if P y then plist_remove counter fast l y h else h)"
    using k y Cons.prems(2) by simp
  show ?case
  proof (cases "P y")
    case True
    then show ?thesis using Cons.IH[of "plist_remove counter fast l y h" xs ?it k] Cons.prems k step
      by (simp add: plist_remove_repr)
  next
    case False
    then show ?thesis using Cons.IH[of h "xs @ [y]" ?it k] Cons.prems k step by simp
  qed
qed

lemma plist_swap_side:
  assumes "plist_repr counter False h k ys" "l_first h' l = l_first h k" "l_next h' = l_next h"
    "l_prev h' = (if ys = [] then l_prev h'' else (l_prev h'')(hd ys := Some (FirstOf l)))"
    "\<And>y. y \<in> set (tl ys) \<Longrightarrow> l_prev h'' y = l_prev h y" "counter \<Longrightarrow> l_count h' l = l_count h k"
  shows "plist_repr counter False h' l ys"
proof (cases ys)
  case Nil
  then show ?thesis using assms by (auto simp: plist_repr_def heap_simps)
next
  case (Cons y us)
  note r = plist_D[OF assms(1)]
  have "chain h' (NextOf y) us 0 = chain h (NextOf y) us 0" by (intro chain_cong) (auto simp: assms(3) heap_simps)
  moreover have "backs h' (NextOf y) us = backs h (NextOf y) us"
    using r(3) Cons assms(4,5) by (intro backs_cong) auto
  ultimately show ?thesis using r Cons assms(2,4,6) by (auto simp: plist_repr_def heap_simps)
qed

lemma plist_swap_repr:
  assumes "plist_repr counter False h l xs" "plist_repr counter False h k ys" "l \<noteq> k" "set xs \<inter> set ys = {}"
  shows "plist_repr counter False (plist_swap counter l k h) l ys" "plist_repr counter False (plist_swap counter l k h) k xs"
proof -
  let ?h = "plist_swap counter l k h"
  note fx = plist_first[OF assms(1)] and fy = plist_first[OF assms(2)]
  have nz: "zs \<noteq> [] \<Longrightarrow> 0 \<notin> set zs \<Longrightarrow> hd zs \<noteq> 0" for zs :: "nat list" by (cases zs) auto
  note nz = nz[OF _ plist_D(4)[OF assms(1)]] nz[OF _ plist_D(4)[OF assms(2)]]
  have ne: "xs \<noteq> [] \<Longrightarrow> ys \<noteq> [] \<Longrightarrow> hd xs \<noteq> hd ys" using assms(4) by (cases xs; cases ys) auto
  have f: "l_next ?h = l_next h" "l_first ?h l = l_first h k" "l_first ?h k = l_first h l"
    "counter \<Longrightarrow> l_count ?h l = l_count h k" "counter \<Longrightarrow> l_count ?h k = l_count h l"
    using assms(3) by (auto simp: plist_swap_def plist_policies heap_simps Let_def)
  let ?py = "if ys = [] then l_prev h else (l_prev h)(hd ys := Some (FirstOf l))"
  let ?px = "if xs = [] then l_prev h else (l_prev h)(hd xs := Some (FirstOf k))"
  have p: "l_prev ?h = (if xs = [] then ?py else ?py(hd xs := Some (FirstOf k)))"
    using assms(3) fx fy nz by (auto simp: plist_swap_def plist_policies heap_simps Let_def)
  have p': "l_prev ?h = (if ys = [] then ?px else ?px(hd ys := Some (FirstOf l)))"
    using p ne by (auto simp: fun_upd_twist)
  have dis: "xs \<noteq> [] \<Longrightarrow> hd xs \<notin> set (tl ys)" "ys \<noteq> [] \<Longrightarrow> hd ys \<notin> set (tl xs)"
    using assms(4) by (cases xs; cases ys; auto)+
  show "plist_repr counter False ?h l ys"
    using dis f by (intro plist_swap_side[OF assms(2), of ?h l "h\<lparr>l_prev := ?px\<rparr>"]) (auto simp: p')
  show "plist_repr counter False ?h k xs"
    using dis f by (intro plist_swap_side[OF assms(1), of ?h k "h\<lparr>l_prev := ?py\<rparr>"]) (auto simp: p)
qed

section \<open>Properties\<close>

text \<open>Every admissible sequence of \<open>push_front\<close>, \<open>push_back\<close> and \<open>remove\<close> on a well-formed \<open>I_P_List\<close>
  with fast push-back, counting or not, gives the well-formed list (links, back links, last
  link and count) that the same operations on sequences give, and an element can be moved
  from one list to another.\<close>

theorem plist_refines:
  assumes "plist_repr counter True h l xs"
  shows "(abs_ops ps xs = Some zs \<and> (\<forall>p \<in> set ps. op_elem p \<noteq> 0) \<longrightarrow>
      plist_repr counter True (fold (conc_op (plist_push_front counter True) (plist_push_back counter) (plist_remove counter True) l) ps h) l zs) \<and>
    (xs = us @ a # vs \<and> plist_repr counter True h k ys \<and> l \<noteq> k \<and> set xs \<inter> set ys = {} \<and> k \<notin> set xs \<and> l \<notin> set ys \<and> a \<noteq> l \<longrightarrow>
      plist_repr counter True (plist_push_back counter k a (plist_remove counter True l a h)) l (us @ vs) \<and>
      plist_repr counter True (plist_push_back counter k a (plist_remove counter True l a h)) k (ys @ [a]))"
proof (intro conjI impI; (elim conjE)?)
  show "plist_repr counter True (fold (conc_op (plist_push_front counter True) (plist_push_back counter) (plist_remove counter True) l) ps h) l zs"
    if "abs_ops ps xs = Some zs" "\<forall>p \<in> set ps. op_elem p \<noteq> 0"
    using plist.ops_simulate[OF assms that(1)] that(2) by (simp add: plist_linkable_def)
  assume xs: "xs = us @ a # vs" and k: "plist_repr counter True h k ys" "l \<noteq> k" "set xs \<inter> set ys = {}" "k \<notin> set xs" "l \<notin> set ys" "a \<noteq> l"
  have "plist_linkable k a" using plist_D(4)[OF assms] xs by (auto simp: plist_linkable_def)
  note mv = plist.move_elem[OF assms[unfolded xs] k(1,2) k(3)[unfolded xs] k(4)[unfolded xs] k(5) this k(6)]
  show "plist_repr counter True (plist_push_back counter k a (plist_remove counter True l a h)) l (us @ vs)" by (rule mv(1))
  show "plist_repr counter True (plist_push_back counter k a (plist_remove counter True l a h)) k (ys @ [a])" by (rule mv(2))
qed

text \<open>\<open>insert_after\<close> puts an element behind a given one, or in front when there is none;
  \<open>pop_front\<close> removes the first element; \<open>swap\<close> exchanges two lists that keep no last link;
  walking the list while removing the current element visits every element and ends.\<close>

theorem plist_edit:
  assumes "plist_repr counter fast h l xs"
  shows "(a \<notin> set xs \<and> a \<noteq> 0 \<longrightarrow> plist_repr counter fast (plist_insert_after counter fast l 0 a h) l (a # xs)) \<and>
    (xs = us @ p # vs \<and> a \<notin> set xs \<and> a \<noteq> 0 \<longrightarrow> plist_repr counter fast (plist_insert_after counter fast l p a h) l (us @ p # a # vs)) \<and>
    plist_repr counter fast (snd (plist_pop_front counter fast l h)) l (tl xs) \<and>
    fst (plist_pop_front counter fast l h) = (if xs = [] then 0 else hd xs) \<and>
    (\<not> fast \<and> plist_repr counter fast h k ys \<and> l \<noteq> k \<and> set xs \<inter> set ys = {} \<longrightarrow>
       plist_repr counter fast (plist_swap counter l k h) l ys \<and> plist_repr counter fast (plist_swap counter l k h) k xs) \<and>
    (\<exists>h'. plist_remove_if counter fast (Suc (length xs)) P (pi_init l h) h = Some h' \<and>
       plist_repr counter fast h' l (filter (\<lambda>x. \<not> P x) xs))"
proof (intro conjI impI; (elim conjE)?)
  note f = plist_first[OF assms] and r = plist_D[OF assms]
  show "plist_repr counter fast (plist_insert_after counter fast l 0 a h) l (a # xs)" if "a \<notin> set xs" "a \<noteq> 0"
    using plist_push_front_repr[OF assms that] by (simp add: plist_insert_after_def)
  show "plist_repr counter fast (plist_insert_after counter fast l p a h) l (us @ p # a # vs)" if "xs = us @ p # vs" "a \<notin> set xs" "a \<noteq> 0"
    using plist_insert_after_repr assms that by simp
  show "plist_repr counter fast (snd (plist_pop_front counter fast l h)) l (tl xs)"
    using f r(4) assms plist_remove_repr[of counter fast h l "[]"] by (cases xs) (auto simp: plist_pop_front_def plist_front_def)
  show "fst (plist_pop_front counter fast l h) = (if xs = [] then 0 else hd xs)"
    using f r(4) by (cases xs) (auto simp: plist_pop_front_def plist_front_def)
  show "\<exists>h'. plist_remove_if counter fast (Suc (length xs)) P (pi_init l h) h = Some h' \<and>
       plist_repr counter fast h' l (filter (\<lambda>x. \<not> P x) xs)"
    using plist_remove_if_spec[of counter fast h l "[]" xs "pi_init l h" "Suc (length xs)" P] assms f
    by (cases xs) (simp_all add: pi_init_def)
  assume k: "\<not> fast" "plist_repr counter fast h k ys" "l \<noteq> k" "set xs \<inter> set ys = {}"
  then show "plist_repr counter fast (plist_swap counter l k h) l ys" "plist_repr counter fast (plist_swap counter l k h) k xs"
    using plist_swap_repr[of counter h l xs k ys] assms by simp_all
qed

definition demo_lheap :: lheap where
  "demo_lheap = \<lparr>l_next = (\<lambda>_. 0)(5 := 6), l_prev = (\<lambda>_. None)(5 := Some (FirstOf 1), 6 := Some (NextOf 5)),
     l_first = (\<lambda>_. 0)(1 := 5), l_last = FirstOf(1 := NextOf 6), l_count = (\<lambda>_. 0)(1 := 2)\<rparr>"

lemma demo_plists: "plist_repr True True demo_lheap 1 [5, 6]" "plist_repr True True demo_lheap 2 []"
  by code_simp+

theorem plist_refines_witness:
  "plist_repr True True (plist_push_back True 2 5 (plist_remove True True 1 5 demo_lheap)) 2 [5]"
  using plist_refines[OF demo_plists(1), of "[]" "[5, 6]" "[]" 5 "[6]" 2 "[]"] demo_plists(2) by simp

theorem plist_edit_witness:
  "plist_repr True True (plist_insert_after True True 1 5 7 demo_lheap) 1 [5, 7, 6]"
  using plist_edit[OF demo_plists(1), of 7 "[]" 5 "[6]"] by simp

end
