(* ===== verification/Ilist.thy ===== *)
theory Ilist
  imports Intrusive_List
begin

text \<open>
  \<open>ilist\<close> and \<open>sized_ilist\<close> of \<open>ilist.h\<close>: a ring of nodes through a sentinel that is a member of
  the list object. A list is named by the address of its sentinel, an iterator is the node
  it points to; a failed \<open>DBUG_ASSERT\<close> is \<open>None\<close>, and as in the builds with assertions an erased
  node gets null links. The list keeps the contract of \<open>Intrusive_List\<close>, except for \<open>pop_back\<close>.
\<close>

section \<open>ilist\<close>

record rheap =
  r_next :: "nat \<Rightarrow> nat"
  r_prev :: "nat \<Rightarrow> nat"
  r_size :: "nat \<Rightarrow> ulonglong"

definition ring_set :: "nat \<Rightarrow> nat \<Rightarrow> nat \<Rightarrow> rheap \<Rightarrow> rheap" where
  "ring_set n nxt prv h = h\<lparr>r_next := (r_next h)(n := nxt), r_prev := (r_prev h)(n := prv)\<rparr>"

definition set_next :: "nat \<Rightarrow> nat \<Rightarrow> rheap \<Rightarrow> rheap" where
  "set_next n v h = h\<lparr>r_next := (r_next h)(n := v)\<rparr>"

definition set_prev_node :: "nat \<Rightarrow> nat \<Rightarrow> rheap \<Rightarrow> rheap" where
  "set_prev_node n v h = h\<lparr>r_prev := (r_prev h)(n := v)\<rparr>"

definition Iterator_make :: "nat \<Rightarrow> nat option" where
  "Iterator_make node = (if node \<noteq> 0 then Some node else None)"

definition Iterator_next :: "nat \<Rightarrow> rheap \<Rightarrow> nat option" where
  "Iterator_next node h = Iterator_make (r_next h node)"

definition Iterator_prev :: "nat \<Rightarrow> rheap \<Rightarrow> nat option" where
  "Iterator_prev node h = Iterator_make (r_prev h node)"

definition il_construct :: "nat \<Rightarrow> rheap \<Rightarrow> rheap" where
  "il_construct l h = ring_set l l l h"

definition il_begin :: "nat \<Rightarrow> rheap \<Rightarrow> nat option" where
  "il_begin l h = Iterator_make (r_next h l)"

definition il_end :: "nat \<Rightarrow> nat option" where
  "il_end l = Iterator_make l"

definition il_front :: "nat \<Rightarrow> rheap \<Rightarrow> nat option" where
  "il_front l h = il_begin l h"

definition il_back :: "nat \<Rightarrow> rheap \<Rightarrow> nat option" where
  "il_back l h = (case il_end l of None \<Rightarrow> None | Some e \<Rightarrow> Iterator_prev e h)"

definition il_empty :: "nat \<Rightarrow> rheap \<Rightarrow> bool" where
  "il_empty l h \<longleftrightarrow> r_next h l = l"

definition il_clear :: "nat \<Rightarrow> rheap \<Rightarrow> rheap" where
  "il_clear l h = set_prev_node l l (set_next l l h)"

definition il_insert :: "nat \<Rightarrow> nat \<Rightarrow> rheap \<Rightarrow> rheap" where
  "il_insert pos value h =
     (let curr = pos;
          prev = r_prev h pos;
          h = set_next prev value h;
          h = set_prev_node curr value h;
          h = set_prev_node value prev h
      in set_next value curr h)"

definition il_erase :: "nat \<Rightarrow> rheap \<Rightarrow> rheap" where
  "il_erase pos h =
     (let prev = r_prev h pos;
          nxt = r_next h pos;
          h = set_next prev nxt h;
          h = set_prev_node nxt prev h;
          curr = pos;
          h = set_prev_node curr 0 h
      in set_next curr 0 h)"

definition il_push_back :: "nat \<Rightarrow> nat \<Rightarrow> rheap \<Rightarrow> rheap" where
  "il_push_back l value h = il_insert l value h"

definition il_pop_back :: "nat \<Rightarrow> rheap \<Rightarrow> rheap" where
  "il_pop_back l h = il_erase l h"

definition il_push_front :: "nat \<Rightarrow> nat \<Rightarrow> rheap \<Rightarrow> rheap" where
  "il_push_front l value h = il_insert (r_next h l) value h"

definition il_pop_front :: "nat \<Rightarrow> rheap \<Rightarrow> rheap" where
  "il_pop_front l h = il_erase (r_next h l) h"

definition il_remove :: "nat \<Rightarrow> nat \<Rightarrow> rheap \<Rightarrow> rheap" where
  "il_remove l value h = il_erase value h"

section \<open>sized_ilist\<close>

definition set_size :: "nat \<Rightarrow> ulonglong \<Rightarrow> rheap \<Rightarrow> rheap" where
  "set_size l n h = h\<lparr>r_size := (r_size h)(l := n)\<rparr>"

definition sized_clear :: "nat \<Rightarrow> rheap \<Rightarrow> rheap" where
  "sized_clear l h = set_size l 0 (il_clear l h)"

definition sized_insert :: "nat \<Rightarrow> nat \<Rightarrow> nat \<Rightarrow> rheap \<Rightarrow> rheap" where
  "sized_insert l pos value h = il_insert pos value (set_size l (r_size h l + 1) h)"

definition sized_erase :: "nat \<Rightarrow> nat \<Rightarrow> rheap \<Rightarrow> rheap" where
  "sized_erase l pos h = il_erase pos (set_size l (r_size h l - 1) h)"

definition sized_push_back :: "nat \<Rightarrow> nat \<Rightarrow> rheap \<Rightarrow> rheap" where
  "sized_push_back l value h = sized_insert l l value h"

definition sized_push_front :: "nat \<Rightarrow> nat \<Rightarrow> rheap \<Rightarrow> rheap" where
  "sized_push_front l value h = sized_insert l (r_next h l) value h"

definition sized_pop_back :: "nat \<Rightarrow> rheap \<Rightarrow> rheap" where
  "sized_pop_back l h = sized_erase l l h"

definition sized_pop_front :: "nat \<Rightarrow> rheap \<Rightarrow> rheap" where
  "sized_pop_front l h = sized_erase l (r_next h l) h"

definition sized_remove :: "nat \<Rightarrow> nat \<Rightarrow> rheap \<Rightarrow> rheap" where
  "sized_remove l value h = sized_erase l value h"

section \<open>Rings\<close>

fun ring :: "rheap \<Rightarrow> nat \<Rightarrow> nat list \<Rightarrow> nat \<Rightarrow> bool" where
  "ring h p [] q \<longleftrightarrow> r_next h p = q \<and> r_prev h q = p"
| "ring h p (x # xs) q \<longleftrightarrow> r_next h p = x \<and> r_prev h x = p \<and> ring h x xs q"

definition il_repr :: "rheap \<Rightarrow> nat \<Rightarrow> nat list \<Rightarrow> bool" where
  "il_repr h l xs \<longleftrightarrow> ring h l xs l \<and> distinct (l # xs) \<and> 0 \<notin> set (l # xs)"

definition sized_repr :: "rheap \<Rightarrow> nat \<Rightarrow> nat list \<Rightarrow> bool" where
  "sized_repr h l xs \<longleftrightarrow> il_repr h l xs \<and> r_size h l = of_nat (length xs)"

definition il_linkable :: "nat \<Rightarrow> nat \<Rightarrow> bool" where
  "il_linkable l a \<longleftrightarrow> a \<noteq> l \<and> a \<noteq> 0"

lemma ring_append: "ring h p (xs @ y # ys) q \<longleftrightarrow> ring h p xs y \<and> ring h y ys q"
  by (induction xs arbitrary: p) auto

lemma ring_last: "ring h p xs q \<Longrightarrow> r_next h (last (p # xs)) = q \<and> r_prev h q = last (p # xs)"
proof (induction xs arbitrary: p)
  case (Cons x xs)
  then show ?case using Cons.IH[of x] by simp
qed simp

lemma ring_first: "ring h p xs q \<Longrightarrow> r_next h p = hd (xs @ [q]) \<and> r_prev h (hd (xs @ [q])) = p"
  by (cases xs) auto

lemma ring_set_end:
  assumes "ring h p xs q" "distinct (p # xs)" "w = last (p # xs)" "\<And>x. x \<in> set xs \<Longrightarrow> r_prev h' x = r_prev h x"
    "\<And>x. x \<in> insert p (set xs) \<Longrightarrow> x \<noteq> w \<Longrightarrow> r_next h' x = r_next h x" "r_next h' w = v" "r_prev h' v = w"
  shows "ring h' p xs v"
  using assms
proof (induction xs arbitrary: p)
  case (Cons x xs)
  have w: "w = last (x # xs)" using Cons.prems(3) by simp
  then have "w \<in> set (x # xs)" using last_in_set[of "x # xs"] by simp
  then have "p \<noteq> w" using Cons.prems(2) by auto
  then show ?case using Cons.IH[of x] Cons.prems w by simp
qed simp

lemma ring_cong:
  assumes "ring h p xs q" "distinct (p # xs)" "\<And>x. x \<in> insert q (set xs) \<Longrightarrow> r_prev h' x = r_prev h x"
    "\<And>x. x \<in> insert p (set xs) \<Longrightarrow> r_next h' x = r_next h x"
  shows "ring h' p xs q"
proof -
  define w where "w = last (p # xs)"
  have "w \<in> insert p (set xs)" using last_in_set[of "p # xs"] by (simp add: w_def)
  moreover have "r_next h w = q" "r_prev h q = w" using ring_last[OF assms(1)] by (simp_all add: w_def)
  ultimately have "r_next h' w = q" "r_prev h' q = w" using assms(3)[of q] assms(4)[of w] by auto
  then show ?thesis using assms(3,4) by (intro ring_set_end[OF assms(1,2) w_def]) auto
qed

lemma last_Cons_in: "last (l # us) \<in> insert l (set us)"
  using last_in_set[of "l # us"] by simp

lemma il_insert_ring:
  assumes "ring h l us c" "distinct (l # us)" "v \<notin> set (l # us)" "v \<noteq> c" "c \<notin> set us"
  defines "h' \<equiv> il_insert c v h" and "w \<equiv> last (l # us)"
  shows "ring h' l us v" "ring h' v [] c" "r_next h' = (r_next h)(w := v, v := c)" "r_prev h' = (r_prev h)(c := v, v := w)"
proof -
  have w: "r_prev h c = w" "w \<in> insert l (set us)" using ring_last[OF assms(1)] last_Cons_in by (simp_all add: w_def)
  then have wv: "w \<noteq> v" using assms(3) by auto
  show n: "r_next h' = (r_next h)(w := v, v := c)" and p: "r_prev h' = (r_prev h)(c := v, v := w)"
    using w by (simp_all add: h'_def il_insert_def Let_def set_next_def set_prev_node_def)
  show "ring h' l us v" using wv assms(3-5)
    by (intro ring_set_end[OF assms(1,2) w_def[THEN meta_eq_to_obj_eq]]) (auto simp: n p)
  show "ring h' v [] c" using assms(4) by (simp add: n p)
qed

text \<open>Insertion before the element \<open>c\<close> that follows \<open>us\<close> (the sentinel when \<open>vs\<close> is empty).\<close>

lemma il_insert_repr:
  assumes "il_repr h l (us @ vs)" "v \<notin> set (us @ vs)" "il_linkable l v"
  shows "il_repr (il_insert (hd (vs @ [l])) v h) l (us @ v # vs)"
proof (cases vs)
  case Nil
  have r: "ring h l us l" "distinct (l # us)" "v \<notin> set (l # us)" "v \<noteq> l" "l \<notin> set us"
    using assms Nil by (auto simp: il_repr_def il_linkable_def)
  from il_insert_ring(1,2)[OF r] show ?thesis using assms Nil by (auto simp: il_repr_def il_linkable_def ring_append)
next
  case (Cons c ws)
  have r: "ring h l us c" "distinct (l # us)" "v \<notin> set (l # us)" "v \<noteq> c" "c \<notin> set us"
    and t: "ring h c ws l" "distinct (c # ws)" "c \<notin> set ws" "c \<noteq> l" "v \<notin> set ws" "set (l # us) \<inter> set (c # ws) = {}"
    using assms Cons by (auto simp: il_repr_def il_linkable_def ring_append)
  note i = il_insert_ring[OF r]
  have "last (l # us) \<notin> set (c # ws)" using t(6) last_Cons_in[of l us] by auto
  then have "ring (il_insert c v h) c ws l" using r(3,4) t
    by (intro ring_cong[OF t(1,2)]) (auto simp: i(3,4) simp del: last.simps)
  then show ?thesis using i(1,2) assms Cons by (auto simp: il_repr_def il_linkable_def ring_append)
qed

lemma il_erase_repr:
  assumes "il_repr h l (us @ a # vs)"
  defines "w \<equiv> last (l # us)" and "c \<equiv> hd (vs @ [l])" and "h' \<equiv> il_erase a h"
  shows "il_repr h' l (us @ vs)" "r_next h' = (r_next h)(w := c, a := 0)" "r_prev h' = (r_prev h)(c := w, a := 0)"
proof -
  have r: "ring h l us a" "ring h a vs l" "distinct (l # us)" "a \<notin> set (l # us)" "a \<notin> set (l # vs)"
    "set us \<inter> set vs = {}" "l \<notin> set vs" "distinct vs"
    using assms(1) by (auto simp: il_repr_def ring_append)
  have wa: "r_prev h a = w" "r_next h a = c" using ring_last[OF r(1)] ring_first[OF r(2)] by (simp_all add: w_def c_def)
  have w: "w \<in> set (l # us)" "w \<noteq> a" using r(4) last_Cons_in[of l us] unfolding w_def[symmetric] by auto
  have c: "c \<in> insert l (set vs)" "c \<noteq> a" using r(5) by (cases vs; auto simp: c_def)+
  show n: "r_next h' = (r_next h)(w := c, a := 0)" and p: "r_prev h' = (r_prev h)(c := w, a := 0)"
    using wa by (simp_all add: h'_def il_erase_def Let_def set_next_def set_prev_node_def)
  have "c \<notin> set us" using c(1) r(3,6) by auto
  then have 1: "ring h' l us c" using w c r(4)
    by (intro ring_set_end[OF r(1,3) w_def[THEN meta_eq_to_obj_eq]]) (auto simp: n p)
  have "ring h' l (us @ vs) l"
  proof (cases vs)
    case Nil
    then show ?thesis using 1 by (simp add: c_def)
  next
    case (Cons x ws)
    have "w \<notin> set vs" using w(1) r(6,7) by auto
    moreover have xw: "ring h x ws l" "distinct (x # ws)" using r(2,8) Cons by simp_all
    ultimately have "ring h' x ws l" using r Cons by (intro ring_cong[OF xw]) (auto simp: n p c_def)
    then show ?thesis using 1 Cons by (simp add: ring_append c_def)
  qed
  then show "il_repr h' l (us @ vs)" using assms(1) by (auto simp: il_repr_def)
qed

lemma il_frame:
  assumes "il_repr h k ys" "\<And>x. x \<in> set (k # ys) \<Longrightarrow> r_next h' x = r_next h x \<and> r_prev h' x = r_prev h x"
  shows "il_repr h' k ys"
proof -
  have "ring h k ys k" "distinct (k # ys)" using assms(1) by (simp_all add: il_repr_def)
  then have "ring h' k ys k" by (rule ring_cong) (use assms(2) in auto)
  then show ?thesis using assms(1) by (simp add: il_repr_def)
qed

lemma il_insert_frame:
  assumes "il_repr h l (us @ vs)" "il_repr h k ys" "l \<noteq> k" "set (us @ vs) \<inter> set ys = {}" "k \<notin> set (us @ vs)"
    "l \<notin> set ys" "a \<notin> set ys" "a \<noteq> k"
  shows "il_repr (il_insert (hd (vs @ [l])) a h) k ys"
proof (rule il_frame[OF assms(2)])
  fix x assume x: "x \<in> set (k # ys)"
  let ?c = "hd (vs @ [l])"
  have c: "?c \<in> insert l (set vs)" by (cases vs) auto
  have "ring h l us ?c" using assms(1) by (cases vs) (auto simp: il_repr_def ring_append)
  then have "r_prev h ?c = last (l # us)" using ring_last by blast
  moreover note last_Cons_in[of l us]
  ultimately have "x \<noteq> ?c" "x \<noteq> r_prev h ?c" "x \<noteq> a" using x c assms(3-8) by auto
  then show "r_next (il_insert ?c a h) x = r_next h x \<and> r_prev (il_insert ?c a h) x = r_prev h x"
    by (simp add: il_insert_def Let_def set_next_def set_prev_node_def)
qed

lemma il_begin_repr: "il_repr h l xs \<Longrightarrow> r_next h l = hd (xs @ [l])"
  using ring_first by (auto simp: il_repr_def)

interpretation il: intrusive_list il_repr il_linkable il_push_front il_push_back il_remove
proof
  show "il_repr (il_push_front l a h) l (a # xs)" if "il_repr h l xs" "a \<notin> set xs" "il_linkable l a" for h l xs a
    using il_insert_repr[of h l "[]" xs a] that by (simp add: il_push_front_def il_begin_repr)
  show "il_repr (il_push_back l a h) l (xs @ [a])" if "il_repr h l xs" "a \<notin> set xs" "il_linkable l a" for h l xs a
    using il_insert_repr[of h l xs "[]" a] that by (simp add: il_push_back_def)
  show "il_repr (il_remove l a h) l (xs @ ys)" if "il_repr h l (xs @ a # ys)" for h l xs a ys
    using il_erase_repr(1)[OF that] by (simp add: il_remove_def)
  fix h l xs k ys a
  assume l: "il_repr h l xs" and k: "il_repr h k ys" and ne: "l \<noteq> k" "set xs \<inter> set ys = {}" "k \<notin> set xs" "l \<notin> set ys"
    and a: "a \<notin> set ys" "a \<noteq> k"
  have "il_repr (il_push_front l a h) k ys" "il_repr (il_push_back l a h) k ys"
    using il_insert_frame[of h l "[]" xs k ys a] il_insert_frame[of h l xs "[]" k ys a] l k ne a
    by (simp_all add: il_push_front_def il_push_back_def il_begin_repr)
  moreover have "il_repr (il_remove l a h) k ys" if ax: "a \<in> set xs"
  proof -
    obtain us vs where xs: "xs = us @ a # vs" using split_list[OF ax] by blast
    note e = il_erase_repr(2,3)[OF l[unfolded xs]]
    have "hd (vs @ [l]) \<in> insert l (set vs)" by (cases vs) auto
    then show ?thesis using ne a xs last_Cons_in[of l us]
      by (intro il_frame[OF k]) (auto simp: il_remove_def e simp del: last.simps)
  qed
  ultimately show "(a \<notin> set xs \<and> il_linkable l a \<longrightarrow> il_repr (il_push_front l a h) k ys \<and> il_repr (il_push_back l a h) k ys) \<and>
      (a \<in> set xs \<longrightarrow> il_repr (il_remove l a h) k ys)" by blast
qed (simp add: il_repr_def)

section \<open>Properties\<close>

lemma set_size_repr: "il_repr (set_size l n h) k xs = il_repr h k xs"
  using il_frame[of h k xs "set_size l n h"] il_frame[of "set_size l n h" k xs h] by (auto simp: set_size_def)

lemma r_size_links [simp]: "r_size (il_insert p v h) = r_size h" "r_size (il_erase p h) = r_size h"
  "r_size (set_size l n h) = (r_size h)(l := n)" "r_next (set_size l n h) = r_next h"
  "r_size (il_push_front l v h) = r_size h" "r_size (il_push_back l v h) = r_size h" "r_size (il_remove l v h) = r_size h"
  by (simp_all add: il_push_front_def il_push_back_def il_remove_def il_insert_def il_erase_def set_next_def set_prev_node_def set_size_def Let_def)

interpretation sized: intrusive_list sized_repr il_linkable sized_push_front sized_push_back sized_remove
proof
  note defs = sized_repr_def sized_push_front_def sized_push_back_def sized_remove_def sized_insert_def sized_erase_def
  have eqs: "sized_push_front l a h = il_push_front l a (set_size l (r_size h l + 1) h)"
    "sized_push_back l a h = il_push_back l a (set_size l (r_size h l + 1) h)"
    "sized_remove l a h = il_remove l a (set_size l (r_size h l - 1) h)" for l a h
    by (simp_all add: defs il_push_front_def il_push_back_def il_remove_def)
  show "distinct xs" if "sized_repr h l xs" for h l xs using that by (simp add: sized_repr_def il_repr_def)
  show "sized_repr (sized_push_front l a h) l (a # xs)" if "sized_repr h l xs" "a \<notin> set xs" "il_linkable l a" for h l xs a
    using that il.pf_repr[of "set_size l (r_size h l + 1) h" l xs a] by (simp add: sized_repr_def eqs(1) set_size_repr)
  show "sized_repr (sized_push_back l a h) l (xs @ [a])" if "sized_repr h l xs" "a \<notin> set xs" "il_linkable l a" for h l xs a
    using that il.pb_repr[of "set_size l (r_size h l + 1) h" l xs a] by (simp add: sized_repr_def eqs(2) set_size_repr)
  show "sized_repr (sized_remove l a h) l (xs @ ys)" if "sized_repr h l (xs @ a # ys)" for h l xs a ys
    using that il.rm_repr[of "set_size l (r_size h l - 1) h" l xs a ys] by (simp add: sized_repr_def eqs(3) set_size_repr)
  fix h l xs k ys a
  assume *: "sized_repr h l xs" "sized_repr h k ys" "l \<noteq> k" "set xs \<inter> set ys = {}" "k \<notin> set xs" "l \<notin> set ys" "a \<notin> set ys" "a \<noteq> k"
  have fr: "(a \<notin> set xs \<and> il_linkable l a \<longrightarrow> il_repr (il_push_front l a (set_size l n h)) k ys \<and> il_repr (il_push_back l a (set_size l n h)) k ys) \<and>
      (a \<in> set xs \<longrightarrow> il_repr (il_remove l a (set_size l n h)) k ys)" for n
    using * by (intro il.frame) (auto simp: sized_repr_def set_size_repr)
  show "(a \<notin> set xs \<and> il_linkable l a \<longrightarrow> sized_repr (sized_push_front l a h) k ys \<and> sized_repr (sized_push_back l a h) k ys) \<and>
      (a \<in> set xs \<longrightarrow> sized_repr (sized_remove l a h) k ys)"
    using fr[of "r_size h l + 1"] fr[of "r_size h l - 1"] *(2,3) by (auto simp: sized_repr_def eqs)
qed

text \<open>Every admissible sequence of \<open>push_front\<close>, \<open>push_back\<close> and \<open>remove\<close> on a well-formed \<open>ilist\<close>, and on
  a \<open>sized_ilist\<close> with its size, gives the ring that the same operations on sequences give;
  \<open>insert\<close> puts an element before any position.\<close>

theorem ilist_refines:
  assumes "abs_ops ps xs = Some ys" "\<forall>p \<in> set ps. il_linkable l (op_elem p)"
  shows "(il_repr h l xs \<longrightarrow> il_repr (fold (conc_op il_push_front il_push_back il_remove l) ps h) l ys) \<and>
    (sized_repr h l xs \<longrightarrow> sized_repr (fold (conc_op sized_push_front sized_push_back sized_remove l) ps h) l ys) \<and>
    (il_repr h l (us @ vs) \<and> v \<notin> set (us @ vs) \<and> il_linkable l v \<longrightarrow>
       il_repr (il_insert (hd (vs @ [l])) v h) l (us @ v # vs))"
  using il.ops_simulate[OF _ assms] sized.ops_simulate[OF _ assms] il_insert_repr[of h l us vs v] by blast

definition blank_ring :: rheap where
  "blank_ring = \<lparr>r_next = (\<lambda>_. 0), r_prev = (\<lambda>_. 0), r_size = (\<lambda>_. 0)\<rparr>"

theorem ilist_refines_witness:
  "sized_repr (fold (conc_op sized_push_front sized_push_back sized_remove 1)
     [PushBack 5, PushFront 6, PushBack 7, RemoveElem 5] (il_construct 1 blank_ring)) 1 [6, 7]"
proof -
  have "sized_repr (il_construct 1 blank_ring) 1 []" by code_simp
  then show ?thesis
    using ilist_refines[of "[PushBack 5, PushFront 6, PushBack 7, RemoveElem 5]" "[]" "[6, 7]" 1 "il_construct 1 blank_ring" "[]" "[]" 0]
    by (simp add: il_linkable_def)
qed

text \<open>\<open>pop_front\<close> removes the first element and \<open>front\<close> and \<open>back\<close> are the ends of the list, but
  \<open>pop_back\<close> erases the sentinel that \<open>end()\<close> points to instead of the last element: afterwards the
  list object is not a list of any elements and \<open>begin()\<close> fails its assertion, while no element
  was unlinked.\<close>

theorem ilist_pop:
  assumes "il_repr h l (x # xs)"
  shows "il_repr (il_pop_front l h) l xs \<and> il_front l h = Some x \<and> il_back l h = Some (last (x # xs)) \<and>
    (\<forall>ys. \<not> il_repr (il_pop_back l h) l ys) \<and> il_begin l (il_pop_back l h) = None \<and>
    ring (il_pop_back l h) x xs x"
proof -
  have r: "ring h l (x # xs) l" "distinct (l # x # xs)" "0 \<notin> set (l # x # xs)" using assms by (simp_all add: il_repr_def)
  define w where "w = last (x # xs)"
  have f: "r_next h l = x" and b: "r_prev h l = w" using r(1) ring_last[OF r(1)] by (simp_all add: w_def)
  have w: "w \<in> insert x (set xs)" using last_Cons_in[of x xs] by (simp add: w_def)
  have n: "r_next (il_pop_back l h) = (r_next h)(w := x, l := 0)" and p: "r_prev (il_pop_back l h) = (r_prev h)(x := w, l := 0)"
    by (simp_all add: il_pop_back_def il_erase_def f b Let_def set_next_def set_prev_node_def)
  have xl: "ring h x xs l" "distinct (x # xs)" using r(1,2) by simp_all
  then have "ring (il_pop_back l h) x xs x" using r(2) w
    by (intro ring_set_end[OF xl w_def]) (auto simp: n p)
  moreover have "\<not> il_repr (il_pop_back l h) l ys" for ys
    by (cases ys) (auto simp: il_repr_def n)
  moreover have "il_repr (il_pop_front l h) l xs"
    using il_erase_repr(1)[of h l "[]" x xs] assms by (simp add: il_pop_front_def f)
  moreover have "w \<noteq> 0" "x \<noteq> 0" "l \<noteq> 0" using r(3) w by (metis insert_iff list.set(2))+
  ultimately show ?thesis
    by (simp add: il_front_def il_begin_def il_back_def il_end_def Iterator_make_def Iterator_prev_def f b n w_def[symmetric] del: last.simps)
qed

theorem ilist_pop_witness:
  "il_begin 1 (il_pop_back 1 (il_push_back 1 5 (il_construct 1 blank_ring))) = None"
proof -
  have "il_repr (il_push_back 1 5 (il_construct 1 blank_ring)) 1 [5]" by code_simp
  from ilist_pop[OF this] show ?thesis by simp
qed

end
