(* ===== verification/Privilege.thy ===== *)
theory Privilege
  imports My_Bit
begin

text \<open>
  \<open>privilege.h\<close>: the privilege bits of the server, the sets of privileges that can be granted at
  each level, the privileges that statements and system variables require, and the
  functions that convert privileges between their in-memory layout and the compact layout
  of the grant tables. A \<open>privilege_t\<close> is an unsigned 64-bit enumeration, so its values are
  64-bit words; its operators are the bitwise operators of words. The lemmas show that the
  conversions are inverse to each other and lose nothing that can be granted.
\<close>

section \<open>privilege_t\<close>

definition NO_ACL :: ulonglong where "NO_ACL = 0"
definition SELECT_ACL :: ulonglong where "SELECT_ACL = push_bit 0 1"
definition INSERT_ACL :: ulonglong where "INSERT_ACL = push_bit 1 1"
definition UPDATE_ACL :: ulonglong where "UPDATE_ACL = push_bit 2 1"
definition DELETE_ACL :: ulonglong where "DELETE_ACL = push_bit 3 1"
definition CREATE_ACL :: ulonglong where "CREATE_ACL = push_bit 4 1"
definition DROP_ACL :: ulonglong where "DROP_ACL = push_bit 5 1"
definition RELOAD_ACL :: ulonglong where "RELOAD_ACL = push_bit 6 1"
definition SHUTDOWN_ACL :: ulonglong where "SHUTDOWN_ACL = push_bit 7 1"
definition PROCESS_ACL :: ulonglong where "PROCESS_ACL = push_bit 8 1"
definition FILE_ACL :: ulonglong where "FILE_ACL = push_bit 9 1"
definition GRANT_ACL :: ulonglong where "GRANT_ACL = push_bit 10 1"
definition REFERENCES_ACL :: ulonglong where "REFERENCES_ACL = push_bit 11 1"
definition INDEX_ACL :: ulonglong where "INDEX_ACL = push_bit 12 1"
definition ALTER_ACL :: ulonglong where "ALTER_ACL = push_bit 13 1"
definition SHOW_DB_ACL :: ulonglong where "SHOW_DB_ACL = push_bit 14 1"
definition SUPER_ACL :: ulonglong where "SUPER_ACL = push_bit 15 1"
definition CREATE_TMP_ACL :: ulonglong where "CREATE_TMP_ACL = push_bit 16 1"
definition LOCK_TABLES_ACL :: ulonglong where "LOCK_TABLES_ACL = push_bit 17 1"
definition EXECUTE_ACL :: ulonglong where "EXECUTE_ACL = push_bit 18 1"
definition REPL_SLAVE_ACL :: ulonglong where "REPL_SLAVE_ACL = push_bit 19 1"
definition BINLOG_MONITOR_ACL :: ulonglong where "BINLOG_MONITOR_ACL = push_bit 20 1"
definition CREATE_VIEW_ACL :: ulonglong where "CREATE_VIEW_ACL = push_bit 21 1"
definition SHOW_VIEW_ACL :: ulonglong where "SHOW_VIEW_ACL = push_bit 22 1"
definition CREATE_PROC_ACL :: ulonglong where "CREATE_PROC_ACL = push_bit 23 1"
definition ALTER_PROC_ACL :: ulonglong where "ALTER_PROC_ACL = push_bit 24 1"
definition CREATE_USER_ACL :: ulonglong where "CREATE_USER_ACL = push_bit 25 1"
definition EVENT_ACL :: ulonglong where "EVENT_ACL = push_bit 26 1"
definition TRIGGER_ACL :: ulonglong where "TRIGGER_ACL = push_bit 27 1"
definition CREATE_TABLESPACE_ACL :: ulonglong where "CREATE_TABLESPACE_ACL = push_bit 28 1"
definition DELETE_HISTORY_ACL :: ulonglong where "DELETE_HISTORY_ACL = push_bit 29 1"
definition SET_USER_ACL :: ulonglong where "SET_USER_ACL = push_bit 30 1"
definition FEDERATED_ADMIN_ACL :: ulonglong where "FEDERATED_ADMIN_ACL = push_bit 31 1"
definition CONNECTION_ADMIN_ACL :: ulonglong where "CONNECTION_ADMIN_ACL = push_bit 32 1"
definition READ_ONLY_ADMIN_ACL :: ulonglong where "READ_ONLY_ADMIN_ACL = push_bit 33 1"
definition REPL_SLAVE_ADMIN_ACL :: ulonglong where "REPL_SLAVE_ADMIN_ACL = push_bit 34 1"
definition REPL_MASTER_ADMIN_ACL :: ulonglong where "REPL_MASTER_ADMIN_ACL = push_bit 35 1"
definition BINLOG_ADMIN_ACL :: ulonglong where "BINLOG_ADMIN_ACL = push_bit 36 1"
definition BINLOG_REPLAY_ACL :: ulonglong where "BINLOG_REPLAY_ACL = push_bit 37 1"
definition SLAVE_MONITOR_ACL :: ulonglong where "SLAVE_MONITOR_ACL = push_bit 38 1"
definition SHOW_CREATE_ROUTINE_ACL :: ulonglong where "SHOW_CREATE_ROUTINE_ACL = push_bit 39 1"

definition ALL_KNOWN_BITS :: "ulonglong \<Rightarrow> ulonglong" where
  "ALL_KNOWN_BITS x = x OR (x - 1)"

definition LAST_100304_ACL :: ulonglong where "LAST_100304_ACL = DELETE_HISTORY_ACL"
definition LAST_100502_ACL :: ulonglong where "LAST_100502_ACL = BINLOG_REPLAY_ACL"
definition LAST_100508_ACL :: ulonglong where "LAST_100508_ACL = SLAVE_MONITOR_ACL"
definition LAST_110300_ACL :: ulonglong where "LAST_110300_ACL = SHOW_CREATE_ROUTINE_ACL"
definition LAST_CURRENT_ACL :: ulonglong where "LAST_CURRENT_ACL = LAST_110300_ACL"

definition PRIVILEGE_T_MAX_BIT :: uint where
  "PRIVILEGE_T_MAX_BIT = my_bit_log2_uint64 LAST_CURRENT_ACL"

definition ALL_KNOWN_ACL_100304 :: ulonglong where "ALL_KNOWN_ACL_100304 = ALL_KNOWN_BITS LAST_100304_ACL"
definition ALL_KNOWN_ACL_100502 :: ulonglong where "ALL_KNOWN_ACL_100502 = ALL_KNOWN_BITS LAST_100502_ACL"
definition ALL_KNOWN_ACL_100508 :: ulonglong where "ALL_KNOWN_ACL_100508 = ALL_KNOWN_BITS LAST_100508_ACL"
definition ALL_KNOWN_ACL_100509 :: ulonglong where "ALL_KNOWN_ACL_100509 = ALL_KNOWN_ACL_100508"
definition ALL_KNOWN_ACL_110300 :: ulonglong where "ALL_KNOWN_ACL_110300 = ALL_KNOWN_BITS LAST_110300_ACL"
definition ALL_KNOWN_ACL :: ulonglong where "ALL_KNOWN_ACL = ALL_KNOWN_BITS LAST_CURRENT_ACL"

section \<open>Sets of privileges\<close>

definition ALLOWED_BY_SUPER_BEFORE_101100 :: ulonglong where
  "ALLOWED_BY_SUPER_BEFORE_101100 = READ_ONLY_ADMIN_ACL"

definition ALLOWED_BY_SUPER_BEFORE_110000 :: ulonglong where
  "ALLOWED_BY_SUPER_BEFORE_110000 = SET_USER_ACL OR FEDERATED_ADMIN_ACL OR CONNECTION_ADMIN_ACL OR REPL_SLAVE_ADMIN_ACL OR
     BINLOG_ADMIN_ACL OR BINLOG_REPLAY_ACL OR SLAVE_MONITOR_ACL OR BINLOG_MONITOR_ACL OR
     REPL_MASTER_ADMIN_ACL"

definition COL_DML_ACLS :: ulonglong where
  "COL_DML_ACLS = SELECT_ACL OR INSERT_ACL OR UPDATE_ACL OR DELETE_ACL"

definition VIEW_ACLS :: ulonglong where
  "VIEW_ACLS = CREATE_VIEW_ACL OR SHOW_VIEW_ACL"

definition STD_TABLE_DDL_ACLS :: ulonglong where
  "STD_TABLE_DDL_ACLS = CREATE_ACL OR DROP_ACL OR ALTER_ACL"

definition ALL_TABLE_DDL_ACLS :: ulonglong where
  "ALL_TABLE_DDL_ACLS = STD_TABLE_DDL_ACLS OR INDEX_ACL"

definition COL_ACLS :: ulonglong where
  "COL_ACLS = SELECT_ACL OR INSERT_ACL OR UPDATE_ACL OR REFERENCES_ACL"

definition PROC_DDL_ACLS :: ulonglong where
  "PROC_DDL_ACLS = CREATE_PROC_ACL OR ALTER_PROC_ACL"

definition SHOW_PROC_WITHOUT_DEFINITION_ACLS :: ulonglong where
  "SHOW_PROC_WITHOUT_DEFINITION_ACLS = PROC_DDL_ACLS OR EXECUTE_ACL"

definition TABLE_ACLS :: ulonglong where
  "TABLE_ACLS = COL_DML_ACLS OR ALL_TABLE_DDL_ACLS OR VIEW_ACLS OR GRANT_ACL OR REFERENCES_ACL OR TRIGGER_ACL OR
     DELETE_HISTORY_ACL"

definition DB_ACLS :: ulonglong where
  "DB_ACLS = TABLE_ACLS OR PROC_DDL_ACLS OR EXECUTE_ACL OR CREATE_TMP_ACL OR LOCK_TABLES_ACL OR EVENT_ACL OR
     SHOW_CREATE_ROUTINE_ACL"

definition PROC_ACLS :: ulonglong where
  "PROC_ACLS = ALTER_PROC_ACL OR EXECUTE_ACL OR GRANT_ACL OR SHOW_CREATE_ROUTINE_ACL"

definition GLOBAL_ACLS :: ulonglong where
  "GLOBAL_ACLS = DB_ACLS OR SHOW_DB_ACL OR CREATE_USER_ACL OR CREATE_TABLESPACE_ACL OR SUPER_ACL OR RELOAD_ACL OR
     SHUTDOWN_ACL OR PROCESS_ACL OR FILE_ACL OR REPL_SLAVE_ACL OR ALLOWED_BY_SUPER_BEFORE_101100 OR
     ALLOWED_BY_SUPER_BEFORE_110000"

definition DEFAULT_CREATE_PROC_ACLS :: ulonglong where
  "DEFAULT_CREATE_PROC_ACLS = ALTER_PROC_ACL OR EXECUTE_ACL"

definition SHOW_CREATE_TABLE_ACLS :: ulonglong where
  "SHOW_CREATE_TABLE_ACLS = COL_DML_ACLS OR ALL_TABLE_DDL_ACLS OR TRIGGER_ACL OR REFERENCES_ACL OR GRANT_ACL OR VIEW_ACLS"

definition TMP_TABLE_ACLS :: ulonglong where
  "TMP_TABLE_ACLS = COL_DML_ACLS OR ALL_TABLE_DDL_ACLS OR REFERENCES_ACL"

definition PRIV_LOCK_TABLES :: ulonglong where
  "PRIV_LOCK_TABLES = SELECT_ACL OR LOCK_TABLES_ACL"

section \<open>Privileges required by statements and system variables\<close>

definition priv_definer_super :: "(string \<times> ulonglong) list" where
  "priv_definer_super =
   [(''PRIV_DEFINER_CLAUSE'', SET_USER_ACL),
    (''PRIV_REVEAL_MISSING_DEFINER'', SET_USER_ACL),
    (''PRIV_DES_DECRYPT_ONE_ARG'', SUPER_ACL),
    (''PRIV_LOG_BIN_TRUSTED_SP_CREATOR'', SUPER_ACL),
    (''PRIV_DEBUG'', SUPER_ACL),
    (''PRIV_SET_GLOBAL_SYSTEM_VARIABLE'', SUPER_ACL),
    (''PRIV_SET_RESTRICTED_SESSION_SYSTEM_VARIABLE'', SUPER_ACL)]"

definition priv_binlog_vars :: "(string \<times> ulonglong) list" where
  "priv_binlog_vars =
   [(''PRIV_SET_SYSTEM_VAR_BINLOG_FORMAT'', BINLOG_ADMIN_ACL),
    (''PRIV_SET_SYSTEM_VAR_BINLOG_DIRECT_NON_TRANSACTIONAL_UPDATES'', BINLOG_ADMIN_ACL),
    (''PRIV_SET_SYSTEM_VAR_BINLOG_ANNOTATE_ROW_EVENTS'', BINLOG_ADMIN_ACL),
    (''PRIV_SET_SYSTEM_VAR_BINLOG_ROW_IMAGE'', BINLOG_ADMIN_ACL),
    (''PRIV_SET_SYSTEM_VAR_SQL_LOG_BIN'', BINLOG_ADMIN_ACL),
    (''PRIV_SET_SYSTEM_GLOBAL_VAR_BINLOG_CACHE_SIZE'', BINLOG_ADMIN_ACL),
    (''PRIV_SET_SYSTEM_GLOBAL_VAR_BINLOG_FILE_CACHE_SIZE'', BINLOG_ADMIN_ACL),
    (''PRIV_SET_SYSTEM_GLOBAL_VAR_BINLOG_STMT_CACHE_SIZE'', BINLOG_ADMIN_ACL),
    (''PRIV_SET_SYSTEM_GLOBAL_VAR_BINLOG_COMMIT_WAIT_COUNT'', BINLOG_ADMIN_ACL),
    (''PRIV_SET_SYSTEM_GLOBAL_VAR_BINLOG_COMMIT_WAIT_USEC'', BINLOG_ADMIN_ACL),
    (''PRIV_SET_SYSTEM_GLOBAL_VAR_BINLOG_ROW_METADATA'', BINLOG_ADMIN_ACL),
    (''PRIV_SET_SYSTEM_GLOBAL_VAR_BINLOG_LEGACY_EVENT_POS'', SUPER_ACL OR BINLOG_ADMIN_ACL),
    (''PRIV_SET_SYSTEM_GLOBAL_VAR_BINLOG_GTID_INDEX'', BINLOG_ADMIN_ACL),
    (''PRIV_SET_SYSTEM_GLOBAL_VAR_BINLOG_GTID_INDEX_PAGE_SIZE'', BINLOG_ADMIN_ACL),
    (''PRIV_SET_SYSTEM_GLOBAL_VAR_BINLOG_GTID_INDEX_SPAN_MIN'', BINLOG_ADMIN_ACL),
    (''PRIV_SET_SYSTEM_GLOBAL_VAR_EXPIRE_LOGS_DAYS'', BINLOG_ADMIN_ACL),
    (''PRIV_SET_SYSTEM_GLOBAL_VAR_LOG_BIN_COMPRESS'', BINLOG_ADMIN_ACL),
    (''PRIV_SET_SYSTEM_GLOBAL_VAR_LOG_BIN_COMPRESS_MIN_LEN'', BINLOG_ADMIN_ACL),
    (''PRIV_SET_SYSTEM_GLOBAL_VAR_LOG_BIN_TRUST_FUNCTION_CREATORS'', BINLOG_ADMIN_ACL),
    (''PRIV_SET_SYSTEM_GLOBAL_VAR_MAX_BINLOG_CACHE_SIZE'', BINLOG_ADMIN_ACL),
    (''PRIV_SET_SYSTEM_GLOBAL_VAR_MAX_BINLOG_STMT_CACHE_SIZE'', BINLOG_ADMIN_ACL),
    (''PRIV_SET_SYSTEM_GLOBAL_VAR_MAX_BINLOG_SIZE'', BINLOG_ADMIN_ACL),
    (''PRIV_SET_SYSTEM_GLOBAL_VAR_SYNC_BINLOG'', BINLOG_ADMIN_ACL)]"

definition priv_connection :: "(string \<times> ulonglong) list" where
  "priv_connection =
   [(''PRIV_IGNORE_READ_ONLY'', READ_ONLY_ADMIN_ACL),
    (''PRIV_SET_SYSTEM_GLOBAL_VAR_READ_ONLY'', READ_ONLY_ADMIN_ACL),
    (''PRIV_IGNORE_INIT_CONNECT'', CONNECTION_ADMIN_ACL),
    (''PRIV_IGNORE_MAX_USER_CONNECTIONS'', CONNECTION_ADMIN_ACL),
    (''PRIV_IGNORE_MAX_CONNECTIONS'', CONNECTION_ADMIN_ACL),
    (''PRIV_IGNORE_MAX_PASSWORD_ERRORS'', CONNECTION_ADMIN_ACL),
    (''PRIV_KILL_OTHER_USER_PROCESS'', CONNECTION_ADMIN_ACL),
    (''PRIV_SET_SYSTEM_GLOBAL_VAR_CONNECT_TIMEOUT'', CONNECTION_ADMIN_ACL),
    (''PRIV_SET_SYSTEM_GLOBAL_VAR_DISCONNECT_ON_EXPIRED_PASSWORD'', CONNECTION_ADMIN_ACL),
    (''PRIV_SET_SYSTEM_GLOBAL_VAR_EXTRA_MAX_CONNECTIONS'', CONNECTION_ADMIN_ACL),
    (''PRIV_SET_SYSTEM_GLOBAL_VAR_INIT_CONNECT'', CONNECTION_ADMIN_ACL),
    (''PRIV_SET_SYSTEM_GLOBAL_VAR_MAX_CONNECTIONS'', CONNECTION_ADMIN_ACL),
    (''PRIV_SET_SYSTEM_GLOBAL_VAR_MAX_CONNECT_ERRORS'', CONNECTION_ADMIN_ACL),
    (''PRIV_SET_SYSTEM_GLOBAL_VAR_MAX_PASSWORD_ERRORS'', CONNECTION_ADMIN_ACL),
    (''PRIV_SET_SYSTEM_GLOBAL_VAR_PROXY_PROTOCOL_NETWORKS'', CONNECTION_ADMIN_ACL),
    (''PRIV_SET_SYSTEM_GLOBAL_VAR_SECURE_AUTH'', CONNECTION_ADMIN_ACL),
    (''PRIV_SET_SYSTEM_GLOBAL_VAR_SLOW_LAUNCH_TIME'', CONNECTION_ADMIN_ACL),
    (''PRIV_SET_SYSTEM_GLOBAL_VAR_THREAD_POOL'', CONNECTION_ADMIN_ACL)]"

definition priv_replication_master :: "(string \<times> ulonglong) list" where
  "priv_replication_master =
   [(''PRIV_STMT_SHOW_BINLOG_STATUS'', BINLOG_MONITOR_ACL),
    (''PRIV_STMT_SHOW_BINARY_LOGS'', BINLOG_MONITOR_ACL),
    (''PRIV_STMT_PURGE_BINLOG'', BINLOG_ADMIN_ACL),
    (''PRIV_STMT_SHOW_BINLOG_EVENTS'', BINLOG_MONITOR_ACL),
    (''PRIV_SET_SYSTEM_GLOBAL_VAR_BINLOG_DO_DB'', BINLOG_ADMIN_ACL OR SUPER_ACL),
    (''PRIV_SET_SYSTEM_GLOBAL_VAR_BINLOG_IGNORE_DB'', BINLOG_ADMIN_ACL OR SUPER_ACL),
    (''PRIV_COM_REGISTER_SLAVE'', REPL_SLAVE_ACL),
    (''PRIV_COM_BINLOG_DUMP'', REPL_SLAVE_ACL),
    (''PRIV_STMT_SHOW_SLAVE_HOSTS'', REPL_MASTER_ADMIN_ACL),
    (''PRIV_SET_SYSTEM_GLOBAL_VAR_RPL_SEMI_SYNC_MASTER_ENABLED'', REPL_MASTER_ADMIN_ACL),
    (''PRIV_SET_SYSTEM_GLOBAL_VAR_RPL_SEMI_SYNC_MASTER_TIMEOUT'', REPL_MASTER_ADMIN_ACL),
    (''PRIV_SET_SYSTEM_GLOBAL_VAR_RPL_SEMI_SYNC_MASTER_WAIT_NO_SLAVE'', REPL_MASTER_ADMIN_ACL),
    (''PRIV_SET_SYSTEM_GLOBAL_VAR_RPL_SEMI_SYNC_MASTER_TRACE_LEVEL'', REPL_MASTER_ADMIN_ACL),
    (''PRIV_SET_SYSTEM_GLOBAL_VAR_RPL_SEMI_SYNC_MASTER_WAIT_POINT'', REPL_MASTER_ADMIN_ACL),
    (''PRIV_SET_SYSTEM_GLOBAL_VAR_MASTER_VERIFY_CHECKSUM'', REPL_MASTER_ADMIN_ACL),
    (''PRIV_SET_SYSTEM_GLOBAL_VAR_GTID_BINLOG_STATE'', REPL_MASTER_ADMIN_ACL),
    (''PRIV_SET_SYSTEM_GLOBAL_VAR_SERVER_ID'', REPL_MASTER_ADMIN_ACL),
    (''PRIV_SET_SYSTEM_GLOBAL_VAR_GTID_DOMAIN_ID'', REPL_MASTER_ADMIN_ACL)]"

definition priv_replication_slave :: "(string \<times> ulonglong) list" where
  "priv_replication_slave =
   [(''PRIV_STMT_START_SLAVE'', REPL_SLAVE_ADMIN_ACL),
    (''PRIV_STMT_STOP_SLAVE'', REPL_SLAVE_ADMIN_ACL),
    (''PRIV_STMT_CHANGE_MASTER'', REPL_SLAVE_ADMIN_ACL),
    (''PRIV_STMT_SHOW_SLAVE_STATUS'', SLAVE_MONITOR_ACL),
    (''PRIV_STMT_SHOW_RELAYLOG_EVENTS'', SLAVE_MONITOR_ACL),
    (''PRIV_STMT_BINLOG'', BINLOG_REPLAY_ACL),
    (''PRIV_SET_SYSTEM_SESSION_VAR_GTID_SEQ_NO'', BINLOG_REPLAY_ACL),
    (''PRIV_SET_SYSTEM_SESSION_VAR_PSEUDO_THREAD_ID'', BINLOG_REPLAY_ACL),
    (''PRIV_SET_SYSTEM_SESSION_VAR_SERVER_ID'', BINLOG_REPLAY_ACL),
    (''PRIV_SET_SYSTEM_SESSION_VAR_GTID_DOMAIN_ID'', BINLOG_REPLAY_ACL),
    (''PRIV_SET_SYSTEM_GLOBAL_VAR_REPLICATE_EVENTS_MARKED_FOR_SKIP'', REPL_SLAVE_ADMIN_ACL),
    (''PRIV_SET_SYSTEM_GLOBAL_VAR_REPLICATE_REWRITE_DB'', REPL_SLAVE_ADMIN_ACL),
    (''PRIV_SET_SYSTEM_GLOBAL_VAR_REPLICATE_DO_DB'', REPL_SLAVE_ADMIN_ACL),
    (''PRIV_SET_SYSTEM_GLOBAL_VAR_REPLICATE_DO_TABLE'', REPL_SLAVE_ADMIN_ACL),
    (''PRIV_SET_SYSTEM_GLOBAL_VAR_REPLICATE_IGNORE_DB'', REPL_SLAVE_ADMIN_ACL),
    (''PRIV_SET_SYSTEM_GLOBAL_VAR_REPLICATE_IGNORE_TABLE'', REPL_SLAVE_ADMIN_ACL),
    (''PRIV_SET_SYSTEM_GLOBAL_VAR_REPLICATE_WILD_DO_TABLE'', REPL_SLAVE_ADMIN_ACL),
    (''PRIV_SET_SYSTEM_GLOBAL_VAR_REPLICATE_WILD_IGNORE_TABLE'', REPL_SLAVE_ADMIN_ACL),
    (''PRIV_SET_SYSTEM_GLOBAL_VAR_READ_BINLOG_SPEED_LIMIT'', REPL_SLAVE_ADMIN_ACL),
    (''PRIV_SET_SYSTEM_GLOBAL_VAR_SLAVE_COMPRESSED_PROTOCOL'', REPL_SLAVE_ADMIN_ACL),
    (''PRIV_SET_SYSTEM_GLOBAL_VAR_SLAVE_DDL_EXEC_MODE'', REPL_SLAVE_ADMIN_ACL),
    (''PRIV_SET_SYSTEM_GLOBAL_VAR_SLAVE_DOMAIN_PARALLEL_THREADS'', REPL_SLAVE_ADMIN_ACL),
    (''PRIV_SET_SYSTEM_GLOBAL_VAR_SLAVE_EXEC_MODE'', REPL_SLAVE_ADMIN_ACL),
    (''PRIV_SET_SYSTEM_GLOBAL_VAR_SLAVE_MAX_ALLOWED_PACKET'', REPL_SLAVE_ADMIN_ACL),
    (''PRIV_SET_SYSTEM_GLOBAL_VAR_SLAVE_MAX_STATEMENT_TIME'', REPL_SLAVE_ADMIN_ACL),
    (''PRIV_SET_SYSTEM_GLOBAL_VAR_SLAVE_NET_TIMEOUT'', REPL_SLAVE_ADMIN_ACL),
    (''PRIV_SET_SYSTEM_GLOBAL_VAR_SLAVE_PARALLEL_MAX_QUEUED'', REPL_SLAVE_ADMIN_ACL),
    (''PRIV_SET_SYSTEM_GLOBAL_VAR_SLAVE_PARALLEL_MODE'', REPL_SLAVE_ADMIN_ACL),
    (''PRIV_SET_SYSTEM_GLOBAL_VAR_SLAVE_PARALLEL_THREADS'', REPL_SLAVE_ADMIN_ACL),
    (''PRIV_SET_SYSTEM_GLOBAL_VAR_SLAVE_PARALLEL_WORKERS'', REPL_SLAVE_ADMIN_ACL),
    (''PRIV_SET_SYSTEM_GLOBAL_VAR_SLAVE_RUN_TRIGGERS_FOR_RBR'', REPL_SLAVE_ADMIN_ACL),
    (''PRIV_SET_SYSTEM_GLOBAL_VAR_SLAVE_SQL_VERIFY_CHECKSUM'', REPL_SLAVE_ADMIN_ACL),
    (''PRIV_SET_SYSTEM_GLOBAL_VAR_SLAVE_TRANSACTION_RETRY_INTERVAL'', REPL_SLAVE_ADMIN_ACL),
    (''PRIV_SET_SYSTEM_GLOBAL_VAR_SLAVE_TYPE_CONVERSIONS'', REPL_SLAVE_ADMIN_ACL),
    (''PRIV_SET_SYSTEM_GLOBAL_VAR_INIT_SLAVE'', REPL_SLAVE_ADMIN_ACL),
    (''PRIV_SET_SYSTEM_GLOBAL_VAR_RPL_SEMI_SYNC_SLAVE_ENABLED'', REPL_SLAVE_ADMIN_ACL),
    (''PRIV_SET_SYSTEM_GLOBAL_VAR_RPL_SEMI_SYNC_SLAVE_TRACE_LEVEL'', REPL_SLAVE_ADMIN_ACL),
    (''PRIV_SET_SYSTEM_GLOBAL_VAR_RPL_SEMI_SYNC_SLAVE_DELAY_MASTER'', REPL_SLAVE_ADMIN_ACL),
    (''PRIV_SET_SYSTEM_GLOBAL_VAR_RPL_SEMI_SYNC_SLAVE_KILL_CONN_TIMEOUT'', REPL_SLAVE_ADMIN_ACL),
    (''PRIV_SET_SYSTEM_GLOBAL_VAR_RELAY_LOG_PURGE'', REPL_SLAVE_ADMIN_ACL),
    (''PRIV_SET_SYSTEM_GLOBAL_VAR_RELAY_LOG_RECOVERY'', REPL_SLAVE_ADMIN_ACL),
    (''PRIV_SET_SYSTEM_GLOBAL_VAR_SYNC_MASTER_INFO'', REPL_SLAVE_ADMIN_ACL),
    (''PRIV_SET_SYSTEM_GLOBAL_VAR_SYNC_RELAY_LOG'', REPL_SLAVE_ADMIN_ACL),
    (''PRIV_SET_SYSTEM_GLOBAL_VAR_SYNC_RELAY_LOG_INFO'', REPL_SLAVE_ADMIN_ACL),
    (''PRIV_SET_SYSTEM_GLOBAL_VAR_GTID_CLEANUP_BATCH_SIZE'', REPL_SLAVE_ADMIN_ACL),
    (''PRIV_SET_SYSTEM_GLOBAL_VAR_GTID_IGNORE_DUPLICATES'', REPL_SLAVE_ADMIN_ACL),
    (''PRIV_SET_SYSTEM_GLOBAL_VAR_GTID_POS_AUTO_ENGINES'', REPL_SLAVE_ADMIN_ACL),
    (''PRIV_SET_SYSTEM_GLOBAL_VAR_GTID_SLAVE_POS'', REPL_SLAVE_ADMIN_ACL),
    (''PRIV_SET_SYSTEM_GLOBAL_VAR_GTID_STRICT_MODE'', REPL_SLAVE_ADMIN_ACL)]"

definition priv_federated_process :: "(string \<times> ulonglong) list" where
  "priv_federated_process =
   [(''PRIV_STMT_CREATE_SERVER'', FEDERATED_ADMIN_ACL),
    (''PRIV_STMT_ALTER_SERVER'', FEDERATED_ADMIN_ACL),
    (''PRIV_STMT_DROP_SERVER'', FEDERATED_ADMIN_ACL),
    (''PRIV_COM_PROCESS_INFO'', PROCESS_ACL),
    (''PRIV_STMT_SHOW_EXPLAIN'', PROCESS_ACL),
    (''PRIV_STMT_SHOW_ENGINE_STATUS'', PROCESS_ACL),
    (''PRIV_STMT_SHOW_ENGINE_MUTEX'', PROCESS_ACL),
    (''PRIV_STMT_SHOW_PROCESSLIST'', PROCESS_ACL)]"

definition priv_table :: "(string \<times> ulonglong) list" where
  "priv_table = priv_definer_super @ priv_binlog_vars @ priv_connection @ priv_replication_master @ priv_replication_slave @ priv_federated_process"

section \<open>Layout of the grant tables\<close>

definition DB_CHUNK0 :: ulonglong where "DB_CHUNK0 = COL_DML_ACLS OR CREATE_ACL OR DROP_ACL"
definition DB_CHUNK1 :: ulonglong where "DB_CHUNK1 = GRANT_ACL OR REFERENCES_ACL OR INDEX_ACL OR ALTER_ACL"
definition DB_CHUNK2 :: ulonglong where "DB_CHUNK2 = CREATE_TMP_ACL OR LOCK_TABLES_ACL"
definition DB_CHUNK3 :: ulonglong where "DB_CHUNK3 = VIEW_ACLS OR PROC_DDL_ACLS"
definition DB_CHUNK4 :: ulonglong where "DB_CHUNK4 = EXECUTE_ACL"
definition DB_CHUNK5 :: ulonglong where "DB_CHUNK5 = EVENT_ACL OR TRIGGER_ACL"
definition DB_CHUNK6 :: ulonglong where "DB_CHUNK6 = DELETE_HISTORY_ACL"
definition DB_CHUNK7 :: ulonglong where "DB_CHUNK7 = SHOW_CREATE_ROUTINE_ACL"

definition fix_rights_for_db :: "ulonglong \<Rightarrow> ulonglong" where
  "fix_rights_for_db A =
     (A AND DB_CHUNK0) OR
     (push_bit 4 A AND DB_CHUNK1) OR
     (push_bit 6 A AND DB_CHUNK2) OR
     (push_bit 9 A AND DB_CHUNK3) OR
     (push_bit 2 A AND DB_CHUNK4) OR
     (push_bit 9 A AND DB_CHUNK5) OR
     (push_bit 10 A AND DB_CHUNK6) OR
     (push_bit 19 A AND DB_CHUNK7)"

definition get_rights_for_db :: "ulonglong \<Rightarrow> ulonglong" where
  "get_rights_for_db A =
     (A AND DB_CHUNK0) OR
     drop_bit 4 (A AND DB_CHUNK1) OR
     drop_bit 6 (A AND DB_CHUNK2) OR
     drop_bit 9 (A AND DB_CHUNK3) OR
     drop_bit 2 (A AND DB_CHUNK4) OR
     drop_bit 9 (A AND DB_CHUNK5) OR
     drop_bit 10 (A AND DB_CHUNK6) OR
     drop_bit 19 (A AND DB_CHUNK7)"

definition TBL_CHUNK0 :: ulonglong where "TBL_CHUNK0 = DB_CHUNK0"
definition TBL_CHUNK1 :: ulonglong where "TBL_CHUNK1 = DB_CHUNK1"
definition TBL_CHUNK2 :: ulonglong where "TBL_CHUNK2 = CREATE_VIEW_ACL OR SHOW_VIEW_ACL"
definition TBL_CHUNK3 :: ulonglong where "TBL_CHUNK3 = TRIGGER_ACL"
definition TBL_CHUNK4 :: ulonglong where "TBL_CHUNK4 = DELETE_HISTORY_ACL"

definition fix_rights_for_table :: "ulonglong \<Rightarrow> ulonglong" where
  "fix_rights_for_table A =
     (A AND TBL_CHUNK0) OR
     (push_bit 4 A AND TBL_CHUNK1) OR
     (push_bit 11 A AND TBL_CHUNK2) OR
     (push_bit 15 A AND TBL_CHUNK3) OR
     (push_bit 16 A AND TBL_CHUNK4)"

definition get_rights_for_table :: "ulonglong \<Rightarrow> ulonglong" where
  "get_rights_for_table A =
     (A AND TBL_CHUNK0) OR
     drop_bit 4 (A AND TBL_CHUNK1) OR
     drop_bit 11 (A AND TBL_CHUNK2) OR
     drop_bit 15 (A AND TBL_CHUNK3) OR
     drop_bit 16 (A AND TBL_CHUNK4)"

definition fix_rights_for_column :: "ulonglong \<Rightarrow> ulonglong" where
  "fix_rights_for_column A =
     (let mask = SELECT_ACL OR INSERT_ACL OR UPDATE_ACL in (A AND mask) OR push_bit 8 (A AND NOT mask))"

definition get_rights_for_column :: "ulonglong \<Rightarrow> ulonglong" where
  "get_rights_for_column A =
     (let mask = SELECT_ACL OR INSERT_ACL OR UPDATE_ACL in (A AND mask) OR drop_bit 8 A)"

definition fix_rights_for_procedure :: "ulonglong \<Rightarrow> ulonglong" where
  "fix_rights_for_procedure A =
     (push_bit 35 A AND SHOW_CREATE_ROUTINE_ACL) OR
     (push_bit 18 A AND EXECUTE_ACL) OR
     (push_bit 23 A AND ALTER_PROC_ACL) OR
     (push_bit 8 A AND GRANT_ACL)"

definition get_rights_for_procedure :: "ulonglong \<Rightarrow> ulonglong" where
  "get_rights_for_procedure A =
     drop_bit 35 (A AND SHOW_CREATE_ROUTINE_ACL) OR
     drop_bit 18 (A AND EXECUTE_ACL) OR
     drop_bit 23 (A AND ALTER_PROC_ACL) OR
     drop_bit 8 (A AND GRANT_ACL)"

section \<open>Layouts\<close>

text \<open>A layout lists, for each bit of the compact form, the bit of the in-memory form. The two
  functions of a level move the bits along its layout; the client lemmas hold for any
  layout without repetitions.\<close>

locale rights_layout =
  fixes layout :: "(nat \<times> nat) list"
    and fixr getr :: "ulonglong \<Rightarrow> ulonglong"
    and acls compact :: ulonglong
  assumes columns: "distinct (map fst layout)" "distinct (map snd layout)"
    and fix_bit: "bit (fixr A) i \<longleftrightarrow> (\<exists>(c, m) \<in> set layout. i = m \<and> bit A c)"
    and get_bit: "bit (getr A) j \<longleftrightarrow> (\<exists>(c, m) \<in> set layout. j = c \<and> bit A m)"
    and acls_bit: "bit acls i \<longleftrightarrow> i \<in> set (map snd layout)"
    and compact_bit: "bit compact i \<longleftrightarrow> i \<in> set (map fst layout)"
begin

lemma columns_inj:
  "(c, m) \<in> set layout \<Longrightarrow> (c, m') \<in> set layout \<Longrightarrow> m = m'"
  "(c, m) \<in> set layout \<Longrightarrow> (c', m) \<in> set layout \<Longrightarrow> c = c'"
  using columns inj_onD[of fst "set layout" "(c, m)" "(c, m')"] inj_onD[of snd "set layout" "(c, m)" "(c', m)"]
  by (auto simp: distinct_map)

lemma fix_get: "fixr (getr A) = A AND acls"
proof (rule bit_word_eqI)
  fix i
  have "bit (fixr (getr A)) i \<longleftrightarrow> (\<exists>c m c' m'. (c, m) \<in> set layout \<and> (c', m') \<in> set layout \<and> i = m \<and> c = c' \<and> bit A m')"
    unfolding fix_bit get_bit by auto
  also have "\<dots> \<longleftrightarrow> bit A i \<and> (\<exists>c. (c, i) \<in> set layout)" using columns_inj by blast
  finally show "bit (fixr (getr A)) i \<longleftrightarrow> bit (A AND acls) i" by (force simp: bit_and_iff acls_bit image_iff)
qed

lemma get_fix: "getr (fixr A) = A AND compact"
proof (rule bit_word_eqI)
  fix j
  have "bit (getr (fixr A)) j \<longleftrightarrow> (\<exists>c m c' m'. (c, m) \<in> set layout \<and> (c', m') \<in> set layout \<and> j = c \<and> m = m' \<and> bit A c')"
    unfolding fix_bit get_bit by auto
  also have "\<dots> \<longleftrightarrow> bit A j \<and> (\<exists>m. (j, m) \<in> set layout)" using columns_inj by blast
  finally show "bit (getr (fixr A)) j \<longleftrightarrow> bit (A AND compact) j" by (force simp: bit_and_iff compact_bit image_iff)
qed

end

lemma bits_of_64:
  fixes w :: ulonglong
  assumes "\<forall>i \<in> set [0..<64]. bit w i = (i \<in> set xs)" "\<forall>x \<in> set xs. x < 64"
  shows "bit w i = (i \<in> set xs)"
proof (cases "i < 64")
  case False
  then have "\<not> bit w i" using bit_imp_le_length[of w i] by auto
  then show ?thesis using False assms(2) by auto
qed (use assms(1) in simp)

lemma chunk_bits:
  "bit DB_CHUNK0 i = (i \<in> set [0, 1, 2, 3, 4, 5])" "bit DB_CHUNK1 i = (i \<in> set [10, 11, 12, 13])"
  "bit DB_CHUNK2 i = (i \<in> set [16, 17])" "bit DB_CHUNK3 i = (i \<in> set [21, 22, 23, 24])" "bit DB_CHUNK4 i = (i \<in> set [18])"
  "bit DB_CHUNK5 i = (i \<in> set [26, 27])" "bit DB_CHUNK6 i = (i \<in> set [29])" "bit DB_CHUNK7 i = (i \<in> set [39])"
  "bit TBL_CHUNK0 i = (i \<in> set [0, 1, 2, 3, 4, 5])" "bit TBL_CHUNK1 i = (i \<in> set [10, 11, 12, 13])"
  "bit TBL_CHUNK2 i = (i \<in> set [21, 22])" "bit TBL_CHUNK3 i = (i \<in> set [27])" "bit TBL_CHUNK4 i = (i \<in> set [29])"
  "bit SHOW_CREATE_ROUTINE_ACL i = (i \<in> set [39])" "bit EXECUTE_ACL i = (i \<in> set [18])"
  "bit ALTER_PROC_ACL i = (i \<in> set [24])" "bit GRANT_ACL i = (i \<in> set [10])"
  "bit (SELECT_ACL OR INSERT_ACL OR UPDATE_ACL) i = (i \<in> set [0, 1, 2])" "bit COL_ACLS i = (i \<in> set [0, 1, 2, 11])"
  by (rule bits_of_64, code_simp, code_simp)+

definition db_layout :: "(nat \<times> nat) list" where
  "db_layout = [(0, 0), (1, 1), (2, 2), (3, 3), (4, 4), (5, 5), (6, 10), (7, 11), (8, 12), (9, 13), (10, 16), (11, 17), (12, 21), (13, 22), (14, 23), (15, 24), (16, 18), (17, 26), (18, 27), (19, 29), (20, 39)]"

definition table_layout :: "(nat \<times> nat) list" where
  "table_layout = [(0, 0), (1, 1), (2, 2), (3, 3), (4, 4), (5, 5), (6, 10), (7, 11), (8, 12), (9, 13), (10, 21), (11, 22), (12, 27), (13, 29)]"

definition procedure_layout :: "(nat \<times> nat) list" where
  "procedure_layout = [(0, 18), (1, 24), (2, 10), (4, 39)]"

lemma bit_moved:
  "(\<And>i. bit C i = (i \<in> set xs)) \<Longrightarrow> \<forall>x \<in> set xs. k \<le> x \<and> x < 64 \<Longrightarrow>
     bit (push_bit k A AND C) i \<longleftrightarrow> (\<exists>(c, m) \<in> set (map (\<lambda>x. (x - k, x)) xs). i = m \<and> bit A c)"
  "(\<And>i. bit C i = (i \<in> set xs)) \<Longrightarrow> \<forall>x \<in> set xs. k \<le> x \<and> x < 64 \<Longrightarrow>
     bit (drop_bit k (A AND C)) i \<longleftrightarrow> (\<exists>(c, m) \<in> set (map (\<lambda>x. (x - k, x)) xs). i = c \<and> bit A m)"
  "(\<And>i. bit C i = (i \<in> set xs)) \<Longrightarrow>
     bit (A AND C) i \<longleftrightarrow> (\<exists>(c, m) \<in> set (map (\<lambda>x. (x, x)) xs). i = c \<and> bit A m)"
  for A C :: ulonglong
  by (force simp: bit_and_iff bit_push_bit_iff bit_drop_bit_eq add.commute)+


lemmas fix_moves = bit_moved(1)[OF chunk_bits(2)] bit_moved(1)[OF chunk_bits(3)] bit_moved(1)[OF chunk_bits(4)] bit_moved(1)[OF chunk_bits(5)] bit_moved(1)[OF chunk_bits(6)] bit_moved(1)[OF chunk_bits(7)] bit_moved(1)[OF chunk_bits(8)] bit_moved(1)[OF chunk_bits(10)] bit_moved(1)[OF chunk_bits(11)] bit_moved(1)[OF chunk_bits(12)] bit_moved(1)[OF chunk_bits(13)] bit_moved(1)[OF chunk_bits(14)] bit_moved(1)[OF chunk_bits(15)] bit_moved(1)[OF chunk_bits(16)] bit_moved(1)[OF chunk_bits(17)]

lemmas get_moves = bit_moved(2)[OF chunk_bits(2)] bit_moved(2)[OF chunk_bits(3)] bit_moved(2)[OF chunk_bits(4)] bit_moved(2)[OF chunk_bits(5)] bit_moved(2)[OF chunk_bits(6)] bit_moved(2)[OF chunk_bits(7)] bit_moved(2)[OF chunk_bits(8)] bit_moved(2)[OF chunk_bits(10)] bit_moved(2)[OF chunk_bits(11)] bit_moved(2)[OF chunk_bits(12)] bit_moved(2)[OF chunk_bits(13)] bit_moved(2)[OF chunk_bits(14)] bit_moved(2)[OF chunk_bits(15)] bit_moved(2)[OF chunk_bits(16)] bit_moved(2)[OF chunk_bits(17)]

lemmas same_moves = bit_moved(3)[OF chunk_bits(1)] bit_moved(3)[OF chunk_bits(9)]

lemma fix_bits:
  "bit (fix_rights_for_db A) i \<longleftrightarrow> (\<exists>(c, m) \<in> set db_layout. i = m \<and> bit A c)"
  "bit (fix_rights_for_table A) i \<longleftrightarrow> (\<exists>(c, m) \<in> set table_layout. i = m \<and> bit A c)"
  "bit (fix_rights_for_procedure A) i \<longleftrightarrow> (\<exists>(c, m) \<in> set procedure_layout. i = m \<and> bit A c)"
  by (simp_all add: fix_rights_for_db_def fix_rights_for_table_def fix_rights_for_procedure_def bit_or_iff fix_moves same_moves
      db_layout_def table_layout_def procedure_layout_def del: drop_bit_and) auto

lemma get_bits:
  "bit (get_rights_for_db A) i \<longleftrightarrow> (\<exists>(c, m) \<in> set db_layout. i = c \<and> bit A m)"
  "bit (get_rights_for_table A) i \<longleftrightarrow> (\<exists>(c, m) \<in> set table_layout. i = c \<and> bit A m)"
  "bit (get_rights_for_procedure A) i \<longleftrightarrow> (\<exists>(c, m) \<in> set procedure_layout. i = c \<and> bit A m)"
  by (simp_all add: get_rights_for_db_def get_rights_for_table_def get_rights_for_procedure_def bit_or_iff get_moves same_moves
      db_layout_def table_layout_def procedure_layout_def del: drop_bit_and) auto

lemma acls_bits:
  "bit DB_ACLS i = (i \<in> set (map snd db_layout))" "bit TABLE_ACLS i = (i \<in> set (map snd table_layout))"
  "bit PROC_ACLS i = (i \<in> set (map snd procedure_layout))"
  "bit (0x1FFFFF :: ulonglong) i = (i \<in> set (map fst db_layout))" "bit (0x3FFF :: ulonglong) i = (i \<in> set (map fst table_layout))"
  "bit (0x17 :: ulonglong) i = (i \<in> set (map fst procedure_layout))"
  by (rule bits_of_64, code_simp, code_simp)+

interpretation db: rights_layout db_layout fix_rights_for_db get_rights_for_db DB_ACLS "0x1FFFFF"
  by unfold_locales (rule fix_bits get_bits acls_bits | code_simp)+

interpretation tbl: rights_layout table_layout fix_rights_for_table get_rights_for_table TABLE_ACLS "0x3FFF"
  by unfold_locales (rule fix_bits get_bits acls_bits | code_simp)+

interpretation proc: rights_layout procedure_layout fix_rights_for_procedure get_rights_for_procedure PROC_ACLS "0x17"
  by unfold_locales (rule fix_bits get_bits acls_bits | code_simp)+

lemma column_bits:
  "bit (fix_rights_for_column A) i \<longleftrightarrow> i < 3 \<and> bit A i \<or> 11 \<le> i \<and> i < 64 \<and> bit A (i - 8)"
  "bit (get_rights_for_column A) i \<longleftrightarrow> i < 3 \<and> bit A i \<or> bit A (i + 8)"
proof -
  define mask where "mask = SELECT_ACL OR INSERT_ACL OR UPDATE_ACL"
  have m: "bit mask i \<longleftrightarrow> i < 3" for i using chunk_bits(18)[of i] by (auto simp: mask_def)
  have "fix_rights_for_column A = (A AND mask) OR push_bit 8 (A AND NOT mask)" "get_rights_for_column A = (A AND mask) OR drop_bit 8 A"
    by (simp_all add: fix_rights_for_column_def get_rights_for_column_def mask_def)
  then show "bit (fix_rights_for_column A) i \<longleftrightarrow> i < 3 \<and> bit A i \<or> 11 \<le> i \<and> i < 64 \<and> bit A (i - 8)"
    "bit (get_rights_for_column A) i \<longleftrightarrow> i < 3 \<and> bit A i \<or> bit A (i + 8)"
    by (auto simp: bit_or_iff bit_and_iff bit_push_bit_iff bit_drop_bit_eq bit_not_iff m add.commute)
qed

definition required_sets :: "ulonglong list" where
  "required_sets =
    [SET_USER_ACL, SUPER_ACL, BINLOG_ADMIN_ACL, SUPER_ACL OR BINLOG_ADMIN_ACL, READ_ONLY_ADMIN_ACL,
     CONNECTION_ADMIN_ACL, BINLOG_MONITOR_ACL, BINLOG_ADMIN_ACL OR SUPER_ACL, REPL_SLAVE_ACL, REPL_MASTER_ADMIN_ACL,
     REPL_SLAVE_ADMIN_ACL, SLAVE_MONITOR_ACL, BINLOG_REPLAY_ACL, FEDERATED_ADMIN_ACL, PROCESS_ACL]"

lemma priv_table_values: "list_all (\<lambda>(name, r). r \<in> set required_sets) priv_table"
  unfolding priv_table_def priv_definer_super_def priv_binlog_vars_def priv_connection_def priv_replication_master_def
    priv_replication_slave_def priv_federated_process_def required_sets_def
  by (simp only: list_all_append list.pred_inject case_prod_conv list.set insert_iff simp_thms)

lemma GLOBAL_ACLS_value: "GLOBAL_ACLS = 0xffffffffff"
  by code_simp

section \<open>Properties\<close>

text \<open>The privileges of every level survive being written to the grant tables and read back: for the
  database, table and procedure levels the conversion to the compact layout and back keeps
  exactly the privileges that can be granted at the level, whatever else is set; for the
  column level it is the identity on the column privileges. In the other direction the
  compact layout of a level (21, 14 and 5 bits) is kept.\<close>

theorem rights_round_trip:
  "fix_rights_for_db (get_rights_for_db A) = A AND DB_ACLS \<and>
   fix_rights_for_table (get_rights_for_table A) = A AND TABLE_ACLS \<and>
   fix_rights_for_procedure (get_rights_for_procedure A) = A AND PROC_ACLS \<and>
   fix_rights_for_column (get_rights_for_column (A AND COL_ACLS)) = A AND COL_ACLS \<and>
   get_rights_for_db (fix_rights_for_db A) = A AND 0x1FFFFF \<and>
   get_rights_for_table (fix_rights_for_table A) = A AND 0x3FFF \<and>
   get_rights_for_procedure (fix_rights_for_procedure A) = A AND 0x17"
proof -
  have "fix_rights_for_column (get_rights_for_column (A AND COL_ACLS)) = A AND COL_ACLS"
  proof (rule bit_word_eqI)
    fix i
    have "11 \<le> i \<Longrightarrow> (i :: nat) - 8 = 3 \<longleftrightarrow> i = 11" by arith
    then show "bit (fix_rights_for_column (get_rights_for_column (A AND COL_ACLS))) i \<longleftrightarrow> bit (A AND COL_ACLS) i"
      by (auto simp: column_bits bit_and_iff chunk_bits(19))
  qed
  then show ?thesis
    by (simp only: db.fix_get tbl.fix_get proc.fix_get db.get_fix tbl.get_fix proc.get_fix)
qed

text \<open>The levels are nested: what can be granted on a column or a routine or a table can be granted on a
  database, and that globally, where exactly the known bits can be granted; every
  statement and system variable asks for a non-empty set of privileges that can be granted globally;
  the highest known bit is bit 39, and the privileges of the former SUPER privilege do not
  include any database privilege.\<close>

theorem privilege_levels:
  "COL_ACLS AND NOT TABLE_ACLS = 0 \<and> PROC_ACLS AND NOT DB_ACLS = 0 \<and> TABLE_ACLS AND NOT DB_ACLS = 0 \<and>
   DB_ACLS AND NOT GLOBAL_ACLS = 0 \<and> GLOBAL_ACLS = ALL_KNOWN_ACL \<and>
   list_all (\<lambda>(name, required). required \<noteq> NO_ACL \<and> required AND NOT GLOBAL_ACLS = 0) priv_table \<and>
   PRIVILEGE_T_MAX_BIT = 39 \<and> LAST_CURRENT_ACL = push_bit 39 1 \<and> ALL_KNOWN_ACL = 0xFFFFFFFFFF \<and>
   (ALLOWED_BY_SUPER_BEFORE_101100 OR ALLOWED_BY_SUPER_BEFORE_110000) AND DB_ACLS = NO_ACL"
proof (intro conjI)
  show "list_all (\<lambda>(name, required). required \<noteq> NO_ACL \<and> required AND NOT GLOBAL_ACLS = 0) priv_table"
  proof -
    have "\<forall>r \<in> set required_sets. r \<noteq> NO_ACL \<and> r AND NOT GLOBAL_ACLS = 0"
      unfolding GLOBAL_ACLS_value by code_simp
    moreover have "snd e \<in> set required_sets" if "e \<in> set priv_table" for e
      using priv_table_values that unfolding list_all_iff split_beta by blast
    ultimately show ?thesis unfolding split_beta list_all_iff by blast
  qed
qed code_simp+

end
