(* ===== verification/Myisampack.thy ===== *)
theory Myisampack
  imports Prelude
begin

text \<open>
  \<open>myisampack.h\<close>: integers and floating-point numbers stored with the high byte first. A pointer to
  bytes is the function from offsets to the bytes it points to; a store updates it. As on
  the target, \<open>ulong\<close> has 32 bits, integers are little-endian and \<open>float\<close> and \<open>double\<close> have the word
  order of integers; a floating-point number is the function to the bytes of its
  representation. The lemmas relate every macro to the big-endian bytes of a number.
\<close>

type_synonym ptr = "nat \<Rightarrow> uchar"

section \<open>Reading integers\<close>

definition mi_sint1korr :: "ptr \<Rightarrow> 8 word" where "mi_sint1korr A = A 0"
definition mi_uint1korr :: "ptr \<Rightarrow> 8 word" where "mi_uint1korr A = A 0"

definition mi_sint2korr :: "ptr \<Rightarrow> uint16" where
  "mi_sint2korr A = ucast (A 1) OR push_bit 8 (ucast (A 0))"

definition mi_sint3korr :: "ptr \<Rightarrow> uint" where
  "mi_sint3korr A =
     (if A 0 AND 128 \<noteq> 0
      then push_bit 24 255 OR push_bit 16 (ucast (A 0)) OR push_bit 8 (ucast (A 1)) OR ucast (A 2)
      else push_bit 16 (ucast (A 0)) OR push_bit 8 (ucast (A 1)) OR ucast (A 2))"

definition mi_sint4korr :: "ptr \<Rightarrow> uint" where
  "mi_sint4korr A = ucast (A 3) OR push_bit 8 (ucast (A 2)) OR push_bit 16 (ucast (A 1)) OR push_bit 24 (ucast (A 0))"

definition mi_uint2korr :: "ptr \<Rightarrow> uint16" where
  "mi_uint2korr A = ucast (A 1) OR push_bit 8 (ucast (A 0))"

definition mi_uint3korr :: "ptr \<Rightarrow> uint" where
  "mi_uint3korr A = ucast (A 2) OR push_bit 8 (ucast (A 1)) OR push_bit 16 (ucast (A 0))"

definition mi_uint4korr :: "ptr \<Rightarrow> uint" where
  "mi_uint4korr A = ucast (A 3) OR push_bit 8 (ucast (A 2)) OR push_bit 16 (ucast (A 1)) OR push_bit 24 (ucast (A 0))"

definition mi_uint5korr :: "ptr \<Rightarrow> ulonglong" where
  "mi_uint5korr A =
     ucast (ucast (A 4) OR push_bit 8 (ucast (A 3)) OR push_bit 16 (ucast (A 2)) OR push_bit 24 (ucast (A 1)) :: uint) OR
     push_bit 32 (ucast (A 0))"

definition mi_uint6korr :: "ptr \<Rightarrow> ulonglong" where
  "mi_uint6korr A =
     ucast (ucast (A 5) OR push_bit 8 (ucast (A 4)) OR push_bit 16 (ucast (A 3)) OR push_bit 24 (ucast (A 2)) :: uint) OR
     push_bit 32 (ucast (ucast (A 1) OR push_bit 8 (ucast (A 0)) :: uint))"

definition mi_uint7korr :: "ptr \<Rightarrow> ulonglong" where
  "mi_uint7korr A =
     ucast (ucast (A 6) OR push_bit 8 (ucast (A 5)) OR push_bit 16 (ucast (A 4)) OR push_bit 24 (ucast (A 3)) :: uint) OR
     push_bit 32 (ucast (ucast (A 2) OR push_bit 8 (ucast (A 1)) OR push_bit 16 (ucast (A 0)) :: uint))"

definition mi_uint8korr :: "ptr \<Rightarrow> ulonglong" where
  "mi_uint8korr A =
     ucast (ucast (A 7) OR push_bit 8 (ucast (A 6)) OR push_bit 16 (ucast (A 5)) OR push_bit 24 (ucast (A 4)) :: uint) OR
     push_bit 32 (ucast (ucast (A 3) OR push_bit 8 (ucast (A 2)) OR push_bit 16 (ucast (A 1)) OR push_bit 24 (ucast (A 0)) :: uint))"

definition mi_sint8korr :: "ptr \<Rightarrow> ulonglong" where
  "mi_sint8korr A = mi_uint8korr A"

section \<open>Storing integers\<close>

definition mi_int1store :: "ptr \<Rightarrow> uint \<Rightarrow> ptr" where
  "mi_int1store T A = T(0 := ucast A)"

definition mi_int2store :: "ptr \<Rightarrow> uint \<Rightarrow> ptr" where
  "mi_int2store T A = T(1 := ucast A, 0 := ucast (drop_bit 8 A))"

definition mi_int3store :: "ptr \<Rightarrow> uint \<Rightarrow> ptr" where
  "mi_int3store T A = T(2 := ucast A, 1 := ucast (drop_bit 8 A), 0 := ucast (drop_bit 16 A))"

definition mi_int4store :: "ptr \<Rightarrow> uint \<Rightarrow> ptr" where
  "mi_int4store T A = T(3 := ucast A, 2 := ucast (drop_bit 8 A), 1 := ucast (drop_bit 16 A), 0 := ucast (drop_bit 24 A))"

definition mi_int5store :: "ptr \<Rightarrow> ulonglong \<Rightarrow> ptr" where
  "mi_int5store T A =
     (let def_temp = (ucast A :: uint); def_temp2 = (ucast (drop_bit 32 A) :: uint)
      in T(4 := ucast def_temp, 3 := ucast (drop_bit 8 def_temp), 2 := ucast (drop_bit 16 def_temp),
           1 := ucast (drop_bit 24 def_temp), 0 := ucast def_temp2))"

definition mi_int6store :: "ptr \<Rightarrow> ulonglong \<Rightarrow> ptr" where
  "mi_int6store T A =
     (let def_temp = (ucast A :: uint); def_temp2 = (ucast (drop_bit 32 A) :: uint)
      in T(5 := ucast def_temp, 4 := ucast (drop_bit 8 def_temp), 3 := ucast (drop_bit 16 def_temp),
           2 := ucast (drop_bit 24 def_temp), 1 := ucast def_temp2, 0 := ucast (drop_bit 8 def_temp2)))"

definition mi_int7store :: "ptr \<Rightarrow> ulonglong \<Rightarrow> ptr" where
  "mi_int7store T A =
     (let def_temp = (ucast A :: uint); def_temp2 = (ucast (drop_bit 32 A) :: uint)
      in T(6 := ucast def_temp, 5 := ucast (drop_bit 8 def_temp), 4 := ucast (drop_bit 16 def_temp),
           3 := ucast (drop_bit 24 def_temp), 2 := ucast def_temp2, 1 := ucast (drop_bit 8 def_temp2),
           0 := ucast (drop_bit 16 def_temp2)))"

text \<open>A store through \<open>T + k\<close>.\<close>

definition store_at :: "nat \<Rightarrow> (ptr \<Rightarrow> ptr) \<Rightarrow> ptr \<Rightarrow> ptr" where
  "store_at k f T = (\<lambda>i. if i < k then T i else f (\<lambda>j. T (k + j)) (i - k))"

definition mi_int8store :: "ptr \<Rightarrow> ulonglong \<Rightarrow> ptr" where
  "mi_int8store T A =
     (let def_temp3 = (ucast A :: uint); def_temp4 = (ucast (drop_bit 32 A) :: uint);
          T = store_at 0 (\<lambda>T. mi_int4store T def_temp4) T
      in store_at 4 (\<lambda>T. mi_int4store T def_temp3) T)"

definition mi_rowstore :: "ptr \<Rightarrow> ulonglong \<Rightarrow> ptr" where "mi_rowstore T A = mi_int8store T A"
definition mi_rowkorr :: "ptr \<Rightarrow> ulonglong" where "mi_rowkorr T = mi_uint8korr T"
definition mi_sizestore :: "ptr \<Rightarrow> ulonglong \<Rightarrow> ptr" where "mi_sizestore T A = mi_int8store T A"
definition mi_sizekorr :: "ptr \<Rightarrow> ulonglong" where "mi_sizekorr T = mi_uint8korr T"

section \<open>Floating-point numbers\<close>

definition mi_float4store :: "ptr \<Rightarrow> ptr \<Rightarrow> ptr" where
  "mi_float4store T A = T(0 := A 3, 1 := A 2, 2 := A 1, 3 := A 0)"

definition mi_float4get :: "ptr \<Rightarrow> ptr" where
  "mi_float4get M = (\<lambda>_. 0)(0 := M 3, 1 := M 2, 2 := M 1, 3 := M 0)"

definition mi_float8store :: "ptr \<Rightarrow> ptr \<Rightarrow> ptr" where
  "mi_float8store T V = T(0 := V 7, 1 := V 6, 2 := V 5, 3 := V 4, 4 := V 3, 5 := V 2, 6 := V 1, 7 := V 0)"

definition mi_float8get :: "ptr \<Rightarrow> ptr" where
  "mi_float8get M = (\<lambda>_. 0)(0 := M 7, 1 := M 6, 2 := M 5, 3 := M 4, 4 := M 3, 5 := M 2, 6 := M 1, 7 := M 0)"

section \<open>Big-endian bytes\<close>

fun be_bytes :: "nat \<Rightarrow> nat \<Rightarrow> uchar list" where
  "be_bytes 0 v = []"
| "be_bytes (Suc n) v = of_nat (v div 256 ^ n) # be_bytes n v"

fun be_val :: "uchar list \<Rightarrow> nat" where
  "be_val [] = 0"
| "be_val (x # xs) = unat x * 256 ^ length xs + be_val xs"

text \<open>The order of \<open>memcmp\<close>.\<close>

fun memcmp_less :: "uchar list \<Rightarrow> uchar list \<Rightarrow> bool" where
  "memcmp_less (x # xs) (y # ys) \<longleftrightarrow> x < y \<or> x = y \<and> memcmp_less xs ys"
| "memcmp_less _ _ \<longleftrightarrow> False"

lemma length_be_bytes [simp]: "length (be_bytes n v) = n"
  by (induction n) auto

lemma of_nat_byte: "(of_nat x :: uchar) = of_nat y \<longleftrightarrow> x mod 256 = y mod 256"
  by (simp add: word_of_nat_eq_iff take_bit_eq_mod)

lemma unat_of_nat_byte: "unat (of_nat x :: uchar) = x mod 256"
  by (simp add: unsigned_of_nat take_bit_eq_mod)

lemma be_bytes_mod: "n \<le> m \<Longrightarrow> be_bytes n (v mod 256 ^ m) = be_bytes n v"
proof (induction n)
  case (Suc n)
  have "(256 :: nat) ^ m = 256 ^ n * (256 * 256 ^ (m - Suc n))"
    using Suc.prems by (simp flip: power_Suc power_add)
  then have "v mod 256 ^ m div 256 ^ n = v div 256 ^ n mod (256 * 256 ^ (m - Suc n))"
    by (simp add: mod_mult2_eq)
  then have "v mod 256 ^ m div 256 ^ n mod 256 = v div 256 ^ n mod 256"
    by (simp add: mod_mod_cancel)
  then show ?case using Suc by (simp add: of_nat_byte)
qed simp

lemma be_val_bound: "be_val xs < 256 ^ length xs"
proof (induction xs)
  case (Cons x xs)
  have "Suc (unat x) \<le> 256" using unat_bound [of x] by simp
  then have "Suc (unat x) * 256 ^ length xs \<le> 256 * 256 ^ length xs" by (rule mult_le_mono1)
  then have "unat x * 256 ^ length xs + 256 ^ length xs \<le> 256 ^ length (x # xs)" by (simp only: mult_Suc power_Suc list.size) simp
  then show ?case unfolding be_val.simps using Cons.IH by linarith
qed simp

lemma be_val_be_bytes: "be_val (be_bytes n v) = v mod 256 ^ n"
proof (induction n)
  case (Suc n)
  have "v mod (256 ^ n * 256) = 256 ^ n * (v div 256 ^ n mod 256) + v mod 256 ^ n"
    by (rule mod_mult2_eq)
  then show ?case using Suc by (simp add: unat_of_nat_byte mult.commute)
qed simp

lemma memcmp_less_be_val:
  "length xs = length ys \<Longrightarrow> memcmp_less xs ys \<longleftrightarrow> be_val xs < be_val ys"
proof (induction xs ys rule: list_induct2)
  case (Cons x xs y ys)
  have step: "unat a * m + u < unat b * m + v" if "a < b" "u < m" for a b :: uchar and m u v :: nat
  proof -
    have "(unat a + 1) * m \<le> unat b * m" using that(1) by (intro mult_le_mono1) (simp add: word_less_nat_alt)
    then show ?thesis using that(2) by simp
  qed
  have bx: "be_val xs < 256 ^ length ys" using be_val_bound [of xs] Cons.hyps by simp
  have b_y: "be_val ys < 256 ^ length ys" by (rule be_val_bound)
  consider "x < y" | "x = y" | "y < x" by (rule linorder_cases)
  then show ?case
  proof cases
    case 1
    then show ?thesis using step [OF 1 bx] Cons by simp
  next
    case 2
    then show ?thesis using Cons by simp
  next
    case 3
    then have "\<not> be_val (x # xs) < be_val (y # ys)" using step [OF 3 b_y, of "be_val xs"] Cons by simp
    then show ?thesis using 3 by auto
  qed
qed simp

corollary memcmp_less_be_bytes:
  "memcmp_less (be_bytes n a) (be_bytes n b) \<longleftrightarrow> a mod 256 ^ n < b mod 256 ^ n"
  by (simp add: memcmp_less_be_val be_val_be_bytes)

text \<open>The byte a shift and a cast extract is a digit of the number.\<close>

lemma ucast_drop_bit_byte: "(ucast (drop_bit k x) :: uchar) = of_nat (unat x div 2 ^ k)" for x :: "'a::len word"
proof -
  have "(ucast y :: uchar) = of_nat (unat y)" for y :: "'a word" by simp
  then show ?thesis by (metis unat_drop_bit)
qed

lemma ucast_byte: "(ucast x :: uchar) = of_nat (unat x)" for x :: "'a::len word"
  by simp

section \<open>What the stores write\<close>

lemma drop_ucast: "(ucast (drop_bit k (ucast A :: uint)) :: uchar) = ucast (drop_bit k A)"
  if "k \<le> 24" for A :: ulonglong
  using that by (intro bit_word_eqI) (auto simp: bit_simps)

lemma drop_ucast_high: "(ucast (drop_bit k (ucast (drop_bit 32 A) :: uint)) :: uchar) = ucast (drop_bit (32 + k) A)"
  if "k \<le> 24" for A :: ulonglong
  using that by (intro bit_word_eqI) (auto simp: bit_simps ac_simps)

lemma ucast_ucast_byte: "(ucast (ucast A :: uint) :: uchar) = ucast A" for A :: ulonglong
  by (intro bit_word_eqI) (auto simp: bit_simps)

lemma ucast_ucast_high: "(ucast (ucast (drop_bit 32 A) :: uint) :: uchar) = ucast (drop_bit 32 A)" for A :: ulonglong
  by (intro bit_word_eqI) (auto simp: bit_simps)

lemmas store_bytes = drop_ucast drop_ucast_high ucast_ucast_byte ucast_ucast_high

lemma upt_4: "[0..<4] = [0, 1, 2, 3::nat]" by (simp add: upt_rec)
lemma upt_8: "[0..<8] = [0, 1, 2, 3, 4, 5, 6, 7::nat]" by (simp add: upt_rec)

lemma upt_lists:
  "[0..<1] = [0::nat]" "[0..<2] = [0, 1::nat]" "[0..<3] = [0, 1, 2::nat]" "[0..<4] = [0, 1, 2, 3::nat]"
  "[0..<5] = [0, 1, 2, 3, 4::nat]" "[0..<6] = [0, 1, 2, 3, 4, 5::nat]"
  "[0..<7] = [0, 1, 2, 3, 4, 5, 6::nat]" "[0..<8] = [0, 1, 2, 3, 4, 5, 6, 7::nat]"
  by (simp_all add: upt_rec)

lemma be_bytes_step: "0 < n \<Longrightarrow> be_bytes n v = of_nat (v div 256 ^ (n - 1)) # be_bytes (n - 1) v"
  by (cases n) auto

lemma be_bytes_1: "be_bytes 1 v = [of_nat v]"
  by simp

lemmas be_bytes_lists = be_bytes_1
  be_bytes_step [of 2, simplified] be_bytes_step [of 3, simplified] be_bytes_step [of 4, simplified]
  be_bytes_step [of 5, simplified] be_bytes_step [of 6, simplified] be_bytes_step [of 7, simplified]
  be_bytes_step [of 8, simplified]

lemma uint_bytes:
  "map (mi_int1store T A) [0..<1] = be_bytes 1 (unat A)"
  "map (mi_int2store T A) [0..<2] = be_bytes 2 (unat A)"
  "map (mi_int3store T A) [0..<3] = be_bytes 3 (unat A)"
  "map (mi_int4store T A) [0..<4] = be_bytes 4 (unat A)"
  by (simp_all add: upt_lists be_bytes_lists mi_int1store_def mi_int2store_def mi_int3store_def
      mi_int4store_def ucast_drop_bit_byte)

lemma ulonglong_bytes:
  "map (mi_int5store T A) [0..<5] = be_bytes 5 (unat A)"
  "map (mi_int6store T A) [0..<6] = be_bytes 6 (unat A)"
  "map (mi_int7store T A) [0..<7] = be_bytes 7 (unat A)"
  "map (mi_int8store T A) [0..<8] = be_bytes 8 (unat A)"
  by (simp_all add: upt_lists be_bytes_lists mi_int5store_def mi_int6store_def mi_int7store_def Let_def
      mi_int8store_def store_at_def mi_int4store_def store_bytes ucast_drop_bit_byte [where 'a = 64])

section \<open>What the reads return\<close>

lemma unat_or_shifted:
  "unat (x OR push_bit k (ucast b)) = unat x + 2 ^ k * unat b"
  if "unat x < 2 ^ k" "k + LENGTH('b) \<le> LENGTH('a)" for x :: "'a::len word" and b :: "'b::len word"
proof (rule bit_eqI)
  fix n
  have "bit x n \<Longrightarrow> n < k"
    using that(1) by (metis bit_unat bit_take_bit_iff take_bit_nat_eq_self)
  then show "bit (unat (x OR push_bit k (ucast b))) n \<longleftrightarrow> bit (unat x + 2 ^ k * unat b) n"
    using that
    by (auto simp add: bit_unat bit_add_shifted bit_simps dest: bit_imp_le_length)
qed

lemma unat_ucast_up: "unat (ucast b :: 'a::len word) = unat b" if "LENGTH('b) \<le> LENGTH('a)" for b :: "'b::len word"
  using that by (intro bit_eqI) (auto simp: bit_unat bit_simps dest: bit_imp_le_length)

lemma byte_le: "unat (b :: uchar) \<le> 255"
  using unat_bound [of b] by simp

lemma unat_pair: "unat (ucast b OR push_bit 8 (ucast a) :: 'a::len word) = unat b + 2 ^ 8 * unat a"
  if "16 \<le> LENGTH('a)" for a b :: uchar
  using that byte_le [of b] by (subst unat_or_shifted) (simp_all add: unat_ucast_up)

lemma unat_triple:
  "unat (ucast c OR push_bit 8 (ucast b) OR push_bit 16 (ucast a) :: uint) = unat c + 2 ^ 8 * unat b + 2 ^ 16 * unat a"
  for a b c :: uchar
  using byte_le [of b] byte_le [of c]
  by (simp add: unat_or_shifted unat_pair flip: or.assoc)

lemma unat_quad:
  "unat (ucast d OR push_bit 8 (ucast c) OR push_bit 16 (ucast b) OR push_bit 24 (ucast a) :: uint) =
   unat d + 2 ^ 8 * unat c + 2 ^ 16 * unat b + 2 ^ 24 * unat a"
  for a b c d :: uchar
  using byte_le [of b] byte_le [of c] byte_le [of d] unat_triple [of d c b]
  by (simp add: unat_or_shifted flip: or.assoc)

lemma unat_high: "unat (ucast x OR push_bit 32 (ucast y) :: ulonglong) = unat x + 2 ^ 32 * unat y"
  if "LENGTH('b) \<le> 32" for x :: uint and y :: "'b::len word"
  using that unat_bound [of x] by (subst unat_or_shifted) (simp_all add: unat_ucast_up)

lemmas unat_reads = unat_pair unat_triple unat_quad unat_high unat_ucast_up

lemma uint_reads:
  "unat (mi_uint1korr A) = be_val (map A [0..<1])"
  "unat (mi_uint2korr A) = be_val (map A [0..<2])"
  "unat (mi_uint3korr A) = be_val (map A [0..<3])"
  "unat (mi_uint4korr A) = be_val (map A [0..<4])"
  unfolding mi_uint1korr_def mi_uint2korr_def mi_uint3korr_def mi_uint4korr_def upt_lists
  by (simp_all add: unat_reads)

lemma ulonglong_reads:
  "unat (mi_uint5korr A) = be_val (map A [0..<5])"
  "unat (mi_uint6korr A) = be_val (map A [0..<6])"
  "unat (mi_uint7korr A) = be_val (map A [0..<7])"
  "unat (mi_uint8korr A) = be_val (map A [0..<8])"
  unfolding mi_uint5korr_def mi_uint6korr_def mi_uint7korr_def mi_uint8korr_def upt_lists
  by (simp_all add: unat_reads algebra_simps)

lemma bit_7_iff: "b AND 128 \<noteq> 0 \<longleftrightarrow> bit b 7" for b :: uchar
proof -
  have m: "(128 :: uchar) = push_bit 7 1" by simp
  have m_bit: "bit (128 :: uchar) n \<longleftrightarrow> n = 7" for n
    unfolding m bit_push_bit_iff by (auto simp: bit_1_iff)
  have "b AND 128 = (if bit b 7 then 128 else 0)"
    by (rule bit_word_eqI) (auto simp only: bit_and_iff m_bit bit_0_eq bot_apply bot_bool_def split: if_splits)
  then show ?thesis by simp
qed

lemma mi_sint3korr_eq: "mi_sint3korr A = signed_take_bit 23 (mi_uint3korr A)"
proof (rule bit_word_eqI)
  fix n assume "n < LENGTH(32)"
  have m: "(255 :: uint) = mask 8" by (simp add: mask_eq_exp_minus_1)
  have high: "bit (push_bit 24 (255 :: uint)) n \<longleftrightarrow> 24 \<le> n" using \<open>n < LENGTH(32)\<close>
    unfolding m bit_push_bit_iff bit_mask_iff by auto
  have low: "bit (A j) k \<Longrightarrow> k < 8" for j k using bit_imp_le_length [of "A j" k] by simp
  show "bit (mi_sint3korr A) n \<longleftrightarrow> bit (signed_take_bit 23 (mi_uint3korr A)) n"
  proof (cases "24 \<le> n")
    case True
    have "\<not> bit (A 0) (n - 16)" "\<not> bit (A 1) (n - 8)" "\<not> bit (A 2) n" "\<not> bit (A 1) 15" "\<not> bit (A 2) 23"
      using True low by fastforce+
    then show ?thesis using True high \<open>n < LENGTH(32)\<close>
      by (simp add: mi_sint3korr_def mi_uint3korr_def bit_7_iff bit_simps min_def)
  next
    case False
    then have "min 23 n = n" by simp
    then show ?thesis using False high \<open>n < LENGTH(32)\<close>
      by (auto simp add: mi_sint3korr_def mi_uint3korr_def bit_7_iff bit_or_iff bit_signed_take_bit_iff)
  qed
qed

lemma uint_round_trips:
  "mi_uint1korr (mi_int1store T A) = ucast A"
  "mi_uint2korr (mi_int2store T A) = ucast A"
  "mi_uint3korr (mi_int3store T A) = take_bit 24 A"
  "mi_uint4korr (mi_int4store T A) = A"
proof -
  show "mi_uint1korr (mi_int1store T A) = ucast A"
    by (simp add: mi_uint1korr_def mi_int1store_def)
  show "mi_uint2korr (mi_int2store T A) = ucast A"
    by (rule unsigned_word_eqI [where 'a = nat]) (simp only: uint_reads uint_bytes be_val_be_bytes, simp add: unsigned_ucast_eq take_bit_eq_mod)
  show "mi_uint3korr (mi_int3store T A) = take_bit 24 A"
    by (rule unsigned_word_eqI [where 'a = nat]) (simp only: uint_reads uint_bytes be_val_be_bytes, simp add: unat_take_bit)
  show "mi_uint4korr (mi_int4store T A) = A"
    using unat_bound [of A] by (intro unsigned_word_eqI [where 'a = nat]) (simp only: uint_reads uint_bytes be_val_be_bytes, simp)
qed

lemma signed_take_bit_take_bit_23: "signed_take_bit 23 (take_bit 24 a) = signed_take_bit 23 a" for a :: uint
  by (rule bit_word_eqI) (auto simp: bit_signed_take_bit_iff bit_take_bit_iff min_def)

lemma ulonglong_round_trips:
  "mi_uint5korr (mi_int5store T A) = take_bit 40 A"
  "mi_uint6korr (mi_int6store T A) = take_bit 48 A"
  "mi_uint7korr (mi_int7store T A) = take_bit 56 A"
  "mi_uint8korr (mi_int8store T A) = A"
proof -
  show "mi_uint5korr (mi_int5store T A) = take_bit 40 A"
    by (rule unsigned_word_eqI [where 'a = nat]) (simp only: ulonglong_reads ulonglong_bytes be_val_be_bytes, simp add: unat_take_bit)
  show "mi_uint6korr (mi_int6store T A) = take_bit 48 A"
    by (rule unsigned_word_eqI [where 'a = nat]) (simp only: ulonglong_reads ulonglong_bytes be_val_be_bytes, simp add: unat_take_bit)
  show "mi_uint7korr (mi_int7store T A) = take_bit 56 A"
    by (rule unsigned_word_eqI [where 'a = nat]) (simp only: ulonglong_reads ulonglong_bytes be_val_be_bytes, simp add: unat_take_bit)
  show "mi_uint8korr (mi_int8store T A) = A"
    using unat_bound [of A] by (intro unsigned_word_eqI [where 'a = nat]) (simp only: ulonglong_reads ulonglong_bytes be_val_be_bytes, simp)
qed

section \<open>Properties\<close>

text \<open>Storing and reading back. For every width the unsigned read returns the stored number
  modulo the width, the signed 3-byte read is its sign extension, the other signed reads have the
  bits of the unsigned ones, row and file positions come back whole, and the bytes of a
  float or double are restored. A store changes only the bytes of its width.
\<close>

theorem mi_round_trip:
  "mi_uint1korr (mi_int1store T a) = ucast a \<and> mi_sint1korr (mi_int1store T a) = ucast a \<and>
   mi_uint2korr (mi_int2store T a) = ucast a \<and> mi_sint2korr (mi_int2store T a) = ucast a \<and>
   mi_uint3korr (mi_int3store T a) = take_bit 24 a \<and> mi_sint3korr (mi_int3store T a) = signed_take_bit 23 a \<and>
   mi_uint4korr (mi_int4store T a) = a \<and> mi_sint4korr (mi_int4store T a) = a \<and>
   mi_uint5korr (mi_int5store T b) = take_bit 40 b \<and> mi_uint6korr (mi_int6store T b) = take_bit 48 b \<and>
   mi_uint7korr (mi_int7store T b) = take_bit 56 b \<and>
   mi_uint8korr (mi_int8store T b) = b \<and> mi_sint8korr (mi_int8store T b) = b \<and>
   mi_rowkorr (mi_rowstore T b) = b \<and> mi_sizekorr (mi_sizestore T b) = b \<and>
   map (mi_float4get (mi_float4store T f)) [0..<4] = map f [0..<4] \<and>
   map (mi_float8get (mi_float8store T f)) [0..<8] = map f [0..<8] \<and>
   mi_int4store T a (4 + i) = T (4 + i) \<and> mi_int8store T b (8 + i) = T (8 + i)"
proof (intro conjI)
  show "mi_sint3korr (mi_int3store T a) = signed_take_bit 23 a"
    by (simp add: mi_sint3korr_eq uint_round_trips signed_take_bit_take_bit_23)
  show "map (mi_float4get (mi_float4store T f)) [0..<4] = map f [0..<4]"
    by (simp add: upt_lists mi_float4get_def mi_float4store_def)
  show "map (mi_float8get (mi_float8store T f)) [0..<8] = map f [0..<8]"
    by (simp add: upt_lists mi_float8get_def mi_float8store_def)
  show "mi_int8store T b (8 + i) = T (8 + i)"
    by (simp add: mi_int8store_def store_at_def mi_int4store_def Let_def)
qed (use uint_round_trips [of T a] ulonglong_round_trips [of T b] in
    \<open>simp_all add: mi_sint1korr_def mi_uint1korr_def mi_sint2korr_def mi_uint2korr_def mi_sint4korr_def
      mi_uint4korr_def mi_sint8korr_def mi_rowkorr_def mi_rowstore_def mi_sizekorr_def mi_sizestore_def
      mi_int4store_def\<close>)

text \<open>The reason for storing the high byte first: comparing the stored bytes as \<open>memcmp\<close> does
  gives the order of the stored numbers, for every width.
\<close>

theorem mi_key_order:
  "(memcmp_less (map (mi_int1store T a) [0..<1]) (map (mi_int1store U b) [0..<1]) \<longleftrightarrow> take_bit 8 a < take_bit 8 b) \<and>
   (memcmp_less (map (mi_int2store T a) [0..<2]) (map (mi_int2store U b) [0..<2]) \<longleftrightarrow> take_bit 16 a < take_bit 16 b) \<and>
   (memcmp_less (map (mi_int3store T a) [0..<3]) (map (mi_int3store U b) [0..<3]) \<longleftrightarrow> take_bit 24 a < take_bit 24 b) \<and>
   (memcmp_less (map (mi_int4store T a) [0..<4]) (map (mi_int4store U b) [0..<4]) \<longleftrightarrow> a < b) \<and>
   (memcmp_less (map (mi_int5store T c) [0..<5]) (map (mi_int5store U d) [0..<5]) \<longleftrightarrow> take_bit 40 c < take_bit 40 d) \<and>
   (memcmp_less (map (mi_int6store T c) [0..<6]) (map (mi_int6store U d) [0..<6]) \<longleftrightarrow> take_bit 48 c < take_bit 48 d) \<and>
   (memcmp_less (map (mi_int7store T c) [0..<7]) (map (mi_int7store U d) [0..<7]) \<longleftrightarrow> take_bit 56 c < take_bit 56 d) \<and>
   (memcmp_less (map (mi_int8store T c) [0..<8]) (map (mi_int8store U d) [0..<8]) \<longleftrightarrow> c < d)"
proof -
  have "unat a mod 4294967296 = unat a" "unat b mod 4294967296 = unat b"
    using unat_bound [of a] unat_bound [of b] by simp_all
  moreover have "unat c mod 18446744073709551616 = unat c" "unat d mod 18446744073709551616 = unat d"
    using unat_bound [of c] unat_bound [of d] by simp_all
  ultimately show ?thesis
    unfolding uint_bytes ulonglong_bytes memcmp_less_be_bytes word_less_nat_alt unat_take_bit by simp
qed

end
