(* ===== verification/Thread_Cache.thy ===== *)
theory Thread_Cache
  imports Prelude
begin

text \<open>
  \<open>thread_cache.h\<close>: the cache of idle threads of the one-thread-per-connection scheduler. The state
  of the cache changes only in the critical sections of its methods (between taking the
  lock and the next unlock or wait); each section is one function below. The system is
  the cache with the program counter of every thread, and a schedule is a list of
  actions: entering a method, the return of a wait (signalled, timed out or spurious), the resumption
  of a method after it, and the signals sent after unlocking. Only the
  increment of \<open>final_flush\<close> is outside the lock, so it is split into its load and its store.
  The queue of connections is the list that \<open>I_List\<close> of \<open>sql_list.h\<close> implements.
\<close>

type_synonym connect = nat

section \<open>The cache and its critical sections\<close>

record thread_cache =
  conn_list :: "connect list"
  cached_thread_count :: uint
  kill_cached_threads :: uint

definition tc_init :: thread_cache where
  "tc_init = \<lparr>conn_list = [], cached_thread_count = 0, kill_cached_threads = 0\<rparr>"

text \<open>\<^const>\<open>None\<close> is a failed assertion.\<close>

definition tc_destroy :: "thread_cache \<Rightarrow> unit option" where
  "tc_destroy tc = (if cached_thread_count tc = 0 \<and> conn_list tc = [] then Some () else None)"

definition list_get :: "thread_cache \<Rightarrow> (connect \<times> thread_cache) option" where
  "list_get tc = (case conn_list tc of [] \<Rightarrow> None | c # cs \<Rightarrow> Some (c, tc\<lparr>conn_list := cs\<rparr>))"

definition tc_enqueue :: "connect \<Rightarrow> thread_cache \<Rightarrow> thread_cache \<times> bool" where
  "tc_enqueue c tc =
     (if cached_thread_count tc \<noteq> 0
      then (tc\<lparr>conn_list := conn_list tc @ [c], cached_thread_count := cached_thread_count tc - 1\<rparr>, True)
      else (tc, False))"

text \<open>A section of \<open>park\<close> ends by returning a connection (or null), with the value of \<open>flushed\<close>, or by waiting.\<close>

datatype park_out = Park_Return "connect option" bool | Park_Wait

definition park_enter :: "uint \<Rightarrow> thread_cache \<Rightarrow> thread_cache \<times> park_out" where
  "park_enter thread_cache_size tc =
     (case list_get tc of
        Some (c, tc) \<Rightarrow> (tc\<lparr>cached_thread_count := cached_thread_count tc + 1\<rparr>, Park_Return (Some c) False)
      | None \<Rightarrow>
          if cached_thread_count tc < thread_cache_size \<and> kill_cached_threads tc = 0
          then (tc\<lparr>cached_thread_count := cached_thread_count tc + 1\<rparr>, Park_Wait)
          else (tc, Park_Return None False))"

datatype wait_error = No_Error | ETIMEDOUT | ETIME | Other_Error

definition park_wakeup :: "wait_error \<Rightarrow> thread_cache \<Rightarrow> thread_cache \<times> park_out" where
  "park_wakeup error tc =
     (let flushed = (kill_cached_threads tc \<noteq> 0)
      in case list_get tc of
           Some (c, tc) \<Rightarrow> (tc, Park_Return (Some c) flushed)
         | None \<Rightarrow>
             if flushed \<or> error = ETIMEDOUT \<or> error = ETIME
             then (tc\<lparr>cached_thread_count := cached_thread_count tc - 1\<rparr>, Park_Return None flushed)
             else (tc, Park_Wait))"

definition flush_begin :: "thread_cache \<Rightarrow> thread_cache" where
  "flush_begin tc = tc\<lparr>kill_cached_threads := kill_cached_threads tc + 1\<rparr>"

text \<open>One turn of the loop of \<open>flush\<close>; the flag says whether it broadcasts and waits or leaves the loop.\<close>

definition flush_turn :: "thread_cache \<Rightarrow> thread_cache \<times> bool" where
  "flush_turn tc =
     (if cached_thread_count tc \<noteq> 0 then (tc, True)
      else (tc\<lparr>kill_cached_threads := kill_cached_threads tc - 1\<rparr>, False))"

definition tc_size :: "thread_cache \<Rightarrow> uint" where
  "tc_size tc = cached_thread_count tc"

section \<open>Threads and schedules\<close>

datatype pc =
    Running
  | In_Wait              \<comment> \<open>blocked on \<open>COND_thread_cache\<close>\<close>
  | Awake wait_error     \<comment> \<open>its wait has ended, it will take the lock\<close>
  | Park_Unlocked        \<comment> \<open>left \<open>park\<close> while flushed, will signal \<open>COND_flush_thread_cache\<close>\<close>
  | Enqueue_Unlocked     \<comment> \<open>enqueued, will signal \<open>COND_thread_cache\<close>\<close>
  | In_Flush_Wait        \<comment> \<open>blocked on \<open>COND_flush_thread_cache\<close>\<close>
  | Flush_Awake
  | Final_Loaded uint    \<comment> \<open>\<open>final_flush\<close> between the load and the store\<close>
  | Final_Stored         \<comment> \<open>\<open>final_flush\<close> before its call of \<open>flush\<close>\<close>

text \<open>The last three fields are the history: connections accepted by
  \<open>enqueue\<close>, connections returned by \<open>park\<close>, and whether a \<open>final_flush\<close> has set the counter.\<close>

record system =
  cache :: thread_cache
  pcs :: "pc list"
  accepted :: "connect list"
  served :: "connect list"
  closed :: bool

definition sys_init :: "nat \<Rightarrow> system" where
  "sys_init n = \<lparr>cache = tc_init, pcs = replicate n Running, accepted = [], served = [], closed = False\<rparr>"

definition goto :: "nat \<Rightarrow> pc \<Rightarrow> system \<Rightarrow> system" where
  "goto i p s = s\<lparr>pcs := (pcs s)[i := p]\<rparr>"

text \<open>
  \<open>mysql_cond_signal\<close> wakes one of the threads blocked on the condition, the scheduler's choice, and does
  nothing when there is none; \<open>mysql_cond_broadcast\<close> wakes all of them.
\<close>

definition cond_signal :: "pc \<Rightarrow> pc \<Rightarrow> nat option \<Rightarrow> pc list \<Rightarrow> pc list option" where
  "cond_signal blocked woken t ps =
     (case t of
        None \<Rightarrow> if blocked \<in> set ps then None else Some ps
      | Some j \<Rightarrow> if j < length ps \<and> ps ! j = blocked then Some (ps[j := woken]) else None)"

definition cond_broadcast :: "pc list \<Rightarrow> pc list" where
  "cond_broadcast ps = map (\<lambda>p. if p = In_Wait then Awake No_Error else p) ps"

definition finish_park :: "nat \<Rightarrow> thread_cache \<times> park_out \<Rightarrow> system \<Rightarrow> system" where
  "finish_park i r s =
     (case r of
        (tc, Park_Wait) \<Rightarrow> goto i In_Wait (s\<lparr>cache := tc\<rparr>)
      | (tc, Park_Return c flushed) \<Rightarrow>
          goto i (if flushed then Park_Unlocked else Running)
            (s\<lparr>cache := tc, served := served s @ (case c of None \<Rightarrow> [] | Some c \<Rightarrow> [c])\<rparr>))"

definition turn_flush :: "nat \<Rightarrow> system \<Rightarrow> system" where
  "turn_flush i s =
     (case flush_turn (cache s) of
        (tc, True) \<Rightarrow> goto i In_Flush_Wait (s\<lparr>cache := tc, pcs := cond_broadcast (pcs s)\<rparr>)
      | (tc, False) \<Rightarrow> goto i Running (s\<lparr>cache := tc\<rparr>))"

datatype action =
    Park nat uint
  | Wait_Ends nat wait_error
  | Park_Resume nat
  | Park_Signal nat "nat option"
  | Enqueue nat connect
  | Enqueue_Signal nat "nat option"
  | Flush nat
  | Flush_Spurious nat
  | Flush_Resume nat
  | Final_Load nat
  | Final_Store nat

fun thread :: "action \<Rightarrow> nat" where
  "thread (Park i _) = i"
| "thread (Wait_Ends i _) = i"
| "thread (Park_Resume i) = i"
| "thread (Park_Signal i _) = i"
| "thread (Enqueue i _) = i"
| "thread (Enqueue_Signal i _) = i"
| "thread (Flush i) = i"
| "thread (Flush_Spurious i) = i"
| "thread (Flush_Resume i) = i"
| "thread (Final_Load i) = i"
| "thread (Final_Store i) = i"

text \<open>The action at a program counter; \<^const>\<open>None\<close> when it is not enabled there.\<close>

definition guard :: "bool \<Rightarrow> 'a option \<Rightarrow> 'a option" where
  "guard b x = (if b then x else None)"

definition flush_start :: "nat \<Rightarrow> system \<Rightarrow> system" where
  "flush_start i s = turn_flush i (s\<lparr>cache := flush_begin (cache s)\<rparr>)"

definition finish_enqueue :: "nat \<Rightarrow> connect \<Rightarrow> thread_cache \<times> bool \<Rightarrow> system \<Rightarrow> system" where
  "finish_enqueue i c r s =
     (case r of
        (tc, True) \<Rightarrow> goto i Enqueue_Unlocked (s\<lparr>cache := tc, accepted := accepted s @ [c]\<rparr>)
      | (tc, False) \<Rightarrow> s\<lparr>cache := tc\<rparr>)"

definition final_store :: "nat \<Rightarrow> uint \<Rightarrow> system \<Rightarrow> system" where
  "final_store i v s =
     goto i Final_Stored (s\<lparr>cache := (cache s)\<lparr>kill_cached_threads := v + 1\<rparr>, closed := True\<rparr>)"

definition send :: "nat \<Rightarrow> pc list option \<Rightarrow> system \<Rightarrow> system option" where
  "send i r s = map_option (\<lambda>ps. goto i Running (s\<lparr>pcs := ps\<rparr>)) r"

fun act_at :: "action \<Rightarrow> pc \<Rightarrow> system \<Rightarrow> system option" where
  "act_at (Park i n) p s = guard (p = Running) (Some (finish_park i (park_enter n (cache s)) s))"
| "act_at (Wait_Ends i e) p s = guard (p = In_Wait) (Some (goto i (Awake e) s))"
| "act_at (Park_Resume i) p s =
     (case p of Awake e \<Rightarrow> Some (finish_park i (park_wakeup e (cache s)) s) | _ \<Rightarrow> None)"
| "act_at (Park_Signal i t) p s =
     guard (p = Park_Unlocked) (send i (cond_signal In_Flush_Wait Flush_Awake t (pcs s)) s)"
| "act_at (Enqueue i c) p s = guard (p = Running) (Some (finish_enqueue i c (tc_enqueue c (cache s)) s))"
| "act_at (Enqueue_Signal i t) p s =
     guard (p = Enqueue_Unlocked) (send i (cond_signal In_Wait (Awake No_Error) t (pcs s)) s)"
| "act_at (Flush i) p s = guard (p = Running \<or> p = Final_Stored) (Some (flush_start i s))"
| "act_at (Flush_Spurious i) p s = guard (p = In_Flush_Wait) (Some (goto i Flush_Awake s))"
| "act_at (Flush_Resume i) p s = guard (p = Flush_Awake) (Some (turn_flush i s))"
| "act_at (Final_Load i) p s =
     guard (p = Running) (Some (goto i (Final_Loaded (kill_cached_threads (cache s))) s))"
| "act_at (Final_Store i) p s = (case p of Final_Loaded v \<Rightarrow> Some (final_store i v s) | _ \<Rightarrow> None)"

definition act :: "action \<Rightarrow> system \<Rightarrow> system option" where
  "act a s = (if thread a < length (pcs s) then act_at a (pcs s ! thread a) s else None)"

fun run :: "action list \<Rightarrow> system \<Rightarrow> system option" where
  "run [] s = Some s"
| "run (a # as) s = (case act a s of None \<Rightarrow> None | Some s \<Rightarrow> run as s)"

text \<open>
  The states reached by the actions that \<open>ok\<close> admits.
\<close>

inductive reach :: "(action \<Rightarrow> system \<Rightarrow> bool) \<Rightarrow> nat \<Rightarrow> system \<Rightarrow> bool" for ok n where
  init: "reach ok n (sys_init n)"
| step: "reach ok n s \<Longrightarrow> ok a s \<Longrightarrow> act a s = Some s' \<Longrightarrow> reach ok n s'"

text \<open>No value of \<open>thread_cache_size\<close> above \<open>lim\<close> is used.\<close>

fun size_upto :: "uint \<Rightarrow> action \<Rightarrow> system \<Rightarrow> bool" where
  "size_upto lim (Park i n) s \<longleftrightarrow> n \<le> lim"
| "size_upto lim _ s \<longleftrightarrow> True"

section \<open>Counting threads\<close>

fun is_waiting :: "pc \<Rightarrow> bool" where
  "is_waiting In_Wait = True"
| "is_waiting (Awake e) = True"
| "is_waiting _ = False"

fun is_awake :: "pc \<Rightarrow> bool" where
  "is_awake (Awake e) = True"
| "is_awake _ = False"

definition num :: "(pc \<Rightarrow> bool) \<Rightarrow> pc list \<Rightarrow> nat" where
  "num P ps = length (filter P ps)"

lemma num_update:
  "i < length ps \<Longrightarrow> num P (ps[i := q]) + of_bool (P (ps ! i)) = num P ps + of_bool (P q)"
proof (induction ps arbitrary: i)
  case (Cons p ps)
  then show ?case by (cases i) (auto simp: num_def)
qed simp

lemma in_set_update_other: "x \<in> set (xs[i := a]) \<Longrightarrow> x \<noteq> a \<Longrightarrow> x \<in> set (xs[i := b])"
proof (induction xs arbitrary: i)
  case (Cons y xs)
  then show ?case by (cases i) auto
qed simp

lemma num_pos: "i < length ps \<Longrightarrow> P (ps ! i) \<Longrightarrow> 0 < num P ps"
  by (auto simp: num_def filter_empty_conv)

lemma num_posD: "0 < num P ps \<Longrightarrow> \<exists>i < length ps. P (ps ! i)"
  by (auto simp: num_def filter_empty_conv in_set_conv_nth)

lemma num_0_iff: "num P ps = 0 \<longleftrightarrow> (\<forall>p \<in> set ps. \<not> P p)"
  by (simp add: num_def filter_empty_conv)

lemma num_mono: "(\<And>p. P p \<Longrightarrow> Q p) \<Longrightarrow> num P ps \<le> num Q ps"
  by (induction ps) (auto simp: num_def)

lemma num_broadcast:
  "num is_waiting (cond_broadcast ps) = num is_waiting ps"
  "num is_awake (cond_broadcast ps) = num is_waiting ps"
  "(\<not> P In_Wait \<and> (\<forall>e. \<not> P (Awake e))) \<Longrightarrow> num P (cond_broadcast ps) = num P ps"
proof -
  have "is_waiting (if p = In_Wait then Awake No_Error else p) \<longleftrightarrow> is_waiting p" for p by simp
  then show "num is_waiting (cond_broadcast ps) = num is_waiting ps"
    by (simp add: num_def cond_broadcast_def filter_map comp_def)
  have "is_awake (if p = In_Wait then Awake No_Error else p) \<longleftrightarrow> is_waiting p" for p by (cases p) auto
  then show "num is_awake (cond_broadcast ps) = num is_waiting ps"
    by (simp add: num_def cond_broadcast_def filter_map comp_def)
  assume "\<not> P In_Wait \<and> (\<forall>e. \<not> P (Awake e))"
  then have "P (if p = In_Wait then Awake No_Error else p) \<longleftrightarrow> P p" for p by auto
  then show "num P (cond_broadcast ps) = num P ps"
    by (simp add: num_def cond_broadcast_def filter_map comp_def)
qed

lemma length_broadcast [simp]: "length (cond_broadcast ps) = length ps"
  by (simp add: cond_broadcast_def)

section \<open>The invariant\<close>

text \<open>
  Every waiting thread is counted, by \<open>cached_thread_count\<close> or by the connection it is to serve; every
  queued connection has a thread that is awake or a signal on its way; connections are served in the order
  they were accepted.
\<close>

definition tc_inv :: "uint \<Rightarrow> system \<Rightarrow> bool" where
  "tc_inv lim s \<longleftrightarrow>
     num is_waiting (pcs s) = unat (cached_thread_count (cache s)) + length (conn_list (cache s)) \<and>
     num is_waiting (pcs s) \<le> unat lim \<and>
     length (conn_list (cache s)) \<le> num is_awake (pcs s) + num ((=) Enqueue_Unlocked) (pcs s) \<and>
     accepted s = served s @ conn_list (cache s)"

lemma goto_simps [simp]:
  "cache (goto i p s) = cache s" "pcs (goto i p s) = (pcs s)[i := p]" "accepted (goto i p s) = accepted s"
  "served (goto i p s) = served s" "closed (goto i p s) = closed s"
  by (simp_all add: goto_def)

lemma tc_inv_goto:
  assumes "tc_inv lim s" "i < length (pcs s)"
    and "is_waiting p \<longleftrightarrow> is_waiting (pcs s ! i)"
    and "of_bool (is_awake (pcs s ! i)) + of_bool (pcs s ! i = Enqueue_Unlocked) \<le>
         (of_bool (is_awake p) + of_bool (p = Enqueue_Unlocked) :: nat)"
  shows "tc_inv lim (goto i p s)"
  using assms num_update [OF assms(2), of is_waiting p] num_update [OF assms(2), of is_awake p]
    num_update [OF assms(2), of "(=) Enqueue_Unlocked" p]
  unfolding tc_inv_def goto_simps by (auto simp: eq_commute)

lemma num_goto:
  assumes "i < length (pcs s)"
  shows "num P (pcs (goto i p s)) + of_bool (P (pcs s ! i)) = num P (pcs s) + of_bool (P p)"
  using num_update [OF assms] by simp

lemmas tc_sections = park_enter_def park_wakeup_def list_get_def tc_enqueue_def finish_park_def
  finish_enqueue_def Let_def

lemma tc_inv_park_enter:
  assumes inv: "tc_inv lim s" and i: "i < length (pcs s)" "pcs s ! i = Running" and n: "n \<le> lim"
  shows "tc_inv lim (finish_park i (park_enter n (cache s)) s)"
proof (cases "conn_list (cache s)")
  case (Cons c cs)
  then have "unat (cached_thread_count (cache s)) < unat lim" using inv by (simp add: tc_inv_def)
  then have "unat (cached_thread_count (cache s) + 1) = unat (cached_thread_count (cache s)) + 1" by (rule unat_incr)
  moreover have "num P ((pcs s)[i := Running]) = num P (pcs s)" for P using i by (metis list_update_id)
  ultimately show ?thesis using inv Cons by (simp add: tc_inv_def tc_sections)
next
  case Nil
  show ?thesis
  proof (cases "cached_thread_count (cache s) < n \<and> kill_cached_threads (cache s) = 0")
    case True
    then have "unat (cached_thread_count (cache s)) < unat lim" using n by (simp add: word_less_nat_alt word_le_nat_alt)
    then have "unat (cached_thread_count (cache s) + 1) = unat (cached_thread_count (cache s)) + 1" by (rule unat_incr)
    then show ?thesis using inv Nil True i \<open>unat (cached_thread_count (cache s)) < unat lim\<close>
        num_update [OF i(1), of is_waiting In_Wait] by (simp add: tc_inv_def tc_sections)
  next
    case False
    have "(pcs s)[i := Running] = pcs s" using i by (metis list_update_id)
    with False Nil inv show ?thesis by (auto simp add: tc_inv_def tc_sections)
  qed
qed

lemma tc_inv_park_wakeup:
  assumes inv: "tc_inv lim s" and i: "i < length (pcs s)" "pcs s ! i = Awake e"
  shows "tc_inv lim (finish_park i (park_wakeup e (cache s)) s)"
proof -
  have upd: "num P ((pcs s)[i := p]) + of_bool (P (Awake e)) = num P (pcs s) + of_bool (P p)" for P p
    using num_update [OF i(1), of P p] i(2) by simp
  have "is_waiting (pcs s ! i)" using i(2) by simp
  then have pos: "0 < num is_waiting (pcs s)" by (rule num_pos [OF i(1)])
  define p where "p = (if kill_cached_threads (cache s) \<noteq> 0 then Park_Unlocked else Running)"
  have p: "\<not> is_waiting p" "\<not> is_awake p" "p \<noteq> Enqueue_Unlocked" by (simp_all add: p_def)
  note upds = upd [of is_waiting p] upd [of is_awake p] upd [of "(=) Enqueue_Unlocked" p]
    upd [of is_waiting In_Wait] upd [of is_awake In_Wait] upd [of "(=) Enqueue_Unlocked" In_Wait]
  show ?thesis
  proof (cases "conn_list (cache s)")
    case Nil
    then have "0 < unat (cached_thread_count (cache s))" using pos inv by (simp add: tc_inv_def)
    then have "unat (cached_thread_count (cache s) - 1) = unat (cached_thread_count (cache s)) - 1"
      by (rule unat_minus_1)
    then show ?thesis using inv Nil pos p upds by (auto simp add: tc_inv_def tc_sections p_def)
  next
    case (Cons c cs)
    then show ?thesis using inv p upds by (auto simp add: tc_inv_def tc_sections simp flip: p_def)
  qed
qed

lemma tc_inv_enqueue:
  assumes inv: "tc_inv lim s" and i: "i < length (pcs s)" "pcs s ! i = Running"
  shows "tc_inv lim (finish_enqueue i c (tc_enqueue c (cache s)) s)"
proof (cases "cached_thread_count (cache s) = 0")
  case True
  then show ?thesis using inv by (simp add: tc_inv_def tc_sections)
next
  case False
  then have "0 < unat (cached_thread_count (cache s))" by (simp add: unat_gt_0)
  then have "unat (cached_thread_count (cache s) - 1) = unat (cached_thread_count (cache s)) - 1"
    by (rule unat_minus_1)
  then show ?thesis
    using False inv i num_update [OF i(1), of is_waiting Enqueue_Unlocked] num_update [OF i(1), of is_awake Enqueue_Unlocked]
      num_update [OF i(1), of "(=) Enqueue_Unlocked" Enqueue_Unlocked] \<open>0 < unat (cached_thread_count (cache s))\<close>
    by (simp add: tc_inv_def tc_sections)
qed

lemma tc_inv_send:
  assumes inv: "tc_inv lim s" and i: "i < length (pcs s)" "pcs s ! i = p" "\<not> is_waiting p"
    and r: "cond_signal b w t (pcs s) = Some ps" and bw: "b \<noteq> p" "\<not> is_awake b" "is_waiting b = is_waiting w" "w \<noteq> Enqueue_Unlocked"
      "b \<noteq> Enqueue_Unlocked"
    and enq: "p = Enqueue_Unlocked \<Longrightarrow> b = In_Wait \<and> is_awake w"
  shows "tc_inv lim (goto i Running (s\<lparr>pcs := ps\<rparr>))"
proof (cases t)
  case None
  have ps: "ps = pcs s" and b: "b \<notin> set (pcs s)" using r None by (auto simp: cond_signal_def split: if_splits)
  have awake: "num is_waiting (pcs s) = num is_awake (pcs s)" if "p = Enqueue_Unlocked"
  proof -
    have "is_waiting q \<longleftrightarrow> is_awake q" if "q \<in> set (pcs s)" for q
    proof -
      have "q \<noteq> In_Wait" using that b enq [OF \<open>p = Enqueue_Unlocked\<close>] by auto
      then show ?thesis by (cases q rule: pc.exhaust) simp_all
    qed
    then show ?thesis unfolding num_def by (metis (mono_tags, lifting) filter_cong)
  qed
  have "\<not> is_awake p" using i(3) by (cases p) auto
  then show ?thesis
    using inv ps i awake num_update [OF i(1), of is_waiting Running] num_update [OF i(1), of is_awake Running]
      num_update [OF i(1), of "(=) Enqueue_Unlocked" Running]
    by (cases "p = Enqueue_Unlocked") (auto simp: tc_inv_def)
next
  case (Some j)
  then have j: "j < length (pcs s)" "pcs s ! j = b" and ps: "ps = (pcs s)[j := w]"
    using r by (auto simp: cond_signal_def split: if_splits)
  have "i \<noteq> j" using j i bw by auto
  then have i': "i < length ps" "ps ! i = p" using i ps by auto
  have "\<not> is_awake p" using i(3) by (cases p) auto
  moreover have "is_awake w" if "p = Enqueue_Unlocked" using enq [OF that] by simp
  ultimately show ?thesis
    using inv i i' j bw ps num_update [OF j(1), of is_waiting w] num_update [OF j(1), of is_awake w]
      num_update [OF j(1), of "(=) Enqueue_Unlocked" w]
      num_update [OF i'(1), of is_waiting Running] num_update [OF i'(1), of is_awake Running]
      num_update [OF i'(1), of "(=) Enqueue_Unlocked" Running]
    by (cases "p = Enqueue_Unlocked") (auto simp: tc_inv_def)
qed

lemma tc_inv_broadcast: "tc_inv lim s \<Longrightarrow> tc_inv lim (s\<lparr>pcs := cond_broadcast (pcs s)\<rparr>)"
  using num_mono [of is_awake is_waiting] is_awake.elims(2)
  by (simp add: tc_inv_def num_broadcast)

lemma tc_inv_kill: "tc_inv lim (s\<lparr>cache := (cache s)\<lparr>kill_cached_threads := k\<rparr>\<rparr>) \<longleftrightarrow> tc_inv lim s"
  by (simp add: tc_inv_def)

lemma tc_inv_turn_flush:
  assumes inv: "tc_inv lim s" and i: "i < length (pcs s)" "\<not> is_waiting (pcs s ! i)" "pcs s ! i \<noteq> Enqueue_Unlocked"
  shows "tc_inv lim (turn_flush i s)"
proof -
  have quiet: "\<not> is_awake (pcs s ! i)" using i(2) by (cases "pcs s ! i" rule: pc.exhaust) simp_all
  have "cond_broadcast (pcs s) ! i = pcs s ! i"
    using i by (cases "pcs s ! i" rule: pc.exhaust) (simp_all add: cond_broadcast_def)
  then have "tc_inv lim (goto i In_Flush_Wait (s\<lparr>pcs := cond_broadcast (pcs s)\<rparr>))"
    using i quiet by (intro tc_inv_goto tc_inv_broadcast inv) simp_all
  moreover have "tc_inv lim (goto i Running (s\<lparr>cache := (cache s)\<lparr>kill_cached_threads := k\<rparr>\<rparr>))" for k
    using i quiet inv by (intro tc_inv_goto) (simp_all add: tc_inv_kill)
  ultimately show ?thesis by (simp add: turn_flush_def flush_turn_def)
qed

lemma act_length: "act a s = Some s' \<Longrightarrow> thread a < length (pcs s)"
  by (simp add: act_def split: if_splits)

lemma guard_Some: "guard b x = Some y \<longleftrightarrow> b \<and> x = Some y"
  by (simp add: guard_def)

lemma tc_inv_step:
  assumes inv: "tc_inv lim s" and size: "size_upto lim a s" and a: "act a s = Some s'"
  shows "tc_inv lim s'"
proof -
  have i: "thread a < length (pcs s)" using a by (rule act_length)
  have at: "act_at a (pcs s ! thread a) s = Some s'" using a i by (simp add: act_def)
  show ?thesis
  proof (cases a)
    case (Park i n)
    then show ?thesis using at i size tc_inv_park_enter [OF inv] by (auto simp: guard_Some)
  next
    case (Wait_Ends i e)
    then show ?thesis using at i by (auto simp: guard_Some intro!: tc_inv_goto inv)
  next
    case (Park_Resume i)
    then show ?thesis using at i tc_inv_park_wakeup [OF inv] by (auto split: pc.splits)
  next
    case (Park_Signal i t)
    then show ?thesis using at i tc_inv_send [OF inv, of i Park_Unlocked In_Flush_Wait Flush_Awake t]
      by (auto simp: guard_Some send_def)
  next
    case (Enqueue i c)
    then show ?thesis using at i tc_inv_enqueue [OF inv] by (auto simp: guard_Some)
  next
    case (Enqueue_Signal i t)
    then show ?thesis using at i tc_inv_send [OF inv, of i Enqueue_Unlocked In_Wait "Awake No_Error" t]
      by (auto simp: guard_Some send_def)
  next
    case (Flush i)
    have "tc_inv lim (s\<lparr>cache := flush_begin (cache s)\<rparr>)" using inv by (simp add: flush_begin_def tc_inv_kill)
    then show ?thesis using Flush at i tc_inv_turn_flush [of lim "s\<lparr>cache := flush_begin (cache s)\<rparr>" i]
      by (auto simp: guard_Some flush_start_def)
  next
    case (Flush_Spurious i)
    then show ?thesis using at i by (auto simp: guard_Some intro!: tc_inv_goto inv)
  next
    case (Flush_Resume i)
    then show ?thesis using at i tc_inv_turn_flush [OF inv] by (auto simp: guard_Some)
  next
    case (Final_Load i)
    then show ?thesis using at i by (auto simp: guard_Some intro!: tc_inv_goto inv)
  next
    case (Final_Store i)
    have "tc_inv lim (s\<lparr>cache := (cache s)\<lparr>kill_cached_threads := k\<rparr>, closed := True\<rparr>)" for k
      using inv by (simp add: tc_inv_def)
    then show ?thesis using Final_Store at i by (auto simp: final_store_def split: pc.splits intro!: tc_inv_goto)
  qed
qed

lemma tc_inv_init: "tc_inv lim (sys_init n)"
  by (simp add: tc_inv_def sys_init_def tc_init_def num_def)

lemma reach_tc_inv: "reach (size_upto lim) n s \<Longrightarrow> tc_inv lim s"
  by (induction rule: reach.induct) (auto intro: tc_inv_init tc_inv_step)

section \<open>Flushing\<close>

fun is_flushing :: "pc \<Rightarrow> bool" where
  "is_flushing In_Flush_Wait = True"
| "is_flushing Flush_Awake = True"
| "is_flushing _ = False"

fun is_flusher :: "pc \<Rightarrow> bool" where
  "is_flusher (Final_Loaded v) = True"
| "is_flusher Final_Stored = True"
| "is_flusher p = is_flushing p"

text \<open>
  One flush at a time: \<open>flush\<close> and \<open>final_flush\<close> start when no other thread is in them, and the
  counter does not wrap.
\<close>

fun one_flusher :: "uint \<Rightarrow> action \<Rightarrow> system \<Rightarrow> bool" where
  "one_flusher lim (Flush i) s \<longleftrightarrow>
     num is_flusher ((pcs s)[i := Running]) = 0 \<and> unat (kill_cached_threads (cache s)) + 1 < 2 ^ 32"
| "one_flusher lim (Final_Load i) s \<longleftrightarrow>
     num is_flusher (pcs s) = 0 \<and> unat (kill_cached_threads (cache s)) + 1 < 2 ^ 32"
| "one_flusher lim a s \<longleftrightarrow> size_upto lim a s"

text \<open>
  While a flush waits, every waiting thread is awake and there is one, or a thread that left is about to signal;
  after a \<open>final_flush\<close> the counter stays positive.
\<close>

definition flush_inv :: "system \<Rightarrow> bool" where
  "flush_inv s \<longleftrightarrow>
     num is_flusher (pcs s) \<le> 1 \<and>
     num is_flushing (pcs s) + of_bool (closed s) \<le> unat (kill_cached_threads (cache s)) \<and>
     (\<forall>v. Final_Loaded v \<in> set (pcs s) \<longrightarrow> v = kill_cached_threads (cache s) \<and> unat v + 1 < 2 ^ 32) \<and>
     (0 < num ((=) In_Flush_Wait) (pcs s) \<longrightarrow>
        num ((=) In_Wait) (pcs s) = 0 \<and> 0 < num is_awake (pcs s) + num ((=) Park_Unlocked) (pcs s))"

lemma flush_inv_init: "flush_inv (sys_init n)"
  by (simp add: flush_inv_def sys_init_def tc_init_def num_def)

text \<open>The effect of moving one thread on the counts of the invariant.\<close>

lemma num_moves:
  assumes "i < length ps" "ps ! i = p"
  shows "num is_flusher (ps[i := q]) + of_bool (is_flusher p) = num is_flusher ps + of_bool (is_flusher q)"
    "num is_flushing (ps[i := q]) + of_bool (is_flushing p) = num is_flushing ps + of_bool (is_flushing q)"
    "num ((=) In_Flush_Wait) (ps[i := q]) + of_bool (In_Flush_Wait = p) = num ((=) In_Flush_Wait) ps + of_bool (In_Flush_Wait = q)"
    "num ((=) In_Wait) (ps[i := q]) + of_bool (In_Wait = p) = num ((=) In_Wait) ps + of_bool (In_Wait = q)"
    "num is_awake (ps[i := q]) + of_bool (is_awake p) = num is_awake ps + of_bool (is_awake q)"
    "num ((=) Park_Unlocked) (ps[i := q]) + of_bool (Park_Unlocked = p) = num ((=) Park_Unlocked) ps + of_bool (Park_Unlocked = q)"
  using num_update [OF assms(1), of _ q] assms(2) by simp_all

lemma flusher_iff:
  "is_flushing p \<longleftrightarrow> p = In_Flush_Wait \<or> p = Flush_Awake"
  "is_flusher p \<longleftrightarrow> p = In_Flush_Wait \<or> p = Flush_Awake \<or> p = Final_Stored \<or> (\<exists>v. p = Final_Loaded v)"
  by (cases p; simp)+

lemma num_le:
  "num ((=) In_Flush_Wait) ps \<le> num is_flushing ps" "num is_flushing ps \<le> num is_flusher ps"
proof -
  show "num ((=) In_Flush_Wait) ps \<le> num is_flushing ps" by (rule num_mono) auto
  show "num is_flushing ps \<le> num is_flusher ps" by (rule num_mono) (auto elim: is_flushing.elims)
qed

text \<open>A move that starts no flush and leaves the counter alone.\<close>

lemma flush_inv_move:
  assumes inv: "flush_inv s" and i: "i < length (pcs s)" "pcs s ! i = p"
    and q: "\<not> is_flusher q \<or> (p = In_Flush_Wait \<and> q = Flush_Awake)" and p: "p \<noteq> Final_Stored" "p \<noteq> Flush_Awake"
      "p = In_Flush_Wait \<longrightarrow> q = Flush_Awake" "\<forall>v. p \<noteq> Final_Loaded v"
    and kill: "kill_cached_threads tc = kill_cached_threads (cache s)"
    and wait: "kill_cached_threads tc \<noteq> 0 \<longrightarrow> q \<noteq> In_Wait \<and> (is_awake p \<longrightarrow> is_awake q \<or> q = Park_Unlocked)"
    and sig: "p = Park_Unlocked \<longrightarrow> num ((=) In_Flush_Wait) (pcs s) = 0"
  shows "flush_inv (goto i q (s\<lparr>cache := tc, served := sv, accepted := ac\<rparr>))"
proof -
  note moves = num_moves [OF i, of q]
  have flu: "is_flusher p = is_flusher q" "is_flushing p = is_flushing q" using q p by (auto simp: flusher_iff)
  have fl: "v = kill_cached_threads tc \<and> unat v + 1 < 2 ^ 32" if "Final_Loaded v \<in> set ((pcs s)[i := q])" for v
  proof -
    have "q \<noteq> Final_Loaded v" using q by auto
    then have "Final_Loaded v \<in> set (pcs s)" using that set_update_subset_insert [of "pcs s" i q] by auto
    then show ?thesis using inv kill by (auto simp: flush_inv_def)
  qed
  have main: "num ((=) In_Wait) ((pcs s)[i := q]) = 0 \<and> 0 < num is_awake ((pcs s)[i := q]) + num ((=) Park_Unlocked) ((pcs s)[i := q])"
    if W: "0 < num ((=) In_Flush_Wait) ((pcs s)[i := q])"
  proof -
    have "q \<noteq> In_Flush_Wait" using q by (auto simp: flusher_iff)
    then have W': "0 < num ((=) In_Flush_Wait) (pcs s)" using W moves(3) by simp
    then have "0 < num is_flushing (pcs s)" using num_le(1) [of "pcs s"] by simp
    then have k: "kill_cached_threads tc \<noteq> 0" using inv kill by (auto simp: flush_inv_def)
    have b: "num ((=) In_Wait) (pcs s) = 0" "0 < num is_awake (pcs s) + num ((=) Park_Unlocked) (pcs s)"
      using inv W' by (simp_all add: flush_inv_def)
    have "p \<noteq> Park_Unlocked" using sig W' by auto
    then show ?thesis using b k wait moves(4-6) by (cases "is_awake p"; auto split: if_splits)
  qed
  have "num is_flusher ((pcs s)[i := q]) = num is_flusher (pcs s)" "num is_flushing ((pcs s)[i := q]) = num is_flushing (pcs s)"
    using moves(1,2) flu by simp_all
  then show ?thesis using inv kill fl main by (simp add: flush_inv_def)
qed

lemma sys_same: "s\<lparr>cache := cache s, served := served s, accepted := accepted s\<rparr> = s"
  by simp

lemmas flush_inv_goto = flush_inv_move [where tc = "cache s" and sv = "served s" and ac = "accepted s" and s = s for s,
    unfolded sys_same]

lemma flush_inv_signal:
  assumes inv: "flush_inv s" and i: "i < length (pcs s)" "pcs s ! i = p"
    and r: "cond_signal b w t (pcs s) = Some ps"
    and kind: "p = Park_Unlocked \<and> b = In_Flush_Wait \<and> w = Flush_Awake \<or>
               p = Enqueue_Unlocked \<and> b = In_Wait \<and> w = Awake No_Error"
  shows "flush_inv (goto i Running (s\<lparr>pcs := ps\<rparr>))"
proof (cases t)
  case None
  then have "ps = pcs s" "b \<notin> set (pcs s)" using r by (auto simp: cond_signal_def split: if_splits)
  moreover have "num ((=) In_Flush_Wait) (pcs s) = 0" if "p = Park_Unlocked"
    using that kind \<open>b \<notin> set (pcs s)\<close> by (auto simp: num_0_iff)
  ultimately show ?thesis using flush_inv_goto [OF inv i, of Running] kind by auto
next
  case (Some j)
  then have j: "j < length (pcs s)" "pcs s ! j = b" and ps: "ps = (pcs s)[j := w]"
    using r by (auto simp: cond_signal_def split: if_splits)
  have "i \<noteq> j" using i j kind by auto
  have inv': "flush_inv (goto j w s)" using flush_inv_goto [OF inv j, of w] kind by auto
  have none: "num ((=) In_Flush_Wait) ((pcs s)[j := w]) = 0" if "p = Park_Unlocked"
  proof -
    have "num is_flusher (pcs s) \<le> 1" using inv by (simp add: flush_inv_def)
    then have "num ((=) In_Flush_Wait) (pcs s) \<le> 1" using num_le [of "pcs s"] by simp
    then show ?thesis using num_moves(3) [OF j, of w] that kind by auto
  qed
  have "flush_inv (goto i Running (goto j w s))"
    using flush_inv_goto [OF inv', of i p Running] i \<open>i \<noteq> j\<close> none kind by auto
  then show ?thesis using ps by (simp add: goto_def)
qed

lemma kill_pos_if_flushing: "flush_inv s \<Longrightarrow> i < length (pcs s) \<Longrightarrow> is_flushing (pcs s ! i) \<Longrightarrow>
    num is_flushing (pcs s) = 1 \<and> num is_flusher (pcs s) = 1 \<and> 0 < unat (kill_cached_threads (cache s))"
  using num_pos [of i "pcs s" is_flushing] num_le(2) [of "pcs s"] by (auto simp: flush_inv_def)

text \<open>A turn of the loop by a thread that is the only flusher, when the counter covers it.\<close>

lemma flush_inv_turn:
  assumes tc: "tc_inv lim s" and i: "i < length (pcs s)" "\<not> is_waiting (pcs s ! i)"
    and one: "num is_flusher ((pcs s)[i := Running]) = 0"
    and kill: "1 + of_bool (closed s) \<le> unat (kill_cached_threads (cache s))"
  shows "flush_inv (turn_flush i s)"
proof -
  have no: "num P ((pcs s)[i := Running]) = 0" if "\<And>p. P p \<Longrightarrow> is_flusher p" for P
    using one that by (auto simp: num_0_iff)
  have no_flushing: "num is_flushing ((pcs s)[i := Running]) = 0" by (rule no) (auto simp: flusher_iff)
  have fl: "Final_Loaded v \<notin> set ((pcs s)[i := Running])" for v using one by (force simp: num_0_iff)
  show ?thesis
  proof (cases "cached_thread_count (cache s) = 0")
    case True
    have "0 < unat (kill_cached_threads (cache s))" using kill by simp
    then have "unat (kill_cached_threads (cache s) - 1) = unat (kill_cached_threads (cache s)) - 1" by (rule unat_minus_1)
    then show ?thesis using True one kill fl no_flushing no [of "(=) In_Flush_Wait"]
      by (cases "closed s") (simp_all add: turn_flush_def flush_turn_def flush_inv_def flusher_iff)
  next
    case False
    let ?b = "cond_broadcast (pcs s)"
    let ?ps = "?b[i := In_Flush_Wait]"
    have bi: "i < length ?b" using i by simp
    have bp: "?b ! i = pcs s ! i" using i by (cases "pcs s ! i") (simp_all add: cond_broadcast_def)
    have "num is_flusher ?b = num is_flusher (pcs s)" "num is_flushing ?b = num is_flushing (pcs s)"
      by (simp_all add: num_broadcast)
    then have "num is_flusher ?ps = 1" "num is_flushing ?ps = 1"
      using num_moves(1,2) [OF bi bp, of In_Flush_Wait] num_moves(1,2) [OF i(1) refl, of Running] one
        no_flushing by (simp_all add: flusher_iff)
    moreover have "Final_Loaded v \<notin> set ?ps" for v
    proof -
      have "?b[i := Running] = cond_broadcast ((pcs s)[i := Running])" by (simp add: cond_broadcast_def map_update)
      then have "Final_Loaded v \<notin> set (?b[i := Running])" using fl [of v] by (auto simp: cond_broadcast_def)
      then show ?thesis using in_set_update_other [of "Final_Loaded v" ?b i In_Flush_Wait Running] by auto
    qed
    moreover have "num ((=) In_Wait) ?ps = 0"
      using set_update_subset_insert [of ?b i In_Flush_Wait] by (auto simp: num_0_iff cond_broadcast_def)
    moreover have "0 < num is_awake ?ps"
    proof -
      have "0 < unat (cached_thread_count (cache s))" using False by (simp add: unat_gt_0)
      then have "0 < num is_awake ?b" using tc by (simp add: tc_inv_def num_broadcast)
      then show ?thesis using num_moves(5) [OF bi bp, of In_Flush_Wait] i(2) by (cases "pcs s ! i") auto
    qed
    ultimately show ?thesis using False kill by (simp add: turn_flush_def flush_turn_def flush_inv_def)
  qed
qed

lemma flush_inv_start:
  assumes tc: "tc_inv lim s" and inv: "flush_inv s" and i: "i < length (pcs s)" "\<not> is_waiting (pcs s ! i)"
    and ok: "one_flusher lim (Flush i) s"
  shows "flush_inv (flush_start i s)"
proof -
  have k: "unat (kill_cached_threads (cache s) + 1) = unat (kill_cached_threads (cache s)) + 1"
    using ok by (simp add: unat_word_ariths)
  have "of_bool (closed s) \<le> unat (kill_cached_threads (cache s))" using inv by (simp add: flush_inv_def)
  then show ?thesis unfolding flush_start_def using tc i ok k
    by (intro flush_inv_turn) (simp_all add: flush_begin_def tc_inv_kill)
qed

lemma flush_inv_resume:
  assumes tc: "tc_inv lim s" and inv: "flush_inv s" and i: "i < length (pcs s)" "pcs s ! i = Flush_Awake"
  shows "flush_inv (turn_flush i s)"
proof -
  have f: "num is_flushing (pcs s) = 1" "num is_flusher (pcs s) = 1"
    using kill_pos_if_flushing [OF inv i(1)] i(2) by simp_all
  then have "num is_flusher ((pcs s)[i := Running]) = 0" using num_moves(1) [OF i, of Running] by simp
  moreover have "1 + of_bool (closed s) \<le> unat (kill_cached_threads (cache s))" using inv f by (simp add: flush_inv_def)
  ultimately show ?thesis using tc i by (intro flush_inv_turn) simp_all
qed

lemma flush_inv_final_load:
  assumes inv: "flush_inv s" and i: "i < length (pcs s)" "pcs s ! i = Running"
    and ok: "one_flusher lim (Final_Load i) s"
  shows "flush_inv (goto i (Final_Loaded (kill_cached_threads (cache s))) s)"
proof -
  have "v = kill_cached_threads (cache s)"
    if "Final_Loaded v \<in> set ((pcs s)[i := Final_Loaded (kill_cached_threads (cache s))])" for v
    using that set_update_subset_insert [of "pcs s" i] inv by (auto simp: flush_inv_def)
  then show ?thesis
    using inv ok num_moves [OF i, of "Final_Loaded (kill_cached_threads (cache s))"] by (auto simp: flush_inv_def)
qed

lemma flush_inv_final_store:
  assumes inv: "flush_inv s" and i: "i < length (pcs s)" "pcs s ! i = Final_Loaded v"
  shows "flush_inv (final_store i v s)"
proof -
  have v: "v = kill_cached_threads (cache s)" "unat v + 1 < 2 ^ 32"
    using inv i nth_mem [OF i(1)] by (auto simp: flush_inv_def)
  then have k: "unat (v + 1) = unat v + 1" by (simp add: unat_word_ariths)
  have one: "num is_flusher (pcs s) = 1"
    using inv num_pos [OF i(1), of is_flusher] i(2) by (simp add: flush_inv_def)
  then have "num is_flusher ((pcs s)[i := Running]) = 0" using num_moves(1) [OF i, of Running] by simp
  then have none: "\<not> is_flusher p" if "p \<in> set ((pcs s)[i := Running])" for p using that by (simp add: num_0_iff)
  have "Final_Loaded u \<notin> set ((pcs s)[i := Final_Stored])" for u
  proof
    assume "Final_Loaded u \<in> set ((pcs s)[i := Final_Stored])"
    then have "Final_Loaded u \<in> set ((pcs s)[i := Running])"
      by (rule in_set_update_other) simp
    then show False using none by fastforce
  qed
  then show ?thesis using inv k v one num_moves [OF i, of Final_Stored]
    by (auto simp: flush_inv_def final_store_def)
qed

lemma one_flusher_size: "one_flusher lim a s \<Longrightarrow> size_upto lim a s"
  by (cases a) auto

lemma flush_inv_park:
  assumes inv: "flush_inv s" and i: "i < length (pcs s)" "pcs s ! i = p" "p = Running \<or> is_awake p"
    and kill: "kill_cached_threads tc = kill_cached_threads (cache s)"
    and out: "kill_cached_threads tc \<noteq> 0 \<Longrightarrow> (p = Running \<and> out \<noteq> Park_Wait) \<or> (\<exists>c. out = Park_Return c True)"
  shows "flush_inv (finish_park i (tc, out) s)"
proof -
  define q where "q = (case out of Park_Wait \<Rightarrow> In_Wait | Park_Return c f \<Rightarrow> if f then Park_Unlocked else Running)"
  define sv where "sv = (case out of Park_Return (Some c) f \<Rightarrow> served s @ [c] | _ \<Rightarrow> served s)"
  have "finish_park i (tc, out) s = goto i q (s\<lparr>cache := tc, served := sv, accepted := accepted s\<rparr>)"
    by (auto simp: finish_park_def q_def sv_def split: park_out.splits option.splits)
  moreover have "flush_inv (goto i q (s\<lparr>cache := tc, served := sv, accepted := accepted s\<rparr>))"
    using i(3) out
    by (intro flush_inv_move [OF inv i(1,2)] kill) (auto simp: q_def split: park_out.splits elim: is_awake.elims)
  ultimately show ?thesis by simp
qed

lemma flush_inv_step:
  assumes tc: "tc_inv lim s" and inv: "flush_inv s" and ok: "one_flusher lim a s" and a: "act a s = Some s'"
  shows "flush_inv s'"
proof -
  have i: "thread a < length (pcs s)" using a by (rule act_length)
  have at: "act_at a (pcs s ! thread a) s = Some s'" using a i by (simp add: act_def)
  show ?thesis
  proof (cases a)
    case (Park i n)
    have "flush_inv (finish_park i (fst (park_enter n (cache s)), snd (park_enter n (cache s))) s)"
      using Park at \<open>thread a < length (pcs s)\<close>
      by (intro flush_inv_park [OF inv _ refl])
        (auto simp: guard_Some park_enter_def list_get_def split: list.splits if_splits)
    then show ?thesis using Park at by (simp add: guard_Some)
  next
    case (Wait_Ends i e)
    then show ?thesis using at i flush_inv_goto [OF inv, of i In_Wait "Awake e"] by (auto simp: guard_Some)
  next
    case (Park_Resume i)
    then obtain e where e: "pcs s ! i = Awake e" "s' = finish_park i (park_wakeup e (cache s)) s"
      using at by (auto split: pc.splits)
    have "flush_inv (finish_park i (fst (park_wakeup e (cache s)), snd (park_wakeup e (cache s))) s)"
      using Park_Resume e \<open>thread a < length (pcs s)\<close>
      by (intro flush_inv_park [OF inv _ e(1)]) (auto simp: park_wakeup_def list_get_def Let_def split: list.splits if_splits)
    then show ?thesis using e by simp
  next
    case (Park_Signal i t)
    then show ?thesis using at i flush_inv_signal [OF inv _ refl, of i In_Flush_Wait Flush_Awake t]
      by (auto simp: guard_Some send_def)
  next
    case (Enqueue i c)
    then have run: "pcs s ! i = Running" "s' = finish_enqueue i c (tc_enqueue c (cache s)) s" and il: "i < length (pcs s)"
      using at i by (auto simp: guard_Some)
    show ?thesis
    proof (cases "cached_thread_count (cache s) = 0")
      case True
      then show ?thesis using run inv by (simp add: finish_enqueue_def tc_enqueue_def flush_inv_def)
    next
      case False
      then show ?thesis using run flush_inv_move [OF inv il run(1), of Enqueue_Unlocked "fst (tc_enqueue c (cache s))"
            "accepted s @ [c]" "served s"]
        by (auto simp add: finish_enqueue_def tc_enqueue_def)
    qed
  next
    case (Enqueue_Signal i t)
    then show ?thesis using at i flush_inv_signal [OF inv _ refl, of i In_Wait "Awake No_Error" t]
      by (auto simp: guard_Some send_def)
  next
    case (Flush i)
    then show ?thesis using at i ok flush_inv_start [OF tc inv, of i] by (auto simp: guard_Some)
  next
    case (Flush_Spurious i)
    then show ?thesis using at i flush_inv_goto [OF inv, of i In_Flush_Wait Flush_Awake] by (auto simp: guard_Some)
  next
    case (Flush_Resume i)
    then show ?thesis using at i flush_inv_resume [OF tc inv, of i] by (auto simp: guard_Some)
  next
    case (Final_Load i)
    then show ?thesis using at i ok flush_inv_final_load [OF inv, of i] by (auto simp: guard_Some)
  next
    case (Final_Store i)
    then show ?thesis using at i flush_inv_final_store [OF inv, of i] by (auto split: pc.splits)
  qed
qed

lemma reach_flush_inv: "reach (one_flusher lim) n s \<Longrightarrow> tc_inv lim s \<and> flush_inv s"
  by (induction rule: reach.induct)
    (auto intro: tc_inv_init flush_inv_init tc_inv_step flush_inv_step one_flusher_size)

section \<open>A flush that nobody wakes\<close>

text \<open>
  The state left behind when several flushes wait and the last thread that leaves signals one of the others: a flush waits, nobody is in the cache or about to signal, and the
  counter is at least the number of flushes, also as a \<open>final_flush\<close> has loaded it.
\<close>

definition stuck :: "nat \<Rightarrow> system \<Rightarrow> bool" where
  "stuck j s \<longleftrightarrow>
     j < length (pcs s) \<and> pcs s ! j = In_Flush_Wait \<and>
     cached_thread_count (cache s) = 0 \<and> conn_list (cache s) = [] \<and>
     num is_waiting (pcs s) = 0 \<and> num ((=) Park_Unlocked) (pcs s) = 0 \<and>
     num is_flushing (pcs s) \<le> unat (kill_cached_threads (cache s)) \<and>
     (\<forall>v. Final_Loaded v \<in> set (pcs s) \<longrightarrow> num is_flushing (pcs s) \<le> unat v \<and> unat v + 1 < 2 ^ 32)"

text \<open>No spurious wakeup of the flush, and no \<open>final_flush\<close> that finds the counter at its greatest value.\<close>

fun unwoken :: "nat \<Rightarrow> action \<Rightarrow> system \<Rightarrow> bool" where
  "unwoken j (Flush_Spurious i) s \<longleftrightarrow> i \<noteq> j"
| "unwoken j (Final_Load i) s \<longleftrightarrow> unat (kill_cached_threads (cache s)) + 1 < 2 ^ 32"
| "unwoken j _ s \<longleftrightarrow> True"

lemma stuck_move:
  assumes s: "stuck j s" and i: "i < length (pcs s)" "i \<noteq> j"
    and s': "pcs s' = (pcs s)[i := q]" "cached_thread_count (cache s') = 0" "conn_list (cache s') = []"
    and q: "\<not> is_waiting q" "q \<noteq> Park_Unlocked" "is_flushing q \<Longrightarrow> is_flushing (pcs s ! i)" "\<And>v. q = Final_Loaded v \<Longrightarrow> num is_flushing (pcs s) \<le> unat v \<and> unat v + 1 < 2 ^ 32"
    and kill: "num is_flushing ((pcs s)[i := q]) \<le> unat (kill_cached_threads (cache s'))"
  shows "stuck j s'"
proof -
  have z: "num P ((pcs s)[i := q]) = 0" if "num P (pcs s) = 0" "\<not> P q" for P
    using that set_update_subset_insert [of "pcs s" i q] by (auto simp: num_0_iff)
  have le: "num is_flushing ((pcs s)[i := q]) \<le> num is_flushing (pcs s)"
    using num_moves(2) [OF i(1) refl, of q] q(3) by (cases "is_flushing q") simp_all
  have f: "num is_flushing ((pcs s)[i := q]) \<le> unat v \<and> unat v + 1 < 2 ^ 32" if v: "Final_Loaded v \<in> set ((pcs s)[i := q])" for v
  proof (cases "q = Final_Loaded v")
    case True
    then show ?thesis using q(4) le by fastforce
  next
    case False
    then have "Final_Loaded v \<in> set (pcs s)" using v set_update_subset_insert [of "pcs s" i q] by auto
    then show ?thesis using s le by (auto simp: stuck_def)
  qed
  show ?thesis using s i z [of is_waiting] z [of "(=) Park_Unlocked"] q(1,2) kill f unfolding stuck_def s' by auto
qed

lemma stuck_kill: "stuck j s \<Longrightarrow> kill_cached_threads (cache s) \<noteq> 0"
proof -
  assume s: "stuck j s"
  then have "is_flushing (pcs s ! j)" "j < length (pcs s)" by (auto simp: stuck_def)
  then have "0 < num is_flushing (pcs s)" using num_pos by blast
  then show ?thesis using s by (auto simp: stuck_def)
qed

lemma stuck_turn:
  assumes s: "stuck j s" and i: "i < length (pcs s)" "pcs s ! i = Flush_Awake"
  shows "stuck j (turn_flush i s)"
proof -
  have n: "num is_flushing ((pcs s)[i := Running]) + 1 = num is_flushing (pcs s)"
    using num_moves(2) [OF i, of Running] by simp
  have "unat (kill_cached_threads (cache s) - 1) = unat (kill_cached_threads (cache s)) - 1"
    using stuck_kill [OF s] by (intro unat_minus_1) (simp add: unat_gt_0)
  then have "num is_flushing ((pcs s)[i := Running]) \<le> unat (kill_cached_threads (cache s) - 1)"
    using n s by (auto simp: stuck_def)
  then show ?thesis using s i
    by (intro stuck_move [OF s i(1), of _ Running]) (auto simp: turn_flush_def flush_turn_def stuck_def)
qed

lemma stuck_step:
  assumes s: "stuck j s" and a: "act a s = Some s'" and ok: "unwoken j a s"
  shows "stuck j s'"
proof -
  have i: "thread a < length (pcs s)" using a by (rule act_length)
  have at: "act_at a (pcs s ! thread a) s = Some s'" using a i by (simp add: act_def)
  have mem: "pcs s ! thread a \<in> set (pcs s)" using i by simp
  have no: "\<not> is_waiting (pcs s ! thread a)" "pcs s ! thread a \<noteq> Park_Unlocked" "In_Wait \<notin> set (pcs s)"
    using s mem by (auto simp: stuck_def num_0_iff)
  have st: "cached_thread_count (cache s) = 0" "conn_list (cache s) = []" "pcs s ! j = In_Flush_Wait" "num is_flushing (pcs s) \<le> unat (kill_cached_threads (cache s))"
    using s by (simp_all add: stuck_def)
  have le: "num is_flushing ((pcs s)[k := q]) \<le> num is_flushing (pcs s)" if "k < length (pcs s)" "is_flushing q \<Longrightarrow> is_flushing (pcs s ! k)" for k q
    using num_moves(2) [OF that(1) refl, of q] that(2) by (cases "is_flushing q") simp_all
  show ?thesis
  proof (cases a)
    case (Park i n)
    then have "pcs s ! i = Running" "s' = finish_park i (park_enter n (cache s)) s" using at by (auto simp: guard_Some)
    moreover then have "(pcs s)[i := Running] = pcs s" by (metis list_update_id)
    ultimately have "s' = s" using st stuck_kill [OF s] by (simp add: finish_park_def park_enter_def list_get_def goto_def)
    then show ?thesis using s by simp
  next
    case (Enqueue i c)
    then show ?thesis using at s by (auto simp: guard_Some finish_enqueue_def tc_enqueue_def stuck_def)
  next
    case (Enqueue_Signal i t)
    then have r: "pcs s ! i = Enqueue_Unlocked" "send i (cond_signal In_Wait (Awake No_Error) t (pcs s)) s = Some s'" and il: "i < length (pcs s)"
      using at i by (auto simp: guard_Some)
    then have "s' = goto i Running s" using no(3)
      by (auto simp: send_def cond_signal_def split: option.splits if_splits) (metis nth_mem)
    then show ?thesis using r(1) st il le [OF il, of Running] by (intro stuck_move [OF s il, of _ Running]) auto
  next
    case (Flush i)
    then have r: "pcs s ! i = Running \<or> pcs s ! i = Final_Stored" "s' = flush_start i s" and il: "i < length (pcs s)" using at i by (auto simp: guard_Some)
    then show ?thesis using st il le [OF il, of Running]
      by (intro stuck_move [OF s il, of _ Running]) (auto simp: flush_start_def turn_flush_def flush_turn_def flush_begin_def)
  next
    case (Flush_Spurious i)
    then have r: "i \<noteq> j" "pcs s ! i = In_Flush_Wait" "s' = goto i Flush_Awake s" and il: "i < length (pcs s)"
      using at ok i by (auto simp: guard_Some)
    then show ?thesis using st le [OF il, of Flush_Awake] by (intro stuck_move [OF s il, of _ Flush_Awake]) auto
  next
    case (Flush_Resume i)
    then show ?thesis using at i stuck_turn [OF s, of i] by (auto simp: guard_Some)
  next
    case (Final_Load i)
    let ?q = "Final_Loaded (kill_cached_threads (cache s))"
    from Final_Load have r: "pcs s ! i = Running" "s' = goto i ?q s" and il: "i < length (pcs s)"
      using at i by (auto simp: guard_Some)
    then show ?thesis using st le [OF il, of ?q] ok Final_Load by (intro stuck_move [OF s il, of _ ?q]) auto
  next
    case (Final_Store i)
    then obtain v where r: "pcs s ! i = Final_Loaded v" "s' = final_store i v s" and il: "i < length (pcs s)"
      using at i by (auto split: pc.splits)
    have "num is_flushing (pcs s) \<le> unat v" "unat v + 1 < 2 ^ 32" using s il r(1) nth_mem [OF il] by (auto simp: stuck_def)
    moreover then have "unat (v + 1) = unat v + 1" by (simp add: unat_word_ariths)
    ultimately show ?thesis using r st il le [OF il, of Final_Stored]
      by (intro stuck_move [OF s il, of _ Final_Stored]) (auto simp: final_store_def)
  qed (use at ok no in \<open>auto simp: guard_Some split: pc.splits\<close>)
qed

text \<open>Without \<open>final_flush\<close> the counter is the number of flushes under way.\<close>

fun no_final :: "uint \<Rightarrow> action \<Rightarrow> system \<Rightarrow> bool" where
  "no_final lim (Final_Load i) s \<longleftrightarrow> False"
| "no_final lim a s \<longleftrightarrow> size_upto lim a s"

definition plain_inv :: "nat \<Rightarrow> system \<Rightarrow> bool" where
  "plain_inv n s \<longleftrightarrow> length (pcs s) = n \<and> kill_cached_threads (cache s) = of_nat (num is_flushing (pcs s)) \<and> (\<forall>p\<in>set (pcs s). is_flusher p \<longrightarrow> is_flushing p)"

lemma plain_move:
  assumes "plain_inv n s" "i < n" "pcs s' = (pcs s)[i := q]" "is_flusher q \<Longrightarrow> is_flushing q"
    "kill_cached_threads (cache s') + of_bool (is_flushing (pcs s ! i)) = kill_cached_threads (cache s) + of_bool (is_flushing q)"
  shows "plain_inv n s'"
proof -
  have "of_nat (num is_flushing (pcs s') + of_bool (is_flushing (pcs s ! i))) = (of_nat (num is_flushing (pcs s) + of_bool (is_flushing q)) :: uint)"
    using num_moves(2) [of i "pcs s" "pcs s ! i" q] assms(1-3) by (simp add: plain_inv_def)
  then have "(of_nat (num is_flushing (pcs s')) :: uint) + of_bool (is_flushing (pcs s ! i)) = kill_cached_threads (cache s') + of_bool (is_flushing (pcs s ! i))"
    using assms(1,5) by (simp add: plain_inv_def)
  moreover have "\<forall>p\<in>set (pcs s'). is_flusher p \<longrightarrow> is_flushing p"
    using assms(1,3,4) set_update_subset_insert [of "pcs s" i q] by (auto simp: plain_inv_def)
  ultimately show ?thesis using assms(1,3) by (simp add: plain_inv_def)
qed

lemma plain_broadcast: "plain_inv n s \<Longrightarrow> plain_inv n (s\<lparr>pcs := cond_broadcast (pcs s)\<rparr>)"
  using num_broadcast(3) [of is_flushing "pcs s"] by (auto simp: plain_inv_def) (auto simp: cond_broadcast_def)

lemma plain_turn:
  assumes "plain_inv n s" "i < n" "pcs s ! i = Flush_Awake"
  shows "plain_inv n (turn_flush i s)"
proof -
  have "cond_broadcast (pcs s) ! i = Flush_Awake" using assms by (simp add: cond_broadcast_def plain_inv_def)
  then have "plain_inv n (goto i In_Flush_Wait (s\<lparr>pcs := cond_broadcast (pcs s)\<rparr>))"
    using assms by (intro plain_move [OF plain_broadcast [OF assms(1)] assms(2), of _ In_Flush_Wait]) simp_all
  moreover have "plain_inv n (goto i Running (s\<lparr>cache := (cache s)\<lparr>kill_cached_threads := kill_cached_threads (cache s) - 1\<rparr>\<rparr>))"
    using assms(3) by (intro plain_move [OF assms(1,2), of _ Running]) simp_all
  ultimately show ?thesis by (simp add: turn_flush_def flush_turn_def)
qed

lemma plain_start:
  assumes "plain_inv n s" "i < n" "pcs s ! i = Running"
  shows "plain_inv n (flush_start i s)"
proof -
  let ?s = "s\<lparr>cache := flush_begin (cache s), pcs := (pcs s)[i := Flush_Awake]\<rparr>"
  have "plain_inv n ?s" using assms(3) by (intro plain_move [OF assms(1,2), of _ Flush_Awake]) (simp_all add: flush_begin_def)
  then have "plain_inv n (turn_flush i ?s)" using assms by (intro plain_turn) (simp_all add: plain_inv_def)
  moreover have "turn_flush i ?s = flush_start i s"
    by (simp add: flush_start_def turn_flush_def goto_def cond_broadcast_def map_update split: prod.split bool.split)
  ultimately show ?thesis by simp
qed

lemma plain_send:
  assumes "plain_inv n s" "i < n" "\<not> is_flushing (pcs s ! i)" "cond_signal b w t (pcs s) = Some ps" "is_flushing b \<longleftrightarrow> is_flushing w" "\<not> is_flusher w \<or> is_flushing w"
    "b \<noteq> pcs s ! i"
  shows "plain_inv n (goto i Running (s\<lparr>pcs := ps\<rparr>))"
proof (cases t)
  case None
  then have "ps = pcs s" using assms(4) by (auto simp: cond_signal_def split: if_splits)
  then show ?thesis using assms(3) by (intro plain_move [OF assms(1,2), of _ Running]) auto
next
  case (Some k)
  then have k: "k < n" "pcs s ! k = b" "ps = (pcs s)[k := w]" using assms(1,4) by (auto simp: cond_signal_def plain_inv_def split: if_splits)
  then have p: "plain_inv n (s\<lparr>pcs := ps\<rparr>)" using assms(5,6) by (intro plain_move [OF assms(1) k(1), of _ w]) auto
  have "k \<noteq> i" using assms(7) k(2) by auto
  then show ?thesis using assms(3) k(3) by (intro plain_move [OF p assms(2), of _ Running]) simp_all
qed

lemma plain_step:
  assumes s: "plain_inv n s" and a: "act a s = Some s'" and ok: "no_final lim a s"
  shows "plain_inv n s'"
proof -
  have i: "thread a < n" using act_length [OF a] s by (simp add: plain_inv_def)
  then have at: "act_at a (pcs s ! thread a) s = Some s'" and p: "is_flusher (pcs s ! thread a) \<Longrightarrow> is_flushing (pcs s ! thread a)"
    using a s by (simp_all add: act_def plain_inv_def)
  note move = plain_move [OF s i]
  show ?thesis
  proof (cases a)
    case (Park i sz)
    then show ?thesis using at by (auto simp: guard_Some finish_park_def park_enter_def list_get_def split: list.splits if_splits intro!: move)
  next
    case (Park_Resume i)
    then obtain e where e: "pcs s ! i = Awake e" "s' = finish_park i (park_wakeup e (cache s)) s" using at by (auto split: pc.splits)
    then show ?thesis using Park_Resume
      by (auto simp: finish_park_def park_wakeup_def list_get_def Let_def split: list.splits if_splits intro!: move)
  next
    case (Park_Signal i t)
    then show ?thesis using at i plain_send [OF s, of i In_Flush_Wait Flush_Awake t] by (auto simp: guard_Some send_def)
  next
    case (Enqueue i c)
    then show ?thesis using at s by (auto simp: guard_Some finish_enqueue_def tc_enqueue_def split: if_splits intro!: move)
  next
    case (Enqueue_Signal i t)
    then show ?thesis using at i plain_send [OF s, of i In_Wait "Awake No_Error" t] by (auto simp: guard_Some send_def)
  next
    case (Flush i)
    then show ?thesis using at i p plain_start [OF s, of i] by (auto simp: guard_Some)
  next
    case (Flush_Resume i)
    then show ?thesis using at i plain_turn [OF s, of i] by (auto simp: guard_Some)
  next
    case (Final_Store i)
    then show ?thesis using at p by (auto split: pc.splits)
  qed (use at ok in \<open>auto simp: guard_Some intro!: move\<close>)
qed

lemma no_final_size: "no_final lim a s \<Longrightarrow> size_upto lim a s" by (cases a) auto

lemma reach_no_final: "reach (no_final lim) n s \<Longrightarrow> tc_inv lim s \<and> plain_inv n s"
proof (induction rule: reach.induct)
  case init
  show ?case using tc_inv_init by (simp add: plain_inv_def) (simp add: sys_init_def tc_init_def num_def)
next
  case (step s a s')
  then show ?case by (auto intro: tc_inv_step plain_step no_final_size)
qed

text \<open>The signal of the last thread that leaves.\<close>

lemma last_signal_stuck:
  assumes r: "reach (no_final lim) n s" "n < 2 ^ 32" and j: "j < n" "pcs s ! j = In_Flush_Wait" "k \<noteq> j"
    and i: "num is_waiting (pcs s) = 0" "num ((=) Park_Unlocked) (pcs s) = 1" "act (Park_Signal i (Some k)) s = Some s1"
  shows "stuck j s1"
proof -
  have inv: "tc_inv lim s" "plain_inv n s" using reach_no_final [OF r(1)] by auto
  have ci: "i < length (pcs s)" "pcs s ! i = Park_Unlocked" "k < length (pcs s)" "pcs s ! k = In_Flush_Wait"
    "s1 = goto i Running (s\<lparr>pcs := (pcs s)[k := Flush_Awake]\<rparr>)"
    using i(3) by (auto simp: act_def guard_Some send_def cond_signal_def split: if_splits)
  then have "i \<noteq> k" "i \<noteq> j" using j by auto
  have ps: "pcs s1 = ((pcs s)[i := Running])[k := Flush_Awake]" using ci(5) \<open>i \<noteq> k\<close> by (simp add: list_update_swap)
  have c: "cached_thread_count (cache s1) = 0" "conn_list (cache s1) = []" using inv(1) i(1) ci(5) by (auto simp: tc_inv_def unat_eq_zero)
  have m: "num P (pcs s1) + of_bool (P Park_Unlocked) + of_bool (P In_Flush_Wait) = num P (pcs s) + of_bool (P Running) + of_bool (P Flush_Awake)" for P
    using num_update [OF ci(1), of P Running] num_update [of k "(pcs s)[i := Running]" P Flush_Awake] ci \<open>i \<noteq> k\<close> unfolding ps by simp
  have p1: "plain_inv n s1" using plain_step [OF inv(2) i(3), of lim] by simp
  then have f: "Final_Loaded v \<notin> set (pcs s1)" for v by (auto simp: plain_inv_def)
  have "num is_flushing (pcs s1) \<le> n" using p1 by (auto simp: plain_inv_def num_def)
  then have "unat (kill_cached_threads (cache s1)) = num is_flushing (pcs s1)" using p1 r(2) by (simp add: plain_inv_def unat_of_nat)
  moreover have "pcs s1 ! j = In_Flush_Wait" "j < length (pcs s1)" using j \<open>i \<noteq> j\<close> p1 by (simp_all add: ps plain_inv_def)
  ultimately show ?thesis using m [of is_waiting] m [of "(=) Park_Unlocked"] i(1,2) c f by (simp add: stuck_def)
qed

section \<open>Schedules as witnesses\<close>

fun run_ok :: "(action \<Rightarrow> system \<Rightarrow> bool) \<Rightarrow> action list \<Rightarrow> system \<Rightarrow> bool" where
  "run_ok ok [] s = True"
| "run_ok ok (a # as) s \<longleftrightarrow> ok a s \<and> (case act a s of None \<Rightarrow> True | Some s \<Rightarrow> run_ok ok as s)"

lemma reach_run: "reach ok n s \<Longrightarrow> run_ok ok as s \<Longrightarrow> run as s = Some s' \<Longrightarrow> reach ok n s'"
  by (induction as arbitrary: s) (auto split: option.splits intro: reach.step)

lemma stuck_run: "stuck j s \<Longrightarrow> run_ok (unwoken j) as s \<Longrightarrow> run as s = Some s' \<Longrightarrow> stuck j s'"
  by (induction as arbitrary: s) (auto split: option.splits intro: stuck_step)

lemma reach_schedule: "run_ok ok as (sys_init n) \<Longrightarrow> run as (sys_init n) = Some s \<Longrightarrow> reach ok n s"
  by (rule reach_run [OF reach.init])

lemma sys_init_3: "sys_init 3 = \<lparr>cache = tc_init, pcs = [Running, Running, Running], accepted = [], served = [], closed = False\<rparr>"
  by (simp add: sys_init_def numeral_3_eq_3)

lemma update_2: "(a # b # c # xs)[2 := v] = a # b # v # xs"
  by (simp add: numeral_2_eq_2)

lemmas exec = sys_init_3 update_2 tc_init_def act_def guard_def finish_park_def park_enter_def park_wakeup_def list_get_def
  tc_enqueue_def finish_enqueue_def flush_start_def flush_begin_def turn_flush_def flush_turn_def send_def
  cond_signal_def cond_broadcast_def final_store_def goto_def num_def Let_def

text \<open>Two threads park, a connection is enqueued and the first of them is signalled.\<close>

definition sched_enqueue :: "action list" where
  "sched_enqueue = [Park 0 4, Park 1 4, Enqueue 2 7, Enqueue_Signal 2 (Some 0)]"

definition state_enqueue :: system where
  "state_enqueue = \<lparr>cache = \<lparr>conn_list = [7], cached_thread_count = 1, kill_cached_threads = 0\<rparr>,
     pcs = [Awake No_Error, In_Wait, Running], accepted = [7], served = [], closed = False\<rparr>"

lemma run_enqueue: "run sched_enqueue (sys_init 3) = Some state_enqueue"
  by (simp add: sched_enqueue_def state_enqueue_def exec)

lemma reach_enqueue: "reach (size_upto 4) 3 state_enqueue"
  by (rule reach_schedule [OF _ run_enqueue]) (simp add: sched_enqueue_def exec)

text \<open>A thread is parked, then \<open>final_flush\<close> runs until it waits.\<close>

definition sched_final :: "action list" where
  "sched_final = [Park 0 4, Final_Load 1, Final_Store 1, Flush 1]"

definition state_final :: system where
  "state_final = \<lparr>cache = \<lparr>conn_list = [], cached_thread_count = 1, kill_cached_threads = 2\<rparr>,
     pcs = [Awake No_Error, In_Flush_Wait, Running], accepted = [], served = [], closed = True\<rparr>"

lemma run_final: "run sched_final (sys_init 3) = Some state_final"
  by (simp add: sched_final_def state_final_def exec)

lemma reach_final: "reach (one_flusher 4) 3 state_final"
  by (rule reach_schedule [OF _ run_final]) (simp add: sched_final_def exec)

text \<open>Two flushes wait for one parked thread, which has left and is about to signal.\<close>

definition two_flushes :: "action list" where
  "two_flushes = [Park 0 4, Flush 1, Flush 2, Park_Resume 0]"

definition state_two_flushes :: system where
  "state_two_flushes = \<lparr>cache = \<lparr>conn_list = [], cached_thread_count = 0, kill_cached_threads = 2\<rparr>,
     pcs = [Park_Unlocked, In_Flush_Wait, In_Flush_Wait], accepted = [], served = [], closed = False\<rparr>"

lemma run_two_flushes: "run two_flushes (sys_init 3) = Some state_two_flushes"
  by (simp add: two_flushes_def state_two_flushes_def exec)

lemma reach_two_flushes: "reach (no_final 4) 3 state_two_flushes"
  by (rule reach_schedule [OF _ run_two_flushes]) (simp add: two_flushes_def exec)

lemma park_resume_serves:
  assumes "i < length (pcs s)" "pcs s ! i = Awake e" "conn_list (cache s) = c # cs"
  shows "\<exists>s'. act (Park_Resume i) s = Some s' \<and> served s' = served s @ [c] \<and> conn_list (cache s') = cs"
  using assms by (simp add: act_def finish_park_def park_wakeup_def list_get_def Let_def)

lemma park_resume_leaves:
  assumes i: "i < length (pcs s)" "pcs s ! i = Awake e" and kill: "kill_cached_threads (cache s) \<noteq> 0"
  shows "\<exists>s'. act (Park_Resume i) s = Some s' \<and> pcs s' ! i = Park_Unlocked \<and>
           num is_waiting (pcs s') + 1 = num is_waiting (pcs s)"
  using i kill num_update [OF i(1), of is_waiting Park_Unlocked]
  by (simp add: act_def finish_park_def park_wakeup_def list_get_def Let_def split: list.splits)

section \<open>Properties\<close>

text \<open>C1. In every reachable state, whatever the interleaving of the threads, \<open>size\<close> is the number of threads waiting in
  the cache less those that a queued connection has claimed, the cache never holds
  more threads than the largest \<open>thread_cache_size\<close> used, and the connections accepted by \<open>enqueue\<close>
  are exactly those \<open>park\<close> has returned, in the same order, followed by those in the queue: none is lost, duplicated or reordered.
\<close>

theorem thread_cache_invariant:
  assumes "reach (size_upto lim) n s"
  shows "num is_waiting (pcs s) = unat (tc_size (cache s)) + length (conn_list (cache s)) \<and>
         num is_waiting (pcs s) \<le> unat lim \<and>
         accepted s = served s @ conn_list (cache s)"
  using reach_tc_inv [OF assms] by (simp add: tc_inv_def tc_size_def)

theorem thread_cache_invariant_witness:
  "num is_waiting (pcs state_enqueue) = unat (tc_size (cache state_enqueue)) + 1 \<and>
   accepted state_enqueue = served state_enqueue @ [7]"
  using thread_cache_invariant [OF reach_enqueue] by (simp add: state_enqueue_def)

text \<open>C27. No lost wakeup for a connection: while the queue is not empty, a thread is about to signal
  the condition, or a thread is awake whose next step returns the oldest queued connection.
\<close>

theorem thread_cache_serves:
  assumes "reach (size_upto lim) n s" and "conn_list (cache s) = c # cs"
  shows "Enqueue_Unlocked \<in> set (pcs s) \<or>
         (\<exists>i s'. act (Park_Resume i) s = Some s' \<and> served s' = served s @ [c] \<and> conn_list (cache s') = cs)"
proof -
  have "0 < num is_awake (pcs s) + num ((=) Enqueue_Unlocked) (pcs s)"
    using reach_tc_inv [OF assms(1)] assms(2) by (auto simp: tc_inv_def)
  then consider "0 < num is_awake (pcs s)" | "0 < num ((=) Enqueue_Unlocked) (pcs s)" by auto
  then show ?thesis
  proof cases
    case 1
    then obtain i e where "i < length (pcs s)" "pcs s ! i = Awake e"
      using num_posD is_awake.elims(2) by metis
    then show ?thesis using park_resume_serves assms(2) by blast
  next
    case 2
    then have "Enqueue_Unlocked \<in> set (pcs s)" by (metis num_posD nth_mem)
    then show ?thesis by simp
  qed
qed

theorem thread_cache_serves_witness:
  "\<exists>i s'. act (Park_Resume i) state_enqueue = Some s' \<and> served s' = [7] \<and> conn_list (cache s') = []"
  using thread_cache_serves [OF reach_enqueue, of 7 "[]"] by (simp add: state_enqueue_def)

text \<open>C26. With one flush at a time, a waiting flush always gets on: a thread that has left the cache is
  about to wake it, or a parked thread is awake and leaves the cache in its next step.
  After \<open>final_flush\<close> has set the counter no thread starts to wait in the cache.
\<close>

theorem flush_progress:
  assumes r: "reach (one_flusher lim) n s"
  shows "(j < length (pcs s) \<and> pcs s ! j = In_Flush_Wait \<longrightarrow>
           (\<exists>i s'. act (Park_Signal i (Some j)) s = Some s' \<and> pcs s' ! j = Flush_Awake) \<or>
           (\<exists>i s'. act (Park_Resume i) s = Some s' \<and> pcs s' ! i = Park_Unlocked \<and>
                   num is_waiting (pcs s') + 1 = num is_waiting (pcs s))) \<and>
         (closed s \<and> act (Park i sz) s = Some s' \<longrightarrow> num is_waiting (pcs s') = num is_waiting (pcs s))"
proof (intro conjI impI)
  have inv: "flush_inv s" using reach_flush_inv [OF r] by simp
  assume "j < length (pcs s) \<and> pcs s ! j = In_Flush_Wait"
  then have j: "j < length (pcs s)" "pcs s ! j = In_Flush_Wait" by auto
  then have "0 < num ((=) In_Flush_Wait) (pcs s)" by (auto intro: num_pos)
  then have "0 < num is_awake (pcs s) + num ((=) Park_Unlocked) (pcs s)" using inv by (simp add: flush_inv_def)
  moreover have kill: "kill_cached_threads (cache s) \<noteq> 0" using kill_pos_if_flushing [OF inv j(1)] j(2) by auto
  ultimately consider k e where "k < length (pcs s)" "pcs s ! k = Awake e"
    | k where "k < length (pcs s)" "pcs s ! k = Park_Unlocked"
    using num_posD is_awake.elims(2) by (metis (full_types) add_is_0 bot_nat_0.not_eq_extremum)
  then show "(\<exists>i s'. act (Park_Signal i (Some j)) s = Some s' \<and> pcs s' ! j = Flush_Awake) \<or>
    (\<exists>i s'. act (Park_Resume i) s = Some s' \<and> pcs s' ! i = Park_Unlocked \<and>
            num is_waiting (pcs s') + 1 = num is_waiting (pcs s))"
  proof cases
    case 1
    then show ?thesis using park_resume_leaves kill by blast
  next
    case (2 k)
    then have "k \<noteq> j" using j by auto
    then have "act (Park_Signal k (Some j)) s = Some (goto k Running (s\<lparr>pcs := (pcs s)[j := Flush_Awake]\<rparr>))"
      using 2 j by (simp add: act_def guard_def send_def cond_signal_def)
    then show ?thesis using j \<open>k \<noteq> j\<close> by fastforce
  qed
next
  assume a: "closed s \<and> act (Park i sz) s = Some s'"
  then have i: "i < length (pcs s)" "pcs s ! i = Running" and s': "s' = finish_park i (park_enter sz (cache s)) s"
    using act_length [of "Park i sz" s s'] by (auto simp: act_def guard_Some split: if_splits)
  have "0 < unat (kill_cached_threads (cache s))" using reach_flush_inv [OF r] a by (auto simp: flush_inv_def)
  then have "pcs s' = (pcs s)[i := Running]"
    using s' by (auto simp: finish_park_def park_enter_def list_get_def split: list.splits)
  then show "num is_waiting (pcs s') = num is_waiting (pcs s)" using i by (metis list_update_id)
qed

theorem flush_progress_witness:
  "(\<exists>i s'. act (Park_Signal i (Some 1)) state_final = Some s' \<and> pcs s' ! 1 = Flush_Awake) \<or>
   (\<exists>i s'. act (Park_Resume i) state_final = Some s' \<and> pcs s' ! i = Park_Unlocked \<and>
           num is_waiting (pcs s') + 1 = num is_waiting (pcs state_final))"
proof -
  have "1 < length (pcs state_final) \<and> pcs state_final ! 1 = In_Flush_Wait" by (simp add: state_final_def)
  then show ?thesis using flush_progress [OF reach_final, of 1 2 4 state_final] by blast
qed

text \<open>C28. With several flushes the signal of \<open>park\<close> is not enough. In any state reached without a \<open>final_flush\<close>, with fewer than \<open>2 ^ 32\<close> threads, in which a flush waits, the cache is empty and
  the last thread that left it signals a flush other than this one: whatever the threads do from then on, \<open>final_flush\<close> included unless it finds the counter at its
  greatest value, the flush goes on waiting although the cache stays empty. Only a spurious wakeup would end its wait.
\<close>

theorem two_flushes_stuck:
  assumes "reach (no_final lim) n s" "n < 2 ^ 32" "j < n" "pcs s ! j = In_Flush_Wait" "k \<noteq> j" "num is_waiting (pcs s) = 0"
    and "num ((=) Park_Unlocked) (pcs s) = 1" "act (Park_Signal i (Some k)) s = Some s1"
    and "run_ok (unwoken j) as s1" "run as s1 = Some s2"
  shows "pcs s1 ! k = Flush_Awake \<and> pcs s2 ! j = In_Flush_Wait \<and> tc_size (cache s2) = 0 \<and> conn_list (cache s2) = []"
proof -
  have "stuck j s2" using stuck_run [OF last_signal_stuck [OF assms(1-8)] assms(9,10)] .
  moreover have "pcs s1 ! k = Flush_Awake"
    using assms(8) by (auto simp: act_def guard_Some send_def cond_signal_def nth_list_update split: if_splits)
  ultimately show ?thesis by (simp add: stuck_def tc_size_def)
qed

theorem two_flushes_stuck_witness:
  "\<exists>s1 s2. act (Park_Signal 0 (Some 2)) state_two_flushes = Some s1 \<and>
     run [Flush_Resume 2, Park 0 4, Final_Load 2, Final_Store 2, Flush 2, Enqueue 2 9] s1 = Some s2 \<and> pcs s2 ! 1 = In_Flush_Wait"
proof -
  let ?as = "[Flush_Resume 2, Park 0 4, Final_Load 2, Final_Store 2, Flush 2, Enqueue 2 9]"
  let ?s1 = "state_two_flushes\<lparr>pcs := [Running, In_Flush_Wait, Flush_Awake]\<rparr>"
  have a: "act (Park_Signal 0 (Some 2)) state_two_flushes = Some ?s1" by (simp add: state_two_flushes_def exec)
  have "\<exists>s2. run ?as ?s1 = Some s2" by (simp add: state_two_flushes_def exec)
  then obtain s2 where "run ?as ?s1 = Some s2" ..
  moreover have "run_ok (unwoken 1) ?as ?s1" by (simp add: state_two_flushes_def exec)
  ultimately show ?thesis using a two_flushes_stuck [OF reach_two_flushes, of 1 2 0 ?s1 ?as s2] by (simp add: state_two_flushes_def num_def)
qed

text \<open>
  The increment of \<open>final_flush\<close> is outside the lock. When a \<open>flush\<close> increments the counter between its load and its store,
  that increment is lost: both flushes return, the counter is zero again, a thread
  parks, and \<open>destroy\<close> fails its assertion.
\<close>

lemma final_flush_race:
  "\<exists>s. run [Park 0 4, Final_Load 1, Flush 2, Final_Store 1, Park_Resume 0, Park_Signal 0 (Some 2), Flush_Resume 2,
             Flush 1, Park 0 4] (sys_init 3) = Some s \<and>
       pcs s = [In_Wait, Running, Running] \<and> closed s \<and> tc_destroy (cache s) = None"
  by (simp add: exec tc_destroy_def)

end
