(* ===== verification/Mem_Root_Array.thy ===== *)
theory Mem_Root_Array
  imports Prelude "HOL-Library.Monad_Syntax"
begin

text \<open>
  \<open>mem_root_array.h\<close>: \<open>Mem_root_array\<close>, the vector on a memory root. The storage \<open>m_array\<close> is null or a list of
  slots, each raw memory (\<^const>\<open>None\<close>) or an element. \<open>alloc_root\<close>, which is not part of the header, is an
  argument: from the state of the root and a number of bytes it computes the new state and
  whether it succeeded; on success there is room for exactly that many bytes. The result
  \<^const>\<open>None\<close> of an operation is a failed assertion, an access outside the storage or to raw memory,
  or a loop that does not end. An element is passed to \<open>push_back\<close> and \<open>resize\<close> by value: a reference into the array
  itself, which a reallocation would invalidate, is not modelled. The field \<open>destroyed\<close> records the destructor calls, oldest first.
\<close>

record ('m, 'a) mem_root_array =
  m_root :: 'm
  m_array :: "'a option list option"
  m_size :: ulonglong
  m_capacity :: ulonglong
  destroyed :: "'a list"

text \<open>The template and environment arguments: \<open>has_trivial_destructor\<close>, \<open>sizeof(Element_type)\<close> and \<open>alloc_root\<close>.\<close>

record 'm array_env =
  has_trivial_destructor :: bool
  element_size :: ulonglong
  alloc_root :: "'m \<Rightarrow> ulonglong \<Rightarrow> 'm \<times> bool"

type_synonym ('m, 'a) mra = "('m, 'a) mem_root_array"

section \<open>Slots\<close>

definition mra_slot :: "('m, 'a) mra \<Rightarrow> nat \<Rightarrow> 'a option" where
  "mra_slot a i = (case m_array a of None \<Rightarrow> None | Some sl \<Rightarrow> if i < length sl then sl ! i else None)"

definition put_slot :: "nat \<Rightarrow> 'a option \<Rightarrow> ('m, 'a) mra \<Rightarrow> ('m, 'a) mra option" where
  "put_slot i v a =
     (case m_array a of None \<Rightarrow> None
      | Some sl \<Rightarrow> if i < length sl then Some (a\<lparr>m_array := Some (sl[i := v])\<rparr>) else None)"

definition destroy :: "nat \<Rightarrow> ('m, 'a) mra \<Rightarrow> ('m, 'a) mra option" where
  "destroy i a = do { x \<leftarrow> mra_slot a i; b \<leftarrow> put_slot i None a; Some (b\<lparr>destroyed := destroyed b @ [x]\<rparr>) }"

section \<open>Operations\<close>

definition mra_construct :: "'m \<Rightarrow> ('m, 'a) mra" where
  "mra_construct root = \<lparr>m_root = root, m_array = None, m_size = 0, m_capacity = 0, destroyed = []\<rparr>"

definition mra_empty :: "('m, 'a) mra \<Rightarrow> bool" where "mra_empty a \<longleftrightarrow> m_size a = 0"
definition mra_capacity :: "('m, 'a) mra \<Rightarrow> ulonglong" where "mra_capacity a = m_capacity a"
definition mra_size :: "('m, 'a) mra \<Rightarrow> ulonglong" where "mra_size a = m_size a"

definition mra_at :: "ulonglong \<Rightarrow> ('m, 'a) mra \<Rightarrow> 'a option" where
  "mra_at n a = (if n < mra_size a then mra_slot a (unat n) else None)"

definition mra_back :: "('m, 'a) mra \<Rightarrow> 'a option" where
  "mra_back a = mra_at (mra_size a - 1) a"

text \<open>The pointers \<open>begin\<close> and \<open>end\<close>, as offsets from \<open>m_array\<close>.\<close>

definition mra_begin :: "('m, 'a) mra \<Rightarrow> nat" where "mra_begin a = 0"
definition mra_end :: "('m, 'a) mra \<Rightarrow> nat" where "mra_end a = unat (mra_size a)"

partial_function (option) chop_loop :: "ulonglong \<Rightarrow> ('m, 'a) mra \<Rightarrow> ('m, 'a) mra option" where
  "chop_loop ix a =
     (if ix < m_size a
      then Option.bind (destroy (unat ix) a) (\<lambda>b. chop_loop (ix + 1) b)
      else Some a)"

definition chop :: "'m array_env \<Rightarrow> ulonglong \<Rightarrow> ('m, 'a) mra \<Rightarrow> ('m, 'a) mra option" where
  "chop env pos a =
     (if pos < m_size a
      then do { b \<leftarrow> (if has_trivial_destructor env then Some a else chop_loop pos a);
                Some (b\<lparr>m_size := pos\<rparr>) }
      else None)"

definition clear :: "'m array_env \<Rightarrow> ('m, 'a) mra \<Rightarrow> ('m, 'a) mra option" where
  "clear env a = (if mra_empty a then Some a else chop env 0 a)"

text \<open>The copying loop of \<open>reserve\<close>, from the old array to the new slots.\<close>

partial_function (option) copy_loop ::
  "'m array_env \<Rightarrow> ulonglong \<Rightarrow> 'a option list \<Rightarrow> ('m, 'a) mra \<Rightarrow> ('a option list \<times> ('m, 'a) mra) option" where
  "copy_loop env ix sl a =
     (if ix < m_size a
      then Option.bind (mra_slot a (unat ix)) (\<lambda>x.
           if unat ix < length sl
           then Option.bind (if has_trivial_destructor env then Some a else destroy (unat ix) a) (\<lambda>b.
                copy_loop env (ix + 1) (sl[unat ix := Some x]) b)
           else None)
      else Some (sl, a))"

definition reserve :: "'m array_env \<Rightarrow> ulonglong \<Rightarrow> ('m, 'a) mra \<Rightarrow> (bool \<times> ('m, 'a) mra) option" where
  "reserve env n a =
     (if n \<le> m_capacity a then Some (False, a)
      else let bytes = n * element_size env; (root, ok) = alloc_root env (m_root a) bytes; a = a\<lparr>m_root := root\<rparr>
        in if \<not> ok then Some (True, a)
           else do { (sl, b) \<leftarrow> copy_loop env 0 (replicate (unat bytes div unat (element_size env)) None) a;
                     Some (False, b\<lparr>m_array := Some sl, m_capacity := n\<rparr>) })"

definition push_back :: "'m array_env \<Rightarrow> 'a \<Rightarrow> ('m, 'a) mra \<Rightarrow> (bool \<times> ('m, 'a) mra) option" where
  "push_back env x a = do {
     (oom, a) \<leftarrow> (if m_capacity a = 0 then reserve env 20 a else Some (False, a));
     if oom then Some (True, a)
     else do {
       (oom, a) \<leftarrow> (if m_size a = m_capacity a then reserve env (m_capacity a * 2) a else Some (False, a));
       if oom then Some (True, a)
       else do {
         b \<leftarrow> put_slot (unat (m_size a)) (Some x) a;
         Some (False, b\<lparr>m_size := m_size b + 1\<rparr>) } } }"

definition pop_back :: "'m array_env \<Rightarrow> ('m, 'a) mra \<Rightarrow> ('m, 'a) mra option" where
  "pop_back env a =
     (if mra_empty a then None
      else do { b \<leftarrow> (if has_trivial_destructor env then Some a
                     else do { _ \<leftarrow> mra_back a; destroy (unat (mra_size a - 1)) a });
                Some (b\<lparr>m_size := m_size b - 1\<rparr>) })"

partial_function (option) grow_loop :: "'m array_env \<Rightarrow> ulonglong \<Rightarrow> 'a \<Rightarrow> ('m, 'a) mra \<Rightarrow> ('m, 'a) mra option" where
  "grow_loop env n x a =
     (if n \<noteq> m_size a then Option.bind (push_back env x a) (\<lambda>r. grow_loop env n x (snd r)) else Some a)"

partial_function (option) shrink_loop :: "'m array_env \<Rightarrow> ulonglong \<Rightarrow> ('m, 'a) mra \<Rightarrow> ('m, 'a) mra option" where
  "shrink_loop env n a =
     (if n \<noteq> m_size a then Option.bind (pop_back env a) (\<lambda>b. shrink_loop env n b) else Some a)"

definition resize :: "'m array_env \<Rightarrow> ulonglong \<Rightarrow> 'a \<Rightarrow> ('m, 'a) mra \<Rightarrow> ('m, 'a) mra option" where
  "resize env n x a =
     (if n = m_size a then Some a
      else if m_size a < n
      then do { (oom, b) \<leftarrow> reserve env n a; if oom then Some b else grow_loop env n x b }
      else do { b \<leftarrow> (if has_trivial_destructor env then Some a else shrink_loop env n a);
                Some (b\<lparr>m_size := n\<rparr>) })"

definition mra_construct_n :: "'m array_env \<Rightarrow> 'm \<Rightarrow> ulonglong \<Rightarrow> 'a \<Rightarrow> ('m, 'a) mra option" where
  "mra_construct_n env root n x = resize env n x (mra_construct root)"

definition mra_destruct :: "'m array_env \<Rightarrow> ('m, 'a) mra \<Rightarrow> ('m, 'a) mra option" where
  "mra_destruct env a = clear env a"

section \<open>The sequence an array holds\<close>

definition rep :: "('m, 'a) mra \<Rightarrow> 'a list \<Rightarrow> bool" where
  "rep a xs \<longleftrightarrow>
     unat (m_size a) = length xs \<and> length xs \<le> unat (m_capacity a) \<and>
     (case m_array a of
        None \<Rightarrow> m_capacity a = 0
      | Some sl \<Rightarrow> unat (m_capacity a) \<le> length sl \<and> take (length xs) sl = map Some xs)"

lemma rep_construct: "rep (mra_construct root) []"
  by (simp add: rep_def mra_construct_def)

lemma rep_slots:
  assumes "rep a xs" "xs \<noteq> []"
  obtains rest where "m_array a = Some (map Some xs @ rest)" "unat (m_capacity a) \<le> length xs + length rest"
proof -
  obtain sl where sl: "m_array a = Some sl" using assms by (cases "m_array a") (auto simp: rep_def)
  have r: "take (length xs) sl = map Some xs" "unat (m_capacity a) \<le> length sl" "length xs \<le> unat (m_capacity a)"
    using assms(1) sl by (auto simp: rep_def)
  have "sl = map Some xs @ drop (length xs) sl" using append_take_drop_id [of "length xs" sl] r(1) by simp
  then show thesis using that [of "drop (length xs) sl"] sl r by simp
qed

lemma repI:
  "m_array a = Some (map Some xs @ rest) \<Longrightarrow> unat (m_size a) = length xs \<Longrightarrow> length xs \<le> unat (m_capacity a) \<Longrightarrow>
   unat (m_capacity a) \<le> length xs + length rest \<Longrightarrow> rep a xs"
  by (simp add: rep_def)

lemma rep_size_eq: "rep a xs \<Longrightarrow> unat n = length xs \<Longrightarrow> n = m_size a"
  by (rule unsigned_word_eqI [where 'a = nat]) (simp add: rep_def)

lemma rep_at: "rep a xs \<Longrightarrow> mra_at n a = (if unat n < length xs then Some (xs ! unat n) else None)"
proof -
  assume r: "rep a xs"
  show ?thesis
  proof (cases "unat n < length xs")
    case True
    then obtain rest where "m_array a = Some (map Some xs @ rest)" using rep_slots [OF r] by fastforce
    then show ?thesis using True r by (simp add: mra_at_def mra_size_def mra_slot_def rep_def word_less_nat_alt nth_append)
  next
    case False
    then show ?thesis using r by (simp add: mra_at_def mra_size_def rep_def word_less_nat_alt)
  qed
qed

section \<open>The loops\<close>

lemma destroy_at:
  "m_array a = Some (pre @ Some y # rest) \<Longrightarrow>
   destroy (length pre) a = Some (a\<lparr>m_array := Some (pre @ None # rest), destroyed := destroyed a @ [y]\<rparr>)"
  by (simp add: destroy_def mra_slot_def put_slot_def nth_append)

lemma chop_loop_eq:
  assumes "m_array a = Some (pre @ map Some ys @ rest)" "unat ix = length pre" "unat (m_size a) = length pre + length ys"
  shows "chop_loop ix a =
         Some (a\<lparr>m_array := Some (pre @ replicate (length ys) None @ rest), destroyed := destroyed a @ ys\<rparr>)"
  using assms
proof (induction ys arbitrary: a pre ix)
  case Nil
  then have "\<not> ix < m_size a" by (simp add: word_less_nat_alt)
  then show ?case using Nil by (simp add: chop_loop.simps)
next
  case (Cons y ys)
  then have lt: "ix < m_size a" by (simp add: word_less_nat_alt)
  let ?b = "a\<lparr>m_array := Some (pre @ None # map Some ys @ rest), destroyed := destroyed a @ [y]\<rparr>"
  have d: "destroy (unat ix) a = Some ?b" using Cons.prems destroy_at [of a pre y] by simp
  have "unat (ix + 1) = length (pre @ [None])" using lt unat_incr [of ix "m_size a"] Cons.prems by (simp add: word_less_nat_alt)
  then have "chop_loop (ix + 1) ?b = Some (?b\<lparr>m_array := Some ((pre @ [None]) @ replicate (length ys) None @ rest),
      destroyed := destroyed ?b @ ys\<rparr>)"
    using Cons.prems by (intro Cons.IH) simp_all
  then show ?case using lt d by (subst chop_loop.simps) simp
qed

lemma copy_loop_eq:
  assumes "m_array a = Some (pre @ map Some ys @ rest)" "unat ix = length pre" "unat (m_size a) = length pre + length ys"
    and "length new = length pre" "length ys \<le> length us"
  shows "copy_loop env ix (new @ us) a =
         Some (new @ map Some ys @ drop (length ys) us,
               if has_trivial_destructor env then a
               else a\<lparr>m_array := Some (pre @ replicate (length ys) None @ rest), destroyed := destroyed a @ ys\<rparr>)"
  using assms
proof (induction ys arbitrary: a pre ix new us)
  case Nil
  then have "\<not> ix < m_size a" by (simp add: word_less_nat_alt)
  then show ?case using Nil by (simp add: copy_loop.simps)
next
  case (Cons y ys)
  then have lt: "ix < m_size a" by (simp add: word_less_nat_alt)
  obtain t us' where us: "us = t # us'" using Cons.prems(5) by (cases us) auto
  let ?d = "has_trivial_destructor env"
  let ?p = "pre @ [if ?d then Some y else None]"
  let ?b = "if ?d then a else a\<lparr>m_array := Some (pre @ None # map Some ys @ rest), destroyed := destroyed a @ [y]\<rparr>"
  have d: "destroy (unat ix) a = Some (a\<lparr>m_array := Some (pre @ None # map Some ys @ rest), destroyed := destroyed a @ [y]\<rparr>)"
    using Cons.prems destroy_at [of a pre y] by simp
  have "mra_slot a (unat ix) = Some y" using Cons.prems by (simp add: mra_slot_def nth_append)
  moreover have "(new @ us)[unat ix := Some y] = (new @ [Some y]) @ us'" "unat ix < length (new @ us)"
    using Cons.prems us by (simp_all add: list_update_append)
  moreover have "copy_loop env (ix + 1) ((new @ [Some y]) @ us') ?b =
     Some ((new @ [Some y]) @ map Some ys @ drop (length ys) us',
       if ?d then ?b else ?b\<lparr>m_array := Some (?p @ replicate (length ys) None @ rest), destroyed := destroyed ?b @ ys\<rparr>)"
    using Cons.prems us lt unat_incr [of ix "m_size a"] by (intro Cons.IH) (simp_all add: word_less_nat_alt)
  ultimately show ?case using lt d us by (subst copy_loop.simps) (cases "has_trivial_destructor env"; simp)
qed

section \<open>Operations on the sequence\<close>

text \<open>Requests that do not wrap around.\<close>

definition fits :: "'m array_env \<Rightarrow> nat \<Rightarrow> bool" where
  "fits env n \<longleftrightarrow> 0 < unat (element_size env) \<and> n * unat (element_size env) < 2 ^ 64"

lemma fits_mono: "fits env n \<Longrightarrow> m \<le> n \<Longrightarrow> fits env m"
proof -
  assume f: "fits env n" and "m \<le> n"
  then have "m * unat (element_size env) \<le> n * unat (element_size env)" by (intro mult_le_mono1)
  then show ?thesis using f unfolding fits_def by linarith
qed

lemma fits_lt: "fits env n \<Longrightarrow> n < 2 ^ 64"
proof -
  assume f: "fits env n"
  then have "n \<le> n * unat (element_size env)" by (simp add: fits_def)
  then show ?thesis using f unfolding fits_def by linarith
qed

lemma fits_unat: "fits env (unat n) \<Longrightarrow> unat (n * element_size env) div unat (element_size env) = unat n"
  by (simp add: fits_def unat_word_ariths)

text \<open>The outcome of a request for \<open>n\<close> elements.\<close>

definition grants :: "'m array_env \<Rightarrow> ulonglong \<Rightarrow> ('m, 'a) mra \<Rightarrow> bool" where
  "grants env n a \<longleftrightarrow> n \<le> m_capacity a \<or> snd (alloc_root env (m_root a) (n * element_size env))"

text \<open>The elements that a reallocation destroys after copying them.\<close>

definition moved :: "'m array_env \<Rightarrow> ulonglong \<Rightarrow> ('m, 'a) mra \<Rightarrow> 'a list \<Rightarrow> 'a list" where
  "moved env n a xs = (if has_trivial_destructor env \<or> n \<le> m_capacity a then [] else xs)"

lemma reserve_copy:
  assumes "rep a xs" "unat (m_capacity a) < N"
  shows "\<exists>b. copy_loop env 0 (replicate N None) a = Some (map Some xs @ replicate (N - length xs) None, b) \<and>
           m_root b = m_root a \<and> m_size b = m_size a \<and>
           destroyed b = destroyed a @ (if has_trivial_destructor env then [] else xs)"
proof (cases "xs = []")
  case True
  then have "m_size a = 0" using assms by (simp add: rep_def unat_eq_zero)
  then show ?thesis using True by (simp add: copy_loop.simps)
next
  case False
  then obtain rest where "m_array a = Some (map Some xs @ rest)" using rep_slots assms(1) by blast
  then show ?thesis using copy_loop_eq [of a "[]" xs rest 0 "[]" "replicate N None" env] assms by (simp add: rep_def)
qed

lemma reserve_rep:
  assumes r: "rep a xs" and f: "fits env (unat n)"
  shows "\<exists>b. reserve env n a = Some (\<not> grants env n a, b) \<and> rep b xs \<and> m_size b = m_size a \<and>
           m_capacity b = (if grants env n a \<and> m_capacity a < n then n else m_capacity a) \<and>
           destroyed b = destroyed a @ (if grants env n a then moved env n a xs else [])"
proof (cases "n \<le> m_capacity a")
  case True
  then show ?thesis using r by (auto simp: reserve_def grants_def moved_def)
next
  case False
  obtain root ok where al: "alloc_root env (m_root a) (n * element_size env) = (root, ok)" by fastforce
  let ?a = "a\<lparr>m_root := root\<rparr>"
  have ra: "rep ?a xs" using r by (cases "m_array a") (auto simp: rep_def)
  show ?thesis
  proof (cases ok)
    case True
    have lt: "unat (m_capacity ?a) < unat n" using False by (simp add: word_le_nat_alt)
    obtain b where b: "copy_loop env 0 (replicate (unat n) None) ?a =
        Some (map Some xs @ replicate (unat n - length xs) None, b)"
      "m_root b = root" "m_size b = m_size a" "destroyed b = destroyed a @ (if has_trivial_destructor env then [] else xs)"
      using reserve_copy [OF ra lt] by auto
    let ?c = "b\<lparr>m_array := Some (map Some xs @ replicate (unat n - length xs) None), m_capacity := n\<rparr>"
    have "reserve env n a = Some (False, ?c)"
      using False True al b fits_unat [OF f] by (simp add: reserve_def)
    moreover have "rep ?c xs" using r lt b by (intro repI) (auto simp: rep_def)
    ultimately show ?thesis using False True al b by (auto simp: grants_def moved_def)
  next
    case nok: False
    then show ?thesis using False al ra by (auto simp: reserve_def grants_def)
  qed
qed

lemma rep_put:
  assumes r: "rep a xs" and "length xs < unat (m_capacity a)"
  shows "\<exists>b. put_slot (unat (m_size a)) (Some x) a = Some b \<and> rep (b\<lparr>m_size := m_size b + 1\<rparr>) (xs @ [x]) \<and>
           m_size b = m_size a \<and> m_capacity b = m_capacity a \<and> destroyed b = destroyed a \<and> m_root b = m_root a"
proof -
  obtain sl where sl: "m_array a = Some sl" using assms by (cases "m_array a") (auto simp: rep_def)
  have s: "unat (m_size a) = length xs" "unat (m_capacity a) \<le> length sl" "take (length xs) sl = map Some xs"
    using r sl by (simp_all add: rep_def)
  have "unat (m_size a + 1) = Suc (length xs)" using unat_incr [of "m_size a" "m_capacity a"] s assms(2) by simp
  moreover have "take (Suc (length xs)) (sl[length xs := Some x]) = map Some (xs @ [x])"
    using s assms(2) by (simp add: take_Suc_conv_app_nth)
  ultimately show ?thesis using sl s assms(2) by (simp add: put_slot_def rep_def)
qed

text \<open>The request \<open>push_back\<close> makes, if any.\<close>

definition request :: "('m, 'a) mra \<Rightarrow> ulonglong" where
  "request a = (if m_capacity a = 0 then 20 else if m_size a = m_capacity a then m_capacity a * 2 else m_capacity a)"

lemma push_back_rep:
  assumes r: "rep a xs" and f: "fits env (max 20 (unat (m_capacity a) * 2))"
  shows "\<exists>b. push_back env x a = Some (\<not> grants env (request a) a, b) \<and>
           rep b (if grants env (request a) a then xs @ [x] else xs) \<and>
           m_capacity b = (if grants env (request a) a then request a else m_capacity a) \<and>
           destroyed b = destroyed a @ (if grants env (request a) a then moved env (request a) a xs else [])"
proof -
  have size: "length xs \<le> unat (m_capacity a)" "unat (m_size a) = length xs" using r by (simp_all add: rep_def)
  have "unat (m_capacity a) * 2 < 2 ^ 64" using fits_lt [OF fits_mono [OF f]] by simp
  then have dbl: "unat (m_capacity a * 2) = unat (m_capacity a) * 2" by (simp add: unat_word_ariths)
  have req: "unat (request a) \<le> max 20 (unat (m_capacity a) * 2)"
    by (auto simp: request_def dbl)
  obtain b where b: "reserve env (request a) a = Some (\<not> grants env (request a) a, b)" "rep b xs" "m_size b = m_size a"
    "m_capacity b = (if grants env (request a) a \<and> m_capacity a < request a then request a else m_capacity a)"
    "destroyed b = destroyed a @ (if grants env (request a) a then moved env (request a) a xs else [])"
    using reserve_rep [OF r fits_mono [OF f req]] by blast
  have grown: "m_capacity b = request a \<and> length xs < unat (request a)" if "grants env (request a) a"
  proof -
    have "m_capacity a < request a \<or> request a = m_capacity a \<and> length xs < unat (m_capacity a)"
      using size dbl by (auto simp: request_def word_less_nat_alt unat_gt_0 le_less unsigned_word_eqI)
    then show ?thesis using that b size by (auto simp: word_less_nat_alt)
  qed
  show ?thesis
  proof (cases "grants env (request a) a")
    case True
    note g = grown [OF True]
    obtain c where c: "put_slot (unat (m_size b)) (Some x) b = Some c" "rep (c\<lparr>m_size := m_size c + 1\<rparr>) (xs @ [x])"
      "m_capacity c = m_capacity b" "destroyed c = destroyed b"
      using rep_put [OF b(2), of x] g by auto
    consider "m_capacity a = 0" | "m_capacity a \<noteq> 0" "m_size a = m_capacity a" | "m_capacity a \<noteq> 0" "m_size a \<noteq> m_capacity a"
      by blast
    then have "push_back env x a = Some (False, c\<lparr>m_size := m_size c + 1\<rparr>)"
    proof cases
      case 1
      then have "m_size b = 0" "request a = 20" using size b(3) by (auto simp: request_def unat_eq_zero)
      then show ?thesis using 1 b g c True by (simp add: push_back_def)
    next
      case 2
      then have "request a = m_capacity a * 2" by (simp add: request_def)
      then show ?thesis using 2 b c True by (simp add: push_back_def)
    next
      case 3
      then have "b = a" using b(1) by (simp add: request_def reserve_def)
      then show ?thesis using 3 c by (simp add: push_back_def)
    qed
    then show ?thesis using True b g c by simp
  next
    case False
    then have "m_capacity a = 0 \<or> m_size a = m_capacity a" by (auto simp: request_def grants_def split: if_splits)
    then show ?thesis using b False by (auto simp: push_back_def request_def)
  qed
qed

lemma push_back_room:
  assumes r: "rep a xs" and "length xs < unat (m_capacity a)"
  shows "\<exists>b. push_back env x a = Some (False, b) \<and> rep b (xs @ [x]) \<and> m_capacity b = m_capacity a \<and>
           destroyed b = destroyed a"
proof -
  have "m_capacity a \<noteq> 0" "m_size a \<noteq> m_capacity a" using assms by (auto simp: rep_def)
  then show ?thesis using rep_put [OF assms, of x] by (auto simp: push_back_def)
qed

lemma grow_loop_rep:
  assumes "rep a xs" "length xs \<le> unat n" "unat n \<le> unat (m_capacity a)"
  shows "\<exists>b. grow_loop env n x a = Some b \<and> rep b (xs @ replicate (unat n - length xs) x) \<and> m_capacity b = m_capacity a \<and>
           destroyed b = destroyed a"
  using assms
proof (induction "unat n - length xs" arbitrary: a xs)
  case 0
  then have "n = m_size a" by (intro rep_size_eq) auto
  then show ?case using 0 by (simp add: grow_loop.simps)
next
  case (Suc k)
  then have ne: "n \<noteq> m_size a" by (auto simp: rep_def)
  obtain b where b: "push_back env x a = Some (False, b)" "rep b (xs @ [x])" "m_capacity b = m_capacity a" "destroyed b = destroyed a"
    using push_back_room [OF Suc.prems(1), of env x] Suc.hyps(2) Suc.prems(3) by fastforce
  have "\<exists>c. grow_loop env n x b = Some c \<and> rep c ((xs @ [x]) @ replicate (unat n - length (xs @ [x])) x) \<and>
      m_capacity c = m_capacity b \<and> destroyed c = destroyed b"
    using Suc b by (intro Suc.hyps(1)) auto
  moreover have "replicate (unat n - length xs) x = x # replicate (unat n - length (xs @ [x])) x"
    using Suc.hyps(2) by (metis Suc_diff_Suc length_append_singleton replicate_Suc zero_less_Suc zero_less_diff)
  ultimately show ?case using ne b by (subst grow_loop.simps) simp
qed

lemma pop_back_rep:
  assumes r: "rep a (xs @ [y])"
  shows "\<exists>b. pop_back env a = Some b \<and> rep b xs \<and> m_capacity b = m_capacity a \<and>
           destroyed b = destroyed a @ (if has_trivial_destructor env then [] else [y])"
proof -
  obtain rest where sl: "m_array a = Some (map Some (xs @ [y]) @ rest)" "unat (m_capacity a) \<le> length (xs @ [y]) + length rest"
    using rep_slots [OF r] by blast
  have s: "unat (m_size a) = Suc (length xs)" "Suc (length xs) \<le> unat (m_capacity a)" using r by (simp_all add: rep_def)
  then have s1: "unat (m_size a - 1) = length xs" using unat_minus_1 [of "m_size a"] by simp
  have ne: "\<not> mra_empty a" using s by (auto simp: mra_empty_def)
  have bk: "mra_back a = Some y" using rep_at [OF r] s1 by (simp add: mra_back_def mra_size_def)
  show ?thesis
  proof (cases "has_trivial_destructor env")
    case True
    have "rep (a\<lparr>m_size := m_size a - 1\<rparr>) xs" using sl s s1 by (intro repI [where rest = "Some y # rest"]) auto
    then show ?thesis using True ne by (simp add: pop_back_def)
  next
    case False
    let ?b = "a\<lparr>m_array := Some (map Some xs @ None # rest), destroyed := destroyed a @ [y]\<rparr>"
    have "destroy (unat (mra_size a - 1)) a = Some ?b"
      using destroy_at [of a "map Some xs" y rest] sl s1 by (simp add: mra_size_def)
    moreover have "rep (?b\<lparr>m_size := m_size ?b - 1\<rparr>) xs" using sl s s1 by (intro repI [where rest = "None # rest"]) auto
    ultimately show ?thesis using False ne bk by (simp add: pop_back_def)
  qed
qed

lemma shrink_loop_rep:
  assumes "rep a (xs @ ys)" "unat n = length xs" "\<not> has_trivial_destructor env"
  shows "\<exists>b. shrink_loop env n a = Some b \<and> rep b xs \<and> m_capacity b = m_capacity a \<and> destroyed b = destroyed a @ rev ys"
  using assms
proof (induction ys arbitrary: a rule: rev_induct)
  case Nil
  then have "n = m_size a" by (intro rep_size_eq) auto
  then show ?case using Nil by (simp add: shrink_loop.simps)
next
  case (snoc y ys)
  then have ne: "n \<noteq> m_size a" by (auto simp: rep_def)
  obtain b where b: "pop_back env a = Some b" "rep b (xs @ ys)" "m_capacity b = m_capacity a" "destroyed b = destroyed a @ [y]"
    using pop_back_rep [of a "xs @ ys" y env] snoc.prems by auto
  obtain c where "shrink_loop env n b = Some c" "rep c xs" "m_capacity c = m_capacity b" "destroyed c = destroyed b @ rev ys"
    using snoc.IH [OF b(2)] snoc.prems by blast
  then show ?case using ne b by (subst shrink_loop.simps) simp
qed

lemma rep_take:
  assumes r: "rep a xs" and n: "unat n \<le> length xs"
  shows "rep (a\<lparr>m_size := n\<rparr>) (take (unat n) xs)"
proof (cases "m_array a")
  case None
  then show ?thesis using assms by (auto simp: rep_def)
next
  case (Some sl)
  then have "take (length xs) sl = map Some xs" using r by (simp add: rep_def)
  then have "take (unat n) sl = map Some (take (unat n) xs)" using n by (metis min.absorb1 take_map take_take)
  then show ?thesis using Some assms by (simp add: rep_def min_def)
qed

lemma chop_rep:
  assumes r: "rep a xs" and n: "unat n < length xs"
  shows "\<exists>b. chop env n a = Some b \<and> rep b (take (unat n) xs) \<and> m_capacity b = m_capacity a \<and>
           destroyed b = destroyed a @ (if has_trivial_destructor env then [] else drop (unat n) xs)"
proof -
  have lt: "n < m_size a" using assms by (simp add: rep_def word_less_nat_alt)
  show ?thesis
  proof (cases "has_trivial_destructor env")
    case True
    then show ?thesis using lt rep_take [OF r] n by (simp add: chop_def)
  next
    case False
    obtain rest where sl: "m_array a = Some (map Some xs @ rest)" "unat (m_capacity a) \<le> length xs + length rest"
      using rep_slots [OF r] n by (metis list.size(3) not_less_zero)
    let ?pre = "map Some (take (unat n) xs)" and ?ys = "drop (unat n) xs"
    let ?b = "a\<lparr>m_array := Some (?pre @ replicate (length ?ys) None @ rest), destroyed := destroyed a @ ?ys\<rparr>"
    have "map Some xs = ?pre @ map Some ?ys" by (metis append_take_drop_id map_append)
    then have "m_array a = Some (?pre @ map Some ?ys @ rest)" using sl(1) by simp
    then have "chop_loop n a = Some ?b"
      using r n by (intro chop_loop_eq) (simp_all add: rep_def)
    moreover have "rep (?b\<lparr>m_size := n\<rparr>) (take (unat n) xs)" using sl n r by (intro repI) (auto simp: rep_def)
    ultimately show ?thesis using lt False by (simp add: chop_def)
  qed
qed

lemma resize_shrink:
  assumes r: "rep a xs" and n: "unat n < length xs"
  shows "\<exists>b. resize env n x a = Some b \<and> rep b (take (unat n) xs) \<and> m_capacity b = m_capacity a \<and>
           destroyed b = destroyed a @ (if has_trivial_destructor env then [] else rev (drop (unat n) xs))"
proof -
  have ne: "n \<noteq> m_size a" "\<not> m_size a < n" using assms by (auto simp: rep_def word_less_nat_alt)
  show ?thesis
  proof (cases "has_trivial_destructor env")
    case True
    then show ?thesis using ne rep_take [OF r] n by (simp add: resize_def)
  next
    case False
    obtain b where b: "shrink_loop env n a = Some b" "rep b (take (unat n) xs)" "m_capacity b = m_capacity a"
      "destroyed b = destroyed a @ rev (drop (unat n) xs)"
      using shrink_loop_rep [of a "take (unat n) xs" "drop (unat n) xs" n env] r n False by auto
    then have "b\<lparr>m_size := n\<rparr> = b" using rep_size_eq [OF b(2), of n] n by simp
    then show ?thesis using ne False b by (simp add: resize_def)
  qed
qed

lemma resize_grow:
  assumes r: "rep a xs" and n: "length xs < unat n" and f: "fits env (unat n)"
  shows "\<exists>b. resize env n x a = Some b \<and>
           rep b (if grants env n a then xs @ replicate (unat n - length xs) x else xs) \<and>
           destroyed b = destroyed a @ (if grants env n a then moved env n a xs else [])"
proof -
  have ne: "n \<noteq> m_size a" "m_size a < n" using assms by (auto simp: rep_def word_less_nat_alt)
  obtain b where b: "reserve env n a = Some (\<not> grants env n a, b)" "rep b xs"
    "m_capacity b = (if grants env n a \<and> m_capacity a < n then n else m_capacity a)"
    "destroyed b = destroyed a @ (if grants env n a then moved env n a xs else [])"
    using reserve_rep [OF r f] by blast
  show ?thesis
  proof (cases "grants env n a")
    case True
    then have "unat n \<le> unat (m_capacity b)" using b(3) by (simp add: word_le_nat_alt word_less_nat_alt)
    then obtain c where "grow_loop env n x b = Some c" "rep c (xs @ replicate (unat n - length xs) x)" "destroyed c = destroyed b"
      using grow_loop_rep [OF b(2), of n env x] n by auto
    then show ?thesis using ne b True by (simp add: resize_def)
  next
    case False
    then show ?thesis using ne b by (simp add: resize_def)
  qed
qed

lemma clear_rep:
  assumes r: "rep a xs"
  shows "\<exists>b. clear env a = Some b \<and> rep b [] \<and>
           destroyed b = destroyed a @ (if has_trivial_destructor env then [] else xs)"
proof (cases "xs = []")
  case True
  then show ?thesis using r by (auto simp: clear_def mra_empty_def rep_def unat_eq_zero)
next
  case False
  then have "\<not> mra_empty a" using r by (auto simp: mra_empty_def rep_def)
  then show ?thesis using chop_rep [OF r, of 0 env] False by (auto simp: clear_def)
qed

text \<open>An allocator that always succeeds, for elements of 8 bytes without a destructor.\<close>

definition wrap_env :: "unit array_env" where
  "wrap_env = \<lparr>has_trivial_destructor = True, element_size = 8, alloc_root = \<lambda>_ _. ((), True)\<rparr>"

text \<open>An allocator that fails for more than 32 bytes, with a destructor to run, and an array of two elements.\<close>

definition small_env :: "unit array_env" where
  "small_env = \<lparr>has_trivial_destructor = False, element_size = 8, alloc_root = \<lambda>_ n. ((), n \<le> 32)\<rparr>"

definition two :: "(unit, nat) mra" where
  "two = \<lparr>m_root = (), m_array = Some [Some 5, Some 6], m_size = 2, m_capacity = 2, destroyed = []\<rparr>"

lemma rep_two: "rep two [5, 6]"
  by (simp add: rep_def two_def)

section \<open>Properties\<close>

text \<open>C8. \<open>push_back\<close> on an array that holds the sequence \<open>xs\<close>, when the doubled capacity does not wrap around: it
  returns, without failing an assertion or touching memory outside the storage; it allocates only when the storage is full, reports
  exactly the failure of that allocation and then leaves the sequence and the capacity alone; otherwise the array holds
  \<open>xs @ [x]\<close>, \<open>back\<close> is the new element, and a reallocation destroys the old copies once each
  unless the destructor is trivial.\<close>

theorem mem_root_array_push_back:
  assumes "rep a xs" and "fits env (max 20 (unat (m_capacity a) * 2))"
  shows "\<exists>oom b. push_back env x a = Some (oom, b) \<and>
           (oom \<longleftrightarrow> m_size a = m_capacity a \<and> \<not> snd (alloc_root env (m_root a) (request a * element_size env))) \<and>
           rep b (if oom then xs else xs @ [x]) \<and>
           (oom \<or> mra_back b = Some x) \<and>
           destroyed b = destroyed a @
             (if oom \<or> has_trivial_destructor env \<or> m_size a \<noteq> m_capacity a then [] else xs)"
proof -
  obtain b where b: "push_back env x a = Some (\<not> grants env (request a) a, b)"
    "rep b (if grants env (request a) a then xs @ [x] else xs)"
    "destroyed b = destroyed a @ (if grants env (request a) a then moved env (request a) a xs else [])"
    using push_back_rep [OF assms, of x] by blast
  have size: "length xs \<le> unat (m_capacity a)" "unat (m_size a) = length xs" using assms(1) by (simp_all add: rep_def)
  have "unat (m_capacity a) * 2 < 2 ^ 64" using fits_lt [OF fits_mono [OF assms(2)]] by simp
  then have dbl: "unat (m_capacity a * 2) = unat (m_capacity a) * 2" by (simp add: unat_word_ariths)
  have full: "m_size a = m_capacity a" if "m_capacity a = 0" using size that by (simp add: unat_eq_zero)
  have req: "request a \<le> m_capacity a \<longleftrightarrow> m_size a \<noteq> m_capacity a"
    using full dbl by (auto simp: request_def word_le_nat_alt unat_eq_zero)
  have bk: "mra_back b = Some x" if "grants env (request a) a"
  proof -
    have r: "rep b (xs @ [x])" using b(2) that by simp
    then have "unat (m_size b - 1) = length xs" using unat_minus_1 [of "m_size b"] by (simp add: rep_def)
    then show ?thesis using rep_at [OF r] by (simp add: mra_back_def mra_size_def)
  qed
  show ?thesis
    using b bk req by (intro exI [of _ "\<not> grants env (request a) a"] exI [of _ b]) (auto simp: grants_def moved_def)
qed

theorem mem_root_array_push_back_witness:
  "\<exists>b. push_back small_env 7 two = Some (False, b) \<and> rep b [5, 6, 7] \<and> destroyed b = [5, 6]"
proof -
  have "fits small_env (max 20 (unat (m_capacity two) * 2))" by (simp add: fits_def small_env_def two_def)
  from mem_root_array_push_back [OF rep_two this, of 7] show ?thesis
    by (auto simp: two_def small_env_def request_def)
qed

text \<open>\<open>resize\<close>, \<open>chop\<close>, \<open>clear\<close> and \<open>pop_back\<close> end and do what they say: shrinking keeps the first elements and destroys each
  of the others once (\<open>resize\<close> from the back, \<open>chop\<close> from the front); growing appends copies of the
  value, or leaves the sequence alone when the allocation fails, which \<open>resize\<close> does not report.\<close>

theorem mem_root_array_resize:
  assumes "rep a xs" and "fits env (unat n)"
  shows "(\<exists>b. resize env n x a = Some b \<and>
            rep b (if length xs < unat n \<and> \<not> grants env n a then xs
                   else take (unat n) xs @ replicate (unat n - length xs) x) \<and>
            (unat n < length xs \<and> \<not> has_trivial_destructor env \<longrightarrow>
               destroyed b = destroyed a @ rev (drop (unat n) xs))) \<and>
         (unat n < length xs \<longrightarrow>
            (\<exists>b. chop env n a = Some b \<and> rep b (take (unat n) xs) \<and>
               destroyed b = destroyed a @ (if has_trivial_destructor env then [] else drop (unat n) xs))) \<and>
         (\<exists>b. clear env a = Some b \<and> rep b [] \<and>
            destroyed b = destroyed a @ (if has_trivial_destructor env then [] else xs)) \<and>
         (xs \<noteq> [] \<longrightarrow>
            (\<exists>b. pop_back env a = Some b \<and> rep b (butlast xs) \<and>
               destroyed b = destroyed a @ (if has_trivial_destructor env then [] else [last xs])))"
proof (intro conjI impI)
  consider "unat n < length xs" | "unat n = length xs" | "length xs < unat n" by linarith
  then show "\<exists>b. resize env n x a = Some b \<and>
            rep b (if length xs < unat n \<and> \<not> grants env n a then xs
                   else take (unat n) xs @ replicate (unat n - length xs) x) \<and>
            (unat n < length xs \<and> \<not> has_trivial_destructor env \<longrightarrow>
               destroyed b = destroyed a @ rev (drop (unat n) xs))"
  proof cases
    case 1
    then show ?thesis using resize_shrink [OF assms(1) 1, of env x] by auto
  next
    case 2
    then show ?thesis using rep_size_eq [OF assms(1) 2] assms(1) by (simp add: resize_def)
  next
    case 3
    then show ?thesis using resize_grow [OF assms(1) 3 assms(2), of x] by auto
  qed
next
  assume "unat n < length xs"
  then show "\<exists>b. chop env n a = Some b \<and> rep b (take (unat n) xs) \<and>
      destroyed b = destroyed a @ (if has_trivial_destructor env then [] else drop (unat n) xs)"
    using chop_rep [OF assms(1), of n env] by auto
next
  show "\<exists>b. clear env a = Some b \<and> rep b [] \<and>
      destroyed b = destroyed a @ (if has_trivial_destructor env then [] else xs)"
    by (rule clear_rep [OF assms(1)])
next
  assume "xs \<noteq> []"
  then show "\<exists>b. pop_back env a = Some b \<and> rep b (butlast xs) \<and>
      destroyed b = destroyed a @ (if has_trivial_destructor env then [] else [last xs])"
    using pop_back_rep [of a "butlast xs" "last xs" env] assms(1) by auto
qed

theorem mem_root_array_resize_witness:
  "(\<exists>b. resize small_env 1 9 two = Some b \<and> rep b [5] \<and> destroyed b = [6]) \<and>
   (\<exists>b. pop_back small_env two = Some b \<and> rep b [5] \<and> destroyed b = [6]) \<and>
   (\<exists>b. chop small_env 1 two = Some b \<and> rep b [5] \<and> destroyed b = [6])"
proof -
  have "fits small_env (unat (1 :: ulonglong))" by (simp add: fits_def small_env_def)
  from mem_root_array_resize [OF rep_two this, of 9] show ?thesis by (simp add: two_def small_env_def)
qed

text \<open>
  The product in \<open>reserve\<close> is not checked: for elements of 8 bytes the request for \<open>2 ^ 61 + 1\<close> of them asks for 8 bytes, so the
  capacity is \<open>2 ^ 61 + 1\<close> but the second \<open>push_back\<close> is outside the storage.
\<close>

lemma reserve_wraps:
  "do { (_, a) \<leftarrow> reserve wrap_env 2305843009213693953 (mra_construct ());
        (_, a) \<leftarrow> push_back wrap_env CHR ''a'' a;
        Some (mra_capacity a, mra_size a, push_back wrap_env CHR ''b'' a) } =
   Some (2305843009213693953, 1, None)"
  by (simp add: wrap_env_def reserve_def push_back_def mra_construct_def copy_loop.simps put_slot_def mra_capacity_def
      mra_size_def)

end
