(* ===== verification/Window_Func.thy ===== *)
theory Window_Func
  imports Complex_Main "HOL-Library.Signed_Division" Prelude
begin

text \<open>
  \<open>item_windowfunc.h\<close>: the window functions whose computation is in the header (\<open>ROW_NUMBER\<close>, \<open>CUME_DIST\<close>, \<open>NTILE\<close>,
  \<open>PERCENTILE_DISC\<close>, \<open>PERCENTILE_CONT\<close>, the inline parts of \<open>RANK\<close>, \<open>DENSE_RANK\<close> and \<open>PERCENT_RANK\<close>), the tracker of
  group borders, and \<open>Item_window_func\<close>, which evaluates them in three phases. A \<open>double\<close> is a real number, and every
  floating-point operation is the exact one followed by the rounding \<open>rnd\<close>, an argument of the definitions. The items a
  function reads from (its argument, the order expression of the current row, the result field) are their current
  values, with \<^const>\<open>None\<close> for SQL's NULL; \<open>Item_cache\<close> is the value it caches.
\<close>

section \<open>Group borders\<close>

record 'f group_bound_tracker =
  group_fields :: "'f list"
  first_check :: bool

definition gbt_init :: "'f group_bound_tracker \<Rightarrow> 'f group_bound_tracker" where
  "gbt_init t = t\<lparr>first_check := True\<rparr>"

text \<open>\<open>test_if_group_changed\<close>, declared in the header, compares the cached items with the current row and updates them.\<close>

definition check_if_next_group ::
  "('f list \<Rightarrow> 'r \<Rightarrow> int \<times> 'f list) \<Rightarrow> 'r \<Rightarrow> 'f group_bound_tracker \<Rightarrow> bool \<times> 'f group_bound_tracker" where
  "check_if_next_group test_if_group_changed row t =
     (let (idx, fs) = test_if_group_changed (group_fields t) row; t = t\<lparr>group_fields := fs\<rparr>
      in if idx > -1 \<or> first_check t then (True, t\<lparr>first_check := False\<rparr>) else (False, t))"

fun cmp_loop :: "('f \<Rightarrow> 'r \<Rightarrow> int) \<Rightarrow> 'r \<Rightarrow> 'f list \<Rightarrow> int" where
  "cmp_loop cmp_read_only row [] = 0"
| "cmp_loop cmp_read_only row (p # ps) =
     (let res = cmp_read_only p row in if res \<noteq> 0 then res else cmp_loop cmp_read_only row ps)"

definition compare_with_cache :: "('f \<Rightarrow> 'r \<Rightarrow> int) \<Rightarrow> 'r \<Rightarrow> 'f group_bound_tracker \<Rightarrow> int" where
  "compare_with_cache cmp_read_only row t = cmp_loop cmp_read_only row (group_fields t)"

section \<open>Row numbers and ranks\<close>

definition rn_clear :: ulonglong where "rn_clear = 0"
definition rn_add :: "ulonglong \<Rightarrow> ulonglong \<times> bool" where "rn_add n = (n + 1, False)"
definition rn_val_int :: "ulonglong \<Rightarrow> ulonglong" where "rn_val_int n = n"

record item_sum_rank =
  row_number :: ulonglong
  cur_rank :: ulonglong

definition rank_clear :: "item_sum_rank \<Rightarrow> item_sum_rank" where
  "rank_clear r = r\<lparr>cur_rank := 1, row_number := 0\<rparr>"

definition rank_val_int :: "item_sum_rank \<Rightarrow> ulonglong" where "rank_val_int r = cur_rank r"

record item_sum_dense_rank =
  dense_rank :: ulonglong
  first_add :: bool

definition dense_rank_clear :: "item_sum_dense_rank \<Rightarrow> item_sum_dense_rank" where
  "dense_rank_clear r = r\<lparr>dense_rank := 0, first_add := True\<rparr>"

definition dense_rank_val_int :: "item_sum_dense_rank \<Rightarrow> ulonglong" where "dense_rank_val_int r = dense_rank r"

section \<open>Row counts\<close>

type_synonym rounding = "real \<Rightarrow> real"

definition dbl :: "rounding \<Rightarrow> ulonglong \<Rightarrow> real" where
  "dbl rnd w = rnd (real (unat w))"

text \<open>The flag is the value assigned to \<open>null_value\<close>.\<close>

definition calc_val_real :: "rounding \<Rightarrow> ulonglong \<Rightarrow> ulonglong \<Rightarrow> bool \<times> real" where
  "calc_val_real rnd partition_row_count current_row_count =
     (if partition_row_count = 0 then (True, 0)
      else (False, rnd (dbl rnd current_row_count / dbl rnd partition_row_count)))"

text \<open>\<open>get_row_count\<close> returns the unsigned count as a \<open>longlong\<close>.\<close>

definition get_row_count :: "ulonglong \<Rightarrow> ulonglong" where "get_row_count n = n"

definition percent_rank_val_real :: "rounding \<Rightarrow> ulonglong \<Rightarrow> ulonglong \<Rightarrow> bool \<times> real" where
  "percent_rank_val_real rnd rk partition_row_count =
     (let partition_rows = get_row_count partition_row_count
      in (\<not> partition_rows > 0,
          if partition_rows > 1
          then rnd (rnd (real_of_int (sint (rk - 1))) / dbl rnd (partition_rows - 1)) else 0))"

record cume_dist =
  cd_current :: ulonglong
  cd_partition :: ulonglong

definition cume_dist_val_real :: "rounding \<Rightarrow> cume_dist \<Rightarrow> bool \<times> real" where
  "cume_dist_val_real rnd c = calc_val_real rnd (cd_partition c) (cd_current c)"

definition cume_dist_add :: "cume_dist \<Rightarrow> cume_dist \<times> bool" where
  "cume_dist_add c = (c\<lparr>cd_current := cd_current c + 1\<rparr>, False)"

definition cume_dist_clear :: "cume_dist \<Rightarrow> cume_dist" where
  "cume_dist_clear c = c\<lparr>cd_current := 0, cd_partition := 0\<rparr>"

definition cume_dist_set_partition_row_count :: "ulonglong \<Rightarrow> cume_dist \<Rightarrow> cume_dist" where
  "cume_dist_set_partition_row_count n c = c\<lparr>cd_partition := n\<rparr>"

section \<open>NTILE\<close>

record ntile =
  nt_current :: ulonglong
  nt_partition :: ulonglong
  n_old_val :: ulonglong
  nt_null :: bool

datatype window_error = ER_INVALID_NTILE_ARGUMENT | ER_ARGUMENT_OUT_OF_RANGE | ER_ARGUMENT_NOT_CONSTANT

text \<open>
  The returned number, with the error if one was raised; \<^const>\<open>None\<close> is a division by zero. The division of two
  \<open>longlong\<close>s is signed and truncates.
\<close>

definition ntile_val_int :: "ulonglong \<Rightarrow> ntile \<Rightarrow> ((window_error option \<times> ulonglong) \<times> ntile) option" where
  "ntile_val_int num_quantiles t =
     (if get_row_count (nt_partition t) = 0 then Some ((None, 0), t\<lparr>nt_null := True\<rparr>)
      else if sint num_quantiles \<le> 0 \<or> (num_quantiles \<noteq> n_old_val t \<and> n_old_val t > 0)
      then Some ((Some ER_INVALID_NTILE_ARGUMENT, 1), t)
      else
        let t = t\<lparr>n_old_val := num_quantiles, nt_null := False\<rparr>;
            quantile_size = word_of_int (sint (get_row_count (nt_partition t)) sdiv sint num_quantiles) :: ulonglong;
            extra_rows = get_row_count (nt_partition t) - quantile_size * num_quantiles
        in if nt_current t \<le> extra_rows * (quantile_size + 1)
           then if quantile_size + 1 = 0 then None
                else Some ((None, (nt_current t - 1) div (quantile_size + 1) + 1), t)
           else if quantile_size = 0 then None
                else Some ((None, (nt_current t - 1 - extra_rows) div quantile_size + 1), t))"

definition ntile_add :: "ntile \<Rightarrow> ntile \<times> bool" where
  "ntile_add t = (t\<lparr>nt_current := nt_current t + 1\<rparr>, False)"

definition ntile_clear :: "ntile \<Rightarrow> ntile" where
  "ntile_clear t = t\<lparr>nt_current := 0, nt_partition := 0, n_old_val := 0\<rparr>"

definition ntile_set_partition_row_count :: "ulonglong \<Rightarrow> ntile \<Rightarrow> ntile" where
  "ntile_set_partition_row_count n t = t\<lparr>nt_partition := n\<rparr>"

section \<open>PERCENTILE_DISC\<close>

record 'v percentile_disc =
  pd_value :: "'v option"
  pd_calculated :: bool
  pd_first_call :: bool
  pd_prev_value :: real
  pd_current :: ulonglong
  pd_partition :: ulonglong
  pd_null :: bool

text \<open>\<open>val_real\<close>, \<open>val_int\<close>, \<open>val_decimal\<close>, \<open>val_str\<close>, \<open>get_date\<close> and \<open>val_native\<close> share this body: NULL, or the cached value.\<close>

definition pd_val :: "real option \<Rightarrow> 'v percentile_disc \<Rightarrow> 'v option \<times> 'v percentile_disc" where
  "pd_val arg s =
     (if get_row_count (pd_partition s) = 0 \<or> arg = None then (None, s\<lparr>pd_null := True\<rparr>)
      else (pd_value s, s\<lparr>pd_null := False\<rparr>))"

text \<open>\<open>add\<close> for the current values of the argument and of the order expression; the result is the error, if it returns true.\<close>

definition pd_add ::
  "rounding \<Rightarrow> real option \<Rightarrow> 'v option \<Rightarrow> 'v percentile_disc \<Rightarrow> window_error option \<times> 'v percentile_disc" where
  "pd_add rnd arg order_item s =
     (case arg of None \<Rightarrow> (None, s)
      | Some arg_val \<Rightarrow>
          let s = (if pd_first_call s then s\<lparr>pd_prev_value := arg_val\<rparr> else s)
          in if pd_first_call s \<and> (pd_prev_value s > 1 \<or> pd_prev_value s < 0) then (Some ER_ARGUMENT_OUT_OF_RANGE, s)
             else
               let s = s\<lparr>pd_first_call := False\<rparr>
               in if pd_prev_value s \<noteq> arg_val then (Some ER_ARGUMENT_NOT_CONSTANT, s)
                  else if pd_calculated s then (None, s)
                  else
                    let s = s\<lparr>pd_value := order_item\<rparr>
                    in if order_item = None then (None, s)
                       else
                         let s = s\<lparr>pd_current := pd_current s + 1\<rparr>;
                             (nul, val) = calc_val_real rnd (pd_partition s) (pd_current s);
                             s = s\<lparr>pd_null := nul\<rparr>
                         in (None, if val \<ge> pd_prev_value s \<and> \<not> pd_calculated s then s\<lparr>pd_calculated := True\<rparr> else s))"

definition pd_clear :: "'v percentile_disc \<Rightarrow> 'v percentile_disc" where
  "pd_clear s = s\<lparr>pd_calculated := False, pd_first_call := True, pd_value := None, pd_partition := 0, pd_current := 0\<rparr>"

definition pd_set_partition_row_count :: "ulonglong \<Rightarrow> 'v percentile_disc \<Rightarrow> 'v percentile_disc" where
  "pd_set_partition_row_count n s = s\<lparr>pd_partition := n\<rparr>"

section \<open>PERCENTILE_CONT\<close>

record percentile_cont =
  floor_value :: "real option"
  ceil_value :: "real option"
  pc_first_call :: bool
  pc_prev_value :: real
  ceil_val_calculated :: bool
  floor_val_calculated :: bool
  pc_current :: ulonglong
  pc_partition :: ulonglong
  pc_null :: bool

text \<open>The row number \<open>1 + prev_value * (get_row_count() - 1)\<close>.\<close>

definition pc_row :: "rounding \<Rightarrow> percentile_cont \<Rightarrow> real" where
  "pc_row rnd s =
     rnd (1 + rnd (pc_prev_value s * rnd (real_of_int (sint (get_row_count (pc_partition s) - 1)))))"

text \<open>\<open>Item_cache::val_real\<close> of a null value is 0.\<close>

definition cache_val_real :: "real option \<Rightarrow> real" where
  "cache_val_real v = (case v of None \<Rightarrow> 0 | Some x \<Rightarrow> x)"

definition pc_val_real :: "rounding \<Rightarrow> real option \<Rightarrow> percentile_cont \<Rightarrow> real \<times> percentile_cont" where
  "pc_val_real rnd arg s =
     (if get_row_count (pc_partition s) = 0 \<or> arg = None then (0, s\<lparr>pc_null := True\<rparr>)
      else
        let s = s\<lparr>pc_null := False\<rparr>; val = pc_row rnd s
        in if \<lceil>val\<rceil> = \<lfloor>val\<rfloor> then (cache_val_real (floor_value s), s)
           else (rnd (rnd (rnd (val - of_int \<lfloor>val\<rfloor>) * cache_val_real (ceil_value s)) +
                      rnd (rnd (of_int \<lceil>val\<rceil> - val) * cache_val_real (floor_value s))), s))"

definition pc_add ::
  "rounding \<Rightarrow> real option \<Rightarrow> real option \<Rightarrow> percentile_cont \<Rightarrow> window_error option \<times> percentile_cont" where
  "pc_add rnd arg order_item s =
     (case arg of None \<Rightarrow> (None, s)
      | Some arg_val \<Rightarrow>
          let first = pc_first_call s;
              s = (if first then s\<lparr>pc_first_call := False, pc_prev_value := arg_val\<rparr> else s)
          in if first \<and> (pc_prev_value s > 1 \<or> pc_prev_value s < 0) then (Some ER_ARGUMENT_OUT_OF_RANGE, s)
             else if pc_prev_value s \<noteq> arg_val then (Some ER_ARGUMENT_NOT_CONSTANT, s)
             else
               let s = (if \<not> floor_val_calculated s then s\<lparr>floor_value := order_item\<rparr> else s)
               in if \<not> floor_val_calculated s \<and> order_item = None then (None, s)
                  else
                    let ceil_turn = (floor_val_calculated s \<and> \<not> ceil_val_calculated s);
                        s = (if ceil_turn then s\<lparr>ceil_value := order_item\<rparr> else s)
                    in if ceil_turn \<and> order_item = None then (None, s)
                       else
                         let s = s\<lparr>pc_current := pc_current s + 1\<rparr>;
                             val = pc_row rnd s;
                             s = (if \<not> floor_val_calculated s \<and> dbl rnd (pc_current s) = of_int \<lfloor>val\<rfloor>
                                  then s\<lparr>floor_val_calculated := True\<rparr> else s);
                             s = (if \<not> ceil_val_calculated s \<and> dbl rnd (pc_current s) = of_int \<lceil>val\<rceil>
                                  then s\<lparr>ceil_val_calculated := True\<rparr> else s)
                         in (None, s))"

definition pc_clear :: "percentile_cont \<Rightarrow> percentile_cont" where
  "pc_clear s = s\<lparr>pc_first_call := True, floor_value := None, ceil_value := None,
     floor_val_calculated := False, ceil_val_calculated := False, pc_partition := 0, pc_current := 0\<rparr>"

definition pc_set_partition_row_count :: "ulonglong \<Rightarrow> percentile_cont \<Rightarrow> percentile_cont" where
  "pc_set_partition_row_count n s = s\<lparr>pc_partition := n\<rparr>"

section \<open>Evaluation in three phases\<close>

datatype sumfunctype =
    COUNT_FUNC | COUNT_DISTINCT_FUNC | SUM_FUNC | SUM_DISTINCT_FUNC | AVG_FUNC
  | AVG_DISTINCT_FUNC | MIN_FUNC | MAX_FUNC | STD_FUNC
  | VARIANCE_FUNC | SUM_BIT_FUNC | UDF_SUM_FUNC | GROUP_CONCAT_FUNC
  | ROW_NUMBER_FUNC | RANK_FUNC | DENSE_RANK_FUNC | PERCENT_RANK_FUNC
  | CUME_DIST_FUNC | NTILE_FUNC | FIRST_VALUE_FUNC | LAST_VALUE_FUNC
  | NTH_VALUE_FUNC | LEAD_FUNC | LAG_FUNC | PERCENTILE_CONT_FUNC
  | PERCENTILE_DISC_FUNC | SP_AGGREGATE_FUNC | JSON_ARRAYAGG_FUNC
  | JSON_OBJECTAGG_FUNC

definition is_frame_prohibited :: "sumfunctype \<Rightarrow> bool" where
  "is_frame_prohibited f \<longleftrightarrow>
     f \<in> {ROW_NUMBER_FUNC, RANK_FUNC, DENSE_RANK_FUNC, PERCENT_RANK_FUNC, CUME_DIST_FUNC, NTILE_FUNC,
          PERCENTILE_CONT_FUNC, PERCENTILE_DISC_FUNC}"

definition requires_special_cursors :: "sumfunctype \<Rightarrow> bool" where
  "requires_special_cursors f \<longleftrightarrow> f \<in> {FIRST_VALUE_FUNC, LAST_VALUE_FUNC, NTH_VALUE_FUNC, LAG_FUNC, LEAD_FUNC}"

definition requires_partition_size :: "sumfunctype \<Rightarrow> bool" where
  "requires_partition_size f \<longleftrightarrow>
     f \<in> {PERCENT_RANK_FUNC, CUME_DIST_FUNC, NTILE_FUNC, PERCENTILE_CONT_FUNC, PERCENTILE_DISC_FUNC}"

definition requires_peer_size :: "sumfunctype \<Rightarrow> bool" where
  "requires_peer_size f \<longleftrightarrow> f \<in> {CUME_DIST_FUNC}"

definition is_order_list_mandatory :: "sumfunctype \<Rightarrow> bool" where
  "is_order_list_mandatory f \<longleftrightarrow>
     f \<in> {RANK_FUNC, DENSE_RANK_FUNC, PERCENT_RANK_FUNC, CUME_DIST_FUNC, LAG_FUNC, LEAD_FUNC,
          PERCENTILE_CONT_FUNC, PERCENTILE_DISC_FUNC}"

definition only_single_element_order_list :: "sumfunctype \<Rightarrow> bool" where
  "only_single_element_order_list f \<longleftrightarrow> f \<in> {PERCENTILE_CONT_FUNC, PERCENTILE_DISC_FUNC}"

record window_item =
  force_return_blank :: bool
  read_value_from_result_field :: bool
  null_value :: bool

definition window_item_construct :: "window_item" where
  "window_item_construct = \<lparr>force_return_blank = True, read_value_from_result_field = False, null_value = False\<rparr>"

definition set_phase_to_initial :: "window_item \<Rightarrow> window_item" where
  "set_phase_to_initial w = w\<lparr>force_return_blank := True, read_value_from_result_field := False\<rparr>"

definition set_phase_to_computation :: "window_item \<Rightarrow> window_item" where
  "set_phase_to_computation w = w\<lparr>force_return_blank := False, read_value_from_result_field := False\<rparr>"

definition set_phase_to_retrieval :: "window_item \<Rightarrow> window_item" where
  "set_phase_to_retrieval w = w\<lparr>force_return_blank := False, read_value_from_result_field := True\<rparr>"

text \<open>
  What the result field and the window function return: a value and the null flag. For a null field, the methods that return
  pointers do not read the value.
\<close>

type_synonym 'a source = "'a \<times> bool"

definition wf_is_null :: "'a source \<Rightarrow> 'a source \<Rightarrow> window_item \<Rightarrow> bool" where
  "wf_is_null field func w =
     (if force_return_blank w then True
      else if read_value_from_result_field w then snd field else snd func)"

definition wf_val_real :: "real source \<Rightarrow> real source \<Rightarrow> window_item \<Rightarrow> real \<times> window_item" where
  "wf_val_real field func w =
     (if force_return_blank w then (0, w\<lparr>null_value := True\<rparr>)
      else if read_value_from_result_field w then (fst field, w\<lparr>null_value := snd field\<rparr>)
      else (fst func, w\<lparr>null_value := snd func\<rparr>))"

definition wf_val_int :: "ulonglong source \<Rightarrow> ulonglong source \<Rightarrow> window_item \<Rightarrow> ulonglong \<times> window_item" where
  "wf_val_int field func w =
     (if force_return_blank w then (0, w\<lparr>null_value := True\<rparr>)
      else if read_value_from_result_field w then (fst field, w\<lparr>null_value := snd field\<rparr>)
      else (fst func, w\<lparr>null_value := snd func\<rparr>))"

definition wf_val_str :: "string source \<Rightarrow> string option source \<Rightarrow> window_item \<Rightarrow> string option \<times> window_item" where
  "wf_val_str field func w =
     (if force_return_blank w then (None, w\<lparr>null_value := True\<rparr>)
      else if read_value_from_result_field w
      then (if snd field then None else Some (fst field), w\<lparr>null_value := snd field\<rparr>)
      else (fst func, w\<lparr>null_value := snd func\<rparr>))"

definition wf_val_decimal :: "'d source \<Rightarrow> 'd option source \<Rightarrow> window_item \<Rightarrow> 'd option \<times> window_item" where
  "wf_val_decimal field func w =
     (if force_return_blank w then (None, w\<lparr>null_value := True\<rparr>)
      else if read_value_from_result_field w
      then (if snd field then None else Some (fst field), w\<lparr>null_value := snd field\<rparr>)
      else (fst func, w\<lparr>null_value := snd func\<rparr>))"

text \<open>\<open>get_date\<close> returns true for an error; the sources return their own error flag.\<close>

definition wf_get_date :: "bool source \<Rightarrow> bool source \<Rightarrow> window_item \<Rightarrow> bool \<times> window_item" where
  "wf_get_date field func w =
     (if force_return_blank w then (True, w\<lparr>null_value := True\<rparr>)
      else if read_value_from_result_field w
      then (if snd field then True else fst field, w\<lparr>null_value := snd field\<rparr>)
      else (fst func, w\<lparr>null_value := snd func\<rparr>))"

section \<open>NTILE: buckets of almost equal size\<close>

definition ntile_nat :: "nat \<Rightarrow> nat \<Rightarrow> nat \<Rightarrow> nat" where
  "ntile_nat n q r =
     (let s = n div q; e = n mod q
      in if r \<le> e * (s + 1) then (r - 1) div (s + 1) + 1 else (r - 1 - e) div s + 1)"

text \<open>The number of rows in the buckets before bucket \<open>b\<close>.\<close>

definition rows_before :: "nat \<Rightarrow> nat \<Rightarrow> nat \<Rightarrow> nat" where
  "rows_before n q b = (b - 1) * (n div q) + min (b - 1) (n mod q)"

lemma div_eq_iff_bounds: "0 < s \<Longrightarrow> x div s = k \<longleftrightarrow> k * s \<le> x \<and> x < (k + 1) * s" for x s k :: nat
  by (metis Suc_eq_plus1 div_nat_eqI dividend_less_div_times div_times_less_eq_dividend mult.commute mult_Suc)

lemma ntile_nat_bucket:
  assumes "0 < q" "1 \<le> r" "r \<le> n" "1 \<le> b" "b \<le> q"
  shows "ntile_nat n q r = b \<longleftrightarrow> rows_before n q b < r \<and> r \<le> rows_before n q (b + 1)"
proof -
  define s e where "s = n div q" and "e = n mod q"
  have n: "n = q * s + e" "e < q" using assms by (simp_all add: s_def e_def)
  obtain c where c: "b = Suc c" using assms(4) by (cases b) auto
  obtain t where t: "r = Suc t" using assms(2) by (cases r) auto
  have lo: "rows_before n q b = c * s + min c e" "rows_before n q (b + 1) = b * s + min b e"
    by (simp_all add: rows_before_def s_def e_def c)
  show ?thesis
  proof (cases "r \<le> e * (s + 1)")
    case True
    have eq: "ntile_nat n q r = b \<longleftrightarrow> c * (s + 1) \<le> t \<and> t < b * (s + 1)"
      using True div_eq_iff_bounds [of "s + 1" t c] by (simp add: ntile_nat_def Let_def s_def e_def t c)
    show ?thesis
    proof (cases "b \<le> e")
      case True
      then show ?thesis unfolding eq lo by (auto simp: t c algebra_simps)
    next
      case False
      then have "e * (s + 1) \<le> c * (s + 1)" "e * s \<le> c * s" by (intro mult_le_mono1, simp add: c)+
      moreover have "e * (s + 1) = e * s + e" by simp
      ultimately have "\<not> c * (s + 1) \<le> t" "\<not> c * s + e < r" using \<open>r \<le> e * (s + 1)\<close> t by linarith+
      moreover have "min c e = e" using False by (simp add: c)
      ultimately show ?thesis unfolding eq lo by simp
    qed
  next
    case False
    have "0 < s"
    proof (rule ccontr)
      assume "\<not> 0 < s"
      then show False using False n assms(3) by simp
    qed
    have te: "e * (s + 1) \<le> t" using False t by simp
    have eq: "ntile_nat n q r = b \<longleftrightarrow> c * s \<le> t - e \<and> t - e < b * s"
      using False div_eq_iff_bounds [OF \<open>0 < s\<close>, of "t - e" c] by (simp add: ntile_nat_def Let_def s_def e_def t c)
    show ?thesis
    proof (cases "b \<le> e")
      case True
      then have "b * s \<le> e * s" "b * (s + 1) \<le> e * (s + 1)" by (intro mult_le_mono1, simp)+
      moreover have "e * (s + 1) = e * s + e" "b * (s + 1) = b * s + b" by simp_all
      ultimately have "\<not> t - e < b * s" "\<not> r \<le> b * s + b" using te t by linarith+
      then show ?thesis using True unfolding eq lo by simp
    next
      case False
      have "e \<le> t" using te by simp
      then show ?thesis using False unfolding eq lo by (auto simp: t c min_def)
    qed
  qed
qed

lemma rows_before_mono: "b \<le> c \<Longrightarrow> rows_before n q b \<le> rows_before n q c"
  unfolding rows_before_def by (intro add_mono mult_le_mono1 min.mono) simp_all

lemma rows_before_last: "0 < q \<Longrightarrow> rows_before n q (q + 1) = n"
proof -
  assume "0 < q"
  then have "min q (n mod q) = n mod q" by (simp add: less_imp_le)
  then show ?thesis by (simp add: rows_before_def)
qed

lemma ntile_nat_size:
  assumes "0 < q" "1 \<le> b" "b \<le> q"
  shows "card {r. 1 \<le> r \<and> r \<le> n \<and> ntile_nat n q r = b} = n div q + of_bool (b \<le> n mod q)"
proof -
  have "rows_before n q (b + 1) \<le> n" using rows_before_mono [of "b + 1" "q + 1" n q] rows_before_last assms by simp
  then have iff: "1 \<le> r \<and> r \<le> n \<and> ntile_nat n q r = b \<longleftrightarrow> r \<in> {rows_before n q b <.. rows_before n q (b + 1)}" for r
    using ntile_nat_bucket [OF assms(1) _ _ assms(2,3), of r n] unfolding greaterThanAtMost_iff by linarith
  have "{r. 1 \<le> r \<and> r \<le> n \<and> ntile_nat n q r = b} = {rows_before n q b <.. rows_before n q (b + 1)}"
    unfolding iff by (rule Collect_mem_eq)
  then have "card {r. 1 \<le> r \<and> r \<le> n \<and> ntile_nat n q r = b} = rows_before n q (b + 1) - rows_before n q b"
    by (simp only: card_greaterThanAtMost)
  moreover have "Suc c * s + min (Suc c) e - (c * s + min c e) = s + of_bool (Suc c \<le> e)" for c s e :: nat
    by (cases "Suc c \<le> e") simp_all
  moreover obtain c where "b = Suc c" using assms(2) by (cases b) auto
  ultimately show ?thesis by (simp only: rows_before_def diff_Suc_1 add_Suc_right Suc_eq_plus1 [symmetric] add_0_right)
qed

lemma ntile_nat_range:
  assumes "0 < q" "1 \<le> r" "r \<le> n"
  shows "1 \<le> ntile_nat n q r \<and> ntile_nat n q r \<le> q"
proof -
  define s e where "s = n div q" and "e = n mod q"
  have n: "n = q * s + e" "e < q" using assms by (simp_all add: s_def e_def)
  have "ntile_nat n q r \<le> q"
  proof (cases "r \<le> e * (s + 1)")
    case True
    then have "r - 1 < e * (s + 1)" using assms(2) by linarith
    then have "(r - 1) div (s + 1) < e" by (rule less_mult_imp_div_less)
    then show ?thesis using True n(2) by (simp add: ntile_nat_def Let_def s_def e_def)
  next
    case False
    have "e \<le> r - 1" using False by simp
    then have "r - 1 - e < q * s" using assms n by linarith
    then have "(r - 1 - e) div s < q" by (rule less_mult_imp_div_less)
    then show ?thesis using False by (simp add: ntile_nat_def Let_def s_def e_def)
  qed
  then show ?thesis by (simp add: ntile_nat_def Let_def)
qed

lemma ntile_nat_mono:
  assumes "0 < q" "1 \<le> r" "r \<le> r'" "r' \<le> n"
  shows "ntile_nat n q r \<le> ntile_nat n q r'"
proof (rule ccontr)
  let ?b = "ntile_nat n q r" and ?c = "ntile_nat n q r'"
  assume "\<not> ?b \<le> ?c"
  have b: "1 \<le> ?b" "?b \<le> q" "1 \<le> ?c" "?c \<le> q" using ntile_nat_range assms by auto
  have "rows_before n q ?b < r" "r' \<le> rows_before n q (?c + 1)"
    using ntile_nat_bucket [of q r n ?b] ntile_nat_bucket [of q r' n ?c] b assms by auto
  moreover have "rows_before n q (?c + 1) \<le> rows_before n q ?b"
    using \<open>\<not> ?b \<le> ?c\<close> by (intro rows_before_mono) simp
  ultimately show False using assms by simp
qed

text \<open>The machine arithmetic of \<open>val_int\<close> does not wrap around.\<close>

lemma word_nat_sdiv:
  fixes n q :: ulonglong
  assumes "unat n < 2 ^ 63" "unat q < 2 ^ 63"
  shows "(word_of_int (sint n sdiv sint q) :: ulonglong) = of_nat (unat n div unat q)"
proof -
  have "int a sdiv int b = int (a div b)" for a b :: nat
    by (auto simp: signed_divide_int_def zdiv_int sgn_if)
  then have "sint n sdiv sint q = int (unat n div unat q)"
    unfolding sint_unat [OF assms(1)] sint_unat [OF assms(2)] .
  then show ?thesis by simp
qed

lemma ntile_word:
  assumes n: "0 < unat (nt_partition t)" "unat (nt_partition t) < 2 ^ 63" and q: "0 < unat num_quantiles" "unat num_quantiles < 2 ^ 63"
    and r: "1 \<le> unat (nt_current t)" "unat (nt_current t) \<le> unat (nt_partition t)"
    and old: "n_old_val t = 0 \<or> n_old_val t = num_quantiles"
  shows "\<exists>v. ntile_val_int num_quantiles t = Some ((None, v), t\<lparr>n_old_val := num_quantiles, nt_null := False\<rparr>) \<and>
             unat v = ntile_nat (unat (nt_partition t)) (unat num_quantiles) (unat (nt_current t))"
proof -
  define N Q R where "N = unat (nt_partition t)" and "Q = unat num_quantiles" and "R = unat (nt_current t)"
  note NQR = N_def [symmetric] Q_def [symmetric] R_def [symmetric]
  define s e where "s = N div Q" and "e = N mod Q"
  have ne: "N = s * Q + e" and eQ: "e < Q" using q by (simp_all add: s_def e_def Q_def)
  have sN: "s \<le> N" by (simp add: s_def)
  have big: "N < 2 ^ 63" "Q < 2 ^ 63" "1 \<le> R" "R \<le> N" using assms by (simp_all add: NQR)
  define S where "S = (word_of_int (sint (nt_partition t) sdiv sint num_quantiles) :: ulonglong)"
  have "unat S = s" unfolding S_def word_nat_sdiv [OF n(2) q(2)] NQR s_def [symmetric]
    using sN big by (simp add: unsigned_of_nat take_bit_nat_eq_self)
  define E where "E = nt_partition t - S * num_quantiles"
  have "s * Q \<le> N" using ne by simp
  then have SQ: "unat (S * num_quantiles) = s * Q" using \<open>unat S = s\<close> big by (simp add: unat_word_ariths NQR)
  then have "unat E = e" unfolding E_def using \<open>s * Q \<le> N\<close> ne by (simp add: unat_sub_if_size word_le_nat_alt NQR)
  have S1: "unat (S + 1) = s + 1" using \<open>unat S = s\<close> sN big by (simp add: unat_word_ariths)
  have "e * (s + 1) \<le> N"
  proof -
    have "e * s \<le> Q * s" using eQ by (intro mult_le_mono1) simp
    then show ?thesis using ne by (simp add: mult.commute)
  qed
  then have ES: "unat (E * (S + 1)) = e * (s + 1)" using S1 \<open>unat E = e\<close> big by (simp add: unat_word_ariths)
  have R1: "unat (nt_current t - 1) = R - 1" using unat_minus_1 [of "nt_current t"] big by (simp add: NQR)
  have cond: "nt_current t \<le> E * (S + 1) \<longleftrightarrow> R \<le> e * (s + 1)" by (simp only: word_le_nat_alt ES NQR)
  have nz: "S + 1 \<noteq> 0" using S1 by auto
  have "\<not> sint num_quantiles \<le> 0" unfolding sint_unat [OF q(2)] using q(1) by linarith
  moreover have "nt_partition t \<noteq> 0" "\<not> (num_quantiles \<noteq> n_old_val t \<and> n_old_val t > 0)" using n old by auto
  ultimately have guard: "nt_partition t \<noteq> 0" "\<not> sint num_quantiles \<le> 0"
    "\<not> (num_quantiles \<noteq> n_old_val t \<and> n_old_val t > 0)" by simp_all
  show ?thesis
  proof (cases "R \<le> e * (s + 1)")
    case True
    have "(R - 1) div (s + 1) \<le> R" by (meson diff_le_self div_le_dividend le_trans)
    then have "unat ((nt_current t - 1) div (S + 1) + 1) = (R - 1) div (s + 1) + 1"
      using R1 S1 big by (simp add: unat_word_ariths unat_div_distrib)
    then show ?thesis using True guard cond nz
      by (simp add: ntile_val_int_def get_row_count_def Let_def ntile_nat_def NQR S_def [symmetric] E_def [symmetric] s_def e_def)
  next
    case False
    have "0 < s" using False ne big by (cases "s = 0") simp_all
    then have "S \<noteq> 0" using \<open>unat S = s\<close> by auto
    have "e \<le> R - 1" using False by simp
    then have "unat (nt_current t - 1 - E) = R - 1 - e"
      using R1 \<open>unat E = e\<close> by (simp add: unat_sub_if_size word_le_nat_alt)
    moreover have "(R - 1 - e) div s \<le> R" by (meson diff_le_self div_le_dividend le_trans)
    ultimately have "unat ((nt_current t - 1 - E) div S + 1) = (R - 1 - e) div s + 1"
      using \<open>unat S = s\<close> big by (simp add: unat_word_ariths unat_div_distrib)
    then show ?thesis using False guard cond \<open>S \<noteq> 0\<close>
      by (simp add: ntile_val_int_def get_row_count_def Let_def ntile_nat_def NQR S_def [symmetric] E_def [symmetric] s_def e_def)
  qed
qed

section \<open>Percentiles\<close>

text \<open>Adding the rows of a partition, for a constant argument, until an error.\<close>

fun pd_adds ::
  "rounding \<Rightarrow> real option \<Rightarrow> 'v option list \<Rightarrow> 'v percentile_disc \<Rightarrow> window_error option \<times> 'v percentile_disc" where
  "pd_adds rnd arg [] s = (None, s)"
| "pd_adds rnd arg (r # rs) s =
     (case pd_add rnd arg r s of (Some e, s) \<Rightarrow> (Some e, s) | (None, s) \<Rightarrow> pd_adds rnd arg rs s)"

fun pc_adds ::
  "rounding \<Rightarrow> real option \<Rightarrow> real option list \<Rightarrow> percentile_cont \<Rightarrow> window_error option \<times> percentile_cont" where
  "pc_adds rnd arg [] s = (None, s)"
| "pc_adds rnd arg (r # rs) s =
     (case pc_add rnd arg r s of (Some e, s) \<Rightarrow> (Some e, s) | (None, s) \<Rightarrow> pc_adds rnd arg rs s)"

text \<open>The values that are not NULL.\<close>

fun somes :: "'v option list \<Rightarrow> 'v list" where
  "somes [] = []"
| "somes (None # rs) = somes rs"
| "somes (Some v # rs) = v # somes rs"

text \<open>The cumulative distribution after \<open>j\<close> of \<open>N\<close> rows: the quotient of the two real numbers, with the rounding of \<open>double\<close> after each conversion and after the division.\<close>

definition cume :: "rounding \<Rightarrow> nat \<Rightarrow> nat \<Rightarrow> real" where
  "cume rnd N j = rnd (rnd (real j) / rnd (real N))"

lemma pd_first_call_same: "\<not> pd_first_call s \<Longrightarrow> s\<lparr>pd_first_call := False\<rparr> = s"
  by (cases s) simp

lemma pd_adds_done:
  "pd_calculated s \<Longrightarrow> \<not> pd_first_call s \<Longrightarrow> pd_prev_value s = p \<Longrightarrow> pd_adds rnd (Some p) rs s = (None, s)"
  by (induction rs) (simp_all add: pd_add_def Let_def pd_first_call_same)

lemma pd_add_Some:
  assumes "\<not> pd_calculated s" "pd_first_call s \<or> pd_prev_value s = p" "0 \<le> p" "p \<le> 1"
    and "pd_current s = of_nat m" "pd_partition s = of_nat N" "N < 2 ^ 64" "m < N"
  shows "\<exists>s'. pd_add rnd (Some p) (Some v) s = (None, s') \<and> pd_value s' = Some v \<and> \<not> pd_first_call s' \<and> pd_prev_value s' = p \<and>
           pd_current s' = of_nat (Suc m) \<and> pd_partition s' = of_nat N \<and> (pd_calculated s' \<longleftrightarrow> p \<le> cume rnd N (Suc m))"
proof -
  have u: "unat (of_nat N :: ulonglong) = N" "unat (of_nat m + 1 :: ulonglong) = Suc m"
    using assms(7,8) by (simp_all add: unat_of_nat unat_word_ariths)
  then have "(of_nat N :: ulonglong) \<noteq> 0" using assms(8) by (metis less_nat_zero_code unat_0)
  then have "calc_val_real rnd (of_nat N) (of_nat m + 1) = (False, cume rnd N (Suc m))"
    using u by (simp add: calc_val_real_def dbl_def cume_def)
  then show ?thesis using assms by (auto simp: pd_add_def Let_def add.commute)
qed

lemma pd_add_None:
  assumes "\<not> pd_calculated s" "pd_first_call s \<or> pd_prev_value s = p" "0 \<le> p" "p \<le> 1"
  shows "\<exists>s'. pd_add rnd (Some p) None s = (None, s') \<and> \<not> pd_first_call s' \<and> pd_prev_value s' = p \<and>
           pd_current s' = pd_current s \<and> pd_partition s' = pd_partition s \<and> \<not> pd_calculated s'"
  using assms by (auto simp: pd_add_def Let_def)

lemma pd_adds_search:
  assumes "\<not> pd_calculated s" "pd_first_call s \<or> pd_prev_value s = p" "0 \<le> p" "p \<le> 1"
    and "pd_current s = of_nat m" "pd_partition s = of_nat N" "N < 2 ^ 64" "m + length (somes rs) \<le> N"
  shows "\<exists>s'. pd_adds rnd (Some p) rs s = (None, s') \<and> pd_partition s' = of_nat N \<and>
           ((\<exists>k < length (somes rs). pd_value s' = Some (somes rs ! k) \<and> p \<le> cume rnd N (Suc (m + k)) \<and>
               (\<forall>j < k. cume rnd N (Suc (m + j)) < p)) \<or>
            (\<forall>j < length (somes rs). cume rnd N (Suc (m + j)) < p))"
  using assms
proof (induction rs arbitrary: s m)
  case Nil
  then show ?case by simp
next
  case (Cons r rs)
  show ?case
  proof (cases r)
    case None
    obtain s1 where s1: "pd_add rnd (Some p) None s = (None, s1)" "\<not> pd_first_call s1" "pd_prev_value s1 = p"
      "pd_current s1 = pd_current s" "pd_partition s1 = pd_partition s" "\<not> pd_calculated s1"
      using pd_add_None [OF Cons.prems(1-4), of rnd] by blast
    then show ?thesis using Cons.IH [of s1 m] Cons.prems None by simp
  next
    case (Some v)
    obtain s1 where s1: "pd_add rnd (Some p) (Some v) s = (None, s1)" "pd_value s1 = Some v" "\<not> pd_first_call s1"
      "pd_prev_value s1 = p" "pd_current s1 = of_nat (Suc m)" "pd_partition s1 = of_nat N"
      "pd_calculated s1 \<longleftrightarrow> p \<le> cume rnd N (Suc m)"
      using pd_add_Some [OF Cons.prems(1-7), of rnd v] Cons.prems(8) Some by auto
    show ?thesis
    proof (cases "p \<le> cume rnd N (Suc m)")
      case True
      then show ?thesis using Some s1 pd_adds_done [of s1 p rnd rs] by (auto intro!: exI [of _ 0])
    next
      case False
      then obtain s' where s': "pd_adds rnd (Some p) rs s1 = (None, s')" "pd_partition s' = of_nat N"
        and alt: "(\<exists>k < length (somes rs). pd_value s' = Some (somes rs ! k) \<and> p \<le> cume rnd N (Suc (Suc m + k)) \<and>
               (\<forall>j < k. cume rnd N (Suc (Suc m + j)) < p)) \<or>
            (\<forall>j < length (somes rs). cume rnd N (Suc (Suc m + j)) < p)"
        using Cons.IH [of s1 "Suc m"] s1 Cons.prems Some by auto
      have ext: "cume rnd N (Suc (m + j)) < p" if "j < Suc k" "\<forall>j < k. cume rnd N (Suc (Suc m + j)) < p" for j k
        using that False by (cases j) auto
      from alt show ?thesis
      proof (elim disjE exE conjE)
        fix k assume k: "k < length (somes rs)" "pd_value s' = Some (somes rs ! k)" "p \<le> cume rnd N (Suc (Suc m + k))"
          "\<forall>j < k. cume rnd N (Suc (Suc m + j)) < p"
        have "\<exists>k' < length (somes (r # rs)). pd_value s' = Some (somes (r # rs) ! k') \<and> p \<le> cume rnd N (Suc (m + k')) \<and>
            (\<forall>j < k'. cume rnd N (Suc (m + j)) < p)"
          using k ext Some by (intro exI [of _ "Suc k"]) auto
        then show ?thesis using Some s1 s' by auto
      next
        assume "\<forall>j < length (somes rs). cume rnd N (Suc (Suc m + j)) < p"
        then have "\<forall>j < length (somes (r # rs)). cume rnd N (Suc (m + j)) < p" using ext Some by auto
        then show ?thesis using Some s1 s' by auto
      qed
    qed
  qed
qed

lemma cume_last:
  assumes "mono rnd" "rnd 1 = 1" "0 < N"
  shows "cume rnd N N = 1"
proof -
  have "1 \<le> real N" using assms(3) by linarith
  then have "rnd 1 \<le> rnd (real N)" by (rule monoD [OF assms(1)])
  then have "rnd (real N) \<noteq> 0" using assms(2) by simp
  then show ?thesis using assms(2) by (simp add: cume_def)
qed

lemma pd_adds_out_of_range:
  assumes "pd_first_call s" "p < 0 \<or> 1 < p"
  shows "fst (pd_adds rnd (Some p) (r # rs) s) = Some ER_ARGUMENT_OUT_OF_RANGE"
  using assms by (auto simp: pd_add_def Let_def)

text \<open>The invariant of \<open>PERCENTILE_CONT\<close> after the values \<open>ws\<close>, for the rows \<open>f\<close> and \<open>c\<close> below and above the wanted one.\<close>

definition pc_inv :: "ulonglong \<Rightarrow> real \<Rightarrow> nat \<Rightarrow> nat \<Rightarrow> real list \<Rightarrow> percentile_cont \<Rightarrow> bool" where
  "pc_inv N p f c ws s \<longleftrightarrow>
     pc_partition s = N \<and> (if pc_first_call s then ws = [] else pc_prev_value s = p) \<and>
     (\<not> ceil_val_calculated s \<longrightarrow> pc_current s = of_nat (length ws)) \<and>
     (floor_val_calculated s \<longleftrightarrow> f \<le> length ws) \<and> (ceil_val_calculated s \<longleftrightarrow> c \<le> length ws) \<and>
     (f \<le> length ws \<longrightarrow> floor_value s = Some (ws ! (f - 1))) \<and>
     (c \<le> length ws \<and> f < c \<longrightarrow> ceil_value s = Some (ws ! (c - 1)))"

definition row_at :: "rounding \<Rightarrow> ulonglong \<Rightarrow> real \<Rightarrow> real" where
  "row_at rnd N p = rnd (1 + rnd (p * rnd (real_of_int (sint (N - 1)))))"

lemma pc_row_eq: "pc_partition s = N \<Longrightarrow> pc_prev_value s = p \<Longrightarrow> pc_row rnd s = row_at rnd N p"
  by (simp add: pc_row_def row_at_def get_row_count_def)

lemma row_at_bounds:
  assumes rnd: "mono rnd" "\<And>k. k \<le> unat N \<Longrightarrow> rnd (real k) = real k"
    and N: "0 < unat N" "unat N < 2 ^ 63" and p: "0 \<le> p" "p \<le> 1"
  shows "1 \<le> row_at rnd N p \<and> row_at rnd N p \<le> real (unat N)"
proof -
  have N1: "unat (N - 1) = unat N - 1" using N(1) by (rule unat_minus_1)
  then have "sint (N - 1) = int (unat N - 1)" using sint_unat [of "N - 1"] N(2) by simp
  then have r1: "rnd (real_of_int (sint (N - 1))) = real (unat N - 1)" using rnd(2) [of "unat N - 1"] by simp
  have "rnd (p * real (unat N - 1)) \<le> rnd (real (unat N - 1))"
    using p by (intro monoD [OF rnd(1)]) (simp add: mult_left_le_one_le)
  then have up: "rnd (p * real (unat N - 1)) \<le> real (unat N - 1)" using rnd(2) [of "unat N - 1"] by simp
  have "rnd (real 0) \<le> rnd (p * real (unat N - 1))" using p by (intro monoD [OF rnd(1)]) simp
  then have lo: "0 \<le> rnd (p * real (unat N - 1))" using rnd(2) [of 0] by simp
  have "1 + rnd (p * real (unat N - 1)) \<le> real (unat N)" using up N(1) by (simp add: of_nat_diff)
  then have "rnd (1 + rnd (p * real (unat N - 1))) \<le> rnd (real (unat N))" by (rule monoD [OF rnd(1)])
  then have "rnd (1 + rnd (p * real (unat N - 1))) \<le> real (unat N)" unfolding rnd(2) [OF le_refl] .
  moreover have "rnd (real 1) \<le> rnd (1 + rnd (p * real (unat N - 1)))" using lo by (intro monoD [OF rnd(1)]) simp
  moreover have "rnd (real 1) = 1" using rnd(2) [of 1] N(1) by simp
  ultimately show ?thesis unfolding row_at_def r1 by simp
qed

lemma pc_add_value:
  assumes inv: "pc_inv N p f c ws s" and p: "0 \<le> p" "p \<le> 1" and len: "length ws < unat N"
    and fc: "\<lfloor>row_at rnd N p\<rfloor> = int f" "\<lceil>row_at rnd N p\<rceil> = int c" "1 \<le> f" "f \<le> c" "c \<le> f + 1"
    and exact: "\<And>k. k \<le> unat N \<Longrightarrow> rnd (real k) = real k"
  shows "\<exists>s'. pc_add rnd (Some p) (Some v) s = (None, s') \<and> pc_inv N p f c (ws @ [v]) s'"
proof -
  have "unat (of_nat (Suc (length ws)) :: ulonglong) = Suc (length ws)"
    using len unat_bound [of N] unfolding unat_of_nat by (intro mod_less) simp
  then have cur: "dbl rnd (of_nat (length ws) + 1) = real (Suc (length ws))"
    using exact [of "Suc (length ws)"] len by (simp add: dbl_def add.commute)
  have at: "dbl rnd (of_nat (length ws) + 1) = of_int \<lfloor>row_at rnd N p\<rfloor> \<longleftrightarrow> Suc (length ws) = f"
    "dbl rnd (of_nat (length ws) + 1) = of_int \<lceil>row_at rnd N p\<rceil> \<longleftrightarrow> Suc (length ws) = c"
    unfolding cur fc by (simp_all only: of_int_of_nat_eq of_nat_eq_iff)
  have row: "pc_row rnd t = row_at rnd N p" if "pc_partition t = N" "pc_prev_value t = p" for t
    using that by (rule pc_row_eq)
  consider "c \<le> length ws" | "f \<le> length ws" "length ws < c" | "length ws < f" using fc by linarith
  then show ?thesis
  proof cases
    case 1
    then have "f \<le> length ws" using fc by simp
    then show ?thesis using 1 inv p fc
      by (cases "pc_first_call s") (auto simp: pc_inv_def pc_add_def Let_def nth_append row)
  next
    case 2
    then have c: "Suc (length ws) = c" "f \<noteq> Suc (length ws)" "ws \<noteq> []" using fc by auto
    then show ?thesis using 2 inv p fc at
      by (auto simp: pc_inv_def pc_add_def Let_def nth_append row)
  next
    case 3
    then have "length ws < c" using fc by simp
    then show ?thesis using 3 inv p fc at
      by (cases "pc_first_call s") (auto simp: pc_inv_def pc_add_def Let_def nth_append row)
  qed
qed

lemma pc_add_null:
  assumes inv: "pc_inv N p f c ws s" and p: "0 \<le> p" "p \<le> 1" and fc: "1 \<le> f" "f \<le> c"
  shows "\<exists>s'. pc_add rnd (Some p) None s = (None, s') \<and> pc_inv N p f c ws s'"
proof (cases "c \<le> length ws")
  case True
  then have "f \<le> length ws" "ws \<noteq> []" using fc by auto
  then show ?thesis using True inv p by (auto simp: pc_inv_def pc_add_def Let_def)
next
  case False
  then show ?thesis using inv p by (cases "pc_first_call s") (auto simp: pc_inv_def pc_add_def Let_def)
qed

lemma pc_adds_inv:
  assumes "pc_inv N p f c ws s" "length ws + length (somes rs) \<le> unat N" and p: "0 \<le> p" "p \<le> 1"
    and fc: "\<lfloor>row_at rnd N p\<rfloor> = int f" "\<lceil>row_at rnd N p\<rceil> = int c" "1 \<le> f" "f \<le> c" "c \<le> f + 1"
    and exact: "\<And>k. k \<le> unat N \<Longrightarrow> rnd (real k) = real k"
  shows "\<exists>s'. pc_adds rnd (Some p) rs s = (None, s') \<and> pc_inv N p f c (ws @ somes rs) s'"
  using assms(1,2)
proof (induction rs arbitrary: ws s)
  case (Cons r rs)
  show ?case
  proof (cases r)
    case None
    then show ?thesis using pc_add_null [OF Cons.prems(1) p fc(3,4), of rnd] Cons.IH Cons.prems(2) by fastforce
  next
    case (Some v)
    have "length ws < unat N" using Cons.prems(2) Some by simp
    then obtain s1 where "pc_add rnd (Some p) r s = (None, s1)" "pc_inv N p f c (ws @ [v]) s1"
      using pc_add_value [OF Cons.prems(1) p _ fc exact, of v] Some by auto
    then show ?thesis using Cons.IH [of "ws @ [v]" s1] Cons.prems(2) Some by simp
  qed
qed simp

definition ntile_row :: "ulonglong \<Rightarrow> ulonglong \<Rightarrow> nat \<Rightarrow> ntile" where
  "ntile_row n old r = \<lparr>nt_current = of_nat r, nt_partition = n, n_old_val = old, nt_null = True\<rparr>"

definition tile :: "ulonglong \<Rightarrow> ulonglong \<Rightarrow> ulonglong \<Rightarrow> nat \<Rightarrow> nat" where
  "tile n old q r = unat (snd (fst (the (ntile_val_int q (ntile_row n old r)))))"

definition pd_new :: "'v percentile_disc" where
  "pd_new = \<lparr>pd_value = None, pd_calculated = False, pd_first_call = True, pd_prev_value = 0, pd_current = 0,
     pd_partition = 0, pd_null = False\<rparr>"

definition pc_new :: percentile_cont where
  "pc_new = \<lparr>floor_value = None, ceil_value = None, pc_first_call = True, pc_prev_value = 0, ceil_val_calculated = False,
     floor_val_calculated = False, pc_current = 0, pc_partition = 0, pc_null = False\<rparr>"

section \<open>Group borders, phases and classes\<close>

text \<open>
  When \<open>test_if_group_changed\<close> reports a change exactly when the cached key differs from that of the row, and caches it, the
  tracker reports the first row after \<open>init\<close> and then the rows whose key differs from the row before.
\<close>

fun group_starts :: "('f list \<Rightarrow> 'r \<Rightarrow> int \<times> 'f list) \<Rightarrow> 'r list \<Rightarrow> 'f group_bound_tracker \<Rightarrow> bool list" where
  "group_starts test [] t = []"
| "group_starts test (r # rs) t = (case check_if_next_group test r t of (b, t) \<Rightarrow> b # group_starts test rs t)"

lemma group_starts_from:
  assumes "\<And>fs r. fst (test fs r) > -1 \<longleftrightarrow> fs \<noteq> key r" "\<And>fs r. snd (test fs r) = key r"
    and "group_fields t = key r" "\<not> first_check t"
  shows "group_starts test rs t = map (\<lambda>(a, b). key a \<noteq> key b) (zip (r # rs) rs)"
  using assms(3,4)
proof (induction rs arbitrary: r t)
  case (Cons q rs)
  obtain i fs where q: "test (group_fields t) q = (i, fs)" by fastforce
  then have i: "i > -1 \<longleftrightarrow> key r \<noteq> key q" "fs = key q" using assms(1,2) [of "group_fields t" q] Cons.prems by auto
  show ?case using Cons.IH [of _ q] Cons.prems q i by (auto simp: check_if_next_group_def Let_def)
qed simp

lemma group_starts_init:
  assumes "\<And>fs r. fst (test fs r) > -1 \<longleftrightarrow> fs \<noteq> key r" "\<And>fs r. snd (test fs r) = key r"
  shows "group_starts test (r # rs) (gbt_init t) = True # map (\<lambda>(a, b). key a \<noteq> key b) (zip (r # rs) rs)"
proof -
  obtain i fs where q: "test (group_fields t) r = (i, fs)" by fastforce
  then have "fs = key r" using assms(2) [of "group_fields t" r] by simp
  then show ?thesis using group_starts_from [OF assms, where r = r] q
    by (simp add: check_if_next_group_def gbt_init_def Let_def)
qed

lemma compare_with_cache_0:
  "compare_with_cache cmp r t = 0 \<longleftrightarrow> (\<forall>f \<in> set (group_fields t). cmp f r = 0)"
proof -
  have "cmp_loop cmp r fs = 0 \<longleftrightarrow> (\<forall>f \<in> set fs. cmp f r = 0)" for fs
    by (induction fs) (auto simp: Let_def)
  then show ?thesis by (simp add: compare_with_cache_def)
qed

text \<open>Which source a window item reads from in each phase.\<close>

lemma window_item_phases:
  "wf_val_int field func (set_phase_to_initial w) = (0, (set_phase_to_initial w)\<lparr>null_value := True\<rparr>)"
  "wf_val_int field func (set_phase_to_computation w) = (fst func, (set_phase_to_computation w)\<lparr>null_value := snd func\<rparr>)"
  "wf_val_int field func (set_phase_to_retrieval w) = (fst field, (set_phase_to_retrieval w)\<lparr>null_value := snd field\<rparr>)"
  by (simp_all add: wf_val_int_def set_phase_to_initial_def set_phase_to_computation_def set_phase_to_retrieval_def)

lemma window_classes:
  "requires_peer_size f \<Longrightarrow> requires_partition_size f"
  "requires_partition_size f \<Longrightarrow> is_frame_prohibited f"
  "requires_special_cursors f \<Longrightarrow> \<not> is_frame_prohibited f"
  "only_single_element_order_list f \<Longrightarrow> is_order_list_mandatory f"
  by (auto simp: requires_peer_size_def requires_partition_size_def is_frame_prohibited_def requires_special_cursors_def
      only_single_element_order_list_def is_order_list_mandatory_def)

text \<open>Ranks and distributions stay between 0 and 1.\<close>

lemma percent_rank_bounds:
  assumes "mono rnd" "rnd 0 = 0" "rnd 1 = 1" "1 < unat n" "unat n < 2 ^ 63" "1 \<le> unat r" "unat r \<le> unat n"
  shows "percent_rank_val_real rnd r n = (False, snd (percent_rank_val_real rnd r n)) \<and>
         0 \<le> snd (percent_rank_val_real rnd r n) \<and> snd (percent_rank_val_real rnd r n) \<le> 1"
proof -
  have n: "n > 1" "n > 0" using assms(4) by (auto simp: word_less_nat_alt)
  have r1: "unat (r - 1) = unat r - 1" "unat (n - 1) = unat n - 1" using unat_minus_1 [of r] unat_minus_1 [of n] assms(4,6) by simp_all
  have "sint (r - 1) = int (unat r - 1)" using sint_unat [of "r - 1"] r1 assms(5,7) by simp
  then have s: "real_of_int (sint (r - 1)) = real (unat r - 1)" by simp
  have "rnd (real (unat r - 1)) \<le> rnd (real (unat n - 1))" using assms(7) by (intro monoD [OF assms(1)]) simp
  moreover have "1 \<le> real (unat n - 1)" using assms(4) by linarith
  then have "rnd 1 \<le> rnd (real (unat n - 1))" by (rule monoD [OF assms(1)])
  moreover have "rnd 0 \<le> rnd (real (unat r - 1))" by (intro monoD [OF assms(1)]) simp
  ultimately have "0 \<le> rnd (real (unat r - 1)) / rnd (real (unat n - 1))" "rnd (real (unat r - 1)) / rnd (real (unat n - 1)) \<le> 1"
    using assms(2,3) by simp_all
  then have "rnd 0 \<le> rnd (rnd (real (unat r - 1)) / rnd (real (unat n - 1)))"
    "rnd (rnd (real (unat r - 1)) / rnd (real (unat n - 1))) \<le> rnd 1" by (intro monoD [OF assms(1)], simp)+
  moreover have "percent_rank_val_real rnd r n = (False, rnd (rnd (real (unat r - 1)) / rnd (real (unat n - 1))))"
    unfolding percent_rank_val_real_def Let_def get_row_count_def dbl_def r1(2) s using n by simp
  ultimately show ?thesis using assms(2,3) by simp
qed

section \<open>Properties\<close>

text \<open>C6. \<open>NTILE\<close>: for a partition of \<open>n < 2 ^ 63\<close> rows and a positive number \<open>q\<close> of buckets, \<open>val_int\<close> at row \<open>r\<close> raises no error,
  divides by no zero and does not wrap around; the bucket is between 1 and \<open>q\<close>, never decreases from one row to a later one, and bucket
  \<open>b\<close> receives \<open>n div q\<close> rows, and one more when \<open>b \<le> n mod q\<close>. A partition without rows gives NULL, and an argument that is not
  positive, or differs from the previous one, is an error.\<close>

theorem ntile_correct:
  assumes "0 < unat n" "unat n < 2 ^ 63" "0 < unat q" "unat q < 2 ^ 63" and "old = 0 \<or> old = q"
  shows "(1 \<le> r \<and> r \<le> r' \<and> r' \<le> unat n \<longrightarrow>
            map_option (fst \<circ> fst) (ntile_val_int q (ntile_row n old r)) = Some None \<and>
            1 \<le> tile n old q r \<and> tile n old q r \<le> tile n old q r' \<and> tile n old q r' \<le> unat q) \<and>
         (1 \<le> b \<and> b \<le> unat q \<longrightarrow>
            card {r. 1 \<le> r \<and> r \<le> unat n \<and> tile n old q r = b} = unat n div unat q + of_bool (b \<le> unat n mod unat q)) \<and>
         map_option fst (ntile_val_int q (ntile_row 0 old r)) = Some (None, 0) \<and>
         (sint q' \<le> 0 \<or> (old \<noteq> 0 \<and> q' \<noteq> old) \<longrightarrow>
            map_option (fst \<circ> fst) (ntile_val_int q' (ntile_row n old r)) = Some (Some ER_INVALID_NTILE_ARGUMENT))"
proof (intro conjI)
  have row: "map_option (fst \<circ> fst) (ntile_val_int q (ntile_row n old r)) = Some None \<and>
      tile n old q r = ntile_nat (unat n) (unat q) r"
    if "1 \<le> r" "r \<le> unat n" for r
  proof -
    have "unat (nt_current (ntile_row n old r)) = r" using that unat_bound [of n] by (simp add: ntile_row_def unat_of_nat)
    then show ?thesis using ntile_word [of "ntile_row n old r" q] that assms(1-5) by (auto simp: ntile_row_def tile_def)
  qed
  show "1 \<le> r \<and> r \<le> r' \<and> r' \<le> unat n \<longrightarrow>
      map_option (fst \<circ> fst) (ntile_val_int q (ntile_row n old r)) = Some None \<and>
      1 \<le> tile n old q r \<and> tile n old q r \<le> tile n old q r' \<and> tile n old q r' \<le> unat q"
    using row [of r] row [of r'] ntile_nat_range [OF assms(3), of r "unat n"] ntile_nat_range [OF assms(3), of r' "unat n"]
      ntile_nat_mono [OF assms(3), of r r' "unat n"] by auto
  have "{r. 1 \<le> r \<and> r \<le> unat n \<and> tile n old q r = b} = {r. 1 \<le> r \<and> r \<le> unat n \<and> ntile_nat (unat n) (unat q) r = b}"
    using row by auto
  then show "1 \<le> b \<and> b \<le> unat q \<longrightarrow>
      card {r. 1 \<le> r \<and> r \<le> unat n \<and> tile n old q r = b} = unat n div unat q + of_bool (b \<le> unat n mod unat q)"
    using ntile_nat_size [OF assms(3), of b "unat n"] by simp
  show "map_option fst (ntile_val_int q (ntile_row 0 old r)) = Some (None, 0)"
    by (simp add: ntile_val_int_def get_row_count_def ntile_row_def)
  have "n \<noteq> 0" using assms(1) by auto
  then show "sint q' \<le> 0 \<or> (old \<noteq> 0 \<and> q' \<noteq> old) \<longrightarrow>
      map_option (fst \<circ> fst) (ntile_val_int q' (ntile_row n old r)) = Some (Some ER_INVALID_NTILE_ARGUMENT)"
    by (auto simp: ntile_val_int_def get_row_count_def ntile_row_def word_neq_0_conv)
qed

theorem ntile_correct_witness:
  "card {r. 1 \<le> r \<and> r \<le> 10 \<and> tile 10 0 3 r = 1} = 4 \<and> card {r. 1 \<le> r \<and> r \<le> 10 \<and> tile 10 0 3 r = 2} = 3 \<and>
   tile 10 0 3 4 \<le> tile 10 0 3 5"
  using ntile_correct [of 10 3 0 4 5 1 0] ntile_correct [of 10 3 0 4 5 2 0] by simp

text \<open>C30. \<open>PERCENTILE_DISC (p)\<close>: after the rows of a partition, given with its number \<open>n\<close> of non-null values, no error has
  been raised and the value is the non-null value of the order expression at the first row \<open>k\<close>, counted from 1 among them, with \<open>k / n \<ge> p\<close>, the quotient being that of real
  numbers rounded to \<open>double\<close>. The rounding only has to be monotone and exact at 1. An argument outside of 0 to 1 is an error at the first row.\<close>

theorem percentile_disc_correct:
  fixes rows :: "'v option list"
  defines "n \<equiv> length (somes rows)"
  assumes "mono rnd" "rnd 1 = 1" and "0 < n" "n < 2 ^ 64"
  shows "if 0 \<le> p \<and> p \<le> 1
    then \<exists>s k. pd_adds rnd (Some p) rows (pd_set_partition_row_count (of_nat n) (pd_clear s0)) = (None, s) \<and>
           1 \<le> k \<and> k \<le> n \<and> fst (pd_val (Some p) s) = Some (somes rows ! (k - 1)) \<and>
           p \<le> rnd (rnd (real k) / rnd (real n)) \<and> (\<forall>j. 1 \<le> j \<and> j < k \<longrightarrow> rnd (rnd (real j) / rnd (real n)) < p)
    else fst (pd_adds rnd (Some p) rows (pd_set_partition_row_count (of_nat n) (pd_clear s0))) = Some ER_ARGUMENT_OUT_OF_RANGE"
proof (cases "0 \<le> p \<and> p \<le> 1")
  case True
  let ?s = "pd_set_partition_row_count (of_nat n) (pd_clear s0)"
  obtain s where s: "pd_adds rnd (Some p) rows ?s = (None, s)" "pd_partition s = of_nat n"
    "(\<exists>k < n. pd_value s = Some (somes rows ! k) \<and> p \<le> cume rnd n (Suc (0 + k)) \<and> (\<forall>j < k. cume rnd n (Suc (0 + j)) < p)) \<or>
     (\<forall>j < n. cume rnd n (Suc (0 + j)) < p)"
    using pd_adds_search [of ?s p 0 n rows rnd] True assms(5)
    unfolding n_def by (auto simp: pd_set_partition_row_count_def pd_clear_def)
  have "cume rnd n (Suc (n - 1)) = 1" using cume_last [OF assms(2-4)] assms(4) by simp
  then have "\<not> (\<forall>j < n. cume rnd n (Suc (0 + j)) < p)" using True assms(4) by (auto intro!: exI [of _ "n - 1"])
  then obtain k where k: "k < n" "pd_value s = Some (somes rows ! k)" "p \<le> cume rnd n (Suc k)" "\<forall>j < k. cume rnd n (Suc j) < p" using s(3) by auto
  have "unat (of_nat n :: ulonglong) = n" using assms(5) by (simp add: unat_of_nat)
  then have "(of_nat n :: ulonglong) \<noteq> 0" using assms(4) by (metis less_nat_zero_code unat_0)
  then have v: "fst (pd_val (Some p) s) = Some (somes rows ! (Suc k - 1))" using s(2) k(2) by (simp add: pd_val_def get_row_count_def)
  have before: "cume rnd n j < p" if "1 \<le> j" "j < Suc k" for j using that k(4) [rule_format, of "j - 1"] by simp
  show ?thesis using True s(1) v k(1,3) before unfolding cume_def by (auto intro!: exI [of _ s] exI [of _ "Suc k"])
next
  case False
  obtain r rs where r: "rows = r # rs" using assms(4) by (cases rows) (auto simp: n_def)
  have "fst (pd_adds rnd (Some p) (r # rs) (pd_set_partition_row_count (of_nat n) (pd_clear s0))) = Some ER_ARGUMENT_OUT_OF_RANGE"
    using False by (intro pd_adds_out_of_range) (auto simp: pd_set_partition_row_count_def pd_clear_def)
  then show ?thesis unfolding r [symmetric] by (simp only: False if_False)
qed

theorem percentile_disc_correct_witness:
  "\<exists>s. pd_adds id (Some (1 / 2)) [Some 10, None, Some 20, Some (40 :: nat)]
         (pd_set_partition_row_count 3 (pd_clear pd_new)) = (None, s) \<and>
       fst (pd_val (Some (1 / 2)) s) = Some 20"
proof -
  let ?rows = "[Some 10, None, Some 20, Some (40 :: nat)]"
  obtain s k where k: "pd_adds id (Some (1 / 2)) ?rows (pd_set_partition_row_count 3 (pd_clear pd_new)) = (None, s)"
    "1 \<le> k" "k \<le> 3" "fst (pd_val (Some (1 / 2)) s) = Some ([10, 20, 40] ! (k - 1))"
    "1 / 2 \<le> real k / 3" "\<forall>j. 1 \<le> j \<and> j < k \<longrightarrow> real j / 3 < 1 / 2"
    using percentile_disc_correct [of id ?rows "1 / 2" pd_new] by (auto simp: mono_def numeral_3_eq_3 simp del: pd_adds.simps)
  have "k \<noteq> 1" using k(5) by auto
  moreover have "\<not> 2 < k" using k(6) [rule_format, of 2] by auto
  ultimately have "k = 2" using k(2) by simp
  then show ?thesis using k by auto
qed

text \<open>\<open>PERCENTILE_CONT (p)\<close>: after the rows of a partition no error has been raised, and \<open>val_real\<close> is the value at the row
  \<open>x = 1 + p * (n - 1)\<close>, counted among the \<open>n\<close> non-null values, when \<open>x\<close> is an integer, and otherwise the interpolation between the values at the two rows around
  it. The rounding has to be monotone and exact at the row numbers (for \<open>double\<close>, \<open>n \<le> 2 ^ 53\<close>).\<close>

theorem percentile_cont_correct:
  assumes "mono rnd" "\<And>k. k \<le> length (somes rows) \<Longrightarrow> rnd (real k) = real k" and "0 \<le> p" "p \<le> 1"
    and "0 < length (somes rows)" "length (somes rows) < 2 ^ 63"
    and x: "x = row_at rnd (of_nat (length (somes rows))) p"
  shows "\<exists>s. pc_adds rnd (Some p) rows (pc_set_partition_row_count (of_nat (length (somes rows))) (pc_clear s0)) = (None, s) \<and>
           1 \<le> nat \<lfloor>x\<rfloor> \<and> nat \<lceil>x\<rceil> \<le> length (somes rows) \<and>
           fst (pc_val_real rnd (Some p) s) =
             (if \<lceil>x\<rceil> = \<lfloor>x\<rfloor> then somes rows ! (nat \<lfloor>x\<rfloor> - 1)
              else rnd (rnd (rnd (x - of_int \<lfloor>x\<rfloor>) * somes rows ! (nat \<lceil>x\<rceil> - 1)) +
                        rnd (rnd (of_int \<lceil>x\<rceil> - x) * somes rows ! (nat \<lfloor>x\<rfloor> - 1))))"
proof -
  define N :: ulonglong where "N = of_nat (length (somes rows))"
  have N: "unat N = length (somes rows)" using assms(6) by (simp add: N_def unat_of_nat)
  have exact: "rnd (real k) = real k" if "k \<le> unat N" for k using assms(2) that N by simp
  have xN: "x = row_at rnd N p" using x by (simp add: N_def)
  have "0 < unat N" "unat N < 2 ^ 63" using assms(5,6) N by simp_all
  then have "1 \<le> x" "x \<le> real (unat N)"
    unfolding xN using row_at_bounds [OF assms(1) exact _ _ assms(3,4), of N] by blast+
  define f c where "f = nat \<lfloor>x\<rfloor>" and "c = nat \<lceil>x\<rceil>"
  have fc: "\<lfloor>x\<rfloor> = int f" "\<lceil>x\<rceil> = int c" "1 \<le> f" "f \<le> c" "c \<le> f + 1" "c \<le> length (somes rows)"
    using \<open>1 \<le> x\<close> \<open>x \<le> real (unat N)\<close> unfolding f_def c_def N by linarith+
  let ?s = "pc_set_partition_row_count N (pc_clear s0)"
  have "pc_inv N p f c [] ?s" using fc by (simp add: pc_inv_def pc_set_partition_row_count_def pc_clear_def)
  then obtain s where s: "pc_adds rnd (Some p) rows ?s = (None, s)" "pc_inv N p f c (somes rows) s"
    using pc_adds_inv [of N p f c "[]" ?s rows rnd] assms(3,4) fc exact N xN by auto
  have "\<not> pc_first_call s" using s(2) assms(5) by (auto simp: pc_inv_def)
  then have "pc_row rnd (s\<lparr>pc_null := False\<rparr>) = x" using s(2) by (simp add: pc_inv_def pc_row_def row_at_def xN get_row_count_def)
  moreover have "f < c" if "\<lceil>x\<rceil> \<noteq> \<lfloor>x\<rfloor>" using that fc by linarith
  moreover have "N \<noteq> 0" using N assms(5) by auto
  ultimately have "fst (pc_val_real rnd (Some p) s) =
      (if \<lceil>x\<rceil> = \<lfloor>x\<rfloor> then somes rows ! (f - 1)
       else rnd (rnd (rnd (x - of_int \<lfloor>x\<rfloor>) * somes rows ! (c - 1)) + rnd (rnd (of_int \<lceil>x\<rceil> - x) * somes rows ! (f - 1))))"
    using s(2) fc by (simp add: pc_val_real_def Let_def pc_inv_def cache_val_real_def get_row_count_def)
  then show ?thesis using s(1) fc unfolding f_def c_def N_def [symmetric] by auto
qed

theorem percentile_cont_correct_witness:
  "\<exists>s. pc_adds id (Some (1 / 4)) [Some 10, None, Some 20, Some 40]
         (pc_set_partition_row_count 3 (pc_clear pc_new)) = (None, s) \<and>
       fst (pc_val_real id (Some (1 / 4)) s) = 15"
proof -
  have x: "row_at id 3 (1 / 4) = 3 / 2" by (simp add: row_at_def)
  have fc: "\<lfloor>3 / 2 :: real\<rfloor> = 1" "\<lceil>3 / 2 :: real\<rceil> = 2" by linarith+
  show ?thesis
    using percentile_cont_correct [of id "[Some 10, None, Some 20, Some 40]" "1 / 4" "3 / 2" pc_new] x fc by (simp add: mono_def)
qed

end
