(* ===== verification/Sql_String.thy ===== *)
theory Sql_String
  imports Prelude "HOL-Library.Monad_Syntax"
begin

text \<open>
  \<open>sql_string.h\<close>: \<open>Binary_string\<close>, the growing byte buffer of the server. The memory maps block addresses to the bytes of the live
  blocks; a pointer is null or a block with an offset. An operation takes the memory and the object and returns both;
  the result \<^const>\<open>None\<close> is a failed assertion, an access outside a live block, or a \<open>my_free\<close> of something that is not
  the start of one, or a \<open>memcpy\<close> between overlapping areas. The bytes to append are given by a pointer, which may lead into the buffer of the object itself. The members that are only declared in the header (\<open>realloc_raw\<close>, \<open>real_alloc\<close>) are arguments of the
  operations that call them.
\<close>

type_synonym ptr = "(nat \<times> nat) option"
type_synonym mem = "nat \<rightharpoonup> uchar list"

record binary_string =
  Ptr :: ptr
  str_length :: uint
  Alloced_length :: uint
  extra_alloc :: uint
  alloced :: bool
  thread_specific :: bool

type_synonym bs = "mem \<times> binary_string"
type_synonym 'r bs_call = "bs \<Rightarrow> ('r \<times> bs) option"

section \<open>Memory\<close>

definition peek :: "mem \<Rightarrow> ptr \<Rightarrow> nat \<Rightarrow> uchar option" where
  "peek m p i = do { (b, off) \<leftarrow> p; bytes \<leftarrow> m b; if off + i < length bytes then Some (bytes ! (off + i)) else None }"

definition blit :: "uchar list \<Rightarrow> nat \<Rightarrow> uchar list \<Rightarrow> uchar list" where
  "blit bytes k data = take k bytes @ data @ drop (k + length data) bytes"

text \<open>The bytes stored at \<open>p + i\<close>; a single assignment is the case of one byte.\<close>

definition poke :: "mem \<Rightarrow> ptr \<Rightarrow> nat \<Rightarrow> uchar list \<Rightarrow> mem option" where
  "poke m p i data = do {
     (b, off) \<leftarrow> p; bytes \<leftarrow> m b;
     if off + i + length data \<le> length bytes then Some (m(b \<mapsto> blit bytes (off + i) data)) else None }"

definition my_free :: "mem \<Rightarrow> ptr \<Rightarrow> mem option" where
  "my_free m p = (case p of None \<Rightarrow> Some m
     | Some (b, off) \<Rightarrow> if off = 0 \<and> m b \<noteq> None then Some (m(b := None)) else None)"

definition my_isascii :: "uchar \<Rightarrow> bool" where "my_isascii c \<longleftrightarrow> c AND NOT 127 = 0"

fun read_bytes :: "mem \<Rightarrow> ptr \<Rightarrow> nat \<Rightarrow> nat \<Rightarrow> uchar list option" where
  "read_bytes m p i 0 = Some []"
| "read_bytes m p i (Suc n) = do { c \<leftarrow> peek m p i; cs \<leftarrow> read_bytes m p (Suc i) n; Some (c # cs) }"

text \<open>\<open>memcpy (p + i, src, n)\<close>: the source is read when the copy is made, and areas that overlap are undefined behaviour.\<close>

definition areas_overlap :: "ptr \<Rightarrow> nat \<Rightarrow> ptr \<Rightarrow> nat \<Rightarrow> bool" where
  "areas_overlap p i src n \<longleftrightarrow>
     (case (p, src) of (Some (b, j), Some (c, k)) \<Rightarrow> b = c \<and> j + i < k + n \<and> k < j + i + n | _ \<Rightarrow> False)"

definition bs_memcpy :: "mem \<Rightarrow> ptr \<Rightarrow> nat \<Rightarrow> ptr \<Rightarrow> nat \<Rightarrow> mem option" where
  "bs_memcpy m p i src n = (if areas_overlap p i src n then None else do { data \<leftarrow> read_bytes m src 0 n; poke m p i data })"

section \<open>Construction and release\<close>


definition free_buffer :: "bs \<Rightarrow> bs option" where
  "free_buffer = (\<lambda>(m, s).
     if alloced s then do { m' \<leftarrow> my_free m (Ptr s); Some (m', s\<lparr>alloced := False\<rparr>) } else Some (m, s))"


text \<open>From a constant buffer, which must not be written to, and from a writable one.\<close>

definition bs_of_const :: "ptr \<Rightarrow> ulonglong \<Rightarrow> binary_string" where
  "bs_of_const str len = \<lparr>Ptr = str, str_length = ucast len, Alloced_length = 0, extra_alloc = 0,
     alloced = False, thread_specific = False\<rparr>"

definition bs_of_buffer :: "ptr \<Rightarrow> ulonglong \<Rightarrow> binary_string" where
  "bs_of_buffer str len = \<lparr>Ptr = str, str_length = ucast len, Alloced_length = ucast len, extra_alloc = 0,
     alloced = False, thread_specific = False\<rparr>"

definition bs_of_string :: "binary_string \<Rightarrow> binary_string" where
  "bs_of_string str = \<lparr>Ptr = Ptr str, str_length = str_length str, Alloced_length = Alloced_length str, extra_alloc = 0,
     alloced = False, thread_specific = False\<rparr>"


section \<open>Access\<close>

definition bs_length :: "binary_string \<Rightarrow> uint" where "bs_length s = str_length s"
definition set_length :: "ulonglong \<Rightarrow> binary_string \<Rightarrow> binary_string" where "set_length len s = s\<lparr>str_length := ucast len\<rparr>"
definition bs_is_empty :: "binary_string \<Rightarrow> bool" where "bs_is_empty s \<longleftrightarrow> str_length s = 0"
definition bs_index :: "bs \<Rightarrow> ulonglong \<Rightarrow> uchar option" where "bs_index = (\<lambda>(m, s) i. peek m (Ptr s) (unat i))"

fun has_8bit_loop :: "mem \<Rightarrow> ptr \<Rightarrow> nat \<Rightarrow> nat \<Rightarrow> bool option" where
  "has_8bit_loop m p i 0 = Some False"
| "has_8bit_loop m p i (Suc n) = do { c \<leftarrow> peek m p i; if \<not> my_isascii c then Some True else has_8bit_loop m p (Suc i) n }"

definition has_8bit_bytes :: "bs \<Rightarrow> bool option" where
  "has_8bit_bytes = (\<lambda>(m, s). has_8bit_loop m (Ptr s) 0 (unat (str_length s)))"

definition bin_eq :: "mem \<Rightarrow> binary_string \<Rightarrow> binary_string \<Rightarrow> bool option" where
  "bin_eq m s other =
     (if bs_length s = bs_length other
      then do { x \<leftarrow> read_bytes m (Ptr s) 0 (unat (bs_length s));
                y \<leftarrow> read_bytes m (Ptr other) 0 (unat (bs_length s)); Some (x = y) }
      else Some False)"

text \<open>\<open>strlen (Ptr) = n\<close>: the first zero byte is at \<open>n\<close>.\<close>

definition strlen_is :: "mem \<Rightarrow> ptr \<Rightarrow> nat \<Rightarrow> bool" where
  "strlen_is m p n \<longleftrightarrow> peek m p n = Some 0 \<and> list_all (\<lambda>i. peek m p i \<noteq> Some 0) [0..<n]"

definition bs_chop :: "bs \<Rightarrow> bs option" where
  "bs_chop = (\<lambda>(m, s).
     if str_length s \<noteq> 0
     then let s = s\<lparr>str_length := str_length s - 1\<rparr>
       in do { m \<leftarrow> poke m (Ptr s) (unat (str_length s)) [0];
               if strlen_is m (Ptr s) (unat (str_length s)) then Some (m, s) else None }
     else Some (m, s))"

section \<open>Appending without reallocation\<close>

definition ASSERT_LENGTH :: "ulonglong \<Rightarrow> binary_string \<Rightarrow> bool" where
  "ASSERT_LENGTH a s \<longleftrightarrow> str_length s + ucast a \<le> Alloced_length s"

fun le_bytes :: "nat \<Rightarrow> nat \<Rightarrow> uchar list" where
  "le_bytes 0 v = []"
| "le_bytes (Suc n) v = of_nat v # le_bytes n (v div 256)"

definition q_append_char :: "uchar \<Rightarrow> bs \<Rightarrow> bs option" where
  "q_append_char c = (\<lambda>(m, s).
     if ASSERT_LENGTH 1 s
     then do { m \<leftarrow> poke m (Ptr s) (unat (str_length s)) [c]; Some (m, s\<lparr>str_length := str_length s + 1\<rparr>) }
     else None)"

definition q_append2b :: "uint \<Rightarrow> bs \<Rightarrow> bs option" where
  "q_append2b n = (\<lambda>(m, s).
     if ASSERT_LENGTH 2 s
     then do { m \<leftarrow> poke m (Ptr s) (unat (str_length s)) (le_bytes 2 (unat n)); Some (m, s\<lparr>str_length := str_length s + 2\<rparr>) }
     else None)"

definition q_append_uint32 :: "uint \<Rightarrow> bs \<Rightarrow> bs option" where
  "q_append_uint32 n = (\<lambda>(m, s).
     if ASSERT_LENGTH 4 s
     then do { m \<leftarrow> poke m (Ptr s) (unat (str_length s)) (le_bytes 4 (unat n)); Some (m, s\<lparr>str_length := str_length s + 4\<rparr>) }
     else None)"

definition q_append :: "ptr \<Rightarrow> ulonglong \<Rightarrow> bs \<Rightarrow> bs option" where
  "q_append data data_len = (\<lambda>(m, s).
     if ASSERT_LENGTH data_len s
     then do { m \<leftarrow> (if data_len \<noteq> 0 then bs_memcpy m (Ptr s) (unat (str_length s)) data (unat data_len) else Some m);
               if (ucast (str_length s) :: ulonglong) \<le> 4294967295 - data_len
               then Some (m, s\<lparr>str_length := str_length s + ucast data_len\<rparr>) else None }
     else None)"

definition write_at_position :: "uint \<Rightarrow> uint \<Rightarrow> bs \<Rightarrow> bs option" where
  "write_at_position position v = (\<lambda>(m, s).
     if str_length s \<ge> position + 4
     then do { m \<leftarrow> poke m (Ptr s) (unat position) (le_bytes 4 (unat v)); Some (m, s) } else None)"

definition qs_append_char :: "uchar \<Rightarrow> bs \<Rightarrow> bs option" where
  "qs_append_char c = (\<lambda>(m, s).
     if ASSERT_LENGTH 1 s
     then do { m \<leftarrow> poke m (Ptr s) (unat (str_length s)) [c]; Some (m, s\<lparr>str_length := str_length s + 1\<rparr>) }
     else None)"

section \<open>Buffers and their owners\<close>

definition set_thread_specific :: "binary_string \<Rightarrow> binary_string" where
  "set_thread_specific s = (if \<not> alloced s then s\<lparr>thread_specific := True\<rparr> else s)"

definition mark_as_const :: "binary_string \<Rightarrow> binary_string" where "mark_as_const s = s\<lparr>Alloced_length := 0\<rparr>"
definition set_extra_allocation :: "ulonglong \<Rightarrow> binary_string \<Rightarrow> binary_string" where
  "set_extra_allocation len s = s\<lparr>extra_alloc := ucast len\<rparr>"



definition set_alloced :: "ptr \<Rightarrow> ulonglong \<Rightarrow> ulonglong \<Rightarrow> bs \<Rightarrow> bs option" where
  "set_alloced str len alloced_length x = do {
     (m, s) \<leftarrow> free_buffer x;
     if alloced_length < 4294967295
     then Some (m, s\<lparr>Ptr := str, str_length := ucast len, Alloced_length := ucast alloced_length\<rparr>) else None }"

definition set_buffer :: "ptr \<Rightarrow> ulonglong \<Rightarrow> bs \<Rightarrow> bs option" where
  "set_buffer str arg_length x = set_alloced str arg_length arg_length x"

definition set_const :: "ptr \<Rightarrow> ulonglong \<Rightarrow> bs \<Rightarrow> bs option" where
  "set_const str len x = do { (m, s) \<leftarrow> free_buffer x; Some (m, s\<lparr>Ptr := str, str_length := ucast len, Alloced_length := 0\<rparr>) }"

definition shift_ptr :: "ptr \<Rightarrow> ulonglong \<Rightarrow> ptr" where
  "shift_ptr p off = map_option (\<lambda>(b, i). (b, i + unat off)) p"

definition set_substring :: "binary_string \<Rightarrow> ulonglong \<Rightarrow> ulonglong \<Rightarrow> bs \<Rightarrow> bs option" where
  "set_substring str off len x = do {
     (m, s) \<leftarrow> free_buffer x;
     Some (m, s\<lparr>Ptr := shift_ptr (Ptr str) off, str_length := ucast len,
       Alloced_length := (if Alloced_length str \<noteq> 0 then ucast (ucast (Alloced_length str) - off) else 0)\<rparr>) }"

definition bs_reset :: "ptr \<Rightarrow> ulonglong \<Rightarrow> ulonglong \<Rightarrow> bs \<Rightarrow> bs option" where
  "bs_reset ptr_arg length_arg alloced_length_arg x = do {
     (m, s) \<leftarrow> set_alloced ptr_arg length_arg alloced_length_arg x; Some (m, s\<lparr>alloced := (ptr_arg \<noteq> None)\<rparr>) }"


definition set_buffer_if_not_allocated :: "ptr \<Rightarrow> ulonglong \<Rightarrow> binary_string \<Rightarrow> binary_string" where
  "set_buffer_if_not_allocated str arg_length s =
     (if \<not> alloced s then s\<lparr>Ptr := str, str_length := ucast arg_length, Alloced_length := ucast arg_length\<rparr> else s)"



section \<open>Allocation\<close>

type_synonym allocator = "ulonglong \<Rightarrow> bs \<Rightarrow> bool \<times> bs"

definition bs_alloc :: "allocator \<Rightarrow> ulonglong \<Rightarrow> bs \<Rightarrow> bool \<times> bs" where
  "bs_alloc real_alloc arg_length = (\<lambda>(m, s).
     if arg_length \<le> ucast (Alloced_length s) \<and> Alloced_length s \<noteq> 0 then (False, (m, s)) else real_alloc arg_length (m, s))"

definition bs_realloc :: "allocator \<Rightarrow> ulonglong \<Rightarrow> bool bs_call" where
  "bs_realloc realloc_raw arg_length x =
     (case realloc_raw (arg_length + 1) x of
        (True, y) \<Rightarrow> Some (True, y)
      | (False, (m, s)) \<Rightarrow> do { m \<leftarrow> poke m (Ptr s) (unat arg_length) [0]; Some (False, (m, s)) })"

definition realloc_with_extra :: "allocator \<Rightarrow> ulonglong \<Rightarrow> bool bs_call" where
  "realloc_with_extra realloc_raw arg_length = (\<lambda>(m, s).
     let s = (if extra_alloc s < 4096 then s\<lparr>extra_alloc := extra_alloc s * 2 + 128\<rparr> else s)
     in case realloc_raw (arg_length + ucast (extra_alloc s)) (m, s) of
          (True, y) \<Rightarrow> Some (True, y)
        | (False, (m, s)) \<Rightarrow> do { m \<leftarrow> poke m (Ptr s) (unat arg_length) [0]; Some (False, (m, s)) })"

definition realloc_with_extra_if_needed :: "allocator \<Rightarrow> ulonglong \<Rightarrow> bool bs_call" where
  "realloc_with_extra_if_needed realloc_raw arg_length = (\<lambda>(m, s).
     if arg_length < ucast (Alloced_length s)
     then do { m \<leftarrow> poke m (Ptr s) (unat arg_length) [0]; Some (False, (m, s)) }
     else realloc_with_extra realloc_raw arg_length (m, s))"

definition bs_reserve :: "allocator \<Rightarrow> ulonglong \<Rightarrow> bool bs_call" where
  "bs_reserve realloc_raw space_needed = (\<lambda>(m, s).
     if ucast (str_length s) + space_needed < 4294967295
     then bs_realloc realloc_raw (ucast (str_length s) + space_needed) (m, s) else None)"

section \<open>Appending\<close>

definition append_bytes :: "allocator \<Rightarrow> ptr \<Rightarrow> ulonglong \<Rightarrow> bool bs_call" where
  "append_bytes realloc_raw src sz = (\<lambda>(m, s).
     if sz = 0 then Some (False, (m, s))
     else do { (oom, x) \<leftarrow> realloc_with_extra_if_needed realloc_raw (ucast (str_length s) + sz) (m, s);
               if oom then Some (True, x) else do { x \<leftarrow> q_append src sz x; Some (False, x) } })"

definition append_string :: "allocator \<Rightarrow> binary_string \<Rightarrow> bool bs_call" where
  "append_string realloc_raw str = append_bytes realloc_raw (Ptr str) (ucast (bs_length str))"

definition append_char :: "allocator \<Rightarrow> uchar \<Rightarrow> bool bs_call" where
  "append_char realloc_raw chr = (\<lambda>(m, s).
     if str_length s < Alloced_length s
     then do { m \<leftarrow> poke m (Ptr s) (unat (str_length s)) [chr]; Some (False, (m, s\<lparr>str_length := str_length s + 1\<rparr>)) }
     else do { (oom, (m, s)) \<leftarrow> realloc_with_extra realloc_raw (ucast (str_length s + 1)) (m, s);
               if oom then Some (True, (m, s))
               else do { m \<leftarrow> poke m (Ptr s) (unat (str_length s)) [chr]; Some (False, (m, s\<lparr>str_length := str_length s + 1\<rparr>)) } })"

text \<open>The digit of \<open>_dig_vec_lower\<close>.\<close>

definition dig_vec_lower :: "uchar \<Rightarrow> uchar" where
  "dig_vec_lower d = (if d < 10 then 48 + d else 87 + d)"

fun append_hex_loop :: "allocator \<Rightarrow> ptr \<Rightarrow> nat \<Rightarrow> nat \<Rightarrow> bool bs_call" where
  "append_hex_loop realloc_raw src i 0 x = Some (False, x)"
| "append_hex_loop realloc_raw src i (Suc n) x = do {
     c \<leftarrow> peek (fst x) src i;
     (oom, x) \<leftarrow> append_char realloc_raw (dig_vec_lower (drop_bit 4 c)) x;
     if oom then Some (True, x)
     else do {
       c \<leftarrow> peek (fst x) src i;
       (oom, x) \<leftarrow> append_char realloc_raw (dig_vec_lower (c AND 15)) x;
       if oom then Some (True, x) else append_hex_loop realloc_raw src (Suc i) n x } }"

definition append_hex :: "allocator \<Rightarrow> ptr \<Rightarrow> uint \<Rightarrow> bool bs_call" where
  "append_hex realloc_raw src srclen = append_hex_loop realloc_raw src 0 (unat srclen)"

definition append_with_step :: "allocator \<Rightarrow> ptr \<Rightarrow> uint \<Rightarrow> uint \<Rightarrow> bool bs_call" where
  "append_with_step realloc_raw src arg_length step_alloc = (\<lambda>(m, s).
     let new_length = arg_length + str_length s
     in do { (oom, x) \<leftarrow> (if new_length > Alloced_length s then bs_realloc realloc_raw (ucast (new_length + step_alloc)) (m, s)
                         else Some (False, (m, s)));
             if oom then Some (True, x) else do { x \<leftarrow> q_append src (ucast arg_length) x; Some (False, x) } })"

text \<open>\<open>prep_append\<close> returns the area to use, null when out of memory.\<close>

definition prep_append :: "allocator \<Rightarrow> uint \<Rightarrow> uint \<Rightarrow> ptr bs_call" where
  "prep_append realloc_raw arg_length step_alloc = (\<lambda>(m, s).
     let new_length = arg_length + str_length s
     in do { (oom, (m, s)) \<leftarrow> (if new_length > Alloced_length s then bs_realloc realloc_raw (ucast (new_length + step_alloc)) (m, s)
                              else Some (False, (m, s)));
             if oom then Some (None, (m, s))
             else Some (shift_ptr (Ptr s) (ucast (str_length s)), (m, s\<lparr>str_length := str_length s + arg_length\<rparr>)) })"

text \<open>\<open>c_ptr\<close> and \<open>c_ptr_safe\<close>; the result is the pointer to the terminated string, \<^const>\<open>None\<close> the static empty string.\<close>

definition c_ptr :: "allocator \<Rightarrow> ptr bs_call" where
  "c_ptr realloc_raw = (\<lambda>(m, s).
     if Ptr s = None then Some (None, (m, s))
     else do {
       final \<leftarrow> (if \<not> alloced s then peek m (Ptr s) (unat (str_length s)) else Some 1);
       if \<not> alloced s \<and> final = 0 then Some (Ptr s, (m, s))
       else if str_length s < Alloced_length s
       then do { m \<leftarrow> poke m (Ptr s) (unat (str_length s)) [0]; Some (Ptr s, (m, s)) }
       else do { (_, (m, s)) \<leftarrow> bs_realloc realloc_raw (ucast (str_length s)) (m, s); Some (Ptr s, (m, s)) } })"

definition c_ptr_safe :: "allocator \<Rightarrow> ptr bs_call" where
  "c_ptr_safe realloc_raw = (\<lambda>(m, s).
     if Ptr s \<noteq> None \<and> str_length s < Alloced_length s
     then do { m \<leftarrow> poke m (Ptr s) (unat (str_length s)) [0]; Some (Ptr s, (m, s)) }
     else do { (_, (m, s)) \<leftarrow> bs_realloc realloc_raw (ucast (str_length s)) (m, s); Some (Ptr s, (m, s)) })"

section \<open>Collation numbers across versions\<close>

definition latest_mariadb_version_with_collation_change :: uint where
  "latest_mariadb_version_with_collation_change = 110002"

definition collation_changed_order :: "uint \<Rightarrow> uint \<Rightarrow> bool" where
  "collation_changed_order mysql_version cs_number \<longleftrightarrow>
     (if mysql_version < 50048 \<and> cs_number \<in> {11, 41, 42, 20, 21, 22, 23, 26} \<or>
         mysql_version < 50124 \<and> cs_number \<in> {33, 35}
      then True
      else if cs_number = 159 \<and>
        (mysql_version \<ge> 100400 \<and> mysql_version < 100429 \<or>
         mysql_version \<ge> 100500 \<and> mysql_version < 100520 \<or>
         mysql_version \<ge> 100600 \<and> mysql_version < 100613 \<or>
         mysql_version \<ge> 100700 \<and> mysql_version < 100708 \<or>
         mysql_version \<ge> 100800 \<and> mysql_version < 100808 \<or>
         mysql_version \<ge> 100900 \<and> mysql_version < 100906 \<or>
         mysql_version \<ge> 101000 \<and> mysql_version < 101004 \<or>
         mysql_version \<ge> 101100 \<and> mysql_version < 101103 \<or>
         mysql_version \<ge> 110000 \<and> mysql_version < 110002)
      then True else False)"

definition MY_PAGE2_COLLATION_ID_UTF8 :: uint where "MY_PAGE2_COLLATION_ID_UTF8 = 0x240"
definition MY_PAGE2_COLLATION_ID_UTF8MB4 :: uint where "MY_PAGE2_COLLATION_ID_UTF8MB4 = 0x260"
definition MY_PAGE2_COLLATION_ID_UCS2 :: uint where "MY_PAGE2_COLLATION_ID_UCS2 = 0x280"
definition MY_PAGE2_COLLATION_ID_UTF16 :: uint where "MY_PAGE2_COLLATION_ID_UTF16 = 0x2A0"
definition MY_PAGE2_COLLATION_ID_UTF32 :: uint where "MY_PAGE2_COLLATION_ID_UTF32 = 0x2E0"

definition upgrade_collation_id :: "uint \<Rightarrow> uint \<Rightarrow> uint" where
  "upgrade_collation_id mysql_version cs_number =
     (if mysql_version \<ge> 50300 \<and> mysql_version \<le> 50399 \<and> cs_number = 149 then MY_PAGE2_COLLATION_ID_UCS2
      else if mysql_version \<ge> 50300 \<and> mysql_version \<le> 50399 \<and> cs_number = 213 then MY_PAGE2_COLLATION_ID_UTF8
      else if mysql_version \<ge> 50500 \<and> mysql_version \<le> 50599 \<or> mysql_version \<ge> 100000 \<and> mysql_version \<le> 100005
      then if cs_number = 149 then MY_PAGE2_COLLATION_ID_UCS2
           else if cs_number = 213 then MY_PAGE2_COLLATION_ID_UTF8
           else if cs_number = 214 then MY_PAGE2_COLLATION_ID_UTF32
           else if cs_number = 215 then MY_PAGE2_COLLATION_ID_UTF16
           else if cs_number = 245 then MY_PAGE2_COLLATION_ID_UTF8MB4
           else cs_number
      else cs_number)"

section \<open>Well-formed strings and their content\<close>

text \<open>The bytes from the pointer to the end of its block, and the bytes of the string.\<close>

definition view :: "mem \<Rightarrow> ptr \<Rightarrow> uchar list" where
  "view m p = (case p of None \<Rightarrow> [] | Some (b, off) \<Rightarrow> (case m b of None \<Rightarrow> [] | Some bytes \<Rightarrow> drop off bytes))"

definition content :: "bs \<Rightarrow> uchar list" where
  "content = (\<lambda>(m, s). take (unat (str_length s)) (view m (Ptr s)))"

definition bs_wf :: "bs \<Rightarrow> bool" where
  "bs_wf = (\<lambda>(m, s).
     unat (str_length s) \<le> length (view m (Ptr s)) \<and> unat (Alloced_length s) \<le> length (view m (Ptr s)) \<and>
     (alloced s \<longrightarrow> (\<exists>b. Ptr s = Some (b, 0) \<and> m b \<noteq> None)))"

lemma peek_view: "peek m p i = (if i < length (view m p) then Some (view m p ! i) else None)"
  by (auto simp: peek_def view_def split: option.splits prod.splits)

lemma length_blit [simp]: "k + length data \<le> length bytes \<Longrightarrow> length (blit bytes k data) = length bytes"
  by (simp add: blit_def)

lemma poke_view:
  assumes "i + length data \<le> length (view m p)" "data \<noteq> []"
  shows "\<exists>m'. poke m p i data = Some m' \<and> view m' p = blit (view m p) i data \<and>
           (\<forall>b. (\<forall>off. p \<noteq> Some (b, off)) \<longrightarrow> m' b = m b) \<and> (\<forall>b. m' b = None \<longleftrightarrow> m b = None)"
proof -
  have "view m p \<noteq> []" using assms by (cases "view m p") auto
  then obtain b off bytes where p: "p = Some (b, off)" "m b = Some bytes"
    by (auto simp: view_def split: option.splits prod.splits)
  have len: "off + i + length data \<le> length bytes" using assms p by (cases data) (auto simp: view_def)
  have "drop off (blit bytes (off + i) data) = blit (drop off bytes) i data"
    using len by (simp add: blit_def take_drop ac_simps)
  then show ?thesis using p len by (auto simp: poke_def view_def)
qed

text \<open>What \<open>realloc_raw\<close> promises: it fails and changes nothing, or the buffer has the wanted size and keeps the string.\<close>

definition realloc_spec :: "allocator \<Rightarrow> bool" where
  "realloc_spec ra \<longleftrightarrow>
     (\<forall>n m s. bs_wf (m, s) \<longrightarrow>
        (case ra n (m, s) of
           (True, y) \<Rightarrow> y = (m, s)
         | (False, (m', s')) \<Rightarrow>
             bs_wf (m', s') \<and> content (m', s') = content (m, s) \<and> str_length s' = str_length s \<and>
             extra_alloc s' = extra_alloc s \<and> unat n \<le> unat (Alloced_length s') \<and>
             (\<forall>b. (\<forall>off. Ptr s \<noteq> Some (b, off)) \<and> m b \<noteq> None \<longrightarrow> m' b = m b \<and> (\<forall>off. Ptr s' \<noteq> Some (b, off)))))"

text \<open>Blocks that the string does not point into stay as they are.\<close>

definition frame :: "bs \<Rightarrow> bs \<Rightarrow> bool" where
  "frame = (\<lambda>(m, s) (m', s').
     \<forall>b. (\<forall>off. Ptr s \<noteq> Some (b, off)) \<and> m b \<noteq> None \<longrightarrow> m' b = m b \<and> (\<forall>off. Ptr s' \<noteq> Some (b, off)))"

lemma frame_refl: "frame x x"
  by (cases x) (simp add: frame_def)

lemma frame_trans: "frame x y \<Longrightarrow> frame y z \<Longrightarrow> frame x z"
  unfolding frame_def by (auto split: prod.splits)

lemma poke_string:
  assumes wf: "bs_wf (m, s)" and i: "unat (str_length s) \<le> i" "i + length data \<le> unat (Alloced_length s)" "data \<noteq> []"
  shows "\<exists>m'. poke m (Ptr s) i data = Some m' \<and> bs_wf (m', s) \<and> content (m', s) = content (m, s) \<and>
           view m' (Ptr s) = blit (view m (Ptr s)) i data \<and> frame (m, s) (m', s)"
proof -
  have len: "i + length data \<le> length (view m (Ptr s))" using wf i by (simp add: bs_wf_def)
  obtain m' where m': "poke m (Ptr s) i data = Some m'" "view m' (Ptr s) = blit (view m (Ptr s)) i data"
    "\<forall>b. (\<forall>off. Ptr s \<noteq> Some (b, off)) \<longrightarrow> m' b = m b" "\<forall>b. m' b = None \<longleftrightarrow> m b = None"
    using poke_view [OF len i(3)] by blast
  have "content (m', s) = content (m, s)" using m'(2) i len by (simp add: content_def blit_def)
  moreover have "bs_wf (m', s)"
    unfolding bs_wf_def prod.case m'(2) m'(4) [rule_format] length_blit [OF len] using wf [unfolded bs_wf_def prod.case] .
  moreover have "frame (m, s) (m', s)" using m'(3) by (auto simp: frame_def)
  ultimately show ?thesis using m' by blast
qed

text \<open>Writing at the end of the string and lengthening it.\<close>

lemma extend_string:
  assumes wf: "bs_wf (m, s)" and len: "unat (str_length s) + length data \<le> unat (Alloced_length s)" "data \<noteq> []"
  shows "\<exists>m'. poke m (Ptr s) (unat (str_length s)) data = Some m' \<and>
           bs_wf (m', s\<lparr>str_length := str_length s + of_nat (length data)\<rparr>) \<and>
           content (m', s\<lparr>str_length := str_length s + of_nat (length data)\<rparr>) = content (m, s) @ data \<and>
           view m' (Ptr s) = blit (view m (Ptr s)) (unat (str_length s)) data \<and>
           unat (str_length s + of_nat (length data)) = unat (str_length s) + length data \<and>
           frame (m, s) (m', s\<lparr>str_length := str_length s + of_nat (length data)\<rparr>)"
proof -
  obtain m' where m': "poke m (Ptr s) (unat (str_length s)) data = Some m'" "bs_wf (m', s)"
    "view m' (Ptr s) = blit (view m (Ptr s)) (unat (str_length s)) data" "frame (m, s) (m', s)"
    using poke_string [OF wf order_refl len] by blast
  have "unat (str_length s) + length data < 2 ^ 32" using len unat_bound [of "Alloced_length s"] by simp
  then have "unat (str_length s + of_nat (length data)) = unat (str_length s) + length data"
    by (simp add: unat_word_ariths unat_of_nat)
  moreover have "unat (str_length s) + length data \<le> length (view m (Ptr s))" using wf len by (simp add: bs_wf_def)
  ultimately show ?thesis using m' wf len by (auto simp: bs_wf_def content_def frame_def blit_def)
qed

text \<open>The bytes to append lie outside of the block of the string; then no reallocation touches them.\<close>

definition foreign :: "binary_string \<Rightarrow> ptr \<Rightarrow> bool" where
  "foreign s src \<longleftrightarrow> (\<forall>b off off'. src = Some (b, off) \<longrightarrow> Ptr s \<noteq> Some (b, off'))"

lemma read_bytes_view:
  "read_bytes m p i n = (if n = 0 \<or> i + n \<le> length (view m p) then Some (take n (drop i (view m p))) else None)"
proof (induction n arbitrary: i)
  case (Suc n)
  show ?case
  proof (cases "i < length (view m p)")
    case True
    then show ?thesis using Suc [of "Suc i"] by (auto simp: peek_view Cons_nth_drop_Suc [symmetric])
  qed (simp add: peek_view)
qed simp

lemma ucast_ucast_32: "(ucast (ucast w :: ulonglong) :: uint) = w" for w :: uint
  by (rule bit_word_eqI) (auto simp: bit_simps)

lemma view_cong: "view m' p = view m p \<Longrightarrow> peek m' p i = peek m p i" "view m' p = view m p \<Longrightarrow> read_bytes m' p i n = read_bytes m p i n"
  by (simp_all add: peek_view read_bytes_view)

lemma read_bytes_length: "read_bytes m p i n = Some data \<Longrightarrow> length data = n"
  by (auto simp: read_bytes_view split: if_splits)

lemma peek_live: "peek m src i = Some c \<Longrightarrow> \<exists>b off. src = Some (b, off) \<and> m b \<noteq> None"
  by (auto simp: peek_def split: option.splits bind_splits if_splits)

lemma foreign_kept:
  assumes "frame (m, s) (m', s')" "foreign s src" "peek m src i = Some c"
  shows "foreign s' src" "view m' src = view m src"
proof -
  obtain b off where "src = Some (b, off)" "m b \<noteq> None" using peek_live [OF assms(3)] by blast
  then show "foreign s' src" "view m' src = view m src" using assms(1,2) by (auto simp: frame_def foreign_def view_def)
qed

lemma read_bytes_kept:
  assumes "frame (m, s) (m', s')" "foreign s src" "read_bytes m src 0 n = Some data" "0 < n"
  shows "foreign s' src" "read_bytes m' src 0 n = Some data"
proof -
  obtain c where "peek m src 0 = Some c" using assms(3,4) by (cases n) (auto split: bind_splits)
  from foreign_kept [OF assms(1,2) this] show "foreign s' src" "read_bytes m' src 0 n = Some data"
    using assms(3) view_cong(2) [of m' src m 0 n] by simp_all
qed

lemma realloc_cases:
  assumes "realloc_spec ra" "bs_wf (m, s)"
  obtains (fail) "ra n (m, s) = (True, (m, s))"
  | (grown) m' s' where "ra n (m, s) = (False, (m', s'))" "bs_wf (m', s')" "content (m', s') = content (m, s)"
    "str_length s' = str_length s" "extra_alloc s' = extra_alloc s" "unat n \<le> unat (Alloced_length s')" "frame (m, s) (m', s')"
proof -
  obtain r m' s' where r: "ra n (m, s) = (r, (m', s'))" by (metis prod.collapse)
  show thesis
  proof (cases r)
    case True
    then show ?thesis using assms r fail by (auto simp: realloc_spec_def split: prod.splits bool.splits)
  next
    case False
    then have "bs_wf (m', s') \<and> content (m', s') = content (m, s) \<and> str_length s' = str_length s \<and>
             extra_alloc s' = extra_alloc s \<and> unat n \<le> unat (Alloced_length s') \<and> frame (m, s) (m', s')"
      using assms r unfolding realloc_spec_def frame_def by (fastforce split: prod.splits bool.splits)
    then show ?thesis using grown [of m' s'] r False by simp
  qed
qed

text \<open>Whatever \<open>append\<close> and \<open>append_char\<close> ask for, they get room for it and a terminator after it.\<close>

lemma realloc_with_extra_ok:
  assumes ra: "realloc_spec ra" and wf: "bs_wf (m, s)" and n: "unat (str_length s) \<le> unat n" "unat n < 2 ^ 63"
  shows "\<exists>oom m' s'. realloc_with_extra ra n (m, s) = Some (oom, (m', s')) \<and> bs_wf (m', s') \<and> content (m', s') = content (m, s) \<and>
           str_length s' = str_length s \<and> frame (m, s) (m', s') \<and>
           (\<not> oom \<longrightarrow> unat n < unat (Alloced_length s') \<and> peek m' (Ptr s') (unat n) = Some 0)"
proof -
  define t where "t = (if extra_alloc s < 4096 then s\<lparr>extra_alloc := extra_alloc s * 2 + 128\<rparr> else s)"
  have t: "bs_wf (m, t)" "content (m, t) = content (m, s)" "str_length t = str_length s" "Ptr t = Ptr s"
    using wf by (simp_all add: t_def bs_wf_def content_def)
  have extra: "0 < unat (extra_alloc t)"
  proof (cases "extra_alloc s < 4096")
    case True
    then have "unat (extra_alloc s) < 4096" by (simp add: word_less_nat_alt)
    then have "unat (extra_alloc s * 2 + 128) = unat (extra_alloc s) * 2 + 128" by (simp add: unat_word_ariths)
    then show ?thesis using True by (simp add: t_def)
  next
    case False
    then show ?thesis by (simp add: t_def word_less_nat_alt)
  qed
  have "unat (n + ucast (extra_alloc t)) = unat n + unat (extra_alloc t)"
    using n(2) unat_bound [of "extra_alloc t"] by (simp add: unat_word_ariths unsigned_ucast_eq take_bit_nat_eq_self)
  then have sum: "unat n < unat (n + ucast (extra_alloc t))" using extra by simp
  show ?thesis
  proof (rule realloc_cases [OF ra t(1), of "n + ucast (extra_alloc t)"])
    assume "ra (n + ucast (extra_alloc t)) (m, t) = (True, (m, t))"
    then show ?thesis using t by (auto simp: realloc_with_extra_def Let_def frame_def simp flip: t_def)
  next
    fix m1 s1
    assume g: "ra (n + ucast (extra_alloc t)) (m, t) = (False, (m1, s1))" "bs_wf (m1, s1)" "content (m1, s1) = content (m, t)"
      "str_length s1 = str_length t" "unat (n + ucast (extra_alloc t)) \<le> unat (Alloced_length s1)" "frame (m, t) (m1, s1)"
    have lt: "unat n < unat (Alloced_length s1)" using g(5) sum by simp
    then obtain m2 where m2: "poke m1 (Ptr s1) (unat n) [0] = Some m2" "bs_wf (m2, s1)" "content (m2, s1) = content (m1, s1)"
      "view m2 (Ptr s1) = blit (view m1 (Ptr s1)) (unat n) [0]" "frame (m1, s1) (m2, s1)"
      using poke_string [OF g(2), of "unat n" "[0]"] n g(4) t by auto
    have "unat n < length (view m1 (Ptr s1))" using lt g(2) by (simp add: bs_wf_def)
    then have "peek m2 (Ptr s1) (unat n) = Some 0" using m2(4) by (simp add: peek_view blit_def nth_append)
    moreover have "frame (m, s) (m2, s1)" using frame_trans [OF g(6) m2(5)] t(4) by (simp add: frame_def)
    moreover have "realloc_with_extra ra n (m, s) = Some (False, (m2, s1))"
      using g(1) m2(1) by (simp add: realloc_with_extra_def Let_def flip: t_def)
    ultimately show ?thesis using m2 g t lt by auto
  qed
qed

lemma if_needed_ok:
  assumes ra: "realloc_spec ra" and wf: "bs_wf (m, s)" and n: "unat (str_length s) \<le> unat n" "unat n < 2 ^ 63"
  shows "\<exists>oom m' s'. realloc_with_extra_if_needed ra n (m, s) = Some (oom, (m', s')) \<and> bs_wf (m', s') \<and>
           content (m', s') = content (m, s) \<and> str_length s' = str_length s \<and> frame (m, s) (m', s') \<and>
           (\<not> oom \<longrightarrow> unat n < unat (Alloced_length s') \<and> peek m' (Ptr s') (unat n) = Some 0)"
proof (cases "n < ucast (Alloced_length s)")
  case True
  then have lt: "unat n < unat (Alloced_length s)"
    using unat_bound [of "Alloced_length s"] by (simp add: word_less_nat_alt unsigned_ucast_eq take_bit_nat_eq_self)
  then obtain m' where m': "poke m (Ptr s) (unat n) [0] = Some m'" "bs_wf (m', s)" "content (m', s) = content (m, s)"
    "view m' (Ptr s) = blit (view m (Ptr s)) (unat n) [0]" "frame (m, s) (m', s)"
    using poke_string [OF wf n(1), of "[0]"] by auto
  have "unat n < length (view m (Ptr s))" using lt wf by (simp add: bs_wf_def)
  then have "peek m' (Ptr s) (unat n) = Some 0" using m'(4) by (simp add: peek_view blit_def nth_append)
  then show ?thesis using True m' lt by (auto simp: realloc_with_extra_if_needed_def)
next
  case False
  then show ?thesis using realloc_with_extra_ok [OF ra wf n] by (simp add: realloc_with_extra_if_needed_def)
qed

lemma q_append_ok:
  assumes wf: "bs_wf (m, s)" and len: "unat (str_length s) + unat d \<le> unat (Alloced_length s)" "d \<noteq> 0"
    and src: "read_bytes m src 0 (unat d) = Some data" "\<not> areas_overlap (Ptr s) (unat (str_length s)) src (unat d)"
  shows "\<exists>m'. q_append src d (m, s) = Some (m', s\<lparr>str_length := str_length s + of_nat (length data)\<rparr>) \<and>
           bs_wf (m', s\<lparr>str_length := str_length s + of_nat (length data)\<rparr>) \<and>
           content (m', s\<lparr>str_length := str_length s + of_nat (length data)\<rparr>) = content (m, s) @ data \<and>
           view m' (Ptr s) = blit (view m (Ptr s)) (unat (str_length s)) data \<and>
           unat (str_length s + of_nat (length data)) = unat (str_length s) + length data \<and>
           frame (m, s) (m', s\<lparr>str_length := str_length s + of_nat (length data)\<rparr>)"
proof -
  have d: "unat d = length data" using read_bytes_length [OF src(1)] by simp
  then have ne: "data \<noteq> []" using len(2) by (auto simp: unat_eq_zero)
  have len': "unat (str_length s) + length data \<le> unat (Alloced_length s)" using len(1) d by simp
  have b: "unat (str_length s) + length data < 2 ^ 32" using len' unat_bound [of "Alloced_length s"] by simp
  have "(ucast d :: uint) = of_nat (unat d)" by simp
  then have cast: "(ucast d :: uint) = of_nat (length data)" unfolding d .
  have "unat (4294967295 - d) = 4294967295 - length data"
    using b d by (simp add: unat_sub_if_size word_le_nat_alt)
  moreover have "unat (ucast (str_length s) :: ulonglong) = unat (str_length s)"
    using unat_bound [of "str_length s"] by (simp add: unsigned_ucast_eq take_bit_nat_eq_self)
  ultimately have a2: "(ucast (str_length s) :: ulonglong) \<le> 4294967295 - d" using b by (simp add: word_le_nat_alt)
  have sum: "unat (str_length s + of_nat (length data)) = unat (str_length s) + length data"
    using b by (simp add: unat_word_ariths unat_of_nat)
  then have a1: "ASSERT_LENGTH d s" using len' by (simp add: ASSERT_LENGTH_def cast word_le_nat_alt)
  show ?thesis using extend_string [OF wf len' ne] a1 a2 len(2) cast sum src
    by (auto simp: q_append_def bs_memcpy_def)
qed

lemma sum_length:
  assumes "unat sz < 2 ^ 62"
  shows "unat (ucast (str_length s) + sz :: ulonglong) = unat (str_length s) + unat sz"
proof -
  have "unat (ucast (str_length s) :: ulonglong) = unat (str_length s)"
    using unat_bound [of "str_length s"] by (simp add: unsigned_ucast_eq take_bit_nat_eq_self)
  then show ?thesis using assms unat_bound [of "str_length s"] by (simp add: unat_word_ariths)
qed

text \<open>Appending after the buffer has been made large enough.\<close>

lemma append_in_room:
  assumes wf: "bs_wf (m, s)" and len: "unat (str_length s) + unat d < unat (Alloced_length s)" "d \<noteq> 0"
    and z: "peek m (Ptr s) (unat (str_length s) + unat d) = Some 0"
    and src: "read_bytes m src 0 (unat d) = Some data" "\<not> areas_overlap (Ptr s) (unat (str_length s)) src (unat d)"
  shows "\<exists>m' s'. q_append src d (m, s) = Some (m', s') \<and> bs_wf (m', s') \<and> frame (m, s) (m', s') \<and> content (m', s') = content (m, s) @ data \<and>
           peek m' (Ptr s') (unat (str_length s')) = Some 0"
proof -
  let ?s = "s\<lparr>str_length := str_length s + of_nat (length data)\<rparr>" and ?k = "unat (str_length s) + unat d"
  obtain m2 where m2: "q_append src d (m, s) = Some (m2, ?s)" "bs_wf (m2, ?s)" "content (m2, ?s) = content (m, s) @ data"
    "view m2 (Ptr s) = blit (view m (Ptr s)) (unat (str_length s)) data"
    "unat (str_length s + of_nat (length data)) = unat (str_length s) + length data" "frame (m, s) (m2, ?s)"
    using q_append_ok [OF wf _ len(2) src] len(1) by auto
  have d: "unat d = length data" using read_bytes_length [OF src(1)] by simp
  have "?k < length (view m (Ptr s))" using wf len(1) by (simp add: bs_wf_def)
  then have "view m2 (Ptr s) ! ?k = view m (Ptr s) ! ?k" "?k < length (view m2 (Ptr s))"
    using m2(4) d by (simp_all add: blit_def nth_append)
  then have "peek m2 (Ptr s) ?k = Some 0" using z by (simp add: peek_view split: if_splits)
  then show ?thesis using m2 d by (intro exI [of _ m2] exI [of _ ?s]) simp
qed

lemma foreign_no_overlap: "foreign s src \<Longrightarrow> \<not> areas_overlap (Ptr s) i src n"
  by (auto simp: foreign_def areas_overlap_def split: option.splits)

lemma append_bytes_ok:
  assumes ra: "realloc_spec ra" and wf: "bs_wf (m, s)" and n: "unat sz < 2 ^ 62"
    and src: "foreign s src" "read_bytes m src 0 (unat sz) = Some data"
  shows "\<exists>oom m' s'. append_bytes ra src sz (m, s) = Some (oom, (m', s')) \<and> bs_wf (m', s') \<and> frame (m, s) (m', s') \<and>
           content (m', s') = (if oom then content (m, s) else content (m, s) @ data) \<and>
           (\<not> oom \<and> sz \<noteq> 0 \<longrightarrow> peek m' (Ptr s') (unat (str_length s')) = Some 0)"
proof (cases "sz = 0")
  case True
  then show ?thesis using wf src(2) by (auto simp: append_bytes_def intro!: frame_refl)
next
  case False
  let ?k = "ucast (str_length s) + sz :: ulonglong"
  note k = sum_length [OF n, of s]
  obtain oom m1 s1 where r: "realloc_with_extra_if_needed ra ?k (m, s) = Some (oom, (m1, s1))" "bs_wf (m1, s1)"
    "content (m1, s1) = content (m, s)" "str_length s1 = str_length s" "frame (m, s) (m1, s1)"
    "\<not> oom \<longrightarrow> unat ?k < unat (Alloced_length s1) \<and> peek m1 (Ptr s1) (unat ?k) = Some 0"
    using if_needed_ok [OF ra wf, of ?k] k n unat_bound [of "str_length s"] by auto
  show ?thesis
  proof (cases oom)
    case True
    then show ?thesis using r False by (auto simp: append_bytes_def)
  next
    case ok: False
    have "0 < unat sz" using False by (simp add: unat_gt_0)
    note kept = read_bytes_kept [OF r(5) src this]
    have "unat (str_length s1) + unat sz < unat (Alloced_length s1)" "peek m1 (Ptr s1) (unat (str_length s1) + unat sz) = Some 0"
      using r(4,6) ok k by simp_all
    then obtain m2 s2 where "q_append src sz (m1, s1) = Some (m2, s2)" "bs_wf (m2, s2)" "frame (m1, s1) (m2, s2)"
      "content (m2, s2) = content (m1, s1) @ data" "peek m2 (Ptr s2) (unat (str_length s2)) = Some 0"
      using append_in_room [OF r(2) _ False _ kept(2) foreign_no_overlap [OF kept(1)]] by blast
    then show ?thesis using r ok False frame_trans [OF r(5)] by (auto simp: append_bytes_def)
  qed
qed

text \<open>
  A string appended to itself: in a buffer that has room its content is doubled. When the buffer has to grow and \<open>realloc_raw\<close> moves it, the source pointer that was
  taken before points into the freed block.
\<close>

lemma append_own_buffer:
  assumes "bs_wf (m, s)" "str_length s \<noteq> 0" "2 * unat (str_length s) < unat (Alloced_length s)"
  shows "\<exists>m' s'. append_string ra s (m, s) = Some (False, (m', s')) \<and> bs_wf (m', s') \<and> content (m', s') = content (m, s) @ content (m, s)"
proof -
  let ?d = "ucast (str_length s) :: ulonglong" and ?n = "unat (str_length s)"
  have d: "unat ?d = ?n" using unat_bound [of "str_length s"] by (simp add: unsigned_ucast_eq take_bit_nat_eq_self)
  then have d2: "unat (?d + ?d) = ?n + ?n" "unat ?d < 2 ^ 62" using unat_bound [of "str_length s"] by (simp_all add: unat_word_ariths)
  have "unat (ucast (Alloced_length s) :: ulonglong) = unat (Alloced_length s)"
    using unat_bound [of "Alloced_length s"] by (simp add: unsigned_ucast_eq take_bit_nat_eq_self)
  then have lt: "?d + ?d < ucast (Alloced_length s)" using d2 assms(3) by (simp add: word_less_nat_alt)
  have len: "?n + ?n < unat (Alloced_length s)" using assms(3) by simp
  obtain m1 where m1: "poke m (Ptr s) (?n + ?n) [0] = Some m1" "bs_wf (m1, s)" "content (m1, s) = content (m, s)"
    "view m1 (Ptr s) = blit (view m (Ptr s)) (?n + ?n) [0]"
    using poke_string [OF assms(1), of "?n + ?n" "[0]"] len by auto
  have v: "?n + ?n < length (view m (Ptr s))" using len assms(1) by (simp add: bs_wf_def)
  then have z: "peek m1 (Ptr s) (?n + unat ?d) = Some 0" using m1(4) d by (simp add: peek_view blit_def nth_append)
  have "read_bytes m1 (Ptr s) 0 (unat ?d) = Some (content (m1, s))" using m1(2) d by (simp add: read_bytes_view content_def bs_wf_def)
  moreover have "\<not> areas_overlap (Ptr s) ?n (Ptr s) (unat ?d)" using d by (auto simp: areas_overlap_def split: option.splits)
  moreover have "?d \<noteq> 0" using assms(2) d by (metis unat_0 unat_eq_zero)
  ultimately obtain m2 s2 where "q_append (Ptr s) ?d (m1, s) = Some (m2, s2)" "bs_wf (m2, s2)" "content (m2, s2) = content (m1, s) @ content (m1, s)"
    using append_in_room [OF m1(2) _ _ z, of "Ptr s" "content (m1, s)"] len d by auto
  then show ?thesis using m1(1,3) lt d2(1) \<open>?d \<noteq> 0\<close>
    by (auto simp: append_string_def append_bytes_def bs_length_def realloc_with_extra_if_needed_def)
qed

lemma append_own_buffer_moved:
  assumes "str_length s \<noteq> 0" "Ptr s = Some (b, off)" "\<And>n t m1 s1. ra n (m, t) = (False, (m1, s1)) \<Longrightarrow> m1 b = None"
    and "ucast (Alloced_length s) \<le> (ucast (str_length s) + ucast (str_length s) :: ulonglong)" "append_string ra s (m, s) = Some (oom, y)"
  shows oom
proof (rule ccontr)
  let ?d = "ucast (str_length s) :: ulonglong"
  assume "\<not> oom"
  have d: "?d \<noteq> 0" using assms(1) by (metis ucast_ucast_32 unsigned_0)
  then obtain m1 s1 where r: "realloc_with_extra ra (?d + ?d) (m, s) = Some (False, (m1, s1))" "q_append (Ptr s) ?d (m1, s1) \<noteq> None"
    using assms(4,5) \<open>\<not> oom\<close>
    by (auto simp: append_string_def append_bytes_def bs_length_def realloc_with_extra_if_needed_def split: bind_splits if_splits)
  then have "m1 b = None"
    by (auto simp: realloc_with_extra_def Let_def poke_def dest!: assms(3) split: prod.splits bool.splits bind_splits if_splits)
  then have "read_bytes m1 (Ptr s) 0 (unat ?d) = None" using assms(2) d by (auto simp: read_bytes_view view_def unat_eq_zero)
  then show False using r(2) d by (auto simp: q_append_def bs_memcpy_def split: if_splits)
qed

lemma append_char_ok:
  assumes ra: "realloc_spec ra" and wf: "bs_wf (m, s)" and n: "unat (str_length s) + 1 < 2 ^ 32"
  shows "\<exists>oom m' s'. append_char ra c (m, s) = Some (oom, (m', s')) \<and> bs_wf (m', s') \<and> frame (m, s) (m', s') \<and>
           content (m', s') = (if oom then content (m, s) else content (m, s) @ [c]) \<and>
           unat (str_length s') = (if oom then unat (str_length s) else unat (str_length s) + 1)"
proof (cases "str_length s < Alloced_length s")
  case True
  then have "unat (str_length s) + length [c] \<le> unat (Alloced_length s)" by (simp add: word_less_nat_alt)
  then show ?thesis using extend_string [OF wf, of "[c]"] True by (auto simp: append_char_def)
next
  case False
  have k1: "unat (str_length s + 1) = unat (str_length s) + 1" using n by (simp add: unat_word_ariths)
  define k :: ulonglong where "k = ucast (str_length s + 1)"
  have k: "unat k = unat (str_length s) + 1" unfolding k_def
    using k1 unat_bound [of "str_length s + 1"] by (simp add: unsigned_ucast_eq take_bit_nat_eq_self)
  obtain oom m1 s1 where r: "realloc_with_extra ra k (m, s) = Some (oom, (m1, s1))" "bs_wf (m1, s1)"
    "content (m1, s1) = content (m, s)" "str_length s1 = str_length s" "frame (m, s) (m1, s1)"
    "\<not> oom \<longrightarrow> unat k < unat (Alloced_length s1)"
    using realloc_with_extra_ok [OF ra wf, of k] k n by auto
  show ?thesis
  proof (cases oom)
    case True
    then show ?thesis using r False by (auto simp: append_char_def simp flip: k_def)
  next
    case ok: False
    then have "unat (str_length s1) + length [c] \<le> unat (Alloced_length s1)" using r k by simp
    from extend_string [OF r(2) this] obtain m2 where m2: "poke m1 (Ptr s1) (unat (str_length s1)) [c] = Some m2"
      "bs_wf (m2, s1\<lparr>str_length := str_length s1 + 1\<rparr>)" "content (m2, s1\<lparr>str_length := str_length s1 + 1\<rparr>) = content (m1, s1) @ [c]"
      "frame (m1, s1) (m2, s1\<lparr>str_length := str_length s1 + 1\<rparr>)" by auto
    then show ?thesis using r ok False k1 frame_trans [OF r(5) m2(4)] by (auto simp: append_char_def simp flip: k_def)
  qed
qed

text \<open>The digits of bytes.\<close>

definition hex_digits :: "uchar list \<Rightarrow> uchar list" where
  "hex_digits bytes = concat (map (\<lambda>c. [dig_vec_lower (drop_bit 4 c), dig_vec_lower (c AND 15)]) bytes)"

lemma hex_digits_simps [simp]:
  "hex_digits [] = []" "hex_digits (c # cs) = dig_vec_lower (drop_bit 4 c) # dig_vec_lower (c AND 15) # hex_digits cs"
  by (simp_all add: hex_digits_def)

lemma append_hex_ok:
  assumes ra: "realloc_spec ra" and "bs_wf (m, s)" "unat (str_length s) + 2 * n < 2 ^ 32" "foreign s src" "read_bytes m src i n = Some data"
  shows "\<exists>oom y. append_hex_loop ra src i n (m, s) = Some (oom, y) \<and> bs_wf y \<and> frame (m, s) y \<and>
           (if oom then \<exists>k < 2 * n. content y = content (m, s) @ take k (hex_digits data) else content y = content (m, s) @ hex_digits data)"
  using assms(2-)
proof (induction n arbitrary: m s i data)
  case 0
  then show ?case by (auto simp: frame_refl)
next
  case (Suc n)
  obtain c rest where c: "peek m src i = Some c" "data = c # rest" "read_bytes m src (Suc i) n = Some rest"
    using Suc.prems(4) by (auto split: bind_splits)
  let ?hi = "dig_vec_lower (drop_bit 4 c)" and ?lo = "dig_vec_lower (c AND 15)"
  obtain oom m1 s1 where a: "append_char ra ?hi (m, s) = Some (oom, (m1, s1))" "bs_wf (m1, s1)" "frame (m, s) (m1, s1)"
    "content (m1, s1) = (if oom then content (m, s) else content (m, s) @ [?hi])"
    "unat (str_length s1) = (if oom then unat (str_length s) else unat (str_length s) + 1)"
    using append_char_ok [OF ra Suc.prems(1), of ?hi] Suc.prems(2) by auto
  note f1 = foreign_kept [OF a(3) Suc.prems(3) c(1)]
  show ?case
  proof (cases oom)
    case True
    then show ?thesis using a c by (auto intro!: exI [of _ 0])
  next
    case ok: False
    have c1: "peek m1 src i = Some c" using c(1) view_cong(1) [OF f1(2)] by simp
    obtain oom2 m2 s2 where b: "append_char ra ?lo (m1, s1) = Some (oom2, (m2, s2))" "bs_wf (m2, s2)" "frame (m1, s1) (m2, s2)"
      "content (m2, s2) = (if oom2 then content (m1, s1) else content (m1, s1) @ [?lo])"
      "unat (str_length s2) = (if oom2 then unat (str_length s1) else unat (str_length s1) + 1)"
      using append_char_ok [OF ra a(2), of ?lo] Suc.prems(2) a(5) ok by auto
    note f2 = foreign_kept [OF b(3) f1(1) c1]
    note f = frame_trans [OF a(3) b(3)]
    show ?thesis
    proof (cases oom2)
      case True
      then show ?thesis using a b c c1 f ok by (auto intro!: exI [of _ 1])
    next
      case False
      have "read_bytes m2 src (Suc i) n = Some rest" using c(3) view_cong(2) [of m2 src m] f1(2) f2(2) by simp
      then obtain oom3 y where y: "append_hex_loop ra src (Suc i) n (m2, s2) = Some (oom3, y)" "bs_wf y" "frame (m2, s2) y"
        "if oom3 then \<exists>k < 2 * n. content y = content (m2, s2) @ take k (hex_digits rest) else content y = content (m2, s2) @ hex_digits rest"
        using Suc.IH [OF b(2) _ f2(1), of "Suc i" rest] Suc.prems(2) a(5) b(5) ok False by auto
      have c2: "content (m2, s2) = content (m, s) @ [?hi, ?lo]" using a b ok False by simp
      have "if oom3 then \<exists>k < 2 * Suc n. content y = content (m, s) @ take k (hex_digits data) else content y = content (m, s) @ hex_digits data"
      proof (cases oom3)
        case True
        then obtain k where "k < 2 * n" "content y = content (m2, s2) @ take k (hex_digits rest)" using y(4) by auto
        then have "Suc (Suc k) < 2 * Suc n" "content y = content (m, s) @ take (Suc (Suc k)) (hex_digits data)" using c2 c(2) by auto
        then show ?thesis using True by (simp only: if_True) blast
      qed (use y(4) c2 c(2) in simp)
      then show ?thesis using a(1) b(1) c(1) c1 y(1-3) ok False frame_trans [OF f y(3)] by (cases oom3) auto
    qed
  qed
qed

section \<open>Ownership\<close>








text \<open>An allocator that lengthens an owned block in place, and a string for it.\<close>

definition grow_in_place :: allocator where
  "grow_in_place n = (\<lambda>(m, s).
     if unat n \<le> unat (Alloced_length s) then (False, (m, s))
     else if alloced s \<and> unat n < 2 ^ 32
     then (case Ptr s of
             None \<Rightarrow> (True, (m, s))
           | Some (b, off) \<Rightarrow> (False, (m(b \<mapsto> view m (Ptr s) @ replicate (unat n) 0), s\<lparr>Alloced_length := ucast n\<rparr>)))
     else (True, (m, s)))"

lemma grow_in_place_spec: "realloc_spec grow_in_place"
  unfolding realloc_spec_def
proof (intro allI impI)
  fix n :: ulonglong and m :: mem and s
  assume wf: "bs_wf (m, s)"
  have "unat (ucast n :: uint) = unat n" if "unat n < 2 ^ 32"
    using that by (simp add: unsigned_ucast_eq take_bit_nat_eq_self)
  then show "case grow_in_place n (m, s) of
           (True, y) \<Rightarrow> y = (m, s)
         | (False, (m', s')) \<Rightarrow>
             bs_wf (m', s') \<and> content (m', s') = content (m, s) \<and> str_length s' = str_length s \<and>
             extra_alloc s' = extra_alloc s \<and> unat n \<le> unat (Alloced_length s') \<and>
             (\<forall>b. (\<forall>off. Ptr s \<noteq> Some (b, off)) \<and> m b \<noteq> None \<longrightarrow> m' b = m b \<and> (\<forall>off. Ptr s' \<noteq> Some (b, off)))"
    using wf by (auto simp: grow_in_place_def bs_wf_def content_def view_def)
qed

definition hello_mem :: mem where "hello_mem = [7 \<mapsto> [104, 105], 8 \<mapsto> [0, 33, 34]]"

definition hello :: binary_string where
  "hello = \<lparr>Ptr = Some (7, 0), str_length = 2, Alloced_length = 2, extra_alloc = 0, alloced = True, thread_specific = False\<rparr>"

lemma hello_wf: "bs_wf (hello_mem, hello)" "content (hello_mem, hello) = [104, 105]"
  by (simp_all add: bs_wf_def content_def view_def hello_def hello_mem_def)

section \<open>Collations\<close>

lemma collation_changes_end:
  assumes "latest_mariadb_version_with_collation_change \<le> v"
  shows "\<not> collation_changed_order v cs"
proof -
  have v: "110002 \<le> v" using assms by (simp add: latest_mariadb_version_with_collation_change_def)
  have "\<not> v < c" if "c \<le> 110002" for c using v that by (simp add: not_less order_trans [of c 110002 v])
  then show ?thesis by (simp add: collation_changed_order_def)
qed

lemma upgrade_collation_id_idem: "upgrade_collation_id v (upgrade_collation_id v cs) = upgrade_collation_id v cs"
  by (simp add: upgrade_collation_id_def MY_PAGE2_COLLATION_ID_UTF8_def MY_PAGE2_COLLATION_ID_UTF8MB4_def
      MY_PAGE2_COLLATION_ID_UCS2_def MY_PAGE2_COLLATION_ID_UTF16_def MY_PAGE2_COLLATION_ID_UTF32_def)

section \<open>Properties\<close>

text \<open>C4. Appending to a well-formed string, for any \<open>realloc_raw\<close> that keeps its promise. The \<open>sz\<close> bytes to append, less than \<open>2 ^ 62\<close>, are at a pointer outside of the
  block of the string. Every assertion passes and every access is inside a live block; the string stays well-formed and no other block changes.
  \<open>append\<close> returns true and keeps the content (always when the result would not be shorter than \<open>2 ^ 32\<close>), or it appends exactly these bytes with a zero byte behind them.
  \<open>append_char\<close> of a character, as long as the new length is below \<open>2 ^ 32\<close>, appends it or returns true and keeps the content.
  \<open>append_hex\<close>, for a new length below \<open>2 ^ 32\<close>, appends the two hexadecimal digits of each byte, or returns true and leaves the content followed by a proper prefix of the digits.
\<close>

theorem binary_string_append:
  assumes "realloc_spec ra" and "bs_wf (m, s)" and "foreign s src" "unat sz < 2 ^ 62" "read_bytes m src 0 (unat sz) = Some data"
  shows "(\<exists>oom y. append_bytes ra src sz (m, s) = Some (oom, y) \<and> bs_wf y \<and> frame (m, s) y \<and>
            content y = (if oom then content (m, s) else content (m, s) @ data) \<and>
            (2 ^ 32 \<le> unat (str_length s) + unat sz \<and> sz \<noteq> 0 \<longrightarrow> oom) \<and>
            (\<not> oom \<and> sz \<noteq> 0 \<longrightarrow> peek (fst y) (Ptr (snd y)) (unat (str_length (snd y))) = Some 0)) \<and>
         (unat (str_length s) + 1 < 2 ^ 32 \<longrightarrow> (\<exists>oom y. append_char ra c (m, s) = Some (oom, y) \<and> bs_wf y \<and> frame (m, s) y \<and>
            content y = (if oom then content (m, s) else content (m, s) @ [c]))) \<and>
         (unat (str_length s) + 2 * unat sz < 2 ^ 32 \<longrightarrow> (\<exists>oom y. append_hex ra src (ucast sz) (m, s) = Some (oom, y) \<and> bs_wf y \<and> frame (m, s) y \<and>
            (if oom then \<exists>k < 2 * unat sz. content y = content (m, s) @ take k (hex_digits data) else content y = content (m, s) @ hex_digits data)))"
proof (intro conjI impI)
  obtain oom m' s' where a: "append_bytes ra src sz (m, s) = Some (oom, (m', s'))" "bs_wf (m', s')" "frame (m, s) (m', s')"
    "content (m', s') = (if oom then content (m, s) else content (m, s) @ data)" "\<not> oom \<and> sz \<noteq> 0 \<longrightarrow> peek m' (Ptr s') (unat (str_length s')) = Some 0"
    using append_bytes_ok [OF assms(1,2,4,3,5)] by blast
  have "length (content (m, s)) = unat (str_length s)" "length (content (m', s')) < 2 ^ 32" "length data = unat sz"
    using assms(2) unat_bound [of "str_length s'"] read_bytes_length [OF assms(5)] by (auto simp: content_def bs_wf_def)
  then have "oom" if "2 ^ 32 \<le> unat (str_length s) + unat sz" using that a(4) by (cases oom) auto
  then show "\<exists>oom y. append_bytes ra src sz (m, s) = Some (oom, y) \<and> bs_wf y \<and> frame (m, s) y \<and>
      content y = (if oom then content (m, s) else content (m, s) @ data) \<and> (2 ^ 32 \<le> unat (str_length s) + unat sz \<and> sz \<noteq> 0 \<longrightarrow> oom) \<and>
      (\<not> oom \<and> sz \<noteq> 0 \<longrightarrow> peek (fst y) (Ptr (snd y)) (unat (str_length (snd y))) = Some 0)"
    using a by (intro exI [of _ oom] exI [of _ "(m', s')"]) simp
next
  assume "unat (str_length s) + 1 < 2 ^ 32"
  then show "\<exists>oom y. append_char ra c (m, s) = Some (oom, y) \<and> bs_wf y \<and> frame (m, s) y \<and>
      content y = (if oom then content (m, s) else content (m, s) @ [c])"
    using append_char_ok [OF assms(1,2), of c] by blast
next
  assume n: "unat (str_length s) + 2 * unat sz < 2 ^ 32"
  then have "unat (ucast sz :: uint) = unat sz" by (simp add: unsigned_ucast_eq take_bit_nat_eq_self)
  then show "\<exists>oom y. append_hex ra src (ucast sz) (m, s) = Some (oom, y) \<and> bs_wf y \<and> frame (m, s) y \<and>
      (if oom then \<exists>k < 2 * unat sz. content y = content (m, s) @ take k (hex_digits data) else content y = content (m, s) @ hex_digits data)"
    using append_hex_ok [OF assms(1,2) n assms(3,5)] by (simp add: append_hex_def)
qed

theorem binary_string_append_witness:
  "\<exists>oom y. append_bytes grow_in_place (Some (8, 1)) 2 (hello_mem, hello) = Some (oom, y) \<and>
     content y = (if oom then [104, 105] else [104, 105, 33, 34])"
proof -
  have "read_bytes hello_mem (Some (8, 1)) 0 (unat (2 :: ulonglong)) = Some [33, 34]" "foreign hello (Some (8, 1))"
    by (simp_all add: read_bytes_view view_def hello_mem_def foreign_def hello_def)
  then show ?thesis using binary_string_append [OF grow_in_place_spec hello_wf(1), of "Some (8, 1)" 2 "[33, 34]", THEN conjunct1] hello_wf(2) by auto
qed



text \<open>
  \<open>append_with_step\<close> (and \<open>prep_append\<close>) add the lengths in 32 bits: with a string of \<open>2 ^ 32 - 16\<close> bytes in a buffer of that sz,
  appending 32 bytes asks for no memory, the length assertion holds for the wrapped sum, and the copy leaves the block.
\<close>

lemma append_with_step_wraps:
  assumes "m b = Some bytes" "length bytes = 2 ^ 32 - 16" "read_bytes m src 0 32 = Some data"
    and "s = \<lparr>Ptr = Some (b, 0), str_length = 4294967280, Alloced_length = 4294967280, extra_alloc = 0, alloced = True,
              thread_specific = False\<rparr>"
  shows "bs_wf (m, s) \<and> ASSERT_LENGTH 32 s \<and> append_with_step ra src 32 step (m, s) = None"
  using assms read_bytes_length [OF assms(3)]
  by (simp add: bs_wf_def view_def ASSERT_LENGTH_def append_with_step_def q_append_def bs_memcpy_def poke_def Let_def)

end
