(* ===== verification/Runner_Utils.thy ===== *)
theory Runner_Utils
  imports Prelude "HOL-Library.Monad_Syntax"
begin

text \<open>
  \<open>utils.cpp\<close> of the Windows runner: the command line as UTF-8. The system's \<open>WideCharToMultiByte\<close> is the parameter \<open>wcmb\<close>; its
  arguments are a string of 16-bit units, their number (\<open>-1\<close> for all of them with the terminating null) and the size of the
  output buffer (0 to ask for the size needed), its results the count and the bytes written. The result \<^const>\<open>None\<close> is
  an exception of \<open>resize\<close>.
\<close>

type_synonym wcmb = "uint16 list \<Rightarrow> int \<Rightarrow> int \<Rightarrow> int \<times> uchar list"

definition Utf8FromUtf16 :: "wcmb \<Rightarrow> (nat \<Rightarrow> bool) \<Rightarrow> nat \<Rightarrow> uint16 list option \<Rightarrow> uchar list option" where
  "Utf8FromUtf16 wcmb can_alloc max_size utf16_string = (case utf16_string of
     None \<Rightarrow> Some []
   | Some s \<Rightarrow>
       let target_length = of_int (fst (wcmb s (-1) 0) - 1) :: uint;
           input_length = sint (of_nat (length s) :: uint)
       in if target_length = 0 \<or> unat target_length > max_size then Some []
          else if \<not> can_alloc (unat target_length) then None
          else let (converted_length, out) = wcmb s input_length (sint target_length)
            in if converted_length = 0 then Some [] else Some (out @ drop (length out) (replicate (unat target_length) 0)))"

fun convert_arguments :: "wcmb \<Rightarrow> (nat \<Rightarrow> bool) \<Rightarrow> nat \<Rightarrow> uint16 list list \<Rightarrow> uchar list list \<Rightarrow> uchar list list option" where
  "convert_arguments wcmb can_alloc max_size [] acc = Some acc"
| "convert_arguments wcmb can_alloc max_size (arg # argv) acc = do {
     a \<leftarrow> Utf8FromUtf16 wcmb can_alloc max_size (Some arg); convert_arguments wcmb can_alloc max_size argv (acc @ [a]) }"

text \<open>The result of \<open>CommandLineToArgvW\<close> is the argument \<open>argv\<close>.\<close>

definition GetCommandLineArguments :: "wcmb \<Rightarrow> (nat \<Rightarrow> bool) \<Rightarrow> nat \<Rightarrow> uint16 list list option \<Rightarrow> uchar list list option" where
  "GetCommandLineArguments wcmb can_alloc max_size argv = (case argv of
     None \<Rightarrow> Some [] | Some args \<Rightarrow> convert_arguments wcmb can_alloc max_size (drop 1 args) [])"

section \<open>The documented behaviour of the conversion\<close>

text \<open>
  \<open>conv s\<close> is the UTF-8 form of \<open>s\<close>, and \<^const>\<open>None\<close> when \<open>s\<close> has an invalid character (\<open>WC_ERR_INVALID_CHARS\<close>): then every call
  answers 0. A negative buffer size is an invalid parameter, which answers 0 too.
\<close>

definition wcmb_contract :: "(uint16 list \<Rightarrow> uchar list option) \<Rightarrow> wcmb \<Rightarrow> bool" where
  "wcmb_contract conv wcmb \<longleftrightarrow>
     conv [] = Some [] \<and>
     (\<forall>s n k. conv s = None \<longrightarrow> fst (wcmb s n k) = 0) \<and>
     (\<forall>s n k. k < 0 \<longrightarrow> fst (wcmb s n k) = 0) \<and>
     (\<forall>s b. conv s = Some b \<and> length b < 2 ^ 31 - 1 \<longrightarrow> fst (wcmb s (-1) 0) = int (length b) + 1) \<and>
     (\<forall>s b k. conv s = Some b \<and> 0 < length b \<and> int (length b) \<le> k \<longrightarrow> wcmb s (int (length s)) k = (int (length b), b))"

text \<open>A string whose UTF-8 form exists and is small enough for the \<open>int\<close> lengths and for the memory.\<close>

definition convertible :: "(uint16 list \<Rightarrow> uchar list option) \<Rightarrow> (nat \<Rightarrow> bool) \<Rightarrow> uint16 list \<Rightarrow> bool" where
  "convertible conv can_alloc s \<longleftrightarrow> length s < 2 ^ 31 \<and>
     (case conv s of None \<Rightarrow> False | Some b \<Rightarrow> length b < 2 ^ 31 - 1 \<and> can_alloc (length b))"

lemma Utf8FromUtf16_valid:
  assumes c: "wcmb_contract conv wcmb" and s: "convertible conv can_alloc s" and m: "2 ^ 32 - 1 \<le> max_size"
  shows "Utf8FromUtf16 wcmb can_alloc max_size (Some s) = conv s"
proof -
  obtain b where b: "conv s = Some b" "length b < 2 ^ 31 - 1" "length s < 2 ^ 31" "can_alloc (length b)"
    using s by (auto simp: convertible_def split: option.splits)
  define target :: uint where "target = of_int (fst (wcmb s (-1) 0) - 1)"
  have "fst (wcmb s (-1) 0) = int (length b) + 1" using c b(1,2) by (simp add: wcmb_contract_def)
  then have t: "target = of_nat (length b)" by (simp add: target_def)
  have len: "unat target = length b" using b(2) by (simp add: t unat_of_nat)
  have "length b < 2 ^ 31" using b(2) by simp
  then have slen: "sint target = int (length b)" unfolding t by (rule sint_of_nat_small)
  have zero: "target = 0 \<longleftrightarrow> b = []" using len by (metis length_0_conv unat_eq_zero)
  have fits: "\<not> max_size < length b" using b(2) m by simp
  have step: "Utf8FromUtf16 wcmb can_alloc max_size (Some s) =
      (if target = 0 \<or> unat target > max_size then Some [] else if \<not> can_alloc (unat target) then None
       else let (converted_length, out) = wcmb s (sint (of_nat (length s) :: uint)) (sint target)
         in if converted_length = 0 then Some [] else Some (out @ drop (length out) (replicate (unat target) 0)))"
    by (simp only: Utf8FromUtf16_def Let_def option.case target_def)
  show ?thesis
  proof (cases "b = []")
    case True
    then show ?thesis using zero b(1) step by simp
  next
    case False
    then have "wcmb s (int (length s)) (int (length b)) = (int (length b), b)"
      using c b(1) by (simp add: wcmb_contract_def)
    then show ?thesis using False zero len slen fits b sint_of_nat_small [OF b(3)]
      by (simp add: step)
  qed
qed

lemma Utf8FromUtf16_invalid:
  assumes "wcmb_contract conv wcmb" "conv s = None" "2 ^ 32 - 1 \<le> max_size"
  shows "Utf8FromUtf16 wcmb can_alloc max_size (Some s) = (if can_alloc (2 ^ 32 - 1) then Some [] else None)"
proof -
  have z: "fst (wcmb s n k) = 0" for n k using assms(1,2) by (simp add: wcmb_contract_def)
  have "- 1 = (4294967295 :: uint)" by simp
  then have "unat (- 1 :: uint) = 2 ^ 32 - 1" by (simp only: unat_numeral) simp
  then show ?thesis using z assms(3) by (simp add: Utf8FromUtf16_def Let_def case_prod_beta)
qed

lemma convert_arguments_valid:
  assumes "wcmb_contract conv wcmb" "2 ^ 32 - 1 \<le> max_size" "list_all (convertible conv can_alloc) args"
  shows "convert_arguments wcmb can_alloc max_size args acc = Some (acc @ map (\<lambda>s. the (conv s)) args)"
  using assms(3)
proof (induction args arbitrary: acc)
  case (Cons s args)
  then have "conv s = Some (the (conv s))" by (auto simp: convertible_def split: option.splits)
  then have "Utf8FromUtf16 wcmb can_alloc max_size (Some s) = Some (the (conv s))"
    using Utf8FromUtf16_valid [OF assms(1) _ assms(2)] Cons.prems by simp
  then show ?case using Cons by simp
qed simp

section \<open>Properties\<close>

text \<open>C40. For a \<open>WideCharToMultiByte\<close> that behaves as documented, \<open>GetCommandLineArguments\<close> returns the UTF-8 forms of all
  arguments but the program name, in order, and no arguments when the command line cannot be split; \<open>Utf8FromUtf16\<close> returns the UTF-8
  form of a valid string, and of an invalid one the empty string, but only where a buffer of \<open>2 ^ 32 - 1\<close> bytes can be
  allocated: the length 0 that reports the failure is decremented before it is tested.\<close>

theorem command_line_arguments:
  assumes "wcmb_contract conv wcmb" "2 ^ 32 - 1 \<le> max_size"
    and "list_all (convertible conv can_alloc) args" "conv bad = None"
  shows "GetCommandLineArguments wcmb can_alloc max_size (Some (name # args)) = Some (map (\<lambda>s. the (conv s)) args) \<and>
         GetCommandLineArguments wcmb can_alloc max_size None = Some [] \<and>
         Utf8FromUtf16 wcmb can_alloc max_size (Some bad) = (if can_alloc (2 ^ 32 - 1) then Some [] else None)"
  using convert_arguments_valid [OF assms(1-3), of "[]"] Utf8FromUtf16_invalid [OF assms(1,4,2)]
  by (simp add: GetCommandLineArguments_def)

definition ascii_conv :: "uint16 list \<Rightarrow> uchar list option" where
  "ascii_conv s = (if list_all (\<lambda>c. c < 128) s then Some (map ucast s) else None)"

definition ascii_wcmb :: wcmb where
  "ascii_wcmb s n k = (case ascii_conv s of
     None \<Rightarrow> (0, [])
   | Some b \<Rightarrow> if k < 0 \<or> n = 0 then (0, []) else if n = -1 \<and> k = 0 then (int (length b) + 1, []) else (int (length b), b))"

lemma ascii_contract: "wcmb_contract ascii_conv ascii_wcmb"
  by (auto simp: wcmb_contract_def ascii_wcmb_def ascii_conv_def)

theorem command_line_arguments_witness:
  "GetCommandLineArguments ascii_wcmb (\<lambda>n. n \<le> 1000) (2 ^ 63 - 1) (Some [[114, 117, 110], [45, 118], []]) = Some [[45, 118], []] \<and>
   Utf8FromUtf16 ascii_wcmb (\<lambda>n. n \<le> 1000) (2 ^ 63 - 1) (Some [0xD800]) = None"
  using command_line_arguments [OF ascii_contract, of "2 ^ 63 - 1" "\<lambda>n. n \<le> 1000" "[[45, 118], []]" "[0xD800]" "[114, 117, 110]"]
  by (simp add: ascii_conv_def convertible_def)

end
