(* ===== verification/Win32_Window.thy ===== *)
theory Win32_Window
  imports Runner_Utils Complex_Main
begin

text \<open>
  The Windows runner of the application (\<open>win32_window.cpp\<close>, \<open>flutter_window.cpp\<close>, \<open>main.cpp\<close>): the window objects, the
  messages they handle and the life of the process. The operating system and the Flutter engine are the
  parameter \<open>sys\<close>: a call, run on the program's objects and the state of the system, answers a result, and may
  run the window procedure, which it receives, any number of times before it returns. So a handler can be entered
  again while another is running, as \<open>DestroyWindow\<close> does with \<open>WM_DESTROY\<close>; \<open>exec sys n\<close> allows \<open>n\<close> levels of that nesting. The result
  \<^const>\<open>None\<close> is the use of a null pointer, an answer of the wrong kind, an \<open>int\<close> conversion out of range or more nesting than
  allowed.
\<close>

section \<open>Windows, messages and calls\<close>

type_synonym hwnd = nat
type_synonym long = "32 word"

record rect =
  left :: long
  top :: long
  right :: long
  bottom :: long

datatype message = WM_NCCREATE nat | WM_DESTROY | WM_DPICHANGED rect | WM_SIZE | WM_ACTIVATE
  | WM_DWMCOLORIZATIONCOLORCHANGED | WM_FONTCHANGE | WM_OTHER uint ulonglong ulonglong

datatype dyn_type = Win32Window | FlutterWindow

record window =
  dyn_class :: dyn_type
  quit_on_close :: bool
  window_handle :: "hwnd option"
  child_content :: "hwnd option"
  flutter_controller :: "nat option"

text \<open>The memory of the program: the counter, the registrar (null, or its \<open>class_registered_\<close>) and the window objects.\<close>

record prog =
  g_active_window_count :: "32 word"
  instance_registrar :: "bool option"
  objs :: "nat \<rightharpoonup> window"

datatype call =
    RegisterClass | UnregisterClass | MonitorFromPoint uint uint | GetDpiForMonitor "nat option"
  | CreateWindow string int int int int nat | DestroyWindow hwnd | ShowWindow "hwnd option"
  | SetWindowLongPtr hwnd nat | GetWindowLongPtr hwnd | DefWindowProc "hwnd option" message | PostQuitMessage int
  | SetWindowPos hwnd long long long long | GetClientRect "hwnd option" | MoveWindow "hwnd option" long long long long
  | SetFocus "hwnd option" | SetParent "hwnd option" "hwnd option" | RegGetValue | DwmSetWindowAttribute hwnd bool
  | LoadLibraryA | GetProcAddress nat | EnableNonClientDpiScaling hwnd | FreeLibrary nat
  | NewController long long | GetEngine nat | GetView nat | GetNativeWindow nat | RegisterPlugin nat string
  | SetNextFrameCallback nat nat | ForceRedraw nat | HandleTopLevelWindowProc nat hwnd message | ReloadSystemFonts nat
  | DeleteController nat
  | AttachConsole | IsDebuggerPresent | AllocConsole | Freopen bool | Dup2 nat | SyncWithStdio | ResyncOutputStreams
  | CoInitializeEx | CoUninitialize | SetEntrypointArguments "uchar list list" | GetMessage | TranslateMessage hwnd message | DispatchMessage hwnd message

datatype ret = Void | Handle "nat option" | Flag bool | Num int | Area rect | Theme "uint option" | Result "int option"
  | Got int hwnd message

fun handle_of :: "ret \<Rightarrow> nat option option" where "handle_of (Handle h) = Some h" | "handle_of _ = None"
fun flag_of :: "ret \<Rightarrow> bool option" where "flag_of (Flag b) = Some b" | "flag_of _ = None"
fun num_of :: "ret \<Rightarrow> int option" where "num_of (Num i) = Some i" | "num_of _ = None"
fun area_of :: "ret \<Rightarrow> rect option" where "area_of (Area a) = Some a" | "area_of _ = None"
fun theme_of :: "ret \<Rightarrow> uint option option" where "theme_of (Theme t) = Some t" | "theme_of _ = None"
fun result_of :: "ret \<Rightarrow> int option option" where "result_of (Result x) = Some x" | "result_of _ = None"
fun got_of :: "ret \<Rightarrow> (int \<times> hwnd \<times> message) option" where "got_of (Got b h m) = Some (b, h, m)" | "got_of _ = None"

type_synonym 'o world = "prog \<times> 'o"
type_synonym 'o calls = "call \<Rightarrow> 'o world \<Rightarrow> (ret \<times> 'o world) option"
type_synonym 'o callback = "hwnd \<Rightarrow> message \<Rightarrow> 'o world \<Rightarrow> (int \<times> 'o world) option"
type_synonym 'o system = "'o callback \<Rightarrow> 'o calls"

definition this :: "nat \<Rightarrow> 'o world \<Rightarrow> window option" where "this a w = objs (fst w) a"

definition modify :: "nat \<Rightarrow> (window \<Rightarrow> window) \<Rightarrow> 'o world \<Rightarrow> 'o world option" where
  "modify a f = (\<lambda>(p, st). do { x \<leftarrow> objs p a; Some (p\<lparr>objs := (objs p)(a \<mapsto> f x)\<rparr>, st) })"

definition sys_run :: "'o calls \<Rightarrow> call \<Rightarrow> 'o world \<Rightarrow> 'o world option" where
  "sys_run ex c w = do { (_, w) \<leftarrow> ex c w; Some w }"

section \<open>The window class and the helpers\<close>

definition Scale :: "(real \<Rightarrow> real) \<Rightarrow> uint \<Rightarrow> real \<Rightarrow> int option" where
  "Scale rnd source scale_factor =
     (let v = rnd (of_int (sint source) * scale_factor); t = (if v \<ge> 0 then \<lfloor>v\<rfloor> else \<lceil>v\<rceil>)
      in if - (2 ^ 31) \<le> t \<and> t < 2 ^ 31 then Some t else None)"

definition EnableFullDpiSupportIfAvailable :: "'o calls \<Rightarrow> hwnd \<Rightarrow> 'o world \<Rightarrow> 'o world option" where
  "EnableFullDpiSupportIfAvailable ex h w = do {
     (r, w) \<leftarrow> ex LoadLibraryA w; user32 \<leftarrow> handle_of r;
     (case user32 of None \<Rightarrow> Some w
      | Some lib \<Rightarrow> do {
          (r, w) \<leftarrow> ex (GetProcAddress lib) w; proc \<leftarrow> handle_of r;
          w \<leftarrow> (if proc \<noteq> None then sys_run ex (EnableNonClientDpiScaling h) w else Some w);
          sys_run ex (FreeLibrary lib) w }) }"

definition GetInstance :: "'o world \<Rightarrow> 'o world" where
  "GetInstance = (\<lambda>(p, st). (if instance_registrar p = None then p\<lparr>instance_registrar := Some False\<rparr> else p, st))"

definition GetWindowClass :: "'o calls \<Rightarrow> 'o world \<Rightarrow> 'o world option" where
  "GetWindowClass ex w =
     (if instance_registrar (fst w) \<noteq> Some True
      then do { (p, st) \<leftarrow> sys_run ex RegisterClass w; Some (p\<lparr>instance_registrar := Some True\<rparr>, st) }
      else Some w)"

definition UnregisterWindowClass :: "'o calls \<Rightarrow> 'o world \<Rightarrow> 'o world option" where
  "UnregisterWindowClass ex w = do { (p, st) \<leftarrow> sys_run ex UnregisterClass w; Some (p\<lparr>instance_registrar := Some False\<rparr>, st) }"

definition GetClientArea :: "'o calls \<Rightarrow> nat \<Rightarrow> 'o world \<Rightarrow> (rect \<times> 'o world) option" where
  "GetClientArea ex a w = do { x \<leftarrow> this a w; (r, w) \<leftarrow> ex (GetClientRect (window_handle x)) w; frame \<leftarrow> area_of r; Some (frame, w) }"

definition GetHandle :: "nat \<Rightarrow> 'o world \<Rightarrow> hwnd option option" where
  "GetHandle a w = do { x \<leftarrow> this a w; Some (window_handle x) }"

definition SetQuitOnClose :: "bool \<Rightarrow> nat \<Rightarrow> 'o world \<Rightarrow> 'o world option" where
  "SetQuitOnClose b a w = modify a (\<lambda>x. x\<lparr>quit_on_close := b\<rparr>) w"

definition Show :: "'o calls \<Rightarrow> nat \<Rightarrow> 'o world \<Rightarrow> (bool \<times> 'o world) option" where
  "Show ex a w = do { x \<leftarrow> this a w; (r, w) \<leftarrow> ex (ShowWindow (window_handle x)) w; b \<leftarrow> flag_of r; Some (b, w) }"

definition UpdateTheme :: "'o calls \<Rightarrow> hwnd \<Rightarrow> 'o world \<Rightarrow> 'o world option" where
  "UpdateTheme ex h w = do {
     (r, w) \<leftarrow> ex RegGetValue w; light_mode \<leftarrow> theme_of r;
     (case light_mode of Some v \<Rightarrow> sys_run ex (DwmSetWindowAttribute h (v = 0)) w | None \<Rightarrow> Some w) }"

definition SetChildContent :: "'o calls \<Rightarrow> nat \<Rightarrow> hwnd option \<Rightarrow> 'o world \<Rightarrow> 'o world option" where
  "SetChildContent ex a content w = do {
     w \<leftarrow> modify a (\<lambda>x. x\<lparr>child_content := content\<rparr>) w;
     x \<leftarrow> this a w;
     w \<leftarrow> sys_run ex (SetParent content (window_handle x)) w;
     (frame, w) \<leftarrow> GetClientArea ex a w;
     w \<leftarrow> sys_run ex (MoveWindow content (left frame) (top frame) (right frame - left frame) (bottom frame - top frame)) w;
     x \<leftarrow> this a w;
     sys_run ex (SetFocus (child_content x)) w }"

section \<open>The Flutter view\<close>

text \<open>
  Assignment to the \<open>unique_ptr\<close>: the new pointer is stored before the old controller is deleted. A call through it
  dereferences the stored pointer.
\<close>

definition assign_controller :: "'o calls \<Rightarrow> nat \<Rightarrow> nat option \<Rightarrow> 'o world \<Rightarrow> 'o world option" where
  "assign_controller ex a c w = do {
     x \<leftarrow> this a w;
     w \<leftarrow> modify a (\<lambda>x. x\<lparr>flutter_controller := c\<rparr>) w;
     (case flutter_controller x of Some old \<Rightarrow> sys_run ex (DeleteController old) w | None \<Rightarrow> Some w) }"

definition through_controller :: "'o calls \<Rightarrow> nat \<Rightarrow> (nat \<Rightarrow> call) \<Rightarrow> 'o world \<Rightarrow> (ret \<times> 'o world) option" where
  "through_controller ex a f w = do { x \<leftarrow> this a w; c \<leftarrow> flutter_controller x; ex (f c) w }"

definition RegisterPlugins :: "'o calls \<Rightarrow> nat \<Rightarrow> 'o world \<Rightarrow> 'o world option" where
  "RegisterPlugins ex engine w = do {
     w \<leftarrow> sys_run ex (RegisterPlugin engine ''FlutterSecureStorageWindowsPlugin'') w;
     sys_run ex (RegisterPlugin engine ''UrlLauncherWindows'') w }"

definition OnCreate_win32 :: "'o world \<Rightarrow> (bool \<times> 'o world) option" where
  "OnCreate_win32 w = Some (True, w)"

definition OnCreate_flutter :: "'o calls \<Rightarrow> nat \<Rightarrow> 'o world \<Rightarrow> (bool \<times> 'o world) option" where
  "OnCreate_flutter ex a w = do {
     (ok, w) \<leftarrow> OnCreate_win32 w;
     if \<not> ok then Some (False, w)
     else do {
       (frame, w) \<leftarrow> GetClientArea ex a w;
       (r, w) \<leftarrow> ex (NewController (right frame - left frame) (bottom frame - top frame)) w; c \<leftarrow> handle_of r;
       w \<leftarrow> assign_controller ex a c w;
       (r, w) \<leftarrow> through_controller ex a GetEngine w; engine \<leftarrow> handle_of r;
       (view, w) \<leftarrow> (if engine = None then Some (None, w)
                    else do { (r, w) \<leftarrow> through_controller ex a GetView w; v \<leftarrow> handle_of r; Some (v, w) });
       if engine = None \<or> view = None then Some (False, w)
       else do {
         (r, w) \<leftarrow> through_controller ex a GetEngine w; engine \<leftarrow> handle_of r; e \<leftarrow> engine;
         w \<leftarrow> RegisterPlugins ex e w;
         (r, w) \<leftarrow> through_controller ex a GetView w; view \<leftarrow> handle_of r; v \<leftarrow> view;
         (r, w) \<leftarrow> ex (GetNativeWindow v) w; native \<leftarrow> handle_of r;
         w \<leftarrow> SetChildContent ex a native w;
         (r, w) \<leftarrow> through_controller ex a GetEngine w; engine \<leftarrow> handle_of r; e \<leftarrow> engine;
         w \<leftarrow> sys_run ex (SetNextFrameCallback e a) w;
         (_, w) \<leftarrow> through_controller ex a ForceRedraw w;
         Some (True, w) } } }"

text \<open>The callback of the first frame.\<close>

definition next_frame_callback :: "'o calls \<Rightarrow> nat \<Rightarrow> 'o world \<Rightarrow> 'o world option" where
  "next_frame_callback ex a w = do { (_, w) \<leftarrow> Show ex a w; Some w }"

definition OnDestroy_win32 :: "'o world \<Rightarrow> 'o world option" where
  "OnDestroy_win32 w = Some w"

definition OnDestroy_flutter :: "'o calls \<Rightarrow> nat \<Rightarrow> 'o world \<Rightarrow> 'o world option" where
  "OnDestroy_flutter ex a w = do {
     x \<leftarrow> this a w;
     w \<leftarrow> (if flutter_controller x \<noteq> None then assign_controller ex a None w else Some w);
     OnDestroy_win32 w }"

text \<open>The virtual calls, on the dynamic class of the object.\<close>

definition OnCreate :: "'o calls \<Rightarrow> nat \<Rightarrow> 'o world \<Rightarrow> (bool \<times> 'o world) option" where
  "OnCreate ex a w = do { x \<leftarrow> this a w;
     (case dyn_class x of Win32Window \<Rightarrow> OnCreate_win32 w | FlutterWindow \<Rightarrow> OnCreate_flutter ex a w) }"

definition OnDestroy :: "'o calls \<Rightarrow> nat \<Rightarrow> 'o world \<Rightarrow> 'o world option" where
  "OnDestroy ex a w = do { x \<leftarrow> this a w;
     (case dyn_class x of Win32Window \<Rightarrow> OnDestroy_win32 w | FlutterWindow \<Rightarrow> OnDestroy_flutter ex a w) }"

section \<open>Messages\<close>

definition Destroy :: "'o calls \<Rightarrow> nat \<Rightarrow> 'o world \<Rightarrow> 'o world option" where
  "Destroy ex a w = do {
     w \<leftarrow> OnDestroy ex a w;
     x \<leftarrow> this a w;
     w \<leftarrow> (case window_handle x of
            Some h \<Rightarrow> do { w \<leftarrow> sys_run ex (DestroyWindow h) w; modify a (\<lambda>x. x\<lparr>window_handle := None\<rparr>) w }
          | None \<Rightarrow> Some w);
     if g_active_window_count (fst w) = 0 then UnregisterWindowClass ex (GetInstance w) else Some w }"

definition MessageHandler_win32 :: "'o calls \<Rightarrow> nat \<Rightarrow> 'o callback" where
  "MessageHandler_win32 ex a h msg w = (case msg of
     WM_DESTROY \<Rightarrow> do {
       w \<leftarrow> modify a (\<lambda>x. x\<lparr>window_handle := None\<rparr>) w;
       w \<leftarrow> Destroy ex a w;
       x \<leftarrow> this a w;
       w \<leftarrow> (if quit_on_close x then sys_run ex (PostQuitMessage 0) w else Some w);
       Some (0, w) }
   | WM_DPICHANGED newRect \<Rightarrow> do {
       w \<leftarrow> sys_run ex (SetWindowPos h (left newRect) (top newRect) (right newRect - left newRect) (bottom newRect - top newRect)) w;
       Some (0, w) }
   | WM_SIZE \<Rightarrow> do {
       (frame, w) \<leftarrow> GetClientArea ex a w;
       x \<leftarrow> this a w;
       w \<leftarrow> (if child_content x \<noteq> None
            then sys_run ex (MoveWindow (child_content x) (left frame) (top frame) (right frame - left frame) (bottom frame - top frame)) w
            else Some w);
       Some (0, w) }
   | WM_ACTIVATE \<Rightarrow> do {
       x \<leftarrow> this a w;
       w \<leftarrow> (if child_content x \<noteq> None then sys_run ex (SetFocus (child_content x)) w else Some w);
       Some (0, w) }
   | WM_DWMCOLORIZATIONCOLORCHANGED \<Rightarrow> do { w \<leftarrow> UpdateTheme ex h w; Some (0, w) }
   | _ \<Rightarrow> do { x \<leftarrow> this a w; (r, w) \<leftarrow> ex (DefWindowProc (window_handle x) msg) w; l \<leftarrow> num_of r; Some (l, w) })"

definition MessageHandler_flutter :: "'o calls \<Rightarrow> nat \<Rightarrow> 'o callback" where
  "MessageHandler_flutter ex a h msg w = do {
     x \<leftarrow> this a w;
     (result, w) \<leftarrow> (case flutter_controller x of
         Some c \<Rightarrow> do { (r, w) \<leftarrow> ex (HandleTopLevelWindowProc c h msg) w; result \<leftarrow> result_of r; Some (result, w) }
       | None \<Rightarrow> Some (None, w));
     (case result of Some l \<Rightarrow> Some (l, w)
      | None \<Rightarrow> do {
          w \<leftarrow> (if msg = WM_FONTCHANGE
               then do { (r, w) \<leftarrow> through_controller ex a GetEngine w; engine \<leftarrow> handle_of r; e \<leftarrow> engine; sys_run ex (ReloadSystemFonts e) w }
               else Some w);
          MessageHandler_win32 ex a h msg w }) }"

definition MessageHandler :: "'o calls \<Rightarrow> nat \<Rightarrow> 'o callback" where
  "MessageHandler ex a h msg w = do { x \<leftarrow> this a w;
     (case dyn_class x of Win32Window \<Rightarrow> MessageHandler_win32 ex a h msg w | FlutterWindow \<Rightarrow> MessageHandler_flutter ex a h msg w) }"

definition GetThisFromHandle :: "'o calls \<Rightarrow> hwnd \<Rightarrow> 'o world \<Rightarrow> (nat option \<times> 'o world) option" where
  "GetThisFromHandle ex h w = do { (r, w) \<leftarrow> ex (GetWindowLongPtr h) w; that \<leftarrow> handle_of r; Some (that, w) }"

definition WndProc :: "'o calls \<Rightarrow> 'o callback" where
  "WndProc ex h msg w = (case msg of
     WM_NCCREATE that \<Rightarrow> do {
       w \<leftarrow> sys_run ex (SetWindowLongPtr h that) w;
       w \<leftarrow> EnableFullDpiSupportIfAvailable ex h w;
       w \<leftarrow> modify that (\<lambda>x. x\<lparr>window_handle := Some h\<rparr>) w;
       (r, w) \<leftarrow> ex (DefWindowProc (Some h) msg) w; l \<leftarrow> num_of r; Some (l, w) }
   | _ \<Rightarrow> do {
       (that, w) \<leftarrow> GetThisFromHandle ex h w;
       (case that of
          Some a \<Rightarrow> MessageHandler ex a h msg w
        | None \<Rightarrow> do { (r, w) \<leftarrow> ex (DefWindowProc (Some h) msg) w; l \<leftarrow> num_of r; Some (l, w) }) })"

primrec exec :: "'o system \<Rightarrow> nat \<Rightarrow> 'o calls" where
  "exec sys 0 = (\<lambda>c w. None)"
| "exec sys (Suc n) = (\<lambda>c w. sys (WndProc (exec sys n)) c w)"

section \<open>The life of a window and of the process\<close>

definition new_window :: "dyn_type \<Rightarrow> nat \<Rightarrow> 'o world \<Rightarrow> 'o world" where
  "new_window k a = (\<lambda>(p, st). (p\<lparr>g_active_window_count := g_active_window_count p + 1,
     objs := (objs p)(a \<mapsto> \<lparr>dyn_class = k, quit_on_close = False, window_handle = None, child_content = None,
                          flutter_controller = None\<rparr>)\<rparr>, st))"

definition Create :: "(real \<Rightarrow> real) \<Rightarrow> 'o calls \<Rightarrow> string \<Rightarrow> uint \<times> uint \<Rightarrow> uint \<times> uint \<Rightarrow> nat \<Rightarrow> 'o world \<Rightarrow> (bool \<times> 'o world) option" where
  "Create rnd ex title origin sz a w = do {
     w \<leftarrow> Destroy ex a w;
     w \<leftarrow> GetWindowClass ex (GetInstance w);
     (r, w) \<leftarrow> ex (MonitorFromPoint (fst origin) (snd origin)) w; monitor \<leftarrow> handle_of r;
     (r, w) \<leftarrow> ex (GetDpiForMonitor monitor) w; dpi \<leftarrow> num_of r;
     let scale_factor = rnd (of_int dpi / 96);
     x \<leftarrow> Scale rnd (fst origin) scale_factor; y \<leftarrow> Scale rnd (snd origin) scale_factor;
     wd \<leftarrow> Scale rnd (fst sz) scale_factor; ht \<leftarrow> Scale rnd (snd sz) scale_factor;
     (r, w) \<leftarrow> ex (CreateWindow title x y wd ht a) w; window \<leftarrow> handle_of r;
     (case window of None \<Rightarrow> Some (False, w)
      | Some h \<Rightarrow> do { w \<leftarrow> UpdateTheme ex h w; OnCreate ex a w }) }"

text \<open>The destructors; the object is gone afterwards. The members of a \<open>FlutterWindow\<close> go before its base class.\<close>

definition Win32Window_dtor :: "'o calls \<Rightarrow> nat \<Rightarrow> 'o world \<Rightarrow> 'o world option" where
  "Win32Window_dtor ex a = (\<lambda>(p, st). do {
     w \<leftarrow> modify a (\<lambda>x. x\<lparr>dyn_class := Win32Window\<rparr>) (p\<lparr>g_active_window_count := g_active_window_count p - 1\<rparr>, st);
     (p, st) \<leftarrow> Destroy ex a w;
     Some (p\<lparr>objs := (objs p)(a := None)\<rparr>, st) })"

definition FlutterWindow_dtor :: "'o calls \<Rightarrow> nat \<Rightarrow> 'o world \<Rightarrow> 'o world option" where
  "FlutterWindow_dtor ex a w = do {
     x \<leftarrow> this a w;
     w \<leftarrow> (case flutter_controller x of Some c \<Rightarrow> sys_run ex (DeleteController c) w | None \<Rightarrow> Some w);
     w \<leftarrow> modify a (\<lambda>x. x\<lparr>flutter_controller := None\<rparr>) w;
     Win32Window_dtor ex a w }"

definition CreateAndAttachConsole :: "'o calls \<Rightarrow> 'o world \<Rightarrow> 'o world option" where
  "CreateAndAttachConsole ex w = do {
     (r, w) \<leftarrow> ex AllocConsole w; ok \<leftarrow> flag_of r;
     if ok then do {
       (r, w) \<leftarrow> ex (Freopen True) w; err \<leftarrow> flag_of r;
       w \<leftarrow> (if err then sys_run ex (Dup2 1) w else Some w);
       (r, w) \<leftarrow> ex (Freopen False) w; err \<leftarrow> flag_of r;
       w \<leftarrow> (if err then sys_run ex (Dup2 2) w else Some w);
       w \<leftarrow> sys_run ex SyncWithStdio w;
       sys_run ex ResyncOutputStreams w }
     else Some w }"

fun message_loop :: "nat \<Rightarrow> 'o calls \<Rightarrow> 'o world \<Rightarrow> 'o world option" where
  "message_loop 0 ex w = None"
| "message_loop (Suc k) ex w = do {
     (r, w) \<leftarrow> ex GetMessage w; (b, h, msg) \<leftarrow> got_of r;
     if b \<noteq> 0 then do {
       w \<leftarrow> sys_run ex (TranslateMessage h msg) w;
       w \<leftarrow> sys_run ex (DispatchMessage h msg) w;
       message_loop k ex w }
     else Some w }"

text \<open>\<open>wWinMain\<close>, with the result of \<open>GetCommandLineArguments\<close>: the exit code and the final state; the window is a local object, destroyed on both ways out.\<close>

definition wWinMain ::
  "nat \<Rightarrow> (real \<Rightarrow> real) \<Rightarrow> 'o calls \<Rightarrow> uchar list list option \<Rightarrow> 'o world \<Rightarrow> (int \<times> 'o world) option" where
  "wWinMain fuel rnd ex arguments w = do {
     (r, w) \<leftarrow> ex AttachConsole w; attached \<leftarrow> flag_of r;
     w \<leftarrow> (if \<not> attached
          then do { (r, w) \<leftarrow> ex IsDebuggerPresent w; dbg \<leftarrow> flag_of r; if dbg then CreateAndAttachConsole ex w else Some w }
          else Some w);
     w \<leftarrow> sys_run ex CoInitializeEx w;
     command_line_arguments \<leftarrow> arguments;
     w \<leftarrow> sys_run ex (SetEntrypointArguments command_line_arguments) w;
     let w = new_window FlutterWindow 0 w;
     (created, w) \<leftarrow> Create rnd ex ''BOUSSELHA CARS'' (10, 10) (1280, 720) 0 w;
     if \<not> created then do { w \<leftarrow> FlutterWindow_dtor ex 0 w; Some (1, w) }
     else do {
       w \<leftarrow> SetQuitOnClose True 0 w;
       w \<leftarrow> message_loop fuel ex w;
       w \<leftarrow> sys_run ex CoUninitialize w;
       w \<leftarrow> FlutterWindow_dtor ex 0 w;
       Some (0, w) } }"

section \<open>What the system promises\<close>

text \<open>
  What can be seen of the system: the existing windows of the class with their \<open>GWLP_USERDATA\<close>, the calls that post an exit code, unregister the class, delete a controller or destroy a
  window in the order they are made, whether the class is registered, and the live controllers.
\<close>

record desk =
  d_windows :: "hwnd \<rightharpoonup> nat option"
  d_log :: "call list"
  d_class :: bool
  d_controllers :: "nat set"

abbreviation (input) WM_NCDESTROY :: message where "WM_NCDESTROY \<equiv> WM_OTHER 0x82 0 0"

definition logged :: "call \<Rightarrow> desk \<Rightarrow> desk" where "logged c d = d\<lparr>d_log := d_log d @ [c]\<rparr>"

text \<open>
  \<open>UnregisterClass\<close> fails while a window of the class exists. A controller may be deleted once: nothing is promised for one that is not alive. \<open>DestroyWindow\<close> on an existing window
  sends \<open>WM_DESTROY\<close> and \<open>WM_NCDESTROY\<close> (0x82) to the window procedure and then removes the window. The engine may claim \<open>WM_DESTROY\<close> for itself; \<open>claims\<close> is its answer. The calls
  change nothing else of what is seen.
\<close>

definition quiet :: "('o \<Rightarrow> desk) \<Rightarrow> ('o world \<Rightarrow> (ret \<times> 'o world) option) \<Rightarrow> (desk \<Rightarrow> desk) \<Rightarrow> (ret \<Rightarrow> bool) \<Rightarrow> prog \<Rightarrow> 'o \<Rightarrow> bool" where
  "quiet obs f effect ok p st \<longleftrightarrow> (\<exists>r st'. f (p, st) = Some (r, (p, st')) \<and> ok r \<and> obs st' = effect (obs st))"

definition unregistered :: "desk \<Rightarrow> desk" where
  "unregistered d = logged UnregisterClass (d\<lparr>d_class := d_class d \<and> d_windows d \<noteq> Map.empty\<rparr>)"

definition deleted :: "nat \<Rightarrow> desk \<Rightarrow> desk" where
  "deleted c d = logged (DeleteController c) (d\<lparr>d_controllers := d_controllers d - {c}\<rparr>)"

definition destroy_contract :: "(nat \<Rightarrow> hwnd \<Rightarrow> prog \<Rightarrow> 'o \<Rightarrow> int option) \<Rightarrow> ('o \<Rightarrow> desk) \<Rightarrow> 'o system \<Rightarrow> bool" where
  "destroy_contract claims obs sys \<longleftrightarrow>
     (\<forall>cb h p st. sys cb (GetWindowLongPtr h) (p, st) = Some (Handle (Option.bind (d_windows (obs st) h) id), (p, st))) \<and>
     (\<forall>cb code p st. quiet obs (sys cb (PostQuitMessage code)) (logged (PostQuitMessage code)) (\<lambda>_. True) p st) \<and>
     (\<forall>cb p st. quiet obs (sys cb UnregisterClass) unregistered (\<lambda>_. True) p st) \<and>
     (\<forall>cb c p st. c \<in> d_controllers (obs st) \<longrightarrow> quiet obs (sys cb (DeleteController c)) (deleted c) (\<lambda>_. True) p st) \<and>
     (\<forall>cb h p st. quiet obs (sys cb (DefWindowProc h WM_NCDESTROY)) id (\<lambda>r. \<exists>l. r = Num l) p st) \<and>
     (\<forall>cb c h p st. quiet obs (sys cb (HandleTopLevelWindowProc c h WM_DESTROY)) id (\<lambda>r. r = Result (claims c h p st)) p st) \<and>
     (\<forall>cb h p st. d_windows (obs st) h \<noteq> None \<longrightarrow>
        (\<exists>st0. obs st0 = logged (DestroyWindow h) (obs st) \<and>
           (\<forall>w1 w2 l1 l2. cb h WM_DESTROY (p, st0) = Some (l1, w1) \<and> cb h WM_NCDESTROY w1 = Some (l2, w2) \<longrightarrow>
              (\<exists>r st'. sys cb (DestroyWindow h) (p, st) = Some (r, (fst w2, st')) \<and>
                 obs st' = (obs (snd w2))\<lparr>d_windows := (d_windows (obs (snd w2)))(h := None)\<rparr>))))"

lemma contractD:
  assumes "destroy_contract claims obs sys"
  shows "sys cb (GetWindowLongPtr h) (p, st) = Some (Handle (Option.bind (d_windows (obs st) h) id), (p, st))"
    "quiet obs (sys cb (PostQuitMessage code)) (logged (PostQuitMessage code)) (\<lambda>_. True) p st"
    "quiet obs (sys cb UnregisterClass) unregistered (\<lambda>_. True) p st"
    "c \<in> d_controllers (obs st) \<Longrightarrow> quiet obs (sys cb (DeleteController c)) (deleted c) (\<lambda>_. True) p st"
    "quiet obs (sys cb (DefWindowProc g WM_NCDESTROY)) id (\<lambda>r. \<exists>l. r = Num l) p st"
    "quiet obs (sys cb (HandleTopLevelWindowProc c h WM_DESTROY)) id (\<lambda>r. r = Result (claims c h p st)) p st"
    "d_windows (obs st) h \<noteq> None \<Longrightarrow>
        (\<exists>st0. obs st0 = logged (DestroyWindow h) (obs st) \<and>
           (\<forall>w1 w2 l1 l2. cb h WM_DESTROY (p, st0) = Some (l1, w1) \<and> cb h WM_NCDESTROY w1 = Some (l2, w2) \<longrightarrow>
              (\<exists>r st'. sys cb (DestroyWindow h) (p, st) = Some (r, (fst w2, st')) \<and>
                 obs st' = (obs (snd w2))\<lparr>d_windows := (d_windows (obs (snd w2)))(h := None)\<rparr>)))"
  using assms unfolding destroy_contract_def by (elim conjE; simp)+

text \<open>A call that the system answers quietly, one level down.\<close>

lemma quiet_run:
  assumes "\<And>cb. quiet obs (sys cb c) effect ok p st"
  shows "\<exists>st'. sys_run (exec sys (Suc n)) c (p, st) = Some (p, st') \<and> obs st' = effect (obs st)"
proof -
  obtain r st' where "exec sys (Suc n) c (p, st) = Some (r, (p, st'))" "obs st' = effect (obs st)"
    using assms [of "WndProc (exec sys n)"] by (auto simp: quiet_def)
  then show ?thesis by (simp add: sys_run_def)
qed

section \<open>Destroying a window\<close>

text \<open>What destroying leaves of an object and of the registrar, and what is seen of its parts.\<close>

definition own_controller :: "window \<Rightarrow> nat option" where "own_controller x = (if dyn_class x = FlutterWindow then flutter_controller x else None)"

definition destroyed :: "window \<Rightarrow> window" where
  "destroyed x = x\<lparr>window_handle := None,
     flutter_controller := (if dyn_class x = FlutterWindow then None else flutter_controller x)\<rparr>"

definition after_destroy :: "nat \<Rightarrow> window \<Rightarrow> prog \<Rightarrow> prog" where
  "after_destroy a x p = p\<lparr>objs := (objs p)(a \<mapsto> destroyed x),
     instance_registrar := (if g_active_window_count p = 0 then Some False else instance_registrar p)\<rparr>"

definition delete_own :: "nat option \<Rightarrow> desk \<Rightarrow> desk" where "delete_own c d = (case c of Some ct \<Rightarrow> deleted ct d | None \<Rightarrow> d)"

definition unregister_last :: "32 word \<Rightarrow> desk \<Rightarrow> desk" where "unregister_last n d = (if n = 0 then unregistered d else d)"

definition quit_if :: "bool \<Rightarrow> desk \<Rightarrow> desk" where "quit_if b d = (if b then logged (PostQuitMessage 0) d else d)"

definition live :: "nat option \<Rightarrow> desk \<Rightarrow> bool" where "live c d \<longleftrightarrow> (case c of Some ct \<Rightarrow> ct \<in> d_controllers d | None \<Rightarrow> True)"

lemma prog_collapse: "objs p a = Some x \<Longrightarrow> p\<lparr>objs := (objs p)(a \<mapsto> x)\<rparr> = p"
  by (simp add: fun_upd_idem)

lemma unregister_ok:
  assumes "destroy_contract claims obs sys"
  shows "\<exists>st'. UnregisterWindowClass (exec sys (Suc n)) (GetInstance (p, st)) = Some (p\<lparr>instance_registrar := Some False\<rparr>, st') \<and> obs st' = unregistered (obs st)"
  using quiet_run [of obs sys UnregisterClass unregistered "\<lambda>_. True" "fst (GetInstance (p, st))" st n, OF contractD(3) [OF assms]]
  by (auto simp: UnregisterWindowClass_def GetInstance_def split: if_splits)

lemma on_destroy_ok:
  assumes c: "destroy_contract claims obs sys" and x: "objs p a = Some x" "live (own_controller x) (obs st)"
  shows "\<exists>st'. OnDestroy (exec sys (Suc n)) a (p, st) =
           Some (p\<lparr>objs := (objs p)(a \<mapsto> x\<lparr>flutter_controller := flutter_controller (destroyed x)\<rparr>)\<rparr>, st') \<and>
           obs st' = delete_own (own_controller x) (obs st)"
proof (cases "dyn_class x = FlutterWindow \<and> flutter_controller x \<noteq> None")
  case True
  then obtain ctl where ctl: "flutter_controller x = Some ctl" by blast
  let ?p = "p\<lparr>objs := (objs p)(a \<mapsto> x\<lparr>flutter_controller := None\<rparr>)\<rparr>"
  have "ctl \<in> d_controllers (obs st)" using x(2) True ctl by (simp add: live_def own_controller_def)
  then obtain st' where "sys_run (exec sys (Suc n)) (DeleteController ctl) (?p, st) = Some (?p, st')" "obs st' = deleted ctl (obs st)"
    using quiet_run [of obs sys "DeleteController ctl" "deleted ctl" "\<lambda>_. True" ?p st n, OF contractD(4) [OF c]] by blast
  then show ?thesis using True x(1) ctl
    by (simp add: OnDestroy_def OnDestroy_flutter_def OnDestroy_win32_def this_def assign_controller_def modify_def destroyed_def own_controller_def delete_own_def)
next
  case False
  then have "x\<lparr>flutter_controller := flutter_controller (destroyed x)\<rparr> = x" "own_controller x = None" by (auto simp: destroyed_def own_controller_def)
  then show ?thesis using False x(1) prog_collapse [OF x(1)]
    by (auto simp: OnDestroy_def OnDestroy_flutter_def OnDestroy_win32_def this_def delete_own_def split: dyn_type.splits)
qed

text \<open>\<open>Destroy\<close> on an object without a window.\<close>

lemma destroy_no_window:
  assumes c: "destroy_contract claims obs sys" and x: "objs p a = Some x" "window_handle x = None" "live (own_controller x) (obs st)"
  shows "\<exists>st'. Destroy (exec sys (Suc n)) a (p, st) = Some (after_destroy a x p, st') \<and>
    obs st' = unregister_last (g_active_window_count p) (delete_own (own_controller x) (obs st))"
proof -
  let ?x = "x\<lparr>flutter_controller := flutter_controller (destroyed x)\<rparr>" let ?p = "p\<lparr>objs := (objs p)(a \<mapsto> ?x)\<rparr>"
  have d: "?x = destroyed x" using x(2) by (simp add: destroyed_def)
  obtain st1 where 1: "OnDestroy (exec sys (Suc n)) a (p, st) = Some (?p, st1)" "obs st1 = delete_own (own_controller x) (obs st)"
    using on_destroy_ok [OF c x(1,3)] by blast
  obtain st2 where 2: "UnregisterWindowClass (exec sys (Suc n)) (GetInstance (?p, st1)) = Some (?p\<lparr>instance_registrar := Some False\<rparr>, st2)"
    "obs st2 = unregistered (obs st1)" using unregister_ok [OF c] by blast
  have "window_handle (destroyed x) = None" by (simp add: destroyed_def)
  then show ?thesis using 1 2 d by (auto simp: Destroy_def this_def after_destroy_def unregister_last_def)
qed

text \<open>The window procedure on \<open>WM_DESTROY\<close>, whoever sent it: the engine may claim it through the controller; otherwise the object is destroyed.\<close>

definition claimed :: "(nat \<Rightarrow> hwnd \<Rightarrow> prog \<Rightarrow> 'o \<Rightarrow> int option) \<Rightarrow> window \<Rightarrow> hwnd \<Rightarrow> prog \<Rightarrow> 'o \<Rightarrow> int option" where
  "claimed claims x h p st = (case own_controller x of Some ct \<Rightarrow> claims ct h p st | None \<Rightarrow> None)"

lemma handler_destroy_ok:
  assumes c: "destroy_contract claims obs sys" and x: "objs p a = Some x" "live (own_controller x) (obs st)"
  shows "\<exists>st'. MessageHandler_win32 (exec sys (Suc n)) a h WM_DESTROY (p, st) = Some (0, (after_destroy a x p, st')) \<and>
    obs st' = quit_if (quit_on_close x) (unregister_last (g_active_window_count p) (delete_own (own_controller x) (obs st)))"
proof -
  let ?ex = "exec sys (Suc n)" let ?x = "x\<lparr>window_handle := None\<rparr>" let ?p = "p\<lparr>objs := (objs p)(a \<mapsto> ?x)\<rparr>"
  have after: "after_destroy a ?x ?p = after_destroy a x p" "own_controller ?x = own_controller x"
    by (simp_all add: after_destroy_def destroyed_def own_controller_def)
  obtain st1 where 1: "Destroy ?ex a (?p, st) = Some (after_destroy a x p, st1)"
    "obs st1 = unregister_last (g_active_window_count p) (delete_own (own_controller x) (obs st))"
    using destroy_no_window [OF c, of ?p a ?x st n] after x(2) by auto
  obtain st2 where 2: "sys_run ?ex (PostQuitMessage 0) (after_destroy a x p, st1) = Some (after_destroy a x p, st2)"
    "obs st2 = logged (PostQuitMessage 0) (obs st1)"
    using quiet_run [of obs sys "PostQuitMessage 0" "logged (PostQuitMessage 0)" "\<lambda>_. True" "after_destroy a x p" st1 n, OF contractD(2) [OF c]] by blast
  have q: "objs (after_destroy a x p) a = Some (destroyed x)" "quit_on_close (destroyed x) = quit_on_close x"
    by (simp_all add: after_destroy_def destroyed_def)
  show ?thesis using 1 2 q x(1) by (simp add: MessageHandler_win32_def modify_def this_def quit_if_def)
qed

lemma wm_destroy_ok:
  assumes c: "destroy_contract claims obs sys" and x: "objs p a = Some x" "d_windows (obs st) h = Some (Some a)" "live (own_controller x) (obs st)"
  shows "\<exists>st'. (case claimed claims x h p st of
      Some l \<Rightarrow> WndProc (exec sys (Suc n)) h WM_DESTROY (p, st) = Some (l, (p, st')) \<and> obs st' = obs st
    | None \<Rightarrow> WndProc (exec sys (Suc n)) h WM_DESTROY (p, st) = Some (0, (after_destroy a x p, st')) \<and>
        obs st' = quit_if (quit_on_close x) (unregister_last (g_active_window_count p) (delete_own (own_controller x) (obs st))))"
proof -
  let ?ex = "exec sys (Suc n)"
  have "?ex (GetWindowLongPtr h) (p, st) = Some (Handle (Some a), (p, st))" using contractD(1) [OF c, of _ h p st] x(2) by simp
  then have w: "WndProc ?ex h WM_DESTROY (p, st) = MessageHandler ?ex a h WM_DESTROY (p, st)" by (simp add: WndProc_def GetThisFromHandle_def)
  show ?thesis
  proof (cases "own_controller x")
    case (Some ctl)
    then have f: "dyn_class x = FlutterWindow" "flutter_controller x = Some ctl" by (auto simp: own_controller_def split: if_splits)
    obtain st1 where 1: "?ex (HandleTopLevelWindowProc ctl h WM_DESTROY) (p, st) = Some (Result (claims ctl h p st), (p, st1))" "obs st1 = obs st"
      using contractD(6) [OF c, of "WndProc (exec sys n)" ctl h p st] by (auto simp: quiet_def)
    obtain st2 where 2: "MessageHandler_win32 ?ex a h WM_DESTROY (p, st1) = Some (0, (after_destroy a x p, st2))"
      "obs st2 = quit_if (quit_on_close x) (unregister_last (g_active_window_count p) (delete_own (own_controller x) (obs st)))"
      using handler_destroy_ok [OF c x(1), of st1 n h] x(3) 1(2) by auto
    show ?thesis
    proof (cases "claims ctl h p st")
      case None
      then show ?thesis using w 1 2 f x(1) Some by (auto simp: claimed_def MessageHandler_def MessageHandler_flutter_def this_def simp del: exec.simps)
    next
      case (Some l)
      then show ?thesis using w 1 f x(1) \<open>own_controller x = Some ctl\<close>
        by (auto simp: claimed_def MessageHandler_def MessageHandler_flutter_def this_def simp del: exec.simps)
    qed
  next
    case None
    then have "flutter_controller x = None \<or> dyn_class x = Win32Window" by (cases "dyn_class x") (auto simp: own_controller_def)
    then have "MessageHandler ?ex a h WM_DESTROY (p, st) = MessageHandler_win32 ?ex a h WM_DESTROY (p, st)"
      using x(1) by (cases "dyn_class x") (auto simp: MessageHandler_def MessageHandler_flutter_def this_def simp del: exec.simps)
    then show ?thesis using w None handler_destroy_ok [OF c x(1,3), of n h] by (simp add: claimed_def del: exec.simps)
  qed
qed

lemma wm_ncdestroy_ok:
  assumes c: "destroy_contract claims obs sys" and x: "objs p a = Some x" "d_windows (obs st) h = Some (Some a)" "own_controller x = None"
  shows "\<exists>l st'. WndProc (exec sys (Suc n)) h WM_NCDESTROY (p, st) = Some (l, (p, st')) \<and> obs st' = obs st"
proof -
  let ?ex = "exec sys (Suc n)"
  obtain l st1 where 1: "?ex (DefWindowProc (window_handle x) WM_NCDESTROY) (p, st) = Some (Num l, (p, st1))" "obs st1 = obs st"
    using contractD(5) [OF c, of "WndProc (exec sys n)" "window_handle x" p st] by (auto simp: quiet_def)
  have "?ex (GetWindowLongPtr h) (p, st) = Some (Handle (Some a), (p, st))" using contractD(1) [OF c, of _ h p st] x(2) by simp
  then show ?thesis using 1 x(1,3)
    by (cases "dyn_class x") (auto simp: WndProc_def GetThisFromHandle_def MessageHandler_def MessageHandler_flutter_def
        MessageHandler_win32_def this_def own_controller_def)
qed

text \<open>\<open>Destroy\<close> on an object with a window: the handler runs inside \<open>DestroyWindow\<close>.\<close>

definition window_gone :: "hwnd \<Rightarrow> desk \<Rightarrow> desk" where "window_gone h d = d\<lparr>d_windows := (d_windows d)(h := None)\<rparr>"

definition destroy_effect :: "hwnd \<Rightarrow> bool \<Rightarrow> 32 word \<Rightarrow> desk \<Rightarrow> desk" where
  "destroy_effect h q n d = unregister_last n (window_gone h (quit_if q (unregister_last n (logged (DestroyWindow h) d))))"

lemmas desk_defs = logged_def unregistered_def deleted_def delete_own_def unregister_last_def quit_if_def window_gone_def destroy_effect_def

lemma windows_kept [simp]:
  "d_windows (delete_own c d) = d_windows d" "d_windows (logged k d) = d_windows d" "d_windows (quit_if q d) = d_windows d" "d_windows (unregister_last n d) = d_windows d"
  by (auto simp: desk_defs split: option.split)

lemma destroy_window:
  assumes c: "destroy_contract claims obs sys" and x: "objs p a = Some x" "window_handle x = Some h" "d_windows (obs st) h = Some (Some a)" "live (own_controller x) (obs st)"
  shows "\<exists>st'. Destroy (exec sys (Suc (Suc n))) a (p, st) = Some (after_destroy a x p, st') \<and>
    obs st' = destroy_effect h (quit_on_close x) (g_active_window_count p) (delete_own (own_controller x) (obs st))"
proof -
  let ?ex = "exec sys (Suc (Suc n))" let ?x = "x\<lparr>flutter_controller := flutter_controller (destroyed x)\<rparr>"
  let ?p = "p\<lparr>objs := (objs p)(a \<mapsto> ?x)\<rparr>"
  obtain st1 where 1: "OnDestroy ?ex a (p, st) = Some (?p, st1)" "obs st1 = delete_own (own_controller x) (obs st)"
    using on_destroy_ok [OF c x(1,4)] by blast
  have x': "objs ?p a = Some ?x" "after_destroy a ?x ?p = after_destroy a x p" "quit_on_close ?x = quit_on_close x" "own_controller ?x = None" "own_controller (destroyed x) = None"
    by (simp_all add: after_destroy_def destroyed_def own_controller_def)
  have w1: "d_windows (obs st1) h = Some (Some a)" using x(3) 1(2) by simp
  obtain st0 where 0: "obs st0 = logged (DestroyWindow h) (obs st1)"
    "\<forall>w1 w2 l1 l2. WndProc (exec sys (Suc n)) h WM_DESTROY (?p, st0) = Some (l1, w1) \<and> WndProc (exec sys (Suc n)) h WM_NCDESTROY w1 = Some (l2, w2) \<longrightarrow>
       (\<exists>r st'. sys (WndProc (exec sys (Suc n))) (DestroyWindow h) (?p, st1) = Some (r, (fst w2, st')) \<and>
          obs st' = (obs (snd w2))\<lparr>d_windows := (d_windows (obs (snd w2)))(h := None)\<rparr>)"
    using contractD(7) [OF c, of st1 h "WndProc (exec sys (Suc n))" ?p] w1 by auto
  obtain st2 where 2: "WndProc (exec sys (Suc n)) h WM_DESTROY (?p, st0) = Some (0, (after_destroy a x p, st2))"
    "obs st2 = quit_if (quit_on_close x) (unregister_last (g_active_window_count p) (obs st0))"
    using wm_destroy_ok [OF c x'(1), of st0 h n] x' w1 0(1) by (auto simp: claimed_def live_def delete_own_def simp del: exec.simps)
  have after: "objs (after_destroy a x p) a = Some (destroyed x)" "g_active_window_count (after_destroy a x p) = g_active_window_count p"
    by (simp_all add: after_destroy_def)
  obtain l st3 where 3: "WndProc (exec sys (Suc n)) h WM_NCDESTROY (after_destroy a x p, st2) = Some (l, (after_destroy a x p, st3))" "obs st3 = obs st2"
    using wm_ncdestroy_ok [OF c after(1), of st2 h n] w1 0(1) 2(2) x'(5) by auto
  from 0(2) [rule_format, OF conjI [OF 2(1) 3(1)]] obtain r st4 where
    4: "?ex (DestroyWindow h) (?p, st1) = Some (r, (after_destroy a x p, st4))" "obs st4 = window_gone h (obs st3)"
    by (auto simp: window_gone_def)
  have closed: "(destroyed x)\<lparr>window_handle := None\<rparr> = destroyed x" by (simp add: destroyed_def)
  have m: "modify a (\<lambda>x. x\<lparr>window_handle := None\<rparr>) (after_destroy a x p, st4) = Some (after_destroy a x p, st4)"
    using after(1) prog_collapse [OF after(1)] closed by (simp add: modify_def)
  obtain st5 where 5: "UnregisterWindowClass ?ex (GetInstance (after_destroy a x p, st4)) =
      Some ((after_destroy a x p)\<lparr>instance_registrar := Some False\<rparr>, st5)" "obs st5 = unregistered (obs st4)"
    using unregister_ok [OF c] by blast
  have eq: "(after_destroy a x p)\<lparr>instance_registrar := Some False\<rparr> = after_destroy a x p" if "g_active_window_count p = 0"
    using that by (simp add: after_destroy_def)
  have h: "this a (?p, st1) = Some ?x" "window_handle ?x = Some h" using x by (simp_all add: this_def)
  have e: "obs st4 = window_gone h (quit_if (quit_on_close x) (unregister_last (g_active_window_count p) (logged (DestroyWindow h) (delete_own (own_controller x) (obs st)))))"
    using 0(1) 1(2) 2(2) 3(2) 4(2) by simp
  show ?thesis using 1(1) 4(1) m 5 eq h after(2) e by (auto simp: Destroy_def sys_run_def destroy_effect_def unregister_last_def [of _ "window_gone h d" for d] simp del: exec.simps)
qed

text \<open>The destructor of a \<open>FlutterWindow\<close>, with its window still there or already closed.\<close>

lemma dtor_ok:
  assumes c: "destroy_contract claims obs sys" and x: "objs p a = Some x" "live (flutter_controller x) (obs st)"
    and h: "case window_handle x of None \<Rightarrow> True | Some h \<Rightarrow> d_windows (obs st) h = Some (Some a)"
  shows "\<exists>p' st'. FlutterWindow_dtor (exec sys (Suc (Suc n))) a (p, st) = Some (p', st') \<and> objs p' = (objs p)(a := None) \<and>
           g_active_window_count p' = g_active_window_count p - 1 \<and>
           instance_registrar p' = (if g_active_window_count p = 1 then Some False else instance_registrar p) \<and>
           obs st' = (case window_handle x of None \<Rightarrow> unregister_last (g_active_window_count p - 1) (delete_own (flutter_controller x) (obs st))
             | Some h \<Rightarrow> destroy_effect h (quit_on_close x) (g_active_window_count p - 1) (delete_own (flutter_controller x) (obs st)))"
proof -
  let ?ex = "exec sys (Suc (Suc n))" let ?x = "x\<lparr>flutter_controller := None, dyn_class := Win32Window\<rparr>"
  let ?p = "p\<lparr>g_active_window_count := g_active_window_count p - 1, objs := (objs p)(a \<mapsto> ?x)\<rparr>"
  obtain st1 where 1: "(case flutter_controller x of Some ct \<Rightarrow> sys_run ?ex (DeleteController ct) (p, st) | None \<Rightarrow> Some (p, st)) = Some (p, st1)"
    "obs st1 = delete_own (flutter_controller x) (obs st)"
  proof (cases "flutter_controller x")
    case (Some ct)
    then have "ct \<in> d_controllers (obs st)" using x(2) by (simp add: live_def)
    then show ?thesis using that quiet_run [of obs sys "DeleteController ct" "deleted ct" "\<lambda>_. True" p st "Suc n", OF contractD(4) [OF c]] Some by (auto simp: delete_own_def)
  qed (use that in \<open>simp add: delete_own_def\<close>)
  have x': "objs ?p a = Some ?x" "own_controller ?x = None" "live None d" "delete_own None d = d" for d by (simp_all add: own_controller_def live_def delete_own_def)
  obtain st2 where 2: "Destroy ?ex a (?p, st1) = Some (after_destroy a ?x ?p, st2)"
    "obs st2 = (case window_handle x of None \<Rightarrow> unregister_last (g_active_window_count p - 1) (obs st1)
       | Some h \<Rightarrow> destroy_effect h (quit_on_close x) (g_active_window_count p - 1) (obs st1))"
  proof (cases "window_handle x")
    case None
    then show ?thesis using that destroy_no_window [OF c x'(1), of st1 "Suc n"] x'(2-4) by auto
  next
    case (Some h)
    then have "window_handle ?x = Some h" "d_windows (obs st1) h = Some (Some a)" using h 1(2) by simp_all
    then show ?thesis using that destroy_window [OF c x'(1), of h st1 n] Some x'(2-4) by auto
  qed
  have "p\<lparr>objs := (objs p)(a \<mapsto> x\<lparr>flutter_controller := None\<rparr>), g_active_window_count := g_active_window_count p - 1,
      objs := (objs p)(a \<mapsto> ?x)\<rparr> = ?p" by simp
  then have m: "modify a (\<lambda>x. x\<lparr>dyn_class := Win32Window\<rparr>)
      (p\<lparr>objs := (objs p)(a \<mapsto> x\<lparr>flutter_controller := None\<rparr>), g_active_window_count := g_active_window_count p - 1\<rparr>, st1) = Some (?p, st1)"
    by (simp add: modify_def)
  have "FlutterWindow_dtor ?ex a (p, st) =
      Some ((after_destroy a ?x ?p)\<lparr>objs := (objs (after_destroy a ?x ?p))(a := None)\<rparr>, st2)"
    using x(1) 1(1) m 2(1) by (simp add: FlutterWindow_dtor_def Win32Window_dtor_def this_def modify_def del: exec.simps)
  then show ?thesis using 2(2) unfolding 1(2) by (simp add: after_destroy_def)
qed

section \<open>Properties\<close>

text \<open>The calls seen when a controller is deleted and when no window object is left.\<close>

definition delete_calls :: "nat option \<Rightarrow> call list" where "delete_calls c = (case c of Some ct \<Rightarrow> [DeleteController ct] | None \<Rightarrow> [])"

definition unregister_calls :: "32 word \<Rightarrow> call list" where "unregister_calls n = (if n = 0 then [UnregisterClass] else [])"

definition quit_calls :: "bool \<Rightarrow> call list" where "quit_calls b = (if b then [PostQuitMessage 0] else [])"

lemma desk_fields:
  "d_log (delete_own c d) = d_log d @ delete_calls c" "d_controllers (delete_own c d) = d_controllers d - set_option c" "d_class (delete_own c d) = d_class d"
  "d_log (unregister_last n d) = d_log d @ unregister_calls n" "d_controllers (unregister_last n d) = d_controllers d"
  "d_class (unregister_last n d) = (d_class d \<and> (n = 0 \<longrightarrow> d_windows d \<noteq> Map.empty))"
  "d_log (quit_if q d) = d_log d @ quit_calls q" "d_controllers (quit_if q d) = d_controllers d" "d_class (quit_if q d) = d_class d"
  "d_log (logged k d) = d_log d @ [k]" "d_controllers (logged k d) = d_controllers d" "d_class (logged k d) = d_class d"
  "d_windows (window_gone h d) = (d_windows d)(h := None)" "d_log (window_gone h d) = d_log d" "d_controllers (window_gone h d) = d_controllers d" "d_class (window_gone h d) = d_class d"
  by (auto simp: desk_defs delete_calls_def unregister_calls_def quit_calls_def split: option.splits)

lemma destroy_effect_fields:
  assumes "d_windows d h \<noteq> None"
  shows "destroy_effect h q n d = \<lparr>d_windows = (d_windows d)(h := None), d_log = d_log d @ [DestroyWindow h] @ unregister_calls n @ quit_calls q @ unregister_calls n,
    d_class = (d_class d \<and> (n = 0 \<longrightarrow> (d_windows d)(h := None) \<noteq> Map.empty)), d_controllers = d_controllers d\<rparr>"
  using assms by (intro desk.equality) (auto simp: destroy_effect_def desk_fields)

text \<open>C2. Destroying a window, for a system whose \<open>DestroyWindow\<close> sends \<open>WM_DESTROY\<close> and \<open>WM_NCDESTROY\<close> to the window procedure while it runs, whose \<open>UnregisterClass\<close> fails as long as a
  window of the class exists, and where only a live controller may be deleted. \<open>Destroy\<close> on an object with a window, which its own handler enters again, returns with two levels of nesting
  and makes exactly these calls: it deletes the controller, destroys the window, unregisters the class when no window object is counted, posts the exit code 0 when the window quits the
  application, and unregisters the class again. When the system sends \<open>WM_DESTROY\<close> and the engine claims it, nothing happens; otherwise the controller is deleted, the class
  unregistered when no object is counted and the exit code posted, and the destructor that follows deletes no controller, destroys no window and posts no exit code. The destructor of an
  object with a window does all this once; when it was the last object and no other window of the class exists, the class is unregistered.
\<close>

theorem window_destroy:
  assumes "destroy_contract claims obs sys" "objs p a = Some x" "dyn_class x = FlutterWindow" "window_handle x = Some h" "d_windows (obs st) h = Some (Some a)"
    and "live (flutter_controller x) (obs st)"
  shows "(\<exists>st'. Destroy (exec sys (Suc (Suc n))) a (p, st) = Some (after_destroy a x p, st') \<and>
       obs st' = \<lparr>d_windows = (d_windows (obs st))(h := None),
         d_log = d_log (obs st) @ delete_calls (flutter_controller x) @ [DestroyWindow h] @ unregister_calls (g_active_window_count p) @ quit_calls (quit_on_close x) @
           unregister_calls (g_active_window_count p),
         d_class = (d_class (obs st) \<and> (g_active_window_count p = 0 \<longrightarrow> (d_windows (obs st))(h := None) \<noteq> Map.empty)),
         d_controllers = d_controllers (obs st) - set_option (flutter_controller x)\<rparr>) \<and>
    (\<exists>st'. case claimed claims x h p st of
       Some l \<Rightarrow> WndProc (exec sys (Suc n)) h WM_DESTROY (p, st) = Some (l, (p, st')) \<and> obs st' = obs st
     | None \<Rightarrow> WndProc (exec sys (Suc n)) h WM_DESTROY (p, st) = Some (0, (after_destroy a x p, st')) \<and>
         obs st' = (obs st)\<lparr>d_log := d_log (obs st) @ delete_calls (flutter_controller x) @ unregister_calls (g_active_window_count p) @ quit_calls (quit_on_close x),
           d_controllers := d_controllers (obs st) - set_option (flutter_controller x)\<rparr> \<and>
         (\<exists>p'' st''. FlutterWindow_dtor (exec sys (Suc (Suc n))) a (after_destroy a x p, st') = Some (p'', st'') \<and>
            objs p'' = (objs p)(a := None) \<and> g_active_window_count p'' = g_active_window_count p - 1 \<and>
            d_log (obs st'') = d_log (obs st') @ unregister_calls (g_active_window_count p - 1) \<and> d_controllers (obs st'') = d_controllers (obs st'))) \<and>
    (\<exists>p' st'. FlutterWindow_dtor (exec sys (Suc (Suc n))) a (p, st) = Some (p', st') \<and> objs p' = (objs p)(a := None) \<and>
       g_active_window_count p' = g_active_window_count p - 1 \<and> instance_registrar p' = (if g_active_window_count p = 1 then Some False else instance_registrar p) \<and>
       obs st' = \<lparr>d_windows = (d_windows (obs st))(h := None),
         d_log = d_log (obs st) @ delete_calls (flutter_controller x) @ [DestroyWindow h] @ unregister_calls (g_active_window_count p - 1) @ quit_calls (quit_on_close x) @
           unregister_calls (g_active_window_count p - 1),
         d_class = (d_class (obs st) \<and> (g_active_window_count p = 1 \<longrightarrow> (d_windows (obs st))(h := None) \<noteq> Map.empty)),
         d_controllers = d_controllers (obs st) - set_option (flutter_controller x)\<rparr>)"
    (is "?destroy \<and> ?message \<and> ?dtor")
proof (intro conjI)
  have own: "own_controller x = flutter_controller x" using assms(3) by (simp add: own_controller_def)
  have w: "d_windows (delete_own (flutter_controller x) (obs st)) h \<noteq> None" using assms(5) by simp
  note eff = destroy_effect_fields [OF w, unfolded desk_fields windows_kept append_assoc]
  show ?destroy using destroy_window [OF assms(1,2,4,5), of n] assms(6) unfolding own eff by blast
  show ?dtor using dtor_ok [OF assms(1,2,6), of n] assms(4,5) unfolding own by (simp add: eff del: exec.simps)
  have a: "objs (after_destroy a x p) a = Some (destroyed x)" "window_handle (destroyed x) = None" "flutter_controller (destroyed x) = None"
    "g_active_window_count (after_destroy a x p) = g_active_window_count p" "objs (after_destroy a x p) = (objs p)(a \<mapsto> destroyed x)"
    using assms(3) by (simp_all add: after_destroy_def destroyed_def)
  have d: "\<exists>p'' st''. FlutterWindow_dtor (exec sys (Suc (Suc n))) a (after_destroy a x p, s) = Some (p'', st'') \<and>
      objs p'' = (objs p)(a := None) \<and> g_active_window_count p'' = g_active_window_count p - 1 \<and>
      d_log (obs st'') = d_log (obs s) @ unregister_calls (g_active_window_count p - 1) \<and> d_controllers (obs st'') = d_controllers (obs s)" for s
    using dtor_ok [OF assms(1) a(1), of s n] a(2-5) by (auto simp: live_def desk_fields delete_calls_def simp del: exec.simps)
  have e: "quit_if (quit_on_close x) (unregister_last (g_active_window_count p) (delete_own (flutter_controller x) (obs st))) =
      (obs st)\<lparr>d_log := d_log (obs st) @ delete_calls (flutter_controller x) @ unregister_calls (g_active_window_count p) @ quit_calls (quit_on_close x),
        d_controllers := d_controllers (obs st) - set_option (flutter_controller x)\<rparr>"
    using assms(5) by (intro desk.equality) (auto simp: desk_fields)
  show ?message using wm_destroy_ok [OF assms(1,2,5), of n] assms(6) d e unfolding own by (cases "claimed claims x h p st") auto
qed

text \<open>A system with one window, that of object 0, and an object that quits the application.\<close>

definition desktop_sys :: "desk system" where
  "desktop_sys cb c = (\<lambda>(p, st). case c of
     GetWindowLongPtr h \<Rightarrow> Some (Handle (Option.bind (d_windows st h) id), (p, st))
   | PostQuitMessage code \<Rightarrow> Some (Void, (p, logged c st))
   | UnregisterClass \<Rightarrow> Some (Void, (p, unregistered st))
   | DeleteController ct \<Rightarrow> if ct \<in> d_controllers st then Some (Void, (p, deleted ct st)) else None
   | HandleTopLevelWindowProc ct h msg \<Rightarrow> Some (Result None, (p, st))
   | DefWindowProc h msg \<Rightarrow> Some (Num 0, (p, st))
   | DestroyWindow h \<Rightarrow>
       if d_windows st h = None then Some (Flag False, (p, st))
       else do { (_, w1) \<leftarrow> cb h WM_DESTROY (p, logged c st); (_, w2) \<leftarrow> cb h WM_NCDESTROY w1;
                 Some (Flag True, (fst w2, (snd w2)\<lparr>d_windows := (d_windows (snd w2))(h := None)\<rparr>)) }
   | _ \<Rightarrow> Some (Void, (p, st)))"

lemma desktop_contract: "destroy_contract (\<lambda>_ _ _ _. None) id desktop_sys"
  unfolding destroy_contract_def quiet_def by (auto simp: desktop_sys_def)

definition main_window :: window where
  "main_window = \<lparr>dyn_class = FlutterWindow, quit_on_close = True, window_handle = Some 5, child_content = Some 6, flutter_controller = Some 9\<rparr>"

definition one_window :: prog where
  "one_window = \<lparr>g_active_window_count = 1, instance_registrar = Some True, objs = [0 \<mapsto> main_window]\<rparr>"

definition one_desk :: desk where "one_desk = \<lparr>d_windows = [5 \<mapsto> Some 0], d_log = [], d_class = True, d_controllers = {9}\<rparr>"

theorem window_destroy_witness:
  "\<exists>p' st'. FlutterWindow_dtor (exec desktop_sys 2) 0 (one_window, one_desk) = Some (p', st') \<and> objs p' 0 = None \<and> \<not> d_class st' \<and> d_controllers st' = {} \<and>
     d_log st' = [DeleteController 9, DestroyWindow 5, UnregisterClass, PostQuitMessage 0, UnregisterClass]"
  using window_destroy [OF desktop_contract, of one_window 0 main_window 5 one_desk 0]
  by (auto simp: one_window_def main_window_def one_desk_def live_def delete_calls_def unregister_calls_def quit_calls_def numeral_2_eq_2 simp del: exec.simps)

text \<open>\<open>WM_FONTCHANGE\<close> on a \<open>FlutterWindow\<close> reaches the controller through the pointer that is set in \<open>OnCreate\<close> and cleared in
  \<open>OnDestroy\<close>, without a test: the handler dereferences a null pointer exactly in the states without a controller, which every
  \<open>FlutterWindow\<close> is in from its construction until \<open>OnCreate\<close> and again after it was destroyed.\<close>

theorem font_change_null:
  "MessageHandler_flutter ex a h WM_FONTCHANGE (new_window FlutterWindow a w) = None \<and>
   MessageHandler_flutter ex a h WM_FONTCHANGE (after_destroy a (x\<lparr>dyn_class := FlutterWindow\<rparr>) p, st) = None"
  by (simp add: MessageHandler_flutter_def new_window_def this_def through_controller_def after_destroy_def destroyed_def split: prod.splits)

text \<open>The message loop takes the answer -1 of \<open>GetMessage\<close>, an error, for a message: while the error stays the loop does not end.\<close>

lemma message_loop_error:
  assumes "\<And>w. \<exists>h msg w'. ex GetMessage w = Some (Got (-1) h msg, w')"
  shows "message_loop k ex w = None"
proof (induction k arbitrary: w)
  case (Suc k)
  obtain h msg w' where "ex GetMessage w = Some (Got (-1) h msg, w')" using assms by blast
  then show ?case using Suc by (simp add: sys_run_def split: bind_splits prod.splits)
qed simp

end
