(* ===== verification/Link_Path.thy ===== *)
theory Link_Path
  imports Prelude
begin

text \<open>
  Singly linked sequences in a heap: \<open>path nx p xs q\<close> says that the links \<open>nx\<close> lead from \<open>p\<close> through the addresses \<open>xs\<close> to \<open>q\<close>. Shared by the used-chain of
  \<open>Hash_Filo\<close> and the block list of \<open>Tranx_Alloc\<close>.
\<close>

fun path :: "(nat \<Rightarrow> nat) \<Rightarrow> nat \<Rightarrow> nat list \<Rightarrow> nat \<Rightarrow> bool" where
  "path nx p [] q \<longleftrightarrow> p = q"
| "path nx p (x # xs) q \<longleftrightarrow> p = x \<and> path nx (nx x) xs q"

lemma path_append: "path nx p (xs @ y # ys) q \<longleftrightarrow> path nx p xs y \<and> path nx (nx y) ys q"
  by (induction xs arbitrary: p) auto

lemma path_upd [simp]: "x \<notin> set xs \<Longrightarrow> path (nx(x := v)) p xs q = path nx p xs q"
  by (induction xs arbitrary: p) auto

lemma path_zero: "path nx 0 xs q \<Longrightarrow> 0 \<notin> set xs \<Longrightarrow> xs = []"
  by (cases xs) auto

lemma path_tail: "path nx p (xs @ ys) q \<Longrightarrow> path nx (if ys = [] then q else hd ys) ys q"
  by (cases ys) (auto simp: path_append)

lemma path_rotate:
  assumes "path nx p (xs @ ys) q" "xs \<noteq> []" "ys \<noteq> []" "distinct (xs @ ys)"
  shows "path (nx(last ys := p, last xs := q)) (hd ys) (ys @ xs) q"
proof -
  obtain xs' x ys' y where e: "xs = xs' @ [x]" "ys = ys' @ [y]" using assms(2,3) by (metis rev_exhaust)
  then have s: "path nx p xs' x" "path nx (nx x) ys' y" "nx y = q" using assms(1) by (simp_all add: path_append)
  then have "hd ys = nx x" using e by (cases ys') auto
  then show ?thesis using s assms(4) by (auto simp: e path_append)
qed

end
