(* ===== verification/Hash_Filo.thy ===== *)
theory Hash_Filo
  imports Link_Path "HOL-Library.Monad_Syntax"
begin

text \<open>
  \<open>hash_filo.h\<close>: the cache of a bounded number of entries that drops the least recently used one. The entries carry the
  links of the used-chain; an entry is an address, 0 the null pointer. The hash table is the parameter \<open>ops\<close>, since
  \<open>my_hash_search\<close> and its companions are only declared in the repository. The result \<^const>\<open>None\<close> is a failed assertion,
  the use of a null pointer or a lock taken twice by its owner.
\<close>

section \<open>The cache\<close>

record ('h, 'k) hash_ops =
  my_hash_search :: "'h \<Rightarrow> 'k \<Rightarrow> nat"
  my_hash_insert :: "'h \<Rightarrow> nat \<Rightarrow> bool \<times> 'h"
  my_hash_delete :: "'h \<Rightarrow> nat \<Rightarrow> 'h"
  my_hash_renew :: "'h \<Rightarrow> uint \<Rightarrow> 'h"
  hash_records :: "'h \<Rightarrow> uint"

record 'h hash_filo =
  m_size :: uint
  filo_init :: bool
  filo_lock :: bool
  first_link :: nat
  last_link :: nat
  next_used :: "nat \<Rightarrow> nat"
  prev_used :: "nat \<Rightarrow> nat"
  cache :: 'h

definition filo_new :: "uint \<Rightarrow> 'h \<Rightarrow> (nat \<Rightarrow> nat) \<Rightarrow> (nat \<Rightarrow> nat) \<Rightarrow> 'h hash_filo" where
  "filo_new size_arg zeroed nx pv = \<lparr>m_size = size_arg, filo_init = False, filo_lock = False, first_link = 0, last_link = 0,
     next_used = nx, prev_used = pv, cache = zeroed\<rparr>"

definition filo_clear :: "('h, 'k) hash_ops \<Rightarrow> bool \<Rightarrow> 'h hash_filo \<Rightarrow> 'h hash_filo option" where
  "filo_clear ops locked s =
     (let s = (if \<not> filo_init s then s\<lparr>filo_init := True, filo_lock := False\<rparr> else s)
      in do {
        s \<leftarrow> (if \<not> locked then if filo_lock s then None else Some (s\<lparr>filo_lock := True\<rparr>) else Some s);
        let s = s\<lparr>first_link := 0\<rparr>;
        let s = s\<lparr>last_link := 0\<rparr>;
        let s = s\<lparr>cache := my_hash_renew ops (cache s) (m_size s)\<rparr>;
        Some (if \<not> locked then s\<lparr>filo_lock := False\<rparr> else s) })"

definition filo_first :: "'h hash_filo \<Rightarrow> nat option" where "filo_first s = (if filo_lock s then Some (first_link s) else None)"
definition filo_last :: "'h hash_filo \<Rightarrow> nat option" where "filo_last s = (if filo_lock s then Some (last_link s) else None)"
definition filo_size :: "'h hash_filo \<Rightarrow> uint" where "filo_size s = m_size s"

definition filo_search :: "('h, 'k) hash_ops \<Rightarrow> 'k \<Rightarrow> 'h hash_filo \<Rightarrow> (nat \<times> 'h hash_filo) option" where
  "filo_search ops key s =
     (if \<not> filo_lock s then None
      else let entry = my_hash_search ops (cache s) key
        in if entry \<noteq> 0
           then if first_link s = 0 \<or> last_link s = 0 then None
             else if entry \<noteq> first_link s
             then do {
               s \<leftarrow> (if entry = last_link s
                    then let s = s\<lparr>last_link := prev_used s (last_link s)\<rparr>
                      in if last_link s = 0 then None else Some (s\<lparr>next_used := (next_used s)(last_link s := 0)\<rparr>)
                    else if next_used s entry = 0 \<or> prev_used s entry = 0 then None
                    else let s = s\<lparr>prev_used := (prev_used s)(next_used s entry := prev_used s entry)\<rparr>;
                             s = s\<lparr>next_used := (next_used s)(prev_used s entry := next_used s entry)\<rparr>
                      in Some s);
               let s = s\<lparr>prev_used := (prev_used s)(entry := 0)\<rparr>;
               let s = s\<lparr>next_used := (next_used s)(entry := first_link s)\<rparr>;
               let s = s\<lparr>prev_used := (prev_used s)(first_link s := entry)\<rparr>;
               let s = s\<lparr>first_link := entry\<rparr>;
               Some (entry, s) }
             else Some (entry, s)
           else Some (0, s))"

text \<open>\<open>add\<close> returns its result, the entries it handed to \<open>free_element\<close> itself, and the cache.\<close>

definition filo_add :: "('h, 'k) hash_ops \<Rightarrow> bool \<Rightarrow> nat \<Rightarrow> 'h hash_filo \<Rightarrow> (bool \<times> nat list \<times> 'h hash_filo) option" where
  "filo_add ops free_element entry s =
     (if m_size s = 0 then Some (True, [], s)
      else do {
        s \<leftarrow> (if hash_records ops (cache s) = m_size s
             then let tmp = last_link s
               in if tmp = 0 then None
                  else let s = s\<lparr>last_link := prev_used s (last_link s)\<rparr>;
                           s = (if last_link s \<noteq> 0 then s\<lparr>next_used := (next_used s)(last_link s := 0)\<rparr> else s\<lparr>first_link := 0\<rparr>)
                    in Some (s\<lparr>cache := my_hash_delete ops (cache s) tmp\<rparr>)
             else Some s);
        let (failed, h) = my_hash_insert ops (cache s) entry;
        let s = s\<lparr>cache := h\<rparr>;
        if failed then Some (True, if free_element then [entry] else [], s)
        else let s = s\<lparr>prev_used := (prev_used s)(entry := 0)\<rparr>;
                 s = s\<lparr>next_used := (next_used s)(entry := first_link s)\<rparr>;
                 s = (if first_link s \<noteq> 0 then s\<lparr>prev_used := (prev_used s)(first_link s := entry)\<rparr> else s\<lparr>last_link := entry\<rparr>);
                 s = s\<lparr>first_link := entry\<rparr>
          in Some (False, [], s) })"

definition filo_resize :: "('h, 'k) hash_ops \<Rightarrow> uint \<Rightarrow> 'h hash_filo \<Rightarrow> 'h hash_filo option" where
  "filo_resize ops new_size s =
     (if filo_lock s then None
      else do { s \<leftarrow> filo_clear ops True (s\<lparr>filo_lock := True, m_size := new_size\<rparr>); Some (s\<lparr>filo_lock := False\<rparr>) })"

section \<open>The used-chain\<close>

text \<open>The chain of the entries, from the most recently used one, in both directions.\<close>

definition used :: "'h hash_filo \<Rightarrow> nat list \<Rightarrow> bool" where
  "used s xs \<longleftrightarrow> distinct xs \<and> 0 \<notin> set xs \<and> path (next_used s) (first_link s) xs 0 \<and> path (prev_used s) (last_link s) (rev xs) 0"

lemma used_ends: "used s xs \<Longrightarrow> first_link s = (if xs = [] then 0 else hd xs) \<and> last_link s = (if xs = [] then 0 else last xs)"
proof
  assume "used s xs"
  then show "first_link s = (if xs = [] then 0 else hd xs)" by (cases xs) (auto simp: used_def)
  show "last_link s = (if xs = [] then 0 else last xs)" using \<open>used s xs\<close> by (cases xs rule: rev_cases) (auto simp: used_def)
qed

text \<open>Dropping the last entry, dropping an inner one, and putting an entry first.\<close>

lemma used_butlast:
  assumes "used s (xs @ [e])"
  shows "used (let s = s\<lparr>last_link := prev_used s (last_link s)\<rparr>
               in if last_link s \<noteq> 0 then s\<lparr>next_used := (next_used s)(last_link s := 0)\<rparr> else s\<lparr>first_link := 0\<rparr>) xs"
proof (cases xs rule: rev_cases)
  case (snoc ys y)
  then show ?thesis using assms by (auto simp: used_def path_append)
qed (use assms in \<open>auto simp: used_def\<close>)

lemma used_inner:
  assumes "used s (us @ [u] @ e # v # vs)"
  shows "next_used s e = v" "prev_used s e = u" "v \<noteq> 0" "u \<noteq> 0" "e \<noteq> first_link s" "e \<noteq> last_link s"
    "used (s\<lparr>prev_used := (prev_used s)(v := u), next_used := (next_used s)(u := v)\<rparr>) (us @ [u] @ v # vs)"
proof -
  have d: "distinct (us @ [u] @ e # v # vs)" "0 \<notin> set (us @ [u] @ e # v # vs)"
    and n: "path (next_used s) (first_link s) (us @ [u]) e" "path (next_used s) (next_used s e) (v # vs) 0"
    and r: "path (prev_used s) (last_link s) (rev vs @ [v]) e" "path (prev_used s) (prev_used s e) (u # rev us) 0"
    using assms by (auto simp: used_def path_append)
  show "next_used s e = v" "prev_used s e = u" "v \<noteq> 0" "u \<noteq> 0" using n r d by auto
  have "hd (us @ [u]) \<in> set (us @ [u])" by (rule hd_in_set) simp
  moreover have "last (v # vs) \<in> set (v # vs)" by (rule last_in_set) simp
  moreover have "first_link s = hd (us @ [u])" "last_link s = last (v # vs)" using used_ends [OF assms] by (simp_all add: hd_append)
  ultimately show "e \<noteq> first_link s" "e \<noteq> last_link s" using d(1) by auto
  show "used (s\<lparr>prev_used := (prev_used s)(v := u), next_used := (next_used s)(u := v)\<rparr>) (us @ [u] @ v # vs)"
    using d n r by (auto simp: used_def path_append)
qed

definition put_first :: "nat \<Rightarrow> 'h hash_filo \<Rightarrow> 'h hash_filo" where
  "put_first entry s =
     (let s = s\<lparr>prev_used := (prev_used s)(entry := 0)\<rparr>;
          s = s\<lparr>next_used := (next_used s)(entry := first_link s)\<rparr>;
          s = (if first_link s \<noteq> 0 then s\<lparr>prev_used := (prev_used s)(first_link s := entry)\<rparr> else s\<lparr>last_link := entry\<rparr>)
      in s\<lparr>first_link := entry\<rparr>)"

lemma put_first_fields [simp]: "cache (put_first e s) = cache s" "m_size (put_first e s) = m_size s" "filo_lock (put_first e s) = filo_lock s"
  by (simp_all add: put_first_def Let_def)

lemma used_put_first:
  assumes "used s xs" "e \<notin> set xs" "e \<noteq> 0"
  shows "used (put_first e s) (e # xs)"
proof (cases xs)
  case (Cons y ys)
  have "path ((prev_used s)(e := 0, y := e)) (last_link s) (rev ys) y"
    using assms Cons by (auto simp: used_def path_append)
  then show ?thesis using assms Cons by (auto simp: used_def put_first_def path_append Let_def)
qed (use assms in \<open>auto simp: used_def put_first_def Let_def\<close>)

section \<open>The abstract cache\<close>

text \<open>
  What the cache relies on of the hash table: \<open>elems\<close> are its entries, \<open>key\<close> the key of an entry; at most one entry has a given key.
  \<open>my_hash_renew\<close> is \<open>my_hash_free\<close> and \<open>my_hash_init\<close>.
\<close>

definition hash_contract :: "('h \<Rightarrow> nat set) \<Rightarrow> (nat \<Rightarrow> 'k) \<Rightarrow> ('h, 'k) hash_ops \<Rightarrow> bool" where
  "hash_contract elems key ops \<longleftrightarrow>
     (\<forall>h. finite (elems h) \<longrightarrow> hash_records ops h = of_nat (card (elems h))) \<and>
     (\<forall>h k. inj_on key (elems h) \<and> 0 \<notin> elems h \<longrightarrow>
        (case my_hash_search ops h k of 0 \<Rightarrow> k \<notin> key ` elems h | e \<Rightarrow> e \<in> elems h \<and> key e = k)) \<and>
     (\<forall>h e. e \<in> elems h \<longrightarrow> elems (my_hash_delete ops h e) = elems h - {e}) \<and>
     (\<forall>h e. elems (snd (my_hash_insert ops h e)) = (if fst (my_hash_insert ops h e) then elems h else insert e (elems h))) \<and>
     (\<forall>h n. elems (my_hash_renew ops h n) = {})"

text \<open>The state represents the list of the entries, the most recently used first.\<close>

definition caches :: "('h \<Rightarrow> nat set) \<Rightarrow> (nat \<Rightarrow> 'k) \<Rightarrow> 'h hash_filo \<Rightarrow> nat list \<Rightarrow> bool" where
  "caches elems key s xs \<longleftrightarrow> used s xs \<and> set xs = elems (cache s) \<and> inj_on key (set xs) \<and> length xs \<le> unat (m_size s)"

definition lru_search :: "(nat \<Rightarrow> 'k) \<Rightarrow> 'k \<Rightarrow> nat list \<Rightarrow> nat \<times> nat list" where
  "lru_search key k xs = (case find (\<lambda>e. key e = k) xs of None \<Rightarrow> (0, xs) | Some e \<Rightarrow> (e, e # remove1 e xs))"

definition lru_add :: "nat \<Rightarrow> nat \<Rightarrow> nat list \<Rightarrow> nat list" where
  "lru_add n e xs = e # (if length xs = n then butlast xs else xs)"

lemma hash_found:
  assumes c: "hash_contract elems key ops" and r: "caches elems key s xs"
  shows "my_hash_search ops (cache s) k = fst (lru_search key k xs)"
    and "fst (lru_search key k xs) \<noteq> 0 \<longleftrightarrow> k \<in> key ` set xs"
proof -
  have x: "inj_on key (elems (cache s))" "0 \<notin> elems (cache s)" using r by (auto simp: caches_def used_def)
  then have s: "case my_hash_search ops (cache s) k of 0 \<Rightarrow> k \<notin> key ` elems (cache s) | e \<Rightarrow> e \<in> elems (cache s) \<and> key e = k"
    using c unfolding hash_contract_def by blast
  have el: "elems (cache s) = set xs" using r by (auto simp: caches_def)
  have "my_hash_search ops (cache s) k = fst (lru_search key k xs) \<and> (fst (lru_search key k xs) \<noteq> 0 \<longleftrightarrow> k \<in> key ` set xs)"
  proof (cases "find (\<lambda>e. key e = k) xs")
    case None
    then have k: "k \<notin> key ` set xs" by (auto simp: find_None_iff)
    then have "my_hash_search ops (cache s) k = 0" using s el by (cases "my_hash_search ops (cache s) k") auto
    then show ?thesis using None k by (simp add: lru_search_def)
  next
    case (Some e)
    then have e: "e \<in> set xs" "key e = k" by (auto simp: find_Some_iff)
    have "e \<noteq> 0" using e(1) x(2) el by metis
    moreover have "my_hash_search ops (cache s) k = e"
    proof (cases "my_hash_search ops (cache s) k")
      case 0
      then show ?thesis using s e el by auto
    next
      case (Suc n)
      then have "Suc n \<in> set xs" "key (Suc n) = key e" using s e el by simp_all
      then have "Suc n = e" using inj_onD [OF x(1)] e(1) el by metis
      then show ?thesis using Suc by simp
    qed
    moreover have "k \<in> key ` set xs" using e by blast
    ultimately show ?thesis using Some by (simp add: lru_search_def)
  qed
  then show "my_hash_search ops (cache s) k = fst (lru_search key k xs)" "fst (lru_search key k xs) \<noteq> 0 \<longleftrightarrow> k \<in> key ` set xs"
    by simp_all
qed

lemma lru_search_split:
  assumes "distinct xs" "fst (lru_search key k xs) = e" "e \<noteq> 0"
  obtains us vs where "xs = us @ e # vs" "snd (lru_search key k xs) = e # us @ vs"
proof -
  have f: "find (\<lambda>e. key e = k) xs = Some e" using assms by (auto simp: lru_search_def split: option.splits)
  then have "e \<in> set xs" by (metis find_Some_iff nth_mem)
  then obtain us vs where xs: "xs = us @ e # vs" by (meson split_list)
  then have "e \<notin> set us" using assms(1) by auto
  then show ?thesis using that [OF xs] f xs by (simp add: lru_search_def remove1_append)
qed

text \<open>A hit puts the entry first.\<close>

lemma filo_search_relinks:
  assumes "used s (us @ e # vs)" "filo_lock s" "my_hash_search ops (cache s) k = e"
  shows "\<exists>s'. filo_search ops k s = Some (e, s') \<and> used s' (e # us @ vs) \<and> cache s' = cache s \<and> m_size s' = m_size s \<and> filo_lock s'"
proof -
  have e: "e \<noteq> 0" "e \<notin> set us" "e \<notin> set vs" using assms(1) by (auto simp: used_def)
  have "hd (us @ e # vs) \<in> set (us @ e # vs)" by (rule hd_in_set) simp
  moreover have "last (us @ e # vs) \<in> set (us @ e # vs)" by (rule last_in_set) simp
  moreover have "0 \<notin> set (us @ e # vs)" using assms(1) by (simp add: used_def)
  moreover have "first_link s = hd (us @ e # vs)" "last_link s = last (us @ e # vs)" using used_ends [OF assms(1)] by simp_all
  ultimately have nz: "first_link s \<noteq> 0" "last_link s \<noteq> 0" by metis+
  show ?thesis
  proof (cases us rule: rev_cases)
    case Nil
    then have "first_link s = e" using used_ends [OF assms(1)] by simp
    then show ?thesis using Nil assms nz e by (simp add: filo_search_def)
  next
    case (snoc us' u)
    have nf: "e \<noteq> first_link s" using used_ends [OF assms(1)] snoc e(2) by (auto simp: hd_append split: if_splits)
    show ?thesis
    proof (cases vs)
      case Nil
      let ?s = "s\<lparr>last_link := u, next_used := (next_used s)(u := 0)\<rparr>"
      have l: "e = last_link s" "prev_used s e = u" "u \<noteq> 0" using assms(1) snoc Nil by (auto simp: used_def)
      then have us: "used ?s us" using used_butlast [of s us e] assms(1) Nil by simp
      then have f: "first_link s \<noteq> 0" "first_link ?s = first_link s" using nz by simp_all
      have "filo_search ops k s = Some (e, put_first e ?s)"
        using l nf nz assms(2,3) e(1) by (simp add: filo_search_def put_first_def Let_def)
      moreover have "used (put_first e ?s) (e # us)" using used_put_first [OF us e(2,1)] .
      ultimately show ?thesis using Nil assms(2) by (simp add: put_first_def Let_def)
    next
      case (Cons v vs')
      note inner = used_inner [of s us' u e v vs']
      let ?s = "s\<lparr>prev_used := (prev_used s)(v := u), next_used := (next_used s)(u := v)\<rparr>"
      have us: "used ?s (us @ vs)" and l: "next_used s e = v" "prev_used s e = u" "v \<noteq> 0" "u \<noteq> 0" "e \<noteq> last_link s"
        using inner assms(1) snoc Cons by simp_all
      have "e \<noteq> v" "e \<noteq> u" using e snoc Cons by auto
      then have "filo_search ops k s = Some (e, put_first e ?s)"
        using l nf nz assms(2,3) e(1) by (simp add: filo_search_def put_first_def Let_def)
      moreover have "used (put_first e ?s) (e # us @ vs)" using used_put_first [OF us] e by simp
      ultimately show ?thesis using assms(2) by (simp add: put_first_def Let_def)
    qed
  qed
qed

lemma search_refines:
  assumes c: "hash_contract elems key ops" and r: "caches elems key s xs" and lock: "filo_lock s"
  shows "\<exists>s'. filo_search ops k s = Some (fst (lru_search key k xs), s') \<and> caches elems key s' (snd (lru_search key k xs)) \<and>
           filo_lock s' \<and> m_size s' = m_size s"
proof (cases "fst (lru_search key k xs) = 0")
  case True
  then have "snd (lru_search key k xs) = xs"
    using r by (auto simp: lru_search_def caches_def used_def split: option.splits)
       (metis find_Some_iff nth_mem)
  then show ?thesis using True hash_found(1) [OF c r, of k] lock r by (simp add: filo_search_def)
next
  case False
  obtain us vs where xs: "xs = us @ fst (lru_search key k xs) # vs" "snd (lru_search key k xs) = fst (lru_search key k xs) # us @ vs"
    using lru_search_split [OF _ refl False] r by (auto simp: caches_def used_def)
  have u: "used s (us @ fst (lru_search key k xs) # vs)" using r xs(1) by (simp add: caches_def)
  obtain s' where s': "filo_search ops k s = Some (fst (lru_search key k xs), s')" "used s' (snd (lru_search key k xs))" "cache s' = cache s"
    "m_size s' = m_size s" "filo_lock s'"
    using filo_search_relinks [OF u lock hash_found(1) [OF c r]] xs(2) by auto
  have "set (snd (lru_search key k xs)) = set xs" "length (snd (lru_search key k xs)) = length xs" using xs by (metis set_append set_simps(2) Un_insert_right, metis length_append length_Cons add_Suc_right)
  moreover have "set xs = elems (cache s')" "inj_on key (set xs)" "length xs \<le> unat (m_size s')"
    using r s'(3,4) by (auto simp: caches_def)
  ultimately show ?thesis using s' unfolding caches_def by auto
qed

text \<open>Adding an entry with a new key evicts the last one when the cache is full; the table may refuse the entry, after the eviction.\<close>

lemma add_refines:
  assumes c: "hash_contract elems key ops" and r: "caches elems key s xs" and n: "m_size s \<noteq> 0"
    and e: "e \<noteq> 0" "e \<notin> set xs" "key e \<notin> key ` set xs"
  shows "\<exists>failed freed s'. filo_add ops fe e s = Some (failed, freed, s') \<and> filo_lock s' = filo_lock s \<and> m_size s' = m_size s \<and>
           freed = (if failed \<and> fe then [e] else []) \<and> (failed \<longrightarrow> (\<exists>h. fst (my_hash_insert ops h e))) \<and>
           caches elems key s' (if failed then tl (lru_add (unat (m_size s)) e xs) else lru_add (unat (m_size s)) e xs)"
proof -
  define ys where "ys = (if length xs = unat (m_size s) then butlast xs else xs)"
  have x: "used s xs" "set xs = elems (cache s)" "inj_on key (set xs)" "length xs \<le> unat (m_size s)" using r by (auto simp: caches_def)
  have "finite (elems (cache s))" using x(2) by (metis finite_set)
  then have "hash_records ops (cache s) = of_nat (card (elems (cache s)))" using c by (simp add: hash_contract_def)
  moreover have "card (elems (cache s)) = length xs" using x(1,2) by (metis distinct_card used_def)
  ultimately have rec: "hash_records ops (cache s) = of_nat (length xs)" by simp
  have "length xs < 2 ^ 32" using x(4) unat_bound [of "m_size s"] by simp
  then have full: "hash_records ops (cache s) = m_size s \<longleftrightarrow> length xs = unat (m_size s)"
    using rec by (auto simp: unat_of_nat dest: arg_cong [of _ _ unat])
  let ?evict = "if hash_records ops (cache s) = m_size s
      then let tmp = last_link s
        in if tmp = 0 then None
           else let s = s\<lparr>last_link := prev_used s (last_link s)\<rparr>;
                    s = (if last_link s \<noteq> 0 then s\<lparr>next_used := (next_used s)(last_link s := 0)\<rparr> else s\<lparr>first_link := 0\<rparr>)
             in Some (s\<lparr>cache := my_hash_delete ops (cache s) tmp\<rparr>)
      else Some s"
  obtain s1 where s1: "?evict = Some s1" "used s1 ys" "elems (cache s1) = set ys" "filo_lock s1 = filo_lock s" "m_size s1 = m_size s"
  proof (cases "length xs = unat (m_size s)")
    case True
    then have "xs \<noteq> []" using n by (auto simp: unat_eq_zero)
    then obtain us l where us: "xs = us @ [l]" by (metis rev_exhaust)
    define s0 where "s0 = (let s = s\<lparr>last_link := prev_used s (last_link s)\<rparr>
      in if last_link s \<noteq> 0 then s\<lparr>next_used := (next_used s)(last_link s := 0)\<rparr> else s\<lparr>first_link := 0\<rparr>)"
    have l: "last_link s = l" "l \<noteq> 0" "l \<notin> set us" using x(1) us by (auto simp: used_def)
    have "used s0 us" using used_butlast [of s us l] x(1) us by (simp add: s0_def)
    then have u: "used (s0\<lparr>cache := my_hash_delete ops (cache s) l\<rparr>) us" by (simp add: used_def)
    have "l \<in> elems (cache s)" using x(2) us by auto
    then have "elems (my_hash_delete ops (cache s) l) = elems (cache s) - {l}" using c by (simp add: hash_contract_def)
    then have "elems (my_hash_delete ops (cache s) l) = set us" using x(2) us l(3) by auto
    moreover have "?evict = Some (s0\<lparr>cache := my_hash_delete ops (cache s) l\<rparr>)" using full True l by (simp add: Let_def s0_def)
    moreover have "ys = us" using True us by (simp add: ys_def)
    ultimately show ?thesis using that [of "s0\<lparr>cache := my_hash_delete ops (cache s) l\<rparr>"] u by (simp add: s0_def Let_def)
  next
    case False
    then show ?thesis using that [of s] full x by (simp add: ys_def)
  qed
  obtain failed h where h: "my_hash_insert ops (cache s1) e = (failed, h)" by fastforce
  have "elems (snd (my_hash_insert ops (cache s1) e)) = (if fst (my_hash_insert ops (cache s1) e) then elems (cache s1) else insert e (elems (cache s1)))"
    using c by (simp add: hash_contract_def)
  then have el: "elems h = (if failed then set ys else insert e (set ys))" using h s1(3) by simp
  have sub: "set ys \<subseteq> set xs" by (auto simp: ys_def dest: in_set_butlastD)
  then have inj: "inj_on key (set ys)" "key e \<notin> key ` set ys" "e \<notin> set ys" using x(3) e inj_on_subset by blast+
  have "0 < unat (m_size s)" using n by (metis gr0I unat_eq_zero)
  then have len: "Suc (length ys) \<le> unat (m_size s)" using x(4) by (auto simp: ys_def)
  have lru: "lru_add (unat (m_size s)) e xs = e # ys" by (simp add: lru_add_def ys_def)
  show ?thesis
  proof (cases failed)
    case True
    have "filo_add ops fe e s = Some (True, if fe then [e] else [], s1\<lparr>cache := h\<rparr>)"
      using n s1(1) h True by (simp add: filo_add_def)
    moreover have "fst (my_hash_insert ops (cache s1) e)" using h True by simp
    ultimately show ?thesis using True s1 el inj len lru by (auto simp: caches_def used_def)
  next
    case False
    have "filo_add ops fe e s = Some (False, [], put_first e (s1\<lparr>cache := h\<rparr>))"
      using n s1(1) h False by (simp add: filo_add_def put_first_def) (simp add: Let_def)
    moreover have "used (put_first e (s1\<lparr>cache := h\<rparr>)) (e # ys)"
      using used_put_first [of "s1\<lparr>cache := h\<rparr>" ys e] s1(2) inj(3) e(1) by (simp add: used_def)
    moreover have "cache (put_first e (s1\<lparr>cache := h\<rparr>)) = h" "m_size (put_first e (s1\<lparr>cache := h\<rparr>)) = m_size s"
      "filo_lock (put_first e (s1\<lparr>cache := h\<rparr>)) = filo_lock s" using s1(4,5) by simp_all
    ultimately show ?thesis using False el inj len lru by (auto simp: caches_def)
  qed
qed

lemma clear_refines:
  assumes "hash_contract elems key ops" "filo_clear ops locked s = Some s'"
  shows "caches elems key s' []" "m_size s' = m_size s"
  using assms by (auto simp: filo_clear_def caches_def used_def hash_contract_def Let_def split: if_splits)

section \<open>Properties\<close>

text \<open>The operations of a client that holds the lock; it adds an entry only after a search for its key has failed.\<close>

datatype 'k filo_op = Search 'k | Add nat

fun filo_step :: "('h, 'k) hash_ops \<Rightarrow> 'k filo_op \<Rightarrow> 'h hash_filo \<Rightarrow> (nat \<times> 'h hash_filo) option" where
  "filo_step ops (Search k) s = filo_search ops k s"
| "filo_step ops (Add e) s = map_option (\<lambda>(failed, _, s). (of_bool failed, s)) (filo_add ops True e s)"

fun lru_step :: "(nat \<Rightarrow> 'k) \<Rightarrow> nat \<Rightarrow> 'k filo_op \<Rightarrow> nat list \<Rightarrow> (nat \<times> nat list) option" where
  "lru_step key n (Search k) xs = Some (lru_search key k xs)"
| "lru_step key n (Add e) xs = (if e = 0 \<or> key e \<in> key ` set xs then None else Some (0, lru_add n e xs))"

fun steps :: "('a \<Rightarrow> 's \<Rightarrow> (nat \<times> 's) option) \<Rightarrow> 'a list \<Rightarrow> 's \<Rightarrow> (nat list \<times> 's) option" where
  "steps step [] s = Some ([], s)"
| "steps step (a # as) s = do { (r, s) \<leftarrow> step a s; (rs, s) \<leftarrow> steps step as s; Some (r # rs, s) }"

text \<open>C3. The cache implements the least-recently-used policy: for a hash table that keeps its contract and accepts every entry, any
  sequence of searches, and additions of entries whose key is not cached, passes every assertion, answers what
  the list of the entries in order of use answers, and leaves a chain that is this list: a hit moves the entry to
  the front, an addition drops the last entry when \<open>m_size\<close> entries are there. The number of entries never exceeds \<open>m_size\<close>.\<close>

theorem hash_filo_is_lru:
  assumes c: "hash_contract elems key ops" and ok: "\<And>h e. \<not> fst (my_hash_insert ops h e)"
    and "caches elems key s xs" "filo_lock s" "m_size s \<noteq> 0"
    and "steps (lru_step key (unat (m_size s))) as xs = Some (rs, ys)"
  shows "\<exists>s'. steps (filo_step ops) as s = Some (rs, s') \<and> caches elems key s' ys \<and> length ys \<le> unat (m_size s)"
  using assms(3-6)
proof (induction as arbitrary: s xs rs)
  case Nil
  then show ?case by (auto simp: caches_def)
next
  case (Cons a as)
  obtain r us rs' where st: "lru_step key (unat (m_size s)) a xs = Some (r, us)" "steps (lru_step key (unat (m_size s))) as us = Some (rs', ys)"
    "rs = r # rs'" using Cons.prems(4) by (auto split: bind_splits)
  obtain s1 where s1: "filo_step ops a s = Some (r, s1)" "caches elems key s1 us" "filo_lock s1" "m_size s1 = m_size s"
  proof (cases a)
    case (Search k)
    then show ?thesis using that search_refines [OF c Cons.prems(1,2), of k] st(1) by auto
  next
    case (Add e)
    then have e: "e \<noteq> 0" "e \<notin> set xs" "key e \<notin> key ` set xs" "r = 0" "us = lru_add (unat (m_size s)) e xs"
      using st(1) by (auto split: if_splits)
    obtain failed freed s' where a: "filo_add ops True e s = Some (failed, freed, s')" "filo_lock s' = filo_lock s" "m_size s' = m_size s"
      "caches elems key s' (if failed then tl (lru_add (unat (m_size s)) e xs) else lru_add (unat (m_size s)) e xs)"
      "failed \<longrightarrow> (\<exists>h. fst (my_hash_insert ops h e))"
      using add_refines [OF c Cons.prems(1,3) e(1-3), of True] by blast
    moreover have "\<not> failed" using a(5) ok by blast
    ultimately show ?thesis using that Add e Cons.prems(2) by simp
  qed
  then show ?case using Cons.IH [OF s1(2,3)] st Cons.prems(3) by auto
qed

text \<open>A table of entries with their own numbers as keys.\<close>

definition set_ops :: "(nat list, nat) hash_ops" where
  "set_ops = \<lparr>my_hash_search = (\<lambda>h k. if k \<in> set h then k else 0), my_hash_insert = (\<lambda>h e. (False, List.insert e h)),
     my_hash_delete = (\<lambda>h e. removeAll e h), my_hash_renew = (\<lambda>h n. []), hash_records = (\<lambda>h. of_nat (card (set h)))\<rparr>"

lemma set_ops_contract: "hash_contract set (\<lambda>e. e) set_ops"
  by (auto simp: hash_contract_def set_ops_def split: nat.splits)

definition two_slots :: "nat list hash_filo" where
  "two_slots = (filo_new 2 [] (\<lambda>_. 0) (\<lambda>_. 0))\<lparr>filo_lock := True\<rparr>"

theorem hash_filo_is_lru_witness:
  "\<exists>s'. steps (filo_step set_ops) [Add 5, Add 6, Search 5, Add 7, Search 6, Search 5] two_slots = Some ([0, 0, 5, 0, 0, 5], s') \<and>
     caches set (\<lambda>e. e) s' [5, 7]"
proof -
  have "caches set (\<lambda>e. e) two_slots []" "filo_lock two_slots" "m_size two_slots \<noteq> 0" "unat (m_size two_slots) = 2"
    by (simp_all add: two_slots_def filo_new_def caches_def used_def)
  moreover have "steps (lru_step (\<lambda>e. e) 2) [Add 5, Add 6, Search 5, Add 7, Search 6, Search 5] [] = Some ([0, 0, 5, 0, 0, 5], [5, 7])"
    by (simp add: lru_search_def lru_add_def)
  moreover have "\<not> fst (my_hash_insert set_ops h e)" for h e by (simp add: set_ops_def)
  ultimately show ?thesis using hash_filo_is_lru [OF set_ops_contract] by metis
qed

text \<open>Clearing and resizing empty the cache; the lock is free afterwards.\<close>

lemma filo_resize_empties:
  assumes "hash_contract elems key ops" "\<not> filo_lock s" "filo_init s"
  shows "\<exists>s'. filo_resize ops n s = Some s' \<and> caches elems key s' [] \<and> m_size s' = n \<and> \<not> filo_lock s'"
proof -
  obtain s1 where s1: "filo_clear ops True (s\<lparr>filo_lock := True, m_size := n\<rparr>) = Some s1" by (auto simp: filo_clear_def Let_def)
  have "caches elems key (s1\<lparr>filo_lock := False\<rparr>) []" "m_size s1 = n"
    using clear_refines [OF assms(1) s1] by (simp_all add: caches_def used_def)
  then show ?thesis using assms(2) s1 by (simp add: filo_resize_def)
qed

end
