(* ===== verification/Byte_Order.thy ===== *)
theory Byte_Order
  imports Prelude
begin

text \<open>
  Numbers in memory with the low byte first (\<open>byte_order_generic_x86_64.h\<close>). The two-byte forms on bytes are shared by the binary form of the collation map and the
  histograms; the other ones read and write a memory of bytes at an address, as the sort records do. A 24-bit number is returned in 32 bits, one of 40 or 48 bits in 64.
\<close>

definition int2store :: "uint16 \<Rightarrow> uchar list" where "int2store v = [ucast v, ucast (drop_bit 8 v)]"
definition uint2korr :: "uchar \<Rightarrow> uchar \<Rightarrow> uint16" where "uint2korr a b = ucast a OR push_bit 8 (ucast b)"

lemma uint2korr_int2store: "uint2korr (ucast v) (ucast (drop_bit 8 v)) = v" for v :: uint16
  by (rule bit_word_eqI) (auto simp: uint2korr_def bit_simps)

section \<open>Numbers at an address\<close>

type_synonym bytes_mem = "nat \<Rightarrow> uchar"

definition uint2korr_at :: "bytes_mem \<Rightarrow> nat \<Rightarrow> uint16" where "uint2korr_at m p = uint2korr (m p) (m (p + 1))"

definition uint3korr :: "bytes_mem \<Rightarrow> nat \<Rightarrow> uint" where
  "uint3korr m p = ucast (m p) OR push_bit 8 (ucast (m (p + 1))) OR push_bit 16 (ucast (m (p + 2)))"

definition sint3korr :: "bytes_mem \<Rightarrow> nat \<Rightarrow> uint" where
  "sint3korr m p =
     (if m (p + 2) AND 128 \<noteq> 0
      then push_bit 24 255 OR push_bit 16 (ucast (m (p + 2))) OR push_bit 8 (ucast (m (p + 1))) OR ucast (m p)
      else push_bit 16 (ucast (m (p + 2))) OR push_bit 8 (ucast (m (p + 1))) OR ucast (m p))"

definition uint4korr :: "bytes_mem \<Rightarrow> nat \<Rightarrow> uint" where
  "uint4korr m p = ucast (m p) OR push_bit 8 (ucast (m (p + 1))) OR push_bit 16 (ucast (m (p + 2))) OR push_bit 24 (ucast (m (p + 3)))"

definition uint5korr :: "bytes_mem \<Rightarrow> nat \<Rightarrow> ulonglong" where
  "uint5korr m p = (let a = ucast (uint4korr m p); b = ucast (m (4 + p)) in a OR push_bit 32 b)"

definition uint6korr :: "bytes_mem \<Rightarrow> nat \<Rightarrow> ulonglong" where
  "uint6korr m p = (let a = ucast (uint4korr m p); b = ucast (uint2korr_at m (4 + p)) in a OR push_bit 32 b)"

definition uint8korr :: "bytes_mem \<Rightarrow> nat \<Rightarrow> ulonglong" where
  "uint8korr m p = ucast (uint4korr m p) OR push_bit 32 (ucast (uint4korr m (p + 4)))"

definition int2store_at :: "nat \<Rightarrow> uint \<Rightarrow> bytes_mem \<Rightarrow> bytes_mem" where
  "int2store_at p a m = m(p := ucast a, p + 1 := ucast (drop_bit 8 a))"

definition int3store :: "nat \<Rightarrow> uint \<Rightarrow> bytes_mem \<Rightarrow> bytes_mem" where
  "int3store p a m = m(p := ucast a, p + 1 := ucast (drop_bit 8 a), p + 2 := ucast (drop_bit 16 a))"

definition int4store :: "nat \<Rightarrow> uint \<Rightarrow> bytes_mem \<Rightarrow> bytes_mem" where
  "int4store p a m = m(p := ucast a, p + 1 := ucast (drop_bit 8 a), p + 2 := ucast (drop_bit 16 a), p + 3 := ucast (drop_bit 24 a))"

definition int5store :: "nat \<Rightarrow> ulonglong \<Rightarrow> bytes_mem \<Rightarrow> bytes_mem" where
  "int5store p a m = (int4store p (ucast a) m)(p + 4 := ucast (drop_bit 32 a))"

definition int6store :: "nat \<Rightarrow> ulonglong \<Rightarrow> bytes_mem \<Rightarrow> bytes_mem" where
  "int6store p a m = int2store_at (p + 4) (ucast (drop_bit 32 a)) (int4store p (ucast a) m)"

definition int8store :: "nat \<Rightarrow> ulonglong \<Rightarrow> bytes_mem \<Rightarrow> bytes_mem" where
  "int8store p a m = int4store (p + 4) (ucast (drop_bit 32 a)) (int4store p (ucast a) m)"

lemma uint2korr_store: "uint2korr_at (int2store_at p a m) p = ucast a"
  by (rule bit_word_eqI) (auto simp: uint2korr_at_def uint2korr_def int2store_at_def bit_simps)

lemma uint3korr_store: "uint3korr (int3store p a m) p = take_bit 24 a"
proof (rule bit_word_eqI)
  fix n :: nat
  show "bit (uint3korr (int3store p a m) p) n = bit (take_bit 24 a) n" if "n < LENGTH(32)"
    using that by (cases "n < 8"; cases "n < 16"; cases "n < 24") (auto simp: uint3korr_def int3store_def bit_simps not_less)
qed

lemma uint4korr_store: "uint4korr (int4store p a m) p = a"
proof (rule bit_word_eqI)
  fix n :: nat
  show "bit (uint4korr (int4store p a m) p) n = bit a n" if "n < LENGTH(32)"
    using that by (cases "n < 8"; cases "n < 16"; cases "n < 24") (auto simp: uint4korr_def int4store_def bit_simps not_less)
qed

lemma store_frame:
  "q \<notin> {p..<p + 2} \<Longrightarrow> int2store_at p a m q = m q"
  "q \<notin> {p..<p + 3} \<Longrightarrow> int3store p a m q = m q"
  "q \<notin> {p..<p + 4} \<Longrightarrow> int4store p a m q = m q"
  "q \<notin> {p..<p + 5} \<Longrightarrow> int5store p b m q = m q"
  "q \<notin> {p..<p + 6} \<Longrightarrow> int6store p b m q = m q"
  "q \<notin> {p..<p + 8} \<Longrightarrow> int8store p b m q = m q"
  by (auto simp: int2store_at_def int3store_def int4store_def int5store_def int6store_def int8store_def)

lemma korr_cong:
  "(\<And>k. k < 2 \<Longrightarrow> m' (p + k) = m (p + k)) \<Longrightarrow> uint2korr_at m' p = uint2korr_at m p"
  "(\<And>k. k < 4 \<Longrightarrow> m' (p + k) = m (p + k)) \<Longrightarrow> uint4korr m' p = uint4korr m p"
proof -
  assume "\<And>k. k < 2 \<Longrightarrow> m' (p + k) = m (p + k)"
  from this [of 0] this [of 1] show "uint2korr_at m' p = uint2korr_at m p" by (simp add: uint2korr_at_def)
next
  assume "\<And>k. k < 4 \<Longrightarrow> m' (p + k) = m (p + k)"
  from this [of 0] this [of 1] this [of 2] this [of 3] show "uint4korr m' p = uint4korr m p" by (simp add: uint4korr_def)
qed

lemma sint3korr_store: "sint3korr (int3store p a m) p = signed_take_bit 23 a"
proof -
  have "ucast (drop_bit 16 a) AND 128 \<noteq> (0 :: uchar) \<longleftrightarrow> bit a 23"
  proof -
    have "(128 :: uchar) = 2 ^ 7" by simp
    then have "ucast (drop_bit 16 a) AND 128 \<noteq> (0 :: uchar) \<longleftrightarrow> bit (ucast (drop_bit 16 a) :: uchar) 7"
      by (metis and_exp_eq_0_iff_not_bit)
    then show ?thesis by (simp add: bit_simps)
  qed
  moreover have "push_bit 24 255 = (NOT (mask 24) :: uint)" by (simp add: mask_eq_exp_minus_1)
  ultimately have s: "sint3korr (int3store p a m) p =
      (if bit a 23 then NOT (mask 24) else 0) OR uint3korr (int3store p a m) p"
    by (simp add: sint3korr_def uint3korr_def int3store_def or.assoc or.commute or.left_commute)
  show ?thesis unfolding s uint3korr_store
  proof (rule bit_word_eqI)
    fix n :: nat
    show "bit ((if bit a 23 then NOT (mask 24) else 0) OR take_bit 24 a) n = bit (signed_take_bit 23 a) n" if "n < LENGTH(32)"
      using that by (cases "n < 23"; cases "n = 23") (auto simp: bit_simps min_def)
  qed
qed

lemma long_korr_store:
  "uint5korr (int5store p b m) p = take_bit 40 b"
  "uint6korr (int6store p b m) p = take_bit 48 b"
  "uint8korr (int8store p b m) p = b"
proof -
  have e: "uint4korr (int5store p b m) p = ucast b" "uint4korr (int6store p b m) p = ucast b" "uint4korr (int8store p b m) p = ucast b"
    by (simp_all add: int5store_def int6store_def int8store_def korr_cong(2) [of _ _ "int4store p (ucast b) m"] store_frame uint4korr_store)
  have h: "int5store p b m (4 + p) = ucast (drop_bit 32 b)" "uint2korr_at (int6store p b m) (4 + p) = ucast (ucast (drop_bit 32 b) :: uint)"
    "uint4korr (int8store p b m) (p + 4) = ucast (drop_bit 32 b)"
    using uint2korr_store [of "4 + p" "ucast (drop_bit 32 b)"] by (simp_all add: int5store_def int6store_def int8store_def uint4korr_store add.commute [of p])
  show "uint5korr (int5store p b m) p = take_bit 40 b" "uint6korr (int6store p b m) p = take_bit 48 b" "uint8korr (int8store p b m) p = b"
    using e h by (auto simp: uint5korr_def uint6korr_def uint8korr_def Let_def bit_simps intro!: bit_word_eqI)
qed

end
