(* ===== verification/Charset_Collations.thy ===== *)
theory Charset_Collations
  imports Byte_Order "HOL-Library.Monad_Syntax"
begin

text \<open>
  \<open>charset_collations.h\<close>: the map from character sets to their default collations, an array of at most eight pairs
  that is kept sorted by the number of the character set and searched by halving. \<open>get_charset\<close>, which is only declared in the
  repository, is an argument. The result \<^const>\<open>None\<close> is a failed assertion or an access outside the array. The sums of indices
  in the search are not negative, so the division is that of \<open>int\<close>.
\<close>

section \<open>The map\<close>

record charset_info =
  number :: uint
  state_primary :: bool
  cs_name :: "uchar list"
  coll_name :: "uchar list"

record elem =
  m_from :: charset_info
  m_to :: charset_info

record ccmap =
  m_element :: "elem list"
  m_count :: uint
  m_version :: uint

definition MAP_ELEMENTS :: nat where "MAP_ELEMENTS = 8"
definition CHARACTER_SET_COLLATIONS_USED :: uint where "CHARACTER_SET_COLLATIONS_USED = 16"
definition MY_CS_CHARACTER_SET_NAME_SIZE :: nat where "MY_CS_CHARACTER_SET_NAME_SIZE = 32"
definition MY_CS_COLLATION_NAME_SIZE :: nat where "MY_CS_COLLATION_NAME_SIZE = 64"

definition cmp_by_charset_id :: "elem \<Rightarrow> elem \<Rightarrow> int" where
  "cmp_by_charset_id a b = (if number (m_from a) < number (m_from b) then -1 else if number (m_from a) > number (m_from b) then 1 else 0)"

definition set_to :: "charset_info \<Rightarrow> elem \<Rightarrow> elem" where "set_to cl e = e\<lparr>m_to := cl\<rparr>"

definition ccmap_init :: "ccmap \<Rightarrow> ccmap" where "ccmap_init m = m\<lparr>m_count := 0, m_version := 0\<rparr>"

definition ccmap_set :: "ccmap \<Rightarrow> uint \<Rightarrow> ccmap \<Rightarrow> ccmap" where
  "ccmap_set rhs version_increment m = rhs\<lparr>m_version := m_version m + version_increment\<rparr>"

definition ccmap_nth :: "ccmap \<Rightarrow> uint \<Rightarrow> elem option" where
  "ccmap_nth m pos = (if pos < m_count m then Some (m_element m ! unat pos) else None)"

text \<open>
  \<open>qsort\<close> of the C library orders the array by a comparison function. It leaves the order of equal elements open; the insertion sort below keeps it, and the map never
  holds two elements with the same character set.
\<close>

fun qsort_insert :: "('a \<Rightarrow> 'a \<Rightarrow> int) \<Rightarrow> 'a \<Rightarrow> 'a list \<Rightarrow> 'a list" where
  "qsort_insert cmp x [] = [x]"
| "qsort_insert cmp x (y # ys) = (if cmp x y \<le> 0 then x # y # ys else y # qsort_insert cmp x ys)"

definition qsort :: "('a \<Rightarrow> 'a \<Rightarrow> int) \<Rightarrow> 'a list \<Rightarrow> 'a list" where "qsort cmp xs = foldr (qsort_insert cmp) xs []"

definition ccmap_sort :: "ccmap \<Rightarrow> ccmap" where
  "ccmap_sort m = m\<lparr>m_element := qsort cmp_by_charset_id (take (unat (m_count m)) (m_element m)) @ drop (unat (m_count m)) (m_element m)\<rparr>"

function find_loop :: "ccmap \<Rightarrow> uint \<Rightarrow> int \<Rightarrow> int \<Rightarrow> nat option option" where
  "find_loop m i first lst =
     (if first \<le> lst
      then let middle = (first + lst) div 2
        in if \<not> (0 \<le> middle \<and> middle < sint (m_count m)) then None
           else let middle_id = number (m_from (m_element m ! nat middle))
             in if middle_id = i then Some (Some (nat middle))
                else if middle_id < i then find_loop m i (middle + 1) lst
                else find_loop m i first (middle - 1)
      else Some None)"
  by auto
termination by (relation "measure (\<lambda>(m, i, first, lst). nat (lst - first + 1))") auto

declare find_loop.simps [simp del]

definition find_elem_by_charset_id :: "ccmap \<Rightarrow> uint \<Rightarrow> nat option option" where
  "find_elem_by_charset_id m i = (if m_count m = 0 then Some None else find_loop m i 0 (sint (m_count m) - 1))"

text \<open>The result \<open>True\<close> says that the map is full.\<close>

definition ccmap_insert :: "elem \<Rightarrow> ccmap \<Rightarrow> (bool \<times> ccmap) option" where
  "ccmap_insert e m =
     (if \<not> state_primary (m_from e) then None
      else if unat (m_count m) \<ge> MAP_ELEMENTS then Some (True, m)
      else Some (False, ccmap_sort (m\<lparr>m_element := (m_element m)[unat (m_count m) := e], m_count := m_count m + 1\<rparr>)))"

definition insert_or_replace :: "elem \<Rightarrow> ccmap \<Rightarrow> (bool \<times> ccmap) option" where
  "insert_or_replace e m =
     (if \<not> state_primary (m_from e) then None
      else do {
        found \<leftarrow> find_elem_by_charset_id m (number (m_from e));
        (case found of
           Some k \<Rightarrow> Some (False, m\<lparr>m_element := (m_element m)[k := set_to (m_to e) (m_element m ! k)]\<rparr>)
         | None \<Rightarrow> ccmap_insert e m) })"

definition get_collation_for_charset :: "uint \<Rightarrow> charset_info \<Rightarrow> ccmap \<Rightarrow> (charset_info \<times> uint) option" where
  "get_collation_for_charset used cs m =
     (if \<not> state_primary cs then None
      else do {
        found \<leftarrow> find_elem_by_charset_id m (number cs);
        let used = used OR CHARACTER_SET_COLLATIONS_USED;
        Some (case found of Some k \<Rightarrow> m_to (m_element m ! k) | None \<Rightarrow> cs, used) })"

section \<open>Text and binary form\<close>

definition text_size_max :: nat where
  "text_size_max = MY_CS_CHARACTER_SET_NAME_SIZE + 1 + MY_CS_COLLATION_NAME_SIZE"

definition elem_print :: "elem \<Rightarrow> uchar list" where
  "elem_print e = cs_name (m_from e) @ [61] @ coll_name (m_to e)"

definition text_format_nbytes_needed :: "ccmap \<Rightarrow> nat" where
  "text_format_nbytes_needed m = (text_size_max + 1) * unat (m_count m)"

text \<open>\<open>print\<close>: the bytes written so far, the bytes available, the index, and the elements that follow.\<close>

fun print_loop :: "uchar list \<Rightarrow> nat \<Rightarrow> nat \<Rightarrow> elem list \<Rightarrow> uchar list" where
  "print_loop out avail i [] = out"
| "print_loop out avail i (e # es) =
     (if text_size_max + 1 > avail - length out then out
      else print_loop (out @ (if i > 0 then [44] else []) @ elem_print e) avail (Suc i) es)"

definition ccmap_print :: "nat \<Rightarrow> ccmap \<Rightarrow> uchar list" where
  "ccmap_print nbytes_available m = print_loop [] nbytes_available 0 (take (unat (m_count m)) (m_element m))"

definition binary_size_max :: nat where "binary_size_max = 1 + 4 * MAP_ELEMENTS"

definition to_binary :: "ccmap \<Rightarrow> uchar list" where
  "to_binary m = ucast (m_count m) #
     concat (map (\<lambda>e. int2store (ucast (number (m_from e))) @ int2store (ucast (number (m_to e)))) (take (unat (m_count m)) (m_element m)))"

fun from_binary_loop :: "(uint \<Rightarrow> charset_info option) \<Rightarrow> nat \<Rightarrow> uchar list \<Rightarrow> ccmap \<Rightarrow> ccmap option" where
  "from_binary_loop get_charset 0 src m = Some m"
| "from_binary_loop get_charset (Suc n) (a # b # c # d # src) m =
     (case (get_charset (ucast (uint2korr a b)), get_charset (ucast (uint2korr c d))) of
        (Some cs, Some cl) \<Rightarrow> do { (_, m) \<leftarrow> insert_or_replace \<lparr>m_from = cs, m_to = cl\<rparr> m; from_binary_loop get_charset n src m }
      | _ \<Rightarrow> from_binary_loop get_charset n src m)"
| "from_binary_loop get_charset (Suc n) _ m = None"

definition from_binary :: "(uint \<Rightarrow> charset_info option) \<Rightarrow> uchar list \<Rightarrow> ccmap \<Rightarrow> (nat \<times> ccmap) option" where
  "from_binary get_charset src m =
     (let m = ccmap_init m
      in if src = [] then Some (0, m)
         else let count' = unat (hd src)
           in if length src < 1 + 4 * count' then Some (0, m)
              else do { m \<leftarrow> from_binary_loop get_charset count' (tl src) m; Some (1 + 4 * count', m) })"

section \<open>The sorted array\<close>

definition content :: "ccmap \<Rightarrow> elem list" where "content m = take (unat (m_count m)) (m_element m)"

abbreviation ekey :: "elem \<Rightarrow> uint" where "ekey e \<equiv> number (m_from e)"

definition ccwf :: "ccmap \<Rightarrow> bool" where
  "ccwf m \<longleftrightarrow> length (m_element m) = MAP_ELEMENTS \<and> unat (m_count m) \<le> MAP_ELEMENTS \<and> sorted_wrt (\<lambda>a b. ekey a < ekey b) (content m)"

definition lookup :: "ccmap \<Rightarrow> uint \<rightharpoonup> charset_info" where
  "lookup m = map_of (map (\<lambda>e. (ekey e, m_to e)) (content m))"

lemma length_content: "ccwf m \<Longrightarrow> length (content m) = unat (m_count m)"
  by (simp add: ccwf_def content_def)

lemma count_sint: "unat c \<le> MAP_ELEMENTS \<Longrightarrow> sint c = int (unat c)" for c :: uint
  by (rule sint_unat_32) (simp add: MAP_ELEMENTS_def)

lemma keys_less: "ccwf m \<Longrightarrow> i < j \<Longrightarrow> j < length (content m) \<Longrightarrow> ekey (content m ! i) < ekey (content m ! j)"
  using sorted_wrt_nth_less [of "\<lambda>a b. ekey a < ekey b" "content m" i j] by (simp add: ccwf_def)

lemma content_nth: "i < length (content m) \<Longrightarrow> content m ! i = m_element m ! i"
  by (simp add: content_def)

text \<open>The search by halving: what is left of the range is known to be too small, what is right of it too big.\<close>

lemma find_loop_correct:
  assumes "ccwf m" "0 \<le> first" "lst < int (length (content m))"
    and "\<And>k. k < length (content m) \<Longrightarrow> int k < first \<Longrightarrow> ekey (content m ! k) < i"
    and "\<And>k. k < length (content m) \<Longrightarrow> lst < int k \<Longrightarrow> i < ekey (content m ! k)"
  shows "\<exists>r. find_loop m i first lst = Some r \<and>
     (case r of Some k \<Rightarrow> k < length (content m) \<and> ekey (content m ! k) = i | None \<Rightarrow> \<forall>k < length (content m). ekey (content m ! k) \<noteq> i)"
  using assms
proof (induction m i first lst rule: find_loop.induct)
  case (1 m i first lst)
  show ?case
  proof (cases "first \<le> lst")
    case False
    then have "ekey (content m ! k) \<noteq> i" if "k < length (content m)" for k
      using "1.prems"(4,5) [OF that] by (cases "int k < first") auto
    then show ?thesis using False by (subst find_loop.simps) simp
  next
    case True
    define middle where "middle = (first + lst) div 2"
    have mid: "0 \<le> middle" "first \<le> middle" "middle \<le> lst" "nat middle < length (content m)"
      using True "1.prems"(2,3) by (auto simp: middle_def)
    have "unat (m_count m) \<le> MAP_ELEMENTS" using "1.prems"(1) by (simp add: ccwf_def)
    then have cnt: "middle < sint (m_count m)" using count_sint length_content [OF "1.prems"(1)] mid(1,4) by (metis nat_less_iff)
    have nth: "m_element m ! nat middle = content m ! nat middle" using mid(4) by (simp add: content_nth)
    note IH = "1.IH" [OF True middle_def]
    consider "ekey (content m ! nat middle) = i" | "ekey (content m ! nat middle) < i" | "i < ekey (content m ! nat middle)"
      by (rule linorder_cases)
    then show ?thesis
    proof cases
      case 1
      then have "find_loop m i first lst = Some (Some (nat middle))"
        using True mid cnt nth by (subst find_loop.simps) (simp add: Let_def flip: middle_def)
      then show ?thesis using 1 mid by simp
    next
      case 2
      have "ekey (content m ! k) < i" if "k < length (content m)" "int k < middle + 1" for k
      proof (cases "k = nat middle")
        case False
        then have "k < nat middle" using that(2) by linarith
        then show ?thesis using keys_less [OF "1.prems"(1), of k "nat middle"] mid(4) 2 by (meson less_trans)
      qed (use 2 in simp)
      then have "\<exists>r. find_loop m i (middle + 1) lst = Some r \<and>
          (case r of Some k \<Rightarrow> k < length (content m) \<and> ekey (content m ! k) = i | None \<Rightarrow> \<forall>k < length (content m). ekey (content m ! k) \<noteq> i)"
        using IH(1) 2 less_imp_neq [OF 2] nth mid cnt "1.prems" by auto
      moreover have "find_loop m i first lst = find_loop m i (middle + 1) lst"
        using True mid cnt nth 2 less_imp_neq [OF 2] by (subst find_loop.simps) (simp add: Let_def flip: middle_def)
      ultimately show ?thesis by simp
    next
      case 3
      have "i < ekey (content m ! k)" if "k < length (content m)" "middle - 1 < int k" for k
      proof (cases "k = nat middle")
        case False
        then have "nat middle < k" using that(2) by linarith
        then show ?thesis using keys_less [OF "1.prems"(1), of "nat middle" k] that(1) 3 by (meson less_trans)
      qed (use 3 in simp)
      then have "\<exists>r. find_loop m i first (middle - 1) = Some r \<and>
          (case r of Some k \<Rightarrow> k < length (content m) \<and> ekey (content m ! k) = i | None \<Rightarrow> \<forall>k < length (content m). ekey (content m ! k) \<noteq> i)"
        using IH(2) 3 less_imp_neq [OF 3] less_not_sym [OF 3] nth mid cnt "1.prems" by auto
      moreover have "find_loop m i first lst = find_loop m i first (middle - 1)"
        using True mid cnt nth less_imp_neq [OF 3] less_not_sym [OF 3] by (subst find_loop.simps) (auto simp: Let_def simp flip: middle_def)
      ultimately show ?thesis by simp
    qed
  qed
qed

lemma find_elem_correct:
  assumes "ccwf m"
  obtains k where "find_elem_by_charset_id m i = Some (Some k)" "k < length (content m)" "ekey (content m ! k) = i"
  | "find_elem_by_charset_id m i = Some None" "i \<notin> ekey ` set (content m)"
proof (cases "m_count m = 0")
  case True
  then show ?thesis using that(2) by (simp add: find_elem_by_charset_id_def content_def)
next
  case False
  have "sint (m_count m) = int (length (content m))"
    using assms count_sint [of "m_count m"] length_content [OF assms] by (simp add: ccwf_def)
  then obtain r where "find_elem_by_charset_id m i = Some r"
    "case r of Some k \<Rightarrow> k < length (content m) \<and> ekey (content m ! k) = i | None \<Rightarrow> \<forall>k < length (content m). ekey (content m ! k) \<noteq> i"
    using find_loop_correct [OF assms, of 0 "sint (m_count m) - 1" i] False by (auto simp: find_elem_by_charset_id_def)
  moreover have "i \<notin> ekey ` set (content m)" if "\<forall>k < length (content m). ekey (content m ! k) \<noteq> i"
    using that by (auto simp: in_set_conv_nth)
  ultimately show ?thesis using that by (cases r) auto
qed

lemma lookup_key:
  assumes "ccwf m" "k < length (content m)" shows "lookup m (ekey (content m ! k)) = Some (m_to (content m ! k))"
proof -
  have "distinct (map ekey (content m))"
    using assms(1) by (simp add: ccwf_def distinct_conv_nth) (metis keys_less [OF assms(1)] less_irrefl nat_neq_iff)
  then have "distinct (map fst (map (\<lambda>e. (ekey e, m_to e)) (content m)))" by (simp add: comp_def)
  moreover have "(ekey (content m ! k), m_to (content m ! k)) \<in> set (map (\<lambda>e. (ekey e, m_to e)) (content m))"
    using assms(2) by force
  ultimately show ?thesis unfolding lookup_def by (rule map_of_is_SomeI)
qed

lemma lookup_none: "lookup m i = None \<longleftrightarrow> i \<notin> ekey ` set (content m)"
  by (force simp: lookup_def map_of_eq_None_iff)

text \<open>Sorting after an insertion.\<close>

lemma sorted_wrt_less_sort_key:
  "distinct (map f xs) \<Longrightarrow> sorted_wrt (\<lambda>a b. f a < f b) (sort_key f xs)" for f :: "'a \<Rightarrow> 'b::linorder"
proof -
  assume "distinct (map f xs)"
  then have "distinct (map f (sort_key f xs))" by (metis distinct_map distinct_sort inj_on_cong set_sort)
  moreover have "sorted (map f (sort_key f xs))" by simp
  ultimately have "sorted_wrt (<) (map f (sort_key f xs))" by (simp add: strict_sorted_iff)
  then show ?thesis by (simp add: sorted_wrt_map)
qed

text \<open>Sorting with the comparison is sorting by the number of the character set.\<close>

lemma qsort_charset_id: "qsort cmp_by_charset_id xs = sort_key ekey xs"
proof -
  have "qsort_insert cmp_by_charset_id x ys = insort_key ekey x ys" for x ys
    by (induction ys) (auto simp: cmp_by_charset_id_def not_less)
  then have "qsort_insert cmp_by_charset_id = insort_key ekey" by blast
  then show ?thesis by (simp add: qsort_def sort_key_def)
qed

lemma content_insert:
  fixes e :: elem
  assumes "ccwf m" "unat (m_count m) < MAP_ELEMENTS"
  defines "m' \<equiv> ccmap_sort (m\<lparr>m_element := (m_element m)[unat (m_count m) := e], m_count := m_count m + 1\<rparr>)"
  shows "content m' = sort_key ekey (content m @ [e])" "length (m_element m') = MAP_ELEMENTS" "unat (m_count m') = unat (m_count m) + 1"
proof -
  have len: "length (m_element m) = MAP_ELEMENTS" using assms(1) by (simp add: ccwf_def)
  have c: "unat (m_count m + 1) = unat (m_count m) + 1"
    using assms(2) by (simp add: MAP_ELEMENTS_def unat_word_ariths)
  have "take (unat (m_count m) + 1) ((m_element m)[unat (m_count m) := e]) = content m @ [e]"
    using assms(2) len by (simp add: content_def take_Suc_conv_app_nth)
  then show "content m' = sort_key ekey (content m @ [e])" "length (m_element m') = MAP_ELEMENTS" "unat (m_count m') = unat (m_count m) + 1"
    using c len assms(2) length_content [OF assms(1)] unfolding m'_def
    by (simp_all add: ccmap_sort_def qsort_charset_id content_def)
qed

lemma map_of_sort_key:
  fixes f :: "'a \<Rightarrow> 'b::linorder"
  assumes "distinct (map f xs)"
  shows "map_of (map (\<lambda>e. (f e, g e)) (sort_key f xs)) = map_of (map (\<lambda>e. (f e, g e)) xs)"
proof -
  have "distinct (map f (sort_key f xs))" using assms by (metis distinct_map distinct_sort inj_on_cong set_sort)
  then have "distinct (map fst (map (\<lambda>e. (f e, g e)) (sort_key f xs)))" "distinct (map fst (map (\<lambda>e. (f e, g e)) xs))"
    using assms by (simp_all add: comp_def)
  then show ?thesis by (subst map_of_inject_set) simp_all
qed

lemma distinct_keys: "ccwf m \<Longrightarrow> distinct (map ekey (content m))"
  using keys_less [of m] by (simp add: distinct_conv_nth) (metis less_irrefl nat_neq_iff)

text \<open>An element with a known key only gets a new value.\<close>

lemma content_replace:
  assumes "k < length (content m)"
  shows "content (m\<lparr>m_element := (m_element m)[k := set_to v (m_element m ! k)]\<rparr>) = (content m)[k := (content m ! k)\<lparr>m_to := v\<rparr>]"
proof -
  have "m_element m ! k = content m ! k" using content_nth [OF assms] by simp
  then show ?thesis by (simp add: content_def take_update_swap set_to_def)
qed

lemma lookup_replace:
  assumes wf: "ccwf m" "ccwf m'" and k: "k < length (content m)" and c: "content m' = (content m)[k := (content m ! k)\<lparr>m_to := v\<rparr>]"
  shows "lookup m' = (lookup m)(ekey (content m ! k) \<mapsto> v)"
proof
  fix i
  have key: "ekey (content m' ! j) = ekey (content m ! j)" for j using k by (simp add: c nth_list_update)
  have len: "length (content m') = length (content m)" by (simp add: c)
  show "lookup m' i = ((lookup m)(ekey (content m ! k) \<mapsto> v)) i"
  proof (cases "\<exists>j < length (content m). ekey (content m ! j) = i")
    case True
    then obtain j where j: "j < length (content m)" "ekey (content m ! j) = i" by blast
    have l: "lookup m' i = Some (m_to (content m' ! j))" using lookup_key [OF wf(2), of j] j len key by simp
    have l0: "lookup m i = Some (m_to (content m ! j))" using lookup_key [OF wf(1) j(1)] j(2) by simp
    have "ekey (content m ! j) = ekey (content m ! k) \<longleftrightarrow> j = k"
      using nth_eq_iff_index_eq [OF distinct_keys [OF wf(1)], of j k] j(1) k by simp
    then show ?thesis using l l0 j(2) k by (cases "j = k") (simp_all add: c)
  next
    case False
    then have "i \<notin> ekey ` set (content m)" by (auto simp: in_set_conv_nth)
    moreover have "i \<notin> ekey ` set (content m')" using False key len by (auto simp: in_set_conv_nth) blast
    moreover have "i \<noteq> ekey (content m ! k)" using False k by blast
    ultimately show ?thesis using lookup_none [THEN iffD2, of i m'] lookup_none [THEN iffD2, of i m] by simp
  qed
qed

lemma replace_correct:
  fixes v :: charset_info
  assumes wf: "ccwf m" and k: "k < length (content m)"
  defines "m' \<equiv> m\<lparr>m_element := (m_element m)[k := set_to v (m_element m ! k)]\<rparr>"
  shows "ccwf m'" "lookup m' = (lookup m)(ekey (content m ! k) \<mapsto> v)" "m_version m' = m_version m"
proof -
  have c: "content m' = (content m)[k := (content m ! k)\<lparr>m_to := v\<rparr>]" unfolding m'_def by (rule content_replace [OF k])
  have "ekey (content m' ! j) = ekey (content m ! j)" for j using k by (simp add: c nth_list_update)
  then have "sorted_wrt (\<lambda>a b. ekey a < ekey b) (content m')"
    using keys_less [OF wf] by (simp add: sorted_wrt_iff_nth_less c)
  then show wf': "ccwf m'" using wf by (simp add: ccwf_def m'_def)
  show "lookup m' = (lookup m)(ekey (content m ! k) \<mapsto> v)" by (rule lookup_replace [OF wf wf' k c])
  show "m_version m' = m_version m" by (simp add: m'_def)
qed

lemma insert_correct:
  assumes wf: "ccwf m" and lt: "length (content m) \<noteq> MAP_ELEMENTS" and n: "ekey e \<notin> ekey ` set (content m)" and p: "state_primary (m_from e)"
  shows "\<exists>m'. ccmap_insert e m = Some (False, m') \<and> ccwf m' \<and> lookup m' = (lookup m)(ekey e \<mapsto> m_to e) \<and> m_version m' = m_version m \<and>
           content m' = sort_key ekey (content m @ [e])"
proof -
  have lt: "unat (m_count m) < MAP_ELEMENTS" using wf lt length_content [OF wf] by (simp add: ccwf_def)
  define m' where "m' = ccmap_sort (m\<lparr>m_element := (m_element m)[unat (m_count m) := e], m_count := m_count m + 1\<rparr>)"
  note ci = content_insert [OF wf lt, of e, folded m'_def]
  have d: "distinct (map ekey (content m @ [e]))" using distinct_keys [OF wf] n by simp
  have "sorted_wrt (\<lambda>a b. ekey a < ekey b) (content m')" unfolding ci(1) by (rule sorted_wrt_less_sort_key [OF d])
  then have wf': "ccwf m'" using ci(2,3) lt by (simp add: ccwf_def)
  have dom: "map_of (map (\<lambda>e. (ekey e, m_to e)) (content m)) (ekey e) = None"
    using n lookup_none [of m "ekey e"] by (simp add: lookup_def)
  have "lookup m' = map_of (map (\<lambda>e. (ekey e, m_to e)) (content m @ [e]))"
    unfolding lookup_def ci(1) by (rule map_of_sort_key [OF d])
  also have "\<dots> = (lookup m)(ekey e \<mapsto> m_to e)" using dom by (auto simp: lookup_def map_add_def split: option.splits)
  finally have "lookup m' = (lookup m)(ekey e \<mapsto> m_to e)" .
  moreover have "ccmap_insert e m = Some (False, m')" using p lt by (simp add: ccmap_insert_def m'_def)
  moreover have "m_version m' = m_version m" by (simp add: m'_def ccmap_sort_def)
  ultimately show ?thesis using wf' ci(1) by blast
qed

text \<open>The operation is an update of the map; it fails only for a new key in a full map.\<close>

lemma insert_or_replace_correct:
  assumes wf: "ccwf m" and p: "state_primary (m_from e)"
  shows "if ekey e \<notin> dom (lookup m) \<and> length (content m) = MAP_ELEMENTS then insert_or_replace e m = Some (True, m)
         else \<exists>m'. insert_or_replace e m = Some (False, m') \<and> ccwf m' \<and> lookup m' = (lookup m)(ekey e \<mapsto> m_to e) \<and> m_version m' = m_version m"
proof (rule find_elem_correct [OF wf, of "ekey e"])
  fix k assume k: "find_elem_by_charset_id m (ekey e) = Some (Some k)" "k < length (content m)" "ekey (content m ! k) = ekey e"
  have "lookup m (ekey e) \<noteq> None" using lookup_key [OF wf k(2)] unfolding k(3) by simp
  then have dom: "\<not> (ekey e \<notin> dom (lookup m) \<and> length (content m) = MAP_ELEMENTS)" by blast
  have "insert_or_replace e m = Some (False, m\<lparr>m_element := (m_element m)[k := set_to (m_to e) (m_element m ! k)]\<rparr>)"
    using k(1) p by (simp add: insert_or_replace_def)
  then show ?thesis unfolding if_not_P [OF dom] using replace_correct [OF wf k(2), of "m_to e"] unfolding k(3) by blast
next
  assume n: "find_elem_by_charset_id m (ekey e) = Some None" "ekey e \<notin> ekey ` set (content m)"
  have dom: "ekey e \<notin> dom (lookup m)" using lookup_none [THEN iffD2, OF n(2)] by (simp add: domIff)
  have ins: "insert_or_replace e m = ccmap_insert e m" using n p by (simp add: insert_or_replace_def)
  show ?thesis
  proof (cases "length (content m) = MAP_ELEMENTS")
    case True
    then show ?thesis using dom ins p length_content [OF wf] by (simp add: ccmap_insert_def)
  next
    case False
    then have nf: "\<not> (ekey e \<notin> dom (lookup m) \<and> length (content m) = MAP_ELEMENTS)" by blast
    show ?thesis unfolding if_not_P [OF nf] ins using insert_correct [OF wf False n(2) p] by blast
  qed
qed

section \<open>Round trip\<close>

lemma ucast_id_16: "unat v < 2 ^ 16 \<Longrightarrow> ucast (ucast v :: uint16) = v" for v :: uint
  by (rule word_unat_eq_iff [THEN iffD2]) (simp add: unsigned_ucast_eq unat_take_bit)

text \<open>What the binary form needs: numbers of two bytes, which \<open>get_charset\<close> maps back, and primary character sets.\<close>

definition storable :: "(uint \<Rightarrow> charset_info option) \<Rightarrow> elem \<Rightarrow> bool" where
  "storable get_charset e \<longleftrightarrow> unat (number (m_from e)) < 2 ^ 16 \<and> unat (number (m_to e)) < 2 ^ 16 \<and>
     get_charset (number (m_from e)) = Some (m_from e) \<and> get_charset (number (m_to e)) = Some (m_to e) \<and> state_primary (m_from e)"

lemma append_sorted:
  assumes wf: "ccwf m" and s: "sorted_wrt (\<lambda>a b. ekey a < ekey b) (content m @ [e])" "length (content m) < MAP_ELEMENTS" "state_primary (m_from e)"
  shows "\<exists>m'. insert_or_replace e m = Some (False, m') \<and> ccwf m' \<and> content m' = content m @ [e] \<and> m_version m' = m_version m"
proof -
  have n: "ekey e \<notin> ekey ` set (content m)" using s(1) by (auto simp: sorted_wrt_append)
  have "find_elem_by_charset_id m (ekey e) = Some None"
    using find_elem_correct [OF wf, of "ekey e"] n by (metis image_eqI nth_mem)
  then have ins: "insert_or_replace e m = ccmap_insert e m" using s(3) by (simp add: insert_or_replace_def)
  have "sorted_wrt (<) (map ekey (content m @ [e]))" using s(1) by (simp only: sorted_wrt_map)
  then have "sorted (map ekey (content m @ [e]))" using strict_sorted_imp_sorted by blast
  then have "sort_key ekey (content m @ [e]) = content m @ [e]" by (rule sort_key_id_if_sorted)
  then show ?thesis using insert_correct [OF wf _ n s(3)] s(2) ins by auto
qed

lemma from_binary_loop_store:
  assumes "ccwf m" "sorted_wrt (\<lambda>a b. ekey a < ekey b) (content m @ es)" "length (content m @ es) \<le> MAP_ELEMENTS"
    and "list_all (storable get_charset) es"
  shows "\<exists>m'. from_binary_loop get_charset (length es)
      (concat (map (\<lambda>e. int2store (ucast (number (m_from e))) @ int2store (ucast (number (m_to e)))) es)) m = Some m' \<and>
      ccwf m' \<and> content m' = content m @ es \<and> m_version m' = m_version m"
  using assms
proof (induction es arbitrary: m)
  case (Cons e es)
  have e: "storable get_charset e" and es: "list_all (storable get_charset) es" using Cons.prems(4) by simp_all
  have "sorted_wrt (\<lambda>a b. ekey a < ekey b) ((content m @ [e]) @ es)" using Cons.prems(2) by simp
  then have s: "sorted_wrt (\<lambda>a b. ekey a < ekey b) (content m @ [e])" using sorted_wrt_append by blast
  obtain m1 where m1: "insert_or_replace e m = Some (False, m1)" "ccwf m1" "content m1 = content m @ [e]" "m_version m1 = m_version m"
    using append_sorted [OF Cons.prems(1) s] Cons.prems(3) e by (auto simp: storable_def)
  obtain m' where m': "from_binary_loop get_charset (length es)
      (concat (map (\<lambda>e. int2store (ucast (number (m_from e))) @ int2store (ucast (number (m_to e)))) es)) m1 = Some m'"
    "ccwf m'" "content m' = content m1 @ es" "m_version m' = m_version m1"
    using Cons.IH [OF m1(2) _ _ es] Cons.prems(2,3) m1(3) by auto
  have eta: "\<lparr>m_from = m_from e, m_to = m_to e\<rparr> = e" by simp
  have "insert_or_replace \<lparr>m_from = m_from e, m_to = m_to e\<rparr> m = Some (False, m1)" unfolding eta by (rule m1(1))
  then show ?case using m1 m' e
    by (simp add: storable_def int2store_def uint2korr_int2store ucast_id_16 del: push_bit_of_1)
qed (simp add: int2store_def)

lemma length_int2store [simp]: "length (int2store v) = 2"
  by (simp add: int2store_def)

lemma length_to_binary: "ccwf m \<Longrightarrow> length (to_binary m) = 1 + 4 * length (content m)"
  by (simp add: to_binary_def length_concat comp_def sum_list_triv content_def)

section \<open>Printing\<close>

definition printable :: "elem \<Rightarrow> bool" where
  "printable e \<longleftrightarrow> length (cs_name (m_from e)) \<le> MY_CS_CHARACTER_SET_NAME_SIZE \<and> length (coll_name (m_to e)) \<le> MY_CS_COLLATION_NAME_SIZE"

lemma elem_print_size: "printable e \<Longrightarrow> length (elem_print e) \<le> text_size_max"
  by (simp add: printable_def elem_print_def text_size_max_def)

lemma print_loop_bound: "list_all printable es \<Longrightarrow> length out \<le> avail \<Longrightarrow> length (print_loop out avail i es) \<le> avail"
proof (induction out avail i es rule: print_loop.induct)
  case (2 out avail i e es)
  then show ?case using elem_print_size [of e] by auto
qed simp

fun joined :: "nat \<Rightarrow> elem list \<Rightarrow> uchar list" where
  "joined i [] = []"
| "joined i (e # es) = (if i > 0 then [44] else []) @ elem_print e @ joined (Suc i) es"

lemma print_loop_all:
  "list_all printable es \<Longrightarrow> length out + (text_size_max + 1) * length es \<le> avail \<Longrightarrow> print_loop out avail i es = out @ joined i es"
proof (induction out avail i es rule: print_loop.induct)
  case (2 out avail i e es)
  then show ?case using elem_print_size [of e] by auto
qed simp

section \<open>Properties\<close>

lemma get_collation_correct:
  assumes "ccwf m" "state_primary cs"
  shows "get_collation_for_charset used cs m =
    Some (case lookup m (number cs) of Some cl \<Rightarrow> cl | None \<Rightarrow> cs, used OR CHARACTER_SET_COLLATIONS_USED)"
proof (rule find_elem_correct [OF assms(1), of "number cs"])
  fix k assume k: "find_elem_by_charset_id m (number cs) = Some (Some k)" "k < length (content m)" "ekey (content m ! k) = number cs"
  then show ?thesis using lookup_key [OF assms(1) k(2)] assms(2) content_nth [OF k(2)] by (simp add: get_collation_for_charset_def)
next
  assume n: "find_elem_by_charset_id m (number cs) = Some None" "number cs \<notin> ekey ` set (content m)"
  then show ?thesis using lookup_none [THEN iffD2, OF n(2)] assms(2) by (simp add: get_collation_for_charset_def)
qed

text \<open>C5. On a sorted map of at most eight pairs: the search by halving terminates, passes its assertions and finds a pair exactly when one
  has the number; \<open>insert_or_replace\<close> is the update of the map, except for a new number in a full map, which is refused and changes nothing; the map stays sorted; and
  \<open>get_collation_for_charset\<close> returns the collation of the map, or the character set itself, and records the use.\<close>

theorem collation_map_is_map:
  assumes "ccwf m" "state_primary (m_from e)" "state_primary cs"
  shows "(if ekey e \<notin> dom (lookup m) \<and> length (content m) = MAP_ELEMENTS then insert_or_replace e m = Some (True, m)
          else \<exists>m'. insert_or_replace e m = Some (False, m') \<and> ccwf m' \<and> lookup m' = (lookup m)(ekey e \<mapsto> m_to e) \<and> m_version m' = m_version m) \<and>
         get_collation_for_charset used cs m =
           Some (case lookup m (number cs) of Some cl \<Rightarrow> cl | None \<Rightarrow> cs, used OR CHARACTER_SET_COLLATIONS_USED)"
proof
  show "if ekey e \<notin> dom (lookup m) \<and> length (content m) = MAP_ELEMENTS then insert_or_replace e m = Some (True, m)
      else \<exists>m'. insert_or_replace e m = Some (False, m') \<and> ccwf m' \<and> lookup m' = (lookup m)(ekey e \<mapsto> m_to e) \<and> m_version m' = m_version m"
    by (rule insert_or_replace_correct [OF assms(1,2)])
  show "get_collation_for_charset used cs m =
      Some (case lookup m (number cs) of Some cl \<Rightarrow> cl | None \<Rightarrow> cs, used OR CHARACTER_SET_COLLATIONS_USED)"
    by (rule get_collation_correct [OF assms(1,3)])
qed

definition charset :: "uint \<Rightarrow> charset_info" where
  "charset n = \<lparr>number = n, state_primary = True, cs_name = [117], coll_name = [117, 99]\<rparr>"

definition two_pairs :: ccmap where
  "two_pairs = \<lparr>m_element = [\<lparr>m_from = charset 8, m_to = charset 9\<rparr>, \<lparr>m_from = charset 45, m_to = charset 300\<rparr>] @
     replicate 6 \<lparr>m_from = charset 0, m_to = charset 0\<rparr>, m_count = 2, m_version = 4\<rparr>"

lemma two_pairs_wf: "ccwf two_pairs" "content two_pairs = [\<lparr>m_from = charset 8, m_to = charset 9\<rparr>, \<lparr>m_from = charset 45, m_to = charset 300\<rparr>]"
  by (simp_all add: ccwf_def two_pairs_def content_def MAP_ELEMENTS_def charset_def)

theorem collation_map_is_map_witness:
  "get_collation_for_charset 1 (charset 45) two_pairs = Some (charset 300, 17) \<and>
   get_collation_for_charset 1 (charset 33) two_pairs = Some (charset 33, 17)"
  using collation_map_is_map [OF two_pairs_wf(1), of "\<lparr>m_from = charset 8, m_to = charset 9\<rparr>" "charset 45" 1]
    collation_map_is_map [OF two_pairs_wf(1), of "\<lparr>m_from = charset 8, m_to = charset 9\<rparr>" "charset 33" 1]
  by (simp add: charset_def CHARACTER_SET_COLLATIONS_USED_def lookup_def two_pairs_wf(2))

text \<open>C39. The binary form round-trips: a map whose character sets have numbers of two bytes that \<open>get_charset\<close> knows is read back
  from \<open>to_binary\<close> with the same pairs and version 0, whatever the receiving object held; all bytes are consumed, and there are at most \<open>binary_size_max\<close> of
  them. A truncated form gives an empty map.\<close>

theorem collation_map_round_trip:
  assumes "ccwf m" "list_all (storable get_charset) (content m)" "length (m_element m0) = MAP_ELEMENTS"
  shows "\<exists>m'. from_binary get_charset (to_binary m) m0 = Some (length (to_binary m), m') \<and> ccwf m' \<and> content m' = content m \<and>
           m_version m' = 0 \<and> length (to_binary m) \<le> binary_size_max \<and>
           (\<forall>k. 0 < k \<and> k < length (to_binary m) \<longrightarrow> from_binary get_charset (take k (to_binary m)) m0 = Some (0, ccmap_init m0))"
proof -
  have n: "length (content m) \<le> MAP_ELEMENTS" "sorted_wrt (\<lambda>a b. ekey a < ekey b) (content m)"
    using assms(1) length_content [OF assms(1)] by (simp_all add: ccwf_def)
  have "unat (ucast (m_count m) :: uchar) = unat (m_count m)"
    using n(1) length_content [OF assms(1)] by (simp add: MAP_ELEMENTS_def unsigned_ucast_eq take_bit_nat_eq_self)
  then have hd: "unat (ucast (m_count m) :: uchar) = length (content m)" using length_content [OF assms(1)] by simp
  have b: "to_binary m = ucast (m_count m) #
      concat (map (\<lambda>e. int2store (ucast (number (m_from e))) @ int2store (ucast (number (m_to e)))) (content m))"
    by (simp add: to_binary_def content_def)
  have init: "ccwf (ccmap_init m0)" "content (ccmap_init m0) = []" "m_version (ccmap_init m0) = 0"
    using assms(3) by (simp_all add: ccmap_init_def ccwf_def content_def)
  obtain m' where m': "from_binary_loop get_charset (length (content m))
      (concat (map (\<lambda>e. int2store (ucast (number (m_from e))) @ int2store (ucast (number (m_to e)))) (content m))) (ccmap_init m0) = Some m'"
    "ccwf m'" "content m' = content m" "m_version m' = 0"
    using from_binary_loop_store [OF init(1), of "content m" get_charset] init(2,3) n assms(2) by auto
  have len: "length (to_binary m) = 1 + 4 * length (content m)" by (rule length_to_binary [OF assms(1)])
  have "from_binary get_charset (to_binary m) m0 = Some (length (to_binary m), m')"
    unfolding from_binary_def Let_def using m'(1) len hd by (simp add: b)
  moreover have "from_binary get_charset (take k (to_binary m)) m0 = Some (0, ccmap_init m0)" if "0 < k" "k < length (to_binary m)" for k
  proof -
    have "take k (to_binary m) \<noteq> []" "List.hd (take k (to_binary m)) = ucast (m_count m)" using that by (cases k; simp add: b)+
    moreover have "length (take k (to_binary m)) < 1 + 4 * length (content m)" using that len by simp
    ultimately show ?thesis using hd by (simp add: from_binary_def Let_def)
  qed
  moreover have "length (to_binary m) \<le> binary_size_max" using len n(1) by (simp add: binary_size_max_def)
  ultimately show ?thesis using m' by blast
qed

theorem collation_map_round_trip_witness:
  "\<exists>m'. from_binary (\<lambda>n. Some (charset n)) (to_binary two_pairs) two_pairs = Some (9, m') \<and> content m' = content two_pairs \<and> m_version m' = 0"
proof -
  have "list_all (storable (\<lambda>n. Some (charset n))) (content two_pairs)" "length (m_element two_pairs) = MAP_ELEMENTS" "length (to_binary two_pairs) = 9"
    using length_to_binary [OF two_pairs_wf(1)] two_pairs_wf(1) by (simp_all add: two_pairs_wf(2) storable_def charset_def ccwf_def)
  then show ?thesis using collation_map_round_trip [OF two_pairs_wf(1), of "\<lambda>n. Some (charset n)" two_pairs] by auto
qed

text \<open>\<open>print\<close> of a map whose names have at most their maximal sizes never writes more than the bytes available, and writes all
  pairs, separated by commas, when \<open>text_format_nbytes_needed\<close> bytes are available.\<close>

theorem collation_map_print:
  assumes "ccwf m" "list_all printable (content m)"
  shows "length (ccmap_print nbytes m) \<le> nbytes \<and>
         (text_format_nbytes_needed m \<le> nbytes \<longrightarrow> ccmap_print nbytes m = joined 0 (content m))"
  using print_loop_bound [OF assms(2), of "[]" nbytes 0] print_loop_all [OF assms(2), of "[]" nbytes 0] length_content [OF assms(1)]
  by (simp add: ccmap_print_def text_format_nbytes_needed_def content_def)

theorem collation_map_print_witness: "ccmap_print 1000 two_pairs = [117, 61, 117, 99, 44, 117, 61, 117, 99]"
proof -
  have "list_all printable (content two_pairs)" "text_format_nbytes_needed two_pairs \<le> 1000"
    by (simp add: two_pairs_wf(2) printable_def charset_def MY_CS_CHARACTER_SET_NAME_SIZE_def MY_CS_COLLATION_NAME_SIZE_def)
      (simp add: two_pairs_def MY_CS_CHARACTER_SET_NAME_SIZE_def MY_CS_COLLATION_NAME_SIZE_def text_format_nbytes_needed_def text_size_max_def)
  then show ?thesis using collation_map_print [OF two_pairs_wf(1), of 1000] by (simp add: two_pairs_wf(2) elem_print_def charset_def)
qed

end
