(* ===== verification/Spatial.thy ===== *)
theory Spatial
  imports Prelude Complex_Main
begin

text \<open>
  \<open>spatial.h\<close>: the minimum bounding rectangles of the spatial types, and the checks of the stored form of a geometry. Coordinates are real numbers, the
  rounding of \<open>buffer\<close> is an argument. \<open>within\<close>, which is only declared, is the argument of \<open>overlaps\<close>. Pointers into the
  stored form are offsets into its bytes; \<open>float8get\<close> decodes eight bytes and is an argument.
\<close>

section \<open>Rectangles\<close>

record mbr =
  xmin :: real
  ymin :: real
  xmax :: real
  ymax :: real

definition mbr_empty :: "real \<Rightarrow> mbr" where
  "mbr_empty DBL_MAX = \<lparr>xmin = DBL_MAX, ymin = DBL_MAX, xmax = - DBL_MAX, ymax = - DBL_MAX\<rparr>"

definition mbr_of_points :: "real \<times> real \<Rightarrow> real \<times> real \<Rightarrow> mbr" where
  "mbr_of_points mn mx = \<lparr>xmin = fst mn, ymin = snd mn, xmax = fst mx, ymax = snd mx\<rparr>"

definition add_xy :: "real \<Rightarrow> real \<Rightarrow> mbr \<Rightarrow> mbr" where
  "add_xy x y m =
     (let m = (if x < xmin m then m\<lparr>xmin := x\<rparr> else m);
          m = (if x > xmax m then m\<lparr>xmax := x\<rparr> else m);
          m = (if y < ymin m then m\<lparr>ymin := y\<rparr> else m);
          m = (if y > ymax m then m\<lparr>ymax := y\<rparr> else m)
      in m)"

definition add_mbr :: "mbr \<Rightarrow> mbr \<Rightarrow> mbr" where
  "add_mbr r m =
     (let m = (if xmin r < xmin m then m\<lparr>xmin := xmin r\<rparr> else m);
          m = (if xmax r > xmax m then m\<lparr>xmax := xmax r\<rparr> else m);
          m = (if ymin r < ymin m then m\<lparr>ymin := ymin r\<rparr> else m);
          m = (if ymax r > ymax m then m\<lparr>ymax := ymax r\<rparr> else m)
      in m)"

definition mbr_union :: "mbr \<Rightarrow> mbr \<Rightarrow> mbr" where "mbr_union mbr1 mbr2 = add_mbr mbr2 mbr1"

definition mbr_buffer :: "(real \<Rightarrow> real) \<Rightarrow> real \<Rightarrow> mbr \<Rightarrow> mbr" where
  "mbr_buffer rnd d m = m\<lparr>xmin := rnd (xmin m - d), ymin := rnd (ymin m - d), xmax := rnd (xmax m + d), ymax := rnd (ymax m + d)\<rparr>"

definition mbr_equals :: "mbr \<Rightarrow> mbr \<Rightarrow> bool" where
  "mbr_equals m r \<longleftrightarrow> xmin r = xmin m \<and> ymin r = ymin m \<and> xmax r = xmax m \<and> ymax r = ymax m"

definition mbr_disjoint :: "mbr \<Rightarrow> mbr \<Rightarrow> bool" where
  "mbr_disjoint m r \<longleftrightarrow> xmin r > xmax m \<or> ymin r > ymax m \<or> xmax r < xmin m \<or> ymax r < ymin m"

definition mbr_intersects :: "mbr \<Rightarrow> mbr \<Rightarrow> bool" where "mbr_intersects m r \<longleftrightarrow> \<not> mbr_disjoint m r"

definition touches :: "mbr \<Rightarrow> mbr \<Rightarrow> bool" where
  "touches m r \<longleftrightarrow>
     (xmin r = xmax m \<or> xmax r = xmin m) \<and> (ymin r \<ge> ymin m \<and> ymin r \<le> ymax m \<or> ymax r \<ge> ymin m \<and> ymax r \<le> ymax m) \<or>
     (ymin r = ymax m \<or> ymax r = ymin m) \<and> (xmin r \<ge> xmin m \<and> xmin r \<le> xmax m \<or> xmax r \<ge> xmin m \<and> xmax r \<le> xmax m)"

definition mbr_contains :: "mbr \<Rightarrow> mbr \<Rightarrow> bool" where
  "mbr_contains m r \<longleftrightarrow> xmin r \<ge> xmin m \<and> ymin r \<ge> ymin m \<and> xmax r \<le> xmax m \<and> ymax r \<le> ymax m"

definition inner_point :: "mbr \<Rightarrow> real \<Rightarrow> real \<Rightarrow> bool" where
  "inner_point m x y \<longleftrightarrow> xmin m < x \<and> xmax m > x \<and> ymin m < y \<and> ymax m > y"

definition mbr_dimension :: "mbr \<Rightarrow> int" where
  "mbr_dimension m =
     (let d = 0
      in if xmin m > xmax m then -1
         else let d = (if xmin m < xmax m then d + 1 else d)
           in if ymin m > ymax m then -1 else if ymin m < ymax m then d + 1 else d)"

definition mbr_overlaps :: "(mbr \<Rightarrow> mbr \<Rightarrow> bool) \<Rightarrow> mbr \<Rightarrow> mbr \<Rightarrow> bool" where
  "mbr_overlaps is_within m r =
     (let d = mbr_dimension m
      in if d \<noteq> mbr_dimension r \<or> d \<le> 0 \<or> mbr_contains m r \<or> is_within m r then False
         else let intersection = \<lparr>xmin = max (xmin m) (xmin r), ymin = max (ymin m) (ymin r),
                                   xmax = min (xmax m) (xmax r), ymax = min (ymax m) (ymax r)\<rparr>
           in d = mbr_dimension intersection)"

definition mbr_valid :: "mbr \<Rightarrow> bool" where "mbr_valid m \<longleftrightarrow> xmin m \<le> xmax m \<and> ymin m \<le> ymax m"

section \<open>The stored form\<close>

definition SIZEOF_STORED_DOUBLE :: nat where "SIZEOF_STORED_DOUBLE = 8"
definition POINT_DATA_SIZE :: uint where "POINT_DATA_SIZE = 16"
definition WKB_HEADER_SIZE :: nat where "WKB_HEADER_SIZE = 1 + 4"

record geometry =
  g_bytes :: "uchar list"
  m_data :: nat
  m_data_end :: nat

definition set_data_ptr :: "nat \<Rightarrow> uint \<Rightarrow> geometry \<Rightarrow> geometry" where
  "set_data_ptr data data_len g = g\<lparr>m_data := data, m_data_end := data + unat data_len\<rparr>"

definition shift_wkb_header :: "geometry \<Rightarrow> geometry" where "shift_wkb_header g = g\<lparr>m_data := m_data g + WKB_HEADER_SIZE\<rparr>"

definition no_data :: "geometry \<Rightarrow> nat \<Rightarrow> nat \<Rightarrow> bool" where "no_data g cur_data data_amount \<longleftrightarrow> cur_data + data_amount > m_data_end g"

text \<open>The divisor is a sum of 32-bit numbers; \<^const>\<open>None\<close> is a division by zero.\<close>

definition not_enough_points :: "geometry \<Rightarrow> nat \<Rightarrow> uint \<Rightarrow> uint \<Rightarrow> bool option" where
  "not_enough_points g data expected_points extra_point_space =
     (if m_data_end g < data then Some True
      else if POINT_DATA_SIZE + extra_point_space = 0 then None
      else Some (unat expected_points > (m_data_end g - data) div unat (POINT_DATA_SIZE + extra_point_space)))"

definition find_class :: "'c list \<Rightarrow> int \<Rightarrow> 'c option" where
  "find_class ci_collection type_id = (if type_id < 1 \<or> type_id > 7 then None else Some (ci_collection ! nat type_id))"

text \<open>The accessors of a point read from the stored form; a read outside the bytes is \<open>Inl ()\<close>, the answer 1 of the code is \<open>Inr None\<close>.\<close>

definition read_double :: "(uchar list \<Rightarrow> real) \<Rightarrow> geometry \<Rightarrow> nat \<Rightarrow> unit + real" where
  "read_double float8get g p = (if p + 8 \<le> length (g_bytes g) then Inr (float8get (take 8 (drop p (g_bytes g)))) else Inl ())"

definition get_xy :: "(uchar list \<Rightarrow> real) \<Rightarrow> geometry \<Rightarrow> unit + (real \<times> real) option" where
  "get_xy float8get g =
     (let data = m_data g
      in if no_data g data (SIZEOF_STORED_DOUBLE * 2) then Inr None
         else case (read_double float8get g data, read_double float8get g (data + SIZEOF_STORED_DOUBLE)) of
                (Inr x, Inr y) \<Rightarrow> Inr (Some (x, y)) | _ \<Rightarrow> Inl ())"

definition get_x :: "(uchar list \<Rightarrow> real) \<Rightarrow> geometry \<Rightarrow> unit + real option" where
  "get_x float8get g =
     (if no_data g (m_data g) SIZEOF_STORED_DOUBLE then Inr None
      else case read_double float8get g (m_data g) of Inr x \<Rightarrow> Inr (Some x) | Inl e \<Rightarrow> Inl e)"

definition get_y :: "(uchar list \<Rightarrow> real) \<Rightarrow> geometry \<Rightarrow> unit + real option" where
  "get_y float8get g =
     (let data = m_data g
      in if no_data g data (SIZEOF_STORED_DOUBLE * 2) then Inr None
         else case read_double float8get g (data + SIZEOF_STORED_DOUBLE) of Inr y \<Rightarrow> Inr (Some y) | Inl e \<Rightarrow> Inl e)"

definition get_xy_radian :: "(real \<Rightarrow> real) \<Rightarrow> real \<Rightarrow> (uchar list \<Rightarrow> real) \<Rightarrow> geometry \<Rightarrow> unit + (real \<times> real) option" where
  "get_xy_radian rnd M_PI float8get g = (case get_xy float8get g of
     Inr (Some (x, y)) \<Rightarrow> Inr (Some (rnd (rnd (x * M_PI) / 180), rnd (rnd (y * M_PI) / 180))) | Inr None \<Rightarrow> Inr None | Inl e \<Rightarrow> Inl e)"

section \<open>Rectangles as sets of points\<close>

definition points :: "mbr \<Rightarrow> (real \<times> real) set" where
  "points m = {(x, y). xmin m \<le> x \<and> x \<le> xmax m \<and> ymin m \<le> y \<and> y \<le> ymax m}"

lemma corners: "mbr_valid m \<Longrightarrow> (xmin m, ymin m) \<in> points m \<and> (xmax m, ymax m) \<in> points m"
  by (simp add: points_def mbr_valid_def)

lemma add_xy_eq: "add_xy x y m = m\<lparr>xmin := min x (xmin m), xmax := max x (xmax m), ymin := min y (ymin m), ymax := max y (ymax m)\<rparr>"
  by (simp add: add_xy_def Let_def min_def max_def)

lemma add_mbr_eq:
  "add_mbr r m = m\<lparr>xmin := min (xmin r) (xmin m), xmax := max (xmax r) (xmax m), ymin := min (ymin r) (ymin m), ymax := max (ymax r) (ymax m)\<rparr>"
  by (simp add: add_mbr_def Let_def min_def max_def)

lemma contains_points:
  assumes "mbr_valid r" shows "mbr_contains m r \<longleftrightarrow> points r \<subseteq> points m"
proof
  assume "points r \<subseteq> points m"
  then have "(xmin r, ymin r) \<in> points m" "(xmax r, ymax r) \<in> points m" using corners [OF assms] by auto
  then show "mbr_contains m r" by (simp add: points_def mbr_contains_def)
qed (auto simp: mbr_contains_def points_def)

lemma intersects_points:
  assumes "mbr_valid m" "mbr_valid r" shows "mbr_intersects m r \<longleftrightarrow> points m \<inter> points r \<noteq> {}"
proof
  assume "mbr_intersects m r"
  then have "(max (xmin m) (xmin r), max (ymin m) (ymin r)) \<in> points m \<inter> points r"
    using assms by (simp add: mbr_intersects_def mbr_disjoint_def points_def mbr_valid_def)
  then show "points m \<inter> points r \<noteq> {}" by blast
qed (auto simp: mbr_intersects_def mbr_disjoint_def points_def)

lemma fold_add_xy:
  "mbr_contains (fold (\<lambda>(x, y). add_xy x y) ps m) m \<and> (\<forall>(x, y) \<in> set ps. (x, y) \<in> points (fold (\<lambda>(x, y). add_xy x y) ps m))"
proof (induction ps rule: rev_induct)
  case Nil
  then show ?case by (simp add: mbr_contains_def)
next
  case (snoc p ps)
  obtain x y where p: "p = (x, y)" by fastforce
  show ?case using snoc by (auto simp: p add_xy_eq mbr_contains_def points_def)
qed

lemma fold_add_xy_least:
  assumes "mbr_contains r m" "set ps \<subseteq> points r" shows "mbr_contains r (fold (\<lambda>(x, y). add_xy x y) ps m)"
  using assms
proof (induction ps arbitrary: m)
  case (Cons p ps)
  obtain x y where p: "p = (x, y)" by fastforce
  have "mbr_contains r (add_xy x y m)" using Cons.prems p by (auto simp: add_xy_eq mbr_contains_def points_def)
  then show ?case using Cons p by simp
qed simp

text \<open>The dimension of a set of points: -1 for the empty set, else the number of directions in which it extends.\<close>

definition extent :: "('a \<Rightarrow> real) \<Rightarrow> 'a set \<Rightarrow> int" where "extent f S = (if \<exists>p\<in>S. \<exists>q\<in>S. f p \<noteq> f q then 1 else 0)"

definition set_dim :: "(real \<times> real) set \<Rightarrow> int" where "set_dim S = (if S = {} then - 1 else extent fst S + extent snd S)"

lemma points_empty_iff: "points m = {} \<longleftrightarrow> \<not> mbr_valid m"
  using corners [of m] by (auto simp: points_def mbr_valid_def)

lemma extent_points:
  assumes "mbr_valid m"
  shows "extent fst (points m) = (if xmin m < xmax m then 1 else 0)" "extent snd (points m) = (if ymin m < ymax m then 1 else 0)"
proof -
  note c = corners [OF assms]
  have "(\<exists>p\<in>points m. \<exists>q\<in>points m. fst p \<noteq> fst q) \<longleftrightarrow> xmin m < xmax m"
  proof
    assume "xmin m < xmax m"
    then show "\<exists>p\<in>points m. \<exists>q\<in>points m. fst p \<noteq> fst q" using c by (intro bexI [of _ "(xmin m, ymin m)"] bexI [of _ "(xmax m, ymax m)"]) auto
  qed (auto simp: points_def)
  then show "extent fst (points m) = (if xmin m < xmax m then 1 else 0)" by (simp add: extent_def)
  have "(\<exists>p\<in>points m. \<exists>q\<in>points m. snd p \<noteq> snd q) \<longleftrightarrow> ymin m < ymax m"
  proof
    assume "ymin m < ymax m"
    then show "\<exists>p\<in>points m. \<exists>q\<in>points m. snd p \<noteq> snd q" using c by (intro bexI [of _ "(xmin m, ymin m)"] bexI [of _ "(xmax m, ymax m)"]) auto
  qed (auto simp: points_def)
  then show "extent snd (points m) = (if ymin m < ymax m then 1 else 0)" by (simp add: extent_def)
qed

lemma dimension_points: "mbr_dimension m = set_dim (points m)"
proof (cases "mbr_valid m")
  case True
  then show ?thesis using points_empty_iff [of m] by (auto simp: set_dim_def extent_points mbr_dimension_def mbr_valid_def Let_def)
next
  case False
  then show ?thesis using points_empty_iff [of m] by (auto simp: set_dim_def mbr_dimension_def mbr_valid_def Let_def)
qed

lemma points_intersection:
  "points \<lparr>xmin = max (xmin m) (xmin r), ymin = max (ymin m) (ymin r), xmax = min (xmax m) (xmax r), ymax = min (ymax m) (ymax r)\<rparr> = points m \<inter> points r"
  by (auto simp: points_def)

text \<open>Two rectangles overlap when neither contains the other and both have the dimension of their intersection, which is not a point.\<close>

lemma overlaps_points:
  assumes "mbr_valid m" "mbr_valid r"
  shows "mbr_overlaps (\<lambda>a b. mbr_contains b a) m r \<longleftrightarrow>
    \<not> points r \<subseteq> points m \<and> \<not> points m \<subseteq> points r \<and> 0 < set_dim (points m) \<and> set_dim (points m) = set_dim (points r) \<and>
    set_dim (points m \<inter> points r) = set_dim (points m)"
  using contains_points [OF assms(1), of r] contains_points [OF assms(2), of m]
  by (auto simp: mbr_overlaps_def Let_def dimension_points points_intersection)

section \<open>Properties\<close>

text \<open>C25. On valid rectangles the predicates \<open>contains\<close>, \<open>intersects\<close>, \<open>disjoint\<close>, \<open>equals\<close>, \<open>dimension\<close> and \<open>overlaps\<close> are those of the sets of points: \<open>contains\<close> is inclusion,
  \<open>intersects\<close> and \<open>disjoint\<close> say whether there is a common point, \<open>equals\<close> is equality, \<open>dimension\<close> counts the directions in which the set extends, and \<open>overlaps\<close>,
  with \<open>within\<close> the converse of \<open>contains\<close>, holds exactly when neither set includes the other and both have the dimension of their intersection, which is at least a
  line. \<open>add_mbr\<close> gives the smallest rectangle that contains both; adding points one by one to the empty rectangle gives the smallest rectangle that contains them,
  provided all coordinates are at most \<open>DBL_MAX\<close> in size.\<close>

theorem mbr_predicates:
  assumes "mbr_valid m" "mbr_valid r" "ps \<noteq> []" "\<forall>(x, y) \<in> set ps. \<bar>x\<bar> \<le> DBL_MAX \<and> \<bar>y\<bar> \<le> DBL_MAX"
  shows "(mbr_contains m r \<longleftrightarrow> points r \<subseteq> points m) \<and>
         (mbr_intersects m r \<longleftrightarrow> points m \<inter> points r \<noteq> {}) \<and> (mbr_disjoint m r \<longleftrightarrow> points m \<inter> points r = {}) \<and>
         (mbr_equals m r \<longleftrightarrow> points m = points r) \<and>
         points m \<union> points r \<subseteq> points (add_mbr r m) \<and>
         (\<forall>q. mbr_valid q \<and> points m \<union> points r \<subseteq> points q \<longrightarrow> points (add_mbr r m) \<subseteq> points q) \<and>
         set ps \<subseteq> points (fold (\<lambda>(x, y). add_xy x y) ps (mbr_empty DBL_MAX)) \<and>
         (\<forall>q. set ps \<subseteq> points q \<longrightarrow> points (fold (\<lambda>(x, y). add_xy x y) ps (mbr_empty DBL_MAX)) \<subseteq> points q) \<and>
         mbr_dimension m = set_dim (points m) \<and>
         (mbr_overlaps (\<lambda>a b. mbr_contains b a) m r \<longleftrightarrow>
            \<not> points r \<subseteq> points m \<and> \<not> points m \<subseteq> points r \<and> 0 < set_dim (points m) \<and> set_dim (points m) = set_dim (points r) \<and>
            set_dim (points m \<inter> points r) = set_dim (points m))"
proof (intro conjI)
  show "mbr_contains m r \<longleftrightarrow> points r \<subseteq> points m" by (rule contains_points [OF assms(2)])
  show i: "mbr_intersects m r \<longleftrightarrow> points m \<inter> points r \<noteq> {}" by (rule intersects_points [OF assms(1,2)])
  then show "mbr_disjoint m r \<longleftrightarrow> points m \<inter> points r = {}" by (simp add: mbr_intersects_def)
  have "mbr_equals m r \<longleftrightarrow> mbr_contains m r \<and> mbr_contains r m" by (auto simp: mbr_equals_def mbr_contains_def)
  then show "mbr_equals m r \<longleftrightarrow> points m = points r" using contains_points assms(1,2) by blast
  show "points m \<union> points r \<subseteq> points (add_mbr r m)" by (auto simp: points_def add_mbr_eq)
  show "\<forall>q. mbr_valid q \<and> points m \<union> points r \<subseteq> points q \<longrightarrow> points (add_mbr r m) \<subseteq> points q"
  proof (intro allI impI)
    fix q assume "mbr_valid q \<and> points m \<union> points r \<subseteq> points q"
    then have "mbr_contains q m" "mbr_contains q r" using contains_points assms(1,2) by simp_all
    then show "points (add_mbr r m) \<subseteq> points q" by (auto simp: points_def add_mbr_eq mbr_contains_def)
  qed
  show "set ps \<subseteq> points (fold (\<lambda>(x, y). add_xy x y) ps (mbr_empty DBL_MAX))" using fold_add_xy [of ps] by auto
  show "\<forall>q. set ps \<subseteq> points q \<longrightarrow> points (fold (\<lambda>(x, y). add_xy x y) ps (mbr_empty DBL_MAX)) \<subseteq> points q"
  proof (intro allI impI)
    fix q assume q: "set ps \<subseteq> points q"
    obtain x y qs where ps: "ps = (x, y) # qs" using assms(3) by (metis neq_Nil_conv surj_pair)
    have "\<bar>x\<bar> \<le> DBL_MAX" "\<bar>y\<bar> \<le> DBL_MAX" using assms(4) ps by auto
    then have "mbr_contains q (add_xy x y (mbr_empty DBL_MAX))"
      using q ps by (auto simp: add_xy_eq mbr_empty_def mbr_contains_def points_def)
    then have "mbr_contains q (fold (\<lambda>(x, y). add_xy x y) ps (mbr_empty DBL_MAX))"
      using fold_add_xy_least [of q "add_xy x y (mbr_empty DBL_MAX)" qs] q ps by simp
    then show "points (fold (\<lambda>(x, y). add_xy x y) ps (mbr_empty DBL_MAX)) \<subseteq> points q" by (auto simp: points_def mbr_contains_def)
  qed
  show "mbr_dimension m = set_dim (points m)" by (rule dimension_points)
  show "mbr_overlaps (\<lambda>a b. mbr_contains b a) m r \<longleftrightarrow>
      \<not> points r \<subseteq> points m \<and> \<not> points m \<subseteq> points r \<and> 0 < set_dim (points m) \<and> set_dim (points m) = set_dim (points r) \<and>
      set_dim (points m \<inter> points r) = set_dim (points m)" by (rule overlaps_points [OF assms(1,2)])
qed

theorem mbr_predicates_witness:
  "points (fold (\<lambda>(x, y). add_xy x y) [(1, 2), (3, 0)] (mbr_empty 1000)) = points \<lparr>xmin = 1, ymin = 0, xmax = 3, ymax = 2\<rparr>"
proof
  let ?m = "\<lparr>xmin = 1, ymin = 0, xmax = 3, ymax = 2\<rparr>"
  have "mbr_valid ?m" by (simp add: mbr_valid_def)
  note p = mbr_predicates [OF this this, of "[(1, 2), (3, 0)]" 1000]
  have "set [(1, 2), (3, 0)] \<subseteq> points ?m" by (auto simp: points_def)
  then show "points (fold (\<lambda>(x, y). add_xy x y) [(1, 2), (3, 0)] (mbr_empty 1000)) \<subseteq> points ?m" using p by simp
  show "points ?m \<subseteq> points (fold (\<lambda>(x, y). add_xy x y) [(1, 2), (3, 0)] (mbr_empty 1000))"
    by (simp add: add_xy_eq mbr_empty_def)
qed

text \<open>\<open>touches\<close> depends on the order of its arguments: for a rectangle that shares a part of its right side with one that is higher on
  both ends it answers no, and yes with the two exchanged. Taken in both orders it is complete: one of the two answers is yes exactly when the rectangles have
  a common point and a side of one lies on the line of the opposite side of the other.\<close>

theorem touches_not_symmetric:
  "(\<exists>m r. mbr_valid m \<and> mbr_valid r \<and> \<not> touches m r \<and> touches r m) \<and>
   (\<forall>m r. mbr_valid m \<and> mbr_valid r \<longrightarrow>
      (touches m r \<or> touches r m \<longleftrightarrow>
       mbr_intersects m r \<and> (xmin r = xmax m \<or> xmax r = xmin m \<or> ymin r = ymax m \<or> ymax r = ymin m)))"
proof (intro conjI exI)
  show "mbr_valid \<lparr>xmin = 0, ymin = 0, xmax = 1, ymax = 1\<rparr>" "mbr_valid \<lparr>xmin = 1, ymin = -1, xmax = 2, ymax = 2\<rparr>"
    by (simp_all add: mbr_valid_def)
  show "\<not> touches \<lparr>xmin = 0, ymin = 0, xmax = 1, ymax = 1\<rparr> \<lparr>xmin = 1, ymin = -1, xmax = 2, ymax = 2\<rparr>"
    "touches \<lparr>xmin = 1, ymin = -1, xmax = 2, ymax = 2\<rparr> \<lparr>xmin = 0, ymin = 0, xmax = 1, ymax = 1\<rparr>"
    by (simp_all add: touches_def)
  show "\<forall>m r. mbr_valid m \<and> mbr_valid r \<longrightarrow>
      (touches m r \<or> touches r m \<longleftrightarrow>
       mbr_intersects m r \<and> (xmin r = xmax m \<or> xmax r = xmin m \<or> ymin r = ymax m \<or> ymax r = ymin m))"
    by (auto simp: touches_def mbr_valid_def mbr_intersects_def mbr_disjoint_def not_less)
qed

theorem touches_not_symmetric_witness:
  "touches \<lparr>xmin = 0, ymin = 0, xmax = 1, ymax = 1\<rparr> \<lparr>xmin = 1, ymin = 0, xmax = 2, ymax = 2\<rparr> \<or>
   touches \<lparr>xmin = 1, ymin = 0, xmax = 2, ymax = 2\<rparr> \<lparr>xmin = 0, ymin = 0, xmax = 1, ymax = 1\<rparr>"
  using touches_not_symmetric [THEN conjunct2, rule_format,
      of "\<lparr>xmin = 0, ymin = 0, xmax = 1, ymax = 1\<rparr>" "\<lparr>xmin = 1, ymin = 0, xmax = 2, ymax = 2\<rparr>"]
  by (simp add: mbr_valid_def mbr_intersects_def mbr_disjoint_def)

section \<open>The bounds of the stored form\<close>

text \<open>The checks keep the accessors inside the bytes of the geometry, and the arithmetic of \<open>not_enough_points\<close> does not wrap.\<close>

lemma get_xy_inside:
  assumes "m_data_end g \<le> length (g_bytes g)"
  shows "get_xy f g \<noteq> Inl ()" "get_x f g \<noteq> Inl ()" "get_y f g \<noteq> Inl ()"
  using assms by (auto simp: get_xy_def get_x_def get_y_def read_double_def no_data_def SIZEOF_STORED_DOUBLE_def Let_def)

lemma enough_points:
  assumes "not_enough_points g data n extra = Some False" "unat extra < 2 ^ 32 - 16"
  shows "data + unat n * (16 + unat extra) \<le> m_data_end g"
proof -
  have s: "unat (POINT_DATA_SIZE + extra) = 16 + unat extra" using assms(2) by (simp add: POINT_DATA_SIZE_def unat_word_ariths)
  have d: "data \<le> m_data_end g" "unat n \<le> (m_data_end g - data) div (16 + unat extra)"
    using assms(1) s by (auto simp: not_enough_points_def split: if_splits)
  have "unat n * (16 + unat extra) \<le> (m_data_end g - data) div (16 + unat extra) * (16 + unat extra)"
    by (rule mult_le_mono1 [OF d(2)])
  also have "\<dots> \<le> m_data_end g - data" by (rule div_times_less_eq_dividend)
  finally show ?thesis using d(1) by linarith
qed

end
