(* ===== verification/Sql_Limit.thy ===== *)
theory Sql_Limit
  imports Prelude
begin

text \<open>\<open>sql_limit.h\<close>: the counters of \<open>LIMIT\<close> and \<open>OFFSET\<close>. \<open>ha_rows\<close> has 64 bits; \<open>HA_POS_ERROR\<close> is its largest value and stands for no limit.\<close>

record select_limit_counters =
  select_limit_cnt :: ulonglong
  offset_limit_cnt :: ulonglong
  with_ties :: bool

definition HA_POS_ERROR :: ulonglong where "HA_POS_ERROR = - 1"

definition slc_init :: select_limit_counters where
  "slc_init = \<lparr>select_limit_cnt = 0, offset_limit_cnt = 0, with_ties = False\<rparr>"

definition set_limit :: "ulonglong \<Rightarrow> ulonglong \<Rightarrow> bool \<Rightarrow> select_limit_counters \<Rightarrow> select_limit_counters" where
  "set_limit limit off with_ties_arg s =
     (let off = (if limit = 0 then 0 else off);
          s = s\<lparr>offset_limit_cnt := off, select_limit_cnt := limit, with_ties := with_ties_arg\<rparr>
      in if select_limit_cnt s + offset_limit_cnt s \<ge> select_limit_cnt s
         then s\<lparr>select_limit_cnt := select_limit_cnt s + offset_limit_cnt s\<rparr>
         else s\<lparr>select_limit_cnt := HA_POS_ERROR\<rparr>)"

definition set_single_row :: "select_limit_counters \<Rightarrow> select_limit_counters" where
  "set_single_row s = s\<lparr>offset_limit_cnt := 0, select_limit_cnt := 1, with_ties := False\<rparr>"

definition send_first_row :: "select_limit_counters \<Rightarrow> select_limit_counters" where
  "send_first_row s =
     (let s = s\<lparr>select_limit_cnt := offset_limit_cnt s + 1\<rparr>
      in if select_limit_cnt s = 0 then s\<lparr>select_limit_cnt := offset_limit_cnt s\<rparr> else s)"

definition is_unlimited :: "select_limit_counters \<Rightarrow> bool" where "is_unlimited s \<longleftrightarrow> select_limit_cnt s = HA_POS_ERROR"
definition set_unlimited :: "select_limit_counters \<Rightarrow> select_limit_counters" where "set_unlimited s = s\<lparr>select_limit_cnt := HA_POS_ERROR\<rparr>"
definition slc_clear :: "select_limit_counters \<Rightarrow> select_limit_counters" where
  "slc_clear s = s\<lparr>select_limit_cnt := HA_POS_ERROR, offset_limit_cnt := 0, with_ties := False\<rparr>"
definition check_offset :: "ulonglong \<Rightarrow> select_limit_counters \<Rightarrow> bool" where "check_offset sent s \<longleftrightarrow> sent < offset_limit_cnt s"
definition remove_offset :: "select_limit_counters \<Rightarrow> select_limit_counters" where "remove_offset s = s\<lparr>offset_limit_cnt := 0\<rparr>"

section \<open>What the counters mean\<close>

text \<open>The rows a client of the counters sends: those at the positions before \<open>select_limit_cnt\<close> that \<open>check_offset\<close> does not skip.\<close>

definition sent_rows :: "select_limit_counters \<Rightarrow> nat set" where
  "sent_rows s = {n. n < unat (select_limit_cnt s) \<and> \<not> check_offset (of_nat n) s}"

lemma sent_rows_eq: "sent_rows s = {n. unat (offset_limit_cnt s) \<le> n \<and> n < unat (select_limit_cnt s)}"
proof -
  have "check_offset (of_nat n) s \<longleftrightarrow> n < unat (offset_limit_cnt s)" if "n < unat (select_limit_cnt s)" for n
  proof -
    have "n < 2 ^ 64" using that unat_bound [of "select_limit_cnt s"] by simp
    then show ?thesis by (simp add: check_offset_def word_less_nat_alt unat_of_nat)
  qed
  then show ?thesis by (auto simp: sent_rows_def)
qed

lemma sum_no_wrap: "x \<le> x + y \<longleftrightarrow> unat x + unat y < 2 ^ 64" for x y :: ulonglong
  using unat_bound [of x] unat_bound [of y] by (auto simp: word_le_nat_alt unat_word_ariths mod_if)

lemma unat_ha_pos_error: "unat HA_POS_ERROR = 2 ^ 64 - 1"
proof -
  have e: "HA_POS_ERROR = 18446744073709551615" by (simp add: HA_POS_ERROR_def)
  have "unat (18446744073709551615 :: ulonglong) = 2 ^ 64 - 1" by simp
  then show ?thesis unfolding e .
qed

lemma set_limit_cnt:
  "unat (select_limit_cnt (set_limit limit off t s)) =
     (if limit = 0 then 0 else min (unat limit + unat off) (2 ^ 64 - 1))"
  "unat (offset_limit_cnt (set_limit limit off t s)) = (if limit = 0 then 0 else unat off)"
proof -
  have sum: "unat (limit + off) = unat limit + unat off" if "limit \<le> limit + off"
    using that by (simp add: sum_no_wrap unat_word_ariths)
  then show "unat (select_limit_cnt (set_limit limit off t s)) = (if limit = 0 then 0 else min (unat limit + unat off) (2 ^ 64 - 1))"
    using sum_no_wrap [of limit off] unat_ha_pos_error by (auto simp: set_limit_def Let_def)
  show "unat (offset_limit_cnt (set_limit limit off t s)) = (if limit = 0 then 0 else unat off)"
    by (auto simp: set_limit_def Let_def)
qed

lemma sent_set_limit:
  "sent_rows (set_limit limit off t s) = {n. unat off \<le> n \<and> n < unat off + unat limit \<and> n < 2 ^ 64 - 1}"
proof (cases "limit = 0")
  case True
  then show ?thesis unfolding sent_rows_eq set_limit_cnt by simp
next
  case False
  then show ?thesis unfolding sent_rows_eq set_limit_cnt if_not_P [OF False] min_less_iff_conj by (simp add: add.commute)
qed

lemma sent_first_row: "sent_rows (send_first_row s) = {n. n = unat (offset_limit_cnt s) \<and> n < 2 ^ 64 - 1}"
proof (cases "offset_limit_cnt s + 1 = 0")
  case True
  then have "offset_limit_cnt s = HA_POS_ERROR" by (simp add: HA_POS_ERROR_def eq_neg_iff_add_eq_0)
  then have "unat (offset_limit_cnt s) = 2 ^ 64 - 1" by (simp only: unat_ha_pos_error)
  then show ?thesis unfolding sent_rows_eq using True by (auto simp: send_first_row_def Let_def)
next
  case False
  then have u: "unat (offset_limit_cnt s + 1) = unat (offset_limit_cnt s) + 1" by (metis Suc_eq_plus1 unatSuc add.commute)
  then have lt: "unat (offset_limit_cnt s) < 2 ^ 64 - 1" using unat_bound [of "offset_limit_cnt s + 1"] by simp
  have "select_limit_cnt (send_first_row s) = offset_limit_cnt s + 1" "offset_limit_cnt (send_first_row s) = offset_limit_cnt s"
    using False by (simp_all add: send_first_row_def Let_def)
  then show ?thesis unfolding sent_rows_eq using u lt by (simp only:) auto
qed

lemma sent_clear: "sent_rows (slc_clear s) = {n. n < 2 ^ 64 - 1}"
  unfolding sent_rows_eq by (simp add: slc_clear_def unat_ha_pos_error)

section \<open>Properties\<close>

text \<open>After \<open>set_limit\<close> the rows sent are the \<open>limit\<close> rows that follow the first \<open>offset\<close> ones, none for the limit 0, also where the sum of the two
  exceeds 64 bits, up to the last position \<open>2 ^ 64 - 2\<close> a row can have; \<open>send_first_row\<close> then sends one row, unless the offset skips all
  positions, and \<open>set_single_row\<close> the first row.\<close>

theorem limit_counters:
  "sent_rows (set_limit limit off t s) = {n. unat off \<le> n \<and> n < unat off + unat limit \<and> n < 2 ^ 64 - 1} \<and>
   sent_rows (send_first_row s) = {n. n = unat (offset_limit_cnt s) \<and> n < 2 ^ 64 - 1} \<and>
   sent_rows (set_single_row s) = {0} \<and> sent_rows (slc_clear s) = {n. n < 2 ^ 64 - 1}"
  using sent_set_limit sent_first_row sent_clear by (auto simp: sent_rows_eq set_single_row_def)

end
