(* ===== verification/Simple_Tokenizer.thy ===== *)
theory Simple_Tokenizer
  imports Prelude
begin

text \<open>
  \<open>simple_tokenizer.h\<close>: the tokenizer of identifiers and single characters. The text is a list of bytes, a position an offset into it; a read
  outside the text does not happen, since every read follows a test of \<open>eof\<close>.
\<close>

record tokenizer =
  t_text :: "uchar list"
  t_ptr :: nat
  t_end :: nat

definition tok_init :: "uchar list \<Rightarrow> tokenizer" where
  "tok_init str = \<lparr>t_text = str, t_ptr = 0, t_end = length str\<rparr>"

definition eof :: "tokenizer \<Rightarrow> bool" where "eof t \<longleftrightarrow> t_ptr t \<ge> t_end t"

function get_spaces :: "tokenizer \<Rightarrow> tokenizer" where
  "get_spaces t = (if \<not> eof t \<and> t_text t ! t_ptr t = 32 then get_spaces (t\<lparr>t_ptr := t_ptr t + 1\<rparr>) else t)"
  by auto
termination by (relation "measure (\<lambda>t. t_end t - t_ptr t)") (auto simp: eof_def)

declare get_spaces.simps [simp del]

definition is_ident_start_char :: "uchar \<Rightarrow> bool" where
  "is_ident_start_char ch \<longleftrightarrow> ch \<ge> 97 \<and> ch \<le> 122 \<or> ch \<ge> 65 \<and> ch \<le> 90 \<or> ch = 95"

definition is_ident_body_char :: "uchar \<Rightarrow> bool" where
  "is_ident_body_char ch \<longleftrightarrow> is_ident_start_char ch \<or> ch \<ge> 48 \<and> ch \<le> 57"

definition is_ident_start :: "tokenizer \<Rightarrow> bool" where "is_ident_start t \<longleftrightarrow> \<not> eof t \<and> is_ident_start_char (t_text t ! t_ptr t)"
definition is_ident_body :: "tokenizer \<Rightarrow> bool" where "is_ident_body t \<longleftrightarrow> \<not> eof t \<and> is_ident_body_char (t_text t ! t_ptr t)"

function ident_loop :: "tokenizer \<Rightarrow> tokenizer" where
  "ident_loop t = (if is_ident_body t then ident_loop (t\<lparr>t_ptr := t_ptr t + 1\<rparr>) else t)"
  by auto
termination by (relation "measure (\<lambda>t. t_end t - t_ptr t)") (auto simp: eof_def is_ident_body_def)

declare ident_loop.simps [simp del]

text \<open>The identifier is its start and its length.\<close>

definition get_ident :: "tokenizer \<Rightarrow> (nat \<times> nat) \<times> tokenizer" where
  "get_ident t =
     (let t = get_spaces t
      in if \<not> is_ident_start t then ((t_ptr t, 0), t)
         else let start = t_ptr t; t = ident_loop (t\<lparr>t_ptr := t_ptr t + 1\<rparr>) in ((start, t_ptr t - start), t))"

definition get_char :: "uchar \<Rightarrow> tokenizer \<Rightarrow> bool \<times> tokenizer" where
  "get_char ch t =
     (let t = get_spaces t
      in if eof t \<or> t_text t ! t_ptr t \<noteq> ch then (True, t) else (False, t\<lparr>t_ptr := t_ptr t + 1\<rparr>))"

section \<open>The rest of the text\<close>

definition tok_ok :: "tokenizer \<Rightarrow> bool" where "tok_ok t \<longleftrightarrow> t_ptr t \<le> t_end t \<and> t_end t \<le> length (t_text t)"

definition rest :: "tokenizer \<Rightarrow> uchar list" where "rest t = take (t_end t - t_ptr t) (drop (t_ptr t) (t_text t))"

definition advance :: "nat \<Rightarrow> tokenizer \<Rightarrow> tokenizer" where "advance n t = t\<lparr>t_ptr := t_ptr t + n\<rparr>"

lemma rest_cases:
  assumes "tok_ok t"
  shows "rest t = (if eof t then [] else t_text t ! t_ptr t # rest (t\<lparr>t_ptr := t_ptr t + 1\<rparr>))"
proof (cases "eof t")
  case False
  then have "t_end t - t_ptr t = Suc (t_end t - Suc (t_ptr t))" "t_ptr t < length (t_text t)" using assms by (auto simp: eof_def tok_ok_def)
  then show ?thesis using False by (simp add: rest_def take_Suc_conv_app_nth flip: Cons_nth_drop_Suc)
qed (simp add: rest_def eof_def)

lemma tok_ok_step: "tok_ok t \<Longrightarrow> \<not> eof t \<Longrightarrow> tok_ok (t\<lparr>t_ptr := t_ptr t + 1\<rparr>)"
  by (auto simp: tok_ok_def eof_def)

lemma rest_advance: "tok_ok t \<Longrightarrow> rest (advance n t) = drop n (rest t)"
  by (simp add: rest_def advance_def drop_take add.commute)

lemma advance_step: "advance n (t\<lparr>t_ptr := t_ptr t + 1\<rparr>) = advance (Suc n) t" "advance 0 t = t"
  by (simp_all add: advance_def)

lemma get_spaces_advance: "tok_ok t \<Longrightarrow> get_spaces t = advance (length (takeWhile (\<lambda>c. c = 32) (rest t))) t"
proof (induction t rule: get_spaces.induct)
  case (1 t)
  show ?case
  proof (cases "\<not> eof t \<and> t_text t ! t_ptr t = 32")
    case True
    then have "get_spaces t = advance (length (takeWhile (\<lambda>c. c = 32) (rest (t\<lparr>t_ptr := t_ptr t + 1\<rparr>)))) (t\<lparr>t_ptr := t_ptr t + 1\<rparr>)"
      using 1 tok_ok_step by (subst get_spaces.simps) simp
    then show ?thesis using True rest_cases [OF "1.prems"] advance_step by simp
  next
    case False
    then have "get_spaces t = t" by (subst get_spaces.simps) (simp only: if_False)
    then show ?thesis using False rest_cases [OF "1.prems"] advance_step by auto
  qed
qed

lemma ident_loop_advance: "tok_ok t \<Longrightarrow> ident_loop t = advance (length (takeWhile is_ident_body_char (rest t))) t"
proof (induction t rule: ident_loop.induct)
  case (1 t)
  show ?case
  proof (cases "is_ident_body t")
    case True
    then have ne: "\<not> eof t" "is_ident_body_char (t_text t ! t_ptr t)" by (simp_all add: is_ident_body_def)
    then have "ident_loop t = advance (length (takeWhile is_ident_body_char (rest (t\<lparr>t_ptr := t_ptr t + 1\<rparr>)))) (t\<lparr>t_ptr := t_ptr t + 1\<rparr>)"
      using 1 True tok_ok_step by (subst ident_loop.simps) simp
    then show ?thesis using ne rest_cases [OF "1.prems"] advance_step by simp
  next
    case False
    then have "ident_loop t = t" by (subst ident_loop.simps) (simp only: if_False)
    then show ?thesis using False rest_cases [OF "1.prems"] advance_step by (auto simp: is_ident_body_def)
  qed
qed

lemma tok_ok_advance: "tok_ok t \<Longrightarrow> n \<le> length (rest t) \<Longrightarrow> tok_ok (advance n t)"
  by (auto simp: tok_ok_def rest_def advance_def)

lemma spaces_ok: "tok_ok t \<Longrightarrow> tok_ok (get_spaces t) \<and> rest (get_spaces t) = dropWhile (\<lambda>c. c = 32) (rest t) \<and> t_text (get_spaces t) = t_text t"
  using get_spaces_advance [of t] tok_ok_advance [of t] rest_advance [of t] length_takeWhile_le [of "\<lambda>c. c = 32" "rest t"]
  by (simp add: dropWhile_eq_drop advance_def)

section \<open>Properties\<close>

text \<open>\<open>get_ident\<close> skips the spaces and takes the longest identifier: a letter or underscore with the letters, digits and underscores that follow it, or
  nothing; \<open>get_char\<close> skips the spaces and takes the character, or reports that it is not there and takes nothing. The loops end, the
  position stays inside the text, and what remains is the text behind the token.\<close>

theorem tokenizer_correct:
  assumes "tok_ok t"
  shows "(case get_ident t of ((start, len), t') \<Rightarrow>
            let s = dropWhile (\<lambda>c. c = 32) (rest t);
                ident = (case s of [] \<Rightarrow> [] | c # cs \<Rightarrow> if is_ident_start_char c then c # takeWhile is_ident_body_char cs else [])
            in take len (drop start (t_text t)) = ident \<and> len = length ident \<and> rest t' = drop len s \<and> tok_ok t') \<and>
         (case get_char ch t of (missing, t') \<Rightarrow>
            let s = dropWhile (\<lambda>c. c = 32) (rest t)
            in (missing \<longleftrightarrow> (case s of [] \<Rightarrow> True | c # cs \<Rightarrow> c \<noteq> ch)) \<and> rest t' = (if missing then s else tl s) \<and> tok_ok t')"
proof -
  define u where "u = get_spaces t"
  define s where "s = dropWhile (\<lambda>c. c = 32) (rest t)"
  have u: "tok_ok u" "rest u = s" "t_text u = t_text t" using spaces_ok [OF assms] by (simp_all add: u_def s_def)
  let ?v = "u\<lparr>t_ptr := t_ptr u + 1\<rparr>"
  have "(case get_ident t of ((start, len), t') \<Rightarrow>
            let ident = (case s of [] \<Rightarrow> [] | c # cs \<Rightarrow> if is_ident_start_char c then c # takeWhile is_ident_body_char cs else [])
            in take len (drop start (t_text t)) = ident \<and> len = length ident \<and> rest t' = drop len s \<and> tok_ok t')"
  proof (cases "is_ident_start u")
    case False
    then have "get_ident t = ((t_ptr u, 0), u)" by (simp add: get_ident_def u_def Let_def)
    then show ?thesis using False rest_cases [OF u(1)] u by (auto simp: is_ident_start_def Let_def split: list.splits if_splits)
  next
    case True
    then have e: "\<not> eof u" "is_ident_start_char (t_text u ! t_ptr u)" by (simp_all add: is_ident_start_def)
    have v: "tok_ok ?v" by (rule tok_ok_step [OF u(1) e(1)])
    have s_eq: "s = t_text u ! t_ptr u # rest ?v" using rest_cases [OF u(1)] e(1) u(2) by simp
    define n where "n = length (takeWhile is_ident_body_char (rest ?v))"
    have w: "ident_loop ?v = advance n ?v" unfolding n_def by (rule ident_loop_advance [OF v])
    have le: "n \<le> length (rest ?v)" by (simp add: n_def length_takeWhile_le)
    have gi: "get_ident t = ((t_ptr u, Suc n), advance n ?v)"
      using True w by (simp add: get_ident_def u_def [symmetric] Let_def) (simp add: advance_def)
    have "take (Suc n) (drop (t_ptr u) (t_text u)) = take (Suc n) s"
    proof -
      have "length s \<le> t_end u - t_ptr u" unfolding u(2) [symmetric] rest_def by simp
      then have "Suc n \<le> t_end u - t_ptr u" using le s_eq by simp
      then show ?thesis unfolding u(2) [symmetric] rest_def by (simp add: min_absorb1)
    qed
    also have "\<dots> = t_text u ! t_ptr u # takeWhile is_ident_body_char (rest ?v)" by (simp add: s_eq n_def) (metis takeWhile_eq_take)
    finally have tk: "take (Suc n) (drop (t_ptr u) (t_text t)) = t_text u ! t_ptr u # takeWhile is_ident_body_char (rest ?v)" by (simp add: u(3))
    have "rest (advance n ?v) = drop (Suc n) s" using rest_advance [OF v] by (simp add: s_eq)
    then show ?thesis using gi tk tok_ok_advance [OF v le] e(2) s_eq by (simp add: Let_def n_def)
  qed
  moreover have "(case get_char ch t of (missing, t') \<Rightarrow>
      (missing \<longleftrightarrow> (case s of [] \<Rightarrow> True | c # cs \<Rightarrow> c \<noteq> ch)) \<and> rest t' = (if missing then s else tl s) \<and> tok_ok t')"
    using rest_cases [OF u(1)] u tok_ok_step [OF u(1)] by (auto simp: get_char_def u_def [symmetric] Let_def split: list.splits)
  ultimately show ?thesis unfolding Let_def s_def [symmetric] ..
qed

theorem tokenizer_correct_witness:
  "snd (fst (get_ident (tok_init [32, 97, 49, 61]))) = 2 \<and>
   take 2 (drop (fst (fst (get_ident (tok_init [32, 97, 49, 61])))) ([32, 97, 49, 61] :: uchar list)) = [97, 49]"
proof -
  have "tok_ok (tok_init [32, 97, 49, 61])" "rest (tok_init [32, 97, 49, 61]) = [32, 97, 49, 61]"
    "t_text (tok_init [32, 97, 49, 61]) = [32, 97, 49, 61]" by (simp_all add: tok_ok_def tok_init_def rest_def)
  moreover obtain start len t' where g: "get_ident (tok_init [32, 97, 49, 61]) = ((start, len), t')" by (metis surj_pair)
  ultimately have "take len (drop start [32, 97, 49, 61]) = ([97, 49] :: uchar list)" "len = length ([97, 49] :: uchar list)"
    using tokenizer_correct [of "tok_init [32, 97, 49, 61]" 0]
    by (auto simp: is_ident_start_char_def is_ident_body_char_def Let_def)
  then show ?thesis using g by (simp add: numeral_2_eq_2)
qed

end
