(* ===== verification/Temporal.thy ===== *)
theory Temporal
  imports Sql_Type_Int "HOL-Library.Monad_Syntax" "HOL-Library.Signed_Division"
begin

text \<open>
  The temporal values of the server: the structure of \<open>mysql_time.h\<close>, the inline routines of \<open>my_time.h\<close> and \<open>sql_time.h\<close>, the
  conversion modes of \<open>sql_basic_types.h\<close>, and the fixed-point classes \<open>Sec6\<close>, \<open>Sec9\<close>, \<open>Sec6_add\<close> and the class \<open>Temporal\<close> of
  \<open>sql_type.h\<close>. \<open>ulong\<close> has 32 bits. The result \<^const>\<open>None\<close> is a failed assertion. The routines that the headers only declare are
  the fields of the record \<open>time_lib\<close>; what their declarations and callers document of them is \<open>time_lib_ok\<close>.
\<close>

type_synonym ulong = "32 word"

section \<open>mysql_time.h\<close>

datatype enum_mysql_timestamp_type =
    MYSQL_TIMESTAMP_NONE | MYSQL_TIMESTAMP_ERROR | MYSQL_TIMESTAMP_DATE | MYSQL_TIMESTAMP_DATETIME | MYSQL_TIMESTAMP_TIME

record MYSQL_TIME =
  year :: uint
  month :: uint
  day :: uint
  hour :: uint
  minute :: uint
  second :: uint
  second_part :: ulong
  neg :: bool
  time_type :: enum_mysql_timestamp_type

section \<open>my_time.h\<close>

definition TIME_MAX_INTERVAL_HOUR :: nat where "TIME_MAX_INTERVAL_HOUR = 87649415"
definition TIME_MAX_INTERVAL_DAY :: nat where "TIME_MAX_INTERVAL_DAY = 3652058"
definition TIME_MAX_HOUR :: nat where "TIME_MAX_HOUR = 838"
definition TIME_MAX_MINUTE :: nat where "TIME_MAX_MINUTE = 59"
definition TIME_MAX_SECOND :: nat where "TIME_MAX_SECOND = 59"
definition TIME_MAX_SECOND_PART :: nat where "TIME_MAX_SECOND_PART = 999999"
definition TIME_SECOND_PART_DIGITS :: nat where "TIME_SECOND_PART_DIGITS = 6"
definition TIME_MAX_VALUE_SECONDS :: nat where
  "TIME_MAX_VALUE_SECONDS = TIME_MAX_HOUR * 3600 + TIME_MAX_MINUTE * 60 + TIME_MAX_SECOND"
definition SECONDS_IN_24H :: nat where "SECONDS_IN_24H = 86400"

lemmas time_limits = TIME_MAX_INTERVAL_HOUR_def TIME_MAX_INTERVAL_DAY_def TIME_MAX_HOUR_def TIME_MAX_MINUTE_def TIME_MAX_SECOND_def
  TIME_MAX_SECOND_PART_def TIME_SECOND_PART_DIGITS_def TIME_MAX_VALUE_SECONDS_def SECONDS_IN_24H_def

text \<open>Warnings are bit sets in an \<open>int\<close>.\<close>

type_synonym warn = uint

definition MYSQL_TIME_WARN_OUT_OF_RANGE :: warn where "MYSQL_TIME_WARN_OUT_OF_RANGE = 2"
definition MYSQL_TIME_NOTE_TRUNCATED :: warn where "MYSQL_TIME_NOTE_TRUNCATED = 16"

definition validate_timestamp_range :: "MYSQL_TIME \<Rightarrow> bool" where
  "validate_timestamp_range t =
     (if (year t > 2038 \<or> year t < 1900 + 70 - 1) \<or> (year t = 2038 \<and> (month t > 1 \<or> day t > 19)) \<or>
         (year t = 1900 + 70 - 1 \<and> (month t < 12 \<or> day t < 31))
      then False else True)"

text \<open>The table \<open>log_10_int\<close> is defined outside. Division by zero is undefined.\<close>

definition sec_part_shift :: "(nat \<Rightarrow> ulonglong) \<Rightarrow> longlong \<Rightarrow> nat \<Rightarrow> longlong" where
  "sec_part_shift log_10_int part digits =
     word_of_int (sint part sdiv sint (log_10_int (TIME_SECOND_PART_DIGITS - digits)))"

definition sec_part_unshift :: "(nat \<Rightarrow> ulonglong) \<Rightarrow> longlong \<Rightarrow> nat \<Rightarrow> longlong" where
  "sec_part_unshift log_10_int part digits = part * log_10_int (TIME_SECOND_PART_DIGITS - digits)"

definition my_time_fraction_remainder :: "(nat \<Rightarrow> ulonglong) \<Rightarrow> ulong \<Rightarrow> nat \<Rightarrow> ulong option" where
  "my_time_fraction_remainder log_10_int nr decimals =
     (let p = ucast (log_10_int (TIME_SECOND_PART_DIGITS - decimals)) :: ulong
      in if decimals \<le> TIME_SECOND_PART_DIGITS \<and> p \<noteq> 0 then Some (word_of_int (sint nr smod sint p)) else None)"

definition my_datetime_trunc :: "(nat \<Rightarrow> ulonglong) \<Rightarrow> MYSQL_TIME \<Rightarrow> nat \<Rightarrow> MYSQL_TIME option" where
  "my_datetime_trunc log_10_int ltime decimals = do {
     r \<leftarrow> my_time_fraction_remainder log_10_int (second_part ltime) decimals;
     Some (ltime\<lparr>second_part := second_part ltime - r\<rparr>) }"

definition my_time_trunc :: "(nat \<Rightarrow> ulonglong) \<Rightarrow> MYSQL_TIME \<Rightarrow> nat \<Rightarrow> MYSQL_TIME option" where
  "my_time_trunc log_10_int ltime decimals = do {
     r \<leftarrow> my_time_fraction_remainder log_10_int (second_part ltime) decimals;
     let ltime = ltime\<lparr>second_part := second_part ltime - r\<rparr>;
     Some (if second_part ltime = 0 \<and> neg ltime \<and> hour ltime = 0 \<and> minute ltime = 0 \<and> second ltime = 0
           then ltime\<lparr>neg := False\<rparr> else ltime) }"

section \<open>sql_basic_types.h\<close>

text \<open>The modes are bit sets of 32 bits, the width of the enumerations.\<close>

datatype date_conv_mode_t = Date_conv_mode (dcm: uint)
datatype time_round_mode_t = Time_round_mode (trm: uint)
datatype date_mode_t = Date_mode (dm: uint)

definition FUZZY_DATES :: uint where "FUZZY_DATES = 1"
definition TIME_ONLY :: uint where "TIME_ONLY = 4"
definition INTERVAL_hhmmssff :: uint where "INTERVAL_hhmmssff = 8"
definition INTERVAL_DAY :: uint where "INTERVAL_DAY = 16"
definition NO_ZERO_IN_DATE :: uint where "NO_ZERO_IN_DATE = push_bit 23 1"
definition NO_ZERO_DATE :: uint where "NO_ZERO_DATE = push_bit 24 1"
definition INVALID_DATES :: uint where "INVALID_DATES = push_bit 25 1"
definition FRAC_NONE :: uint where "FRAC_NONE = 0"
definition FRAC_TRUNCATE :: uint where "FRAC_TRUNCATE = push_bit 1 INTERVAL_DAY"
definition FRAC_ROUND :: uint where "FRAC_ROUND = push_bit 2 INTERVAL_DAY"

definition DATE_KNOWN_MODES :: uint where
  "DATE_KNOWN_MODES = FUZZY_DATES OR TIME_ONLY OR INTERVAL_hhmmssff OR INTERVAL_DAY OR NO_ZERO_IN_DATE OR NO_ZERO_DATE OR INVALID_DATES"

definition ROUND_KNOWN_MODES :: uint where "ROUND_KNOWN_MODES = FRAC_TRUNCATE OR FRAC_ROUND"

definition make_date_conv_mode :: "ulonglong \<Rightarrow> date_conv_mode_t" where
  "make_date_conv_mode fuzzydate = Date_conv_mode (ucast fuzzydate)"

definition make_time_round_mode :: "ulonglong \<Rightarrow> time_round_mode_t option" where
  "make_time_round_mode mode =
     (if mode = ucast FRAC_NONE \<or> mode = ucast FRAC_TRUNCATE \<or> mode = ucast FRAC_ROUND
      then Some (Time_round_mode (ucast mode)) else None)"

definition make_date_mode :: "ulonglong \<Rightarrow> date_mode_t" where
  "make_date_mode fuzzydate = Date_mode (ucast fuzzydate)"

definition conv_mode_ulonglong :: "date_conv_mode_t \<Rightarrow> ulonglong" where "conv_mode_ulonglong m = ucast (dcm m)"
definition conv_mode_bool :: "date_conv_mode_t \<Rightarrow> bool" where "conv_mode_bool m \<longleftrightarrow> dcm m \<noteq> 0"
definition round_mode_ulonglong :: "time_round_mode_t \<Rightarrow> ulonglong" where "round_mode_ulonglong m = ucast (trm m)"
definition date_mode_ulonglong :: "date_mode_t \<Rightarrow> ulonglong" where "date_mode_ulonglong m = ucast (dm m)"

definition conv_mode_and :: "date_conv_mode_t \<Rightarrow> date_conv_mode_t \<Rightarrow> date_conv_mode_t" where
  "conv_mode_and a b = make_date_conv_mode (ucast (dcm a AND dcm b))"

definition conv_mode_or :: "date_conv_mode_t \<Rightarrow> date_conv_mode_t \<Rightarrow> date_conv_mode_t" where
  "conv_mode_or a b = make_date_conv_mode (ucast (dcm a OR dcm b))"

definition date_mode_conv :: "date_mode_t \<Rightarrow> date_conv_mode_t" where
  "date_mode_conv m = make_date_conv_mode (date_mode_ulonglong m AND ucast DATE_KNOWN_MODES)"

definition date_mode_round :: "date_mode_t \<Rightarrow> time_round_mode_t option" where
  "date_mode_round m = make_time_round_mode (date_mode_ulonglong m AND ucast ROUND_KNOWN_MODES)"

definition conv_round_or :: "date_conv_mode_t \<Rightarrow> time_round_mode_t \<Rightarrow> date_mode_t" where
  "conv_round_or a b = make_date_mode (conv_mode_ulonglong a OR round_mode_ulonglong b)"

definition date_mode_and_conv :: "date_mode_t \<Rightarrow> date_conv_mode_t \<Rightarrow> date_conv_mode_t" where
  "date_mode_and_conv a b = make_date_conv_mode (date_mode_ulonglong a AND conv_mode_ulonglong b)"

definition TIME_MODE_FOR_XXX_TO_DATE :: date_conv_mode_t where
  "TIME_MODE_FOR_XXX_TO_DATE = Date_conv_mode (NO_ZERO_IN_DATE OR NO_ZERO_DATE OR INVALID_DATES)"

definition TIME_INVALID_DATES :: date_conv_mode_t where "TIME_INVALID_DATES = Date_conv_mode INVALID_DATES"
definition TIME_FUZZY_DATES :: date_conv_mode_t where "TIME_FUZZY_DATES = Date_conv_mode FUZZY_DATES"
definition TIME_TIME_ONLY :: date_conv_mode_t where "TIME_TIME_ONLY = Date_conv_mode TIME_ONLY"
definition TIME_FRAC_ROUND :: time_round_mode_t where "TIME_FRAC_ROUND = Time_round_mode FRAC_ROUND"
definition TIME_FRAC_TRUNCATE :: time_round_mode_t where "TIME_FRAC_TRUNCATE = Time_round_mode FRAC_TRUNCATE"
definition TIME_FRAC_NONE :: time_round_mode_t where "TIME_FRAC_NONE = Time_round_mode FRAC_NONE"

section \<open>sql_time.h\<close>

definition datetime_to_date :: "MYSQL_TIME \<Rightarrow> MYSQL_TIME option" where
  "datetime_to_date ltime =
     (if (time_type ltime = MYSQL_TIMESTAMP_DATE \<or> time_type ltime = MYSQL_TIMESTAMP_DATETIME) \<and> \<not> neg ltime
      then Some (ltime\<lparr>second_part := 0, hour := 0, minute := 0, second := 0, time_type := MYSQL_TIMESTAMP_DATE\<rparr>) else None)"

definition date_to_datetime :: "MYSQL_TIME \<Rightarrow> MYSQL_TIME option" where
  "date_to_datetime ltime =
     (if (time_type ltime = MYSQL_TIMESTAMP_DATE \<or> time_type ltime = MYSQL_TIMESTAMP_DATETIME) \<and> \<not> neg ltime
      then Some (ltime\<lparr>time_type := MYSQL_TIMESTAMP_DATETIME\<rparr>) else None)"

definition non_zero_hhmmssuu :: "MYSQL_TIME \<Rightarrow> bool" where
  "non_zero_hhmmssuu ltime \<longleftrightarrow> hour ltime \<noteq> 0 \<or> minute ltime \<noteq> 0 \<or> second ltime \<noteq> 0 \<or> second_part ltime \<noteq> 0"

definition non_zero_YYMMDD :: "MYSQL_TIME \<Rightarrow> bool" where
  "non_zero_YYMMDD ltime \<longleftrightarrow> year ltime \<noteq> 0 \<or> month ltime \<noteq> 0 \<or> day ltime \<noteq> 0"

definition non_zero_date :: "MYSQL_TIME \<Rightarrow> bool" where
  "non_zero_date ltime \<longleftrightarrow>
     non_zero_YYMMDD ltime \<or> (time_type ltime = MYSQL_TIMESTAMP_DATETIME \<and> non_zero_hhmmssuu ltime)"

section \<open>The routines defined elsewhere\<close>

record Sec6 =
  m_sec :: ulonglong
  m_usec :: ulong
  m_neg :: bool
  m_truncated :: bool

text \<open>An output parameter is an argument with its old value and a component of the result with the new one; an \<open>int\<close> that is only
  tested is a truth value.\<close>

record time_lib =
  log_10_int :: "nat \<Rightarrow> ulonglong"
  set_zero_time :: "MYSQL_TIME \<Rightarrow> enum_mysql_timestamp_type \<Rightarrow> MYSQL_TIME"
  check_time_range :: "MYSQL_TIME \<Rightarrow> nat \<Rightarrow> warn \<Rightarrow> bool \<times> MYSQL_TIME \<times> warn"
  check_datetime_range :: "MYSQL_TIME \<Rightarrow> bool"
  number_to_datetime_or_date :: "longlong \<Rightarrow> ulong \<Rightarrow> MYSQL_TIME \<Rightarrow> ulonglong \<Rightarrow> warn \<Rightarrow> longlong \<times> MYSQL_TIME \<times> warn"
  number_to_time_only :: "bool \<Rightarrow> ulonglong \<Rightarrow> ulong \<Rightarrow> nat \<Rightarrow> MYSQL_TIME \<Rightarrow> warn \<Rightarrow> bool \<times> MYSQL_TIME \<times> warn"
  calc_time_diff :: "MYSQL_TIME \<Rightarrow> MYSQL_TIME \<Rightarrow> int \<Rightarrow> date_mode_t \<Rightarrow> bool \<times> MYSQL_TIME"
  calc_time_diff_sec :: "MYSQL_TIME \<Rightarrow> MYSQL_TIME \<Rightarrow> int \<Rightarrow> bool \<times> ulonglong \<times> ulong"
  set_current_date :: MYSQL_TIME
  time_round_or_set_max_nsec :: "nat \<Rightarrow> warn \<Rightarrow> ulong \<Rightarrow> MYSQL_TIME \<Rightarrow> MYSQL_TIME \<times> warn"
  time_round_or_set_max :: "nat \<Rightarrow> warn \<Rightarrow> MYSQL_TIME \<Rightarrow> MYSQL_TIME \<times> warn"
  datetime_round_or_invalidate :: "nat \<Rightarrow> warn \<Rightarrow> ulong \<Rightarrow> MYSQL_TIME \<Rightarrow> bool \<times> MYSQL_TIME \<times> warn"
  datetime_round :: "nat \<Rightarrow> warn \<Rightarrow> MYSQL_TIME \<Rightarrow> bool \<times> MYSQL_TIME \<times> warn"
  calc_daynr :: "uint \<Rightarrow> uint \<Rightarrow> uint \<Rightarrow> ulong"

section \<open>Sec6\<close>

definition make_from_int :: "Longlong_hybrid \<Rightarrow> Sec6" where
  "make_from_int nr = \<lparr>m_sec = hybrid_abs nr, m_usec = 0, m_neg = hybrid_neg nr, m_truncated = False\<rparr>"

definition sec6_reset :: Sec6 where
  "sec6_reset = \<lparr>m_sec = 0, m_usec = 0, m_neg = False, m_truncated = False\<rparr>"

definition sec6_add_nanoseconds :: "uint \<Rightarrow> Sec6 \<Rightarrow> (bool \<times> Sec6) option" where
  "sec6_add_nanoseconds nanoseconds s =
     (if \<not> nanoseconds \<le> 1000000000 then None
      else if nanoseconds < 500 then Some (False, s)
      else let s = s\<lparr>m_usec := m_usec s + (nanoseconds + 500) div 1000\<rparr>
           in if m_usec s < 1000000 then Some (False, s) else Some (True, s\<lparr>m_usec := m_usec s mod 1000000\<rparr>))"

definition to_interval_hhmmssff_only :: "time_lib \<Rightarrow> Sec6 \<Rightarrow> MYSQL_TIME \<Rightarrow> warn \<Rightarrow> bool \<times> MYSQL_TIME \<times> warn" where
  "to_interval_hhmmssff_only L s to warn = number_to_time_only L (m_neg s) (m_sec s) (m_usec s) TIME_MAX_INTERVAL_HOUR to warn"

definition to_datetime_or_date ::
  "time_lib \<Rightarrow> Sec6 \<Rightarrow> MYSQL_TIME \<Rightarrow> warn \<Rightarrow> date_conv_mode_t \<Rightarrow> (bool \<times> MYSQL_TIME \<times> warn) option" where
  "to_datetime_or_date L s to warn flags =
     (if m_neg s then Some (True, to, MYSQL_TIME_WARN_OUT_OF_RANGE)
      else let (r, to, warn) = number_to_datetime_or_date L (m_sec s) (m_usec s) to
                 (conv_mode_ulonglong (conv_mode_and flags TIME_MODE_FOR_XXX_TO_DATE)) warn;
               rc = (r = -1)
           in if warn \<noteq> 0 \<or> \<not> rc then Some (rc, to, warn) else None)"

definition to_datetime_or_to_interval_hhmmssff ::
  "time_lib \<Rightarrow> Sec6 \<Rightarrow> MYSQL_TIME \<Rightarrow> warn \<Rightarrow> (bool \<times> MYSQL_TIME \<times> warn) option" where
  "to_datetime_or_to_interval_hhmmssff L s to warn =
     (if \<not> TIME_MAX_INTERVAL_HOUR \<le> 999999995959 then None
      else if m_sec s > 999999995959 \<and> m_sec s \<le> 99991231235959 \<and> \<not> m_neg s
      then to_datetime_or_date L s to warn TIME_INVALID_DATES
      else if m_sec s div 10000 > of_nat TIME_MAX_INTERVAL_HOUR then Some (True, to, MYSQL_TIME_WARN_OUT_OF_RANGE)
      else Some (to_interval_hhmmssff_only L s to warn))"

definition to_datetime_or_time ::
  "time_lib \<Rightarrow> Sec6 \<Rightarrow> MYSQL_TIME \<Rightarrow> warn \<Rightarrow> date_conv_mode_t \<Rightarrow> (bool \<times> MYSQL_TIME \<times> warn) option" where
  "to_datetime_or_time L s to warn mode =
     (let (rc, to, warn) =
        (if m_sec s > 9999999 \<and> m_sec s \<le> 99991231235959 \<and> \<not> m_neg s
         then let (r, to, warn) = number_to_datetime_or_date L (m_sec s) (m_usec s) to
                    (conv_mode_ulonglong (conv_mode_and mode TIME_MODE_FOR_XXX_TO_DATE)) warn
              in (sint r < 0, to, warn)
         else number_to_time_only L (m_neg s) (m_sec s) (m_usec s) TIME_MAX_HOUR to warn)
      in if warn \<noteq> 0 \<or> \<not> rc then Some (rc, to, warn) else None)"

text \<open>The variable \<open>unused\<close> that takes the warning is not initialised; its first value is an argument.\<close>

definition sec_to_time :: "time_lib \<Rightarrow> warn \<Rightarrow> Sec6 \<Rightarrow> MYSQL_TIME \<Rightarrow> nat \<Rightarrow> (bool \<times> MYSQL_TIME) option" where
  "sec_to_time L unused s ltime dec =
     (let ltime = set_zero_time L ltime MYSQL_TIMESTAMP_TIME;
          ltime = ltime\<lparr>neg := m_neg s\<rparr>
      in if m_sec s > of_nat TIME_MAX_VALUE_SECONDS
         then let ltime = ltime\<lparr>hour := of_nat TIME_MAX_HOUR + 1\<rparr>;
                  (_, ltime, _) = check_time_range L ltime dec unused
              in Some (True, ltime)
         else if sint (m_usec s) \<le> int TIME_MAX_SECOND_PART
         then Some (False, ltime\<lparr>hour := ucast (m_sec s div 3600), minute := ucast (m_sec s mod 3600) div 60,
                                 second := ucast (m_sec s) mod 60, second_part := m_usec s\<rparr>)
         else None)"

definition sec6_trunc :: "time_lib \<Rightarrow> Sec6 \<Rightarrow> nat \<Rightarrow> Sec6 option" where
  "sec6_trunc L s dec = do {
     r \<leftarrow> my_time_fraction_remainder (log_10_int L) (m_usec s) dec;
     Some (s\<lparr>m_usec := m_usec s - r\<rparr>) }"

section \<open>Sec6_add\<close>

record Sec6_add =
  a_sec :: ulonglong
  a_usec :: ulong
  a_neg :: bool

text \<open>The members other than \<open>m_error\<close> are not set when it is: \<^term>\<open>Some None\<close>. \<^const>\<open>None\<close> is a failed assertion.\<close>

definition make_Sec6_add :: "time_lib \<Rightarrow> MYSQL_TIME \<Rightarrow> MYSQL_TIME \<Rightarrow> int \<Rightarrow> Sec6_add option option" where
  "make_Sec6_add L ltime1 ltime2 sign =
     (if \<not> (sign = -1 \<or> sign = 1) \<or> \<not> (\<not> neg ltime1 \<or> time_type ltime1 = MYSQL_TIMESTAMP_TIME) then None
      else if time_type ltime2 \<noteq> MYSQL_TIMESTAMP_TIME then Some None
      else let sign = (if neg ltime1 \<noteq> neg ltime2 then - sign else sign);
               (n, sec, usec) = calc_time_diff_sec L ltime1 ltime2 (- sign);
               n = (if neg ltime1 \<and> (sec \<noteq> 0 \<or> usec \<noteq> 0) then \<not> n else n)
           in Some (Some \<lparr>a_sec = sec, a_usec = usec, a_neg = n\<rparr>))"

definition to_days_abs :: "Sec6_add \<Rightarrow> ulong" where
  "to_days_abs a = ucast (a_sec a div of_nat SECONDS_IN_24H)"

section \<open>Temporal\<close>

definition is_valid_temporal :: "MYSQL_TIME \<Rightarrow> bool option" where
  "is_valid_temporal t = (if time_type t \<noteq> MYSQL_TIMESTAMP_ERROR then Some (time_type t \<noteq> MYSQL_TIMESTAMP_NONE) else None)"

definition type_name_by_timestamp_type :: "enum_mysql_timestamp_type \<Rightarrow> string" where
  "type_name_by_timestamp_type ty = (case ty of
     MYSQL_TIMESTAMP_DATE \<Rightarrow> ''date'' | MYSQL_TIMESTAMP_TIME \<Rightarrow> ''time'' | _ \<Rightarrow> ''datetime'')"

definition make_fuzzy_date :: "time_lib \<Rightarrow> date_conv_mode_t \<Rightarrow> MYSQL_TIME \<Rightarrow> MYSQL_TIME" where
  "make_fuzzy_date L fuzzydate t =
     set_zero_time L t (if \<not> conv_mode_bool (conv_mode_and fuzzydate TIME_FUZZY_DATES) then MYSQL_TIMESTAMP_NONE
       else if conv_mode_bool (conv_mode_and fuzzydate TIME_TIME_ONLY) then MYSQL_TIMESTAMP_TIME else MYSQL_TIMESTAMP_DATETIME)"

definition make_from_out_of_range :: "MYSQL_TIME \<Rightarrow> MYSQL_TIME \<times> warn" where
  "make_from_out_of_range t = (t\<lparr>time_type := MYSQL_TIMESTAMP_NONE\<rparr>, MYSQL_TIME_WARN_OUT_OF_RANGE)"

definition has_valid_mmssff :: "MYSQL_TIME \<Rightarrow> bool" where
  "has_valid_mmssff t \<longleftrightarrow> unat (minute t) \<le> TIME_MAX_MINUTE \<and> unat (second t) \<le> TIME_MAX_SECOND \<and>
     unat (second_part t) \<le> TIME_MAX_SECOND_PART"

definition has_zero_YYYYMM :: "MYSQL_TIME \<Rightarrow> bool" where
  "has_zero_YYYYMM t \<longleftrightarrow> year t = 0 \<and> month t = 0"

definition has_zero_YYYYMMDD :: "MYSQL_TIME \<Rightarrow> bool" where
  "has_zero_YYYYMMDD t \<longleftrightarrow> year t = 0 \<and> month t = 0 \<and> day t = 0"

definition time_hhmmssff_set_max :: "uint \<Rightarrow> MYSQL_TIME \<Rightarrow> MYSQL_TIME" where
  "time_hhmmssff_set_max max_hour t =
     t\<lparr>hour := max_hour, minute := of_nat TIME_MAX_MINUTE, second := of_nat TIME_MAX_SECOND, second_part := of_nat TIME_MAX_SECOND_PART\<rparr>"

definition add_nanoseconds_ssff :: "uint \<Rightarrow> MYSQL_TIME \<Rightarrow> (bool \<times> MYSQL_TIME) option" where
  "add_nanoseconds_ssff nanoseconds t =
     (if \<not> nanoseconds \<le> 1000000000 then None
      else if nanoseconds < 500 then Some (False, t)
      else let t = t\<lparr>second_part := second_part t + (nanoseconds + 500) div 1000\<rparr>
           in if second_part t < 1000000 then Some (False, t)
              else let t = t\<lparr>second_part := second_part t mod 1000000\<rparr>
                   in if second t < 59 then Some (False, t\<lparr>second := second t + 1\<rparr>)
                      else Some (True, t\<lparr>second := 0\<rparr>))"

definition add_nanoseconds_mmssff :: "uint \<Rightarrow> MYSQL_TIME \<Rightarrow> (bool \<times> MYSQL_TIME) option" where
  "add_nanoseconds_mmssff nanoseconds t = do {
     (carry, t) \<leftarrow> add_nanoseconds_ssff nanoseconds t;
     if \<not> carry then Some (False, t)
     else if minute t < 59 then Some (False, t\<lparr>minute := minute t + 1\<rparr>)
     else Some (True, t\<lparr>minute := 0\<rparr>) }"

definition temporal_fraction_remainder :: "time_lib \<Rightarrow> MYSQL_TIME \<Rightarrow> nat \<Rightarrow> ulong option" where
  "temporal_fraction_remainder L t dec = my_time_fraction_remainder (log_10_int L) (second_part t) dec"

section \<open>The values\<close>

text \<open>The ranges that \<open>mysql_time.h\<close> states for a normalized date with time, and the range of the TIME type.\<close>

definition normalized :: "MYSQL_TIME \<Rightarrow> bool" where
  "normalized t \<longleftrightarrow> year t \<le> 9999 \<and> month t \<le> 12 \<and> day t \<le> 31 \<and> hour t \<le> 23 \<and> has_valid_mmssff t"

definition valid_TIME :: "MYSQL_TIME \<Rightarrow> bool" where
  "valid_TIME t \<longleftrightarrow> time_type t = MYSQL_TIMESTAMP_TIME \<and> has_zero_YYYYMMDD t \<and> unat (hour t) \<le> TIME_MAX_HOUR \<and> has_valid_mmssff t"

definition valid_date_or_datetime :: "MYSQL_TIME \<Rightarrow> bool" where
  "valid_date_or_datetime t \<longleftrightarrow>
     (time_type t = MYSQL_TIMESTAMP_DATE \<or> time_type t = MYSQL_TIMESTAMP_DATETIME) \<and> normalized t \<and> \<not> neg t"

definition valid_DATETIME :: "MYSQL_TIME \<Rightarrow> bool" where
  "valid_DATETIME t \<longleftrightarrow> time_type t = MYSQL_TIMESTAMP_DATETIME \<and> normalized t \<and> \<not> neg t"

text \<open>The valid states of the classes \<open>Time\<close> and \<open>Datetime\<close>: a valid value of the type, or none.\<close>

definition time_state :: "MYSQL_TIME \<Rightarrow> bool" where
  "time_state t \<longleftrightarrow> time_type t = MYSQL_TIMESTAMP_NONE \<or> valid_TIME t"

definition datetime_state :: "MYSQL_TIME \<Rightarrow> bool" where
  "datetime_state t \<longleftrightarrow> time_type t = MYSQL_TIMESTAMP_NONE \<or> valid_DATETIME t"

definition zero_time :: "enum_mysql_timestamp_type \<Rightarrow> MYSQL_TIME" where
  "zero_time ty = \<lparr>year = 0, month = 0, day = 0, hour = 0, minute = 0, second = 0, second_part = 0, neg = False, time_type = ty\<rparr>"

text \<open>The parts of a conversion's documented behaviour: a failure leaves a warning, a success a valid value.\<close>

definition number_to_datetime_ok :: "time_lib \<Rightarrow> bool" where
  "number_to_datetime_ok L \<longleftrightarrow> (\<forall>nr sec_part to flags w.
     case number_to_datetime_or_date L nr sec_part to flags w of (r, to', w') \<Rightarrow>
       if sint r < 0 then r = -1 \<and> w' \<noteq> 0 else valid_date_or_datetime to')"

definition number_to_time_ok :: "time_lib \<Rightarrow> bool" where
  "number_to_time_ok L \<longleftrightarrow> (\<forall>n nr sec_part to w.
     case number_to_time_only L n nr sec_part TIME_MAX_HOUR to w of (rc, to', w') \<Rightarrow> if rc then w' \<noteq> 0 else valid_TIME to')"

text \<open>\<open>check_time_range\<close> replaces a time out of range by the largest one of its sign.\<close>

definition check_time_range_ok :: "time_lib \<Rightarrow> bool" where
  "check_time_range_ok L \<longleftrightarrow> (\<forall>t dec w. time_type t = MYSQL_TIMESTAMP_TIME \<and> has_zero_YYYYMMDD t \<and> has_valid_mmssff t \<longrightarrow>
     (let t' = fst (snd (check_time_range L t dec w)) in valid_TIME t' \<and> neg t' = neg t))"

definition calc_time_diff_ok :: "time_lib \<Rightarrow> bool" where
  "calc_time_diff_ok L \<longleftrightarrow> (\<forall>t1 t2 sg mode. let t = snd (calc_time_diff L t1 t2 sg mode)
     in time_type t = MYSQL_TIMESTAMP_TIME \<and> has_zero_YYYYMMDD t \<and> has_valid_mmssff t)"

definition rounding_ok :: "time_lib \<Rightarrow> bool" where
  "rounding_ok L \<longleftrightarrow>
     (\<forall>dec w nsec t. valid_TIME t \<longrightarrow> valid_TIME (fst (time_round_or_set_max_nsec L dec w nsec t))) \<and>
     (\<forall>dec w t. valid_TIME t \<longrightarrow> valid_TIME (fst (time_round_or_set_max L dec w t))) \<and>
     (\<forall>dec w nsec t. valid_DATETIME t \<longrightarrow> datetime_state (fst (snd (datetime_round_or_invalidate L dec w nsec t)))) \<and>
     (\<forall>dec w t. valid_DATETIME t \<longrightarrow> datetime_state (fst (snd (datetime_round L dec w t))))"

definition time_lib_ok :: "time_lib \<Rightarrow> bool" where
  "time_lib_ok L \<longleftrightarrow> (\<forall>i < 20. log_10_int L i = 10 ^ i) \<and> (\<forall>t ty. set_zero_time L t ty = zero_time ty) \<and>
     (\<forall>t. time_type t = MYSQL_TIMESTAMP_DATE \<or> time_type t = MYSQL_TIMESTAMP_DATETIME \<longrightarrow> (check_datetime_range L t \<longleftrightarrow> \<not> normalized t)) \<and>
     number_to_datetime_ok L \<and> number_to_time_ok L \<and> check_time_range_ok L \<and> calc_time_diff_ok L \<and> rounding_ok L"

lemma time_lib_okD:
  assumes "time_lib_ok L"
  shows "i < 20 \<Longrightarrow> log_10_int L i = 10 ^ i" "set_zero_time L t ty = zero_time ty"
    "time_type t = MYSQL_TIMESTAMP_DATE \<or> time_type t = MYSQL_TIMESTAMP_DATETIME \<Longrightarrow> check_datetime_range L t \<longleftrightarrow> \<not> normalized t"
    "number_to_datetime_ok L" "number_to_time_ok L" "check_time_range_ok L" "calc_time_diff_ok L" "rounding_ok L"
  using assms unfolding time_lib_ok_def by blast+

section \<open>Fractions of a second\<close>

lemma fraction_remainder_value:
  assumes "\<forall>i < 20. log i = (10 :: ulonglong) ^ i" "unat nr < 2 ^ 31" "d \<le> 6"
  shows "my_time_fraction_remainder log nr d = Some (of_nat (unat nr mod 10 ^ (6 - d)))"
proof -
  define p :: ulong where "p = ucast (log (6 - d))"
  have "6 - d \<in> {0, 1, 2, 3, 4, 5, 6}" by auto
  then have u: "unat p = 10 ^ (6 - d)" using assms(1) by (auto simp: p_def unsigned_ucast_eq)
  have small: "(10 :: nat) ^ (6 - d) < 2 ^ 31" using power_increasing [of "6 - d" 6 "10 :: nat"] by simp
  have "sint nr = int (unat nr)" using assms(2) by (rule sint_unat_32)
  moreover have "sint p = int (unat p)" by (rule sint_unat_32) (use small u in simp)
  moreover have "int a smod int b = int (a mod b)" for a b :: nat
    by (simp add: signed_modulo_int_def sgn_if zmod_int)
  ultimately have "(word_of_int (sint nr smod sint p) :: ulong) = of_nat (unat nr mod unat p)" by (simp only: of_int_of_nat_eq)
  moreover have "p \<noteq> 0" using u by auto
  ultimately show ?thesis using assms(3) u by (simp add: my_time_fraction_remainder_def TIME_SECOND_PART_DIGITS_def p_def Let_def)
qed

text \<open>What truncation to \<open>d\<close> digits keeps of the microseconds.\<close>

definition trunc_usec :: "nat \<Rightarrow> nat \<Rightarrow> nat" where
  "trunc_usec d n = n div 10 ^ (6 - d) * 10 ^ (6 - d)"

lemma trunc_usec_le [simp]: "trunc_usec d n \<le> n"
  by (simp add: trunc_usec_def)

lemma fraction_remainder_trunc:
  assumes "\<forall>i < 20. log i = (10 :: ulonglong) ^ i" "unat nr < 2 ^ 31" "d \<le> 6"
  obtains r where "my_time_fraction_remainder log nr d = Some r" "unat (nr - r) = trunc_usec d (unat nr)"
proof
  let ?r = "of_nat (unat nr mod 10 ^ (6 - d)) :: ulong"
  show "my_time_fraction_remainder log nr d = Some ?r" by (rule fraction_remainder_value [OF assms])
  have le: "unat nr mod 10 ^ (6 - d) \<le> unat nr" by simp
  then have "unat nr mod 10 ^ (6 - d) < 2 ^ LENGTH(32)" using unat_bound [of nr] by (rule le_less_trans)
  then have ru: "unat ?r = unat nr mod 10 ^ (6 - d)" unfolding unat_of_nat by (rule mod_less)
  then have "?r \<le> nr" using le by (simp add: word_le_nat_alt)
  then have "unat (nr - ?r) = unat nr - unat ?r" by (rule unat_sub)
  then show "unat (nr - ?r) = trunc_usec d (unat nr)"
    using ru by (simp add: trunc_usec_def minus_mod_eq_div_mult)
qed

lemma my_time_trunc_value:
  assumes "\<forall>i < 20. log i = (10 :: ulonglong) ^ i" "has_valid_mmssff t" "d \<le> 6"
  obtains t' where "my_time_trunc log t d = Some t'" "unat (second_part t') = trunc_usec d (unat (second_part t))"
    "t' = t\<lparr>second_part := second_part t', neg := neg t \<and> non_zero_hhmmssuu t'\<rparr>"
proof -
  have "unat (second_part t) < 2 ^ 31" using assms(2) by (simp add: has_valid_mmssff_def time_limits)
  from fraction_remainder_trunc [OF assms(1) this assms(3)] obtain r
    where r: "my_time_fraction_remainder log (second_part t) d = Some r"
      "unat (second_part t - r) = trunc_usec d (unat (second_part t))" .
  let ?t = "t\<lparr>second_part := second_part t - r\<rparr>"
  let ?t' = "?t\<lparr>neg := neg t \<and> non_zero_hhmmssuu ?t\<rparr>"
  have "my_time_trunc log t d = Some ?t'" by (auto simp: my_time_trunc_def r(1) Let_def non_zero_hhmmssuu_def)
  then show thesis by (rule that) (use r(2) in \<open>simp_all add: non_zero_hhmmssuu_def\<close>)
qed

lemma my_datetime_trunc_value:
  assumes "\<forall>i < 20. log i = (10 :: ulonglong) ^ i" "has_valid_mmssff t" "d \<le> 6"
  obtains s where "my_datetime_trunc log t d = Some (t\<lparr>second_part := s\<rparr>)" "unat s = trunc_usec d (unat (second_part t))"
proof -
  have "unat (second_part t) < 2 ^ 31" using assms(2) by (simp add: has_valid_mmssff_def time_limits)
  from fraction_remainder_trunc [OF assms(1) this assms(3)] obtain r
    where r: "my_time_fraction_remainder log (second_part t) d = Some r"
      "unat (second_part t - r) = trunc_usec d (unat (second_part t))" .
  show thesis by (rule that [OF _ r(2)]) (simp add: my_datetime_trunc_def r(1))
qed

section \<open>Nanoseconds\<close>

text \<open>The carry of a fraction of at most 999999 microseconds and of at most a second of nanoseconds.\<close>

lemma add_nanoseconds_carry:
  fixes u ns :: uint
  assumes "unat u \<le> 999999" "ns \<le> 1000000000"
  defines "v \<equiv> u + (ns + 500) div 1000"
  shows "unat v = unat u + (unat ns + 500) div 1000" "unat (v mod 1000000) = unat v mod 1000000"
    "unat v < 2000000"
proof -
  have "unat ns \<le> 1000000000" using assms(2) by (simp add: word_le_nat_alt)
  then have "unat (ns + 500) = unat ns + 500" by (simp add: unat_word_ariths)
  then have q: "unat ((ns + 500) div 1000) = (unat ns + 500) div 1000" by (simp add: unat_div)
  have "(unat ns + 500) div 1000 \<le> 1000000" using \<open>unat ns \<le> 1000000000\<close> by (simp add: div_le_mono less_mult_imp_div_less flip: less_Suc_eq_le)
  then show "unat v = unat u + (unat ns + 500) div 1000" "unat v < 2000000"
    using assms(1) q unfolding v_def by (simp_all add: unat_word_ariths)
  show "unat (v mod 1000000) = unat v mod 1000000" by (simp add: unat_mod)
qed

definition mmssff_usecs :: "MYSQL_TIME \<Rightarrow> nat" where
  "mmssff_usecs t = (unat (minute t) * 60 + unat (second t)) * 1000000 + unat (second_part t)"

lemma add_nanoseconds_ssff_value:
  assumes "has_valid_mmssff t" "ns \<le> 1000000000"
  obtains c t' where "add_nanoseconds_ssff ns t = Some (c, t')"
    "unat (second t') * 1000000 + unat (second_part t') + (if c then 60000000 else 0)
       = unat (second t) * 1000000 + unat (second_part t) + (unat ns + 500) div 1000"
    "unat (second t') \<le> 59" "unat (second_part t') \<le> 999999" "t' = t\<lparr>second := second t', second_part := second_part t'\<rparr>"
proof -
  let ?v = "second_part t + (ns + 500) div 1000"
  let ?c = "unat (second t) * 1000000 + unat (second_part t)"
  have b: "unat (second t) \<le> 59" "unat (second_part t) \<le> 999999" using assms(1) by (simp_all add: has_valid_mmssff_def time_limits)
  note v = add_nanoseconds_carry [OF b(2) assms(2)]
  consider (none) "ns < 500" | (plain) "\<not> ns < 500" "?v < 1000000"
    | (sec) "\<not> ns < 500" "\<not> ?v < 1000000" "second t < 59" | (min) "\<not> ns < 500" "\<not> ?v < 1000000" "\<not> second t < 59"
    by blast
  then show thesis
  proof cases
    case none
    then have "(unat ns + 500) div 1000 = 0" by (simp add: word_less_nat_alt)
    with none show thesis using b assms(2) by (intro that [of False t]) (simp_all add: add_nanoseconds_ssff_def)
  next
    case plain
    then have "unat ?v \<le> 999999" by (simp add: word_less_nat_alt)
    with plain show thesis using b assms(2) v(1)
      by (intro that [of False "t\<lparr>second_part := ?v\<rparr>"]) (simp_all add: add_nanoseconds_ssff_def)
  next
    case sec
    then have m: "unat (?v mod 1000000) = unat ?v - 1000000" "1000000 \<le> unat ?v"
      using v(2,3) by (simp_all add: word_less_nat_alt mod_if)
    have s: "unat (second t + 1) = unat (second t) + 1" using sec(3) by (intro unat_incr [where v = 59]) (simp add: word_less_nat_alt)
    show thesis using sec b assms(2) v(1,3) m s
      by (intro that [of False "t\<lparr>second_part := ?v mod 1000000, second := second t + 1\<rparr>"])
        (simp_all add: add_nanoseconds_ssff_def word_less_nat_alt)
  next
    case min
    then have m: "unat (?v mod 1000000) = unat ?v - 1000000" "1000000 \<le> unat ?v" "unat (second t) = 59"
      using v(2,3) b(1) by (simp_all add: word_less_nat_alt mod_if)
    show thesis using min b assms(2) v(1,3) m
      by (intro that [of True "t\<lparr>second_part := ?v mod 1000000, second := 0\<rparr>"])
        (simp_all add: add_nanoseconds_ssff_def word_less_nat_alt)
  qed
qed

lemma add_nanoseconds_mmssff_value:
  assumes "has_valid_mmssff t" "ns \<le> 1000000000"
  obtains c t' where "add_nanoseconds_mmssff ns t = Some (c, t')" "has_valid_mmssff t'"
    "mmssff_usecs t' + (if c then 3600000000 else 0) = mmssff_usecs t + (unat ns + 500) div 1000"
    "t' = t\<lparr>minute := minute t', second := second t', second_part := second_part t'\<rparr>"
proof -
  have b: "unat (minute t) \<le> 59" using assms(1) by (simp add: has_valid_mmssff_def time_limits)
  from add_nanoseconds_ssff_value [OF assms] obtain c u
    where u: "add_nanoseconds_ssff ns t = Some (c, u)"
      "unat (second u) * 1000000 + unat (second_part u) + (if c then 60000000 else 0)
         = unat (second t) * 1000000 + unat (second_part t) + (unat ns + 500) div 1000"
      "unat (second u) \<le> 59" "unat (second_part u) \<le> 999999" "u = t\<lparr>second := second u, second_part := second_part u\<rparr>" .
  have mu: "minute u = minute t" by (subst u(5)) simp
  have ue: "u\<lparr>minute := m\<rparr> = t\<lparr>minute := m, second := second u, second_part := second_part u\<rparr>" for m
    by (subst u(5)) simp
  have un: "u = t\<lparr>minute := minute u, second := second u, second_part := second_part u\<rparr>" using ue [of "minute u"] by simp
  consider (none) "\<not> c" | (min) c "minute u < 59" | (hour) c "\<not> minute u < 59" by blast
  then show thesis
  proof cases
    case none
    show thesis
      by (rule that [OF _ _ _ un, of False]) (use none u(1-4) mu b in \<open>simp_all add: add_nanoseconds_mmssff_def has_valid_mmssff_def time_limits mmssff_usecs_def\<close>)
  next
    case min
    have s: "unat (minute t + 1) = unat (minute t) + 1" using min(2) mu by (intro unat_incr [where v = 59]) (simp add: word_less_nat_alt)
    show thesis
      by (rule that [of False "u\<lparr>minute := minute u + 1\<rparr>"])
        (use min u(1-4) ue mu b s in \<open>simp_all add: add_nanoseconds_mmssff_def has_valid_mmssff_def time_limits mmssff_usecs_def word_less_nat_alt\<close>)
  next
    case hour
    then have "unat (minute t) = 59" using b mu by (simp add: word_less_nat_alt)
    then show thesis
      by (intro that [of True "u\<lparr>minute := 0\<rparr>"])
        (use hour u(1-4) ue mu b in \<open>simp_all add: add_nanoseconds_mmssff_def has_valid_mmssff_def time_limits mmssff_usecs_def\<close>)
  qed
qed

lemma sec6_add_nanoseconds_value:
  assumes "unat (m_usec s) \<le> 999999" "ns \<le> 1000000000"
  obtains c u where "sec6_add_nanoseconds ns s = Some (c, s\<lparr>m_usec := u\<rparr>)" "unat u \<le> 999999"
    "unat u + (if c then 1000000 else 0) = unat (m_usec s) + (unat ns + 500) div 1000"
proof -
  let ?v = "m_usec s + (ns + 500) div 1000"
  note v = add_nanoseconds_carry [OF assms]
  consider (none) "ns < 500" | (plain) "\<not> ns < 500" "?v < 1000000" | (sec) "\<not> ns < 500" "\<not> ?v < 1000000" by blast
  then show thesis
  proof cases
    case none
    then have "(unat ns + 500) div 1000 = 0" by (simp add: word_less_nat_alt)
    with none show thesis using assms by (intro that [of False "m_usec s"]) (simp_all add: sec6_add_nanoseconds_def)
  next
    case plain
    then have "unat ?v \<le> 999999" by (simp add: word_less_nat_alt)
    with plain show thesis using assms v(1) by (intro that [of False ?v]) (simp_all add: sec6_add_nanoseconds_def)
  next
    case sec
    then have "unat (?v mod 1000000) = unat ?v - 1000000" "1000000 \<le> unat ?v"
      using v(2,3) by (simp_all add: word_less_nat_alt mod_if)
    with sec show thesis using assms v(1,3) by (intro that [of True "?v mod 1000000"]) (simp_all add: sec6_add_nanoseconds_def)
  qed
qed

text \<open>The nanoseconds of a number are rounded to the nearest microsecond, half up, and the carry is kept: in a valid time the minutes,
  seconds and microseconds become those of the rounded sum, the result says whether an hour is to be added, nothing else changes and the
  time stays valid; in a \<open>Sec6\<close> likewise with the carry to the seconds.\<close>

theorem nanoseconds_rounded:
  assumes "has_valid_mmssff t" "unat (m_usec s) \<le> 999999" "ns \<le> 1000000000"
  shows "(\<exists>c t'. add_nanoseconds_mmssff ns t = Some (c, t') \<and> has_valid_mmssff t' \<and>
      mmssff_usecs t' + (if c then 3600000000 else 0) = mmssff_usecs t + (unat ns + 500) div 1000 \<and>
      t' = t\<lparr>minute := minute t', second := second t', second_part := second_part t'\<rparr>) \<and>
    (\<exists>c u. sec6_add_nanoseconds ns s = Some (c, s\<lparr>m_usec := u\<rparr>) \<and> unat u \<le> 999999 \<and>
      unat u + (if c then 1000000 else 0) = unat (m_usec s) + (unat ns + 500) div 1000)"
  using add_nanoseconds_mmssff_value [OF assms(1,3)] sec6_add_nanoseconds_value [OF assms(2,3)] by metis

theorem nanoseconds_rounded_witness:
  "\<exists>t'. add_nanoseconds_mmssff 500 ((zero_time MYSQL_TIMESTAMP_TIME)\<lparr>minute := 59, second := 59, second_part := 999999\<rparr>) = Some (True, t') \<and>
     has_valid_mmssff t' \<and> mmssff_usecs t' = 0"
  using nanoseconds_rounded [of "(zero_time MYSQL_TIMESTAMP_TIME)\<lparr>minute := 59, second := 59, second_part := 999999\<rparr>" sec6_reset 500]
  by (simp add: zero_time_def has_valid_mmssff_def time_limits sec6_reset_def add_nanoseconds_mmssff_def add_nanoseconds_ssff_def
      mmssff_usecs_def)

section \<open>Modes\<close>

lemmas mode_bits = FUZZY_DATES_def TIME_ONLY_def INTERVAL_hhmmssff_def INTERVAL_DAY_def NO_ZERO_IN_DATE_def NO_ZERO_DATE_def
  INVALID_DATES_def FRAC_NONE_def FRAC_TRUNCATE_def FRAC_ROUND_def DATE_KNOWN_MODES_def ROUND_KNOWN_MODES_def
  TIME_FRAC_NONE_def TIME_FRAC_TRUNCATE_def TIME_FRAC_ROUND_def

lemma ucast_and_or:
  fixes a b k :: uint
  shows "(ucast ((ucast (ucast a OR ucast b :: ulonglong) AND k)) :: uint) = (a OR b) AND k"
    "(ucast (ucast (ucast (ucast a OR ucast b :: ulonglong) :: uint) AND (ucast k :: ulonglong)) :: uint) = (a OR b) AND k"
  by (rule bit_word_eqI; simp add: bit_and_iff bit_or_iff bit_unsigned_iff)+

lemma conv_mode_and_bits [simp]: "dcm (conv_mode_and a b) = dcm a AND dcm b"
  unfolding conv_mode_and_def make_date_conv_mode_def date_conv_mode_t.sel by (rule bit_word_eqI) (simp add: bit_and_iff bit_unsigned_iff)

lemma known_and:
  fixes a k :: uint
  assumes "a AND NOT k = 0"
  shows "a AND k = a"
proof -
  have "a = (a AND k) OR (a AND NOT k)" by (rule bit_word_eqI) (auto simp: bit_simps)
  with assms show ?thesis by simp
qed

text \<open>A conversion mode and a rounding mode that are joined into one \<open>date_mode_t\<close> come apart again: the conversion to
  \<open>date_conv_mode_t\<close> gives back the first and the conversion to \<open>time_round_mode_t\<close>, whose assertion passes, the second.\<close>

theorem mode_round_trip:
  assumes "dcm a AND NOT DATE_KNOWN_MODES = 0" "r \<in> {TIME_FRAC_NONE, TIME_FRAC_TRUNCATE, TIME_FRAC_ROUND}"
  shows "date_mode_conv (conv_round_or a r) = a \<and> date_mode_round (conv_round_or a r) = Some r"
proof -
  have k: "dcm a AND DATE_KNOWN_MODES = dcm a" using assms(1) by (rule known_and)
  have d: "DATE_KNOWN_MODES AND ROUND_KNOWN_MODES = 0" by (simp add: mode_bits)
  have a0: "dcm a AND ROUND_KNOWN_MODES = 0" by (subst k [symmetric]) (simp add: and.assoc d)
  have r: "trm r AND DATE_KNOWN_MODES = 0" "trm r AND ROUND_KNOWN_MODES = trm r" using assms(2) by (auto simp: mode_bits)
  have "date_mode_conv (conv_round_or a r) = Date_conv_mode ((dcm a OR trm r) AND DATE_KNOWN_MODES)"
    by (simp add: date_mode_conv_def conv_round_or_def make_date_conv_mode_def make_date_mode_def date_mode_ulonglong_def
        conv_mode_ulonglong_def round_mode_ulonglong_def ucast_and_or)
  also have "(dcm a OR trm r) AND DATE_KNOWN_MODES = dcm a" using k r by (simp add: bit.conj_disj_distrib2)
  finally have 1: "date_mode_conv (conv_round_or a r) = a" by simp
  have "(dcm a OR trm r) AND ROUND_KNOWN_MODES = trm r" using a0 r by (simp add: bit.conj_disj_distrib2)
  moreover have "date_mode_ulonglong (conv_round_or a r) AND ucast ROUND_KNOWN_MODES = ucast ((dcm a OR trm r) AND ROUND_KNOWN_MODES)"
    by (rule bit_word_eqI) (auto simp: date_mode_ulonglong_def conv_round_or_def make_date_mode_def conv_mode_ulonglong_def
        round_mode_ulonglong_def bit_simps dest: bit_imp_le_length)
  ultimately have "date_mode_round (conv_round_or a r) = make_time_round_mode (ucast (trm r))" by (simp add: date_mode_round_def)
  also have "\<dots> = Some r" using assms(2) by (auto simp: make_time_round_mode_def mode_bits)
  finally show ?thesis using 1 by simp
qed

theorem mode_round_trip_witness:
  "date_mode_conv (conv_round_or TIME_INVALID_DATES TIME_FRAC_ROUND) = TIME_INVALID_DATES \<and>
   date_mode_round (conv_round_or TIME_INVALID_DATES TIME_FRAC_ROUND) = Some TIME_FRAC_ROUND"
  by (rule mode_round_trip) (simp_all add: TIME_INVALID_DATES_def mode_bits)

section \<open>Sums\<close>

text \<open>What is documented of \<open>calc_time_diff\<close>: with the sign 1 it subtracts and with the sign -1 it adds the absolute values \<open>uval\<close> of
  its arguments, in microseconds; the result is its absolute value and its sign.\<close>

definition diff_sec_ok :: "time_lib \<Rightarrow> (MYSQL_TIME \<Rightarrow> int) \<Rightarrow> bool" where
  "diff_sec_ok L uval \<longleftrightarrow> (\<forall>t1 t2 l_sign. l_sign = 1 \<or> l_sign = -1 \<longrightarrow>
     (case calc_time_diff_sec L t1 t2 l_sign of (n, sec, usec) \<Rightarrow>
        let d = uval t1 - l_sign * uval t2 in uint sec * 1000000 + uint usec = \<bar>d\<bar> \<and> n = (d < 0)))"

definition signed_val :: "bool \<Rightarrow> int \<Rightarrow> int" where
  "signed_val n v = (if n then - v else v)"

definition sec6_add_val :: "Sec6_add \<Rightarrow> int" where
  "sec6_add_val a = signed_val (a_neg a) (uint (a_sec a) * 1000000 + uint (a_usec a))"

lemma usecs_zero: "(sec \<noteq> 0 \<or> usec \<noteq> 0) \<longleftrightarrow> uint sec * 1000000 + uint usec \<noteq> 0" for sec :: ulonglong and usec :: ulong
proof -
  have "0 \<le> uint sec" "0 \<le> uint usec" by simp_all
  then have "uint sec * 1000000 + uint usec = 0 \<longleftrightarrow> uint sec = 0 \<and> uint usec = 0" by linarith
  then show ?thesis by (simp add: unsigned_eq_0_iff)
qed

lemma signed_val_sum:
  assumes "sign = 1 \<or> sign = (-1 :: int)" "u = \<bar>x - sg * y\<bar>" "n = (x - sg * y < 0)" "sg = - (if n1 \<noteq> n2 then - sign else sign)"
  shows "signed_val (if n1 \<and> u \<noteq> 0 then \<not> n else n) u = signed_val n1 x + sign * signed_val n2 y"
  using assms by (cases n1; cases n2; elim disjE; simp add: signed_val_def)

lemma signed_val_neg:
  assumes "u = \<bar>x\<bar>" "n = (x < 0)"
  shows "(if n1 \<and> u \<noteq> 0 then \<not> n else n) \<longrightarrow> signed_val (if n1 \<and> u \<noteq> 0 then \<not> n else n) u < (0 :: int)"
  using assms by (simp add: signed_val_def)

text \<open>C23. \<open>Sec6_add\<close> computes the sum or difference of its two arguments as signed numbers, for each of the four combinations of their
  signs, and a zero result is never negative; a second argument that is not a time is an error.\<close>

theorem sec6_add_signed:
  assumes "diff_sec_ok L uval" "sign = 1 \<or> sign = -1" "neg t1 \<longrightarrow> time_type t1 = MYSQL_TIMESTAMP_TIME"
  shows "(time_type t2 \<noteq> MYSQL_TIMESTAMP_TIME \<longrightarrow> make_Sec6_add L t1 t2 sign = Some None) \<and>
    (time_type t2 = MYSQL_TIMESTAMP_TIME \<longrightarrow> (\<exists>a. make_Sec6_add L t1 t2 sign = Some (Some a) \<and>
       sec6_add_val a = signed_val (neg t1) (uval t1) + sign * signed_val (neg t2) (uval t2) \<and>
       (a_neg a \<longrightarrow> sec6_add_val a < 0)))"
proof (cases "time_type t2 = MYSQL_TIMESTAMP_TIME")
  case True
  define sg where "sg = - (if neg t1 \<noteq> neg t2 then - sign else sign)"
  obtain n sec usec where c: "calc_time_diff_sec L t1 t2 sg = (n, sec, usec)" by (rule prod_cases3)
  have "sg = 1 \<or> sg = -1" using assms(2) by (auto simp: sg_def)
  note assms(1) [unfolded diff_sec_ok_def, rule_format, OF this, of t1 t2, unfolded c Let_def prod.case]
  then have d: "uint sec * 1000000 + uint usec = \<bar>uval t1 - sg * uval t2\<bar>" "n = (uval t1 - sg * uval t2 < 0)"
    by (rule conjunct1, rule conjunct2)
  let ?a = "\<lparr>a_sec = sec, a_usec = usec, a_neg = (if neg t1 \<and> (sec \<noteq> 0 \<or> usec \<noteq> 0) then \<not> n else n)\<rparr>"
  have "(sign = -1 \<or> sign = 1) \<and> (\<not> neg t1 \<or> time_type t1 = MYSQL_TIMESTAMP_TIME)" using assms(2,3) by blast
  then have "make_Sec6_add L t1 t2 sign = Some (Some ?a)"
    using True by (simp add: make_Sec6_add_def c [unfolded sg_def, simplified] Let_def split del: if_split)
  moreover have "sec6_add_val ?a = signed_val (neg t1) (uval t1) + sign * signed_val (neg t2) (uval t2)"
    unfolding sec6_add_val_def Sec6_add.select_convs usecs_zero by (rule signed_val_sum [OF assms(2) d sg_def])
  moreover have "a_neg ?a \<longrightarrow> sec6_add_val ?a < 0"
    unfolding sec6_add_val_def Sec6_add.select_convs usecs_zero by (rule signed_val_neg [OF d])
  ultimately have "\<exists>a. make_Sec6_add L t1 t2 sign = Some (Some a) \<and>
       sec6_add_val a = signed_val (neg t1) (uval t1) + sign * signed_val (neg t2) (uval t2) \<and>
       (a_neg a \<longrightarrow> sec6_add_val a < 0)" by (intro exI conjI)
  then show ?thesis using True by (simp only: simp_thms)
next
  case False
  then show ?thesis using assms(2,3) by (auto simp: make_Sec6_add_def)
qed

section \<open>An instance of the library\<close>

text \<open>Routines that behave as documented, for the concrete instances of the theorems.\<close>

definition hhmmssff_usecs :: "MYSQL_TIME \<Rightarrow> nat" where
  "hhmmssff_usecs t = ((unat (hour t) * 60 + unat (minute t)) * 60 + unat (second t)) * 1000000 + unat (second_part t)"

definition plain_diff_sec :: "MYSQL_TIME \<Rightarrow> MYSQL_TIME \<Rightarrow> int \<Rightarrow> bool \<times> ulonglong \<times> ulong" where
  "plain_diff_sec t1 t2 sg =
     (let d = int (hhmmssff_usecs t1) - sg * int (hhmmssff_usecs t2); a = nat \<bar>d\<bar>
      in (d < 0, of_nat (a div 1000000), of_nat (a mod 1000000)))"

definition split_number :: "ulonglong \<Rightarrow> ulong \<Rightarrow> MYSQL_TIME" where
  "split_number nr sec_part =
     (let n = unat nr
      in \<lparr>year = of_nat (n div 10000000000 mod 1000000), month = of_nat (n div 100000000 mod 100), day = of_nat (n div 1000000 mod 100),
          hour = of_nat (n div 10000 mod 100), minute = of_nat (n div 100 mod 100), second = of_nat (n mod 100),
          second_part = sec_part, neg = False, time_type = MYSQL_TIMESTAMP_DATETIME\<rparr>)"

definition plain_time_lib :: time_lib where
  "plain_time_lib =
     \<lparr>log_10_int = (\<lambda>i. 10 ^ i),
      set_zero_time = (\<lambda>t ty. zero_time ty),
      check_time_range = (\<lambda>t dec w. if unat (hour t) \<le> TIME_MAX_HOUR then (False, t, w)
        else (False, time_hhmmssff_set_max (of_nat TIME_MAX_HOUR) t, w OR MYSQL_TIME_WARN_OUT_OF_RANGE)),
      check_datetime_range = (\<lambda>t. \<not> normalized t),
      number_to_datetime_or_date = (\<lambda>nr sec_part to flags w.
        if sint nr \<ge> 0 \<and> normalized (split_number nr sec_part) then (nr, split_number nr sec_part, w)
        else (-1, to, MYSQL_TIME_WARN_OUT_OF_RANGE)),
      number_to_time_only = (\<lambda>n nr sec_part max_hour to w.
        let t = (split_number nr sec_part)\<lparr>year := 0, month := 0, day := 0, neg := n, time_type := MYSQL_TIMESTAMP_TIME,
                  hour := of_nat (unat nr div 10000 mod 1000000)\<rparr>
        in if unat (hour t) \<le> max_hour \<and> has_valid_mmssff t then (False, t, w) else (True, to, MYSQL_TIME_WARN_OUT_OF_RANGE)),
      calc_time_diff = (\<lambda>t1 t2 sg mode. (False, zero_time MYSQL_TIMESTAMP_TIME)),
      calc_time_diff_sec = plain_diff_sec,
      set_current_date = (zero_time MYSQL_TIMESTAMP_DATE)\<lparr>year := 2024, month := 1, day := 1\<rparr>,
      time_round_or_set_max_nsec = (\<lambda>dec w nsec t. (t, w)), time_round_or_set_max = (\<lambda>dec w t. (t, w)),
      datetime_round_or_invalidate = (\<lambda>dec w nsec t. (False, t, w)), datetime_round = (\<lambda>dec w t. (False, t, w)),
      calc_daynr = (\<lambda>y m d. 365 * y + 31 * m + d)\<rparr>"

lemma plain_time_lib_ok: "time_lib_ok plain_time_lib"
proof -
  have "number_to_datetime_ok plain_time_lib"
    by (auto simp: number_to_datetime_ok_def plain_time_lib_def valid_date_or_datetime_def split_number_def Let_def
        MYSQL_TIME_WARN_OUT_OF_RANGE_def)
  moreover have "number_to_time_ok plain_time_lib"
    by (auto simp: number_to_time_ok_def plain_time_lib_def valid_TIME_def has_zero_YYYYMMDD_def Let_def MYSQL_TIME_WARN_OUT_OF_RANGE_def)
  moreover have "check_time_range_ok plain_time_lib"
    by (auto simp: check_time_range_ok_def plain_time_lib_def valid_TIME_def has_zero_YYYYMMDD_def has_valid_mmssff_def
        time_hhmmssff_set_max_def time_limits Let_def)
  moreover have "calc_time_diff_ok plain_time_lib"
    by (simp add: calc_time_diff_ok_def plain_time_lib_def zero_time_def has_zero_YYYYMMDD_def has_valid_mmssff_def)
  moreover have "rounding_ok plain_time_lib" by (simp add: rounding_ok_def plain_time_lib_def datetime_state_def)
  ultimately show ?thesis by (simp add: time_lib_ok_def plain_time_lib_def)
qed

lemma hhmmssff_usecs_bound: "hhmmssff_usecs t < 2 ^ 64"
proof -
  have "unat (hour t) < 2 ^ 32" "unat (minute t) < 2 ^ 32" "unat (second t) < 2 ^ 32" "unat (second_part t) < 2 ^ 32"
    using unat_bound [where 'a = 32] by simp_all
  then show ?thesis by (simp add: hhmmssff_usecs_def)
qed

lemma split_usecs:
  assumes "n < 2 ^ 65"
  shows "uint (of_nat (n div 1000000) :: ulonglong) * 1000000 + uint (of_nat (n mod 1000000) :: ulong) = int n"
proof -
  have "n div 1000000 < 2 ^ LENGTH(64)" using assms by (simp add: less_mult_imp_div_less)
  then have 1: "uint (of_nat (n div 1000000) :: ulonglong) = int (n div 1000000)"
    unfolding uint_nat unat_of_nat by (simp only: mod_less)
  have "n mod 1000000 < 1000000" by simp
  then have "n mod 1000000 < 2 ^ LENGTH(32)" by (rule less_trans) simp
  then have 2: "uint (of_nat (n mod 1000000) :: ulong) = int (n mod 1000000)"
    unfolding uint_nat unat_of_nat by (simp only: mod_less)
  have "int (n div 1000000) * 1000000 + int (n mod 1000000) = int (n div 1000000 * 1000000 + n mod 1000000)"
    by (simp only: of_nat_add of_nat_mult of_nat_numeral)
  also have "\<dots> = int n" by (simp only: div_mult_mod_eq)
  finally show ?thesis unfolding 1 2 .
qed

lemma plain_diff_sec_ok: "diff_sec_ok plain_time_lib (\<lambda>t. int (hhmmssff_usecs t))"
proof -
  have *: "nat \<bar>int x - sg * int y\<bar> < 2 ^ 65" if "sg = 1 \<or> sg = -1" "x < 2 ^ 64" "y < 2 ^ 64" for x y sg
    using that by auto
  show ?thesis
    unfolding diff_sec_ok_def plain_time_lib_def plain_diff_sec_def Let_def time_lib.select_convs prod.case
    using split_usecs [OF *] hhmmssff_usecs_bound by (simp del: of_nat_div of_nat_mod)
qed

theorem sec6_add_signed_witness:
  "\<exists>a. make_Sec6_add plain_time_lib ((zero_time MYSQL_TIMESTAMP_TIME)\<lparr>hour := 1, neg := True\<rparr>)
      ((zero_time MYSQL_TIMESTAMP_TIME)\<lparr>minute := 30\<rparr>) (-1) = Some (Some a) \<and> sec6_add_val a = - 5400000000"
  using sec6_add_signed [OF plain_diff_sec_ok, of "-1" "(zero_time MYSQL_TIMESTAMP_TIME)\<lparr>hour := 1, neg := True\<rparr>"
      "(zero_time MYSQL_TIMESTAMP_TIME)\<lparr>minute := 30\<rparr>"]
  by (auto simp: zero_time_def hhmmssff_usecs_def signed_val_def)

end
