(* ===== verification/Temporal_Types.thy ===== *)
theory Temporal_Types
  imports Temporal
begin

text \<open>
  The classes \<open>Extract_source\<close>, \<open>Time\<close>, \<open>Date\<close>, \<open>Datetime\<close> and \<open>Timestamp\<close> of \<open>sql_type.h\<close> and \<open>TimeOfDay6\<close> of
  \<open>sql_type_timeofday.h\<close>. An object of these classes is its \<open>MYSQL_TIME\<close>; a method that changes it returns the new one. \<^const>\<open>None\<close> is
  a failed assertion.
\<close>

definition dbug_assert :: "bool option \<Rightarrow> unit option" where
  "dbug_assert b = (if b = Some True then Some () else None)"

lemma dbug_assert_True [simp]: "dbug_assert (Some True) = Some ()"
  by (simp add: dbug_assert_def)

section \<open>Time\<close>

datatype datetime_to_time_mode_t =
    DATETIME_TO_TIME_DISALLOW | DATETIME_TO_TIME_YYYYMMDD_000000DD_MIX_TO_HOURS | DATETIME_TO_TIME_YYYYMMDD_TRUNCATE
  | DATETIME_TO_TIME_YYYYMMDD_00000000_ONLY | DATETIME_TO_TIME_MINUS_CURRENT_DATE

record time_options =
  opt_mode :: date_mode_t
  datetime_to_time_mode :: datetime_to_time_mode_t

definition is_valid_time_slow :: "MYSQL_TIME \<Rightarrow> bool" where
  "is_valid_time_slow t \<longleftrightarrow> time_type t = MYSQL_TIMESTAMP_TIME \<and> has_zero_YYYYMMDD t \<and> has_valid_mmssff t"

definition time_is_valid_value_slow :: "MYSQL_TIME \<Rightarrow> bool" where
  "time_is_valid_value_slow t \<longleftrightarrow> time_type t = MYSQL_TIMESTAMP_NONE \<or> is_valid_time_slow t"

definition is_valid_time :: "MYSQL_TIME \<Rightarrow> bool option" where
  "is_valid_time t = (if time_is_valid_value_slow t then Some (time_type t = MYSQL_TIMESTAMP_TIME) else None)"

definition datetime_to_time_mix_to_hours :: "warn \<Rightarrow> uint \<Rightarrow> uint \<Rightarrow> uint \<Rightarrow> MYSQL_TIME \<Rightarrow> MYSQL_TIME \<times> warn" where
  "datetime_to_time_mix_to_hours warn from_year from_month from_day t =
     (if from_year \<noteq> 0 \<or> from_month \<noteq> 0 then (t, warn OR MYSQL_TIME_NOTE_TRUNCATED)
      else (t\<lparr>hour := hour t + from_day * 24\<rparr>, warn))"

definition datetime_to_time_minus_current_date :: "time_lib \<Rightarrow> MYSQL_TIME \<Rightarrow> MYSQL_TIME option" where
  "datetime_to_time_minus_current_date L t = do {
     let t = snd (calc_time_diff L t (set_current_date L) 1 (make_date_mode 0));
     let t = fst (snd (check_time_range L t TIME_SECOND_PART_DIGITS 0));
     dbug_assert (is_valid_time t);
     Some t }"

definition valid_datetime_to_valid_time :: "time_lib \<Rightarrow> warn \<Rightarrow> time_options \<Rightarrow> MYSQL_TIME \<Rightarrow> (MYSQL_TIME \<times> warn) option" where
  "valid_datetime_to_valid_time L warn opt t = do {
     dbug_assert (Some (time_type t = MYSQL_TIMESTAMP_DATE \<or> time_type t = MYSQL_TIMESTAMP_DATETIME));
     dbug_assert (Some (day t < 32));
     dbug_assert (Some (hour t < 24));
     (t, warn) \<leftarrow> (if datetime_to_time_mode opt = DATETIME_TO_TIME_MINUS_CURRENT_DATE
        then map_option (\<lambda>t. (t, warn)) (datetime_to_time_minus_current_date L t)
        else let (t, warn) =
                 (if datetime_to_time_mode opt = DATETIME_TO_TIME_YYYYMMDD_000000DD_MIX_TO_HOURS
                  then datetime_to_time_mix_to_hours warn (year t) (month t) (day t) t else (t, warn))
             in Some (t\<lparr>year := 0, month := 0, day := 0, time_type := MYSQL_TIMESTAMP_TIME\<rparr>, warn));
     dbug_assert (Some (is_valid_time_slow t));
     Some (t, warn) }"

definition valid_MYSQL_TIME_to_valid_value :: "time_lib \<Rightarrow> warn \<Rightarrow> time_options \<Rightarrow> MYSQL_TIME \<Rightarrow> (MYSQL_TIME \<times> warn) option" where
  "valid_MYSQL_TIME_to_valid_value L warn opt t = (case time_type t of
       MYSQL_TIMESTAMP_NONE \<Rightarrow> Some (t, warn)
     | MYSQL_TIMESTAMP_ERROR \<Rightarrow> Some (set_zero_time L t MYSQL_TIMESTAMP_TIME, warn)
     | MYSQL_TIMESTAMP_TIME \<Rightarrow> do { dbug_assert (Some (is_valid_time_slow t)); Some (t, warn) }
     | _ \<Rightarrow> if datetime_to_time_mode opt = DATETIME_TO_TIME_YYYYMMDD_00000000_ONLY \<and> (year t \<noteq> 0 \<or> month t \<noteq> 0 \<or> day t \<noteq> 0)
          then Some (make_from_out_of_range t)
          else if datetime_to_time_mode opt = DATETIME_TO_TIME_DISALLOW then Some (make_from_out_of_range t)
          else valid_datetime_to_valid_time L warn opt t)"

definition xxx_to_time_result_to_valid_value :: "time_lib \<Rightarrow> warn \<Rightarrow> time_options \<Rightarrow> MYSQL_TIME \<Rightarrow> (MYSQL_TIME \<times> warn) option" where
  "xxx_to_time_result_to_valid_value L warn opt t = do {
     dbug_assert (Some (time_type t \<noteq> MYSQL_TIMESTAMP_ERROR));
     valid_MYSQL_TIME_to_valid_value L warn opt t }"

definition adjust_time_range_or_invalidate :: "time_lib \<Rightarrow> warn \<Rightarrow> MYSQL_TIME \<Rightarrow> (MYSQL_TIME \<times> warn) option" where
  "adjust_time_range_or_invalidate L warn t = do {
     let (r, t, warn) = check_time_range L t TIME_SECOND_PART_DIGITS warn;
     let t = (if r then t\<lparr>time_type := MYSQL_TIMESTAMP_NONE\<rparr> else t);
     dbug_assert (Some (time_is_valid_value_slow t));
     Some (t, warn) }"

text \<open>The constructors. The old contents of the object, which they overwrite, are the last argument.\<close>

definition time_of_MYSQL_TIME :: "time_lib \<Rightarrow> time_options \<Rightarrow> MYSQL_TIME \<Rightarrow> MYSQL_TIME option" where
  "time_of_MYSQL_TIME L opt ltime = do {
     dbug_assert (is_valid_temporal ltime);
     map_option fst (valid_MYSQL_TIME_to_valid_value L 0 opt ltime) }"

definition time_of_sec6 :: "time_lib \<Rightarrow> warn \<Rightarrow> Sec6 \<Rightarrow> time_options \<Rightarrow> MYSQL_TIME \<Rightarrow> (MYSQL_TIME \<times> warn) option" where
  "time_of_sec6 L warn nr opt t = do {
     (rc, t, warn) \<leftarrow> to_datetime_or_time L nr t warn TIME_INVALID_DATES;
     xxx_to_time_result_to_valid_value L warn opt (if rc then t\<lparr>time_type := MYSQL_TIMESTAMP_NONE\<rparr> else t) }"

record Sec9 = Sec6 +
  m_nsec :: ulong

definition time_of_sec9 :: "time_lib \<Rightarrow> warn \<Rightarrow> Sec9 \<Rightarrow> time_options \<Rightarrow> MYSQL_TIME \<Rightarrow> (MYSQL_TIME \<times> warn) option" where
  "time_of_sec9 L warn nr opt t = do {
     (t, warn) \<leftarrow> time_of_sec6 L warn (Sec6.truncate nr) opt t;
     v \<leftarrow> is_valid_time t;
     if \<not> v then Some (t, warn)
     else do { r \<leftarrow> date_mode_round (opt_mode opt);
               Some (if r = TIME_FRAC_ROUND then time_round_or_set_max_nsec L 6 warn (m_nsec nr) t else (t, warn)) } }"

definition time_trunc :: "time_lib \<Rightarrow> nat \<Rightarrow> MYSQL_TIME \<Rightarrow> MYSQL_TIME option" where
  "time_trunc L dec t = do {
     v \<leftarrow> is_valid_time t;
     t \<leftarrow> (if v then my_time_trunc (log_10_int L) t dec else Some t);
     dbug_assert (Some (time_is_valid_value_slow t));
     Some t }"

definition time_ceiling :: "time_lib \<Rightarrow> warn \<Rightarrow> MYSQL_TIME \<Rightarrow> (MYSQL_TIME \<times> warn) option" where
  "time_ceiling L warn t = do {
     v \<leftarrow> is_valid_time t;
     (t, warn) \<leftarrow> (if v then if neg t then map_option (\<lambda>t. (t, warn)) (my_time_trunc (log_10_int L) t 0)
                             else if second_part t \<noteq> 0 then Some (time_round_or_set_max_nsec L 0 warn 999999999 t) else Some (t, warn)
                   else Some (t, warn));
     dbug_assert (Some (time_is_valid_value_slow t));
     Some (t, warn) }"

definition time_floor :: "time_lib \<Rightarrow> warn \<Rightarrow> MYSQL_TIME \<Rightarrow> (MYSQL_TIME \<times> warn) option" where
  "time_floor L warn t = do {
     v \<leftarrow> is_valid_time t;
     (t, warn) \<leftarrow> (if v then if \<not> neg t then map_option (\<lambda>t. (t, warn)) (my_time_trunc (log_10_int L) t 0)
                             else if second_part t \<noteq> 0 then Some (time_round_or_set_max_nsec L 0 warn 999999999 t) else Some (t, warn)
                   else Some (t, warn));
     dbug_assert (Some (time_is_valid_value_slow t));
     Some (t, warn) }"

definition time_round :: "time_lib \<Rightarrow> nat \<Rightarrow> warn \<Rightarrow> MYSQL_TIME \<Rightarrow> (MYSQL_TIME \<times> warn) option" where
  "time_round L dec warn t = do {
     v \<leftarrow> is_valid_time t;
     let (t, warn) = (if v then time_round_or_set_max L dec warn t else (t, warn));
     dbug_assert (Some (time_is_valid_value_slow t));
     Some (t, warn) }"

definition time_fraction_remainder :: "time_lib \<Rightarrow> nat \<Rightarrow> MYSQL_TIME \<Rightarrow> ulong option" where
  "time_fraction_remainder L dec t = do { dbug_assert (is_valid_time t); temporal_fraction_remainder L t dec }"

definition time_round_mode :: "time_lib \<Rightarrow> nat \<Rightarrow> time_round_mode_t \<Rightarrow> warn \<Rightarrow> MYSQL_TIME \<Rightarrow> (MYSQL_TIME \<times> warn) option" where
  "time_round_mode L dec mode warn t =
     (if trm mode = FRAC_NONE then do {
        r \<leftarrow> time_fraction_remainder L dec t;
        dbug_assert (Some (r = 0));
        map_option (\<lambda>t. (t, warn)) (time_trunc L dec t) }
      else if trm mode = FRAC_TRUNCATE then map_option (\<lambda>t. (t, warn)) (time_trunc L dec t)
      else if trm mode = FRAC_ROUND then time_round L dec warn t
      else Some (t, warn))"

definition time_copy_to_mysql_time :: "MYSQL_TIME \<Rightarrow> MYSQL_TIME \<Rightarrow> (bool \<times> MYSQL_TIME) option" where
  "time_copy_to_mysql_time t ltime =
     (if time_type t = MYSQL_TIMESTAMP_NONE then Some (True, ltime\<lparr>time_type := MYSQL_TIMESTAMP_NONE\<rparr>)
      else do { dbug_assert (Some (is_valid_time_slow t)); Some (False, t) })"

text \<open>The sum is computed with 32 unsigned bits and widened.\<close>

definition to_seconds_abs :: "MYSQL_TIME \<Rightarrow> longlong option" where
  "to_seconds_abs t = do {
     dbug_assert (Some (is_valid_time_slow t));
     Some (ucast (hour t * 3600 + minute t * 60 + second t)) }"

definition to_seconds :: "MYSQL_TIME \<Rightarrow> longlong option" where
  "to_seconds t = map_option (\<lambda>n. if neg t then - n else n) (to_seconds_abs t)"

section \<open>TimeOfDay6\<close>

record TimeOfDay6 =
  td_hour :: uint
  td_minute :: uint
  td_second :: uint
  td_usecond :: uint

definition is_valid_time_of_day6 :: "TimeOfDay6 \<Rightarrow> bool" where
  "is_valid_time_of_day6 d \<longleftrightarrow> td_hour d \<le> 23 \<and> unat (td_minute d) \<le> TIME_MAX_MINUTE \<and> unat (td_second d) \<le> TIME_MAX_SECOND \<and>
     unat (td_usecond d) \<le> TIME_MAX_SECOND_PART"

definition make_TimeOfDay6 :: "uint \<Rightarrow> uint \<Rightarrow> uint \<Rightarrow> uint \<Rightarrow> TimeOfDay6 option" where
  "make_TimeOfDay6 h m s u =
     (let d = \<lparr>td_hour = h, td_minute = m, td_second = s, td_usecond = u\<rparr>
      in if is_valid_time_of_day6 d then Some d else None)"

definition end_of_day :: "time_lib \<Rightarrow> nat \<Rightarrow> TimeOfDay6 option" where
  "end_of_day L decimals = do {
     r \<leftarrow> my_time_fraction_remainder (log_10_int L) (of_nat TIME_MAX_SECOND_PART) decimals;
     dbug_assert (Some (0 \<le> sint r \<and> sint r \<le> int TIME_MAX_SECOND_PART));
     make_TimeOfDay6 23 (of_nat TIME_MAX_MINUTE) (of_nat TIME_MAX_SECOND) (of_nat TIME_MAX_SECOND_PART - r) }"

section \<open>Date\<close>

definition is_valid_date_slow :: "time_lib \<Rightarrow> MYSQL_TIME \<Rightarrow> bool option" where
  "is_valid_date_slow L t = (if time_type t = MYSQL_TIMESTAMP_DATE then Some (\<not> check_datetime_range L t) else None)"

definition date_is_valid_value_slow :: "time_lib \<Rightarrow> MYSQL_TIME \<Rightarrow> bool option" where
  "date_is_valid_value_slow L t = (if time_type t = MYSQL_TIMESTAMP_NONE then Some True else is_valid_date_slow L t)"

text \<open>The constructors from a \<open>Temporal_with_date\<close> and, after the conversion of an item to one, from an item.\<close>

definition date_of_with_date :: "time_lib \<Rightarrow> MYSQL_TIME \<Rightarrow> MYSQL_TIME option" where
  "date_of_with_date L d = do {
     t \<leftarrow> datetime_to_date d;
     dbug_assert (is_valid_date_slow L t);
     Some t }"

definition date_of_item :: "time_lib \<Rightarrow> MYSQL_TIME \<Rightarrow> MYSQL_TIME option" where
  "date_of_item L d = do {
     t \<leftarrow> (if time_type d = MYSQL_TIMESTAMP_DATETIME then datetime_to_date d else Some d);
     dbug_assert (date_is_valid_value_slow L t);
     Some t }"

definition date_copy_to_mysql_time :: "time_lib \<Rightarrow> MYSQL_TIME \<Rightarrow> MYSQL_TIME \<Rightarrow> (bool \<times> MYSQL_TIME) option" where
  "date_copy_to_mysql_time L t ltime =
     (if time_type t = MYSQL_TIMESTAMP_NONE then Some (True, ltime\<lparr>time_type := MYSQL_TIMESTAMP_NONE\<rparr>)
      else do { dbug_assert (is_valid_date_slow L t); Some (False, t) })"

section \<open>Datetime\<close>

definition is_valid_datetime_slow :: "time_lib \<Rightarrow> MYSQL_TIME \<Rightarrow> bool option" where
  "is_valid_datetime_slow L t = (if time_type t = MYSQL_TIMESTAMP_DATETIME then Some (\<not> check_datetime_range L t) else None)"

definition datetime_is_valid_value_slow :: "time_lib \<Rightarrow> MYSQL_TIME \<Rightarrow> bool option" where
  "datetime_is_valid_value_slow L t = (if time_type t = MYSQL_TIMESTAMP_NONE then Some True else is_valid_datetime_slow L t)"

definition is_valid_datetime :: "time_lib \<Rightarrow> MYSQL_TIME \<Rightarrow> bool option" where
  "is_valid_datetime L t = do {
     dbug_assert (datetime_is_valid_value_slow L t);
     Some (time_type t = MYSQL_TIMESTAMP_DATETIME) }"

definition date_to_datetime_if_needed :: "MYSQL_TIME \<Rightarrow> MYSQL_TIME option" where
  "date_to_datetime_if_needed t = (if time_type t = MYSQL_TIMESTAMP_DATE then date_to_datetime t else Some t)"

definition with_date_of_sec6 :: "time_lib \<Rightarrow> warn \<Rightarrow> Sec6 \<Rightarrow> date_mode_t \<Rightarrow> MYSQL_TIME \<Rightarrow> (MYSQL_TIME \<times> warn) option" where
  "with_date_of_sec6 L warn nr flags t = do {
     dbug_assert (Some (\<not> conv_mode_bool (date_mode_and_conv flags TIME_TIME_ONLY)));
     (rc, t, warn) \<leftarrow> to_datetime_or_date L nr t warn (date_mode_conv flags);
     Some (if rc then t\<lparr>time_type := MYSQL_TIMESTAMP_NONE\<rparr> else t, warn) }"

definition datetime_of_sec6 :: "time_lib \<Rightarrow> warn \<Rightarrow> Sec6 \<Rightarrow> date_mode_t \<Rightarrow> MYSQL_TIME \<Rightarrow> (MYSQL_TIME \<times> warn) option" where
  "datetime_of_sec6 L warn nr flags t = do {
     (t, warn) \<leftarrow> with_date_of_sec6 L warn nr flags t;
     t \<leftarrow> date_to_datetime_if_needed t;
     dbug_assert (datetime_is_valid_value_slow L t);
     Some (t, warn) }"

definition round_or_invalidate_nsec :: "time_lib \<Rightarrow> nat \<Rightarrow> warn \<Rightarrow> ulong \<Rightarrow> MYSQL_TIME \<Rightarrow> (bool \<times> MYSQL_TIME \<times> warn) option" where
  "round_or_invalidate_nsec L dec warn nsec t = do {
     dbug_assert (is_valid_datetime_slow L t);
     let (rc, t, warn) = datetime_round_or_invalidate L dec warn nsec t;
     dbug_assert (datetime_is_valid_value_slow L t);
     Some (rc, t, warn) }"

definition datetime_of_sec9 :: "time_lib \<Rightarrow> warn \<Rightarrow> Sec9 \<Rightarrow> date_mode_t \<Rightarrow> MYSQL_TIME \<Rightarrow> (MYSQL_TIME \<times> warn) option" where
  "datetime_of_sec9 L warn nr fuzzydate t = do {
     (t, warn) \<leftarrow> datetime_of_sec6 L warn (Sec6.truncate nr) fuzzydate t;
     v \<leftarrow> is_valid_datetime L t;
     (t, warn) \<leftarrow> (if \<not> v then Some (t, warn)
        else do { r \<leftarrow> date_mode_round fuzzydate;
                  if r = TIME_FRAC_ROUND then map_option snd (round_or_invalidate_nsec L 6 warn (m_nsec nr) t) else Some (t, warn) });
     dbug_assert (datetime_is_valid_value_slow L t);
     Some (t, warn) }"

definition datetime_of_ymd :: "time_lib \<Rightarrow> uint \<Rightarrow> uint \<Rightarrow> uint \<Rightarrow> TimeOfDay6 \<Rightarrow> MYSQL_TIME option" where
  "datetime_of_ymd L year_arg month_arg day_arg td = do {
     let t = \<lparr>year = year_arg, month = month_arg, day = day_arg, hour = td_hour td, minute = td_minute td, second = td_second td,
              second_part = td_usecond td, neg = False, time_type = MYSQL_TIMESTAMP_DATETIME\<rparr>;
     v \<leftarrow> is_valid_datetime_slow L t;
     Some (if \<not> v then t\<lparr>time_type := MYSQL_TIMESTAMP_NONE\<rparr> else t) }"

definition time_of_day :: "time_lib \<Rightarrow> TimeOfDay6 \<Rightarrow> MYSQL_TIME \<Rightarrow> MYSQL_TIME option" where
  "time_of_day L td t = do { dbug_assert (is_valid_datetime L t); datetime_of_ymd L (year t) (month t) (day t) td }"

definition hhmmssff_is_zero :: "time_lib \<Rightarrow> MYSQL_TIME \<Rightarrow> bool option" where
  "hhmmssff_is_zero L t = do {
     dbug_assert (is_valid_datetime_slow L t);
     Some (hour t = 0 \<and> minute t = 0 \<and> second t = 0 \<and> second_part t = 0) }"

definition datetime_copy_to_mysql_time :: "time_lib \<Rightarrow> MYSQL_TIME \<Rightarrow> MYSQL_TIME \<Rightarrow> (bool \<times> MYSQL_TIME) option" where
  "datetime_copy_to_mysql_time L t ltime =
     (if time_type t = MYSQL_TIMESTAMP_NONE then Some (True, ltime\<lparr>time_type := MYSQL_TIMESTAMP_NONE\<rparr>)
      else do { dbug_assert (is_valid_datetime_slow L t); Some (False, t) })"

definition datetime_copy_as :: "time_lib \<Rightarrow> enum_mysql_timestamp_type \<Rightarrow> MYSQL_TIME \<Rightarrow> MYSQL_TIME \<Rightarrow> (bool \<times> MYSQL_TIME) option" where
  "datetime_copy_as L type t ltime = do {
     dbug_assert (Some (type = MYSQL_TIMESTAMP_DATE \<or> type = MYSQL_TIMESTAMP_DATETIME));
     (rc, ltime) \<leftarrow> datetime_copy_to_mysql_time L t ltime;
     if rc then Some (True, ltime)
     else do { (if type \<noteq> MYSQL_TIMESTAMP_DATE then Some () else dbug_assert (hhmmssff_is_zero L t));
               Some (False, ltime\<lparr>time_type := type\<rparr>) } }"

definition datetime_trunc :: "time_lib \<Rightarrow> nat \<Rightarrow> MYSQL_TIME \<Rightarrow> MYSQL_TIME option" where
  "datetime_trunc L dec t = do {
     v \<leftarrow> is_valid_datetime L t;
     t \<leftarrow> (if v then my_datetime_trunc (log_10_int L) t dec else Some t);
     dbug_assert (datetime_is_valid_value_slow L t);
     Some t }"

definition datetime_ceiling :: "time_lib \<Rightarrow> warn \<Rightarrow> MYSQL_TIME \<Rightarrow> (MYSQL_TIME \<times> warn) option" where
  "datetime_ceiling L warn t = do {
     v \<leftarrow> is_valid_datetime L t;
     (t, warn) \<leftarrow> (if v \<and> second_part t \<noteq> 0 then map_option snd (round_or_invalidate_nsec L 0 warn 999999999 t) else Some (t, warn));
     dbug_assert (datetime_is_valid_value_slow L t);
     Some (t, warn) }"

definition hhmmss_to_seconds_abs :: "time_lib \<Rightarrow> MYSQL_TIME \<Rightarrow> longlong option" where
  "hhmmss_to_seconds_abs L t = do {
     dbug_assert (is_valid_datetime_slow L t);
     Some (ucast (hour t * 3600 + minute t * 60 + second t)) }"

definition datetime_to_seconds :: "time_lib \<Rightarrow> MYSQL_TIME \<Rightarrow> longlong option" where
  "datetime_to_seconds L t = do {
     s \<leftarrow> hhmmss_to_seconds_abs L t;
     Some ((if neg t then - s else s) + ucast (calc_daynr L (year t) (month t) (day t)) * 24 * 3600) }"

section \<open>Extract_source\<close>

definition time_to_daytime_interval :: "MYSQL_TIME \<Rightarrow> MYSQL_TIME option" where
  "time_to_daytime_interval t = do {
     dbug_assert (Some (time_type t = MYSQL_TIMESTAMP_TIME));
     dbug_assert (Some (has_zero_YYYYMMDD t));
     Some (t\<lparr>day := hour t div 24, hour := hour t mod 24\<rparr>) }"

definition is_valid_extract_source_slow :: "MYSQL_TIME \<Rightarrow> bool option" where
  "is_valid_extract_source_slow t = do {
     v \<leftarrow> is_valid_temporal t;
     Some (v \<and> hour t < 24 \<and> (has_zero_YYYYMM t \<or> time_type t \<noteq> MYSQL_TIMESTAMP_TIME)) }"

definition extract_is_valid_value_slow :: "MYSQL_TIME \<Rightarrow> bool option" where
  "extract_is_valid_value_slow t = (if time_type t = MYSQL_TIMESTAMP_NONE then Some True else is_valid_extract_source_slow t)"

text \<open>The constructor, after the conversion of the item to a value.\<close>

definition make_Extract_source :: "MYSQL_TIME \<Rightarrow> MYSQL_TIME option" where
  "make_Extract_source t = do {
     t \<leftarrow> (if time_type t = MYSQL_TIMESTAMP_TIME then time_to_daytime_interval t else Some t);
     dbug_assert (extract_is_valid_value_slow t);
     Some t }"

definition extract_get_mysql_time :: "MYSQL_TIME \<Rightarrow> MYSQL_TIME option" where
  "extract_get_mysql_time t = do { dbug_assert (is_valid_extract_source_slow t); Some t }"

text \<open>An \<open>int\<close> is 32 bits and read with its sign.\<close>

definition es_sign :: "MYSQL_TIME \<Rightarrow> uint option" where
  "es_sign t = do { t \<leftarrow> extract_get_mysql_time t; Some (if neg t then -1 else 1) }"

definition es_year :: "MYSQL_TIME \<Rightarrow> uint option" where "es_year t = map_option year (extract_get_mysql_time t)"
definition es_month :: "MYSQL_TIME \<Rightarrow> uint option" where "es_month t = map_option month (extract_get_mysql_time t)"
definition es_day :: "MYSQL_TIME \<Rightarrow> uint option" where
  "es_day t = do { u \<leftarrow> extract_get_mysql_time t; s \<leftarrow> es_sign t; Some (day u * s) }"
definition es_hour :: "MYSQL_TIME \<Rightarrow> uint option" where
  "es_hour t = do { u \<leftarrow> extract_get_mysql_time t; s \<leftarrow> es_sign t; Some (hour u * s) }"
definition es_minute :: "MYSQL_TIME \<Rightarrow> uint option" where
  "es_minute t = do { u \<leftarrow> extract_get_mysql_time t; s \<leftarrow> es_sign t; Some (minute u * s) }"
definition es_second :: "MYSQL_TIME \<Rightarrow> uint option" where
  "es_second t = do { u \<leftarrow> extract_get_mysql_time t; s \<leftarrow> es_sign t; Some (second u * s) }"
definition es_microsecond :: "MYSQL_TIME \<Rightarrow> uint option" where
  "es_microsecond t = do { u \<leftarrow> extract_get_mysql_time t; s \<leftarrow> es_sign t; Some (second_part u * s) }"

definition year_month :: "MYSQL_TIME \<Rightarrow> uint option" where
  "year_month t = do { y \<leftarrow> es_year t; m \<leftarrow> es_month t; Some (y * 100 + m) }"
definition es_quarter :: "MYSQL_TIME \<Rightarrow> uint option" where
  "es_quarter t = do { m \<leftarrow> es_month t; Some ((m + 2) div 3) }"
definition second_microsecond :: "MYSQL_TIME \<Rightarrow> longlong option" where
  "second_microsecond t = do { s \<leftarrow> es_second t; u \<leftarrow> es_microsecond t; Some (scast s * 1000000 + scast u) }"
definition day_hour :: "MYSQL_TIME \<Rightarrow> longlong option" where
  "day_hour t = do { d \<leftarrow> es_day t; h \<leftarrow> es_hour t; Some (scast d * 100 + scast h) }"
definition day_minute :: "MYSQL_TIME \<Rightarrow> longlong option" where
  "day_minute t = do { d \<leftarrow> day_hour t; m \<leftarrow> es_minute t; Some (d * 100 + scast m) }"
definition day_second :: "MYSQL_TIME \<Rightarrow> longlong option" where
  "day_second t = do { d \<leftarrow> day_minute t; s \<leftarrow> es_second t; Some (d * 100 + scast s) }"
definition day_microsecond :: "MYSQL_TIME \<Rightarrow> longlong option" where
  "day_microsecond t = do { d \<leftarrow> day_second t; u \<leftarrow> es_microsecond t; Some (d * 1000000 + scast u) }"
definition hour_minute :: "MYSQL_TIME \<Rightarrow> uint option" where
  "hour_minute t = do { h \<leftarrow> es_hour t; m \<leftarrow> es_minute t; Some (h * 100 + m) }"
definition hour_second :: "MYSQL_TIME \<Rightarrow> uint option" where
  "hour_second t = do { h \<leftarrow> hour_minute t; s \<leftarrow> es_second t; Some (h * 100 + s) }"
definition hour_microsecond :: "MYSQL_TIME \<Rightarrow> longlong option" where
  "hour_microsecond t = do { h \<leftarrow> hour_second t; u \<leftarrow> es_microsecond t; Some (scast h * 1000000 + scast u) }"
definition minute_second :: "MYSQL_TIME \<Rightarrow> uint option" where
  "minute_second t = do { m \<leftarrow> es_minute t; s \<leftarrow> es_second t; Some (m * 100 + s) }"
definition minute_microsecond :: "MYSQL_TIME \<Rightarrow> longlong option" where
  "minute_microsecond t = do { m \<leftarrow> minute_second t; u \<leftarrow> es_microsecond t; Some (scast m * 1000000 + scast u) }"

section \<open>Timestamp\<close>

text \<open>\<open>struct timeval\<close> has two signed members of 32 bits.\<close>

record timeval =
  tv_sec :: uint
  tv_usec :: uint

definition make_Timeval :: "uint \<Rightarrow> ulong \<Rightarrow> timeval option" where
  "make_Timeval sec usec = (if usec < 1000000 then Some \<lparr>tv_sec = sec, tv_usec = usec\<rparr> else None)"

definition add_nanoseconds_usec :: "uint \<Rightarrow> timeval \<Rightarrow> (bool \<times> timeval) option" where
  "add_nanoseconds_usec nanoseconds t =
     (if \<not> nanoseconds \<le> 1000000000 then None
      else if nanoseconds < 500 then Some (False, t)
      else let t = t\<lparr>tv_usec := tv_usec t + (nanoseconds + 500) div 1000\<rparr>
           in if sint (tv_usec t) < 1000000 then Some (False, t)
              else Some (True, t\<lparr>tv_usec := word_of_int (sint (tv_usec t) smod 1000000)\<rparr>))"

definition timestamp_cmp :: "timeval \<Rightarrow> timeval \<Rightarrow> int" where
  "timestamp_cmp a b =
     (if sint (tv_sec a) < sint (tv_sec b) then -1 else if sint (tv_sec a) > sint (tv_sec b) then 1
      else if sint (tv_usec a) < sint (tv_usec b) then -1 else if sint (tv_usec a) > sint (tv_usec b) then 1 else 0)"

definition my_timeval_trunc :: "(nat \<Rightarrow> ulonglong) \<Rightarrow> timeval \<Rightarrow> nat \<Rightarrow> timeval option" where
  "my_timeval_trunc log tv decimals = do {
     r \<leftarrow> my_time_fraction_remainder log (tv_usec tv) decimals;
     Some (tv\<lparr>tv_usec := tv_usec tv - r\<rparr>) }"

record Timestamp_or_zero_datetime =
  ts_value :: timeval
  m_is_zero_datetime :: bool

definition ts_zero :: Timestamp_or_zero_datetime where
  "ts_zero = \<lparr>ts_value = \<lparr>tv_sec = 0, tv_usec = 0\<rparr>, m_is_zero_datetime = True\<rparr>"

definition ts_trunc :: "(nat \<Rightarrow> ulonglong) \<Rightarrow> nat \<Rightarrow> Timestamp_or_zero_datetime \<Rightarrow> Timestamp_or_zero_datetime option" where
  "ts_trunc log decimals t =
     (if \<not> m_is_zero_datetime t then map_option (\<lambda>v. t\<lparr>ts_value := v\<rparr>) (my_timeval_trunc log (ts_value t) decimals) else Some t)"

definition ts_cmp :: "Timestamp_or_zero_datetime \<Rightarrow> Timestamp_or_zero_datetime \<Rightarrow> int" where
  "ts_cmp a b =
     (if m_is_zero_datetime a then if m_is_zero_datetime b then 0 else -1
      else if m_is_zero_datetime b then 1 else timestamp_cmp (ts_value a) (ts_value b))"

section \<open>The states of Time\<close>

lemma valid_TIME_slow [simp]: "valid_TIME t \<Longrightarrow> is_valid_time_slow t"
  by (simp add: valid_TIME_def is_valid_time_slow_def)

lemma time_state_slow [simp]: "time_state t \<Longrightarrow> time_is_valid_value_slow t"
  by (auto simp: time_state_def time_is_valid_value_slow_def)

lemma time_state_is_valid: "time_state t \<Longrightarrow> is_valid_time t = Some (time_type t \<noteq> MYSQL_TIMESTAMP_NONE)"
  by (auto simp: is_valid_time_def time_state_def time_is_valid_value_slow_def valid_TIME_def)

lemma time_state_none [intro]: "time_type t = MYSQL_TIMESTAMP_NONE \<Longrightarrow> time_state t"
  by (simp add: time_state_def)

lemma time_state_valid [intro]: "valid_TIME t \<Longrightarrow> time_state t"
  by (simp add: time_state_def)

lemma time_state_TIME: "time_state t \<Longrightarrow> time_type t \<noteq> MYSQL_TIMESTAMP_NONE \<Longrightarrow> valid_TIME t"
  by (simp add: time_state_def)

lemma valid_TIME_type: "valid_TIME t \<Longrightarrow> time_type t = MYSQL_TIMESTAMP_TIME"
  by (simp add: valid_TIME_def)

lemma has_valid_mmssff_le:
  "has_valid_mmssff t \<Longrightarrow> unat u \<le> unat (second_part t) \<Longrightarrow> has_valid_mmssff (t\<lparr>second_part := u\<rparr>)"
  by (simp add: has_valid_mmssff_def)

lemma time_trunc_valid:
  assumes "time_lib_ok L" "valid_TIME t" "dec \<le> 6"
  obtains t' where "my_time_trunc (log_10_int L) t dec = Some t'" "valid_TIME t'"
    "unat (second_part t') = trunc_usec dec (unat (second_part t))"
    "t' = t\<lparr>second_part := second_part t', neg := neg t \<and> non_zero_hhmmssuu t'\<rparr>"
proof -
  have v: "has_valid_mmssff t" using assms(2) by (simp add: valid_TIME_def)
  from my_time_trunc_value [OF _ v assms(3)] time_lib_okD(1) [OF assms(1)] obtain t' where
    t: "my_time_trunc (log_10_int L) t dec = Some t'" "unat (second_part t') = trunc_usec dec (unat (second_part t))"
      "t' = t\<lparr>second_part := second_part t', neg := neg t \<and> non_zero_hhmmssuu t'\<rparr>" by blast
  have "valid_TIME (t\<lparr>second_part := u, neg := n\<rparr>)" if "unat u \<le> unat (second_part t)" for u n
    using assms(2) that by (auto simp: valid_TIME_def has_zero_YYYYMMDD_def has_valid_mmssff_def)
  then have "valid_TIME t'" by (subst t(3)) (simp add: t(2))
  with t show thesis by (intro that)
qed

text \<open>From a date or a datetime: the hours stay below 32 days.\<close>

lemma mix_to_hours_bound:
  fixes d h :: uint
  assumes "d \<le> 31" "h \<le> 23"
  shows "unat (h + d * 24) = unat h + unat d * 24" "unat (h + d * 24) \<le> 767"
proof -
  have b: "unat d \<le> 31" "unat h \<le> 23" using assms by (simp_all add: word_le_nat_alt)
  then show "unat (h + d * 24) = unat h + unat d * 24" by (simp add: unat_word_ariths)
  with b show "unat (h + d * 24) \<le> 767" by simp
qed

lemma minus_current_date_valid:
  assumes "time_lib_ok L"
  obtains t' where "datetime_to_time_minus_current_date L t = Some t'" "valid_TIME t'"
proof -
  define d where "d = snd (calc_time_diff L t (set_current_date L) 1 (make_date_mode 0))"
  define u where "u = fst (snd (check_time_range L d TIME_SECOND_PART_DIGITS 0))"
  have "time_type d = MYSQL_TIMESTAMP_TIME" "has_zero_YYYYMMDD d" "has_valid_mmssff d"
    using time_lib_okD(7) [OF assms] by (simp_all add: calc_time_diff_ok_def d_def Let_def)
  then have "valid_TIME u" using time_lib_okD(6) [OF assms] by (simp add: check_time_range_ok_def u_def Let_def)
  moreover from this have "is_valid_time u = Some True" by (simp add: time_state_is_valid time_state_valid valid_TIME_type)
  ultimately show thesis by (intro that [of u]) (simp_all add: datetime_to_time_minus_current_date_def flip: d_def u_def)
qed

lemma valid_datetime_to_valid_time_valid:
  assumes "time_lib_ok L" "valid_date_or_datetime t"
  obtains t' w' where "valid_datetime_to_valid_time L w opt t = Some (t', w')" "valid_TIME t'"
proof -
  have v: "time_type t = MYSQL_TIMESTAMP_DATE \<or> time_type t = MYSQL_TIMESTAMP_DATETIME" "day t \<le> 31" "hour t \<le> 23" "has_valid_mmssff t"
    using assms(2) by (simp_all add: valid_date_or_datetime_def normalized_def)
  then have lt: "day t < 32" "hour t < 24" by (simp_all add: word_le_nat_alt word_less_nat_alt)
  show thesis
  proof (cases "datetime_to_time_mode opt = DATETIME_TO_TIME_MINUS_CURRENT_DATE")
    case True
    obtain t' where t': "datetime_to_time_minus_current_date L t = Some t'" "valid_TIME t'" by (rule minus_current_date_valid [OF assms(1)])
    show thesis by (rule that [OF _ t'(2), of w]) (use True v(1) lt t' in \<open>simp add: valid_datetime_to_valid_time_def\<close>)
  next
    case False
    define p where "p = (if datetime_to_time_mode opt = DATETIME_TO_TIME_YYYYMMDD_000000DD_MIX_TO_HOURS
      then datetime_to_time_mix_to_hours w (year t) (month t) (day t) t else (t, w))"
    let ?t = "(fst p)\<lparr>year := 0, month := 0, day := 0, time_type := MYSQL_TIMESTAMP_TIME\<rparr>"
    have "unat (hour t) \<le> 838" using v(3) by (simp add: word_le_nat_alt)
    then have "unat (hour (fst p)) \<le> 838" "has_valid_mmssff (fst p)"
      using v(4) mix_to_hours_bound(2) [OF v(2,3)]
      by (auto simp: p_def datetime_to_time_mix_to_hours_def has_valid_mmssff_def)
    then have vt: "valid_TIME ?t" by (simp add: valid_TIME_def has_zero_YYYYMMDD_def has_valid_mmssff_def time_limits)
    then show thesis
      by (rule that [of ?t "snd p", rotated])
        (use False v(1) lt vt in \<open>simp add: valid_datetime_to_valid_time_def p_def [symmetric] split_beta\<close>)
  qed
qed

lemma to_valid_value:
  assumes "time_lib_ok L" "time_state t \<or> valid_date_or_datetime t"
  obtains t' w' where "valid_MYSQL_TIME_to_valid_value L w opt t = Some (t', w')" "time_state t'"
    "time_type t' = MYSQL_TIMESTAMP_NONE \<Longrightarrow> time_type t = MYSQL_TIMESTAMP_NONE \<and> w' = w \<or> w' \<noteq> 0"
proof -
  consider (none) "time_type t = MYSQL_TIMESTAMP_NONE" | (time) "valid_TIME t" | (date) "valid_date_or_datetime t"
    using assms(2) by (auto simp: time_state_def)
  then show thesis
  proof cases
    case none
    then show thesis by (intro that [of t w]) (auto simp: valid_MYSQL_TIME_to_valid_value_def)
  next
    case time
    then show thesis
      by (intro that [of t w]) (auto simp: valid_MYSQL_TIME_to_valid_value_def valid_TIME_type)
  next
    case date
    then have ty: "time_type t = MYSQL_TIMESTAMP_DATE \<or> time_type t = MYSQL_TIMESTAMP_DATETIME" by (simp add: valid_date_or_datetime_def)
    obtain t' w' where c: "valid_datetime_to_valid_time L w opt t = Some (t', w')" "valid_TIME t'"
      by (rule valid_datetime_to_valid_time_valid [OF assms(1) date])
    have o: "time_state (fst (make_from_out_of_range t))" "snd (make_from_out_of_range t) \<noteq> 0"
      by (auto simp: make_from_out_of_range_def MYSQL_TIME_WARN_OUT_OF_RANGE_def)
    let ?reject = "datetime_to_time_mode opt = DATETIME_TO_TIME_YYYYMMDD_00000000_ONLY \<and> (year t \<noteq> 0 \<or> month t \<noteq> 0 \<or> day t \<noteq> 0) \<or>
      datetime_to_time_mode opt = DATETIME_TO_TIME_DISALLOW"
    have eq: "valid_MYSQL_TIME_to_valid_value L w opt t = (if ?reject then Some (make_from_out_of_range t) else valid_datetime_to_valid_time L w opt t)"
      using ty by (auto simp: valid_MYSQL_TIME_to_valid_value_def)
    show thesis
    proof (cases ?reject)
      case True
      with eq o show thesis by (intro that [of "fst (make_from_out_of_range t)" "snd (make_from_out_of_range t)"]) auto
    next
      case False
      with eq c show thesis by (intro that [of t' w']) (auto dest: valid_TIME_type)
    qed
  qed
qed

lemma to_datetime_or_time_result:
  assumes "time_lib_ok L"
  obtains rc t' w' where "to_datetime_or_time L nr t w mode = Some (rc, t', w')" "rc \<Longrightarrow> w' \<noteq> 0"
    "\<not> rc \<Longrightarrow> valid_TIME t' \<or> valid_date_or_datetime t'"
proof (cases "m_sec nr > 9999999 \<and> m_sec nr \<le> 99991231235959 \<and> \<not> m_neg nr")
  case True
  obtain r t' w' where c: "number_to_datetime_or_date L (m_sec nr) (m_usec nr) t
      (conv_mode_ulonglong (conv_mode_and mode TIME_MODE_FOR_XXX_TO_DATE)) w = (r, t', w')" by (rule prod_cases3)
  note ok = time_lib_okD(4) [OF assms, unfolded number_to_datetime_ok_def, rule_format, of "m_sec nr" "m_usec nr" t
      "conv_mode_ulonglong (conv_mode_and mode TIME_MODE_FOR_XXX_TO_DATE)" w, unfolded c prod.case]
  then show thesis using True c
    by (intro that [of "sint r < 0" t' w']) (auto simp: to_datetime_or_time_def split: if_splits)
next
  case False
  obtain rc t' w' where c: "number_to_time_only L (m_neg nr) (m_sec nr) (m_usec nr) TIME_MAX_HOUR t w = (rc, t', w')" by (rule prod_cases3)
  note ok = time_lib_okD(5) [OF assms, unfolded number_to_time_ok_def, rule_format, of "m_neg nr" "m_sec nr" "m_usec nr" t w,
      unfolded c prod.case]
  then show thesis using False c
    by (intro that [of rc t' w']) (auto simp: to_datetime_or_time_def split: if_splits)
qed

lemma time_of_sec6_state:
  assumes "time_lib_ok L"
  obtains t' w' where "time_of_sec6 L w nr opt t = Some (t', w')" "time_state t'" "time_type t' = MYSQL_TIMESTAMP_NONE \<Longrightarrow> w' \<noteq> 0"
proof -
  obtain rc u w1 where u: "to_datetime_or_time L nr t w TIME_INVALID_DATES = Some (rc, u, w1)" "rc \<Longrightarrow> w1 \<noteq> 0"
    "\<not> rc \<Longrightarrow> valid_TIME u \<or> valid_date_or_datetime u" using to_datetime_or_time_result [OF assms, of nr t w TIME_INVALID_DATES] by metis
  define x where "x = (if rc then u\<lparr>time_type := MYSQL_TIMESTAMP_NONE\<rparr> else u)"
  have x: "time_state x \<or> valid_date_or_datetime x" "time_type x \<noteq> MYSQL_TIMESTAMP_ERROR" "time_type x = MYSQL_TIMESTAMP_NONE \<Longrightarrow> w1 \<noteq> 0"
    using u(2,3) by (cases rc; auto simp: x_def valid_TIME_def valid_date_or_datetime_def time_state_def)+
  from to_valid_value [OF assms x(1)] obtain t' w' where
    t': "valid_MYSQL_TIME_to_valid_value L w1 opt x = Some (t', w')" "time_state t'"
      "time_type t' = MYSQL_TIMESTAMP_NONE \<Longrightarrow> time_type x = MYSQL_TIMESTAMP_NONE \<and> w' = w1 \<or> w' \<noteq> 0" by metis
  have "time_of_sec6 L w nr opt t = Some (t', w')"
    using u(1) t'(1) x(2) by (simp add: time_of_sec6_def xxx_to_time_result_to_valid_value_def x_def)
  with t'(2,3) x(3) show thesis by (intro that) auto
qed

lemma time_of_sec9_state:
  assumes "time_lib_ok L" "date_mode_round (opt_mode opt) \<noteq> None"
  shows "\<exists>t' w'. time_of_sec9 L w nr opt t = Some (t', w') \<and> time_state t'"
proof -
  obtain t' w' where t': "time_of_sec6 L w (Sec6.truncate nr) opt t = Some (t', w')" "time_state t'"
    by (rule time_of_sec6_state [OF assms(1)]) blast
  obtain r where r: "date_mode_round (opt_mode opt) = Some r" using assms(2) by blast
  have ok: "time_state (fst (time_round_or_set_max_nsec L 6 w' (m_nsec nr) t'))" if "time_type t' \<noteq> MYSQL_TIMESTAMP_NONE"
    using time_lib_okD(8) [OF assms(1)] time_state_TIME [OF t'(2) that] unfolding rounding_ok_def by blast
  show ?thesis
    using t' r ok by (cases "time_round_or_set_max_nsec L 6 w' (m_nsec nr) t'") (auto simp: time_of_sec9_def time_state_is_valid)
qed

lemma time_modifiers_state:
  assumes "time_lib_ok L" "time_state t"
  shows "dec \<le> 6 \<Longrightarrow> \<exists>t'. time_trunc L dec t = Some t' \<and> time_state t'"
    "\<exists>t' w'. time_ceiling L w t = Some (t', w') \<and> time_state t'"
    "\<exists>t' w'. time_floor L w t = Some (t', w') \<and> time_state t'"
    "\<exists>t' w'. time_round L dec w t = Some (t', w') \<and> time_state t'"
proof -
  note v = time_state_is_valid [OF assms(2)]
  have tr: "\<exists>t'. my_time_trunc (log_10_int L) t d = Some t' \<and> time_state t'" if "d \<le> 6" "time_type t \<noteq> MYSQL_TIMESTAMP_NONE" for d
    using time_trunc_valid [OF assms(1) time_state_TIME [OF assms(2) that(2)] that(1)] by blast
  have ro: "time_state (fst (time_round_or_set_max_nsec L d w n t))" "time_state (fst (time_round_or_set_max L d w t))"
    if "time_type t \<noteq> MYSQL_TIMESTAMP_NONE" for d w n
    using time_lib_okD(8) [OF assms(1)] time_state_TIME [OF assms(2) that] unfolding rounding_ok_def by blast+
  show "\<exists>t'. time_trunc L dec t = Some t' \<and> time_state t'" if "dec \<le> 6"
    using v assms(2) tr [OF that] by (auto simp: time_trunc_def)
  show "\<exists>t' w'. time_ceiling L w t = Some (t', w') \<and> time_state t'" "\<exists>t' w'. time_floor L w t = Some (t', w') \<and> time_state t'"
    using v assms(2) tr [of 0] ro(1) [of 0 w 999999999]
    by (cases "time_type t = MYSQL_TIMESTAMP_NONE"; cases "time_round_or_set_max_nsec L 0 w 999999999 t";
        auto simp: time_ceiling_def time_floor_def)+
  show "\<exists>t' w'. time_round L dec w t = Some (t', w') \<and> time_state t'"
    using v assms(2) ro(2) [of dec w]
    by (cases "time_type t = MYSQL_TIMESTAMP_NONE"; cases "time_round_or_set_max L dec w t"; auto simp: time_round_def)
qed

text \<open>The class invariant of \<open>Time\<close>: given library routines that behave as documented, no assertion fails and the object is left with a
  time of the TIME range or without a value, by the constructors from numbers and from a valid date, datetime or time for each of the five
  ways to treat the date, and by truncation, ceiling, floor and rounding. A number that gives no value leaves a warning.\<close>

theorem time_valid_states:
  assumes "time_lib_ok L" "time_state t" "dec \<le> 6" "date_mode_round (opt_mode opt) \<noteq> None"
  shows "(\<exists>u w'. time_of_sec6 L w nr opt x = Some (u, w') \<and> time_state u \<and> (time_type u = MYSQL_TIMESTAMP_NONE \<longrightarrow> w' \<noteq> 0)) \<and>
    (\<exists>u w'. time_of_sec9 L w nr9 opt x = Some (u, w') \<and> time_state u) \<and>
    (valid_TIME x \<or> valid_date_or_datetime x \<longrightarrow> (\<exists>u. time_of_MYSQL_TIME L opt x = Some u \<and> time_state u)) \<and>
    (\<exists>u. time_trunc L dec t = Some u \<and> time_state u) \<and>
    (\<exists>u w'. time_ceiling L w t = Some (u, w') \<and> time_state u) \<and> (\<exists>u w'. time_floor L w t = Some (u, w') \<and> time_state u) \<and>
    (\<exists>u w'. time_round L dec w t = Some (u, w') \<and> time_state u)"
proof (intro conjI impI)
  show "\<exists>u w'. time_of_sec6 L w nr opt x = Some (u, w') \<and> time_state u \<and> (time_type u = MYSQL_TIMESTAMP_NONE \<longrightarrow> w' \<noteq> 0)"
    by (rule time_of_sec6_state [OF assms(1)]) blast
  show "\<exists>u. time_of_MYSQL_TIME L opt x = Some u \<and> time_state u" if x: "valid_TIME x \<or> valid_date_or_datetime x"
  proof -
    have "time_type x \<noteq> MYSQL_TIMESTAMP_ERROR" "time_type x \<noteq> MYSQL_TIMESTAMP_NONE"
      using x by (auto simp: valid_TIME_def valid_date_or_datetime_def)
    moreover obtain u w' where "valid_MYSQL_TIME_to_valid_value L 0 opt x = Some (u, w')" "time_state u"
      using to_valid_value [OF assms(1)] x time_state_valid by metis
    ultimately show ?thesis by (auto simp: time_of_MYSQL_TIME_def is_valid_temporal_def)
  qed
qed (use time_of_sec9_state [OF assms(1,4)] time_modifiers_state [OF assms(1,2)] assms(3) in blast)+

theorem time_valid_states_witness:
  "\<exists>u. time_of_MYSQL_TIME plain_time_lib \<lparr>opt_mode = Date_mode FRAC_ROUND, datetime_to_time_mode = DATETIME_TO_TIME_YYYYMMDD_000000DD_MIX_TO_HOURS\<rparr>
     ((zero_time MYSQL_TIMESTAMP_DATETIME)\<lparr>day := 31, hour := 23\<rparr>) = Some u \<and> time_state u"
proof -
  have "valid_date_or_datetime ((zero_time MYSQL_TIMESTAMP_DATETIME)\<lparr>day := 31, hour := 23\<rparr>)"
    by (simp add: valid_date_or_datetime_def normalized_def has_valid_mmssff_def zero_time_def time_limits)
  moreover have "date_mode_round (Date_mode FRAC_ROUND) \<noteq> None"
    by (simp add: date_mode_round_def date_mode_ulonglong_def make_time_round_mode_def mode_bits)
  ultimately show ?thesis
    using time_valid_states [OF plain_time_lib_ok, of "zero_time MYSQL_TIMESTAMP_NONE" 6
        "\<lparr>opt_mode = Date_mode FRAC_ROUND, datetime_to_time_mode = DATETIME_TO_TIME_YYYYMMDD_000000DD_MIX_TO_HOURS\<rparr>"
        0 sec6_reset "(zero_time MYSQL_TIMESTAMP_DATETIME)\<lparr>day := 31, hour := 23\<rparr>"]
    by (simp add: time_state_def zero_time_def)
qed

text \<open>Rounding with the mode that expects no digits to drop asserts a valid time even for an object without a value, which the other modes
  leave alone.\<close>

lemma round_none_null:
  assumes "time_type t = MYSQL_TIMESTAMP_NONE" "time_lib_ok L"
  shows "time_round_mode L dec TIME_FRAC_NONE w t = None" "time_round_mode L dec TIME_FRAC_ROUND w t = Some (t, w)"
    "time_round_mode L dec TIME_FRAC_TRUNCATE w t = Some (t, w)"
  using assms(1) by (simp_all add: time_round_mode_def mode_bits time_fraction_remainder_def is_valid_time_def time_is_valid_value_slow_def
      dbug_assert_def time_round_def time_trunc_def)

text \<open>What the conversions to \<open>Time\<close> keep of a date or datetime.\<close>

definition time_part :: "MYSQL_TIME \<Rightarrow> MYSQL_TIME" where
  "time_part x = x\<lparr>year := 0, month := 0, day := 0, time_type := MYSQL_TIMESTAMP_TIME\<rparr>"

definition no_value :: "MYSQL_TIME \<Rightarrow> MYSQL_TIME" where "no_value x = x\<lparr>time_type := MYSQL_TIMESTAMP_NONE\<rparr>"

definition days_to_hours :: "MYSQL_TIME \<Rightarrow> MYSQL_TIME" where
  "days_to_hours x = (time_part x)\<lparr>hour := of_nat (unat (hour x) + 24 * unat (day x))\<rparr>"

definition since_current_date :: "time_lib \<Rightarrow> MYSQL_TIME \<Rightarrow> MYSQL_TIME" where
  "since_current_date L x = fst (snd (check_time_range L (snd (calc_time_diff L x (set_current_date L) 1 (make_date_mode 0))) TIME_SECOND_PART_DIGITS 0))"

lemma valid_datetime_parts:
  assumes "valid_date_or_datetime x"
  shows "time_type x = MYSQL_TIMESTAMP_DATE \<or> time_type x = MYSQL_TIMESTAMP_DATETIME" "day x \<le> 31" "hour x \<le> 23" "has_valid_mmssff x" "day x < 32" "hour x < 24"
  using assms by (auto simp: valid_date_or_datetime_def normalized_def word_le_nat_alt word_less_nat_alt)

lemma time_part_valid:
  assumes "valid_date_or_datetime x"
  shows "valid_TIME (time_part x)" "valid_TIME (days_to_hours x)" "unat (hour (days_to_hours x)) = unat (hour x) + 24 * unat (day x)"
    "of_nat (unat (hour x) + 24 * unat (day x)) = hour x + day x * 24"
proof -
  note v = valid_datetime_parts [OF assms]
  have e: "of_nat (unat (hour x) + 24 * unat (day x)) = hour x + day x * 24" by simp
  then show "of_nat (unat (hour x) + 24 * unat (day x)) = hour x + day x * 24" .
  have h: "unat (hour (days_to_hours x)) = unat (hour x) + 24 * unat (day x)" "unat (hour x) + 24 * unat (day x) \<le> 838" "unat (hour x) \<le> 838"
    using mix_to_hours_bound [OF v(2,3)] v(2,3) by (simp_all add: days_to_hours_def e word_le_nat_alt mult.commute [of 24])
  then show "unat (hour (days_to_hours x)) = unat (hour x) + 24 * unat (day x)" by simp
  show "valid_TIME (time_part x)" using v(4) h(3)
    by (simp add: valid_TIME_def time_part_def has_zero_YYYYMMDD_def has_valid_mmssff_def time_limits)
  have "days_to_hours x = (time_part x)\<lparr>hour := hour (days_to_hours x)\<rparr>" by (simp add: days_to_hours_def)
  then show "valid_TIME (days_to_hours x)" using v(4) h(1,2) unfolding valid_TIME_def
    by (simp add: has_zero_YYYYMMDD_def has_valid_mmssff_def time_limits) (simp add: days_to_hours_def time_part_def)
qed

lemma since_current_date_valid:
  assumes "time_lib_ok L"
  shows "datetime_to_time_minus_current_date L x = Some (since_current_date L x)" "valid_TIME (since_current_date L x)"
proof -
  obtain u where u: "datetime_to_time_minus_current_date L x = Some u" "valid_TIME u" by (rule minus_current_date_valid [OF assms])
  then have "u = since_current_date L x"
    by (auto simp: datetime_to_time_minus_current_date_def since_current_date_def Let_def split: bind_splits)
  then show "datetime_to_time_minus_current_date L x = Some (since_current_date L x)" "valid_TIME (since_current_date L x)" using u by simp_all
qed

text \<open>C22. Making a \<open>Time\<close> of a temporal value, for every mode, with the warnings. A valid time is taken as it is. Of a valid date or datetime the mode \<open>DISALLOW\<close> takes nothing and warns,
  \<open>00000000_ONLY\<close> takes the time of day if the date is zero and otherwise nothing with a warning, \<open>TRUNCATE\<close> takes the time of day, \<open>MIX_TO_HOURS\<close> adds 24 hours for each day when year and
  month are zero, without wrapping, and else takes the time of day with a note, and \<open>MINUS_CURRENT_DATE\<close> takes the difference to the current date cut to the range of TIME. Every
  result is a time of the TIME range or no value, and no assertion fails.
\<close>

theorem time_from_temporal:
  assumes "time_lib_ok L" "valid_TIME x \<or> valid_date_or_datetime x"
  shows "\<exists>u w'. valid_MYSQL_TIME_to_valid_value L w opt x = Some (u, w') \<and> time_state u \<and>
    (if time_type x = MYSQL_TIMESTAMP_TIME then (u, w') = (x, w)
     else case datetime_to_time_mode opt of
         DATETIME_TO_TIME_DISALLOW \<Rightarrow> (u, w') = (no_value x, MYSQL_TIME_WARN_OUT_OF_RANGE)
       | DATETIME_TO_TIME_YYYYMMDD_00000000_ONLY \<Rightarrow>
           (u, w') = (if year x = 0 \<and> month x = 0 \<and> day x = 0 then (time_part x, w) else (no_value x, MYSQL_TIME_WARN_OUT_OF_RANGE))
       | DATETIME_TO_TIME_YYYYMMDD_TRUNCATE \<Rightarrow> (u, w') = (time_part x, w)
       | DATETIME_TO_TIME_YYYYMMDD_000000DD_MIX_TO_HOURS \<Rightarrow>
           (u, w') = (if year x = 0 \<and> month x = 0 then (days_to_hours x, w) else (time_part x, w OR MYSQL_TIME_NOTE_TRUNCATED)) \<and>
           unat (hour (days_to_hours x)) = unat (hour x) + 24 * unat (day x)
       | DATETIME_TO_TIME_MINUS_CURRENT_DATE \<Rightarrow> (u, w') = (since_current_date L x, w)) \<and>
    (w = 0 \<longrightarrow> time_of_MYSQL_TIME L opt x = Some u)"
proof -
  have t: "time_type x \<noteq> MYSQL_TIMESTAMP_ERROR" "time_type x \<noteq> MYSQL_TIMESTAMP_NONE"
    using assms(2) by (auto simp: valid_TIME_def valid_date_or_datetime_def)
  then have c: "time_of_MYSQL_TIME L opt x = map_option fst (valid_MYSQL_TIME_to_valid_value L 0 opt x)"
    by (simp add: time_of_MYSQL_TIME_def is_valid_temporal_def)
  show ?thesis
  proof (cases "time_type x = MYSQL_TIMESTAMP_TIME")
    case True
    then have "valid_TIME x" using assms(2) by (auto simp: valid_date_or_datetime_def)
    then show ?thesis using True c by (simp add: valid_MYSQL_TIME_to_valid_value_def time_state_valid)
  next
    case False
    then have d: "valid_date_or_datetime x" using assms(2) valid_TIME_type by auto
    note v = valid_datetime_parts [OF d]
    note p = time_part_valid [OF d]
    note m = since_current_date_valid [OF assms(1), of x]
    have n: "time_state (no_value x)" "no_value x = fst (make_from_out_of_range x)" "MYSQL_TIME_WARN_OUT_OF_RANGE = snd (make_from_out_of_range x)"
      by (auto simp: no_value_def make_from_out_of_range_def)
    have h: "(x\<lparr>hour := hour x + day x * 24\<rparr>)\<lparr>year := 0, month := 0, day := 0, time_type := MYSQL_TIMESTAMP_TIME\<rparr> = days_to_hours x"
      by (simp add: days_to_hours_def time_part_def p(4))
    have "valid_MYSQL_TIME_to_valid_value L w opt x =
        Some (case datetime_to_time_mode opt of
         DATETIME_TO_TIME_DISALLOW \<Rightarrow> (no_value x, MYSQL_TIME_WARN_OUT_OF_RANGE)
       | DATETIME_TO_TIME_YYYYMMDD_00000000_ONLY \<Rightarrow>
           (if year x = 0 \<and> month x = 0 \<and> day x = 0 then (time_part x, w) else (no_value x, MYSQL_TIME_WARN_OUT_OF_RANGE))
       | DATETIME_TO_TIME_YYYYMMDD_TRUNCATE \<Rightarrow> (time_part x, w)
       | DATETIME_TO_TIME_YYYYMMDD_000000DD_MIX_TO_HOURS \<Rightarrow>
           (if year x = 0 \<and> month x = 0 then (days_to_hours x, w) else (time_part x, w OR MYSQL_TIME_NOTE_TRUNCATED))
       | DATETIME_TO_TIME_MINUS_CURRENT_DATE \<Rightarrow> (since_current_date L x, w))" for w
      using v p(1,2) m n h
      by (cases "datetime_to_time_mode opt") (auto simp: valid_MYSQL_TIME_to_valid_value_def valid_datetime_to_valid_time_def
          datetime_to_time_mix_to_hours_def time_part_def make_from_out_of_range_def)
    then show ?thesis using False c p m(2) n(1) time_state_valid by (cases "datetime_to_time_mode opt") auto
  qed
qed

theorem time_from_temporal_witness:
  "time_of_MYSQL_TIME plain_time_lib \<lparr>opt_mode = Date_mode FRAC_ROUND, datetime_to_time_mode = DATETIME_TO_TIME_YYYYMMDD_000000DD_MIX_TO_HOURS\<rparr>
     ((zero_time MYSQL_TIMESTAMP_DATETIME)\<lparr>day := 31, hour := 23\<rparr>) = Some ((zero_time MYSQL_TIMESTAMP_TIME)\<lparr>hour := 767\<rparr>)"
proof -
  have "valid_date_or_datetime ((zero_time MYSQL_TIMESTAMP_DATETIME)\<lparr>day := 31, hour := 23\<rparr>)"
    by (simp add: valid_date_or_datetime_def normalized_def has_valid_mmssff_def zero_time_def time_limits)
  then show ?thesis
    using time_from_temporal [OF plain_time_lib_ok, of "(zero_time MYSQL_TIMESTAMP_DATETIME)\<lparr>day := 31, hour := 23\<rparr>" 0
        "\<lparr>opt_mode = Date_mode FRAC_ROUND, datetime_to_time_mode = DATETIME_TO_TIME_YYYYMMDD_000000DD_MIX_TO_HOURS\<rparr>"]
    by (auto simp: days_to_hours_def time_part_def zero_time_def)
qed

text \<open>C36. Rounding a \<open>Time\<close> to \<open>dec\<close> digits. The mode \<open>FRAC_TRUNCATE\<close> drops the other digits and the sign of a zero, and leaves an object without a value alone. \<open>FRAC_ROUND\<close> does what
  \<open>round_or_set_max\<close> does to a time and nothing to an object without a value. \<open>FRAC_NONE\<close> fails its assertion when the time has digits to drop, and also, unlike the others, for an
  object without a value; otherwise it keeps the time but for the sign of a zero. \<open>ceiling\<close> of a negative time and \<open>floor\<close> of another one drop the fraction, and change nothing when there is
  no value or, on the other side, no fraction.
\<close>

theorem time_rounding_modes:
  assumes "time_lib_ok L" "time_state t" "dec \<le> 6"
  shows "if time_type t = MYSQL_TIMESTAMP_NONE
    then time_round_mode L dec TIME_FRAC_NONE w t = None \<and> time_round_mode L dec TIME_FRAC_TRUNCATE w t = Some (t, w) \<and>
      time_round_mode L dec TIME_FRAC_ROUND w t = Some (t, w) \<and> time_ceiling L w t = Some (t, w) \<and> time_floor L w t = Some (t, w)
    else (\<exists>u. time_round_mode L dec TIME_FRAC_TRUNCATE w t = Some (u, w) \<and> u = t\<lparr>second_part := second_part u, neg := neg t \<and> non_zero_hhmmssuu u\<rparr> \<and>
        unat (second_part u) = unat (second_part t) - unat (second_part t) mod 10 ^ (6 - dec)) \<and>
      time_round_mode L dec TIME_FRAC_ROUND w t = Some (time_round_or_set_max L dec w t) \<and>
      time_round_mode L dec TIME_FRAC_NONE w t =
        (if unat (second_part t) mod 10 ^ (6 - dec) = 0 then Some (t\<lparr>neg := neg t \<and> non_zero_hhmmssuu t\<rparr>, w) else None) \<and>
      (if neg t then (\<exists>u. time_ceiling L w t = Some (u, w) \<and> u = t\<lparr>second_part := 0, neg := non_zero_hhmmssuu u\<rparr>) \<and> (second_part t = 0 \<longrightarrow> time_floor L w t = Some (t, w))
       else time_floor L w t = Some (t\<lparr>second_part := 0\<rparr>, w) \<and> (second_part t = 0 \<longrightarrow> time_ceiling L w t = Some (t, w)))"
proof (cases "time_type t = MYSQL_TIMESTAMP_NONE")
  case True
  have f: "time_ceiling L w t = Some (t, w)" "time_floor L w t = Some (t, w)"
    using True by (simp_all add: time_ceiling_def time_floor_def is_valid_time_def time_is_valid_value_slow_def)
  show ?thesis using True f round_none_null [OF True assms(1)] by simp
next
  case False
  then have v: "valid_TIME t" using time_state_TIME [OF assms(2)] by simp
  then have val: "is_valid_time t = Some True" by (simp add: time_state_is_valid time_state_valid valid_TIME_type)
  have usec: "unat (second_part t) < 2 ^ 31" using v by (auto simp: valid_TIME_def has_valid_mmssff_def time_limits)
  have tr: "\<exists>u. my_time_trunc (log_10_int L) t d = Some u \<and> time_is_valid_value_slow u \<and> u = t\<lparr>second_part := second_part u, neg := neg t \<and> non_zero_hhmmssuu u\<rparr> \<and>
      unat (second_part u) = unat (second_part t) - unat (second_part t) mod 10 ^ (6 - d)" if "d \<le> 6" for d
    by (rule time_trunc_valid [OF assms(1) v that]) (auto simp: trunc_usec_def minus_mod_eq_div_mult time_state_valid)
  obtain u where u: "my_time_trunc (log_10_int L) t dec = Some u" "time_is_valid_value_slow u" "u = t\<lparr>second_part := second_part u, neg := neg t \<and> non_zero_hhmmssuu u\<rparr>"
    "unat (second_part u) = unat (second_part t) - unat (second_part t) mod 10 ^ (6 - dec)" using tr [OF assms(3)] by blast
  have t1: "time_trunc L dec t = Some u" using val u(1,2) by (simp add: time_trunc_def)
  have rem: "time_fraction_remainder L dec t = Some (of_nat (unat (second_part t) mod 10 ^ (6 - dec)))"
    using fraction_remainder_value [OF _ usec assms(3), of "log_10_int L"] time_lib_okD(1) [OF assms(1)] val
    by (simp add: time_fraction_remainder_def temporal_fraction_remainder_def)
  have zero: "(of_nat n :: ulong) = 0 \<longleftrightarrow> n = 0" if "n < 2 ^ 31" for n using that by (simp add: unat_eq_zero [symmetric] unat_of_nat)
  have z: "(of_nat (unat (second_part t) mod 10 ^ (6 - dec)) :: ulong) = 0 \<longleftrightarrow> unat (second_part t) mod 10 ^ (6 - dec) = 0"
    by (rule zero [OF le_less_trans [OF mod_less_eq_dividend usec]])
  have none: "time_round_mode L dec TIME_FRAC_NONE w t =
      (if unat (second_part t) mod 10 ^ (6 - dec) = 0 then Some (t\<lparr>neg := neg t \<and> non_zero_hhmmssuu t\<rparr>, w) else None)"
  proof (cases "unat (second_part t) mod 10 ^ (6 - dec) = 0")
    case True
    then have e: "second_part u = second_part t" using u(4) by (simp add: word_unat_eq_iff)
    have n: "u = t\<lparr>neg := neg t \<and> non_zero_hhmmssuu u\<rparr>" using u(3) unfolding e by simp
    have "non_zero_hhmmssuu u = non_zero_hhmmssuu t" by (subst n) (simp add: non_zero_hhmmssuu_def)
    with n have "u = t\<lparr>neg := neg t \<and> non_zero_hhmmssuu t\<rparr>" by simp
    then show ?thesis using True t1 rem z by (simp add: time_round_mode_def mode_bits)
  next
    case False
    then show ?thesis using rem z by (simp add: time_round_mode_def mode_bits dbug_assert_def)
  qed
  have "time_state (fst (time_round_or_set_max L dec w t))" using time_lib_okD(8) [OF assms(1)] v unfolding rounding_ok_def by blast
  then have r: "time_round_mode L dec TIME_FRAC_ROUND w t = Some (time_round_or_set_max L dec w t)"
    using val by (simp add: time_round_mode_def mode_bits time_round_def split_beta Let_def)
  obtain c where c: "my_time_trunc (log_10_int L) t 0 = Some c" "time_is_valid_value_slow c" "c = t\<lparr>second_part := second_part c, neg := neg t \<and> non_zero_hhmmssuu c\<rparr>"
    "unat (second_part c) = unat (second_part t) - unat (second_part t) mod 10 ^ 6" using tr [of 0] by auto
  have "unat (second_part t) < 10 ^ 6" using v by (auto simp: valid_TIME_def has_valid_mmssff_def time_limits)
  then have c0: "second_part c = 0" using c(4) by (simp add: unat_eq_zero)
  have cf: "if neg t then time_ceiling L w t = Some (c, w) \<and> (second_part t = 0 \<longrightarrow> time_floor L w t = Some (t, w))
      else time_floor L w t = Some (c, w) \<and> (second_part t = 0 \<longrightarrow> time_ceiling L w t = Some (t, w))"
    using val c(1,2) assms(2) by (auto simp: time_ceiling_def time_floor_def)
  have "c = t\<lparr>second_part := 0\<rparr>" if "\<not> neg t" using c(3) that unfolding c0 by simp
  moreover have "c = t\<lparr>second_part := 0, neg := non_zero_hhmmssuu c\<rparr>" if "neg t" using c(3) that unfolding c0 by simp
  moreover have "time_round_mode L dec TIME_FRAC_TRUNCATE w t = Some (u, w)" using t1 by (simp add: time_round_mode_def mode_bits)
  ultimately show ?thesis unfolding if_not_P [OF False] using u(3,4) none r cf by (cases "neg t") (simp_all only: if_True if_False not_True_eq_False not_False_eq_True, blast+)
qed

theorem time_rounding_modes_witness:
  "time_round_mode plain_time_lib 3 TIME_FRAC_NONE 0 ((zero_time MYSQL_TIMESTAMP_TIME)\<lparr>second_part := 1500\<rparr>) = None \<and>
   time_round_mode plain_time_lib 3 TIME_FRAC_NONE 0 (zero_time MYSQL_TIMESTAMP_NONE) = None"
proof -
  have "time_state ((zero_time MYSQL_TIMESTAMP_TIME)\<lparr>second_part := 1500\<rparr>)" "time_state (zero_time MYSQL_TIMESTAMP_NONE)"
    by (auto simp: time_state_def valid_TIME_def has_zero_YYYYMMDD_def has_valid_mmssff_def zero_time_def time_limits)
  then show ?thesis
    using time_rounding_modes [OF plain_time_lib_ok, of "(zero_time MYSQL_TIMESTAMP_TIME)\<lparr>second_part := 1500\<rparr>" 3 0]
      time_rounding_modes [OF plain_time_lib_ok, of "zero_time MYSQL_TIMESTAMP_NONE" 3 0] by (simp add: zero_time_def)
qed

section \<open>The states of Datetime and Date\<close>

lemma datetime_state_valid [intro]: "valid_DATETIME t \<Longrightarrow> datetime_state t"
  by (simp add: datetime_state_def)

lemma datetime_state_none [intro]: "time_type t = MYSQL_TIMESTAMP_NONE \<Longrightarrow> datetime_state t"
  by (simp add: datetime_state_def)

lemma datetime_state_slow:
  assumes "time_lib_ok L"
  shows "valid_DATETIME t \<Longrightarrow> is_valid_datetime_slow L t = Some True"
    "datetime_state t \<Longrightarrow> datetime_is_valid_value_slow L t = Some True"
    "datetime_state t \<Longrightarrow> is_valid_datetime L t = Some (time_type t \<noteq> MYSQL_TIMESTAMP_NONE)"
  using time_lib_okD(3) [OF assms, of t]
  by (auto simp: is_valid_datetime_slow_def valid_DATETIME_def datetime_state_def datetime_is_valid_value_slow_def is_valid_datetime_def)

lemma datetime_of_sec6_state:
  assumes "time_lib_ok L" "\<not> conv_mode_bool (date_mode_and_conv flags TIME_TIME_ONLY)"
  obtains t' w' where "datetime_of_sec6 L w nr flags t = Some (t', w')" "datetime_state t'" "time_type t' = MYSQL_TIMESTAMP_NONE \<Longrightarrow> w' \<noteq> 0"
proof -
  let ?fl = "conv_mode_ulonglong (conv_mode_and (date_mode_conv flags) TIME_MODE_FOR_XXX_TO_DATE)"
  obtain r u w1 where c: "number_to_datetime_or_date L (m_sec nr) (m_usec nr) t ?fl w = (r, u, w1)" by (rule prod_cases3)
  note ok = time_lib_okD(4) [OF assms(1), unfolded number_to_datetime_ok_def, rule_format, of "m_sec nr" "m_usec nr" t ?fl w, unfolded c prod.case]
  have "sint (-1 :: longlong) < 0" by simp
  then consider (neg) "m_neg nr" | (bad) "\<not> m_neg nr" "r = -1" "w1 \<noteq> 0" | (good) "\<not> m_neg nr" "r \<noteq> -1" "valid_date_or_datetime u"
    using ok by metis
  then show thesis
  proof cases
    case neg
    then have "datetime_of_sec6 L w nr flags t = Some (t\<lparr>time_type := MYSQL_TIMESTAMP_NONE\<rparr>, MYSQL_TIME_WARN_OUT_OF_RANGE)"
      using assms(2) by (simp add: datetime_of_sec6_def with_date_of_sec6_def to_datetime_or_date_def date_to_datetime_if_needed_def
          datetime_is_valid_value_slow_def)
    then show thesis by (rule that) (auto simp: MYSQL_TIME_WARN_OUT_OF_RANGE_def)
  next
    case bad
    then have "datetime_of_sec6 L w nr flags t = Some (u\<lparr>time_type := MYSQL_TIMESTAMP_NONE\<rparr>, w1)"
      using assms(2) c by (simp add: datetime_of_sec6_def with_date_of_sec6_def to_datetime_or_date_def date_to_datetime_if_needed_def
          datetime_is_valid_value_slow_def)
    then show thesis by (rule that) (use bad in auto)
  next
    case good
    let ?u = "u\<lparr>time_type := MYSQL_TIMESTAMP_DATETIME\<rparr>"
    have v: "valid_DATETIME ?u"
      using good(3) by (simp add: valid_date_or_datetime_def valid_DATETIME_def normalized_def has_valid_mmssff_def)
    have "date_to_datetime_if_needed u = Some ?u"
      using good(3) by (auto simp: valid_date_or_datetime_def date_to_datetime_if_needed_def date_to_datetime_def)
    then have "datetime_of_sec6 L w nr flags t = Some (?u, w1)"
      using assms(2) c good datetime_state_slow(2) [OF assms(1) datetime_state_valid [OF v]]
      by (simp add: datetime_of_sec6_def with_date_of_sec6_def to_datetime_or_date_def)
    then show thesis by (rule that) (use v in auto)
  qed
qed

lemma round_or_invalidate_state:
  assumes "time_lib_ok L" "valid_DATETIME t"
  obtains rc t' w' where "round_or_invalidate_nsec L dec w nsec t = Some (rc, t', w')" "datetime_state t'"
proof -
  obtain rc t' w' where c: "datetime_round_or_invalidate L dec w nsec t = (rc, t', w')" by (rule prod_cases3)
  have "datetime_state (fst (snd (datetime_round_or_invalidate L dec w nsec t)))"
    using time_lib_okD(8) [OF assms(1)] assms(2) unfolding rounding_ok_def by blast
  then have "datetime_state t'" by (simp add: c)
  then show thesis
    by (intro that [of rc t' w'])
      (simp_all add: round_or_invalidate_nsec_def c datetime_state_slow [OF assms(1)] assms(2))
qed

lemma datetime_of_sec9_state:
  assumes "time_lib_ok L" "\<not> conv_mode_bool (date_mode_and_conv flags TIME_TIME_ONLY)" "date_mode_round flags \<noteq> None"
  shows "\<exists>t' w'. datetime_of_sec9 L w nr flags t = Some (t', w') \<and> datetime_state t'"
proof -
  obtain u w1 where u: "datetime_of_sec6 L w (Sec6.truncate nr) flags t = Some (u, w1)" "datetime_state u"
    by (rule datetime_of_sec6_state [OF assms(1,2)]) blast
  obtain r where r: "date_mode_round flags = Some r" using assms(3) by blast
  note v = datetime_state_slow(2,3) [OF assms(1) u(2)]
  show ?thesis
  proof (cases "time_type u \<noteq> MYSQL_TIMESTAMP_NONE \<and> r = TIME_FRAC_ROUND")
    case True
    then have "valid_DATETIME u" using u(2) by (simp add: datetime_state_def)
    then obtain rc t' w' where t': "round_or_invalidate_nsec L 6 w1 (m_nsec nr) u = Some (rc, t', w')" "datetime_state t'"
      by (rule round_or_invalidate_state [OF assms(1)])
    then show ?thesis using u(1) v r True datetime_state_slow(2) [OF assms(1) t'(2)] by (simp add: datetime_of_sec9_def)
  next
    case False
    then show ?thesis using u v r by (auto simp: datetime_of_sec9_def)
  qed
qed

lemma datetime_trunc_state:
  assumes "time_lib_ok L" "datetime_state t" "dec \<le> 6"
  shows "\<exists>u. datetime_trunc L dec t = Some u \<and> datetime_state u"
proof (cases "time_type t = MYSQL_TIMESTAMP_NONE")
  case True
  then show ?thesis using datetime_state_slow(2,3) [OF assms(1,2)] assms(2) by (simp add: datetime_trunc_def)
next
  case False
  then have v: "valid_DATETIME t" using assms(2) by (simp add: datetime_state_def)
  then have "has_valid_mmssff t" by (simp add: valid_DATETIME_def normalized_def)
  from my_datetime_trunc_value [OF _ this assms(3)] time_lib_okD(1) [OF assms(1)] obtain s where
    s: "my_datetime_trunc (log_10_int L) t dec = Some (t\<lparr>second_part := s\<rparr>)" "unat s = trunc_usec dec (unat (second_part t))" by metis
  then have d: "valid_DATETIME (t\<lparr>second_part := s\<rparr>)"
    using v by (auto simp: valid_DATETIME_def normalized_def has_valid_mmssff_def intro: le_trans [OF trunc_usec_le])
  then show ?thesis
    using False s(1) datetime_state_slow(3) [OF assms(1,2)] datetime_state_slow(2) [OF assms(1) datetime_state_valid [OF d]]
    by (auto simp: datetime_trunc_def)
qed

lemma datetime_ceiling_state:
  assumes "time_lib_ok L" "datetime_state t"
  shows "\<exists>u w'. datetime_ceiling L w t = Some (u, w') \<and> datetime_state u"
proof (cases "time_type t \<noteq> MYSQL_TIMESTAMP_NONE \<and> second_part t \<noteq> 0")
  case True
  then have "valid_DATETIME t" using assms(2) by (simp add: datetime_state_def)
  then obtain rc t' w' where t': "round_or_invalidate_nsec L 0 w 999999999 t = Some (rc, t', w')" "datetime_state t'"
    by (rule round_or_invalidate_state [OF assms(1)])
  then show ?thesis
    using True datetime_state_slow(3) [OF assms] datetime_state_slow(2) [OF assms(1) t'(2)] by (simp add: datetime_ceiling_def)
next
  case False
  then show ?thesis using datetime_state_slow(2,3) [OF assms] assms(2) by (auto simp: datetime_ceiling_def)
qed

text \<open>A year, month and day with a time of the day.\<close>

lemma datetime_of_ymd_value:
  assumes "time_lib_ok L" "is_valid_time_of_day6 td"
  obtains t where "datetime_of_ymd L y m d td = Some t" "datetime_state t"
    "time_type t = MYSQL_TIMESTAMP_DATETIME \<longleftrightarrow> y \<le> 9999 \<and> m \<le> 12 \<and> d \<le> 31"
proof -
  let ?t = "\<lparr>year = y, month = m, day = d, hour = td_hour td, minute = td_minute td, second = td_second td,
    second_part = td_usecond td, neg = False, time_type = MYSQL_TIMESTAMP_DATETIME\<rparr>"
  have n: "normalized ?t \<longleftrightarrow> y \<le> 9999 \<and> m \<le> 12 \<and> d \<le> 31"
    using assms(2) by (auto simp: normalized_def is_valid_time_of_day6_def has_valid_mmssff_def)
  have s: "is_valid_datetime_slow L ?t = Some (normalized ?t)"
    using time_lib_okD(3) [OF assms(1), of ?t] by (simp add: is_valid_datetime_slow_def)
  show thesis
  proof (cases "normalized ?t")
    case True
    with s n show thesis by (intro that [of ?t]) (auto simp: datetime_of_ymd_def datetime_state_def valid_DATETIME_def)
  next
    case False
    with s n show thesis
      by (intro that [of "?t\<lparr>time_type := MYSQL_TIMESTAMP_NONE\<rparr>"]) (auto simp: datetime_of_ymd_def datetime_state_def)
  qed
qed

lemma date_of_with_date_valid:
  assumes "time_lib_ok L" "valid_date_or_datetime t"
  shows "\<exists>u. date_of_with_date L t = Some u \<and> time_type u = MYSQL_TIMESTAMP_DATE \<and> normalized u \<and> \<not> non_zero_hhmmssuu u \<and>
    year u = year t \<and> month u = month t \<and> day u = day t"
proof -
  let ?u = "t\<lparr>second_part := 0, hour := 0, minute := 0, second := 0, time_type := MYSQL_TIMESTAMP_DATE\<rparr>"
  have n: "normalized ?u" using assms(2) by (simp add: valid_date_or_datetime_def normalized_def has_valid_mmssff_def)
  have "datetime_to_date t = Some ?u" using assms(2) by (simp add: datetime_to_date_def valid_date_or_datetime_def)
  moreover have "is_valid_date_slow L ?u = Some True" using n time_lib_okD(3) [OF assms(1), of ?u] by (simp add: is_valid_date_slow_def)
  ultimately show ?thesis using n by (simp add: date_of_with_date_def non_zero_hhmmssuu_def)
qed

text \<open>The class invariants of \<open>Datetime\<close> and \<open>Date\<close>: given library routines that behave as documented, no assertion fails and the object is left with
  a normalized datetime or without a value, by the constructors from numbers, where no value means a warning, and from a year, month and day with a time of
  the day, which have a value exactly for dates in range, and by truncation and ceiling; a date made of a valid datetime is that day at
  midnight.\<close>

theorem datetime_valid_states:
  assumes "time_lib_ok L" "datetime_state t" "dec \<le> 6" "date_mode_round flags \<noteq> None"
    "\<not> conv_mode_bool (date_mode_and_conv flags TIME_TIME_ONLY)" "is_valid_time_of_day6 td"
  shows "(\<exists>u w'. datetime_of_sec6 L w nr flags x = Some (u, w') \<and> datetime_state u \<and> (time_type u = MYSQL_TIMESTAMP_NONE \<longrightarrow> w' \<noteq> 0)) \<and>
    (\<exists>u w'. datetime_of_sec9 L w nr9 flags x = Some (u, w') \<and> datetime_state u) \<and>
    (\<exists>u. datetime_of_ymd L y m d td = Some u \<and> datetime_state u \<and>
       (time_type u = MYSQL_TIMESTAMP_DATETIME \<longleftrightarrow> y \<le> 9999 \<and> m \<le> 12 \<and> d \<le> 31)) \<and>
    (\<exists>u. datetime_trunc L dec t = Some u \<and> datetime_state u) \<and>
    (\<exists>u w'. datetime_ceiling L w t = Some (u, w') \<and> datetime_state u) \<and>
    (valid_DATETIME t \<longrightarrow> (\<exists>u. date_of_with_date L t = Some u \<and> time_type u = MYSQL_TIMESTAMP_DATE \<and> normalized u \<and>
       \<not> non_zero_hhmmssuu u \<and> year u = year t \<and> month u = month t \<and> day u = day t))"
proof (intro conjI impI)
  show "\<exists>u w'. datetime_of_sec6 L w nr flags x = Some (u, w') \<and> datetime_state u \<and> (time_type u = MYSQL_TIMESTAMP_NONE \<longrightarrow> w' \<noteq> 0)"
    by (rule datetime_of_sec6_state [OF assms(1,5)]) blast
  show "\<exists>u w'. datetime_of_sec9 L w nr9 flags x = Some (u, w') \<and> datetime_state u" by (rule datetime_of_sec9_state [OF assms(1,5,4)])
  show "\<exists>u. datetime_of_ymd L y m d td = Some u \<and> datetime_state u \<and>
       (time_type u = MYSQL_TIMESTAMP_DATETIME \<longleftrightarrow> y \<le> 9999 \<and> m \<le> 12 \<and> d \<le> 31)"
    by (rule datetime_of_ymd_value [OF assms(1,6)]) blast
  show "\<exists>u. datetime_trunc L dec t = Some u \<and> datetime_state u" by (rule datetime_trunc_state [OF assms(1-3)])
  show "\<exists>u w'. datetime_ceiling L w t = Some (u, w') \<and> datetime_state u" by (rule datetime_ceiling_state [OF assms(1,2)])
  show "\<exists>u. date_of_with_date L t = Some u \<and> time_type u = MYSQL_TIMESTAMP_DATE \<and> normalized u \<and>
       \<not> non_zero_hhmmssuu u \<and> year u = year t \<and> month u = month t \<and> day u = day t" if "valid_DATETIME t"
    using that by (intro date_of_with_date_valid [OF assms(1)]) (simp add: valid_DATETIME_def valid_date_or_datetime_def)
qed

theorem datetime_valid_states_witness:
  "\<exists>u. datetime_of_ymd plain_time_lib 2024 2 31 \<lparr>td_hour = 23, td_minute = 59, td_second = 59, td_usecond = 999000\<rparr> = Some u \<and>
     time_type u = MYSQL_TIMESTAMP_DATETIME"
  using datetime_valid_states [OF plain_time_lib_ok, of "zero_time MYSQL_TIMESTAMP_NONE" 3 "Date_mode FRAC_ROUND"
      "\<lparr>td_hour = 23, td_minute = 59, td_second = 59, td_usecond = 999000\<rparr>" 0 sec6_reset
      "zero_time MYSQL_TIMESTAMP_NONE" _ 2024 2 31]
  by (auto simp: datetime_state_def zero_time_def date_mode_round_def date_mode_ulonglong_def make_time_round_mode_def mode_bits
      date_mode_and_conv_def conv_mode_bool_def conv_mode_ulonglong_def make_date_conv_mode_def TIME_TIME_ONLY_def
      is_valid_time_of_day6_def time_limits)

section \<open>Seconds\<close>

lemma sint_of_int_small:
  "- (2 ^ (LENGTH('a) - 1)) \<le> x \<Longrightarrow> x < 2 ^ (LENGTH('a) - 1) \<Longrightarrow> sint (word_of_int x :: 'a::len word) = x"
  by (transfer fixing: x) (simp add: signed_take_bit_int_eq_self)

lemma unat_widen: "unat (ucast w :: ulonglong) = unat w" for w :: uint
  using unat_bound [of w] by (simp add: unsigned_ucast_eq take_bit_nat_eq_self)

text \<open>A step of the decimal form of a signed value: both parts carry the same sign \<open>g\<close>, and there is no overflow.\<close>

lemma sint_step:
  fixes a c :: "'a::len word"
  assumes "sint a = g * A" "sint c = g * C" "g = 1 \<or> g = -1" "0 \<le> A" "0 \<le> C" "A * numeral k + C < 2 ^ (LENGTH('a) - 1)"
  shows "sint (a * numeral k + c) = g * (A * numeral k + C)"
proof -
  have "a * numeral k + c = word_of_int (sint a * numeral k + sint c)" by simp
  also have "sint a * numeral k + sint c = g * (A * numeral k + C)" unfolding assms(1,2) by (simp add: algebra_simps)
  finally have e: "a * numeral k + c = word_of_int (g * (A * numeral k + C))" .
  have "0 \<le> A * numeral k + C" using assms(4,5) by simp
  then show ?thesis unfolding e using assms(3,6) by (intro sint_of_int_small) auto
qed

lemma sint_small:
  fixes w :: "'a::len word"
  assumes "unat w < 2 ^ (LENGTH('a) - 1)"
  shows "sint w = int (unat w)" "sint (- w) = - int (unat w)"
proof -
  obtain n where n: "unat w = n" by blast
  then have w: "w = word_of_int (int n)" "- w = word_of_int (- int n)" by auto
  have "int n < 2 ^ (LENGTH('a) - 1)" using assms n by (metis of_nat_less_iff of_nat_numeral of_nat_power)
  moreover have "- (2 ^ (LENGTH('a) - 1)) \<le> int n" by (rule order_trans [of _ 0]) simp_all
  moreover have "- int n < 2 ^ (LENGTH('a) - 1)" by (rule le_less_trans [of _ 0]) simp_all
  ultimately have "sint (word_of_int (int n) :: 'a word) = int n" "sint (word_of_int (- int n) :: 'a word) = - int n"
    by (intro sint_of_int_small; linarith)+
  then show "sint w = int (unat w)" "sint (- w) = - int (unat w)" unfolding n w(2) by (simp_all only: w(1))
qed

lemma sint_times_sign:
  fixes x :: uint
  assumes "unat x < 2 ^ 31"
  shows "sint (x * (if n then -1 else 1)) = (if n then -1 else 1) * int (unat x)"
  using sint_small [of x] assms by simp

lemma unat_ucast_small: "unat w < 2 ^ 32 \<Longrightarrow> unat (ucast w :: uint) = unat w" for w :: ulonglong
  by (simp add: unsigned_ucast_eq take_bit_nat_eq_self)

lemma hhmmss_split: "(m div 3600 * 3600 + m mod 3600 div 60 * 60 + m mod 60 :: nat) = m"
proof -
  have "m mod 60 = m mod 3600 mod 60" by (rule mod_mod_cancel [symmetric]) simp
  then show ?thesis by (simp add: add.assoc)
qed

lemma to_seconds_value:
  assumes "valid_TIME t"
  obtains v where "to_seconds t = Some v" "sint v = signed_val (neg t) (int (unat (hour t) * 3600 + unat (minute t) * 60 + unat (second t)))"
proof -
  have b: "unat (hour t) \<le> 838" "unat (minute t) \<le> 59" "unat (second t) \<le> 59"
    using assms by (simp_all add: valid_TIME_def has_valid_mmssff_def time_limits)
  let ?w = "ucast (hour t * 3600 + minute t * 60 + second t) :: longlong"
  have "unat (hour t * 3600 + minute t * 60 + second t) = unat (hour t) * 3600 + unat (minute t) * 60 + unat (second t)"
    using b by (simp add: unat_word_ariths)
  moreover have "unat ?w = unat (hour t * 3600 + minute t * 60 + second t)"
    by (rule unat_widen)
  ultimately have w: "unat ?w = unat (hour t) * 3600 + unat (minute t) * 60 + unat (second t)" by simp
  then have "unat ?w < 2 ^ (LENGTH(64) - 1)" using b by simp
  note s = sint_small [OF this]
  then show thesis
    by (intro that [of "if neg t then - ?w else ?w"])
      (use assms s [unfolded w] in \<open>simp_all add: to_seconds_def to_seconds_abs_def signed_val_def del: of_nat_add of_nat_mult\<close>)
qed

lemma sec_to_time_in_range:
  assumes "time_lib_ok L" "unat (m_usec s) \<le> 999999" "unat (m_sec s) \<le> 3020399"
  obtains t where "sec_to_time L unused s ltime dec = Some (False, t)" "valid_TIME t" "neg t = m_neg s" "second_part t = m_usec s"
    "unat (hour t) * 3600 + unat (minute t) * 60 + unat (second t) = unat (m_sec s)"
proof -
  let ?m = "unat (m_sec s)"
  let ?t = "(zero_time MYSQL_TIMESTAMP_TIME)\<lparr>neg := m_neg s, hour := ucast (m_sec s div 3600), minute := ucast (m_sec s mod 3600) div 60,
    second := ucast (m_sec s) mod 60, second_part := m_usec s\<rparr>"
  have h: "unat (hour ?t) = ?m div 3600"
    using assms(3) unat_ucast_small [of "m_sec s div 3600"] by (simp add: unat_div)
  have m: "unat (minute ?t) = ?m mod 3600 div 60"
    using unat_ucast_small [of "m_sec s mod 3600"] by (simp add: unat_div unat_mod)
  have sc: "unat (second ?t) = ?m mod 60" using assms(3) unat_ucast_small [of "m_sec s"] by (simp add: unat_mod)
  have hb: "?m div 3600 \<le> 838" using div_le_mono [OF assms(3), of 3600] by simp
  have "?m mod 3600 div 60 < 60" by (rule less_mult_imp_div_less) simp
  then have v: "valid_TIME ?t"
    using h m sc hb assms(2) unfolding valid_TIME_def has_valid_mmssff_def has_zero_YYYYMMDD_def time_limits by (simp add: zero_time_def)
  have "sint (m_usec s) = int (unat (m_usec s))" using assms(2) by (intro sint_unat_32) simp
  then have "sint (m_usec s) \<le> 999999" using assms(2) by (simp only: of_nat_le_iff [symmetric, where 'a = int] of_nat_numeral)
  moreover have "\<not> m_sec s > of_nat TIME_MAX_VALUE_SECONDS" using assms(3) by (simp add: time_limits word_less_nat_alt)
  ultimately have "sec_to_time L unused s ltime dec = Some (False, ?t)"
    using time_lib_okD(2) [OF assms(1)] by (simp add: sec_to_time_def time_limits Let_def)
  then show thesis using v by (rule that) (use h m sc hhmmss_split [of ?m] in simp_all)
qed

lemma sec_to_time_out_of_range:
  assumes "time_lib_ok L" "unat (m_sec s) > 3020399"
  obtains t where "sec_to_time L unused s ltime dec = Some (True, t)" "valid_TIME t" "neg t = m_neg s"
proof -
  let ?t = "(zero_time MYSQL_TIMESTAMP_TIME)\<lparr>neg := m_neg s, hour := of_nat TIME_MAX_HOUR + 1\<rparr>"
  obtain rc t w where c: "check_time_range L ?t dec unused = (rc, t, w)" by (rule prod_cases3)
  have "time_type ?t = MYSQL_TIMESTAMP_TIME" "has_zero_YYYYMMDD ?t" "has_valid_mmssff ?t"
    by (simp_all add: zero_time_def has_zero_YYYYMMDD_def has_valid_mmssff_def)
  then have "let t' = fst (snd (check_time_range L ?t dec unused)) in valid_TIME t' \<and> neg t' = neg ?t"
    using time_lib_okD(6) [OF assms(1)] unfolding check_time_range_ok_def by blast
  then have "valid_TIME t" "neg t = m_neg s" by (simp_all add: c)
  moreover have "m_sec s > of_nat TIME_MAX_VALUE_SECONDS" using assms(2) by (simp add: time_limits word_less_nat_alt)
  ultimately show thesis
    using time_lib_okD(2) [OF assms(1)] c by (intro that [of t]) (simp_all add: sec_to_time_def Let_def)
qed

text \<open>Seconds converted to a time are read back: \<open>sec_to_time\<close> gives a valid time of the same sign, reports exactly the numbers beyond
  838:59:59, and on the others \<open>to_seconds\<close> of the result is the number with its sign and the microseconds are kept.\<close>

theorem sec_to_time_round_trip:
  assumes "time_lib_ok L" "unat (m_usec s) \<le> 999999"
  shows "\<exists>t. sec_to_time L unused s ltime dec = Some (unat (m_sec s) > 3020399, t) \<and> valid_TIME t \<and> neg t = m_neg s \<and>
    (unat (m_sec s) \<le> 3020399 \<longrightarrow> second_part t = m_usec s \<and>
       (\<exists>v. to_seconds t = Some v \<and> sint v = signed_val (m_neg s) (int (unat (m_sec s)))))"
proof (cases "unat (m_sec s) \<le> 3020399")
  case True
  obtain t where t: "sec_to_time L unused s ltime dec = Some (False, t)" "valid_TIME t" "neg t = m_neg s" "second_part t = m_usec s"
    "unat (hour t) * 3600 + unat (minute t) * 60 + unat (second t) = unat (m_sec s)"
    by (rule sec_to_time_in_range [OF assms True])
  obtain v where "to_seconds t = Some v" "sint v = signed_val (neg t) (int (unat (m_sec s)))"
    using to_seconds_value [OF t(2)] unfolding t(5) .
  with t True show ?thesis by auto
next
  case False
  then obtain t where "sec_to_time L unused s ltime dec = Some (True, t)" "valid_TIME t" "neg t = m_neg s"
    using sec_to_time_out_of_range [OF assms(1)] by (metis not_le)
  with False show ?thesis by auto
qed

theorem sec_to_time_round_trip_witness:
  "\<exists>t. sec_to_time plain_time_lib 0 (make_from_int \<lparr>h_value = - 3661, h_unsigned = False\<rparr>) (zero_time MYSQL_TIMESTAMP_NONE) 6 = Some (False, t) \<and>
     (\<exists>v. to_seconds t = Some v \<and> sint v = - 3661)"
  using sec_to_time_round_trip [OF plain_time_lib_ok, of "make_from_int \<lparr>h_value = - 3661, h_unsigned = False\<rparr>" 0 "zero_time MYSQL_TIMESTAMP_NONE" 6]
  by (auto simp: make_from_int_def hybrid_abs_def hybrid_neg_def longlong_abs_def longlong_consts LONGLONG_MIN_def signed_val_def)

section \<open>Extraction\<close>

declare sint_scast [simp]

text \<open>A source with a sign and fields in range.\<close>

definition extract_ok :: "MYSQL_TIME \<Rightarrow> bool" where
  "extract_ok t \<longleftrightarrow> is_valid_extract_source_slow t = Some True \<and> unat (day t) \<le> TIME_MAX_INTERVAL_DAY \<and> has_valid_mmssff t"

definition sign_of :: "MYSQL_TIME \<Rightarrow> int" where "sign_of t = (if neg t then -1 else 1)"

lemma sign_of_cases: "sign_of t = 1 \<or> sign_of t = -1"
  by (simp add: sign_of_def)

lemma extract_bounds:
  assumes "extract_ok t"
  shows "unat (day t) \<le> 3652058" "unat (hour t) \<le> 23" "unat (minute t) \<le> 59" "unat (second t) \<le> 59" "unat (second_part t) \<le> 999999"
  using assms
  by (auto simp: extract_ok_def is_valid_extract_source_slow_def has_valid_mmssff_def time_limits word_less_nat_alt
      split: bind_splits)

lemma extract_fields:
  assumes "extract_ok t"
  shows "\<exists>d. es_day t = Some d \<and> sint d = sign_of t * int (unat (day t))"
    "\<exists>h. es_hour t = Some h \<and> sint h = sign_of t * int (unat (hour t))"
    "\<exists>m. es_minute t = Some m \<and> sint m = sign_of t * int (unat (minute t))"
    "\<exists>s. es_second t = Some s \<and> sint s = sign_of t * int (unat (second t))"
    "\<exists>u. es_microsecond t = Some u \<and> sint u = sign_of t * int (unat (second_part t))"
  using extract_bounds [OF assms] assms sint_times_sign [of "day t" "neg t"] sint_times_sign [of "hour t" "neg t"]
    sint_times_sign [of "minute t" "neg t"] sint_times_sign [of "second t" "neg t"] sint_times_sign [of "second_part t" "neg t"]
  by (simp_all add: es_day_def es_hour_def es_minute_def es_second_def es_microsecond_def extract_ok_def extract_get_mysql_time_def
      es_sign_def sign_of_def del: of_nat_unat)

lemma extract_int_bounds:
  assumes "extract_ok t"
  shows "int (unat (day t)) \<le> 3652058" "int (unat (hour t)) \<le> 23" "int (unat (minute t)) \<le> 59" "int (unat (second t)) \<le> 59"
    "int (unat (second_part t)) \<le> 999999"
  using extract_bounds [OF assms] by linarith+

lemma extract_day_second:
  assumes "extract_ok t"
  shows "\<exists>v. day_second t = Some v \<and> sint v = sign_of t *
    (((int (unat (day t)) * 100 + int (unat (hour t))) * 100 + int (unat (minute t))) * 100 + int (unat (second t)))"
proof -
  note b = extract_int_bounds [OF assms] and g = sign_of_cases [of t]
  obtain d h m s where f: "es_day t = Some d" "sint d = sign_of t * int (unat (day t))" "es_hour t = Some h" "sint h = sign_of t * int (unat (hour t))"
    "es_minute t = Some m" "sint m = sign_of t * int (unat (minute t))" "es_second t = Some s" "sint s = sign_of t * int (unat (second t))"
    using extract_fields [OF assms] by blast
  have 1: "sint (scast d * 100 + scast h :: longlong) = sign_of t * (int (unat (day t)) * 100 + int (unat (hour t)))"
    by (rule sint_step) (use f b g in simp_all)
  have 2: "sint ((scast d * 100 + scast h) * 100 + scast m :: longlong) =
      sign_of t * ((int (unat (day t)) * 100 + int (unat (hour t))) * 100 + int (unat (minute t)))"
    by (rule sint_step [OF 1]) (use f b g in simp_all)
  have "sint (((scast d * 100 + scast h) * 100 + scast m) * 100 + scast s :: longlong) =
      sign_of t * (((int (unat (day t)) * 100 + int (unat (hour t))) * 100 + int (unat (minute t))) * 100 + int (unat (second t)))"
    by (rule sint_step [OF 2]) (use f b g in simp_all)
  with f show ?thesis by (simp add: day_second_def day_minute_def day_hour_def)
qed

lemma extract_hour_second:
  assumes "extract_ok t"
  shows "\<exists>v. hour_second t = Some v \<and> sint v = sign_of t *
    ((int (unat (hour t)) * 100 + int (unat (minute t))) * 100 + int (unat (second t)))"
    "\<exists>v. minute_second t = Some v \<and> sint v = sign_of t * (int (unat (minute t)) * 100 + int (unat (second t)))"
proof -
  note b = extract_int_bounds [OF assms] and g = sign_of_cases [of t]
  obtain h m s where f: "es_hour t = Some h" "sint h = sign_of t * int (unat (hour t))"
    "es_minute t = Some m" "sint m = sign_of t * int (unat (minute t))" "es_second t = Some s" "sint s = sign_of t * int (unat (second t))"
    using extract_fields [OF assms] by blast
  have 1: "sint (h * 100 + m) = sign_of t * (int (unat (hour t)) * 100 + int (unat (minute t)))"
    by (rule sint_step) (use f b g in simp_all)
  have "sint ((h * 100 + m) * 100 + s) = sign_of t * ((int (unat (hour t)) * 100 + int (unat (minute t))) * 100 + int (unat (second t)))"
    by (rule sint_step [OF 1]) (use f b g in simp_all)
  with f show "\<exists>v. hour_second t = Some v \<and> sint v = sign_of t *
    ((int (unat (hour t)) * 100 + int (unat (minute t))) * 100 + int (unat (second t)))"
    by (simp add: hour_second_def hour_minute_def)
  have "sint (m * 100 + s) = sign_of t * (int (unat (minute t)) * 100 + int (unat (second t)))"
    by (rule sint_step) (use f b g in simp_all)
  with f show "\<exists>v. minute_second t = Some v \<and> sint v = sign_of t * (int (unat (minute t)) * 100 + int (unat (second t)))"
    by (simp add: minute_second_def)
qed

text \<open>The last step, to microseconds.\<close>

lemma extract_microsecond:
  fixes v :: longlong
  assumes "extract_ok t" "sint v = sign_of t * A" "0 \<le> A" "A < 9000000000000"
  obtains u where "es_microsecond t = Some u" "sint (v * 1000000 + scast u) = sign_of t * (A * 1000000 + int (unat (second_part t)))"
proof -
  obtain u where u: "es_microsecond t = Some u" "sint u = sign_of t * int (unat (second_part t))" using extract_fields(5) [OF assms(1)] by blast
  have "A * 1000000 + int (unat (second_part t)) < 2 ^ (LENGTH(64) - 1)"
    using assms(4) extract_int_bounds(5) [OF assms(1)] by (simp del: of_nat_unat)
  then have "sint (v * 1000000 + scast u) = sign_of t * (A * 1000000 + int (unat (second_part t)))"
    by (intro sint_step) (use assms(2,3) u sign_of_cases [of t] in simp_all)
  with u(1) show thesis by (rule that)
qed

lemma digits_bounds:
  fixes d h m s :: int
  assumes "0 \<le> d" "d \<le> 3652058" "0 \<le> h" "h \<le> 23" "0 \<le> m" "m \<le> 59" "0 \<le> s" "s \<le> 59"
  shows "0 \<le> ((d * 100 + h) * 100 + m) * 100 + s" "((d * 100 + h) * 100 + m) * 100 + s < 9000000000000"
    "0 \<le> (h * 100 + m) * 100 + s" "(h * 100 + m) * 100 + s < 9000000000000"
    "0 \<le> m * 100 + s" "m * 100 + s < 9000000000000"
  using assms by simp_all

lemma extract_compound:
  assumes "extract_ok t"
  shows "\<exists>v. day_microsecond t = Some v \<and> sint v = sign_of t * ((((int (unat (day t)) * 100 + int (unat (hour t))) * 100 +
        int (unat (minute t))) * 100 + int (unat (second t))) * 1000000 + int (unat (second_part t)))" (is "\<exists>v. _ \<and> sint v = _ * (?A1 * _ + _)")
    "\<exists>v. hour_microsecond t = Some v \<and> sint v = sign_of t * (((int (unat (hour t)) * 100 + int (unat (minute t))) * 100 +
        int (unat (second t))) * 1000000 + int (unat (second_part t)))" (is "\<exists>v. _ \<and> sint v = _ * (?A2 * _ + _)")
    "\<exists>v. minute_microsecond t = Some v \<and>
        sint v = sign_of t * ((int (unat (minute t)) * 100 + int (unat (second t))) * 1000000 + int (unat (second_part t)))" (is "\<exists>v. _ \<and> sint v = _ * (?A3 * _ + _)")
proof -
  note b = extract_int_bounds [OF assms]
  note A = digits_bounds [OF of_nat_0_le_iff b(1) of_nat_0_le_iff b(2) of_nat_0_le_iff b(3) of_nat_0_le_iff b(4)]
  from extract_day_second [OF assms] obtain v where v: "day_second t = Some v" "sint v = sign_of t * ?A1" by blast
  obtain u where "es_microsecond t = Some u" "sint (v * 1000000 + scast u :: longlong) = sign_of t * (?A1 * 1000000 + int (unat (second_part t)))"
    by (rule extract_microsecond [OF assms v(2) A(1,2)])
  with v(1) show "\<exists>v. day_microsecond t = Some v \<and> sint v = sign_of t * (?A1 * 1000000 + int (unat (second_part t)))"
    unfolding day_microsecond_def by (intro exI conjI) (simp, assumption)
  from extract_hour_second(1) [OF assms] obtain v where v: "hour_second t = Some v" "sint v = sign_of t * ?A2" by blast
  from v(2) have w: "sint (scast v :: longlong) = sign_of t * ?A2" by simp
  obtain u where "es_microsecond t = Some u" "sint (scast v * 1000000 + scast u :: longlong) = sign_of t * (?A2 * 1000000 + int (unat (second_part t)))"
    by (rule extract_microsecond [OF assms w A(3,4)])
  with v(1) show "\<exists>v. hour_microsecond t = Some v \<and> sint v = sign_of t * (?A2 * 1000000 + int (unat (second_part t)))"
    unfolding hour_microsecond_def by (intro exI conjI) (simp, assumption)
  from extract_hour_second(2) [OF assms] obtain v where v: "minute_second t = Some v" "sint v = sign_of t * ?A3" by blast
  from v(2) have w: "sint (scast v :: longlong) = sign_of t * ?A3" by simp
  obtain u where "es_microsecond t = Some u" "sint (scast v * 1000000 + scast u :: longlong) = sign_of t * (?A3 * 1000000 + int (unat (second_part t)))"
    by (rule extract_microsecond [OF assms w A(5,6)])
  with v(1) show "\<exists>v. minute_microsecond t = Some v \<and> sint v = sign_of t * (?A3 * 1000000 + int (unat (second_part t)))"
    unfolding minute_microsecond_def by (intro exI conjI) (simp, assumption)
qed

lemma make_Extract_source_time:
  assumes "time_type t = MYSQL_TIMESTAMP_TIME" "has_zero_YYYYMMDD t" "has_valid_mmssff t" "unat (hour t) \<le> TIME_MAX_INTERVAL_HOUR"
  shows "make_Extract_source t = Some (t\<lparr>day := hour t div 24, hour := hour t mod 24\<rparr>)" "extract_ok (t\<lparr>day := hour t div 24, hour := hour t mod 24\<rparr>)"
proof -
  let ?e = "t\<lparr>day := hour t div 24, hour := hour t mod 24\<rparr>"
  have h: "unat (hour t mod 24) < 24" by (simp add: unat_mod)
  then have v: "is_valid_extract_source_slow ?e = Some True"
    using assms(1,2) by (simp add: is_valid_extract_source_slow_def is_valid_temporal_def has_zero_YYYYMM_def has_zero_YYYYMMDD_def word_less_nat_alt)
  have "unat (hour t) div 24 \<le> 3652058" using div_le_mono [OF assms(4), of 24] by (simp add: time_limits)
  then show "extract_ok ?e" using v assms(3) by (simp add: extract_ok_def has_valid_mmssff_def time_limits unat_div)
  show "make_Extract_source t = Some ?e"
    using v assms(1,2) by (simp add: make_Extract_source_def time_to_daytime_interval_def extract_is_valid_value_slow_def)
qed

text \<open>Extraction from a time or an interval up to the largest one, 87649415 hours: full days move from the hours to the days, no assertion
  fails, and the compound fields are the decimal digits of their parts, with the sign of the source: no signed multiplication
  or addition overflows its 32 or 64 bits.\<close>

theorem extract_no_overflow:
  assumes "time_type t = MYSQL_TIMESTAMP_TIME" "has_zero_YYYYMMDD t" "has_valid_mmssff t" "unat (hour t) \<le> TIME_MAX_INTERVAL_HOUR"
  shows "\<exists>e. make_Extract_source t = Some e \<and> unat (day e) = unat (hour t) div 24 \<and> unat (hour e) = unat (hour t) mod 24 \<and>
    (\<exists>v. day_microsecond e = Some v \<and> sint v = sign_of t * ((((int (unat (hour t) div 24) * 100 + int (unat (hour t) mod 24)) * 100 +
        int (unat (minute t))) * 100 + int (unat (second t))) * 1000000 + int (unat (second_part t)))) \<and>
    (\<exists>v. hour_microsecond e = Some v \<and> sint v = sign_of t * (((int (unat (hour t) mod 24) * 100 + int (unat (minute t))) * 100 +
        int (unat (second t))) * 1000000 + int (unat (second_part t)))) \<and>
    (\<exists>v. minute_microsecond e = Some v \<and>
        sint v = sign_of t * ((int (unat (minute t)) * 100 + int (unat (second t))) * 1000000 + int (unat (second_part t))))"
proof -
  let ?e = "t\<lparr>day := hour t div 24, hour := hour t mod 24\<rparr>"
  note make = make_Extract_source_time [OF assms]
  have same: "sign_of ?e = sign_of t" "minute ?e = minute t" "second ?e = second t" "second_part ?e = second_part t" by (simp_all add: sign_of_def)
  have dh: "unat (day ?e) = unat (hour t) div 24" "unat (hour ?e) = unat (hour t) mod 24" by (simp_all add: unat_div unat_mod)
  with make(1) extract_compound [OF make(2), unfolded same dh] show ?thesis by (intro exI [of _ ?e] conjI)
qed

theorem extract_no_overflow_witness:
  "\<exists>e v. make_Extract_source ((zero_time MYSQL_TIMESTAMP_TIME)\<lparr>hour := 87649415, minute := 59, second := 59, second_part := 999999, neg := True\<rparr>) = Some e \<and>
     day_microsecond e = Some v \<and> sint v = - 3652058235959999999"
  using extract_no_overflow [of "(zero_time MYSQL_TIMESTAMP_TIME)\<lparr>hour := 87649415, minute := 59, second := 59, second_part := 999999, neg := True\<rparr>"]
  by (auto simp: zero_time_def has_zero_YYYYMMDD_def has_valid_mmssff_def time_limits sign_of_def)

section \<open>Timestamps\<close>

definition tv_usecs :: "timeval \<Rightarrow> int" where
  "tv_usecs t = sint (tv_sec t) * 1000000 + sint (tv_usec t)"

definition tv_ok :: "timeval \<Rightarrow> bool" where
  "tv_ok t \<longleftrightarrow> 0 \<le> sint (tv_usec t) \<and> sint (tv_usec t) < 1000000"

lemma timestamp_cmp_usecs:
  assumes "tv_ok a" "tv_ok b"
  shows "timestamp_cmp a b = sgn (tv_usecs a - tv_usecs b)"
  using assms unfolding tv_ok_def tv_usecs_def timestamp_cmp_def by (auto simp: sgn_if)

lemma floor_to_multiple:
  fixes s u :: int
  assumes "d \<le> 6"
  shows "(s * 1000000 + u) div 10 ^ (6 - d) * 10 ^ (6 - d) = s * 1000000 + u div 10 ^ (6 - d) * 10 ^ (6 - d)"
proof -
  have "(1000000 :: int) = 10 ^ d * 10 ^ (6 - d)" using assms by (simp flip: power_add)
  then have "s * 1000000 + u = u + s * 10 ^ d * 10 ^ (6 - d)" by simp
  then have "(s * 1000000 + u) div 10 ^ (6 - d) = s * 10 ^ d + u div 10 ^ (6 - d)" by (simp only: div_mult_self1) simp
  then show ?thesis using \<open>1000000 = 10 ^ d * 10 ^ (6 - d)\<close> by (simp add: distrib_right)
qed

lemma tv_ok_unat: "tv_ok t \<longleftrightarrow> unat (tv_usec t) < 1000000"
proof
  assume a: "tv_ok t"
  define n where "n = nat (sint (tv_usec t))"
  have n: "int n = sint (tv_usec t)" "n < 1000000" using a by (simp_all add: tv_ok_def n_def nat_less_iff)
  have "tv_usec t = word_of_int (sint (tv_usec t))" by simp
  also have "\<dots> = of_nat n" by (simp flip: n(1))
  finally show "unat (tv_usec t) < 1000000" using n(2) by (simp add: unat_of_nat)
next
  assume "unat (tv_usec t) < 1000000"
  then have "int (unat (tv_usec t)) < 1000000" "sint (tv_usec t) = int (unat (tv_usec t))"
    by (linarith, intro sint_unat_32, simp)
  then show "tv_ok t" by (simp add: tv_ok_def)
qed

lemma make_Timeval_ok: "make_Timeval sec usec = Some t \<Longrightarrow> tv_ok t"
  by (auto simp: make_Timeval_def tv_ok_unat word_less_nat_alt split: if_splits)

lemma my_timeval_trunc_value:
  assumes "\<forall>i < 20. log i = (10 :: ulonglong) ^ i" "tv_ok t" "d \<le> 6"
  obtains t' where "my_timeval_trunc log t d = Some t'" "tv_ok t'" "tv_usecs t' = tv_usecs t div 10 ^ (6 - d) * 10 ^ (6 - d)"
proof -
  have b: "unat (tv_usec t) < 1000000" using assms(2) by (simp add: tv_ok_unat)
  then have b': "unat (tv_usec t) < 2 ^ 31" by simp
  obtain r where r: "my_time_fraction_remainder log (tv_usec t) d = Some r" "unat (tv_usec t - r) = trunc_usec d (unat (tv_usec t))"
    by (rule fraction_remainder_trunc [OF assms(1) b' assms(3)])
  let ?t = "t\<lparr>tv_usec := tv_usec t - r\<rparr>"
  have lt: "unat (tv_usec t - r) < 1000000" using r(2) b trunc_usec_le [of d "unat (tv_usec t)"] by linarith
  then have s: "sint (tv_usec t - r) = int (trunc_usec d (unat (tv_usec t)))" "sint (tv_usec t) = int (unat (tv_usec t))"
    using sint_unat_32 [of "tv_usec t - r"] sint_unat_32 [OF b'] r(2) by (simp_all del: of_nat_unat)
  have "tv_usecs ?t = tv_usecs t div 10 ^ (6 - d) * 10 ^ (6 - d)"
    unfolding tv_usecs_def floor_to_multiple [OF assms(3)] by (simp add: s trunc_usec_def zdiv_int del: of_nat_unat)
  then show thesis by (intro that [of ?t]) (use r(1) lt in \<open>simp_all add: my_timeval_trunc_def tv_ok_unat\<close>)
qed

text \<open>Timestamps are compared as their microseconds, the zero datetime is before all of them, and the comparison is antisymmetric; truncation to
  fewer digits rounds the microseconds down, also before the epoch, leaves the zero datetime alone and keeps the order.\<close>

theorem timestamp_order:
  assumes "\<forall>i < 20. log i = (10 :: ulonglong) ^ i" "tv_ok (ts_value a)" "tv_ok (ts_value b)" "d \<le> 6"
  shows "\<exists>a' b'. ts_trunc log d a = Some a' \<and> ts_trunc log d b = Some b' \<and>
    (\<not> m_is_zero_datetime a \<longrightarrow> tv_usecs (ts_value a') = tv_usecs (ts_value a) div 10 ^ (6 - d) * 10 ^ (6 - d)) \<and>
    (m_is_zero_datetime a \<longrightarrow> a' = a) \<and>
    (\<not> m_is_zero_datetime a \<and> \<not> m_is_zero_datetime b \<longrightarrow> ts_cmp a b = sgn (tv_usecs (ts_value a) - tv_usecs (ts_value b))) \<and>
    ts_cmp b a = - ts_cmp a b \<and> (ts_cmp a b \<le> 0 \<longrightarrow> ts_cmp a' b' \<le> 0)"
proof -
  obtain va where va: "my_timeval_trunc log (ts_value a) d = Some va" "tv_ok va"
    "tv_usecs va = tv_usecs (ts_value a) div 10 ^ (6 - d) * 10 ^ (6 - d)" by (rule my_timeval_trunc_value [OF assms(1,2,4)])
  obtain vb where vb: "my_timeval_trunc log (ts_value b) d = Some vb" "tv_ok vb"
    "tv_usecs vb = tv_usecs (ts_value b) div 10 ^ (6 - d) * 10 ^ (6 - d)" by (rule my_timeval_trunc_value [OF assms(1,3,4)])
  have mono: "tv_usecs va \<le> tv_usecs vb" if "tv_usecs (ts_value a) \<le> tv_usecs (ts_value b)"
    unfolding va(3) vb(3) using that by (intro mult_right_mono zdiv_mono1) simp_all
  have c: "timestamp_cmp (ts_value a) (ts_value b) = sgn (tv_usecs (ts_value a) - tv_usecs (ts_value b))"
    "timestamp_cmp (ts_value b) (ts_value a) = sgn (tv_usecs (ts_value b) - tv_usecs (ts_value a))"
    "timestamp_cmp va vb = sgn (tv_usecs va - tv_usecs vb)"
    using assms va vb by (simp_all add: timestamp_cmp_usecs)
  have sg: "sgn (y - x) = - sgn (x - y)" "sgn (x - y) \<le> 0 \<longleftrightarrow> x \<le> y" for x y :: int by (simp_all add: sgn_if)
  show ?thesis
    using va vb mono
    by (cases "m_is_zero_datetime a"; cases "m_is_zero_datetime b"; simp add: ts_trunc_def ts_cmp_def c sg(2); subst sg(1); simp)
qed

theorem timestamp_order_witness:
  "\<exists>a'. ts_trunc (\<lambda>i. 10 ^ i) 3 \<lparr>ts_value = \<lparr>tv_sec = - 1, tv_usec = 999999\<rparr>, m_is_zero_datetime = False\<rparr> = Some a' \<and>
     tv_usecs (ts_value a') = - 1000 \<and> ts_cmp ts_zero a' \<le> 0"
  using timestamp_order [of "\<lambda>i. 10 ^ i" ts_zero "\<lparr>ts_value = \<lparr>tv_sec = - 1, tv_usec = 999999\<rparr>, m_is_zero_datetime = False\<rparr>" 3]
    timestamp_order [of "\<lambda>i. 10 ^ i" "\<lparr>ts_value = \<lparr>tv_sec = - 1, tv_usec = 999999\<rparr>, m_is_zero_datetime = False\<rparr>" ts_zero 3]
  by (auto simp: tv_ok_unat ts_zero_def tv_usecs_def ts_cmp_def)

lemma smod_second:
  assumes "\<not> n < 1000000" "n < (2000000 :: nat)"
  shows "int n smod 1000000 = int (n - 1000000)"
proof -
  have "int n smod 1000000 = int (n mod 1000000)" by (simp add: signed_modulo_int_def sgn_if zmod_int)
  also have "n mod 1000000 = n - 1000000" using assms by (simp add: mod_if)
  finally show ?thesis .
qed

lemma add_nanoseconds_usec_value:
  assumes "tv_ok t" "ns \<le> 1000000000"
  obtains c u where "add_nanoseconds_usec ns t = Some (c, t\<lparr>tv_usec := u\<rparr>)" "unat u < 1000000"
    "unat u + (if c then 1000000 else 0) = unat (tv_usec t) + (unat ns + 500) div 1000"
proof -
  let ?v = "tv_usec t + (ns + 500) div 1000"
  have b: "unat (tv_usec t) \<le> 999999" using assms(1) by (simp add: tv_ok_unat)
  note v = add_nanoseconds_carry [OF b assms(2)]
  have sv: "sint ?v = int (unat ?v)" using v(3) by (intro sint_unat_32) simp
  consider (none) "ns < 500" | (plain) "\<not> ns < 500" "unat ?v < 1000000" | (sec) "\<not> ns < 500" "\<not> unat ?v < 1000000" by blast
  then show thesis
  proof cases
    case none
    then have "(unat ns + 500) div 1000 = 0" by (simp add: word_less_nat_alt)
    with none b show thesis using assms(2) by (intro that [of False "tv_usec t"]) (simp_all add: add_nanoseconds_usec_def)
  next
    case plain
    then have "sint ?v < 1000000" unfolding sv by linarith
    with plain v(1) show thesis using assms(2) by (intro that [of False ?v]) (simp_all add: add_nanoseconds_usec_def)
  next
    case sec
    let ?u = "word_of_int (sint ?v smod 1000000) :: uint"
    have "sint ?v smod 1000000 = int (unat ?v - 1000000)"
      unfolding sv using sec(2) v(3) by (rule smod_second)
    then have u: "unat ?u = unat ?v - 1000000" using v(3) by (simp add: unat_of_nat del: of_nat_diff)
    have "\<not> sint ?v < 1000000" unfolding sv using sec(2) by linarith
    with sec u v(1,3) show thesis using assms(2) by (intro that [of True ?u]) (simp_all add: add_nanoseconds_usec_def)
  qed
qed

text \<open>The last time of the day keeps the digits of the precision.\<close>

lemma end_of_day_value:
  assumes "time_lib_ok L" "d \<le> 6"
  obtains u where "end_of_day L d = Some \<lparr>td_hour = 23, td_minute = 59, td_second = 59, td_usecond = u\<rparr>" "unat u = trunc_usec d 999999"
proof -
  have lg: "\<forall>i < 20. log_10_int L i = 10 ^ i" using time_lib_okD(1) [OF assms(1)] by blast
  have b: "unat (999999 :: uint) < 2 ^ 31" by simp
  obtain r where r: "my_time_fraction_remainder (log_10_int L) 999999 d = Some r" "unat (999999 - r) = trunc_usec d 999999"
    using fraction_remainder_trunc [OF lg b assms(2)] by auto
  have "r = of_nat (999999 mod 10 ^ (6 - d))" using fraction_remainder_value [OF lg b assms(2)] r(1) by simp
  moreover have m: "999999 mod 10 ^ (6 - d) \<le> (999999 :: nat)" by simp
  ultimately have "sint r = int (999999 mod 10 ^ (6 - d))" by (simp only:) (rule sint_of_nat_small, rule le_less_trans [OF m], simp)
  then have "0 \<le> sint r" "sint r \<le> 999999" using m by linarith+
  moreover have "trunc_usec d 999999 \<le> 999999" by simp
  ultimately show thesis
    by (intro that [of "999999 - r"]) (use r in \<open>simp_all add: end_of_day_def time_limits make_TimeOfDay6_def is_valid_time_of_day6_def Let_def\<close>)
qed

lemma sec_part_shift_unshift:
  assumes "\<forall>i < 20. log i = (10 :: ulonglong) ^ i" "unat p < 2 ^ 63" "d \<le> 6"
  shows "sec_part_unshift log (sec_part_shift log p d) d = of_nat (trunc_usec d (unat p))"
proof -
  have "6 - d \<in> {0, 1, 2, 3, 4, 5, 6}" by auto
  then have l: "sint (log (6 - d)) = int (10 ^ (6 - d))" using assms(1) by auto
  have "int a sdiv int b = int (a div b)" for a b :: nat by (simp add: signed_divide_int_def sgn_if zdiv_int)
  then have "sec_part_shift log p d = of_nat (unat p div 10 ^ (6 - d))"
    using sint_unat [OF assms(2)] l by (simp only: sec_part_shift_def TIME_SECOND_PART_DIGITS_def of_int_of_nat_eq)
  moreover have "log (6 - d) = of_nat (10 ^ (6 - d))" using assms(1,3) by simp
  ultimately show ?thesis by (simp add: sec_part_unshift_def TIME_SECOND_PART_DIGITS_def trunc_usec_def)
qed

end
