(* ===== verification/Opt_Range.thy ===== *)
theory Opt_Range
  imports Prelude "HOL-Library.Monad_Syntax"
begin

text \<open>
  The intervals of the range optimizer: \<open>SEL_ARG\<close> and \<open>QUICK_RANGE\<close> of \<open>opt_range.h\<close>, with the range flags of \<open>my_base.h\<close>. A value pointer is the list
  of bytes it points to; a \<open>SEL_ARG\<close> pointer is an address, 0 for null. The members that the header only declares are parameters: the
  comparison \<open>sel_cmp\<close>, the constructor, and \<open>first\<close> and \<open>last\<close>, the ends of an interval list. \<^const>\<open>None\<close> is an access outside the memory,
  a failed allocation of \<open>new\<close> is the result \<open>None\<close> of the constructor.
\<close>

section \<open>Range flags\<close>

definition NO_MIN_RANGE :: uchar where "NO_MIN_RANGE = 1"
definition NO_MAX_RANGE :: uchar where "NO_MAX_RANGE = 2"
definition NEAR_MIN :: uchar where "NEAR_MIN = 4"
definition NEAR_MAX :: uchar where "NEAR_MAX = 8"
definition EQ_RANGE :: uchar where "EQ_RANGE = 32"
definition GEOM_FLAG :: uchar where "GEOM_FLAG = 128"
definition HA_REVERSE_SORT :: uchar where "HA_REVERSE_SORT = 128"

lemmas range_flags = NO_MIN_RANGE_def NO_MAX_RANGE_def NEAR_MIN_def NEAR_MAX_def EQ_RANGE_def GEOM_FLAG_def

definition has_flag :: "'a::len word \<Rightarrow> uchar \<Rightarrow> bool" where
  "has_flag f b \<longleftrightarrow> f AND ucast b \<noteq> 0"

definition invert_min_flag :: "uint \<Rightarrow> uint" where
  "invert_min_flag min_flag =
     (let out = min_flag AND NOT (ucast (NEAR_MIN OR NO_MIN_RANGE));
          out = (if has_flag min_flag NEAR_MIN then out OR ucast NEAR_MAX else out);
          out = (if has_flag min_flag NO_MIN_RANGE then out OR ucast NO_MAX_RANGE else out)
      in out)"

definition invert_max_flag :: "uint \<Rightarrow> uint" where
  "invert_max_flag max_flag =
     (let out = max_flag AND NOT (ucast (NEAR_MAX OR NO_MAX_RANGE));
          out = (if has_flag max_flag NEAR_MAX then out OR ucast NEAR_MIN else out);
          out = (if has_flag max_flag NO_MAX_RANGE then out OR ucast NO_MIN_RANGE else out)
      in out)"

section \<open>SEL_ARG\<close>

datatype sel_type = IMPOSSIBLE | MAYBE | MAYBE_KEY | KEY_RANGE

datatype leaf_color = BLACK | RED

record SEL_ARG =
  min_flag :: uchar
  max_flag :: uchar
  maybe_flag :: uchar
  part :: uchar
  maybe_null :: uchar
  max_part_no :: uint16
  elements :: uint
  use_count :: uint
  field :: nat
  min_value :: "uchar list"
  max_value :: "uchar list"
  left_arg :: nat
  right_arg :: nat
  next_arg :: nat
  prev_arg :: nat
  parent_arg :: nat
  next_key_part :: nat
  color :: leaf_color
  sel_type :: sel_type
  weight :: uint

text \<open>The comparison of two ends: the field, the two values and their flags.\<close>

type_synonym sel_cmp = "nat \<Rightarrow> uchar list \<Rightarrow> uchar list \<Rightarrow> uchar \<Rightarrow> uchar \<Rightarrow> int"

definition cmp_min_to_min :: "sel_cmp \<Rightarrow> SEL_ARG \<Rightarrow> SEL_ARG \<Rightarrow> int" where
  "cmp_min_to_min sel_cmp s arg = sel_cmp (field s) (min_value s) (min_value arg) (min_flag s) (min_flag arg)"

definition cmp_min_to_max :: "sel_cmp \<Rightarrow> SEL_ARG \<Rightarrow> SEL_ARG \<Rightarrow> int" where
  "cmp_min_to_max sel_cmp s arg = sel_cmp (field s) (min_value s) (max_value arg) (min_flag s) (max_flag arg)"

definition cmp_max_to_max :: "sel_cmp \<Rightarrow> SEL_ARG \<Rightarrow> SEL_ARG \<Rightarrow> int" where
  "cmp_max_to_max sel_cmp s arg = sel_cmp (field s) (max_value s) (max_value arg) (max_flag s) (max_flag arg)"

definition cmp_max_to_min :: "sel_cmp \<Rightarrow> SEL_ARG \<Rightarrow> SEL_ARG \<Rightarrow> int" where
  "cmp_max_to_min sel_cmp s arg = sel_cmp (field s) (max_value s) (min_value arg) (max_flag s) (min_flag arg)"

definition is_same :: "sel_cmp \<Rightarrow> SEL_ARG \<Rightarrow> SEL_ARG \<Rightarrow> bool" where
  "is_same sel_cmp s arg =
     (if sel_type s \<noteq> sel_type arg \<or> part s \<noteq> part arg then False
      else if sel_type s \<noteq> KEY_RANGE then True
      else cmp_min_to_min sel_cmp s arg = 0 \<and> cmp_max_to_max sel_cmp s arg = 0)"

text \<open>The loop of \<open>all_same\<close> returns the two positions where it stops; fuel bounds its rounds.\<close>

fun all_same_loop :: "nat \<Rightarrow> sel_cmp \<Rightarrow> (nat \<Rightarrow> SEL_ARG) \<Rightarrow> nat \<Rightarrow> nat \<Rightarrow> (nat \<times> nat) option" where
  "all_same_loop 0 sel_cmp h cur_arg cmp_arg = None"
| "all_same_loop (Suc fuel) sel_cmp h cur_arg cmp_arg =
     (if cur_arg \<noteq> 0 \<and> cmp_arg \<noteq> 0 \<and> is_same sel_cmp (h cur_arg) (h cmp_arg)
      then all_same_loop fuel sel_cmp h (next_arg (h cur_arg)) (next_arg (h cmp_arg)) else Some (cur_arg, cmp_arg))"

definition all_same :: "nat \<Rightarrow> sel_cmp \<Rightarrow> (nat \<Rightarrow> nat) \<Rightarrow> (nat \<Rightarrow> SEL_ARG) \<Rightarrow> nat \<Rightarrow> nat \<Rightarrow> bool option" where
  "all_same fuel sel_cmp first h s arg =
     (if sel_type (h s) \<noteq> sel_type (h arg) \<or> part (h s) \<noteq> part (h arg) then Some False
      else if sel_type (h s) \<noteq> KEY_RANGE then Some True
      else if arg = s then Some True
      else do {
        (cur_arg, cmp_arg) \<leftarrow> all_same_loop fuel sel_cmp h (first s) (first arg);
        Some (\<not> (cur_arg \<noteq> 0 \<or> cmp_arg \<noteq> 0)) })"

definition merge_flags :: "SEL_ARG \<Rightarrow> SEL_ARG \<Rightarrow> SEL_ARG" where
  "merge_flags arg s = s\<lparr>maybe_flag := maybe_flag s OR maybe_flag arg\<rparr>"

definition maybe_smaller :: "SEL_ARG \<Rightarrow> SEL_ARG" where
  "maybe_smaller s = s\<lparr>maybe_flag := 1\<rparr>"

definition is_null_interval :: "SEL_ARG \<Rightarrow> bool option" where
  "is_null_interval s =
     (if maybe_null s = 0 then Some False else if max_value s = [] then None else Some (max_value s ! 0 = 1))"

text \<open>The constructor takes the field, the part, the two values, their flags and the maybe flag.\<close>

type_synonym new_sel_arg = "nat \<Rightarrow> uchar \<Rightarrow> uchar list \<Rightarrow> uchar list \<Rightarrow> uchar \<Rightarrow> uchar \<Rightarrow> uchar \<Rightarrow> SEL_ARG option"

definition clone_and :: "new_sel_arg \<Rightarrow> sel_cmp \<Rightarrow> SEL_ARG \<Rightarrow> SEL_ARG \<Rightarrow> SEL_ARG option" where
  "clone_and new sel_cmp s arg =
     (let (new_min, flag_min) = (if cmp_min_to_min sel_cmp s arg \<ge> 0 then (min_value s, min_flag s) else (min_value arg, min_flag arg));
          (new_max, flag_max) = (if cmp_max_to_max sel_cmp s arg \<le> 0 then (max_value s, max_flag s) else (max_value arg, max_flag arg))
      in new (field s) (part s) new_min new_max flag_min flag_max (if maybe_flag s \<noteq> 0 \<and> maybe_flag arg \<noteq> 0 then 1 else 0))"

definition clone_first :: "new_sel_arg \<Rightarrow> SEL_ARG \<Rightarrow> SEL_ARG \<Rightarrow> SEL_ARG option" where
  "clone_first new s arg =
     new (field s) (part s) (min_value s) (min_value arg) (min_flag s) (if has_flag (min_flag arg) NEAR_MIN then 0 else NEAR_MAX)
       (maybe_flag s OR maybe_flag arg)"

definition clone_last :: "new_sel_arg \<Rightarrow> SEL_ARG \<Rightarrow> SEL_ARG \<Rightarrow> SEL_ARG option" where
  "clone_last new s arg =
     new (field s) (part s) (min_value s) (max_value arg) (min_flag s) (max_flag arg) (maybe_flag s OR maybe_flag arg)"

definition full_range_flags :: "uchar \<Rightarrow> bool" where
  "full_range_flags f \<longleftrightarrow> f AND (NO_MAX_RANGE OR NO_MIN_RANGE) = NO_MAX_RANGE OR NO_MIN_RANGE"

definition copy_min :: "sel_cmp \<Rightarrow> SEL_ARG \<Rightarrow> SEL_ARG \<Rightarrow> bool \<times> SEL_ARG" where
  "copy_min sel_cmp arg s =
     (if cmp_min_to_min sel_cmp s arg > 0
      then let s = s\<lparr>min_value := min_value arg, min_flag := min_flag arg\<rparr>
           in if full_range_flags (max_flag s) then (True, s) else (False, s\<lparr>maybe_flag := maybe_flag s OR maybe_flag arg\<rparr>)
      else (False, s\<lparr>maybe_flag := maybe_flag s OR maybe_flag arg\<rparr>))"

definition copy_max :: "sel_cmp \<Rightarrow> SEL_ARG \<Rightarrow> SEL_ARG \<Rightarrow> bool \<times> SEL_ARG" where
  "copy_max sel_cmp arg s =
     (if cmp_max_to_max sel_cmp s arg \<le> 0
      then let s = s\<lparr>max_value := max_value arg, max_flag := max_flag arg\<rparr>
           in if full_range_flags (max_flag s) then (True, s) else (False, s\<lparr>maybe_flag := maybe_flag s OR maybe_flag arg\<rparr>)
      else (False, s\<lparr>maybe_flag := maybe_flag s OR maybe_flag arg\<rparr>))"

definition copy_min_to_min :: "SEL_ARG \<Rightarrow> SEL_ARG \<Rightarrow> SEL_ARG" where
  "copy_min_to_min arg s = s\<lparr>min_value := min_value arg, min_flag := min_flag arg\<rparr>"

definition copy_min_to_max :: "SEL_ARG \<Rightarrow> SEL_ARG \<Rightarrow> SEL_ARG" where
  "copy_min_to_max arg s = s\<lparr>max_value := min_value arg, max_flag := (if has_flag (min_flag arg) NEAR_MIN then 0 else NEAR_MAX)\<rparr>"

definition copy_max_to_min :: "SEL_ARG \<Rightarrow> SEL_ARG \<Rightarrow> SEL_ARG" where
  "copy_max_to_min arg s = s\<lparr>min_value := max_value arg, min_flag := (if has_flag (max_flag arg) NEAR_MAX then 0 else NEAR_MIN)\<rparr>"

text \<open>\<open>Field::key_cmp\<close> is the parameter \<open>key_cmp\<close>.\<close>

definition is_singlepoint :: "(nat \<Rightarrow> uchar list \<Rightarrow> uchar list \<Rightarrow> int) \<Rightarrow> SEL_ARG \<Rightarrow> bool option" where
  "is_singlepoint key_cmp s =
     (if min_flag s \<noteq> 0 \<or> max_flag s \<noteq> 0 then Some False
      else if maybe_null s \<noteq> 0
      then if min_value s = [] \<or> max_value s = [] then None
           else if hd (min_value s) \<noteq> hd (max_value s) then Some False
           else if hd (min_value s) \<noteq> 0 then Some True
           else Some (key_cmp (field s) (tl (min_value s)) (tl (max_value s)) = 0)
      else Some (key_cmp (field s) (min_value s) (max_value s) = 0))"

section \<open>Key buffers\<close>

datatype imagetype = itRAW | itMBR

record KEY_PART =
  kp_key :: uint16
  kp_part :: uint16
  kp_store_length :: uint16
  kp_length :: uint16
  kp_null_bit :: uchar
  kp_flag :: uchar
  kp_field :: nat
  kp_image_type :: imagetype

text \<open>The key written so far is a list of bytes; \<open>store_value\<close> appends \<open>length\<close> bytes, with the null byte of a nullable part.\<close>

definition store_value :: "uint \<Rightarrow> uchar \<Rightarrow> uchar list \<Rightarrow> uchar list \<Rightarrow> uchar list option" where
  "store_value len mnull value key =
     (if mnull \<noteq> 0 \<and> value = [] then None
      else if mnull \<noteq> 0 \<and> hd value \<noteq> 0 then if len = 0 then None else Some (key @ 1 # replicate (unat len - 1) 0)
      else if unat len \<le> length value then Some (key @ take (unat len) value) else None)"

definition store_min :: "uint \<Rightarrow> uchar list \<Rightarrow> uint \<Rightarrow> SEL_ARG \<Rightarrow> (nat \<times> uchar list) option" where
  "store_min len min_key min_key_flag s =
     (if has_flag (min_flag s) GEOM_FLAG \<or>
         \<not> has_flag (min_flag s) NO_MIN_RANGE \<and> \<not> has_flag min_key_flag (NO_MIN_RANGE OR NEAR_MIN)
      then map_option (\<lambda>k. (1, k)) (store_value len (maybe_null s) (min_value s) min_key) else Some (0, min_key))"

definition store_max :: "uint \<Rightarrow> uchar list \<Rightarrow> uint \<Rightarrow> SEL_ARG \<Rightarrow> (nat \<times> uchar list) option" where
  "store_max len max_key max_key_flag s =
     (if \<not> has_flag (max_flag s) NO_MAX_RANGE \<and> \<not> has_flag max_key_flag (NO_MAX_RANGE OR NEAR_MAX)
      then map_option (\<lambda>k. (1, k)) (store_value len (maybe_null s) (max_value s) max_key) else Some (0, max_key))"

definition reversed :: "(nat \<Rightarrow> KEY_PART) \<Rightarrow> SEL_ARG \<Rightarrow> bool" where
  "reversed kp s \<longleftrightarrow> kp_flag (kp (unat (part s))) AND HA_REVERSE_SORT \<noteq> 0"

definition store_min_max ::
  "(nat \<Rightarrow> KEY_PART) \<Rightarrow> uint \<Rightarrow> uint \<Rightarrow> uint \<Rightarrow> SEL_ARG \<Rightarrow> uchar list \<times> uchar list \<times> nat \<times> nat \<Rightarrow> (uchar list \<times> uchar list \<times> nat \<times> nat) option" where
  "store_min_max kp len minf maxf s st =
     (let (min_key, max_key, min_part, max_part) = st
      in if reversed kp s
         then do { (n, max_key) \<leftarrow> store_min len max_key minf s;
                   (m, min_key) \<leftarrow> store_max len min_key maxf s;
                   Some (min_key, max_key, min_part + m, max_part + n) }
         else do { (n, min_key) \<leftarrow> store_min len min_key minf s;
                   (m, max_key) \<leftarrow> store_max len max_key maxf s;
                   Some (min_key, max_key, min_part + n, max_part + m) })"

definition get_min_flag :: "(nat \<Rightarrow> KEY_PART) \<Rightarrow> SEL_ARG \<Rightarrow> uint" where
  "get_min_flag kp s = (if reversed kp s then invert_max_flag (ucast (max_flag s)) else ucast (min_flag s))"

definition get_max_flag :: "(nat \<Rightarrow> KEY_PART) \<Rightarrow> SEL_ARG \<Rightarrow> uint" where
  "get_max_flag kp s = (if reversed kp s then invert_min_flag (ucast (min_flag s)) else ucast (max_flag s))"

definition index_order_prev :: "(nat \<Rightarrow> KEY_PART) \<Rightarrow> SEL_ARG \<Rightarrow> nat" where
  "index_order_prev kp s = (if reversed kp s then next_arg s else prev_arg s)"

definition index_order_next :: "(nat \<Rightarrow> KEY_PART) \<Rightarrow> SEL_ARG \<Rightarrow> nat" where
  "index_order_next kp s = (if reversed kp s then prev_arg s else next_arg s)"

text \<open>The recursion descends to the next key part; fuel bounds it. The result is the number of parts stored, the key and the flags.\<close>

fun store_min_key and store_max_key where
  "store_min_key 0 first_of last_of h key n last_part start_key range_key range_key_flag = None"
| "store_min_key (Suc fuel) first_of last_of h key n last_part start_key range_key range_key_flag = do {
     let key_tree = h (first_of n);
     (res, range_key) \<leftarrow> store_min (ucast (kp_store_length (key (unat (part key_tree))))) range_key range_key_flag key_tree;
     if res = 0 then Some (0 :: nat, range_key, range_key_flag)
     else let range_key_flag = range_key_flag OR ucast (min_flag key_tree); nkp = next_key_part key_tree
          in if nkp \<noteq> 0 \<and> sel_type (h nkp) = KEY_RANGE \<and> unat (part key_tree) \<noteq> last_part \<and>
                unat (part (h nkp)) = unat (part key_tree) + 1 \<and> \<not> has_flag range_key_flag (NO_MIN_RANGE OR NEAR_MIN)
             then let asc = (\<not> reversed key key_tree)
                  in if start_key = asc
                     then do { (r, k, f) \<leftarrow> store_min_key fuel first_of last_of h key nkp last_part start_key range_key range_key_flag;
                               Some (res + r, k, f) }
                     else do { (r, k, f) \<leftarrow> store_max_key fuel first_of last_of h key nkp last_part start_key range_key
                                 (invert_min_flag range_key_flag);
                               Some (res + r, k, invert_max_flag f) }
             else Some (res, range_key, range_key_flag) }"
| "store_max_key 0 first_of last_of h key n last_part start_key range_key range_key_flag = None"
| "store_max_key (Suc fuel) first_of last_of h key n last_part start_key range_key range_key_flag = do {
     let key_tree = h (last_of n);
     (res, range_key) \<leftarrow> store_max (ucast (kp_store_length (key (unat (part key_tree))))) range_key range_key_flag key_tree;
     if res = 0 then Some (0 :: nat, range_key, range_key_flag)
     else let range_key_flag = range_key_flag OR ucast (max_flag key_tree); nkp = next_key_part key_tree
          in if nkp \<noteq> 0 \<and> sel_type (h nkp) = KEY_RANGE \<and> unat (part key_tree) \<noteq> last_part \<and>
                unat (part (h nkp)) = unat (part key_tree) + 1 \<and> \<not> has_flag range_key_flag (NO_MAX_RANGE OR NEAR_MAX)
             then let asc = (\<not> reversed key key_tree)
                  in if \<not> start_key \<and> asc \<or> start_key \<and> \<not> asc
                     then do { (r, k, f) \<leftarrow> store_max_key fuel first_of last_of h key nkp last_part start_key range_key range_key_flag;
                               Some (res + r, k, f) }
                     else do { (r, k, f) \<leftarrow> store_min_key fuel first_of last_of h key nkp last_part start_key range_key
                                 (invert_max_flag range_key_flag);
                               Some (res + r, k, invert_min_flag f) }
             else Some (res, range_key, range_key_flag) }"

section \<open>Use counts\<close>

definition simple_key :: "SEL_ARG \<Rightarrow> bool" where
  "simple_key s \<longleftrightarrow> next_key_part s = 0 \<and> elements s = 1"

text \<open>The use counts live in the heap. The recursion goes down the key parts and along the interval lists, with fuel for its depth. The counts and
  the argument \<open>cnt\<close> (\<open>count\<close> in the source) are computed modulo \<open>2 ^ 32\<close>, as the conversions between \<open>long\<close> and \<open>ulong\<close> do.\<close>

definition add_use_count :: "nat \<Rightarrow> uint \<Rightarrow> (nat \<Rightarrow> SEL_ARG) \<Rightarrow> nat \<Rightarrow> SEL_ARG" where
  "add_use_count n c h = h(n := (h n)\<lparr>use_count := use_count (h n) + c\<rparr>)"

fun increment_use_count :: "nat \<Rightarrow> (nat \<Rightarrow> nat) \<Rightarrow> (nat \<Rightarrow> SEL_ARG) \<Rightarrow> nat \<Rightarrow> uint \<Rightarrow> (nat \<Rightarrow> SEL_ARG) option"
  and increment_loop :: "nat \<Rightarrow> (nat \<Rightarrow> nat) \<Rightarrow> (nat \<Rightarrow> SEL_ARG) \<Rightarrow> nat \<Rightarrow> uint \<Rightarrow> (nat \<Rightarrow> SEL_ARG) option" where
  "increment_use_count 0 first_of h n cnt = None"
| "increment_use_count (Suc fuel) first_of h n cnt =
     (let nkp = next_key_part (h n)
      in if nkp \<noteq> 0
         then let h = add_use_count nkp cnt h; cnt = cnt * (use_count (h nkp) - cnt)
              in increment_loop fuel first_of h (first_of nkp) cnt
         else Some h)"
| "increment_loop 0 first_of h p cnt = None"
| "increment_loop (Suc fuel) first_of h p cnt =
     (if p = 0 then Some h
      else do {
        h \<leftarrow> (if next_key_part (h p) \<noteq> 0 then increment_use_count fuel first_of h p cnt else Some h);
        increment_loop fuel first_of h (next_arg (h p)) cnt })"

definition incr_refs :: "nat \<Rightarrow> (nat \<Rightarrow> nat) \<Rightarrow> (nat \<Rightarrow> SEL_ARG) \<Rightarrow> nat \<Rightarrow> (nat \<Rightarrow> SEL_ARG) option" where
  "incr_refs fuel first_of h n = map_option (add_use_count n 1) (increment_use_count fuel first_of h n 1)"

fun incr_refs_loop :: "nat \<Rightarrow> (nat \<Rightarrow> nat) \<Rightarrow> (nat \<Rightarrow> SEL_ARG) \<Rightarrow> nat \<Rightarrow> (nat \<Rightarrow> SEL_ARG) option" where
  "incr_refs_loop 0 first_of h p = None"
| "incr_refs_loop (Suc fuel) first_of h p =
     (if p = 0 then Some h
      else do { h \<leftarrow> increment_use_count fuel first_of h p 1; incr_refs_loop fuel first_of h (next_arg (h p)) })"

definition incr_refs_all :: "nat \<Rightarrow> (nat \<Rightarrow> nat) \<Rightarrow> (nat \<Rightarrow> SEL_ARG) \<Rightarrow> nat \<Rightarrow> (nat \<Rightarrow> SEL_ARG) option" where
  "incr_refs_all fuel first_of h n = map_option (add_use_count n 1) (incr_refs_loop fuel first_of h (first_of n))"

fun free_tree :: "nat \<Rightarrow> (nat \<Rightarrow> nat) \<Rightarrow> (nat \<Rightarrow> SEL_ARG) \<Rightarrow> nat \<Rightarrow> (nat \<Rightarrow> SEL_ARG) option"
  and free_loop :: "nat \<Rightarrow> (nat \<Rightarrow> nat) \<Rightarrow> (nat \<Rightarrow> SEL_ARG) \<Rightarrow> nat \<Rightarrow> (nat \<Rightarrow> SEL_ARG) option" where
  "free_tree 0 first_of h n = None"
| "free_tree (Suc fuel) first_of h n = free_loop fuel first_of h (first_of n)"
| "free_loop 0 first_of h p = None"
| "free_loop (Suc fuel) first_of h p =
     (if p = 0 then Some h
      else do {
        h \<leftarrow> (let nkp = next_key_part (h p)
             in if nkp \<noteq> 0 then free_tree fuel first_of (add_use_count nkp (- 1) h) nkp else Some h);
        free_loop fuel first_of h (next_arg (h p)) })"

text \<open>\<open>parent_ptr\<close> returns the address of one of the parent's links, here which one it is.\<close>

datatype child_link = Left_Link | Right_Link

definition parent_ptr :: "(nat \<Rightarrow> SEL_ARG) \<Rightarrow> nat \<Rightarrow> nat \<times> child_link" where
  "parent_ptr h n =
     (let parent = parent_arg (h n) in if left_arg (h parent) = n then (parent, Left_Link) else (parent, Right_Link))"

section \<open>QUICK_RANGE\<close>

datatype ha_rkey_function =
    HA_READ_KEY_EXACT | HA_READ_KEY_OR_NEXT | HA_READ_KEY_OR_PREV | HA_READ_AFTER_KEY | HA_READ_BEFORE_KEY | HA_READ_PREFIX
  | HA_READ_PREFIX_LAST | HA_READ_PREFIX_LAST_OR_PREV | HA_READ_MBR_CONTAIN | HA_READ_MBR_INTERSECT | HA_READ_MBR_WITHIN
  | HA_READ_MBR_DISJOINT | HA_READ_MBR_EQUAL

record QUICK_RANGE =
  q_min_key :: "uchar list"
  q_max_key :: "uchar list"
  q_min_length :: uint16
  q_max_length :: uint16
  q_flag :: uint16
  min_keypart_map :: ulonglong
  max_keypart_map :: ulonglong

record key_range =
  kr_key :: "uchar list"
  kr_length :: uint
  kr_keypart_map :: ulonglong
  kr_flag :: ha_rkey_function

definition make_min_endpoint :: "QUICK_RANGE \<Rightarrow> key_range" where
  "make_min_endpoint q =
     \<lparr>kr_key = q_min_key q, kr_length = ucast (q_min_length q), kr_keypart_map = min_keypart_map q,
      kr_flag = (if has_flag (q_flag q) NEAR_MIN then HA_READ_AFTER_KEY
                 else if has_flag (q_flag q) EQ_RANGE then HA_READ_KEY_EXACT else HA_READ_KEY_OR_NEXT)\<rparr>"

definition make_min_endpoint_prefix :: "uint \<Rightarrow> ulonglong \<Rightarrow> QUICK_RANGE \<Rightarrow> key_range" where
  "make_min_endpoint_prefix prefix_length keypart_map q =
     (let kr = make_min_endpoint q
      in kr\<lparr>kr_length := min (kr_length kr) prefix_length, kr_keypart_map := kr_keypart_map kr AND keypart_map\<rparr>)"

definition make_max_endpoint :: "QUICK_RANGE \<Rightarrow> key_range" where
  "make_max_endpoint q =
     \<lparr>kr_key = q_max_key q, kr_length = ucast (q_max_length q), kr_keypart_map = max_keypart_map q,
      kr_flag = (if has_flag (q_flag q) NEAR_MAX then HA_READ_BEFORE_KEY else HA_READ_AFTER_KEY)\<rparr>"

definition make_max_endpoint_prefix :: "uint \<Rightarrow> ulonglong \<Rightarrow> QUICK_RANGE \<Rightarrow> key_range" where
  "make_max_endpoint_prefix prefix_length keypart_map q =
     (let kr = make_max_endpoint q
      in kr\<lparr>kr_length := min (kr_length kr) prefix_length, kr_keypart_map := kr_keypart_map kr AND keypart_map\<rparr>)"

section \<open>Positions\<close>

text \<open>An end of an interval is a position between or at the key values: \<open>At v (-1)\<close> is just before \<open>v\<close> and \<open>At v 1\<close> just after it.\<close>

datatype 'k pos = MinusInf | At 'k int | PlusInf

instantiation pos :: (linorder) linorder
begin

fun less_eq_pos :: "'a pos \<Rightarrow> 'a pos \<Rightarrow> bool" where
  "less_eq_pos MinusInf q \<longleftrightarrow> True"
| "less_eq_pos (At a i) MinusInf \<longleftrightarrow> False"
| "less_eq_pos (At a i) (At b j) \<longleftrightarrow> a < b \<or> a = b \<and> i \<le> j"
| "less_eq_pos (At a i) PlusInf \<longleftrightarrow> True"
| "less_eq_pos PlusInf q \<longleftrightarrow> q = PlusInf"

definition less_pos :: "'a pos \<Rightarrow> 'a pos \<Rightarrow> bool" where
  "less_pos p q \<longleftrightarrow> p \<le> q \<and> \<not> q \<le> (p :: 'a pos)"

instance
proof
  fix p q r :: "'a pos"
  show "p < q \<longleftrightarrow> p \<le> q \<and> \<not> q \<le> p" by (rule less_pos_def)
  show "p \<le> p" by (cases p) simp_all
  show "p \<le> r" if "p \<le> q" "q \<le> r" using that by (cases p; cases q; cases r) auto
  show "p = q" if "p \<le> q" "q \<le> p" using that by (cases p; cases q) auto
  show "p \<le> q \<or> q \<le> p" by (cases p; cases q) auto
qed

end

definition endpos :: "(uchar list \<Rightarrow> 'k::linorder) \<Rightarrow> uchar list \<Rightarrow> uchar \<Rightarrow> 'k pos" where
  "endpos key v f =
     (if has_flag f NO_MIN_RANGE then MinusInf else if has_flag f NO_MAX_RANGE then PlusInf
      else At (key v) (if has_flag f NEAR_MIN then 1 else if has_flag f NEAR_MAX then -1 else 0))"

definition min_pos :: "(uchar list \<Rightarrow> 'k::linorder) \<Rightarrow> SEL_ARG \<Rightarrow> 'k pos" where
  "min_pos key s = endpos key (min_value s) (min_flag s)"

definition max_pos :: "(uchar list \<Rightarrow> 'k::linorder) \<Rightarrow> SEL_ARG \<Rightarrow> 'k pos" where
  "max_pos key s = endpos key (max_value s) (max_flag s)"

definition points :: "(uchar list \<Rightarrow> 'k::linorder) \<Rightarrow> SEL_ARG \<Rightarrow> 'k set" where
  "points key s = {x. min_pos key s \<le> At x 0 \<and> At x 0 \<le> max_pos key s}"

text \<open>What the callers rely on: \<open>sel_cmp\<close> compares positions, and the constructor stores its arguments.\<close>

definition sel_cmp_ok :: "sel_cmp \<Rightarrow> nat \<Rightarrow> (uchar list \<Rightarrow> 'k::linorder) \<Rightarrow> bool" where
  "sel_cmp_ok sel_cmp f key \<longleftrightarrow> (\<forall>a b fa fb.
     (sel_cmp f a b fa fb < 0 \<longleftrightarrow> endpos key a fa < endpos key b fb) \<and> (sel_cmp f a b fa fb > 0 \<longleftrightarrow> endpos key b fb < endpos key a fa))"

definition new_ok :: "new_sel_arg \<Rightarrow> bool" where
  "new_ok new \<longleftrightarrow> (\<forall>f p mn mx fmn fmx mb s. new f p mn mx fmn fmx mb = Some s \<longrightarrow>
     field s = f \<and> part s = p \<and> min_value s = mn \<and> max_value s = mx \<and> min_flag s = fmn \<and> max_flag s = fmx \<and> maybe_flag s = mb)"

text \<open>The flags of an end: a minimum has only flags of a minimum.\<close>

definition flags_ok :: "SEL_ARG \<Rightarrow> bool" where
  "flags_ok s \<longleftrightarrow> \<not> has_flag (min_flag s) (NO_MAX_RANGE OR NEAR_MAX) \<and> \<not> has_flag (max_flag s) (NO_MIN_RANGE OR NEAR_MIN)"

section \<open>Interval operations\<close>

lemma has_flag_or: "has_flag f (a OR b) \<longleftrightarrow> has_flag f a \<or> has_flag f b"
proof -
  have "f AND ucast (a OR b) = (f AND ucast a) OR (f AND ucast b)" by (rule bit_word_eqI) (auto simp: bit_simps)
  then show ?thesis by (simp add: has_flag_def or_eq_0_iff)
qed

lemma flag_consts [simp]:
  "\<not> has_flag (0 :: uchar) b" "\<not> has_flag NEAR_MAX NEAR_MIN" "\<not> has_flag NEAR_MAX NO_MIN_RANGE" "\<not> has_flag NEAR_MAX NO_MAX_RANGE"
  "has_flag NEAR_MAX NEAR_MAX" "\<not> has_flag NEAR_MIN NEAR_MAX" "\<not> has_flag NEAR_MIN NO_MIN_RANGE" "\<not> has_flag NEAR_MIN NO_MAX_RANGE"
  "has_flag NEAR_MIN NEAR_MIN"
  by (simp_all add: has_flag_def range_flags)

lemma flags_okD:
  "flags_ok s \<Longrightarrow> \<not> has_flag (min_flag s) NO_MAX_RANGE" "flags_ok s \<Longrightarrow> \<not> has_flag (min_flag s) NEAR_MAX"
  "flags_ok s \<Longrightarrow> \<not> has_flag (max_flag s) NO_MIN_RANGE" "flags_ok s \<Longrightarrow> \<not> has_flag (max_flag s) NEAR_MIN"
  by (simp_all add: flags_ok_def has_flag_or)

lemma At_0_less: "At x 0 < p \<longleftrightarrow> (case p of MinusInf \<Rightarrow> False | At v i \<Rightarrow> x < v \<or> x = v \<and> 0 < i | PlusInf \<Rightarrow> True)"
  by (cases p) (auto simp: less_pos_def)

lemma less_At_0: "p < At x 0 \<longleftrightarrow> (case p of MinusInf \<Rightarrow> True | At v i \<Rightarrow> v < x \<or> v = x \<and> i < 0 | PlusInf \<Rightarrow> False)"
  by (cases p) (auto simp: less_pos_def)

text \<open>The end just before a minimum, and the one just after a maximum.\<close>

lemma before_min:
  assumes "flags_ok arg" "\<not> has_flag (min_flag arg) NO_MIN_RANGE"
  shows "At x 0 \<le> endpos key (min_value arg) (if has_flag (min_flag arg) NEAR_MIN then 0 else NEAR_MAX) \<longleftrightarrow> At x 0 < min_pos key arg"
  using assms flags_okD(1,2) [of arg] by (auto simp: endpos_def min_pos_def At_0_less)

lemma after_max:
  assumes "flags_ok arg" "\<not> has_flag (max_flag arg) NO_MAX_RANGE"
  shows "endpos key (max_value arg) (if has_flag (max_flag arg) NEAR_MAX then 0 else NEAR_MIN) \<le> At x 0 \<longleftrightarrow> max_pos key arg < At x 0"
  using assms flags_okD(3,4) [of arg] by (auto simp: endpos_def max_pos_def less_At_0)

lemma sel_cmp_signs:
  assumes "sel_cmp_ok sel_cmp (field s) key"
  shows "cmp_min_to_min sel_cmp s arg \<ge> 0 \<longleftrightarrow> min_pos key arg \<le> min_pos key s" "cmp_min_to_min sel_cmp s arg > 0 \<longleftrightarrow> min_pos key arg < min_pos key s"
    "cmp_max_to_max sel_cmp s arg \<le> 0 \<longleftrightarrow> max_pos key s \<le> max_pos key arg"
    "cmp_min_to_min sel_cmp s arg = 0 \<longleftrightarrow> min_pos key s = min_pos key arg" "cmp_max_to_max sel_cmp s arg = 0 \<longleftrightarrow> max_pos key s = max_pos key arg"
proof -
  have c: "sel_cmp (field s) a b fa fb < 0 \<longleftrightarrow> endpos key a fa < endpos key b fb"
    "sel_cmp (field s) a b fa fb > 0 \<longleftrightarrow> endpos key b fb < endpos key a fa" for a b fa fb
    using assms by (simp_all add: sel_cmp_ok_def)
  have eq: "(x :: int) = 0 \<longleftrightarrow> \<not> x < 0 \<and> \<not> x > 0" "(p :: 'a pos) = q \<longleftrightarrow> \<not> p < q \<and> \<not> q < p" for x p q by auto
  note d = cmp_min_to_min_def cmp_max_to_max_def min_pos_def max_pos_def
  show "cmp_min_to_min sel_cmp s arg \<ge> 0 \<longleftrightarrow> min_pos key arg \<le> min_pos key s" "cmp_min_to_min sel_cmp s arg > 0 \<longleftrightarrow> min_pos key arg < min_pos key s"
    "cmp_max_to_max sel_cmp s arg \<le> 0 \<longleftrightarrow> max_pos key s \<le> max_pos key arg"
    using c by (simp_all add: d flip: not_less)
  show "cmp_min_to_min sel_cmp s arg = 0 \<longleftrightarrow> min_pos key s = min_pos key arg" "cmp_max_to_max sel_cmp s arg = 0 \<longleftrightarrow> max_pos key s = max_pos key arg"
    using eq c unfolding d by simp_all
qed

lemma new_okD:
  assumes "new_ok new" "new f p mn mx fmn fmx mb = Some s"
  shows "min_pos key s = endpos key mn fmn" "max_pos key s = endpos key mx fmx" "part s = p" "field s = f"
  using assms by (simp_all add: new_ok_def min_pos_def max_pos_def)

lemma clone_and_points:
  assumes "new_ok new" "sel_cmp_ok sel_cmp (field s) key" "clone_and new sel_cmp s arg = Some r"
  shows "points key r = points key s \<inter> points key arg" "part r = part s"
proof -
  define mn where "mn = (if cmp_min_to_min sel_cmp s arg \<ge> 0 then (min_value s, min_flag s) else (min_value arg, min_flag arg))"
  define mx where "mx = (if cmp_max_to_max sel_cmp s arg \<le> 0 then (max_value s, max_flag s) else (max_value arg, max_flag arg))"
  have e: "new (field s) (part s) (fst mn) (fst mx) (snd mn) (snd mx) (if maybe_flag s \<noteq> 0 \<and> maybe_flag arg \<noteq> 0 then 1 else 0) = Some r"
    using assms(3) unfolding clone_and_def mn_def [symmetric] mx_def [symmetric] by (simp add: split_beta)
  have "endpos key (fst mn) (snd mn) = max (min_pos key s) (min_pos key arg)"
    using sel_cmp_signs(1) [OF assms(2), of arg]
    by (cases "cmp_min_to_min sel_cmp s arg \<ge> 0") (auto simp: mn_def max_def min_pos_def)
  moreover have "endpos key (fst mx) (snd mx) = min (max_pos key s) (max_pos key arg)"
    using sel_cmp_signs(3) [OF assms(2), of arg]
    by (cases "cmp_max_to_max sel_cmp s arg \<le> 0") (auto simp: mx_def min_def max_pos_def)
  ultimately have "min_pos key r = max (min_pos key s) (min_pos key arg)" "max_pos key r = min (max_pos key s) (max_pos key arg)"
    using new_okD(1,2) [OF assms(1) e, of key] by simp_all
  then show "points key r = points key s \<inter> points key arg" by (auto simp: points_def)
  show "part r = part s" by (rule new_okD(3) [OF assms(1) e])
qed

lemma copy_min_pos:
  assumes "sel_cmp_ok sel_cmp (field s) key"
  shows "min_pos key (snd (copy_min sel_cmp arg s)) = min (min_pos key s) (min_pos key arg)"
    "max_pos key (snd (copy_min sel_cmp arg s)) = max_pos key s"
  using sel_cmp_signs(2) [OF assms, of arg] by (auto simp: copy_min_def Let_def min_def min_pos_def max_pos_def)

lemma copy_max_pos:
  assumes "sel_cmp_ok sel_cmp (field s) key"
  shows "max_pos key (snd (copy_max sel_cmp arg s)) = max (max_pos key s) (max_pos key arg)"
    "min_pos key (snd (copy_max sel_cmp arg s)) = min_pos key s"
  using sel_cmp_signs(3) [OF assms, of arg] by (auto simp: copy_max_def Let_def max_def min_pos_def max_pos_def)

lemma clone_first_points:
  assumes "new_ok new" "clone_first new s arg = Some r" "flags_ok arg" "\<not> has_flag (min_flag arg) NO_MIN_RANGE"
  shows "points key r = {x. min_pos key s \<le> At x 0 \<and> At x 0 < min_pos key arg}"
  using new_okD(1,2) [OF assms(1) assms(2) [unfolded clone_first_def], of key] before_min [OF assms(3,4), of _ key]
  by (simp add: points_def min_pos_def)

lemma clone_last_points:
  assumes "new_ok new" "clone_last new s arg = Some r"
  shows "points key r = {x. min_pos key s \<le> At x 0 \<and> At x 0 \<le> max_pos key arg}"
  using new_okD(1,2) [OF assms(1) assms(2) [unfolded clone_last_def], of key] by (simp add: points_def min_pos_def max_pos_def)

lemma cut_points:
  assumes "flags_ok arg"
  shows "\<not> has_flag (min_flag arg) NO_MIN_RANGE \<Longrightarrow>
      points key (copy_min_to_max arg s) = {x. min_pos key s \<le> At x 0 \<and> At x 0 < min_pos key arg}"
    "\<not> has_flag (max_flag arg) NO_MAX_RANGE \<Longrightarrow>
      points key (copy_max_to_min arg s) = {x. max_pos key arg < At x 0 \<and> At x 0 \<le> max_pos key s}"
    "points key (copy_min_to_min arg s) = {x. min_pos key arg \<le> At x 0 \<and> At x 0 \<le> max_pos key s}"
  using before_min [OF assms, of _ key] after_max [OF assms, of key]
  by (simp_all add: points_def min_pos_def max_pos_def copy_min_to_max_def copy_max_to_min_def copy_min_to_min_def)

text \<open>C24. The operations on the elementary intervals are those on their sets of key values, for every combination of open, closed and missing ends:
  \<open>clone_and\<close> is the intersection; for overlapping intervals \<open>copy_min\<close> followed by \<open>copy_max\<close> is the union; an interval is cut at the minimum of another into
  \<open>clone_first\<close> and the rest, which are disjoint, and \<open>copy_min_to_max\<close> and \<open>copy_max_to_min\<close> give the parts before and after another one.\<close>

theorem sel_arg_intervals:
  fixes key :: "uchar list \<Rightarrow> 'k::linorder"
  assumes "sel_cmp_ok sel_cmp (field s) key" "new_ok new" "flags_ok s" "flags_ok arg"
  shows "(\<forall>r. clone_and new sel_cmp s arg = Some r \<longrightarrow> points key r = points key s \<inter> points key arg) \<and>
    (min_pos key s \<le> max_pos key arg \<and> min_pos key arg \<le> max_pos key s \<longrightarrow>
       points key (snd (copy_max sel_cmp arg (snd (copy_min sel_cmp arg s)))) = points key s \<union> points key arg) \<and>
    (\<forall>r. clone_first new s arg = Some r \<and> min_pos key s \<le> min_pos key arg \<and> min_pos key arg \<le> max_pos key s \<and> \<not> has_flag (min_flag arg) NO_MIN_RANGE \<longrightarrow>
       points key s = points key r \<union> points key (copy_min_to_min arg s) \<and> points key r \<inter> points key (copy_min_to_min arg s) = {}) \<and>
    (\<not> has_flag (min_flag arg) NO_MIN_RANGE \<and> \<not> has_flag (max_flag arg) NO_MAX_RANGE \<and> min_pos key arg \<le> max_pos key s \<and> min_pos key s \<le> max_pos key arg \<longrightarrow>
       points key (copy_min_to_max arg s) \<union> points key (copy_max_to_min arg s) = points key s - points key arg)"
proof (intro conjI allI impI)
  show "points key r = points key s \<inter> points key arg" if "clone_and new sel_cmp s arg = Some r" for r
    by (rule clone_and_points(1) [OF assms(2,1) that])
next
  assume o: "min_pos key s \<le> max_pos key arg \<and> min_pos key arg \<le> max_pos key s"
  let ?t = "snd (copy_min sel_cmp arg s)"
  have f: "sel_cmp_ok sel_cmp (field ?t) key" using assms(1) by (simp add: copy_min_def Let_def)
  have "min_pos key (snd (copy_max sel_cmp arg ?t)) = min (min_pos key s) (min_pos key arg)"
    "max_pos key (snd (copy_max sel_cmp arg ?t)) = max (max_pos key s) (max_pos key arg)"
    using copy_min_pos [OF assms(1), of arg] copy_max_pos [OF f, of arg] by simp_all
  then show "points key (snd (copy_max sel_cmp arg ?t)) = points key s \<union> points key arg"
    using o unfolding points_def by (auto simp: min_le_iff_disj le_max_iff_disj)
next
  fix r
  assume a: "clone_first new s arg = Some r \<and> min_pos key s \<le> min_pos key arg \<and> min_pos key arg \<le> max_pos key s \<and> \<not> has_flag (min_flag arg) NO_MIN_RANGE"
  then have r: "points key r = {x. min_pos key s \<le> At x 0 \<and> At x 0 < min_pos key arg}"
    using clone_first_points [OF assms(2) _ assms(4)] by blast
  show "points key s = points key r \<union> points key (copy_min_to_min arg s)" "points key r \<inter> points key (copy_min_to_min arg s) = {}"
    unfolding r cut_points(3) [OF assms(4)] using a by (auto simp: points_def not_less)
next
  assume a: "\<not> has_flag (min_flag arg) NO_MIN_RANGE \<and> \<not> has_flag (max_flag arg) NO_MAX_RANGE \<and> min_pos key arg \<le> max_pos key s \<and> min_pos key s \<le> max_pos key arg"
  then show "points key (copy_min_to_max arg s) \<union> points key (copy_max_to_min arg s) = points key s - points key arg"
    using cut_points(1,2) [OF assms(4), of key s] by (auto simp: points_def not_le)
qed

text \<open>Keys of one byte, for the concrete instances.\<close>

definition byte_key :: "uchar list \<Rightarrow> nat" where
  "byte_key v = (case v of [] \<Rightarrow> 0 | b # _ \<Rightarrow> unat b)"

definition byte_cmp :: sel_cmp where
  "byte_cmp f a b fa fb =
     (if endpos byte_key a fa < endpos byte_key b fb then -1 else if endpos byte_key b fb < endpos byte_key a fa then 1 else 0)"

definition blank_arg :: SEL_ARG where
  "blank_arg = \<lparr>min_flag = 0, max_flag = 0, maybe_flag = 0, part = 0, maybe_null = 0, max_part_no = 1, elements = 1, use_count = 1, field = 0,
     min_value = [], max_value = [], left_arg = 0, right_arg = 0, next_arg = 0, prev_arg = 0, parent_arg = 0, next_key_part = 0,
     color = BLACK, sel_type = KEY_RANGE, weight = 1\<rparr>"

definition byte_part :: KEY_PART where
  "byte_part = \<lparr>kp_key = 0, kp_part = 0, kp_store_length = 1, kp_length = 1, kp_null_bit = 0, kp_flag = 0, kp_field = 0, kp_image_type = itRAW\<rparr>"

definition plain_new :: new_sel_arg where
  "plain_new f p mn mx fmn fmx mb =
     Some (blank_arg\<lparr>min_flag := fmn, max_flag := fmx, maybe_flag := mb, part := p, field := f, min_value := mn, max_value := mx\<rparr>)"

lemma byte_instances: "sel_cmp_ok byte_cmp f byte_key" "new_ok plain_new"
  by (auto simp: sel_cmp_ok_def byte_cmp_def new_ok_def plain_new_def)

theorem sel_arg_intervals_witness:
  "\<exists>s arg r. plain_new 0 0 [10] [20] 0 NEAR_MAX 0 = Some s \<and> plain_new 0 0 [15] [] NEAR_MIN NO_MAX_RANGE 0 = Some arg \<and>
     clone_and plain_new byte_cmp s arg = Some r \<and> points byte_key r = points byte_key s \<inter> points byte_key arg"
proof -
  obtain s arg where sa: "plain_new 0 0 [10] [20] 0 NEAR_MAX 0 = Some s" "plain_new 0 0 [15] [] NEAR_MIN NO_MAX_RANGE 0 = Some arg"
    by (simp add: plain_new_def)
  then have f: "flags_ok s" "flags_ok arg" by (auto simp: plain_new_def flags_ok_def has_flag_def range_flags)
  obtain r where r: "clone_and plain_new byte_cmp s arg = Some r" by (simp add: clone_and_def plain_new_def split_beta)
  have "points byte_key r = points byte_key s \<inter> points byte_key arg"
    by (rule sel_arg_intervals [OF byte_instances f, THEN conjunct1, rule_format, OF r])
  with sa r show ?thesis by (intro exI conjI)
qed

text \<open>\<open>copy_min\<close> and \<open>copy_max\<close> are meant to report a full range; both test the maximum's flags for the flag of a missing minimum, which is
  in the minimum's flags, so that they never do.\<close>

lemma full_range_missed:
  assumes "flags_ok s" "flags_ok arg"
  shows "\<not> fst (copy_min sel_cmp arg s)" "\<not> fst (copy_max sel_cmp arg s)"
proof -
  have "\<not> full_range_flags f" if "\<not> has_flag f NO_MIN_RANGE" for f :: uchar
  proof
    assume "full_range_flags f"
    then have "bit (f AND 3) 0 = bit (3 :: uchar) 0" by (simp add: full_range_flags_def range_flags)
    then have "bit f 0" by (simp add: bit_and_iff)
    with that show False by (simp add: has_flag_def range_flags and_one_eq odd_iff_mod_2_eq_one bit_0)
  qed
  then show "\<not> fst (copy_min sel_cmp arg s)" "\<not> fst (copy_max sel_cmp arg s)"
    using flags_okD(3) [OF assms(1)] flags_okD(3) [OF assms(2)] by (auto simp: copy_min_def copy_max_def Let_def)
qed

text \<open>A nullable value starts with a null byte: all nulls are one key, and other values compare by the rest.\<close>

definition key_cmp_ok :: "(nat \<Rightarrow> uchar list \<Rightarrow> uchar list \<Rightarrow> int) \<Rightarrow> SEL_ARG \<Rightarrow> (uchar list \<Rightarrow> 'k) \<Rightarrow> bool" where
  "key_cmp_ok key_cmp s key \<longleftrightarrow> (\<forall>a b.
     if maybe_null s = 0 then key_cmp (field s) a b = 0 \<longleftrightarrow> key a = key b
     else (key (0 # a) = key (0 # b) \<longleftrightarrow> key_cmp (field s) a b = 0) \<and> key (1 # a) = key (1 # b) \<and> key (0 # a) \<noteq> key (1 # b))"

lemma is_singlepoint_points:
  fixes key :: "uchar list \<Rightarrow> 'k::linorder"
  assumes "key_cmp_ok key_cmp s key" "maybe_null s \<noteq> 0 \<Longrightarrow> \<exists>a b. min_value s = a # tl (min_value s) \<and> max_value s = b # tl (max_value s) \<and> a \<in> {0, 1} \<and> b \<in> {0, 1}"
  shows "is_singlepoint key_cmp s = Some (min_flag s = 0 \<and> max_flag s = 0 \<and> key (min_value s) = key (max_value s))"
    "is_singlepoint key_cmp s = Some True \<Longrightarrow> points key s = {key (min_value s)}"
proof -
  show *: "is_singlepoint key_cmp s = Some (min_flag s = 0 \<and> max_flag s = 0 \<and> key (min_value s) = key (max_value s))"
  proof (cases "maybe_null s = 0")
    case True
    then show ?thesis using assms(1) by (auto simp: is_singlepoint_def key_cmp_ok_def)
  next
    case False
    then obtain a b u v where ab: "min_value s = a # u" "max_value s = b # v" "a \<in> {0, 1}" "b \<in> {0, 1}" using assms(2) by metis
    have "key (0 # x) = key (0 # y) \<longleftrightarrow> key_cmp (field s) x y = 0" "key (1 # x) = key (1 # y)" "key (0 # x) \<noteq> key (1 # y)" "key (1 # x) \<noteq> key (0 # y)" for x y
      using assms(1) False unfolding key_cmp_ok_def by metis+
    with ab False show ?thesis by (auto simp: is_singlepoint_def)
  qed
  assume "is_singlepoint key_cmp s = Some True"
  then show "points key s = {key (min_value s)}"
    using * by (auto simp: points_def min_pos_def max_pos_def endpos_def)
qed

section \<open>Keys of several parts\<close>

definition store_len :: "(nat \<Rightarrow> KEY_PART) \<Rightarrow> nat \<Rightarrow> nat" where
  "store_len key p = unat (kp_store_length (key p))"

text \<open>The ends of an interval list have its key part, and the values fill their part of the key.\<close>

definition graph_ok :: "(nat \<Rightarrow> nat) \<Rightarrow> (nat \<Rightarrow> nat) \<Rightarrow> (nat \<Rightarrow> SEL_ARG) \<Rightarrow> (nat \<Rightarrow> KEY_PART) \<Rightarrow> bool" where
  "graph_ok first_of last_of h key \<longleftrightarrow> (\<forall>n. part (h (first_of n)) = part (h n) \<and> part (h (last_of n)) = part (h n) \<and>
     1 \<le> store_len key (unat (part (h n))) \<and> store_len key (unat (part (h n))) \<le> length (min_value (h n)) \<and>
     store_len key (unat (part (h n))) \<le> length (max_value (h n)))"

lemma graph_okD:
  assumes "graph_ok first_of last_of h key"
  shows "part (h (first_of n)) = part (h n)" "part (h (last_of n)) = part (h n)" "1 \<le> store_len key (unat (part (h n)))"
    "store_len key (unat (part (h n))) \<le> length (min_value (h n))" "store_len key (unat (part (h n))) \<le> length (max_value (h n))"
  using assms by (simp_all add: graph_ok_def)

lemma store_value_ok:
  assumes "1 \<le> unat len" "unat len \<le> length v"
  shows "\<exists>bs. store_value len m v k = Some (k @ bs) \<and> length bs = unat len"
proof -
  have "v \<noteq> []" "len \<noteq> 0" using assms by auto
  then show ?thesis using assms by (auto simp: store_value_def)
qed

lemma unat_len: "unat (ucast (kp_store_length (key p)) :: uint) = store_len key p"
  using unat_bound [of "kp_store_length (key p)"] by (simp add: store_len_def unsigned_ucast_eq take_bit_nat_eq_self)

text \<open>The result of storing from part \<open>p\<close>: the key is extended by the lengths of the parts that are counted.\<close>

definition stored :: "(nat \<Rightarrow> KEY_PART) \<Rightarrow> nat \<Rightarrow> uchar list \<Rightarrow> (nat \<times> uchar list \<times> uint) option \<Rightarrow> bool" where
  "stored key p k r \<longleftrightarrow> (\<exists>n bs f. r = Some (n, k @ bs, f) \<and> length bs = (\<Sum>i<n. store_len key (p + i)) \<and> p + n \<le> 256)"

lemma stored_nothing: "p < 256 \<Longrightarrow> stored key p k (Some (0, k, f))"
  by (simp add: stored_def)

lemma stored_one:
  assumes "length bs = store_len key p" "p < 256"
  shows "stored key p k (Some (1, k @ bs, f))"
  unfolding stored_def by (intro exI [of _ 1] exI [of _ bs] exI [of _ f]) (use assms in simp)

lemma stored_more:
  assumes "stored key (p + 1) (k @ bs) r" "length bs = store_len key p"
  shows "stored key p k (do { (n, k, f) \<leftarrow> r; Some (1 + n, k, g f) })"
proof -
  obtain n cs f where r: "r = Some (n, (k @ bs) @ cs, f)" "length cs = (\<Sum>i<n. store_len key (p + 1 + i))" "p + 1 + n \<le> 256"
    using assms(1) unfolding stored_def by blast
  have "length (bs @ cs) = (\<Sum>i<1 + n. store_len key (p + i))" using r(2) assms(2) by (simp add: sum.lessThan_Suc_shift del: sum.lessThan_Suc)
  then show ?thesis unfolding stored_def r(1) by (intro exI [of _ "1 + n"] exI [of _ "bs @ cs"] exI [of _ "g f"]) (use r(3) in simp)
qed

lemma store_min_cases:
  assumes "1 \<le> unat len" "unat len \<le> length (min_value s)"
  obtains "store_min len k f s = Some (0, k)" | bs where "store_min len k f s = Some (1, k @ bs)" "length bs = unat len"
proof -
  have "store_min len k f s = Some (0, k) \<or> (\<exists>bs. store_min len k f s = Some (1, k @ bs) \<and> length bs = unat len)"
    using store_value_ok [OF assms, of "maybe_null s" k] by (auto simp: store_min_def)
  then show thesis using that by blast
qed

lemma store_max_cases:
  assumes "1 \<le> unat len" "unat len \<le> length (max_value s)"
  obtains "store_max len k f s = Some (0, k)" | bs where "store_max len k f s = Some (1, k @ bs)" "length bs = unat len"
proof -
  have "store_max len k f s = Some (0, k) \<or> (\<exists>bs. store_max len k f s = Some (1, k @ bs) \<and> length bs = unat len)"
    using store_value_ok [OF assms, of "maybe_null s" k] by (auto simp: store_max_def)
  then show thesis using that by blast
qed

lemma store_keys_ok:
  assumes "graph_ok first_of last_of h key" "256 \<le> fuel + unat (part (h n))"
  shows "stored key (unat (part (h n))) k (store_min_key fuel first_of last_of h key n last_part start_key k f) \<and>
    stored key (unat (part (h n))) k (store_max_key fuel first_of last_of h key n last_part start_key k f)"
  using assms(2)
proof (induction fuel arbitrary: n k f start_key)
  case 0
  have "unat (part (h n)) < 256" using unat_bound [of "part (h n)"] by simp
  with 0 show ?case by simp
next
  case (Suc fuel)
  note g = graph_okD [OF assms(1)]
  have b: "unat (part (h n)) < 256" using unat_bound [of "part (h n)"] by simp
  let ?len = "ucast (kp_store_length (key (unat (part (h n))))) :: uint"
  have IH: "stored key (unat (part (h n)) + 1) k' (store_min_key fuel first_of last_of h key m last_part sk k' f')"
    "stored key (unat (part (h n)) + 1) k' (store_max_key fuel first_of last_of h key m last_part sk k' f')"
    if "unat (part (h m)) = unat (part (h n)) + 1" for m k' f' sk
    using Suc.IH [of m k' sk f'] Suc.prems that by auto
  show ?case
  proof
    have l: "1 \<le> unat ?len" "unat ?len \<le> length (min_value (h (first_of n)))" using g(3,4) [of "first_of n"] by (simp_all add: unat_len g(1))
    from l show "stored key (unat (part (h n))) k (store_min_key (Suc fuel) first_of last_of h key n last_part start_key k f)"
    proof (rule store_min_cases [of _ _ k f])
      assume "store_min ?len k f (h (first_of n)) = Some (0, k)"
      then show ?thesis using b by (simp add: g(1) stored_nothing)
    next
      fix bs
      assume "store_min ?len k f (h (first_of n)) = Some (1, k @ bs)" "length bs = unat ?len"
      then show ?thesis
        using b IH stored_one [of bs key "unat (part (h n))" k]
          stored_more [where g = "\<lambda>f. f" and bs = bs and k = k and p = "unat (part (h n))" and key = key]
          stored_more [where g = invert_max_flag and bs = bs and k = k and p = "unat (part (h n))" and key = key]
        by (simp add: g(1) Let_def unat_len)
    qed
  next
    have l: "1 \<le> unat ?len" "unat ?len \<le> length (max_value (h (last_of n)))" using g(3,5) [of "last_of n"] by (simp_all add: unat_len g(2))
    from l show "stored key (unat (part (h n))) k (store_max_key (Suc fuel) first_of last_of h key n last_part start_key k f)"
    proof (rule store_max_cases [of _ _ k f])
      assume "store_max ?len k f (h (last_of n)) = Some (0, k)"
      then show ?thesis using b by (simp add: g(2) stored_nothing)
    next
      fix bs
      assume "store_max ?len k f (h (last_of n)) = Some (1, k @ bs)" "length bs = unat ?len"
      then show ?thesis
        using b IH stored_one [of bs key "unat (part (h n))" k]
          stored_more [where g = "\<lambda>f. f" and bs = bs and k = k and p = "unat (part (h n))" and key = key]
          stored_more [where g = invert_min_flag and bs = bs and k = k and p = "unat (part (h n))" and key = key]
        by (simp add: g(2) Let_def unat_len)
    qed
  qed
qed

text \<open>\<open>store_min_key\<close> and \<open>store_max_key\<close>, which call each other along the key parts and turn the flags around at descending parts, end on every graph in which the
  intervals of a list share their key part; they write inside their values and extend the key by exactly the lengths of
  the parts they count, which are consecutive and at most 256.\<close>

theorem range_keys_stored:
  assumes "graph_ok first_of last_of h key" "256 \<le> fuel + unat (part (h n))"
  shows "(\<exists>m bs f'. store_min_key fuel first_of last_of h key n last_part start_key k f = Some (m, k @ bs, f') \<and>
      length bs = (\<Sum>i<m. store_len key (unat (part (h n)) + i)) \<and> unat (part (h n)) + m \<le> 256) \<and>
    (\<exists>m bs f'. store_max_key fuel first_of last_of h key n last_part start_key k f = Some (m, k @ bs, f') \<and>
      length bs = (\<Sum>i<m. store_len key (unat (part (h n)) + i)) \<and> unat (part (h n)) + m \<le> 256)"
  using store_keys_ok [OF assms] unfolding stored_def .

theorem range_keys_stored_witness:
  "\<exists>m bs f'. store_min_key 256 id id (\<lambda>n. blank_arg\<lparr>part := of_nat n, min_value := [7], max_value := [9], next_key_part := if n < 3 then n + 1 else 0\<rparr>)
      (\<lambda>p. byte_part\<lparr>kp_flag := if p = 1 then HA_REVERSE_SORT else 0\<rparr>) 0 5 True [] 0 = Some (m, [] @ bs, f') \<and> length bs = m"
  using range_keys_stored [of id id "\<lambda>n. blank_arg\<lparr>part := of_nat n, min_value := [7], max_value := [9], next_key_part := if n < 3 then n + 1 else 0\<rparr>"
      "\<lambda>p. byte_part\<lparr>kp_flag := if p = 1 then HA_REVERSE_SORT else 0\<rparr>" 256 0 5 True "[]" 0]
  by (auto simp: graph_ok_def store_len_def blank_arg_def byte_part_def)

lemma has_flag_bit:
  "has_flag f NO_MIN_RANGE \<longleftrightarrow> bit f 0" "has_flag f NO_MAX_RANGE \<longleftrightarrow> bit f 1" "has_flag f NEAR_MIN \<longleftrightarrow> bit f 2" "has_flag f NEAR_MAX \<longleftrightarrow> bit f 3"
  for f :: uint
proof -
  have *: "f AND 2 ^ n \<noteq> 0 \<longleftrightarrow> bit f n" for n by (simp add: bit_iff_and_push_bit_not_eq_0 push_bit_eq_mult)
  show "has_flag f NO_MIN_RANGE \<longleftrightarrow> bit f 0" "has_flag f NO_MAX_RANGE \<longleftrightarrow> bit f 1" "has_flag f NEAR_MIN \<longleftrightarrow> bit f 2" "has_flag f NEAR_MAX \<longleftrightarrow> bit f 3"
    using * [of 0] * [of 1] * [of 2] * [of 3] by (simp_all add: has_flag_def range_flags)
qed

lemma flag_bits:
  "bit (ucast NO_MIN_RANGE :: uint) n \<longleftrightarrow> n = 0" "bit (ucast NO_MAX_RANGE :: uint) n \<longleftrightarrow> n = 1"
  "bit (ucast NEAR_MIN :: uint) n \<longleftrightarrow> n = 2" "bit (ucast NEAR_MAX :: uint) n \<longleftrightarrow> n = 3"
proof -
  have *: "bit (2 ^ m :: uint) n \<longleftrightarrow> m = n" if "m < 32" for m using that by (auto simp: bit_exp_iff)
  show "bit (ucast NO_MIN_RANGE :: uint) n \<longleftrightarrow> n = 0" "bit (ucast NO_MAX_RANGE :: uint) n \<longleftrightarrow> n = 1"
    "bit (ucast NEAR_MIN :: uint) n \<longleftrightarrow> n = 2" "bit (ucast NEAR_MAX :: uint) n \<longleftrightarrow> n = 3"
    using * [of 0] * [of 1] * [of 2] * [of 3] by (auto simp: range_flags)
qed

lemma bit_inverted:
  "bit (invert_min_flag f) n = (if n < 32 then if n = 0 \<or> n = 2 then False else if n = 1 then bit f 1 \<or> bit f 0 else if n = 3 then bit f 3 \<or> bit f 2 else bit f n else False)"
  "bit (invert_max_flag f) n = (if n < 32 then if n = 1 \<or> n = 3 then False else if n = 0 then bit f 0 \<or> bit f 1 else if n = 2 then bit f 2 \<or> bit f 3 else bit f n else False)"
  by (auto simp: invert_min_flag_def invert_max_flag_def Let_def bit_and_iff bit_or_iff bit_not_iff flag_bits has_flag_bit unsigned_or_eq dest: bit_imp_le_length)

lemma invert_flags:
  "\<not> has_flag f (NEAR_MAX OR NO_MAX_RANGE) \<Longrightarrow> invert_max_flag (invert_min_flag f) = f"
  "\<not> has_flag f (NEAR_MIN OR NO_MIN_RANGE) \<Longrightarrow> invert_min_flag (invert_max_flag f) = f"
  by (rule bit_word_eqI; auto simp: bit_inverted has_flag_or has_flag_bit split: if_splits)+

section \<open>Reference counting\<close>

text \<open>The graph below a position has no cycle when a rank decreases along every link; the fuel needed is twice the rank.\<close>

definition ranked :: "(nat \<Rightarrow> nat) \<Rightarrow> (nat \<Rightarrow> SEL_ARG) \<Rightarrow> (nat \<Rightarrow> nat) \<Rightarrow> bool" where
  "ranked first_of h r \<longleftrightarrow> (\<forall>p. p \<noteq> 0 \<longrightarrow> r (next_arg (h p)) < r p \<and> (next_key_part (h p) \<noteq> 0 \<longrightarrow> r (first_of (next_key_part (h p))) < r p))"

text \<open>\<open>refs f first_of h p x\<close> counts the references to \<open>x\<close> as a next key part, over all paths from the interval list at \<open>p\<close>.\<close>

fun refs :: "nat \<Rightarrow> (nat \<Rightarrow> nat) \<Rightarrow> (nat \<Rightarrow> SEL_ARG) \<Rightarrow> nat \<Rightarrow> nat \<Rightarrow> nat" where
  "refs 0 first_of h p x = 0"
| "refs (Suc f) first_of h p x =
     (if p = 0 then 0
      else (let nkp = next_key_part (h p) in if nkp \<noteq> 0 then (if nkp = x then 1 else 0) + refs f first_of h (first_of nkp) x else 0) +
        refs f first_of h (next_arg (h p)) x)"

definition add_counts :: "(nat \<Rightarrow> SEL_ARG) \<Rightarrow> (nat \<Rightarrow> uint) \<Rightarrow> nat \<Rightarrow> SEL_ARG" where
  "add_counts h d = (\<lambda>x. (h x)\<lparr>use_count := use_count (h x) + d x\<rparr>)"

lemma add_counts_simps [simp]:
  "next_arg (add_counts h d x) = next_arg (h x)" "next_key_part (add_counts h d x) = next_key_part (h x)"
  "use_count (add_counts h d x) = use_count (h x) + d x" "add_counts (add_counts h d) e = add_counts h (\<lambda>x. d x + e x)"
  "add_counts h (\<lambda>x. 0) = h" "ranked first_of (add_counts h d) r = ranked first_of h r"
  by (simp_all add: add_counts_def ranked_def add.assoc)

lemma refs_add_counts [simp]: "refs f first_of (add_counts h d) p x = refs f first_of h p x"
  by (induction f first_of h p x rule: refs.induct) (simp_all add: Let_def)

lemma add_use_count_add_counts: "add_use_count n c h = add_counts h (\<lambda>x. if x = n then c else 0)"
  by (rule ext) (simp add: add_use_count_def add_counts_def)

lemma rankedD:
  assumes "ranked first_of h r" "p \<noteq> 0"
  shows "r (next_arg (h p)) < r p" "next_key_part (h p) \<noteq> 0 \<Longrightarrow> r (first_of (next_key_part (h p))) < r p"
  using assms by (auto simp: ranked_def)

lemma refs_fuel:
  assumes "ranked first_of h r" "r p < f" "r p < g"
  shows "refs f first_of h p x = refs g first_of h p x"
  using assms(2,3)
proof (induction f arbitrary: g p)
  case (Suc f)
  then obtain g' where g: "g = Suc g'" by (cases g) auto
  show ?case
  proof (cases "p = 0")
    case False
    note r = rankedD [OF assms(1) False]
    have "refs f first_of h (next_arg (h p)) x = refs g' first_of h (next_arg (h p)) x"
      using Suc.prems r(1) g by (intro Suc.IH) simp_all
    moreover have "refs f first_of h (first_of (next_key_part (h p))) x = refs g' first_of h (first_of (next_key_part (h p))) x" if "next_key_part (h p) \<noteq> 0"
      using Suc.prems r(2) [OF that] g by (intro Suc.IH) simp_all
    ultimately show ?thesis using g by (simp add: Let_def)
  qed (simp add: g)
qed simp

definition refs_of :: "(nat \<Rightarrow> nat) \<Rightarrow> (nat \<Rightarrow> SEL_ARG) \<Rightarrow> (nat \<Rightarrow> nat) \<Rightarrow> nat \<Rightarrow> nat \<Rightarrow> nat" where
  "refs_of first_of h r p x = refs (Suc (r p)) first_of h p x"

lemma refs_of_add_counts [simp]: "refs_of first_of (add_counts h d) r p x = refs_of first_of h r p x"
  by (simp add: refs_of_def)

lemma refs_of_0 [simp]: "refs_of first_of h r 0 x = 0"
  by (simp add: refs_of_def)

lemma refs_of_step:
  assumes "ranked first_of h r" "p \<noteq> 0"
  shows "refs_of first_of h r p x =
    (let nkp = next_key_part (h p) in if nkp \<noteq> 0 then (if nkp = x then 1 else 0) + refs_of first_of h r (first_of nkp) x else 0) +
    refs_of first_of h r (next_arg (h p)) x"
proof -
  note r = rankedD [OF assms]
  have "refs (r p) first_of h (next_arg (h p)) x = refs_of first_of h r (next_arg (h p)) x"
    unfolding refs_of_def using r(1) by (intro refs_fuel [OF assms(1)]) simp_all
  moreover have "refs (r p) first_of h (first_of (next_key_part (h p))) x = refs_of first_of h r (first_of (next_key_part (h p))) x" if "next_key_part (h p) \<noteq> 0"
    unfolding refs_of_def using r(2) [OF that] by (intro refs_fuel [OF assms(1)]) simp_all
  ultimately show ?thesis using assms(2) by (simp add: refs_of_def Let_def)
qed

text \<open>\<open>free_tree\<close> takes one reference for each path, whatever the shape.\<close>

lemma free_loop_counts:
  assumes "ranked first_of h r" "2 * r p < f"
  shows "free_loop f first_of h p = Some (add_counts h (\<lambda>x. - of_nat (refs_of first_of h r p x)))"
  using assms
proof (induction f arbitrary: h p rule: less_induct)
  case (less f)
  then obtain f' where f: "f = Suc f'" by (cases f) auto
  show ?case
  proof (cases "p = 0")
    case False
    note r = rankedD [OF less.prems(1) False]
    let ?nkp = "next_key_part (h p)"
    define d where "d x = (if ?nkp \<noteq> 0 then - (if ?nkp = x then 1 else 0) - of_nat (refs_of first_of h r (first_of ?nkp) x) else 0 :: uint)" for x
    have sub: "(if ?nkp \<noteq> 0 then free_tree f' first_of (add_use_count ?nkp (- 1) h) ?nkp else Some h) = Some (add_counts h d)"
    proof (cases "?nkp = 0")
      case True
      then have "d = (\<lambda>x. 0)" by (auto simp: d_def)
      with True show ?thesis by simp
    next
      case nz: False
      then obtain f2 where f2: "f' = Suc f2" using less.prems(2) r(2) f by (cases f') auto
      have "free_loop f2 first_of (add_use_count ?nkp (- 1) h) (first_of ?nkp) =
        Some (add_counts (add_use_count ?nkp (- 1) h) (\<lambda>x. - of_nat (refs_of first_of (add_use_count ?nkp (- 1) h) r (first_of ?nkp) x)))"
        using less.prems r(2) [OF nz] f f2 by (intro less.IH) (simp_all add: add_use_count_add_counts)
      moreover have "(\<lambda>x. (if x = ?nkp then - 1 else 0) + - of_nat (refs_of first_of h r (first_of ?nkp) x)) = d"
        using nz by (auto simp: d_def fun_eq_iff)
      ultimately show ?thesis using nz f2 by (simp add: add_use_count_add_counts)
    qed
    have "free_loop f' first_of (add_counts h d) (next_arg (h p)) =
      Some (add_counts (add_counts h d) (\<lambda>x. - of_nat (refs_of first_of (add_counts h d) r (next_arg (h p)) x)))"
      using less.prems r(1) f by (intro less.IH) simp_all
    moreover have "(\<lambda>x. d x + - of_nat (refs_of first_of h r (next_arg (h p)) x)) = (\<lambda>x. - of_nat (refs_of first_of h r p x))"
      by (rule ext) (simp add: d_def refs_of_step [OF less.prems(1) False] Let_def)
    ultimately show ?thesis using False f sub by (simp add: Let_def)
  qed (simp add: f)
qed

text \<open>A graph is unshared below a position when each next key part is referred to once and has the use count 1.\<close>

definition unshared :: "(nat \<Rightarrow> nat) \<Rightarrow> (nat \<Rightarrow> SEL_ARG) \<Rightarrow> (nat \<Rightarrow> nat) \<Rightarrow> nat \<Rightarrow> bool" where
  "unshared first_of h r p \<longleftrightarrow> (\<forall>x. refs_of first_of h r p x \<le> 1 \<and> (refs_of first_of h r p x = 1 \<longrightarrow> use_count (h x) = 1))"

definition own_refs :: "(nat \<Rightarrow> nat) \<Rightarrow> (nat \<Rightarrow> SEL_ARG) \<Rightarrow> (nat \<Rightarrow> nat) \<Rightarrow> nat \<Rightarrow> nat \<Rightarrow> nat" where
  "own_refs first_of h r p x =
     (let nkp = next_key_part (h p) in if nkp \<noteq> 0 then (if nkp = x then 1 else 0) + refs_of first_of h r (first_of nkp) x else 0)"

lemma refs_of_own: "ranked first_of h r \<Longrightarrow> p \<noteq> 0 \<Longrightarrow> refs_of first_of h r p x = own_refs first_of h r p x + refs_of first_of h r (next_arg (h p)) x"
  by (simp add: refs_of_step own_refs_def)

lemma unshared_part:
  assumes "unshared first_of h r p" "\<And>x. refs_of first_of h r q x \<le> refs_of first_of h r p x"
    "\<And>x. refs_of first_of h r q x = 1 \<Longrightarrow> d x = 0"
  shows "unshared first_of (add_counts h d) r q"
  unfolding unshared_def
proof (intro allI conjI impI)
  fix x
  have u: "refs_of first_of h r p x \<le> 1" "refs_of first_of h r p x = 1 \<Longrightarrow> use_count (h x) = 1" using assms(1) by (simp_all add: unshared_def)
  show "refs_of first_of (add_counts h d) r q x \<le> 1" using u(1) assms(2) [of x] by simp
  assume "refs_of first_of (add_counts h d) r q x = 1"
  then show "use_count (add_counts h d x) = 1" using u assms(2,3) [of x] by simp
qed

lemma increment_own:
  assumes "ranked first_of h r" "p \<noteq> 0" "unshared first_of h r p" "2 * r p \<le> f"
    and loop: "\<And>f' h' q. f' < f \<Longrightarrow> ranked first_of h' r \<Longrightarrow> 2 * r q < f' \<Longrightarrow> unshared first_of h' r q \<Longrightarrow>
      increment_loop f' first_of h' q cnt = Some (add_counts h' (\<lambda>x. cnt * of_nat (refs_of first_of h' r q x)))"
  shows "increment_use_count f first_of h p cnt = Some (add_counts h (\<lambda>x. cnt * of_nat (own_refs first_of h r p x)))"
proof -
  note r = rankedD [OF assms(1,2)]
  let ?nkp = "next_key_part (h p)"
  obtain f' where f: "f = Suc f'" using assms(4) r(1) by (cases f) auto
  show ?thesis
  proof (cases "?nkp = 0")
    case False
    let ?d = "\<lambda>x. if x = ?nkp then cnt else 0"
    have own: "own_refs first_of h r p x = (if ?nkp = x then 1 else 0) + refs_of first_of h r (first_of ?nkp) x" for x
      using False by (simp add: own_refs_def)
    have le: "own_refs first_of h r p x \<le> refs_of first_of h r p x" "refs_of first_of h r p x \<le> 1" for x
      using assms(3) by (simp_all add: refs_of_own [OF assms(1,2)] unshared_def)
    have self: "refs_of first_of h r (first_of ?nkp) ?nkp = 0" using le [of ?nkp] own [of ?nkp] by simp
    have "refs_of first_of h r p ?nkp = 1" using le [of ?nkp] own [of ?nkp] by simp
    then have one: "use_count (h ?nkp) = 1" using assms(3) by (simp add: unshared_def)
    have "unshared first_of (add_counts h ?d) r (first_of ?nkp)"
    proof (rule unshared_part [OF assms(3)])
      show "refs_of first_of h r (first_of ?nkp) x \<le> refs_of first_of h r p x" for x using le(1) [of x] own [of x] by simp
      show "?d x = 0" if "refs_of first_of h r (first_of ?nkp) x = 1" for x using that self by auto
    qed
    then have "increment_loop f' first_of (add_counts h ?d) (first_of ?nkp) cnt =
      Some (add_counts (add_counts h ?d) (\<lambda>x. cnt * of_nat (refs_of first_of (add_counts h ?d) r (first_of ?nkp) x)))"
      using assms(1,4) r(2) [OF False] f by (intro loop) simp_all
    moreover have "(\<lambda>x. ?d x + cnt * of_nat (refs_of first_of h r (first_of ?nkp) x)) = (\<lambda>x. cnt * of_nat (own_refs first_of h r p x))"
      by (rule ext) (simp add: own distrib_left)
    ultimately show ?thesis using False f one by (simp add: Let_def add_use_count_add_counts)
  qed (simp add: f own_refs_def)
qed

lemma own_rest:
  assumes "ranked first_of h r" "p \<noteq> 0" "unshared first_of h r p"
  shows "unshared first_of (add_counts h (\<lambda>x. cnt * of_nat (own_refs first_of h r p x))) r (next_arg (h p))"
    "(\<lambda>x. cnt * of_nat (own_refs first_of h r p x) + cnt * of_nat (refs_of first_of h r (next_arg (h p)) x)) = (\<lambda>x. cnt * of_nat (refs_of first_of h r p x))"
proof -
  note s = refs_of_own [OF assms(1,2)]
  show "unshared first_of (add_counts h (\<lambda>x. cnt * of_nat (own_refs first_of h r p x))) r (next_arg (h p))"
  proof (rule unshared_part [OF assms(3)])
    show "refs_of first_of h r (next_arg (h p)) x \<le> refs_of first_of h r p x" for x by (simp add: s)
    fix x
    assume "refs_of first_of h r (next_arg (h p)) x = 1"
    then have "own_refs first_of h r p x = 0" using assms(3) s [of x] by (auto simp: unshared_def dest: spec [of _ x])
    then show "cnt * of_nat (own_refs first_of h r p x) = 0" by simp
  qed
  show "(\<lambda>x. cnt * of_nat (own_refs first_of h r p x) + cnt * of_nat (refs_of first_of h r (next_arg (h p)) x)) = (\<lambda>x. cnt * of_nat (refs_of first_of h r p x))"
    by (rule ext) (simp add: s distrib_left)
qed

lemma increment_loop_counts:
  assumes "ranked first_of h r" "2 * r p < f" "unshared first_of h r p"
  shows "increment_loop f first_of h p cnt = Some (add_counts h (\<lambda>x. cnt * of_nat (refs_of first_of h r p x)))"
  using assms
proof (induction f arbitrary: h p rule: less_induct)
  case (less f)
  then obtain f' where f: "f = Suc f'" by (cases f) auto
  show ?case
  proof (cases "p = 0")
    case False
    note r = rankedD [OF less.prems(1) False] and o = own_rest [OF less.prems(1) False less.prems(3), of cnt]
    let ?h = "add_counts h (\<lambda>x. cnt * of_nat (own_refs first_of h r p x))"
    have "increment_use_count f' first_of h p cnt = Some ?h"
      using less.prems f by (intro increment_own [OF less.prems(1) False less.prems(3)] less.IH) simp_all
    then have "(if next_key_part (h p) \<noteq> 0 then increment_use_count f' first_of h p cnt else Some h) = Some ?h"
      by (simp add: own_refs_def)
    moreover have "increment_loop f' first_of ?h (next_arg (h p)) cnt = Some (add_counts ?h (\<lambda>x. cnt * of_nat (refs_of first_of ?h r (next_arg (h p)) x)))"
      using less.prems(1,2) r(1) f o(1) by (intro less.IH) simp_all
    ultimately show ?thesis using False f o(2) by simp
  qed (simp add: f)
qed

lemma incr_refs_loop_counts:
  assumes "ranked first_of h r" "2 * r p < f" "unshared first_of h r p"
  shows "incr_refs_loop f first_of h p = Some (add_counts h (\<lambda>x. of_nat (refs_of first_of h r p x)))"
  using assms
proof (induction f arbitrary: h p)
  case (Suc f)
  show ?case
  proof (cases "p = 0")
    case False
    note r = rankedD [OF Suc.prems(1) False] and o = own_rest [OF Suc.prems(1) False Suc.prems(3), of 1]
    let ?h = "add_counts h (\<lambda>x. 1 * of_nat (own_refs first_of h r p x))"
    have "increment_use_count f first_of h p 1 = Some ?h"
      using Suc.prems by (intro increment_own [OF Suc.prems(1) False Suc.prems(3)] increment_loop_counts) simp_all
    moreover have "incr_refs_loop f first_of ?h (next_arg (h p)) = Some (add_counts ?h (\<lambda>x. of_nat (refs_of first_of ?h r (next_arg (h p)) x)))"
      using Suc.prems(1,2) r(1) o(1) by (intro Suc.IH) simp_all
    ultimately show ?thesis using False o(2) by simp
  qed simp
qed simp

text \<open>Reference counts of the interval graph: \<open>free_tree\<close> ends on every acyclic graph and takes from each next key part exactly the number of paths that lead to it,
  and on a graph without sharing \<open>incr_refs_all\<close> ends, adds one reference to each next key part and to the root, and \<open>free_tree\<close> undoes it except for the root's own count.\<close>

theorem use_counts_round_trip:
  assumes "ranked first_of h r" "2 * r (first_of n) + 1 < f"
  shows "free_tree f first_of h n = Some (add_counts h (\<lambda>x. - of_nat (refs_of first_of h r (first_of n) x))) \<and>
    (unshared first_of h r (first_of n) \<longrightarrow>
      (\<exists>h'. incr_refs_all f first_of h n = Some h' \<and> h' = add_use_count n 1 (add_counts h (\<lambda>x. of_nat (refs_of first_of h r (first_of n) x))) \<and>
        free_tree f first_of h' n = Some (add_use_count n 1 h)))"
proof -
  have free: "free_tree f first_of g n = Some (add_counts g (\<lambda>x. - of_nat (refs_of first_of g r (first_of n) x)))" if "ranked first_of g r" for g
    using free_loop_counts [OF that, of "first_of n" "f - 1"] assms(2) by (cases f) simp_all
  let ?d = "\<lambda>x. of_nat (refs_of first_of h r (first_of n) x) :: uint"
  have "incr_refs_all f first_of h n = Some (add_use_count n 1 (add_counts h ?d))" if "unshared first_of h r (first_of n)"
    using incr_refs_loop_counts [OF assms(1) _ that, of f] assms(2) by (simp add: incr_refs_all_def)
  moreover have "free_tree f first_of (add_use_count n 1 (add_counts h ?d)) n = Some (add_use_count n 1 h)"
    using free [of "add_use_count n 1 (add_counts h ?d)"] assms(1) by (simp add: add_use_count_add_counts algebra_simps)
  ultimately show ?thesis using free [OF assms(1)] by blast
qed

text \<open>A graph of two key parts: the interval 1 has the next key part 2, whose intervals 2 and 3 have the next key parts 4 and 5.\<close>

definition sample_graph :: "nat \<Rightarrow> SEL_ARG" where
  "sample_graph n = blank_arg\<lparr>next_key_part := (if n = 1 then 2 else if n = 2 then 4 else if n = 3 then 5 else 0), next_arg := (if n = 2 then 3 else 0)\<rparr>"

definition sample_rank :: "nat \<Rightarrow> nat" where
  "sample_rank n = (if n = 0 then 0 else if n = 1 then 4 else if n = 2 then 3 else if n = 3 then 2 else 1)"

theorem use_counts_round_trip_witness:
  "ranked id sample_graph sample_rank \<and> unshared id sample_graph sample_rank 1 \<and>
   (\<exists>h'. incr_refs_all 10 id sample_graph 1 = Some h' \<and> use_count (h' 4) = 2 \<and> free_tree 10 id h' 1 = Some (add_use_count 1 1 sample_graph))"
proof -
  have r: "ranked id sample_graph sample_rank" by (auto simp: ranked_def sample_graph_def sample_rank_def blank_arg_def)
  have "refs_of id sample_graph sample_rank 1 x = (if x \<in> {2, 4, 5} then 1 else 0)" for x
    by (auto simp: refs_of_def sample_rank_def sample_graph_def blank_arg_def eval_nat_numeral)
  moreover have "use_count (sample_graph x) = 1" for x by (simp add: sample_graph_def blank_arg_def)
  ultimately have u: "unshared id sample_graph sample_rank 1" and c: "refs_of id sample_graph sample_rank 1 4 = 1" by (simp_all add: unshared_def)
  show ?thesis
    using use_counts_round_trip [OF r, of 1 10] u c r by (auto simp: sample_rank_def add_use_count_def sample_graph_def blank_arg_def)
qed

text \<open>With sharing the two do not match: \<open>increment_use_count\<close> multiplies by the use count of each level, \<open>free_tree\<close> takes one per path. Here the next key part 2 has
  a second reference, and the use count of 4 stays one too high.\<close>

lemma shared_counts_drift:
  "\<exists>h' h''. incr_refs_all 10 id (add_use_count 2 1 sample_graph) 1 = Some h' \<and> free_tree 10 id h' 1 = Some h'' \<and>
     use_count (sample_graph 4) = 1 \<and> use_count (h' 4) = 3 \<and> use_count (h'' 4) = 2"
  by (simp add: incr_refs_all_def add_use_count_def sample_graph_def blank_arg_def eval_nat_numeral)

end
