(* ===== verification/Tranx_Alloc.thy ===== *)
theory Tranx_Alloc
  imports Link_Path "HOL-Library.Monad_Syntax"
begin

text \<open>
  \<open>Tranx_node_allocator\<close> of \<open>semisync_master.h\<close>: the nodes of the transactions that wait for an acknowledgement come from blocks of 16 in a linked
  list, are given out in sequence, and are given back from the front. Blocks and nodes are addresses, 0 is null; a block is a link followed by
  its nodes. The address that \<open>my_malloc\<close> returns is a parameter of each call. \<^const>\<open>None\<close> is a failed assertion, the use of a null pointer, of
  a freed block or a second free.
\<close>

section \<open>The allocator\<close>

definition FN_REFLEN :: nat where "FN_REFLEN = 512"
definition BLOCK_TRANX_NODES :: nat where "BLOCK_TRANX_NODES = 16"

record Tranx_node =
  log_name :: "uchar list"
  log_pos :: ulonglong
  tn_thd :: nat
  tn_next :: nat
  hash_next :: nat

text \<open>The sizes of a pointer and a node in bytes.\<close>

definition SIZEOF_NODE :: nat where "SIZEOF_NODE = FN_REFLEN + 8 + 3 * SIZEOF_PTR"
definition SIZEOF_BLOCK :: nat where "SIZEOF_BLOCK = SIZEOF_PTR + BLOCK_TRANX_NODES * SIZEOF_NODE"

definition node_addr :: "nat \<Rightarrow> nat \<Rightarrow> nat" where
  "node_addr block i = block + SIZEOF_PTR + i * SIZEOF_NODE"

record node_allocator =
  reserved_blocks :: uint
  first_block :: nat
  last_block :: nat
  current_block :: nat
  last_node :: int
  block_num :: uint
  block_next :: "nat \<Rightarrow> nat"
  live :: "nat \<Rightarrow> bool"
  node_at :: "nat \<Rightarrow> Tranx_node"

definition allocator_init :: "uint \<Rightarrow> (nat \<Rightarrow> Tranx_node) \<Rightarrow> node_allocator" where
  "allocator_init reserved_nodes mem =
     \<lparr>reserved_blocks = reserved_nodes div of_nat BLOCK_TRANX_NODES + (if reserved_nodes mod of_nat BLOCK_TRANX_NODES > 1 then 2 else 1),
      first_block = 0, last_block = 0, current_block = 0, last_node = -1, block_num = 0,
      block_next = (\<lambda>b. 0), live = (\<lambda>b. False), node_at = mem\<rparr>"

definition get_block_next :: "nat \<Rightarrow> node_allocator \<Rightarrow> nat option" where
  "get_block_next b a = (if b \<noteq> 0 \<and> live a b then Some (block_next a b) else None)"

definition set_block_next :: "nat \<Rightarrow> nat \<Rightarrow> node_allocator \<Rightarrow> node_allocator option" where
  "set_block_next b v a = (if b \<noteq> 0 \<and> live a b then Some (a\<lparr>block_next := (block_next a)(b := v)\<rparr>) else None)"

definition free_block :: "nat \<Rightarrow> node_allocator \<Rightarrow> node_allocator option" where
  "free_block b a = (if live a b then Some (a\<lparr>live := (live a)(b := False), block_num := block_num a - 1\<rparr>) else None)"

fun allocator_destroy_loop :: "nat \<Rightarrow> nat \<Rightarrow> node_allocator \<Rightarrow> node_allocator option" where
  "allocator_destroy_loop 0 block a = None"
| "allocator_destroy_loop (Suc fuel) block a =
     (if block \<noteq> 0 then do { nx \<leftarrow> get_block_next block a; a \<leftarrow> free_block block a; allocator_destroy_loop fuel nx a } else Some a)"

definition allocator_destroy :: "nat \<Rightarrow> node_allocator \<Rightarrow> node_allocator option" where
  "allocator_destroy fuel a = allocator_destroy_loop fuel (first_block a) a"

text \<open>\<open>new_block\<close> is the result of \<open>my_malloc\<close>.\<close>

definition allocate_block :: "nat \<Rightarrow> node_allocator \<Rightarrow> (int \<times> node_allocator) option" where
  "allocate_block new_block a =
     (if new_block \<noteq> 0
      then do {
        a \<leftarrow> set_block_next new_block 0 (a\<lparr>live := (live a)(new_block := True)\<rparr>);
        a \<leftarrow> (if first_block a = 0 then Some (a\<lparr>first_block := new_block\<rparr>) else set_block_next (last_block a) new_block a);
        Some (0, a\<lparr>last_block := new_block, current_block := new_block, block_num := block_num a + 1\<rparr>) }
      else Some (1, a))"

definition allocate_node :: "nat \<Rightarrow> node_allocator \<Rightarrow> (nat \<times> node_allocator) option" where
  "allocate_node new_block a = do {
     let block = current_block a;
     a \<leftarrow> (if last_node a = int BLOCK_TRANX_NODES - 1
          then do { nx \<leftarrow> get_block_next (current_block a) a; Some (a\<lparr>current_block := nx, last_node := -1\<rparr>) } else Some a);
     (err, a) \<leftarrow> (if current_block a = 0 then allocate_block new_block a else Some (0, a));
     if err \<noteq> 0
     then let a = a\<lparr>current_block := block\<rparr>
          in Some (0, if current_block a \<noteq> 0 then a\<lparr>last_node := int BLOCK_TRANX_NODES - 1\<rparr> else a)
     else if \<not> live a (current_block a) then None
     else let a = a\<lparr>last_node := last_node a + 1\<rparr>;
              trx_node = node_addr (current_block a) (nat (last_node a));
              nd = node_at a trx_node
          in Some (trx_node, a\<lparr>node_at := (node_at a)(trx_node := nd\<lparr>log_name := (log_name nd)[0 := 0], log_pos := 0, tn_next := 0, hash_next := 0\<rparr>)\<rparr>) }"

fun free_blocks_loop :: "nat \<Rightarrow> nat \<Rightarrow> node_allocator \<Rightarrow> (nat \<times> node_allocator) option" where
  "free_blocks_loop 0 block a = None"
| "free_blocks_loop (Suc fuel) block a =
     (if block_num a > reserved_blocks a \<and> block \<noteq> 0
      then do { nx \<leftarrow> get_block_next block a; a \<leftarrow> free_block block a; free_blocks_loop fuel nx a } else Some (block, a))"

definition free_blocks :: "nat \<Rightarrow> node_allocator \<Rightarrow> node_allocator option" where
  "free_blocks fuel a =
     (if current_block a = 0 then Some a
      else do {
        cn \<leftarrow> get_block_next (current_block a) a;
        if cn = 0 then Some a
        else do {
          block \<leftarrow> get_block_next cn a;
          (block, a) \<leftarrow> free_blocks_loop fuel block a;
          cn \<leftarrow> get_block_next (current_block a) a;
          a \<leftarrow> set_block_next cn block a;
          if block = 0 then do { cn \<leftarrow> get_block_next (current_block a) a; Some (a\<lparr>last_block := cn\<rparr>) } else Some a } })"

definition free_all_nodes :: "nat \<Rightarrow> node_allocator \<Rightarrow> (int \<times> node_allocator) option" where
  "free_all_nodes fuel a = do { a \<leftarrow> free_blocks fuel (a\<lparr>current_block := first_block a, last_node := -1\<rparr>); Some (0, a) }"

text \<open>The loop of \<open>free_nodes_before\<close>, with fuel for its rounds and \<open>bound\<close> for the loop of \<open>free_blocks\<close>. Leaving it is the failed assertion.\<close>

fun free_before_loop :: "nat \<Rightarrow> nat \<Rightarrow> nat \<Rightarrow> nat \<Rightarrow> nat \<Rightarrow> node_allocator \<Rightarrow> (int \<times> node_allocator) option" where
  "free_before_loop 0 bound node block prev_block a = None"
| "free_before_loop (Suc fuel) bound node block prev_block a = do {
     cn \<leftarrow> get_block_next (current_block a) a;
     if block = cn then None
     else if node_addr block 0 \<le> node \<and> node_addr block BLOCK_TRANX_NODES \<ge> node
     then if first_block a \<noteq> block
          then do {
            a \<leftarrow> set_block_next (last_block a) (first_block a) a;
            let a = a\<lparr>first_block := block, last_block := prev_block\<rparr>;
            a \<leftarrow> set_block_next (last_block a) 0 a;
            a \<leftarrow> free_blocks bound a;
            Some (0, a) }
          else Some (0, a)
     else do { nx \<leftarrow> get_block_next block a; free_before_loop fuel bound node nx block a } }"

definition free_nodes_before :: "nat \<Rightarrow> nat \<Rightarrow> node_allocator \<Rightarrow> (int \<times> node_allocator) option" where
  "free_nodes_before fuel node a = free_before_loop fuel fuel node (first_block a) 0 a"

section \<open>The invariant\<close>

text \<open>\<open>us\<close> are the blocks up to the current one, \<open>fs\<close> the free ones behind it.\<close>

definition blocks_ok :: "node_allocator \<Rightarrow> nat list \<Rightarrow> nat list \<Rightarrow> bool" where
  "blocks_ok a us fs \<longleftrightarrow>
     path (block_next a) (first_block a) (us @ fs) 0 \<and> 0 \<notin> set (us @ fs) \<and> distinct (us @ fs) \<and> (\<forall>b. live a b \<longleftrightarrow> b \<in> set (us @ fs)) \<and>
     (\<forall>b\<in>set (us @ fs). \<forall>c\<in>set (us @ fs). b < c \<longrightarrow> b + SIZEOF_BLOCK \<le> c) \<and>
     block_num a = of_nat (length (us @ fs)) \<and> length (us @ fs) < 2 ^ 32 \<and>
     (if us = [] then fs = [] \<and> current_block a = 0 \<and> last_block a = 0 \<and> last_node a = -1
      else current_block a = last us \<and> last_block a = last (us @ fs) \<and> -1 \<le> last_node a \<and> last_node a < int BLOCK_TRANX_NODES)"

definition alloc_ok :: "node_allocator \<Rightarrow> nat list \<Rightarrow> nat list \<Rightarrow> bool" where
  "alloc_ok a us fs \<longleftrightarrow> blocks_ok a us fs \<and> (last_node a = -1 \<longrightarrow> length us \<le> 1)"

definition block_nodes :: "nat \<Rightarrow> nat \<Rightarrow> nat list" where
  "block_nodes n b = map (node_addr b) [0..<n]"

definition used_nodes :: "node_allocator \<Rightarrow> nat list \<Rightarrow> nat list" where
  "used_nodes a us =
     concat (map (block_nodes BLOCK_TRANX_NODES) (butlast us)) @ (if us = [] then [] else block_nodes (nat (last_node a + 1)) (last us))"

lemmas sizes = FN_REFLEN_def BLOCK_TRANX_NODES_def SIZEOF_PTR_def SIZEOF_NODE_def SIZEOF_BLOCK_def

lemma node_addr_bounds: "i < BLOCK_TRANX_NODES \<Longrightarrow> block < node_addr block i \<and> node_addr block i < block + SIZEOF_BLOCK"
  by (simp add: node_addr_def sizes)

lemma node_addr_inj [simp]: "node_addr b i = node_addr b j \<longleftrightarrow> i = j"
  by (simp add: node_addr_def sizes)

text \<open>The test of \<open>free_nodes_before\<close> includes the address behind the last node; since a block starts with its link, no other block has a node there.\<close>

lemma in_block:
  assumes "\<forall>b\<in>B. \<forall>c\<in>B. b < c \<longrightarrow> b + SIZEOF_BLOCK \<le> c" "b \<in> B" "c \<in> B" "i < BLOCK_TRANX_NODES"
  shows "node_addr b 0 \<le> node_addr c i \<and> node_addr c i \<le> node_addr b BLOCK_TRANX_NODES \<longleftrightarrow> b = c"
proof
  assume *: "node_addr b 0 \<le> node_addr c i \<and> node_addr c i \<le> node_addr b BLOCK_TRANX_NODES"
  have "b < c \<Longrightarrow> b + SIZEOF_BLOCK \<le> c" "c < b \<Longrightarrow> c + SIZEOF_BLOCK \<le> b" using assms(1,2,3) by auto
  with * assms(4) show "b = c" by (cases b c rule: linorder_cases) (simp_all add: node_addr_def sizes)
qed (use assms(4) in \<open>simp add: node_addr_def sizes\<close>)

lemma block_nodes_disjoint:
  assumes "\<forall>b\<in>B. \<forall>c\<in>B. b < c \<longrightarrow> b + SIZEOF_BLOCK \<le> c" "b \<in> B" "c \<in> B" "b \<noteq> c" "m \<le> BLOCK_TRANX_NODES" "n \<le> BLOCK_TRANX_NODES"
  shows "set (block_nodes m b) \<inter> set (block_nodes n c) = {}"
proof -
  have "b < c \<Longrightarrow> b + SIZEOF_BLOCK \<le> c" "c < b \<Longrightarrow> c + SIZEOF_BLOCK \<le> b" using assms(1,2,3) by auto
  then show ?thesis using assms(4-6)
    by (cases b c rule: linorder_cases) (auto simp: block_nodes_def node_addr_def sizes)
qed

lemma blocks_distinct:
  assumes "\<forall>b\<in>B. \<forall>c\<in>B. b < c \<longrightarrow> b + SIZEOF_BLOCK \<le> c" "set bs \<subseteq> B" "distinct bs"
  shows "distinct (concat (map (block_nodes BLOCK_TRANX_NODES) bs))"
  using assms(2,3)
proof (induction bs)
  case (Cons b bs)
  have "set (block_nodes BLOCK_TRANX_NODES b) \<inter> set (block_nodes BLOCK_TRANX_NODES c) = {}" if "c \<in> set bs" for c
    using Cons.prems that by (intro block_nodes_disjoint [OF assms(1)]) auto
  moreover have "distinct (block_nodes BLOCK_TRANX_NODES b)" by (simp add: block_nodes_def distinct_map inj_on_def)
  ultimately show ?case using Cons by auto
qed simp

lemma used_nodes_distinct:
  assumes "blocks_ok a us fs"
  shows "distinct (used_nodes a us)"
proof (cases us rule: rev_cases)
  case (snoc vs b)
  let ?B = "set (us @ fs)"
  have d: "\<forall>b\<in>?B. \<forall>c\<in>?B. b < c \<longrightarrow> b + SIZEOF_BLOCK \<le> c" and l: "nat (last_node a + 1) \<le> BLOCK_TRANX_NODES"
    using assms snoc by (simp_all add: blocks_ok_def nat_le_iff)
  have "set (block_nodes BLOCK_TRANX_NODES c) \<inter> set (block_nodes (nat (last_node a + 1)) b) = {}" if "c \<in> set vs" for c
    using assms snoc that l by (intro block_nodes_disjoint [OF d]) (auto simp: blocks_ok_def)
  moreover have "distinct (block_nodes (nat (last_node a + 1)) b)" by (simp add: block_nodes_def distinct_map inj_on_def)
  moreover have "distinct (concat (map (block_nodes BLOCK_TRANX_NODES) vs))"
    using assms snoc by (intro blocks_distinct [OF d]) (auto simp: blocks_ok_def)
  ultimately show ?thesis using snoc by (auto simp: used_nodes_def)
qed (simp add: used_nodes_def)

text \<open>What \<open>my_malloc\<close> may return: null, or a block apart from the live ones; the counter of the blocks has 32 bits.\<close>

definition malloc_ok :: "nat \<Rightarrow> node_allocator \<Rightarrow> bool" where
  "malloc_ok new_block a \<longleftrightarrow> new_block = 0 \<or> unat (block_num a) + 1 < 2 ^ 32 \<and> \<not> live a new_block \<and>
     (\<forall>b. live a b \<longrightarrow> b + SIZEOF_BLOCK \<le> new_block \<or> new_block + SIZEOF_BLOCK \<le> b)"

section \<open>Allocation\<close>

lemma blocks_ok_next:
  assumes "blocks_ok a (us @ [c]) fs"
  shows "get_block_next c a = Some (if fs = [] then 0 else hd fs)" "c \<noteq> 0" "live a c" "current_block a = c"
  using assms by (cases fs; auto simp: blocks_ok_def get_block_next_def path_append)+

lemma blocks_ok_current:
  assumes "blocks_ok a us fs" "us \<noteq> []"
  shows "get_block_next (current_block a) a = Some (if fs = [] then 0 else hd fs)"
proof -
  obtain vs c where us: "us = vs @ [c]" using assms(2) by (cases us rule: rev_cases) auto
  show ?thesis using blocks_ok_next [OF assms(1) [unfolded us]] by simp
qed

lemma blocks_okD:
  assumes "blocks_ok a us fs"
  shows "path (block_next a) (first_block a) (us @ fs) 0" "0 \<notin> set (us @ fs)" "distinct (us @ fs)" "live a b \<longleftrightarrow> b \<in> set (us @ fs)"
    "\<forall>b\<in>set (us @ fs). \<forall>c\<in>set (us @ fs). b < c \<longrightarrow> b + SIZEOF_BLOCK \<le> c" "block_num a = of_nat (length (us @ fs))" "length (us @ fs) < 2 ^ 32"
    "us \<noteq> [] \<Longrightarrow> current_block a = last us" "us \<noteq> [] \<Longrightarrow> last_block a = last (us @ fs)" "-1 \<le> last_node a" "last_node a < int BLOCK_TRANX_NODES"
  using assms unfolding blocks_ok_def by (simp_all split: if_splits)

lemma blocks_okI:
  assumes "us \<noteq> []" "path (block_next a) (first_block a) (us @ fs) 0" "0 \<notin> set (us @ fs)" "distinct (us @ fs)" "\<And>b. live a b \<longleftrightarrow> b \<in> set (us @ fs)"
    "\<forall>b\<in>set (us @ fs). \<forall>c\<in>set (us @ fs). b < c \<longrightarrow> b + SIZEOF_BLOCK \<le> c" "block_num a = of_nat (length (us @ fs))" "length (us @ fs) < 2 ^ 32"
    "current_block a = last us" "last_block a = last (us @ fs)" "-1 \<le> last_node a" "last_node a < int BLOCK_TRANX_NODES"
  shows "blocks_ok a us fs"
  unfolding blocks_ok_def using assms by simp

lemma block_nodes_Suc: "block_nodes (Suc n) b = block_nodes n b @ [node_addr b n]"
  by (simp add: block_nodes_def)

lemma used_nodes_snoc:
  "used_nodes a (us @ [c]) = concat (map (block_nodes BLOCK_TRANX_NODES) us) @ block_nodes (nat (last_node a + 1)) c"
  by (simp add: used_nodes_def)

lemma used_nodes_full: "last_node a = int BLOCK_TRANX_NODES - 1 \<Longrightarrow> used_nodes a us = concat (map (block_nodes BLOCK_TRANX_NODES) us)"
  by (cases us rule: rev_cases) (simp_all add: used_nodes_def)

lemma used_nodes_fresh: "last_node a = -1 \<Longrightarrow> used_nodes a (us @ [c]) = concat (map (block_nodes BLOCK_TRANX_NODES) us)"
  by (simp add: used_nodes_def block_nodes_def)

lemma blocks_ok_advance:
  assumes "blocks_ok a us (f # fs)" "last_node a = int BLOCK_TRANX_NODES - 1"
  shows "blocks_ok (a\<lparr>current_block := f, last_node := -1\<rparr>) (us @ [f]) fs"
    "used_nodes (a\<lparr>current_block := f, last_node := -1\<rparr>) (us @ [f]) = used_nodes a us"
proof -
  show "blocks_ok (a\<lparr>current_block := f, last_node := -1\<rparr>) (us @ [f]) fs"
    using assms by (auto simp: blocks_ok_def sizes split: if_splits)
  show "used_nodes (a\<lparr>current_block := f, last_node := -1\<rparr>) (us @ [f]) = used_nodes a us"
    using assms(2) by (simp add: used_nodes_full used_nodes_fresh)
qed

lemma blocks_ok_new:
  assumes "blocks_ok a us []" "malloc_ok new_block a" "new_block \<noteq> 0" "us \<noteq> [] \<Longrightarrow> last_node a = int BLOCK_TRANX_NODES - 1"
  shows "\<exists>a'. allocate_block new_block (a\<lparr>current_block := 0, last_node := -1\<rparr>) = Some (0, a') \<and> blocks_ok a' (us @ [new_block]) [] \<and>
    used_nodes a' (us @ [new_block]) = used_nodes a us \<and> node_at a' = node_at a \<and> reserved_blocks a' = reserved_blocks a \<and> last_node a' = -1"
proof -
  have m: "unat (block_num a) + 1 < 2 ^ 32" "new_block \<notin> set us" "b \<in> set us \<Longrightarrow> b + SIZEOF_BLOCK \<le> new_block \<or> new_block + SIZEOF_BLOCK \<le> b" for b
    using assms(1-3) by (auto simp: malloc_ok_def blocks_ok_def)
  have n: "unat (block_num a) = length us" using assms(1) by (simp add: blocks_ok_def unat_of_nat)
  have sep: "\<forall>b\<in>set (us @ [new_block]). \<forall>c\<in>set (us @ [new_block]). b < c \<longrightarrow> b + SIZEOF_BLOCK \<le> c"
    using assms(1) m(3) by (fastforce simp: blocks_ok_def sizes)
  show ?thesis
  proof (cases us rule: rev_cases)
    case Nil
    then show ?thesis using assms(1,3) m
      by (auto simp: allocate_block_def set_block_next_def blocks_ok_def used_nodes_def block_nodes_def sizes)
  next
    case (snoc vs c)
    have f: "first_block a \<noteq> 0" using assms(1) snoc by (cases vs) (auto simp: blocks_ok_def)
    have c: "c \<noteq> 0" "live a c" "last_block a = c" "c \<noteq> new_block" using assms(1) snoc m(2) by (auto simp: blocks_ok_def)
    define a' where "a' = a\<lparr>current_block := new_block, last_node := -1, live := (live a)(new_block := True),
      block_next := (block_next a)(new_block := 0, c := new_block), last_block := new_block, block_num := block_num a + 1\<rparr>"
    have e: "allocate_block new_block (a\<lparr>current_block := 0, last_node := -1\<rparr>) = Some (0, a')"
      using assms(3) f c by (simp add: allocate_block_def set_block_next_def a'_def)
    have "path (block_next a') (first_block a) (us @ [new_block]) 0"
      using assms(1) snoc m(2) c(4) by (auto simp: blocks_ok_def path_append a'_def)
    then have "blocks_ok a' (us @ [new_block]) []"
      using assms(1,3) m n sep by (auto simp: blocks_ok_def a'_def sizes)
    moreover have "used_nodes a' (us @ [new_block]) = used_nodes a us"
      using assms(4) snoc used_nodes_fresh [of a' us new_block] by (simp add: used_nodes_full a'_def)
    ultimately show ?thesis using e by (auto simp: a'_def)
  qed
qed

text \<open>The node after the last one of the current block.\<close>

definition clear_node :: "Tranx_node \<Rightarrow> Tranx_node" where
  "clear_node nd = nd\<lparr>log_name := (log_name nd)[0 := 0], log_pos := 0, tn_next := 0, hash_next := 0\<rparr>"

definition give_node :: "node_allocator \<Rightarrow> nat \<times> node_allocator" where
  "give_node a =
     (let n = node_addr (current_block a) (nat (last_node a + 1))
      in (n, a\<lparr>last_node := last_node a + 1, node_at := (node_at a)(n := clear_node (node_at a n))\<rparr>))"

lemma give_node_ok:
  assumes "blocks_ok a (us @ [c]) fs" "last_node a < int BLOCK_TRANX_NODES - 1" "give_node a = (n, a')"
  shows "alloc_ok a' (us @ [c]) fs" "used_nodes a' (us @ [c]) = used_nodes a (us @ [c]) @ [n]" "n \<notin> set (used_nodes a (us @ [c]))" "n \<noteq> 0"
    "node_at a' = (node_at a)(n := clear_node (node_at a n))" "reserved_blocks a' = reserved_blocks a"
proof -
  have l: "-1 \<le> last_node a" "current_block a = c" using assms(1) by (auto simp: blocks_ok_def)
  have a': "n = node_addr c (nat (last_node a + 1))" "a' = a\<lparr>last_node := last_node a + 1, node_at := (node_at a)(n := clear_node (node_at a n))\<rparr>"
    using assms(3) l(2) by (auto simp: give_node_def Let_def)
  have b: "blocks_ok a' (us @ [c]) fs" using assms(1,2) l by (auto simp: blocks_ok_def a'(2))
  then show "alloc_ok a' (us @ [c]) fs" using l by (simp add: alloc_ok_def a'(2))
  have "nat (last_node a' + 1) = Suc (nat (last_node a + 1))" using l by (simp add: a'(2) nat_add_distrib)
  then show u: "used_nodes a' (us @ [c]) = used_nodes a (us @ [c]) @ [n]" by (simp add: used_nodes_snoc block_nodes_Suc a'(1))
  show "n \<notin> set (used_nodes a (us @ [c]))" using used_nodes_distinct [OF b] u by simp
  show "n \<noteq> 0" by (simp add: a'(1) node_addr_def sizes)
qed (use assms(3) in \<open>auto simp: give_node_def Let_def\<close>)

lemma allocate_node_give:
  assumes "blocks_ok a (us @ [c]) fs" "last_node a < int BLOCK_TRANX_NODES - 1"
  shows "allocate_node new_block a = Some (give_node a)"
  using blocks_ok_next [OF assms(1)] assms(2) by (simp add: allocate_node_def give_node_def clear_node_def Let_def)


lemma allocate_node_none:
  assumes "alloc_ok a us []" "us \<noteq> [] \<Longrightarrow> last_node a = int BLOCK_TRANX_NODES - 1"
  shows "allocate_node 0 a = Some (0, a)"
proof (cases us rule: rev_cases)
  case Nil
  then show ?thesis using assms by (simp add: alloc_ok_def blocks_ok_def allocate_node_def allocate_block_def sizes)
next
  case (snoc vs c)
  have b: "blocks_ok a (vs @ [c]) []" using assms(1) snoc by (simp add: alloc_ok_def)
  show ?thesis using blocks_ok_next [OF b] assms(2) snoc by (simp add: allocate_node_def allocate_block_def)
qed

lemma allocate_node_advance:
  assumes "blocks_ok a (us @ [c]) (f # fs)" "last_node a = int BLOCK_TRANX_NODES - 1"
  shows "allocate_node new_block a = Some (give_node (a\<lparr>current_block := f, last_node := -1\<rparr>))"
proof -
  have "f \<noteq> 0" "live a f" using assms(1) by (auto simp: blocks_ok_def)
  then show ?thesis using blocks_ok_next [OF assms(1)] assms(2)
    by (simp add: allocate_node_def give_node_def clear_node_def Let_def)
qed

lemma allocate_node_new:
  assumes "alloc_ok a us []" "us \<noteq> [] \<Longrightarrow> last_node a = int BLOCK_TRANX_NODES - 1"
    "allocate_block new_block (a\<lparr>current_block := 0, last_node := -1\<rparr>) = Some (0, a')" "live a' (current_block a')"
  shows "allocate_node new_block a = Some (give_node a')"
proof (cases us rule: rev_cases)
  case Nil
  then have "a\<lparr>current_block := 0, last_node := -1\<rparr> = a" "current_block a = 0" "last_node a = -1" using assms(1) by (simp_all add: alloc_ok_def blocks_ok_def)
  then show ?thesis using assms(3) [unfolded \<open>a\<lparr>current_block := 0, last_node := -1\<rparr> = a\<close>] assms(4) by (simp add: allocate_node_def give_node_def clear_node_def Let_def sizes)
next
  case (snoc vs c)
  have b: "blocks_ok a (vs @ [c]) []" using assms(1) snoc by (simp add: alloc_ok_def)
  show ?thesis using blocks_ok_next [OF b] assms(2-4) snoc by (simp add: allocate_node_def give_node_def clear_node_def Let_def)
qed

text \<open>The outcomes of \<open>allocate_node\<close>: no memory and nothing changed, or a node that is not in use, at the end of the sequence and cleared.\<close>

definition allocated :: "node_allocator \<Rightarrow> nat list \<Rightarrow> nat \<Rightarrow> node_allocator \<Rightarrow> nat list \<Rightarrow> nat list \<Rightarrow> bool" where
  "allocated a us n a' us' fs' \<longleftrightarrow> alloc_ok a' us' fs' \<and> n \<noteq> 0 \<and> n \<notin> set (used_nodes a us) \<and> used_nodes a' us' = used_nodes a us @ [n] \<and>
     node_at a' = (node_at a)(n := clear_node (node_at a n)) \<and> reserved_blocks a' = reserved_blocks a"

lemma allocatedI:
  assumes "blocks_ok b (us' @ [c]) fs'" "last_node b < int BLOCK_TRANX_NODES - 1" "used_nodes b (us' @ [c]) = used_nodes a us" "node_at b = node_at a"
    "reserved_blocks b = reserved_blocks a" "allocate_node new_block a = Some (give_node b)"
  shows "\<exists>n a' us' fs'. allocate_node new_block a = Some (n, a') \<and> allocated a us n a' us' fs'"
proof -
  obtain n a' where g: "give_node b = (n, a')" by (cases "give_node b")
  show ?thesis
    using give_node_ok [OF assms(1,2) g] assms(3-6) g by (intro exI [of _ n] exI [of _ a'] exI [of _ "us' @ [c]"] exI [of _ fs']) (simp add: allocated_def)
qed

lemma allocate_node_ok:
  assumes "alloc_ok a us fs" "malloc_ok new_block a"
  shows "(new_block = 0 \<and> fs = [] \<and> allocate_node new_block a = Some (0, a)) \<or>
    (\<exists>n a' us' fs'. allocate_node new_block a = Some (n, a') \<and> allocated a us n a' us' fs')"
proof -
  have b: "blocks_ok a us fs" using assms(1) by (simp add: alloc_ok_def)
  consider (more) "us \<noteq> []" "last_node a < int BLOCK_TRANX_NODES - 1"
    | (advance) f gs where "us \<noteq> []" "last_node a = int BLOCK_TRANX_NODES - 1" "fs = f # gs"
    | (new) "fs = []" "us \<noteq> [] \<longrightarrow> last_node a = int BLOCK_TRANX_NODES - 1"
  proof (cases fs)
    case Nil
    moreover have "last_node a < int BLOCK_TRANX_NODES - 1 \<or> last_node a = int BLOCK_TRANX_NODES - 1" if "us \<noteq> []"
      using b that by (auto simp: blocks_ok_def)
    ultimately show ?thesis using that by blast
  next
    case (Cons f gs)
    then have "us \<noteq> []" "last_node a < int BLOCK_TRANX_NODES - 1 \<or> last_node a = int BLOCK_TRANX_NODES - 1" using b by (auto simp: blocks_ok_def split: if_splits)
    then show ?thesis using that Cons by blast
  qed
  then show ?thesis
  proof cases
    case more
    then obtain vs c where us: "us = vs @ [c]" by (cases us rule: rev_cases) auto
    then show ?thesis using allocatedI [OF b [unfolded us] more(2)] allocate_node_give [OF b [unfolded us] more(2)] by simp
  next
    case advance
    then obtain vs c where us: "us = vs @ [c]" by (cases us rule: rev_cases) auto
    note adv = blocks_ok_advance [OF b [unfolded advance(3)] advance(2)]
    have "allocate_node new_block a = Some (give_node (a\<lparr>current_block := f, last_node := -1\<rparr>))"
      by (rule allocate_node_advance) (use b us advance in simp_all)
    from allocatedI [OF adv(1) _ adv(2) _ _ this] show ?thesis by (simp add: sizes)
  next
    case new
    show ?thesis
    proof (cases "new_block = 0")
      case True
      then show ?thesis using allocate_node_none assms(1) new by simp
    next
      case False
      then obtain a' where a': "allocate_block new_block (a\<lparr>current_block := 0, last_node := -1\<rparr>) = Some (0, a')" "blocks_ok a' (us @ [new_block]) []"
        "used_nodes a' (us @ [new_block]) = used_nodes a us" "node_at a' = node_at a" "reserved_blocks a' = reserved_blocks a" "last_node a' = -1"
        using blocks_ok_new [OF _ assms(2) False, of us] b new by auto
      have "allocate_node new_block a = Some (give_node a')"
        using assms(1) new a' by (intro allocate_node_new) (auto simp: blocks_ok_def)
      from allocatedI [OF a'(2) _ a'(3-5) this] show ?thesis by (simp add: a'(6) sizes)
    qed
  qed
qed

section \<open>Giving blocks back\<close>

lemma free_blocks_loop_ok:
  assumes "path (block_next a) b bs 0" "0 \<notin> set bs" "distinct bs" "\<forall>x\<in>set bs. live a x" "block_num a = of_nat (p + length bs)" "p + length bs < 2 ^ 32" "length bs < fuel"
  shows "\<exists>k\<le>length bs. free_blocks_loop fuel b a =
      Some (if drop k bs = [] then 0 else hd (drop k bs), a\<lparr>live := (\<lambda>x. live a x \<and> x \<notin> set (take k bs)), block_num := of_nat (p + length bs - k)\<rparr>) \<and>
    (k = length bs \<or> p + length bs - k \<le> unat (reserved_blocks a))"
  using assms
proof (induction bs arbitrary: a b fuel)
  case Nil
  then show ?case by (cases fuel) simp_all
next
  case (Cons x bs)
  then obtain fuel' where fuel: "fuel = Suc fuel'" "length bs < fuel'" by (cases fuel) auto
  have b: "b = x" "x \<noteq> 0" "live a x" using Cons.prems by auto
  have n: "unat (block_num a) = p + length (x # bs)" unfolding Cons.prems(5) unat_of_nat using Cons.prems(6) by simp
  show ?case
  proof (cases "block_num a > reserved_blocks a")
    case True
    let ?a = "a\<lparr>live := (live a)(x := False), block_num := block_num a - 1\<rparr>"
    have "path (block_next ?a) (block_next a x) bs 0" "0 \<notin> set bs" "distinct bs" "\<forall>y\<in>set bs. live ?a y" "block_num ?a = of_nat (p + length bs)" "p + length bs < 2 ^ 32"
      using Cons.prems by auto
    from Cons.IH [OF this fuel(2)] obtain k where k: "k \<le> length bs" "free_blocks_loop fuel' (block_next a x) ?a =
        Some (if drop k bs = [] then 0 else hd (drop k bs), ?a\<lparr>live := (\<lambda>y. live ?a y \<and> y \<notin> set (take k bs)), block_num := of_nat (p + length bs - k)\<rparr>)"
      "k = length bs \<or> p + length bs - k \<le> unat (reserved_blocks ?a)" by blast
    have "(\<lambda>y. live ?a y \<and> y \<notin> set (take k bs)) = (\<lambda>y. live a y \<and> y \<notin> set (take (Suc k) (x # bs)))" by (auto simp: fun_eq_iff)
    then have "free_blocks_loop fuel b a = Some (if drop (Suc k) (x # bs) = [] then 0 else hd (drop (Suc k) (x # bs)),
        a\<lparr>live := (\<lambda>y. live a y \<and> y \<notin> set (take (Suc k) (x # bs))), block_num := of_nat (p + length (x # bs) - Suc k)\<rparr>)"
      using True b fuel(1) k(2) by (simp add: get_block_next_def free_block_def)
    then show ?thesis using k(1,3) by (intro exI [of _ "Suc k"] conjI) auto
  next
    case False
    then have "free_blocks_loop fuel b a = Some (x, a)" using fuel(1) b(1) by simp
    moreover have "unat (block_num a) \<le> unat (reserved_blocks a)" using False by (simp add: word_less_nat_alt)
    moreover have "a = a\<lparr>live := (\<lambda>y. live a y \<and> y \<notin> set (take 0 (x # bs))), block_num := of_nat (p + length (x # bs) - 0)\<rparr>"
      using Cons.prems(5) by simp
    ultimately show ?thesis using n by (intro exI [of _ 0] conjI) auto
  qed
qed

text \<open>\<open>free_blocks\<close> keeps the blocks in use, their nodes and one free block, and goes on until at most the reserved number is left.\<close>

definition kept :: "node_allocator \<Rightarrow> node_allocator \<Rightarrow> bool" where
  "kept a a' \<longleftrightarrow> last_node a' = last_node a \<and> node_at a' = node_at a \<and> reserved_blocks a' = reserved_blocks a"

definition trimmed :: "node_allocator \<Rightarrow> nat list \<Rightarrow> nat list \<Rightarrow> bool" where
  "trimmed a us fs \<longleftrightarrow> length fs \<le> 1 \<or> length (us @ fs) \<le> unat (reserved_blocks a)"

lemma free_blocks_ok:
  assumes "blocks_ok a us fs" "length fs < fuel"
  shows "\<exists>a' fs'. free_blocks fuel a = Some a' \<and> blocks_ok a' us fs' \<and> kept a a' \<and> trimmed a' us fs'"
proof (cases "us = [] \<or> fs = []")
  case True
  then have "free_blocks fuel a = Some a" using assms blocks_ok_next(1,4) [of a "butlast us" "last us" fs]
    by (cases "us = []") (auto simp: free_blocks_def blocks_ok_def)
  then show ?thesis using True assms(1) by (intro exI [of _ a] exI [of _ fs]) (auto simp: kept_def trimmed_def blocks_ok_def)
next
  case False
  then obtain vs c f gs where e: "us = vs @ [c]" "fs = f # gs" by (cases us rule: rev_cases; cases fs) auto
  note nx = blocks_ok_next [OF assms(1) [unfolded e(1)]]
  have p: "path (block_next a) (first_block a) us f" "path (block_next a) (block_next a f) gs 0" and d: "distinct (us @ f # gs)" "0 \<notin> set (us @ f # gs)"
    and l: "\<And>b. live a b \<longleftrightarrow> b \<in> set (us @ f # gs)" and n: "block_num a = of_nat (Suc (length us) + length gs)" "Suc (length us) + length gs < 2 ^ 32"
    using assms(1) e by (auto simp: blocks_ok_def path_append)
  obtain k where k: "k \<le> length gs" "free_blocks_loop fuel (block_next a f) a =
      Some (if drop k gs = [] then 0 else hd (drop k gs), a\<lparr>live := (\<lambda>x. live a x \<and> x \<notin> set (take k gs)), block_num := of_nat (Suc (length us) + length gs - k)\<rparr>)"
    "k = length gs \<or> Suc (length us) + length gs - k \<le> unat (reserved_blocks a)"
  proof -
    have "0 \<notin> set gs" "distinct gs" "\<forall>x\<in>set gs. live a x" "length gs < fuel" using d l assms(2) e(2) by auto
    from free_blocks_loop_ok [OF p(2) this(1-3) n this(4)] that show ?thesis by blast
  qed
  define a' where "a' = a\<lparr>live := (\<lambda>x. live a x \<and> x \<notin> set (take k gs)), block_num := of_nat (Suc (length us) + length gs - k),
    block_next := (block_next a)(f := if drop k gs = [] then 0 else hd (drop k gs)), last_block := if drop k gs = [] then f else last_block a\<rparr>"
  have cf: "c \<noteq> f" "f \<noteq> 0" "live a f" "f \<notin> set (take k gs)" "c \<notin> set (take k gs)" using d l e by (auto dest: in_set_takeD)
  have hd0: "drop k gs \<noteq> [] \<Longrightarrow> hd (drop k gs) \<noteq> 0" using d(2) by (metis hd_in_set in_set_dropD Un_iff list.set_intros(2) set_append)
  have "free_blocks fuel a = Some a'"
    using nx cf k(2) e hd0 by (cases "drop k gs = []") (simp_all add: free_blocks_def get_block_next_def set_block_next_def a'_def)
  moreover have "blocks_ok a' us (f # drop k gs)"
  proof -
    have "f \<notin> set (drop k gs)" using d(1) by (auto dest: in_set_dropD)
    then have "path (block_next a') (first_block a) (us @ f # drop k gs) 0"
      using p(1) path_tail [of "block_next a" "block_next a f" "take k gs" "drop k gs" 0] p(2) d(1)
      by (auto simp: path_append a'_def)
    moreover have "distinct (us @ f # drop k gs)" "0 \<notin> set (us @ f # drop k gs)" using d by (auto dest: in_set_dropD)
    moreover have "live a' b \<longleftrightarrow> b \<in> set (us @ f # drop k gs)" for b
    proof -
      have "set gs = set (take k gs) \<union> set (drop k gs)" "set (take k gs) \<inter> set (drop k gs) = {}"
        using d(1) distinct_append [of "take k gs" "drop k gs"] by (simp_all flip: set_append)
      then show ?thesis using d(1) l by (auto simp: a'_def)
    qed
    moreover have "\<forall>b\<in>set (us @ f # drop k gs). \<forall>c\<in>set (us @ f # drop k gs). b < c \<longrightarrow> b + SIZEOF_BLOCK \<le> c"
    proof -
      have "set (us @ f # drop k gs) \<subseteq> set (us @ fs)" using e(2) by (auto dest: in_set_dropD)
      then show ?thesis using assms(1) unfolding blocks_ok_def by blast
    qed
    moreover have "last_block a' = last (us @ f # drop k gs)" using assms(1) e by (auto simp: blocks_ok_def a'_def last_drop)
    moreover have "length (us @ f # drop k gs) = Suc (length us) + length gs - k" using k(1) by simp
    ultimately show ?thesis
      using False n(2) blocks_okD(8,10,11) [OF assms(1)] by (intro blocks_okI) (simp_all add: a'_def)
  qed
  moreover have "kept a a'" "trimmed a' us (f # drop k gs)" using k by (auto simp: kept_def trimmed_def a'_def)
  ultimately show ?thesis by blast
qed

section \<open>Freeing nodes\<close>

lemma used_nodes_append: "vs \<noteq> [] \<Longrightarrow> used_nodes a (us @ vs) = concat (map (block_nodes BLOCK_TRANX_NODES) us) @ used_nodes a vs"
  by (simp add: used_nodes_def butlast_append)

lemma used_node_block:
  assumes "blocks_ok a us fs" "node \<in> set (used_nodes a us)"
  obtains ps c rs i where "us = ps @ c # rs" "node = node_addr c i" "i < BLOCK_TRANX_NODES" "node \<in> set (used_nodes a (c # rs))"
proof -
  have l: "nat (last_node a + 1) \<le> BLOCK_TRANX_NODES" using assms(1) by (cases "us = []") (auto simp: blocks_ok_def nat_le_iff)
  have "\<exists>ps c rs i. us = ps @ c # rs \<and> node = node_addr c i \<and> i < BLOCK_TRANX_NODES \<and> node \<in> set (used_nodes a (c # rs))"
    using assms(2)
  proof (induction us)
    case (Cons c us)
    show ?case
    proof (cases "us = [] \<or> node \<in> set (block_nodes BLOCK_TRANX_NODES c)")
      case True
      then have "node \<in> set (block_nodes BLOCK_TRANX_NODES c)" using Cons.prems l by (auto simp: used_nodes_def block_nodes_def)
      then obtain i where "node = node_addr c i" "i < BLOCK_TRANX_NODES" by (auto simp: block_nodes_def)
      then show ?thesis using Cons.prems by blast
    next
      case False
      then have "node \<in> set (used_nodes a us)" using Cons.prems used_nodes_append [of us a "[c]"] by simp
      then show ?thesis using Cons.IH by (metis append_Cons)
    qed
  qed (simp add: used_nodes_def)
  then show ?thesis using that by blast
qed

lemma free_before_walk:
  assumes "blocks_ok a (ps @ qs @ c # rs) fs" "i < BLOCK_TRANX_NODES"
  shows "free_before_loop (length qs + fuel) bound (node_addr c i) (hd (qs @ [c])) (if ps = [] then 0 else last ps) a =
    free_before_loop fuel bound (node_addr c i) c (if ps @ qs = [] then 0 else last (ps @ qs)) a"
  using assms(1)
proof (induction qs arbitrary: ps)
  case (Cons q qs)
  let ?us = "ps @ (q # qs) @ c # rs"
  note nx = blocks_ok_current [OF Cons.prems]
  have "q \<noteq> (if fs = [] then 0 else hd fs)" "q \<noteq> c" "q \<noteq> 0" "live a q" using Cons.prems by (cases fs; auto simp: blocks_ok_def)+
  moreover have "\<not> (node_addr q 0 \<le> node_addr c i \<and> node_addr c i \<le> node_addr q BLOCK_TRANX_NODES)"
    using in_block [of "set (?us @ fs)" q c i] Cons.prems assms(2) \<open>q \<noteq> c\<close> by (auto simp: blocks_ok_def)
  moreover have "block_next a q = hd (qs @ [c])"
    using Cons.prems by (cases qs) (auto simp: blocks_ok_def path_append)
  ultimately have "free_before_loop (Suc n) bound (node_addr c i) q pv a = free_before_loop n bound (node_addr c i) (hd (qs @ [c])) q a" for n pv
    using nx by (cases "node_addr q 0 \<le> node_addr c i") (simp_all add: get_block_next_def [of q])
  then show ?case using Cons.IH [of "ps @ [q]"] Cons.prems by simp
qed simp

text \<open>The blocks before the node's one move behind the free ones.\<close>

lemma blocks_ok_rotate:
  assumes "blocks_ok a (ps @ c # rs) fs" "ps \<noteq> []"
  shows "\<exists>a'. (do { b \<leftarrow> set_block_next (last_block a) (first_block a) a; set_block_next (last ps) 0 (b\<lparr>first_block := c, last_block := last ps\<rparr>) }) = Some a' \<and>
    blocks_ok a' (c # rs) (fs @ ps) \<and> kept a a'"
proof -
  let ?ys = "c # rs @ fs"
  have s: "path (block_next a) (first_block a) (ps @ ?ys) 0" "distinct (ps @ ?ys)" "0 \<notin> set (ps @ ?ys)" "\<And>b. live a b \<longleftrightarrow> b \<in> set (ps @ ?ys)" "last_block a = last ?ys"
    using blocks_okD(1-4,9) [OF assms(1)] by simp_all
  define a' where "a' = a\<lparr>block_next := (block_next a)(last ?ys := first_block a, last ps := 0), first_block := c, last_block := last ps\<rparr>"
  define z where "z = last ?ys"
  have "z \<in> set ?ys" unfolding z_def by (rule last_in_set) simp
  moreover have "last ps \<in> set ps" using assms(2) by (rule last_in_set)
  ultimately have m: "z \<in> set (ps @ ?ys)" "last ps \<in> set (ps @ ?ys)" by auto
  have "z \<noteq> 0" "last ps \<noteq> 0" "live a z" "live a (last ps)" using m s(3) unfolding s(4) by metis+
  then have "(do { b \<leftarrow> set_block_next (last_block a) (first_block a) a; set_block_next (last ps) 0 (b\<lparr>first_block := c, last_block := last ps\<rparr>) }) = Some a'"
    using s(5) unfolding a'_def z_def [symmetric] by (simp add: set_block_next_def)
  moreover have "path (block_next a') c (?ys @ ps) 0"
    using path_rotate [OF s(1) assms(2) _ s(2)] by (simp add: a'_def del: last.simps)
  then have "blocks_ok a' (c # rs) (fs @ ps)"
  proof (intro blocks_okI)
    have e: "set ((c # rs) @ fs @ ps) = set ((ps @ c # rs) @ fs)" by auto
    show "0 \<notin> set ((c # rs) @ fs @ ps)" "live a' b \<longleftrightarrow> b \<in> set ((c # rs) @ fs @ ps)"
      "\<forall>b\<in>set ((c # rs) @ fs @ ps). \<forall>c\<in>set ((c # rs) @ fs @ ps). b < c \<longrightarrow> b + SIZEOF_BLOCK \<le> c" for b
      unfolding e using blocks_okD(2,4,5) [OF assms(1)] by (simp_all add: a'_def)
    show "distinct ((c # rs) @ fs @ ps)" using s(2) by auto
    show "block_num a' = of_nat (length ((c # rs) @ fs @ ps))" "length ((c # rs) @ fs @ ps) < 2 ^ 32"
      using blocks_okD(6,7) [OF assms(1)] by (simp_all add: a'_def ac_simps)
    show "current_block a' = last (c # rs)" "last_block a' = last ((c # rs) @ fs @ ps)" "-1 \<le> last_node a'" "last_node a' < int BLOCK_TRANX_NODES"
      using blocks_okD(8,10,11) [OF assms(1)] assms(2) by (simp_all add: a'_def)
  qed (simp_all add: a'_def)
  ultimately show ?thesis by (auto simp: kept_def a'_def)
qed

lemma free_before_at:
  assumes "blocks_ok a (ps @ c # rs) fs" "i < BLOCK_TRANX_NODES" "length (ps @ c # rs @ fs) < bound"
  shows "\<exists>a' fs'. free_before_loop (Suc fuel) bound (node_addr c i) c (if ps = [] then 0 else last ps) a = Some (0, a') \<and>
    blocks_ok a' (c # rs) fs' \<and> kept a a' \<and> (ps \<noteq> [] \<longrightarrow> trimmed a' (c # rs) fs')"
proof -
  let ?us = "ps @ c # rs"
  note nx = blocks_ok_current [OF assms(1)]
  have c: "c \<noteq> (if fs = [] then 0 else hd fs)" using assms(1) by (cases fs) (auto simp: blocks_ok_def)
  have i: "node_addr c 0 \<le> node_addr c i \<and> node_addr c i \<le> node_addr c BLOCK_TRANX_NODES" using assms(2) by (simp add: node_addr_def)
  show ?thesis
  proof (cases "ps = []")
    case True
    then have "first_block a = c" using assms(1) by (simp add: blocks_ok_def)
    then show ?thesis using True assms(1) nx c i by (intro exI [of _ a] exI [of _ fs]) (simp add: kept_def)
  next
    case False
    then have "first_block a \<noteq> c" using assms(1) by (cases ps) (auto simp: blocks_ok_def)
    obtain b where b: "(do { b \<leftarrow> set_block_next (last_block a) (first_block a) a; set_block_next (last ps) 0 (b\<lparr>first_block := c, last_block := last ps\<rparr>) }) = Some b"
      "blocks_ok b (c # rs) (fs @ ps)" "kept a b" using blocks_ok_rotate [OF assms(1) False] by blast
    obtain a' fs' where f: "free_blocks bound b = Some a'" "blocks_ok a' (c # rs) fs'" "kept b a'" "trimmed a' (c # rs) fs'"
      using free_blocks_ok [OF b(2), of bound] assms(3) by auto
    have "free_before_loop (Suc fuel) bound (node_addr c i) c (last ps) a = Some (0, a')"
      using nx c i \<open>first_block a \<noteq> c\<close> b(1) f(1) by (auto simp: bind_eq_Some_conv Let_def)
    then show ?thesis using False f b(3) by (auto simp: kept_def)
  qed
qed

lemma kept_used_nodes: "kept a a' \<Longrightarrow> used_nodes a' us = used_nodes a us"
  by (simp add: kept_def used_nodes_def)

lemma free_nodes_before_ok:
  assumes "alloc_ok a us fs" "node \<in> set (used_nodes a us)" "length (us @ fs) < fuel"
  shows "\<exists>a' ps us' fs'. free_nodes_before fuel node a = Some (0, a') \<and> alloc_ok a' us' fs' \<and> us = ps @ us' \<and>
    used_nodes a us = concat (map (block_nodes BLOCK_TRANX_NODES) ps) @ used_nodes a' us' \<and> node \<in> set (used_nodes a' us') \<and>
    node \<in> set (block_nodes BLOCK_TRANX_NODES (hd us')) \<and> kept a a' \<and> (ps \<noteq> [] \<longrightarrow> trimmed a' us' fs')"
proof -
  have b: "blocks_ok a us fs" using assms(1) by (simp add: alloc_ok_def)
  obtain ps c rs i where u: "us = ps @ c # rs" "node = node_addr c i" "i < BLOCK_TRANX_NODES" "node \<in> set (used_nodes a (c # rs))"
    by (rule used_node_block [OF b assms(2)])
  obtain f where f: "fuel = length ps + Suc f" using assms(3) u(1) by (metis add_Suc_right length_append less_imp_Suc_add add.assoc)
  have "first_block a = hd (ps @ [c])" using b u(1) by (cases ps) (auto simp: blocks_ok_def)
  then have "free_nodes_before fuel node a = free_before_loop (Suc f) fuel node c (if ps = [] then 0 else last ps) a"
    using free_before_walk [of a "[]" ps c rs fs i "Suc f" fuel] b u f by (simp add: free_nodes_before_def del: free_before_loop.simps)
  moreover obtain a' fs' where a': "free_before_loop (Suc f) fuel node c (if ps = [] then 0 else last ps) a = Some (0, a')" "blocks_ok a' (c # rs) fs'" "kept a a'"
    "ps \<noteq> [] \<longrightarrow> trimmed a' (c # rs) fs'"
    using free_before_at [of a ps c rs fs i fuel f] b u assms(3) by auto
  moreover have "alloc_ok a' (c # rs) fs'" using a'(2,3) assms(1) u(1) by (simp add: alloc_ok_def kept_def)
  ultimately show ?thesis
    using u used_nodes_append [of "c # rs" a ps] kept_used_nodes [OF a'(3)] by (intro exI [of _ a'] exI [of _ ps] exI [of _ "c # rs"] exI [of _ fs']) (simp add: block_nodes_def)
qed

lemma free_all_nodes_ok:
  assumes "alloc_ok a us fs" "length (us @ fs) < fuel"
  shows "\<exists>a' us' fs'. free_all_nodes fuel a = Some (0, a') \<and> alloc_ok a' us' fs' \<and> used_nodes a' us' = [] \<and> node_at a' = node_at a \<and>
    reserved_blocks a' = reserved_blocks a \<and> trimmed a' us' fs'"
proof -
  have b: "blocks_ok a us fs" using assms(1) by (simp add: alloc_ok_def)
  let ?a = "a\<lparr>current_block := first_block a, last_node := -1\<rparr>"
  have "\<exists>us' fs'. blocks_ok ?a us' fs' \<and> length us' \<le> 1 \<and> length fs' < fuel"
  proof (cases us)
    case Nil
    then show ?thesis using b assms(2) by (intro exI [of _ "[]"] exI [of _ fs]) (auto simp: blocks_ok_def)
  next
    case (Cons u us')
    have "blocks_ok ?a [u] (us' @ fs)"
      using Cons blocks_okD [OF b] by (intro blocks_okI) (simp_all add: sizes)
    then show ?thesis using Cons assms(2) by (intro exI [of _ "[u]"] exI [of _ "us' @ fs"]) simp
  qed
  then obtain us' fs' where u: "blocks_ok ?a us' fs'" "length us' \<le> 1" "length fs' < fuel" by blast
  obtain a' gs where "free_blocks fuel ?a = Some a'" "blocks_ok a' us' gs" "kept ?a a'" "trimmed a' us' gs"
    using free_blocks_ok [OF u(1,3)] by blast
  moreover have "used_nodes a' us' = []" if "last_node a' = -1"
    using that u(2) by (cases us') (simp_all add: used_nodes_def block_nodes_def)
  ultimately show ?thesis using u(2) by (auto simp: free_all_nodes_def alloc_ok_def kept_def)
qed

lemma allocator_destroy_ok:
  assumes "alloc_ok a us fs" "length (us @ fs) < fuel"
  shows "\<exists>a'. allocator_destroy fuel a = Some a' \<and> (\<forall>b. \<not> live a' b) \<and> block_num a' = 0"
proof -
  have "\<exists>a'. allocator_destroy_loop f b a = Some a' \<and> (\<forall>x. live a' x \<longleftrightarrow> live a x \<and> x \<notin> set bs) \<and> block_num a' = block_num a - of_nat (length bs)"
    if "path (block_next a) b bs 0" "0 \<notin> set bs" "distinct bs" "\<forall>x\<in>set bs. live a x" "length bs < f" for b bs f a
    using that
  proof (induction bs arbitrary: b f a)
    case Nil
    then show ?case by (cases f) simp_all
  next
    case (Cons x bs)
    then obtain f' where f: "f = Suc f'" "length bs < f'" by (cases f) auto
    let ?a = "a\<lparr>live := (live a)(x := False), block_num := block_num a - 1\<rparr>"
    have "path (block_next ?a) (block_next a x) bs 0" "0 \<notin> set bs" "distinct bs" "\<forall>y\<in>set bs. live ?a y" using Cons.prems by auto
    from Cons.IH [OF this f(2)] obtain a' where a': "allocator_destroy_loop f' (block_next a x) ?a = Some a'"
      "\<forall>y. live a' y \<longleftrightarrow> live ?a y \<and> y \<notin> set bs" "block_num a' = block_num ?a - of_nat (length bs)" by blast
    have "b = x" "x \<noteq> 0" "live a x" using Cons.prems by auto
    then show ?case using a' f(1) by (auto simp: get_block_next_def free_block_def)
  qed
  from this [of a "first_block a" "us @ fs" fuel] show ?thesis
    using blocks_okD [of a us fs] assms by (auto simp: allocator_destroy_def alloc_ok_def)
qed

text \<open>C11. The node allocator keeps its invariant, and no call touches a null or freed block. \<open>allocate_node\<close> gives a node that is not in use, cleared and at the
  end of the sequence, or fails for lack of memory and changes nothing; \<open>free_nodes_before\<close> drops whole blocks from the front of the sequence, all before
  the given node's own block, and trims the free blocks to the reserved number or one; \<open>free_all_nodes\<close> empties the sequence; the destructor frees every block once.\<close>

theorem tranx_node_allocator:
  assumes "alloc_ok a us fs" "malloc_ok new_block a" "length (us @ fs) < fuel"
  shows "((new_block = 0 \<and> fs = [] \<and> allocate_node new_block a = Some (0, a)) \<or>
      (\<exists>n a' us' fs'. allocate_node new_block a = Some (n, a') \<and> allocated a us n a' us' fs')) \<and>
    (node \<in> set (used_nodes a us) \<longrightarrow> (\<exists>a' ps us' fs'. free_nodes_before fuel node a = Some (0, a') \<and> alloc_ok a' us' fs' \<and> us = ps @ us' \<and>
      used_nodes a us = concat (map (block_nodes BLOCK_TRANX_NODES) ps) @ used_nodes a' us' \<and> node \<in> set (used_nodes a' us') \<and>
      node \<in> set (block_nodes BLOCK_TRANX_NODES (hd us')) \<and> kept a a' \<and> (ps \<noteq> [] \<longrightarrow> trimmed a' us' fs'))) \<and>
    (\<exists>a' us' fs'. free_all_nodes fuel a = Some (0, a') \<and> alloc_ok a' us' fs' \<and> used_nodes a' us' = [] \<and> node_at a' = node_at a \<and>
      reserved_blocks a' = reserved_blocks a \<and> trimmed a' us' fs') \<and>
    (\<exists>a'. allocator_destroy fuel a = Some a' \<and> (\<forall>b. \<not> live a' b) \<and> block_num a' = 0)"
  using allocate_node_ok [OF assms(1,2)] free_nodes_before_ok [OF assms(1) _ assms(3)] free_all_nodes_ok [OF assms(1,3)] allocator_destroy_ok [OF assms(1,3)]
  by (intro conjI impI)

lemma allocator_init_ok: "alloc_ok (allocator_init r mem) [] []" "used_nodes (allocator_init r mem) [] = []"
  by (simp_all add: alloc_ok_def blocks_ok_def allocator_init_def used_nodes_def)

definition sample_nodes :: "nat \<Rightarrow> Tranx_node" where
  "sample_nodes n = \<lparr>log_name = replicate FN_REFLEN 65, log_pos = 7, tn_thd = 0, tn_next = 9, hash_next = 9\<rparr>"

theorem tranx_node_allocator_witness:
  "\<exists>n a' us' fs'. allocate_node 8 (allocator_init 20 sample_nodes) = Some (n, a') \<and> allocated (allocator_init 20 sample_nodes) [] n a' us' fs'"
  using tranx_node_allocator [OF allocator_init_ok(1), of 8 20 sample_nodes 1] by (simp add: malloc_ok_def allocator_init_def)

section \<open>The sequence of nodes\<close>

text \<open>A client takes nodes and gives back the first ones it holds, as \<open>Active_tranx\<close> does: before the first node it keeps, or all of them.\<close>

datatype client_op = Take | Give_Back nat

definition client_step ::
  "('s \<Rightarrow> (nat \<times> 's) option) \<Rightarrow> (nat \<Rightarrow> 's \<Rightarrow> (int \<times> 's) option) \<Rightarrow> ('s \<Rightarrow> (int \<times> 's) option) \<Rightarrow> client_op \<Rightarrow> nat list \<Rightarrow> 's \<Rightarrow> (nat list \<times> 's) option" where
  "client_step alloc free_before free_all op cs s =
     (case op of
        Take \<Rightarrow> do { (n, s) \<leftarrow> alloc s; Some (if n = 0 then cs else cs @ [n], s) }
      | Give_Back k \<Rightarrow>
          (let cs = drop k cs
           in do { (_, s) \<leftarrow> (if cs = [] then free_all s else free_before (hd cs) s); Some (cs, s) }))"

fun client_run ::
  "('s \<Rightarrow> (nat \<times> 's) option) \<Rightarrow> (nat \<Rightarrow> 's \<Rightarrow> (int \<times> 's) option) \<Rightarrow> ('s \<Rightarrow> (int \<times> 's) option) \<Rightarrow> client_op list \<Rightarrow> nat list \<Rightarrow> 's \<Rightarrow> (nat list \<times> 's) option" where
  "client_run alloc free_before free_all [] cs s = Some (cs, s)"
| "client_run alloc free_before free_all (op # ops) cs s = do {
     (cs, s) \<leftarrow> client_step alloc free_before free_all op cs s;
     client_run alloc free_before free_all ops cs s }"

lemma suffix_of_rest:
  assumes "ws @ cs = ys @ zs" "distinct (ys @ zs)" "cs \<noteq> []" "hd cs \<in> set zs"
  obtains us where "zs = us @ cs"
proof -
  consider us where "ws = ys @ us" "us @ cs = zs" | us where "ws @ us = ys" "cs = us @ zs" using assms(1) by (auto simp: append_eq_append_conv2)
  then show ?thesis
  proof cases
    case 2
    have "us = []"
    proof (rule ccontr)
      assume "us \<noteq> []"
      then have "hd cs \<in> set ys" using 2 by (simp add: hd_in_set flip: 2(1))
      then show False using assms(2,4) by auto
    qed
    then show ?thesis using that [of "[]"] 2 by simp
  qed (use that in blast)
qed

text \<open>What the client relies on: \<open>holds s xs\<close> says that \<open>xs\<close> are the nodes in use, in sequence.\<close>

locale node_queue =
  fixes holds :: "'s \<Rightarrow> nat list \<Rightarrow> bool" and alloc :: "'s \<Rightarrow> (nat \<times> 's) option"
    and free_before :: "nat \<Rightarrow> 's \<Rightarrow> (int \<times> 's) option" and free_all :: "'s \<Rightarrow> (int \<times> 's) option"
  assumes holds_distinct: "holds s xs \<Longrightarrow> distinct xs"
    and alloc_law: "holds s xs \<Longrightarrow> \<exists>n s'. alloc s = Some (n, s') \<and> (n = 0 \<and> holds s' xs \<or> n \<noteq> 0 \<and> n \<notin> set xs \<and> holds s' (xs @ [n]))"
    and free_before_law: "holds s xs \<Longrightarrow> n \<in> set xs \<Longrightarrow> \<exists>s' ys zs. free_before n s = Some (0, s') \<and> xs = ys @ zs \<and> n \<in> set zs \<and> holds s' zs"
    and free_all_law: "holds s xs \<Longrightarrow> \<exists>s'. free_all s = Some (0, s') \<and> holds s' []"
begin

lemma client_step_ok:
  assumes "holds s (ws @ cs)"
  shows "\<exists>cs' s' ws'. client_step alloc free_before free_all op cs s = Some (cs', s') \<and> holds s' (ws' @ cs')"
proof (cases op)
  case Take
  obtain n s' where "alloc s = Some (n, s')" "n = 0 \<and> holds s' (ws @ cs) \<or> n \<noteq> 0 \<and> n \<notin> set (ws @ cs) \<and> holds s' ((ws @ cs) @ [n])"
    using alloc_law [OF assms] by blast
  then show ?thesis using Take by (intro exI [of _ "if n = 0 then cs else cs @ [n]"] exI [of _ s'] exI [of _ ws]) (auto simp: client_step_def)
next
  case (Give_Back k)
  let ?cs = "drop k cs"
  show ?thesis
  proof (cases "?cs = []")
    case True
    obtain s' where "free_all s = Some (0, s')" "holds s' []" using free_all_law [OF assms] by blast
    then show ?thesis using Give_Back True by (auto simp: client_step_def)
  next
    case False
    have e: "ws @ cs = (ws @ take k cs) @ ?cs" by simp
    have "hd ?cs \<in> set cs" using hd_in_set [OF False] by (rule in_set_dropD)
    then have "hd ?cs \<in> set (ws @ cs)" by simp
    then obtain s' ys zs where f: "free_before (hd ?cs) s = Some (0, s')" "ws @ cs = ys @ zs" "hd ?cs \<in> set zs" "holds s' zs"
      using free_before_law [OF assms] by blast
    obtain us where "zs = us @ ?cs"
      using suffix_of_rest [of "ws @ take k cs" ?cs ys zs] e f(2,3) False holds_distinct [OF assms] by metis
    then show ?thesis using Give_Back False f(1,4) by (auto simp: client_step_def)
  qed
qed

lemma client_run_ok:
  assumes "holds s (ws @ cs)"
  shows "\<exists>cs' s' ws'. client_run alloc free_before free_all ops cs s = Some (cs', s') \<and> holds s' (ws' @ cs') \<and> distinct (ws' @ cs')"
  using assms
proof (induction ops arbitrary: s ws cs)
  case Nil
  then show ?case using holds_distinct [OF Nil] by auto
next
  case (Cons op ops)
  obtain cs' s' ws' where "client_step alloc free_before free_all op cs s = Some (cs', s')" "holds s' (ws' @ cs')"
    using client_step_ok [OF Cons.prems] by blast
  then show ?case using Cons.IH by simp
qed

end

text \<open>The allocator as such a queue, together with the \<open>my_malloc\<close> it calls. The number of blocks bounds all its loops.\<close>

type_synonym node_memory = "node_allocator \<times> (node_allocator \<Rightarrow> nat)"

definition loop_bound :: "node_allocator \<Rightarrow> nat" where "loop_bound a = Suc (unat (block_num a))"

definition mem_allocate :: "node_memory \<Rightarrow> (nat \<times> node_memory) option" where
  "mem_allocate m = map_option (\<lambda>(n, a). (n, a, snd m)) (allocate_node (snd m (fst m)) (fst m))"

definition mem_free_before :: "nat \<Rightarrow> node_memory \<Rightarrow> (int \<times> node_memory) option" where
  "mem_free_before node m = map_option (\<lambda>(n, a). (n, a, snd m)) (free_nodes_before (loop_bound (fst m)) node (fst m))"

definition mem_free_all :: "node_memory \<Rightarrow> (int \<times> node_memory) option" where
  "mem_free_all m = map_option (\<lambda>(n, a). (n, a, snd m)) (free_all_nodes (loop_bound (fst m)) (fst m))"

definition malloc_spec :: "(node_allocator \<Rightarrow> nat) \<Rightarrow> bool" where
  "malloc_spec mal \<longleftrightarrow> (\<forall>a us fs. alloc_ok a us fs \<longrightarrow> malloc_ok (mal a) a)"

definition mem_holds :: "node_memory \<Rightarrow> nat list \<Rightarrow> bool" where
  "mem_holds m xs \<longleftrightarrow> malloc_spec (snd m) \<and> (\<exists>us fs. alloc_ok (fst m) us fs \<and> xs = used_nodes (fst m) us)"

lemma mem_holdsI: "malloc_spec mal \<Longrightarrow> alloc_ok a us fs \<Longrightarrow> used_nodes a us = xs \<Longrightarrow> mem_holds (a, mal) xs"
  by (auto simp: mem_holds_def)

lemma loop_bound_ok: "alloc_ok a us fs \<Longrightarrow> length (us @ fs) < loop_bound a"
  by (simp add: loop_bound_def alloc_ok_def blocks_ok_def unat_of_nat del: length_append)

interpretation tn: node_queue mem_holds mem_allocate mem_free_before mem_free_all
proof
  fix m :: node_memory and xs
  assume "mem_holds m xs"
  then obtain us fs where m: "malloc_spec (snd m)" "alloc_ok (fst m) us fs" and xs: "xs = used_nodes (fst m) us" by (auto simp: mem_holds_def)
  note b = loop_bound_ok [OF m(2)]
  show "distinct xs" using m(2) xs used_nodes_distinct [of "fst m" us fs] by (simp add: alloc_ok_def)
  have "malloc_ok (snd m (fst m)) (fst m)" using m by (auto simp: malloc_spec_def)
  from allocate_node_ok [OF m(2) this]
  show "\<exists>n m'. mem_allocate m = Some (n, m') \<and> (n = 0 \<and> mem_holds m' xs \<or> n \<noteq> 0 \<and> n \<notin> set xs \<and> mem_holds m' (xs @ [n]))"
    using mem_holdsI [OF m(1)] m(2) xs by (cases m) (fastforce simp: mem_allocate_def allocated_def)
  show "\<exists>m'. mem_free_all m = Some (0, m') \<and> mem_holds m' []"
    using free_all_nodes_ok [OF m(2) b] mem_holdsI [OF m(1)] by (fastforce simp: mem_free_all_def)
  show "\<exists>m' ys zs. mem_free_before n m = Some (0, m') \<and> xs = ys @ zs \<and> n \<in> set zs \<and> mem_holds m' zs" if "n \<in> set xs" for n
    using free_nodes_before_ok [OF m(2) that [unfolded xs] b] mem_holdsI [OF m(1)] xs by (fastforce simp: mem_free_before_def)
qed

text \<open>For every sequence of taking nodes and giving back the first ones held, and every \<open>my_malloc\<close> that returns null or a block of its own: no call
  fails an assertion or touches freed memory, and the nodes held by the client are always distinct nodes at the end of the sequence of nodes in use.\<close>

theorem tranx_nodes_sequence:
  assumes "malloc_spec mal"
  shows "\<exists>cs a us fs ws. client_run mem_allocate mem_free_before mem_free_all ops [] (allocator_init r mem, mal) = Some (cs, a, mal) \<and>
    alloc_ok a us fs \<and> used_nodes a us = ws @ cs \<and> distinct (ws @ cs)"
proof -
  have "mem_holds (allocator_init r mem, mal) ([] @ [])" using assms allocator_init_ok [of r mem] by (auto simp: mem_holds_def intro: exI [of _ "[]"])
  from tn.client_run_ok [OF this, of ops] obtain cs m ws where
    r: "client_run mem_allocate mem_free_before mem_free_all ops [] (allocator_init r mem, mal) = Some (cs, m)" "mem_holds m (ws @ cs)" "distinct (ws @ cs)"
    by blast
  have "snd m = mal" if "client_run mem_allocate mem_free_before mem_free_all ops cs0 m0 = Some (cs, m)" "snd m0 = mal" for cs0 m0
    using that
    by (induction ops arbitrary: cs0 m0)
      (auto simp: client_step_def mem_allocate_def mem_free_before_def mem_free_all_def Let_def bind_eq_Some_conv split: client_op.splits if_splits)
  from this [OF r(1)] obtain a where "m = (a, mal)" by (cases m) auto
  moreover from r(2) obtain us fs where "alloc_ok (fst m) us fs" "used_nodes (fst m) us = ws @ cs" by (metis mem_holds_def)
  ultimately show ?thesis using r(1,3) by (metis fst_conv)
qed

text \<open>A \<open>my_malloc\<close> that takes the memory above all blocks.\<close>

fun walk_blocks :: "nat \<Rightarrow> (nat \<Rightarrow> nat) \<Rightarrow> nat \<Rightarrow> nat list" where
  "walk_blocks 0 nx b = []"
| "walk_blocks (Suc f) nx b = (if b = 0 then [] else b # walk_blocks f nx (nx b))"

definition top_malloc :: "node_allocator \<Rightarrow> nat" where
  "top_malloc a =
     (if unat (block_num a) + 1 < 2 ^ 32 then foldr max (walk_blocks (loop_bound a) (block_next a) (first_block a)) 0 + SIZEOF_BLOCK else 0)"

lemma top_malloc_spec: "malloc_spec top_malloc"
  unfolding malloc_spec_def
proof (intro allI impI)
  fix a us fs
  assume ok: "alloc_ok a us fs"
  then have b: "blocks_ok a us fs" by (simp add: alloc_ok_def)
  have walk: "walk_blocks f nx p = xs" if "path nx p xs 0" "0 \<notin> set xs" "length xs < f" for f nx p xs
    using that by (induction f nx p arbitrary: xs rule: walk_blocks.induct) (case_tac xs; auto)+
  have "x \<le> foldr max xs 0" if "x \<in> set xs" for x :: nat and xs using that by (induction xs) auto
  moreover have "walk_blocks (loop_bound a) (block_next a) (first_block a) = us @ fs"
    using walk [OF blocks_okD(1,2) [OF b] loop_bound_ok [OF ok]] .
  ultimately have "x + SIZEOF_BLOCK \<le> top_malloc a" if "x \<in> set (us @ fs)" "top_malloc a \<noteq> 0" for x using that by (simp add: top_malloc_def del: foldr_append set_append split: if_splits)
  moreover have "unat (block_num a) + 1 < 2 ^ 32" if "top_malloc a \<noteq> 0" using that by (simp add: top_malloc_def split: if_splits)
  ultimately show "malloc_ok (top_malloc a) a" unfolding malloc_ok_def blocks_okD(4) [OF b] by (fastforce simp: sizes)
qed

theorem tranx_nodes_sequence_witness:
  "\<exists>cs a us fs ws. client_run mem_allocate mem_free_before mem_free_all (replicate 40 Take @ [Give_Back 20, Take, Give_Back 50]) []
      (allocator_init 20 sample_nodes, top_malloc) = Some (cs, a, top_malloc) \<and>
    alloc_ok a us fs \<and> used_nodes a us = ws @ cs \<and> distinct (ws @ cs)"
  by (rule tranx_nodes_sequence [OF top_malloc_spec])

end
