(* ===== verification/Histogram.thy ===== *)
theory Histogram
  imports Byte_Order Complex_Main "HOL-Library.Monad_Syntax" "HOL-Library.Signed_Division"
begin

text \<open>
  The statistics classes of \<open>sql_statistics.h\<close>: \<open>Histogram_binary\<close>, whose bucket bounds are fractions of one or two bytes in a sorted array,
  \<open>Basic_stats_collector\<close> and the scaled ratios and null flags of \<open>Column_statistics\<close>. Doubles are real numbers; the product that is truncated is rounded by
  the argument \<open>rnd\<close>. Indices are natural numbers: the array has a few hundred bytes, so that no \<open>int\<close> of the search overflows. \<^const>\<open>None\<close> is a
  failed assertion, an access outside the array or the conversion of a double outside the integer's range.
\<close>

section \<open>Histogram\<close>

datatype Histogram_type = SINGLE_PREC_HB | DOUBLE_PREC_HB | JSON_HB | INVALID_HISTOGRAM

record Histogram_binary =
  hist_type :: Histogram_type
  hist_size :: ulonglong
  hist_values :: "uchar list"

definition prec_factor :: "Histogram_binary \<Rightarrow> uint option" where
  "prec_factor h =
     (case hist_type h of
        SINGLE_PREC_HB \<Rightarrow> Some (push_bit 8 1 - 1)
      | DOUBLE_PREC_HB \<Rightarrow> Some (push_bit 16 1 - 1)
      | _ \<Rightarrow> None)"

definition get_width :: "Histogram_binary \<Rightarrow> uint option" where
  "get_width h =
     (case hist_type h of
        SINGLE_PREC_HB \<Rightarrow> Some (ucast (hist_size h))
      | DOUBLE_PREC_HB \<Rightarrow> Some (ucast (hist_size h div 2))
      | _ \<Rightarrow> None)"

definition byte_at :: "nat \<Rightarrow> Histogram_binary \<Rightarrow> uchar option" where
  "byte_at n h = (if n < length (hist_values h) then Some (hist_values h ! n) else None)"

definition put_byte :: "nat \<Rightarrow> uchar \<Rightarrow> Histogram_binary \<Rightarrow> Histogram_binary option" where
  "put_byte n b h = (if n < length (hist_values h) then Some (h\<lparr>hist_values := (hist_values h)[n := b]\<rparr>) else None)"

definition get_value :: "nat \<Rightarrow> Histogram_binary \<Rightarrow> uint option" where
  "get_value i h = do {
     w \<leftarrow> get_width h;
     if \<not> i < unat w then None
     else case hist_type h of
            SINGLE_PREC_HB \<Rightarrow> do { b \<leftarrow> byte_at i h; Some (ucast b) }
          | DOUBLE_PREC_HB \<Rightarrow> do { b \<leftarrow> byte_at (i * 2) h; c \<leftarrow> byte_at (i * 2 + 1) h; Some (ucast (uint2korr b c)) }
          | _ \<Rightarrow> None }"

text \<open>The conversion of a double to an integer type of \<open>n\<close> bits drops the fraction.\<close>

definition trunc_to :: "nat \<Rightarrow> real \<Rightarrow> nat option" where
  "trunc_to n x = (if 0 \<le> x \<and> x < 2 ^ n then Some (nat \<lfloor>x\<rfloor>) else None)"

text \<open>The three loops of \<open>find_bucket\<close>: the search, and the steps to the first or the last of equal bounds. Fuel bounds the rounds of the search.\<close>

fun bucket_loop :: "nat \<Rightarrow> Histogram_binary \<Rightarrow> nat \<Rightarrow> int \<Rightarrow> int \<Rightarrow> int \<Rightarrow> nat \<Rightarrow> nat option" where
  "bucket_loop 0 h val lp rp d i = None"
| "bucket_loop (Suc fuel) h val lp rp d i =
     (if d = 0 then Some i
      else do {
        v \<leftarrow> get_value i h;
        if val = unat v then Some i
        else if val < unat v then let rp = int i; d = (rp - lp) sdiv 2 in bucket_loop fuel h val lp rp d (nat (lp + d))
        else do {
          v \<leftarrow> get_value (i + 1) h;
          if val > unat v then let lp = int i + 1; d = (rp - lp) sdiv 2 in bucket_loop fuel h val lp rp d (nat (lp + d))
          else Some i } })"

fun bucket_down :: "Histogram_binary \<Rightarrow> nat \<Rightarrow> nat \<Rightarrow> nat option" where
  "bucket_down h val 0 = Some 0"
| "bucket_down h val (Suc i) = do { v \<leftarrow> get_value i h; if val = unat v then bucket_down h val i else Some (Suc i) }"

function bucket_up :: "Histogram_binary \<Rightarrow> nat \<Rightarrow> nat \<Rightarrow> nat \<Rightarrow> nat option" where
  "bucket_up h val w i =
     (if i + 1 < w then do { v \<leftarrow> get_value (i + 1) h; if val = unat v then bucket_up h val w (i + 1) else Some i } else Some i)"
  by pat_completeness auto
termination by (relation "measure (\<lambda>(h, val, w, i). w - i)") auto

declare bucket_up.simps [simp del]

definition find_bucket_val :: "nat \<Rightarrow> bool \<Rightarrow> Histogram_binary \<Rightarrow> nat option" where
  "find_bucket_val val first h = do {
     w \<leftarrow> get_width h;
     let lp = 0;
     let rp = sint (w - 1);
     let d = int (unat (w div 2));
     i \<leftarrow> bucket_loop (Suc (unat w)) h val lp rp d (nat (lp + d));
     v \<leftarrow> get_value i h;
     let i = (if val > unat v \<and> i < unat w - 1 then i + 1 else i);
     v \<leftarrow> get_value i h;
     if val = unat v then if first then bucket_down h val i else bucket_up h val (unat w) i
     else Some i }"

definition find_bucket :: "(real \<Rightarrow> real) \<Rightarrow> real \<Rightarrow> bool \<Rightarrow> Histogram_binary \<Rightarrow> nat option" where
  "find_bucket rnd pos first h = do {
     p \<leftarrow> prec_factor h;
     val \<leftarrow> trunc_to 64 (rnd (pos * real (unat p)));
     find_bucket_val val first h }"

definition set_value :: "(real \<Rightarrow> real) \<Rightarrow> nat \<Rightarrow> real \<Rightarrow> Histogram_binary \<Rightarrow> Histogram_binary option" where
  "set_value rnd i val h =
     (case hist_type h of
        SINGLE_PREC_HB \<Rightarrow> do {
          p \<leftarrow> prec_factor h;
          n \<leftarrow> trunc_to 8 (rnd (val * real (unat p)));
          put_byte i (of_nat n) h }
      | DOUBLE_PREC_HB \<Rightarrow> do {
          p \<leftarrow> prec_factor h;
          n \<leftarrow> trunc_to 16 (rnd (val * real (unat p)));
          h \<leftarrow> put_byte (i * 2) (int2store (of_nat n) ! 0) h;
          put_byte (i * 2 + 1) (int2store (of_nat n) ! 1) h }
      | _ \<Rightarrow> None)"

definition set_prev_value :: "nat \<Rightarrow> Histogram_binary \<Rightarrow> Histogram_binary option" where
  "set_prev_value i h =
     (if i = 0 then None
      else case hist_type h of
             SINGLE_PREC_HB \<Rightarrow> do { b \<leftarrow> byte_at (i - 1) h; put_byte i b h }
           | DOUBLE_PREC_HB \<Rightarrow> do {
               b \<leftarrow> byte_at (i * 2 - 2) h;
               c \<leftarrow> byte_at (i * 2 - 1) h;
               h \<leftarrow> put_byte (i * 2) (int2store (uint2korr b c) ! 0) h;
               put_byte (i * 2 + 1) (int2store (uint2korr b c) ! 1) h }
           | _ \<Rightarrow> None)"

section \<open>Counters and column statistics\<close>

record Basic_stats_collector =
  stat_count :: ulonglong
  count_distinct :: ulonglong
  count_distinct_single_occurence :: ulonglong

definition collector_init :: Basic_stats_collector where
  "collector_init = \<lparr>stat_count = 0, count_distinct = 0, count_distinct_single_occurence = 0\<rparr>"

definition collector_next :: "uint \<Rightarrow> Basic_stats_collector \<Rightarrow> Basic_stats_collector" where
  "collector_next elem_cnt c =
     (let c = c\<lparr>count_distinct := count_distinct c + 1\<rparr>;
          c = (if elem_cnt = 1 then c\<lparr>count_distinct_single_occurence := count_distinct_single_occurence c + 1\<rparr> else c)
      in c\<lparr>stat_count := stat_count c + ucast elem_cnt\<rparr>)"

datatype column_stat_col =
    COLUMN_STAT_DB_NAME | COLUMN_STAT_TABLE_NAME | COLUMN_STAT_COLUMN_NAME | COLUMN_STAT_MIN_VALUE | COLUMN_STAT_MAX_VALUE | COLUMN_STAT_NULLS_RATIO
  | COLUMN_STAT_AVG_LENGTH | COLUMN_STAT_AVG_FREQUENCY | COLUMN_STAT_HIST_SIZE | COLUMN_STAT_HIST_TYPE | COLUMN_STAT_HISTOGRAM | COLUMN_STAT_N_FIELDS

primrec col_no :: "column_stat_col \<Rightarrow> nat" where
  "col_no COLUMN_STAT_DB_NAME = 0"
| "col_no COLUMN_STAT_TABLE_NAME = 1"
| "col_no COLUMN_STAT_COLUMN_NAME = 2"
| "col_no COLUMN_STAT_MIN_VALUE = 3"
| "col_no COLUMN_STAT_MAX_VALUE = 4"
| "col_no COLUMN_STAT_NULLS_RATIO = 5"
| "col_no COLUMN_STAT_AVG_LENGTH = 6"
| "col_no COLUMN_STAT_AVG_FREQUENCY = 7"
| "col_no COLUMN_STAT_HIST_SIZE = 8"
| "col_no COLUMN_STAT_HIST_TYPE = 9"
| "col_no COLUMN_STAT_HISTOGRAM = 10"
| "col_no COLUMN_STAT_N_FIELDS = 11"

text \<open>The statistics of a column; the fields of the minimum and maximum and the histogram are left out.\<close>

record Column_statistics =
  column_stat_nulls :: uint
  nulls_ratio :: uint
  avg_length :: ulonglong
  avg_frequency :: ulonglong

definition Scale_factor :: real where "Scale_factor = 100000"

definition no_values_provided_bitmap :: uint where
  "no_values_provided_bitmap =
     push_bit (col_no COLUMN_STAT_COLUMN_NAME + 1) (push_bit (col_no COLUMN_STAT_HISTOGRAM - col_no COLUMN_STAT_COLUMN_NAME) 1 - 1)"

definition set_all_nulls :: "Column_statistics \<Rightarrow> Column_statistics" where
  "set_all_nulls c = c\<lparr>column_stat_nulls := no_values_provided_bitmap\<rparr>"

definition set_not_null :: "nat \<Rightarrow> Column_statistics \<Rightarrow> Column_statistics" where
  "set_not_null stat_field_no c = c\<lparr>column_stat_nulls := column_stat_nulls c AND NOT (push_bit stat_field_no 1)\<rparr>"

definition set_null :: "nat \<Rightarrow> Column_statistics \<Rightarrow> Column_statistics" where
  "set_null stat_field_no c = c\<lparr>column_stat_nulls := column_stat_nulls c OR push_bit stat_field_no 1\<rparr>"

definition stat_is_null :: "nat \<Rightarrow> Column_statistics \<Rightarrow> bool" where
  "stat_is_null stat_field_no c \<longleftrightarrow> column_stat_nulls c AND push_bit stat_field_no 1 \<noteq> 0"

definition min_max_values_are_provided :: "Column_statistics \<Rightarrow> bool" where
  "min_max_values_are_provided c \<longleftrightarrow> \<not> stat_is_null (col_no COLUMN_STAT_MIN_VALUE) c \<and> \<not> stat_is_null (col_no COLUMN_STAT_MAX_VALUE) c"

definition no_stat_values_provided :: "Column_statistics \<Rightarrow> bool" where
  "no_stat_values_provided c \<longleftrightarrow> column_stat_nulls c = no_values_provided_bitmap"

definition get_nulls_ratio :: "Column_statistics \<Rightarrow> real" where "get_nulls_ratio c = real (unat (nulls_ratio c)) / Scale_factor"
definition get_avg_length :: "Column_statistics \<Rightarrow> real" where "get_avg_length c = real (unat (avg_length c)) / Scale_factor"
definition get_avg_frequency :: "Column_statistics \<Rightarrow> real" where "get_avg_frequency c = real (unat (avg_frequency c)) / Scale_factor"

definition set_nulls_ratio :: "(real \<Rightarrow> real) \<Rightarrow> real \<Rightarrow> Column_statistics \<Rightarrow> Column_statistics option" where
  "set_nulls_ratio rnd val c = do { n \<leftarrow> trunc_to 32 (rnd (val * Scale_factor)); Some (c\<lparr>nulls_ratio := of_nat n\<rparr>) }"

definition set_avg_length :: "(real \<Rightarrow> real) \<Rightarrow> real \<Rightarrow> Column_statistics \<Rightarrow> Column_statistics option" where
  "set_avg_length rnd val c = do { n \<leftarrow> trunc_to 64 (rnd (val * Scale_factor)); Some (c\<lparr>avg_length := of_nat n\<rparr>) }"

definition set_avg_frequency :: "(real \<Rightarrow> real) \<Rightarrow> real \<Rightarrow> Column_statistics \<Rightarrow> Column_statistics option" where
  "set_avg_frequency rnd val c = do { n \<leftarrow> trunc_to 64 (rnd (val * Scale_factor)); Some (c\<lparr>avg_frequency := of_nat n\<rparr>) }"

section \<open>The search\<close>

text \<open>A histogram whose array has the announced size, and the bounds it stores.\<close>

definition hist_ok :: "Histogram_binary \<Rightarrow> nat \<Rightarrow> (nat \<Rightarrow> nat) \<Rightarrow> bool" where
  "hist_ok h n v \<longleftrightarrow> (\<exists>w. get_width h = Some w \<and> unat w = n) \<and> n < 2 ^ 31 \<and> (\<forall>i<n. \<exists>x. get_value i h = Some x \<and> unat x = v i)"

lemma hist_okD:
  assumes "hist_ok h n v"
  shows "i < n \<Longrightarrow> \<exists>x. get_value i h = Some x \<and> unat x = v i" "\<not> i < n \<Longrightarrow> get_value i h = None"
  using assms by (auto simp: hist_ok_def get_value_def)

text \<open>Where the search may stop.\<close>

definition stop_at :: "nat \<Rightarrow> (nat \<Rightarrow> nat) \<Rightarrow> nat \<Rightarrow> nat \<Rightarrow> bool" where
  "stop_at n v val i \<longleftrightarrow> i < n \<and> (v i = val \<or> (v i < val \<and> (i + 1 < n - 1 \<longrightarrow> val \<le> v (i + 1))) \<or> (val < v i \<and> i = 0))"

lemma sdiv_2: "0 \<le> a \<Longrightarrow> a sdiv 2 = a div 2" for a :: int
  by (simp add: signed_divide_int_def sgn_if)

lemma bucket_loop_stop:
  assumes "hist_ok h n v" "0 \<le> lp" "lp \<le> rp" "rp < int n" "d = (rp - lp) div 2 \<or> 0 < d \<and> int i < rp" "int i = lp + d" "0 \<le> d"
    "lp = 0 \<or> v (nat lp) < val" "rp = int n - 1 \<or> val < v (nat rp)" "nat (rp - lp) < fuel"
  shows "\<exists>j. bucket_loop fuel h val lp rp d i = Some j \<and> stop_at n v val j"
  using assms(2-)
proof (induction fuel arbitrary: lp rp d i)
  case (Suc fuel)
  show ?case
  proof (cases "d = 0")
    case True
    then have i: "lp = int i" "rp - lp \<le> 1" using Suc.prems by auto
    then consider "rp = int i" | "rp = int (i + 1)" using Suc.prems(2) by fastforce
    then have "stop_at n v val i"
    proof cases
      case 1
      then show ?thesis using Suc.prems(1-3,7,8) i unfolding stop_at_def by auto
    next
      case 2
      then have "nat rp = i + 1" by linarith
      then have "i + 1 = n - 1 \<or> val < v (i + 1)" using Suc.prems(8) 2 by auto
      then show ?thesis using Suc.prems(3,7) i 2 unfolding stop_at_def by auto
    qed
    then show ?thesis using True by simp
  next
    case False
    then have ir: "int i < rp" "lp < int i" using Suc.prems(4-6) by auto
    then have n: "i < n" "i + 1 < n" using Suc.prems(3) by auto
    obtain x y where xy: "get_value i h = Some x" "unat x = v i" "get_value (i + 1) h = Some y" "unat y = v (i + 1)"
      using hist_okD(1) [OF assms(1)] n by blast
    consider "v i = val" | "val < v i" | "v i < val" "v (i + 1) < val" | "v i < val" "val \<le> v (i + 1)" by linarith
    then show ?thesis
    proof cases
      case 1
      then show ?thesis using False xy n by (simp add: stop_at_def)
    next
      case 2
      let ?d = "(int i - lp) sdiv 2"
      have "\<exists>j. bucket_loop fuel h val lp (int i) ?d (nat (lp + ?d)) = Some j \<and> stop_at n v val j"
        using Suc.prems(1-3,7-9) ir 2 by (intro Suc.IH) (auto simp: sdiv_2)
      then show ?thesis using False xy 2 by (simp add: Let_def)
    next
      case 3
      let ?d = "(rp - (int i + 1)) sdiv 2"
      have "\<exists>j. bucket_loop fuel h val (int i + 1) rp ?d (nat (int i + 1 + ?d)) = Some j \<and> stop_at n v val j"
        using Suc.prems(1-3,7-9) ir 3 by (intro Suc.IH) (auto simp: sdiv_2 nat_add_distrib)
      then show ?thesis using False xy 3 by (simp add: Let_def)
    next
      case 4
      then show ?thesis using False xy n by (simp add: stop_at_def)
    qed
  qed
qed simp

lemma bucket_down_first:
  assumes "hist_ok h n v" "i < n" "v i = val"
  shows "\<exists>j\<le>i. bucket_down h val i = Some j \<and> (\<forall>k. j \<le> k \<and> k \<le> i \<longrightarrow> v k = val) \<and> (j \<noteq> 0 \<longrightarrow> v (j - 1) \<noteq> val)"
  using assms(2,3)
proof (induction i)
  case (Suc i)
  obtain x where x: "get_value i h = Some x" "unat x = v i" using hist_okD(1) [OF assms(1), of i] Suc.prems(1) by auto
  show ?case
  proof (cases "v i = val")
    case True
    then obtain j where "j \<le> i" "bucket_down h val i = Some j" "\<forall>k. j \<le> k \<and> k \<le> i \<longrightarrow> v k = val" "j \<noteq> 0 \<longrightarrow> v (j - 1) \<noteq> val"
      using Suc.IH Suc.prems(1) by auto
    then show ?thesis using True x Suc.prems(2) by (intro exI [of _ j]) (auto simp: le_Suc_eq)
  next
    case False
    then show ?thesis using x Suc.prems(2) by (intro exI [of _ "Suc i"]) (auto simp: le_antisym)
  qed
qed simp

lemma bucket_up_last:
  assumes "hist_ok h n v" "i < n" "v i = val"
  shows "\<exists>j\<ge>i. bucket_up h val n i = Some j \<and> j < n \<and> (\<forall>k. i \<le> k \<and> k \<le> j \<longrightarrow> v k = val) \<and> (j + 1 < n \<longrightarrow> v (j + 1) \<noteq> val)"
  using assms(2,3)
proof (induction "n - i" arbitrary: i rule: less_induct)
  case less
  have here: ?case if "bucket_up h val n i = Some i" "i + 1 < n \<longrightarrow> v (i + 1) \<noteq> val"
  proof -
    have "\<forall>k. i \<le> k \<and> k \<le> i \<longrightarrow> v k = val" using less.prems(2) by (metis le_antisym)
    then show ?thesis using that less.prems(1) by blast
  qed
  show ?case
  proof (cases "i + 1 < n")
    case True
    obtain x where x: "get_value (i + 1) h = Some x" "unat x = v (i + 1)" using hist_okD(1) [OF assms(1) True] by auto
    show ?thesis
    proof (cases "v (i + 1) = val")
      case eq: True
      have "n - (i + 1) < n - i" using True by simp
      from less.hyps [OF this True eq] obtain j where j: "i + 1 \<le> j" "bucket_up h val n (i + 1) = Some j" "j < n" "\<forall>k. i + 1 \<le> k \<and> k \<le> j \<longrightarrow> v k = val" "j + 1 < n \<longrightarrow> v (j + 1) \<noteq> val" by blast
      have "v k = val" if "i \<le> k" "k \<le> j" for k using that j(4) less.prems(2) by (cases "k = i") auto
      moreover have "bucket_up h val n i = Some j" using True x eq j(2) by (subst bucket_up.simps) simp
      ultimately show ?thesis using j(1,3,5) by (intro exI [of _ j]) simp
    next
      case False
      have "bucket_up h val n i = Some i" using True x False by (subst bucket_up.simps) simp
      then show ?thesis using False by (intro here) simp_all
    qed
  next
    case False
    have "bucket_up h val n i = Some i" using False by (subst bucket_up.simps) simp
    then show ?thesis using False by (intro here) simp_all
  qed
qed

lemma find_bucket_val_eq:
  assumes "hist_ok h n v" "0 < n"
  shows "find_bucket_val val first h = do {
     i \<leftarrow> bucket_loop (Suc n) h val 0 (int n - 1) (int (n div 2)) (n div 2);
     x \<leftarrow> get_value i h;
     let i = (if val > unat x \<and> i < n - 1 then i + 1 else i);
     x \<leftarrow> get_value i h;
     if val = unat x then if first then bucket_down h val i else bucket_up h val n i else Some i }"
proof -
  obtain w where w: "get_width h = Some w" "unat w = n" "n < 2 ^ 31" using assms(1) by (auto simp: hist_ok_def)
  have d: "unat (w div 2) = n div 2" using w(2) by (simp add: unat_div)
  have r: "sint (w - 1) = int n - 1" using w(2,3) assms(2) by (simp add: unat_minus_1 sint_unat_32)
  show ?thesis by (simp add: find_bucket_val_def Let_def w(1,2) d r del: bucket_loop.simps of_nat_unat cong: if_cong)
qed

text \<open>With two buckets a value above both bounds makes the search read a third one.\<close>

lemma find_bucket_two:
  assumes "hist_ok h 2 v" "v 1 < val"
  shows "find_bucket_val val first h = None"
proof -
  obtain x where x: "get_value 1 h = Some x" "unat x = v 1" using hist_okD(1) [OF assms(1), of 1] by auto
  have "get_value 2 h = None" by (rule hist_okD(2) [OF assms(1)]) simp
  then show ?thesis using x assms(2) by (simp add: find_bucket_val_eq [OF assms(1)] numeral_2_eq_2)
qed

text \<open>In every other case the search ends inside the array.\<close>

lemma find_bucket_inside:
  assumes "hist_ok h n v" "\<forall>i j. i \<le> j \<and> j < n \<longrightarrow> v i \<le> v j" "0 < n" "n = 2 \<longrightarrow> val \<le> v 1"
  shows "\<exists>i<n. find_bucket_val val first h = Some i \<and>
    (if \<exists>j<n. v j = val
     then v i = val \<and> (if first then \<forall>j<i. v j < val else \<forall>j. i < j \<and> j < n \<longrightarrow> val < v j)
     else (\<forall>j<i. v j < val) \<and> (val < v i \<or> i = n - 1))"
proof -
  have sorted: "i \<le> j \<Longrightarrow> j < n \<Longrightarrow> v i \<le> v j" for i j using assms(2) by blast
  have "\<exists>j. bucket_loop (Suc n) h val 0 (int n - 1) (int (n div 2)) (n div 2) = Some j \<and> stop_at n v val j"
  proof (cases "n = 2")
    case False
    then consider "n = 1" | "0 < n div 2" "n div 2 + 1 < n" using assms(3) by (cases "n = 1") auto
    then have "int (n div 2) = (int n - 1 - 0) div 2 \<or> 0 < int (n div 2) \<and> int (n div 2) < int n - 1" by cases auto
    then show ?thesis using assms(3) by (intro bucket_loop_stop [OF assms(1)]) simp_all
  next
    case True
    obtain x where x: "get_value 1 h = Some x" "unat x = v 1" using hist_okD(1) [OF assms(1), of 1] True by auto
    then show ?thesis using True assms(4) by (cases "v 1 = val") (auto simp: stop_at_def eval_nat_numeral sdiv_2)
  qed
  then obtain j where j: "bucket_loop (Suc n) h val 0 (int n - 1) (int (n div 2)) (n div 2) = Some j" "stop_at n v val j" by blast
  then have "j < n" by (simp add: stop_at_def)
  then obtain x where x: "get_value j h = Some x" "unat x = v j" using hist_okD(1) [OF assms(1)] by blast
  define i where "i = (if val > v j \<and> j < n - 1 then j + 1 else j)"
  have i: "i < n" using \<open>j < n\<close> by (auto simp: i_def)
  then obtain y where y: "get_value i h = Some y" "unat y = v i" using hist_okD(1) [OF assms(1)] by blast
  have e: "find_bucket_val val first h = (if val = v i then if first then bucket_down h val i else bucket_up h val n i else Some i)"
    using x y j(1) unfolding find_bucket_val_eq [OF assms(1,3)] Let_def i_def
    by (cases "val > v j \<and> j < n - 1") (simp_all del: bucket_loop.simps)
  show ?thesis
  proof (cases "v i = val")
    case True
    then have ex: "\<exists>j<n. v j = val" using i by blast
    show ?thesis
    proof (cases first)
      case True
      obtain k where k: "k \<le> i" "bucket_down h val i = Some k" "\<forall>l. k \<le> l \<and> l \<le> i \<longrightarrow> v l = val" "k \<noteq> 0 \<longrightarrow> v (k - 1) \<noteq> val"
        using bucket_down_first [OF assms(1) i \<open>v i = val\<close>] by blast
      have "v l < val" if "l < k" for l
      proof -
        have "v l \<le> v (k - 1)" "v (k - 1) \<le> v k" using that k(1) i by (auto intro!: sorted)
        moreover have "v k = val" "v (k - 1) \<noteq> val" using k that by auto
        ultimately show ?thesis by linarith
      qed
      then show ?thesis using True \<open>v i = val\<close> e ex k i by (intro exI [of _ k]) auto
    next
      case False
      obtain k where k: "i \<le> k" "bucket_up h val n i = Some k" "k < n" "\<forall>l. i \<le> l \<and> l \<le> k \<longrightarrow> v l = val" "k + 1 < n \<longrightarrow> v (k + 1) \<noteq> val"
        using bucket_up_last [OF assms(1) i \<open>v i = val\<close>] by blast
      have "val < v l" if "k < l" "l < n" for l
      proof -
        have "v (k + 1) \<le> v l" "v k \<le> v (k + 1)" using that by (auto intro!: sorted)
        moreover have "v k = val" "v (k + 1) \<noteq> val" using k that by auto
        ultimately show ?thesis by linarith
      qed
      then show ?thesis using False \<open>v i = val\<close> e ex k by (intro exI [of _ k]) auto
    qed
  next
    case False
    have below: "\<forall>l<i. v l < val" and above: "val < v i \<or> i = n - 1"
    proof -
      show "\<forall>l<i. v l < val"
        using j(2) False sorted i by (auto simp: i_def stop_at_def split: if_splits) (meson le_less_trans less_Suc_eq_le less_imp_le not_less)+
      show "val < v i \<or> i = n - 1" using j(2) False by (auto simp: i_def stop_at_def split: if_splits)
    qed
    have "v l \<noteq> val" if "l < n" for l 
    proof (cases "l < i")
      case outside: False
      then have "v i \<le> v l" "val < v i \<or> l = i" using sorted that above i by auto
      then show ?thesis using False by auto
    qed (use below in auto)
    then show ?thesis using False e i below above by (intro exI [of _ i]) auto
  qed
qed

text \<open>C20. \<open>find_bucket\<close> on a sorted histogram with at least one bucket. With two buckets and a value above both bounds, and only then, the search reads behind the array,
  which the assertion of \<open>get_value\<close> rejects. In all other cases it ends inside the array: at the first or the last of the bounds equal to the value as asked, otherwise at
  the first bound above the value, and at the last bucket when the value is above them all.\<close>

theorem find_bucket_correct:
  assumes "hist_ok h n v" "\<forall>i j. i \<le> j \<and> j < n \<longrightarrow> v i \<le> v j" "0 < n"
  shows "if n = 2 \<and> v 1 < val then find_bucket_val val first h = None
    else \<exists>i<n. find_bucket_val val first h = Some i \<and>
      (if \<exists>j<n. v j = val
       then v i = val \<and> (if first then \<forall>j<i. v j < val else \<forall>j. i < j \<and> j < n \<longrightarrow> val < v j)
       else (\<forall>j<i. v j < val) \<and> (val < v i \<or> i = n - 1))"
proof (cases "n = 2 \<and> v 1 < val")
  case True
  then show ?thesis using find_bucket_two [of h v val first] assms(1) by simp
next
  case False
  then have "n = 2 \<longrightarrow> val \<le> v 1" by linarith
  from find_bucket_inside [OF assms this, of first] show ?thesis by (simp only: False if_False)
qed

text \<open>An array of \<open>n\<close> bounds of one or two bytes.\<close>

definition array_ok :: "Histogram_binary \<Rightarrow> nat \<Rightarrow> bool" where
  "array_ok h n \<longleftrightarrow> n < 2 ^ 31 \<and> length (hist_values h) = unat (hist_size h) \<and>
     (hist_type h = SINGLE_PREC_HB \<and> unat (hist_size h) = n \<or> hist_type h = DOUBLE_PREC_HB \<and> unat (hist_size h) = 2 * n)"

definition bound_at :: "Histogram_binary \<Rightarrow> nat \<Rightarrow> uint" where
  "bound_at h i =
     (if hist_type h = SINGLE_PREC_HB then ucast (hist_values h ! i) else ucast (uint2korr (hist_values h ! (i * 2)) (hist_values h ! (i * 2 + 1))))"

lemma array_ok_width:
  assumes "array_ok h n"
  shows "\<exists>w. get_width h = Some w \<and> unat w = n"
proof -
  have u: "unat (ucast x :: uint) = m" if "unat x = m" "m < 2 ^ 31" for x :: ulonglong and m using that by (simp add: unsigned_ucast_eq unat_take_bit take_bit_nat_eq_self)
  show ?thesis using assms by (auto simp: array_ok_def get_width_def unat_div intro!: u)
qed

lemma array_ok_value: "array_ok h n \<Longrightarrow> i < n \<Longrightarrow> get_value i h = Some (bound_at h i)"
  using array_ok_width [of h n] by (auto simp: get_value_def bound_at_def byte_at_def array_ok_def)

lemma array_ok_hist: "array_ok h n \<Longrightarrow> hist_ok h n (\<lambda>i. unat (bound_at h i))"
  using array_ok_width [of h n] by (auto simp: hist_ok_def array_ok_value) (simp add: array_ok_def)

theorem find_bucket_correct_witness:
  "\<exists>i<5. find_bucket_val 20 True \<lparr>hist_type = SINGLE_PREC_HB, hist_size = 5, hist_values = [10, 20, 20, 20, 200]\<rparr> = Some i \<and> i = 1"
proof -
  let ?h = "\<lparr>hist_type = SINGLE_PREC_HB, hist_size = 5, hist_values = [10, 20, 20, 20, 200]\<rparr>"
  have "array_ok ?h 5" by (simp add: array_ok_def)
  note ok = array_ok_hist [OF this]
  have l: "(j :: nat) < 5 \<longleftrightarrow> j \<in> {0, 1, 2, 3, 4}" for j by auto
  have "\<forall>i j. i \<le> j \<and> j < 5 \<longrightarrow> unat (bound_at ?h i) \<le> unat (bound_at ?h j)"
  proof (intro allI impI)
    fix i j :: nat
    assume "i \<le> j \<and> j < 5"
    then have "i \<in> {0, 1, 2, 3, 4}" "j \<in> {0, 1, 2, 3, 4}" "i \<le> j" unfolding l [symmetric] by auto
    then show "unat (bound_at ?h i) \<le> unat (bound_at ?h j)" by (auto simp: bound_at_def)
  qed
  moreover have "\<exists>j<5. unat (bound_at ?h j) = 20" by (intro exI [of _ 1]) (simp add: bound_at_def)
  ultimately obtain i where i: "i < 5" "find_bucket_val 20 True ?h = Some i" and "unat (bound_at ?h i) = 20" "\<forall>j<i. unat (bound_at ?h j) < 20"
    using find_bucket_correct [OF ok, of 20 True] by auto
  then have "i = 1" using i(1) unfolding l by (auto simp: bound_at_def dest!: spec [of _ 1])
  with i show ?thesis by blast
qed

lemma put_bound:
  assumes "array_ok h n" "i < n" "hist_type h = DOUBLE_PREC_HB"
  shows "(do { h \<leftarrow> put_byte (i * 2) (int2store x ! 0) h; put_byte (i * 2 + 1) (int2store x ! 1) h }) =
      Some (h\<lparr>hist_values := (hist_values h)[i * 2 := int2store x ! 0, i * 2 + 1 := int2store x ! 1]\<rparr>)"
    "bound_at (h\<lparr>hist_values := (hist_values h)[i * 2 := int2store x ! 0, i * 2 + 1 := int2store x ! 1]\<rparr>) j = (if j = i then ucast x else bound_at h j)"
  using assms by (auto simp: array_ok_def put_byte_def bound_at_def int2store_def uint2korr_int2store nth_list_update)

definition only_at :: "nat \<Rightarrow> uint \<Rightarrow> nat \<Rightarrow> Histogram_binary \<Rightarrow> Histogram_binary \<Rightarrow> bool" where
  "only_at i x n h h' \<longleftrightarrow> array_ok h' n \<and> (\<forall>j<n. get_value j h' = (if j = i then Some x else get_value j h))"

lemma only_at_single:
  assumes "array_ok h n" "i < n" "hist_type h = SINGLE_PREC_HB"
  shows "\<exists>h'. put_byte i b h = Some h' \<and> only_at i (ucast b) n h h'"
proof -
  let ?h = "h\<lparr>hist_values := (hist_values h)[i := b]\<rparr>"
  have "array_ok ?h n" "put_byte i b h = Some ?h" using assms by (auto simp: array_ok_def put_byte_def)
  moreover have "bound_at ?h j = (if j = i then ucast b else bound_at h j)" if "j < n" for j using assms that by (auto simp: bound_at_def array_ok_def)
  ultimately show ?thesis using assms(1) by (auto simp: only_at_def array_ok_value)
qed

lemma only_at_double:
  assumes "array_ok h n" "i < n" "hist_type h = DOUBLE_PREC_HB"
  shows "\<exists>h'. (do { h \<leftarrow> put_byte (i * 2) (int2store x ! 0) h; put_byte (i * 2 + 1) (int2store x ! 1) h }) = Some h' \<and> only_at i (ucast x) n h h'"
proof -
  let ?h = "h\<lparr>hist_values := (hist_values h)[i * 2 := int2store x ! 0, i * 2 + 1 := int2store x ! 1]\<rparr>"
  have "array_ok ?h n" using assms(1) by (simp add: array_ok_def)
  then show ?thesis using put_bound [OF assms, of x] assms(1) by (auto simp: only_at_def array_ok_value)
qed

text \<open>\<open>set_value\<close> stores the fraction scaled to one or two bytes, rounded down, and \<open>get_value\<close> reads it back; \<open>set_prev_value\<close> repeats the bound before. Both change no
  other bound and stay inside the array.\<close>

theorem histogram_set_get:
  assumes "array_ok h n" "i < n" "prec_factor h = Some p" "0 \<le> rnd (val * real (unat p))" "rnd (val * real (unat p)) < real (unat p) + 1"
  shows "(\<exists>h'. set_value rnd i val h = Some h' \<and> only_at i (of_nat (nat \<lfloor>rnd (val * real (unat p))\<rfloor>)) n h h') \<and>
    (0 < i \<longrightarrow> (\<exists>h' x. set_prev_value i h = Some h' \<and> get_value (i - 1) h = Some x \<and> only_at i x n h h'))"
proof -
  define k where "k = nat \<lfloor>rnd (val * real (unat p))\<rfloor>"
  have k: "k \<le> unat p" using assms(4,5) unfolding k_def by linarith
  have t: "trunc_to m (rnd (val * real (unat p))) = Some k" if "unat p < 2 ^ m" for m
  proof -
    have "real (unat p) + 1 \<le> 2 ^ m" using that by (metis Suc_leI of_nat_Suc of_nat_le_iff of_nat_numeral of_nat_power add.commute)
    then show ?thesis using assms(4,5) by (simp add: trunc_to_def k_def)
  qed
  have c: "ucast (of_nat k :: 'a word) = (of_nat k :: uint)" if "k < 2 ^ LENGTH('a)" for t :: "'a::len itself"
    using that by (simp add: word_unat_eq_iff unsigned_ucast_eq unat_of_nat take_bit_eq_mod)
  consider (single) "hist_type h = SINGLE_PREC_HB" "unat p = 255" | (double) "hist_type h = DOUBLE_PREC_HB" "unat p = 65535"
    using assms(1,3) by (auto simp: array_ok_def prec_factor_def)
  then show ?thesis
  proof cases
    case single
    have b: "byte_at (i - 1) h = Some (hist_values h ! (i - 1))" using assms(1,2) single(1) by (auto simp: byte_at_def array_ok_def)
    have t8: "trunc_to 8 (rnd (val * real (unat p))) = Some k" by (rule t) (simp add: single(2))
    have "ucast (of_nat k :: uchar) = (of_nat k :: uint)" using k single(2) by (intro c) simp
    then show ?thesis
      using only_at_single [OF assms(1,2) single(1), of "of_nat k"] only_at_single [OF assms(1,2) single(1), of "hist_values h ! (i - 1)"]
        t8 single(1) assms(1-3) b array_ok_value [OF assms(1), of "i - 1"]
      unfolding k_def [symmetric] by (auto simp: set_value_def set_prev_value_def bound_at_def simp del: of_nat_unat)
  next
    case double
    have b: "byte_at (i * 2 - 2) h = Some (hist_values h ! ((i - 1) * 2))" "byte_at (i * 2 - 1) h = Some (hist_values h ! ((i - 1) * 2 + 1))" if "0 < i"
      using assms(1,2) double(1) that by (auto simp: byte_at_def array_ok_def diff_mult_distrib Suc_diff_Suc numeral_2_eq_2)
    have t16: "trunc_to 16 (rnd (val * real (unat p))) = Some k" by (rule t) (simp add: double(2))
    have "ucast (of_nat k :: uint16) = (of_nat k :: uint)" using k double(2) by (intro c) simp
    then show ?thesis
      using only_at_double [OF assms(1,2) double(1), of "of_nat k"]
        only_at_double [OF assms(1,2) double(1), of "uint2korr (hist_values h ! ((i - 1) * 2)) (hist_values h ! ((i - 1) * 2 + 1))"]
        t16 double(1) assms(1-3) b array_ok_value [OF assms(1), of "i - 1"]
      unfolding k_def [symmetric] by (auto simp: set_value_def set_prev_value_def bound_at_def simp del: of_nat_unat)
  qed
qed

theorem histogram_set_get_witness:
  "\<exists>h'. set_value (\<lambda>x. x) 1 (1 / 2) \<lparr>hist_type = DOUBLE_PREC_HB, hist_size = 6, hist_values = replicate 6 0\<rparr> = Some h' \<and> get_value 1 h' = Some 32767"
proof -
  let ?h = "\<lparr>hist_type = DOUBLE_PREC_HB, hist_size = 6, hist_values = replicate 6 0\<rparr>"
  have h: "array_ok ?h 3" "prec_factor ?h = Some 65535" by (simp_all add: array_ok_def prec_factor_def)
  have "\<lfloor>(1 / 2 :: real) * 65535\<rfloor> = 32767" by (simp add: floor_eq_iff)
  then show ?thesis
    using histogram_set_get [OF h(1) _ h(2), of 1 "\<lambda>x. x" "1 / 2"] by (auto simp: only_at_def)
qed

section \<open>Statistics\<close>

text \<open>The collector counts the values, the different ones and those that occur once, modulo \<open>2 ^ 64\<close>.\<close>

lemma stats_collected:
  "fold collector_next es collector_init =
     \<lparr>stat_count = (\<Sum>e\<leftarrow>es. ucast e), count_distinct = of_nat (length es), count_distinct_single_occurence = of_nat (length (filter (\<lambda>e. e = 1) es))\<rparr>"
  by (induction es rule: rev_induct) (simp_all add: collector_init_def collector_next_def Let_def)

lemma stat_is_null_bit: "stat_is_null n c \<longleftrightarrow> bit (column_stat_nulls c) n"
  by (simp add: stat_is_null_def bit_iff_and_push_bit_not_eq_0)

text \<open>The flags are bits of their own, and \<open>set_all_nulls\<close> sets those from the minimum value to the histogram.\<close>

lemma null_flags:
  assumes "n < 32"
  shows "stat_is_null m (set_null n c) \<longleftrightarrow> m = n \<or> stat_is_null m c" "stat_is_null m (set_not_null n c) \<longleftrightarrow> m \<noteq> n \<and> stat_is_null m c"
    "stat_is_null m (set_all_nulls c) \<longleftrightarrow> col_no COLUMN_STAT_MIN_VALUE \<le> m \<and> m \<le> col_no COLUMN_STAT_HISTOGRAM"
proof -
  have e: "no_values_provided_bitmap = push_bit 3 (mask 8)" by (simp add: no_values_provided_bitmap_def mask_eq_exp_minus_1)
  have "bit no_values_provided_bitmap m \<longleftrightarrow> 3 \<le> m \<and> m \<le> 10"
    unfolding e bit_push_bit_iff bit_mask_iff by (auto dest: bit_imp_le_length)
  then show "stat_is_null m (set_all_nulls c) \<longleftrightarrow> col_no COLUMN_STAT_MIN_VALUE \<le> m \<and> m \<le> col_no COLUMN_STAT_HISTOGRAM"
    by (simp add: stat_is_null_bit set_all_nulls_def)
qed (use assms in \<open>auto simp: stat_is_null_bit set_null_def set_not_null_def bit_simps dest: bit_imp_le_length\<close>)

text \<open>A ratio in range is kept to five decimals.\<close>

lemma trunc_ratio:
  assumes "0 \<le> val" "val * Scale_factor < 2 ^ m" "m \<le> LENGTH('a::len)"
  shows "\<exists>n. trunc_to m (val * Scale_factor) = Some n \<and> real (unat (of_nat n :: 'a word)) / Scale_factor \<le> val \<and>
    val < real (unat (of_nat n :: 'a word)) / Scale_factor + 1 / Scale_factor"
proof -
  let ?n = "nat \<lfloor>val * Scale_factor\<rfloor>"
  have s: "0 \<le> val * Scale_factor" using assms(1) by (simp add: Scale_factor_def)
  have "real ?n < 2 ^ m" using s assms(2) by linarith
  then have "?n < 2 ^ m" by (metis of_nat_less_iff of_nat_numeral of_nat_power)
  also have "(2::nat) ^ m \<le> 2 ^ LENGTH('a)" using assms(3) by (intro power_increasing) simp_all
  finally have "unat (of_nat ?n :: 'a word) = ?n" by (simp add: unat_of_nat)
  moreover have "real ?n \<le> val * Scale_factor" "val * Scale_factor < real ?n + 1" using s by linarith+
  ultimately show ?thesis using s assms(2) by (auto simp: trunc_to_def Scale_factor_def field_simps simp del: of_nat_unat)
qed

lemma ratio_round_trip:
  assumes "0 \<le> val"
  shows "val * Scale_factor < 2 ^ 32 \<Longrightarrow> \<exists>c'. set_nulls_ratio (\<lambda>x. x) val c = Some c' \<and> get_nulls_ratio c' \<le> val \<and> val < get_nulls_ratio c' + 1 / Scale_factor"
    "val * Scale_factor < 2 ^ 64 \<Longrightarrow> \<exists>c'. set_avg_length (\<lambda>x. x) val c = Some c' \<and> get_avg_length c' \<le> val \<and> val < get_avg_length c' + 1 / Scale_factor"
    "val * Scale_factor < 2 ^ 64 \<Longrightarrow> \<exists>c'. set_avg_frequency (\<lambda>x. x) val c = Some c' \<and> get_avg_frequency c' \<le> val \<and> val < get_avg_frequency c' + 1 / Scale_factor"
  using trunc_ratio [where 'a = 32, OF assms, of 32] trunc_ratio [where 'a = 64, OF assms, of 64]
  by (auto simp: set_nulls_ratio_def get_nulls_ratio_def set_avg_length_def get_avg_length_def set_avg_frequency_def get_avg_frequency_def)

end
