(* ===== verification/Filesort_Buffer.thy ===== *)
theory Filesort_Buffer
  imports Prelude "HOL-Library.Monad_Syntax"
begin

text \<open>
  \<open>Filesort_buffer\<close> of \<open>filesort_utils.h\<close>: records are packed from the start of the buffer, the pointers to them are written from its end towards the
  start. Pointers are byte addresses, 0 is null; \<open>ptr_mem\<close> is the memory read as pointers. \<open>alloc_sort_buffer\<close>, which is only declared, gives the state described by \<open>buffer_ok\<close>.
  \<open>m_idx\<close>, a \<open>longlong\<close>, is an integer, since it counts pointers in memory. \<^const>\<open>None\<close> is a failed assertion or an access outside the buffer.
\<close>

section \<open>The buffer\<close>

record Filesort_buffer =
  m_next_rec_ptr :: nat
  m_rawmem :: nat
  m_record_pointers :: nat
  m_sort_keys :: nat
  m_num_records :: uint
  m_record_length :: uint
  m_sort_length :: uint
  m_size_in_bytes :: ulonglong
  m_idx :: int
  ptr_mem :: "nat \<Rightarrow> nat"

definition in_buffer :: "nat \<Rightarrow> Filesort_buffer \<Rightarrow> bool" where
  "in_buffer p b \<longleftrightarrow> m_rawmem b \<noteq> 0 \<and> m_rawmem b \<le> p \<and> p + SIZEOF_PTR \<le> m_rawmem b + unat (m_size_in_bytes b)"

text \<open>Element \<open>k\<close> of an array of pointers at \<open>p\<close>.\<close>

definition elem_addr :: "nat \<Rightarrow> int \<Rightarrow> nat" where
  "elem_addr p k = nat (int p + k * int SIZEOF_PTR)"

definition read_ptr :: "nat \<Rightarrow> int \<Rightarrow> Filesort_buffer \<Rightarrow> nat option" where
  "read_ptr p k b = (if in_buffer (elem_addr p k) b then Some (ptr_mem b (elem_addr p k)) else None)"

definition write_ptr :: "nat \<Rightarrow> int \<Rightarrow> nat \<Rightarrow> Filesort_buffer \<Rightarrow> Filesort_buffer option" where
  "write_ptr p k v b = (if in_buffer (elem_addr p k) b then Some (b\<lparr>ptr_mem := (ptr_mem b)(elem_addr p k := v)\<rparr>) else None)"

definition get_sort_keys :: "Filesort_buffer \<Rightarrow> nat" where
  "get_sort_keys b = (if m_idx b = 0 then 0 else elem_addr (m_record_pointers b) (1 - m_idx b))"

text \<open>The first \<open>n\<close> rounds of the loop of \<open>reverse_record_pointers\<close>.\<close>

fun reverse_rounds :: "nat \<Rightarrow> nat \<Rightarrow> int \<Rightarrow> Filesort_buffer \<Rightarrow> Filesort_buffer option" where
  "reverse_rounds 0 keys cnt b = Some b"
| "reverse_rounds (Suc ix) keys cnt b = do {
     b \<leftarrow> reverse_rounds ix keys cnt b;
     tmp \<leftarrow> read_ptr keys (cnt - int ix) b;
     v \<leftarrow> read_ptr keys (int ix) b;
     b \<leftarrow> write_ptr keys (cnt - int ix) v b;
     write_ptr keys (int ix) tmp b }"

definition reverse_record_pointers :: "Filesort_buffer \<Rightarrow> Filesort_buffer option" where
  "reverse_record_pointers b =
     (if m_idx b < 2 then Some b
      else let keys = get_sort_keys b; cnt = m_idx b - 1 in reverse_rounds (nat (cnt div 2) + 1) keys cnt b)"

definition init_next_record_pointer :: "Filesort_buffer \<Rightarrow> Filesort_buffer" where
  "init_next_record_pointer b = b\<lparr>m_idx := 0, m_next_rec_ptr := m_rawmem b, m_sort_keys := 0\<rparr>"

definition space_used_for_data :: "Filesort_buffer \<Rightarrow> nat" where
  "space_used_for_data b = (if m_next_rec_ptr b \<noteq> 0 then m_next_rec_ptr b - m_rawmem b else 0)"

definition spaceleft :: "Filesort_buffer \<Rightarrow> ulonglong option" where
  "spaceleft b =
     (if m_next_rec_ptr b \<ge> m_rawmem b
      then let spaceused = of_nat (m_next_rec_ptr b - m_rawmem b) + of_int (m_idx b) * of_nat SIZEOF_PTR in Some (m_size_in_bytes b - spaceused)
      else None)"

definition isfull :: "Filesort_buffer \<Rightarrow> bool option" where
  "isfull b =
     (if m_idx b < int (unat (m_num_records b)) then Some False
      else do { s \<leftarrow> spaceleft b; Some (s < ucast (m_record_length b) + of_nat SIZEOF_PTR) })"

definition get_next_record_pointer :: "Filesort_buffer \<Rightarrow> (nat \<times> Filesort_buffer) option" where
  "get_next_record_pointer b = do {
     let retval = m_next_rec_ptr b;
     b \<leftarrow> write_ptr (m_record_pointers b) (- m_idx b) (m_next_rec_ptr b) b;
     Some (retval, b\<lparr>m_idx := m_idx b + 1, m_next_rec_ptr := m_next_rec_ptr b + unat (m_record_length b)\<rparr>) }"

definition adjust_next_record_pointer :: "uint \<Rightarrow> Filesort_buffer \<Rightarrow> Filesort_buffer" where
  "adjust_next_record_pointer val b = b\<lparr>m_next_rec_ptr := m_next_rec_ptr b - unat (m_record_length b - val)\<rparr>"

text \<open>The loop of \<open>init_record_pointers\<close>; fuel bounds its rounds.\<close>

fun init_pointers_loop :: "nat \<Rightarrow> Filesort_buffer \<Rightarrow> Filesort_buffer option" where
  "init_pointers_loop 0 b = None"
| "init_pointers_loop (Suc fuel) b =
     (if m_idx b < int (unat (m_num_records b)) then do { (_, b) \<leftarrow> get_next_record_pointer b; init_pointers_loop fuel b } else Some b)"

definition init_record_pointers :: "Filesort_buffer \<Rightarrow> Filesort_buffer option" where
  "init_record_pointers b = do {
     let b = init_next_record_pointer b;
     b \<leftarrow> init_pointers_loop (Suc (unat (m_num_records b))) b;
     reverse_record_pointers b }"

definition is_allocated :: "Filesort_buffer \<Rightarrow> bool" where "is_allocated b \<longleftrightarrow> m_rawmem b \<noteq> 0"

definition buffer_reset :: "Filesort_buffer \<Rightarrow> Filesort_buffer" where "buffer_reset b = b\<lparr>m_rawmem := 0\<rparr>"

definition get_sorted_record :: "nat \<Rightarrow> Filesort_buffer \<Rightarrow> nat option" where
  "get_sorted_record ix b = read_ptr (m_sort_keys b) (int ix) b"

definition get_raw_buf :: "Filesort_buffer \<Rightarrow> nat \<times> ulonglong" where "get_raw_buf b = (m_rawmem b, m_size_in_bytes b)"

section \<open>Filling the buffer\<close>

text \<open>An allocated buffer: the pointers start at its end, and the announced number of longest records fits.\<close>

definition buffer_ok :: "Filesort_buffer \<Rightarrow> bool" where
  "buffer_ok b \<longleftrightarrow> m_rawmem b \<noteq> 0 \<and> m_record_pointers b + SIZEOF_PTR = m_rawmem b + unat (m_size_in_bytes b) \<and>
     unat (m_num_records b) * (unat (m_record_length b) + SIZEOF_PTR) \<le> unat (m_size_in_bytes b)"

text \<open>The buffer holds records of the lengths \<open>rs\<close>, one behind the other, each with its pointer, and the two parts do not overlap.\<close>

definition filled :: "Filesort_buffer \<Rightarrow> nat list \<Rightarrow> bool" where
  "filled b rs \<longleftrightarrow> buffer_ok b \<and> m_idx b = int (length rs) \<and> m_next_rec_ptr b = m_rawmem b + sum_list rs \<and>
     (\<forall>r\<in>set rs. r \<le> unat (m_record_length b)) \<and> sum_list rs + length rs * SIZEOF_PTR \<le> unat (m_size_in_bytes b) \<and>
     (\<forall>i<length rs. ptr_mem b (m_record_pointers b - i * SIZEOF_PTR) = m_rawmem b + sum_list (take i rs))"

lemma filled_room:
  assumes "filled b rs" "isfull b = Some False"
  shows "sum_list rs + length rs * SIZEOF_PTR + unat (m_record_length b) + SIZEOF_PTR \<le> unat (m_size_in_bytes b)"
proof (cases "length rs < unat (m_num_records b)")
  case True
  let ?l = "unat (m_record_length b)"
  have "sum_list xs \<le> length xs * ?l" if "\<forall>r\<in>set xs. r \<le> ?l" for xs using that by (induction xs) auto
  then have "sum_list rs \<le> length rs * ?l" using assms(1) by (simp add: filled_def)
  then have "sum_list rs + length rs * SIZEOF_PTR + ?l + SIZEOF_PTR \<le> (length rs + 1) * (?l + SIZEOF_PTR)" by (simp add: algebra_simps)
  also have "\<dots> \<le> unat (m_num_records b) * (?l + SIZEOF_PTR)" using True by (intro mult_right_mono) simp_all
  also have "\<dots> \<le> unat (m_size_in_bytes b)" using assms(1) by (simp add: filled_def buffer_ok_def)
  finally show ?thesis .
next
  case False
  let ?u = "sum_list rs + length rs * SIZEOF_PTR"
  have u: "?u \<le> unat (m_size_in_bytes b)" using assms(1) by (simp add: filled_def)
  have "of_nat (m_next_rec_ptr b - m_rawmem b) + of_int (m_idx b) * of_nat SIZEOF_PTR = (of_nat ?u :: ulonglong)"
    using assms(1) by (simp add: filled_def)
  then have "\<not> m_size_in_bytes b - of_nat ?u < ucast (m_record_length b) + of_nat SIZEOF_PTR"
    using assms False by (simp add: isfull_def spaceleft_def filled_def del: of_nat_unat)
  moreover have "unat (m_size_in_bytes b - of_nat ?u) = unat (m_size_in_bytes b) - ?u"
  proof -
    have "unat (of_nat ?u :: ulonglong) = ?u" unfolding unat_of_nat using u unat_bound [of "m_size_in_bytes b"] by simp
    then show ?thesis using u by (simp add: unat_sub word_le_nat_alt)
  qed
  moreover have "unat (ucast (m_record_length b) + of_nat SIZEOF_PTR :: ulonglong) = unat (m_record_length b) + SIZEOF_PTR"
    using unat_bound [of "m_record_length b"] by (simp add: SIZEOF_PTR_def unat_word_ariths unsigned_ucast_eq take_bit_nat_eq_self)
  ultimately show ?thesis using u by (simp add: word_less_nat_alt)
qed

lemma elem_addr_back: "k * SIZEOF_PTR \<le> p \<Longrightarrow> elem_addr p (- int k) = p - k * SIZEOF_PTR"
  by (simp add: elem_addr_def flip: of_nat_mult of_nat_diff)

lemma back_inj: "i * SIZEOF_PTR \<le> p \<Longrightarrow> j * SIZEOF_PTR \<le> p \<Longrightarrow> p - i * SIZEOF_PTR = p - j * SIZEOF_PTR \<longleftrightarrow> i = j" for p :: nat
  by (auto simp: SIZEOF_PTR_def)

lemma filled_next:
  assumes "filled b rs" "sum_list rs + length rs * SIZEOF_PTR + unat (m_record_length b) + SIZEOF_PTR \<le> unat (m_size_in_bytes b)"
  shows "\<exists>b'. get_next_record_pointer b = Some (m_rawmem b + sum_list rs, b') \<and> filled b' (rs @ [unat (m_record_length b)]) \<and>
    m_record_pointers b' = m_record_pointers b \<and> m_rawmem b' = m_rawmem b \<and> m_record_length b' = m_record_length b \<and> m_num_records b' = m_num_records b"
proof -
  let ?rp = "m_record_pointers b" and ?n = "length rs"
  let ?a = "?rp - ?n * SIZEOF_PTR"
  have rp: "?rp + SIZEOF_PTR = m_rawmem b + unat (m_size_in_bytes b)" using assms(1) by (simp add: filled_def buffer_ok_def)
  have le: "m_rawmem b + ?n * SIZEOF_PTR \<le> ?rp" using rp assms(2) by linarith
  have ea: "elem_addr ?rp (- m_idx b) = ?a" using assms(1) le by (simp add: filled_def elem_addr_back)
  have "in_buffer ?a b" using assms(1) rp le by (auto simp: in_buffer_def filled_def buffer_ok_def)
  then have g: "get_next_record_pointer b = Some (m_rawmem b + sum_list rs,
      b\<lparr>ptr_mem := (ptr_mem b)(?a := m_rawmem b + sum_list rs), m_idx := m_idx b + 1, m_next_rec_ptr := m_rawmem b + sum_list rs + unat (m_record_length b)\<rparr>)"
    using assms(1) ea by (simp add: get_next_record_pointer_def write_ptr_def filled_def)
  have "?rp - i * SIZEOF_PTR = ?a \<longleftrightarrow> i = ?n" if "i \<le> ?n" for i
  proof -
    have "i * SIZEOF_PTR \<le> ?n * SIZEOF_PTR" using that by simp
    then show ?thesis using le by (intro back_inj) linarith+
  qed
  then show ?thesis using assms g by (auto simp: filled_def buffer_ok_def less_Suc_eq)
qed

text \<open>C21. While the buffer is not full the next record has room for its longest form below every pointer, including its own new one; after the record is packed to its
  length all records lie one behind the other with a pointer each, and nothing is written outside the buffer. Also more records than announced fit when they are short.\<close>

theorem sort_buffer_filled:
  assumes "filled b rs" "isfull b = Some False" "val \<le> m_record_length b"
  shows "\<exists>b'. get_next_record_pointer b = Some (m_rawmem b + sum_list rs, b') \<and> filled (adjust_next_record_pointer val b') (rs @ [unat val]) \<and>
    m_rawmem b + sum_list rs + unat (m_record_length b) \<le> m_record_pointers b' - length rs * SIZEOF_PTR"
proof -
  note room = filled_room [OF assms(1,2)]
  obtain b' where b': "get_next_record_pointer b = Some (m_rawmem b + sum_list rs, b')" "filled b' (rs @ [unat (m_record_length b)])"
    "m_record_pointers b' = m_record_pointers b" "m_rawmem b' = m_rawmem b" "m_record_length b' = m_record_length b"
    using filled_next [OF assms(1) room] by blast
  have v: "unat val \<le> unat (m_record_length b)" "unat (m_record_length b - val) = unat (m_record_length b) - unat val"
    using assms(3) by (simp_all add: word_le_nat_alt unat_sub)
  have "filled (adjust_next_record_pointer val b') (rs @ [unat val])"
    using b'(2,5) v by (auto simp: filled_def buffer_ok_def adjust_next_record_pointer_def less_Suc_eq)
  moreover have "m_record_pointers b + SIZEOF_PTR = m_rawmem b + unat (m_size_in_bytes b)" using assms(1) by (simp add: filled_def buffer_ok_def)
  then have "m_rawmem b + sum_list rs + unat (m_record_length b) \<le> m_record_pointers b - length rs * SIZEOF_PTR" using room by linarith
  ultimately show ?thesis using b'(1,3) by auto
qed

definition sample_buffer :: Filesort_buffer where
  "sample_buffer = \<lparr>m_next_rec_ptr = 1000, m_rawmem = 1000, m_record_pointers = 1048, m_sort_keys = 0, m_num_records = 2, m_record_length = 20, m_sort_length = 4,
     m_size_in_bytes = 56, m_idx = 0, ptr_mem = (\<lambda>a. 0)\<rparr>"

lemma sample_buffer_ok: "buffer_ok sample_buffer" "filled sample_buffer []"
  by (simp_all add: buffer_ok_def filled_def sample_buffer_def SIZEOF_PTR_def)

theorem sort_buffer_filled_witness:
  "\<exists>b'. get_next_record_pointer sample_buffer = Some (1000, b') \<and> filled (adjust_next_record_pointer 7 b') [7]"
  using sort_buffer_filled [OF sample_buffer_ok(2), of 7] by (auto simp: isfull_def sample_buffer_def)

section \<open>Initialising all pointers\<close>

lemma init_pointers_loop_ok:
  assumes "filled b (replicate k (unat (m_record_length b)))" "k \<le> unat (m_num_records b)" "unat (m_num_records b) - k < fuel"
  shows "\<exists>b'. init_pointers_loop fuel b = Some b' \<and> filled b' (replicate (unat (m_num_records b)) (unat (m_record_length b))) \<and>
    m_record_pointers b' = m_record_pointers b \<and> m_rawmem b' = m_rawmem b \<and> m_record_length b' = m_record_length b \<and> m_num_records b' = m_num_records b"
  using assms
proof (induction fuel arbitrary: b k)
  case (Suc fuel)
  let ?rs = "replicate k (unat (m_record_length b))"
  have idx: "m_idx b = int k" using Suc.prems(1) by (simp add: filled_def)
  show ?case
  proof (cases "k < unat (m_num_records b)")
    case True
    have "isfull b = Some False" using True idx by (simp add: isfull_def del: of_nat_unat)
    from filled_next [OF Suc.prems(1) filled_room [OF Suc.prems(1) this]]
    obtain b' where b': "get_next_record_pointer b = Some (m_rawmem b + sum_list ?rs, b')" "filled b' (?rs @ [unat (m_record_length b)])"
      "m_record_pointers b' = m_record_pointers b" "m_rawmem b' = m_rawmem b" "m_record_length b' = m_record_length b" "m_num_records b' = m_num_records b" by blast
    have "filled b' (replicate (Suc k) (unat (m_record_length b')))" using b'(2,5) by (simp add: replicate_append_same)
    moreover have "Suc k \<le> unat (m_num_records b')" "unat (m_num_records b') - Suc k < fuel" using True Suc.prems(3) b'(6) by auto
    ultimately obtain b'' where "init_pointers_loop fuel b' = Some b''" "filled b'' (replicate (unat (m_num_records b')) (unat (m_record_length b')))"
      "m_record_pointers b'' = m_record_pointers b'" "m_rawmem b'' = m_rawmem b'" "m_record_length b'' = m_record_length b'" "m_num_records b'' = m_num_records b'"
      using Suc.IH by blast
    then show ?thesis using True idx b' by (auto simp del: of_nat_unat)
  next
    case False
    then show ?thesis using Suc.prems(1,2) idx by auto
  qed
qed simp

text \<open>The sort keys are the array of the pointers read from left to right.\<close>

definition keys_ok :: "Filesort_buffer \<Rightarrow> nat \<Rightarrow> nat \<Rightarrow> bool" where
  "keys_ok b keys n \<longleftrightarrow> (\<forall>j<n. in_buffer (keys + j * SIZEOF_PTR) b)"

lemma elem_addr_fwd: "elem_addr p (int j) = p + j * SIZEOF_PTR"
  by (simp add: elem_addr_def flip: of_nat_mult of_nat_add)

lemma reverse_rounds_ok:
  assumes "keys_ok b keys (Suc c)" "k \<le> c div 2 + 1"
  shows "\<exists>m. reverse_rounds k keys (int c) b = Some (b\<lparr>ptr_mem := m\<rparr>) \<and>
    (\<forall>j\<le>c. m (keys + j * SIZEOF_PTR) = ptr_mem b (keys + (if j < k \<or> c < j + k then c - j else j) * SIZEOF_PTR))"
  using assms(2)
proof (induction k)
  case 0
  then show ?case by (intro exI [of _ "ptr_mem b"]) simp
next
  case (Suc k)
  then obtain m where m: "reverse_rounds k keys (int c) b = Some (b\<lparr>ptr_mem := m\<rparr>)"
    "\<forall>j\<le>c. m (keys + j * SIZEOF_PTR) = ptr_mem b (keys + (if j < k \<or> c < j + k then c - j else j) * SIZEOF_PTR)" by auto
  have k: "k \<le> c" "k \<le> c - k" using Suc.prems by auto
  have ck: "int c - int k = int (c - k)" using k by simp
  have in_b: "in_buffer (keys + j * SIZEOF_PTR) (b\<lparr>ptr_mem := m'\<rparr>)" if "j \<le> c" for j m'
  proof -
    have "in_buffer (keys + j * SIZEOF_PTR) b" using assms(1) that by (simp add: keys_ok_def)
    then show ?thesis by (simp add: in_buffer_def)
  qed
  have inj: "keys + i * SIZEOF_PTR = keys + j * SIZEOF_PTR \<longleftrightarrow> i = j" for i j by (simp add: SIZEOF_PTR_def)
  let ?a = "\<lambda>j. keys + j * SIZEOF_PTR"
  let ?m = "m(?a (c - k) := m (?a k), ?a k := m (?a (c - k)))"
  have "reverse_rounds (Suc k) keys (int c) b = Some (b\<lparr>ptr_mem := ?m\<rparr>)"
    using in_b [of k] in_b [of "c - k"] k(1) by (simp add: m(1) read_ptr_def write_ptr_def ck elem_addr_fwd del: of_nat_diff)
  moreover have "?m (?a j) = ptr_mem b (keys + (if j < Suc k \<or> c < j + Suc k then c - j else j) * SIZEOF_PTR)" if "j \<le> c" for j
  proof -
    have "?m (?a j) = (if j = k then m (?a (c - k)) else if j = c - k then m (?a k) else m (?a j))" unfolding fun_upd_apply inj ..
    also have "\<dots> = (if j = k then ptr_mem b (?a (c - k)) else if j = c - k then ptr_mem b (?a k) else m (?a j))" using m(2) k by auto
    also have "\<dots> = ptr_mem b (keys + (if j < Suc k \<or> c < j + Suc k then c - j else j) * SIZEOF_PTR)"
    proof (cases "j = k \<or> j = c - k")
      case False
      then have "j < Suc k \<or> c < j + Suc k \<longleftrightarrow> j < k \<or> c < j + k" using k that by auto
      then show ?thesis using False m(2) that by simp
    qed (use k in auto)
    finally show ?thesis .
  qed
  ultimately show ?case by blast
qed

text \<open>\<open>init_record_pointers\<close> ends, and the sort keys it leaves are the addresses of the records in order: key \<open>i\<close> points \<open>i\<close> record lengths behind the start of the buffer.\<close>

theorem sort_buffer_initialised:
  assumes "buffer_ok b" "i < unat (m_num_records b)"
  shows "\<exists>b'. init_record_pointers b = Some b' \<and> read_ptr (get_sort_keys b') (int i) b' = Some (m_rawmem b + i * unat (m_record_length b))"
proof -
  let ?n = "unat (m_num_records b)" and ?l = "unat (m_record_length b)"
  have "filled (init_next_record_pointer b) (replicate 0 (unat (m_record_length (init_next_record_pointer b))))"
    using assms(1) by (simp add: filled_def init_next_record_pointer_def buffer_ok_def)
  from init_pointers_loop_ok [OF this, of "Suc ?n"]
  obtain c where c: "init_pointers_loop (Suc ?n) (init_next_record_pointer b) = Some c" "filled c (replicate ?n ?l)"
    "m_record_pointers c = m_record_pointers b" "m_rawmem c = m_rawmem b" by (auto simp: init_next_record_pointer_def)
  have s: "m_record_pointers b + SIZEOF_PTR = m_rawmem b + unat (m_size_in_bytes c)" "m_rawmem b \<noteq> 0" "?n * ?l + ?n * SIZEOF_PTR \<le> unat (m_size_in_bytes c)" "m_idx c = int ?n"
    using c(2-4) by (auto simp: filled_def buffer_ok_def sum_list_replicate)
  define keys where "keys = m_record_pointers b - (?n - 1) * SIZEOF_PTR"
  have le: "m_rawmem b + (?n - 1) * SIZEOF_PTR \<le> m_record_pointers b"
  proof -
    have "?n * SIZEOF_PTR = (?n - 1) * SIZEOF_PTR + SIZEOF_PTR" using assms(2) by (cases ?n) simp_all
    then show ?thesis using s(1,3) by linarith
  qed
  have g: "get_sort_keys c = keys"
    using elem_addr_back [of "?n - 1" "m_record_pointers b"] le assms(2) c(3) s(4) by (simp add: get_sort_keys_def keys_def of_nat_diff del: of_nat_unat)
  have key: "keys + j * SIZEOF_PTR = m_record_pointers b - (?n - 1 - j) * SIZEOF_PTR" "in_buffer (keys + j * SIZEOF_PTR) c" if "j < ?n" for j
  proof -
    have "(?n - 1) * SIZEOF_PTR = (?n - 1 - j) * SIZEOF_PTR + j * SIZEOF_PTR" using that by (simp flip: add_mult_distrib)
    then show "keys + j * SIZEOF_PTR = m_record_pointers b - (?n - 1 - j) * SIZEOF_PTR" "in_buffer (keys + j * SIZEOF_PTR) c"
      using le s c(4) by (simp_all add: keys_def in_buffer_def)
  qed
  have val: "ptr_mem c (keys + j * SIZEOF_PTR) = m_rawmem b + (?n - 1 - j) * ?l" if "j < ?n" for j
    using c that by (simp add: key(1) filled_def sum_list_replicate)
  have "\<exists>m. reverse_record_pointers c = Some (c\<lparr>ptr_mem := m\<rparr>) \<and> (\<forall>j<?n. m (keys + j * SIZEOF_PTR) = m_rawmem b + j * ?l)"
  proof (cases "?n < 2")
    case True
    then show ?thesis using s(4) val assms(2) by (intro exI [of _ "ptr_mem c"]) (auto simp: reverse_record_pointers_def simp del: of_nat_unat)
  next
    case False
    have "keys_ok c keys (Suc (?n - 1))" using key(2) assms(2) by (simp add: keys_ok_def)
    from reverse_rounds_ok [OF this order_refl]
    obtain m where m: "reverse_rounds ((?n - 1) div 2 + 1) keys (int (?n - 1)) c = Some (c\<lparr>ptr_mem := m\<rparr>)"
      "\<forall>j\<le>?n - 1. m (keys + j * SIZEOF_PTR) = ptr_mem c (keys + (if j < (?n - 1) div 2 + 1 \<or> ?n - 1 < j + ((?n - 1) div 2 + 1) then ?n - 1 - j else j) * SIZEOF_PTR)" by blast
    have "m (keys + j * SIZEOF_PTR) = m_rawmem b + j * ?l" if "j < ?n" for j
    proof -
      have "j < (?n - 1) div 2 + 1 \<or> ?n - 1 < j + ((?n - 1) div 2 + 1)" by linarith
      then have "m (keys + j * SIZEOF_PTR) = ptr_mem c (keys + (?n - 1 - j) * SIZEOF_PTR)" using m(2) that by simp
      then show ?thesis using val [of "?n - 1 - j"] that by simp
    qed
    moreover have "reverse_record_pointers c = Some (c\<lparr>ptr_mem := m\<rparr>)"
    proof -
      have e: "m_idx c - 1 = int (?n - 1)" "\<not> m_idx c < 2" using False by (simp_all add: s(4) del: of_nat_unat)
      have "nat (int k div 2) = k div 2" for k by (simp add: nat_div_distrib)
      then show ?thesis using m(1) unfolding reverse_record_pointers_def Let_def g e(1) by (simp add: e(2) del: of_nat_diff of_nat_unat reverse_rounds.simps)
    qed
    ultimately show ?thesis by blast
  qed
  then obtain m where m: "reverse_record_pointers c = Some (c\<lparr>ptr_mem := m\<rparr>)" "\<forall>j<?n. m (keys + j * SIZEOF_PTR) = m_rawmem b + j * ?l" by blast
  have "init_record_pointers b = Some (c\<lparr>ptr_mem := m\<rparr>)"
    using c(1) m(1) by (simp add: init_record_pointers_def init_next_record_pointer_def del: init_pointers_loop.simps)
  moreover have "get_sort_keys (c\<lparr>ptr_mem := m\<rparr>) = keys" using g by (auto simp: get_sort_keys_def split: if_splits)
  ultimately show ?thesis using m(2) key(2) [OF assms(2)] assms(2) by (simp add: read_ptr_def elem_addr_fwd in_buffer_def)
qed

theorem sort_buffer_initialised_witness:
  "\<exists>b'. init_record_pointers sample_buffer = Some b' \<and> read_ptr (get_sort_keys b') 1 b' = Some 1020"
  using sort_buffer_initialised [OF sample_buffer_ok(1), of 1] by (simp add: sample_buffer_def)

end
