(* ===== verification/Sort_Record.thy ===== *)
theory Sort_Record
  imports Byte_Order "HOL-Library.Monad_Syntax"
begin

text \<open>
  The records of a sort, \<open>sql_sort.h\<close>, with the array view of \<open>sql_array.h\<close>: the descriptors \<open>Merge_chunk\<close>, \<open>Addon_fields\<close> and \<open>Sort_keys\<close>, and the members of
  \<open>Sort_param\<close> that find the length of a record in memory. Memory is a function from addresses to bytes, 0 is the null pointer; \<^const>\<open>None\<close> is a failed assertion. What
  \<open>Sort_param\<close> has for routines whose bodies are elsewhere (comparison functions, the setup of the lengths) is left out.
\<close>

section \<open>Array views\<close>

text \<open>\<open>Bounds_checked_array\<close>: a pointer, counted in elements, and a length. The elements are those of a memory \<open>'a\<close>.\<close>

record bounds_checked_array =
  bca_array :: nat
  bca_size :: nat

definition bca_new :: bounds_checked_array where "bca_new = \<lparr>bca_array = 0, bca_size = 0\<rparr>"

definition bca_make :: "nat \<Rightarrow> nat \<Rightarrow> bounds_checked_array" where "bca_make el size_arg = \<lparr>bca_array = el, bca_size = size_arg\<rparr>"

definition bca_reset :: "bounds_checked_array \<Rightarrow> bounds_checked_array" where "bca_reset a = a\<lparr>bca_array := 0, bca_size := 0\<rparr>"

definition bca_reset_to :: "nat \<Rightarrow> nat \<Rightarrow> bounds_checked_array \<Rightarrow> bounds_checked_array" where
  "bca_reset_to array_arg size_arg a = a\<lparr>bca_array := array_arg, bca_size := size_arg\<rparr>"

definition bca_resize :: "nat \<Rightarrow> bounds_checked_array \<Rightarrow> bounds_checked_array option" where
  "bca_resize new_size a = (if new_size \<le> bca_size a then Some (a\<lparr>bca_size := new_size\<rparr>) else None)"

definition bca_at :: "(nat \<Rightarrow> 'a) \<Rightarrow> bounds_checked_array \<Rightarrow> nat \<Rightarrow> 'a option" where
  "bca_at mem a n = (if n < bca_size a then Some (mem (bca_array a + n)) else None)"

definition bca_is_null :: "bounds_checked_array \<Rightarrow> bool" where "bca_is_null a \<longleftrightarrow> bca_array a = 0"

definition bca_pop_front :: "bounds_checked_array \<Rightarrow> bounds_checked_array option" where
  "bca_pop_front a = (if bca_size a > 0 then Some (a\<lparr>bca_array := bca_array a + 1, bca_size := bca_size a - 1\<rparr>) else None)"

definition bca_begin :: "bounds_checked_array \<Rightarrow> nat" where "bca_begin a = bca_array a"

definition bca_end :: "bounds_checked_array \<Rightarrow> nat" where "bca_end a = bca_array a + bca_size a"

definition bca_equal :: "bounds_checked_array \<Rightarrow> bounds_checked_array \<Rightarrow> bool" where
  "bca_equal a rhs \<longleftrightarrow> bca_array a = bca_array rhs \<and> bca_size a = bca_size rhs"

definition bca_not_equal :: "bounds_checked_array \<Rightarrow> bounds_checked_array \<Rightarrow> bool" where
  "bca_not_equal a rhs \<longleftrightarrow> bca_array a \<noteq> bca_array rhs \<or> bca_size a \<noteq> bca_size rhs"

section \<open>Chunks of a merge\<close>

record Merge_chunk =
  m_current_key :: nat
  m_file_position :: ulonglong
  m_buffer_start :: nat
  m_buffer_end :: nat
  m_rowcount :: ulonglong
  m_mem_count :: ulonglong
  m_max_keys :: ulonglong

definition chunk_new :: Merge_chunk where
  "chunk_new = \<lparr>m_current_key = 0, m_file_position = 0, m_buffer_start = 0, m_buffer_end = 0, m_rowcount = 0, m_mem_count = 0, m_max_keys = 0\<rparr>"

definition set_file_position :: "ulonglong \<Rightarrow> Merge_chunk \<Rightarrow> Merge_chunk" where "set_file_position val c = c\<lparr>m_file_position := val\<rparr>"

definition advance_file_position :: "ulonglong \<Rightarrow> Merge_chunk \<Rightarrow> Merge_chunk" where
  "advance_file_position val c = c\<lparr>m_file_position := m_file_position c + val\<rparr>"

definition set_chunk_buffer :: "nat \<Rightarrow> nat \<Rightarrow> Merge_chunk \<Rightarrow> Merge_chunk" where
  "set_chunk_buffer start fin c = c\<lparr>m_buffer_start := start, m_buffer_end := fin\<rparr>"

definition set_buffer_start :: "nat \<Rightarrow> Merge_chunk \<Rightarrow> Merge_chunk" where "set_buffer_start start c = c\<lparr>m_buffer_start := start\<rparr>"

definition set_buffer_end :: "nat \<Rightarrow> Merge_chunk \<Rightarrow> Merge_chunk option" where
  "set_buffer_end fin c = (if m_buffer_end c = 0 \<or> fin \<le> m_buffer_end c then Some (c\<lparr>m_buffer_end := fin\<rparr>) else None)"

definition init_current_key :: "Merge_chunk \<Rightarrow> Merge_chunk" where "init_current_key c = c\<lparr>m_current_key := m_buffer_start c\<rparr>"

definition advance_current_key :: "uint \<Rightarrow> Merge_chunk \<Rightarrow> Merge_chunk" where
  "advance_current_key val c = c\<lparr>m_current_key := m_current_key c + unat val\<rparr>"

definition decrement_rowcount :: "ulonglong \<Rightarrow> Merge_chunk \<Rightarrow> Merge_chunk" where "decrement_rowcount val c = c\<lparr>m_rowcount := m_rowcount c - val\<rparr>"

definition set_rowcount :: "ulonglong \<Rightarrow> Merge_chunk \<Rightarrow> Merge_chunk" where "set_rowcount val c = c\<lparr>m_rowcount := val\<rparr>"

definition set_mem_count :: "ulonglong \<Rightarrow> Merge_chunk \<Rightarrow> Merge_chunk" where "set_mem_count val c = c\<lparr>m_mem_count := val\<rparr>"

definition decrement_mem_count :: "Merge_chunk \<Rightarrow> ulonglong \<times> Merge_chunk" where
  "decrement_mem_count c = (m_mem_count c - 1, c\<lparr>m_mem_count := m_mem_count c - 1\<rparr>)"

definition set_max_keys :: "ulonglong \<Rightarrow> Merge_chunk \<Rightarrow> Merge_chunk" where "set_max_keys val c = c\<lparr>m_max_keys := val\<rparr>"

definition chunk_buffer_size :: "Merge_chunk \<Rightarrow> nat" where "chunk_buffer_size c = m_buffer_end c - m_buffer_start c"

text \<open>\<open>this\<close> is no longer used and hands its space over to \<open>mc\<close>.\<close>

definition merge_freed_buff :: "Merge_chunk \<Rightarrow> Merge_chunk \<Rightarrow> bool \<times> Merge_chunk" where
  "merge_freed_buff this mc =
     (if m_buffer_end mc = m_buffer_start this
      then (True, mc\<lparr>m_buffer_end := m_buffer_end this, m_max_keys := m_max_keys mc + m_max_keys this\<rparr>)
      else if m_buffer_start mc = m_buffer_end this
      then (True, mc\<lparr>m_buffer_start := m_buffer_start this, m_max_keys := m_max_keys mc + m_max_keys this\<rparr>)
      else (False, mc))"

section \<open>Addon fields and sort keys\<close>

record Addon_fields =
  m_field_descriptors :: bounds_checked_array
  m_addon_buf :: nat
  m_addon_buf_length :: uint
  m_af_packed :: bool

definition addon_fields_new :: "bounds_checked_array \<Rightarrow> Addon_fields option" where
  "addon_fields_new arr =
     (if bca_is_null arr then None else Some \<lparr>m_field_descriptors = arr, m_addon_buf = 0, m_addon_buf_length = 0, m_af_packed = False\<rparr>)"

text \<open>\<open>malloc\<close> is the address \<open>my_malloc\<close> returns, 0 when it fails.\<close>

definition allocate_addon_buf :: "(uint \<Rightarrow> nat) \<Rightarrow> uint \<Rightarrow> Addon_fields \<Rightarrow> nat \<times> Addon_fields" where
  "allocate_addon_buf malloc sz a =
     (let a = a\<lparr>m_addon_buf := malloc sz\<rparr>;
          a = (if m_addon_buf a \<noteq> 0 then a\<lparr>m_addon_buf_length := sz\<rparr> else a)
      in (m_addon_buf a, a))"

text \<open>The first component is the address given to \<open>my_free\<close>.\<close>

definition free_addon_buff :: "Addon_fields \<Rightarrow> nat \<times> Addon_fields" where
  "free_addon_buff a = (m_addon_buf a, a\<lparr>m_addon_buf := 0, m_addon_buf_length := 0\<rparr>)"

definition set_using_packed_addons :: "bool \<Rightarrow> Addon_fields \<Rightarrow> Addon_fields" where "set_using_packed_addons val a = a\<lparr>m_af_packed := val\<rparr>"

definition can_pack_addon_fields :: "uint \<Rightarrow> bool" where "can_pack_addon_fields record_length \<longleftrightarrow> record_length \<le> 0xFFFF"

definition addon_size_of_length_field :: uint where "addon_size_of_length_field = 2"

definition read_addon_length :: "bytes_mem \<Rightarrow> nat \<Rightarrow> uint" where
  "read_addon_length m p = addon_size_of_length_field + ucast (uint2korr_at m p)"

definition store_addon_length :: "nat \<Rightarrow> uint \<Rightarrow> bytes_mem \<Rightarrow> bytes_mem" where
  "store_addon_length p sz m = int2store_at p (sz - addon_size_of_length_field) m"

record Sort_keys =
  sk_array :: bounds_checked_array
  m_sk_packed :: bool
  size_of_packable_fields :: uint
  sort_length_with_original_values :: uint
  sort_length_with_memcmp_values :: uint
  parameters_computed :: bool

definition sort_keys_new :: "nat \<Rightarrow> nat \<Rightarrow> Sort_keys option" where
  "sort_keys_new arr cnt =
     (let a = bca_make arr cnt
      in if bca_is_null a then None
         else Some \<lparr>sk_array = a, m_sk_packed = False, size_of_packable_fields = 0, sort_length_with_original_values = 0,
           sort_length_with_memcmp_values = 0, parameters_computed = False\<rparr>)"

definition set_using_packed_sortkeys :: "bool \<Rightarrow> Sort_keys \<Rightarrow> Sort_keys" where "set_using_packed_sortkeys val k = k\<lparr>m_sk_packed := val\<rparr>"

definition set_size_of_packable_fields :: "uint \<Rightarrow> Sort_keys \<Rightarrow> Sort_keys" where "set_size_of_packable_fields len k = k\<lparr>size_of_packable_fields := len\<rparr>"

definition set_sort_length_with_original_values :: "uint \<Rightarrow> Sort_keys \<Rightarrow> Sort_keys" where
  "set_sort_length_with_original_values len k = k\<lparr>sort_length_with_original_values := len\<rparr>"

definition set_sort_length_with_memcmp_values :: "uint \<Rightarrow> Sort_keys \<Rightarrow> Sort_keys" where
  "set_sort_length_with_memcmp_values len k = k\<lparr>sort_length_with_memcmp_values := len\<rparr>"

definition increment_size_of_packable_fields :: "uint \<Rightarrow> Sort_keys \<Rightarrow> Sort_keys" where
  "increment_size_of_packable_fields len k = k\<lparr>size_of_packable_fields := size_of_packable_fields k + len\<rparr>"

definition increment_original_sort_length :: "uint \<Rightarrow> Sort_keys \<Rightarrow> Sort_keys" where
  "increment_original_sort_length len k = k\<lparr>sort_length_with_original_values := sort_length_with_original_values k + len\<rparr>"

definition set_parameters_computed :: "bool \<Rightarrow> Sort_keys \<Rightarrow> Sort_keys" where "set_parameters_computed val k = k\<lparr>parameters_computed := val\<rparr>"

definition sortkey_size_of_length_field :: uint where "sortkey_size_of_length_field = 4"

definition store_sortkey_length :: "nat \<Rightarrow> uint \<Rightarrow> bytes_mem \<Rightarrow> bytes_mem" where
  "store_sortkey_length p sz m = int4store p (sz - sortkey_size_of_length_field) m"

definition read_sortkey_length :: "bytes_mem \<Rightarrow> nat \<Rightarrow> uint" where
  "read_sortkey_length m p = sortkey_size_of_length_field + uint4korr m p"

section \<open>The parameters of a sort\<close>

record Sort_param =
  rec_length :: uint
  sp_sort_length :: uint
  addon_length :: uint
  res_length :: uint
  addon_fields :: "Addon_fields option"
  sort_keys :: "Sort_keys option"
  m_using_packed_addons :: bool
  m_using_packed_sortkeys :: bool
  m_packed_format :: bool

definition using_packed_addons :: "Sort_param \<Rightarrow> bool option" where
  "using_packed_addons sp =
     (if m_using_packed_addons sp = (case addon_fields sp of None \<Rightarrow> False | Some a \<Rightarrow> m_af_packed a) then Some (m_using_packed_addons sp) else None)"

definition using_packed_sortkeys :: "Sort_param \<Rightarrow> bool option" where
  "using_packed_sortkeys sp =
     (if m_using_packed_sortkeys sp = (case sort_keys sp of None \<Rightarrow> False | Some k \<Rightarrow> m_sk_packed k) then Some (m_using_packed_sortkeys sp) else None)"

definition using_addon_fields :: "Sort_param \<Rightarrow> bool" where "using_addon_fields sp \<longleftrightarrow> addon_fields sp \<noteq> None"

definition get_result_length :: "bytes_mem \<Rightarrow> nat \<Rightarrow> Sort_param \<Rightarrow> uint" where
  "get_result_length m plen sp = (if \<not> m_using_packed_addons sp then res_length sp else read_addon_length m plen)"

definition get_addon_length :: "bytes_mem \<Rightarrow> nat \<Rightarrow> Sort_param \<Rightarrow> uint option" where
  "get_addon_length m plen sp = do { packed \<leftarrow> using_packed_addons sp; Some (if packed then read_addon_length m plen else addon_length sp) }"

definition get_sort_length :: "bytes_mem \<Rightarrow> nat \<Rightarrow> Sort_param \<Rightarrow> uint option" where
  "get_sort_length m plen sp = do {
     packed \<leftarrow> using_packed_sortkeys sp;
     Some (if packed then read_sortkey_length m plen + (if using_addon_fields sp then 0 else res_length sp) else sp_sort_length sp) }"

definition get_record_length :: "bytes_mem \<Rightarrow> nat \<Rightarrow> Sort_param \<Rightarrow> uint option" where
  "get_record_length m plen sp =
     (if m_packed_format sp
      then do { sort_len \<leftarrow> get_sort_length m plen sp; addon_len \<leftarrow> get_addon_length m (plen + unat sort_len) sp; Some (sort_len + addon_len) }
      else Some (rec_length sp))"

definition get_rec_and_res_len :: "bytes_mem \<Rightarrow> nat \<Rightarrow> Sort_param \<Rightarrow> (uint \<times> uint) option" where
  "get_rec_and_res_len m record_start sp =
     (if m_packed_format sp
      then do {
        sort_len \<leftarrow> get_sort_length m record_start sp;
        addon_len \<leftarrow> get_addon_length m (record_start + unat sort_len) sp;
        Some (sort_len + addon_len, if using_addon_fields sp then addon_len else res_length sp) }
      else Some (rec_length sp, res_length sp))"


section \<open>Views of arrays\<close>

definition bca_view :: "(nat \<Rightarrow> 'a) \<Rightarrow> bounds_checked_array \<Rightarrow> 'a list" where
  "bca_view mem a = map mem [bca_begin a..<bca_end a]"

lemma bca_view_ops:
  "bca_at mem a n = (if n < length (bca_view mem a) then Some (bca_view mem a ! n) else None)"
  "bca_pop_front a = Some a' \<Longrightarrow> bca_view mem a \<noteq> [] \<and> bca_view mem a' = tl (bca_view mem a)"
  "bca_resize k a = Some a' \<Longrightarrow> bca_view mem a' = take k (bca_view mem a)"
  "bca_equal a b \<longleftrightarrow> a = b" "bca_not_equal a b \<longleftrightarrow> a \<noteq> b"
  by (auto simp: bca_view_def bca_at_def bca_pop_front_def bca_resize_def bca_begin_def bca_end_def bca_equal_def bca_not_equal_def take_map
      take_upt bounds_checked_array.equality simp flip: map_tl split: if_splits)

section \<open>Handing over buffers\<close>

definition chunk_region :: "Merge_chunk \<Rightarrow> nat set" where "chunk_region c = {m_buffer_start c..<m_buffer_end c}"

text \<open>The buffer lies in the address space and has room for the number of records of length \<open>r\<close> it announces.\<close>

definition chunk_ok :: "nat \<Rightarrow> Merge_chunk \<Rightarrow> bool" where
  "chunk_ok r c \<longleftrightarrow> m_buffer_start c \<le> m_buffer_end c \<and> m_buffer_end c < 2 ^ 64 \<and> unat (m_max_keys c) * r \<le> chunk_buffer_size c"

lemma chunk_keys_add:
  assumes "chunk_ok r a" "chunk_ok r b" "m_buffer_end a = m_buffer_start b" "0 < r"
  shows "unat (m_max_keys a + m_max_keys b) * r \<le> m_buffer_end b - m_buffer_start a"
    "unat (m_max_keys a + m_max_keys b) = unat (m_max_keys a) + unat (m_max_keys b)"
proof -
  have s: "(unat (m_max_keys a) + unat (m_max_keys b)) * r \<le> m_buffer_end b - m_buffer_start a"
    using assms by (simp add: chunk_ok_def chunk_buffer_size_def add_mult_distrib) linarith
  moreover have "unat (m_max_keys a) + unat (m_max_keys b) \<le> (unat (m_max_keys a) + unat (m_max_keys b)) * r" using assms(4) by simp
  moreover have "m_buffer_end b < 2 ^ 64" using assms(2) by (simp add: chunk_ok_def)
  ultimately have "unat (m_max_keys a) + unat (m_max_keys b) < 2 ^ 64" by linarith
  then show e: "unat (m_max_keys a + m_max_keys b) = unat (m_max_keys a) + unat (m_max_keys b)" by (simp add: unat_word_ariths)
  show "unat (m_max_keys a + m_max_keys b) * r \<le> m_buffer_end b - m_buffer_start a" using s by (simp add: e)
qed

text \<open>C38. A chunk that is no longer used hands its buffer over exactly when the buffers of the two chunks meet: then the buffer of the other chunk covers both
  and nothing else, the numbers of records add up without wrapping, and they still fit; otherwise the other chunk does not change.
\<close>

theorem merge_freed_buff_correct:
  assumes "chunk_ok r this" "chunk_ok r mc" "0 < r"
  shows "\<exists>mc'. merge_freed_buff this mc = (m_buffer_end mc = m_buffer_start this \<or> m_buffer_start mc = m_buffer_end this, mc') \<and>
    (if m_buffer_end mc = m_buffer_start this \<or> m_buffer_start mc = m_buffer_end this
     then chunk_region mc' = chunk_region mc \<union> chunk_region this \<and> chunk_buffer_size mc' = chunk_buffer_size mc + chunk_buffer_size this \<and>
       unat (m_max_keys mc') = unat (m_max_keys mc) + unat (m_max_keys this) \<and> chunk_ok r mc' \<and>
       m_current_key mc' = m_current_key mc \<and> m_mem_count mc' = m_mem_count mc
     else mc' = mc)"
proof -
  have b: "m_buffer_start this \<le> m_buffer_end this" "m_buffer_start mc \<le> m_buffer_end mc" "m_buffer_end this < 2 ^ 64" "m_buffer_end mc < 2 ^ 64"
    using assms(1,2) by (simp_all add: chunk_ok_def)
  consider (low) "m_buffer_end mc = m_buffer_start this" | (high) "m_buffer_end mc \<noteq> m_buffer_start this" "m_buffer_start mc = m_buffer_end this"
    | (apart) "m_buffer_end mc \<noteq> m_buffer_start this" "m_buffer_start mc \<noteq> m_buffer_end this" by blast
  then show ?thesis
  proof cases
    case low
    note k = chunk_keys_add [OF assms(2,1) low assms(3)]
    from low k b show ?thesis by (auto simp: merge_freed_buff_def chunk_region_def chunk_buffer_size_def chunk_ok_def)
  next
    case high
    note k = chunk_keys_add [OF assms(1,2) high(2) [symmetric] assms(3)]
    from high k b show ?thesis by (auto simp: merge_freed_buff_def chunk_region_def chunk_buffer_size_def chunk_ok_def add.commute)
  next
    case apart
    then show ?thesis by (simp add: merge_freed_buff_def)
  qed
qed

definition sample_chunk :: "nat \<Rightarrow> nat \<Rightarrow> ulonglong \<Rightarrow> Merge_chunk" where
  "sample_chunk s e k = chunk_new\<lparr>m_buffer_start := s, m_buffer_end := e, m_max_keys := k\<rparr>"

theorem merge_freed_buff_correct_witness:
  "\<exists>mc'. merge_freed_buff (sample_chunk 100 140 4) (sample_chunk 140 160 2) = (True, mc') \<and> chunk_region mc' = {100..<160}"
proof -
  have "chunk_ok 10 (sample_chunk 100 140 4)" "chunk_ok 10 (sample_chunk 140 160 2)"
    by (simp_all add: chunk_ok_def sample_chunk_def chunk_new_def chunk_buffer_size_def)
  from merge_freed_buff_correct [OF this] show ?thesis
    by (auto simp: sample_chunk_def chunk_new_def chunk_region_def)
qed


section \<open>Length fields\<close>

lemma sortkey_length_round_trip: "read_sortkey_length (store_sortkey_length p sz m) p = sz"
  by (simp add: read_sortkey_length_def store_sortkey_length_def uint4korr_store)

lemma unat_read_addon: "unat (read_addon_length m p) = 2 + unat (uint2korr_at m p)"
proof -
  have "unat (uint2korr_at m p) < 2 ^ 16" using unat_bound [of "uint2korr_at m p"] by simp
  then show ?thesis by (simp add: read_addon_length_def addon_size_of_length_field_def unat_word_ariths unsigned_ucast_eq take_bit_nat_eq_self)
qed

text \<open>The length field of the addon fields has two bytes, so that only lengths up to 65537 are read back.\<close>

lemma addon_length_round_trip:
  assumes "2 \<le> unat sz"
  shows "read_addon_length (store_addon_length p sz m) p = sz \<longleftrightarrow> unat sz \<le> 2 + 0xFFFF"
proof -
  have s: "unat (sz - 2) = unat sz - 2" using assms by (simp add: unat_sub word_le_nat_alt)
  have "unat (read_addon_length (store_addon_length p sz m) p) = 2 + (unat sz - 2) mod 2 ^ 16"
    by (simp add: unat_read_addon store_addon_length_def addon_size_of_length_field_def uint2korr_store unsigned_ucast_eq s take_bit_eq_mod)
  also have "2 + (unat sz - 2) mod 2 ^ 16 = unat sz \<longleftrightarrow> unat sz \<le> 2 + 0xFFFF"
  proof
    assume "2 + (unat sz - 2) mod 2 ^ 16 = unat sz"
    moreover have "(unat sz - 2) mod 2 ^ 16 \<le> 0xFFFF" using mod_less_divisor [of "2 ^ 16" "unat sz - 2"] by simp
    ultimately show "unat sz \<le> 2 + 0xFFFF" by linarith
  qed (use assms in simp)
  finally show ?thesis by (metis word_unat_eq_iff)
qed

lemma can_pack_round_trip: "2 \<le> unat sz \<Longrightarrow> can_pack_addon_fields sz \<Longrightarrow> read_addon_length (store_addon_length p sz m) p = sz"
  by (simp add: addon_length_round_trip can_pack_addon_fields_def word_le_nat_alt)

section \<open>Records in memory\<close>

text \<open>
  The lengths of a record by the layout the header documents: \<open>k\<close> bytes of packed sort key with its length field, \<open>a\<close> bytes of packed addon fields with theirs. A record
  without addon fields carries the row reference, of \<open>res_length\<close> bytes, behind its key.
\<close>

definition sort_part :: "Sort_param \<Rightarrow> nat \<Rightarrow> nat" where
  "sort_part sp k = (if m_using_packed_sortkeys sp then k + (if using_addon_fields sp then 0 else unat (res_length sp)) else unat (sp_sort_length sp))"

definition addon_part :: "Sort_param \<Rightarrow> nat \<Rightarrow> nat" where
  "addon_part sp a = (if m_using_packed_addons sp then a else unat (addon_length sp))"

definition record_size :: "Sort_param \<Rightarrow> nat \<times> nat \<Rightarrow> nat" where "record_size sp r = sort_part sp (fst r) + addon_part sp (snd r)"

text \<open>The record at \<open>p\<close> has its length fields in place: storing them again changes nothing.\<close>

definition record_in :: "Sort_param \<Rightarrow> bytes_mem \<Rightarrow> nat \<Rightarrow> nat \<times> nat \<Rightarrow> bool" where
  "record_in sp m p r \<longleftrightarrow> record_size sp r < 2 ^ 32 \<and>
     (m_using_packed_sortkeys sp \<longrightarrow> store_sortkey_length p (of_nat (fst r)) m = m) \<and>
     (m_using_packed_addons sp \<longrightarrow> 2 \<le> snd r \<and> can_pack_addon_fields (of_nat (snd r)) \<and> store_addon_length (p + sort_part sp (fst r)) (of_nat (snd r)) m = m)"

text \<open>The cached flags agree with the descriptors, and a fixed record has the length the member \<open>rec_length\<close> promises.\<close>

definition param_ok :: "Sort_param \<Rightarrow> bool" where
  "param_ok sp \<longleftrightarrow> using_packed_addons sp \<noteq> None \<and> using_packed_sortkeys sp \<noteq> None \<and>
     m_packed_format sp = (m_using_packed_addons sp \<or> m_using_packed_sortkeys sp) \<and>
     (\<not> m_packed_format sp \<longrightarrow> unat (rec_length sp) = unat (sp_sort_length sp) + unat (addon_length sp))"

lemma param_ok_flags:
  assumes "param_ok sp"
  shows "using_packed_addons sp = Some (m_using_packed_addons sp)" "using_packed_sortkeys sp = Some (m_using_packed_sortkeys sp)"
  using assms by (auto simp: param_ok_def using_packed_addons_def using_packed_sortkeys_def split: if_splits)

lemma get_sort_length_in:
  assumes "param_ok sp" "record_in sp m p r"
  shows "get_sort_length m p sp = Some (of_nat (sort_part sp (fst r)))"
proof -
  have "read_sortkey_length m p = of_nat (fst r)" if "m_using_packed_sortkeys sp"
    using sortkey_length_round_trip [of p "of_nat (fst r)" m] assms(2) that by (simp add: record_in_def)
  then show ?thesis by (simp add: get_sort_length_def param_ok_flags [OF assms(1)] sort_part_def)
qed

lemma get_addon_length_in:
  assumes "param_ok sp" "record_in sp m p r"
  shows "get_addon_length m (p + sort_part sp (fst r)) sp = Some (of_nat (addon_part sp (snd r)))"
proof -
  have "read_addon_length m (p + sort_part sp (fst r)) = of_nat (snd r)" if pk: "m_using_packed_addons sp"
  proof -
    have "snd r < 2 ^ 32" using assms(2) pk by (simp add: record_in_def record_size_def addon_part_def)
    then have "unat (of_nat (snd r) :: uint) = snd r" by (simp add: unat_of_nat)
    then show ?thesis using can_pack_round_trip [of "of_nat (snd r)" "p + sort_part sp (fst r)" m] assms(2) pk by (simp add: record_in_def)
  qed
  then show ?thesis by (simp add: get_addon_length_def param_ok_flags [OF assms(1)] addon_part_def)
qed

lemma record_lengths:
  assumes "param_ok sp" "record_in sp m p r"
  shows "get_record_length m p sp = Some (of_nat (record_size sp r))"
    "get_rec_and_res_len m p sp =
       Some (of_nat (record_size sp r), if m_packed_format sp \<and> using_addon_fields sp then of_nat (addon_part sp (snd r)) else res_length sp)"
proof -
  have "sort_part sp (fst r) < 2 ^ 32" using assms(2) by (simp add: record_in_def record_size_def)
  then have u: "unat (of_nat (sort_part sp (fst r)) :: uint) = sort_part sp (fst r)" by (simp add: unat_of_nat)
  have f: "rec_length sp = of_nat (record_size sp r)" if "\<not> m_packed_format sp"
  proof -
    have e: "record_size sp r = unat (rec_length sp)"
      using assms(1) that by (auto simp: param_ok_def record_size_def sort_part_def addon_part_def)
    then show ?thesis by (simp add: e)
  qed
  show "get_record_length m p sp = Some (of_nat (record_size sp r))"
    "get_rec_and_res_len m p sp =
       Some (of_nat (record_size sp r), if m_packed_format sp \<and> using_addon_fields sp then of_nat (addon_part sp (snd r)) else res_length sp)"
    using get_sort_length_in [OF assms] get_addon_length_in [OF assms] u f
    by (simp_all add: get_record_length_def get_rec_and_res_len_def record_size_def)
qed

text \<open>Records one behind the other, and a merge that reads the first \<open>n\<close> keys of a chunk.\<close>

fun records_in :: "Sort_param \<Rightarrow> bytes_mem \<Rightarrow> nat \<Rightarrow> (nat \<times> nat) list \<Rightarrow> bool" where
  "records_in sp m p [] \<longleftrightarrow> True"
| "records_in sp m p (r # rs) \<longleftrightarrow> record_in sp m p r \<and> records_in sp m (p + record_size sp r) rs"

fun read_keys :: "nat \<Rightarrow> Sort_param \<Rightarrow> bytes_mem \<Rightarrow> Merge_chunk \<Rightarrow> (nat list \<times> Merge_chunk) option" where
  "read_keys 0 sp m c = Some ([], c)"
| "read_keys (Suc n) sp m c = do {
     len \<leftarrow> get_record_length m (m_current_key c) sp;
     (ks, c') \<leftarrow> read_keys n sp m (snd (decrement_mem_count (advance_current_key len c)));
     Some (m_current_key c # ks, c') }"

fun starts :: "Sort_param \<Rightarrow> nat \<Rightarrow> (nat \<times> nat) list \<Rightarrow> nat list" where
  "starts sp p [] = []"
| "starts sp p (r # rs) = p # starts sp (p + record_size sp r) rs"

lemma read_keys_in:
  assumes "param_ok sp" "records_in sp m (m_current_key c) rs"
  shows "read_keys (length rs) sp m c =
    Some (starts sp (m_current_key c) rs,
      c\<lparr>m_current_key := m_current_key c + sum_list (map (record_size sp) rs), m_mem_count := m_mem_count c - of_nat (length rs)\<rparr>)"
  using assms(2)
proof (induction rs arbitrary: c)
  case (Cons r rs)
  have r: "record_in sp m (m_current_key c) r" "records_in sp m (m_current_key c + record_size sp r) rs" using Cons.prems by simp_all
  then have u: "unat (of_nat (record_size sp r) :: uint) = record_size sp r" by (simp add: record_in_def unat_of_nat)
  let ?c = "snd (decrement_mem_count (advance_current_key (of_nat (record_size sp r)) c))"
  have k: "m_current_key ?c = m_current_key c + record_size sp r" "m_mem_count ?c = m_mem_count c - 1" "?c\<lparr>m_current_key := x, m_mem_count := y\<rparr> = c\<lparr>m_current_key := x, m_mem_count := y\<rparr>" for x y
    by (simp_all add: decrement_mem_count_def advance_current_key_def u)
  have "read_keys (length rs) sp m ?c =
      Some (starts sp (m_current_key ?c) rs, ?c\<lparr>m_current_key := m_current_key ?c + sum_list (map (record_size sp) rs), m_mem_count := m_mem_count ?c - of_nat (length rs)\<rparr>)"
    using r(2) k(1) by (intro Cons.IH) simp
  then show ?case unfolding k using record_lengths(1) [OF assms(1) r(1)] by (simp add: algebra_simps)
qed simp


text \<open>C15. A merge finds the records of a chunk in every format, with packed or fixed sort keys and packed, fixed or no addon fields: from the start of its buffer, with as many
  records in memory as announced, advancing by \<open>get_record_length\<close> visits the start of every record, ends behind the last one and counts down to 0; and at each
  record \<open>get_rec_and_res_len\<close> gives its length and that of its result.
\<close>

theorem sort_records_found:
  assumes "param_ok sp" "records_in sp m (m_buffer_start c) rs" "m_mem_count c = of_nat (length rs)"
  shows "(\<exists>c'. read_keys (length rs) sp m (init_current_key c) = Some (starts sp (m_buffer_start c) rs, c') \<and>
      m_current_key c' = m_buffer_start c + sum_list (map (record_size sp) rs) \<and> m_mem_count c' = 0 \<and> chunk_region c' = chunk_region c) \<and>
    (\<forall>i<length rs. get_rec_and_res_len m (starts sp (m_buffer_start c) rs ! i) sp =
       Some (of_nat (record_size sp (rs ! i)), if m_packed_format sp \<and> using_addon_fields sp then of_nat (addon_part sp (snd (rs ! i))) else res_length sp))"
proof
  have i: "m_current_key (init_current_key c) = m_buffer_start c" "m_mem_count (init_current_key c) = m_mem_count c" by (simp_all add: init_current_key_def)
  then show "\<exists>c'. read_keys (length rs) sp m (init_current_key c) = Some (starts sp (m_buffer_start c) rs, c') \<and>
      m_current_key c' = m_buffer_start c + sum_list (map (record_size sp) rs) \<and> m_mem_count c' = 0 \<and> chunk_region c' = chunk_region c"
    using read_keys_in [OF assms(1), of m "init_current_key c" rs] assms(2,3) by (simp add: chunk_region_def init_current_key_def)
  have "get_rec_and_res_len m (starts sp p rs ! i) sp =
      Some (of_nat (record_size sp (rs ! i)), if m_packed_format sp \<and> using_addon_fields sp then of_nat (addon_part sp (snd (rs ! i))) else res_length sp)"
    if "records_in sp m p rs" "i < length rs" for p i
    using that
  proof (induction rs arbitrary: p i)
    case (Cons r rs)
    then show ?case using record_lengths(2) [OF assms(1), of m p r] by (cases i) auto
  qed simp
  then show "\<forall>i<length rs. get_rec_and_res_len m (starts sp (m_buffer_start c) rs ! i) sp =
      Some (of_nat (record_size sp (rs ! i)), if m_packed_format sp \<and> using_addon_fields sp then of_nat (addon_part sp (snd (rs ! i))) else res_length sp)"
    using assms(2) by blast
qed

text \<open>Two records with packed keys of 9 and 6 bytes and packed addon fields of 5 and 3 bytes.\<close>

definition sample_param :: Sort_param where
  "sample_param = \<lparr>rec_length = 40, sp_sort_length = 20, addon_length = 20, res_length = 20,
     addon_fields = Some \<lparr>m_field_descriptors = bca_make 7 2, m_addon_buf = 0, m_addon_buf_length = 0, m_af_packed = True\<rparr>,
     sort_keys = Some \<lparr>sk_array = bca_make 9 1, m_sk_packed = True, size_of_packable_fields = 0, sort_length_with_original_values = 0,
       sort_length_with_memcmp_values = 0, parameters_computed = True\<rparr>,
     m_using_packed_addons = True, m_using_packed_sortkeys = True, m_packed_format = True\<rparr>"

definition sample_records :: bytes_mem where
  "sample_records = store_addon_length 120 3 (store_sortkey_length 114 6 (store_addon_length 109 5 (store_sortkey_length 100 9 (\<lambda>_. 0))))"

theorem sort_records_found_witness:
  "\<exists>c'. read_keys 2 sample_param sample_records (init_current_key (set_mem_count 2 (sample_chunk 100 200 4))) = Some ([100, 114], c') \<and>
     m_current_key c' = 123 \<and> m_mem_count c' = 0"
proof -
  have "param_ok sample_param"
    by (simp add: param_ok_def sample_param_def using_packed_addons_def using_packed_sortkeys_def)
  moreover have "records_in sample_param sample_records 100 [(9, 5), (6, 3)]"
    by (simp add: record_in_def record_size_def sort_part_def addon_part_def sample_param_def using_addon_fields_def sample_records_def can_pack_addon_fields_def
        store_addon_length_def store_sortkey_length_def int2store_at_def int4store_def addon_size_of_length_field_def sortkey_size_of_length_field_def fun_eq_iff)
  moreover have "record_size sample_param (9, 5) = 14" "record_size sample_param (6, 3) = 9"
    by (simp_all add: record_size_def sort_part_def addon_part_def sample_param_def using_addon_fields_def)
  moreover have "m_buffer_start (set_mem_count 2 (sample_chunk 100 200 4)) = 100" "m_mem_count (set_mem_count 2 (sample_chunk 100 200 4)) = 2"
    by (simp_all add: set_mem_count_def sample_chunk_def)
  ultimately show ?thesis
    using sort_records_found [of sample_param sample_records "set_mem_count 2 (sample_chunk 100 200 4)" "[(9, 5), (6, 3)]"] by (auto simp: numeral_2_eq_2 simp del: read_keys.simps)
qed

end
