(* ===== verification/Bounded_Queue.thy ===== *)
theory Bounded_Queue
  imports Prelude "HOL-Library.Monad_Syntax"
begin

text \<open>
  \<open>Bounded_queue\<close> of \<open>bounded_queue.h\<close>, the queue a sort with a limit keeps its best rows in, with the macros of \<open>queues.h\<close> it uses. The keys lie in the slots of
  \<open>m_sort_keys\<close>; the \<open>root\<close> of the underlying \<open>QUEUE\<close> is the list of the slots at the positions 1, 2 and so on. \<open>queue_insert\<close>, \<open>_downheap\<close> and \<open>queue_remove\<close>, which are
  only declared, are arguments: they get the keys, the direction and the root, and give the new root. \<open>insert_spec\<close> and \<open>downheap_spec\<close> say that they keep the root a heap,
  the priority queue of Sedgewick that \<open>queues.h\<close> names; the order of the compare function is that of the \<open>rank\<close> of a key. \<^const>\<open>None\<close> is a failed assertion or a
  position outside the queue.
\<close>

section \<open>The queue\<close>

record 'k bounded_queue =
  m_sort_keys :: "nat \<Rightarrow> 'k"
  q_root :: "nat list"
  q_max_elements :: uint
  q_max_at_top :: bool

type_synonym 'k queue_insert = "(nat \<Rightarrow> 'k) \<Rightarrow> bool \<Rightarrow> nat list \<Rightarrow> nat \<Rightarrow> nat list"
type_synonym 'k downheap = "(nat \<Rightarrow> 'k) \<Rightarrow> bool \<Rightarrow> nat list \<Rightarrow> nat \<Rightarrow> nat list"
type_synonym 'k queue_remove = "(nat \<Rightarrow> 'k) \<Rightarrow> bool \<Rightarrow> nat list \<Rightarrow> nat \<Rightarrow> nat \<times> nat list"

definition bq_new :: "'k bounded_queue \<Rightarrow> 'k bounded_queue" where
  "bq_new junk = junk\<lparr>q_root := [], q_max_elements := 0, q_max_at_top := False\<rparr>"

definition queue_is_full :: "'k bounded_queue \<Rightarrow> bool" where "queue_is_full q \<longleftrightarrow> of_nat (length (q_root q)) = q_max_elements q"

definition queue_element :: "'k bounded_queue \<Rightarrow> nat \<Rightarrow> nat option" where
  "queue_element q idx = (if 1 \<le> idx \<and> idx \<le> length (q_root q) then Some (q_root q ! (idx - 1)) else None)"

definition queue_top :: "'k bounded_queue \<Rightarrow> nat option" where "queue_top q = queue_element q 1"

definition queue_replace_top :: "'k downheap \<Rightarrow> 'k bounded_queue \<Rightarrow> 'k bounded_queue" where
  "queue_replace_top downheap q = q\<lparr>q_root := downheap (m_sort_keys q) (q_max_at_top q) (q_root q) 1\<rparr>"

definition is_initialized :: "'k bounded_queue \<Rightarrow> bool" where "is_initialized q \<longleftrightarrow> q_max_elements q > 0"

definition num_elements :: "'k bounded_queue \<Rightarrow> uint" where "num_elements q = of_nat (length (q_root q))"

text \<open>\<open>sort_keys\<close> is the array of the caller, \<^const>\<open>None\<close> a null pointer; \<open>allocated\<close> is what \<open>init_queue\<close> returns. The result is the return code.\<close>

definition bq_init :: "bool \<Rightarrow> ulonglong \<Rightarrow> bool \<Rightarrow> (nat \<Rightarrow> 'k) option \<Rightarrow> 'k bounded_queue \<Rightarrow> (nat \<times> 'k bounded_queue) option" where
  "bq_init allocated max_elements max_at_top sort_keys q = do {
     keys \<leftarrow> sort_keys;
     let q = q\<lparr>m_sort_keys := keys\<rparr>;
     Some (if max_elements \<ge> ucast (- 1 - 1 :: uint) then (1, q)
           else if \<not> allocated then (1, q)
           else (0, q\<lparr>q_root := [], q_max_elements := ucast max_elements + 1, q_max_at_top := max_at_top\<rparr>)) }"

definition bq_push :: "'k queue_insert \<Rightarrow> 'k downheap \<Rightarrow> ('e \<Rightarrow> 'k) \<Rightarrow> 'e \<Rightarrow> 'k bounded_queue \<Rightarrow> 'k bounded_queue option" where
  "bq_push queue_insert downheap keymaker element q =
     (if \<not> is_initialized q then None
      else if queue_is_full q
      then do {
        pq_top \<leftarrow> queue_top q;
        let q = q\<lparr>m_sort_keys := (m_sort_keys q)(pq_top := keymaker element)\<rparr>;
        Some (queue_replace_top downheap q) }
      else do {
        let slot = length (q_root q);
        let q = q\<lparr>m_sort_keys := (m_sort_keys q)(slot := keymaker element)\<rparr>;
        Some (q\<lparr>q_root := queue_insert (m_sort_keys q) (q_max_at_top q) (q_root q) slot\<rparr>) })"

text \<open>\<open>queue_remove\<close> takes a position from 1 to the number of elements: \<open>queue_first_element\<close> is 1 and \<open>queue_last_element\<close> is \<open>elements\<close>.\<close>

definition bq_remove :: "'k queue_remove \<Rightarrow> nat \<Rightarrow> 'k bounded_queue \<Rightarrow> (nat \<times> 'k bounded_queue) option" where
  "bq_remove queue_remove idx q = do {
     _ \<leftarrow> queue_element q idx;
     let (s, root) = queue_remove (m_sort_keys q) (q_max_at_top q) (q_root q) idx;
     Some (s, q\<lparr>q_root := root\<rparr>) }"

definition bq_pop :: "'k queue_remove \<Rightarrow> 'k bounded_queue \<Rightarrow> (nat option \<times> 'k bounded_queue) option" where
  "bq_pop queue_remove q = do {
     q \<leftarrow> (if queue_is_full q then do { (_, q) \<leftarrow> bq_remove queue_remove 0 q; Some q } else Some q);
     (if q_root q = [] then None else do { (s, q) \<leftarrow> bq_remove queue_remove 0 q; Some (Some s, q) }) }"

section \<open>Sorted prefixes\<close>

lemma take_insort: "sorted ys \<Longrightarrow> take n (insort x ys) = take n (insort x (take n ys))"
proof (induction ys arbitrary: n)
  case (Cons y ys)
  show ?case
  proof (cases n)
    case (Suc k)
    show ?thesis
    proof (cases "x \<le> y")
      case True
      then show ?thesis by (cases k) (simp_all add: Suc take_Cons')
    next
      case False
      then show ?thesis using Cons.IH [of k] Cons.prems by (simp add: Suc)
    qed
  qed simp
qed simp

lemma take_mset_subset: "mset (take n xs) \<subseteq># mset xs"
  by (metis append_take_drop_id mset_append mset_subset_eq_add_left)

lemma smallest_insert: "mset (take n (sort (x # xs))) \<subseteq># add_mset x (mset (take n (sort xs)))"
proof -
  have "take n (sort (x # xs)) = take n (insort x (take n (sort xs)))" using take_insort [of "sort xs"] by simp
  then have "mset (take n (sort (x # xs))) \<subseteq># mset (insort x (take n (sort xs)))" using take_mset_subset by metis
  then show ?thesis by simp
qed

text \<open>A multiset of one more element than the \<open>n\<close> smallest ones, drawn from the same elements, loses only the greatest when its greatest goes.\<close>

lemma drop_greatest:
  fixes xs :: "int list"
  assumes "mset (take n (sort xs)) \<subseteq># K" "K \<subseteq># mset xs" "size K = Suc n" "m \<in># K" "\<forall>k\<in>#K. k \<le> m"
  shows "K - {#m#} = mset (take n (sort xs))"
proof -
  let ?S = "mset (take n (sort xs))"
  have l: "n < length xs" using size_mset_mono [OF assms(2)] assms(3) by simp
  then have "size ?S = n" by simp
  then obtain e where e: "K = add_mset e ?S"
    using assms(1,3) by (metis subset_mset.add_diff_inverse size_Diff_submset diff_Suc_eq_diff_pred Suc_diff_Suc diff_self_eq_0 lessI size_1_singleton_mset union_mset_add_mset_right add.right_neutral Suc_eq_plus1 add_diff_cancel_left')
  have "mset xs = ?S + mset (drop n (sort xs))" by (metis append_take_drop_id mset_append mset_sort)
  then have "add_mset e ?S \<subseteq># ?S + mset (drop n (sort xs))" using assms(2) e by simp
  then have "{#e#} \<subseteq># mset (drop n (sort xs))" by (metis add_mset_add_single mset_subset_eq_mono_add_left_cancel)
  then have d: "e \<in> set (drop n (sort xs))" by simp
  have "\<forall>s\<in>#?S. s \<le> e"
  proof
    fix s assume "s \<in># ?S"
    moreover have "sorted (take n (sort xs) @ drop n (sort xs))" by simp
    ultimately show "s \<le> e" using d unfolding sorted_append by simp
  qed
  then have "m = e" using assms(4,5) e by (auto intro: antisym)
  then show ?thesis by (simp add: e)
qed


section \<open>Heaps\<close>

text \<open>The order of the queue: the last key in it is at the top.\<close>

definition ord_of :: "('k \<Rightarrow> int) \<Rightarrow> bool \<Rightarrow> 'k \<Rightarrow> int" where "ord_of rank max_at_top k = (if max_at_top then rank k else - rank k)"

text \<open>No key at a position from \<open>lo\<close> on comes after the one at the half of its position.\<close>

definition heap_from :: "nat \<Rightarrow> ('k \<Rightarrow> int) \<Rightarrow> (nat \<Rightarrow> 'k) \<Rightarrow> bool \<Rightarrow> nat list \<Rightarrow> bool" where
  "heap_from lo rank keys mt root \<longleftrightarrow>
     (\<forall>i. lo \<le> i \<and> i \<le> length root \<longrightarrow> ord_of rank mt (keys (root ! (i - 1))) \<le> ord_of rank mt (keys (root ! (i div 2 - 1))))"

abbreviation heap :: "('k \<Rightarrow> int) \<Rightarrow> (nat \<Rightarrow> 'k) \<Rightarrow> bool \<Rightarrow> nat list \<Rightarrow> bool" where "heap \<equiv> heap_from 2"

text \<open>
  \<open>queue_insert\<close> adds an element to a heap. \<open>_downheap\<close> at position 1 makes a heap of a root that is one except for the key at the top, that is from position 4 on,
  and has the same elements.
\<close>

definition insert_spec :: "('k \<Rightarrow> int) \<Rightarrow> 'k queue_insert \<Rightarrow> bool" where
  "insert_spec rank queue_insert \<longleftrightarrow> (\<forall>keys mt root s. heap rank keys mt root \<longrightarrow>
     heap rank keys mt (queue_insert keys mt root s) \<and> mset (queue_insert keys mt root s) = add_mset s (mset root))"

definition downheap_spec :: "('k \<Rightarrow> int) \<Rightarrow> 'k downheap \<Rightarrow> bool" where
  "downheap_spec rank downheap \<longleftrightarrow> (\<forall>keys mt root. heap_from 4 rank keys mt root \<longrightarrow>
     heap rank keys mt (downheap keys mt root 1) \<and> mset (downheap keys mt root 1) = mset root)"

lemma heap_top:
  assumes "heap rank keys mt root" "1 \<le> i" "i \<le> length root"
  shows "ord_of rank mt (keys (root ! (i - 1))) \<le> ord_of rank mt (keys (root ! 0))"
  using assms(2,3)
proof (induction i rule: less_induct)
  case (less i)
  show ?case
  proof (cases "i = 1")
    case False
    then have "ord_of rank mt (keys (root ! (i - 1))) \<le> ord_of rank mt (keys (root ! (i div 2 - 1)))"
      using assms(1) less.prems by (simp add: heap_from_def)
    also have "\<dots> \<le> ord_of rank mt (keys (root ! 0))" using less False by simp
    finally show ?thesis .
  qed simp
qed

lemma heap_greatest:
  assumes "heap rank keys mt root" "s \<in> set root"
  shows "ord_of rank mt (keys s) \<le> ord_of rank mt (keys (root ! 0))"
proof -
  obtain j where "j < length root" "root ! j = s" using assms(2) by (auto simp: in_set_conv_nth)
  then show ?thesis using heap_top [OF assms(1), of "Suc j"] by simp
qed

lemma heap_other_keys:
  assumes "heap rank keys mt root" "t \<notin> set root"
  shows "heap rank (keys(t := k)) mt root"
proof -
  have "root ! (i - 1) \<noteq> t \<and> root ! (i div 2 - 1) \<noteq> t" if "2 \<le> i" "i \<le> length root" for i
    using assms(2) that nth_mem [of "i - 1" root] nth_mem [of "i div 2 - 1" root] by auto
  then show ?thesis using assms(1) by (simp add: heap_from_def)
qed

lemma heap_new_top:
  assumes "heap rank keys mt root" "distinct root" "root \<noteq> []"
  shows "heap_from 4 rank (keys(root ! 0 := k)) mt root"
proof -
  have "root ! (i - 1) \<noteq> root ! 0 \<and> root ! (i div 2 - 1) \<noteq> root ! 0" if "4 \<le> i" "i \<le> length root" for i
    using assms(2,3) that by (simp add: nth_eq_iff_index_eq)
  then show ?thesis using assms(1) by (simp add: heap_from_def)
qed

section \<open>The queue keeps the best keys\<close>

definition held :: "('k \<Rightarrow> int) \<Rightarrow> 'k bounded_queue \<Rightarrow> int multiset" where
  "held rank q = image_mset (\<lambda>s. ord_of rank (q_max_at_top q) (m_sort_keys q s)) (mset (q_root q))"

text \<open>After pushes of keys with the ranks \<open>xs\<close>, the latest first, into a queue for \<open>n\<close> elements.\<close>

definition keeps :: "('k \<Rightarrow> int) \<Rightarrow> nat \<Rightarrow> int list \<Rightarrow> 'k bounded_queue \<Rightarrow> bool" where
  "keeps rank n xs q \<longleftrightarrow> unat (q_max_elements q) = Suc n \<and> mset (q_root q) = mset [0..<min (length xs) (Suc n)] \<and>
     heap rank (m_sort_keys q) (q_max_at_top q) (q_root q) \<and> held rank q \<subseteq># mset xs \<and> mset (take n (sort xs)) \<subseteq># held rank q"

lemma keeps_root:
  assumes "keeps rank n xs q"
  shows "length (q_root q) = min (length xs) (Suc n)" "distinct (q_root q)" "set (q_root q) = {0..<min (length xs) (Suc n)}"
proof -
  have m: "mset (q_root q) = mset [0..<min (length xs) (Suc n)]" using assms by (simp add: keeps_def)
  show "length (q_root q) = min (length xs) (Suc n)" using mset_eq_length [OF m] by simp
  show "distinct (q_root q)" using mset_eq_imp_distinct_iff [OF m] by simp
  show "set (q_root q) = {0..<min (length xs) (Suc n)}" using mset_eq_setD [OF m] by simp
qed

lemma keeps_full: "keeps rank n xs q \<Longrightarrow> queue_is_full q \<longleftrightarrow> Suc n \<le> length xs"
proof -
  assume k: "keeps rank n xs q"
  then have "min (length xs) (Suc n) < 2 ^ 32" using unat_bound [of "q_max_elements q"] by (simp add: keeps_def)
  then have "unat (of_nat (length (q_root q)) :: uint) = min (length xs) (Suc n)" using keeps_root(1) [OF k] by (simp add: unat_of_nat)
  then show ?thesis using k by (auto simp: queue_is_full_def keeps_def word_unat_eq_iff)
qed

lemma held_size: "keeps rank n xs q \<Longrightarrow> size (held rank q) = min (length xs) (Suc n)"
  by (simp add: held_def keeps_root(1))

lemma image_upd_fresh: "t \<notin># S \<Longrightarrow> image_mset (\<lambda>s. g ((f(t := v)) s)) S = image_mset (\<lambda>s. g (f s)) S"
  by (intro image_mset_cong) auto

lemma keeps_push_room:
  assumes "insert_spec rank queue_insert" "keeps rank n xs q" "length xs \<le> n"
  shows "\<exists>q'. bq_push queue_insert downheap km e q = Some q' \<and> q_max_at_top q' = q_max_at_top q \<and> keeps rank n (ord_of rank (q_max_at_top q) (km e) # xs) q'"
proof -
  let ?x = "ord_of rank (q_max_at_top q) (km e)" and ?keys = "(m_sort_keys q)(length xs := km e)"
  let ?root = "queue_insert ?keys (q_max_at_top q) (q_root q) (length xs)"
  let ?q = "q\<lparr>m_sort_keys := ?keys, q_root := ?root\<rparr>"
  note k = keeps_root [OF assms(2)]
  have len: "length (q_root q) = length xs" and fresh: "length xs \<notin> set (q_root q)" using k assms(3) by simp_all
  have s: "unat (q_max_elements q) = Suc n" "heap rank ?keys (q_max_at_top q) (q_root q)"
    using assms(2) heap_other_keys [OF _ fresh] by (auto simp: keeps_def)
  then have r: "heap rank ?keys (q_max_at_top q) ?root" "mset ?root = add_mset (length xs) (mset (q_root q))"
    using assms(1) by (simp_all add: insert_spec_def)
  have "held rank q \<subseteq># mset xs" "size (held rank q) = length xs" using assms held_size [OF assms(2)] by (simp_all add: keeps_def)
  then have "held rank q = mset xs" using mset_subset_size [of "held rank q" "mset xs"] by (auto simp: subset_mset.less_le)
  moreover have "held rank ?q = add_mset ?x (held rank q)"
    using image_upd_fresh [of "length xs" "mset (q_root q)" "ord_of rank (q_max_at_top q)" "m_sort_keys q" "km e"] fresh r(2) by (simp add: held_def del: fun_upd_apply) simp
  ultimately have h: "held rank ?q = mset (?x # xs)" by simp
  have "bq_push queue_insert downheap km e q = Some ?q"
    using s len keeps_full [OF assms(2)] assms(3) by (simp add: bq_push_def is_initialized_def word_less_nat_alt Let_def)
  moreover have "mset (take n (sort (?x # xs))) \<subseteq># mset (?x # xs)" using take_mset_subset [of n "sort (?x # xs)"] by (simp del: sort_key_simps)
  moreover have "mset ?root = mset [0..<min (length (?x # xs)) (Suc n)]" using assms(2,3) r(2) by (simp add: keeps_def)
  ultimately show ?thesis using s(1) r(1) h by (intro exI [of _ ?q]) (simp add: keeps_def del: sort_key_simps upt_Suc)
qed

lemma keeps_top:
  assumes "keeps rank n xs q" "Suc n \<le> length xs"
  shows "queue_top q = Some (q_root q ! 0)" "q_root q ! 0 \<in> set (q_root q)" "q_root q \<noteq> []"
    "held rank q - {#ord_of rank (q_max_at_top q) (m_sort_keys q (q_root q ! 0))#} = mset (take n (sort xs))"
proof -
  have l: "length (q_root q) = Suc n" using keeps_root(1) [OF assms(1)] assms(2) by simp
  then show ne: "q_root q \<noteq> []" and t: "q_root q ! 0 \<in> set (q_root q)" and "queue_top q = Some (q_root q ! 0)"
    by (auto simp: queue_top_def queue_element_def)
  let ?top = "ord_of rank (q_max_at_top q) (m_sort_keys q (q_root q ! 0))"
  have h: "heap rank (m_sort_keys q) (q_max_at_top q) (q_root q)" "held rank q \<subseteq># mset xs" "mset (take n (sort xs)) \<subseteq># held rank q"
    using assms(1) by (simp_all add: keeps_def)
  have "?top \<in># held rank q" "\<forall>k\<in>#held rank q. k \<le> ?top" using t heap_greatest [OF h(1)] by (auto simp: held_def)
  then show "held rank q - {#?top#} = mset (take n (sort xs))"
    using h(2,3) held_size [OF assms(1)] assms(2) by (intro drop_greatest) simp_all
qed

lemma keeps_push_full:
  assumes "downheap_spec rank downheap" "keeps rank n xs q" "Suc n \<le> length xs"
  shows "\<exists>q'. bq_push queue_insert downheap km e q = Some q' \<and> q_max_at_top q' = q_max_at_top q \<and> keeps rank n (ord_of rank (q_max_at_top q) (km e) # xs) q'"
proof -
  let ?x = "ord_of rank (q_max_at_top q) (km e)" and ?o = "\<lambda>s. ord_of rank (q_max_at_top q) (m_sort_keys q s)"
  let ?t = "q_root q ! 0"
  let ?keys = "(m_sort_keys q)(?t := km e)"
  let ?root = "downheap ?keys (q_max_at_top q) (q_root q) 1"
  let ?q = "q\<lparr>m_sort_keys := ?keys, q_root := ?root\<rparr>"
  note t = keeps_top [OF assms(2,3)]
  have s: "unat (q_max_elements q) = Suc n" "heap rank (m_sort_keys q) (q_max_at_top q) (q_root q)" using assms(2) by (simp_all add: keeps_def)
  have d: "heap rank ?keys (q_max_at_top q) ?root" "mset ?root = mset (q_root q)"
    using assms(1) heap_new_top [OF s(2) keeps_root(2) [OF assms(2)] t(3)] by (simp_all add: downheap_spec_def)
  obtain r rs where rs: "q_root q = r # rs" using t(3) by (cases "q_root q") auto
  define R where "R = mset rs"
  have R: "mset (q_root q) = add_mset ?t R" using rs by (simp add: R_def)
  have n: "?t \<notin># R" using keeps_root(2) [OF assms(2)] rs by (simp add: R_def)
  have "held rank ?q = add_mset ?x (image_mset (\<lambda>s. ord_of rank (q_max_at_top q) (?keys s)) R)" using d(2) R by (simp add: held_def)
  also have "image_mset (\<lambda>s. ord_of rank (q_max_at_top q) (?keys s)) R = image_mset ?o R" by (rule image_upd_fresh [OF n])
  also have "image_mset ?o R = held rank q - {#?o ?t#}" using R by (simp add: held_def)
  also have "\<dots> = mset (take n (sort xs))" by (rule t(4))
  finally have h: "held rank ?q = add_mset ?x (mset (take n (sort xs)))" .
  have "bq_push queue_insert downheap km e q = Some ?q"
    using s t(1) keeps_full [OF assms(2)] assms(3) by (simp add: bq_push_def queue_replace_top_def is_initialized_def word_less_nat_alt Let_def)
  moreover have "mset (take n (sort xs)) \<subseteq># mset xs" using take_mset_subset [of n "sort xs"] by simp
  moreover have "mset ?root = mset [0..<min (length (?x # xs)) (Suc n)]" using d(2) assms(2,3) by (simp add: keeps_def min_def del: upt_Suc)
  ultimately show ?thesis using s(1) d(1) h smallest_insert [of n ?x xs] by (intro exI [of _ ?q]) (simp add: keeps_def del: upt_Suc sort_key_simps)
qed

fun push_all :: "'k queue_insert \<Rightarrow> 'k downheap \<Rightarrow> ('e \<Rightarrow> 'k) \<Rightarrow> 'e list \<Rightarrow> 'k bounded_queue \<Rightarrow> 'k bounded_queue option" where
  "push_all ins down km [] q = Some q"
| "push_all ins down km (e # es) q = do { q \<leftarrow> bq_push ins down km e q; push_all ins down km es q }"

lemma push_all_keeps:
  assumes "insert_spec rank ins" "downheap_spec rank down" "keeps rank n xs q"
  shows "\<exists>q'. push_all ins down km es q = Some q' \<and> keeps rank n (rev (map (ord_of rank (q_max_at_top q) \<circ> km) es) @ xs) q'"
  using assms(3)
proof (induction es arbitrary: xs q)
  case (Cons e es)
  obtain q1 where q1: "bq_push ins down km e q = Some q1" "q_max_at_top q1 = q_max_at_top q" "keeps rank n (ord_of rank (q_max_at_top q) (km e) # xs) q1"
    using keeps_push_room [OF assms(1) Cons.prems] keeps_push_full [OF assms(2) Cons.prems] by (metis not_less_eq_eq)
  from Cons.IH [OF q1(3)] show ?case using q1 by auto
qed simp

text \<open>C13. A queue initialised for \<open>n\<close> elements keeps the best keys of whatever is pushed, the smallest with \<open>max_at_top\<close>, else the largest: it holds at most \<open>n + 1\<close>
  keys, all of them pushed, among them the \<open>n\<close> best; and once more than \<open>n\<close> have been pushed, without the one at the top they are exactly the \<open>n\<close> best. \<open>queue_insert\<close> and
  \<open>_downheap\<close> are assumed to do what they do on a binary heap: the second restores the order only when the key at the top is the one that is wrong.
\<close>

theorem bounded_queue_keeps_best:
  assumes "insert_spec rank ins" "downheap_spec rank down" "max_elements < 2 ^ 32 - 2"
    "bq_init True max_elements max_at_top (Some keys) q0 = Some (0, q)" "rs = map (ord_of rank max_at_top \<circ> km) es"
  shows "\<exists>q'. push_all ins down km es q = Some q' \<and> size (held rank q') = min (length es) (Suc (unat max_elements)) \<and> held rank q' \<subseteq># mset rs \<and>
    mset (take (unat max_elements) (sort rs)) \<subseteq># held rank q' \<and>
    (unat max_elements < length es \<longrightarrow>
      (\<exists>t. queue_top q' = Some t \<and> held rank q' - {#ord_of rank (q_max_at_top q') (m_sort_keys q' t)#} = mset (take (unat max_elements) (sort rs))))"
proof -
  let ?n = "unat max_elements"
  have m: "?n < 2 ^ 32 - 2" using assms(3) by (simp add: word_less_nat_alt)
  then have "unat (ucast max_elements + 1 :: uint) = Suc ?n" by (simp add: unat_word_ariths unsigned_ucast_eq take_bit_nat_eq_self)
  moreover have q: "q_root q = []" "q_max_elements q = ucast max_elements + 1" "q_max_at_top q = max_at_top"
    using assms(4) by (auto simp: bq_init_def Let_def split: if_splits)
  ultimately have "keeps rank ?n [] q" by (simp add: keeps_def held_def heap_from_def)
  from push_all_keeps [OF assms(1,2) this, of km es] obtain q' where q': "push_all ins down km es q = Some q'" "keeps rank ?n (rev rs) q'"
    unfolding assms(5) q(3) by auto
  have s: "sort (rev rs) = sort rs" by (metis mset_rev properties_for_sort sorted_sort mset_sort)
  show ?thesis using q' held_size [OF q'(2)] s assms(5) keeps_top(1,4) [OF q'(2)] by (auto simp: keeps_def)
qed

text \<open>Functions that sort the root anew, and a queue for two keys after the pushes of 5, 3, 9, 1 and 7.\<close>

definition sort_root :: "('k \<Rightarrow> int) \<Rightarrow> (nat \<Rightarrow> 'k) \<Rightarrow> bool \<Rightarrow> nat list \<Rightarrow> nat list" where
  "sort_root rank keys mt root = rev (sort_key (\<lambda>s. ord_of rank mt (keys s)) root)"

lemma sort_root_heap: "heap rank keys mt (sort_root rank keys mt root)" "mset (sort_root rank keys mt root) = mset root"
proof -
  let ?o = "\<lambda>s. ord_of rank mt (keys s)" and ?r = "sort_root rank keys mt root"
  have "sorted (rev (map ?o ?r))" by (simp add: sort_root_def rev_map)
  then have "map ?o ?r ! j \<le> map ?o ?r ! i" if "i \<le> j" "j < length ?r" for i j using that sorted_rev_nth_mono [of "map ?o ?r" i j] by simp
  then show "heap rank keys mt ?r" unfolding heap_from_def
  proof (intro allI impI)
    fix i assume mono: "\<And>i j. i \<le> j \<Longrightarrow> j < length ?r \<Longrightarrow> map ?o ?r ! j \<le> map ?o ?r ! i" and i: "2 \<le> i \<and> i \<le> length ?r"
    then have "i div 2 - 1 \<le> i - 1" "i - 1 < length ?r" "i div 2 - 1 < length ?r" by auto
    then show "?o (?r ! (i - 1)) \<le> ?o (?r ! (i div 2 - 1))" using mono [of "i div 2 - 1" "i - 1"] by simp
  qed
qed (simp add: sort_root_def)

definition sort_insert :: "('k \<Rightarrow> int) \<Rightarrow> 'k queue_insert" where "sort_insert rank keys mt root s = sort_root rank keys mt (s # root)"
definition sort_downheap :: "('k \<Rightarrow> int) \<Rightarrow> 'k downheap" where "sort_downheap rank keys mt root idx = sort_root rank keys mt root"

lemma sort_specs: "insert_spec rank (sort_insert rank)" "downheap_spec rank (sort_downheap rank)"
  by (simp_all add: insert_spec_def downheap_spec_def sort_insert_def sort_downheap_def sort_root_heap)

definition two_best :: "int bounded_queue" where
  "two_best = \<lparr>m_sort_keys = (\<lambda>_. 0), q_root = [], q_max_elements = 3, q_max_at_top = True\<rparr>"

theorem bounded_queue_keeps_best_witness:
  "\<exists>q'. push_all (sort_insert id) (sort_downheap id) id [5, 3, 9, 1, 7] two_best = Some q' \<and> {#1, 3#} \<subseteq># held id q' \<and> size (held id q') = 3"
proof -
  have "bq_init True 2 True (Some (\<lambda>_. 0)) (bq_new two_best) = Some (0, two_best)"
    by (simp add: bq_init_def bq_new_def two_best_def)
  moreover have "mset (take 2 (sort (map (ord_of id True \<circ> id) [5, 3, 9, 1, 7]))) = {#1, 3#}" by (simp add: ord_of_def add_mset_commute)
  ultimately show ?thesis
    using bounded_queue_keeps_best [OF sort_specs(1) [of id] sort_specs(2) [of id] _ _ refl, where max_elements = 2 and max_at_top = True and keys = "\<lambda>_. 0"
        and ?q0.0 = "bq_new two_best" and q = two_best and km = id and es = "[5, 3, 9, 1, 7]"] by auto
qed

text \<open>\<open>pop\<close> removes at position 0, which no queue has: positions start at 1.\<close>

lemma pop_position: "bq_pop queue_remove q = None"
  by (simp add: bq_pop_def bq_remove_def queue_element_def split: bind_splits)

end
