(* ===== verification/Io_Cache.thy ===== *)
theory Io_Cache
  imports Byte_Order "HOL-Library.Monad_Syntax"
begin

text \<open>
  The inline part of the file caches, \<open>IO_CACHE\<close> of \<open>my_sys.h\<close>. The state has the members the inline functions use, the memory the buffers lie in and the file
  behind the cache; pointers are addresses, 0 is null. \<open>_my_b_read\<close>, \<open>_my_b_write\<close>, \<open>_my_b_get\<close> and \<open>my_b_flush_io_cache\<close> are only declared: they are arguments, with
  what their callers rely on as the predicates \<open>write_spec\<close>, \<open>flush_spec\<close>, \<open>read_spec\<close> and \<open>get_spec\<close>.
\<close>

section \<open>Bytes in memory\<close>

definition bytes_at :: "bytes_mem \<Rightarrow> nat \<Rightarrow> nat \<Rightarrow> uchar list" where "bytes_at m p n = map m [p..<p + n]"

definition put_bytes :: "nat \<Rightarrow> uchar list \<Rightarrow> bytes_mem \<Rightarrow> bytes_mem" where
  "put_bytes p bs m = (\<lambda>q. if p \<le> q \<and> q < p + length bs then bs ! (q - p) else m q)"

lemma bytes_at_length [simp]: "length (bytes_at m p n) = n"
  by (simp add: bytes_at_def)

lemma bytes_at_append: "bytes_at m p (n + k) = bytes_at m p n @ bytes_at m (p + n) k"
  using upt_add_eq_append [of p "p + n" k] by (simp add: bytes_at_def add.assoc)

lemma bytes_at_put: "bytes_at (put_bytes p bs m) p (length bs) = bs"
  by (rule nth_equalityI) (simp_all add: bytes_at_def put_bytes_def)

lemma bytes_at_put_before: "q + n \<le> p \<Longrightarrow> bytes_at (put_bytes p bs m) q n = bytes_at m q n"
  by (simp add: bytes_at_def put_bytes_def)

lemma put_bytes_Nil [simp]: "put_bytes p [] m = m"
  by (auto simp: put_bytes_def fun_eq_iff)

section \<open>The cache\<close>

datatype cache_type = TYPE_NOT_SET | READ_CACHE | WRITE_CACHE | SEQ_READ_APPEND | READ_FIFO | READ_NET

record IO_CACHE =
  pos_in_file :: ulonglong
  end_of_file :: ulonglong
  read_pos :: nat
  read_end :: nat
  io_buffer :: nat
  request_pos :: nat
  write_buffer :: nat
  write_pos :: nat
  write_end :: nat
  io_type :: cache_type
  disk_writes :: uint
  io_fd :: int
  io_err :: int
  io_mem :: bytes_mem
  io_disk :: "uchar list"

definition my_b_clear :: "IO_CACHE \<Rightarrow> IO_CACHE" where "my_b_clear info = info\<lparr>io_buffer := 0\<rparr>"

definition my_b_inited :: "IO_CACHE \<Rightarrow> bool" where "my_b_inited info \<longleftrightarrow> io_buffer info \<noteq> 0"

definition my_b_EOF :: int where "my_b_EOF = - (2 ^ 31)"

text \<open>A read gives the return code, the bytes in the buffer of the caller and the new state.\<close>

definition my_b_read :: "(nat \<Rightarrow> IO_CACHE \<Rightarrow> int \<times> uchar list \<times> IO_CACHE) \<Rightarrow> nat \<Rightarrow> IO_CACHE \<Rightarrow> int \<times> uchar list \<times> IO_CACHE" where
  "my_b_read slow cnt info =
     (if read_pos info + cnt \<le> read_end info
      then (0, bytes_at (io_mem info) (read_pos info) cnt, info\<lparr>read_pos := read_pos info + cnt\<rparr>)
      else slow cnt info)"

definition my_b_write :: "(uchar list \<Rightarrow> IO_CACHE \<Rightarrow> int \<times> IO_CACHE) \<Rightarrow> uchar list \<Rightarrow> IO_CACHE \<Rightarrow> int \<times> IO_CACHE" where
  "my_b_write slow bs info =
     (if write_pos info + length bs \<le> write_end info
      then (0, if length bs \<noteq> 0 then info\<lparr>io_mem := put_bytes (write_pos info) bs (io_mem info), write_pos := write_pos info + length bs\<rparr> else info)
      else slow bs info)"

definition my_b_get :: "(IO_CACHE \<Rightarrow> int \<times> IO_CACHE) \<Rightarrow> IO_CACHE \<Rightarrow> int \<times> IO_CACHE" where
  "my_b_get slow info =
     (if read_pos info \<noteq> read_end info
      then (int (unat (io_mem info (read_pos info))), info\<lparr>read_pos := read_pos info + 1\<rparr>)
      else slow info)"

definition my_b_write_byte :: "(IO_CACHE \<Rightarrow> int \<times> IO_CACHE) \<Rightarrow> uchar \<Rightarrow> IO_CACHE \<Rightarrow> bool \<times> IO_CACHE" where
  "my_b_write_byte flush chr info =
     (let (failed, info) = (if write_pos info \<ge> write_end info then (case flush info of (r, info) \<Rightarrow> (r \<noteq> 0, info)) else (False, info))
      in if failed then (True, info)
         else (False, info\<lparr>io_mem := put_bytes (write_pos info) [chr] (io_mem info), write_pos := write_pos info + 1\<rparr>))"

definition my_b_fill :: "(nat \<Rightarrow> IO_CACHE \<Rightarrow> int \<times> uchar list \<times> IO_CACHE) \<Rightarrow> IO_CACHE \<Rightarrow> nat \<times> IO_CACHE" where
  "my_b_fill slow info =
     (let info = info\<lparr>read_pos := read_end info\<rparr>
      in case slow 0 info of (r, _, info) \<Rightarrow> (if r \<noteq> 0 then 0 else read_end info - read_pos info, info))"

definition my_b_tell :: "IO_CACHE \<Rightarrow> ulonglong" where
  "my_b_tell info =
     (if io_type info = WRITE_CACHE then pos_in_file info + of_nat (write_pos info - request_pos info)
      else pos_in_file info + of_nat (read_pos info - request_pos info))"

definition my_b_write_tell :: "IO_CACHE \<Rightarrow> ulonglong" where
  "my_b_write_tell info = pos_in_file info + of_nat (write_pos info - write_buffer info)"

definition my_b_get_buffer_start :: "IO_CACHE \<Rightarrow> nat" where "my_b_get_buffer_start info = request_pos info"

definition my_b_get_bytes_in_buffer :: "IO_CACHE \<Rightarrow> nat" where "my_b_get_bytes_in_buffer info = read_end info - request_pos info"

definition my_b_get_pos_in_file :: "IO_CACHE \<Rightarrow> ulonglong" where "my_b_get_pos_in_file info = pos_in_file info"

definition my_b_bytes_in_cache :: "IO_CACHE \<Rightarrow> nat" where
  "my_b_bytes_in_cache info = (if io_type info = WRITE_CACHE then write_end info - write_pos info else read_end info - read_pos info)"

section \<open>Writing\<close>

text \<open>What has been written: the part of the file in front of the buffer and the bytes in the buffer.\<close>

definition written :: "IO_CACHE \<Rightarrow> uchar list" where
  "written info = take (unat (pos_in_file info)) (io_disk info) @ bytes_at (io_mem info) (write_buffer info) (write_pos info - write_buffer info)"

definition write_ok :: "IO_CACHE \<Rightarrow> bool" where
  "write_ok info \<longleftrightarrow> io_type info = WRITE_CACHE \<and> request_pos info = write_buffer info \<and> write_buffer info \<le> write_pos info \<and> write_pos info \<le> write_end info \<and>
     unat (pos_in_file info) \<le> length (io_disk info) \<and> unat (pos_in_file info) + (write_end info - write_buffer info) < 2 ^ 64"

text \<open>
  \<open>_my_b_write\<close> appends the bytes or fails; when it fails, what was written before is still there. \<open>my_b_flush_io_cache\<close> keeps what has been written and makes room.
\<close>

definition write_spec :: "(uchar list \<Rightarrow> IO_CACHE \<Rightarrow> int \<times> IO_CACHE) \<Rightarrow> bool" where
  "write_spec slow \<longleftrightarrow> (\<forall>bs info r info'. write_ok info \<and> slow bs info = (r, info') \<longrightarrow>
     write_ok info' \<and> take (length (written info)) (written info') = written info \<and> (r = 0 \<longrightarrow> written info' = written info @ bs))"

definition flush_spec :: "(IO_CACHE \<Rightarrow> int \<times> IO_CACHE) \<Rightarrow> bool" where
  "flush_spec flush \<longleftrightarrow> (\<forall>info r info'. write_ok info \<and> flush info = (r, info') \<longrightarrow>
     write_ok info' \<and> written info' = written info \<and> (r = 0 \<longrightarrow> write_pos info' < write_end info'))"

lemma written_length:
  assumes "write_ok info"
  shows "length (written info) = unat (pos_in_file info) + (write_pos info - write_buffer info)" "length (written info) < 2 ^ 64"
  using assms by (auto simp: written_def write_ok_def)

lemma tell_written:
  assumes "write_ok info"
  shows "unat (my_b_write_tell info) = length (written info)" "my_b_tell info = my_b_write_tell info"
proof -
  have "unat (pos_in_file info + of_nat (write_pos info - write_buffer info)) = unat (pos_in_file info) + (write_pos info - write_buffer info)"
    using written_length [OF assms] by (simp add: unat_word_ariths unat_of_nat)
  then show "unat (my_b_write_tell info) = length (written info)" using written_length(1) [OF assms] by (simp add: my_b_write_tell_def)
  show "my_b_tell info = my_b_write_tell info" using assms by (simp add: my_b_tell_def my_b_write_tell_def write_ok_def)
qed

lemma buffered_write:
  assumes "write_ok info" "write_pos info + length bs \<le> write_end info"
  defines "info' \<equiv> info\<lparr>io_mem := put_bytes (write_pos info) bs (io_mem info), write_pos := write_pos info + length bs\<rparr>"
  shows "write_ok info'" "written info' = written info @ bs"
proof -
  have b: "write_buffer info \<le> write_pos info" using assms(1) by (simp add: write_ok_def)
  show "write_ok info'" using assms by (auto simp: write_ok_def)
  obtain k where k: "write_pos info = write_buffer info + k" using le_Suc_ex [OF b] by blast
  show "written info' = written info @ bs"
    using bytes_at_append [of "put_bytes (write_pos info) bs (io_mem info)" "write_buffer info" k "length bs"] bytes_at_put [of "write_pos info" bs "io_mem info"]
    by (simp add: info'_def written_def k bytes_at_put_before add.assoc)
qed

lemma my_b_write_ok:
  assumes "write_spec slow" "write_ok info" "my_b_write slow bs info = (r, info')"
  shows "write_ok info'" "take (length (written info)) (written info') = written info" "r = 0 \<Longrightarrow> written info' = written info @ bs"
proof -
  have "write_ok info' \<and> take (length (written info)) (written info') = written info \<and> (r = 0 \<longrightarrow> written info' = written info @ bs)"
  proof (cases "write_pos info + length bs \<le> write_end info")
    case True
    note b = buffered_write [OF assms(2) True]
    show ?thesis using assms(3) True b by (cases bs) (auto simp: my_b_write_def assms(2))
  next
    case False
    then show ?thesis using assms by (auto simp: my_b_write_def write_spec_def)
  qed
  then show "write_ok info'" "take (length (written info)) (written info') = written info" "r = 0 \<Longrightarrow> written info' = written info @ bs" by auto
qed

lemma my_b_write_byte_ok:
  assumes "flush_spec flush" "write_ok info" "my_b_write_byte flush chr info = (failed, info')"
  shows "write_ok info'" "written info' = written info @ (if failed then [] else [chr])"
proof -
  obtain r i where f: "flush info = (r, i)" by fastforce
  have "write_ok info' \<and> written info' = written info @ (if failed then [] else [chr])"
  proof (cases "write_pos info < write_end info")
    case True
    then show ?thesis using assms(3) buffered_write [OF assms(2), of "[chr]"] by (auto simp: my_b_write_byte_def)
  next
    case False
    from assms(1,2) f have i: "write_ok i" "written i = written info" "r = 0 \<Longrightarrow> write_pos i < write_end i" by (auto simp: flush_spec_def)
    show ?thesis using assms(3) False f i buffered_write [OF i(1), of "[chr]"] by (cases "r = 0") (auto simp: my_b_write_byte_def)
  qed
  then show "write_ok info'" "written info' = written info @ (if failed then [] else [chr])" by auto
qed

text \<open>A sequence of writes, one after the other until one fails: the number of those that succeeded and the new state.\<close>

fun write_all :: "(uchar list \<Rightarrow> IO_CACHE \<Rightarrow> int \<times> IO_CACHE) \<Rightarrow> uchar list list \<Rightarrow> IO_CACHE \<Rightarrow> nat \<times> IO_CACHE" where
  "write_all slow [] info = (0, info)"
| "write_all slow (b # bs) info =
     (case my_b_write slow b info of (r, info) \<Rightarrow> if r \<noteq> 0 then (0, info) else (case write_all slow bs info of (n, info) \<Rightarrow> (Suc n, info)))"


lemma write_all_ok:
  assumes "write_spec slow" "write_ok info" "write_all slow bs info = (n, info')"
  shows "write_ok info' \<and> n \<le> length bs \<and> (\<exists>part. written info' = written info @ concat (take n bs) @ part \<and> (n = length bs \<longrightarrow> part = []))"
  using assms(2,3)
proof (induction bs arbitrary: info n)
  case (Cons b bs)
  obtain r i where w: "my_b_write slow b info = (r, i)" by fastforce
  note k = my_b_write_ok [OF assms(1) Cons.prems(1) w]
  show ?case
  proof (cases "r = 0")
    case True
    then obtain j where j: "write_all slow bs i = (j, info')" "n = Suc j" using Cons.prems(2) w by (auto split: prod.splits)
    from Cons.IH [OF k(1) j(1)] show ?thesis using k(3) [OF True] j(2) by auto
  next
    case False
    then have "i = info'" "n = 0" using Cons.prems(2) w by auto
    moreover have "written info' = written info @ drop (length (written info)) (written info')"
      using k(2) append_take_drop_id [of "length (written info)" "written info'"] \<open>i = info'\<close> by simp
    ultimately show ?thesis using k(1) by auto
  qed
qed simp

text \<open>C16. Writing through the cache is writing to the stream: whatever mixture of buffered writes and calls of \<open>_my_b_write\<close> serves them, the writes of a sequence up
  to the first that fails are appended in order, nothing written before is lost, both ways to tell the position give the number of bytes written, and a write that fits
  the buffer succeeds without the file.
\<close>

theorem io_cache_writes:
  assumes "write_spec slow" "write_ok info" "write_all slow bs info = (n, info')"
  shows "write_ok info' \<and> n \<le> length bs \<and> (\<exists>part. written info' = written info @ concat (take n bs) @ part \<and> (n = length bs \<longrightarrow> part = [])) \<and>
    unat (my_b_write_tell info') = length (written info') \<and> my_b_tell info' = my_b_write_tell info' \<and>
    (sum_list (map length bs) \<le> my_b_bytes_in_cache info \<longrightarrow> n = length bs \<and> io_disk info' = io_disk info)"
proof -
  have "n = length bs \<and> io_disk info' = io_disk info" if "sum_list (map length bs) \<le> my_b_bytes_in_cache info"
    using that assms(2,3)
  proof (induction bs arbitrary: info n)
    case (Cons b bs)
    have f: "write_pos info + length b \<le> write_end info" using Cons.prems(1,2) by (simp add: my_b_bytes_in_cache_def write_ok_def) linarith
    obtain i where w: "my_b_write slow b info = (0, i)" using f by (simp add: my_b_write_def)
    have i: "write_ok i" "io_disk i = io_disk info" "my_b_bytes_in_cache i = my_b_bytes_in_cache info - length b"
      using my_b_write_ok(1) [OF assms(1) Cons.prems(2) w] w f Cons.prems(2) by (auto simp: my_b_write_def my_b_bytes_in_cache_def write_ok_def split: if_splits)
    obtain j where j: "write_all slow bs i = (j, info')" "n = Suc j" using Cons.prems(3) w by (auto split: prod.splits)
    have "sum_list (map length bs) \<le> my_b_bytes_in_cache i" using Cons.prems(1) i(3) by simp
    from Cons.IH [OF this i(1) j(1)] show ?case using i(2) j(2) by simp
  qed simp
  then show ?thesis using write_all_ok [OF assms] tell_written [of info'] by blast
qed

text \<open>A cache with room for four bytes in front of an empty file, and a slow path that appends everything to the file.\<close>

definition write_through :: "uchar list \<Rightarrow> IO_CACHE \<Rightarrow> int \<times> IO_CACHE" where
  "write_through bs info =
     (if length (written info) + length bs + (write_end info - write_buffer info) < 2 ^ 64
      then (0, info\<lparr>io_disk := written info @ bs, pos_in_file := of_nat (length (written info) + length bs), write_pos := write_buffer info\<rparr>)
      else (-1, info))"

definition small_cache :: IO_CACHE where
  "small_cache = \<lparr>pos_in_file = 0, end_of_file = 0, read_pos = 0, read_end = 0, io_buffer = 100, request_pos = 100, write_buffer = 100, write_pos = 100, write_end = 104,
     io_type = WRITE_CACHE, disk_writes = 0, io_fd = 3, io_err = 0, io_mem = (\<lambda>_. 0), io_disk = []\<rparr>"

lemma write_through_spec: "write_spec write_through"
proof -
  have "write_ok info' \<and> written info' = written info @ bs" if "write_ok info" "length (written info) + length bs + (write_end info - write_buffer info) < 2 ^ 64"
    "info' = info\<lparr>io_disk := written info @ bs, pos_in_file := of_nat (length (written info) + length bs), write_pos := write_buffer info\<rparr>" for info bs info'
  proof -
    have "unat (of_nat (length (written info) + length bs) :: ulonglong) = length (written info) + length bs" using that(2) unfolding unat_of_nat by simp
    then show ?thesis using that(1,2) by (simp add: that(3) write_ok_def written_def [of "_\<lparr>write_pos := _\<rparr>"] bytes_at_def)
  qed
  then show ?thesis by (auto simp: write_spec_def write_through_def split: if_splits)
qed

lemma small_cache_ok: "write_ok small_cache" "written small_cache = []"
  by (simp_all add: write_ok_def small_cache_def written_def bytes_at_def)

theorem io_cache_writes_witness:
  "\<exists>info'. write_all write_through [[1, 2, 3], [4, 5]] small_cache = (2, info') \<and> written info' = [1, 2, 3, 4, 5] \<and> my_b_tell info' = 5"
proof -
  have "fst (write_all write_through [[1, 2, 3], [4, 5]] small_cache) = 2"
    by (simp add: my_b_write_def write_through_def small_cache_def written_def split: prod.split)
  then obtain info' where w: "write_all write_through [[1, 2, 3], [4, 5]] small_cache = (2, info')" by (metis fst_conv surj_pair)
  from io_cache_writes [OF write_through_spec small_cache_ok(1) w] have "written info' = [1, 2, 3, 4, 5]" "unat (my_b_tell info') = 5"
    by (auto simp: small_cache_ok(2))
  moreover from this(2) have "my_b_tell info' = 5" by (simp add: word_unat_eq_iff)
  ultimately show ?thesis using w by blast
qed

section \<open>Reading\<close>

text \<open>The buffer of a read cache holds the bytes of the file from \<open>pos_in_file\<close> on; \<open>unread\<close> is what follows the read position.\<close>

definition read_ok :: "IO_CACHE \<Rightarrow> bool" where
  "read_ok info \<longleftrightarrow> io_type info = READ_CACHE \<and> request_pos info = io_buffer info \<and> io_buffer info \<le> read_pos info \<and> read_pos info \<le> read_end info \<and>
     unat (pos_in_file info) + (read_end info - io_buffer info) \<le> length (io_disk info) \<and> length (io_disk info) < 2 ^ 64 \<and>
     bytes_at (io_mem info) (io_buffer info) (read_end info - io_buffer info) = take (read_end info - io_buffer info) (drop (unat (pos_in_file info)) (io_disk info))"

definition unread :: "IO_CACHE \<Rightarrow> uchar list" where
  "unread info = drop (unat (pos_in_file info) + (read_pos info - io_buffer info)) (io_disk info)"

text \<open>\<open>_my_b_read\<close> delivers the next bytes of the file or fails; \<open>_my_b_get\<close> the next one, or \<open>my_b_EOF\<close>.\<close>

definition read_spec :: "(nat \<Rightarrow> IO_CACHE \<Rightarrow> int \<times> uchar list \<times> IO_CACHE) \<Rightarrow> bool" where
  "read_spec slow \<longleftrightarrow> (\<forall>info cnt r bs info'. read_ok info \<and> slow cnt info = (r, bs, info') \<longrightarrow>
     read_ok info' \<and> io_disk info' = io_disk info \<and> (r = 0 \<longrightarrow> unread info = bs @ unread info' \<and> length bs = cnt))"

definition get_spec :: "(IO_CACHE \<Rightarrow> int \<times> IO_CACHE) \<Rightarrow> bool" where
  "get_spec slow \<longleftrightarrow> (\<forall>info c info'. read_ok info \<and> slow info = (c, info') \<longrightarrow>
     read_ok info' \<and> io_disk info' = io_disk info \<and> (c \<noteq> my_b_EOF \<longrightarrow> (\<exists>b. c = int (unat b) \<and> unread info = b # unread info')))"

lemma bytes_at_drop: "k \<le> n \<Longrightarrow> bytes_at m (p + k) (n - k) = drop k (bytes_at m p n)"
  by (simp add: bytes_at_def drop_map)

lemma bytes_at_take: "k \<le> n \<Longrightarrow> bytes_at m p k = take k (bytes_at m p n)"
  by (simp add: bytes_at_def take_map)

lemma unread_buffered:
  assumes "read_ok info" "read_pos info + cnt \<le> read_end info"
  shows "unread info = bytes_at (io_mem info) (read_pos info) cnt @ unread (info\<lparr>read_pos := read_pos info + cnt\<rparr>)"
    "read_ok (info\<lparr>read_pos := read_pos info + cnt\<rparr>)"
proof -
  let ?n = "read_end info - io_buffer info" and ?p = "unat (pos_in_file info)"
  obtain k where k: "read_pos info = io_buffer info + k" using assms(1) le_Suc_ex by (auto simp: read_ok_def)
  have n: "k + cnt \<le> ?n" using assms(2) k by simp
  have "bytes_at (io_mem info) (read_pos info) cnt = take cnt (bytes_at (io_mem info) (io_buffer info + k) (?n - k))"
    unfolding k using n by (intro bytes_at_take) simp
  also have "\<dots> = take cnt (drop k (take ?n (drop ?p (io_disk info))))"
  proof -
    have "bytes_at (io_mem info) (io_buffer info) ?n = take ?n (drop ?p (io_disk info))" using assms(1) by (simp add: read_ok_def)
    then show ?thesis using bytes_at_drop [of k ?n "io_mem info" "io_buffer info"] n by simp
  qed
  also have "\<dots> = take cnt (drop (?p + k) (io_disk info))" using n by (simp add: drop_take min_def add.commute)
  finally show "unread info = bytes_at (io_mem info) (read_pos info) cnt @ unread (info\<lparr>read_pos := read_pos info + cnt\<rparr>)"
    using append_take_drop_id [of cnt "drop (?p + k) (io_disk info)"] k by (simp add: unread_def ac_simps)
  show "read_ok (info\<lparr>read_pos := read_pos info + cnt\<rparr>)" using assms by (auto simp: read_ok_def)
qed

lemma my_b_read_ok:
  assumes "read_spec slow" "read_ok info" "my_b_read slow cnt info = (r, bs, info')"
  shows "read_ok info'" "io_disk info' = io_disk info" "r = 0 \<Longrightarrow> unread info = bs @ unread info' \<and> length bs = cnt"
proof -
  have "read_ok info' \<and> io_disk info' = io_disk info \<and> (r = 0 \<longrightarrow> unread info = bs @ unread info' \<and> length bs = cnt)"
  proof (cases "read_pos info + cnt \<le> read_end info")
    case True
    then show ?thesis using assms(3) unread_buffered [OF assms(2) True] by (auto simp: my_b_read_def)
  next
    case False
    then show ?thesis using assms by (auto simp: my_b_read_def read_spec_def)
  qed
  then show "read_ok info'" "io_disk info' = io_disk info" "r = 0 \<Longrightarrow> unread info = bs @ unread info' \<and> length bs = cnt" by auto
qed

lemma my_b_get_ok:
  assumes "get_spec slow" "read_ok info" "my_b_get slow info = (c, info')"
  shows "read_ok info'" "io_disk info' = io_disk info" "c \<noteq> my_b_EOF \<Longrightarrow> \<exists>b. c = int (unat b) \<and> unread info = b # unread info'"
proof -
  have "read_ok info' \<and> io_disk info' = io_disk info \<and> (c \<noteq> my_b_EOF \<longrightarrow> (\<exists>b. c = int (unat b) \<and> unread info = b # unread info'))"
  proof (cases "read_pos info = read_end info")
    case False
    then have "read_pos info + 1 \<le> read_end info" using assms(2) by (simp add: read_ok_def)
    from unread_buffered [OF assms(2) this] show ?thesis using assms(3) False by (auto simp: my_b_get_def bytes_at_def)
  next
    case True
    then show ?thesis using assms by (auto simp: my_b_get_def get_spec_def)
  qed
  then show "read_ok info'" "io_disk info' = io_disk info" "c \<noteq> my_b_EOF \<Longrightarrow> \<exists>b. c = int (unat b) \<and> unread info = b # unread info'" by auto
qed

lemma read_tell:
  assumes "read_ok info"
  shows "unat (my_b_tell info) + length (unread info) = length (io_disk info)"
proof -
  let ?k = "read_pos info - io_buffer info"
  have "unat (pos_in_file info) + ?k \<le> length (io_disk info)" "length (io_disk info) < 2 ^ 64" using assms by (auto simp: read_ok_def)
  then have "unat (pos_in_file info + of_nat ?k) = unat (pos_in_file info) + ?k" by (simp add: unat_word_ariths unat_of_nat)
  then show ?thesis using assms \<open>unat (pos_in_file info) + ?k \<le> length (io_disk info)\<close> by (simp add: my_b_tell_def read_ok_def unread_def)
qed


text \<open>A sequence of reads, one after the other until one fails: what those that succeeded delivered, and the new state.\<close>

fun read_all :: "(nat \<Rightarrow> IO_CACHE \<Rightarrow> int \<times> uchar list \<times> IO_CACHE) \<Rightarrow> nat list \<Rightarrow> IO_CACHE \<Rightarrow> uchar list list \<times> bool \<times> IO_CACHE" where
  "read_all slow [] info = ([], True, info)"
| "read_all slow (n # ns) info =
     (case my_b_read slow n info of (r, bs, info) \<Rightarrow> if r \<noteq> 0 then ([], False, info) else (case read_all slow ns info of (bss, ok, info) \<Rightarrow> (bs # bss, ok, info)))"

text \<open>C35. Reading through the cache delivers the file: when all reads of a sequence succeed, each has delivered as many bytes as asked for, together they are the next
  bytes of the file, and the position has advanced by their number; reads that the buffer can serve always succeed.
\<close>

theorem io_cache_reads:
  assumes "read_spec slow" "read_ok info" "read_all slow ns info = (bss, ok, info')"
  shows "read_ok info' \<and> io_disk info' = io_disk info \<and>
    (ok \<longrightarrow> unread info = concat bss @ unread info' \<and> map length bss = ns \<and> unat (my_b_tell info') = unat (my_b_tell info) + sum_list ns) \<and>
    (sum_list ns \<le> my_b_bytes_in_cache info \<longrightarrow> ok)"
proof -
  have r: "read_ok info' \<and> io_disk info' = io_disk info \<and> (ok \<longrightarrow> unread info = concat bss @ unread info' \<and> map length bss = ns) \<and>
      (sum_list ns \<le> my_b_bytes_in_cache info \<longrightarrow> ok)"
    using assms(2,3)
  proof (induction ns arbitrary: info bss)
    case (Cons n ns)
    obtain c b i where w: "my_b_read slow n info = (c, b, i)" by (metis surj_pair)
    note k = my_b_read_ok [OF assms(1) Cons.prems(1) w]
    have f: "c = 0 \<and> my_b_bytes_in_cache i = my_b_bytes_in_cache info - n" if "n + sum_list ns \<le> my_b_bytes_in_cache info"
    proof -
      have "read_pos info + n \<le> read_end info" using that Cons.prems(1) by (simp add: my_b_bytes_in_cache_def read_ok_def) linarith
      then show ?thesis using w Cons.prems(1) by (auto simp: my_b_read_def my_b_bytes_in_cache_def read_ok_def)
    qed
    show ?case
    proof (cases "c = 0")
      case True
      then obtain bs where j: "read_all slow ns i = (bs, ok, info')" "bss = b # bs" using Cons.prems(2) w by (auto split: prod.splits)
      from Cons.IH [OF k(1) j(1)] show ?thesis using k(2) k(3) [OF True] j(2) f by auto
    next
      case False
      then have "i = info'" "\<not> ok" using Cons.prems(2) w by auto
      then show ?thesis using k(1,2) f False by auto
    qed
  qed auto
  have "unat (my_b_tell info') = unat (my_b_tell info) + sum_list ns" if ok
  proof -
    have "length (unread info) = sum_list ns + length (unread info')" using r that by (metis length_append length_concat)
    then show ?thesis using read_tell [OF assms(2)] read_tell [of info'] r by simp
  qed
  then show ?thesis using r by blast
qed

text \<open>A slow path that delivers from the file and leaves an empty buffer at the new position, on a file of five bytes with two of them in the buffer.\<close>

definition read_direct :: "nat \<Rightarrow> IO_CACHE \<Rightarrow> int \<times> uchar list \<times> IO_CACHE" where
  "read_direct cnt info =
     (if cnt \<le> length (unread info)
      then (0, take cnt (unread info), info\<lparr>pos_in_file := my_b_tell info + of_nat cnt, read_pos := io_buffer info, read_end := io_buffer info\<rparr>)
      else (1, [], info))"

definition half_read :: IO_CACHE where
  "half_read = small_cache\<lparr>io_type := READ_CACHE, read_pos := 100, read_end := 102, io_mem := put_bytes 100 [1, 2] (\<lambda>_. 0), io_disk := [1, 2, 3, 4, 5]\<rparr>"

lemma read_direct_spec: "read_spec read_direct"
proof -
  have "read_ok info' \<and> io_disk info' = io_disk info \<and> unread info = take cnt (unread info) @ unread info'"
    if "read_ok info" "cnt \<le> length (unread info)"
      "info' = info\<lparr>pos_in_file := my_b_tell info + of_nat cnt, read_pos := io_buffer info, read_end := io_buffer info\<rparr>" for info cnt info'
  proof -
    have l: "unat (my_b_tell info) + length (unread info) = length (io_disk info)" "length (io_disk info) < 2 ^ 64"
      using read_tell [OF that(1)] that(1) by (auto simp: read_ok_def)
    then have "unat (my_b_tell info) + cnt < 2 ^ 64" "cnt < 2 ^ 64" using that(2) by linarith+
    then have p: "unat (my_b_tell info + of_nat cnt) = unat (my_b_tell info) + cnt" by (simp add: unat_word_ariths unat_of_nat)
    have u: "unread info = drop (unat (my_b_tell info)) (io_disk info)"
    proof -
      have "unat (pos_in_file info) + (read_pos info - io_buffer info) \<le> length (io_disk info)" using that(1) by (auto simp: read_ok_def)
      then have "unat (my_b_tell info) = unat (pos_in_file info) + (read_pos info - io_buffer info)"
        using l by (simp add: unread_def)
      then show ?thesis by (simp add: unread_def)
    qed
    have "unread info' = drop cnt (unread info)" using p by (simp add: that(3) unread_def [of "_\<lparr>read_end := _\<rparr>"] u add.commute)
    then show ?thesis using that(1,2) p l by (auto simp: that(3) read_ok_def bytes_at_def)
  qed
  then show ?thesis by (auto simp: read_spec_def read_direct_def split: if_splits)
qed

lemma half_read_ok: "read_ok half_read" "unread half_read = [1, 2, 3, 4, 5]"
  by (simp_all add: read_ok_def half_read_def small_cache_def unread_def bytes_at_def put_bytes_def upt_rec)

theorem io_cache_reads_witness:
  "\<exists>bss ok info'. read_all read_direct [1, 3] half_read = (bss, ok, info') \<and> (ok \<longrightarrow> take 4 [1, 2, 3, 4, 5] = concat bss \<and> map length bss = [1, 3])"
proof -
  obtain bss ok info' where w: "read_all read_direct [1, 3] half_read = (bss, ok, info')" by (metis surj_pair)
  have p: "ok \<longrightarrow> [1, 2, 3, 4, 5] = concat bss @ unread info' \<and> map length bss = [1, 3]"
    using io_cache_reads [OF read_direct_spec half_read_ok(1) w] unfolding half_read_ok(2) by blast
  have "ok \<longrightarrow> take 4 [1, 2, 3, 4, 5] = concat bss \<and> map length bss = [1, 3]"
  proof
    assume ok
    then have s: "[1, 2, 3, 4, 5] = concat bss @ unread info'" "map length bss = [1, 3]" using p by simp_all
    then have "length (concat bss) = 4" by (simp add: length_concat)
    then show "take 4 [1, 2, 3, 4, 5] = concat bss \<and> map length bss = [1, 3]" unfolding s(1) s(2) by simp
  qed
  then show ?thesis using w by (intro exI conjI)
qed

end
