(* ===== verification/Binlog_Cache.thy ===== *)
theory Binlog_Cache
  imports Io_Cache
begin

text \<open>
  \<open>binlog_cache_data\<close> of \<open>log_cache.h\<close>: the cache in which a transaction collects its binary log events, on the file cache of \<open>Io_Cache\<close>. The state has the members, the
  counters behind the two status pointers and the events that have been deleted. \<open>reinit_io_cache\<close> and \<open>my_chsize\<close> are only declared: they are arguments with the
  predicates \<open>reinit_spec\<close> and \<open>chsize_spec\<close>. \<^const>\<open>None\<close> is a failed assertion or the use of a null pointer. The global \<open>binlog_checksum_options\<close> is an argument.
\<close>

section \<open>The cache of a transaction\<close>

definition MY_OFF_T_UNDEF :: ulonglong where "MY_OFF_T_UNDEF = - 1"
definition CACHE_FILE_TRUNC_SIZE :: ulonglong where "CACHE_FILE_TRUNC_SIZE = 65536"

definition LOGGED_TABLE_MAP :: uint where "LOGGED_TABLE_MAP = 1"
definition LOGGED_ROW_EVENT :: uint where "LOGGED_ROW_EVENT = 2"
definition LOGGED_NO_DATA :: uint where "LOGGED_NO_DATA = 4"
definition LOGGED_CRITICAL :: uint where "LOGGED_CRITICAL = 8"

definition BINLOG_CHECKSUM_ALG_OFF :: uint where "BINLOG_CHECKSUM_ALG_OFF = 0"

record binlog_cache_data =
  cache_log :: IO_CACHE
  before_stmt_pos :: ulonglong
  m_pending :: nat
  bc_status :: uint
  checksum_opt :: uint
  incident :: bool
  precompute_checksums :: bool
  saved_max_binlog_cache_size :: ulonglong
  ptr_binlog_cache_use :: nat
  ptr_binlog_cache_disk_use :: nat
  counters :: "nat \<Rightarrow> uint"
  deleted_events :: "nat list"

definition choose_checksum :: "uint \<Rightarrow> bool \<Rightarrow> uint" where
  "choose_checksum options precompute = (if \<not> precompute then BINLOG_CHECKSUM_ALG_OFF else options)"

definition bc_new :: "uint \<Rightarrow> bool \<Rightarrow> IO_CACHE \<Rightarrow> (nat \<Rightarrow> uint) \<Rightarrow> binlog_cache_data" where
  "bc_new options precompute log cs =
     \<lparr>cache_log = log, before_stmt_pos = MY_OFF_T_UNDEF, m_pending = 0, bc_status = 0, checksum_opt = choose_checksum options precompute, incident = False,
      precompute_checksums = precompute, saved_max_binlog_cache_size = 0, ptr_binlog_cache_use = 0, ptr_binlog_cache_disk_use = 0, counters = cs, deleted_events = []\<rparr>"

definition bc_empty :: "binlog_cache_data \<Rightarrow> bool" where
  "bc_empty d \<longleftrightarrow> m_pending d = 0 \<and> (my_b_write_tell (cache_log d) = 0 \<or> bc_status d AND (LOGGED_ROW_EVENT OR LOGGED_CRITICAL) = 0)"

definition bc_destroy :: "(IO_CACHE \<Rightarrow> IO_CACHE) \<Rightarrow> binlog_cache_data \<Rightarrow> binlog_cache_data option" where
  "bc_destroy close_cached_file d = (if bc_empty d then Some (d\<lparr>cache_log := close_cached_file (cache_log d)\<rparr>) else None)"

definition set_pending :: "nat \<Rightarrow> binlog_cache_data \<Rightarrow> binlog_cache_data" where "set_pending pending_arg d = d\<lparr>m_pending := pending_arg\<rparr>"

definition set_incident :: "binlog_cache_data \<Rightarrow> binlog_cache_data" where "set_incident d = d\<lparr>incident := True\<rparr>"

definition get_byte_position :: "binlog_cache_data \<Rightarrow> ulonglong" where "get_byte_position d = my_b_tell (cache_log d)"

definition set_prev_position :: "ulonglong \<Rightarrow> binlog_cache_data \<Rightarrow> binlog_cache_data" where "set_prev_position p d = d\<lparr>before_stmt_pos := p\<rparr>"

definition add_status :: "uint \<Rightarrow> binlog_cache_data \<Rightarrow> binlog_cache_data" where "add_status status_arg d = d\<lparr>bc_status := bc_status d OR status_arg\<rparr>"

type_synonym reinit = "cache_type \<Rightarrow> ulonglong \<Rightarrow> bool \<Rightarrow> bool \<Rightarrow> IO_CACHE \<Rightarrow> bool \<times> IO_CACHE"

definition bc_truncate :: "reinit \<Rightarrow> ulonglong \<Rightarrow> bool \<Rightarrow> binlog_cache_data \<Rightarrow> binlog_cache_data option" where
  "bc_truncate reinit p reset_cache d =
     (let d = d\<lparr>cache_log := (cache_log d)\<lparr>io_err := 0\<rparr>\<rparr>;
          d = (if m_pending d \<noteq> 0 then set_pending 0 (d\<lparr>deleted_events := deleted_events d @ [m_pending d]\<rparr>) else d)
      in case reinit WRITE_CACHE p False reset_cache (cache_log d) of
           (res, log) \<Rightarrow> if res then None else Some (d\<lparr>cache_log := log\<lparr>end_of_file := saved_max_binlog_cache_size d\<rparr>\<rparr>))"

definition statistic_increment :: "nat \<Rightarrow> binlog_cache_data \<Rightarrow> binlog_cache_data option" where
  "statistic_increment p d = (if p = 0 then None else Some (d\<lparr>counters := (counters d)(p := counters d p + 1)\<rparr>))"

definition compute_statistics :: "binlog_cache_data \<Rightarrow> binlog_cache_data option" where
  "compute_statistics d = do {
     d \<leftarrow> statistic_increment (ptr_binlog_cache_use d) d;
     (if disk_writes (cache_log d) \<noteq> 0
      then do { d \<leftarrow> statistic_increment (ptr_binlog_cache_disk_use d) d; Some (d\<lparr>cache_log := (cache_log d)\<lparr>disk_writes := 0\<rparr>\<rparr>) }
      else Some d) }"

definition bc_reset :: "reinit \<Rightarrow> (uchar list \<Rightarrow> uchar list) \<Rightarrow> uint \<Rightarrow> binlog_cache_data \<Rightarrow> binlog_cache_data option" where
  "bc_reset reinit chsize options d = do {
     let cache_was_empty = bc_empty d;
     let truncate_file = (io_fd (cache_log d) \<noteq> -1 \<and> my_b_write_tell (cache_log d) > CACHE_FILE_TRUNC_SIZE);
     d \<leftarrow> bc_truncate reinit 0 True d;
     let d = d\<lparr>checksum_opt := choose_checksum options (precompute_checksums d)\<rparr>;
     d \<leftarrow> (if \<not> cache_was_empty then compute_statistics d else Some d);
     let d = (if truncate_file then d\<lparr>cache_log := (cache_log d)\<lparr>io_disk := chsize (io_disk (cache_log d))\<rparr>\<rparr> else d);
     let d = d\<lparr>bc_status := 0, incident := False, before_stmt_pos := MY_OFF_T_UNDEF\<rparr>;
     (if bc_empty d then Some d else None) }"

definition restore_prev_position :: "reinit \<Rightarrow> binlog_cache_data \<Rightarrow> binlog_cache_data option" where
  "restore_prev_position reinit d = bc_truncate reinit (before_stmt_pos d) False d"

definition restore_savepoint :: "reinit \<Rightarrow> ulonglong \<Rightarrow> binlog_cache_data \<Rightarrow> binlog_cache_data option" where
  "restore_savepoint reinit p d = do {
     d \<leftarrow> bc_truncate reinit p False d;
     Some (if p < before_stmt_pos d then d\<lparr>before_stmt_pos := MY_OFF_T_UNDEF\<rparr> else d) }"

definition set_binlog_cache_info :: "ulonglong \<Rightarrow> nat \<Rightarrow> nat \<Rightarrow> binlog_cache_data \<Rightarrow> binlog_cache_data option" where
  "set_binlog_cache_info max_size use disk_use d =
     (if saved_max_binlog_cache_size d = 0 \<and> max_size \<noteq> 0 \<and> ptr_binlog_cache_use d = 0 \<and> use \<noteq> 0 \<and> ptr_binlog_cache_disk_use d = 0 \<and> disk_use \<noteq> 0
      then Some (d\<lparr>saved_max_binlog_cache_size := max_size, ptr_binlog_cache_use := use, ptr_binlog_cache_disk_use := disk_use,
             cache_log := (cache_log d)\<lparr>end_of_file := max_size\<rparr>\<rparr>)
      else None)"

section \<open>What the cache relies on\<close>

text \<open>\<open>reinit_io_cache\<close>, asked for a write cache at a position it has reached, may fail; when it succeeds it keeps the file and the bytes in front of the position.
  Nothing is promised of the number of disk writes.
\<close>

definition reinit_spec :: "reinit \<Rightarrow> bool" where
  "reinit_spec reinit \<longleftrightarrow> (\<forall>p rc info info'. write_ok info \<and> unat p \<le> length (written info) \<and> reinit WRITE_CACHE p False rc info = (False, info') \<longrightarrow>
     write_ok info' \<and> written info' = take (unat p) (written info) \<and> io_fd info' = io_fd info \<and> (p = 0 \<longrightarrow> pos_in_file info' = 0))"

text \<open>What \<open>truncate\<close> gets from \<open>reinit_io_cache\<close>: whether it failed, and the file cache.\<close>

definition reinited :: "reinit \<Rightarrow> ulonglong \<Rightarrow> bool \<Rightarrow> binlog_cache_data \<Rightarrow> bool \<times> IO_CACHE" where
  "reinited reinit p rc d = reinit WRITE_CACHE p False rc ((cache_log d)\<lparr>io_err := 0\<rparr>)"

text \<open>\<open>my_chsize\<close> to 0 empties the file or, when it fails, leaves it.\<close>

definition chsize_spec :: "(uchar list \<Rightarrow> uchar list) \<Rightarrow> bool" where
  "chsize_spec chsize \<longleftrightarrow> (\<forall>f. chsize f = [] \<or> chsize f = f)"

text \<open>A configured cache whose statement position, if there is one, lies in what has been written.\<close>

definition bc_ok :: "binlog_cache_data \<Rightarrow> bool" where
  "bc_ok d \<longleftrightarrow> write_ok (cache_log d) \<and> ptr_binlog_cache_use d \<noteq> 0 \<and> ptr_binlog_cache_disk_use d \<noteq> 0 \<and>
     (before_stmt_pos d = MY_OFF_T_UNDEF \<or> unat (before_stmt_pos d) \<le> length (written (cache_log d)))"

lemma written_cong [simp]:
  "written (info\<lparr>io_err := e\<rparr>) = written info" "written (info\<lparr>end_of_file := p\<rparr>) = written info" "written (info\<lparr>disk_writes := n\<rparr>) = written info"
  "write_ok (info\<lparr>io_err := e\<rparr>) = write_ok info" "write_ok (info\<lparr>end_of_file := p\<rparr>) = write_ok info" "write_ok (info\<lparr>disk_writes := n\<rparr>) = write_ok info"
  by (simp_all add: written_def write_ok_def)

lemma bc_truncate_eq:
  "bc_truncate reinit p rc d =
     (if fst (reinited reinit p rc d) then None
      else Some (d\<lparr>m_pending := 0, deleted_events := deleted_events d @ (if m_pending d = 0 then [] else [m_pending d]),
             cache_log := (snd (reinited reinit p rc d))\<lparr>end_of_file := saved_max_binlog_cache_size d\<rparr>\<rparr>))"
  by (simp add: bc_truncate_def reinited_def set_pending_def split_beta)

lemma reinited_ok:
  assumes "reinit_spec reinit" "write_ok (cache_log d)" "unat p \<le> length (written (cache_log d))" "\<not> fst (reinited reinit p rc d)"
  shows "write_ok (snd (reinited reinit p rc d))" "written (snd (reinited reinit p rc d)) = take (unat p) (written (cache_log d))"
    "p = 0 \<longrightarrow> pos_in_file (snd (reinited reinit p rc d)) = 0"
proof -
  have r: "reinit WRITE_CACHE p False rc ((cache_log d)\<lparr>io_err := 0\<rparr>) = (False, snd (reinited reinit p rc d))"
    using assms(4) unfolding reinited_def by (metis (full_types) prod.collapse)
  then show "write_ok (snd (reinited reinit p rc d))" "written (snd (reinited reinit p rc d)) = take (unat p) (written (cache_log d))"
    "p = 0 \<longrightarrow> pos_in_file (snd (reinited reinit p rc d)) = 0"
    using assms(1) [unfolded reinit_spec_def, rule_format, OF conjI [OF _ conjI [OF _ r]]] assms(2,3) by simp_all
qed

section \<open>Steps of a transaction\<close>

lemma restore_savepoint_ok:
  assumes "reinit_spec reinit" "bc_ok d" "unat p \<le> length (written (cache_log d))"
  shows "if fst (reinited reinit p False d) then restore_savepoint reinit p d = None
    else \<exists>d'. restore_savepoint reinit p d = Some d' \<and> bc_ok d' \<and> m_pending d' = 0 \<and> written (cache_log d') = take (unat p) (written (cache_log d)) \<and>
      before_stmt_pos d' = (if p < before_stmt_pos d then MY_OFF_T_UNDEF else before_stmt_pos d) \<and> bc_status d' = bc_status d"
proof (cases "fst (reinited reinit p False d)")
  case True
  then show ?thesis by (simp add: restore_savepoint_def bc_truncate_eq)
next
  case False
  then show ?thesis using reinited_ok [OF assms(1) _ assms(3) False] assms(2,3)
    by (auto simp: restore_savepoint_def bc_truncate_eq bc_ok_def word_less_nat_alt)
qed

lemma restore_prev_position_ok:
  assumes "reinit_spec reinit" "bc_ok d" "before_stmt_pos d \<noteq> MY_OFF_T_UNDEF"
  shows "if fst (reinited reinit (before_stmt_pos d) False d) then restore_prev_position reinit d = None
    else \<exists>d'. restore_prev_position reinit d = Some d' \<and> bc_ok d' \<and> m_pending d' = 0 \<and>
      written (cache_log d') = take (unat (before_stmt_pos d)) (written (cache_log d)) \<and> before_stmt_pos d' = before_stmt_pos d"
proof (cases "fst (reinited reinit (before_stmt_pos d) False d)")
  case True
  then show ?thesis by (simp add: restore_prev_position_def bc_truncate_eq)
next
  case False
  have "unat (before_stmt_pos d) \<le> length (written (cache_log d))" "write_ok (cache_log d)" using assms(2,3) by (auto simp: bc_ok_def)
  then show ?thesis using reinited_ok [OF assms(1) _ _ False] False assms(2)
    by (auto simp: restore_prev_position_def bc_truncate_eq bc_ok_def)
qed

lemma chsize_written:
  assumes "chsize_spec chsize" "write_ok log" "pos_in_file log = 0"
  shows "write_ok (log\<lparr>io_disk := chsize (io_disk log)\<rparr>)" "written (log\<lparr>io_disk := chsize (io_disk log)\<rparr>) = written log"
  using assms by (auto simp: chsize_spec_def write_ok_def written_def)

text \<open>The counters after a reset: the use of the cache, and of its file.\<close>

definition counted :: "binlog_cache_data \<Rightarrow> nat \<Rightarrow> uint" where
  "counted d =
     (let c = (counters d)(ptr_binlog_cache_use d := counters d (ptr_binlog_cache_use d) + 1)
      in if disk_writes (cache_log d) \<noteq> 0 then c(ptr_binlog_cache_disk_use d := c (ptr_binlog_cache_disk_use d) + 1) else c)"

lemma compute_statistics_ok:
  assumes "ptr_binlog_cache_use d \<noteq> 0" "ptr_binlog_cache_disk_use d \<noteq> 0"
  shows "compute_statistics d = Some (d\<lparr>counters := counted d, cache_log := (cache_log d)\<lparr>disk_writes := 0\<rparr>\<rparr>)"
proof (cases "disk_writes (cache_log d) = 0")
  case True
  then have "(cache_log d)\<lparr>disk_writes := 0\<rparr> = cache_log d" by simp
  then show ?thesis using assms True by (simp add: compute_statistics_def statistic_increment_def counted_def)
next
  case False
  then show ?thesis using assms by (simp add: compute_statistics_def statistic_increment_def counted_def Let_def)
qed

lemma bc_reset_ok:
  assumes "reinit_spec reinit" "chsize_spec chsize" "bc_ok d" "\<not> fst (reinited reinit 0 True d)"
  defines "log \<equiv> snd (reinited reinit 0 True d)"
  shows "\<exists>d'. bc_reset reinit chsize options d = Some d' \<and> bc_ok d' \<and> written (cache_log d') = [] \<and> bc_empty d' \<and> before_stmt_pos d' = MY_OFF_T_UNDEF \<and>
    \<not> incident d' \<and> bc_status d' = 0 \<and> deleted_events d' = deleted_events d @ (if m_pending d = 0 then [] else [m_pending d]) \<and>
    counters d' = (if bc_empty d then counters d else counted (d\<lparr>cache_log := log\<rparr>)) \<and>
    disk_writes (cache_log d') = (if bc_empty d then disk_writes log else 0)"
proof -
  have p: "ptr_binlog_cache_use d \<noteq> 0" "ptr_binlog_cache_disk_use d \<noteq> 0" "write_ok (cache_log d)" using assms(3) by (simp_all add: bc_ok_def)
  have l: "write_ok log" "written log = []" "pos_in_file log = 0" using reinited_ok [OF assms(1) p(3) _ assms(4)] unfolding log_def by simp_all
  let ?t = "io_fd (cache_log d) \<noteq> -1 \<and> my_b_write_tell (cache_log d) > CACHE_FILE_TRUNC_SIZE"
  let ?l = "log\<lparr>end_of_file := saved_max_binlog_cache_size d\<rparr>"
  let ?d = "d\<lparr>m_pending := 0, deleted_events := deleted_events d @ (if m_pending d = 0 then [] else [m_pending d]), cache_log := ?l,
      checksum_opt := choose_checksum options (precompute_checksums d)\<rparr>"
  let ?e = "if bc_empty d then ?d else ?d\<lparr>counters := counted (d\<lparr>cache_log := log\<rparr>), cache_log := ?l\<lparr>disk_writes := 0\<rparr>\<rparr>"
  let ?f = "(if ?t then ?e\<lparr>cache_log := (cache_log ?e)\<lparr>io_disk := chsize (io_disk (cache_log ?e))\<rparr>\<rparr> else ?e)
      \<lparr>bc_status := 0, incident := False, before_stmt_pos := MY_OFF_T_UNDEF\<rparr>"
  have c: "counted ?d = counted (d\<lparr>cache_log := log\<rparr>)" by (simp add: counted_def Let_def)
  have s: "(if \<not> bc_empty d then compute_statistics ?d else Some ?d) = Some ?e"
    using compute_statistics_ok [of ?d] p c by simp
  have e: "write_ok (cache_log ?e)" "written (cache_log ?e) = []" "pos_in_file (cache_log ?e) = 0" using l by simp_all
  have f: "write_ok (cache_log ?f)" "written (cache_log ?f) = []" using e chsize_written [OF assms(2) e(1,3)] by (auto simp del: written_cong split del: if_split) (auto)
  have g: "bc_empty ?f" by (simp add: bc_empty_def)
  have "bc_reset reinit chsize options d = Some ?f"
    unfolding bc_reset_def Let_def bc_truncate_eq using s g assms(4) by (simp add: log_def cong: if_cong)
  then show ?thesis using f g p by (intro exI [of _ ?f]) (auto simp: bc_ok_def)
qed

lemma bc_reset_fails: "fst (reinited reinit 0 True d) \<Longrightarrow> bc_reset reinit chsize options d = None"
  by (simp add: bc_reset_def bc_truncate_eq Let_def)

text \<open>What happens to a cache: the operations of the class, and events written to its file cache, which may fail. The flags of a write are added as it is made.\<close>

inductive bc_step :: "(uchar list \<Rightarrow> IO_CACHE \<Rightarrow> int \<times> IO_CACHE) \<Rightarrow> reinit \<Rightarrow> (uchar list \<Rightarrow> uchar list) \<Rightarrow> binlog_cache_data \<Rightarrow> binlog_cache_data \<Rightarrow> bool"
  for slow reinit chsize where
  write_event: "my_b_write slow bs (cache_log d) = (r, log) \<Longrightarrow> bc_step slow reinit chsize d (d\<lparr>cache_log := log\<rparr>)"
| status_added: "bc_step slow reinit chsize d (add_status s d)"
| pending_set: "bc_step slow reinit chsize d (set_pending p d)"
| incident_set: "bc_step slow reinit chsize d (set_incident d)"
| statement_begins: "bc_step slow reinit chsize d (set_prev_position (get_byte_position d) d)"
| statement_undone: "before_stmt_pos d \<noteq> MY_OFF_T_UNDEF \<Longrightarrow> restore_prev_position reinit d = Some d' \<Longrightarrow> bc_step slow reinit chsize d d'"
| savepoint_restored: "unat p \<le> length (written (cache_log d)) \<Longrightarrow> restore_savepoint reinit p d = Some d' \<Longrightarrow> bc_step slow reinit chsize d d'"
| cache_reset: "bc_reset reinit chsize options d = Some d' \<Longrightarrow> bc_step slow reinit chsize d d'"

lemma bc_ok_write:
  assumes "write_spec slow" "bc_ok d" "my_b_write slow bs (cache_log d) = (r, log)"
  shows "bc_ok (d\<lparr>cache_log := log\<rparr>)" "take (length (written (cache_log d))) (written log) = written (cache_log d)"
proof -
  note w = my_b_write_ok [OF assms(1) _ assms(3)]
  have "write_ok (cache_log d)" using assms(2) by (simp add: bc_ok_def)
  note w = w [OF this]
  then show t: "take (length (written (cache_log d))) (written log) = written (cache_log d)" by simp
  then have "length (written (cache_log d)) \<le> length (written log)" by (metis length_take min.cobounded1)
  then show "bc_ok (d\<lparr>cache_log := log\<rparr>)" using w(1) assms(2) by (auto simp: bc_ok_def)
qed

lemma bc_ok_simple:
  assumes "bc_ok d"
  shows "bc_ok (add_status s d)" "bc_ok (set_pending p d)" "bc_ok (set_incident d)" "bc_ok (set_prev_position (get_byte_position d) d)"
    "unat (get_byte_position d) = length (written (cache_log d))"
proof -
  have "write_ok (cache_log d)" using assms by (simp add: bc_ok_def)
  from tell_written [OF this] show p: "unat (get_byte_position d) = length (written (cache_log d))" by (simp add: get_byte_position_def)
  show "bc_ok (add_status s d)" "bc_ok (set_pending p d)" "bc_ok (set_incident d)" "bc_ok (set_prev_position (get_byte_position d) d)"
    using assms p by (auto simp: bc_ok_def add_status_def set_pending_def set_incident_def set_prev_position_def)
qed

lemma bc_step_ok:
  assumes "write_spec slow" "reinit_spec reinit" "chsize_spec chsize" "bc_step slow reinit chsize d d'" "bc_ok d"
  shows "bc_ok d'"
  using assms(4)
proof cases
  case (write_event bs r log)
  then show ?thesis using bc_ok_write(1) [OF assms(1,5)] by simp
next
  case statement_undone
  then show ?thesis using restore_prev_position_ok [OF assms(2,5)] by (auto split: if_splits)
next
  case (savepoint_restored p)
  then show ?thesis using restore_savepoint_ok [OF assms(2,5), of p] by (auto split: if_splits)
next
  case (cache_reset options)
  then show ?thesis using bc_reset_ok [OF assms(2,3,5), of options] bc_reset_fails [of reinit d chsize options] by force
qed (use bc_ok_simple [OF assms(5)] in auto)

text \<open>C12. In every state a configured cache reaches, the position before the current statement lies in what has been written, so that undoing the statement, restoring a
  savepoint and resetting the cache fail an assertion exactly when \<open>reinit_io_cache\<close> reports an error. Otherwise a savepoint keeps exactly the bytes in front of it, and the reset
  gives an empty cache without flags or incident, deletes the pending event, and, when there was something to log, counts the use of the cache, and of its file if there
  were disk writes, and starts the disk writes at 0 again.
\<close>

theorem binlog_cache_invariant:
  assumes "write_spec slow" "reinit_spec reinit" "chsize_spec chsize" "bc_ok d0" "(bc_step slow reinit chsize)\<^sup>*\<^sup>* d0 d"
  shows "bc_ok d \<and>
    (before_stmt_pos d \<noteq> MY_OFF_T_UNDEF \<longrightarrow> (restore_prev_position reinit d = None \<longleftrightarrow> fst (reinited reinit (before_stmt_pos d) False d))) \<and>
    (unat p \<le> length (written (cache_log d)) \<longrightarrow>
      (if fst (reinited reinit p False d) then restore_savepoint reinit p d = None
       else \<exists>d'. restore_savepoint reinit p d = Some d' \<and> m_pending d' = 0 \<and> written (cache_log d') = take (unat p) (written (cache_log d)))) \<and>
    (if fst (reinited reinit 0 True d) then bc_reset reinit chsize options d = None
     else \<exists>d'. bc_reset reinit chsize options d = Some d' \<and> written (cache_log d') = [] \<and> bc_empty d' \<and> bc_status d' = 0 \<and> \<not> incident d' \<and>
       deleted_events d' = deleted_events d @ (if m_pending d = 0 then [] else [m_pending d]) \<and>
       counters d' = (if bc_empty d then counters d else counted (d\<lparr>cache_log := snd (reinited reinit 0 True d)\<rparr>)) \<and>
       disk_writes (cache_log d') = (if bc_empty d then disk_writes (snd (reinited reinit 0 True d)) else 0))"
proof -
  have ok: "bc_ok d" using assms(5,4) by induction (auto intro: bc_step_ok [OF assms(1-3)])
  have r: "restore_prev_position reinit d = None \<longleftrightarrow> fst (reinited reinit (before_stmt_pos d) False d)"
    by (simp add: restore_prev_position_def bc_truncate_eq)
  have s: "if fst (reinited reinit p False d) then restore_savepoint reinit p d = None
      else \<exists>d'. restore_savepoint reinit p d = Some d' \<and> m_pending d' = 0 \<and> written (cache_log d') = take (unat p) (written (cache_log d))"
    if "unat p \<le> length (written (cache_log d))"
    using restore_savepoint_ok [OF assms(2) ok that] by (cases "fst (reinited reinit p False d)") auto
  show ?thesis
  proof (cases "fst (reinited reinit 0 True d)")
    case True
    then show ?thesis using ok r s bc_reset_fails [OF True] by simp
  next
    case False
    show ?thesis unfolding if_not_P [OF False] using ok r s bc_reset_ok [OF assms(2,3) ok False, of options] by blast
  qed
qed

text \<open>
  The steps inside a statement: those that do not begin or undo it, reset the cache or go back in front of it. They keep the bytes in front of the statement.
\<close>

inductive stmt_step :: "(uchar list \<Rightarrow> IO_CACHE \<Rightarrow> int \<times> IO_CACHE) \<Rightarrow> reinit \<Rightarrow> binlog_cache_data \<Rightarrow> binlog_cache_data \<Rightarrow> bool" for slow reinit where
  "my_b_write slow bs (cache_log d) = (r, log) \<Longrightarrow> stmt_step slow reinit d (d\<lparr>cache_log := log\<rparr>)"
| "stmt_step slow reinit d (add_status s d)"
| "stmt_step slow reinit d (set_pending p d)"
| "stmt_step slow reinit d (set_incident d)"
| "before_stmt_pos d \<le> p \<Longrightarrow> unat p \<le> length (written (cache_log d)) \<Longrightarrow> restore_savepoint reinit p d = Some d' \<Longrightarrow> stmt_step slow reinit d d'"

lemma stmt_step_keeps:
  assumes "write_spec slow" "reinit_spec reinit" "stmt_step slow reinit d d'" "bc_ok d" "before_stmt_pos d \<noteq> MY_OFF_T_UNDEF"
  shows "bc_ok d' \<and> before_stmt_pos d' = before_stmt_pos d \<and>
    take (unat (before_stmt_pos d)) (written (cache_log d')) = take (unat (before_stmt_pos d)) (written (cache_log d))"
  using assms(3)
proof cases
  case (1 bs r log)
  note w = bc_ok_write [OF assms(1,4) 1(2)]
  have "unat (before_stmt_pos d) \<le> length (written (cache_log d))" using assms(4,5) by (simp add: bc_ok_def)
  then have "take (unat (before_stmt_pos d)) (written log) = take (unat (before_stmt_pos d)) (take (length (written (cache_log d))) (written log))"
    by (simp add: min_def)
  then show ?thesis using w 1 by simp
next
  case (5 p)
  obtain d'' where "restore_savepoint reinit p d = Some d''" "bc_ok d''" "written (cache_log d'') = take (unat p) (written (cache_log d))"
    "before_stmt_pos d'' = before_stmt_pos d" using restore_savepoint_ok [OF assms(2,4) 5(2)] leD [OF 5(1)] 5(3) by (auto split: if_splits)
  then show ?thesis using 5 by (simp add: word_le_nat_alt min_def)
qed (use bc_ok_simple [OF assms(4)] in \<open>auto simp: add_status_def set_pending_def set_incident_def\<close>)

text \<open>C17. Undoing a statement restores the cache as it was when the statement began: after \<open>set_prev_position\<close> at the current position and any sequence of writes, some of
  which may have failed half-way, of flags, pending events and savepoints restored inside the statement, \<open>restore_prev_position\<close> succeeds, unless \<open>reinit_io_cache\<close> fails
  and with it the assertion, and leaves exactly the bytes the cache held before, and no pending event.
\<close>

theorem binlog_statement_undone:
  assumes "write_spec slow" "reinit_spec reinit" "bc_ok d0" "get_byte_position d0 \<noteq> MY_OFF_T_UNDEF"
    "(stmt_step slow reinit)\<^sup>*\<^sup>* (set_prev_position (get_byte_position d0) d0) d"
  shows "if fst (reinited reinit (get_byte_position d0) False d) then restore_prev_position reinit d = None
    else \<exists>d'. restore_prev_position reinit d = Some d' \<and> written (cache_log d') = written (cache_log d0) \<and> m_pending d' = 0 \<and> bc_ok d'"
proof -
  let ?p = "get_byte_position d0"
  have p: "unat ?p = length (written (cache_log d0))" by (rule bc_ok_simple(5) [OF assms(3)])
  have d: "bc_ok d \<and> before_stmt_pos d = ?p \<and> take (unat ?p) (written (cache_log d)) = written (cache_log d0)"
    using assms(5)
  proof induction
    case base
    then show ?case using bc_ok_simple(4) [OF assms(3)] p by (simp add: set_prev_position_def)
  next
    case (step y z)
    then show ?case using stmt_step_keeps [OF assms(1,2) step.hyps(2)] assms(4) by simp
  qed
  then show ?thesis using restore_prev_position_ok [OF assms(2), of d] assms(4) by (auto split: if_splits)
qed

section \<open>An instance\<close>

text \<open>\<open>reinit_io_cache\<close> that flushes what it keeps to the file, and a configured cache.\<close>

definition reinit_flushing :: reinit where
  "reinit_flushing t p a rc info =
     (False, info\<lparr>io_disk := take (unat p) (written info), pos_in_file := p, write_pos := write_buffer info, write_end := write_buffer info\<rparr>)"

lemma reinit_flushing_spec: "reinit_spec reinit_flushing"
  unfolding reinit_spec_def
proof (intro allI impI)
  fix p :: ulonglong and rc :: bool and info info'
  assume "write_ok info \<and> unat p \<le> length (written info) \<and> reinit_flushing WRITE_CACHE p False rc info = (False, info')"
  moreover have "unat p < 2 ^ 64" using unat_bound [of p] by simp
  ultimately show "write_ok info' \<and> written info' = take (unat p) (written info) \<and> io_fd info' = io_fd info \<and> (p = 0 \<longrightarrow> pos_in_file info' = 0)"
    by (auto simp: reinit_flushing_def write_ok_def written_def [of "_\<lparr>write_end := _\<rparr>"] bytes_at_def)
qed

lemma reinit_flushing_succeeds: "\<not> fst (reinited reinit_flushing p rc d)" by (simp add: reinited_def reinit_flushing_def)

definition sample_bc :: binlog_cache_data where
  "sample_bc = (bc_new 1 True small_cache (\<lambda>_. 0))\<lparr>saved_max_binlog_cache_size := 1000, ptr_binlog_cache_use := 8, ptr_binlog_cache_disk_use := 12\<rparr>"

lemma sample_bc_ok: "bc_ok sample_bc" "cache_log sample_bc = small_cache"
  using small_cache_ok by (simp_all add: bc_ok_def sample_bc_def bc_new_def)

theorem binlog_cache_invariant_witness:
  "\<exists>d'. bc_reset reinit_flushing (\<lambda>_. []) 1 (add_status LOGGED_ROW_EVENT (set_pending 77 sample_bc)) = Some d' \<and> bc_empty d' \<and> deleted_events d' = [77] \<and> counters d' 8 = 1"
proof -
  have "(bc_step write_through reinit_flushing (\<lambda>_. []))\<^sup>*\<^sup>* sample_bc (add_status LOGGED_ROW_EVENT (set_pending 77 sample_bc))"
    by (meson bc_step.intros(2,3) converse_rtranclp_into_rtranclp r_into_rtranclp)
  from binlog_cache_invariant [OF write_through_spec reinit_flushing_spec _ sample_bc_ok(1) this, of 0 1] show ?thesis
    by (auto simp: chsize_spec_def reinit_flushing_succeeds add_status_def set_pending_def bc_empty_def sample_bc_def bc_new_def counted_def Let_def)
qed

theorem binlog_statement_undone_witness:
  "\<exists>d'. restore_prev_position reinit_flushing (set_pending 77 (set_prev_position (get_byte_position sample_bc) sample_bc)) = Some d' \<and>
     written (cache_log d') = [] \<and> m_pending d' = 0"
proof -
  have "(stmt_step write_through reinit_flushing)\<^sup>*\<^sup>* (set_prev_position (get_byte_position sample_bc) sample_bc)
      (set_pending 77 (set_prev_position (get_byte_position sample_bc) sample_bc))"
    by (intro r_into_rtranclp stmt_step.intros(3))
  moreover have "get_byte_position sample_bc \<noteq> MY_OFF_T_UNDEF"
    by (simp add: get_byte_position_def sample_bc_ok(2) my_b_tell_def small_cache_def MY_OFF_T_UNDEF_def)
  ultimately show ?thesis
    using binlog_statement_undone [OF write_through_spec reinit_flushing_spec sample_bc_ok(1)] small_cache_ok(2) by (fastforce simp: sample_bc_ok(2) reinit_flushing_succeeds)
qed

end
