(* ===== verification/Discrete_Interval.thy ===== *)
theory Discrete_Interval
  imports Prelude "HOL-Library.Monad_Syntax"
begin

text \<open>
  The intervals of generated values of \<open>structs.h\<close>: \<open>Discrete_interval\<close>, a start, a number of values and a redundant excluded bound, all \<open>ulonglong\<close> with
  \<open>ULONGLONG_MAX\<close> values standing for no bound, and \<open>Discrete_intervals_list\<close>, the linked list a statement consumes them from. The list lives in a store of allocated
  intervals by address, 0 is null; \<^const>\<open>None\<close> is the use of an address that is not allocated. The member \<open>append\<close> is only declared in the header, so the lists it builds
  are described by \<open>intervals_at\<close>.
\<close>

section \<open>Intervals\<close>

definition ULL_MAX :: ulonglong where "ULL_MAX = - 1"

record Discrete_interval =
  interval_min :: ulonglong
  interval_values :: ulonglong
  interval_max :: ulonglong
  interval_next :: nat

definition interval_replace :: "ulonglong \<Rightarrow> ulonglong \<Rightarrow> ulonglong \<Rightarrow> Discrete_interval \<Rightarrow> Discrete_interval" where
  "interval_replace start val incr i =
     i\<lparr>interval_min := start, interval_values := val, interval_max := if val = ULL_MAX then val else start + val * incr\<rparr>"

definition interval_new :: "ulonglong \<Rightarrow> ulonglong \<Rightarrow> ulonglong \<Rightarrow> Discrete_interval" where
  "interval_new start val incr = interval_replace start val incr \<lparr>interval_min = 0, interval_values = 0, interval_max = 0, interval_next = 0\<rparr>"

definition interval_default :: Discrete_interval where
  "interval_default = interval_replace 0 0 0 \<lparr>interval_min = 0, interval_values = 0, interval_max = 0, interval_next = 0\<rparr>"

text \<open>The result \<open>False\<close> is the 0 that reports success.\<close>

definition merge_if_contiguous :: "ulonglong \<Rightarrow> ulonglong \<Rightarrow> ulonglong \<Rightarrow> Discrete_interval \<Rightarrow> bool \<times> Discrete_interval" where
  "merge_if_contiguous start val incr i =
     (if interval_max i = start
      then (if val = ULL_MAX
            then (False, i\<lparr>interval_values := val, interval_max := val\<rparr>)
            else (False, i\<lparr>interval_values := interval_values i + val, interval_max := start + val * incr\<rparr>))
      else (True, i))"

section \<open>Lists of intervals\<close>

record Discrete_intervals_list =
  intervals_head :: nat
  intervals_tail :: nat
  intervals_current :: nat
  intervals_elements :: uint

type_synonym interval_store = "nat \<rightharpoonup> Discrete_interval"

definition set_members :: "nat \<Rightarrow> nat \<Rightarrow> nat \<Rightarrow> uint \<Rightarrow> Discrete_intervals_list \<Rightarrow> Discrete_intervals_list" where
  "set_members h t c el l = l\<lparr>intervals_head := h, intervals_tail := t, intervals_current := c, intervals_elements := el\<rparr>"

text \<open>The constructor leaves \<open>tail\<close> as it finds it.\<close>

definition intervals_list_new :: "nat \<Rightarrow> Discrete_intervals_list" where
  "intervals_list_new garbage = \<lparr>intervals_head = 0, intervals_tail = garbage, intervals_current = 0, intervals_elements = 0\<rparr>"

definition empty_no_free :: "Discrete_intervals_list \<Rightarrow> Discrete_intervals_list" where
  "empty_no_free l = set_members 0 0 0 0 l"

definition delete_interval :: "nat \<Rightarrow> interval_store \<Rightarrow> interval_store option" where
  "delete_interval p s = (if s p = None then None else Some (s(p := None)))"

text \<open>The loop of \<open>empty\<close>, which need not end on a list that is not one: \<open>next\<close> is read before the interval is deleted.\<close>

partial_function (option) free_intervals :: "nat \<Rightarrow> interval_store \<Rightarrow> interval_store option" where
  "free_intervals i s =
     (if i = 0 then Some s
      else do { node \<leftarrow> s i; s' \<leftarrow> delete_interval i s; free_intervals (interval_next node) s' })"

definition intervals_empty :: "Discrete_intervals_list \<Rightarrow> interval_store \<Rightarrow> (Discrete_intervals_list \<times> interval_store) option" where
  "intervals_empty l s = do { s' \<leftarrow> free_intervals (intervals_head l) s; Some (empty_no_free l, s') }"

definition copy_shallow :: "Discrete_intervals_list \<Rightarrow> Discrete_intervals_list \<Rightarrow> Discrete_intervals_list" where
  "copy_shallow dli l =
     l\<lparr>intervals_head := intervals_head dli, intervals_tail := intervals_tail dli, intervals_current := intervals_current dli, intervals_elements := intervals_elements dli\<rparr>"

text \<open>\<open>this->swap(dli)\<close>, for two different lists, as the pair of the new \<open>this\<close> and the new \<open>dli\<close>.\<close>

definition intervals_swap :: "Discrete_intervals_list \<Rightarrow> Discrete_intervals_list \<Rightarrow> Discrete_intervals_list \<times> Discrete_intervals_list" where
  "intervals_swap this dli =
     (let h = intervals_head dli; t = intervals_tail dli; c = intervals_current dli; el = intervals_elements dli;
          dli' = copy_shallow this dli
      in (set_members h t c el this, dli'))"

definition intervals_get_next :: "interval_store \<Rightarrow> Discrete_intervals_list \<Rightarrow> (nat \<times> Discrete_intervals_list) option" where
  "intervals_get_next s l =
     (let tmp = intervals_current l
      in if intervals_current l \<noteq> 0
         then do { node \<leftarrow> s (intervals_current l); Some (tmp, l\<lparr>intervals_current := interval_next node\<rparr>) }
         else Some (tmp, l))"

definition intervals_minimum :: "interval_store \<Rightarrow> Discrete_intervals_list \<Rightarrow> ulonglong option" where
  "intervals_minimum s l = (if intervals_head l \<noteq> 0 then map_option interval_min (s (intervals_head l)) else Some 0)"

definition intervals_maximum :: "interval_store \<Rightarrow> Discrete_intervals_list \<Rightarrow> ulonglong option" where
  "intervals_maximum s l = (if intervals_head l \<noteq> 0 then map_option interval_max (s (intervals_tail l)) else Some 0)"

section \<open>What an interval denotes\<close>

text \<open>
  The values of an interval for the increment the user of the class maintains: \<open>start + k * increment\<close>, for the first \<open>interval_values\<close> values of \<open>k\<close>, or for all of them.
\<close>

definition interval_set :: "nat \<Rightarrow> Discrete_interval \<Rightarrow> nat set" where
  "interval_set incr i = {n. n < 2 ^ 64 \<and> (\<exists>k. n = unat (interval_min i) + k * incr \<and> (interval_values i = ULL_MAX \<or> k < unat (interval_values i)))}"

text \<open>The redundant bound is the one \<open>replace\<close> means, without wrapping.\<close>

definition interval_wf :: "nat \<Rightarrow> Discrete_interval \<Rightarrow> bool" where
  "interval_wf incr i \<longleftrightarrow>
     (if interval_values i = ULL_MAX then interval_max i = ULL_MAX
      else unat (interval_max i) = unat (interval_min i) + unat (interval_values i) * incr)"

lemma unat_ULL_MAX: "unat ULL_MAX = 2 ^ 64 - 1"
  unfolding ULL_MAX_def unsigned_minus_1_eq_mask mask_eq_exp_minus_1 by simp

lemma interval_new_sel [simp]:
  "interval_min (interval_new start val incr) = start"
  "interval_values (interval_new start val incr) = val"
  "interval_max (interval_new start val incr) = (if val = ULL_MAX then val else start + val * incr)"
  by (simp_all add: interval_new_def interval_replace_def)

lemma interval_set_iff:
  "n \<in> interval_set incr i \<longleftrightarrow>
     n < 2 ^ 64 \<and> (\<exists>k. n = unat (interval_min i) + k * incr \<and> (interval_values i = ULL_MAX \<or> k < unat (interval_values i)))"
  by (simp add: interval_set_def)

text \<open>Without a bound, an interval continues every bounded one that ends where it starts.\<close>

lemma bounded_steps:
  fixes n a b d v w :: nat
  assumes "b = a + v * d"
  shows "(\<exists>k. n = a + k * d \<and> (u \<or> k < v + w)) \<longleftrightarrow> (\<exists>k. n = a + k * d \<and> k < v) \<or> (\<exists>k. n = b + k * d \<and> (u \<or> k < w))"
proof
  assume "\<exists>k. n = a + k * d \<and> (u \<or> k < v + w)"
  then obtain k where k: "n = a + k * d" "u \<or> k < v + w" by blast
  show "(\<exists>k. n = a + k * d \<and> k < v) \<or> (\<exists>k. n = b + k * d \<and> (u \<or> k < w))"
  proof (cases "k < v")
    case False
    then have "n = b + (k - v) * d" using k(1) assms by (simp add: diff_mult_distrib mult_le_mono)
    moreover have "u \<or> k - v < w" using k(2) False by auto
    ultimately show ?thesis by blast
  qed (use k in blast)
next
  assume "(\<exists>k. n = a + k * d \<and> k < v) \<or> (\<exists>k. n = b + k * d \<and> (u \<or> k < w))"
  then show "\<exists>k. n = a + k * d \<and> (u \<or> k < v + w)"
  proof
    assume "\<exists>k. n = b + k * d \<and> (u \<or> k < w)"
    then obtain k where "n = b + k * d" "u \<or> k < w" by blast
    then have "n = a + (v + k) * d" "u \<or> v + k < v + w" using assms by (simp_all add: add_mult_distrib)
    then show ?thesis by blast
  qed (use trans_less_add1 in blast)
qed

section \<open>Merging\<close>

text \<open>Extending a bounded interval, as long as the number of values stays below the mark of no bound.\<close>

lemma merge_bounded:
  assumes "interval_wf (unat incr) i" "interval_values i \<noteq> ULL_MAX" "interval_max i = start"
    "val = ULL_MAX \<or> unat (interval_values i) + unat val < unat ULL_MAX" "merge_if_contiguous start val incr i = (False, i')"
  shows "interval_set (unat incr) i' = interval_set (unat incr) i \<union> interval_set (unat incr) (interval_new start val incr)"
proof (rule set_eqI)
  fix n
  have b: "unat (interval_max i) = unat (interval_min i) + unat (interval_values i) * unat incr" using assms(1,2) by (simp add: interval_wf_def)
  have v: "unat (interval_values i + val) = unat (interval_values i) + unat val" "interval_values i + val \<noteq> ULL_MAX" if "val \<noteq> ULL_MAX"
  proof -
    have "unat (interval_values i) + unat val < unat ULL_MAX" using assms(4) that by blast
    then show s: "unat (interval_values i + val) = unat (interval_values i) + unat val" by (simp add: unat_word_ariths unat_ULL_MAX)
    then show "interval_values i + val \<noteq> ULL_MAX" using assms(4) that by (metis less_irrefl)
  qed
  have i': "interval_min i' = interval_min i" "interval_values i' = (if val = ULL_MAX then ULL_MAX else interval_values i + val)"
    using assms(3,5) by (auto simp: merge_if_contiguous_def split: if_splits)
  have "n \<in> interval_set (unat incr) i' \<longleftrightarrow>
      n < 2 ^ 64 \<and> (\<exists>k. n = unat (interval_min i) + k * unat incr \<and> (val = ULL_MAX \<or> k < unat (interval_values i) + unat val))"
    using v by (auto simp: interval_set_iff i')
  also have "\<dots> \<longleftrightarrow> n < 2 ^ 64 \<and> ((\<exists>k. n = unat (interval_min i) + k * unat incr \<and> k < unat (interval_values i)) \<or>
      (\<exists>k. n = unat start + k * unat incr \<and> (val = ULL_MAX \<or> k < unat val)))"
    using bounded_steps [OF b] assms(3) by simp
  finally show "n \<in> interval_set (unat incr) i' \<longleftrightarrow> n \<in> interval_set (unat incr) i \<union> interval_set (unat incr) (interval_new start val incr)"
    using assms(2) by (auto simp: interval_set_iff)
qed

lemma merge_wf:
  assumes "interval_wf (unat incr) i" "interval_values i \<noteq> ULL_MAX" "interval_wf (unat incr) (interval_new start val incr)"
    "val = ULL_MAX \<or> unat (interval_values i) + unat val < unat ULL_MAX" "merge_if_contiguous start val incr i = (False, i')"
  shows "interval_wf (unat incr) i'"
proof (cases "val = ULL_MAX")
  case True
  then show ?thesis using assms(5) by (auto simp: merge_if_contiguous_def interval_wf_def split: if_splits)
next
  case False
  then have l: "unat (interval_values i) + unat val < unat ULL_MAX" using assms(4) by blast
  then have s: "unat (interval_values i + val) = unat (interval_values i) + unat val" by (simp add: unat_word_ariths unat_ULL_MAX)
  then have "interval_values i + val \<noteq> ULL_MAX" using l by (metis less_irrefl)
  then show ?thesis using assms(1-3,5) False s by (auto simp: merge_if_contiguous_def interval_wf_def add_mult_distrib split: if_splits)
qed

text \<open>An interval without a bound that is extended by a bounded one.\<close>

lemma merge_unbounded:
  assumes "interval_values i = ULL_MAX" "interval_max i = start" "merge_if_contiguous start val incr i = (False, i')"
  shows "interval_values i' = (if val = ULL_MAX then ULL_MAX else val - 1)" "interval_min i' = interval_min i"
  using assms by (auto simp: merge_if_contiguous_def ULL_MAX_def split: if_splits)

text \<open>C18. \<open>merge_if_contiguous\<close> for an interval whose bound is the one \<open>replace\<close> computes without wrapping, or that has none. The call reports success exactly when the new
  interval starts at that bound, and changes nothing otherwise. A bounded interval then denotes the values of both, whether the new one is bounded or not, and is
  again well-formed when the bound of the new one does not wrap; this holds as long as the two numbers of values add up to less than the mark of no bound. An interval without a bound keeps its values when the new
  one has none either or is empty; but when it has \<open>val > 0\<close> values, starting at \<open>ULONGLONG_MAX\<close>, the sum wraps around and the interval is cut to its first \<open>val - 1\<close> values.
\<close>

theorem discrete_interval_merge:
  assumes "interval_wf (unat incr) i"
  shows "\<exists>i'. merge_if_contiguous start val incr i = (interval_max i \<noteq> start, i') \<and>
    (interval_max i \<noteq> start \<longrightarrow> i' = i) \<and>
    (interval_max i = start \<and> interval_values i \<noteq> ULL_MAX \<and> (val = ULL_MAX \<or> unat (interval_values i) + unat val < unat ULL_MAX) \<longrightarrow>
       interval_set (unat incr) i' = interval_set (unat incr) i \<union> interval_set (unat incr) (interval_new start val incr) \<and>
       (interval_wf (unat incr) (interval_new start val incr) \<longrightarrow> interval_wf (unat incr) i')) \<and>
    (interval_max i = start \<and> interval_values i = ULL_MAX \<longrightarrow>
       (if val = ULL_MAX \<or> val = 0 then interval_set (unat incr) i' = interval_set (unat incr) i
        else interval_set (unat incr) i' = {n. n < 2 ^ 64 \<and> (\<exists>k<unat val - 1. n = unat (interval_min i) + k * unat incr)}))"
proof -
  obtain failed i' where r: "merge_if_contiguous start val incr i = (failed, i')" by fastforce
  then have f: "failed \<longleftrightarrow> interval_max i \<noteq> start" "failed \<Longrightarrow> i' = i" by (auto simp: merge_if_contiguous_def split: if_splits)
  have u: "if val = ULL_MAX \<or> val = 0 then interval_set (unat incr) i' = interval_set (unat incr) i
      else interval_set (unat incr) i' = {n. n < 2 ^ 64 \<and> (\<exists>k<unat val - 1. n = unat (interval_min i) + k * unat incr)}"
    if "interval_max i = start" "interval_values i = ULL_MAX"
  proof -
    note m = merge_unbounded [OF that(2,1)] r f(1) that(1)
    have z: "(0 :: ulonglong) - 1 = ULL_MAX" by (simp add: ULL_MAX_def)
    have p: "unat (val - 1) = unat val - 1" "val - 1 \<noteq> ULL_MAX" if "val \<noteq> 0"
    proof -
      have "0 < unat val" using that by (simp add: unat_gt_0)
      then show "unat (val - 1) = unat val - 1" by (rule unat_minus_1)
      show "val - 1 \<noteq> ULL_MAX" using that by (simp add: ULL_MAX_def)
    qed
    show ?thesis using m that(2) z p by (auto simp: interval_set_iff set_eq_iff)
  qed
  show ?thesis using r f u merge_bounded [OF assms _ _ _ , of start val i'] merge_wf [OF assms, of start val i'] by (intro exI [of _ i']) auto
qed

text \<open>The example of the source: \<open>[3,5]\<close> appended to \<open>[1,2]\<close>.\<close>

theorem discrete_interval_merge_witness:
  "\<exists>i'. merge_if_contiguous 3 3 1 (interval_new 1 2 1) = (False, i') \<and> interval_set 1 i' = interval_set 1 (interval_new 1 2 1) \<union> interval_set 1 (interval_new 3 3 1)"
proof -
  have m: "(2 :: ulonglong) \<noteq> ULL_MAX" "(3 :: ulonglong) \<noteq> ULL_MAX" "5 < unat ULL_MAX" by (simp_all add: ULL_MAX_def unat_ULL_MAX [unfolded ULL_MAX_def])
  then have "interval_wf (unat (1 :: ulonglong)) (interval_new 1 2 1)" by (simp add: interval_wf_def)
  from discrete_interval_merge [OF this, of 3 3] show ?thesis using m by auto
qed

text \<open>
  For example, the interval of all values from 1 has none left after the merge of one that starts at \<open>ULONGLONG_MAX\<close> and has one value.
\<close>

lemma merge_into_unbounded:
  "interval_set 1 (interval_new 1 ULL_MAX 1) = {1..<2 ^ 64}"
  "merge_if_contiguous ULL_MAX 1 1 (interval_new 1 ULL_MAX 1) = (False, i) \<Longrightarrow> interval_set 1 i = {}"
proof -
  have "n \<in> interval_set 1 (interval_new 1 ULL_MAX 1) \<longleftrightarrow> n \<in> {1..<2 ^ 64}" for n
    by (cases n) (auto simp: interval_set_iff)
  then show "interval_set 1 (interval_new 1 ULL_MAX 1) = {1..<2 ^ 64}" by blast
  assume "merge_if_contiguous ULL_MAX 1 1 (interval_new 1 ULL_MAX 1) = (False, i)"
  then have "interval_values i = 0" by (auto simp: merge_if_contiguous_def ULL_MAX_def split: if_splits)
  then show "interval_set 1 i = {}" by (auto simp: interval_set_iff ULL_MAX_def)
qed


section \<open>The list and its intervals\<close>

text \<open>The links of the store lead from \<open>p\<close> through the allocated intervals \<open>xs\<close> to null.\<close>

fun chain_at :: "interval_store \<Rightarrow> nat \<Rightarrow> nat list \<Rightarrow> bool" where
  "chain_at s p [] \<longleftrightarrow> p = 0"
| "chain_at s p (x # xs) \<longleftrightarrow> p = x \<and> x \<noteq> 0 \<and> (case s x of None \<Rightarrow> False | Some node \<Rightarrow> chain_at s (interval_next node) xs)"

definition intervals_at :: "interval_store \<Rightarrow> Discrete_intervals_list \<Rightarrow> nat list \<Rightarrow> bool" where
  "intervals_at s l xs \<longleftrightarrow> chain_at s (intervals_head l) xs \<and> distinct xs \<and> intervals_elements l = of_nat (length xs) \<and> (xs \<noteq> [] \<longrightarrow> intervals_tail l = last xs)"

lemma chain_at_cong: "chain_at s p xs \<Longrightarrow> \<forall>x\<in>set xs. s' x = s x \<Longrightarrow> chain_at s' p xs"
  by (induction xs arbitrary: p) (auto split: option.splits)

lemma chain_at_dom: "chain_at s p xs \<Longrightarrow> set xs \<subseteq> dom s" "chain_at s p xs \<Longrightarrow> 0 \<notin> set xs"
  by (induction xs arbitrary: p) (auto split: option.splits)

lemma free_intervals_0: "free_intervals 0 s = Some s"
  by (subst free_intervals.simps) simp

lemma free_intervals_step: "p \<noteq> 0 \<Longrightarrow> s p = Some node \<Longrightarrow> free_intervals p s = free_intervals (interval_next node) (s(p := None))"
  by (subst free_intervals.simps) (simp add: delete_interval_def)

lemma free_intervals_dangling: "p \<noteq> 0 \<Longrightarrow> s p = None \<Longrightarrow> free_intervals p s = None"
  by (subst free_intervals.simps) simp

lemma free_intervals_chain:
  assumes "chain_at s p xs" "distinct xs"
  shows "free_intervals p s = Some (s |` (- set xs))"
  using assms
proof (induction xs arbitrary: p s)
  case Nil
  then show ?case by (simp add: free_intervals_0)
next
  case (Cons x xs)
  then obtain node where n: "p = x" "x \<noteq> 0" "s x = Some node" "chain_at s (interval_next node) xs" by (auto split: option.splits)
  then have c: "chain_at (s(x := None)) (interval_next node) xs" using Cons.prems(2) by (auto intro: chain_at_cong)
  have "free_intervals (interval_next node) (s(x := None)) = Some (s(x := None) |` (- set xs))" by (rule Cons.IH [OF c]) (use Cons.prems(2) in simp)
  moreover have "s(x := None) |` (- set xs) = s |` (- set (x # xs))" by (auto simp: restrict_map_def)
  ultimately show ?case using n by (simp add: free_intervals_step)
qed

text \<open>The intervals a thread gets by calling \<open>get_next\<close> \<open>n\<close> times.\<close>

fun consume :: "interval_store \<Rightarrow> nat \<Rightarrow> Discrete_intervals_list \<Rightarrow> (nat list \<times> Discrete_intervals_list) option" where
  "consume s 0 l = Some ([], l)"
| "consume s (Suc n) l = do { (p, l) \<leftarrow> intervals_get_next s l; (ps, l) \<leftarrow> consume s n l; Some (p # ps, l) }"

lemma consume_null: "intervals_current l = 0 \<Longrightarrow> consume s n l = Some (replicate n 0, l)"
  by (induction n) (simp_all add: intervals_get_next_def)

lemma consume_chain:
  assumes "chain_at s (intervals_current l) xs"
  shows "consume s (length xs + n) l = Some (xs @ replicate n 0, l\<lparr>intervals_current := 0\<rparr>)"
  using assms
proof (induction xs arbitrary: l)
  case Nil
  then show ?case using consume_null [of l s n] by (cases l) simp
next
  case (Cons x xs)
  then obtain node where n: "intervals_current l = x" "x \<noteq> 0" "s x = Some node" "chain_at s (interval_next node) xs" by (auto split: option.splits)
  have "consume s (length xs + n) (l\<lparr>intervals_current := interval_next node\<rparr>) = Some (xs @ replicate n 0, l\<lparr>intervals_current := 0\<rparr>)"
    using Cons.IH [of "l\<lparr>intervals_current := interval_next node\<rparr>"] n(4) by simp
  then show ?case using n by (simp add: intervals_get_next_def)
qed

text \<open>C34. A list of intervals that \<open>append\<close> has built is consumed in order and given back once: from its head, \<open>get_next\<close> returns every interval and then null for ever;
  its minimum and maximum are those of the first and the last interval; \<open>empty\<close> ends, frees each interval of the list exactly once and nothing else, and leaves an empty list.
  A list copied with \<open>copy_shallow\<close> shares the intervals, so emptying the second one uses freed memory unless the list is empty.
\<close>

theorem intervals_list_lifecycle:
  assumes "intervals_at s l xs" "intervals_current l = intervals_head l"
  shows "consume s (length xs + n) l = Some (xs @ replicate n 0, l\<lparr>intervals_current := 0\<rparr>) \<and>
    intervals_minimum s l = Some (if xs = [] then 0 else interval_min (the (s (hd xs)))) \<and>
    intervals_maximum s l = Some (if xs = [] then 0 else interval_max (the (s (last xs)))) \<and>
    (\<exists>l'. intervals_empty l s = Some (l', s |` (- set xs)) \<and> intervals_at (s |` (- set xs)) l' []) \<and>
    (xs \<noteq> [] \<longrightarrow> intervals_empty (copy_shallow l l2) (s |` (- set xs)) = None)"
proof -
  have c: "chain_at s (intervals_head l) xs" "distinct xs" "xs \<noteq> [] \<longrightarrow> intervals_tail l = last xs" using assms(1) by (simp_all add: intervals_at_def)
  have "last xs \<in> dom s" if "xs \<noteq> []" using chain_at_dom(1) [OF c(1)] last_in_set [OF that] by blast
  moreover have "intervals_head l = (if xs = [] then 0 else hd xs)" "xs \<noteq> [] \<Longrightarrow> hd xs \<noteq> 0 \<and> hd xs \<in> dom s"
    using c(1) by (cases xs; auto split: option.splits)+
  ultimately show ?thesis using consume_chain [of s l xs n] c assms(2) free_intervals_chain [OF c(1,2)] free_intervals_dangling
    by (auto simp: intervals_minimum_def intervals_maximum_def intervals_empty_def empty_no_free_def set_members_def intervals_at_def copy_shallow_def)
qed

text \<open>A list of two intervals, \<open>[1,2]\<close> and \<open>[10,12]\<close>.\<close>

definition two_intervals :: interval_store where
  "two_intervals = [5 \<mapsto> (interval_new 1 2 1)\<lparr>interval_next := 9\<rparr>, 9 \<mapsto> interval_new 10 3 1]"

theorem intervals_list_lifecycle_witness:
  "consume two_intervals 3 \<lparr>intervals_head = 5, intervals_tail = 9, intervals_current = 5, intervals_elements = 2\<rparr> =
     Some ([5, 9, 0], \<lparr>intervals_head = 5, intervals_tail = 9, intervals_current = 0, intervals_elements = 2\<rparr>)"
  using intervals_list_lifecycle [of two_intervals "\<lparr>intervals_head = 5, intervals_tail = 9, intervals_current = 5, intervals_elements = 2\<rparr>" "[5, 9]" 1]
  by (simp add: intervals_at_def two_intervals_def interval_new_def interval_replace_def numeral_3_eq_3)

text \<open>\<open>swap\<close> exchanges the two lists, also those whose \<open>tail\<close> the constructor has not set.\<close>

lemma intervals_swap_exchanges: "intervals_swap this dli = (dli, this)" for this dli :: Discrete_intervals_list
  by (cases this; cases dli) (simp add: intervals_swap_def copy_shallow_def set_members_def)

lemma intervals_list_new_empty: "intervals_at s (intervals_list_new garbage) []"
  by (simp add: intervals_at_def intervals_list_new_def)

end
