(* ===== verification/Sequence_Values.thy ===== *)
theory Sequence_Values
  imports Prelude "HOL-Library.Monad_Syntax"
begin

text \<open>
  The values of a sequence, \<open>sql_sequence.h\<close>: \<open>sequence_definition\<close> with the defaults of its constructor, the copy into a \<open>SEQUENCE\<close>, and \<open>increment_value\<close>.
  A \<open>longlong\<close> is an integer; \<^const>\<open>None\<close> is a signed overflow, which C++ leaves undefined. \<open>adjust_values\<close>, which is only declared, is an argument.
\<close>

section \<open>Definitions of sequences\<close>

definition LL_MAX :: int where "LL_MAX = 2 ^ 63 - 1"
definition LL_MIN :: int where "LL_MIN = - (2 ^ 63)"

definition longlong :: "int \<Rightarrow> int option" where "longlong i = (if LL_MIN \<le> i \<and> i \<le> LL_MAX then Some i else None)"

record sequence_definition =
  reserved_until :: int
  min_value :: int
  max_value :: int
  seq_start :: int
  seq_increment :: int
  seq_cache :: int
  seq_round :: ulonglong
  seq_restart :: int
  seq_cycle :: bool
  used_fields :: uint
  real_increment :: int
  next_free_value :: int

text \<open>\<open>junk\<close> is what the constructor finds in the members it does not set.\<close>

definition sequence_definition_new :: "sequence_definition \<Rightarrow> sequence_definition" where
  "sequence_definition_new junk = junk\<lparr>min_value := 1, max_value := LL_MAX - 1, seq_start := 1, seq_increment := 1, seq_cache := 1000, seq_round := 0,
     seq_restart := 0, seq_cycle := False, used_fields := 0\<rparr>"

datatype seq_init = SEQ_UNINTIALIZED | SEQ_IN_PREPARE | SEQ_IN_ALTER | SEQ_READY_TO_USE

record SEQUENCE =
  seq_def :: sequence_definition
  all_values_used :: bool
  initialized :: seq_init

definition sequence_copy :: "(int \<Rightarrow> sequence_definition \<Rightarrow> sequence_definition) \<Rightarrow> sequence_definition \<Rightarrow> SEQUENCE \<Rightarrow> SEQUENCE" where
  "sequence_copy adjust_values sq s = s\<lparr>seq_def := adjust_values (reserved_until sq) sq, all_values_used := False\<rparr>"

text \<open>The disjunctions are evaluated from left to right.\<close>

definition increment_value :: "sequence_definition \<Rightarrow> int \<Rightarrow> int option" where
  "increment_value s v =
     (if real_increment s > 0
      then do {
        bound \<leftarrow> longlong (max_value s - real_increment s);
        past \<leftarrow> (if v > bound then Some True else do { nx \<leftarrow> longlong (v + real_increment s); Some (nx > max_value s) });
        (if past then longlong (max_value s + 1) else longlong (v + real_increment s)) }
      else do {
        nx \<leftarrow> longlong (v + real_increment s);
        past \<leftarrow> (if nx < min_value s then Some True else do { bound \<leftarrow> longlong (min_value s - real_increment s); Some (v < bound) });
        (if past then longlong (min_value s - 1) else longlong (v + real_increment s)) })"

section \<open>The values of a sequence\<close>

text \<open>The values after \<open>n\<close> increments.\<close>

fun increments :: "sequence_definition \<Rightarrow> nat \<Rightarrow> int \<Rightarrow> int option" where
  "increments s 0 v = Some v"
| "increments s (Suc n) v = do { v \<leftarrow> increments s n v; increment_value s v }"

text \<open>The members are \<open>longlong\<close>s.\<close>

definition sequence_ok :: "sequence_definition \<Rightarrow> bool" where
  "sequence_ok s \<longleftrightarrow> LL_MIN \<le> min_value s \<and> max_value s \<le> LL_MAX \<and> LL_MIN \<le> real_increment s \<and> real_increment s \<le> LL_MAX"

definition within :: "sequence_definition \<Rightarrow> int \<Rightarrow> bool" where "within s v \<longleftrightarrow> min_value s \<le> v \<and> v \<le> max_value s"

text \<open>One increment: inside the bounds it is the sum, which no test keeps from being computed; outside of them the code needs room for its tests and for the value that marks the end.\<close>

lemma increment_inside: "sequence_ok s \<Longrightarrow> within s v \<Longrightarrow> within s (v + real_increment s) \<Longrightarrow> increment_value s v = Some (v + real_increment s)"
  by (auto simp: increment_value_def longlong_def sequence_ok_def within_def)

definition up_end :: "sequence_definition \<Rightarrow> int option" where
  "up_end s = (if LL_MIN \<le> max_value s - real_increment s \<and> max_value s < LL_MAX then Some (max_value s + 1) else None)"

lemma increment_up_end:
  assumes "sequence_ok s" "0 < real_increment s" "min_value s \<le> v" "v \<le> max_value s + 1" "max_value s < v + real_increment s"
  shows "increment_value s v = up_end s"
  using assms by (auto simp: increment_value_def longlong_def sequence_ok_def up_end_def)

definition down_end :: "sequence_definition \<Rightarrow> int \<Rightarrow> int option" where
  "down_end s v = (if LL_MIN \<le> v + real_increment s then Some (min_value s - 1) else None)"

lemma increment_down_end:
  assumes "sequence_ok s" "real_increment s < 0" "min_value s - 1 \<le> v" "v \<le> max_value s" "v + real_increment s < min_value s"
  shows "increment_value s v = down_end s v"
  using assms by (auto simp: increment_value_def longlong_def sequence_ok_def down_end_def)

lemma increments_inside:
  assumes "sequence_ok s" "within s v" "within s (v + int n * real_increment s)"
  shows "increments s n v = Some (v + int n * real_increment s)"
  using assms(3)
proof (induction n)
  case (Suc n)
  have e: "v + int (Suc n) * real_increment s = v + int n * real_increment s + real_increment s" by (simp add: algebra_simps)
  have "within s (v + int n * real_increment s)"
  proof (cases "0 \<le> real_increment s")
    case True
    then have "0 \<le> int n * real_increment s" by simp
    then show ?thesis using True Suc.prems assms(2) unfolding e within_def by linarith
  next
    case False
    then have "int n * real_increment s \<le> 0" by (simp add: mult_nonneg_nonpos)
    then show ?thesis using False Suc.prems assms(2) unfolding e within_def by linarith
  qed
  with Suc have "increments s n v = Some (v + int n * real_increment s)" by blast
  moreover have "increment_value s (v + int n * real_increment s) = Some (v + int (Suc n) * real_increment s)"
    using increment_inside [OF assms(1) \<open>within s (v + int n * real_increment s)\<close>] Suc.prems unfolding e by blast
  ultimately show ?case by (simp del: of_nat_Suc)
qed simp

text \<open>The index of the last value inside the bounds.\<close>

lemma last_inside:
  assumes "within s v" "real_increment s \<noteq> 0"
  obtains N where "\<And>n. within s (v + int n * real_increment s) \<longleftrightarrow> n \<le> N"
proof -
  let ?w = "\<lambda>n. v + int n * real_increment s"
  have down: "within s (?w n)" if "within s (?w m)" "n \<le> m" for n m
  proof (cases "0 \<le> real_increment s")
    case True
    then have "0 \<le> int n * real_increment s" "int n * real_increment s \<le> int m * real_increment s" using that(2) by (simp_all add: mult_right_mono)
    then show ?thesis using that(1) assms(1) unfolding within_def by linarith
  next
    case False
    then have "int n * real_increment s \<le> 0" "int m * real_increment s \<le> int n * real_increment s"
      using that(2) by (simp_all add: mult_nonneg_nonpos mult_right_mono_neg)
    then show ?thesis using that(1) assms(1) unfolding within_def by linarith
  qed
  have "n \<le> nat (max_value s - min_value s)" if "within s (?w n)" for n
  proof -
    have "int n * 1 \<le> int n * \<bar>real_increment s\<bar>" using assms(2) by (intro mult_left_mono) auto
    also have "\<dots> = \<bar>int n * real_increment s\<bar>" by (simp add: abs_mult)
    also have "\<dots> \<le> max_value s - min_value s" using that assms(1) unfolding within_def by linarith
    finally show ?thesis by linarith
  qed
  note bound = this
  have 0: "within s (?w 0)" using assms(1) by simp
  let ?N = "Greatest (\<lambda>n. within s (?w n))"
  have "within s (?w ?N)" by (rule GreatestI_nat [where P = "\<lambda>n. within s (?w n)", OF 0 bound])
  moreover have "n \<le> ?N" if "within s (?w n)" for n by (rule Greatest_le_nat [where P = "\<lambda>n. within s (?w n)", OF that bound])
  ultimately show thesis using down by (intro that [of ?N]) blast
qed

lemma increments_end:
  assumes "increments s (N + 1) v = e" "\<And>w. e = Some w \<Longrightarrow> increment_value s w = e"
  shows "increments s (N + 1 + k) v = e"
proof (induction k)
  case (Suc k)
  then show ?case using assms(2) by (cases e) auto
qed (use assms(1) in simp)

lemma increments_up:
  assumes "sequence_ok s" "within s v" "0 < real_increment s" "\<And>n. within s (v + int n * real_increment s) \<longleftrightarrow> n \<le> N"
  shows "increments s (N + 1 + k) v = up_end s"
proof (rule increments_end)
  let ?w = "v + int N * real_increment s"
  have w: "within s ?w" "\<not> within s (v + int (Suc N) * real_increment s)" using assms(4) [of N] assms(4) [of "Suc N"] by (simp_all del: of_nat_Suc)
  have "min_value s \<le> ?w + real_increment s" using w(1) assms(3) by (simp add: within_def)
  then have "max_value s < ?w + real_increment s" using w(2) by (auto simp: within_def algebra_simps)
  then show "increments s (N + 1) v = up_end s"
    using increments_inside [OF assms(1,2) w(1)] increment_up_end [OF assms(1,3), of ?w] w(1) by (simp add: within_def)
  show "increment_value s x = up_end s" if "up_end s = Some x" for x
    using that assms(1-3) by (intro increment_up_end) (auto simp: up_end_def within_def split: if_splits)
qed

lemma increments_down:
  assumes "sequence_ok s" "within s v" "real_increment s < 0" "\<And>n. within s (v + int n * real_increment s) \<longleftrightarrow> n \<le> N"
  shows "increments s (N + 1) v = down_end s (v + int N * real_increment s)" "increments s (N + 2 + k) v = down_end s (min_value s - 1)"
proof -
  let ?w = "v + int N * real_increment s"
  have w: "within s ?w" "\<not> within s (v + int (Suc N) * real_increment s)" using assms(4) [of N] assms(4) [of "Suc N"] by (simp_all del: of_nat_Suc)
  have "?w + real_increment s \<le> max_value s" using w(1) assms(3) by (simp add: within_def)
  then have lt: "?w + real_increment s < min_value s" using w(2) by (auto simp: within_def algebra_simps)
  then show 1: "increments s (N + 1) v = down_end s ?w"
    using increments_inside [OF assms(1,2) w(1)] increment_down_end [OF assms(1,3), of ?w] w(1) by (simp add: within_def)
  have e: "increment_value s (min_value s - 1) = down_end s (min_value s - 1)"
    using assms(1-3) by (intro increment_down_end) (auto simp: within_def)
  have "increments s (N + 1 + 1) v = down_end s (min_value s - 1)"
    using 1 e w(1) by (auto simp: down_end_def within_def)
  then have "increments s (N + 1 + 1 + k) v = down_end s (min_value s - 1)"
    by (rule increments_end) (use e in \<open>auto simp: down_end_def split: if_splits\<close>)
  then show "increments s (N + 2 + k) v = down_end s (min_value s - 1)" by simp
qed

text \<open>C19. Incrementing the value of a sequence, from any value within its bounds and for any \<open>longlong\<close> bounds and increment. The values are the arithmetic progression of
  the increment as long as that stays within the bounds, and no sum on the way overflows; the progression leaves the bounds unless the increment is 0. Behind its last value an ascending sequence
  has for ever the value \<open>max_value + 1\<close>, except that the code overflows when that is no \<open>longlong\<close> or \<open>max_value - real_increment\<close> is none. A descending sequence has the value \<open>min_value - 1\<close>,
  unless the sum with the last value underflows the \<open>longlong\<close>s, and keeps it unless the sum with \<open>min_value - 1\<close> does.
\<close>

theorem sequence_values:
  assumes "sequence_ok s" "within s v"
  shows "(within s (v + int n * real_increment s) \<longrightarrow> increments s n v = Some (v + int n * real_increment s)) \<and>
    (real_increment s \<noteq> 0 \<longrightarrow>
      (\<exists>N. (\<forall>n. within s (v + int n * real_increment s) \<longleftrightarrow> n \<le> N) \<and>
         (if 0 < real_increment s
          then \<forall>k. increments s (N + 1 + k) v = (if LL_MIN \<le> max_value s - real_increment s \<and> max_value s < LL_MAX then Some (max_value s + 1) else None)
          else increments s (N + 1) v = (if LL_MIN \<le> v + int (N + 1) * real_increment s then Some (min_value s - 1) else None) \<and>
               (\<forall>k. increments s (N + 2 + k) v = (if LL_MIN \<le> min_value s - 1 + real_increment s then Some (min_value s - 1) else None)))))"
proof (intro conjI impI)
  assume "real_increment s \<noteq> 0"
  from last_inside [OF assms(2) this] obtain N where N: "\<And>n. within s (v + int n * real_increment s) \<longleftrightarrow> n \<le> N" by blast
  have e: "v + int (N + 1) * real_increment s = v + int N * real_increment s + real_increment s" by (simp add: algebra_simps)
  show "\<exists>N. (\<forall>n. within s (v + int n * real_increment s) \<longleftrightarrow> n \<le> N) \<and>
      (if 0 < real_increment s
       then \<forall>k. increments s (N + 1 + k) v = (if LL_MIN \<le> max_value s - real_increment s \<and> max_value s < LL_MAX then Some (max_value s + 1) else None)
       else increments s (N + 1) v = (if LL_MIN \<le> v + int (N + 1) * real_increment s then Some (min_value s - 1) else None) \<and>
            (\<forall>k. increments s (N + 2 + k) v = (if LL_MIN \<le> min_value s - 1 + real_increment s then Some (min_value s - 1) else None)))"
  proof (cases "0 < real_increment s")
    case True
    show ?thesis using increments_up [OF assms True N, unfolded up_end_def] N by (intro exI [of _ N]) (simp only: True if_True, blast)
  next
    case False
    then have "real_increment s < 0" using \<open>real_increment s \<noteq> 0\<close> by simp
    note d = increments_down [OF assms this N, unfolded down_end_def]
    have d1: "increments s (N + 1) v = (if LL_MIN \<le> v + int (N + 1) * real_increment s then Some (min_value s - 1) else None)"
      unfolding e by (rule d(1))
    show ?thesis unfolding if_not_P [OF False] by (intro exI [of _ N] conjI allI N d1 d(2))
  qed
qed (rule increments_inside [OF assms])

definition sample_sequence :: "int \<Rightarrow> int \<Rightarrow> int \<Rightarrow> sequence_definition" where
  "sample_sequence lo hi inc = \<lparr>reserved_until = 0, min_value = lo, max_value = hi, seq_start = lo, seq_increment = inc, seq_cache = 1000, seq_round = 0, seq_restart = 0,
     seq_cycle = False, used_fields = 0, real_increment = inc, next_free_value = lo\<rparr>"

theorem sequence_values_witness:
  "increments (sample_sequence 1 10 4) 2 1 = Some 9 \<and> (\<exists>N. \<forall>k. increments (sample_sequence 1 10 4) (N + 1 + k) 1 = Some 11) \<and>
   (\<exists>N. \<forall>k. increments (sample_sequence 1 10 (- 4)) (N + 2 + k) 10 = Some 0)"
proof -
  have ok: "sequence_ok (sample_sequence 1 10 i)" "within (sample_sequence 1 10 i) 1" "within (sample_sequence 1 10 i) 10" if "i = 4 \<or> i = - 4" for i
    using that by (auto simp: sequence_ok_def within_def sample_sequence_def LL_MAX_def LL_MIN_def)
  show ?thesis
    using sequence_values [OF ok(1,2), of 4 2] sequence_values [OF ok(1,3), of "- 4" 3]
    by (auto simp: sample_sequence_def within_def LL_MAX_def LL_MIN_def)
qed

text \<open>
  The test for a negative increment adds before it compares: a sequence that descends by 2 to the smallest bound allowed overflows at its last value, while the
  test for a positive increment subtracts from the bound first.
\<close>

lemma descending_overflow:
  "increment_value (sample_sequence (LL_MIN + 1) (- 1) (- 2)) (LL_MIN + 1) = None"
  "increment_value (sample_sequence 1 (LL_MAX - 1) 2) (LL_MAX - 1) = Some LL_MAX"
  by (simp_all add: increment_value_def sample_sequence_def longlong_def LL_MAX_def LL_MIN_def)

end
