(* ===== verification/Loose_Scan.thy ===== *)
theory Loose_Scan
  imports Prelude Complex_Main "HOL-Library.Monad_Syntax"
begin

text \<open>
  \<open>Loose_scan_opt\<close> of \<open>opt_subselect.h\<close>: the choice of an index for the LooseScan strategy of a semi-join. Sets of tables are \<open>table_map\<close>s of 64 bits, sets of key
  parts \<open>key_part_map\<close>s of 32 bits (\<open>ulong\<close> on the platform of the bundle), sets of IN-equalities 64 bits. What the class reads of the join, the table and the quick select is a
  record per argument; costs and numbers of records are real numbers, without the rounding of \<open>double\<close>. \<^const>\<open>None\<close> is a shift by the width of its operand or more,
  which C++ leaves undefined.
\<close>

section \<open>What the optimizer tells the class\<close>

definition UINT_MAX :: uint where "UINT_MAX = - 1"

definition DBL_MAX :: real where "DBL_MAX = (2 - 1 / 2 ^ 52) * 2 ^ 1023"

definition prev_bits :: "nat \<Rightarrow> 'a::len word option" where
  "prev_bits a = (if a < LENGTH('a) then Some (push_bit a 1 - 1) else None)"

definition one_bit :: "nat \<Rightarrow> 'a::len word option" where
  "one_bit a = (if a < LENGTH('a) then Some (push_bit a 1) else None)"

record sj_nest =
  sj_in_exprs :: uint
  sj_inner_tables :: ulonglong
  sj_corr_tables :: ulonglong
  sj_depends_on :: ulonglong

record join_info =
  emb_sjm_nest :: bool
  cur_sj_inner_tables :: ulonglong
  switch_loose_scan :: bool
  const_tables :: uint

record keyuse =
  sj_pred_no :: uint
  ku_read_order :: bool
  used_tables :: ulonglong
  keypart :: uint

record quick_select =
  quick_index :: uint
  quick_is_range :: bool
  quick_read_time :: real
  quick_records :: ulonglong

record join_tab =
  emb_sj_nest :: "sj_nest option"
  tab_quick :: "quick_select option"
  uses_partial_cols :: "uint \<Rightarrow> bool"
  covering :: "uint \<Rightarrow> bool"
  stats_records :: ulonglong
  keyread_cost :: "uint \<Rightarrow> real \<Rightarrow> real"
  rec_per_key :: "uint \<Rightarrow> uint \<Rightarrow> uint"

section \<open>The class\<close>

record loose_scan_opt =
  try_loosescan :: bool
  bound_sj_equalities :: ulonglong
  handled_sj_equalities :: ulonglong
  loose_scan_keyparts :: uint
  max_loose_keypart :: uint
  part1_conds_met :: bool
  quick_uses_applicable_index :: bool
  quick_max_loose_keypart :: uint
  best_loose_scan_key :: uint
  best_loose_scan_cost :: real
  best_loose_scan_records :: real
  best_loose_scan_start_key :: nat
  best_max_loose_keypart :: uint
  best_ref_depend_map :: ulonglong

text \<open>The constructor leaves the properties of the current key as it finds them; \<open>junk\<close> is what was there.\<close>

definition loose_scan_new :: "loose_scan_opt \<Rightarrow> loose_scan_opt" where
  "loose_scan_new junk = junk\<lparr>try_loosescan := False, bound_sj_equalities := 0, quick_uses_applicable_index := False, quick_max_loose_keypart := 0,
     best_loose_scan_key := 0, best_loose_scan_cost := 0, best_loose_scan_records := 0, best_loose_scan_start_key := 0, best_max_loose_keypart := 0,
     best_ref_depend_map := 0\<rparr>"

definition loose_init :: "(sj_nest \<Rightarrow> ulonglong \<Rightarrow> ulonglong) \<Rightarrow> join_info \<Rightarrow> join_tab \<Rightarrow> ulonglong \<Rightarrow> loose_scan_opt \<Rightarrow> loose_scan_opt" where
  "loose_init get_bound_sj_equalities join s remaining_tables st =
     (let st = st\<lparr>best_loose_scan_cost := DBL_MAX\<rparr>
      in case emb_sj_nest s of
           None \<Rightarrow> st
         | Some nest \<Rightarrow>
             if \<not> emb_sjm_nest join \<and> sj_in_exprs nest < 64 \<and> remaining_tables AND sj_inner_tables nest = sj_inner_tables nest \<and>
                cur_sj_inner_tables join = 0 \<and> remaining_tables AND sj_corr_tables nest = 0 \<and> remaining_tables AND sj_depends_on nest \<noteq> 0 \<and> switch_loose_scan join
             then st\<lparr>bound_sj_equalities := get_bound_sj_equalities nest remaining_tables, try_loosescan := True\<rparr>
             else st)"

definition next_ref_key :: "loose_scan_opt \<Rightarrow> loose_scan_opt" where
  "next_ref_key st = st\<lparr>handled_sj_equalities := 0, loose_scan_keyparts := 0, max_loose_keypart := 0, part1_conds_met := False\<rparr>"

definition add_keyuse :: "ulonglong \<Rightarrow> keyuse \<Rightarrow> loose_scan_opt \<Rightarrow> loose_scan_opt option" where
  "add_keyuse remaining_tables ku st =
     (if try_loosescan st \<and> sj_pred_no ku \<noteq> UINT_MAX \<and> ku_read_order ku
      then (if remaining_tables AND used_tables ku = 0
            then do { b \<leftarrow> one_bit (unat (sj_pred_no ku)); Some (st\<lparr>bound_sj_equalities := bound_sj_equalities st OR b\<rparr>) }
            else do {
              b \<leftarrow> one_bit (unat (sj_pred_no ku));
              k \<leftarrow> one_bit (unat (keypart ku));
              Some (st\<lparr>handled_sj_equalities := handled_sj_equalities st OR b, loose_scan_keyparts := loose_scan_keyparts st OR k,
                max_loose_keypart := (if max_loose_keypart st < keypart ku then keypart ku else max_loose_keypart st)\<rparr>) })
      else Some st)"

definition have_a_case :: "loose_scan_opt \<Rightarrow> bool" where "have_a_case st \<longleftrightarrow> handled_sj_equalities st \<noteq> 0"

text \<open>The condition of \<open>check_ref_access_part1\<close>, evaluated from left to right; a null \<open>emb_sj_nest\<close> would be dereferenced.\<close>

definition part1_condition :: "join_tab \<Rightarrow> uint \<Rightarrow> ulonglong \<Rightarrow> loose_scan_opt \<Rightarrow> bool option" where
  "part1_condition s key found_part st =
     (if \<not> try_loosescan st then Some False
      else do {
        nest \<leftarrow> emb_sj_nest s;
        all_eq \<leftarrow> prev_bits (unat (sj_in_exprs nest));
        (if handled_sj_equalities st OR bound_sj_equalities st \<noteq> all_eq then Some False
         else do {
           parts \<leftarrow> (prev_bits (unat (max_loose_keypart st + 1)) :: uint option);
           Some (ucast parts AND (found_part OR ucast (loose_scan_keyparts st)) = (ucast parts :: ulonglong) \<and> \<not> uses_partial_cols s key) }) })"

definition check_ref_access_part1 :: "join_tab \<Rightarrow> uint \<Rightarrow> nat \<Rightarrow> ulonglong \<Rightarrow> loose_scan_opt \<Rightarrow> loose_scan_opt option" where
  "check_ref_access_part1 s key start_key found_part st = do {
     usable \<leftarrow> part1_condition s key found_part st;
     (if usable
      then let st = (case tab_quick s of
                       Some q \<Rightarrow> if quick_index q = key \<and> quick_is_range q
                                 then st\<lparr>quick_uses_applicable_index := True, quick_max_loose_keypart := max_loose_keypart st\<rparr> else st
                     | None \<Rightarrow> st);
               st = (if found_part AND 1 \<noteq> 0 then st\<lparr>part1_conds_met := True\<rparr> else st)
           in if found_part AND 1 = 0 \<and> covering s key
              then let st = st\<lparr>part1_conds_met := True\<rparr>;
                       records = real (unat (stats_records s));
                       read_time = keyread_cost s key records;
                       rpc = rec_per_key s key (max_loose_keypart st);
                       records = (if rpc \<noteq> 0 then records / real (unat rpc) else records)
                   in if read_time < best_loose_scan_cost st
                      then Some (st\<lparr>best_loose_scan_key := key, best_loose_scan_cost := read_time, best_loose_scan_records := records,
                             best_max_loose_keypart := max_loose_keypart st, best_loose_scan_start_key := start_key, best_ref_depend_map := 0\<rparr>)
                      else Some st
              else Some st
      else Some st) }"

definition check_ref_access_part2 :: "uint \<Rightarrow> nat \<Rightarrow> real \<Rightarrow> real \<Rightarrow> ulonglong \<Rightarrow> loose_scan_opt \<Rightarrow> loose_scan_opt" where
  "check_ref_access_part2 key start_key records read_time ref_depend_map_arg st =
     (if part1_conds_met st \<and> read_time < best_loose_scan_cost st
      then st\<lparr>best_loose_scan_key := key, best_loose_scan_cost := read_time, best_loose_scan_records := records,
             best_max_loose_keypart := max_loose_keypart st, best_loose_scan_start_key := start_key, best_ref_depend_map := ref_depend_map_arg\<rparr>
      else st)"

definition check_range_access :: "join_info \<Rightarrow> uint \<Rightarrow> quick_select \<Rightarrow> loose_scan_opt \<Rightarrow> loose_scan_opt" where
  "check_range_access join idx quick st =
     (if quick_uses_applicable_index st \<and> idx = const_tables join \<and> quick_read_time quick < best_loose_scan_cost st
      then st\<lparr>best_loose_scan_key := quick_index quick, best_loose_scan_cost := quick_read_time quick, best_loose_scan_records := real (unat (quick_records quick)),
             best_max_loose_keypart := quick_max_loose_keypart st, best_loose_scan_start_key := 0, best_ref_depend_map := 0\<rparr>
      else st)"

record position =
  pos_read_time :: real
  pos_loops :: real
  pos_records_read :: real
  pos_records_init :: real
  pos_records_out :: real
  pos_key :: nat
  pos_cond_selectivity :: real
  pos_loosescan_key :: uint
  pos_loosescan_parts :: uint
  pos_use_join_buffer :: bool
  pos_firstmatch_with_join_buf :: bool
  pos_table :: nat
  pos_rowid_filter :: nat
  pos_ref_depend_map :: ulonglong

text \<open>\<open>tab\<close> and \<open>filter_info\<close> are the pointers to the table and to its filter.\<close>

definition save_to_position :: "nat \<Rightarrow> nat \<Rightarrow> real \<Rightarrow> real \<Rightarrow> loose_scan_opt \<Rightarrow> position \<Rightarrow> loose_scan_opt \<times> position" where
  "save_to_position tab filter_info record_count records_out st p =
     (let p = p\<lparr>pos_read_time := best_loose_scan_cost st\<rparr>
      in if best_loose_scan_cost st \<noteq> DBL_MAX
         then let st = (if best_loose_scan_records st > records_out then st\<lparr>best_loose_scan_records := records_out\<rparr> else st)
              in (st, p\<lparr>pos_loops := record_count, pos_records_read := best_loose_scan_records st, pos_records_init := best_loose_scan_records st,
                    pos_records_out := best_loose_scan_records st, pos_key := best_loose_scan_start_key st, pos_cond_selectivity := 1,
                    pos_loosescan_key := best_loose_scan_key st, pos_loosescan_parts := best_max_loose_keypart st + 1, pos_use_join_buffer := False,
                    pos_firstmatch_with_join_buf := False, pos_table := tab, pos_rowid_filter := filter_info, pos_ref_depend_map := best_ref_depend_map st\<rparr>)
         else (st, p))"


section \<open>Bits\<close>

lemma prev_bits_bit: "prev_bits a = Some w \<Longrightarrow> bit w i \<longleftrightarrow> i < a" for w :: "'a::len word"
  by (auto simp: prev_bits_def mask_eq_exp_minus_1 [symmetric] push_bit_of_1 bit_mask_iff split: if_splits)

lemma one_bit_bit: "one_bit a = Some w \<Longrightarrow> bit w i \<longleftrightarrow> i = a" for w :: "'a::len word"
  by (auto simp: one_bit_def push_bit_of_1 bit_exp_iff split: if_splits)

section \<open>Plans and their cost\<close>

record plan =
  plan_key :: uint
  plan_cost :: real
  plan_records :: real
  plan_keypart :: uint
  plan_start :: nat
  plan_depends :: ulonglong

definition best :: "loose_scan_opt \<Rightarrow> plan" where
  "best st = \<lparr>plan_key = best_loose_scan_key st, plan_cost = best_loose_scan_cost st, plan_records = best_loose_scan_records st,
     plan_keypart = best_max_loose_keypart st, plan_start = best_loose_scan_start_key st, plan_depends = best_ref_depend_map st\<rparr>"

definition pick :: "plan \<Rightarrow> plan \<Rightarrow> plan" where "pick p q = (if plan_cost q < plan_cost p then q else p)"

lemma foldl_pick:
  "foldl pick p qs \<in> set (p # qs)" "q \<in> set (p # qs) \<Longrightarrow> plan_cost (foldl pick p qs) \<le> plan_cost q"
proof -
  have "foldl pick p qs \<in> set (p # qs) \<and> (\<forall>q\<in>set (p # qs). plan_cost (foldl pick p qs) \<le> plan_cost q)"
  proof (induction qs arbitrary: p)
    case (Cons q qs)
    from Cons.IH [of "pick p q"] show ?case by (auto simp: pick_def split: if_splits)
  qed simp
  then show "foldl pick p qs \<in> set (p # qs)" "q \<in> set (p # qs) \<Longrightarrow> plan_cost (foldl pick p qs) \<le> plan_cost q" by auto
qed

section \<open>The strategy\<close>

text \<open>
  What the comments of the class ask for. A table is a candidate when the conditions (1) to (5) of \<open>init\<close> hold of the sets of tables.
\<close>

definition tables :: "ulonglong \<Rightarrow> nat set" where "tables m = {i. bit m i}"

definition candidate :: "join_info \<Rightarrow> sj_nest \<Rightarrow> ulonglong \<Rightarrow> bool" where
  "candidate join nest rem \<longleftrightarrow> \<not> emb_sjm_nest join \<and> unat (sj_in_exprs nest) < 64 \<and> tables (sj_inner_tables nest) \<subseteq> tables rem \<and>
     tables (cur_sj_inner_tables join) = {} \<and> tables (sj_corr_tables nest) \<inter> tables rem = {} \<and> tables (sj_depends_on nest) \<inter> tables rem \<noteq> {} \<and>
     switch_loose_scan join"

text \<open>A keyuse binds its IN-equality when it refers to preceding tables only, otherwise the index handles the equality and the key part.\<close>

definition counts :: "keyuse \<Rightarrow> bool" where "counts ku \<longleftrightarrow> sj_pred_no ku \<noteq> UINT_MAX \<and> ku_read_order ku"

definition binds :: "ulonglong \<Rightarrow> keyuse \<Rightarrow> bool" where "binds rem ku \<longleftrightarrow> counts ku \<and> tables (used_tables ku) \<inter> tables rem = {}"

definition handles :: "ulonglong \<Rightarrow> keyuse \<Rightarrow> bool" where "handles rem ku \<longleftrightarrow> counts ku \<and> tables (used_tables ku) \<inter> tables rem \<noteq> {}"

definition equalities :: "(keyuse \<Rightarrow> bool) \<Rightarrow> keyuse set \<Rightarrow> nat set" where "equalities P kus = {unat (sj_pred_no ku) | ku. ku \<in> kus \<and> P ku}"

definition parts :: "(keyuse \<Rightarrow> bool) \<Rightarrow> keyuse set \<Rightarrow> nat set" where "parts P kus = {unat (keypart ku) | ku. ku \<in> kus \<and> P ku}"

definition last_part :: "ulonglong \<Rightarrow> keyuse set \<Rightarrow> nat" where "last_part rem kus = Max (insert 0 (parts (handles rem) kus))"

text \<open>
  What is known of an index when it is checked: the keyuses seen so far, those of the index, and the key parts found bound. LooseScan is possible when the table is a candidate,
  exactly the IN-equalities are bound (at the start or by a keyuse) or handled by the index, every key part up to the last one handled is bound or handled, and the index has no
  partial columns.
\<close>

record evidence =
  ev_key :: uint
  ev_seen :: "keyuse set"
  ev_cur :: "keyuse set"
  ev_found :: ulonglong

definition fits :: "(sj_nest \<Rightarrow> ulonglong \<Rightarrow> ulonglong) \<Rightarrow> join_info \<Rightarrow> join_tab \<Rightarrow> ulonglong \<Rightarrow> evidence \<Rightarrow> bool" where
  "fits get_bound join s rem ev \<longleftrightarrow> (\<exists>nest. emb_sj_nest s = Some nest \<and> candidate join nest rem \<and>
     tables (get_bound nest rem) \<union> equalities (binds rem) (ev_seen ev) \<union> equalities (handles rem) (ev_cur ev) = {..<unat (sj_in_exprs nest)} \<and>
     {..last_part rem (ev_cur ev)} \<subseteq> tables (ev_found ev) \<union> parts (handles rem) (ev_cur ev) \<and>
     \<not> uses_partial_cols s (ev_key ev))"

section \<open>A search for the best plan\<close>

text \<open>
  The abstract search: the keyuses, with which key parts the current index has passed its check so that a ref access is possible, with which evidence the range scan has, and the plans
  offered with their evidence.
\<close>

record search_state =
  s_key :: uint
  s_seen :: "keyuse set"
  s_cur :: "keyuse set"
  s_met :: "ulonglong option"
  s_quick :: "evidence option"
  s_offers :: "(evidence \<times> plan) list"

definition evidence_of :: "ulonglong \<Rightarrow> search_state \<Rightarrow> evidence" where
  "evidence_of fp a = \<lparr>ev_key = s_key a, ev_seen = s_seen a, ev_cur = s_cur a, ev_found = fp\<rparr>"

definition a_init :: "uint \<Rightarrow> search_state" where
  "a_init key = \<lparr>s_key = key, s_seen = {}, s_cur = {}, s_met = None, s_quick = None, s_offers = []\<rparr>"

definition a_next :: "uint \<Rightarrow> search_state \<Rightarrow> search_state" where "a_next key a = a\<lparr>s_key := key, s_cur := {}, s_met := None\<rparr>"

definition a_keyuse :: "keyuse \<Rightarrow> search_state \<Rightarrow> search_state" where "a_keyuse ku a = a\<lparr>s_seen := insert ku (s_seen a), s_cur := insert ku (s_cur a)\<rparr>"

definition offer :: "evidence \<Rightarrow> plan \<Rightarrow> search_state \<Rightarrow> search_state" where "offer ev p a = a\<lparr>s_offers := s_offers a @ [(ev, p)]\<rparr>"

text \<open>A full index scan, which needs a covering index and is used when there is no ref access on the first key part.\<close>

definition index_scan :: "join_tab \<Rightarrow> ulonglong \<Rightarrow> nat \<Rightarrow> search_state \<Rightarrow> plan" where
  "index_scan s rem start_key a =
     (let kp = of_nat (last_part rem (s_cur a)); n = real (unat (stats_records s)); rpc = rec_per_key s (s_key a) kp
      in \<lparr>plan_key = s_key a, plan_cost = keyread_cost s (s_key a) n, plan_records = (if rpc \<noteq> 0 then n / real (unat rpc) else n), plan_keypart = kp,
          plan_start = start_key, plan_depends = 0\<rparr>)"

definition a_part1 :: "(sj_nest \<Rightarrow> ulonglong \<Rightarrow> ulonglong) \<Rightarrow> join_info \<Rightarrow> join_tab \<Rightarrow> ulonglong \<Rightarrow> nat \<Rightarrow> ulonglong \<Rightarrow> search_state \<Rightarrow> search_state" where
  "a_part1 get_bound join s rem start_key fp a =
     (let ev = evidence_of fp a
      in if fits get_bound join s rem ev
         then let a = (if \<exists>q. tab_quick s = Some q \<and> quick_index q = s_key a \<and> quick_is_range q then a\<lparr>s_quick := Some ev\<rparr> else a)
              in if 0 \<in> tables fp then a\<lparr>s_met := Some fp\<rparr>
                 else if covering s (s_key a) then offer ev (index_scan s rem start_key a) (a\<lparr>s_met := Some fp\<rparr>)
                 else a
         else a)"

definition a_part2 :: "ulonglong \<Rightarrow> nat \<Rightarrow> real \<Rightarrow> real \<Rightarrow> ulonglong \<Rightarrow> search_state \<Rightarrow> search_state" where
  "a_part2 rem start_key records read_time dep a =
     (case s_met a of
        None \<Rightarrow> a
      | Some fp \<Rightarrow> offer (evidence_of fp a) \<lparr>plan_key = s_key a, plan_cost = read_time, plan_records = records,
                     plan_keypart = of_nat (last_part rem (s_cur a)), plan_start = start_key, plan_depends = dep\<rparr> a)"

definition a_range :: "join_info \<Rightarrow> ulonglong \<Rightarrow> uint \<Rightarrow> quick_select \<Rightarrow> search_state \<Rightarrow> search_state" where
  "a_range join rem idx quick a =
     (case s_quick a of
        None \<Rightarrow> a
      | Some ev \<Rightarrow> if idx = const_tables join
          then offer ev \<lparr>plan_key = ev_key ev, plan_cost = quick_read_time quick, plan_records = real (unat (quick_records quick)),
                 plan_keypart = of_nat (last_part rem (ev_cur ev)), plan_start = 0, plan_depends = 0\<rparr> a
          else a)"

text \<open>
  The calls of \<open>best_access_path\<close>, in the pattern the comment of the class gives, with the abstract search beside them: after \<open>init\<close>, for each index \<open>next_ref_key\<close>, its keyuses
  and then its checks, and checks of the range scan of the table.
\<close>

inductive search :: "(sj_nest \<Rightarrow> ulonglong \<Rightarrow> ulonglong) \<Rightarrow> join_info \<Rightarrow> join_tab \<Rightarrow> ulonglong \<Rightarrow> search_state \<Rightarrow> loose_scan_opt \<Rightarrow> bool"
  for get_bound join s rem where
  search_init: "search get_bound join s rem (a_init key) (next_ref_key (loose_init get_bound join s rem (loose_scan_new junk)))"
| search_key: "search get_bound join s rem a st \<Longrightarrow> search get_bound join s rem (a_next key a) (next_ref_key st)"
| search_keyuse: "search get_bound join s rem a st \<Longrightarrow> s_met a = None \<Longrightarrow> add_keyuse rem ku st = Some st' \<Longrightarrow>
    search get_bound join s rem (a_keyuse ku a) st'"
| search_part1: "search get_bound join s rem a st \<Longrightarrow> check_ref_access_part1 s (s_key a) start_key fp st = Some st' \<Longrightarrow>
    search get_bound join s rem (a_part1 get_bound join s rem start_key fp a) st'"
| search_part2: "search get_bound join s rem a st \<Longrightarrow>
    search get_bound join s rem (a_part2 rem start_key records read_time dep a) (check_ref_access_part2 (s_key a) start_key records read_time dep st)"
| search_range: "search get_bound join s rem a st \<Longrightarrow> tab_quick s = Some quick \<Longrightarrow>
    search get_bound join s rem (a_range join rem idx quick a) (check_range_access join idx quick st)"

section \<open>The state of the class and the abstract search\<close>

lemma tables_and: "tables (a AND b) = tables a \<inter> tables b" by (auto simp: tables_def bit_and_iff)
lemma tables_or: "tables (a OR b) = tables a \<union> tables b" by (auto simp: tables_def bit_or_iff)
lemma tables_eq: "a = b \<longleftrightarrow> tables a = tables b" unfolding tables_def using bit_eq_iff [of a b] by blast
lemma tables_0: "tables 0 = {}" by (simp add: tables_def)
lemma tables_empty: "a = 0 \<longleftrightarrow> tables a = {}" by (simp add: tables_eq [of a] tables_0)
lemma tables_one_bit: "one_bit n = Some b \<Longrightarrow> tables b = {n}" using one_bit_bit [of n b] by (auto simp: tables_def)
lemma tables_prev_bits: "prev_bits n = Some b \<Longrightarrow> tables b = {..<n}" using prev_bits_bit [of n b] by (auto simp: tables_def)
lemma bit_0_tables: "a AND 1 = 0 \<longleftrightarrow> 0 \<notin> tables a" for a :: ulonglong
  by (simp add: tables_def and_one_eq bit_0 flip: even_iff_mod_2_eq_zero)

lemma tables_ucast: "tables (ucast (a :: uint)) = {i. bit a i}"
  by (auto simp: tables_def bit_simps dest: bit_imp_le_length)

lemma used_tables_and: "rem AND used_tables ku = 0 \<longleftrightarrow> tables (used_tables ku) \<inter> tables rem = {}"
  by (auto simp: tables_empty tables_and)

lemma loose_init_candidate:
  "loose_init get_bound join s rem st =
     (case emb_sj_nest s of
        None \<Rightarrow> st\<lparr>best_loose_scan_cost := DBL_MAX\<rparr>
      | Some nest \<Rightarrow> if candidate join nest rem then st\<lparr>best_loose_scan_cost := DBL_MAX, bound_sj_equalities := get_bound nest rem, try_loosescan := True\<rparr>
                    else st\<lparr>best_loose_scan_cost := DBL_MAX\<rparr>)"
proof (cases "emb_sj_nest s")
  case (Some nest)
  have "rem AND sj_inner_tables nest = sj_inner_tables nest \<longleftrightarrow> tables (sj_inner_tables nest) \<subseteq> tables rem"
    by (auto simp: tables_eq [of "rem AND _"] tables_and)
  moreover have "rem AND sj_corr_tables nest = 0 \<longleftrightarrow> tables (sj_corr_tables nest) \<inter> tables rem = {}"
    "rem AND sj_depends_on nest = 0 \<longleftrightarrow> tables (sj_depends_on nest) \<inter> tables rem = {}"
    by (auto simp: tables_empty tables_and)
  ultimately have "candidate join nest rem \<longleftrightarrow> \<not> emb_sjm_nest join \<and> sj_in_exprs nest < 64 \<and> rem AND sj_inner_tables nest = sj_inner_tables nest \<and>
      cur_sj_inner_tables join = 0 \<and> rem AND sj_corr_tables nest = 0 \<and> rem AND sj_depends_on nest \<noteq> 0 \<and> switch_loose_scan join"
    by (simp add: candidate_def word_less_nat_alt tables_empty [symmetric])
  then show ?thesis using Some by (simp add: loose_init_def Let_def)
qed (simp add: loose_init_def)

lemma equalities_simps [simp]:
  "equalities P {} = {}" "equalities P (insert ku kus) = (if P ku then insert (unat (sj_pred_no ku)) (equalities P kus) else equalities P kus)"
  by (auto simp: equalities_def)

lemma parts_simps [simp]:
  "parts P {} = {}" "parts P (insert ku kus) = (if P ku then insert (unat (keypart ku)) (parts P kus) else parts P kus)"
  by (auto simp: parts_def)

lemma finite_parts: "finite kus \<Longrightarrow> finite (parts P kus)"
  unfolding parts_def by (rule finite_subset [of _ "(\<lambda>ku. unat (keypart ku)) ` kus"]) auto

lemma last_part_simps:
  "last_part rem {} = 0"
  "finite kus \<Longrightarrow> last_part rem (insert ku kus) = (if handles rem ku then max (unat (keypart ku)) (last_part rem kus) else last_part rem kus)"
  by (auto simp: last_part_def insert_commute [of 0] finite_parts)

text \<open>The bits of the state, for a candidate: what they say of the keyuses.\<close>

definition bits_ok :: "(sj_nest \<Rightarrow> ulonglong \<Rightarrow> ulonglong) \<Rightarrow> join_info \<Rightarrow> join_tab \<Rightarrow> ulonglong \<Rightarrow> search_state \<Rightarrow> loose_scan_opt \<Rightarrow> bool" where
  "bits_ok get_bound join s rem a st \<longleftrightarrow> finite (s_cur a) \<and>
     (try_loosescan st \<longleftrightarrow> (\<exists>nest. emb_sj_nest s = Some nest \<and> candidate join nest rem)) \<and>
     (\<forall>nest. emb_sj_nest s = Some nest \<and> candidate join nest rem \<longrightarrow>
        tables (bound_sj_equalities st) = tables (get_bound nest rem) \<union> equalities (binds rem) (s_seen a) \<and>
        tables (handled_sj_equalities st) = equalities (handles rem) (s_cur a) \<and>
        {j. bit (loose_scan_keyparts st) j} = parts (handles rem) (s_cur a) \<and>
        max_loose_keypart st = of_nat (last_part rem (s_cur a)) \<and> last_part rem (s_cur a) < 32)"

lemma add_keyuse_bits:
  assumes "bits_ok get_bound join s rem a st" "add_keyuse rem ku st = Some st'"
  shows "bits_ok get_bound join s rem (a_keyuse ku a) st'"
proof (cases "try_loosescan st \<and> counts ku")
  case False
  then have "st' = st" "try_loosescan st \<Longrightarrow> \<not> binds rem ku \<and> \<not> handles rem ku" using assms(2) by (auto simp: add_keyuse_def counts_def binds_def handles_def)
  then show ?thesis using assms(1) last_part_simps(2) [of "s_cur a" rem ku] unfolding bits_ok_def a_keyuse_def by auto
next
  case True
  have f: "finite (s_cur a)" using assms(1) by (simp add: bits_ok_def)
  show ?thesis
  proof (cases "rem AND used_tables ku = 0")
    case z: True
    with True assms(2) obtain b where b: "one_bit (unat (sj_pred_no ku)) = Some b" "st' = st\<lparr>bound_sj_equalities := bound_sj_equalities st OR b\<rparr>"
      by (auto simp: add_keyuse_def counts_def split: bind_splits)
    have "binds rem ku" "\<not> handles rem ku" using True z by (simp_all add: binds_def handles_def used_tables_and)
    then show ?thesis using assms(1) b(2) tables_one_bit [OF b(1)] last_part_simps(2) [OF f, of rem ku]
      by (auto simp: bits_ok_def a_keyuse_def tables_or)
  next
    case z: False
    with True assms(2) obtain b k where b: "one_bit (unat (sj_pred_no ku)) = Some b" "one_bit (unat (keypart ku)) = Some k"
      "handled_sj_equalities st' = handled_sj_equalities st OR b" "loose_scan_keyparts st' = loose_scan_keyparts st OR k"
      "bound_sj_equalities st' = bound_sj_equalities st" "max_loose_keypart st' = (if max_loose_keypart st < keypart ku then keypart ku else max_loose_keypart st)"
      "try_loosescan st' = try_loosescan st"
      by (auto simp: add_keyuse_def counts_def split: bind_splits)
    have h: "\<not> binds rem ku" "handles rem ku" using True z by (simp_all add: binds_def handles_def used_tables_and)
    have k: "unat (keypart ku) < 32" "{j. bit (loose_scan_keyparts st') j} = insert (unat (keypart ku)) {j. bit (loose_scan_keyparts st) j}"
      using b(2,4) one_bit_bit [OF b(2)] by (auto simp: one_bit_def bit_or_iff split: if_splits)
    have "of_nat (max (unat (keypart ku)) n) = (if of_nat n < keypart ku then keypart ku else of_nat n)" if "n < 32" for n
      using that k(1) by (simp add: word_less_nat_alt unat_of_nat max_def)
    then show ?thesis using assms(1) b(3,5,6,7) tables_one_bit [OF b(1)] last_part_simps(2) [OF f, of rem ku] h k
      by (auto simp: bits_ok_def a_keyuse_def tables_or)
  qed
qed

lemma add_keyuse_other:
  assumes "add_keyuse rem ku st = Some st'"
  shows "best st' = best st" "part1_conds_met st' = part1_conds_met st" "quick_uses_applicable_index st' = quick_uses_applicable_index st"
    "quick_max_loose_keypart st' = quick_max_loose_keypart st"
  using assms by (auto simp: add_keyuse_def best_def split: if_splits bind_splits)

text \<open>Where the condition of the first check is defined it is the applicability of the strategy.\<close>

lemma part1_condition_fits:
  assumes "bits_ok get_bound join s rem a st" "part1_condition s (s_key a) fp st = Some u"
  shows "u \<longleftrightarrow> fits get_bound join s rem (evidence_of fp a)"
proof (cases "try_loosescan st")
  case False
  then show ?thesis using assms by (auto simp: part1_condition_def fits_def bits_ok_def)
next
  case True
  then obtain nest where nest: "emb_sj_nest s = Some nest" "candidate join nest rem" using assms(1) by (auto simp: bits_ok_def)
  have i: "tables (bound_sj_equalities st) = tables (get_bound nest rem) \<union> equalities (binds rem) (s_seen a)"
    "tables (handled_sj_equalities st) = equalities (handles rem) (s_cur a)" "{j. bit (loose_scan_keyparts st) j} = parts (handles rem) (s_cur a)"
    "max_loose_keypart st = of_nat (last_part rem (s_cur a))" "last_part rem (s_cur a) < 32"
    using assms(1) nest by (auto simp: bits_ok_def)
  obtain e :: ulonglong where e: "prev_bits (unat (sj_in_exprs nest)) = Some e"
    using assms(2) True nest(1) by (cases "prev_bits (unat (sj_in_exprs nest)) :: ulonglong option") (auto simp: part1_condition_def)
  have pc: "part1_condition s (s_key a) fp st =
      (if handled_sj_equalities st OR bound_sj_equalities st \<noteq> e then Some False
       else do {
         parts \<leftarrow> (prev_bits (unat (max_loose_keypart st + 1)) :: uint option);
         Some (ucast parts AND (fp OR ucast (loose_scan_keyparts st)) = (ucast parts :: ulonglong) \<and> \<not> uses_partial_cols s (s_key a)) })"
    using True nest(1) e by (simp add: part1_condition_def)
  have eq: "handled_sj_equalities st OR bound_sj_equalities st = e \<longleftrightarrow>
      tables (get_bound nest rem) \<union> equalities (binds rem) (s_seen a) \<union> equalities (handles rem) (s_cur a) = {..<unat (sj_in_exprs nest)}"
    unfolding tables_eq [of _ e] tables_prev_bits [OF e] tables_or i(1,2) by (simp only: Un_ac)
  show ?thesis
  proof (cases "handled_sj_equalities st OR bound_sj_equalities st = e")
    case False
    then have "\<not> u" using assms(2) unfolding pc by simp
    then show ?thesis using False nest(1) eq by (simp add: fits_def evidence_of_def)
  next
    case t: True
    obtain q where q: "(prev_bits (unat (max_loose_keypart st + 1)) :: uint option) = Some q"
      "u \<longleftrightarrow> ucast q AND (fp OR ucast (loose_scan_keyparts st)) = (ucast q :: ulonglong) \<and> \<not> uses_partial_cols s (s_key a)"
      using assms(2) unfolding pc by (cases "prev_bits (unat (max_loose_keypart st + 1)) :: uint option") (simp_all add: t)
    have "unat (max_loose_keypart st + 1) = Suc (last_part rem (s_cur a))" using i(4,5) by (simp add: unat_word_ariths unat_of_nat)
    then have Q: "{j. bit q j} = {..last_part rem (s_cur a)}" using prev_bits_bit [OF q(1)] by (simp add: less_Suc_eq_le atMost_def)
    have "ucast q AND (fp OR ucast (loose_scan_keyparts st)) = (ucast q :: ulonglong) \<longleftrightarrow>
        {..last_part rem (s_cur a)} \<subseteq> tables fp \<union> parts (handles rem) (s_cur a)"
      unfolding tables_eq [of _ "ucast q"] tables_and tables_or tables_ucast i(3) Q by blast
    then show ?thesis using q(2) t eq nest by (simp add: fits_def evidence_of_def)
  qed
qed

text \<open>The plan that stands for none.\<close>

definition no_plan :: plan where "no_plan = \<lparr>plan_key = 0, plan_cost = DBL_MAX, plan_records = 0, plan_keypart = 0, plan_start = 0, plan_depends = 0\<rparr>"

definition search_inv :: "(sj_nest \<Rightarrow> ulonglong \<Rightarrow> ulonglong) \<Rightarrow> join_info \<Rightarrow> join_tab \<Rightarrow> ulonglong \<Rightarrow> search_state \<Rightarrow> loose_scan_opt \<Rightarrow> bool" where
  "search_inv get_bound join s rem a st \<longleftrightarrow> bits_ok get_bound join s rem a st \<and> best st = foldl pick no_plan (map snd (s_offers a)) \<and>
     (part1_conds_met st \<longleftrightarrow> s_met a \<noteq> None) \<and>
     (\<forall>fp. s_met a = Some fp \<longrightarrow> fits get_bound join s rem (evidence_of fp a) \<and> max_loose_keypart st = of_nat (last_part rem (s_cur a))) \<and>
     (quick_uses_applicable_index st \<longleftrightarrow> s_quick a \<noteq> None) \<and>
     (\<forall>ev. s_quick a = Some ev \<longrightarrow> fits get_bound join s rem ev \<and> quick_max_loose_keypart st = of_nat (last_part rem (ev_cur ev)) \<and>
        (\<exists>q. tab_quick s = Some q \<and> quick_index q = ev_key ev)) \<and>
     (\<forall>(ev, p)\<in>set (s_offers a). fits get_bound join s rem ev \<and> plan_key p = ev_key ev \<and> plan_keypart p = of_nat (last_part rem (ev_cur ev)))"

lemma fits_bits:
  assumes "bits_ok get_bound join s rem a st" "fits get_bound join s rem (evidence_of fp a)"
  shows "max_loose_keypart st = of_nat (last_part rem (s_cur a))"
  using assms by (auto simp: bits_ok_def fits_def)

text \<open>The part of the state that is not the best plan, and offers of plans.\<close>

definition others :: "loose_scan_opt \<Rightarrow> bool \<times> ulonglong \<times> ulonglong \<times> uint \<times> uint \<times> bool \<times> bool \<times> uint" where
  "others st = (try_loosescan st, bound_sj_equalities st, handled_sj_equalities st, loose_scan_keyparts st, max_loose_keypart st, part1_conds_met st,
     quick_uses_applicable_index st, quick_max_loose_keypart st)"

lemma inv_offer:
  assumes "search_inv get_bound join s rem a st" "fits get_bound join s rem ev" "plan_key p = ev_key ev" "plan_keypart p = of_nat (last_part rem (ev_cur ev))"
    and "best st' = pick (best st) p" "others st' = others st"
  shows "search_inv get_bound join s rem (offer ev p a) st'"
proof -
  have o: "s_offers (offer ev p a) = s_offers a @ [(ev, p)]" "s_met (offer ev p a) = s_met a" "s_quick (offer ev p a) = s_quick a"
    "s_cur (offer ev p a) = s_cur a" "s_seen (offer ev p a) = s_seen a" "evidence_of fp (offer ev p a) = evidence_of fp a" for fp
    by (simp_all add: offer_def evidence_of_def)
  have "bits_ok get_bound join s rem (offer ev p a) st' = bits_ok get_bound join s rem a st" "max_loose_keypart st' = max_loose_keypart st"
    "part1_conds_met st' = part1_conds_met st" "quick_uses_applicable_index st' = quick_uses_applicable_index st" "quick_max_loose_keypart st' = quick_max_loose_keypart st"
    using assms(6) by (simp_all add: bits_ok_def others_def o)
  with assms(1-5) show ?thesis unfolding search_inv_def o by simp
qed

lemma inv_part1:
  assumes "search_inv get_bound join s rem a st" "check_ref_access_part1 s (s_key a) start_key fp st = Some st'"
  shows "search_inv get_bound join s rem (a_part1 get_bound join s rem start_key fp a) st'"
proof -
  obtain u where u: "part1_condition s (s_key a) fp st = Some u" using assms(2) by (auto simp: check_ref_access_part1_def split: bind_splits)
  have b: "bits_ok get_bound join s rem a st" using assms(1) by (simp add: search_inv_def)
  note f = part1_condition_fits [OF b u]
  show ?thesis
  proof (cases u)
    case False
    then have "st' = st" using assms(2) u by (simp add: check_ref_access_part1_def)
    then show ?thesis using assms(1) f False by (simp add: a_part1_def)
  next
    case True
    then have fit: "fits get_bound join s rem (evidence_of fp a)" using f by simp
    note k = fits_bits [OF b fit]
    define quick where "quick \<longleftrightarrow> (\<exists>q. tab_quick s = Some q \<and> quick_index q = s_key a \<and> quick_is_range q)"
    define st1 where "st1 = (if quick then st\<lparr>quick_uses_applicable_index := True, quick_max_loose_keypart := max_loose_keypart st\<rparr> else st)"
    define a1 where "a1 = (if quick then a\<lparr>s_quick := Some (evidence_of fp a)\<rparr> else a)"
    have same: "s_key a1 = s_key a" "s_cur a1 = s_cur a" "evidence_of fp a1 = evidence_of fp a" "max_loose_keypart st1 = max_loose_keypart st"
      by (simp_all add: a1_def st1_def evidence_of_def)
    have i1: "search_inv get_bound join s rem a1 st1"
      using assms(1) fit k by (auto simp: search_inv_def bits_ok_def a1_def st1_def quick_def best_def evidence_of_def)
    have i2: "search_inv get_bound join s rem (a1\<lparr>s_met := Some fp\<rparr>) (st1\<lparr>part1_conds_met := True\<rparr>)"
      using i1 fit k same by (auto simp: search_inv_def bits_ok_def best_def evidence_of_def)
    have c: "check_ref_access_part1 s (s_key a) start_key fp st =
        (let st = (if 0 \<in> tables fp then st1\<lparr>part1_conds_met := True\<rparr> else st1)
         in if 0 \<notin> tables fp \<and> covering s (s_key a)
            then let st = st\<lparr>part1_conds_met := True\<rparr>; p = index_scan s rem start_key a
                 in if plan_cost p < best_loose_scan_cost st
                    then Some (st\<lparr>best_loose_scan_key := plan_key p, best_loose_scan_cost := plan_cost p, best_loose_scan_records := plan_records p,
                           best_max_loose_keypart := plan_keypart p, best_loose_scan_start_key := plan_start p, best_ref_depend_map := 0\<rparr>)
                    else Some st
            else Some st)"
    proof -
      have "(case tab_quick s of Some q \<Rightarrow> if quick_index q = s_key a \<and> quick_is_range q
            then st\<lparr>quick_uses_applicable_index := True, quick_max_loose_keypart := max_loose_keypart st\<rparr> else st | None \<Rightarrow> st) = st1"
        by (auto simp: st1_def quick_def split: option.split)
      then show ?thesis using u True k same(4)
        by (simp add: check_ref_access_part1_def bit_0_tables Let_def index_scan_def cong: if_cong)
    qed
    show ?thesis
    proof (cases "0 \<in> tables fp \<or> \<not> covering s (s_key a)")
      case True
      then show ?thesis using c assms(2) i1 i2 fit same
        by (auto simp: a_part1_def Let_def quick_def [symmetric] a1_def [symmetric])
    next
      case False
      let ?p = "index_scan s rem start_key a"
      have p: "plan_key ?p = s_key a" "plan_keypart ?p = of_nat (last_part rem (s_cur a))" "plan_depends ?p = 0" by (simp_all add: index_scan_def Let_def)
      have "best st' = pick (best st1) ?p"
        using c assms(2) False by (auto simp: Let_def best_def pick_def index_scan_def)
      then have "best st' = pick (best (st1\<lparr>part1_conds_met := True\<rparr>)) ?p" by (simp add: best_def)
      moreover have "others st' = others (st1\<lparr>part1_conds_met := True\<rparr>)"
        using c assms(2) False by (auto simp: Let_def others_def split: if_splits)
      ultimately have "search_inv get_bound join s rem (offer (evidence_of fp a) ?p (a1\<lparr>s_met := Some fp\<rparr>)) st'"
        using p by (intro inv_offer [OF i2 fit]) (simp_all add: evidence_of_def)
      moreover have "a_part1 get_bound join s rem start_key fp a = offer (evidence_of fp a) ?p (a1\<lparr>s_met := Some fp\<rparr>)"
        using False fit same by (auto simp: a_part1_def Let_def quick_def [symmetric] a1_def [symmetric] index_scan_def)
      ultimately show ?thesis by simp
    qed
  qed
qed

lemma inv_part2:
  assumes "search_inv get_bound join s rem a st"
  shows "search_inv get_bound join s rem (a_part2 rem start_key records read_time dep a) (check_ref_access_part2 (s_key a) start_key records read_time dep st)"
proof (cases "s_met a")
  case None
  then show ?thesis using assms by (simp add: a_part2_def check_ref_access_part2_def search_inv_def)
next
  case (Some fp)
  let ?st = "check_ref_access_part2 (s_key a) start_key records read_time dep st"
  let ?p = "\<lparr>plan_key = s_key a, plan_cost = read_time, plan_records = records, plan_keypart = of_nat (last_part rem (s_cur a)),
      plan_start = start_key, plan_depends = dep\<rparr>"
  have "part1_conds_met st" "max_loose_keypart st = of_nat (last_part rem (s_cur a))" using assms Some by (auto simp: search_inv_def)
  then have "best ?st = pick (best st) ?p" by (simp add: check_ref_access_part2_def best_def pick_def)
  moreover have "others ?st = others st" by (simp add: check_ref_access_part2_def others_def)
  moreover have "fits get_bound join s rem (evidence_of fp a)" using assms Some by (simp add: search_inv_def)
  ultimately have "search_inv get_bound join s rem (offer (evidence_of fp a) ?p a) ?st"
    by (intro inv_offer [OF assms]) (simp_all add: evidence_of_def)
  then show ?thesis using Some by (simp add: a_part2_def)
qed

lemma inv_range:
  assumes "search_inv get_bound join s rem a st" "tab_quick s = Some quick"
  shows "search_inv get_bound join s rem (a_range join rem idx quick a) (check_range_access join idx quick st)"
proof (cases "s_quick a")
  case None
  then show ?thesis using assms by (simp add: a_range_def check_range_access_def search_inv_def)
next
  case (Some ev)
  let ?st = "check_range_access join idx quick st"
  have q: "quick_uses_applicable_index st" "quick_max_loose_keypart st = of_nat (last_part rem (ev_cur ev))" "quick_index quick = ev_key ev" "fits get_bound join s rem ev"
    using assms Some by (auto simp: search_inv_def)
  show ?thesis
  proof (cases "idx = const_tables join")
    case False
    then show ?thesis using assms(1) Some by (simp add: a_range_def check_range_access_def)
  next
    case True
    let ?p = "\<lparr>plan_key = ev_key ev, plan_cost = quick_read_time quick, plan_records = real (unat (quick_records quick)),
        plan_keypart = of_nat (last_part rem (ev_cur ev)), plan_start = 0, plan_depends = 0\<rparr>"
    have "best ?st = pick (best st) ?p" using q True by (simp add: check_range_access_def best_def pick_def)
    moreover have "others ?st = others st" by (simp add: check_range_access_def others_def)
    ultimately have "search_inv get_bound join s rem (offer ev ?p a) ?st" by (intro inv_offer [OF assms(1) q(4)]) simp_all
    then show ?thesis using Some True by (simp add: a_range_def)
  qed
qed

lemma search_invariant: "search get_bound join s rem a st \<Longrightarrow> search_inv get_bound join s rem a st"
proof (induction rule: search.induct)
  case (search_init key junk)
  then show ?case
    by (auto simp: search_inv_def bits_ok_def a_init_def next_ref_key_def loose_init_candidate loose_scan_new_def best_def no_plan_def tables_0 last_part_simps
        split: option.splits)
next
  case (search_key a st key)
  then show ?case by (auto simp: search_inv_def bits_ok_def a_next_def next_ref_key_def best_def tables_0 last_part_simps)
next
  case (search_keyuse a st ku st')
  have "bits_ok get_bound join s rem (a_keyuse ku a) st'" using search_keyuse by (intro add_keyuse_bits) (auto simp: search_inv_def)
  then show ?case using search_keyuse add_keyuse_other [OF search_keyuse.hyps(3)] by (auto simp: search_inv_def a_keyuse_def)
qed (auto intro: inv_part1 inv_part2 inv_range)

text \<open>C14. In every state of a search, the cost kept is the least of the costs of the plans the strategy offers, or \<open>DBL_MAX\<close> when none is below it: a full index scan of a covering
  index, a ref access and the range scan are offered exactly when the table is a candidate, the IN-equalities are exactly those bound or handled by the index, every key part up to the
  last one handled is bound or handled, and the index has no partial columns. The plan kept is one of those offered; its index met these conditions when it was checked, and its number of
  key parts is that of the prefix checked. A plan saved to a position has that cost, reads no more records than \<open>records_out\<close>, and nothing but the cost is saved without one.
\<close>

theorem loose_scan_best_plan:
  assumes "search get_bound join s rem a st" "save_to_position tab filter_info loops records_out st p = (st', p')"
  shows "plan_cost (best st) = Min (set (DBL_MAX # map (plan_cost \<circ> snd) (s_offers a))) \<and>
    (best_loose_scan_cost st \<noteq> DBL_MAX \<longrightarrow>
       (\<exists>ev. (ev, best st) \<in> set (s_offers a) \<and> fits get_bound join s rem ev \<and> best_loose_scan_key st = ev_key ev \<and>
          best_max_loose_keypart st = of_nat (last_part rem (ev_cur ev))) \<and>
       pos_records_out p' = min (best_loose_scan_records st) records_out \<and> pos_loosescan_key p' = best_loose_scan_key st \<and>
       pos_loosescan_parts p' = best_max_loose_keypart st + 1 \<and> pos_key p' = best_loose_scan_start_key st \<and> pos_ref_depend_map p' = best_ref_depend_map st) \<and>
    pos_read_time p' = best_loose_scan_cost st \<and>
    (best_loose_scan_cost st = DBL_MAX \<longrightarrow> p' = p\<lparr>pos_read_time := DBL_MAX\<rparr> \<and> st' = st)"
proof -
  define os where "os = map snd (s_offers a)"
  have i: "best st = foldl pick no_plan os" "\<And>ev q. (ev, q) \<in> set (s_offers a) \<Longrightarrow>
      fits get_bound join s rem ev \<and> plan_key q = ev_key ev \<and> plan_keypart q = of_nat (last_part rem (ev_cur ev))"
    using search_invariant [OF assms(1)] by (auto simp: search_inv_def os_def)
  have c: "plan_cost (best st) = best_loose_scan_cost st" "plan_keypart (best st) = best_max_loose_keypart st" "plan_key (best st) = best_loose_scan_key st"
    "plan_cost no_plan = DBL_MAX" by (simp_all add: best_def no_plan_def)
  have b: "best st \<in> set (no_plan # os)" "\<And>q. q \<in> set (no_plan # os) \<Longrightarrow> plan_cost (best st) \<le> plan_cost q"
    using foldl_pick(1) [of no_plan os] foldl_pick(2) [of _ no_plan os] unfolding i(1) by blast+
  have "Min (plan_cost ` set (no_plan # os)) = plan_cost (best st)"
    using b(2) imageI [OF b(1), of plan_cost] by (intro Min_eqI) auto
  moreover have "plan_cost ` set (no_plan # os) = set (DBL_MAX # map (plan_cost \<circ> snd) (s_offers a))" by (auto simp: os_def c(4))
  ultimately have m: "plan_cost (best st) = Min (set (DBL_MAX # map (plan_cost \<circ> snd) (s_offers a)))" by simp
  have e: "\<exists>ev. (ev, best st) \<in> set (s_offers a) \<and> fits get_bound join s rem ev \<and> best_loose_scan_key st = ev_key ev \<and>
          best_max_loose_keypart st = of_nat (last_part rem (ev_cur ev))" if "best_loose_scan_cost st \<noteq> DBL_MAX"
  proof -
    have "best st \<in> set os" using b(1) that c by auto
    then obtain ev where "(ev, best st) \<in> set (s_offers a)" by (auto simp: os_def)
    then show ?thesis using i(2) c by metis
  qed
  show ?thesis using assms(2) c m e by (auto simp: save_to_position_def Let_def min_def split: if_splits)
qed

text \<open>
  An index on \<open>(a, b)\<close>, of which \<open>a\<close> is handled by the only IN-equality, and a full index scan on it.
\<close>

definition sample_nest :: sj_nest where "sample_nest = \<lparr>sj_in_exprs = 1, sj_inner_tables = 2, sj_corr_tables = 0, sj_depends_on = 4\<rparr>"

definition sample_join :: join_info where "sample_join = \<lparr>emb_sjm_nest = False, cur_sj_inner_tables = 0, switch_loose_scan = True, const_tables = 0\<rparr>"

definition sample_tab :: join_tab where
  "sample_tab = \<lparr>emb_sj_nest = Some sample_nest, tab_quick = None, uses_partial_cols = (\<lambda>_. False), covering = (\<lambda>_. True), stats_records = 100,
     keyread_cost = (\<lambda>_ _. 7), rec_per_key = (\<lambda>_ _. 4)\<rparr>"

definition sample_keyuse :: keyuse where "sample_keyuse = \<lparr>sj_pred_no = 0, ku_read_order = True, used_tables = 4, keypart = 0\<rparr>"

definition sample_junk :: loose_scan_opt where
  "sample_junk = \<lparr>try_loosescan = False, bound_sj_equalities = 0, handled_sj_equalities = 0, loose_scan_keyparts = 0, max_loose_keypart = 0, part1_conds_met = False,
     quick_uses_applicable_index = False, quick_max_loose_keypart = 0, best_loose_scan_key = 0, best_loose_scan_cost = 0, best_loose_scan_records = 0,
     best_loose_scan_start_key = 0, best_max_loose_keypart = 0, best_ref_depend_map = 0\<rparr>"

definition sample_position :: position where
  "sample_position = \<lparr>pos_read_time = 0, pos_loops = 0, pos_records_read = 0, pos_records_init = 0, pos_records_out = 0, pos_key = 0, pos_cond_selectivity = 0,
     pos_loosescan_key = 0, pos_loosescan_parts = 0, pos_use_join_buffer = True, pos_firstmatch_with_join_buf = True, pos_table = 0, pos_rowid_filter = 0, pos_ref_depend_map = 0\<rparr>"

lemma DBL_MAX_big: "7 < DBL_MAX"
  by (simp add: DBL_MAX_def)

theorem loose_scan_best_plan_witness:
  "\<exists>a st. search (\<lambda>_ _. 0) sample_join sample_tab 6 a st \<and> s_cur a = {sample_keyuse} \<and> best_loose_scan_cost st = 7 \<and>
     (\<exists>ev. (ev, best st) \<in> set (s_offers a) \<and> fits (\<lambda>_ _. 0) sample_join sample_tab 6 ev) \<and>
     pos_records_out (snd (save_to_position 1 0 1 20 st sample_position)) = 20"
proof -
  let ?s0 = "next_ref_key (loose_init (\<lambda>_ _. 0) sample_join sample_tab 6 (loose_scan_new sample_junk))"
  let ?s1 = "?s0\<lparr>handled_sj_equalities := 1, loose_scan_keyparts := 1\<rparr>"
  let ?st = "?s1\<lparr>part1_conds_met := True, best_loose_scan_key := 3, best_loose_scan_cost := 7, best_loose_scan_records := 25, best_loose_scan_start_key := 9\<rparr>"
  let ?a = "a_part1 (\<lambda>_ _. 0) sample_join sample_tab 6 9 0 (a_keyuse sample_keyuse (a_init 3))"
  note defs = loose_init_def next_ref_key_def loose_scan_new_def sample_join_def sample_tab_def sample_nest_def sample_keyuse_def sample_junk_def
  have k: "add_keyuse 6 sample_keyuse ?s0 = Some ?s1"
    by (simp add: defs add_keyuse_def one_bit_def UINT_MAX_def)
  have c: "check_ref_access_part1 sample_tab 3 9 0 ?s1 = Some ?st"
    using DBL_MAX_big by (simp add: defs check_ref_access_part1_def part1_condition_def prev_bits_def)
  have s: "search (\<lambda>_ _. 0) sample_join sample_tab 6 ?a ?st"
    by (rule search_part1 [OF search_keyuse [OF search_init [of _ _ _ _ 3] _ k]]) (use c in \<open>simp_all add: a_init_def a_keyuse_def\<close>)
  have cost: "best_loose_scan_cost ?st = 7" "best_loose_scan_records ?st = 25" by simp_all
  have cur: "s_cur ?a = {sample_keyuse}" by (simp add: a_part1_def a_keyuse_def a_init_def offer_def Let_def)
  from loose_scan_best_plan [OF s surjective_pairing, of 1 0 1 20 sample_position] DBL_MAX_big cost
  have "(\<exists>ev. (ev, best ?st) \<in> set (s_offers ?a) \<and> fits (\<lambda>_ _. 0) sample_join sample_tab 6 ev) \<and>
      pos_records_out (snd (save_to_position 1 0 1 20 ?st sample_position)) = 20" by (auto simp del: loose_scan_opt.simps)
  with s cur cost(1) show ?thesis by blast
qed

text \<open>
  A key part map has 32 bits, so that the mask for an index whose 32nd part is handled is undefined: the shift is by the width of its operand.
\<close>

lemma last_keypart_undefined:
  assumes "try_loosescan st" "emb_sj_nest s = Some nest" "sj_in_exprs nest < 64"
    "Some (handled_sj_equalities st OR bound_sj_equalities st) = prev_bits (unat (sj_in_exprs nest))" "max_loose_keypart st = 31"
  shows "part1_condition s key fp st = None"
proof -
  have "(prev_bits (unat (max_loose_keypart st + 1)) :: uint option) = None" by (simp add: prev_bits_def assms(5))
  then show ?thesis using assms(1,2) by (simp add: part1_condition_def assms(4) [symmetric])
qed

end
