(* ===== verification/Analyze_Trackers.thy ===== *)
theory Analyze_Trackers
  imports Prelude Complex_Main
begin

text \<open>
  The trackers of \<open>ANALYZE\<close>, \<open>sql_analyze_stmt.h\<close>: time and loops of an action, scans and rows of a table access, the runs of a filesort and the checks of a rowid
  filter. The clock (\<open>measure\<close>) is an argument \<open>now\<close> of the operations that read it, the frequency of the timer one of the conversions. \<open>process_gap_time_tracker\<close> and
  \<open>attach_gap_time_tracker\<close>, which change only the connection, are arguments on its state. Averages are rational numbers; \<^const>\<open>None\<close> is the
  not-a-number a division of 0 by 0 gives.
\<close>

section \<open>Time\<close>

record 'gap exec_time_tracker =
  ett_count :: ulonglong
  ett_cycles :: ulonglong
  last_start :: ulonglong
  my_gap_tracker :: "'gap option"

type_synonym 'thd process_gap = "'thd \<Rightarrow> ulonglong \<Rightarrow> 'thd"
type_synonym ('gap, 'thd) attach_gap = "'thd \<Rightarrow> 'gap \<Rightarrow> ulonglong \<Rightarrow> 'thd"

text \<open>The constructor leaves \<open>last_start\<close> as it finds it.\<close>

definition ett_new :: "ulonglong \<Rightarrow> 'gap exec_time_tracker" where
  "ett_new junk = \<lparr>ett_count = 0, ett_cycles = 0, last_start = junk, my_gap_tracker = None\<rparr>"

definition set_gap_tracker :: "'gap option \<Rightarrow> 'gap exec_time_tracker \<Rightarrow> 'gap exec_time_tracker" where
  "set_gap_tracker g t = t\<lparr>my_gap_tracker := g\<rparr>"

definition start_tracking :: "'thd process_gap \<Rightarrow> ulonglong \<Rightarrow> 'gap exec_time_tracker \<times> 'thd \<Rightarrow> 'gap exec_time_tracker \<times> 'thd" where
  "start_tracking process now s = (let (t, thd) = s; t = t\<lparr>last_start := now\<rparr> in (t, process thd (last_start t)))"

definition cycles_stop_tracking ::
  "'thd process_gap \<Rightarrow> ('gap, 'thd) attach_gap \<Rightarrow> ulonglong \<Rightarrow> 'gap exec_time_tracker \<times> 'thd \<Rightarrow> 'gap exec_time_tracker \<times> 'thd" where
  "cycles_stop_tracking process attach now s =
     (let (t, thd) = s; t = t\<lparr>ett_cycles := ett_cycles t + (now - last_start t)\<rparr>; thd = process thd now
      in (t, case my_gap_tracker t of Some g \<Rightarrow> attach thd g now | None \<Rightarrow> thd))"

definition stop_tracking ::
  "'thd process_gap \<Rightarrow> ('gap, 'thd) attach_gap \<Rightarrow> ulonglong \<Rightarrow> 'gap exec_time_tracker \<times> 'thd \<Rightarrow> 'gap exec_time_tracker \<times> 'thd" where
  "stop_tracking process attach now s = (let (t, thd) = s in cycles_stop_tracking process attach now (t\<lparr>ett_count := ett_count t + 1\<rparr>, thd))"

definition cycles_to_ms :: "real \<Rightarrow> ulonglong \<Rightarrow> real" where "cycles_to_ms frequency cycles_arg = 1000 * real (unat cycles_arg) / frequency"

definition get_time_ms :: "real \<Rightarrow> 'gap exec_time_tracker \<Rightarrow> real" where "get_time_ms frequency t = cycles_to_ms frequency (ett_cycles t)"

definition has_timed_statistics :: "'gap exec_time_tracker \<Rightarrow> bool" where "has_timed_statistics t \<longleftrightarrow> ett_cycles t > 0"

record gap_time_tracker = gap_cycles :: ulonglong

definition gap_new :: gap_time_tracker where "gap_new = \<lparr>gap_cycles = 0\<rparr>"

definition log_time :: "ulonglong \<Rightarrow> ulonglong \<Rightarrow> gap_time_tracker \<Rightarrow> gap_time_tracker" where "log_time start fin g = g\<lparr>gap_cycles := gap_cycles g + (fin - start)\<rparr>"

definition gap_time_ms :: "real \<Rightarrow> gap_time_tracker \<Rightarrow> real" where "gap_time_ms frequency g = 1000 * real (unat (gap_cycles g)) / frequency"

text \<open>\<open>Time_and_counter_tracker\<close>: the base class and the constant \<open>timed\<close>.\<close>

record 'gap tc_tracker = tc_base :: "'gap exec_time_tracker"
  timed :: bool

definition tc_new :: "ulonglong \<Rightarrow> bool \<Rightarrow> 'gap tc_tracker" where "tc_new junk timed_arg = \<lparr>tc_base = ett_new junk, timed = timed_arg\<rparr>"

definition incr_loops :: "'gap tc_tracker \<Rightarrow> 'gap tc_tracker" where "incr_loops t = t\<lparr>tc_base := (tc_base t)\<lparr>ett_count := ett_count (tc_base t) + 1\<rparr>\<rparr>"

definition tc_stop_tracking ::
  "'thd process_gap \<Rightarrow> ('gap, 'thd) attach_gap \<Rightarrow> ulonglong \<Rightarrow> 'gap tc_tracker \<times> 'thd \<Rightarrow> 'gap tc_tracker \<times> 'thd" where
  "tc_stop_tracking process attach now s = (let (t, thd) = s; (b, thd) = cycles_stop_tracking process attach now (tc_base t, thd) in (t\<lparr>tc_base := b\<rparr>, thd))"

definition ANALYZE_START_TRACKING :: "'thd process_gap \<Rightarrow> ulonglong \<Rightarrow> 'gap tc_tracker \<times> 'thd \<Rightarrow> 'gap tc_tracker \<times> 'thd" where
  "ANALYZE_START_TRACKING process now s =
     (let (t, thd) = s; t = incr_loops t
      in if timed t then let (b, thd) = start_tracking process now (tc_base t, thd) in (t\<lparr>tc_base := b\<rparr>, thd) else (t, thd))"

definition ANALYZE_STOP_TRACKING :: "'thd process_gap \<Rightarrow> ('gap, 'thd) attach_gap \<Rightarrow> ulonglong \<Rightarrow> 'gap tc_tracker \<times> 'thd \<Rightarrow> 'gap tc_tracker \<times> 'thd" where
  "ANALYZE_STOP_TRACKING process attach now s = (if timed (fst s) then tc_stop_tracking process attach now s else s)"

section \<open>Counters\<close>

record counter_tracker = ct_r_scans :: ulonglong

definition ct_new :: counter_tracker where "ct_new = \<lparr>ct_r_scans = 0\<rparr>"

definition ct_on_scan_init :: "counter_tracker \<Rightarrow> counter_tracker" where "ct_on_scan_init c = c\<lparr>ct_r_scans := ct_r_scans c + 1\<rparr>"

definition ct_has_scans :: "counter_tracker \<Rightarrow> bool" where "ct_has_scans c \<longleftrightarrow> ct_r_scans c \<noteq> 0"

record table_access_tracker =
  r_scans :: ulonglong
  r_rows :: ulonglong
  r_rows_after_where :: ulonglong

definition tat_new :: table_access_tracker where "tat_new = \<lparr>r_scans = 0, r_rows = 0, r_rows_after_where = 0\<rparr>"

definition get_avg_rows :: "table_access_tracker \<Rightarrow> real" where
  "get_avg_rows t = (if r_scans t \<noteq> 0 then real (unat (r_rows t)) / real (unat (r_scans t)) else 0)"

definition get_filtered_after_where :: "table_access_tracker \<Rightarrow> real" where
  "get_filtered_after_where t = (if r_rows t > 0 then real (unat (r_rows_after_where t)) / real (unat (r_rows t)) else 1)"

definition on_scan_init :: "table_access_tracker \<Rightarrow> table_access_tracker" where "on_scan_init t = t\<lparr>r_scans := r_scans t + 1\<rparr>"

definition on_record_read :: "table_access_tracker \<Rightarrow> table_access_tracker" where "on_record_read t = t\<lparr>r_rows := r_rows t + 1\<rparr>"

definition on_record_after_where :: "table_access_tracker \<Rightarrow> table_access_tracker" where
  "on_record_after_where t = t\<lparr>r_rows_after_where := r_rows_after_where t + 1\<rparr>"

definition tat_has_scans :: "table_access_tracker \<Rightarrow> bool" where "tat_has_scans t \<longleftrightarrow> r_scans t \<noteq> 0"

section \<open>Filesort\<close>

record 'gap filesort_tracker =
  fs_time :: "'gap tc_tracker"
  r_limit :: ulonglong
  r_used_pq :: ulonglong
  r_examined_rows :: ulonglong
  r_sorted_rows :: ulonglong
  r_output_rows :: ulonglong
  sort_passes :: ulonglong
  sort_buffer_size :: ulonglong
  r_using_addons :: bool
  r_packed_addon_fields :: bool
  r_sort_keys_packed :: bool

definition fs_new :: "ulonglong \<Rightarrow> bool \<Rightarrow> 'gap filesort_tracker" where
  "fs_new junk do_timing = \<lparr>fs_time = tc_new junk do_timing, r_limit = 0, r_used_pq = 0, r_examined_rows = 0, r_sorted_rows = 0, r_output_rows = 0, sort_passes = 0,
     sort_buffer_size = 0, r_using_addons = False, r_packed_addon_fields = False, r_sort_keys_packed = False\<rparr>"

definition get_r_loops :: "'gap filesort_tracker \<Rightarrow> ulonglong" where "get_r_loops t = ett_count (tc_base (fs_time t))"

definition report_use :: "'thd process_gap \<Rightarrow> ulonglong \<Rightarrow> ulonglong \<Rightarrow> 'gap filesort_tracker \<times> 'thd \<Rightarrow> 'gap filesort_tracker \<times> 'thd" where
  "report_use process now r_limit_arg s =
     (let (t, thd) = s;
          t = (if get_r_loops t = 0 then t\<lparr>r_limit := r_limit_arg\<rparr> else t\<lparr>r_limit := (if r_limit t \<noteq> r_limit_arg then 0 else r_limit_arg)\<rparr>);
          (tc, thd) = ANALYZE_START_TRACKING process now (fs_time t, thd)
      in (t\<lparr>fs_time := tc\<rparr>, thd))"

definition incr_pq_used :: "'gap filesort_tracker \<Rightarrow> 'gap filesort_tracker" where "incr_pq_used t = t\<lparr>r_used_pq := r_used_pq t + 1\<rparr>"

definition report_row_numbers :: "ulonglong \<Rightarrow> ulonglong \<Rightarrow> ulonglong \<Rightarrow> 'gap filesort_tracker \<Rightarrow> 'gap filesort_tracker" where
  "report_row_numbers examined_rows sorted_rows returned_rows t =
     t\<lparr>r_examined_rows := r_examined_rows t + examined_rows, r_sorted_rows := r_sorted_rows t + sorted_rows, r_output_rows := r_output_rows t + returned_rows\<rparr>"

definition report_merge_passes_at_start :: "uint \<Rightarrow> 'gap filesort_tracker \<Rightarrow> 'gap filesort_tracker" where
  "report_merge_passes_at_start passes t = t\<lparr>sort_passes := sort_passes t - ucast passes\<rparr>"

definition report_merge_passes_at_end ::
  "'thd process_gap \<Rightarrow> ('gap, 'thd) attach_gap \<Rightarrow> ulonglong \<Rightarrow> uint \<Rightarrow> 'gap filesort_tracker \<times> 'thd \<Rightarrow> 'gap filesort_tracker \<times> 'thd" where
  "report_merge_passes_at_end process attach now passes s =
     (let (t, thd) = s; (tc, thd) = ANALYZE_STOP_TRACKING process attach now (fs_time t, thd)
      in (t\<lparr>fs_time := tc, sort_passes := sort_passes t + ucast passes\<rparr>, thd))"

definition report_sort_buffer_size :: "ulonglong \<Rightarrow> 'gap filesort_tracker \<Rightarrow> 'gap filesort_tracker" where
  "report_sort_buffer_size bufsize t = (if sort_buffer_size t \<noteq> 0 then t\<lparr>sort_buffer_size := - 1\<rparr> else t\<lparr>sort_buffer_size := bufsize\<rparr>)"

definition report_addon_fields_format :: "bool \<Rightarrow> 'gap filesort_tracker \<Rightarrow> 'gap filesort_tracker" where
  "report_addon_fields_format addons_packed t = t\<lparr>r_using_addons := True, r_packed_addon_fields := addons_packed\<rparr>"

definition report_sort_keys_format :: "bool \<Rightarrow> 'gap filesort_tracker \<Rightarrow> 'gap filesort_tracker" where
  "report_sort_keys_format sort_keys_packed t = t\<lparr>r_sort_keys_packed := sort_keys_packed\<rparr>"

definition div_double :: "ulonglong \<Rightarrow> ulonglong \<Rightarrow> real option" where
  "div_double a b = (if b = 0 then None else Some (real (unat a) / real (unat b)))"

definition get_avg_examined_rows :: "'gap filesort_tracker \<Rightarrow> real option" where "get_avg_examined_rows t = div_double (r_examined_rows t) (get_r_loops t)"

definition get_avg_returned_rows :: "'gap filesort_tracker \<Rightarrow> real option" where "get_avg_returned_rows t = div_double (r_output_rows t) (get_r_loops t)"

definition get_r_filtered :: "'gap filesort_tracker \<Rightarrow> real" where
  "get_r_filtered t = (if r_examined_rows t > 0 then real (unat (r_sorted_rows t)) / real (unat (r_examined_rows t)) else 1)"

section \<open>Rowid filters\<close>

record 'gap rowid_filter_tracker =
  rf_time :: "'gap tc_tracker"
  container_buff_size :: ulonglong
  container_elements :: uint
  n_checks :: uint
  n_positive_checks :: uint

definition rf_new :: "ulonglong \<Rightarrow> bool \<Rightarrow> 'gap rowid_filter_tracker" where
  "rf_new junk do_timing = \<lparr>rf_time = tc_new junk do_timing, container_buff_size = 0, container_elements = 0, n_checks = 0, n_positive_checks = 0\<rparr>"

definition rf_start_tracking :: "'thd process_gap \<Rightarrow> ulonglong \<Rightarrow> 'gap rowid_filter_tracker \<times> 'thd \<Rightarrow> 'gap rowid_filter_tracker \<times> 'thd" where
  "rf_start_tracking process now s = (let (t, thd) = s; (tc, thd) = ANALYZE_START_TRACKING process now (rf_time t, thd) in (t\<lparr>rf_time := tc\<rparr>, thd))"

definition rf_stop_tracking ::
  "'thd process_gap \<Rightarrow> ('gap, 'thd) attach_gap \<Rightarrow> ulonglong \<Rightarrow> 'gap rowid_filter_tracker \<times> 'thd \<Rightarrow> 'gap rowid_filter_tracker \<times> 'thd" where
  "rf_stop_tracking process attach now s = (let (t, thd) = s; (tc, thd) = ANALYZE_STOP_TRACKING process attach now (rf_time t, thd) in (t\<lparr>rf_time := tc\<rparr>, thd))"

text \<open>The product and the quotient are computed in \<open>uint\<close>, then widened.\<close>

definition report_container_buff_size :: "uint \<Rightarrow> 'gap rowid_filter_tracker \<Rightarrow> 'gap rowid_filter_tracker" where
  "report_container_buff_size elem_size t = t\<lparr>container_buff_size := ucast (container_elements t * elem_size div 8)\<rparr>"

definition increment_checked_elements_count :: "bool \<Rightarrow> 'gap rowid_filter_tracker \<Rightarrow> 'gap rowid_filter_tracker" where
  "increment_checked_elements_count was_checked t =
     (let t = t\<lparr>n_checks := n_checks t + 1\<rparr> in if was_checked then t\<lparr>n_positive_checks := n_positive_checks t + 1\<rparr> else t)"

definition set_container_elements_count :: "uint \<Rightarrow> 'gap rowid_filter_tracker \<Rightarrow> 'gap rowid_filter_tracker" where
  "set_container_elements_count elements t = t\<lparr>container_elements := elements\<rparr>"

definition get_r_selectivity_pct :: "'gap rowid_filter_tracker \<Rightarrow> real" where
  "get_r_selectivity_pct t = (if n_checks t \<noteq> 0 then real (unat (n_positive_checks t)) / real (unat (n_checks t)) else 0)"


section \<open>What the trackers report\<close>

text \<open>One run of \<open>filesort\<close>: it reports its use, the merge passes at its start, the rows and the merge passes at its end.\<close>

record fs_run =
  run_start :: ulonglong
  run_stop :: ulonglong
  run_limit :: ulonglong
  run_examined :: ulonglong
  run_sorted :: ulonglong
  run_returned :: ulonglong
  passes_before :: uint
  passes_after :: uint

definition track_run :: "'thd process_gap \<Rightarrow> ('gap, 'thd) attach_gap \<Rightarrow> fs_run \<Rightarrow> 'gap filesort_tracker \<times> 'thd \<Rightarrow> 'gap filesort_tracker \<times> 'thd" where
  "track_run process attach r s =
     (let (t, thd) = report_use process (run_start r) (run_limit r) s;
          t = report_merge_passes_at_start (passes_before r) t;
          t = report_row_numbers (run_examined r) (run_sorted r) (run_returned r) t
      in report_merge_passes_at_end process attach (run_stop r) (passes_after r) (t, thd))"

fun track_runs :: "'thd process_gap \<Rightarrow> ('gap, 'thd) attach_gap \<Rightarrow> fs_run list \<Rightarrow> 'gap filesort_tracker \<times> 'thd \<Rightarrow> 'gap filesort_tracker \<times> 'thd" where
  "track_runs process attach [] s = s"
| "track_runs process attach (r # rs) s = track_runs process attach rs (track_run process attach r s)"

lemma analyze_start:
  "fst (ANALYZE_START_TRACKING process now s) =
     (fst s)\<lparr>tc_base := (tc_base (fst s))\<lparr>ett_count := ett_count (tc_base (fst s)) + 1, last_start := if timed (fst s) then now else last_start (tc_base (fst s))\<rparr>\<rparr>"
  by (cases "timed (fst s)") (simp_all add: ANALYZE_START_TRACKING_def incr_loops_def start_tracking_def Let_def split_beta)

lemma analyze_stop:
  "fst (ANALYZE_STOP_TRACKING process attach now s) =
     (fst s)\<lparr>tc_base := (tc_base (fst s))\<lparr>ett_cycles := if timed (fst s) then ett_cycles (tc_base (fst s)) + (now - last_start (tc_base (fst s))) else ett_cycles (tc_base (fst s))\<rparr>\<rparr>"
  by (cases "timed (fst s)") (simp_all add: ANALYZE_STOP_TRACKING_def tc_stop_tracking_def cycles_stop_tracking_def Let_def split_beta)

text \<open>The tracker after a run.\<close>

lemma track_run_fst:
  "fst (track_run process attach r s) =
     (let t = fst s; b = tc_base (fs_time t) in
      t\<lparr>fs_time := (fs_time t)\<lparr>tc_base := b\<lparr>ett_count := ett_count b + 1, last_start := if timed (fs_time t) then run_start r else last_start b,
            ett_cycles := if timed (fs_time t) then ett_cycles b + (run_stop r - run_start r) else ett_cycles b\<rparr>\<rparr>,
        r_limit := if get_r_loops t = 0 then run_limit r else if r_limit t \<noteq> run_limit r then 0 else run_limit r,
        r_examined_rows := r_examined_rows t + run_examined r, r_sorted_rows := r_sorted_rows t + run_sorted r, r_output_rows := r_output_rows t + run_returned r,
        sort_passes := sort_passes t - ucast (passes_before r) + ucast (passes_after r)\<rparr>)"
proof -
  obtain t thd where s: "s = (t, thd)" by fastforce
  define u where "u = t\<lparr>r_limit := if get_r_loops t = 0 then run_limit r else if r_limit t \<noteq> run_limit r then 0 else run_limit r\<rparr>"
  have "fst (report_use process (run_start r) (run_limit r) s) = u\<lparr>fs_time := fst (ANALYZE_START_TRACKING process (run_start r) (fs_time u, thd))\<rparr>"
    by (simp add: report_use_def s u_def Let_def split_beta)
  then have "fst (track_run process attach r s) = (report_row_numbers (run_examined r) (run_sorted r) (run_returned r) (report_merge_passes_at_start (passes_before r)
      (u\<lparr>fs_time := fst (ANALYZE_START_TRACKING process (run_start r) (fs_time u, thd))\<rparr>)))
      \<lparr>fs_time := fst (ANALYZE_STOP_TRACKING process attach (run_stop r) (fst (ANALYZE_START_TRACKING process (run_start r) (fs_time u, thd)), snd (report_use process (run_start r) (run_limit r) s))),
       sort_passes := sort_passes t - ucast (passes_before r) + ucast (passes_after r)\<rparr>"
    by (simp add: track_run_def report_merge_passes_at_end_def report_row_numbers_def report_merge_passes_at_start_def u_def Let_def split_beta)
  then show ?thesis
    by (simp add: s analyze_start analyze_stop report_row_numbers_def report_merge_passes_at_start_def u_def Let_def)
qed

lemma track_run_effect:
  fixes s :: "'gap filesort_tracker \<times> 'thd"
  shows "get_r_loops (fst (track_run process attach r s)) = get_r_loops (fst s) + 1"
    "timed (fs_time (fst (track_run process attach r s))) = timed (fs_time (fst s))"
    "ett_cycles (tc_base (fs_time (fst (track_run process attach r s)))) = ett_cycles (tc_base (fs_time (fst s))) + (if timed (fs_time (fst s)) then run_stop r - run_start r else 0)"
    "r_limit (fst (track_run process attach r s)) =
       (if get_r_loops (fst s) = 0 then run_limit r else if r_limit (fst s) \<noteq> run_limit r then 0 else run_limit r)"
    "r_examined_rows (fst (track_run process attach r s)) = r_examined_rows (fst s) + run_examined r"
    "r_sorted_rows (fst (track_run process attach r s)) = r_sorted_rows (fst s) + run_sorted r"
    "r_output_rows (fst (track_run process attach r s)) = r_output_rows (fst s) + run_returned r"
    "sort_passes (fst (track_run process attach r s)) = sort_passes (fst s) + (ucast (passes_after r) - ucast (passes_before r))"
  by (simp_all add: track_run_fst get_r_loops_def Let_def)

lemma track_runs_effect:
  "get_r_loops (fst (track_runs process attach rs s)) = get_r_loops (fst s) + of_nat (length rs)"
  "ett_cycles (tc_base (fs_time (fst (track_runs process attach rs s)))) =
     ett_cycles (tc_base (fs_time (fst s))) + (if timed (fs_time (fst s)) then \<Sum>r\<leftarrow>rs. run_stop r - run_start r else 0)"
  "r_examined_rows (fst (track_runs process attach rs s)) = r_examined_rows (fst s) + (\<Sum>r\<leftarrow>rs. run_examined r)"
  "r_sorted_rows (fst (track_runs process attach rs s)) = r_sorted_rows (fst s) + (\<Sum>r\<leftarrow>rs. run_sorted r)"
  "r_output_rows (fst (track_runs process attach rs s)) = r_output_rows (fst s) + (\<Sum>r\<leftarrow>rs. run_returned r)"
  "sort_passes (fst (track_runs process attach rs s)) = sort_passes (fst s) + (\<Sum>r\<leftarrow>rs. ucast (passes_after r) - ucast (passes_before r))"
  by (induction rs arbitrary: s) (simp_all add: track_run_effect add.assoc)

text \<open>Once a run has been counted, the limit stays while the runs agree on it, and 0 marks that they do not; no run has the limit 0.\<close>

lemma track_runs_limit:
  assumes "unat (get_r_loops (fst s)) + length rs < 2 ^ 64" "get_r_loops (fst s) \<noteq> 0" "\<forall>r\<in>set rs. run_limit r \<noteq> 0"
  shows "r_limit (fst (track_runs process attach rs s)) = (if \<forall>r\<in>set rs. run_limit r = r_limit (fst s) then r_limit (fst s) else 0)"
  using assms
proof (induction rs arbitrary: s)
  case (Cons r rs)
  let ?s = "track_run process attach r s"
  have "unat (get_r_loops (fst s)) + 1 < 2 ^ 64" using Cons.prems(1) by simp
  then have l: "unat (get_r_loops (fst ?s)) = unat (get_r_loops (fst s)) + 1" by (simp add: track_run_effect(1) unat_word_ariths)
  then have "get_r_loops (fst ?s) \<noteq> 0" by (metis unat_0 add_is_0 one_neq_zero)
  moreover have "unat (get_r_loops (fst ?s)) + length rs < 2 ^ 64" using l Cons.prems(1) by simp
  ultimately have "r_limit (fst (track_runs process attach rs ?s)) = (if \<forall>r\<in>set rs. run_limit r = r_limit (fst ?s) then r_limit (fst ?s) else 0)"
    using Cons.prems(3) by (intro Cons.IH) simp_all
  then show ?case using Cons.prems(2,3) by (auto simp: track_run_effect(4))
qed simp

lemma unat_sum_list: "(\<Sum>x\<leftarrow>xs. unat (f x)) < 2 ^ LENGTH('a) \<Longrightarrow> unat (\<Sum>x\<leftarrow>xs. f x) = (\<Sum>x\<leftarrow>xs. unat (f x))" for f :: "'b \<Rightarrow> 'a::len word"
  by (induction xs) (simp_all add: unat_word_ariths)

text \<open>C37. The tracker of a filesort summarises its runs, whatever the connection does with the gaps: the loops are the number of runs, the limit is the common limit of all
  runs or 0 when they differ, the merge passes and, when timed, the cycles are the sums of the differences, modulo the width of the counters; and without overflow the
  averages are those of the rows examined and returned, none of them defined before the first run.
\<close>

theorem filesort_tracker_summary:
  assumes "\<forall>r\<in>set rs. run_limit r \<noteq> 0" "length rs < 2 ^ 64" "(\<Sum>r\<leftarrow>rs. unat (run_examined r)) < 2 ^ 64" "(\<Sum>r\<leftarrow>rs. unat (run_returned r)) < 2 ^ 64"
    "t = fst (track_runs process attach rs (fs_new junk do_timing, thd))"
  shows "unat (get_r_loops t) = length rs \<and>
    r_limit t = (if rs \<noteq> [] \<and> (\<forall>r\<in>set rs. run_limit r = run_limit (hd rs)) then run_limit (hd rs) else 0) \<and>
    sort_passes t = (\<Sum>r\<leftarrow>rs. ucast (passes_after r) - ucast (passes_before r)) \<and>
    ett_cycles (tc_base (fs_time t)) = (if do_timing then \<Sum>r\<leftarrow>rs. run_stop r - run_start r else 0) \<and>
    get_avg_examined_rows t = (if rs = [] then None else Some (real (\<Sum>r\<leftarrow>rs. unat (run_examined r)) / real (length rs))) \<and>
    get_avg_returned_rows t = (if rs = [] then None else Some (real (\<Sum>r\<leftarrow>rs. unat (run_returned r)) / real (length rs)))"
proof -
  let ?s = "(fs_new junk do_timing, thd)"
  have n: "get_r_loops (fst ?s) = 0" "timed (fs_time (fst ?s)) = do_timing" "ett_cycles (tc_base (fs_time (fst ?s))) = 0" "r_examined_rows (fst ?s) = 0"
    "r_output_rows (fst ?s) = 0" "sort_passes (fst ?s) = 0" "r_limit (fst ?s) = 0"
    by (simp_all add: fs_new_def tc_new_def ett_new_def get_r_loops_def)
  have "get_r_loops t = of_nat (length rs)" unfolding assms(5) track_runs_effect n by simp
  then have l: "unat (get_r_loops t) = length rs" using assms(2) by (simp add: unat_of_nat)
  then have z: "get_r_loops t = 0 \<longleftrightarrow> rs = []" by (metis length_0_conv unat_eq_0)
  have r: "r_limit t = (if rs \<noteq> [] \<and> (\<forall>r\<in>set rs. run_limit r = run_limit (hd rs)) then run_limit (hd rs) else 0)"
  proof (cases rs)
    case Nil
    then show ?thesis using n by (simp add: assms(5))
  next
    case (Cons q qs)
    let ?q = "track_run process attach q ?s"
    have "get_r_loops (fst ?q) = 1" "r_limit (fst ?q) = run_limit q" unfolding track_run_effect n by simp_all
    then show ?thesis using track_runs_limit [of ?q qs process attach] assms(1,2) by (simp add: Cons assms(5))
  qed
  have "unat (r_examined_rows t) = (\<Sum>r\<leftarrow>rs. unat (run_examined r))" "unat (r_output_rows t) = (\<Sum>r\<leftarrow>rs. unat (run_returned r))"
    unfolding assms(5) track_runs_effect n using assms(3,4) by (simp_all add: unat_sum_list)
  then have "get_avg_examined_rows t = (if rs = [] then None else Some (real (\<Sum>r\<leftarrow>rs. unat (run_examined r)) / real (length rs)))"
    "get_avg_returned_rows t = (if rs = [] then None else Some (real (\<Sum>r\<leftarrow>rs. unat (run_returned r)) / real (length rs)))"
    using l z by (simp_all add: get_avg_examined_rows_def get_avg_returned_rows_def div_double_def)
  moreover have "sort_passes t = (\<Sum>r\<leftarrow>rs. ucast (passes_after r) - ucast (passes_before r))"
    "ett_cycles (tc_base (fs_time t)) = (if do_timing then \<Sum>r\<leftarrow>rs. run_stop r - run_start r else 0)"
    unfolding assms(5) track_runs_effect n by simp_all
  ultimately show ?thesis using l r by blast
qed

definition sample_run :: "ulonglong \<Rightarrow> ulonglong \<Rightarrow> ulonglong \<Rightarrow> fs_run" where
  "sample_run b e limit = \<lparr>run_start = b, run_stop = e, run_limit = limit, run_examined = 10, run_sorted = 8, run_returned = 5, passes_before = 3, passes_after = 4\<rparr>"

theorem filesort_tracker_summary_witness:
  "r_limit (fst (track_runs (\<lambda>thd _. thd) (\<lambda>thd _ _. thd) [sample_run 100 150 5, sample_run 200 270 5] (fs_new 0 True :: nat filesort_tracker, ()))) = 5 \<and>
   ett_cycles (tc_base (fs_time (fst (track_runs (\<lambda>thd _. thd) (\<lambda>thd _ _. thd) [sample_run 100 150 5, sample_run 200 270 5] (fs_new 0 True :: nat filesort_tracker, ()))))) = 120"
proof -
  let ?t = "fst (track_runs (\<lambda>thd _. thd) (\<lambda>thd _ _. thd) [sample_run 100 150 5, sample_run 200 270 5] (fs_new 0 True :: nat filesort_tracker, ()))"
  from filesort_tracker_summary [of "[sample_run 100 150 5, sample_run 200 270 5]" ?t, OF _ _ _ _ refl] show ?thesis
    by (simp add: sample_run_def)
qed

text \<open>A second report of the size of the sort buffer marks several sizes, also when it is the same size.\<close>

lemma same_buffer_size_twice:
  assumes "n \<noteq> 0"
  shows "sort_buffer_size (report_sort_buffer_size n (report_sort_buffer_size n (fs_new junk timing))) = - 1"
  using assms by (simp add: report_sort_buffer_size_def fs_new_def)

text \<open>The size of the container of a rowid filter is computed in 32 bits: it is the number of bytes only while the number of bits has 32.\<close>

lemma container_buff_size_wraps:
  "unat (container_elements t) * unat e < 2 ^ 32 \<Longrightarrow> unat (container_buff_size (report_container_buff_size e t)) = unat (container_elements t) * unat e div 8"
  "container_elements t = 2 ^ 27 \<Longrightarrow> container_buff_size (report_container_buff_size 64 t) = 0"
proof -
  assume "unat (container_elements t) * unat e < 2 ^ 32"
  then have "unat (container_elements t * e) = unat (container_elements t) * unat e" by (simp add: unat_word_ariths)
  moreover have "unat (container_elements t * e) div 8 < 2 ^ 64" using unat_bound [of "container_elements t * e"] by simp
  ultimately show "unat (container_buff_size (report_container_buff_size e t)) = unat (container_elements t) * unat e div 8"
    by (simp add: report_container_buff_size_def unsigned_ucast_eq unat_div_distrib take_bit_nat_eq_self)
next
  assume "container_elements t = 2 ^ 27"
  then show "container_buff_size (report_container_buff_size 64 t) = 0" by (simp add: report_container_buff_size_def)
qed

end
