(* ===== verification/Lex_Charset.thy ===== *)
theory Lex_Charset
  imports Charset_Collations
begin

text \<open>
  The character set clauses of the parser, \<open>lex_charset.h\<close>, and the data type descriptions and options of \<open>structs.h\<close>. A \<open>CHARSET_INFO\<close> pointer is its
  record, \<^const>\<open>None\<close> where it can be null; the global character sets and the routines that are only declared (searches for collations, merging of collations) are the record
  \<open>lex_lib\<close>. The result \<^const>\<open>None\<close> of an operation is a failed assertion; a \<open>bool\<close> result is true for an error, as in the source.
\<close>

section \<open>Character sets and collations\<close>

record lex_lib =
  contextually_typed_default :: charset_info
  contextually_typed_binary :: charset_info
  utf8mb3_bin :: charset_info
  utf8mb3_general_ci :: charset_info
  find_bin_collation :: "charset_info \<Rightarrow> charset_info option"
  find_compiled_default_collation :: "charset_info \<Rightarrow> charset_info option"
  find_mapped_default_collation :: "uint \<Rightarrow> ccmap \<Rightarrow> charset_info \<Rightarrow> charset_info option \<times> uint"

definition lex_exact_charset :: "charset_info option \<Rightarrow> charset_info option" where
  "lex_exact_charset ci = do { ci \<leftarrow> ci; (if state_primary ci then Some ci else None) }"

definition lex_context_collation :: "charset_info option \<Rightarrow> charset_info option" where "lex_context_collation ci = ci"

definition is_collate_default :: "lex_lib \<Rightarrow> charset_info \<Rightarrow> bool" where "is_collate_default lib ci \<longleftrightarrow> ci = contextually_typed_default lib"

definition is_binary_style :: "lex_lib \<Rightarrow> charset_info \<Rightarrow> bool" where "is_binary_style lib ci \<longleftrightarrow> ci = contextually_typed_binary lib"

definition lex_exact_collation :: "charset_info option \<Rightarrow> charset_info option" where "lex_exact_collation ci = ci"

datatype collation_type = TYPE_EXACT | TYPE_CONTEXTUALLY_TYPED

record extended_collation =
  ec_ci :: "charset_info option"
  ec_type :: collation_type

definition extended_set_collate_default :: "lex_lib \<Rightarrow> extended_collation \<Rightarrow> extended_collation" where
  "extended_set_collate_default lib c = c\<lparr>ec_ci := Some (contextually_typed_default lib), ec_type := TYPE_CONTEXTUALLY_TYPED\<rparr>"

record opt_context_charset = m_had_charset_default :: bool

definition opt_context_init :: opt_context_charset where "opt_context_init = \<lparr>m_had_charset_default = False\<rparr>"

definition merge_charset_default :: "opt_context_charset \<Rightarrow> opt_context_charset" where "merge_charset_default c = c\<lparr>m_had_charset_default := True\<rparr>"

definition opt_context_is_empty :: "opt_context_charset \<Rightarrow> bool" where "opt_context_is_empty c \<longleftrightarrow> \<not> m_had_charset_default c"

text \<open>\<open>CHARACTER SET cs [COLLATE cl]\<close>.\<close>

record charset_opt_collate =
  co_ci :: charset_info
  with_collate :: bool

definition charset_opt_collate_make :: "charset_info option \<Rightarrow> bool \<Rightarrow> charset_opt_collate option" where
  "charset_opt_collate_make ci w = do { ci \<leftarrow> ci; (if state_primary ci \<or> w then Some \<lparr>co_ci = ci, with_collate = w\<rparr> else None) }"

definition opt_collate_of_charset :: "charset_info \<Rightarrow> charset_opt_collate option" where
  "opt_collate_of_charset cs = (if state_primary cs then Some \<lparr>co_ci = cs, with_collate = False\<rparr> else None)"

definition opt_collate_of_collation :: "charset_info \<Rightarrow> charset_opt_collate option" where
  "opt_collate_of_collation cl = Some \<lparr>co_ci = cl, with_collate = True\<rparr>"

definition opt_collate_charset :: "lex_lib \<Rightarrow> charset_opt_collate \<Rightarrow> charset_info option" where
  "opt_collate_charset lib c = (if state_primary (co_ci c) then lex_exact_charset (Some (co_ci c)) else lex_exact_charset (find_compiled_default_collation lib (co_ci c)))"

section \<open>The attributes of a column\<close>

datatype attrs_type = TYPE_EMPTY | TYPE_CHARACTER_SET | TYPE_COLLATE_EXACT | TYPE_CHARACTER_SET_COLLATE_EXACT | TYPE_COLLATE_CONTEXTUALLY_TYPED

primrec type_code :: "attrs_type \<Rightarrow> uchar" where
  "type_code TYPE_EMPTY = 0"
| "type_code TYPE_CHARACTER_SET = 1"
| "type_code TYPE_COLLATE_EXACT = 2"
| "type_code TYPE_CHARACTER_SET_COLLATE_EXACT = 3"
| "type_code TYPE_COLLATE_CONTEXTUALLY_TYPED = 4"

text \<open>The conversion back, for the codes an enumerator has.\<close>

definition code_type :: "uchar \<Rightarrow> attrs_type option" where
  "code_type c = (if c = 0 then Some TYPE_EMPTY else if c = 1 then Some TYPE_CHARACTER_SET else if c = 2 then Some TYPE_COLLATE_EXACT
     else if c = 3 then Some TYPE_CHARACTER_SET_COLLATE_EXACT else if c = 4 then Some TYPE_COLLATE_CONTEXTUALLY_TYPED else None)"

definition LEX_CHARSET_COLLATION_TYPE_BITS :: nat where "LEX_CHARSET_COLLATION_TYPE_BITS = 3"
definition LEX_CHARSET_COLLATION_TYPE_MASK :: uchar where "LEX_CHARSET_COLLATION_TYPE_MASK = push_bit LEX_CHARSET_COLLATION_TYPE_BITS 1 - 1"

record charset_attrs =
  at_ci :: "charset_info option"
  at_type :: attrs_type

primrec type_from_lex_collation_type :: "collation_type \<Rightarrow> attrs_type" where
  "type_from_lex_collation_type TYPE_EXACT = TYPE_COLLATE_EXACT"
| "type_from_lex_collation_type TYPE_CONTEXTUALLY_TYPED = TYPE_COLLATE_CONTEXTUALLY_TYPED"

definition attrs_init :: charset_attrs where "attrs_init = \<lparr>at_ci = None, at_type = TYPE_EMPTY\<rparr>"

definition attrs_init_type :: "charset_info option \<Rightarrow> attrs_type \<Rightarrow> charset_attrs option" where
  "attrs_init_type cs t = (if cs \<noteq> None \<or> t = TYPE_EMPTY then Some \<lparr>at_ci = cs, at_type = t\<rparr> else None)"

definition attrs_of_charset :: "charset_info \<Rightarrow> charset_attrs" where "attrs_of_charset cs = \<lparr>at_ci = Some cs, at_type = TYPE_CHARACTER_SET\<rparr>"

definition attrs_of_collation :: "charset_info \<Rightarrow> charset_attrs" where "attrs_of_collation cl = \<lparr>at_ci = Some cl, at_type = TYPE_COLLATE_EXACT\<rparr>"

definition attrs_of_opt_collate :: "lex_lib \<Rightarrow> charset_opt_collate \<Rightarrow> charset_attrs option" where
  "attrs_of_opt_collate lib c =
     (if with_collate c then attrs_init_type (Some (co_ci c)) TYPE_CHARACTER_SET_COLLATE_EXACT else do { cs \<leftarrow> opt_collate_charset lib c; Some (attrs_of_charset cs) })"

definition attrs_of_extended :: "extended_collation \<Rightarrow> charset_attrs option" where
  "attrs_of_extended cl = attrs_init_type (ec_ci cl) (type_from_lex_collation_type (ec_type cl))"

definition attrs_is_empty :: "charset_attrs \<Rightarrow> bool" where "attrs_is_empty a \<longleftrightarrow> at_type a = TYPE_EMPTY"

definition set_charset :: "charset_info \<Rightarrow> charset_attrs \<Rightarrow> charset_attrs" where "set_charset cs a = a\<lparr>at_ci := Some cs, at_type := TYPE_CHARACTER_SET\<rparr>"

definition set_charset_collate_default :: "lex_lib \<Rightarrow> uint \<Rightarrow> ccmap \<Rightarrow> charset_info \<Rightarrow> charset_attrs \<Rightarrow> (bool \<times> uint \<times> charset_attrs) option" where
  "set_charset_collate_default lib used m cs a = do {
     c \<leftarrow> opt_collate_of_charset cs;
     let (ci, used) = find_mapped_default_collation lib used m (co_ci c);
     Some (case ci of None \<Rightarrow> (True, used, a) | Some ci \<Rightarrow> (False, used, a\<lparr>at_ci := Some ci, at_type := TYPE_CHARACTER_SET_COLLATE_EXACT\<rparr>)) }"

definition set_charset_collate_binary :: "lex_lib \<Rightarrow> charset_info \<Rightarrow> charset_attrs \<Rightarrow> (bool \<times> charset_attrs) option" where
  "set_charset_collate_binary lib cs a = do {
     c \<leftarrow> opt_collate_of_charset cs;
     Some (case find_bin_collation lib (co_ci c) of None \<Rightarrow> (True, a) | Some ci \<Rightarrow> (False, a\<lparr>at_ci := Some ci, at_type := TYPE_CHARACTER_SET_COLLATE_EXACT\<rparr>)) }"

definition set_collate_default :: "lex_lib \<Rightarrow> charset_attrs \<Rightarrow> charset_attrs" where
  "set_collate_default lib a = a\<lparr>at_ci := Some (contextually_typed_default lib), at_type := TYPE_COLLATE_CONTEXTUALLY_TYPED\<rparr>"

definition set_contextually_typed_binary_style :: "lex_lib \<Rightarrow> charset_attrs \<Rightarrow> charset_attrs" where
  "set_contextually_typed_binary_style lib a = a\<lparr>at_ci := Some (contextually_typed_binary lib), at_type := TYPE_COLLATE_CONTEXTUALLY_TYPED\<rparr>"

text \<open>The collation of the attributes, with the default collations the session has chosen for character sets.\<close>

definition charset_info_mapped :: "uint \<Rightarrow> ccmap \<Rightarrow> charset_attrs \<Rightarrow> (charset_info option \<times> uint) option" where
  "charset_info_mapped used m a =
     (case at_type a of
        TYPE_CHARACTER_SET \<Rightarrow> do { ci \<leftarrow> at_ci a; (cl, used) \<leftarrow> get_collation_for_charset used ci m; Some (Some cl, used) }
      | _ \<Rightarrow> Some (at_ci a, used))"

definition is_contextually_typed_collation :: "charset_attrs \<Rightarrow> bool" where
  "is_contextually_typed_collation a \<longleftrightarrow> at_type a = TYPE_COLLATE_CONTEXTUALLY_TYPED"

type_synonym merge_exact = "charset_info \<Rightarrow> charset_attrs \<Rightarrow> bool \<times> charset_attrs"
type_synonym merge_context = "uint \<Rightarrow> ccmap \<Rightarrow> charset_info \<Rightarrow> charset_attrs \<Rightarrow> bool \<times> uint \<times> charset_attrs"

definition merge_column_charset_clause_and_collate_clause ::
  "merge_exact \<Rightarrow> merge_context \<Rightarrow> uint \<Rightarrow> ccmap \<Rightarrow> charset_attrs \<Rightarrow> charset_attrs \<Rightarrow> (bool \<times> uint \<times> charset_attrs) option" where
  "merge_column_charset_clause_and_collate_clause mex mctx used m cl a =
     (case at_type cl of
        TYPE_EMPTY \<Rightarrow> Some (False, used, a)
      | TYPE_COLLATE_EXACT \<Rightarrow> do { ci \<leftarrow> lex_exact_collation (at_ci cl); (let (err, a) = mex ci a in Some (err, used, a)) }
      | TYPE_COLLATE_CONTEXTUALLY_TYPED \<Rightarrow> do { ci \<leftarrow> lex_context_collation (at_ci cl); Some (mctx used m ci a) }
      | _ \<Rightarrow> None)"

definition merge_column_collate_clause_and_collate_clause ::
  "merge_exact \<Rightarrow> merge_context \<Rightarrow> uint \<Rightarrow> ccmap \<Rightarrow> charset_attrs \<Rightarrow> charset_attrs \<Rightarrow> (bool \<times> uint \<times> charset_attrs) option" where
  "merge_column_collate_clause_and_collate_clause mex mctx used m cl a =
     (if at_type a = TYPE_CHARACTER_SET then None
      else case at_type cl of
        TYPE_EMPTY \<Rightarrow> Some (False, used, a)
      | TYPE_COLLATE_EXACT \<Rightarrow> do { ci \<leftarrow> lex_exact_collation (at_ci cl); (let (err, a) = mex ci a in Some (err, used, a)) }
      | TYPE_COLLATE_CONTEXTUALLY_TYPED \<Rightarrow> do { ci \<leftarrow> lex_context_collation (at_ci cl); Some (mctx used m ci a) }
      | _ \<Rightarrow> None)"

definition national :: "lex_lib \<Rightarrow> bool \<Rightarrow> charset_attrs" where
  "national lib bin_mod = (if bin_mod then \<lparr>at_ci = Some (utf8mb3_bin lib), at_type = TYPE_COLLATE_EXACT\<rparr> else \<lparr>at_ci = Some (utf8mb3_general_ci lib), at_type = TYPE_CHARACTER_SET\<rparr>)"

text \<open>The container for tables: a context character set, the attributes, and which of them came first.\<close>

datatype charset_order = CHARSET_TYPE_EMPTY | CHARSET_TYPE_CONTEXT | CHARSET_TYPE_EXACT

record table_attrs =
  ta_context :: opt_context_charset
  ta_attrs :: charset_attrs
  m_charset_order :: charset_order

definition table_attrs_init :: table_attrs where "table_attrs_init = \<lparr>ta_context = opt_context_init, ta_attrs = attrs_init, m_charset_order = CHARSET_TYPE_EMPTY\<rparr>"

definition table_attrs_of :: "lex_lib \<Rightarrow> charset_opt_collate \<Rightarrow> table_attrs option" where
  "table_attrs_of lib c = do { a \<leftarrow> attrs_of_opt_collate lib c; Some \<lparr>ta_context = opt_context_init, ta_attrs = a, m_charset_order = CHARSET_TYPE_EXACT\<rparr> }"

definition table_attrs_is_empty :: "table_attrs \<Rightarrow> bool" where "table_attrs_is_empty t \<longleftrightarrow> opt_context_is_empty (ta_context t) \<and> attrs_is_empty (ta_attrs t)"

definition charset_collation_context :: "charset_info \<Rightarrow> charset_info \<Rightarrow> (charset_opt_collate \<times> charset_info) option" where
  "charset_collation_context charset_default collate_default = do {
     c \<leftarrow> charset_opt_collate_make (Some charset_default) (\<not> state_primary charset_default);
     cl \<leftarrow> lex_exact_collation (Some collate_default);
     Some (c, cl) }"


section \<open>Data types and options\<close>

text \<open>\<open>Lex_length_and_dec_st\<close>: the length and the decimals of a data type as the parser has found them.\<close>

record length_and_dec =
  m_length :: uint
  m_dec :: uchar
  m_collation_type :: uchar
  m_has_explicit_length :: bool
  m_has_explicit_dec :: bool
  m_length_overflowed :: bool
  m_dec_overflowed :: bool

definition ld_reset :: length_and_dec where
  "ld_reset = \<lparr>m_length = 0, m_dec = 0, m_collation_type = 0, m_has_explicit_length = False, m_has_explicit_dec = False, m_length_overflowed = False, m_dec_overflowed = False\<rparr>"

definition set_length_only :: "uint \<Rightarrow> length_and_dec" where
  "set_length_only len =
     \<lparr>m_length = len, m_dec = 0, m_collation_type = 0, m_has_explicit_length = True, m_has_explicit_dec = False, m_length_overflowed = False, m_dec_overflowed = False\<rparr>"

definition set_dec_only :: "uchar \<Rightarrow> length_and_dec" where
  "set_dec_only dec =
     \<lparr>m_length = 0, m_dec = dec, m_collation_type = 0, m_has_explicit_length = False, m_has_explicit_dec = True, m_length_overflowed = False, m_dec_overflowed = False\<rparr>"

definition set_length_and_dec :: "uint \<Rightarrow> uchar \<Rightarrow> length_and_dec" where
  "set_length_and_dec len dec =
     \<lparr>m_length = len, m_dec = dec, m_collation_type = 0, m_has_explicit_length = True, m_has_explicit_dec = True, m_length_overflowed = False, m_dec_overflowed = False\<rparr>"

text \<open>\<open>Lex_field_type_st\<close>: a type handler, a character set and the base class.\<close>

record field_type =
  ft_ld :: length_and_dec
  m_handler :: nat
  ft_ci :: "charset_info option"

definition field_type_set :: "nat \<Rightarrow> length_and_dec \<Rightarrow> charset_info option \<Rightarrow> field_type" where
  "field_type_set handler ld cs = \<lparr>ft_ld = ld, m_handler = handler, ft_ci = cs\<rparr>"

definition field_type_set_coll :: "nat \<Rightarrow> length_and_dec \<Rightarrow> charset_attrs \<Rightarrow> field_type" where
  "field_type_set_coll handler ld coll =
     \<lparr>ft_ld = ld\<lparr>m_collation_type := type_code (at_type coll) AND LEX_CHARSET_COLLATION_TYPE_MASK\<rparr>, m_handler = handler, ft_ci = at_ci coll\<rparr>"

definition field_type_set_attrs :: "nat \<Rightarrow> charset_attrs \<Rightarrow> field_type" where
  "field_type_set_attrs handler coll =
     \<lparr>ft_ld = ld_reset\<lparr>m_collation_type := type_code (at_type coll) AND LEX_CHARSET_COLLATION_TYPE_MASK\<rparr>, m_handler = handler, ft_ci = at_ci coll\<rparr>"

definition field_type_set_plain :: "nat \<Rightarrow> charset_info option \<Rightarrow> field_type" where
  "field_type_set_plain handler cs = \<lparr>ft_ld = ld_reset, m_handler = handler, ft_ci = cs\<rparr>"

definition set_handler_length :: "nat \<Rightarrow> uint \<Rightarrow> field_type" where
  "set_handler_length handler len = \<lparr>ft_ld = set_length_only len, m_handler = handler, ft_ci = None\<rparr>"

definition set_handler :: "nat \<Rightarrow> field_type \<Rightarrow> field_type" where "set_handler handler f = f\<lparr>m_handler := handler\<rparr>"

definition charset_collation_attrs :: "field_type \<Rightarrow> charset_attrs option" where
  "charset_collation_attrs f = do { t \<leftarrow> code_type (m_collation_type (ft_ld f)); attrs_init_type (ft_ci f) t }"

text \<open>\<open>Lex_dyncol_type_st\<close>; \<open>resolve\<close> is \<open>resolved_to_character_set\<close>, null for an error.\<close>

record dyncol_type =
  dt_ld :: length_and_dec
  dt_type :: int
  dt_ci :: "charset_info option"

definition dyncol_set :: "int \<Rightarrow> length_and_dec \<Rightarrow> charset_info option \<Rightarrow> dyncol_type" where "dyncol_set t ld cs = \<lparr>dt_ld = ld, dt_type = t, dt_ci = cs\<rparr>"

definition dyncol_set_type :: "int \<Rightarrow> dyncol_type" where "dyncol_set_type t = \<lparr>dt_ld = ld_reset, dt_type = t, dt_ci = None\<rparr>"

definition dyncol_set_charset :: "int \<Rightarrow> charset_info option \<Rightarrow> dyncol_type" where "dyncol_set_charset t cs = \<lparr>dt_ld = ld_reset, dt_type = t, dt_ci = cs\<rparr>"

definition dyncol_set_resolved ::
  "(uint \<Rightarrow> ccmap \<Rightarrow> charset_attrs \<Rightarrow> charset_info \<Rightarrow> charset_info option \<times> uint) \<Rightarrow> int \<Rightarrow> uint \<Rightarrow> ccmap \<Rightarrow> charset_attrs \<Rightarrow> charset_info \<Rightarrow> dyncol_type \<Rightarrow>
   bool \<times> uint \<times> dyncol_type" where
  "dyncol_set_resolved resolve t used m coll cs d =
     (let (tmp, used) = resolve used m coll cs in case tmp of None \<Rightarrow> (True, used, d) | Some ci \<Rightarrow> (False, used, dyncol_set_charset t (Some ci)))"

text \<open>\<open>DDL_options_st\<close>: the options of a statement as bits. \<open>operator|\<close> changes its left operand.\<close>

definition OPT_IF_NOT_EXISTS :: uint where "OPT_IF_NOT_EXISTS = 2"
definition OPT_LIKE :: uint where "OPT_LIKE = 4"
definition OPT_OR_REPLACE :: uint where "OPT_OR_REPLACE = 16"
definition OPT_OR_REPLACE_SLAVE_GENERATED :: uint where "OPT_OR_REPLACE_SLAVE_GENERATED = 32"
definition OPT_IF_EXISTS :: uint where "OPT_IF_EXISTS = 64"
definition OPT_CREATE_SELECT :: uint where "OPT_CREATE_SELECT = 128"
definition OPT_IMPORT_TABLESPACE :: uint where "OPT_IMPORT_TABLESPACE = 256"

record DDL_options = m_options :: uint

definition ddl_init :: "DDL_options" where "ddl_init = \<lparr>m_options = 0\<rparr>"

definition ddl_set :: "uint \<Rightarrow> DDL_options \<Rightarrow> DDL_options" where "ddl_set other d = d\<lparr>m_options := other\<rparr>"

definition create_like_options :: "DDL_options \<Rightarrow> uint" where "create_like_options d = m_options d AND (OPT_IF_NOT_EXISTS OR OPT_OR_REPLACE)"

definition if_not_exists :: "DDL_options \<Rightarrow> bool" where "if_not_exists d \<longleftrightarrow> m_options d AND OPT_IF_NOT_EXISTS \<noteq> 0"

definition or_replace :: "DDL_options \<Rightarrow> bool" where "or_replace d \<longleftrightarrow> m_options d AND OPT_OR_REPLACE \<noteq> 0"

definition or_replace_slave_generated :: "DDL_options \<Rightarrow> bool" where "or_replace_slave_generated d \<longleftrightarrow> m_options d AND OPT_OR_REPLACE_SLAVE_GENERATED \<noteq> 0"

definition ddl_like :: "DDL_options \<Rightarrow> bool" where "ddl_like d \<longleftrightarrow> m_options d AND OPT_LIKE \<noteq> 0"

definition if_exists :: "DDL_options \<Rightarrow> bool" where "if_exists d \<longleftrightarrow> m_options d AND OPT_IF_EXISTS \<noteq> 0"

definition is_create_select :: "DDL_options \<Rightarrow> bool" where "is_create_select d \<longleftrightarrow> m_options d AND OPT_CREATE_SELECT \<noteq> 0"

definition import_tablespace :: "DDL_options \<Rightarrow> bool" where "import_tablespace d \<longleftrightarrow> m_options d AND OPT_IMPORT_TABLESPACE \<noteq> 0"

definition ddl_add :: "uint \<Rightarrow> DDL_options \<Rightarrow> DDL_options" where "ddl_add other d = d\<lparr>m_options := m_options d OR other\<rparr>"

definition ddl_or :: "DDL_options \<Rightarrow> DDL_options \<Rightarrow> DDL_options \<times> DDL_options" where
  "ddl_or other d = (let d = ddl_add (m_options other) d in (d, d))"

definition ddl_or_eq :: "uint \<Rightarrow> DDL_options \<Rightarrow> DDL_options \<times> DDL_options" where "ddl_or_eq other d = (let d = ddl_add other d in (d, d))"

text \<open>\<open>Lex_spblock_st\<close>: the numbers of declarations in a block.\<close>

record spblock =
  sp_hndlrs :: int
  sp_vars :: int
  sp_conds :: int
  sp_curs :: int

definition spblock_init :: spblock where "spblock_init = \<lparr>sp_hndlrs = 0, sp_vars = 0, sp_conds = 0, sp_curs = 0\<rparr>"

definition spblock_init_using_vars :: "nat \<Rightarrow> spblock" where "spblock_init_using_vars nvars = \<lparr>sp_hndlrs = 0, sp_vars = int nvars, sp_conds = 0, sp_curs = 0\<rparr>"

definition spblock_of_handlers :: "int \<Rightarrow> spblock" where "spblock_of_handlers hndlrs = \<lparr>sp_hndlrs = hndlrs, sp_vars = 0, sp_conds = 0, sp_curs = 0\<rparr>"

definition spblock_join :: "spblock \<Rightarrow> spblock \<Rightarrow> spblock" where
  "spblock_join b1 b2 = \<lparr>sp_hndlrs = sp_hndlrs b1 + sp_hndlrs b2, sp_vars = sp_vars b1 + sp_vars b2, sp_conds = sp_conds b1 + sp_conds b2, sp_curs = sp_curs b1 + sp_curs b2\<rparr>"

text \<open>\<open>Lex_for_loop_bounds_intrange\<close>: the first and the last value of an integer loop; 0 is a null pointer.\<close>

record for_loop_bounds =
  fl_index :: nat
  fl_target_bound :: nat
  fl_direction :: int
  fl_implicit_cursor :: bool

definition is_for_loop_cursor :: "for_loop_bounds \<Rightarrow> bool" where "is_for_loop_cursor b \<longleftrightarrow> fl_target_bound b = 0"

definition for_loop_bounds_intrange :: "int \<Rightarrow> nat \<Rightarrow> nat \<Rightarrow> for_loop_bounds" where
  "for_loop_bounds_intrange direction left_expr right_expr =
     \<lparr>fl_index = (if direction > 0 then left_expr else right_expr), fl_target_bound = (if direction > 0 then right_expr else left_expr),
      fl_direction = direction, fl_implicit_cursor = False\<rparr>"


section \<open>Attributes built by the inline operations\<close>

text \<open>
  The attributes the constructors and setters of the header build. The routines that merge a \<open>CHARACTER SET\<close> clause with a \<open>COLLATE\<close> clause
  (\<open>merge_exact_charset\<close>, \<open>merge_exact_collation\<close>, \<open>merge_context_collation\<close>) are only declared there; what they build is not covered.
\<close>

inductive attrs_built :: "lex_lib \<Rightarrow> charset_attrs \<Rightarrow> bool" for lib where
  "attrs_built lib attrs_init"
| "lex_exact_charset ci = Some cs \<Longrightarrow> attrs_built lib (attrs_of_charset cs)"
| "lex_exact_collation ci = Some cl \<Longrightarrow> attrs_built lib (attrs_of_collation cl)"
| "attrs_of_opt_collate lib c = Some a \<Longrightarrow> attrs_built lib a"
| "attrs_of_extended cl = Some a \<Longrightarrow> attrs_built lib a"
| "attrs_built lib (national lib bin_mod)"
| "attrs_built lib a \<Longrightarrow> lex_exact_charset ci = Some cs \<Longrightarrow> attrs_built lib (set_charset cs a)"
| "attrs_built lib a \<Longrightarrow> set_charset_collate_default lib used m cs a = Some (err, used', a') \<Longrightarrow> attrs_built lib a'"
| "attrs_built lib a \<Longrightarrow> set_charset_collate_binary lib cs a = Some (err, a') \<Longrightarrow> attrs_built lib a'"
| "attrs_built lib a \<Longrightarrow> attrs_built lib (set_collate_default lib a)"
| "attrs_built lib a \<Longrightarrow> attrs_built lib (set_contextually_typed_binary_style lib a)"

text \<open>Only empty attributes have no character set, and one without a collation is a primary one.\<close>

definition attrs_ok :: "charset_attrs \<Rightarrow> bool" where
  "attrs_ok a \<longleftrightarrow> (at_ci a = None \<longleftrightarrow> at_type a = TYPE_EMPTY) \<and> (at_type a = TYPE_CHARACTER_SET \<longrightarrow> (\<exists>ci. at_ci a = Some ci \<and> state_primary ci))"

lemma lex_exact_charset_primary: "lex_exact_charset ci = Some cs \<Longrightarrow> state_primary cs"
  by (auto simp: lex_exact_charset_def split: bind_splits if_splits)

lemma attrs_init_type_ok: "attrs_init_type ci t = Some a \<Longrightarrow> t \<noteq> TYPE_EMPTY \<Longrightarrow> t \<noteq> TYPE_CHARACTER_SET \<Longrightarrow> attrs_ok a"
  by (auto simp: attrs_init_type_def attrs_ok_def split: if_splits)

lemma attrs_built_ok:
  assumes "attrs_built lib a" "state_primary (utf8mb3_general_ci lib)"
  shows "attrs_ok a"
  using assms(1)
proof induction
  case (4 c a)
  then show ?case using attrs_init_type_ok lex_exact_charset_primary
    by (auto simp: attrs_of_opt_collate_def opt_collate_charset_def attrs_of_charset_def attrs_ok_def split: if_splits bind_splits)
next
  case (5 cl a)
  then show ?case using attrs_init_type_ok [of "ec_ci cl" "type_from_lex_collation_type (ec_type cl)" a] by (cases "ec_type cl") (auto simp: attrs_of_extended_def)
next
  case (8 a used m cs err used' a')
  then show ?case by (auto simp: set_charset_collate_default_def attrs_ok_def split: bind_splits option.splits prod.splits)
next
  case (9 a cs err a')
  then show ?case by (auto simp: set_charset_collate_binary_def attrs_ok_def split: bind_splits option.splits)
qed (use assms(2) lex_exact_charset_primary in
     \<open>auto simp: attrs_init_def attrs_of_charset_def attrs_of_collation_def national_def set_charset_def set_collate_default_def set_contextually_typed_binary_style_def attrs_ok_def\<close>)

lemma code_type_code: "code_type (type_code t AND LEX_CHARSET_COLLATION_TYPE_MASK) = Some t"
  by (cases t) (simp_all add: code_type_def LEX_CHARSET_COLLATION_TYPE_MASK_def LEX_CHARSET_COLLATION_TYPE_BITS_def)

text \<open>The character set attributes of a column that the constructors and setters build, without a merge of two clauses, are consistent: only empty ones have no character set; a character set without a collation
  resolves through the map of the session to the collation chosen for it, or to itself, without failing an assertion, and the use is recorded; any other collation is what the
  statement says. Stored in a data type, in three bits, they are read back unchanged.
\<close>

theorem column_charset_attrs:
  assumes "attrs_built lib a" "state_primary (utf8mb3_general_ci lib)" "ccwf m"
  shows "(at_ci a = None \<longleftrightarrow> attrs_is_empty a) \<and>
    charset_info_mapped used m a =
      (if at_type a = TYPE_CHARACTER_SET
       then Some (Some (case lookup m (number (the (at_ci a))) of Some cl \<Rightarrow> cl | None \<Rightarrow> the (at_ci a)), used OR CHARACTER_SET_COLLATIONS_USED)
       else Some (at_ci a, used)) \<and>
    charset_collation_attrs (field_type_set_coll h ld a) = Some a \<and> charset_collation_attrs (field_type_set_attrs h a) = Some a"
proof -
  have ok: "attrs_ok a" by (rule attrs_built_ok [OF assms(1,2)])
  then have "charset_collation_attrs (field_type_set_coll h ld a) = Some a" "charset_collation_attrs (field_type_set_attrs h a) = Some a"
    by (auto simp: charset_collation_attrs_def field_type_set_coll_def field_type_set_attrs_def code_type_code attrs_init_type_def attrs_ok_def)
  moreover have "charset_info_mapped used m a =
      (if at_type a = TYPE_CHARACTER_SET
       then Some (Some (case lookup m (number (the (at_ci a))) of Some cl \<Rightarrow> cl | None \<Rightarrow> the (at_ci a)), used OR CHARACTER_SET_COLLATIONS_USED)
       else Some (at_ci a, used))"
    using ok get_collation_correct [OF assms(3)] by (cases "at_type a") (auto simp: charset_info_mapped_def attrs_ok_def split: option.split)
  ultimately show ?thesis using ok by (simp add: attrs_ok_def attrs_is_empty_def)
qed

definition sample_lib :: lex_lib where
  "sample_lib = \<lparr>contextually_typed_default = charset 1000, contextually_typed_binary = charset 1001, utf8mb3_bin = charset 83, utf8mb3_general_ci = charset 33,
     find_bin_collation = (\<lambda>_. None), find_compiled_default_collation = Some, find_mapped_default_collation = (\<lambda>u _ c. (Some c, u))\<rparr>"

theorem column_charset_attrs_witness:
  "charset_info_mapped 1 two_pairs (attrs_of_charset (charset 45)) = Some (Some (charset 300), 17)"
proof -
  have "attrs_built sample_lib (attrs_of_charset (charset 45))"
    by (rule attrs_built.intros(2) [of "Some (charset 45)"]) (simp add: lex_exact_charset_def charset_def)
  from column_charset_attrs [OF this _ two_pairs_wf(1), of 1 0 ld_reset] show ?thesis
    by (simp add: sample_lib_def attrs_of_charset_def charset_def CHARACTER_SET_COLLATIONS_USED_def lookup_def two_pairs_wf(2))
qed

section \<open>Options\<close>

lemma ddl_flag: "(m OR v) AND f \<noteq> 0 \<longleftrightarrow> m AND f \<noteq> 0 \<or> v AND f \<noteq> 0" for m v f :: uint
  by (simp add: bit.conj_disj_distrib2 or_eq_0_iff)

text \<open>Adding options adds their flags and no others; the plain \<open>|\<close> also changes the options it is applied to.\<close>

lemma ddl_add_flags:
  "if_not_exists (ddl_add v d) \<longleftrightarrow> if_not_exists d \<or> if_not_exists \<lparr>m_options = v\<rparr>"
  "or_replace (ddl_add v d) \<longleftrightarrow> or_replace d \<or> or_replace \<lparr>m_options = v\<rparr>"
  "ddl_like (ddl_add v d) \<longleftrightarrow> ddl_like d \<or> ddl_like \<lparr>m_options = v\<rparr>"
  "if_exists (ddl_add v d) \<longleftrightarrow> if_exists d \<or> if_exists \<lparr>m_options = v\<rparr>"
  "fst (ddl_or e d) = ddl_add (m_options e) d" "snd (ddl_or e d) = ddl_add (m_options e) d"
  by (simp_all add: if_not_exists_def or_replace_def ddl_like_def if_exists_def ddl_add_def ddl_flag ddl_or_def Let_def)

end
