(* ===== verification/Span_View.thy ===== *)
theory Span_View
  imports Prelude "HOL-Library.Monad_Syntax"
begin

text \<open>
  \<open>st_::span\<close> of \<open>span.h\<close>: a pointer, counted in elements, and a number of elements. The memory is a function from element addresses to elements; \<^const>\<open>None\<close> is a failed
  assertion, or a range that ends in front of its start. \<open>span_view\<close> is the list a span denotes.
\<close>

record span =
  span_data :: nat
  span_size :: nat

definition span_new :: span where "span_new = \<lparr>span_data = 0, span_size = 0\<rparr>"

definition span_make :: "nat \<Rightarrow> nat \<Rightarrow> span" where "span_make p cnt = \<lparr>span_data = p, span_size = cnt\<rparr>"

definition span_range :: "nat \<Rightarrow> nat \<Rightarrow> span option" where
  "span_range frm til = (if frm \<le> til then Some \<lparr>span_data = frm, span_size = til - frm\<rparr> else None)"

definition span_empty :: "span \<Rightarrow> bool" where "span_empty s \<longleftrightarrow> span_size s = 0"

definition span_first :: "nat \<Rightarrow> span \<Rightarrow> span option" where
  "span_first cnt s = (if span_empty s then None else Some (span_make (span_data s) 1))"

definition span_last :: "nat \<Rightarrow> span \<Rightarrow> span option" where
  "span_last cnt s = (if span_empty s then None else Some (span_make (span_data s + span_size s - 1) 1))"

definition subspan :: "nat \<Rightarrow> nat \<Rightarrow> span \<Rightarrow> span option" where
  "subspan offset cnt s = (if span_empty s \<or> \<not> span_size s \<ge> offset + cnt then None else Some (span_make (span_data s + offset) cnt))"

definition size_bytes :: "nat \<Rightarrow> span \<Rightarrow> nat" where "size_bytes elem_size s = span_size s * elem_size"

definition span_at :: "(nat \<Rightarrow> 'a) \<Rightarrow> nat \<Rightarrow> span \<Rightarrow> 'a option" where
  "span_at mem idx s = (if span_size s > idx then Some (mem (span_data s + idx)) else None)"

definition span_front :: "(nat \<Rightarrow> 'a) \<Rightarrow> span \<Rightarrow> 'a option" where "span_front mem s = (if span_empty s then None else Some (mem (span_data s)))"

definition span_back :: "(nat \<Rightarrow> 'a) \<Rightarrow> span \<Rightarrow> 'a option" where
  "span_back mem s = (if span_empty s then None else Some (mem (span_data s + (span_size s - 1))))"

definition span_begin :: "span \<Rightarrow> nat" where "span_begin s = span_data s"

definition span_end :: "span \<Rightarrow> nat" where "span_end s = span_data s + span_size s"

section \<open>Spans as lists\<close>

definition span_view :: "(nat \<Rightarrow> 'a) \<Rightarrow> span \<Rightarrow> 'a list" where "span_view mem s = map mem [span_begin s..<span_end s]"

text \<open>A span is the list of its elements: indexing, front and back are those of the list and fail outside it, a sub-span is the part of the list and the constructors
  give the elements they are asked for. The members \<open>first\<close> and \<open>last\<close>, however, give one element for every count.
\<close>

theorem span_is_list:
  "span_at mem i s = (if i < length (span_view mem s) then Some (span_view mem s ! i) else None) \<and>
   span_front mem s = (case span_view mem s of [] \<Rightarrow> None | x # _ \<Rightarrow> Some x) \<and>
   span_back mem s = (if span_view mem s = [] then None else Some (last (span_view mem s))) \<and>
   map_option (span_view mem) (subspan offset cnt s) =
     (if span_view mem s = [] \<or> length (span_view mem s) < offset + cnt then None else Some (take cnt (drop offset (span_view mem s)))) \<and>
   map_option (span_view mem) (span_range p q) = (if p \<le> q then Some (map mem [p..<q]) else None) \<and> span_view mem (span_make p cnt) = map mem [p..<p + cnt] \<and>
   map_option (span_view mem) (span_first cnt s) = (if span_view mem s = [] then None else Some (take 1 (span_view mem s))) \<and>
   map_option (span_view mem) (span_last cnt s) = (if span_view mem s = [] then None else Some [last (span_view mem s)])"
proof -
  have v: "length (span_view mem s) = span_size s" "span_view mem s = [] \<longleftrightarrow> span_size s = 0" "\<And>i. i < span_size s \<Longrightarrow> span_view mem s ! i = mem (span_data s + i)"
    by (auto simp: span_view_def span_begin_def span_end_def)
  have l: "last (span_view mem s) = mem (span_data s + (span_size s - 1))" if "span_size s \<noteq> 0"
    using that v by (subst last_conv_nth) simp_all
  have f: "(case span_view mem s of [] \<Rightarrow> None | x # _ \<Rightarrow> Some x) = (if span_size s = 0 then None else Some (mem (span_data s)))"
    "take 1 (span_view mem s) = (if span_size s = 0 then [] else [mem (span_data s)])"
    using v(1,2) v(3) [of 0] by (cases "span_view mem s"; auto)+
  have "map mem [span_data s + offset..<span_data s + offset + cnt] = take cnt (drop offset (span_view mem s))" if "offset + cnt \<le> span_size s"
    using that by (simp add: span_view_def span_begin_def span_end_def drop_map take_map ac_simps)
  moreover have "[p..<p + (q - p)] = [p..<q]" by (cases "p \<le> q") simp_all
  moreover have "[span_data s + span_size s - 1..<span_data s + span_size s] = [span_data s + (span_size s - 1)]" if "span_size s \<noteq> 0"
    using that by (cases "span_size s") simp_all
  ultimately show ?thesis using v l f
    by (auto simp: span_at_def span_front_def span_back_def subspan_def span_empty_def span_first_def span_last_def span_range_def span_make_def
        span_view_def [of _ "\<lparr>span_data = _, span_size = _\<rparr>"] span_begin_def span_end_def not_le)
qed

end
