(* ===== verification/Spec2Isabelle.thy ===== *)
theory Spec2Isabelle
  imports Sql_Bitmap Sql_Type_Int Lifo_Buffer Sql_List_Sort Sql_Ilist Sql_Plist Ilist Privilege Myisampack
    Thread_Cache Mem_Root_Array Window_Func Sql_String Win32_Window
    Hash_Filo Charset_Collations Spatial Sql_Limit Simple_Tokenizer Temporal_Types Opt_Range Tranx_Alloc Histogram Filesort_Buffer
    Sort_Record Bounded_Queue Binlog_Cache Discrete_Interval Sequence_Values Loose_Scan Analyze_Trackers Lex_Charset Span_View
begin

text \<open>
  A verification library for the native code of the car-rental application.

  The program. The application is a Flutter client (\<open>bousselha-flutter\<close>), a Spring Boot backend (\<open>bousselha-backend\<close>) and a bundled MariaDB
  server (\<open>standalone_bundle\<close>), started and stopped by batch files. Its native code is the Windows runner that hosts the client
  (\<open>bousselha-flutter/windows/runner\<close>, C++) and the headers of the server (\<open>standalone_bundle/mariadb/include/mysql\<close>, C and C++), of which the
  ones that carry bodies are modelled: the containers, numbers, strings, times and small algorithms that the server's SQL layer is
  built from. The server's compiled sources are not in the repository.

  Conventions. A machine integer is a word of its width (the bundle is for 64-bit Windows: \<open>int\<close>, \<open>uint\<close>, \<open>long\<close> and \<open>ulong\<close> have 32 bits,
  \<open>longlong\<close>, \<open>ulonglong\<close> and \<open>size_t\<close> have 64), read by \<open>unat\<close> or \<open>sint\<close>; an object is a record, or an address in an explicit heap where aliasing
  matters. A function that can fail an assertion, read outside its memory, dereference a null pointer or divide by
  zero returns an option, and \<^const>\<open>None\<close> stands for that; a failed allocation is an ordinary result decided by a parameter. Doubles are real
  numbers, with a rounding parameter where the result depends on it. Functions that the headers only declare, system calls and
  callbacks are parameters; what is documented of them is a named hypothesis of the theorem, and its witness has an instance.

  The theories, in the order of their use.
  \<^item> \<open>Prelude\<close>: names of the machine types, collections of facts, lemmas on words, numbers and lists.
  \<^item> \<open>My_Bit\<close> (\<open>my_bit.h\<close>), \<open>Sql_Bitmap\<close> (\<open>sql_bitmap.h\<close>): bit routines against the binary digits; \<open>Bitmap\<close> as a set of bits, all its loops and
    its iterator, with the shift that makes \<open>print\<close> undefined.
  \<^item> \<open>Sql_Type_Int\<close> (\<open>sql_type_int.h\<close>): the integer classes with a null flag or a signedness; comparison, absolute value, shifts, and the
    multiplication with overflow detection.
  \<^item> \<open>Temporal\<close>, \<open>Temporal_Types\<close> (\<open>mysql_time.h\<close>, \<open>my_time.h\<close>, \<open>sql_time.h\<close>, \<open>sql_basic_types.h\<close>, \<open>sql_type.h\<close>, \<open>sql_type_timeofday.h\<close>): conversion modes,
    fixed-point seconds, times, dates, datetimes, timestamps and the extraction of fields; the class invariants, rounding, sums, round trips
    and the absence of overflow. Theorems on constructors and modifiers say which assertions can fail and that the result has a valid state.
  \<^item> \<open>Lifo_Buffer\<close> (\<open>sql_lifo_buffer.h\<close>): the two buffers of the multi-range read; the locale \<open>lifo\<close> states what they share, and both are
    instances of it.
  \<^item> \<open>Sql_List\<close>, \<open>Sql_List_Sort\<close> (\<open>sql_list.h\<close>): \<open>base_list\<close> and its iterators on a heap of nodes with a shared sentinel, and \<open>bubble_sort\<close>.
  \<^item> \<open>Intrusive_List\<close>, \<open>Sql_Ilist\<close>, \<open>Sql_Plist\<close>, \<open>Ilist\<close> (\<open>sql_list.h\<close>, \<open>sql_plist.h\<close>, \<open>ilist.h\<close>): the intrusive lists. The locale \<open>intrusive_list\<close> is the
    contract on sequences, with the simulation of whole operation sequences proved once; the list classes interpret it.
  \<^item> \<open>Privilege\<close> (\<open>privilege.h\<close>): privilege bits and their compact layouts in the grant tables; the locale \<open>rights_layout\<close> gives the round
    trips of every level.
  \<^item> \<open>Myisampack\<close> (\<open>myisampack.h\<close>): numbers stored with the high byte first, so that byte order is number order.
  \<^item> \<open>Thread_Cache\<close> (\<open>thread_cache.h\<close>): the idle threads as a step relation over all interleavings of parking, enqueueing and flushing threads;
    invariants by rule induction, progress of a flush, the flush that waits for ever beside another one, and a run in which an unlocked increment is lost.
  \<^item> \<open>Mem_Root_Array\<close> (\<open>mem_root_array.h\<close>): the vector with uninitialised, live and destroyed slots.
  \<^item> \<open>Window_Func\<close> (\<open>item_windowfunc.h\<close>, \<open>item_sum.h\<close>): the window functions and their evaluation in passes over a partition.
  \<^item> \<open>Sql_String\<close> (\<open>sql_string.h\<close>): \<open>Binary_string\<close> with explicit memory blocks, their owners, growth and appending from
    pointers, with the source inside of the own buffer as the case that fails after a reallocation.
  \<^item> \<open>Tranx_Alloc\<close> (\<open>semisync_master.h\<close>): the node allocator of the semi-synchronous replication, blocks in a linked list with explicit addresses; the locale
    \<open>node_queue\<close> is its contract as a sequence of nodes, with the client's runs proved once. \<open>Link_Path\<close> has the linked sequences it shares with the next theory.
  \<^item> \<open>Hash_Filo\<close> (\<open>hash_filo.h\<close>): the cache refines the least-recently-used list, given a hash table that behaves as a map.
  \<^item> \<open>Charset_Collations\<close> (\<open>charset_collations.h\<close>): the sorted array of at most eight pairs as a finite map, its text and binary forms.
  \<^item> \<open>Opt_Range\<close> (\<open>opt_range.h\<close>): the elementary intervals of the range optimizer against their sets of key values, and the mutual recursion that writes
    the ends of a multi-part range into a key buffer.
  \<^item> \<open>Filesort_Buffer\<close> (\<open>filesort_utils.h\<close>): records packed from one end of a buffer and pointers to them from the other, with explicit addresses.
  \<^item> \<open>Sort_Record\<close> (\<open>sql_sort.h\<close>, \<open>sql_array.h\<close>): the records of a sort in their packed and fixed formats, found by the length fields in memory, and the chunks of a
    merge with the buffers they hand over. \<open>Bounded_Queue\<close> (\<open>bounded_queue.h\<close>, \<open>queues.h\<close>): the queue that keeps the best keys of a sort with a limit,
    on a heap whose declared routines are parameters.
  \<^item> \<open>Io_Cache\<close> (\<open>my_sys.h\<close>), \<open>Binlog_Cache\<close> (\<open>log_cache.h\<close>): the file cache as the stream written or read through it, and on it the binary log cache of a
    transaction, a step relation with statements undone, savepoints restored and resets, whose invariant is proved by rule induction;
    every failure of \<open>reinit_io_cache\<close> is the failed assertion behind it.
  \<^item> \<open>Discrete_Interval\<close> (\<open>structs.h\<close>), \<open>Sequence_Values\<close> (\<open>sql_sequence.h\<close>): intervals of generated values as sets, with the list a statement consumes them
    from, and the values of a sequence up to its bound with the signed overflows made explicit.
  \<^item> \<open>Loose_Scan\<close> (\<open>opt_subselect.h\<close>): the choice of an index for the LooseScan strategy; every state of a search simulates the list of plans offered under
    conditions stated on sets of equalities and key parts, and keeps the cheapest of them. \<open>Analyze_Trackers\<close> (\<open>sql_analyze_stmt.h\<close>): the counters and averages that \<open>ANALYZE\<close> prints.
  \<^item> \<open>Lex_Charset\<close> (\<open>lex_charset.h\<close>, \<open>structs.h\<close>): the character set clauses and type descriptions of the parser, resolved through \<open>Charset_Collations\<close>.
    \<open>Span_View\<close> (\<open>span.h\<close>): spans as lists.
  \<^item> \<open>Histogram\<close> (\<open>sql_statistics.h\<close>): histograms of scaled fractions with the search for a bucket, counters and column statistics. \<open>Byte_Order\<close> has the
    numbers with the low byte first it shares with \<open>Charset_Collations\<close> and \<open>Sort_Record\<close>.
  \<^item> \<open>Spatial\<close> (\<open>spatial.h\<close>): bounding rectangles against their sets of points.
  \<^item> \<open>Sql_Limit\<close> (\<open>sql_limit.h\<close>), \<open>Simple_Tokenizer\<close> (\<open>simple_tokenizer.h\<close>): row counters and the tokenizer.
  \<^item> \<open>Runner_Utils\<close>, \<open>Win32_Window\<close> (\<open>utils.cpp\<close>, \<open>win32_window.cpp\<close>, \<open>flutter_window.cpp\<close>, \<open>main.cpp\<close>): the command line as UTF-8; the window objects
    with the system calling back into their handlers while a call is in progress, the calls that destroying a window makes, and the message loop.

  Bounds and fuel. Loops over data are structural or have a measure. Loops over a heap have fuel, and the theorems give the fuel that is enough
  (the length of the list; one pass per element for \<open>bubble_sort\<close>; the number of blocks for the node allocator; twice the rank of an acyclic graph of intervals,
  and 256 key parts; the width of a histogram). The loop that frees a list of intervals is a partial function, shown to end on every list. Calls of the window system nest through the handlers; the nesting depth is
  bounded by an argument and two levels are shown to be enough. The message loop has as much fuel as messages are delivered.

  Not modelled. The Java backend and the Dart client are in other languages than this library covers; the scripts only start programs and copy
  files; the Java runtime and the server's binaries have no sources here. The client headers and most server headers (\<open>item.h\<close>,
  \<open>sql_class.h\<close>, \<open>field.h\<close>, \<open>handler.h\<close>, \<open>sql_lex.h\<close>, \<open>log_event.h\<close>, \<open>table.h\<close>) declare classes whose methods are defined in sources that are not in the
  repository. In the modelled headers the methods that are only declared are left out or are parameters.
\<close>

end
